(* ===== verification/Prelude.thy ===== *)
theory Prelude
  imports Main "HOL-Library.Word"
begin

text \<open>
  Shared vocabulary of the development: C bytes and strings as lists of 8-bit words, the outcome
  of a C computation (a value, a fault of the abstract machine, or no result within the given
  fuel), bounds-checked reads and writes of arrays, the string functions of the C library the
  sources call, decimal and hexadecimal printing, and the generic lemmas and simp collections the
  component theories use.
\<close>

unbundle bit_operations_syntax

type_synonym byte = "8 word"
type_synonym cstring = "byte list" \<comment> \<open>the bytes before the terminating NUL\<close>

section \<open>Outcomes of C code\<close>

text \<open>
  \<open>Fault\<close> is a step for which the C standard gives no meaning (or \<open>exit\<close>); \<open>Timeout\<close> is the
  value of a loop whose fuel ran out.
\<close>

datatype fault =
    Out_of_bounds    \<comment> \<open>access outside the object a pointer points into\<close>
  | Null_pointer     \<comment> \<open>access through a null pointer\<close>
  | Dangling_pointer \<comment> \<open>access to an object that was freed\<close>
  | Bad_free         \<comment> \<open>\<open>free\<close> of a pointer that no allocation returned\<close>
  | Uninitialised    \<comment> \<open>use of an indeterminate value\<close>
  | Int_overflow     \<comment> \<open>arithmetic or a shift outside the range of the type\<close>
  | Exited int       \<comment> \<open>the process called \<open>exit\<close>\<close>

datatype 'a res = Ok 'a | Fault fault | Timeout

fun bindR :: "'a res \<Rightarrow> ('a \<Rightarrow> 'b res) \<Rightarrow> 'b res" where
  "bindR (Ok x) f = f x"
| "bindR (Fault e) f = Fault e"
| "bindR Timeout f = Timeout"

definition checkR :: "fault \<Rightarrow> bool \<Rightarrow> unit res" where
  "checkR e b = (if b then Ok () else Fault e)"

fun foldR :: "('a \<Rightarrow> 's \<Rightarrow> 's res) \<Rightarrow> 'a list \<Rightarrow> 's \<Rightarrow> 's res" where
  "foldR f [] s = Ok s"
| "foldR f (x # xs) s = bindR (f x s) (foldR f xs)"

section \<open>Arrays\<close>

definition rd :: "'a list \<Rightarrow> int \<Rightarrow> 'a res" where
  "rd b i = (if 0 \<le> i \<and> i < int (length b) then Ok (b ! nat i) else Fault Out_of_bounds)"

definition wr :: "'a list \<Rightarrow> int \<Rightarrow> 'a \<Rightarrow> 'a list res" where
  "wr b i v = (if 0 \<le> i \<and> i < int (length b) then Ok (b[nat i := v]) else Fault Out_of_bounds)"

text \<open>\<open>memcpy\<close>, \<open>memmove\<close> of a block \<open>v\<close> that was read before, to offset \<open>i\<close>.\<close>

definition wr_block :: "'a list \<Rightarrow> int \<Rightarrow> 'a list \<Rightarrow> 'a list res" where
  "wr_block b i v = (if 0 \<le> i \<and> i + int (length v) \<le> int (length b)
     then Ok (take (nat i) b @ v @ drop (nat i + length v) b) else Fault Out_of_bounds)"

definition rd_block :: "'a list \<Rightarrow> int \<Rightarrow> int \<Rightarrow> 'a list res" where
  "rd_block b i n = (if 0 \<le> i \<and> 0 \<le> n \<and> i + n \<le> int (length b)
     then Ok (take (nat n) (drop (nat i) b)) else Fault Out_of_bounds)"

section \<open>Descriptors\<close>

text \<open>
  What a descriptor delivers is a list of chunks, in the order they arrive; \<open>read\<close> takes at most
  \<open>n\<close> bytes of the first one. The end of the list is the \<open>read\<close> that returns 0 or an error, which
  the sources treat alike.
\<close>

fun sys_read :: "nat \<Rightarrow> byte list list \<Rightarrow> byte list \<times> byte list list" where
  "sys_read n [] = ([], [])"
| "sys_read n (c # cs) = (take n c, if length c \<le> n then cs else drop n c # cs)"

section \<open>Strings of the C library\<close>

definition bytes_of :: "string \<Rightarrow> byte list" where
  "bytes_of s = map (\<lambda>c. word_of_nat (of_char c)) s"

text \<open>\<open>strlen\<close> of what a pointer points to: the object must hold a NUL.\<close>

fun strlen :: "byte list \<Rightarrow> nat res" where
  "strlen [] = Fault Out_of_bounds"
| "strlen (b # bs) = (if b = 0 then Ok 0 else bindR (strlen bs) (\<lambda>n. Ok (Suc n)))"

text \<open>The bytes \<open>strncpy\<close> stores for a count of \<open>n\<close>: it stops reading at a NUL and pads.\<close>

fun strncpy :: "nat \<Rightarrow> byte list \<Rightarrow> byte list res" where
  "strncpy 0 src = Ok []"
| "strncpy (Suc n) [] = Fault Out_of_bounds"
| "strncpy (Suc n) (b # bs) =
     (if b = 0 then Ok (replicate (Suc n) 0) else bindR (strncpy n bs) (\<lambda>r. Ok (b # r)))"

text \<open>\<open>strncmp a b n = 0\<close>\<close>

fun strncmp_eq :: "byte list \<Rightarrow> byte list \<Rightarrow> nat \<Rightarrow> bool res" where
  "strncmp_eq a b 0 = Ok True"
| "strncmp_eq [] b (Suc n) = Fault Out_of_bounds"
| "strncmp_eq a [] (Suc n) = Fault Out_of_bounds"
| "strncmp_eq (x # a) (y # b) (Suc n) =
     (if x \<noteq> y then Ok False else if x = 0 then Ok True else strncmp_eq a b n)"

definition cstr :: "byte list \<Rightarrow> cstring" where
  "cstr b = takeWhile (\<lambda>x. x \<noteq> 0) b"

text \<open>\<open>%d\<close>, \<open>%lu\<close> and \<open>%p\<close>.\<close>

fun digits_of :: "nat \<Rightarrow> nat \<Rightarrow> nat list" where
  "digits_of base n = (if n < base \<or> base < 2 then [n] else digits_of base (n div base) @ [n mod base])"

declare digits_of.simps [simp del]

definition digit_char :: "nat \<Rightarrow> byte" where
  "digit_char d = word_of_nat (if d < 10 then 48 + d else 87 + d)"

definition dec_nat :: "nat \<Rightarrow> cstring" where
  "dec_nat n = map digit_char (digits_of 10 n)"

definition dec_int :: "int \<Rightarrow> cstring" where
  "dec_int i = (if i < 0 then 45 # dec_nat (nat (- i)) else dec_nat (nat i))"

definition hex_nat :: "nat \<Rightarrow> cstring" where
  "hex_nat n = map digit_char (digits_of 16 n)"

text \<open>Hexadecimal digits and the digits at the start of a string.\<close>

definition hex_value :: "byte \<Rightarrow> int option" where
  "hex_value c =
     (if 48 \<le> c \<and> c \<le> 57 then Some (uint c - 48)
      else if 97 \<le> c \<and> c \<le> 102 then Some (uint c - 87)
      else if 65 \<le> c \<and> c \<le> 70 then Some (uint c - 55) else None)"

definition hex_digits :: "cstring \<Rightarrow> int list" where
  "hex_digits s = map (the \<circ> hex_value) (takeWhile (\<lambda>c. hex_value c \<noteq> None) s)"

section \<open>Generic lemmas\<close>

lemma bindR_assoc [simp]: "bindR (bindR m f) g = bindR m (\<lambda>x. bindR (f x) g)"
  by (cases m) auto

lemma bindR_Ok_right [simp]: "bindR m Ok = m"
  by (cases m) auto

lemma bindR_eq_Ok: "bindR m f = Ok y \<longleftrightarrow> (\<exists>x. m = Ok x \<and> f x = Ok y)"
  by (cases m) auto

lemma bindR_cong [fundef_cong]:
  "m = m' \<Longrightarrow> (\<And>x. m' = Ok x \<Longrightarrow> f x = g x) \<Longrightarrow> bindR m f = bindR m' g"
  by (cases m') auto

lemma foldR_append: "foldR f (xs @ ys) s = bindR (foldR f xs s) (foldR f ys)"
proof (induction xs arbitrary: s)
  case (Cons x xs)
  then show ?case by (cases "f x s") auto
qed simp

lemma append_eq_prefix: "u @ v = a @ b \<Longrightarrow> length a \<le> length u \<Longrightarrow> \<exists>w. u = a @ w \<and> w @ v = b"
  by (auto simp: append_eq_append_conv2)

lemma rd_Ok [simp]: "0 \<le> i \<Longrightarrow> i < int (length b) \<Longrightarrow> rd b i = Ok (b ! nat i)"
  by (simp add: rd_def)

lemma rd_eq_Ok: "rd b i = Ok v \<longleftrightarrow> 0 \<le> i \<and> i < int (length b) \<and> v = b ! nat i"
  by (auto simp: rd_def)

lemma wr_Ok [simp]: "0 \<le> i \<Longrightarrow> i < int (length b) \<Longrightarrow> wr b i v = Ok (b[nat i := v])"
  by (simp add: wr_def)

lemma wr_eq_Ok: "wr b i v = Ok b' \<longleftrightarrow> 0 \<le> i \<and> i < int (length b) \<and> b' = b[nat i := v]"
  by (auto simp: wr_def)

lemma wr_as_block: "wr b p x = wr_block b p [x]"
  by (auto simp: wr_def wr_block_def upd_conv_take_nth_drop)

lemma wr_wr_block: "bindR (wr b p x) (\<lambda>b. wr_block b (p + 1) v) = wr_block b p (x # v)"
proof (cases "0 \<le> p \<and> p + 1 + int (length v) \<le> int (length b)")
  case True
  then have "nat (p + 1) = Suc (nat p)" "nat p < length b" by auto
  with True show ?thesis
    by (simp add: wr_def wr_block_def upd_conv_take_nth_drop add.commute)
next
  case False
  then show ?thesis by (auto simp: wr_def wr_block_def)
qed

lemma wr_block_length: "wr_block b p v = Ok b' \<Longrightarrow> length b' = length b"
  by (auto simp: wr_block_def split: if_splits)

lemma wr_block_append: "wr_block (a @ b) (int (length a)) v =
    (if length v \<le> length b then Ok (a @ v @ drop (length v) b) else Fault Out_of_bounds)"
  by (auto simp: wr_block_def)

lemma sys_read_total:
  "sys_read n cs = (bs, cs') \<Longrightarrow> concat cs = bs @ concat cs'"
  by (cases cs) auto

lemma sys_read_less:
  assumes "sys_read n cs = (bs, cs')" and "bs \<noteq> []"
  shows "length (concat cs') < length (concat cs)"
proof -
  have "concat cs = bs @ concat cs'" using assms(1) by (rule sys_read_total)
  then have "length (concat cs) = length bs + length (concat cs')" by simp
  then show ?thesis using assms(2) by simp
qed

lemma strlen_append [simp]: "0 \<notin> set s \<Longrightarrow> strlen (s @ 0 # t) = Ok (length s)"
  by (induction s) auto

lemma cstr_append [simp]: "0 \<notin> set s \<Longrightarrow> cstr (s @ 0 # t) = s"
  unfolding cstr_def by (subst takeWhile_append2) (auto)

lemma cstr_no_nul: "0 \<notin> set s \<Longrightarrow> cstr s = s"
  unfolding cstr_def by (auto simp: takeWhile_eq_all_conv)

lemma cstr_nul_free: "0 \<notin> set (cstr b)"
  unfolding cstr_def by (auto dest: set_takeWhileD)

lemma strncpy_exact [simp]: "0 \<notin> set s \<Longrightarrow> strncpy (length s) (s @ t) = Ok s"
  by (induction s) auto

lemma strncpy_length: "strncpy n src = Ok r \<Longrightarrow> length r = n"
  by (induction n src arbitrary: r rule: strncpy.induct) (auto simp: bindR_eq_Ok split: if_splits)

lemma strncpy_prefix: "length s = n \<Longrightarrow> strncpy n (s @ t) = strncpy n (s @ u)"
proof (induction n arbitrary: s)
  case (Suc n)
  then show ?case by (cases s) auto
qed simp

text \<open>A source object at least as long as the count is never overrun.\<close>

lemma strncpy_total: "n \<le> length src \<Longrightarrow> \<exists>r. strncpy n src = Ok r"
proof (induction n arbitrary: src)
  case (Suc n)
  then show ?case by (cases src) fastforce+
qed simp

lemma strncpy_cstr: "strncpy n src = Ok r \<Longrightarrow> cstr r = cstr (take n src)"
  by (induction n src arbitrary: r rule: strncpy.induct)
    (auto simp: bindR_eq_Ok cstr_def split: if_splits)

text \<open>Computations without loops over fuel never time out.\<close>

named_theorems no_timeout \<open>operations that cannot run out of fuel\<close>

lemma bindR_eq_Timeout: "bindR m f = Timeout \<longleftrightarrow> m = Timeout \<or> (\<exists>x. m = Ok x \<and> f x = Timeout)"
  by (cases m) auto

lemma basic_no_timeout [no_timeout]:
  "rd b i \<noteq> Timeout" "wr b i v \<noteq> Timeout" "wr_block b i w \<noteq> Timeout" "rd_block b i n \<noteq> Timeout"
  "checkR e c \<noteq> Timeout"
  by (simp_all add: rd_def wr_def wr_block_def rd_block_def checkR_def)

lemma strlen_no_timeout [no_timeout]: "strlen s \<noteq> Timeout"
  by (induction s) (auto simp: bindR_eq_Timeout)

lemma strncpy_no_timeout [no_timeout]: "strncpy n s \<noteq> Timeout"
  by (induction n s rule: strncpy.induct) (auto simp: bindR_eq_Timeout)

lemma strncmp_eq_no_timeout [no_timeout]: "strncmp_eq a b n \<noteq> Timeout"
  by (induction a b n rule: strncmp_eq.induct) auto

end
