(* ===== verification/RC_Codec.thy ===== *)
theory RC_Codec
  imports Prelude
begin

text \<open>
  The buffer helpers of \<^verbatim>\<open>remote_control/remote_control.c\<close>: 16- and 32-bit little-endian
  integers, length-prefixed strings and lists of strings. A pointer that is only read is the
  list of bytes from it to the end of its object; a pointer that is written is the object and an
  offset. The contract of the two integer codecs is the locale \<open>int_codec\<close>, interpreted for both.
\<close>

type_synonym int16 = "16 word"
type_synonym int32 = "32 word"

section \<open>Integers\<close>

definition read_int16_t :: "byte list \<Rightarrow> int16 res" where
  "read_int16_t buffer =
     bindR (rd buffer 0) (\<lambda>b0. bindR (rd buffer 1) (\<lambda>b1.
       Ok (ucast b0 + push_bit 8 (ucast b1))))"

definition write_int16_t :: "byte list \<Rightarrow> int \<Rightarrow> int16 \<Rightarrow> byte list res" where
  "write_int16_t buffer p value =
     bindR (wr buffer p (ucast (value AND 0x00FF))) (\<lambda>buffer.
       wr buffer (p + 1) (ucast (drop_bit 8 (value AND 0xFF00))))"

definition read_int32_t :: "byte list \<Rightarrow> int32 res" where
  "read_int32_t buffer =
     bindR (rd buffer 0) (\<lambda>b0. bindR (rd buffer 1) (\<lambda>b1.
     bindR (rd buffer 2) (\<lambda>b2. bindR (rd buffer 3) (\<lambda>b3.
       Ok (ucast b0 + push_bit 8 (ucast b1) + push_bit 16 (ucast b2) + push_bit 24 (ucast b3))))))"

definition write_int32_t :: "byte list \<Rightarrow> int \<Rightarrow> int32 \<Rightarrow> byte list res" where
  "write_int32_t buffer p value =
     bindR (wr buffer p (ucast (value AND 0x000000FF))) (\<lambda>buffer.
     bindR (wr buffer (p + 1) (ucast (drop_bit 8 (value AND 0x0000FF00)))) (\<lambda>buffer.
     bindR (wr buffer (p + 2) (ucast (drop_bit 16 (value AND 0x00FF0000)))) (\<lambda>buffer.
       wr buffer (p + 3) (ucast (drop_bit 24 (value AND 0xFF000000))))))"

section \<open>Strings\<close>

text \<open>
  \<open>malloc (n + 1)\<close>, \<open>strncpy\<close> of \<open>n\<close> bytes into the block and a terminating NUL. The counts are
  signed: with \<open>n = -1\<close> the block has no byte and the copy overruns it; for smaller \<open>n\<close> the size
  converts to nearly \<open>2 ^ 64\<close>, \<open>malloc\<close> returns NULL and the copy writes through it.
\<close>

definition malloc_strncpy :: "int \<Rightarrow> byte list \<Rightarrow> byte list res" where
  "malloc_strncpy n src =
     (if n < -1 then Fault Null_pointer
      else if n = -1 then Fault Out_of_bounds
      else bindR (strncpy (nat n) src) (\<lambda>s. Ok (s @ [0])))"

definition read_string :: "byte list \<Rightarrow> int \<Rightarrow> byte list \<Rightarrow> (int \<times> byte list) res" where
  "read_string write_buffer max_length data_buffer =
     bindR (read_int16_t data_buffer) (\<lambda>string_length.
       if max_length < sint string_length + 1 then Ok (-1, write_buffer)
       else if sint string_length < 0 then Fault Out_of_bounds
       else bindR (strncpy (nat (sint string_length)) (drop 2 data_buffer)) (\<lambda>s.
            bindR (wr_block write_buffer 0 s) (\<lambda>write_buffer.
            bindR (wr write_buffer (sint string_length) 0) (\<lambda>write_buffer.
              Ok (sint string_length, write_buffer)))))"

definition read_string_malloc :: "byte list \<Rightarrow> (int \<times> byte list) res" where
  "read_string_malloc data_buffer =
     bindR (read_int16_t data_buffer) (\<lambda>string_length.
     bindR (malloc_strncpy (sint string_length) (drop 2 data_buffer)) (\<lambda>block.
       Ok (sint string_length, block)))"

definition write_string :: "byte list \<Rightarrow> int \<Rightarrow> int \<Rightarrow> byte list \<Rightarrow> int16 \<Rightarrow> (int \<times> byte list) res" where
  "write_string write_buffer p max_length data_buffer len =
     bindR (if sint len < 0 then bindR (strlen data_buffer) (\<lambda>n. Ok (word_of_nat n)) else Ok len)
       (\<lambda>len.
         if max_length < sint len + 2 then Ok (-1, write_buffer)
         else bindR (write_int16_t write_buffer p len) (\<lambda>write_buffer.
              bindR (rd_block data_buffer 0 (sint len)) (\<lambda>s.
              bindR (wr_block write_buffer (p + 2) s) (\<lambda>write_buffer.
                Ok (sint len, write_buffer)))))"

section \<open>Lists of strings\<close>

text \<open>An entry of a \<open>byte**\<close> block: not yet written, NULL, a live string, a freed one.\<close>

datatype slot = Unset | Null | Str "byte list" | Freed

text \<open>The \<open>byte**\<close> itself: NULL, a live block, a freed one.\<close>

datatype list_ptr = ListNull | ListAt "slot list" | ListFreed

text \<open>\<open>a < b\<close> where C converts both sides to \<open>size_t\<close> (64 bits).\<close>

definition size_less :: "int \<Rightarrow> int \<Rightarrow> bool" where
  "size_less a b \<longleftrightarrow> a mod 2 ^ 64 < b mod 2 ^ 64"

definition simple_free :: "slot list \<Rightarrow> int \<Rightarrow> slot list res" where
  "simple_free slots i =
     bindR (rd slots i) (\<lambda>s. case s of
       Unset \<Rightarrow> Fault Bad_free
     | Freed \<Rightarrow> Fault Bad_free
     | Null \<Rightarrow> Ok slots
     | Str _ \<Rightarrow> wr slots i Freed)"

text \<open>The reading loop; the result says whether \<open>error\<close> was set, and holds the list, the offset
  and the counter.\<close>

fun read_slots :: "nat \<Rightarrow> slot list \<Rightarrow> byte list \<Rightarrow> int \<Rightarrow> int \<Rightarrow> int \<Rightarrow> int
    \<Rightarrow> (bool \<times> slot list \<times> int \<times> int) res" where
  "read_slots 0 slots data data_length off counter start_index = Ok (False, slots, off, counter)"
| "read_slots (Suc k) slots data data_length off counter start_index =
     (if size_less data_length (off + 2) then Ok (True, slots, off, counter)
      else bindR (read_string_malloc (drop (nat off) data)) (\<lambda>(arg_length, current_arg).
           bindR (wr slots (counter + start_index) (Str current_arg)) (\<lambda>slots.
             read_slots k slots data data_length (off + 2 + arg_length) (counter + 1) start_index)))"

text \<open>\<open>for(;counter>=0;counter--) simple_free((*list)[counter + start_index]);\<close>\<close>

fun free_back :: "nat \<Rightarrow> slot list \<Rightarrow> int \<Rightarrow> slot list res" where
  "free_back 0 slots start_index = simple_free slots start_index"
| "free_back (Suc counter) slots start_index =
     bindR (simple_free slots (int (Suc counter) + start_index)) (\<lambda>slots.
       free_back counter slots start_index)"

definition read_string_list ::
  "list_ptr \<Rightarrow> int \<Rightarrow> byte list \<Rightarrow> int \<Rightarrow> int \<Rightarrow> int \<Rightarrow> (int \<times> list_ptr \<times> int) res" where
  "read_string_list list read_bytes data data_length extra_items start_index =
     (if extra_items < start_index then Ok (-1, list, read_bytes)
      else bindR (read_int16_t data) (\<lambda>arg_count.
        let n = sint arg_count + extra_items + 1 in
        bindR (checkR Null_pointer (0 \<le> n)) (\<lambda>_.
        bindR (wr (replicate (nat n) Unset) (n - 1) Null) (\<lambda>slots.
        bindR (read_slots (nat (sint arg_count)) slots data data_length 2 0 start_index)
          (\<lambda>(error, slots, off, counter).
            if error then bindR (free_back (nat counter) slots start_index) (\<lambda>_. Ok (0, ListFreed, 0))
            else Ok (sint arg_count, ListAt slots, off))))))"

fun free_string_list :: "slot list \<Rightarrow> unit res" where
  "free_string_list [] = Fault Out_of_bounds"
| "free_string_list (Unset # rest) = Fault Uninitialised"
| "free_string_list (Freed # rest) = Fault Bad_free"
| "free_string_list (Null # rest) = Ok ()"
| "free_string_list (Str s # rest) = free_string_list rest"

section \<open>Specification: the wire format\<close>

definition int16_bytes :: "int16 \<Rightarrow> byte list" where
  "int16_bytes v = [ucast v, ucast (drop_bit 8 v)]"

definition int32_bytes :: "int32 \<Rightarrow> byte list" where
  "int32_bytes v = [ucast v, ucast (drop_bit 8 v), ucast (drop_bit 16 v), ucast (drop_bit 24 v)]"

definition string_bytes :: "byte list \<Rightarrow> byte list" where
  "string_bytes s = int16_bytes (word_of_nat (length s)) @ s"

definition string_list_bytes :: "byte list list \<Rightarrow> byte list" where
  "string_list_bytes ss = int16_bytes (word_of_nat (length ss)) @ concat (map string_bytes ss)"

text \<open>A string the format can carry: no NUL, and a length that fits \<open>int16_t\<close>.\<close>

definition wire_string :: "byte list \<Rightarrow> bool" where
  "wire_string s \<longleftrightarrow> 0 \<notin> set s \<and> length s < 2 ^ 15"

section \<open>Integer codecs\<close>

locale int_codec =
  fixes enc :: "'a \<Rightarrow> byte list"
    and dec :: "byte list \<Rightarrow> 'a res"
    and put :: "byte list \<Rightarrow> int \<Rightarrow> 'a \<Rightarrow> byte list res"
    and width :: nat
  assumes enc_length: "length (enc v) = width"
    and dec_enc: "dec (enc v @ rest) = Ok v"
    and dec_short: "length b < width \<Longrightarrow> dec b = Fault Out_of_bounds"
    and put_enc: "put b p v = wr_block b p (enc v)"
begin

lemma enc_inject: "enc v @ r = enc w @ s \<Longrightarrow> v = w \<and> r = s"
proof -
  assume eq: "enc v @ r = enc w @ s"
  have "Ok v = Ok w" using dec_enc [of v r] dec_enc [of w s] eq by simp
  with eq show ?thesis by simp
qed

lemma put_length: "put b p v = Ok b' \<Longrightarrow> length b' = length b"
  by (auto simp: put_enc wr_block_def enc_length split: if_splits)

lemma put_get: "put b p v = Ok b' \<Longrightarrow> dec (drop (nat p) b') = Ok v"
  by (auto simp: put_enc wr_block_def dec_enc split: if_splits)

text \<open>A put of adjacent data in front of free space extends what was written so far.\<close>

lemma put_append: "put (a @ b) (int (length a)) v =
    (if width \<le> length b then Ok (a @ enc v @ drop width b) else Fault Out_of_bounds)"
  by (auto simp: put_enc wr_block_def enc_length)

end

section \<open>Lemmas\<close>

lemma sint16_nonneg: "n < 2 ^ 15 \<Longrightarrow> sint (word_of_nat n :: int16) = int n"
  by (simp add: signed_of_nat signed_take_bit_int_eq_self)

lemma int16_join: "ucast (ucast v :: byte) + push_bit 8 (ucast (ucast (drop_bit 8 v) :: byte)) = (v :: int16)"
proof -
  let ?lo = "ucast (ucast v :: byte) :: int16"
  let ?hi = "push_bit 8 (ucast (ucast (drop_bit 8 v) :: byte)) :: int16"
  have "?lo + ?hi = ?lo OR ?hi"
    by (rule disjunctive_add) (auto simp: bit_simps)
  also have "\<dots> = v"
    by (rule bit_word_eqI) (auto simp: bit_simps)
  finally show ?thesis .
qed

lemma int32_join:
  "ucast (ucast v :: byte) + push_bit 8 (ucast (ucast (drop_bit 8 v) :: byte))
     + push_bit 16 (ucast (ucast (drop_bit 16 v) :: byte))
     + push_bit 24 (ucast (ucast (drop_bit 24 v) :: byte)) = (v :: int32)"
proof -
  let ?a = "ucast (ucast v :: byte) :: int32"
  let ?b = "push_bit 8 (ucast (ucast (drop_bit 8 v) :: byte)) :: int32"
  let ?c = "push_bit 16 (ucast (ucast (drop_bit 16 v) :: byte)) :: int32"
  let ?d = "push_bit 24 (ucast (ucast (drop_bit 24 v) :: byte)) :: int32"
  have ab: "?a + ?b = ?a OR ?b"
    by (rule disjunctive_add) (auto simp: bit_simps)
  have abc: "(?a OR ?b) + ?c = ?a OR ?b OR ?c"
    by (subst disjunctive_add) (auto simp: bit_simps ac_simps)
  have abcd: "(?a OR ?b OR ?c) + ?d = ?a OR ?b OR ?c OR ?d"
    by (subst disjunctive_add) (auto simp: bit_simps ac_simps)
  have "?a + ?b + ?c + ?d = ?a OR ?b OR ?c OR ?d"
    by (simp only: ab abc abcd)
  also have "\<dots> = v"
  proof (rule bit_word_eqI)
    fix n assume n: "n < LENGTH(32)"
    consider "n < 8" | "8 \<le> n" "n < 16" | "16 \<le> n" "n < 24" | "24 \<le> n" by linarith
    then show "bit (?a OR ?b OR ?c OR ?d) n = bit v n"
      using n by cases (auto simp: bit_simps)
  qed
  finally show ?thesis .
qed

lemma ucast_masked:
  assumes "m = push_bit k (mask 8 :: 'a::len word)"
  shows "ucast (drop_bit k (v AND m)) = (ucast (drop_bit k v) :: byte)"
  unfolding assms
proof (rule bit_word_eqI)
  fix n assume "n < LENGTH(8)"
  moreover have "bit v (k + n) \<Longrightarrow> k + n < LENGTH('a)"
    by (rule bit_imp_le_length)
  ultimately show "bit (ucast (drop_bit k (v AND push_bit k (mask 8))) :: byte) n =
      bit (ucast (drop_bit k v) :: byte) n"
    by (auto simp: bit_simps)
qed

lemma write_int16_t_enc: "write_int16_t b p v = wr_block b p (int16_bytes v)"
proof -
  have "ucast (v AND 0x00FF) = (ucast v :: byte)"
    using ucast_masked [of 255 0 v] by (simp add: mask_numeral)
  moreover have "ucast (drop_bit 8 (v AND 0xFF00)) = (ucast (drop_bit 8 v) :: byte)"
    by (rule ucast_masked) (simp add: mask_numeral)
  ultimately have "write_int16_t b p v =
      bindR (wr b p (ucast v)) (\<lambda>b. wr_block b (p + 1) [ucast (drop_bit 8 v)])"
    by (simp add: write_int16_t_def wr_as_block)
  then show ?thesis by (simp only: wr_wr_block int16_bytes_def)
qed

lemma write_int32_t_enc: "write_int32_t b p v = wr_block b p (int32_bytes v)"
proof -
  have "ucast (v AND 0x000000FF) = (ucast v :: byte)"
    using ucast_masked [of 255 0 v] by (simp add: mask_numeral)
  moreover have "ucast (drop_bit 8 (v AND 0x0000FF00)) = (ucast (drop_bit 8 v) :: byte)"
    by (rule ucast_masked) (simp add: mask_numeral)
  moreover have "ucast (drop_bit 16 (v AND 0x00FF0000)) = (ucast (drop_bit 16 v) :: byte)"
    by (rule ucast_masked) (simp add: mask_numeral)
  moreover have "ucast (drop_bit 24 (v AND 0xFF000000)) = (ucast (drop_bit 24 v) :: byte)"
    by (rule ucast_masked) (simp add: mask_numeral)
  ultimately have "write_int32_t b p v =
      bindR (wr b p (ucast v)) (\<lambda>b. bindR (wr b (p + 1) (ucast (drop_bit 8 v))) (\<lambda>b.
      bindR (wr b (p + 1 + 1) (ucast (drop_bit 16 v))) (\<lambda>b.
        wr_block b (p + 1 + 1 + 1) [ucast (drop_bit 24 v)])))"
    by (simp add: write_int32_t_def wr_as_block add.assoc)
  then show ?thesis by (simp only: wr_wr_block int32_bytes_def)
qed

interpretation i16: int_codec int16_bytes read_int16_t write_int16_t 2
proof
  show "read_int16_t (int16_bytes v @ rest) = Ok v" for v rest
    by (simp add: read_int16_t_def int16_bytes_def int16_join)
qed (auto simp: int16_bytes_def read_int16_t_def rd_def write_int16_t_enc)

interpretation i32: int_codec int32_bytes read_int32_t write_int32_t 4
proof
  show "read_int32_t (int32_bytes v @ rest) = Ok v" for v rest
    by (simp add: read_int32_t_def int32_bytes_def int32_join)
qed (auto simp: int32_bytes_def read_int32_t_def rd_def write_int32_t_enc)

lemmas length_int16_bytes [simp] = i16.enc_length
lemmas length_int32_bytes [simp] = i32.enc_length

lemma length_string_bytes [simp]: "length (string_bytes s) = 2 + length s"
  by (simp add: string_bytes_def i16.enc_length)

lemma malloc_strncpy_exact [simp]:
  "0 \<notin> set s \<Longrightarrow> malloc_strncpy (int (length s)) (s @ t) = Ok (s @ [0])"
  by (simp add: malloc_strncpy_def)

lemma read_string_malloc_bytes:
  "wire_string s \<Longrightarrow> read_string_malloc (string_bytes s @ rest) = Ok (int (length s), s @ [0])"
  by (simp add: read_string_malloc_def string_bytes_def i16.dec_enc sint16_nonneg wire_string_def)

lemma write_string_append:
  assumes "length s < 2 ^ 15" and "length s + 2 \<le> length b" and "int (length s) + 2 \<le> maxlen"
  shows "write_string (a @ b) (int (length a)) maxlen (s @ t) (word_of_nat (length s)) =
    Ok (int (length s), a @ string_bytes s @ drop (length s + 2) b)"
proof -
  have 1: "write_int16_t (a @ b) (int (length a)) (word_of_nat (length s)) =
      Ok (a @ int16_bytes (word_of_nat (length s)) @ drop 2 b)"
    using assms by (simp add: i16.put_append)
  have 2: "wr_block ((a @ int16_bytes w) @ drop 2 b) (int (length a) + 2) s =
      Ok ((a @ int16_bytes w) @ s @ drop (length s) (drop 2 b))" for w
    using assms wr_block_append [of "a @ int16_bytes w" "drop 2 b" s] by (auto simp: add.commute)
  show ?thesis
    using assms 2 by (simp add: write_string_def sint16_nonneg 1 rd_block_def string_bytes_def)
qed

lemma size_less_nonneg: "0 \<le> a \<Longrightarrow> a < 2 ^ 64 \<Longrightarrow> 0 \<le> b \<Longrightarrow> b < 2 ^ 64 \<Longrightarrow> size_less a b \<longleftrightarrow> a < b"
  by (simp add: size_less_def)

text \<open>The reading loop on well-formed data stores the strings one after the other.\<close>

lemma read_slots_bytes:
  assumes "\<forall>s \<in> set ss. wire_string s" and "counter + start = int (length pre)"
    and "length post = length ss" and "data = front @ concat (map string_bytes ss) @ rest"
    and "int (length front + length (concat (map string_bytes ss))) \<le> len" and "len < 2 ^ 63"
  shows "read_slots (length ss + k) (pre @ post @ more) data len (int (length front)) counter start =
    read_slots k (pre @ map (\<lambda>s. Str (s @ [0])) ss @ more) data len
      (int (length front + length (concat (map string_bytes ss)))) (counter + int (length ss)) start"
  using assms
proof (induction ss arbitrary: pre post front counter)
  case (Cons s ss)
  obtain x post' where post: "post = x # post'" "length post' = length ss"
    using Cons.prems(3) by (cases post) auto
  have lt: "\<not> size_less len (int (length front) + 2)"
    using Cons.prems(5,6) by (subst size_less_nonneg) auto
  have rs: "read_string_malloc (drop (length front) data) = Ok (int (length s), s @ [0])"
    using Cons.prems(1,4) by (simp add: read_string_malloc_bytes)
  have wrs: "wr (pre @ post @ more) (counter + start) (Str (s @ [0])) =
      Ok ((pre @ [Str (s @ [0])]) @ post' @ more)"
    using Cons.prems(2) post by (simp add: wr_def list_update_append)
  have "read_slots (length ss + k) ((pre @ [Str (s @ [0])]) @ post' @ more) data len
      (int (length (front @ string_bytes s))) (counter + 1) start =
    read_slots k ((pre @ [Str (s @ [0])]) @ map (\<lambda>s. Str (s @ [0])) ss @ more) data len
      (int (length (front @ string_bytes s) + length (concat (map string_bytes ss))))
      (counter + 1 + int (length ss)) start"
    by (rule Cons.IH) (use Cons.prems post in auto)
  then show ?case using lt rs wrs by (simp add: add_ac)
qed simp

lemma read_string_list_bytes:
  assumes "\<forall>s \<in> set ss. wire_string s" and "length ss < 2 ^ 15" and "start \<le> extra"
    and "int (length (string_list_bytes ss)) \<le> len" and "len < 2 ^ 63" and "0 \<le> start"
  shows "read_string_list lp rb (string_list_bytes ss @ rest) len extra start =
    Ok (int (length ss),
        ListAt (replicate (nat start) Unset @ map (\<lambda>s. Str (s @ [0])) ss
          @ replicate (nat (extra - start)) Unset @ [Null]),
        int (length (string_list_bytes ss)))"
proof -
  let ?n = "int (length ss) + extra + 1"
  let ?more = "replicate (nat (extra - start)) Unset @ [Null]"
  let ?slots = "replicate (nat start) Unset @ replicate (length ss) Unset @ ?more"
  have "nat ?n = nat start + length ss + nat (extra - start) + 1"
    using assms by simp
  then have "replicate (nat ?n) Unset = replicate (nat start) Unset @ replicate (length ss) Unset
      @ replicate (nat (extra - start)) Unset @ [Unset]"
    by (simp only: replicate_add append_assoc) simp
  moreover have "nat (?n - 1) = nat start + length ss + nat (extra - start)"
    using assms by simp
  ultimately have 1: "wr (replicate (nat ?n) Unset) (?n - 1) Null = Ok ?slots"
    using assms by (simp add: wr_def list_update_append)
  have 2: "read_slots (length ss + 0) ?slots (string_list_bytes ss @ rest) len
      (int (length (int16_bytes (word_of_nat (length ss))))) 0 start =
    read_slots 0 (replicate (nat start) Unset @ map (\<lambda>s. Str (s @ [0])) ss @ ?more)
      (string_list_bytes ss @ rest) len
      (int (length (int16_bytes (word_of_nat (length ss))) + length (concat (map string_bytes ss))))
      (0 + int (length ss)) start"
    by (rule read_slots_bytes) (use assms in \<open>auto simp: string_list_bytes_def\<close>)
  have 3: "read_int16_t (string_list_bytes ss @ rest) = Ok (word_of_nat (length ss))"
    by (simp add: string_list_bytes_def i16.dec_enc)
  show ?thesis
    using assms 1 2 by (simp add: read_string_list_def 3 sint16_nonneg checkR_def Let_def
        string_list_bytes_def i16.dec_enc)
qed

lemma free_back_unset:
  "rd slots (int counter + start) = Ok Unset \<Longrightarrow> free_back counter slots start = Fault Bad_free"
  by (cases counter) (auto simp: simple_free_def)

section \<open>Properties\<close>

text \<open>A string without NUL bytes that \<open>write_string\<close> stores in a buffer with room for it comes
  back unchanged, NUL-terminated, from \<open>read_string_malloc\<close> at the same place, and the rest of
  the buffer is not touched.\<close>

theorem write_read_string:
  assumes "wire_string s" and "0 \<le> p" and "p + 2 + int (length s) \<le> int (length b)"
    and "int (length s) + 2 \<le> max_length"
  shows "\<exists>b'. write_string b p max_length (s @ t) (word_of_nat (length s)) = Ok (int (length s), b') \<and>
    length b' = length b \<and> take (nat p) b' = take (nat p) b \<and>
    drop (nat p + 2 + length s) b' = drop (nat p + 2 + length s) b \<and>
    read_string_malloc (drop (nat p) b') = Ok (int (length s), s @ [0])"
proof -
  let ?a = "take (nat p) b" and ?c = "drop (nat p) b"
  have p: "int (length ?a) = p" "?a @ ?c = b" using assms by auto
  have "write_string (?a @ ?c) (int (length ?a)) max_length (s @ t) (word_of_nat (length s)) =
      Ok (int (length s), ?a @ string_bytes s @ drop (length s + 2) ?c)"
    by (rule write_string_append) (use assms in \<open>auto simp: wire_string_def\<close>)
  moreover have "length ?a = nat p" "nat p + 2 + length s \<le> length b"
    using assms p by (simp, linarith)
  ultimately show ?thesis
    using assms(1) p by (auto simp: read_string_malloc_bytes add_ac)
qed

theorem write_read_string_witness:
  "\<exists>b'. write_string (replicate 9 7) 2 7 ([65, 66] @ [9]) (word_of_nat (length [65, 66 :: byte])) =
      Ok (int (length [65, 66 :: byte]), b') \<and>
    length b' = length (replicate 9 (7 :: byte)) \<and>
    take (nat 2) b' = take (nat 2) (replicate 9 7) \<and>
    drop (nat 2 + 2 + length [65, 66 :: byte]) b' = drop (nat 2 + 2 + length [65, 66 :: byte]) (replicate 9 7) \<and>
    read_string_malloc (drop (nat 2) b') = Ok (int (length [65, 66 :: byte]), [65, 66] @ [0])"
  by (rule write_read_string) (simp_all add: wire_string_def)

text \<open>\<open>read_string_list\<close> decodes the documented list format: for a count and that many
  length-prefixed strings inside the given data it returns the count, the strings NUL-terminated
  and in order after \<open>start_index\<close> free entries, the NULL terminator in the last entry, and the
  number of bytes consumed.\<close>

theorem read_string_list_decodes:
  assumes "\<forall>s \<in> set ss. wire_string s" and "length ss < 2 ^ 15" and "0 \<le> start" and "start \<le> extra"
    and "int (length (string_list_bytes ss)) \<le> data_length" and "data_length < 2 ^ 63"
  shows "read_string_list list_ptr rb (string_list_bytes ss @ rest) data_length extra start =
    Ok (int (length ss),
        ListAt (replicate (nat start) Unset @ map (\<lambda>s. Str (s @ [0])) ss
          @ replicate (nat (extra - start)) Unset @ [Null]),
        int (length (string_list_bytes ss)))"
  by (rule read_string_list_bytes) (use assms in auto)

theorem read_string_list_decodes_witness:
  "read_string_list ListNull 0 (string_list_bytes [[65], [66, 67]] @ [1, 2]) 9 1 1 =
    Ok (int (length [[65], [66, 67 :: byte]]),
        ListAt (replicate (nat 1) Unset @ map (\<lambda>s. Str (s @ [0])) [[65], [66, 67]]
          @ replicate (nat (1 - 1)) Unset @ [Null]),
        int (length (string_list_bytes [[65], [66, 67]])))"
  by (rule read_string_list_decodes) (simp_all add: wire_string_def string_list_bytes_def)

text \<open>A list that announces more strings than its data holds is not rejected: the cleanup
  loop of \<open>read_string_list\<close> starts at the entry that was never written and frees an
  indeterminate pointer.\<close>

theorem read_string_list_truncated:
  assumes "\<forall>s \<in> set ss. wire_string s" and "length ss < n" and "n < 2 ^ 15"
    and "0 \<le> start" and "start \<le> extra"
    and "data = int16_bytes (word_of_nat n) @ concat (map string_bytes ss)"
    and "length data < 2 ^ 63"
  shows "read_string_list list_ptr rb data (int (length data)) extra start = Fault Bad_free"
proof -
  obtain k where n: "n = length ss + Suc k"
    using assms(2) by (metis less_imp_Suc_add add_Suc_right)
  let ?slots = "replicate (nat (int n + extra)) Unset @ [Null]"
  have "nat (int n + extra + 1) = Suc (nat (int n + extra))" using assms by simp
  then have 1: "wr (replicate (nat (int n + extra + 1)) Unset) (int n + extra) Null = Ok ?slots"
    using assms by (simp add: wr_def list_update_append flip: replicate_append_same)
  let ?more = "replicate (nat (int n + extra) - nat start - length ss) Unset @ [Null]"
  have "nat (int n + extra) = nat start + length ss + (nat (int n + extra) - nat start - length ss)"
    using assms n by simp
  then have split: "?slots = replicate (nat start) Unset @ replicate (length ss) Unset @ ?more"
    by (metis append_assoc replicate_add)
  let ?got = "replicate (nat start) Unset @ map (\<lambda>s. Str (s @ [0])) ss @ ?more"
  have "read_slots (length ss + Suc k) ?slots data (int (length data))
      (int (length (int16_bytes (word_of_nat n)))) 0 start =
    read_slots (Suc k) ?got data (int (length data))
      (int (length (int16_bytes (word_of_nat n)) + length (concat (map string_bytes ss))))
      (0 + int (length ss)) start"
    unfolding split by (rule read_slots_bytes) (use assms in auto)
  moreover have "size_less (int (length data)) (int (length data) + 2)"
    using assms(7) by (subst size_less_nonneg) auto
  ultimately have 2: "read_slots n ?slots data (int (length data)) 2 0 start =
      Ok (True, ?got, int (length data), int (length ss))"
    using assms(6) n by simp
  have "rd ?got (int (length ss) + start) = Ok Unset"
    using assms n by (auto simp: rd_def nth_append)
  then have 3: "free_back (length ss) ?got start = Fault Bad_free"
    by (rule free_back_unset)
  show ?thesis
    using assms 1 2 3 by (simp add: read_string_list_def i16.dec_enc sint16_nonneg checkR_def Let_def)
qed

theorem read_string_list_truncated_witness:
  "read_string_list ListNull 0 [2, 0, 1, 0, 65] (int (length [2, 0, 1, 0, 65 :: byte])) 1 1 = Fault Bad_free"
  by (rule read_string_list_truncated [where ss = "[[65]]" and n = 2])
    (simp_all add: wire_string_def string_bytes_def int16_bytes_def)

end
