(* ===== verification/Heap_List.thy ===== *)
theory Heap_List
  imports Prelude "HOL-Library.AList"
begin

text \<open>
  Linked lists in a C heap. A heap of nodes is an association list from addresses to
  structs, a pointer an optional address. \<open>segment nxt h p as q\<close> says that following the \<open>next\<close>
  field \<open>nxt\<close> from \<open>p\<close> visits exactly the nodes \<open>as\<close> and ends in \<open>q\<close>; the lemmas on inserting
  and unlinking nodes are proved once, in a locale whose laws relate reading and writing the field.
  \<open>dsegment\<close> is the same for lists linked in both directions.
\<close>

type_synonym ptr = "nat option"
type_synonym 'n heap = "(nat \<times> 'n) list"

definition deref :: "'n heap \<Rightarrow> ptr \<Rightarrow> 'n res" where
  "deref h p = (case p of None \<Rightarrow> Fault Null_pointer
     | Some a \<Rightarrow> (case map_of h a of None \<Rightarrow> Fault Dangling_pointer | Some n \<Rightarrow> Ok n))"

definition assign :: "'n heap \<Rightarrow> ptr \<Rightarrow> ('n \<Rightarrow> 'n) \<Rightarrow> 'n heap res" where
  "assign h p f = bindR (deref h p) (\<lambda>n. Ok (AList.update (the p) (f n) h))"

definition free_node :: "'n heap \<Rightarrow> ptr \<Rightarrow> 'n heap res" where
  "free_node h p = (case p of None \<Rightarrow> Ok h
     | Some a \<Rightarrow> (case map_of h a of None \<Rightarrow> Fault Bad_free | Some n \<Rightarrow> Ok (AList.delete a h)))"

primrec segment :: "('n \<Rightarrow> ptr) \<Rightarrow> 'n heap \<Rightarrow> ptr \<Rightarrow> nat list \<Rightarrow> ptr \<Rightarrow> bool" where
  "segment nxt h p [] q \<longleftrightarrow> p = q"
| "segment nxt h p (a # as) q \<longleftrightarrow>
     p = Some a \<and> (\<exists>n. map_of h a = Some n \<and> segment nxt h (nxt n) as q)"

abbreviation chain :: "('n \<Rightarrow> ptr) \<Rightarrow> 'n heap \<Rightarrow> ptr \<Rightarrow> nat list \<Rightarrow> bool" where
  "chain nxt h p as \<equiv> segment nxt h p as None"

lemma deref_simps [simp]:
  "deref h None = Fault Null_pointer"
  "map_of h a = Some n \<Longrightarrow> deref h (Some a) = Ok n"
  by (simp_all add: deref_def)

lemma assign_Ok [simp]: "map_of h a = Some n \<Longrightarrow> assign h (Some a) f = Ok (AList.update a (f n) h)"
  by (simp add: assign_def)

lemma free_node_Ok [simp]: "map_of h a = Some n \<Longrightarrow> free_node h (Some a) = Ok (AList.delete a h)"
  by (simp add: free_node_def)

lemma segment_append [simp]:
  "segment nxt h p (as @ bs) q \<longleftrightarrow> (\<exists>r. segment nxt h p as r \<and> segment nxt h r bs q)"
  by (induction as arbitrary: p) auto

lemma segment_cong:
  "(\<And>a. a \<in> set as \<Longrightarrow> map_of h a = map_of h' a) \<Longrightarrow> segment nxt h p as q = segment nxt h' p as q"
  by (induction as arbitrary: p) auto

lemma segment_dom: "segment nxt h p as q \<Longrightarrow> set as \<subseteq> fst ` set h"
proof (induction as arbitrary: p)
  case (Cons a as)
  then obtain n where "map_of h a = Some n" "segment nxt h (nxt n) as q" by auto
  then have "a \<in> fst ` set h" "set as \<subseteq> fst ` set h"
    using Cons.IH by (auto intro: rev_image_eqI dest: map_of_SomeD)
  then show ?case by simp
qed simp

lemma chain_functional: "chain nxt h p as \<Longrightarrow> chain nxt h p bs \<Longrightarrow> as = bs"
proof (induction as arbitrary: p bs)
  case Nil
  then show ?case by (cases bs) auto
next
  case (Cons a as)
  then show ?case by (cases bs) auto
qed

lemma chain_distinct: "chain nxt h p as \<Longrightarrow> distinct as"
proof (induction as arbitrary: p)
  case (Cons a as)
  then obtain n where n: "map_of h a = Some n" "chain nxt h (nxt n) as" by auto
  have "a \<notin> set as"
  proof
    assume "a \<in> set as"
    then obtain us vs where as: "as = us @ a # vs" by (meson split_list)
    with n have "chain nxt h (Some a) (a # vs)" by auto
    moreover have "chain nxt h (Some a) (a # as)" using n by simp
    ultimately have "a # vs = a # as" by (rule chain_functional)
    then have "length vs = length as" by simp
    with as show False by simp
  qed
  with Cons.IH n show ?case by auto
qed simp

lemma chain_length: "chain nxt h p as \<Longrightarrow> length as \<le> length h"
proof -
  assume c: "chain nxt h p as"
  have "length as = card (set as)" using chain_distinct [OF c] by (simp add: distinct_card)
  also have "\<dots> \<le> card (fst ` set h)" by (rule card_mono) (use segment_dom [OF c] in auto)
  also have "\<dots> \<le> length h" by (metis card_image_le card_length finite_set le_trans)
  finally show ?thesis .
qed

text \<open>An address that is not in use.\<close>

definition fresh :: "'n heap \<Rightarrow> nat" where
  "fresh h = Suc (foldr max (map fst h) 0)"

lemma fresh_new: "map_of h (fresh h) = None"
proof -
  have "x \<le> foldr max (map fst h) 0" if "x \<in> fst ` set h" for x using that by (induction h) (auto simp: le_max_iff_disj)
  then have "fresh h \<notin> fst ` set h" unfolding fresh_def by (metis not_less_eq_eq order_refl)
  then show ?thesis by (simp add: map_of_eq_None_iff)
qed

section \<open>Doubly linked lists\<close>

text \<open>The nodes \<open>as\<close> are linked in both directions, from \<open>p\<close> to \<open>q\<close>; \<open>pr\<close> is in front of them and \<open>l\<close> the last.\<close>

primrec dsegment :: "('n \<Rightarrow> ptr) \<Rightarrow> ('n \<Rightarrow> ptr) \<Rightarrow> 'n heap \<Rightarrow> ptr \<Rightarrow> ptr \<Rightarrow> nat list \<Rightarrow> ptr \<Rightarrow> ptr \<Rightarrow> bool" where
  "dsegment nxt prv h pr p [] l q \<longleftrightarrow> p = q \<and> l = pr"
| "dsegment nxt prv h pr p (a # as) l q \<longleftrightarrow>
     p = Some a \<and> (\<exists>n. map_of h a = Some n \<and> prv n = pr \<and> dsegment nxt prv h (Some a) (nxt n) as l q)"

lemma dsegment_append:
  "dsegment nxt prv h pr p (as @ bs) l q \<longleftrightarrow> (\<exists>m r. dsegment nxt prv h pr p as m r \<and> dsegment nxt prv h m r bs l q)"
  by (induction as arbitrary: pr p) auto

lemma dsegment_segment: "dsegment nxt prv h pr p as l q \<Longrightarrow> segment nxt h p as q"
  by (induction as arbitrary: pr p) auto

lemma dsegment_last: "dsegment nxt prv h pr p as l q \<Longrightarrow> l = (if as = [] then pr else Some (last as))"
  by (induction as arbitrary: pr p) auto

lemma dsegment_cong:
  "(\<And>a. a \<in> set as \<Longrightarrow> map_of h' a = map_of h a) \<Longrightarrow> dsegment nxt prv h' pr p as l q = dsegment nxt prv h pr p as l q"
  by (induction as arbitrary: pr p) auto

text \<open>Only the links matter.\<close>

lemma dsegment_links:
  "(\<And>a. a \<in> set as \<Longrightarrow> map_option (\<lambda>n. (prv n, nxt n)) (map_of h' a) = map_option (\<lambda>n. (prv n, nxt n)) (map_of h a)) \<Longrightarrow>
    dsegment nxt prv h' pr p as l q = dsegment nxt prv h pr p as l q"
proof (induction as arbitrary: pr p)
  case (Cons a as)
  have "map_option (\<lambda>n. (prv n, nxt n)) (map_of h' a) = map_option (\<lambda>n. (prv n, nxt n)) (map_of h a)" using Cons.prems by simp
  then show ?case using Cons by (cases "map_of h a"; cases "map_of h' a") auto
qed simp

text \<open>The first and the last node of a list.\<close>

definition first_of :: "nat list \<Rightarrow> ptr" where
  "first_of as = (case as of [] \<Rightarrow> None | a # _ \<Rightarrow> Some a)"

definition last_of :: "nat list \<Rightarrow> ptr" where
  "last_of as = (if as = [] then None else Some (last as))"

lemma first_of_simps [simp]: "first_of [] = None" "first_of (a # as) = Some a" "first_of as = None \<longleftrightarrow> as = []"
  by (auto simp: first_of_def split: list.splits)

lemma last_of_simps [simp]: "last_of [] = None" "last_of (as @ [a]) = Some a" "last_of as = None \<longleftrightarrow> as = []"
  by (auto simp: last_of_def)

lemma dsegment_first: "dsegment nxt prv h pr p as l None \<Longrightarrow> p = first_of as"
  by (cases as) auto

section \<open>Appending and unlinking\<close>

text \<open>The contract of a \<open>next\<close> field: what is stored is read back.\<close>

locale next_field =
  fixes nxt :: "'n \<Rightarrow> ptr" and set_nxt :: "ptr \<Rightarrow> 'n \<Rightarrow> 'n"
  assumes get_set: "nxt (set_nxt p n) = p"
begin

text \<open>Appending: the last node is redirected to a fresh node without successor.\<close>

lemma append_first:
  "chain nxt h None as \<Longrightarrow> nxt n = None \<Longrightarrow> chain nxt (AList.update a n h) (Some a) (as @ [a])"
  by (cases as) (auto simp: update_conv')

lemma append_last:
  assumes c: "chain nxt h p (as @ [b])" and m: "map_of h b = Some m"
    and a: "a \<notin> fst ` set h" and n: "nxt n = None"
  shows "chain nxt (AList.update b (set_nxt (Some a) m) (AList.update a n h)) p ((as @ [b]) @ [a])"
proof -
  let ?h = "AList.update b (set_nxt (Some a) m) (AList.update a n h)"
  have ba: "b \<noteq> a" using m a by (force dest: map_of_SomeD)
  have d: "distinct (as @ [b])" "set (as @ [b]) \<subseteq> fst ` set h"
    using chain_distinct [OF c] segment_dom [OF c] by auto
  have "segment nxt h p as (Some b)" using c by auto
  then have "segment nxt ?h p as (Some b)"
    by (subst segment_cong [where h' = h]) (use a d in \<open>auto simp: update_conv'\<close>)
  then show ?thesis using ba n by (auto simp: update_conv' get_set)
qed

text \<open>Appending a node that is on the heap but not in the list.\<close>

lemma append_node:
  assumes c: "chain nxt h p (as @ [b])" and m: "map_of h b = Some m" and n: "map_of h a = Some n" "nxt n = None" "a \<notin> set (as @ [b])"
  shows "chain nxt (AList.update b (set_nxt (Some a) m) h) p ((as @ [b]) @ [a])"
proof -
  let ?h = "AList.update b (set_nxt (Some a) m) h"
  have "distinct (as @ [b])" using chain_distinct [OF c] .
  moreover have "segment nxt h p as (Some b)" using c by auto
  ultimately have "segment nxt ?h p as (Some b)"
    by (subst segment_cong [where h' = h]) (auto simp: update_conv')
  then show ?thesis using n by (auto simp: update_conv' get_set)
qed

text \<open>Unlinking: the predecessor is redirected past the victim, which is then freed.\<close>

lemma unlink_first:
  assumes "chain nxt h (Some a) (a # as)" and "map_of h a = Some n"
  shows "chain nxt (AList.delete a h) (nxt n) as"
proof -
  have "a \<notin> set as" using chain_distinct [OF assms(1)] by simp
  then have "segment nxt (AList.delete a h) (nxt n) as None = segment nxt h (nxt n) as None"
    by (intro segment_cong) (auto simp: delete_conv')
  then show ?thesis using assms by simp
qed

lemma unlink_inner:
  assumes c: "chain nxt h p (as @ b # a # bs)" and m: "map_of h b = Some m" and n: "map_of h a = Some n"
  shows "chain nxt (AList.delete a (AList.update b (set_nxt (nxt n) m) h)) p (as @ b # bs)"
proof -
  let ?h = "AList.delete a (AList.update b (set_nxt (nxt n) m) h)"
  have d: "distinct (as @ b # a # bs)" using chain_distinct [OF c] .
  have "segment nxt h p as (Some b)" "chain nxt h (nxt n) bs" using c n by auto
  moreover have "map_of ?h x = map_of h x" if "x \<in> set as \<union> set bs" for x
    using d that by (auto simp: update_conv' delete_conv')
  ultimately have "segment nxt ?h p as (Some b)" "chain nxt ?h (nxt n) bs"
    using segment_cong [of as h ?h nxt p "Some b"] segment_cong [of bs h ?h nxt "nxt n" None]
    by auto
  then show ?thesis using d by (auto simp: update_conv' delete_conv' get_set)
qed

end

end
