(* ===== verification/RC_Threads.thy ===== *)
theory RC_Threads
  imports Heap_List
begin

text \<open>
  The list of running pipe threads of \<^verbatim>\<open>remote_control/remote_control.c\<close>: the struct
  \<open>running_thread_info\<close>, \<open>start_thread\<close>, which appends a node, and \<open>delete_running_thread_info\<close>,
  which unlinks and frees one. The walks take fuel; \<open>length h + 1\<close> steps, one more than there are
  nodes in the heap, are always enough for a proper list. The abstraction is the list of node
  addresses: appending and removing refine \<open>as @ [a]\<close> and \<open>remove1 a as\<close>.
\<close>

record running_thread_info =
  thread :: nat
  next_info :: ptr

type_synonym thread_heap = "running_thread_info heap"

text \<open>\<open>while(current != NULL && current->next != NULL) current = current->next;\<close>\<close>

fun last_thread_info :: "nat \<Rightarrow> thread_heap \<Rightarrow> ptr \<Rightarrow> ptr res" where
  "last_thread_info fuel h None = Ok None"
| "last_thread_info 0 h (Some a) = Timeout"
| "last_thread_info (Suc fuel) h (Some a) =
     bindR (deref h (Some a)) (\<lambda>n. case next_info n of
         None \<Rightarrow> Ok (Some a)
       | Some b \<Rightarrow> last_thread_info fuel h (Some b))"

text \<open>\<open>new_addr\<close> is what \<open>malloc\<close> returned for the node and \<open>tid\<close> what \<open>pthread_create\<close> stored.
  The results are the new head pointer, the heap and the new node.\<close>

definition start_thread :: "thread_heap \<Rightarrow> ptr \<Rightarrow> nat \<Rightarrow> nat \<Rightarrow> (thread_heap \<times> ptr \<times> ptr) res" where
  "start_thread h threads new_addr tid =
     bindR (last_thread_info (length h + 1) h threads) (\<lambda>current_thread_info.
       let h = AList.update new_addr \<lparr>thread = tid, next_info = None\<rparr> h in
       case current_thread_info of
         None \<Rightarrow> Ok (h, Some new_addr, Some new_addr)
       | Some a \<Rightarrow> bindR (assign h (Some a) (next_info_update (\<lambda>_. Some new_addr)))
           (\<lambda>h. Ok (h, threads, Some new_addr)))"

text \<open>The \<open>do ... while\<close> loop after its first round, which sets \<open>current_element\<close> to the head.\<close>

fun find_thread_info :: "nat \<Rightarrow> thread_heap \<Rightarrow> ptr \<Rightarrow> ptr \<Rightarrow> ptr \<Rightarrow> (ptr \<times> ptr) res" where
  "find_thread_info fuel h prev_element None victim = Ok (prev_element, None)"
| "find_thread_info 0 h prev_element (Some a) victim =
     (if Some a = victim then Ok (prev_element, Some a) else Timeout)"
| "find_thread_info (Suc fuel) h prev_element (Some a) victim =
     (if Some a = victim then Ok (prev_element, Some a)
      else bindR (deref h (Some a)) (\<lambda>n. case next_info n of
          None \<Rightarrow> Ok (prev_element, Some a)
        | Some b \<Rightarrow> find_thread_info fuel h (Some a) (Some b) victim))"

definition delete_running_thread_info :: "thread_heap \<Rightarrow> ptr \<Rightarrow> ptr \<Rightarrow> (thread_heap \<times> ptr) res" where
  "delete_running_thread_info h first_element victim =
     bindR (find_thread_info (length h + 1) h None first_element victim)
       (\<lambda>(prev_element, current_element).
         if current_element = victim then
           bindR (deref h current_element) (\<lambda>n.
           bindR (case prev_element of
               None \<Rightarrow> Ok (h, next_info n)
             | Some b \<Rightarrow> bindR (assign h (Some b) (next_info_update (\<lambda>_. next_info n)))
                 (\<lambda>h. Ok (h, first_element)))
             (\<lambda>(h, first_element).
               bindR (free_node h current_element) (\<lambda>h. Ok (h, first_element))))
         else Ok (h, first_element))"

section \<open>Lemmas\<close>

abbreviation thread_list :: "thread_heap \<Rightarrow> ptr \<Rightarrow> nat list \<Rightarrow> bool" where
  "thread_list \<equiv> chain next_info"

interpretation tl: next_field next_info "\<lambda>p. next_info_update (\<lambda>_. p)"
  by unfold_locales simp

lemma last_thread_info_list:
  "thread_list h p as \<Longrightarrow> length as \<le> fuel \<Longrightarrow>
    last_thread_info fuel h p = Ok (if as = [] then None else Some (last as))"
proof (induction as arbitrary: p fuel)
  case (Cons a as)
  then obtain n fuel' where n: "p = Some a" "map_of h a = Some n" "thread_list h (next_info n) as"
    and f: "fuel = Suc fuel'" by (cases fuel) auto
  show ?case
  proof (cases as)
    case Nil
    then show ?thesis using n f by simp
  next
    case (Cons b bs)
    then have "next_info n = Some b" using n by simp
    then show ?thesis using Cons.IH [OF n(3), of fuel'] Cons.prems(2) n f Cons by simp
  qed
qed simp

lemma find_thread_info_found:
  "segment next_info h p as (Some v) \<Longrightarrow> map_of h v = Some n \<Longrightarrow> v \<notin> set as \<Longrightarrow> length as \<le> fuel \<Longrightarrow>
    find_thread_info fuel h prev p (Some v) = Ok (if as = [] then prev else Some (last as), Some v)"
proof (induction as arbitrary: p fuel prev)
  case Nil
  then show ?case by (cases fuel) auto
next
  case (Cons a as)
  then obtain m fuel' where m: "p = Some a" "map_of h a = Some m" "segment next_info h (next_info m) as (Some v)"
    and f: "fuel = Suc fuel'" by (cases fuel) auto
  have nx: "next_info m \<noteq> None" using m(3) by (cases as) auto
  have "find_thread_info fuel' h (Some a) (next_info m) (Some v) =
      Ok (if as = [] then Some a else Some (last as), Some v)"
    by (rule Cons.IH) (use Cons.prems m f in auto)
  then show ?case using Cons.prems m f nx by auto
qed

lemma find_thread_info_absent:
  "thread_list h p as \<Longrightarrow> Some v \<notin> Some ` set as \<Longrightarrow> length as \<le> fuel \<Longrightarrow>
    \<exists>prev' cur. find_thread_info fuel h prev p (Some v) = Ok (prev', cur) \<and> cur \<noteq> Some v"
proof (induction as arbitrary: p fuel prev)
  case (Cons a as)
  then obtain m fuel' where m: "p = Some a" "map_of h a = Some m" "thread_list h (next_info m) as"
    and f: "fuel = Suc fuel'" by (cases fuel) auto
  have "\<exists>prev' cur. find_thread_info fuel' h (Some a) (next_info m) (Some v) = Ok (prev', cur) \<and> cur \<noteq> Some v"
    by (rule Cons.IH) (use Cons.prems m f in auto)
  then show ?case using Cons.prems m f by (auto split: option.splits)
qed simp

lemma start_thread_list:
  assumes "thread_list h threads as" and "new_addr \<notin> fst ` set h"
  shows "\<exists>h' p. start_thread h threads new_addr tid = Ok (h', p, Some new_addr) \<and>
    thread_list h' p (as @ [new_addr]) \<and>
    map_option thread (map_of h' new_addr) = Some tid \<and>
    (\<forall>a. a \<noteq> new_addr \<longrightarrow> map_option thread (map_of h' a) = map_option thread (map_of h a))"
proof (cases as rule: rev_cases)
  case Nil
  then show ?thesis using assms
    by (auto simp: start_thread_def update_conv')
next
  case (snoc bs b)
  then obtain m where m: "map_of h b = Some m" using assms(1) by auto
  let ?n = "\<lparr>thread = tid, next_info = None\<rparr>"
  let ?h = "AList.update b (next_info_update (\<lambda>_. Some new_addr) m) (AList.update new_addr ?n h)"
  have b: "b \<noteq> new_addr" using m assms(2) by (force dest: map_of_SomeD)
  have "last_thread_info (length h + 1) h threads = Ok (Some b)"
    using last_thread_info_list [OF assms(1), of "length h + 1"] chain_length [OF assms(1)] snoc by simp
  then have "start_thread h threads new_addr tid = Ok (?h, threads, Some new_addr)"
    using m b by (simp add: start_thread_def assign_def deref_def update_conv' Let_def)
  moreover have "thread_list ?h threads ((bs @ [b]) @ [new_addr])"
    by (rule tl.append_last) (use assms m snoc in auto)
  ultimately show ?thesis using snoc m b by (auto simp: update_conv')
qed

lemma delete_thread_list:
  assumes "thread_list h first as"
  shows "\<exists>h' p. delete_running_thread_info h first (Some v) = Ok (h', p) \<and>
    thread_list h' p (remove1 v as) \<and>
    (if v \<in> set as then map_of h' v = None else h' = h \<and> p = first)"
proof (cases "v \<in> set as")
  case False
  then obtain prev cur where "find_thread_info (length h + 1) h None first (Some v) = Ok (prev, cur)"
    and "cur \<noteq> Some v"
    using find_thread_info_absent [OF assms, of v "length h + 1" None] chain_length [OF assms] by auto
  then show ?thesis using False assms
    by (auto simp: delete_running_thread_info_def remove1_idem)
next
  case True
  then obtain bs cs where as: "as = bs @ v # cs" "v \<notin> set bs" by (meson split_list_first)
  then obtain n where n: "map_of h v = Some n" and seg: "segment next_info h first bs (Some v)"
    using assms by auto
  have "find_thread_info (length h + 1) h None first (Some v) =
      Ok (if bs = [] then None else Some (last bs), Some v)"
    by (rule find_thread_info_found) (use n seg as chain_length [OF assms] in auto)
  moreover have "remove1 v as = bs @ cs" using as by (simp add: remove1_append)
  moreover have "v \<notin> set cs" using chain_distinct [OF assms] as by simp
  ultimately show ?thesis
  proof (cases bs rule: rev_cases)
    case Nil
    then have "thread_list (AList.delete v h) (next_info n) cs"
      by (intro tl.unlink_first) (use assms as n Nil in auto)
    then show ?thesis using Nil n as True \<open>remove1 v as = bs @ cs\<close> \<open>find_thread_info _ _ _ _ _ = _\<close>
      by (auto simp: delete_running_thread_info_def delete_conv')
  next
    case (snoc ds d)
    then obtain m where m: "map_of h d = Some m" using seg by auto
    have "d \<noteq> v" using as snoc by auto
    let ?h = "AList.delete v (AList.update d (next_info_update (\<lambda>_. next_info n) m) h)"
    have "thread_list ?h first (ds @ d # cs)"
      by (rule tl.unlink_inner) (use assms as n m snoc in auto)
    then show ?thesis using snoc n m as True \<open>d \<noteq> v\<close> \<open>remove1 v as = bs @ cs\<close>
        \<open>find_thread_info _ _ _ _ _ = _\<close>
      by (auto simp: delete_running_thread_info_def delete_conv' update_conv' free_node_def)
  qed
qed

section \<open>Properties\<close>

text \<open>\<open>start_thread\<close> terminates on every list of threads and appends exactly the new node, at an
  address \<open>malloc\<close> has not handed out before, with the id of the created thread; all older nodes
  stay in their order.\<close>

theorem start_thread_appends:
  assumes "thread_list h threads as" and "new_addr \<notin> fst ` set h"
  shows "\<exists>h' p. start_thread h threads new_addr tid = Ok (h', p, Some new_addr) \<and>
    thread_list h' p (as @ [new_addr]) \<and>
    map_option thread (map_of h' new_addr) = Some tid \<and>
    (\<forall>a. a \<noteq> new_addr \<longrightarrow> map_option thread (map_of h' a) = map_option thread (map_of h a))"
  using assms by (rule start_thread_list)

theorem start_thread_appends_witness:
  "\<exists>h' p. start_thread [(7, \<lparr>thread = 1, next_info = None\<rparr>)] (Some 7) 9 2 = Ok (h', p, Some 9) \<and>
    thread_list h' p ([7] @ [9]) \<and> map_option thread (map_of h' 9) = Some 2 \<and>
    (\<forall>a. a \<noteq> 9 \<longrightarrow> map_option thread (map_of h' a) =
      map_option thread (map_of [(7, \<lparr>thread = 1, next_info = None\<rparr>)] a))"
  by (rule start_thread_appends) simp_all

text \<open>\<open>delete_running_thread_info\<close> terminates on every list of threads, removes exactly the
  victim from it and frees the victim's node; a victim that is not in the list changes nothing.\<close>

theorem delete_running_thread_info_removes:
  assumes "thread_list h first as"
  shows "\<exists>h' p. delete_running_thread_info h first (Some v) = Ok (h', p) \<and>
    thread_list h' p (remove1 v as) \<and>
    (if v \<in> set as then map_of h' v = None else h' = h \<and> p = first)"
  using assms by (rule delete_thread_list)

theorem delete_running_thread_info_removes_witness:
  "\<exists>h' p. delete_running_thread_info
      [(7, \<lparr>thread = 1, next_info = Some 9\<rparr>), (9, \<lparr>thread = 2, next_info = None\<rparr>)] (Some 7) (Some 9)
      = Ok (h', p) \<and>
    thread_list h' p (remove1 9 [7, 9]) \<and>
    (if (9 :: nat) \<in> set [7, 9] then map_of h' 9 = None
     else h' = [(7, \<lparr>thread = 1, next_info = Some 9\<rparr>), (9, \<lparr>thread = 2, next_info = None\<rparr>)]
       \<and> p = Some 7)"
  by (rule delete_running_thread_info_removes) simp

end
