(* ===== verification/RC_Handlers.thy ===== *)
theory RC_Handlers
  imports RC_Codec RC_Threads
begin

text \<open>
  The command handlers of \<^verbatim>\<open>remote_control/remote_control.c\<close> (\<open>handler_echo\<close>, \<open>handler_proc\<close>,
  \<open>handler_exec\<close>, \<open>handler_request_pipe\<close>), the pipe thread and \<open>send_packet\<close>, as functions on the
  state of the process. What the operating system and libproc answer is the record \<open>rc_env\<close>; what
  is written to a descriptor is recorded per descriptor (a \<open>write\<close> on the blocking socket hands
  over all its bytes). Diagnostic output of \<open>printf\<close> is left out, the echo of \<open>handler_echo\<close>,
  its only effect, is kept.
\<close>

section \<open>State\<close>

text \<open>A row of the process table: \<open>cmdline\<close> is NULL or a NULL-terminated vector of strings.\<close>

record proc_info =
  cmdline :: "cstring list option"
  tid :: int

record rc_env =
  posix_spawn :: "cstring \<Rightarrow> cstring list \<Rightarrow> cstring list \<Rightarrow> int32 \<times> int32" \<comment> \<open>result and pid\<close>
  readproc :: "proc_info list"
  malloc_addr :: "thread_heap \<Rightarrow> nat"
  pthread_id :: "thread_heap \<Rightarrow> nat"
  stack_bytes :: "nat \<Rightarrow> byte" \<comment> \<open>what an uninitialised local array holds\<close>

record pipe_request_info =
  pipe_name :: "byte list"
  pipe_id :: int
  request_pipe_running_thread_info :: ptr

record rc_state =
  connection_fd :: int
  written :: "int \<Rightarrow> byte list"
  stdout :: "byte list"
  next_pipe_id :: int16
  thread_infos :: thread_heap
  request_pipe_threads :: ptr
  pipe_requests :: "pipe_request_info list"

definition local_array :: "rc_env \<Rightarrow> nat \<Rightarrow> byte list" where
  "local_array env n = map (stack_bytes env) [0..<n]"

section \<open>Sending packets\<close>

definition sys_write :: "int \<Rightarrow> byte list \<Rightarrow> rc_state \<Rightarrow> rc_state" where
  "sys_write fd bs st = st\<lparr>written := (written st)(fd := written st fd @ bs)\<rparr>"

definition send_packet :: "rc_env \<Rightarrow> byte list \<Rightarrow> byte list \<Rightarrow> int16 \<Rightarrow> rc_state \<Rightarrow> rc_state res" where
  "send_packet env receiver data data_length st =
     bindR (strlen receiver) (\<lambda>n.
       if n \<noteq> 4 then Fault (Exited (-1))
       else
         let fd = connection_fd st;
             st = sys_write fd (bytes_of ''FUZZ'') st in
         bindR (rd_block receiver 0 4) (\<lambda>r.
         let st = sys_write fd r st in
         bindR (write_int16_t (local_array env 2) 0 data_length) (\<lambda>data_length_buffer.
         let st = sys_write fd data_length_buffer st in
         bindR (rd_block data 0 (sint data_length)) (\<lambda>d.
           Ok (sys_write fd d st)))))"

section \<open>ECHO\<close>

definition handler_echo :: "rc_env \<Rightarrow> byte list \<Rightarrow> int16 \<Rightarrow> rc_state \<Rightarrow> rc_state res" where
  "handler_echo env data data_length st =
     bindR (malloc_strncpy (sint data_length) data) (\<lambda>output.
       Ok (st\<lparr>stdout := stdout st @ bytes_of ''ECHO: '' @ cstr output @ [10]\<rparr>))"

section \<open>PROC\<close>

text \<open>The \<open>while (readproc(...))\<close> loop: the results are the buffer, the offset and the counter.\<close>

fun proc_loop :: "proc_info list \<Rightarrow> byte list \<Rightarrow> int \<Rightarrow> int \<Rightarrow> (byte list \<times> int \<times> int) res" where
  "proc_loop [] output_buffer off proc_counter = Ok (output_buffer, off, proc_counter)"
| "proc_loop (p # ps) output_buffer off proc_counter =
     (case cmdline p of
        None \<Rightarrow> proc_loop ps output_buffer off proc_counter
      | Some [] \<Rightarrow> Fault Null_pointer
      | Some (cmd0 # _) \<Rightarrow>
          bindR (write_int16_t output_buffer off 2) (\<lambda>output_buffer.
          let off = off + 2 in
          bindR (strlen (cmd0 @ [0])) (\<lambda>cmd_len.
          let local_buffer = bytes_of ''cmd='' @ take cmd_len cmd0 @ [0] in
          bindR (write_string output_buffer off (9000 - off) local_buffer (word_of_int (4 + int cmd_len)))
            (\<lambda>(_, output_buffer).
          let off = off + (4 + int cmd_len + 2);
              pid_text = bytes_of ''pid='' @ dec_int (tid p);
              len = length pid_text in
          bindR (write_string output_buffer off (9000 - off) (pid_text @ [0]) (word_of_nat len))
            (\<lambda>(len, output_buffer).
              proc_loop ps output_buffer (off + len + 2) (proc_counter + 1))))))"

definition handler_proc :: "rc_env \<Rightarrow> byte list \<Rightarrow> int16 \<Rightarrow> rc_state \<Rightarrow> rc_state res" where
  "handler_proc env data data_length st =
     bindR (proc_loop (readproc env) (local_array env 9000) 4 0) (\<lambda>(output_buffer, off, proc_counter).
     bindR (write_int32_t output_buffer 0 (word_of_int proc_counter)) (\<lambda>output_buffer.
       send_packet env (bytes_of ''RPRC'' @ [0]) output_buffer (word_of_int off) st))"

section \<open>EXEC\<close>

text \<open>
  The label \<open>handler_exec_exit\<close>. \<open>spawn_argv\<close> and \<open>spawn_envp\<close> are declared with an initialiser in
  the middle of the function; a \<open>goto\<close> that jumps over the declaration leaves them indeterminate,
  which is \<open>None\<close> here.
\<close>

fun free_local :: "list_ptr option \<Rightarrow> unit res" where
  "free_local None = Fault Uninitialised"
| "free_local (Some ListNull) = Ok ()"
| "free_local (Some ListFreed) = Fault Dangling_pointer"
| "free_local (Some (ListAt slots)) = free_string_list slots"

definition handler_exec_exit :: "list_ptr option \<Rightarrow> list_ptr option \<Rightarrow> rc_state \<Rightarrow> rc_state res" where
  "handler_exec_exit spawn_argv spawn_envp st =
     bindR (free_local spawn_argv) (\<lambda>_. bindR (free_local spawn_envp) (\<lambda>_. Ok st))"

definition set_slot :: "list_ptr \<Rightarrow> int \<Rightarrow> slot \<Rightarrow> list_ptr res" where
  "set_slot l i s = (case l of
       ListNull \<Rightarrow> Fault Null_pointer
     | ListFreed \<Rightarrow> Fault Dangling_pointer
     | ListAt slots \<Rightarrow> bindR (wr slots i s) (\<lambda>slots. Ok (ListAt slots)))"

text \<open>The vector \<open>posix_spawn\<close> reads: the strings up to the NULL entry.\<close>

fun slot_strings :: "slot list \<Rightarrow> cstring list res" where
  "slot_strings [] = Fault Out_of_bounds"
| "slot_strings (Null # rest) = Ok []"
| "slot_strings (Str s # rest) = bindR (slot_strings rest) (\<lambda>ss. Ok (cstr s # ss))"
| "slot_strings (Unset # rest) = Fault Uninitialised"
| "slot_strings (Freed # rest) = Fault Dangling_pointer"

definition vector_strings :: "list_ptr \<Rightarrow> cstring list res" where
  "vector_strings l = (case l of
       ListNull \<Rightarrow> Ok []
     | ListFreed \<Rightarrow> Fault Dangling_pointer
     | ListAt slots \<Rightarrow> slot_strings slots)"

text \<open>The status response: the program name, the pid (0 on failure) and the result of the spawn.\<close>

definition send_exec_status ::
  "rc_env \<Rightarrow> byte list \<Rightarrow> int \<Rightarrow> int32 \<Rightarrow> int32 \<Rightarrow> rc_state \<Rightarrow> rc_state res" where
  "send_exec_status env program_name program_name_length pid spawn_result st =
     (let size = 2 + program_name_length + 8 in
      bindR (write_string (replicate (nat size) 0) 0 size program_name (word_of_int program_name_length))
        (\<lambda>(_, status_response).
      bindR (write_int32_t status_response (program_name_length + 2) pid) (\<lambda>status_response.
      bindR (write_int32_t status_response (program_name_length + 2 + 4) spawn_result) (\<lambda>status_response.
        send_packet env (bytes_of ''REXS'' @ [0]) status_response (word_of_int size) st))))"

definition handler_exec :: "rc_env \<Rightarrow> byte list \<Rightarrow> int16 \<Rightarrow> rc_state \<Rightarrow> rc_state res" where
  "handler_exec env data data_length st =
     (let dl = sint data_length in
      if size_less dl 2 then handler_exec_exit None None st
      else bindR (read_string_malloc data) (\<lambda>(program_name_length, program_name).
      let off = 2 + program_name_length in
      if size_less dl (off + 2) then handler_exec_exit None None st
      else bindR (read_string_malloc (drop (nat off) data)) (\<lambda>(program_path_length, program_path).
      let off = off + (2 + program_path_length) in
      if size_less dl (off + 2) then handler_exec_exit None None st
      else bindR (read_string_list ListNull 0 (drop (nat off) data) (dl - off) 1 1)
        (\<lambda>(arg_count, spawn_argv, read_bytes).
      let off = off + read_bytes in
      bindR (set_slot spawn_argv 0 (Str (cstr program_path @ [0]))) (\<lambda>spawn_argv.
      if arg_count < 0 then handler_exec_exit (Some spawn_argv) None st
      else if size_less dl (off + 2) then handler_exec_exit (Some spawn_argv) None st
      else bindR (read_string_list ListNull read_bytes (drop (nat off) data) (dl - off) 0 0)
        (\<lambda>(env_count, spawn_envp, read_bytes).
      if env_count < 0 then handler_exec_exit (Some spawn_argv) (Some spawn_envp) st
      else bindR (vector_strings spawn_argv) (\<lambda>argv. bindR (vector_strings spawn_envp) (\<lambda>envp.
      let (spawn_result, pid) = posix_spawn env (cstr program_path) argv envp in
      bindR (send_exec_status env program_name program_name_length
          (if spawn_result \<noteq> 0 then 0 else pid) spawn_result st) (\<lambda>st.
        handler_exec_exit (Some spawn_argv) (Some spawn_envp) st)))))))))"

section \<open>PIPE\<close>

definition handler_request_pipe :: "rc_env \<Rightarrow> byte list \<Rightarrow> int16 \<Rightarrow> rc_state \<Rightarrow> rc_state res" where
  "handler_request_pipe env data data_length st =
     (let new_id = sint (next_pipe_id st);
          st = st\<lparr>next_pipe_id := next_pipe_id st + 1\<rparr> in
      bindR (malloc_strncpy (sint data_length) data) (\<lambda>name.
      bindR (write_int16_t (local_array env 2) 0 (word_of_int new_id)) (\<lambda>buffer.
      bindR (send_packet env (bytes_of ''RPIR'' @ [0]) buffer 2 st) (\<lambda>st.
      bindR (start_thread (thread_infos st) (request_pipe_threads st)
          (malloc_addr env (thread_infos st)) (pthread_id env (thread_infos st)))
        (\<lambda>(h, threads, info).
          Ok (st\<lparr>thread_infos := h, request_pipe_threads := threads,
            pipe_requests := pipe_requests st @
              [\<lparr>pipe_name = name, pipe_id = new_id, request_pipe_running_thread_info = info\<rparr>]\<rparr>))))))"

function pipe_loop :: "rc_env \<Rightarrow> byte list list \<Rightarrow> byte list \<Rightarrow> rc_state \<Rightarrow> (byte list \<times> rc_state) res" where
  "pipe_loop env chunks buffer st =
     (let (bs, chunks') = sys_read 1000 chunks in
      if bs = [] then Ok (buffer, st)
      else bindR (wr_block buffer 2 bs) (\<lambda>buffer.
           bindR (wr buffer (int (length bs) + 2) 0) (\<lambda>buffer.
           bindR (send_packet env (bytes_of ''RPIP'' @ [0]) buffer (word_of_int (int (length bs) + 2)) st)
             (\<lambda>st. pipe_loop env chunks' buffer st))))"
  by pat_completeness auto
termination
proof (relation "measure (\<lambda>(env, chunks, buffer, st). length (concat chunks))", goal_cases)
  case (2 env chunks buffer st x bs chunks')
  then have "sys_read 1000 chunks = (bs, chunks')" by simp
  then have "length (concat chunks') < length (concat chunks)"
    using 2 by (intro sys_read_less) auto
  then show ?case by simp
qed simp

declare pipe_loop.simps [simp del]

definition destroy_thread_request_pipe :: "pipe_request_info \<Rightarrow> rc_state \<Rightarrow> rc_state res" where
  "destroy_thread_request_pipe thread_info st =
     bindR (delete_running_thread_info (thread_infos st) (request_pipe_threads st)
         (request_pipe_running_thread_info thread_info))
       (\<lambda>(h, threads). Ok (st\<lparr>thread_infos := h, request_pipe_threads := threads\<rparr>))"

text \<open>\<open>mkfifo_errno\<close> is \<open>errno\<close> after \<open>mkfifo\<close> (17 is EEXIST), \<open>fd\<close> what \<open>open\<close> returned and \<open>chunks\<close>
  what the pipe delivers.\<close>

definition thread_request_pipe ::
  "rc_env \<Rightarrow> int \<Rightarrow> int \<Rightarrow> byte list list \<Rightarrow> pipe_request_info \<Rightarrow> rc_state \<Rightarrow> rc_state res" where
  "thread_request_pipe env mkfifo_errno fd chunks thread_info st =
     bindR (strlen (pipe_name thread_info)) (\<lambda>n.
       if n = 0 then Ok st
       else if mkfifo_errno \<noteq> 0 \<and> mkfifo_errno \<noteq> 17 then Ok st
       else if fd < 0 then Ok st
       else bindR (write_int16_t (local_array env 1003) 0 (word_of_int (pipe_id thread_info))) (\<lambda>buffer.
            bindR (pipe_loop env chunks buffer st) (\<lambda>(buffer, st).
            bindR (send_packet env (bytes_of ''RPIC'' @ [0]) buffer 2 st) (\<lambda>st.
              destroy_thread_request_pipe thread_info st))))"

section \<open>Specification: packets and responses\<close>

text \<open>\<open><FUZZ><receiver 4chars><length 2byte><data>\<close>\<close>

definition frame :: "byte list \<Rightarrow> byte list \<Rightarrow> byte list" where
  "frame receiver data = bytes_of ''FUZZ'' @ receiver @ int16_bytes (word_of_nat (length data)) @ data"

definition sends :: "byte list \<Rightarrow> rc_state \<Rightarrow> rc_state" where
  "sends bs st = sys_write (connection_fd st) bs st"

text \<open>The documented RPRC payload.\<close>

definition proc_strings :: "proc_info \<Rightarrow> byte list list" where
  "proc_strings p = [bytes_of ''cmd='' @ hd (the (cmdline p)), bytes_of ''pid='' @ dec_int (tid p)]"

definition proc_entry :: "proc_info \<Rightarrow> byte list" where
  "proc_entry p = string_list_bytes (proc_strings p)"

definition listed :: "proc_info list \<Rightarrow> proc_info list" where
  "listed ps = filter (\<lambda>p. cmdline p \<noteq> None) ps"

definition proc_payload :: "proc_info list \<Rightarrow> byte list" where
  "proc_payload ps = int32_bytes (word_of_nat (length (listed ps))) @ concat (map proc_entry (listed ps))"

text \<open>A row libproc can deliver: the command line, if present, has a first string without NUL.\<close>

definition proc_ok :: "proc_info \<Rightarrow> bool" where
  "proc_ok p \<longleftrightarrow> (\<forall>argv. cmdline p = Some argv \<longrightarrow> argv \<noteq> [] \<and> 0 \<notin> set (hd argv))"

text \<open>The documented EXEC request.\<close>

definition exec_request :: "byte list \<Rightarrow> byte list \<Rightarrow> byte list list \<Rightarrow> byte list list \<Rightarrow> byte list" where
  "exec_request name path args envs =
     string_bytes name @ string_bytes path @ string_list_bytes args @ string_list_bytes envs"

definition exec_status :: "byte list \<Rightarrow> int32 \<Rightarrow> int32 \<Rightarrow> byte list" where
  "exec_status name pid status = string_bytes name @ int32_bytes pid @ int32_bytes status"

section \<open>Lemmas\<close>

lemma length_local_array [simp]: "length (local_array env n) = n"
  by (simp add: local_array_def)

lemma length_bytes_of [simp]: "length (bytes_of s) = length s"
  by (simp add: bytes_of_def)

lemma connection_fd_sys_write [simp]: "connection_fd (sys_write fd bs st) = connection_fd st"
  by (simp add: sys_write_def)

lemma sends_simps [simp]:
  "connection_fd (sends bs st) = connection_fd st"
  "next_pipe_id (sends bs st) = next_pipe_id st"
  "thread_infos (sends bs st) = thread_infos st"
  "request_pipe_threads (sends bs st) = request_pipe_threads st"
  "pipe_requests (sends bs st) = pipe_requests st"
  "stdout (sends bs st) = stdout st"
  by (simp_all add: sends_def sys_write_def)

lemma sends_append: "sends bs' (sends bs st) = sends (bs @ bs') st"
  by (simp add: sends_def sys_write_def)

lemma sends_Nil [simp]: "sends [] st = st"
  by (simp add: sends_def sys_write_def)

lemma write_int16_local [simp]: "write_int16_t (local_array env 2) 0 v = Ok (int16_bytes v)"
  by (simp add: write_int16_t_enc wr_block_def)

lemma send_packet_frame:
  assumes "length r = 4" and "0 \<notin> set r" and "length d < 2 ^ 15"
  shows "send_packet env (r @ 0 # x) (d @ t) (word_of_nat (length d)) st = Ok (sends (frame r d) st)"
  using assms
  by (simp add: send_packet_def rd_block_def sint16_nonneg sends_def frame_def sys_write_def Let_def)

lemma receiver_names [simp]:
  "0 \<notin> set (bytes_of ''RPRC'')" "0 \<notin> set (bytes_of ''REXS'')" "0 \<notin> set (bytes_of ''RPIR'')"
  "0 \<notin> set (bytes_of ''RPIP'')" "0 \<notin> set (bytes_of ''RPIC'')"
  by (simp_all add: bytes_of_def)

text \<open>A call of \<open>send_packet\<close> by the handlers: a literal receiver and a length computed as an \<open>int\<close>.\<close>

lemma send_packet_prefix:
  assumes "length r = 4" and "0 \<notin> set r" and "n = int (length d)" and "length d < 2 ^ 15"
  shows "send_packet env (r @ [0]) (d @ t) (word_of_int n) st = Ok (sends (frame r d) st)"
  using send_packet_frame [OF assms(1,2,4), of env "[]" t st] assms(3) by simp

lemma send_exec_status_sends:
  assumes "length name + 10 < 2 ^ 15"
  shows "send_exec_status env (name @ [0]) (int (length name)) pid status st =
    Ok (sends (frame (bytes_of ''REXS'') (exec_status name pid status)) st)"
proof -
  let ?n = "length name"
  have size: "nat (2 + int ?n + 8) = ?n + 10" by simp
  have 1: "write_string (replicate (?n + 10) 0) 0 (2 + int ?n + 8) (name @ [0]) (word_of_int (int ?n)) =
      Ok (int ?n, string_bytes name @ replicate 8 0)"
    using assms write_string_append [of name "replicate (?n + 10) 0" "2 + int ?n + 8" "[]" "[0]"]
    by simp
  have 2: "write_int32_t (string_bytes name @ replicate 8 0) (int ?n + 2) pid =
      Ok (string_bytes name @ int32_bytes pid @ replicate 4 0)"
    using i32.put_append [of "string_bytes name" "replicate 8 0" pid] by (simp add: add.commute)
  have 3: "write_int32_t (string_bytes name @ int32_bytes pid @ replicate 4 0) (int ?n + 2 + 4) status =
      Ok (exec_status name pid status)"
    using i32.put_append [of "string_bytes name @ int32_bytes pid" "replicate 4 0" status]
    by (simp add: add.commute exec_status_def)
  have 4: "send_packet env (bytes_of ''REXS'' @ [0]) (exec_status name pid status @ [])
      (word_of_int (2 + int ?n + 8)) st = Ok (sends (frame (bytes_of ''REXS'') (exec_status name pid status)) st)"
    by (rule send_packet_prefix) (use assms in \<open>auto simp: exec_status_def\<close>)
  show ?thesis
    unfolding send_exec_status_def Let_def size
    by (simp only: 1 2 3 4 [unfolded append_Nil2] bindR.simps prod.case)
qed

lemma slot_strings_Str:
  "\<forall>s \<in> set ss. 0 \<notin> set s \<Longrightarrow> slot_strings (map (\<lambda>s. Str (s @ [0])) ss @ [Null]) = Ok ss"
  by (induction ss) auto

lemma free_string_list_Str: "free_string_list (map (\<lambda>s. Str (f s)) ss @ [Null]) = Ok ()"
  by (induction ss) auto

lemma handler_exec_request:
  assumes "wire_string name" and "wire_string path"
    and "\<forall>s \<in> set args. wire_string s" and "\<forall>s \<in> set envs. wire_string s"
    and "length args < 2 ^ 15" and "length envs < 2 ^ 15"
    and n: "n = length (exec_request name path args envs)" and "n \<le> 9990"
    and spawn: "posix_spawn env path (path # args) envs = (status, pid)"
  shows "handler_exec env (exec_request name path args envs @ rest) (word_of_nat n) st =
    Ok (sends (frame (bytes_of ''REXS'') (exec_status name (if status \<noteq> 0 then 0 else pid) status)) st)"
proof -
  let ?A = "string_list_bytes args" and ?E = "string_list_bytes envs"
  let ?data = "exec_request name path args envs @ rest"
  let ?o1 = "2 + int (length name)"
  let ?o2 = "?o1 + (2 + int (length path))"
  let ?o3 = "?o2 + int (length ?A)"
  have len: "int n = ?o3 + int (length ?E)" by (simp add: n exec_request_def)
  have small: "int n \<le> 9990" using assms(8) by simp
  have lenE: "2 \<le> length ?E" "2 \<le> length ?A" by (simp_all add: string_list_bytes_def)
  have sl: "\<not> size_less (int n) 2" "\<not> size_less (int n) (?o1 + 2)" "\<not> size_less (int n) (?o2 + 2)"
    "\<not> size_less (int n) (?o3 + 2)"
    using len small lenE by (subst size_less_nonneg; simp)+
  have 1: "read_string_malloc ?data = Ok (int (length name), name @ [0])"
    using assms(1) by (simp add: exec_request_def read_string_malloc_bytes)
  have d1: "drop (nat ?o1) ?data = string_bytes path @ ?A @ ?E @ rest"
    by (simp add: exec_request_def nat_add_distrib)
  have 2: "read_string_malloc (drop (nat ?o1) ?data) = Ok (int (length path), path @ [0])"
    using assms(2) unfolding d1 by (simp add: read_string_malloc_bytes)
  have d2: "drop (nat ?o2) ?data = ?A @ ?E @ rest"
    by (simp add: exec_request_def nat_add_distrib)
  let ?args = "map (\<lambda>s. Str (s @ [0])) args @ [Null]" and ?envs = "map (\<lambda>s. Str (s @ [0])) envs @ [Null]"
  have 3: "read_string_list ListNull 0 (drop (nat ?o2) ?data) (int n - ?o2) 1 1 =
      Ok (int (length args), ListAt (Unset # ?args), int (length ?A))"
    unfolding d2 using read_string_list_bytes [of args 1 1 "int n - ?o2" ListNull 0 "?E @ rest"] assms(3,5) len small
    by simp
  have d3: "drop (nat ?o3) ?data = ?E @ rest"
    by (simp add: exec_request_def nat_add_distrib)
  have 4: "read_string_list ListNull (int (length ?A)) (drop (nat ?o3) ?data) (int n - ?o3) 0 0 =
      Ok (int (length envs), ListAt ?envs, int (length ?E))"
    unfolding d3 using read_string_list_bytes [of envs 0 0 "int n - ?o3" ListNull "int (length ?A)" rest]
      assms(4,6) len small
    by simp
  have 5: "vector_strings (ListAt (Str (path @ [0]) # ?args)) = Ok (path # args)"
    "vector_strings (ListAt ?envs) = Ok envs"
    using assms(2,3,4) slot_strings_Str [of args] slot_strings_Str [of envs]
    by (auto simp: vector_strings_def wire_string_def)
  have 6: "send_exec_status env (name @ [0]) (int (length name)) p status st =
      Ok (sends (frame (bytes_of ''REXS'') (exec_status name p status)) st)" for p
  proof (rule send_exec_status_sends)
    have "2 \<le> int (length ?E)" "2 \<le> int (length ?A)" using lenE by linarith+
    then have "int (length name + 10) < int (2 ^ 15)" using len small by simp
    then show "length name + 10 < 2 ^ 15" by (simp only: of_nat_less_iff)
  qed
  have 7: "handler_exec_exit (Some (ListAt (Str (path @ [0]) # ?args))) (Some (ListAt ?envs)) st' = Ok st'" for st'
    by (simp add: handler_exec_exit_def free_string_list_Str)
  have 8: "set_slot (ListAt (Unset # ?args)) 0 (Str (cstr (path @ [0]) @ [0])) =
      Ok (ListAt (Str (path @ [0]) # ?args))" and 9: "cstr (path @ [0]) = path"
    using assms(2) by (simp_all add: set_slot_def wire_string_def)
  have dl: "sint (word_of_nat n :: int16) = int n" by (rule sint16_nonneg) (use assms(8) in simp)
  have nn: "\<not> int (length args) < 0" "\<not> int (length envs) < 0" by simp_all
  show ?thesis
    unfolding handler_exec_def Let_def dl
    by (simp only: sl 1 2 3 4 5 6 7 8 [unfolded 9] 9 nn spawn bindR.simps prod.case if_False)
qed

lemma proc_entry_eq:
  "proc_entry p = int16_bytes 2 @ string_bytes (bytes_of ''cmd='' @ hd (the (cmdline p)))
     @ string_bytes (bytes_of ''pid='' @ dec_int (tid p))"
  by (simp add: proc_entry_def string_list_bytes_def proc_strings_def)

text \<open>One row whose entry fits: the loop appends the entry and goes on behind it.\<close>

lemma proc_loop_step:
  assumes cmd: "cmdline p = Some (cmd0 # argv)" and "0 \<notin> set cmd0"
    and fit: "length a + length (proc_entry p) \<le> 9000" and len: "length a + length b = 9000"
  shows "proc_loop (p # ps) (a @ b) (int (length a)) k =
    proc_loop ps ((a @ proc_entry p) @ drop (length (proc_entry p)) b)
      (int (length (a @ proc_entry p))) (k + 1)"
proof -
  let ?c = "bytes_of ''cmd='' @ cmd0" and ?i = "bytes_of ''pid='' @ dec_int (tid p)"
  let ?a1 = "a @ int16_bytes 2" and ?a2 = "a @ int16_bytes 2 @ string_bytes ?c"
  let ?b1 = "drop 2 b"
  let ?b2 = "drop (length ?c + 2) ?b1"
  have L: "length (proc_entry p) = 2 + (2 + length ?c) + (2 + length ?i)"
    using cmd by (simp add: proc_entry_eq)
  have 1: "write_int16_t (a @ b) (int (length a)) 2 = Ok (?a1 @ ?b1)"
    using fit len L by (simp add: i16.put_append)
  have 2: "write_string (?a1 @ ?b1) (int (length ?a1)) (9000 - int (length ?a1)) (?c @ [0])
      (word_of_nat (length ?c)) = Ok (int (length ?c), ?a1 @ string_bytes ?c @ ?b2)"
    by (rule write_string_append) (use fit len L in auto)
  have 3: "write_string (?a2 @ ?b2) (int (length ?a2)) (9000 - int (length ?a2)) (?i @ [0])
      (word_of_nat (length ?i)) = Ok (int (length ?i), ?a2 @ string_bytes ?i @ drop (length ?i + 2) ?b2)"
    by (rule write_string_append) (use fit len L in auto)
  have e: "a @ proc_entry p = ?a2 @ string_bytes ?i" using cmd by (simp add: proc_entry_eq)
  have d: "drop (length (proc_entry p)) b = drop (length ?i + 2) ?b2"
    unfolding L by (simp add: add_ac)
  have o1: "int (length a) + 2 = int (length ?a1)" by simp
  have w: "(word_of_int (4 + int (length cmd0)) :: int16) = word_of_nat (length ?c)" by simp
  have o2: "int (length ?a1) + (4 + int (length cmd0) + 2) = int (length ?a2)" by simp
  have t: "take (length cmd0) cmd0 = cmd0" by simp
  have o3: "int (length ?a2) + int (length ?i) + 2 = int (length (a @ proc_entry p))"
    unfolding e by simp
  have s: "strlen (cmd0 @ [0]) = Ok (length cmd0)" using assms(2) by simp
  show ?thesis
    unfolding proc_loop.simps cmd option.case list.case Let_def
    by (simp only: s t 1 [unfolded append_assoc] bindR.simps o1 w append_assoc
        2 [unfolded append_assoc] prod.case o2 3 [unfolded append_assoc] o3 d
        e [unfolded append_assoc])
qed

lemma proc_loop_payload:
  assumes "\<forall>p \<in> set ps. proc_ok p" and "length a + length (concat (map proc_entry (listed ps))) \<le> 9000"
    and "length a + length b = 9000"
  shows "proc_loop (ps @ qs) (a @ b) (int (length a)) k =
    proc_loop qs ((a @ concat (map proc_entry (listed ps))) @ drop (length (concat (map proc_entry (listed ps)))) b)
      (int (length (a @ concat (map proc_entry (listed ps))))) (k + int (length (listed ps)))"
  using assms
proof (induction ps arbitrary: a b k)
  case (Cons p ps)
  show ?case
  proof (cases "cmdline p")
    case None
    then show ?thesis using Cons by (simp add: listed_def)
  next
    case (Some argv)
    then obtain cmd0 as where cmd: "cmdline p = Some (cmd0 # as)" "0 \<notin> set cmd0"
      using Cons.prems(1) by (cases argv) (auto simp: proc_ok_def)
    let ?a = "a @ proc_entry p" and ?b = "drop (length (proc_entry p)) b"
    have l: "listed (p # ps) = p # listed ps" using cmd by (simp add: listed_def)
    have "proc_loop ((p # ps) @ qs) (a @ b) (int (length a)) k = proc_loop (ps @ qs) (?a @ ?b) (int (length ?a)) (k + 1)"
      using proc_loop_step [OF cmd, of a b "ps @ qs" k] Cons.prems l by simp
    also have "\<dots> = proc_loop qs ((?a @ concat (map proc_entry (listed ps))) @
          drop (length (concat (map proc_entry (listed ps)))) ?b)
        (int (length (?a @ concat (map proc_entry (listed ps))))) (k + 1 + int (length (listed ps)))"
      by (rule Cons.IH) (use Cons.prems l in auto)
    finally show ?thesis using l by (simp add: add_ac)
  qed
qed (simp add: listed_def)

lemma handler_proc_sends:
  assumes ok: "\<forall>p \<in> set (readproc env). proc_ok p" and fit: "length (proc_payload (readproc env)) \<le> 9000"
  shows "handler_proc env data data_length st =
    Ok (sends (frame (bytes_of ''RPRC'') (proc_payload (readproc env))) st)"
proof -
  let ?ps = "readproc env" and ?a = "take 4 (local_array env 9000)" and ?b = "drop 4 (local_array env 9000)"
  let ?E = "concat (map proc_entry (listed ?ps))"
  have L: "length (proc_payload ?ps) = 4 + length ?E" by (simp add: proc_payload_def)
  have 1: "proc_loop ?ps (local_array env 9000) 4 0 =
      Ok ((?a @ ?E) @ drop (length ?E) ?b, int (length (?a @ ?E)), int (length (listed ?ps)))"
    using proc_loop_payload [OF ok, of ?a ?b "[]" 0] fit L by simp
  have 2: "write_int32_t ((?a @ ?E) @ drop (length ?E) ?b) 0 (word_of_int (int (length (listed ?ps)))) =
      Ok (proc_payload ?ps @ drop (length ?E) ?b)"
    using i32.put_append [of "[]" "(?a @ ?E) @ drop (length ?E) ?b" "word_of_nat (length (listed ?ps))"]
    by (simp add: proc_payload_def)
  have 3: "send_packet env (bytes_of ''RPRC'' @ [0]) (proc_payload ?ps @ drop (length ?E) ?b)
      (word_of_int (int (length (?a @ ?E)))) st = Ok (sends (frame (bytes_of ''RPRC'') (proc_payload ?ps)) st)"
    by (rule send_packet_prefix) (use fit L in auto)
  show ?thesis
    unfolding handler_proc_def by (simp only: 1 2 3 bindR.simps prod.case)
qed

lemma sys_read_nonempty:
  assumes "[] \<notin> set cs" and "sys_read n cs = (bs, cs')" and "0 < n"
  shows "[] \<notin> set cs' \<and> length bs \<le> n \<and> (bs = [] \<longrightarrow> cs = [])"
  using assms by (cases cs) (auto split: if_splits)

text \<open>The pipe thread forwards the pipe's bytes in pieces of at most 1000 bytes, each in a packet of
  its own behind the pipe id.\<close>

definition pipe_frames :: "int16 \<Rightarrow> byte list list \<Rightarrow> byte list" where
  "pipe_frames new_id pieces = concat (map (\<lambda>c. frame (bytes_of ''RPIP'') (int16_bytes new_id @ c)) pieces)"

lemma pipe_loop_sends:
  assumes "length rest = 1001" and "[] \<notin> set chunks"
  shows "\<exists>pieces rest'. pipe_loop env chunks (int16_bytes new_id @ rest) st =
      Ok (int16_bytes new_id @ rest', sends (pipe_frames new_id pieces) st) \<and>
    concat pieces = concat chunks \<and> (\<forall>c \<in> set pieces. c \<noteq> [] \<and> length c \<le> 1000)"
  using assms
proof (induction "length (concat chunks)" arbitrary: chunks rest st rule: less_induct)
  case less
  obtain bs chunks' where rd: "sys_read 1000 chunks = (bs, chunks')" by fastforce
  note nonempty = sys_read_nonempty [OF less.prems(2) rd]
  show ?case
  proof (cases "bs = []")
    case True
    then have "chunks = []" using nonempty by simp
    moreover have "pipe_loop env chunks (int16_bytes new_id @ rest) st =
        Ok (int16_bytes new_id @ rest, sends (pipe_frames new_id []) st)"
      using True rd by (simp add: pipe_loop.simps [of env chunks] pipe_frames_def)
    ultimately show ?thesis by (metis concat.simps(1) empty_iff list.set(1))
  next
    case False
    have n: "length bs \<le> 1000" using nonempty by simp
    let ?tail = "drop (length bs) rest"
    have 1: "wr_block (int16_bytes new_id @ rest) 2 bs = Ok (int16_bytes new_id @ bs @ ?tail)"
      using n less.prems(1) wr_block_append [of "int16_bytes new_id" rest bs] by simp
    have 2: "wr (int16_bytes new_id @ bs @ ?tail) (int (length bs) + 2) 0 =
        Ok (int16_bytes new_id @ bs @ ?tail[0 := 0])"
      using n less.prems(1) by (simp add: wr_def list_update_append nat_add_distrib)
    have 3: "send_packet env (bytes_of ''RPIP'' @ [0]) ((int16_bytes new_id @ bs) @ ?tail[0 := 0])
        (word_of_int (int (length bs) + 2)) st =
      Ok (sends (frame (bytes_of ''RPIP'') (int16_bytes new_id @ bs)) st)"
      by (rule send_packet_prefix) (use n in auto)
    let ?rest = "bs @ ?tail[0 := 0]"
    let ?st = "sends (frame (bytes_of ''RPIP'') (int16_bytes new_id @ bs)) st"
    have step: "pipe_loop env chunks (int16_bytes new_id @ rest) st = pipe_loop env chunks' (int16_bytes new_id @ ?rest) ?st"
      unfolding pipe_loop.simps [of env chunks] rd Let_def prod.case
      using False by (simp only: 1 2 3 [unfolded append_assoc] bindR.simps if_False)
    have "length (concat chunks') < length (concat chunks)" using rd False by (rule sys_read_less)
    then obtain pieces rest' where ih: "pipe_loop env chunks' (int16_bytes new_id @ ?rest) ?st =
        Ok (int16_bytes new_id @ rest', sends (pipe_frames new_id pieces) ?st)"
      "concat pieces = concat chunks'" "\<forall>c \<in> set pieces. c \<noteq> [] \<and> length c \<le> 1000"
      using less.hyps [of chunks' ?rest ?st] n nonempty less.prems(1) by auto
    have "concat (bs # pieces) = concat chunks" using sys_read_total [OF rd] ih(2) by simp
    moreover have "\<forall>c \<in> set (bs # pieces). c \<noteq> [] \<and> length c \<le> 1000" using ih(3) n False by simp
    moreover have "pipe_loop env chunks (int16_bytes new_id @ rest) st =
        Ok (int16_bytes new_id @ rest', sends (pipe_frames new_id (bs # pieces)) st)"
      unfolding step ih(1) by (simp add: sends_append pipe_frames_def)
    ultimately show ?thesis by blast
  qed
qed

lemma write_int16_local_append:
  "2 \<le> n \<Longrightarrow> write_int16_t (local_array env n) 0 v = Ok (int16_bytes v @ drop 2 (local_array env n))"
  using i16.put_append [of "[]" "local_array env n" v] by simp

lemma thread_request_pipe_sends:
  assumes "cstr (pipe_name info) \<noteq> []" and "strlen (pipe_name info) = Ok n" and "e = 0 \<or> e = 17"
    and "0 \<le> fd" and "[] \<notin> set chunks"
    and "thread_list (thread_infos st) (request_pipe_threads st) as"
    and "request_pipe_running_thread_info info = Some v"
  shows "\<exists>pieces h p. thread_request_pipe env e fd chunks info st =
      Ok ((sends (pipe_frames (word_of_int (pipe_id info)) pieces
        @ frame (bytes_of ''RPIC'') (int16_bytes (word_of_int (pipe_id info)))) st)
        \<lparr>thread_infos := h, request_pipe_threads := p\<rparr>) \<and>
    concat pieces = concat chunks \<and> thread_list h p (remove1 v as)"
proof -
  let ?id = "word_of_int (pipe_id info) :: int16"
  have n: "n \<noteq> 0" using assms(1,2) by (cases "pipe_name info") (auto simp: cstr_def bindR_eq_Ok split: if_splits)
  obtain pieces rest where loop: "pipe_loop env chunks (int16_bytes ?id @ drop 2 (local_array env 1003)) st =
      Ok (int16_bytes ?id @ rest, sends (pipe_frames ?id pieces) st)" and pieces: "concat pieces = concat chunks"
    using pipe_loop_sends [of "drop 2 (local_array env 1003)" chunks env ?id st] assms(5) by auto
  have 3: "send_packet env (bytes_of ''RPIC'' @ [0]) (int16_bytes ?id @ rest) (word_of_int 2)
      (sends (pipe_frames ?id pieces) st) =
    Ok (sends (frame (bytes_of ''RPIC'') (int16_bytes ?id)) (sends (pipe_frames ?id pieces) st))"
    by (rule send_packet_prefix) auto
  obtain h p where del: "delete_running_thread_info (thread_infos st) (request_pipe_threads st) (Some v) = Ok (h, p)"
    and list: "thread_list h p (remove1 v as)"
    using delete_thread_list [OF assms(6)] by blast
  show ?thesis
    using n assms(2,3,4,7) loop 3 del list pieces
    by (auto simp: thread_request_pipe_def write_int16_local_append destroy_thread_request_pipe_def sends_append)
qed

lemma handler_request_pipe_starts:
  assumes "thread_list (thread_infos st) (request_pipe_threads st) as"
    and "malloc_addr env (thread_infos st) = a" and "a \<notin> fst ` set (thread_infos st)"
    and "malloc_strncpy (sint data_length) data = Ok name"
  shows "\<exists>h p. handler_request_pipe env data data_length st =
      Ok ((sends (frame (bytes_of ''RPIR'') (int16_bytes (next_pipe_id st)))
          (st\<lparr>next_pipe_id := next_pipe_id st + 1\<rparr>))
        \<lparr>thread_infos := h, request_pipe_threads := p,
         pipe_requests := pipe_requests st @ [\<lparr>pipe_name = name, pipe_id = sint (next_pipe_id st),
           request_pipe_running_thread_info = Some a\<rparr>]\<rparr>) \<and>
    thread_list h p (as @ [a])"
proof -
  have 1: "send_packet env (bytes_of ''RPIR'' @ [0]) (int16_bytes (next_pipe_id st) @ []) (word_of_int 2) st' =
      Ok (sends (frame (bytes_of ''RPIR'') (int16_bytes (next_pipe_id st))) st')" for st'
    by (rule send_packet_prefix) auto
  obtain h p where 2: "start_thread (thread_infos st) (request_pipe_threads st) a
      (pthread_id env (thread_infos st)) = Ok (h, p, Some a)" "thread_list h p (as @ [a])"
    using start_thread_list [OF assms(1,3)] by blast
  show ?thesis
    using assms(2,4) 1 2
    by (simp add: handler_request_pipe_def Let_def) blast
qed

lemma strlen_cases: "(\<exists>n. strlen s = Ok n) \<or> strlen s = Fault Out_of_bounds"
proof (induction s)
  case (Cons a s)
  then show ?case by (cases "a = 0") auto
qed simp

text \<open>Behind the end of the buffer \<open>write_string\<close> either refuses or overruns; it never succeeds.\<close>

lemma write_string_past_end:
  assumes "int (length b) < p"
  shows "write_string b p (int (length b) - p) s w = Ok (-1, b) \<or>
    write_string b p (int (length b) - p) s w = Fault Out_of_bounds"
proof -
  have "write_int16_t b p v = Fault Out_of_bounds" for v
    using assms by (simp add: write_int16_t_enc wr_block_def)
  then show ?thesis using strlen_cases [of s] by (auto simp: write_string_def split: if_splits)
qed

lemma proc_loop_overrun:
  assumes "length b = 9000" and "0 \<le> off" and cmd: "cmdline p = Some (cmd0 # argv)"
    and "0 \<notin> set cmd0" and "length cmd0 < 2 ^ 15 - 4" and "9000 < off + 8 + int (length cmd0)"
    and q: "cmdline q = Some (cmd1 # argv1)"
  shows "proc_loop (p # q # ps) b off k = Fault Out_of_bounds"
proof (cases "off + 2 \<le> 9000")
  case False
  then show ?thesis using assms by (simp add: write_int16_t_enc wr_block_def)
next
  case True
  then obtain b1 where b1: "write_int16_t b off 2 = Ok b1" "length b1 = 9000"
    using assms(1,2) by (auto simp: write_int16_t_enc wr_block_def)
  have w: "(word_of_int (4 + int (length cmd0)) :: int16) = word_of_nat (4 + length cmd0)" by simp
  have 1: "write_string b1 (off + 2) (9000 - (off + 2)) (bytes_of ''cmd='' @ cmd0 @ [0])
      (word_of_int (4 + int (length cmd0))) = Ok (-1, b1)"
    unfolding w using assms(5,6) sint16_nonneg [of "4 + length cmd0"] by (simp add: write_string_def)
  let ?off = "off + 2 + (4 + int (length cmd0) + 2)"
  let ?t = "bytes_of ''pid='' @ dec_int (tid p)"
  have nx: "proc_loop (q # ps) b1 (?off + -1 + 2) (k + 1) = Fault Out_of_bounds"
    using q b1(2) assms(6) by (simp add: write_int16_t_enc wr_block_def)
  have "write_string b1 ?off (9000 - ?off) (?t @ [0]) (word_of_nat (length ?t)) = Ok (-1, b1) \<or>
      write_string b1 ?off (9000 - ?off) (?t @ [0]) (word_of_nat (length ?t)) = Fault Out_of_bounds"
    using write_string_past_end [of b1 ?off] b1(2) assms(6) by simp
  then show ?thesis
  proof
    assume 2: "write_string b1 ?off (9000 - ?off) (?t @ [0]) (word_of_nat (length ?t)) = Ok (-1, b1)"
    have t: "take (length cmd0) cmd0 = cmd0" and s: "strlen (cmd0 @ [0]) = Ok (length cmd0)"
      using assms(4) by simp_all
    show ?thesis
      unfolding proc_loop.simps(2) [of p] cmd option.case list.case Let_def
      by (simp only: b1(1) s t 1 2 nx bindR.simps prod.case)
  next
    assume 2: "write_string b1 ?off (9000 - ?off) (?t @ [0]) (word_of_nat (length ?t)) = Fault Out_of_bounds"
    have t: "take (length cmd0) cmd0 = cmd0" and s: "strlen (cmd0 @ [0]) = Ok (length cmd0)"
      using assms(4) by simp_all
    show ?thesis
      unfolding proc_loop.simps(2) [of p] cmd option.case list.case Let_def
      by (simp only: b1(1) s t 1 2 bindR.simps prod.case)
  qed
qed

section \<open>Properties\<close>

text \<open>A concrete environment for the witnesses.\<close>

definition sample_env :: "proc_info list \<Rightarrow> rc_env" where
  "sample_env ps = \<lparr>posix_spawn = (\<lambda>_ _ _. (0, 42)), readproc = ps,
     malloc_addr = (\<lambda>h. Suc (sum_list (map fst h))), pthread_id = length, stack_bytes = (\<lambda>_. 170)\<rparr>"

definition sample_state :: rc_state where
  "sample_state = \<lparr>connection_fd = 4, written = (\<lambda>_. []), stdout = [], next_pipe_id = 0,
     thread_infos = [], request_pipe_threads = None, pipe_requests = []\<rparr>"

text \<open>C2: A well-formed EXEC request (program name, path, arguments and environment in the documented
  encoding, of at most the maximal packet size) spawns exactly that program with the path as
  \<open>argv[0]\<close> and those vectors, and answers with one REXS packet holding the name, the pid (0 if the
  spawn failed) and the status; bytes behind the request are not looked at and no memory fault
  occurs.\<close>

theorem exec_request_answered:
  assumes "wire_string name" and "wire_string path"
    and "\<forall>s \<in> set args. wire_string s" and "\<forall>s \<in> set envs. wire_string s"
    and "length args < 2 ^ 15" and "length envs < 2 ^ 15"
    and "n = length (exec_request name path args envs)" and "n \<le> 9990"
    and "posix_spawn env path (path # args) envs = (status, pid)"
  shows "handler_exec env (exec_request name path args envs @ rest) (word_of_nat n) st =
    Ok (sends (frame (bytes_of ''REXS'') (exec_status name (if status \<noteq> 0 then 0 else pid) status)) st)"
  using assms by (rule handler_exec_request)

theorem exec_request_answered_witness:
  "handler_exec (sample_env []) (exec_request [97] [47, 98] [[45, 120]] [[72, 61, 49]] @ [1, 2, 3])
      (word_of_nat 20) sample_state =
    Ok (sends (frame (bytes_of ''REXS'') (exec_status [97] (if (0 :: int32) \<noteq> 0 then 0 else 42) 0)) sample_state)"
  by (rule exec_request_answered)
    (simp_all add: wire_string_def exec_request_def string_list_bytes_def sample_env_def)

text \<open>An EXEC request that ends before the argument list does not fail cleanly: every early exit
  of \<open>handler_exec\<close> jumps over the initialisation of \<open>spawn_argv\<close> and \<open>spawn_envp\<close> and then reads
  them.\<close>

theorem exec_truncated_uninitialised:
  assumes "wire_string name" and "length name < 2 ^ 14" and "k < 2"
  shows "handler_exec env data (word_of_nat k) st = Fault Uninitialised \<and>
    handler_exec env (string_bytes name @ rest) (word_of_nat (2 + length name + k)) st = Fault Uninitialised"
proof
  have "sint (word_of_nat k :: int16) = int k" by (rule sint16_nonneg) (use assms in simp)
  moreover have "size_less (int k) 2" using assms by (subst size_less_nonneg) auto
  ultimately show "handler_exec env data (word_of_nat k) st = Fault Uninitialised"
    by (simp add: handler_exec_def handler_exec_exit_def Let_def)
next
  let ?n = "2 + length name + k"
  have dl: "sint (word_of_nat ?n :: int16) = int ?n" by (rule sint16_nonneg) (use assms in simp)
  have 1: "\<not> size_less (int ?n) 2" using assms by (subst size_less_nonneg) auto
  have 2: "size_less (int ?n) (2 + int (length name) + 2)"
    using assms by (subst size_less_nonneg) auto
  show "handler_exec env (string_bytes name @ rest) (word_of_nat ?n) st = Fault Uninitialised"
    unfolding handler_exec_def Let_def dl read_string_malloc_bytes [OF assms(1)]
    using 1 2 by (simp only: if_False if_True bindR.simps prod.case handler_exec_exit_def free_local.simps)
qed

theorem exec_truncated_uninitialised_witness:
  "handler_exec (sample_env []) [9] (word_of_nat 1) sample_state = Fault Uninitialised \<and>
    handler_exec (sample_env []) (string_bytes [97] @ [0]) (word_of_nat (2 + length [97 :: byte] + 1)) sample_state
      = Fault Uninitialised"
  by (rule exec_truncated_uninitialised) (simp_all add: wire_string_def)

text \<open>If the encoded process table fits the 9000-byte buffer, \<open>handler_proc\<close> sends exactly the
  documented RPRC packet: the number of processes that have a command line and, for each of them
  in order, two strings with its command and its pid. Nothing of the uninitialised buffer leaks.\<close>

theorem proc_table_sent:
  assumes "\<forall>p \<in> set (readproc env). proc_ok p" and "length (proc_payload (readproc env)) \<le> 9000"
  shows "handler_proc env data data_length st =
    Ok (sends (frame (bytes_of ''RPRC'') (proc_payload (readproc env))) st)"
  using assms by (rule handler_proc_sends)

theorem proc_table_sent_witness:
  "handler_proc (sample_env [\<lparr>cmdline = None, tid = 1\<rparr>, \<lparr>cmdline = Some [[97]], tid = 2\<rparr>]) [] 0 sample_state =
    Ok (sends (frame (bytes_of ''RPRC'') (proc_payload
      (readproc (sample_env [\<lparr>cmdline = None, tid = 1\<rparr>, \<lparr>cmdline = Some [[97]], tid = 2\<rparr>])))) sample_state)"
  by (rule proc_table_sent)
    (simp_all add: sample_env_def proc_ok_def proc_payload_def listed_def proc_entry_eq dec_int_def
      dec_nat_def digits_of.simps)

text \<open>A process table that does not fit makes \<open>handler_proc\<close> write behind its stack buffer: when
  the command of one process reaches past the end of the 9000 bytes, \<open>write_string\<close> refuses it but
  the offset still moves past the end, and the entry of the next process is stored there.\<close>

theorem proc_table_overrun:
  assumes "readproc env = pre @ p # q # post" and "\<forall>x \<in> set pre. proc_ok x"
    and "E = 4 + length (concat (map proc_entry (listed pre)))" and "E \<le> 9000"
    and "cmdline p = Some (cmd0 # argv)" and "0 \<notin> set cmd0" and "length cmd0 < 2 ^ 15 - 4"
    and "9000 < E + 8 + length cmd0" and "cmdline q = Some (cmd1 # argv1)"
  shows "handler_proc env data data_length st = Fault Out_of_bounds"
proof -
  let ?a = "take 4 (local_array env 9000)" and ?b = "drop 4 (local_array env 9000)"
  let ?P = "concat (map proc_entry (listed pre))"
  have 1: "proc_loop (pre @ p # q # post) (?a @ ?b) (int (length ?a)) 0 =
      proc_loop (p # q # post) ((?a @ ?P) @ drop (length ?P) ?b) (int (length (?a @ ?P)))
        (0 + int (length (listed pre)))"
    by (rule proc_loop_payload) (use assms(2,3,4) in auto)
  have 2: "\<dots> = Fault Out_of_bounds"
    by (rule proc_loop_overrun) (use assms in auto)
  have "proc_loop (readproc env) (local_array env 9000) 4 0 = Fault Out_of_bounds"
    using 1 2 assms(1) by simp
  then show ?thesis by (simp add: handler_proc_def)
qed

theorem proc_table_overrun_witness:
  "handler_proc (sample_env [\<lparr>cmdline = Some [replicate 9000 97], tid = 1\<rparr>, \<lparr>cmdline = Some [[98]], tid = 2\<rparr>])
      [] 0 sample_state = Fault Out_of_bounds"
  by (rule proc_table_overrun [where pre = "[]" and E = 4 and p = "\<lparr>cmdline = Some [replicate 9000 97], tid = 1\<rparr>"
        and q = "\<lparr>cmdline = Some [[98]], tid = 2\<rparr>" and post = "[]"
        and ?cmd0.0 = "replicate 9000 97" and argv = "[]" and ?cmd1.0 = "[98]" and ?argv1.0 = "[]"])
    (simp_all add: sample_env_def listed_def)

text \<open>A PIPE request is answered at once by one RPIR packet with the id of the pipe, the next
  request gets the next id, and the thread that serves the pipe is appended to the list of
  running threads and remembered with the requested name.\<close>

theorem pipe_request_registered:
  assumes "thread_list (thread_infos st) (request_pipe_threads st) as"
    and "malloc_addr env (thread_infos st) = a" and "a \<notin> fst ` set (thread_infos st)"
    and "0 \<notin> set name" and "length name < 2 ^ 15"
  shows "\<exists>h p. handler_request_pipe env (name @ rest) (word_of_nat (length name)) st =
      Ok ((sends (frame (bytes_of ''RPIR'') (int16_bytes (next_pipe_id st)))
          (st\<lparr>next_pipe_id := next_pipe_id st + 1\<rparr>))
        \<lparr>thread_infos := h, request_pipe_threads := p,
         pipe_requests := pipe_requests st @ [\<lparr>pipe_name = name @ [0], pipe_id = sint (next_pipe_id st),
           request_pipe_running_thread_info = Some a\<rparr>]\<rparr>) \<and>
    thread_list h p (as @ [a])"
  by (rule handler_request_pipe_starts) (use assms in \<open>auto simp: sint16_nonneg\<close>)

theorem pipe_request_registered_witness:
  "\<exists>h p. handler_request_pipe (sample_env []) ([47, 112] @ [9]) (word_of_nat (length [47, 112 :: byte])) sample_state =
      Ok ((sends (frame (bytes_of ''RPIR'') (int16_bytes (next_pipe_id sample_state)))
          (sample_state\<lparr>next_pipe_id := next_pipe_id sample_state + 1\<rparr>))
        \<lparr>thread_infos := h, request_pipe_threads := p,
         pipe_requests := pipe_requests sample_state @ [\<lparr>pipe_name = [47, 112] @ [0],
           pipe_id = sint (next_pipe_id sample_state), request_pipe_running_thread_info = Some 1\<rparr>]\<rparr>) \<and>
    thread_list h p ([] @ [1])"
  by (rule pipe_request_registered) (simp_all add: sample_env_def sample_state_def)

text \<open>The pipe thread forwards everything the pipe delivers, in order and without loss, in RPIP
  packets that carry the pipe id, then sends one RPIC packet, and removes its own node from the
  list of running threads.\<close>

theorem pipe_thread_forwards:
  assumes "pipe_name info = name @ [0]" and "0 \<notin> set name" and "name \<noteq> []"
    and "e = 0 \<or> e = 17" and "0 \<le> fd" and "[] \<notin> set chunks"
    and "thread_list (thread_infos st) (request_pipe_threads st) as"
    and "request_pipe_running_thread_info info = Some v"
  shows "\<exists>pieces h p. thread_request_pipe env e fd chunks info st =
      Ok ((sends (pipe_frames (word_of_int (pipe_id info)) pieces
        @ frame (bytes_of ''RPIC'') (int16_bytes (word_of_int (pipe_id info)))) st)
        \<lparr>thread_infos := h, request_pipe_threads := p\<rparr>) \<and>
    concat pieces = concat chunks \<and> thread_list h p (remove1 v as)"
  by (rule thread_request_pipe_sends) (use assms in auto)

theorem pipe_thread_forwards_witness:
  "\<exists>pieces h p. thread_request_pipe (sample_env []) 17 5 [[65, 66], [67]]
        \<lparr>pipe_name = [112] @ [0], pipe_id = 3, request_pipe_running_thread_info = Some 1\<rparr> sample_state =
      Ok ((sends (pipe_frames (word_of_int (pipe_id
          \<lparr>pipe_name = [112] @ [0], pipe_id = 3, request_pipe_running_thread_info = Some 1\<rparr>)) pieces
        @ frame (bytes_of ''RPIC'') (int16_bytes (word_of_int (pipe_id
          \<lparr>pipe_name = [112] @ [0], pipe_id = 3, request_pipe_running_thread_info = Some 1\<rparr>)))) sample_state)
        \<lparr>thread_infos := h, request_pipe_threads := p\<rparr>) \<and>
    concat pieces = concat [[65, 66], [67]] \<and> thread_list h p (remove1 1 [])"
  by (rule pipe_thread_forwards [where name = "[112]"]) (simp_all add: sample_state_def)

end
