(* ===== verification/RC_Server.thy ===== *)
theory RC_Server
  imports RC_Handlers
begin

text \<open>
  The receiving side of \<^verbatim>\<open>remote_control/remote_control.c\<close>: the dispatch table and
  \<open>process_packet\<close>, the framing loop \<open>receive_packet_loop\<close> with its 10001-byte buffer, and the accept
  loop of \<open>main\<close>. The inner search loop can run forever on hostile input, so it takes fuel; the
  main results are that every stream of well-formed packets, however the network cuts it into
  chunks, is dispatched packet by packet in order, that the search ends when no announced length is
  negative, and that a negative length can make it spin.
\<close>

section \<open>Dispatch\<close>

type_synonym handlerfn = "rc_env \<Rightarrow> byte list \<Rightarrow> int16 \<Rightarrow> rc_state \<Rightarrow> rc_state res"

text \<open>The NULL entry that ends the table in C is the end of the list.\<close>

definition cmd_handlers :: "(byte list \<times> handlerfn) list" where
  "cmd_handlers =
    [(bytes_of ''ECHO'' @ [0], handler_echo),
     (bytes_of ''PIPE'' @ [0], handler_request_pipe),
     (bytes_of ''EXEC'' @ [0], handler_exec),
     (bytes_of ''PROC'' @ [0], handler_proc)]"

fun find_handler :: "(byte list \<times> handlerfn) list \<Rightarrow> byte list \<Rightarrow> handlerfn option res" where
  "find_handler [] receiver = Ok None"
| "find_handler ((receiver_name, h) # hs) receiver =
     bindR (strncmp_eq receiver_name receiver 4) (\<lambda>eq.
       if eq then Ok (Some h) else find_handler hs receiver)"

definition process_packet :: "rc_env \<Rightarrow> byte list \<Rightarrow> byte list \<Rightarrow> int16 \<Rightarrow> rc_state \<Rightarrow> rc_state res" where
  "process_packet env receiver data data_length st =
     bindR (find_handler cmd_handlers receiver) (\<lambda>handler. case handler of
         None \<Rightarrow> Ok st
       | Some h \<Rightarrow> h env data data_length st)"

definition extract_packet :: "rc_env \<Rightarrow> byte list \<Rightarrow> int \<Rightarrow> int16 \<Rightarrow> rc_state \<Rightarrow> rc_state res" where
  "extract_packet env buffer start_offset data_length st =
     bindR (strncpy 4 (drop (nat (start_offset + 4)) buffer)) (\<lambda>receiver.
       process_packet env (receiver @ [0]) (drop (nat (start_offset + 10)) buffer) data_length st)"

section \<open>Framing\<close>

definition copy_to_start :: "byte list \<Rightarrow> int \<Rightarrow> int \<Rightarrow> byte list res" where
  "copy_to_start buffer start_index len =
     bindR (rd_block buffer start_index len) (\<lambda>v. wr_block buffer 0 v)"

definition magic_at :: "byte list \<Rightarrow> int \<Rightarrow> bool res" where
  "magic_at buffer c = bindR (rd_block buffer c 4) (\<lambda>v. Ok (v = bytes_of ''FUZZ''))"

text \<open>The \<open>for\<close> loop of \<open>receive_packet_loop\<close> from a given \<open>c\<close>; the results are the buffer and
  \<open>write_pos\<close> after it.\<close>

fun scan_packets :: "nat \<Rightarrow> rc_env \<Rightarrow> byte list \<Rightarrow> int \<Rightarrow> int \<Rightarrow> rc_state \<Rightarrow> (byte list \<times> int \<times> rc_state) res" where
  "scan_packets 0 env buffer write_pos c st = Timeout"
| "scan_packets (Suc fuel) env buffer write_pos c st =
     (if \<not> c < write_pos - 3 then Ok (buffer, write_pos, st)
      else bindR (magic_at buffer c) (\<lambda>magic.
        if \<not> magic then scan_packets fuel env buffer write_pos (c + 1) st
        else if write_pos - c \<ge> 10 then
          bindR (read_int16_t (drop (nat (c + 8)) buffer)) (\<lambda>data_length.
            if write_pos - c \<ge> 10 + sint data_length then
              bindR (extract_packet env buffer c data_length st) (\<lambda>st.
              bindR (copy_to_start buffer (c + 10 + sint data_length)
                  (write_pos - c - 10 - sint data_length)) (\<lambda>buffer.
                scan_packets fuel env buffer (write_pos - c - 10 - sint data_length) 0 st))
            else bindR (copy_to_start buffer c (write_pos - c)) (\<lambda>buffer.
                Ok (buffer, write_pos - c, st)))
        else if c > 0 then
          bindR (copy_to_start buffer c (write_pos - c)) (\<lambda>buffer. Ok (buffer, write_pos - c, st))
        else Ok (buffer, write_pos, st)))"

function receive_loop :: "nat \<Rightarrow> rc_env \<Rightarrow> byte list list \<Rightarrow> byte list \<Rightarrow> int \<Rightarrow> rc_state \<Rightarrow> rc_state res" where
  "receive_loop fuel env chunks buffer write_pos st =
     (let (bs, chunks') = sys_read (nat (10000 - write_pos)) chunks in
      if bs = [] then Ok st
      else bindR (wr_block buffer write_pos bs) (\<lambda>buffer.
           let write_pos = write_pos + int (length bs) in
           bindR (wr buffer write_pos 0) (\<lambda>buffer.
           bindR (scan_packets fuel env buffer write_pos 0 st) (\<lambda>(buffer, write_pos, st).
             receive_loop fuel env chunks' buffer write_pos st))))"
  by pat_completeness auto
termination
proof (relation "measure (\<lambda>(fuel, env, chunks, buffer, write_pos, st). length (concat chunks))", goal_cases)
  case (2 fuel env chunks buffer write_pos st x bs chunks')
  then have "sys_read (nat (10000 - write_pos)) chunks = (bs, chunks')" by simp
  then have "length (concat chunks') < length (concat chunks)"
    using 2 by (intro sys_read_less) auto
  then show ?case by simp
qed simp

declare receive_loop.simps [simp del]

definition receive_packet_loop :: "nat \<Rightarrow> rc_env \<Rightarrow> byte list list \<Rightarrow> rc_state \<Rightarrow> rc_state res" where
  "receive_packet_loop fuel env chunks st = receive_loop fuel env chunks (local_array env 10001) 0 st"

text \<open>The accept loop of \<open>main\<close>, over the connections accepted so far and what each delivers.\<close>

fun main_loop :: "nat \<Rightarrow> rc_env \<Rightarrow> (int \<times> byte list list) list \<Rightarrow> rc_state \<Rightarrow> rc_state res" where
  "main_loop fuel env [] st = Ok st"
| "main_loop fuel env ((fd, chunks) # clients) st =
     bindR (receive_packet_loop fuel env chunks (st\<lparr>connection_fd := fd\<rparr>)) (main_loop fuel env clients)"

section \<open>Specification\<close>

type_synonym packet = "byte list \<times> byte list" \<comment> \<open>receiver and data\<close>

definition stream :: "packet list \<Rightarrow> byte list" where
  "stream pkts = concat (map (\<lambda>(r, d). frame r d) pkts)"

definition deliver :: "rc_env \<Rightarrow> packet \<Rightarrow> rc_state \<Rightarrow> rc_state res" where
  "deliver env p st = process_packet env (fst p @ [0]) (snd p) (word_of_nat (length (snd p))) st"

text \<open>A packet of the protocol: a four-character receiver, at most 10000 bytes in all, and for EXEC
  a request in the documented encoding.\<close>

definition exec_encoded :: "byte list \<Rightarrow> bool" where
  "exec_encoded d \<longleftrightarrow> (\<exists>name path args envs. d = exec_request name path args envs \<and>
     wire_string name \<and> wire_string path \<and> (\<forall>s \<in> set args. wire_string s) \<and>
     (\<forall>s \<in> set envs. wire_string s) \<and> length args < 2 ^ 15 \<and> length envs < 2 ^ 15)"

definition packet_ok :: "packet \<Rightarrow> bool" where
  "packet_ok p \<longleftrightarrow> length (fst p) = 4 \<and> 0 \<notin> set (fst p) \<and> length (snd p) \<le> 9990 \<and>
     (fst p = bytes_of ''EXEC'' \<longrightarrow> exec_encoded (snd p))"

section \<open>Lemmas\<close>

lemma length_frame [simp]: "length r = 4 \<Longrightarrow> length (frame r d) = 10 + length d"
  by (simp add: frame_def)

lemma stream_Cons [simp]: "stream ((r, d) # pkts) = frame r d @ stream pkts"
  by (simp add: stream_def)

lemma stream_Nil [simp]: "stream [] = []"
  by (simp add: stream_def)

lemma strncmp_eq_iff:
  "0 \<notin> set a \<Longrightarrow> 0 \<notin> set b \<Longrightarrow> length a = n \<Longrightarrow> length b = n \<Longrightarrow> strncmp_eq (a @ x) (b @ y) n = Ok (a = b)"
proof (induction n arbitrary: a b)
  case (Suc n)
  then show ?case by (cases a; cases b) auto
qed simp

lemma find_handler_receiver:
  assumes "length r = 4" and "0 \<notin> set r"
  shows "find_handler cmd_handlers (r @ [0]) = Ok (
    if r = bytes_of ''ECHO'' then Some handler_echo
    else if r = bytes_of ''PIPE'' then Some handler_request_pipe
    else if r = bytes_of ''EXEC'' then Some handler_exec
    else if r = bytes_of ''PROC'' then Some handler_proc else None)"
proof -
  have "strncmp_eq (bytes_of n @ [0]) (r @ [0]) 4 = Ok (bytes_of n = r)"
    if "n \<in> {''ECHO'', ''PIPE'', ''EXEC'', ''PROC''}" for n
    by (rule strncmp_eq_iff) (use that assms in \<open>auto simp: bytes_of_def\<close>)
  then show ?thesis by (auto simp: cmd_handlers_def)
qed

text \<open>A handler that gets a packet of the protocol does not look behind its data.\<close>

lemma process_packet_local:
  assumes "packet_ok (r, d)"
  shows "process_packet env (r @ [0]) (d @ t) (word_of_nat (length d)) st = deliver env (r, d) st"
proof -
  have len: "sint (word_of_nat (length d) :: int16) = int (length d)"
    by (rule sint16_nonneg) (use assms in \<open>simp add: packet_ok_def\<close>)
  have copy: "malloc_strncpy (int (length d)) (d @ t) = malloc_strncpy (int (length d)) d" for t
    using strncpy_prefix [of d "length d" t "[]"] by (simp add: malloc_strncpy_def)
  have exec: "handler_exec env (d @ t) (word_of_nat (length d)) st = handler_exec env d (word_of_nat (length d)) st"
    if "exec_encoded d"
  proof -
    from that obtain name path args envs where d: "d = exec_request name path args envs"
      "wire_string name" "wire_string path" "\<forall>s \<in> set args. wire_string s"
      "\<forall>s \<in> set envs. wire_string s" "length args < 2 ^ 15" "length envs < 2 ^ 15"
      by (auto simp: exec_encoded_def)
    obtain status pid where sp: "posix_spawn env path (path # args) envs = (status, pid)" by fastforce
    have "length d \<le> 9990" using assms by (simp add: packet_ok_def)
    then show ?thesis
      using handler_exec_request [OF d(2-7) _ _ sp, of "length d" t st]
        handler_exec_request [OF d(2-7) _ _ sp, of "length d" "[]" st] d(1) by simp
  qed
  show ?thesis
    using assms find_handler_receiver [of r] exec
    by (auto simp: deliver_def process_packet_def packet_ok_def handler_echo_def handler_request_pipe_def
        handler_proc_def len copy)
qed

lemma copy_to_start_same: "0 \<le> n \<Longrightarrow> n \<le> int (length b) \<Longrightarrow> copy_to_start b 0 n = Ok b"
  by (simp add: copy_to_start_def rd_block_def wr_block_def)

lemma copy_to_start_Ok:
  assumes "0 \<le> i" "0 \<le> n" "i + n \<le> int (length b)"
  shows "\<exists>b'. copy_to_start b i n = Ok b' \<and> length b' = length b \<and>
    take (nat n) b' = take (nat n) (drop (nat i) b)"
proof -
  have "nat i + nat n \<le> length b" using assms by linarith
  then show ?thesis using assms by (auto simp: copy_to_start_def rd_block_def wr_block_def)
qed

text \<open>The unread bytes \<open>u\<close> at the front of the buffer.\<close>

definition holds :: "byte list \<Rightarrow> byte list \<Rightarrow> bool" where
  "holds buffer u \<longleftrightarrow> length buffer = 10001 \<and> length u \<le> 10000 \<and> take (length u) buffer = u"

lemma holds_split: "holds buffer u \<Longrightarrow> buffer = u @ drop (length u) buffer"
  unfolding holds_def by (metis append_take_drop_id)

lemma magic_frame: "magic_at (bytes_of ''FUZZ'' @ t) 0 = Ok True"
  by (simp add: magic_at_def rd_block_def)

lemma length_frame_header: "length r = 4 \<Longrightarrow>
    read_int16_t (drop 8 (bytes_of ''FUZZ'' @ r @ int16_bytes w @ t)) = Ok w"
  by (simp add: i16.dec_enc)

text \<open>A buffer that starts with an incomplete packet: the search leaves it where it is.\<close>

lemma scan_incomplete:
  assumes h: "holds buffer u" and r: "length r = 4" and d: "length d < 2 ^ 15"
    and u: "u @ v = frame r d" and v: "v \<noteq> []"
  shows "scan_packets (Suc fuel) env buffer (int (length u)) 0 st = Ok (buffer, int (length u), st)"
proof (cases "length u < 4")
  case True
  then show ?thesis by simp
next
  case False
  obtain t where b: "buffer = u @ t" using holds_split [OF h] by blast
  from False u obtain u1 where u1: "u = bytes_of ''FUZZ'' @ u1"
    using append_eq_prefix [of u v "bytes_of ''FUZZ''"] by (auto simp: frame_def)
  then have m: "magic_at buffer 0 = Ok True"
    using magic_frame [of "u1 @ t"] b by simp
  show ?thesis
  proof (cases "length u < 10")
    case True
    then show ?thesis using m by simp
  next
    case F10: False
    let ?w = "word_of_nat (length d) :: int16"
    obtain u2 where u2: "u = (bytes_of ''FUZZ'' @ r @ int16_bytes ?w) @ u2" "u2 @ v = d"
      using append_eq_prefix [of u v "bytes_of ''FUZZ'' @ r @ int16_bytes ?w" d] u F10 r
      by (auto simp: frame_def)
    then have rd: "read_int16_t (drop (nat 8) buffer) = Ok ?w"
      using length_frame_header [OF r, of ?w "u2 @ t"] b by (simp del: drop_append)
    have "length u < 10 + length d" using u2 v r by auto
    moreover have "copy_to_start buffer 0 (int (length u)) = Ok buffer"
      by (rule copy_to_start_same) (use h in \<open>auto simp: holds_def\<close>)
    ultimately show ?thesis using m rd F10 d by (simp add: sint16_nonneg)
  qed
qed

text \<open>A buffer that starts with a complete packet: it is delivered and removed.\<close>

lemma scan_complete:
  assumes h: "holds buffer (frame r d @ u)" and p: "packet_ok (r, d)"
  shows "\<exists>buffer'. holds buffer' u \<and>
    scan_packets (Suc fuel) env buffer (int (length (frame r d @ u))) 0 st =
      bindR (deliver env (r, d) st) (scan_packets fuel env buffer' (int (length u)) 0)"
proof -
  let ?w = "word_of_nat (length d) :: int16"
  obtain t where b: "buffer = frame r d @ u @ t" using holds_split [OF h] by (metis append_assoc)
  have r: "length r = 4" "0 \<notin> set r" and dl: "length d \<le> 9990" using p by (auto simp: packet_ok_def)
  have sw: "sint ?w = int (length d)" by (rule sint16_nonneg) (use dl in simp)
  have m: "magic_at buffer 0 = Ok True"
    using magic_frame [of "r @ int16_bytes ?w @ d @ u @ t"] b by (simp add: frame_def)
  have rd: "read_int16_t (drop (nat 8) buffer) = Ok ?w"
    using length_frame_header [OF r(1), of ?w "d @ u @ t"] b by (simp add: frame_def del: drop_append)
  have d4: "drop 4 buffer = r @ int16_bytes ?w @ d @ u @ t"
    and d10: "drop 10 buffer = d @ u @ t"
    using r(1) by (subst b, simp add: frame_def)+
  have "strncpy 4 (drop 4 buffer) = Ok r"
    unfolding d4 using strncpy_exact [OF r(2)] r(1) by simp
  then have ex: "extract_packet env buffer 0 ?w st = deliver env (r, d) st"
    using process_packet_local [OF p, of env "u @ t" st] d10 by (simp add: extract_packet_def)
  obtain buffer' where cp: "copy_to_start buffer (0 + 10 + int (length d)) (int (length u)) = Ok buffer'"
    and len: "length buffer' = length buffer"
    and tk: "take (length u) buffer' = take (length u) (drop (10 + length d) buffer)"
    using copy_to_start_Ok [of "0 + 10 + int (length d)" "int (length u)" buffer] h r(1)
    by (auto simp: holds_def nat_add_distrib)
  have "drop (10 + length d) buffer = u @ t"
    using r(1) by (subst b) (simp add: frame_def)
  then have "holds buffer' u" using len tk h r(1) by (auto simp: holds_def)
  moreover have "scan_packets (Suc fuel) env buffer (int (length (frame r d @ u))) 0 st =
      bindR (deliver env (r, d) st) (scan_packets fuel env buffer' (int (length u)) 0)"
    using m rd sw ex cp r(1) by simp
  ultimately show ?thesis by blast
qed

text \<open>The search loop delivers the complete packets of the buffer and keeps the incomplete rest.\<close>

lemma scan_stream:
  assumes "holds buffer u" and "u @ v = stream pkts" and "\<forall>p \<in> set pkts. packet_ok p" and "length u < fuel"
  shows "\<exists>ready todo buffer' u'. pkts = ready @ todo \<and> u' @ v = stream todo \<and> holds buffer' u' \<and>
    (todo = [] \<or> length u' < length (frame (fst (hd todo)) (snd (hd todo)))) \<and>
    scan_packets fuel env buffer (int (length u)) 0 st =
      bindR (foldR (deliver env) ready st) (\<lambda>st. Ok (buffer', int (length u'), st))"
  using assms
proof (induction pkts arbitrary: buffer u st fuel)
  case Nil
  then obtain f where "fuel = Suc f" "u = []" by (cases fuel) auto
  then show ?case using Nil by (intro exI [of _ "[]"] exI [of _ buffer] exI [of _ u]) auto
next
  case (Cons p pkts)
  obtain r d where p: "p = (r, d)" by fastforce
  have ok: "packet_ok (r, d)" and r: "length r = 4" and d: "length d < 2 ^ 15"
    using Cons.prems(3) p by (auto simp: packet_ok_def)
  obtain f where f: "fuel = Suc f" using Cons.prems(4) by (cases fuel) auto
  show ?case
  proof (cases "length u < length (frame r d)")
    case True
    then obtain w where w: "frame r d = u @ w" "w \<noteq> []"
      using append_eq_prefix [of "frame r d" "stream pkts" u v] Cons.prems(2) p by auto
    have "scan_packets fuel env buffer (int (length u)) 0 st = Ok (buffer, int (length u), st)"
      unfolding f by (rule scan_incomplete [OF Cons.prems(1) r d w(1) [symmetric] w(2)])
    then show ?thesis using Cons.prems True p
      by (intro exI [of _ "[]"] exI [of _ "p # pkts"] exI [of _ buffer] exI [of _ u]) auto
  next
    case False
    then obtain u1 where u1: "u = frame r d @ u1" "u1 @ v = stream pkts"
      using append_eq_prefix [of u v "frame r d" "stream pkts"] Cons.prems(2) p by auto
    obtain buffer1 where b1: "holds buffer1 u1"
      and step: "scan_packets (Suc f) env buffer (int (length (frame r d @ u1))) 0 st =
        bindR (deliver env (r, d) st) (scan_packets f env buffer1 (int (length u1)) 0)"
      using scan_complete [of buffer r d u1 f env st] Cons.prems(1) u1(1) ok by auto
    have "length u1 < f" using Cons.prems(4) f u1(1) r by simp
    then have ih: "\<exists>ready todo buffer' u'. pkts = ready @ todo \<and> u' @ v = stream todo \<and> holds buffer' u' \<and>
        (todo = [] \<or> length u' < length (frame (fst (hd todo)) (snd (hd todo)))) \<and>
        scan_packets f env buffer1 (int (length u1)) 0 st1 =
          bindR (foldR (deliver env) ready st1) (\<lambda>st. Ok (buffer', int (length u'), st))" for st1
      using Cons.IH [OF b1 u1(2)] Cons.prems(3) by simp
    define st1 where "st1 = (case deliver env (r, d) st of Ok s \<Rightarrow> s | _ \<Rightarrow> st)"
    obtain ready todo buffer' u' where ih': "pkts = ready @ todo" "u' @ v = stream todo" "holds buffer' u'"
        "todo = [] \<or> length u' < length (frame (fst (hd todo)) (snd (hd todo)))"
        "scan_packets f env buffer1 (int (length u1)) 0 st1 =
          bindR (foldR (deliver env) ready st1) (\<lambda>st. Ok (buffer', int (length u'), st))"
      using ih [of st1] by blast
    have "scan_packets fuel env buffer (int (length u)) 0 st =
        bindR (foldR (deliver env) (p # ready) st) (\<lambda>st. Ok (buffer', int (length u'), st))"
      using step ih'(5) by (cases "deliver env (r, d) st") (simp_all add: f u1(1) p st1_def)
    then show ?thesis using ih'
      by (intro exI [of _ "p # ready"] exI [of _ todo] exI [of _ buffer'] exI [of _ u']) simp
  qed
qed

text \<open>The receive loop delivers the whole stream.\<close>

lemma receive_loop_stream:
  assumes "holds buffer u" and "u @ concat chunks = stream pkts" and "\<forall>p \<in> set pkts. packet_ok p"
    and "[] \<notin> set chunks" and "10000 < fuel"
    and "pkts = [] \<or> length u < length (frame (fst (hd pkts)) (snd (hd pkts)))"
  shows "receive_loop fuel env chunks buffer (int (length u)) st = foldR (deliver env) pkts st"
  using assms
proof (induction "length (concat chunks)" arbitrary: chunks buffer u pkts st rule: less_induct)
  case less
  obtain bs chunks' where rd: "sys_read (nat (10000 - int (length u))) chunks = (bs, chunks')" by fastforce
  have pk: "length (frame (fst p) (snd p)) \<le> 10000" if "p \<in> set pkts" for p
    using less.prems(3) that by (auto simp: packet_ok_def)
  show ?case
  proof (cases "pkts = []")
    case True
    then have "concat chunks = []" using less.prems(2) by simp
    then have "bs = []" using sys_read_total [OF rd] by simp
    then show ?thesis using True rd by (simp add: receive_loop.simps [of fuel env chunks])
  next
    case False
    have room: "length u < 10000" using False less.prems(6) pk [of "hd pkts"] by simp
    then have pos: "0 < nat (10000 - int (length u))" by simp
    note ne = sys_read_nonempty [OF less.prems(4) rd pos]
    have "length u < length (stream pkts)"
      using False less.prems(6) by (cases pkts) (auto simp: stream_def)
    then have "chunks \<noteq> []" using less.prems(2) by auto
    then have bs: "bs \<noteq> []" using ne by blast
    have u1: "length (u @ bs) \<le> 10000" using ne room by simp linarith
    have v: "(u @ bs) @ concat chunks' = stream pkts" using sys_read_total [OF rd] less.prems(2) by simp
    let ?t = "drop (length u) buffer"
    have b: "buffer = u @ ?t" and bl: "length buffer = 10001"
      using holds_split [OF less.prems(1)] less.prems(1) by (auto simp: holds_def)
    have 1: "wr_block buffer (int (length u)) bs = Ok ((u @ bs) @ drop (length bs) ?t)"
      using wr_block_append [of u ?t bs] b bl u1 by simp
    have lt: "0 < length (drop (length bs) ?t)" using bl u1 by simp
    have 2: "wr ((u @ bs) @ drop (length bs) ?t) (int (length u) + int (length bs)) 0 =
        Ok ((u @ bs) @ (drop (length bs) ?t)[0 := 0])"
      using lt by (simp add: wr_def list_update_append nat_add_distrib)
    let ?b = "(u @ bs) @ (drop (length bs) ?t)[0 := 0]"
    have h: "holds ?b (u @ bs)" using u1 bl by (simp add: holds_def)
    obtain ready todo buffer' u' where sc: "pkts = ready @ todo" "u' @ concat chunks' = stream todo"
      "holds buffer' u'" "todo = [] \<or> length u' < length (frame (fst (hd todo)) (snd (hd todo)))"
      "scan_packets fuel env ?b (int (length (u @ bs))) 0 st =
        bindR (foldR (deliver env) ready st) (\<lambda>st. Ok (buffer', int (length u'), st))"
      using scan_stream [OF h v less.prems(3), of fuel env st] u1 less.prems(5) by auto
    have shorter: "length (concat chunks') < length (concat chunks)" using rd bs by (rule sys_read_less)
    have ih: "receive_loop fuel env chunks' buffer' (int (length u')) st' = foldR (deliver env) todo st'" for st'
      by (rule less.hyps [OF shorter sc(3,2)]) (use less.prems sc ne in auto)
    have "receive_loop fuel env chunks buffer (int (length u)) st =
        bindR (scan_packets fuel env ?b (int (length (u @ bs))) 0 st) (\<lambda>(buffer, write_pos, st).
          receive_loop fuel env chunks' buffer write_pos st)"
      unfolding receive_loop.simps [of fuel env chunks] rd Let_def prod.case
      using bs by (simp only: 1 2 bindR.simps if_False length_append of_nat_add)
    also have "\<dots> = bindR (foldR (deliver env) ready st) (foldR (deliver env) todo)"
      unfolding sc(5) by (simp only: bindR_assoc bindR.simps prod.case ih)
    finally show ?thesis using sc(1) by (simp add: foldR_append)
  qed
qed

subsection \<open>Termination\<close>

lemma codec_no_timeout [no_timeout]:
  "read_int16_t b \<noteq> Timeout" "write_int16_t b p v \<noteq> Timeout" "write_int32_t b p w \<noteq> Timeout"
  "malloc_strncpy n src \<noteq> Timeout" "read_string_malloc b \<noteq> Timeout"
  "write_string b p m d l \<noteq> Timeout"
  by (auto simp: read_int16_t_def write_int16_t_enc write_int32_t_enc malloc_strncpy_def
      read_string_malloc_def write_string_def no_timeout bindR_eq_Timeout)

lemma simple_free_no_timeout [no_timeout]: "simple_free slots i \<noteq> Timeout"
  by (auto simp: simple_free_def no_timeout bindR_eq_Timeout split: slot.split)

lemma read_slots_no_timeout [no_timeout]: "read_slots k slots data len off counter start \<noteq> Timeout"
  by (induction k arbitrary: slots off counter) (auto simp: no_timeout bindR_eq_Timeout)

lemma free_back_no_timeout [no_timeout]: "free_back k slots start \<noteq> Timeout"
  by (induction k arbitrary: slots) (auto simp: no_timeout bindR_eq_Timeout)

lemma free_string_list_no_timeout [no_timeout]: "free_string_list slots \<noteq> Timeout"
  by (induction slots rule: free_string_list.induct) auto

lemma slot_strings_no_timeout [no_timeout]: "slot_strings slots \<noteq> Timeout"
  by (induction slots rule: slot_strings.induct) (auto simp: bindR_eq_Timeout)

lemma read_string_list_no_timeout [no_timeout]: "read_string_list l rb data len extra start \<noteq> Timeout"
  by (auto simp: read_string_list_def Let_def no_timeout bindR_eq_Timeout)

lemma send_packet_no_timeout [no_timeout]: "send_packet env r d n st \<noteq> Timeout"
  by (auto simp: send_packet_def Let_def no_timeout bindR_eq_Timeout)

lemma proc_loop_no_timeout [no_timeout]: "proc_loop ps b off k \<noteq> Timeout"
  by (induction ps arbitrary: b off k)
    (auto simp: Let_def no_timeout bindR_eq_Timeout split: option.split list.split)

lemma exec_parts_no_timeout [no_timeout]:
  "free_local l \<noteq> Timeout" "handler_exec_exit a e st \<noteq> Timeout" "set_slot p i s \<noteq> Timeout"
  "vector_strings p \<noteq> Timeout" "send_exec_status env name n pid status st \<noteq> Timeout"
proof -
  show free: "free_local l \<noteq> Timeout" for l
    by (cases l rule: free_local.cases) (auto simp: no_timeout)
  then show "handler_exec_exit a e st \<noteq> Timeout"
    by (auto simp: handler_exec_exit_def bindR_eq_Timeout)
qed (auto simp: set_slot_def vector_strings_def send_exec_status_def Let_def no_timeout bindR_eq_Timeout split: list_ptr.split)

lemma handlers_no_timeout [no_timeout]:
  "handler_echo env d n st \<noteq> Timeout" "handler_proc env d n st \<noteq> Timeout" "handler_exec env d n st \<noteq> Timeout"
  by (auto simp: handler_echo_def handler_proc_def handler_exec_def Let_def no_timeout bindR_eq_Timeout split: prod.split)

text \<open>Only \<open>handler_request_pipe\<close> changes the thread list.\<close>

definition same_threads :: "rc_state \<Rightarrow> rc_state \<Rightarrow> bool" where
  "same_threads st st' \<longleftrightarrow> thread_infos st' = thread_infos st \<and> request_pipe_threads st' = request_pipe_threads st"

lemma send_packet_threads: "send_packet env r d n st = Ok st' \<Longrightarrow> same_threads st st'"
  by (auto simp: send_packet_def Let_def bindR_eq_Ok sys_write_def same_threads_def split: if_splits)

lemma send_exec_status_threads: "send_exec_status env name n pid status st = Ok st' \<Longrightarrow> same_threads st st'"
  by (auto simp: send_exec_status_def Let_def bindR_eq_Ok dest: send_packet_threads)

lemma handlers_threads:
  "handler_echo env d n st = Ok st' \<Longrightarrow> same_threads st st'"
  "handler_proc env d n st = Ok st' \<Longrightarrow> same_threads st st'"
  "handler_exec env d n st = Ok st' \<Longrightarrow> same_threads st st'"
proof -
  show "handler_echo env d n st = Ok st' \<Longrightarrow> same_threads st st'"
    by (auto simp: handler_echo_def bindR_eq_Ok same_threads_def)
  show "handler_proc env d n st = Ok st' \<Longrightarrow> same_threads st st'"
    by (auto simp: handler_proc_def bindR_eq_Ok dest: send_packet_threads)
  show "handler_exec env d n st = Ok st' \<Longrightarrow> same_threads st st'"
    by (auto simp: handler_exec_def handler_exec_exit_def Let_def bindR_eq_Ok split_beta
        dest: send_exec_status_threads split: if_splits) (simp_all add: same_threads_def)
qed

definition threads_ok :: "rc_state \<Rightarrow> bool" where
  "threads_ok st \<longleftrightarrow> (\<exists>as. thread_list (thread_infos st) (request_pipe_threads st) as)"

text \<open>What the program relies on \<open>malloc\<close> for: a new node does not overlap a live one.\<close>

definition malloc_fresh :: "rc_env \<Rightarrow> bool" where
  "malloc_fresh env \<longleftrightarrow> (\<forall>h. malloc_addr env h \<notin> fst ` set h)"

lemma same_threads_ok: "same_threads st st' \<Longrightarrow> threads_ok st \<Longrightarrow> threads_ok st'"
  by (simp add: same_threads_def threads_ok_def)

lemma handler_request_pipe_threads:
  assumes "malloc_fresh env" and "threads_ok st"
  shows "handler_request_pipe env d n st \<noteq> Timeout \<and>
    (\<forall>st'. handler_request_pipe env d n st = Ok st' \<longrightarrow> threads_ok st')"
proof (cases "malloc_strncpy (sint n) d")
  case (Ok name)
  obtain as where as: "thread_list (thread_infos st) (request_pipe_threads st) as"
    using assms(2) by (auto simp: threads_ok_def)
  have fresh: "malloc_addr env (thread_infos st) \<notin> fst ` set (thread_infos st)"
    using assms(1) by (simp add: malloc_fresh_def)
  obtain h p where "handler_request_pipe env d n st =
      Ok ((sends (frame (bytes_of ''RPIR'') (int16_bytes (next_pipe_id st)))
          (st\<lparr>next_pipe_id := next_pipe_id st + 1\<rparr>))
        \<lparr>thread_infos := h, request_pipe_threads := p,
         pipe_requests := pipe_requests st @ [\<lparr>pipe_name = name, pipe_id = sint (next_pipe_id st),
           request_pipe_running_thread_info = Some (malloc_addr env (thread_infos st))\<rparr>]\<rparr>)"
    "thread_list h p (as @ [malloc_addr env (thread_infos st)])"
    using handler_request_pipe_starts [OF as refl fresh Ok] by blast
  then show ?thesis by (auto simp: threads_ok_def simp del: segment_append)
qed (auto simp: handler_request_pipe_def Let_def codec_no_timeout(4))

lemma find_handler_no_timeout [no_timeout]: "find_handler hs r \<noteq> Timeout"
  by (induction hs r rule: find_handler.induct) (auto simp: no_timeout bindR_eq_Timeout)

lemma find_handler_table: "find_handler hs r = Ok (Some h) \<Longrightarrow> h \<in> snd ` set hs"
  by (induction hs) (auto simp: bindR_eq_Ok split: if_splits)

lemma process_packet_threads:
  assumes "malloc_fresh env" and "threads_ok st"
  shows "process_packet env r d n st \<noteq> Timeout \<and>
    (\<forall>st'. process_packet env r d n st = Ok st' \<longrightarrow> threads_ok st')"
proof (cases "find_handler cmd_handlers r")
  case (Ok x)
  show ?thesis
  proof (cases x)
    case None
    then show ?thesis using Ok assms by (simp add: process_packet_def)
  next
    case (Some h)
    then have "h \<in> {handler_echo, handler_request_pipe, handler_exec, handler_proc}"
      using find_handler_table [of cmd_handlers r h] Ok by (auto simp: cmd_handlers_def)
    then have "h env d n st \<noteq> Timeout \<and> (\<forall>st'. h env d n st = Ok st' \<longrightarrow> threads_ok st')"
      using handler_request_pipe_threads [OF assms, of d n] assms(2)
      by (auto simp: no_timeout dest: handlers_threads same_threads_ok)
    then show ?thesis using Ok Some by (simp add: process_packet_def)
  qed
qed (auto simp: process_packet_def find_handler_no_timeout)

text \<open>No place in the bytes that looks like the start of a packet announces a negative length.\<close>

definition no_negative_length :: "byte list \<Rightarrow> bool" where
  "no_negative_length u \<longleftrightarrow> (\<forall>i w. i + 10 \<le> length u \<longrightarrow> take 4 (drop i u) = bytes_of ''FUZZ'' \<longrightarrow>
     read_int16_t (drop (i + 8) u) = Ok w \<longrightarrow> 0 \<le> sint w)"

lemma read_int16_t_append: "2 \<le> length a \<Longrightarrow> read_int16_t (a @ t) = read_int16_t a"
  by (auto simp: read_int16_t_def rd_def nth_append)

lemma no_negative_length_infix:
  assumes "no_negative_length (a @ u @ b)"
  shows "no_negative_length u"
  unfolding no_negative_length_def
proof (intro allI impI)
  fix i w
  assume i: "i + 10 \<le> length u" and m: "take 4 (drop i u) = bytes_of ''FUZZ''"
    and r: "read_int16_t (drop (i + 8) u) = Ok w"
  have "take 4 (drop (length a + i) (a @ u @ b)) = bytes_of ''FUZZ''"
    using i m by simp
  moreover have "read_int16_t (drop (length a + i + 8) (a @ u @ b)) = Ok w"
    using i r by (simp add: read_int16_t_append add.assoc)
  moreover have "length a + i + 10 \<le> length (a @ u @ b)" using i by simp
  ultimately show "0 \<le> sint w" using assms unfolding no_negative_length_def by blast
qed

lemma holds_magic:
  assumes "holds buffer u" and "c + 4 \<le> length u"
  shows "magic_at buffer (int c) = Ok (take 4 (drop c u) = bytes_of ''FUZZ'')"
proof -
  obtain t where "buffer = u @ t" using holds_split [OF assms(1)] by blast
  then show ?thesis using assms(2) by (simp add: magic_at_def rd_block_def)
qed

lemma holds_length_field:
  assumes "holds buffer u" and "c + 10 \<le> length u"
  shows "read_int16_t (drop (nat (int c + 8)) buffer) = read_int16_t (drop (c + 8) u)"
proof -
  obtain t where "buffer = u @ t" using holds_split [OF assms(1)] by blast
  then show ?thesis using assms(2) by (simp add: nat_add_distrib read_int16_t_append)
qed

lemma holds_copy:
  assumes "holds buffer u" and "k \<le> length u"
  obtains buffer' where "copy_to_start buffer (int k) (int (length u - k)) = Ok buffer'"
    and "holds buffer' (drop k u)"
proof -
  obtain t where t: "buffer = u @ t" using holds_split [OF assms(1)] by blast
  have "int k + int (length u - k) \<le> int (length buffer)" using assms(2) t by simp
  then obtain b' where b': "copy_to_start buffer (int k) (int (length u - k)) = Ok b'"
    "length b' = length buffer" "take (length u - k) b' = take (length u - k) (drop k buffer)"
    using copy_to_start_Ok [of "int k" "int (length u - k)" buffer] by (auto simp del: of_nat_diff)
  then have "holds b' (drop k u)" using assms t by (auto simp: holds_def)
  with b' that show ?thesis by blast
qed

lemma extract_packet_threads:
  assumes "malloc_fresh env" and "threads_ok st"
  shows "extract_packet env buffer i n st \<noteq> Timeout \<and>
    (\<forall>st'. extract_packet env buffer i n st = Ok st' \<longrightarrow> threads_ok st')"
  using process_packet_threads [OF assms]
  by (auto simp: extract_packet_def bindR_eq_Ok bindR_eq_Timeout no_timeout)

text \<open>Where the search may stop: with a suffix of the bytes it started with.\<close>

definition scan_result :: "byte list \<Rightarrow> (byte list \<times> int \<times> rc_state) res \<Rightarrow> bool" where
  "scan_result u r \<longleftrightarrow> r \<noteq> Timeout \<and> (\<forall>b wp st. r = Ok (b, wp, st) \<longrightarrow>
     (\<exists>k. holds b (drop k u) \<and> wp = int (length (drop k u)) \<and> threads_ok st))"

lemma scan_result_drop: "scan_result (drop k u) r \<Longrightarrow> scan_result u r"
  unfolding scan_result_def by (metis drop_drop)

lemma scan_result_Ok:
  "holds b (drop k u) \<Longrightarrow> wp = int (length (drop k u)) \<Longrightarrow> threads_ok st \<Longrightarrow> scan_result u (Ok (b, wp, st))"
  unfolding scan_result_def by auto

lemma square_less: "10 \<le> (n :: nat) \<Longrightarrow> m + 10 \<le> n \<Longrightarrow> m + m * m < n * n"
proof -
  assume "10 \<le> n" "m + 10 \<le> n"
  then have "m + m * m < (m + 10) * (m + 10)" by (simp add: algebra_simps)
  also have "\<dots> \<le> n * n" using \<open>m + 10 \<le> n\<close> by (intro mult_le_mono)
  finally show ?thesis .
qed

lemma scan_terminates:
  assumes "malloc_fresh env" and "threads_ok st" and "holds buffer u" and "no_negative_length u"
    and "c \<le> length u" and "length u - c + length u * length u < fuel"
  shows "scan_result u (scan_packets fuel env buffer (int (length u)) (int c) st)"
  using assms(2-)
proof (induction fuel arbitrary: buffer u c st)
  case (Suc fuel)
  show ?case
  proof (cases "int c < int (length u) - 3")
    case False
    then show ?thesis using Suc.prems scan_result_Ok [of buffer 0 u] by simp
  next
    case True
    then have c4: "c + 4 \<le> length u" by linarith
    note mg = holds_magic [OF Suc.prems(2) c4]
    show ?thesis
    proof (cases "take 4 (drop c u) = bytes_of ''FUZZ''")
      case False
      have "scan_result u (scan_packets fuel env buffer (int (length u)) (int (Suc c)) st)"
        by (rule Suc.IH) (use Suc.prems c4 in auto)
      then show ?thesis using False True mg by (simp add: add.commute)
    next
      case M: True
      show ?thesis
      proof (cases "c + 10 \<le> length u")
        case False
        then have F: "\<not> 10 \<le> int (length u) - int c" by linarith
        show ?thesis
        proof (cases "c = 0")
          case True
          then show ?thesis using F M mg Suc.prems \<open>int c < _\<close> scan_result_Ok [of buffer 0 u] by simp
        next
          case nz: False
          obtain b' where b': "copy_to_start buffer (int c) (int (length u - c)) = Ok b'" "holds b' (drop c u)"
            using holds_copy [OF Suc.prems(2), of c] c4 by auto
          then show ?thesis using nz F M mg True Suc.prems c4 scan_result_Ok [of b' c u]
            by (simp add: of_nat_diff)
        qed
      next
        case C10: True
        obtain w where w: "read_int16_t (drop (c + 8) u) = Ok w"
          using C10 by (simp add: read_int16_t_def)
        then have w0: "0 \<le> sint w" using Suc.prems(3) C10 M unfolding no_negative_length_def by blast
        define n where "n = nat (sint w)"
        have sw: "sint w = int n" using w0 by (simp add: n_def)
        note lf = holds_length_field [OF Suc.prems(2) C10, unfolded w]
        have ge: "10 \<le> int (length u) - int c" using C10 by linarith
        show ?thesis
        proof (cases "c + 10 + n \<le> length u")
          case False
          obtain b' where b': "copy_to_start buffer (int c) (int (length u - c)) = Ok b'" "holds b' (drop c u)"
            using holds_copy [OF Suc.prems(2), of c] c4 by auto
          have "\<not> 10 + int n \<le> int (length u) - int c" using False by linarith
          then show ?thesis using M mg True lf sw ge b' Suc.prems c4 scan_result_Ok [of b' c u]
            by (simp add: of_nat_diff)
        next
          case fits: True
          let ?k = "c + 10 + n"
          have ge': "10 + int n \<le> int (length u) - int c" using fits by linarith
          obtain b' where b': "copy_to_start buffer (int ?k) (int (length u - ?k)) = Ok b'" "holds b' (drop ?k u)"
            using holds_copy [OF Suc.prems(2), of ?k] fits by auto
          have nn: "no_negative_length (drop ?k u)"
            using Suc.prems(3) no_negative_length_infix [of "take ?k u" "drop ?k u" "[]"] by simp
          have "length (drop ?k u) - 0 + length (drop ?k u) * length (drop ?k u) < fuel"
            using square_less [of "length u" "length (drop ?k u)"] fits Suc.prems(5) by simp
          then have ih: "scan_result (drop ?k u)
              (scan_packets fuel env b' (int (length (drop ?k u))) (int 0) st')" if "threads_ok st'" for st'
            by (intro Suc.IH [OF that b'(2) nn]) auto
          have e: "int (length (drop ?k u)) = int (length u) - int c - 10 - int n"
            "int ?k = int c + 10 + int n" "int (length u - ?k) = int (length u) - int c - 10 - int n"
            using fits by auto
          have step: "scan_packets (Suc fuel) env buffer (int (length u)) (int c) st =
              bindR (extract_packet env buffer (int c) w st)
                (scan_packets fuel env b' (int (length (drop ?k u))) (int 0))"
            using M mg True lf sw ge ge' b'(1) unfolding e by simp
          note ex = extract_packet_threads [OF assms(1) Suc.prems(1), of buffer "int c" w]
          show ?thesis
          proof (cases "extract_packet env buffer (int c) w st")
            case (Ok st')
            then show ?thesis unfolding step using ih ex by (auto intro: scan_result_drop)
          qed (use ex step in \<open>auto simp: scan_result_def\<close>)
        qed
      qed
    qed
  qed
qed simp

lemma receive_loop_terminates:
  assumes "malloc_fresh env" and "threads_ok st" and "holds buffer u"
    and "no_negative_length (u @ concat chunks)" and "10000 + 10000 * 10000 < fuel"
  shows "receive_loop fuel env chunks buffer (int (length u)) st \<noteq> Timeout"
  using assms(2-)
proof (induction "length (concat chunks)" arbitrary: chunks buffer u st rule: less_induct)
  case less
  obtain bs chunks' where rd: "sys_read (nat (10000 - int (length u))) chunks = (bs, chunks')" by fastforce
  show ?case
  proof (cases "bs = []")
    case True
    then show ?thesis using rd by (simp add: receive_loop.simps [of fuel env chunks])
  next
    case False
    obtain t where b: "buffer = u @ t" using holds_split [OF less.prems(2)] by blast
    have bl: "length buffer = 10001" "length u \<le> 10000" using less.prems(2) by (auto simp: holds_def)
    have "length bs \<le> 10000 - length u"
      using rd by (cases chunks) (auto simp: nat_diff_distrib)
    then have u1: "length (u @ bs) \<le> 10000" using bl by simp
    have 1: "wr_block buffer (int (length u)) bs = Ok ((u @ bs) @ drop (length bs) t)"
      using wr_block_append [of u t bs] b bl u1 by simp
    have lt: "0 < length (drop (length bs) t)" using b bl u1 by simp
    have 2: "wr ((u @ bs) @ drop (length bs) t) (int (length u) + int (length bs)) 0 =
        Ok ((u @ bs) @ (drop (length bs) t)[0 := 0])"
      using lt by (simp add: wr_def list_update_append nat_add_distrib)
    let ?b = "(u @ bs) @ (drop (length bs) t)[0 := 0]"
    have h: "holds ?b (u @ bs)" using u1 b bl by (simp add: holds_def)
    have all: "no_negative_length ((u @ bs) @ concat chunks')"
      using less.prems(3) sys_read_total [OF rd] by simp
    then have nn: "no_negative_length (u @ bs)"
      using no_negative_length_infix [of "[]" "u @ bs" "concat chunks'"] by simp
    have "length (u @ bs) - 0 + length (u @ bs) * length (u @ bs) < fuel"
    proof -
      have "length (u @ bs) * length (u @ bs) \<le> 10000 * 10000" using u1 by (intro mult_le_mono)
      then show ?thesis using u1 less.prems(4) by linarith
    qed
    then have sc: "scan_result (u @ bs) (scan_packets fuel env ?b (int (length (u @ bs))) (int 0) st)"
      by (intro scan_terminates [OF assms(1) less.prems(1) h nn]) auto
    have shorter: "length (concat chunks') < length (concat chunks)" using rd False by (rule sys_read_less)
    have rest: "receive_loop fuel env chunks' b' (int (length (drop k (u @ bs)))) st' \<noteq> Timeout"
      if "holds b' (drop k (u @ bs))" "threads_ok st'" for b' k st'
    proof (rule less.hyps [OF shorter that(2,1)])
      show "no_negative_length (drop k (u @ bs) @ concat chunks')"
        by (rule no_negative_length_infix [of "take k (u @ bs)" _ "[]"])
          (use all in \<open>simp add: append_assoc [symmetric] del: append_assoc take_append drop_append\<close>)
    qed (rule less.prems(4))
    have "receive_loop fuel env chunks buffer (int (length u)) st =
        bindR (scan_packets fuel env ?b (int (length (u @ bs))) (int 0) st) (\<lambda>(buffer, write_pos, st).
          receive_loop fuel env chunks' buffer write_pos st)"
      unfolding receive_loop.simps [of fuel env chunks] rd Let_def prod.case
      using False by (simp only: 1 2 bindR.simps if_False length_append of_nat_add) simp
    moreover have "\<dots> \<noteq> Timeout"
      using sc rest unfolding scan_result_def bindR_eq_Timeout by (metis (no_types, lifting) prod.case prod_cases3)
    ultimately show ?thesis by simp
  qed
qed

subsection \<open>A packet that never goes away\<close>

definition spin_packet :: "byte list \<Rightarrow> byte list" where
  "spin_packet r = bytes_of ''FUZZ'' @ r @ int16_bytes (- 10)"

lemma scan_spins:
  assumes "length r = 4" and "0 \<notin> set r" and "find_handler cmd_handlers (r @ [0]) = Ok None"
    and "buffer = spin_packet r @ t"
  shows "scan_packets fuel env buffer 10 0 st = Timeout"
proof (induction fuel)
  case (Suc fuel)
  have m: "magic_at buffer 0 = Ok True"
    using magic_frame [of "r @ int16_bytes (- 10) @ t"] assms(4) by (simp add: spin_packet_def)
  have rd: "read_int16_t (drop (nat 8) buffer) = Ok (- 10)"
    using length_frame_header [OF assms(1), of "- 10" t] assms(4) by (simp add: spin_packet_def del: drop_append)
  have "strncpy 4 (drop 4 buffer) = Ok r"
    using strncpy_exact [OF assms(2), of "int16_bytes (- 10) @ t"] assms(1,4) by (simp add: spin_packet_def)
  then have ex: "extract_packet env buffer 0 w st = Ok st" for w
    using assms(3) by (simp add: extract_packet_def process_packet_def)
  have "copy_to_start buffer 0 10 = Ok buffer"
    by (rule copy_to_start_same) (use assms(1,4) in \<open>simp_all add: spin_packet_def\<close>)
  then show ?case using Suc m rd ex by simp
qed simp

lemma sample_env_fresh: "malloc_fresh (sample_env ps)"
proof -
  have "fst x \<le> sum_list (map fst h)" if "x \<in> set h" for x :: "nat \<times> running_thread_info" and h
    using that by (intro member_le_sum_list) simp_all
  then show ?thesis by (fastforce simp: malloc_fresh_def sample_env_def)
qed

section \<open>Properties\<close>

text \<open>C1: The framing is independent of how the network cuts the byte stream: a stream of
  well-formed packets, delivered in any non-empty chunks, leads to exactly the same effects as
  handing each packet in turn to \<open>process_packet\<close>, with its own data and nothing else; no byte is
  lost, none is taken twice and the loop ends.\<close>

theorem packets_delivered_in_order:
  assumes "concat chunks = stream pkts" and "\<forall>p \<in> set pkts. packet_ok p" and "[] \<notin> set chunks"
    and "10000 < fuel"
  shows "receive_packet_loop fuel env chunks st = foldR (deliver env) pkts st"
proof -
  have "pkts = [] \<or> length [] < length (frame (fst (hd pkts)) (snd (hd pkts)))"
    by (simp add: frame_def)
  then show ?thesis
    using receive_loop_stream [of "local_array env 10001" "[]" chunks pkts fuel env st] assms
    by (simp add: receive_packet_loop_def holds_def)
qed

theorem packets_delivered_in_order_witness:
  "receive_packet_loop 10001 (sample_env []) [frame (bytes_of ''ECHO'') [104, 105] @ [70], [85, 90, 90],
      drop 4 (frame (bytes_of ''PIPE'') [47])] sample_state =
    foldR (deliver (sample_env [])) [(bytes_of ''ECHO'', [104, 105]), (bytes_of ''PIPE'', [47])] sample_state"
  by (rule packets_delivered_in_order)
    (simp_all add: packet_ok_def frame_def bytes_of_def int16_bytes_def)

text \<open>C31: The receive loop never runs forever on a stream in which no place that looks like a packet
  announces a negative length, whatever else the stream holds: with fuel for the search (quadratic
  in the buffer size) it ends in a result or a fault.\<close>

theorem receive_loop_ends:
  assumes "no_negative_length (concat chunks)" and "malloc_fresh env" and "threads_ok st"
    and "10000 + 10000 * 10000 < fuel"
  shows "receive_packet_loop fuel env chunks st \<noteq> Timeout"
  using receive_loop_terminates [of env st "local_array env 10001" "[]" chunks fuel] assms
  by (simp add: receive_packet_loop_def holds_def)

theorem receive_loop_ends_witness:
  "receive_packet_loop (10000 + 10000 * 10000 + 1) (sample_env []) [[70, 85], [90, 90, 1]] sample_state \<noteq> Timeout"
proof (rule receive_loop_ends)
  show "no_negative_length (concat [[70, 85], [90, 90, 1]])"
    by (simp add: no_negative_length_def)
  show "malloc_fresh (sample_env [])"
    by (rule sample_env_fresh)
  show "threads_ok sample_state"
    unfolding threads_ok_def sample_state_def by (intro exI [of _ "[]"]) simp
qed simp

text \<open>C34: A ten-byte packet for an unknown receiver with the length \<open>-10\<close> makes the server spin: the
  length is never checked for being negative, the packet counts as complete, and removing it
  removes nothing. No amount of fuel lets the loop finish.\<close>

theorem negative_length_spins:
  assumes "length r = 4" and "0 \<notin> set r" and "r \<notin> bytes_of ` {''ECHO'', ''PIPE'', ''EXEC'', ''PROC''}"
  shows "receive_packet_loop fuel env [spin_packet r] st = Timeout"
proof -
  have none: "find_handler cmd_handlers (r @ [0]) = Ok None"
    using find_handler_receiver [OF assms(1,2)] assms(3) by auto
  have len: "length (spin_packet r) = 10" using assms(1) by (simp add: spin_packet_def)
  let ?b = "spin_packet r @ drop 10 (local_array env 10001)"
  have 1: "wr_block (local_array env 10001) 0 (spin_packet r) = Ok ?b"
    using wr_block_append [of "[]" "local_array env 10001" "spin_packet r"] len by simp
  have 2: "wr ?b 10 0 = Ok (spin_packet r @ (drop 10 (local_array env 10001))[0 := 0])"
    using len by (simp add: wr_def list_update_append)
  have 3: "scan_packets fuel env (spin_packet r @ (drop 10 (local_array env 10001))[0 := 0]) 10 0 st = Timeout"
    by (rule scan_spins [OF assms(1,2) none]) simp
  show ?thesis
    using len 1 2 3
    by (auto simp: receive_packet_loop_def receive_loop.simps [of fuel env "[spin_packet r]"])
qed

theorem negative_length_spins_witness:
  "receive_packet_loop 7 (sample_env []) [spin_packet [88, 88, 88, 88]] sample_state = Timeout"
  by (rule negative_length_spins) (simp_all add: bytes_of_def)

end
