(* ===== verification/RC_Socket.thy ===== *)
theory RC_Socket
  imports RC_Handlers "HOL-Library.Sublist"
begin

text \<open>
  The threads of \<^verbatim>\<open>remote_control/remote_control.c\<close> share one global \<open>connection_fd\<close>: the thread
  that serves the connection and every pipe thread call \<open>send_packet\<close>, whose four \<open>write\<close> calls are
  guarded by \<open>socket_mutex\<close>. Here \<open>send_packet\<close> is cut at its scheduling points and the threads are
  interleaved by a step relation. A \<open>write\<close> may be short or fail, which \<open>send_packet\<close> ignores, and
  the accept loop of \<open>main\<close> closes the connection and takes the next one between any two steps,
  without the mutex. The invariant is that the writes, over all connections, are four by four those
  of the finished calls, followed by the ones that the owner of the mutex has made.
\<close>

section \<open>The interleaved model\<close>

record send_call =
  receiver :: "byte list"
  data :: "byte list"
  data_length :: int16

text \<open>Where a thread stands in \<open>send_packet\<close>: outside, or before one of its calls.\<close>

datatype send_pc = Outside | Magic | Receiver | Length | Data | Unlock

text \<open>A \<open>write\<close>: the connection it went to, the bytes it was given and the bytes it took.\<close>

record sock_write =
  conn :: nat
  request :: "byte list"
  taken :: "byte list"

text \<open>\<open>connection_fd\<close> counts the accepted connections, so that the connection of a later \<open>accept\<close>
  differs from all earlier ones (after an \<open>accept\<close> that fails all writes fail); \<open>conn_open\<close> is false between \<open>close\<close> and the next \<open>accept\<close>.
  \<open>todo\<close> holds the calls a thread is going to make, the current one first. \<open>wire\<close> and \<open>sent\<close> are
  history variables: all writes in their order, and the finished calls of all threads in the order
  of their \<open>pthread_mutex_unlock\<close>.\<close>

record sock =
  connection_fd :: nat
  conn_open :: bool
  wire :: "sock_write list"
  socket_mutex :: "nat option"
  pc :: "nat \<Rightarrow> send_pc"
  todo :: "nat \<Rightarrow> send_call list"
  sent :: "(nat \<times> send_call) list"
  exited :: bool

definition goto_pc :: "nat \<Rightarrow> send_pc \<Rightarrow> sock \<Rightarrow> sock" where
  "goto_pc t p s = s\<lparr>pc := (pc s)(t := p)\<rparr>"

text \<open>A \<open>write\<close> that takes the first \<open>n\<close> bytes: none when it fails, as it does after \<open>close\<close>.\<close>

definition emit :: "byte list \<Rightarrow> nat \<Rightarrow> sock \<Rightarrow> sock" where
  "emit bs n s = s\<lparr>wire := wire s @ [\<lparr>conn = connection_fd s, request = bs,
     taken = (if conn_open s then take n bs else [])\<rparr>]\<rparr>"

inductive send_step :: "nat \<Rightarrow> sock \<Rightarrow> sock \<Rightarrow> bool" where
  bad_receiver: "\<not> exited s \<Longrightarrow> pc s t = Outside \<Longrightarrow> todo s t = c # cs \<Longrightarrow> strlen (receiver c) = Ok n \<Longrightarrow>
    n \<noteq> 4 \<Longrightarrow> send_step t s (s\<lparr>exited := True\<rparr>)"
| lock: "\<not> exited s \<Longrightarrow> pc s t = Outside \<Longrightarrow> todo s t = c # cs \<Longrightarrow> strlen (receiver c) = Ok 4 \<Longrightarrow>
    socket_mutex s = None \<Longrightarrow> send_step t s (goto_pc t Magic (s\<lparr>socket_mutex := Some t\<rparr>))"
| write_magic: "\<not> exited s \<Longrightarrow> pc s t = Magic \<Longrightarrow>
    send_step t s (goto_pc t Receiver (emit (bytes_of ''FUZZ'') n s))"
| write_receiver: "\<not> exited s \<Longrightarrow> pc s t = Receiver \<Longrightarrow> todo s t = c # cs \<Longrightarrow>
    rd_block (receiver c) 0 4 = Ok r \<Longrightarrow> send_step t s (goto_pc t Length (emit r n s))"
| write_length: "\<not> exited s \<Longrightarrow> pc s t = Length \<Longrightarrow> todo s t = c # cs \<Longrightarrow>
    write_int16_t [x, y] 0 (data_length c) = Ok b \<Longrightarrow> send_step t s (goto_pc t Data (emit b n s))"
| write_data: "\<not> exited s \<Longrightarrow> pc s t = Data \<Longrightarrow> todo s t = c # cs \<Longrightarrow>
    rd_block (data c) 0 (sint (data_length c)) = Ok d \<Longrightarrow> send_step t s (goto_pc t Unlock (emit d n s))"
| unlock: "\<not> exited s \<Longrightarrow> pc s t = Unlock \<Longrightarrow> todo s t = c # cs \<Longrightarrow> send_step t s
    (goto_pc t Outside (s\<lparr>socket_mutex := None, todo := (todo s)(t := cs), sent := sent s @ [(t, c)]\<rparr>))"

text \<open>The accept loop runs in the thread that serves the connection, here thread 0: it is outside
  \<open>send_packet\<close> when it closes the connection and when it takes the next one. Pipe threads may be
  anywhere.\<close>

inductive main_step :: "sock \<Rightarrow> sock \<Rightarrow> bool" where
  close_conn: "\<not> exited s \<Longrightarrow> pc s 0 = Outside \<Longrightarrow> conn_open s \<Longrightarrow> main_step s (s\<lparr>conn_open := False\<rparr>)"
| accept_conn: "\<not> exited s \<Longrightarrow> pc s 0 = Outside \<Longrightarrow> \<not> conn_open s \<Longrightarrow>
    main_step s (s\<lparr>connection_fd := Suc (connection_fd s), conn_open := True\<rparr>)"

definition sock_init :: "(nat \<Rightarrow> send_call list) \<Rightarrow> sock" where
  "sock_init calls = \<lparr>connection_fd = 0, conn_open = True, wire = [], socket_mutex = None,
     pc = (\<lambda>_. Outside), todo = calls, sent = [], exited = False\<rparr>"

inductive sock_reach :: "(nat \<Rightarrow> send_call list) \<Rightarrow> sock \<Rightarrow> bool" for calls where
  start: "sock_reach calls (sock_init calls)"
| step: "sock_reach calls s \<Longrightarrow> send_step t s s' \<Longrightarrow> sock_reach calls s'"
| main: "sock_reach calls s \<Longrightarrow> main_step s s' \<Longrightarrow> sock_reach calls s'"

section \<open>Specification\<close>

text \<open>What the callers of \<open>send_packet\<close> pass: a receiver of four characters and data of the given
  length.\<close>

definition call_ok :: "send_call \<Rightarrow> bool" where
  "call_ok c \<longleftrightarrow> (\<exists>r. receiver c = r @ [0] \<and> length r = 4 \<and> 0 \<notin> set r) \<and>
     0 \<le> sint (data_length c) \<and> sint (data_length c) \<le> int (length (data c))"

definition call_data :: "send_call \<Rightarrow> byte list" where
  "call_data c = take (nat (sint (data_length c))) (data c)"

definition call_frame :: "send_call \<Rightarrow> byte list" where
  "call_frame c = frame (take 4 (receiver c)) (call_data c)"

text \<open>The four fields of a packet, and those of the current packet that have been written.\<close>

definition call_fields :: "send_call \<Rightarrow> byte list list" where
  "call_fields c = [bytes_of ''FUZZ'', take 4 (receiver c), int16_bytes (data_length c), call_data c]"

fun written_fields :: "send_pc \<Rightarrow> nat" where
  "written_fields Outside = 0"
| "written_fields Magic = 0"
| "written_fields Receiver = 1"
| "written_fields Length = 2"
| "written_fields Data = 3"
| "written_fields Unlock = 4"

definition in_flight :: "sock \<Rightarrow> byte list list" where
  "in_flight s = (case socket_mutex s of None \<Rightarrow> []
     | Some t \<Rightarrow> take (written_fields (pc s t)) (call_fields (hd (todo s t))))"

definition calls_of :: "nat \<Rightarrow> (nat \<times> send_call) list \<Rightarrow> send_call list" where
  "calls_of t l = map snd (filter (\<lambda>(u, c). u = t) l)"

text \<open>What the client of a connection receives, and the writes that took all their bytes.\<close>

definition stream_on :: "nat \<Rightarrow> sock_write list \<Rightarrow> byte list" where
  "stream_on k ws = concat (map taken (filter (\<lambda>w. conn w = k) ws))"

definition all_on :: "nat \<Rightarrow> sock_write list \<Rightarrow> bool" where
  "all_on k ws \<longleftrightarrow> (\<forall>w \<in> set ws. conn w = k \<and> taken w = request w)"

text \<open>The writes of the call that finished as number \<open>i\<close>.\<close>

definition writes_of :: "nat \<Rightarrow> sock \<Rightarrow> sock_write list" where
  "writes_of i s = take 4 (drop (4 * i) (wire s))"

definition sock_inv :: "(nat \<Rightarrow> send_call list) \<Rightarrow> sock \<Rightarrow> bool" where
  "sock_inv calls s \<longleftrightarrow> \<not> exited s \<and>
     (\<forall>t. pc s t \<noteq> Outside \<longleftrightarrow> socket_mutex s = Some t) \<and>
     (\<forall>t. pc s t \<noteq> Outside \<longrightarrow> todo s t \<noteq> []) \<and>
     (\<forall>t. calls t = calls_of t (sent s) @ todo s t) \<and>
     map request (wire s) = concat (map (call_fields \<circ> snd) (sent s)) @ in_flight s"

text \<open>Every write takes a prefix of its bytes, and none goes to a connection that is over.\<close>

definition wire_inv :: "sock \<Rightarrow> bool" where
  "wire_inv s \<longleftrightarrow> (\<forall>w \<in> set (wire s). prefix (taken w) (request w) \<and> conn w \<le> connection_fd s) \<and>
     sorted (map conn (wire s))"

section \<open>Lemmas\<close>

lemma calls_of_snoc [simp]:
  "calls_of t (l @ [(u, c)]) = calls_of t l @ (if u = t then [c] else [])"
  by (simp add: calls_of_def)

lemma call_okD:
  assumes "call_ok c"
  shows "strlen (receiver c) = Ok 4" "rd_block (receiver c) 0 4 = Ok (take 4 (receiver c))"
    "rd_block (data c) 0 (sint (data_length c)) = Ok (call_data c)"
    "word_of_nat (length (call_data c)) = data_length c"
proof -
  obtain r where r: "receiver c = r @ [0]" "length r = 4" "0 \<notin> set r" using assms by (auto simp: call_ok_def)
  then show "strlen (receiver c) = Ok 4" by simp
  show "rd_block (receiver c) 0 4 = Ok (take 4 (receiver c))" using r by (simp add: rd_block_def)
  show "rd_block (data c) 0 (sint (data_length c)) = Ok (call_data c)"
    using assms by (simp add: rd_block_def call_ok_def call_data_def)
  have "length (call_data c) = nat (sint (data_length c))"
    using assms by (simp add: call_ok_def call_data_def nat_le_iff)
  then show "word_of_nat (length (call_data c)) = data_length c"
    using assms by (simp add: call_ok_def)
qed

lemma sock_inv_owner: "sock_inv calls s \<Longrightarrow> pc s t \<noteq> Outside \<Longrightarrow> socket_mutex s = Some t"
  unfolding sock_inv_def by blast

lemma concat_call_fields [simp]:
  "call_ok c \<Longrightarrow> concat (call_fields c) = call_frame c"
  by (simp add: call_fields_def call_frame_def frame_def call_okD(4))

text \<open>The writes and the position after a step, in one place for all steps that write.\<close>

lemma inv_emit:
  assumes "sock_inv calls s" and "pc s t \<noteq> Outside" and "p \<noteq> Outside"
    and "take (written_fields (pc s t)) (call_fields (hd (todo s t))) @ [bs] =
      take (written_fields p) (call_fields (hd (todo s t)))"
  shows "sock_inv calls (goto_pc t p (emit bs n s))"
proof -
  have m: "socket_mutex s = Some t" using assms(1,2) by (simp add: sock_inv_owner)
  have inv: "\<not> exited s" "\<And>u. pc s u \<noteq> Outside \<longleftrightarrow> socket_mutex s = Some u"
    "\<And>u. pc s u \<noteq> Outside \<Longrightarrow> todo s u \<noteq> []" "\<And>u. calls u = calls_of u (sent s) @ todo s u"
    "map request (wire s) = concat (map (call_fields \<circ> snd) (sent s)) @ in_flight s"
    using assms(1) by (simp_all only: sock_inv_def) blast+
  show ?thesis
    unfolding sock_inv_def
  proof (intro conjI allI)
    fix u
    show "(pc (goto_pc t p (emit bs n s)) u \<noteq> Outside) = (socket_mutex (goto_pc t p (emit bs n s)) = Some u)"
      using inv(2) [of u] m assms(3) by (auto simp: goto_pc_def emit_def)
    show "pc (goto_pc t p (emit bs n s)) u \<noteq> Outside \<longrightarrow> todo (goto_pc t p (emit bs n s)) u \<noteq> []"
      using inv(3) [of u] assms(2) by (auto simp: goto_pc_def emit_def)
  qed (use inv m assms(4) in \<open>simp_all add: goto_pc_def emit_def in_flight_def\<close>)
qed

lemma inv_lock:
  assumes "sock_inv calls s" and "socket_mutex s = None" and "todo s t \<noteq> []"
  shows "sock_inv calls (goto_pc t Magic (s\<lparr>socket_mutex := Some t\<rparr>))"
  using assms by (auto simp: sock_inv_def goto_pc_def in_flight_def)

lemma inv_unlock:
  assumes "sock_inv calls s" and "pc s t = Unlock" and "todo s t = c # cs"
  shows "sock_inv calls
    (goto_pc t Outside (s\<lparr>socket_mutex := None, todo := (todo s)(t := cs), sent := sent s @ [(t, c)]\<rparr>))"
proof -
  have m: "socket_mutex s = Some t" using assms(1,2) by (simp add: sock_inv_owner)
  have "pc s u = Outside" if "u \<noteq> t" for u
    using assms(1) m that by (auto simp: sock_inv_def)
  moreover have "calls u = calls_of u (sent s) @ todo s u" for u
    using assms(1) by (simp add: sock_inv_def)
  moreover have "map request (wire s) = concat (map (call_fields \<circ> snd) (sent s)) @ call_fields c"
    using assms m by (simp add: sock_inv_def in_flight_def call_fields_def)
  ultimately show ?thesis
    using assms(1,3) by (simp add: sock_inv_def goto_pc_def in_flight_def)
qed

lemma inv_step:
  assumes "sock_inv calls s" and "send_step t s s'" and "\<forall>t. \<forall>c \<in> set (calls t). call_ok c"
  shows "sock_inv calls s'"
proof -
  have ok: "call_ok c" if "todo s t = c # cs" for c cs
  proof -
    have "calls t = calls_of t (sent s) @ todo s t" using assms(1) by (simp add: sock_inv_def)
    then have "c \<in> set (calls t)" using that by simp
    then show ?thesis using assms(3) by blast
  qed
  show ?thesis
    using assms(2)
  proof (cases rule: send_step.cases)
    case (bad_receiver c cs n)
    then show ?thesis using call_okD(1) [OF ok [of c cs]] by simp
  next
    case (lock c cs)
    then show ?thesis using inv_lock [OF assms(1)] by simp
  next
    case (write_magic n)
    then show ?thesis using inv_emit [OF assms(1), of t Receiver "bytes_of ''FUZZ''" n]
      by (simp add: call_fields_def)
  next
    case (write_receiver c cs r n)
    then show ?thesis using inv_emit [OF assms(1), of t Length r n] call_okD(2) [OF ok [of c cs]]
      by (simp add: call_fields_def)
  next
    case (write_length c cs x y b n)
    then show ?thesis using inv_emit [OF assms(1), of t Data b n]
      by (simp add: write_int16_t_enc wr_block_def call_fields_def split: if_splits)
  next
    case (write_data c cs d n)
    then show ?thesis
      using inv_emit [OF assms(1), of t Unlock d n] call_okD(3) [OF ok [of c cs]]
      by (simp add: call_fields_def)
  next
    case (unlock c cs)
    then show ?thesis using inv_unlock [OF assms(1)] by simp
  qed
qed

lemma inv_main: "sock_inv calls s \<Longrightarrow> main_step s s' \<Longrightarrow> sock_inv calls s'"
  by (auto simp: sock_inv_def in_flight_def elim!: main_step.cases split: option.splits)

lemma inv_reach:
  assumes "sock_reach calls s" and "\<forall>t. \<forall>c \<in> set (calls t). call_ok c"
  shows "sock_inv calls s"
  using assms(1)
proof induction
  case start
  show ?case by (simp add: sock_inv_def sock_init_def in_flight_def calls_of_def)
next
  case (step s t s')
  then show ?case using inv_step assms(2) by blast
next
  case (main s s')
  then show ?case using inv_main by blast
qed

lemma wire_inv_emit: "wire_inv s \<Longrightarrow> wire_inv (goto_pc t p (emit bs n s))"
  by (auto simp: wire_inv_def goto_pc_def emit_def sorted_append take_is_prefix)

lemma wire_inv_reach: "sock_reach calls s \<Longrightarrow> wire_inv s"
proof (induction rule: sock_reach.induct)
  case start
  show ?case by (simp add: wire_inv_def sock_init_def)
next
  case (step s t s')
  from step.hyps(2) step.IH show ?case
    by cases (simp_all add: wire_inv_emit, simp_all add: wire_inv_def goto_pc_def)
next
  case (main s s')
  from main.hyps(2) main.IH show ?case
    by cases (auto simp: wire_inv_def intro: le_SucI)
qed

text \<open>The writes of a finished call are its four fields.\<close>

lemma length_call_fields [simp]: "length (call_fields c) = 4"
  by (simp add: call_fields_def)

lemma take_drop_fields:
  "i < length cs \<Longrightarrow> take 4 (drop (4 * i) (concat (map call_fields cs) @ r)) = call_fields (cs ! i)"
proof (induction cs arbitrary: i)
  case (Cons c cs)
  then show ?case by (cases i) simp_all
qed simp

lemma writes_of_fields:
  assumes "sock_inv calls s" and "i < length (sent s)"
  shows "map request (writes_of i s) = call_fields (snd (sent s ! i))"
  using assms take_drop_fields [of i "map snd (sent s)" "in_flight s"]
  by (simp add: writes_of_def sock_inv_def take_map [symmetric] drop_map [symmetric])

lemma stream_on_append [simp]: "stream_on k (us @ vs) = stream_on k us @ stream_on k vs"
  by (simp add: stream_on_def)

lemma all_on_stream: "all_on k ws \<Longrightarrow> stream_on k ws = concat (map request ws)"
proof -
  assume a: "all_on k ws"
  then have "filter (\<lambda>w. conn w = k) ws = ws" by (simp add: all_on_def)
  moreover have "map taken ws = map request ws" using a by (simp add: all_on_def)
  ultimately show ?thesis by (simp only: stream_on_def)
qed

lemma all_on_writes:
  assumes "map request ws = call_fields c" and "call_ok c" and "all_on k ws"
  shows "stream_on k ws = call_frame c"
  using assms by (simp add: all_on_stream)

lemma stream_on_parts:
  "stream_on k (wire s) = stream_on k (take (4 * i) (wire s)) @ stream_on k (writes_of i s) @
     stream_on k (drop (4 * i + 4) (wire s))"
proof -
  have "drop (4 * i) (wire s) = writes_of i s @ drop (4 * i + 4) (wire s)"
    unfolding writes_of_def by (metis append_take_drop_id drop_drop add.commute)
  then have "wire s = take (4 * i) (wire s) @ writes_of i s @ drop (4 * i + 4) (wire s)"
    by (metis append_take_drop_id)
  then show ?thesis by (metis stream_on_append)
qed

lemma sent_ok:
  assumes "sock_inv calls s" and "\<forall>t. \<forall>c \<in> set (calls t). call_ok c" and "(t, c) \<in> set (sent s)"
  shows "call_ok c"
proof -
  have "c \<in> set (calls_of t (sent s))" using assms(3) by (force simp: calls_of_def)
  then show ?thesis using assms(1,2) by (metis (no_types, lifting) Un_iff set_append sock_inv_def)
qed

lemma packet_in_one_piece:
  assumes "sock_inv calls s" and "\<forall>t. \<forall>c \<in> set (calls t). call_ok c"
  shows "\<forall>i k. i < length (sent s) \<and> all_on k (writes_of i s) \<longrightarrow>
    stream_on k (wire s) = stream_on k (take (4 * i) (wire s)) @ call_frame (snd (sent s ! i)) @
      stream_on k (drop (4 * i + 4) (wire s))"
proof (intro allI impI, elim conjE)
  fix i k
  assume i: "i < length (sent s)" and a: "all_on k (writes_of i s)"
  have "call_ok (snd (sent s ! i))"
    using sent_ok [OF assms, of "fst (sent s ! i)" "snd (sent s ! i)"] i by simp
  from all_on_writes [OF writes_of_fields [OF assms(1) i] this a]
  show "stream_on k (wire s) = stream_on k (take (4 * i) (wire s)) @ call_frame (snd (sent s ! i)) @
      stream_on k (drop (4 * i + 4) (wire s))"
    using stream_on_parts [of k s i] by simp
qed

lemma concat_frames:
  "(\<And>t c. (t, c) \<in> set l \<Longrightarrow> call_ok c) \<Longrightarrow>
    concat (concat (map (call_fields \<circ> snd) l)) = concat (map (call_frame \<circ> snd) l)"
proof (induction l)
  case (Cons a l)
  have "call_ok (snd a)" using Cons.prems [of "fst a" "snd a"] by simp
  moreover have "concat (concat (map (call_fields \<circ> snd) l)) = concat (map (call_frame \<circ> snd) l)"
    using Cons.prems by (intro Cons.IH) (meson list.set_intros(2))
  ultimately show ?case by (simp add: comp_def)
qed simp

text \<open>A thread inside \<open>send_packet\<close>, or one that can take the mutex, always has a step.\<close>

lemma inv_progress:
  assumes "sock_inv calls s" and "todo s t = c # cs" and "call_ok c" and "pc s t \<noteq> Outside \<or> socket_mutex s = None"
  shows "\<exists>s'. send_step t s s'"
proof -
  have e: "\<not> exited s" using assms(1) by (simp add: sock_inv_def)
  note ok = call_okD [OF assms(3)]
  have w: "write_int16_t [0, 0] 0 (data_length c) = Ok (int16_bytes (data_length c))"
    by (simp add: write_int16_t_enc wr_block_def)
  have "pc s t = Outside \<Longrightarrow> socket_mutex s = None" using assms(4) by blast
  then show ?thesis
    by (cases "pc s t")
      (blast intro: send_step.lock [OF e _ assms(2) ok(1)] send_step.write_magic [OF e]
        send_step.write_receiver [OF e _ assms(2) ok(2)] send_step.write_length [OF e _ assms(2) w]
        send_step.write_data [OF e _ assms(2) ok(3)] send_step.unlock [OF e _ assms(2)])+
qed

lemma inv_stuck:
  assumes "sock_inv calls s" and "\<forall>t. \<forall>c \<in> set (calls t). call_ok c" and "\<nexists>t s'. send_step t s s'"
  shows "todo s t = []" "socket_mutex s = None"
proof -
  have ok: "call_ok c" if "todo s u = c # cs" for u c cs
  proof -
    have "c \<in> set (calls u)" using assms(1) that by (simp add: sock_inv_def)
    then show ?thesis using assms(2) by blast
  qed
  have out: "pc s u = Outside" for u
  proof (rule ccontr)
    assume u: "pc s u \<noteq> Outside"
    then obtain c cs where "todo s u = c # cs"
      using assms(1) by (metis sock_inv_def list.exhaust)
    then show False using inv_progress [OF assms(1)] ok u assms(3) by blast
  qed
  then show m: "socket_mutex s = None" using assms(1) by (cases "socket_mutex s") (auto simp: sock_inv_def)
  show "todo s t = []"
  proof (cases "todo s t")
    case (Cons c cs)
    then show ?thesis using inv_progress [OF assms(1) Cons ok [OF Cons]] m assms(3) by blast
  qed simp
qed

text \<open>The first step of a call into the socket and the others, with complete writes.\<close>

definition full_write :: "nat \<Rightarrow> byte list \<Rightarrow> sock_write" where
  "full_write k b = \<lparr>conn = k, request = b, taken = b\<rparr>"

lemma full_write_sel [simp]:
  "conn (full_write k b) = k" "request (full_write k b) = b" "taken (full_write k b) = b"
  by (simp_all add: full_write_def)

lemma emit_full: "conn_open s \<Longrightarrow> length bs \<le> n \<Longrightarrow> emit bs n s = s\<lparr>wire := wire s @ [full_write (connection_fd s) bs]\<rparr>"
  by (simp add: emit_def full_write_def)

lemma send_first:
  assumes "sock_reach calls s" and "\<not> exited s" and "conn_open s" and "pc s t = Outside" and "todo s t = c # cs"
    and "call_ok c" and "socket_mutex s = None"
  shows "sock_reach calls (s\<lparr>pc := (pc s)(t := Receiver), socket_mutex := Some t,
    wire := wire s @ [full_write (connection_fd s) (bytes_of ''FUZZ'')]\<rparr>)"
proof -
  let ?s1 = "goto_pc t Magic (s\<lparr>socket_mutex := Some t\<rparr>)"
  have "sock_reach calls ?s1"
    by (rule sock_reach.step [OF assms(1) send_step.lock])
      (use assms call_okD [OF assms(6)] in auto)
  then have "sock_reach calls (goto_pc t Receiver (emit (bytes_of ''FUZZ'') 4 ?s1))"
    by (rule sock_reach.step [OF _ send_step.write_magic]) (use assms(2) in \<open>simp_all add: goto_pc_def\<close>)
  then show ?thesis using assms(3) by (cases s) (simp add: emit_full goto_pc_def)
qed

lemma send_others:
  assumes "sock_reach calls s" and "\<not> exited s" and "conn_open s" and "pc s t = Receiver" and "todo s t = c # cs"
    and "call_ok c"
  shows "sock_reach calls (s\<lparr>pc := (pc s)(t := Outside), socket_mutex := None,
    wire := wire s @ map (full_write (connection_fd s)) (drop 1 (call_fields c)),
    todo := (todo s)(t := cs), sent := sent s @ [(t, c)]\<rparr>)"
proof -
  note ok = call_okD [OF assms(6)]
  have w: "write_int16_t [0, 0] 0 (data_length c) = Ok (int16_bytes (data_length c))"
    by (simp add: write_int16_t_enc wr_block_def)
  let ?s3 = "goto_pc t Length (emit (take 4 (receiver c)) 4 s)"
  let ?s4 = "goto_pc t Data (emit (int16_bytes (data_length c)) 2 ?s3)"
  let ?s5 = "goto_pc t Unlock (emit (call_data c) (length (call_data c)) ?s4)"
  have "sock_reach calls ?s3"
    by (rule sock_reach.step [OF assms(1) send_step.write_receiver [OF _ _ _ ok(2)]])
      (use assms(2,4,5) in simp_all)
  then have "sock_reach calls ?s4"
    by (rule sock_reach.step [OF _ send_step.write_length [OF _ _ _ w]])
      (use assms(2,5) in \<open>simp_all add: goto_pc_def emit_def\<close>)
  then have "sock_reach calls ?s5"
    by (rule sock_reach.step [OF _ send_step.write_data [OF _ _ _ ok(3)]])
      (use assms(2,5) in \<open>simp_all add: goto_pc_def emit_def\<close>)
  then have "sock_reach calls
    (goto_pc t Outside (?s5\<lparr>socket_mutex := None, todo := (todo ?s5)(t := cs), sent := sent ?s5 @ [(t, c)]\<rparr>))"
    by (rule sock_reach.step [OF _ send_step.unlock])
      (use assms(2,5) in \<open>simp_all add: goto_pc_def emit_def\<close>)
  then show ?thesis using assms(3) by (cases s) (simp add: emit_full goto_pc_def call_fields_def)
qed

text \<open>A schedule of two connections: pipe thread 1 sends a packet and the first field of the next
  one, the client leaves and another one is accepted, and the other fields go to the new client.\<close>

definition sample_call :: "byte \<Rightarrow> send_call" where
  "sample_call b = \<lparr>receiver = bytes_of ''RPIP'' @ [0], data = [0, 0, b], data_length = 3\<rparr>"

definition sample_calls :: "nat \<Rightarrow> send_call list" where
  "sample_calls = (\<lambda>t. if t = 1 then [sample_call 65, sample_call 66] else [])"

definition sample_wire :: "sock_write list" where
  "sample_wire = map (full_write 0) (call_fields (sample_call 65)) @
     full_write 0 (bytes_of ''FUZZ'') # map (full_write 1) (drop 1 (call_fields (sample_call 66)))"

definition sample_sent :: sock where
  "sample_sent = (sock_init sample_calls)\<lparr>connection_fd := 1, wire := sample_wire, todo := (\<lambda>_. []),
     sent := [(1, sample_call 65), (1, sample_call 66)]\<rparr>"

lemma sample_call_ok: "call_ok (sample_call b)"
  unfolding call_ok_def sample_call_def
  by (rule conjI, rule exI [of _ "bytes_of ''RPIP''"]) (simp_all add: bytes_of_def)

lemma sample_reached: "sock_reach sample_calls sample_sent"
proof -
  note ok = sample_call_ok [of 65] sample_call_ok [of 66]
  let ?s0 = "sock_init sample_calls"
  let ?s1 = "?s0\<lparr>pc := (pc ?s0)(1 := Receiver), socket_mutex := Some 1, wire := [full_write 0 (bytes_of ''FUZZ'')]\<rparr>"
  let ?s2 = "?s0\<lparr>wire := map (full_write 0) (call_fields (sample_call 65)),
    todo := (\<lambda>t. if t = 1 then [sample_call 66] else []), sent := [(1, sample_call 65)]\<rparr>"
  let ?s3 = "?s2\<lparr>pc := (pc ?s2)(1 := Receiver), socket_mutex := Some 1, wire := wire ?s2 @ [full_write 0 (bytes_of ''FUZZ'')]\<rparr>"
  let ?s4 = "?s3\<lparr>conn_open := False\<rparr>"
  let ?s5 = "?s4\<lparr>connection_fd := 1, conn_open := True\<rparr>"
  have upd: "(\<lambda>_. Outside)(1 := Outside) = (\<lambda>_. Outside)"
    "sample_calls(1 := [sample_call 66]) = (\<lambda>t. if t = 1 then [sample_call 66] else [])"
    "(\<lambda>t::nat. if t = 1 then [sample_call 66] else [])(1 := []) = (\<lambda>_. [])"
    by (auto simp: sample_calls_def fun_eq_iff)
  note upd = upd [unfolded One_nat_def] upd
  have "sock_reach sample_calls ?s1"
    using send_first [OF sock_reach.start, of sample_calls 1 "sample_call 65" "[sample_call 66]"] ok
    by (simp add: sock_init_def sample_calls_def)
  from send_others [OF this, of 1 "sample_call 65" "[sample_call 66]"] ok
  have "sock_reach sample_calls ?s2" 
    by (simp add: sock_init_def fun_upd_idem upd call_fields_def) (simp add: sample_calls_def fun_upd_idem)
  from send_first [OF this, of 1 "sample_call 66" "[]"] ok
  have "sock_reach sample_calls ?s3" by (simp add: sock_init_def)
  then have "sock_reach sample_calls ?s4"
    by (rule sock_reach.main [OF _ main_step.close_conn]) (simp_all add: sock_init_def)
  then have "sock_reach sample_calls (?s4\<lparr>connection_fd := Suc (connection_fd ?s4), conn_open := True\<rparr>)"
    by (rule sock_reach.main [OF _ main_step.accept_conn]) (simp_all add: sock_init_def)
  then have "sock_reach sample_calls ?s5" by (simp add: sock_init_def)
  from send_others [OF this, of 1 "sample_call 66" "[]"] ok
  show ?thesis by (simp add: sock_init_def sample_sent_def sample_wire_def fun_upd_idem upd)
qed

section \<open>Properties\<close>

text \<open>C18: Mutual exclusion on the socket: however the threads are scheduled, however short the writes
  are, and whenever \<open>main\<close> closes the connection and accepts the next one, the writes are, when the
  mutex is free, four by four the fields of the finished packets, those of each thread in the order
  in which it sent them. Writes of two calls are never mixed, each takes a prefix of its bytes, and
  none goes to an earlier connection than the one before. A packet whose writes are complete and go
  to one connection therefore stands there in one piece.\<close>

theorem packets_never_interleave:
  assumes "sock_reach calls s" and "\<forall>t. \<forall>c \<in> set (calls t). call_ok c" and "socket_mutex s = None"
  shows "map request (wire s) = concat (map (call_fields \<circ> snd) (sent s)) \<and>
    (\<forall>t. calls t = calls_of t (sent s) @ todo s t) \<and>
    sorted (map conn (wire s)) \<and> (\<forall>w \<in> set (wire s). prefix (taken w) (request w)) \<and>
    (\<forall>i k. i < length (sent s) \<and> all_on k (writes_of i s) \<longrightarrow>
      stream_on k (wire s) = stream_on k (take (4 * i) (wire s)) @ call_frame (snd (sent s ! i)) @
        stream_on k (drop (4 * i + 4) (wire s)))"
proof -
  note inv = inv_reach [OF assms(1,2)]
  have "map request (wire s) = concat (map (call_fields \<circ> snd) (sent s))"
    "\<forall>t. calls t = calls_of t (sent s) @ todo s t"
    using inv assms(3) by (simp_all add: sock_inv_def in_flight_def)
  moreover have "sorted (map conn (wire s)) \<and> (\<forall>w \<in> set (wire s). prefix (taken w) (request w))"
    using wire_inv_reach [OF assms(1)] by (simp add: wire_inv_def)
  ultimately show ?thesis using packet_in_one_piece [OF inv assms(2)] by blast
qed

theorem packets_never_interleave_witness:
  "map request (wire sample_sent) = concat (map (call_fields \<circ> snd) (sent sample_sent)) \<and>
    (\<forall>t. sample_calls t = calls_of t (sent sample_sent) @ todo sample_sent t) \<and> sorted (map conn (wire sample_sent)) \<and>
    stream_on 0 (wire sample_sent) = call_frame (sample_call 65) @ bytes_of ''FUZZ''"
proof -
  have "all_on 0 (writes_of 0 sample_sent)" "0 < length (sent sample_sent)" "snd (sent sample_sent ! 0) = sample_call 65"
    by (simp_all add: all_on_def writes_of_def sample_sent_def sample_wire_def call_fields_def)
  moreover have "stream_on 0 (take (4 * 0) (wire sample_sent)) = []"
    "stream_on 0 (drop (4 * 0 + 4) (wire sample_sent)) = bytes_of ''FUZZ''"
    by (simp_all add: stream_on_def sample_sent_def sample_wire_def call_fields_def)
  moreover have "\<forall>t. \<forall>c \<in> set (sample_calls t). call_ok c" by (simp add: sample_calls_def sample_call_ok)
  moreover have "socket_mutex sample_sent = None" by (simp add: sample_sent_def sock_init_def)
  ultimately show ?thesis using packets_never_interleave [OF sample_reached] by (metis append_Nil)
qed

text \<open>C32: Freedom from deadlock and loss, with the accept loop at work: a state from which no thread that
  sends can move is one in which every call of every thread has been carried out, each exactly once
  and in order, and the writes are those of their packets, in that order. Where all writes were
  complete and went to one connection, this connection carries exactly the packets.\<close>

theorem send_packet_no_deadlock:
  assumes "sock_reach calls s" and "\<forall>t. \<forall>c \<in> set (calls t). call_ok c" and "\<nexists>t s'. send_step t s s'"
  shows "calls_of t (sent s) = calls t \<and> map request (wire s) = concat (map (call_fields \<circ> snd) (sent s)) \<and>
    (all_on k (wire s) \<longrightarrow> stream_on k (wire s) = concat (map (call_frame \<circ> snd) (sent s)))"
proof -
  note inv = inv_reach [OF assms(1,2)]
  have "calls_of t (sent s) = calls t" "map request (wire s) = concat (map (call_fields \<circ> snd) (sent s))"
    using inv inv_stuck [OF inv assms(2,3)] by (simp_all add: sock_inv_def in_flight_def)
  then show ?thesis
    using concat_frames [of "sent s", OF sent_ok [OF inv assms(2)]] by (simp add: all_on_stream)
qed

theorem send_packet_no_deadlock_witness:
  "calls_of 1 (sent sample_sent) = sample_calls 1 \<and>
    map request (wire sample_sent) = concat (map (call_fields \<circ> snd) (sent sample_sent))"
proof -
  have "\<nexists>t s'. send_step t sample_sent s'"
    by (auto simp: sample_sent_def sock_init_def elim: send_step.cases)
  moreover have "\<forall>t. \<forall>c \<in> set (sample_calls t). call_ok c" by (simp add: sample_calls_def sample_call_ok)
  ultimately show ?thesis using send_packet_no_deadlock [OF sample_reached] by blast
qed

text \<open>The mutex does not keep a packet on one connection: in the schedule above its first field goes
  to one client and the others to the next.\<close>

theorem packet_torn_by_accept:
  "sock_reach sample_calls sample_sent \<and> map conn (writes_of 1 sample_sent) = [0, 1, 1, 1]"
  using sample_reached
  by (simp add: writes_of_def sample_sent_def sample_wire_def call_fields_def comp_def)

end
