(* ===== verification/Mem_Log.thy ===== *)
theory Mem_Log
  imports Prelude
begin

text \<open>
  The preloaded library of \<^verbatim>\<open>log_memory_allocations/log_memory_allocations.c\<close>, which wraps the
  allocator of the fuzzed program and logs every call to a pipe, and the reader
  \<^verbatim>\<open>log_memory_allocations_client.c\<close>. The allocator behind \<open>dlsym(RTLD_NEXT, ...)\<close>, the system
  calls of the start-up code and the unwinder are parameters. \<open>output_mem_allocation\<close> is followed
  through \<open>dprintf\<close> with the conversions the file uses.
\<close>

section \<open>printf\<close>

type_synonym size_t = "64 word"
type_synonym addr = "64 word"

datatype arg = Lu size_t | P addr | S cstring

text \<open>\<open>%p\<close> as glibc prints it.\<close>

definition pointer_text :: "addr \<Rightarrow> cstring" where
  "pointer_text p = (if p = 0 then bytes_of ''(nil)'' else bytes_of ''0x'' @ hex_nat (unat p))"

text \<open>The conversions \<open>%p\<close>, \<open>%lu\<close> and \<open>%s\<close>; a format that asks for anything else, or for an argument
  that was not passed with that type, has no defined result.\<close>

fun printf_text :: "byte list \<Rightarrow> arg list \<Rightarrow> byte list res" where
  "printf_text [] args = Ok []"
| "printf_text (c # cs) args =
     (if c \<noteq> 37 then bindR (printf_text cs args) (\<lambda>r. Ok (c # r))
      else case (cs, args) of
          (d # cs', P p # args') \<Rightarrow>
            if d = 112 then bindR (printf_text cs' args') (\<lambda>r. Ok (pointer_text p @ r))
            else Fault Uninitialised
        | (d # cs', S s # args') \<Rightarrow>
            if d = 115 then bindR (printf_text cs' args') (\<lambda>r. Ok (s @ r)) else Fault Uninitialised
        | (d # e # cs', Lu n # args') \<Rightarrow>
            if d = 108 \<and> e = 117 then bindR (printf_text cs' args') (\<lambda>r. Ok (dec_nat (unat n) @ r))
            else Fault Uninitialised
        | _ \<Rightarrow> Fault Uninitialised)"

section \<open>State and environment\<close>

record 's allocator =
  a_malloc :: "size_t \<Rightarrow> 's \<Rightarrow> addr \<times> 's"
  a_calloc :: "size_t \<Rightarrow> size_t \<Rightarrow> 's \<Rightarrow> addr \<times> 's"
  a_free :: "addr \<Rightarrow> 's \<Rightarrow> 's"
  a_realloc :: "addr \<Rightarrow> size_t \<Rightarrow> 's \<Rightarrow> addr \<times> 's"

text \<open>\<open>fcntl_dup_stdin\<close> is the result of the first, second, ... \<open>fcntl(STDIN_FILENO, F_DUPFD, 0)\<close>;
  \<open>mkfifo_errno\<close> is \<open>errno\<close> after the call, 0 on success; \<open>backtrace\<close> lists the frames from the
  inner to the outer one; \<open>object_at\<close> is the memory a pointer points to.\<close>

record 's log_env =
  getenv_LOG_MEM_PIPE :: "cstring option"
  mkfifo_errno :: "cstring \<Rightarrow> int"
  open_fifo :: "cstring \<Rightarrow> int"
  fcntl_dup_stdin :: "nat \<Rightarrow> int"
  next_allocator :: "'s allocator"
  backtrace :: "addr list"
  object_at :: "'s \<Rightarrow> addr \<Rightarrow> byte list option"

record 's memlog =
  real_malloc :: "(size_t \<Rightarrow> 's \<Rightarrow> addr \<times> 's) option"
  real_free :: "(addr \<Rightarrow> 's \<Rightarrow> 's) option"
  real_realloc :: "(addr \<Rightarrow> size_t \<Rightarrow> 's \<Rightarrow> addr \<times> 's) option"
  real_calloc :: "(size_t \<Rightarrow> size_t \<Rightarrow> 's \<Rightarrow> addr \<times> 's) option"
  initialized :: int
  fdmemlog :: int
  mem :: 's
  files :: "int \<Rightarrow> byte list"

definition memlog_init :: "'s \<Rightarrow> 's memlog" where
  "memlog_init m = \<lparr>real_malloc = None, real_free = None, real_realloc = None, real_calloc = None,
     initialized = 0, fdmemlog = 0, mem = m, files = (\<lambda>_. [])\<rparr>"

section \<open>The library\<close>

text \<open>17 is EEXIST.\<close>

definition init_me :: "'s log_env \<Rightarrow> 's memlog \<Rightarrow> 's memlog" where
  "init_me env st =
     (if initialized st \<noteq> 0 then st
      else
        let pipe_name = getenv_LOG_MEM_PIPE env;
            errno = (case pipe_name of None \<Rightarrow> 0 | Some n \<Rightarrow> mkfifo_errno env n);
            (fd, dups) = (case pipe_name of
                None \<Rightarrow> (fcntl_dup_stdin env 0, 1)
              | Some n \<Rightarrow> if errno \<noteq> 0 \<and> errno \<noteq> 17 then (fcntl_dup_stdin env 0, 1) else (open_fifo env n, 0));
            fd = (if fd < 0 then fcntl_dup_stdin env dups else fd)
        in st\<lparr>fdmemlog := fd,
              real_malloc := Some (a_malloc (next_allocator env)),
              real_calloc := Some (a_calloc (next_allocator env)),
              real_free := Some (a_free (next_allocator env)),
              real_realloc := Some (a_realloc (next_allocator env)),
              initialized := 1\<rparr>)"

definition init_constructor :: "'s log_env \<Rightarrow> 's memlog \<Rightarrow> 's memlog" where
  "init_constructor env st = init_me env st"

definition dprintf :: "byte list \<Rightarrow> arg list \<Rightarrow> 's memlog \<Rightarrow> 's memlog res" where
  "dprintf fmt args st = bindR (printf_text fmt args) (\<lambda>t.
     Ok (st\<lparr>files := (files st)(fdmemlog st := files st (fdmemlog st) @ t)\<rparr>))"

definition trace_fcn :: "addr \<Rightarrow> 's memlog \<Rightarrow> 's memlog res" where
  "trace_fcn ip st = dprintf (bytes_of ''%p '') [P ip] st"

definition output_mem_allocation ::
  "'s log_env \<Rightarrow> cstring \<Rightarrow> byte list \<Rightarrow> arg list \<Rightarrow> 's memlog \<Rightarrow> 's memlog res" where
  "output_mem_allocation env called_function fmt param_list st =
     bindR (dprintf (bytes_of ''%s: args=['') [S called_function] st) (\<lambda>st.
     bindR (dprintf fmt param_list st) (\<lambda>st.
     bindR (dprintf (bytes_of ''%s'') [S (bytes_of ''] bt=['')] st) (\<lambda>st.
     bindR (foldR trace_fcn (backtrace env) st) (\<lambda>st.
       dprintf (bytes_of ''%s'') [S (bytes_of '']'' @ [10])] st))))"

definition malloc :: "'s log_env \<Rightarrow> size_t \<Rightarrow> 's memlog \<Rightarrow> (addr \<times> 's memlog) res" where
  "malloc env sz st = (case real_malloc st of
       None \<Rightarrow> Ok (0, st)
     | Some f \<Rightarrow>
         let (p, m) = f sz (mem st) in
         bindR (output_mem_allocation env (bytes_of ''malloc'') (bytes_of ''size=%lu return=%p'')
             [Lu sz, P p] (st\<lparr>mem := m\<rparr>)) (\<lambda>st. Ok (p, st)))"

definition calloc :: "'s log_env \<Rightarrow> size_t \<Rightarrow> size_t \<Rightarrow> 's memlog \<Rightarrow> (addr \<times> 's memlog) res" where
  "calloc env nmemb sz st = (case real_calloc st of
       None \<Rightarrow> Ok (0, st)
     | Some f \<Rightarrow>
         let (p, m) = f nmemb sz (mem st) in
         bindR (output_mem_allocation env (bytes_of ''calloc'') (bytes_of ''num=%lu size=%lu return=%p'')
             [Lu nmemb, Lu sz, P p] (st\<lparr>mem := m\<rparr>)) (\<lambda>st. Ok (p, st)))"

definition free :: "'s log_env \<Rightarrow> addr \<Rightarrow> 's memlog \<Rightarrow> 's memlog res" where
  "free env ptr st = (case real_free st of
       None \<Rightarrow> Ok st
     | Some f \<Rightarrow>
         output_mem_allocation env (bytes_of ''free'') (bytes_of ''ptr=%p'') [P ptr]
           (st\<lparr>mem := f ptr (mem st)\<rparr>))"

text \<open>There is no comma between the two string literals of the call in \<open>realloc\<close>: they form one
  string, \<open>ptr\<close> is passed as the format and the remaining arguments follow it.\<close>

definition realloc :: "'s log_env \<Rightarrow> addr \<Rightarrow> size_t \<Rightarrow> 's memlog \<Rightarrow> (addr \<times> 's memlog) res" where
  "realloc env ptr sz st = (case real_realloc st of
       None \<Rightarrow> Ok (0, st)
     | Some f \<Rightarrow>
         let (p, m) = f ptr sz (mem st); st = st\<lparr>mem := m\<rparr> in
         bindR (if ptr = 0 then Fault Null_pointer
                else case object_at env m ptr of
                    None \<Rightarrow> Fault Dangling_pointer
                  | Some obj \<Rightarrow> bindR (strlen obj) (\<lambda>n. Ok (take n obj))) (\<lambda>fmt.
         bindR (output_mem_allocation env (bytes_of ''reallocptr=%p size=%lu return=%p'') fmt
             [Lu sz, P p] st) (\<lambda>st. Ok (p, st))))"

section \<open>The reader\<close>

function client_loop :: "byte list \<Rightarrow> byte list list \<Rightarrow> byte list \<Rightarrow> byte list res" where
  "client_loop buffer chunks out =
     (let (bs, chunks') = sys_read 1000 chunks in
      if bs = [] then Ok out
      else bindR (wr_block buffer 0 bs) (\<lambda>buffer.
           bindR (wr buffer (int (length bs)) 0) (\<lambda>buffer.
           bindR (strlen buffer) (\<lambda>n. client_loop buffer chunks' (out @ take n buffer)))))"
  by pat_completeness auto
termination
proof (relation "measure (\<lambda>(buffer, chunks, out). length (concat chunks))", goal_cases)
  case (2 buffer chunks out x bs chunks')
  then have "sys_read 1000 chunks = (bs, chunks')" by simp
  then have "length (concat chunks') < length (concat chunks)"
    using 2 by (intro sys_read_less) auto
  then show ?case by simp
qed simp

declare client_loop.simps [simp del]

text \<open>The results are the exit status and what is printed on \<open>stdout\<close>; \<open>stack\<close> is what the
  uninitialised buffer holds and \<open>chunks\<close> what the pipe delivers.\<close>

definition client_main ::
  "cstring option \<Rightarrow> (cstring \<Rightarrow> int) \<Rightarrow> (cstring \<Rightarrow> int) \<Rightarrow> byte list list \<Rightarrow> (nat \<Rightarrow> byte) \<Rightarrow> (int \<times> byte list) res" where
  "client_main pipe_name mkfifo open chunks stack = (case pipe_name of
       None \<Rightarrow> Ok (- 10, [])
     | Some name \<Rightarrow>
         let errno = mkfifo name in
         if errno \<noteq> 0 \<and> errno \<noteq> 17 then Ok (- 11, [])
         else if open name < 0 then Ok (- 12, [])
         else bindR (client_loop (map stack [0..<1001]) chunks []) (\<lambda>out. Ok (0, out)))"

section \<open>Specification\<close>

text \<open>The calls a program makes, and what the allocator itself answers.\<close>

datatype alloc_call = Malloc size_t | Calloc size_t size_t | Free addr | Realloc addr size_t

fun plain_call :: "'s allocator \<Rightarrow> alloc_call \<Rightarrow> 's \<Rightarrow> addr \<times> 's" where
  "plain_call a (Malloc n) m = a_malloc a n m"
| "plain_call a (Calloc k n) m = a_calloc a k n m"
| "plain_call a (Free p) m = (0, a_free a p m)"
| "plain_call a (Realloc p n) m = a_realloc a p n m"

fun plain_run :: "'s allocator \<Rightarrow> alloc_call list \<Rightarrow> 's \<Rightarrow> addr list \<times> 's" where
  "plain_run a [] m = ([], m)"
| "plain_run a (c # cs) m =
     (let (r, m) = plain_call a c m; (rs, m) = plain_run a cs m in (r # rs, m))"

fun logged_call :: "'s log_env \<Rightarrow> alloc_call \<Rightarrow> 's memlog \<Rightarrow> (addr \<times> 's memlog) res" where
  "logged_call env (Malloc n) st = malloc env n st"
| "logged_call env (Calloc k n) st = calloc env k n st"
| "logged_call env (Free p) st = bindR (free env p st) (\<lambda>st. Ok (0, st))"
| "logged_call env (Realloc p n) st = realloc env p n st"

fun logged_run :: "'s log_env \<Rightarrow> alloc_call list \<Rightarrow> 's memlog \<Rightarrow> (addr list \<times> 's memlog) res" where
  "logged_run env [] st = Ok ([], st)"
| "logged_run env (c # cs) st =
     bindR (logged_call env c st) (\<lambda>(r, st). bindR (logged_run env cs st) (\<lambda>(rs, st). Ok (r # rs, st)))"

text \<open>The parts of a log entry: the arguments with the result behind them, the name of the function
  and the frames from the inner to the outer one. \<open>realloc\<close> does not log what it means to.\<close>

fun entry_args :: "alloc_call \<Rightarrow> addr \<Rightarrow> byte list" where
  "entry_args (Malloc n) r = bytes_of ''size='' @ dec_nat (unat n) @ bytes_of '' return='' @ pointer_text r"
| "entry_args (Calloc k n) r = bytes_of ''num='' @ dec_nat (unat k) @ bytes_of '' size='' @ dec_nat (unat n) @
     bytes_of '' return='' @ pointer_text r"
| "entry_args (Free p) r = bytes_of ''ptr='' @ pointer_text p"
| "entry_args (Realloc p n) r = bytes_of ''ptr='' @ pointer_text p @ bytes_of '' size='' @ dec_nat (unat n) @
     bytes_of '' return='' @ pointer_text r"

fun entry_name :: "alloc_call \<Rightarrow> byte list" where
  "entry_name (Malloc n) = bytes_of ''malloc''"
| "entry_name (Calloc k n) = bytes_of ''calloc''"
| "entry_name (Free p) = bytes_of ''free''"
| "entry_name (Realloc p n) = bytes_of ''realloc''"

definition well_logged :: "alloc_call \<Rightarrow> bool" where
  "well_logged c \<longleftrightarrow> (case c of Realloc _ _ \<Rightarrow> False | _ \<Rightarrow> True)"

definition bt_text :: "addr list \<Rightarrow> byte list" where
  "bt_text bt = concat (map (\<lambda>ip. pointer_text ip @ [32]) bt)"


text \<open>The line that \<open>output_mem_allocation\<close> writes.\<close>

definition log_line :: "byte list \<Rightarrow> byte list \<Rightarrow> addr list \<Rightarrow> byte list" where
  "log_line name args bt = name @ bytes_of '': args=['' @ args @ bytes_of ''] bt=['' @ bt_text bt @ bytes_of '']'' @ [10]"

definition log_entry :: "addr list \<Rightarrow> alloc_call \<Rightarrow> addr \<Rightarrow> byte list" where
  "log_entry bt c r = log_line (entry_name c) (entry_args c r) bt"

definition logs :: "byte list \<Rightarrow> 's memlog \<Rightarrow> 's memlog" where
  "logs t st = st\<lparr>files := (files st)(fdmemlog st := files st (fdmemlog st) @ t)\<rparr>"

definition ready :: "'s log_env \<Rightarrow> 's memlog \<Rightarrow> bool" where
  "ready env st \<longleftrightarrow> real_malloc st = Some (a_malloc (next_allocator env)) \<and>
     real_calloc st = Some (a_calloc (next_allocator env)) \<and>
     real_free st = Some (a_free (next_allocator env)) \<and>
     real_realloc st = Some (a_realloc (next_allocator env))"

section \<open>Lemmas\<close>

lemma printf_plain: "37 \<notin> set t \<Longrightarrow> printf_text (t @ f) args = bindR (printf_text f args) (\<lambda>r. Ok (t @ r))"
  by (induction t) auto

lemma dprintf_logs: "printf_text fmt args = Ok t \<Longrightarrow> dprintf fmt args st = Ok (logs t st)"
  by (simp add: dprintf_def logs_def)

lemma logs_simps [simp]:
  "logs t (logs u st) = logs (u @ t) st" "logs [] st = st" "mem (logs t st) = mem st"
  "fdmemlog (logs t st) = fdmemlog st" "real_malloc (logs t st) = real_malloc st"
  "real_calloc (logs t st) = real_calloc st" "real_free (logs t st) = real_free st"
  "real_realloc (logs t st) = real_realloc st"
  "files (logs t st) = (files st)(fdmemlog st := files st (fdmemlog st) @ t)"
  by (simp_all add: logs_def)

lemma ready_simps [simp]: "ready env (logs t st) = ready env st" "ready env (st\<lparr>mem := m\<rparr>) = ready env st"
  by (simp_all add: ready_def)

lemma ready_init: "initialized st = 0 \<Longrightarrow> ready env (init_me env st)"
  by (simp add: init_me_def ready_def Let_def split: prod.split)

lemma trace_fcn_logs: "trace_fcn ip st = Ok (logs (pointer_text ip @ [32]) st)"
  unfolding trace_fcn_def by (rule dprintf_logs) (simp add: bytes_of_def)

lemma backtrace_logs: "foldR trace_fcn bt st = Ok (logs (bt_text bt) st)"
  by (induction bt arbitrary: st) (simp_all add: trace_fcn_logs bt_text_def)

text \<open>The shape of every log line, for whatever format produces the arguments.\<close>

lemma output_mem_allocation_line:
  assumes "printf_text fmt args = Ok t"
  shows "output_mem_allocation env name fmt args st = Ok (logs (log_line name t (backtrace env)) st)"
proof -
  have 1: "printf_text (bytes_of ''%s: args=['') [S name] = Ok (name @ bytes_of '': args=['')"
    by (simp add: bytes_of_def)
  have 2: "printf_text (bytes_of ''%s'') [S u] = Ok u" for u
    by (simp add: bytes_of_def)
  show ?thesis
    by (simp add: output_mem_allocation_def dprintf_logs [OF 1] dprintf_logs [OF 2] dprintf_logs [OF assms]
        backtrace_logs log_line_def)
qed

lemma printf_entry:
  "printf_text (bytes_of ''size=%lu return=%p'') [Lu n, P r] = Ok (entry_args (Malloc n) r)"
  "printf_text (bytes_of ''num=%lu size=%lu return=%p'') [Lu k, Lu n, P r] = Ok (entry_args (Calloc k n) r)"
  "printf_text (bytes_of ''ptr=%p'') [P p] = Ok (entry_args (Free p) 0)"
  by (simp_all add: bytes_of_def)

lemma logged_call_plain:
  assumes "ready env st" and "well_logged c"
  shows "logged_call env c st = (let (r, m) = plain_call (next_allocator env) c (mem st) in
     Ok (r, logs (log_entry (backtrace env) c r) (st\<lparr>mem := m\<rparr>)))"
  using assms
  by (cases c)
    (simp_all add: well_logged_def malloc_def calloc_def free_def ready_def output_mem_allocation_line [OF printf_entry(1)]
      output_mem_allocation_line [OF printf_entry(2)] output_mem_allocation_line [OF printf_entry(3)] log_entry_def Let_def split: prod.split)

lemma mem_logs: "(logs t st)\<lparr>mem := m\<rparr> = logs t (st\<lparr>mem := m\<rparr>)"
  by (simp add: logs_def)

lemma logged_run_plain:
  assumes "ready env st" and "\<forall>c \<in> set cs. well_logged c"
  shows "logged_run env cs st = (let (rs, m) = plain_run (next_allocator env) cs (mem st) in
     Ok (rs, logs (concat (map2 (log_entry (backtrace env)) cs rs)) (st\<lparr>mem := m\<rparr>)))"
  using assms
  by (induction cs arbitrary: st)
    (simp_all add: logged_call_plain mem_logs Let_def split: prod.split)

text \<open>Text that is one line of a C string: no NUL and no newline.\<close>

definition one_line :: "byte list \<Rightarrow> bool" where
  "one_line t \<longleftrightarrow> 0 \<notin> set t \<and> 10 \<notin> set t"

lemma one_line_append [simp]: "one_line (s @ t) \<longleftrightarrow> one_line s \<and> one_line t"
  by (auto simp: one_line_def)

lemma one_line_concat: "(\<And>t. t \<in> set ts \<Longrightarrow> one_line t) \<Longrightarrow> one_line (concat ts)"
  by (induction ts) (simp_all, simp add: one_line_def)

lemma digit_char_printed: "d < 16 \<Longrightarrow> digit_char d \<noteq> 0 \<and> digit_char d \<noteq> 10"
proof -
  assume "d < 16"
  then have "unat (digit_char d) = (if d < 10 then 48 + d else 87 + d)"
    by (simp add: digit_char_def unat_of_nat take_bit_eq_mod)
  then show ?thesis by (auto split: if_splits)
qed

lemma digits_of_less: "2 \<le> base \<Longrightarrow> d \<in> set (digits_of base n) \<Longrightarrow> d < base"
proof (induction base n rule: digits_of.induct)
  case (1 base n)
  then show ?case by (auto simp: digits_of.simps [of base n] split: if_splits)
qed

lemma one_line_numbers [simp]: "one_line (dec_nat n)" "one_line (hex_nat n)"
  using digits_of_less [of 10 _ n] digits_of_less [of 16 _ n] digit_char_printed
  by (fastforce simp: one_line_def dec_nat_def hex_nat_def)+

lemma one_line_pointer [simp]: "one_line (pointer_text p)"
  by (simp add: pointer_text_def) (simp add: one_line_def bytes_of_def)

lemma one_line_entry:
  "one_line (entry_name c)" "one_line (entry_args c r)" "one_line (bt_text bt)"
proof -
  have "one_line (bytes_of t)" if "t \<in> {''malloc'', ''calloc'', ''free'', ''realloc'', ''size='', '' size='', ''num='', '' return='', ''ptr=''}" for t
    using that by (auto simp: one_line_def bytes_of_def)
  then show "one_line (entry_name c)" "one_line (entry_args c r)" by (cases c; simp)+
  show "one_line (bt_text bt)"
    unfolding bt_text_def by (rule one_line_concat) (auto, simp add: one_line_def)
qed

text \<open>A log entry is one line without NUL.\<close>

lemma log_entry_line: "\<exists>l. log_entry bt c r = l @ [10] \<and> one_line l"
  using one_line_entry
  by (auto simp: log_entry_def log_line_def) (simp_all add: one_line_def bytes_of_def)

lemma log_nul_free: "0 \<notin> set (concat (map2 (log_entry bt) cs rs))"
proof -
  have "0 \<notin> set (log_entry bt c r)" for c r
    using log_entry_line [of bt c r] by (auto simp: one_line_def)
  then show ?thesis by auto
qed

lemma client_loop_copies:
  assumes "length buffer = 1001" and "0 \<notin> set (concat chunks)" and "[] \<notin> set chunks"
  shows "client_loop buffer chunks out = Ok (out @ concat chunks)"
  using assms
proof (induction "length (concat chunks)" arbitrary: buffer chunks out rule: less_induct)
  case less
  obtain bs chunks' where rd: "sys_read 1000 chunks = (bs, chunks')" by fastforce
  note tot = sys_read_total [OF rd]
  show ?case
  proof (cases "bs = []")
    case True
    then have "chunks = []" using rd less.prems(3) by (cases chunks) auto
    then show ?thesis using rd by (simp add: client_loop.simps [of buffer])
  next
    case False
    have len: "length bs \<le> 1000" using rd by (cases chunks) auto
    have nz: "0 \<notin> set bs" "0 \<notin> set (concat chunks')" using tot less.prems(2) by auto
    have ne: "[] \<notin> set chunks'" using rd less.prems(3) by (cases chunks) (auto split: if_splits)
    let ?r = "drop (length bs) buffer"
    have "wr_block buffer 0 bs = Ok (bs @ ?r)" using len less.prems(1) by (simp add: wr_block_def)
    moreover obtain x r where r: "?r = x # r" using len less.prems(1) by (cases ?r) auto
    ultimately have "client_loop buffer chunks out = client_loop (bs @ 0 # r) chunks' (out @ bs)"
      using rd False nz by (simp add: client_loop.simps [of buffer] wr_def list_update_append)
    also have "length (bs @ 0 # r) = 1001"
      using arg_cong [OF r, of length] len less.prems(1) by simp
    then have "client_loop (bs @ 0 # r) chunks' (out @ bs) = Ok ((out @ bs) @ concat chunks')"
      by (intro less.hyps sys_read_less [OF rd False] nz ne)
    finally show ?thesis using tot by simp
  qed
qed

lemma init_me_once: "init_me env (init_me env st) = init_me env st"
  by (simp add: init_me_def [of env "init_me env st"]) (simp add: init_me_def Let_def split: prod.split)

text \<open>\<open>realloc\<close> logs with the block as the format.\<close>

lemma realloc_entry:
  assumes "ready env st" and "a_realloc (next_allocator env) ptr n (mem st) = (p, m)"
  shows "realloc env ptr n st =
    (if ptr = 0 then Fault Null_pointer
     else case object_at env m ptr of
         None \<Rightarrow> Fault Dangling_pointer
       | Some obj \<Rightarrow> bindR (strlen obj) (\<lambda>k. bindR (printf_text (take k obj) [Lu n, P p]) (\<lambda>t.
           Ok (p, logs (log_line (bytes_of ''reallocptr=%p size=%lu return=%p'') t (backtrace env)) (st\<lparr>mem := m\<rparr>)))))"
proof -
  have 1: "bindR (output_mem_allocation env name fmt args st') (\<lambda>st. Ok (p, st)) =
      bindR (printf_text fmt args) (\<lambda>t. Ok (p, logs (log_line name t (backtrace env)) st'))" for name fmt args st'
  proof (cases "printf_text fmt args")
    case (Ok t)
    then show ?thesis by (simp add: output_mem_allocation_line)
  qed (simp_all add: output_mem_allocation_def dprintf_def bytes_of_def)
  show ?thesis
    using assms 1 by (simp add: realloc_def ready_def split: option.split)
qed





lemma constructor_init:
  "ready env (init_constructor env (memlog_init m))" "mem (init_constructor env (memlog_init m)) = m"
  "files (init_constructor env (memlog_init m)) = (\<lambda>_. [])"
  by (simp add: init_constructor_def ready_init memlog_init_def)
    (simp_all add: init_constructor_def init_me_def memlog_init_def Let_def split: prod.split)

definition sample_allocator :: "nat allocator" where
  "sample_allocator = \<lparr>a_malloc = (\<lambda>n m. (word_of_nat (4096 + m), m + unat n)),
     a_calloc = (\<lambda>k n m. (word_of_nat (4096 + m), m + unat (k * n))), a_free = (\<lambda>p m. m),
     a_realloc = (\<lambda>p n m. (word_of_nat (4096 + m), m + unat n))\<rparr>"

definition sample_log_env :: "nat log_env" where
  "sample_log_env = \<lparr>getenv_LOG_MEM_PIPE = Some (bytes_of ''/tmp/p''), mkfifo_errno = (\<lambda>_. 17),
     open_fifo = (\<lambda>_. 7), fcntl_dup_stdin = (\<lambda>_. 3), next_allocator = sample_allocator,
     backtrace = [4198400], object_at = (\<lambda>m p. if p = 4096 then Some (bytes_of ''old'' @ [0]) else None)\<rparr>"

section \<open>Properties\<close>



text \<open>The log survives the pipe: whatever chunks the pipe delivers the log of a run in, the reader
  prints exactly that log on its standard output (its buffer is never overrun and no entry is cut
  by a NUL) and exits with 0.\<close>

theorem client_prints_log:
  assumes "logged_run env cs (init_constructor env (memlog_init m)) = Ok (rs, st)"
    and "concat chunks = files st (fdmemlog st)" and "[] \<notin> set chunks"
    and "mkfifo name \<in> {0, 17}" and "0 \<le> open name" and "\<forall>c \<in> set cs. well_logged c"
  shows "client_main (Some name) mkfifo open chunks stack =
    Ok (0, concat (map2 (log_entry (backtrace env)) cs rs))"
proof -
  have log: "files st (fdmemlog st) = concat (map2 (log_entry (backtrace env)) cs rs)"
    using assms(1) logged_run_plain [OF constructor_init(1) [of env m] assms(6)] constructor_init(3) [of env m]
    by (auto simp: Let_def split: prod.splits)
  have "client_loop (map stack [0..<1001]) chunks [] = Ok ([] @ concat chunks)"
    by (rule client_loop_copies) (use assms(2,3) log log_nul_free in simp_all)
  then show ?thesis using assms(2,4,5) log by (auto simp: client_main_def)
qed

theorem client_prints_log_witness:
  "\<exists>st. logged_run sample_log_env [Malloc 16, Free 4096] (init_constructor sample_log_env (memlog_init 0)) = Ok ([4096, 0], st) \<and>
    client_main (Some [112]) (\<lambda>_. 0) (\<lambda>_. 5) [files st (fdmemlog st)] (\<lambda>_. 1) =
      Ok (0, concat (map2 (log_entry [4198400]) [Malloc 16, Free 4096] [4096, 0]))"
proof -
  let ?st = "init_constructor sample_log_env (memlog_init 0)"
  note r = constructor_init(1) [of sample_log_env 0] and f = constructor_init(3,2) [of sample_log_env 0]
  have "plain_run (next_allocator sample_log_env) [Malloc 16, Free 4096] (mem ?st) = ([4096, 0], 16)"
    unfolding f(2) by (simp add: sample_log_env_def sample_allocator_def)
  moreover have "\<forall>c \<in> set [Malloc 16, Free 4096]. well_logged c" by (simp add: well_logged_def)
  ultimately have "logged_run sample_log_env [Malloc 16, Free 4096] ?st = Ok ([4096, 0],
      logs (concat (map2 (log_entry (backtrace sample_log_env)) [Malloc 16, Free 4096] [4096, 0])) (?st\<lparr>mem := 16\<rparr>))"
    by (simp only: logged_run_plain [OF r] Let_def prod.case)
  then
  obtain st where st: "logged_run sample_log_env [Malloc 16, Free 4096] ?st = Ok ([4096, 0], st)"
    and ne: "files st (fdmemlog st) \<noteq> []"
    using f by (simp add: log_entry_def log_line_def)
  have "client_main (Some [112]) (\<lambda>_. 0) (\<lambda>_. 5) [files st (fdmemlog st)] (\<lambda>_. 1) =
      Ok (0, concat (map2 (log_entry (backtrace sample_log_env)) [Malloc 16, Free 4096] [4096, 0]))"
    by (rule client_prints_log [OF st]) (use ne in \<open>simp_all add: well_logged_def\<close>)
  then show ?thesis using st by (simp add: sample_log_env_def)
qed

text \<open>The entry of \<open>realloc\<close> is broken: because two string literals run together, the pointer is used
  as the format. Reallocating NULL, which is \<open>malloc\<close>, is a null dereference; a block that has moved
  is read after it was freed; and a block that stays in place has its contents, up to the first NUL,
  interpreted as a format and logged in place of the arguments.\<close>

theorem realloc_uses_block_as_format:
  assumes "ready env st" and "a_realloc (next_allocator env) ptr n (mem st) = (p, m)"
  shows "realloc env ptr n st =
    (if ptr = 0 then Fault Null_pointer
     else case object_at env m ptr of
         None \<Rightarrow> Fault Dangling_pointer
       | Some obj \<Rightarrow> bindR (strlen obj) (\<lambda>k. bindR (printf_text (take k obj) [Lu n, P p]) (\<lambda>t.
           Ok (p, logs (log_line (bytes_of ''reallocptr=%p size=%lu return=%p'') t (backtrace env)) (st\<lparr>mem := m\<rparr>)))))"
  using assms by (rule realloc_entry)

theorem realloc_uses_block_as_format_witness:
  "realloc sample_log_env 4096 8 (init_constructor sample_log_env (memlog_init 16)) = Ok (4112,
    logs (log_line (bytes_of ''reallocptr=%p size=%lu return=%p'') (bytes_of ''old'') [4198400])
      ((init_constructor sample_log_env (memlog_init 16))\<lparr>mem := 24\<rparr>))"
proof -
  let ?st = "init_constructor sample_log_env (memlog_init 16)"
  note r = constructor_init(1) [of sample_log_env 16] and f = constructor_init(2) [of sample_log_env 16]
  have "a_realloc (next_allocator sample_log_env) 4096 8 (mem ?st) = (4112, 24)"
    using f by (simp add: sample_log_env_def sample_allocator_def)
  from realloc_uses_block_as_format [OF r this] show ?thesis
    by (simp add: sample_log_env_def bytes_of_def)
qed

end
