(* ===== verification/Gif_Lzw.thy ===== *)
theory Gif_Lzw
  imports Prelude
begin

text \<open>
  Sub-blocks and LZW decompression of \<^verbatim>\<open>test_sources/gif2png/src/gifread.c\<close>: \<open>GetDataBlock\<close>,
  \<open>initLWZ\<close>, \<open>nextCode\<close>, \<open>nextLWZ\<close> and \<open>readLWZ\<close>. The static variables form the record \<open>lzw\<close>; the
  stack pointer \<open>sp\<close> is an offset into \<open>stack\<close>. A stream is what is left of the file. The chase
  through the code table is bounded by the stack and needs no fuel; the loops that wait for another
  code take fuel, and more fuel than bits are left is always enough.
\<close>

section \<open>Sub-blocks\<close>

record gif_file =
  input :: "byte list"
  ZeroDataBlock :: bool

text \<open>\<open>fread(buffer, len, 1, file) != 0\<close>: whether \<open>len\<close> bytes were there, and the bytes stored.\<close>

definition ReadOK :: "nat \<Rightarrow> gif_file \<Rightarrow> bool \<times> byte list \<times> gif_file" where
  "ReadOK len fd = (len \<le> length (input fd), take len (input fd), fd\<lparr>input := drop len (input fd)\<rparr>)"

definition GetDataBlock :: "gif_file \<Rightarrow> byte list \<Rightarrow> int \<Rightarrow> (int \<times> byte list \<times> gif_file) res" where
  "GetDataBlock fd buf off =
     (let (ok, bs, fd) = ReadOK 1 fd in
      if \<not> ok then Ok (- 1, buf, fd)
      else
        let count = hd bs; fd = fd\<lparr>ZeroDataBlock := count = 0\<rparr> in
        if count \<noteq> 0 then
          let (ok, bs, fd) = ReadOK (unat count) fd in
          bindR (wr_block buf off bs) (\<lambda>buf. Ok (if ok then uint count else - 1, buf, fd))
        else Ok (uint count, buf, fd))"

lemma GetDataBlock_shorter:
  assumes "GetDataBlock fd buf off = Ok (n, buf', fd')" and "n \<ge> 0"
  shows "length (input fd') < length (input fd)"
  using assms by (auto simp: GetDataBlock_def ReadOK_def Let_def bindR_eq_Ok split: if_splits)

text \<open>\<open>while (GetDataBlock(fd, buf) > 0)\<close>\<close>

function skip_blocks :: "gif_file \<Rightarrow> byte list \<Rightarrow> (int \<times> byte list \<times> gif_file) res" where
  "skip_blocks fd buf =
     bindR (GetDataBlock fd buf 0) (\<lambda>(count, buf, fd).
       if count > 0 then skip_blocks fd buf else Ok (count, buf, fd))"
  by pat_completeness auto
termination
  by (relation "measure (\<lambda>(fd, buf). length (input fd))") (auto dest: GetDataBlock_shorter)

declare skip_blocks.simps [simp del]

section \<open>State of the decoder\<close>

record lzw =
  curbit :: int
  lastbit :: int
  get_done :: bool
  last_byte :: int
  return_clear :: bool
  stack :: "int list"
  sp :: int
  code_size :: int
  set_code_size :: int
  max_code :: int
  max_code_size :: int
  clear_code :: int
  end_code :: int
  code_buf :: "byte list"
  table0 :: "int list"
  table1 :: "int list"
  firstcode :: int
  oldcode :: int

text \<open>Static storage is zero at the start of the program.\<close>

definition lzw_static :: lzw where
  "lzw_static = \<lparr>curbit = 0, lastbit = 0, get_done = False, last_byte = 0, return_clear = False,
     stack = replicate 8192 0, sp = 0, code_size = 0, set_code_size = 0, max_code = 0, max_code_size = 0,
     clear_code = 0, end_code = 0, code_buf = replicate 280 0, table0 = replicate 4096 0,
     table1 = replicate 4096 0, firstcode = 0, oldcode = 0\<rparr>"

text \<open>The argument comes from an unsigned byte; from 30 on the shift and the product leave the range of
  \<open>int\<close>.\<close>

definition initLWZ :: "int \<Rightarrow> lzw \<Rightarrow> lzw res" where
  "initLWZ input_code_size lz =
     (if input_code_size > 29 then Fault Int_overflow
      else
        let clear = 2 ^ nat input_code_size in
        Ok (lz\<lparr>set_code_size := input_code_size, code_size := input_code_size + 1, clear_code := clear,
            end_code := clear + 1, max_code_size := 2 * clear, max_code := clear + 2, curbit := 0, lastbit := 0,
            last_byte := 2, get_done := False, return_clear := True, sp := 0\<rparr>))"

section \<open>Codes\<close>

definition maskTbl :: "int list" where
  "maskTbl = [0x0000, 0x0001, 0x0003, 0x0007, 0x000f, 0x001f, 0x003f, 0x007f,
     0x00ff, 0x01ff, 0x03ff, 0x07ff, 0x0fff, 0x1fff, 0x3fff, 0x7fff]"

text \<open>The next sub-block, behind the last two bytes of the previous one. The first result tells whether
  the code can be read, or \<open>nextCode\<close> returns -1.\<close>

definition refill :: "gif_file \<Rightarrow> lzw \<Rightarrow> (bool \<times> gif_file \<times> lzw) res" where
  "refill fd lz =
     (if get_done lz then Ok (False, fd, lz)
      else
        bindR (rd (code_buf lz) (last_byte lz - 2)) (\<lambda>b.
        bindR (wr (code_buf lz) 0 b) (\<lambda>buf.
        bindR (rd buf (last_byte lz - 1)) (\<lambda>b.
        bindR (wr buf 1 b) (\<lambda>buf.
        bindR (GetDataBlock fd buf 2) (\<lambda>(count, buf, fd).
        let lz = lz\<lparr>code_buf := buf, get_done := (get_done lz \<or> count = 0)\<rparr> in
        if count < 0 then Ok (False, fd, lz)
        else Ok (True, fd, lz\<lparr>last_byte := 2 + count, curbit := (curbit lz - lastbit lz) + 16,
               lastbit := (2 + count) * 8\<rparr>)))))))"

text \<open>The bits from \<open>curbit\<close> on, taken from up to three bytes.\<close>

definition extract_code :: "int \<Rightarrow> lzw \<Rightarrow> int res" where
  "extract_code cs lz =
     (let j = (curbit lz + cs) div 8; i = curbit lz div 8; buf = code_buf lz in
      bindR (rd buf i) (\<lambda>b0.
      bindR (if i = j then Ok (uint b0)
             else bindR (rd buf (i + 1)) (\<lambda>b1.
               if i + 1 = j then Ok (uint b0 OR push_bit 8 (uint b1))
               else bindR (rd buf (i + 2)) (\<lambda>b2.
                 Ok (uint b0 OR push_bit 8 (uint b1) OR push_bit 16 (uint b2))))) (\<lambda>ret.
      bindR (rd maskTbl cs) (\<lambda>mask.
        Ok (drop_bit (nat (curbit lz mod 8)) ret AND mask)))))"

definition nextCode :: "gif_file \<Rightarrow> int \<Rightarrow> lzw \<Rightarrow> (int \<times> gif_file \<times> lzw) res" where
  "nextCode fd cs lz =
     (if return_clear lz then Ok (clear_code lz, fd, lz\<lparr>return_clear := False\<rparr>)
      else
        bindR (if curbit lz + cs \<ge> lastbit lz then refill fd lz else Ok (True, fd, lz)) (\<lambda>(ok, fd, lz).
        if \<not> ok then Ok (- 1, fd, lz)
        else bindR (extract_code cs lz) (\<lambda>ret. Ok (ret, fd, lz\<lparr>curbit := curbit lz + cs\<rparr>))))"

section \<open>Pixels\<close>

definition reset_tables :: "lzw \<Rightarrow> lzw" where
  "reset_tables lz = lz\<lparr>table0 := replicate 4096 0,
     table1 := map int [0..<nat (clear_code lz)] @ replicate (4096 - nat (clear_code lz)) 0,
     code_size := set_code_size lz + 1, max_code_size := 2 * clear_code lz,
     max_code := clear_code lz + 2, sp := 0\<rparr>"

text \<open>\<open>do { firstcode = oldcode = nextCode(fd, code_size); } while (firstcode == clear_code);\<close>\<close>

primrec first_code :: "nat \<Rightarrow> gif_file \<Rightarrow> lzw \<Rightarrow> (gif_file \<times> lzw) res" where
  "first_code 0 fd lz = Timeout"
| "first_code (Suc fuel) fd lz =
     bindR (nextCode fd (code_size lz) lz) (\<lambda>(c, fd, lz).
       let lz = lz\<lparr>firstcode := c, oldcode := c\<rparr> in
       if c = clear_code lz then first_code fuel fd lz else Ok (fd, lz))"

text \<open>\<open>while (code >= clear_code)\<close>: the results are whether \<open>nextLWZ\<close> returns early because of a
  circular entry, the code, the stack and its pointer.\<close>

function unwind ::
  "int list \<Rightarrow> int list \<Rightarrow> int \<Rightarrow> int list \<Rightarrow> int \<Rightarrow> int \<Rightarrow> (bool \<times> int \<times> int list \<times> int) res" where
  "unwind t0 t1 clear stk p code =
     (if code < clear then Ok (False, code, stk, p)
      else
        bindR (rd t1 code) (\<lambda>v.
        bindR (wr stk p v) (\<lambda>stk.
        bindR (rd t0 code) (\<lambda>n.
          if code = n then Ok (True, code, stk, p + 1)
          else if p + 1 \<ge> int (length stk) then Ok (True, code, stk, p + 1)
          else unwind t0 t1 clear stk (p + 1) n))))"
  by pat_completeness auto
termination
  by (relation "measure (\<lambda>(t0, t1, clear, stk, p, code). nat (int (length stk) - p))") (auto simp: wr_eq_Ok)

declare unwind.simps [simp del]

definition add_entry :: "lzw \<Rightarrow> lzw res" where
  "add_entry lz =
     (let code = max_code lz in
      if code < 4096 then
        bindR (wr (table0 lz) code (oldcode lz)) (\<lambda>t0.
        bindR (wr (table1 lz) code (firstcode lz)) (\<lambda>t1.
        let lz = lz\<lparr>table0 := t0, table1 := t1, max_code := max_code lz + 1\<rparr> in
        if max_code lz \<ge> max_code_size lz \<and> max_code_size lz < 4096
        then Ok (lz\<lparr>max_code_size := max_code_size lz * 2, code_size := code_size lz + 1\<rparr>)
        else Ok lz))
      else Ok lz)"

text \<open>The part of the loop body that deals with a code other than the clear and the end code: the string
  of the code goes on the stack, last pixel first, and a table entry is added. The result is the
  value \<open>nextLWZ\<close> returns, if it returns here.\<close>

definition push_code :: "lzw \<Rightarrow> int \<Rightarrow> (int option \<times> lzw) res" where
  "push_code lz code =
     (let incode = code in
      bindR (if code \<ge> max_code lz
          then bindR (wr (stack lz) (sp lz) (firstcode lz)) (\<lambda>stk.
            Ok (oldcode lz, lz\<lparr>stack := stk, sp := sp lz + 1\<rparr>))
          else Ok (code, lz)) (\<lambda>(code, lz).
      bindR (unwind (table0 lz) (table1 lz) (clear_code lz) (stack lz) (sp lz) code)
        (\<lambda>(early, code, stk, p).
      let lz = lz\<lparr>stack := stk, sp := p\<rparr> in
      if early then Ok (Some code, lz)
      else
        bindR (rd (table1 lz) code) (\<lambda>v.
        bindR (wr (stack lz) (sp lz) v) (\<lambda>stk.
        bindR (add_entry (lz\<lparr>stack := stk, sp := sp lz + 1, firstcode := v\<rparr>)) (\<lambda>lz.
        let lz = lz\<lparr>oldcode := incode\<rparr> in
        if sp lz > 0
        then bindR (rd (stack lz) (sp lz - 1)) (\<lambda>v. Ok (Some v, lz\<lparr>sp := sp lz - 1\<rparr>))
        else Ok (None, lz)))))))"

primrec nextLWZ :: "nat \<Rightarrow> gif_file \<Rightarrow> lzw \<Rightarrow> (int \<times> gif_file \<times> lzw) res" where
  "nextLWZ 0 fd lz = Timeout"
| "nextLWZ (Suc fuel) fd lz =
     bindR (nextCode fd (code_size lz) lz) (\<lambda>(code, fd, lz).
       if code < 0 then Ok (code, fd, lz)
       else if code = clear_code lz then
         if clear_code lz \<ge> 4096 then Ok (- 2, fd, lz)
         else bindR (first_code fuel fd (reset_tables lz)) (\<lambda>(fd, lz). Ok (firstcode lz, fd, lz))
       else if code = end_code lz then
         if ZeroDataBlock fd then Ok (- 2, fd, lz)
         else bindR (skip_blocks fd (replicate 260 0)) (\<lambda>(_, _, fd). Ok (- 2, fd, lz))
       else
         bindR (push_code lz code) (\<lambda>(r, lz). case r of
             Some v \<Rightarrow> Ok (v, fd, lz)
           | None \<Rightarrow> nextLWZ fuel fd lz))"

definition readLWZ :: "nat \<Rightarrow> gif_file \<Rightarrow> lzw \<Rightarrow> (int \<times> gif_file \<times> lzw) res" where
  "readLWZ fuel fd lz =
     (if sp lz > 0
      then bindR (rd (stack lz) (sp lz - 1)) (\<lambda>v. Ok (v, fd, lz\<lparr>sp := sp lz - 1\<rparr>))
      else nextLWZ fuel fd lz)"

text \<open>\<open>while(readLWZ(fd)>=0) continue;\<close>\<close>

primrec drain_pixels :: "nat \<Rightarrow> nat \<Rightarrow> gif_file \<Rightarrow> lzw \<Rightarrow> (gif_file \<times> lzw) res" where
  "drain_pixels 0 fuel fd lz = Timeout"
| "drain_pixels (Suc n) fuel fd lz =
     bindR (readLWZ fuel fd lz) (\<lambda>(v, fd, lz). if v \<ge> 0 then drain_pixels n fuel fd lz else Ok (fd, lz))"

section \<open>Specification\<close>

text \<open>A sequence of sub-blocks, up to its terminator or the end of the file, none of which holds a single
  byte.\<close>

fun wide_blocks :: "byte list \<Rightarrow> bool" where
  "wide_blocks [] \<longleftrightarrow> True"
| "wide_blocks (c # r) \<longleftrightarrow> c = 0 \<or> (2 \<le> unat c \<and> wide_blocks (drop (unat c) r))"

text \<open>The arrays have their sizes and hold nothing that could be a negative index or pixel.\<close>

definition statics_ok :: "lzw \<Rightarrow> bool" where
  "statics_ok lz \<longleftrightarrow> length (stack lz) = 8192 \<and> length (table0 lz) = 4096 \<and> length (table1 lz) = 4096 \<and>
     length (code_buf lz) = 280 \<and> (\<forall>x \<in> set (stack lz). 0 \<le> x) \<and> (\<forall>x \<in> set (table1 lz). 0 \<le> x) \<and>
     (\<forall>x \<in> set (table0 lz). 0 \<le> x \<and> x < 4096)"

text \<open>The bit reader: unless the terminator has been read, the position is inside the buffer and what is
  left of the file is a sequence of sub-blocks.\<close>

definition reader_ok :: "gif_file \<Rightarrow> lzw \<Rightarrow> bool" where
  "reader_ok fd lz \<longleftrightarrow> 2 \<le> last_byte lz \<and> last_byte lz \<le> 257 \<and> 0 \<le> curbit lz \<and> 0 \<le> lastbit lz \<and>
     lastbit lz \<le> 2056 \<and>
     (get_done lz \<longrightarrow> lastbit lz \<le> curbit lz \<and> curbit lz \<le> lastbit lz + 12) \<and>
     (\<not> get_done lz \<longrightarrow> curbit lz \<le> lastbit lz \<and> wide_blocks (input fd))"

definition decoder_ok :: "lzw \<Rightarrow> bool" where
  "decoder_ok lz \<longleftrightarrow> 0 \<le> set_code_size lz \<and> set_code_size lz \<le> 11 \<and> clear_code lz = 2 ^ nat (set_code_size lz) \<and>
     end_code lz = clear_code lz + 1 \<and> 1 \<le> code_size lz \<and> code_size lz \<le> 12 \<and>
     max_code_size lz = 2 ^ nat (code_size lz) \<and> clear_code lz + 2 \<le> max_code lz \<and> max_code lz \<le> 4096 \<and>
     0 \<le> sp lz \<and> sp lz \<le> 8192"

definition codes_ok :: "lzw \<Rightarrow> bool" where
  "codes_ok lz \<longleftrightarrow> 0 \<le> oldcode lz \<and> oldcode lz < 4096 \<and> 0 \<le> firstcode lz"

definition fresh :: "lzw \<Rightarrow> bool" where
  "fresh lz \<longleftrightarrow> return_clear lz \<and> sp lz = 0 \<and> 0 \<le> set_code_size lz \<and> clear_code lz = 2 ^ nat (set_code_size lz) \<and>
     end_code lz = clear_code lz + 1"

definition lzw_ok :: "gif_file \<Rightarrow> lzw \<Rightarrow> bool" where
  "lzw_ok fd lz \<longleftrightarrow> statics_ok lz \<and> reader_ok fd lz \<and>
     (fresh lz \<or> \<not> return_clear lz \<and> decoder_ok lz \<and> codes_ok lz)"

text \<open>The bits the decoder can still take, and the pixels it can still deliver.\<close>

definition bits_left :: "gif_file \<Rightarrow> lzw \<Rightarrow> nat" where
  "bits_left fd lz = nat (8 * int (length (input fd)) + lastbit lz - curbit lz + 12)"

definition pixels_left :: "gif_file \<Rightarrow> lzw \<Rightarrow> nat" where
  "pixels_left fd lz = bits_left fd lz * 8193 + nat (sp lz)"

text \<open>\<open>lz'\<close> differs from \<open>lz\<close> in the variables of the bit reader only.\<close>

definition reader_step :: "lzw \<Rightarrow> lzw \<Rightarrow> bool" where
  "reader_step lz lz' \<longleftrightarrow> return_clear lz' = return_clear lz \<and> stack lz' = stack lz \<and> sp lz' = sp lz \<and>
     code_size lz' = code_size lz \<and> set_code_size lz' = set_code_size lz \<and> max_code lz' = max_code lz \<and>
     max_code_size lz' = max_code_size lz \<and> clear_code lz' = clear_code lz \<and> end_code lz' = end_code lz \<and>
     table0 lz' = table0 lz \<and> table1 lz' = table1 lz \<and> firstcode lz' = firstcode lz \<and> oldcode lz' = oldcode lz"

section \<open>Lemmas\<close>

lemma unat_byte_less: "unat (b :: byte) < 256"
  using unsigned_less [of b, where ?'a = nat] by simp

lemma GetDataBlock_cases:
  "input fd = [] \<Longrightarrow> GetDataBlock fd buf off = Ok (- 1, buf, fd)"
  "input fd = 0 # r \<Longrightarrow> GetDataBlock fd buf off = Ok (0, buf, \<lparr>input = r, ZeroDataBlock = True\<rparr>)"
  "input fd = c # r \<Longrightarrow> c \<noteq> 0 \<Longrightarrow> GetDataBlock fd buf off =
     bindR (wr_block buf off (take (unat c) r)) (\<lambda>buf.
       Ok (if unat c \<le> length r then uint c else - 1, buf, \<lparr>input = drop (unat c) r, ZeroDataBlock = False\<rparr>))"
  by (cases fd; simp add: GetDataBlock_def ReadOK_def Let_def)+

lemma GetDataBlock_wide:
  assumes "wide_blocks (input fd)" and "off + 255 \<le> int (length buf)" and "0 \<le> off"
  shows "\<exists>n buf' fd'. GetDataBlock fd buf off = Ok (n, buf', fd') \<and> length buf' = length buf \<and>
    (n = - 1 \<and> length (input fd') \<le> length (input fd) \<or>
     n = 0 \<and> length (input fd') + 1 = length (input fd) \<or>
     2 \<le> n \<and> n \<le> 255 \<and> wide_blocks (input fd') \<and> length (input fd') + 1 + nat n = length (input fd))"
proof (cases "input fd")
  case Nil
  then show ?thesis by (simp add: GetDataBlock_cases(1))
next
  case (Cons c r)
  show ?thesis
  proof (cases "c = 0")
    case True
    then show ?thesis using Cons by (simp add: GetDataBlock_cases(2))
  next
    case False
    note g = GetDataBlock_cases(3) [OF Cons False, of buf off]
    let ?bs = "take (unat c) r"
    have "length ?bs \<le> 255" using unat_byte_less [of c] by simp
    then have "off + int (length ?bs) \<le> int (length buf)" using assms(2) by linarith
    then obtain buf' where w: "wr_block buf off ?bs = Ok buf'" using assms(3) by (simp add: wr_block_def)
    obtain k where k: "unat c = k" and u: "uint c = int k" by simp
    have d: "2 \<le> unat c" "wide_blocks (drop (unat c) r)" using assms(1) Cons False by simp_all
    show ?thesis
    proof (cases "unat c \<le> length r")
      case True
      then show ?thesis
        using g w wr_block_length [OF w] d Cons unat_byte_less [of c] unfolding u k
        by simp
    next
      case False
      then show ?thesis using g w wr_block_length [OF w] Cons by simp
    qed
  qed
qed

lemma mask_bound: "0 \<le> cs \<Longrightarrow> cs < 16 \<Longrightarrow> rd maskTbl cs = Ok (mask (nat cs))"
proof -
  assume "0 \<le> cs" "cs < 16"
  then obtain n where n: "cs = int n" "n < 16" by (metis nonneg_int_cases of_nat_less_iff of_nat_numeral)
  have m: "maskTbl = map mask [0..<16]" by (simp add: maskTbl_def upt_rec mask_eq_exp_minus_1)
  have "maskTbl ! n = mask n" "length maskTbl = 16" unfolding m using n by simp_all
  then show ?thesis using n by simp
qed

lemma and_mask_bound: "0 \<le> (x AND mask n :: int)" "(x AND mask n :: int) < 2 ^ n"
  by (simp_all add: take_bit_eq_mask [symmetric])

lemma extract_code_ok:
  assumes "length (code_buf lz) = 280" and "0 \<le> curbit lz" and "curbit lz \<le> 2056" and "1 \<le> cs" and "cs \<le> 12"
  shows "\<exists>v. extract_code cs lz = Ok v \<and> 0 \<le> v \<and> v < 2 ^ nat cs"
proof -
  let ?i = "curbit lz div 8"
  have "0 \<le> ?i" "?i \<le> 257" using assms by linarith+
  then have "\<exists>b. rd (code_buf lz) ?i = Ok b" "\<exists>b. rd (code_buf lz) (?i + 1) = Ok b" "\<exists>b. rd (code_buf lz) (?i + 2) = Ok b"
    using assms(1) by simp_all
  then show ?thesis
    using assms by (auto simp: extract_code_def Let_def mask_bound and_mask_bound)
qed

text \<open>Before a refill at most one code of bits is left, so that it fits in the two bytes kept.\<close>

lemma refill_ok:
  assumes "statics_ok lz" and "reader_ok fd lz" and "\<not> get_done lz" and "1 \<le> cs" and "cs \<le> 12"
    and "curbit lz + cs \<ge> lastbit lz"
  shows "\<exists>ok fd' lz'. refill fd lz = Ok (ok, fd', lz') \<and> reader_step lz lz' \<and> statics_ok lz' \<and>
    length (input fd') \<le> length (input fd) \<and>
    (ok \<longrightarrow> 0 \<le> curbit lz' \<and> curbit lz' \<le> 16 \<and> 2 \<le> last_byte lz' \<and> last_byte lz' \<le> 257 \<and>
       lastbit lz' = 8 * last_byte lz' \<and> lastbit lz' \<le> 2056 \<and>
       (if get_done lz' then lastbit lz' = 16 \<and> 16 \<le> curbit lz' + cs
        else 32 \<le> lastbit lz' \<and> wide_blocks (input fd')) \<and>
       bits_left fd' lz' \<le> bits_left fd lz)"
proof -
  have len: "length (code_buf lz) = 280" using assms(1) by (simp add: statics_ok_def)
  have lb: "2 \<le> last_byte lz" "last_byte lz \<le> 257" "wide_blocks (input fd)" "curbit lz \<le> lastbit lz" "0 \<le> lastbit lz"
    using assms(2,3) by (simp_all add: reader_ok_def)
  let ?b1 = "(code_buf lz)[0 := code_buf lz ! nat (last_byte lz - 2)]"
  let ?b2 = "?b1[1 := ?b1 ! nat (last_byte lz - 1)]"
  have "length ?b2 = 280" using len by simp
  then obtain n buf' fd' where g: "GetDataBlock fd ?b2 2 = Ok (n, buf', fd')" and l: "length buf' = 280"
    and c: "n = - 1 \<and> length (input fd') \<le> length (input fd) \<or>
     n = 0 \<and> length (input fd') + 1 = length (input fd) \<or>
     2 \<le> n \<and> n \<le> 255 \<and> wide_blocks (input fd') \<and> length (input fd') + 1 + nat n = length (input fd)"
    using GetDataBlock_wide [OF lb(3), of 2 ?b2] by auto
  have r: "refill fd lz = (let lz = lz\<lparr>code_buf := buf', get_done := (get_done lz \<or> n = 0)\<rparr> in
        if n < 0 then Ok (False, fd', lz)
        else Ok (True, fd', lz\<lparr>last_byte := 2 + n, curbit := (curbit lz - lastbit lz) + 16,
               lastbit := (2 + n) * 8\<rparr>))"
    using lb len assms(3) g by (simp add: refill_def)
  have st: "statics_ok (lz\<lparr>code_buf := buf', get_done := g, last_byte := b, curbit := cb, lastbit := ltb\<rparr>)"
    "statics_ok (lz\<lparr>code_buf := buf', get_done := g\<rparr>)" for g b cb ltb
    using assms(1) l by (simp_all add: statics_ok_def)
  show ?thesis
    using c
  proof (elim disjE conjE)
    assume n: "n = - 1" and i: "length (input fd') \<le> length (input fd)"
    have "refill fd lz = Ok (False, fd', lz\<lparr>code_buf := buf', get_done := False\<rparr>)"
      using r n assms(3) by simp
    moreover have "reader_step lz (lz\<lparr>code_buf := buf', get_done := False\<rparr>)"
      by (simp add: reader_step_def)
    ultimately show ?thesis using i st(2) by blast
  next
    let ?lz = "lz\<lparr>code_buf := buf', get_done := (n = 0), last_byte := 2 + n, curbit := (curbit lz - lastbit lz) + 16,
      lastbit := (2 + n) * 8\<rparr>"
    have step: "reader_step lz ?lz" by (simp add: reader_step_def)
    {
      assume n: "n = 0" and i: "length (input fd') + 1 = length (input fd)"
      have eq: "refill fd lz = Ok (True, fd', ?lz)" using r n by simp
      have "bits_left fd' ?lz \<le> bits_left fd lz" using n i by (simp add: bits_left_def)
      then show ?thesis
        by (intro exI [of _ True] exI [of _ fd'] exI [of _ ?lz])
          (use eq n i step st(1) lb assms(5,6) in simp)
    next
      assume n: "2 \<le> n" "n \<le> 255" and w: "wide_blocks (input fd')"
        and i: "length (input fd') + 1 + nat n = length (input fd)"
      have eq: "refill fd lz = Ok (True, fd', ?lz)" using r n assms(3) by simp
      have "bits_left fd' ?lz \<le> bits_left fd lz" using n i by (simp add: bits_left_def)
      then show ?thesis
        by (intro exI [of _ True] exI [of _ fd'] exI [of _ ?lz])
          (use eq n i w step st(1) lb assms(5,6) in simp)
    }
  qed
qed

lemma reader_step_curbit: "reader_step lz lz' \<Longrightarrow> reader_step lz (lz'\<lparr>curbit := c\<rparr>)"
  by (simp add: reader_step_def)

lemma reader_step_refl: "reader_step lz lz"
  by (simp add: reader_step_def)

text \<open>What a successful or failed \<open>nextCode\<close> guarantees.\<close>

definition code_read :: "gif_file \<Rightarrow> lzw \<Rightarrow> int \<Rightarrow> int \<Rightarrow> gif_file \<Rightarrow> lzw \<Rightarrow> bool" where
  "code_read fd lz cs v fd' lz' \<longleftrightarrow> statics_ok lz' \<and> length (input fd') \<le> length (input fd) \<and>
     (v = - 1 \<or> 0 \<le> v \<and> v < 2 ^ nat cs \<and> reader_ok fd' lz' \<and> bits_left fd' lz' < bits_left fd lz)"

lemma nextCode_ok:
  assumes "statics_ok lz" and "reader_ok fd lz" and "\<not> return_clear lz" and "1 \<le> cs" and "cs \<le> 12"
  shows "\<exists>v fd' lz'. nextCode fd cs lz = Ok (v, fd', lz') \<and> reader_step lz lz' \<and> code_read fd lz cs v fd' lz'"
proof -
  have adv: "statics_ok (lz1\<lparr>curbit := c\<rparr>)" if "statics_ok lz1" for lz1 c
    using that by (simp add: statics_ok_def)
  consider (inside) "curbit lz + cs < lastbit lz" | (ended) "lastbit lz \<le> curbit lz + cs" "get_done lz"
    | (more) "lastbit lz \<le> curbit lz + cs" "\<not> get_done lz" by linarith
  then show ?thesis
  proof cases
    case inside
    have "curbit lz \<le> 2056" "0 \<le> curbit lz" "length (code_buf lz) = 280"
      using inside assms by (simp_all add: reader_ok_def statics_ok_def)
    then obtain v where v: "extract_code cs lz = Ok v" "0 \<le> v" "v < 2 ^ nat cs"
      using extract_code_ok assms(4,5) by blast
    have "reader_ok fd (lz\<lparr>curbit := curbit lz + cs\<rparr>)" "bits_left fd (lz\<lparr>curbit := curbit lz + cs\<rparr>) < bits_left fd lz"
      using inside assms(2,4) by (auto simp: reader_ok_def bits_left_def split: if_splits)
    then show ?thesis
      using inside assms(1,3) v adv reader_step_curbit [OF reader_step_refl]
      by (auto simp: nextCode_def code_read_def)
  next
    case ended
    then show ?thesis
      using assms(1,3) reader_step_refl by (auto simp: nextCode_def refill_def code_read_def)
  next
    case more
    obtain ok fd' lz' where r: "refill fd lz = Ok (ok, fd', lz')" "reader_step lz lz'" "statics_ok lz'"
      "length (input fd') \<le> length (input fd)"
      and k: "ok \<longrightarrow> 0 \<le> curbit lz' \<and> curbit lz' \<le> 16 \<and> 2 \<le> last_byte lz' \<and> last_byte lz' \<le> 257 \<and>
       lastbit lz' = 8 * last_byte lz' \<and> lastbit lz' \<le> 2056 \<and>
       (if get_done lz' then lastbit lz' = 16 \<and> 16 \<le> curbit lz' + cs
        else 32 \<le> lastbit lz' \<and> wide_blocks (input fd')) \<and>
       bits_left fd' lz' \<le> bits_left fd lz"
      using refill_ok [OF assms(1,2) more(2) assms(4,5) more(1)] by metis
    show ?thesis
    proof (cases ok)
      case False
      then show ?thesis using more assms(3) r by (auto simp: nextCode_def code_read_def)
    next
      case True
      have "curbit lz' \<le> 2056" "0 \<le> curbit lz'" "length (code_buf lz') = 280"
        using True k r(3) by (simp_all add: statics_ok_def)
      then obtain v where v: "extract_code cs lz' = Ok v" "0 \<le> v" "v < 2 ^ nat cs"
        using extract_code_ok assms(4,5) by blast
      let ?lz = "lz'\<lparr>curbit := curbit lz' + cs\<rparr>"
      have "reader_ok fd' ?lz"
        using True k assms(4,5) by (auto simp: reader_ok_def split: if_splits)
      moreover have "bits_left fd' ?lz < bits_left fd' lz'"
        using True k assms(4,5) by (auto simp: bits_left_def split: if_splits)
      then have "bits_left fd' ?lz < bits_left fd lz" using True k by linarith
      ultimately show ?thesis
        using True more assms(3) r v adv reader_step_curbit [OF r(2)] by (auto simp: nextCode_def code_read_def)
    qed
  qed
qed

lemma first_code_ok:
  assumes "statics_ok lz" and "reader_ok fd lz" and "\<not> return_clear lz" and "1 \<le> code_size lz" and "code_size lz \<le> 12"
    and "0 < clear_code lz" and "bits_left fd lz < fuel"
  shows "\<exists>v fd' lz'. first_code fuel fd lz = Ok (fd', lz'\<lparr>firstcode := v, oldcode := v\<rparr>) \<and> reader_step lz lz' \<and>
    code_read fd lz (code_size lz) v fd' lz'"
  using assms
proof (induction fuel arbitrary: fd lz)
  case (Suc fuel)
  obtain v fd1 lz1 where n: "nextCode fd (code_size lz) lz = Ok (v, fd1, lz1)" and st: "reader_step lz lz1"
    and c: "code_read fd lz (code_size lz) v fd1 lz1"
    using nextCode_ok [OF Suc.prems(1-5)] by blast
  let ?lz = "lz1\<lparr>firstcode := v, oldcode := v\<rparr>"
  have eq: "clear_code lz1 = clear_code lz" "code_size lz1 = code_size lz" "return_clear lz1 = return_clear lz"
    using st by (simp_all add: reader_step_def)
  show ?case
  proof (cases "v = clear_code lz")
    case False
    then show ?thesis using n st c eq by (auto simp: Let_def)
  next
    case True
    then have r: "reader_ok fd1 lz1" "bits_left fd1 lz1 < bits_left fd lz" "statics_ok lz1"
      "length (input fd1) \<le> length (input fd)"
      using c Suc.prems(6) by (auto simp: code_read_def)
    have "statics_ok ?lz" "reader_ok fd1 ?lz" "bits_left fd1 ?lz = bits_left fd1 lz1"
      using r by (simp_all add: statics_ok_def reader_ok_def bits_left_def)
    then obtain w fd2 lz2 where f: "first_code fuel fd1 ?lz = Ok (fd2, lz2\<lparr>firstcode := w, oldcode := w\<rparr>)"
      "reader_step ?lz lz2" "code_read fd1 ?lz (code_size lz) w fd2 lz2"
      using Suc.IH [of ?lz fd1] Suc.prems r eq by auto
    let ?lz3 = "lz2\<lparr>firstcode := firstcode lz, oldcode := oldcode lz\<rparr>"
    have "lz2\<lparr>firstcode := w, oldcode := w\<rparr> = ?lz3\<lparr>firstcode := w, oldcode := w\<rparr>" by simp
    moreover have "reader_step lz ?lz3" using st f(2) by (simp add: reader_step_def)
    moreover have "code_read fd lz (code_size lz) w fd2 ?lz3"
      using f(3) r by (auto simp: code_read_def bits_left_def statics_ok_def reader_ok_def)
    moreover have "first_code (Suc fuel) fd lz = Ok (fd2, lz2\<lparr>firstcode := w, oldcode := w\<rparr>)"
      using n True eq f(1) by (simp add: Let_def)
    ultimately show ?thesis by metis
  qed
qed simp

lemma unwind_ok:
  assumes "length t0 = 4096" and "length t1 = 4096" and "\<forall>x \<in> set t0. 0 \<le> x \<and> x < 4096" and "\<forall>x \<in> set t1. 0 \<le> x"
    and "length stk = 8192" and "\<forall>x \<in> set stk. 0 \<le> x" and "0 \<le> p" and "p < 8192" and "0 \<le> code" and "code < 4096"
  shows "\<exists>early c stk' p'. unwind t0 t1 clear stk p code = Ok (early, c, stk', p') \<and> length stk' = 8192 \<and>
    (\<forall>x \<in> set stk'. 0 \<le> x) \<and> 0 \<le> c \<and> c < 4096 \<and> p \<le> p' \<and> p' \<le> 8192 \<and> (\<not> early \<longrightarrow> p' < 8192)"
  using assms
proof (induction t0 t1 clear stk p code rule: unwind.induct)
  case (1 t0 t1 clear stk p code)
  show ?case
  proof (cases "code < clear")
    case True
    then show ?thesis using 1(2-) unwind.simps [of t0 t1 clear stk p code] by auto
  next
    case False
    define v where "v = t1 ! nat code"
    define n where "n = t0 ! nat code"
    have r: "rd t1 code = Ok v" "rd t0 code = Ok n" using 1(2-) by (simp_all add: v_def n_def)
    have v: "0 \<le> v" "0 \<le> n" "n < 4096" using 1(2-) by (simp_all add: v_def n_def)
    let ?s = "stk[nat p := v]"
    have w: "wr stk p v = Ok ?s" using 1(2-) by simp
    have s: "length ?s = 8192" "\<forall>x \<in> set ?s. 0 \<le> x"
      using 1(2-) v set_update_subset_insert [of stk "nat p" v] by auto
    note eq = unwind.simps [of t0 t1 clear stk p code] r w False
    show ?thesis
    proof (cases "code = n \<or> p + 1 \<ge> 8192")
      case True
      then show ?thesis using eq s 1(2-) by auto
    next
      case c: False
      have "\<exists>early c stk' p'. unwind t0 t1 clear ?s (p + 1) n = Ok (early, c, stk', p') \<and> length stk' = 8192 \<and>
          (\<forall>x \<in> set stk'. 0 \<le> x) \<and> 0 \<le> c \<and> c < 4096 \<and> p + 1 \<le> p' \<and> p' \<le> 8192 \<and> (\<not> early \<longrightarrow> p' < 8192)"
        by (rule 1(1) [OF False r(1) w r(2)]) (use c s 1(2-) v in auto)
      then show ?thesis using eq c s by auto
    qed
  qed
qed

lemma GetDataBlock_ok:
  assumes "off + 255 \<le> int (length buf)" and "0 \<le> off"
  shows "\<exists>n buf' fd'. GetDataBlock fd buf off = Ok (n, buf', fd') \<and> length buf' = length buf \<and>
    - 1 \<le> n \<and> n \<le> 255 \<and> length (input fd') \<le> length (input fd)"
proof (cases "input fd")
  case Nil
  then show ?thesis by (simp add: GetDataBlock_cases(1))
next
  case (Cons c r)
  show ?thesis
  proof (cases "c = 0")
    case True
    then show ?thesis using Cons by (simp add: GetDataBlock_cases(2))
  next
    case False
    have "length (take (unat c) r) \<le> 255" using unat_byte_less [of c] by simp
    then have "off + int (length (take (unat c) r)) \<le> int (length buf)" using assms(1) by linarith
    then obtain buf' where w: "wr_block buf off (take (unat c) r) = Ok buf'" using assms(2) by (simp add: wr_block_def)
    obtain k where "unat c = k" and "uint c = int k" by simp
    then show ?thesis
      using GetDataBlock_cases(3) [OF Cons False, of buf off] w wr_block_length [OF w] Cons unat_byte_less [of c]
      by (simp add: le_diff_conv)
  qed
qed

lemma skip_blocks_ok:
  "255 \<le> length buf \<Longrightarrow> \<exists>n buf' fd'. skip_blocks fd buf = Ok (n, buf', fd') \<and> length buf' = length buf \<and>
     n \<le> 0 \<and> length (input fd') \<le> length (input fd)"
proof (induction fd buf rule: skip_blocks.induct)
  case (1 fd buf)
  obtain n buf1 fd1 where g: "GetDataBlock fd buf 0 = Ok (n, buf1, fd1)" "length buf1 = length buf"
    "length (input fd1) \<le> length (input fd)"
    using GetDataBlock_ok [of 0 buf fd] "1.prems" by auto
  show ?case
  proof (cases "n > 0")
    case True
    then show ?thesis
      using 1(1) [OF g(1) refl refl True] g "1.prems" by (auto simp: skip_blocks.simps [of fd buf])
  next
    case False
    then show ?thesis using g by (simp add: skip_blocks.simps [of fd buf])
  qed
qed

lemma statics_reset: "statics_ok lz \<Longrightarrow> 0 \<le> clear_code lz \<Longrightarrow> clear_code lz \<le> 4096 \<Longrightarrow> statics_ok (reset_tables lz)"
  by (auto simp: statics_ok_def reset_tables_def)

lemma nonneg_update: "\<forall>x \<in> set xs. P x \<Longrightarrow> P v \<Longrightarrow> \<forall>x \<in> set (xs[i := v]). P x"
  using set_update_subset_insert [of xs i v] by auto

lemma power_less_4096: "(2::int) ^ n < 4096 \<Longrightarrow> n < 12"
  using power_increasing [of 12 n "2::int"] by (cases "n < 12") simp_all

lemma add_entry_ok:
  assumes "statics_ok lz" and "decoder_ok lz" and "codes_ok lz"
  shows "\<exists>t0 t1 mc ms cs. add_entry lz = Ok (lz\<lparr>table0 := t0, table1 := t1, max_code := mc, max_code_size := ms, code_size := cs\<rparr>) \<and>
    statics_ok (lz\<lparr>table0 := t0, table1 := t1, max_code := mc, max_code_size := ms, code_size := cs\<rparr>) \<and>
    decoder_ok (lz\<lparr>table0 := t0, table1 := t1, max_code := mc, max_code_size := ms, code_size := cs\<rparr>)"
proof (cases "max_code lz < 4096")
  case False
  then show ?thesis
    using assms by (intro exI [of _ "table0 lz"] exI [of _ "table1 lz"] exI [of _ "max_code lz"]
        exI [of _ "max_code_size lz"] exI [of _ "code_size lz"]) (simp add: add_entry_def)
next
  case True
  let ?t0 = "(table0 lz)[nat (max_code lz) := oldcode lz]" and ?t1 = "(table1 lz)[nat (max_code lz) := firstcode lz]"
  let ?b = "max_code lz + 1 \<ge> max_code_size lz \<and> max_code_size lz < 4096"
  let ?ms = "if ?b then max_code_size lz * 2 else max_code_size lz" and ?cs = "if ?b then code_size lz + 1 else code_size lz"
  have "0 < clear_code lz" "clear_code lz + 2 \<le> max_code lz" using assms(2) by (simp_all add: decoder_ok_def)
  then have d: "2 \<le> max_code lz" "1 \<le> code_size lz" "code_size lz \<le> 12" "max_code_size lz = 2 ^ nat (code_size lz)"
    using assms(2) by (simp, simp_all add: decoder_ok_def)
  have c: "code_size lz < 12" if ?b
  proof -
    have "nat (code_size lz) < 12" using that d(4) by (intro power_less_4096) simp
    then show ?thesis by simp
  qed
  have "add_entry lz = Ok (lz\<lparr>table0 := ?t0, table1 := ?t1, max_code := max_code lz + 1, max_code_size := ?ms, code_size := ?cs\<rparr>)"
  proof -
    have w: "wr (table0 lz) (max_code lz) (oldcode lz) = Ok ?t0" "wr (table1 lz) (max_code lz) (firstcode lz) = Ok ?t1"
      using True d(1) assms(1) by (simp_all add: statics_ok_def)
    show ?thesis
    proof (cases ?b)
      case b: True
      then show ?thesis using True by (simp add: add_entry_def w Let_def)
    next
      case False
      then have "\<not> (max_code_size lz \<le> max_code lz + 1 \<and> max_code_size lz < 4096)" by blast
      then show ?thesis using True unfolding add_entry_def Let_def w by (simp only: if_True if_False bindR.simps) (simp, blast)
    qed
  qed
  moreover have "statics_ok (lz\<lparr>table0 := ?t0, table1 := ?t1, max_code := max_code lz + 1, max_code_size := ?ms, code_size := ?cs\<rparr>)"
  proof -
    have "\<forall>x \<in> set ?t0. 0 \<le> x \<and> x < 4096" "\<forall>x \<in> set ?t1. 0 \<le> x"
      by (rule nonneg_update, use assms(1,3) in \<open>simp add: statics_ok_def codes_ok_def\<close>,
          use assms(3) in \<open>simp add: codes_ok_def\<close>)+
    then show ?thesis using assms(1) unfolding statics_ok_def by simp
  qed
  moreover have "decoder_ok (lz\<lparr>table0 := ?t0, table1 := ?t1, max_code := max_code lz + 1, max_code_size := ?ms, code_size := ?cs\<rparr>)"
  proof (cases ?b)
    case b: True
    then have "nat (code_size lz + 1) = Suc (nat (code_size lz))" using d(2) by simp
    then show ?thesis using b True assms(2) c by (simp only: decoder_ok_def) simp
  next
    case False
    then show ?thesis using True assms(2) by (simp only: decoder_ok_def) simp
  qed
  ultimately show ?thesis by blast
qed

text \<open>The outcome of a read: unless it is negative the decoder can go on, and it has come closer to its
  end.\<close>

definition pixel_read :: "gif_file \<Rightarrow> lzw \<Rightarrow> int \<Rightarrow> gif_file \<Rightarrow> lzw \<Rightarrow> bool" where
  "pixel_read fd lz v fd' lz' \<longleftrightarrow> statics_ok lz' \<and> length (input fd') \<le> length (input fd) \<and>
     (0 \<le> v \<longrightarrow> lzw_ok fd' lz' \<and> pixels_left fd' lz' < pixels_left fd lz)"

lemma pixels_left_less: "bits_left fd' lz' < bits_left fd lz \<Longrightarrow> sp lz' \<le> 8192 \<Longrightarrow> pixels_left fd' lz' < pixels_left fd lz"
proof -
  assume a: "bits_left fd' lz' < bits_left fd lz" "sp lz' \<le> 8192"
  then have "Suc (bits_left fd' lz') * 8193 \<le> bits_left fd lz * 8193" by simp
  then show ?thesis using a(2) by (simp add: pixels_left_def)
qed

text \<open>The clear code: the tables are reset and the next code is taken as a pixel.\<close>

lemma clear_ok:
  assumes "statics_ok lz" and "reader_ok fd lz" and "\<not> return_clear lz" and "0 \<le> set_code_size lz"
    and "clear_code lz = 2 ^ nat (set_code_size lz)" and "end_code lz = clear_code lz + 1" and "clear_code lz < 4096"
    and "bits_left fd lz < fuel"
  shows "\<exists>v fd' lz'. bindR (first_code fuel fd (reset_tables lz)) (\<lambda>(fd, lz). Ok (firstcode lz, fd, lz)) = Ok (v, fd', lz') \<and>
    pixel_read fd lz v fd' lz'"
proof -
  let ?lz = "reset_tables lz"
  have "nat (set_code_size lz) < 12" using assms(5,7) by (intro power_less_4096) simp
  then have k: "set_code_size lz \<le> 11" by simp
  have pos: "0 < clear_code lz" using assms(5) by simp
  have st: "statics_ok ?lz" using statics_reset [OF assms(1)] pos assms(7) by simp
  have "reader_ok fd ?lz" "\<not> return_clear ?lz" "1 \<le> code_size ?lz" "code_size ?lz \<le> 12" "0 < clear_code ?lz"
    "bits_left fd ?lz < fuel"
    using assms k pos by (simp_all add: reader_ok_def reset_tables_def bits_left_def)
  then obtain v fd' lz' where f: "first_code fuel fd ?lz = Ok (fd', lz'\<lparr>firstcode := v, oldcode := v\<rparr>)"
    and s: "reader_step ?lz lz'" and c: "code_read fd ?lz (code_size ?lz) v fd' lz'"
    using first_code_ok [OF st] by blast
  let ?l = "lz'\<lparr>firstcode := v, oldcode := v\<rparr>"
  have le': "(2::int) ^ nat (set_code_size lz) \<le> 2 ^ 11" using k assms(4) by (intro power_increasing) auto
  have le: "(2::int) ^ nat (set_code_size lz + 1) \<le> 2 ^ 12" using k assms(4) by (intro power_increasing) auto
  have "lzw_ok fd' ?l \<and> pixels_left fd' ?l < pixels_left fd lz" if "0 \<le> v"
  proof -
    have r: "v < 2 ^ nat (set_code_size lz + 1)" "reader_ok fd' lz'" "bits_left fd' lz' < bits_left fd ?lz" "statics_ok lz'"
      using c that by (auto simp: code_read_def reset_tables_def)
    have e: "return_clear lz' = False" "sp lz' = 0" "set_code_size lz' = set_code_size lz"
      "clear_code lz' = clear_code lz" "end_code lz' = end_code lz" "code_size lz' = set_code_size lz + 1"
      "max_code lz' = clear_code lz + 2" "max_code_size lz' = 2 * clear_code lz"
      using s assms(3) by (simp_all add: reader_step_def reset_tables_def)
    have "decoder_ok ?l"
      unfolding decoder_ok_def using e assms(4-7) k le' by (simp add: nat_add_distrib)
    moreover have "codes_ok ?l" using that r(1) le by (simp add: codes_ok_def)
    moreover have "statics_ok ?l" "reader_ok fd' ?l" using r by (simp_all add: statics_ok_def reader_ok_def)
    moreover have "bits_left fd' ?l < bits_left fd lz" using r(3) by (simp add: bits_left_def reset_tables_def)
    then have "pixels_left fd' ?l < pixels_left fd lz" by (rule pixels_left_less) (simp add: e)
    ultimately show ?thesis using e(1) by (simp add: lzw_ok_def)
  qed
  moreover have "statics_ok ?l" "length (input fd') \<le> length (input fd)"
    using c by (simp_all add: code_read_def statics_ok_def)
  ultimately show ?thesis using f by (auto simp: pixel_read_def)
qed

lemma push_code_ok:
  assumes "statics_ok lz" and "reader_ok fd lz" and "\<not> return_clear lz" and "decoder_ok lz" and "codes_ok lz"
    and "sp lz = 0" and "0 \<le> code" and "code < 4096"
  shows "\<exists>v lz'. push_code lz code = Ok (Some v, lz') \<and> statics_ok lz' \<and>
    reader_ok fd lz' \<and> \<not> return_clear lz' \<and> decoder_ok lz' \<and> codes_ok lz' \<and> bits_left fd lz' = bits_left fd lz"
proof -
  define lz1 where "lz1 = (if code \<ge> max_code lz then lz\<lparr>stack := (stack lz)[0 := firstcode lz], sp := 1\<rparr> else lz)"
  define c1 where "c1 = (if code \<ge> max_code lz then oldcode lz else code)"
  have len: "length (stack lz) = 8192" using assms(1) by (simp add: statics_ok_def)
  have 1: "(if code \<ge> max_code lz
             then bindR (wr (stack lz) (sp lz) (firstcode lz)) (\<lambda>stk.
               Ok (oldcode lz, lz\<lparr>stack := stk, sp := sp lz + 1\<rparr>))
             else Ok (code, lz)) = Ok (c1, lz1)"
    using len assms(6) by (simp add: lz1_def c1_def)
  have st1: "statics_ok lz1"
    using assms(1,5) nonneg_update [of "stack lz" "\<lambda>x. 0 \<le> x" "firstcode lz"] by (simp add: lz1_def statics_ok_def codes_ok_def)
  have sp1: "0 \<le> sp lz1" "sp lz1 < 8192" and c1: "0 \<le> c1" "c1 < 4096"
    using assms(5-8) by (auto simp: lz1_def c1_def codes_ok_def)
  obtain early c stk p where u: "unwind (table0 lz1) (table1 lz1) (clear_code lz1) (stack lz1) (sp lz1) c1 = Ok (early, c, stk, p)"
    and k: "length stk = 8192" "\<forall>x \<in> set stk. 0 \<le> x" "0 \<le> c" "c < 4096" "sp lz1 \<le> p" "p \<le> 8192" "\<not> early \<longrightarrow> p < 8192"
    using unwind_ok [of "table0 lz1" "table1 lz1" "stack lz1" "sp lz1" c1 "clear_code lz1"] st1 sp1 c1
    by (auto simp: statics_ok_def)
  let ?lz2 = "lz1\<lparr>stack := stk, sp := p\<rparr>"
  have ok2: "statics_ok ?lz2" "reader_ok fd ?lz2" "\<not> return_clear ?lz2" "decoder_ok ?lz2" "codes_ok ?lz2"
    "bits_left fd ?lz2 = bits_left fd lz"
    using st1 k assms(2-5) sp1 by (auto simp: lz1_def statics_ok_def reader_ok_def decoder_ok_def codes_ok_def bits_left_def)
  show ?thesis
  proof (cases early)
    case True
    then have "push_code lz code = Ok (Some c, ?lz2)"
      unfolding push_code_def Let_def 1 by (simp add: u)
    then show ?thesis using ok2 by blast
  next
    case False
    define v where "v = table1 lz1 ! nat c"
    let ?lz3 = "lz1\<lparr>stack := stk[nat p := v], sp := p + 1, firstcode := v\<rparr>"
    have v: "rd (table1 ?lz2) c = Ok v" "0 \<le> v" using st1 k(3,4) by (simp_all add: v_def statics_ok_def)
    have w: "wr (stack ?lz2) (sp ?lz2) v = Ok (stk[nat p := v])" using False k sp1 by simp
    have ok3: "statics_ok ?lz3" "decoder_ok ?lz3" "codes_ok ?lz3"
      using ok2 v(2) False k sp1 nonneg_update [of stk "\<lambda>x. 0 \<le> x" v]
      by (simp_all add: statics_ok_def decoder_ok_def codes_ok_def)
    obtain t0 t1 mc ms cs where a: "add_entry ?lz3 = Ok (?lz3\<lparr>table0 := t0, table1 := t1, max_code := mc, max_code_size := ms, code_size := cs\<rparr>)"
      and ok4: "statics_ok (?lz3\<lparr>table0 := t0, table1 := t1, max_code := mc, max_code_size := ms, code_size := cs\<rparr>)"
        "decoder_ok (?lz3\<lparr>table0 := t0, table1 := t1, max_code := mc, max_code_size := ms, code_size := cs\<rparr>)"
      using add_entry_ok [OF ok3] by blast
    let ?lz4 = "?lz3\<lparr>table0 := t0, table1 := t1, max_code := mc, max_code_size := ms, code_size := cs, oldcode := code, sp := p\<rparr>"
    have "push_code lz code = Ok (Some v, ?lz4)"
      unfolding push_code_def Let_def 1 using False k sp1 by (simp add: u w [simplified] v(1) [simplified] a)
    moreover have "statics_ok ?lz4" using ok4(1) by (simp add: statics_ok_def)
    moreover have "reader_ok fd ?lz4" "\<not> return_clear ?lz4" "bits_left fd ?lz4 = bits_left fd lz"
      using ok2(2,3,6) by (simp_all add: reader_ok_def bits_left_def)
    moreover have "decoder_ok ?lz4" using ok4(2) False k sp1 by (simp add: decoder_ok_def)
    moreover have "codes_ok ?lz4" using assms(7,8) v(2) by (simp add: codes_ok_def)
    ultimately show ?thesis by blast
  qed
qed

lemma nextLWZ_fresh:
  assumes "statics_ok lz" and "reader_ok fd lz" and "fresh lz" and "Suc (bits_left fd lz) < fuel"
  shows "\<exists>v fd' lz'. nextLWZ fuel fd lz = Ok (v, fd', lz') \<and> pixel_read fd lz v fd' lz'"
proof -
  obtain k where k: "fuel = Suc k" "bits_left fd lz < k" using assms(4) by (cases fuel) auto
  let ?lz = "lz\<lparr>return_clear := False\<rparr>"
  have f: "return_clear lz" "0 \<le> set_code_size lz" "clear_code lz = 2 ^ nat (set_code_size lz)" "end_code lz = clear_code lz + 1"
    using assms(3) by (simp_all add: fresh_def)
  have n: "nextCode fd (code_size lz) lz = Ok (clear_code lz, fd, ?lz)" using f(1) by (simp add: nextCode_def)
  have ok: "statics_ok ?lz" "reader_ok fd ?lz" "bits_left fd ?lz = bits_left fd lz" "pixels_left fd ?lz = pixels_left fd lz"
    using assms(1,2) by (simp_all add: statics_ok_def reader_ok_def bits_left_def pixels_left_def)
  have pos: "\<not> clear_code lz < 0" using f(3) by simp
  show ?thesis
  proof (cases "clear_code lz \<ge> 4096")
    case True
    then have "nextLWZ fuel fd lz = Ok (- 2, fd, ?lz)" using n k pos by simp
    then show ?thesis using ok by (simp add: pixel_read_def)
  next
    case False
    then have "nextLWZ fuel fd lz = bindR (first_code k fd (reset_tables ?lz)) (\<lambda>(fd, lz). Ok (firstcode lz, fd, lz))"
      using n k pos by simp
    moreover have "pixel_read fd ?lz v fd' lz' = pixel_read fd lz v fd' lz'" for v fd' lz'
      using ok(4) by (simp add: pixel_read_def)
    ultimately show ?thesis
      using clear_ok [OF ok(1,2), of k] f False k ok(3) by simp
  qed
qed

lemma nextLWZ_ok:
  assumes "lzw_ok fd lz" and "sp lz = 0" and "Suc (bits_left fd lz) < fuel"
  shows "\<exists>v fd' lz'. nextLWZ fuel fd lz = Ok (v, fd', lz') \<and> pixel_read fd lz v fd' lz'"
proof (cases "fresh lz")
  case True
  then show ?thesis using nextLWZ_fresh assms by (simp add: lzw_ok_def)
next
  case False
  obtain k where k: "fuel = Suc k" "bits_left fd lz < k" using assms(3) by (cases fuel) auto
  have ok: "statics_ok lz" "reader_ok fd lz" "\<not> return_clear lz" "decoder_ok lz" "codes_ok lz"
    using assms(1) False by (simp_all add: lzw_ok_def)
  have cs: "1 \<le> code_size lz" "code_size lz \<le> 12" using ok(4) by (simp_all add: decoder_ok_def)
  obtain c fd1 lz1 where n: "nextCode fd (code_size lz) lz = Ok (c, fd1, lz1)" and s: "reader_step lz lz1"
    and r: "code_read fd lz (code_size lz) c fd1 lz1"
    using nextCode_ok [OF ok(1-3) cs] by blast
  have st: "statics_ok lz1" "length (input fd1) \<le> length (input fd)" using r by (simp_all add: code_read_def)
  show ?thesis
  proof (cases "c < 0")
    case True
    then show ?thesis using n k st by (simp add: pixel_read_def)
  next
    case c: False
    then have r1: "reader_ok fd1 lz1" "bits_left fd1 lz1 < bits_left fd lz" "c < 2 ^ nat (code_size lz)"
      using r by (auto simp: code_read_def)
    have "(2::int) ^ nat (code_size lz) \<le> 2 ^ 12" using cs by (intro power_increasing) auto
    then have c4: "c < 4096" using r1(3) by simp
    have d1: "\<not> return_clear lz1" "decoder_ok lz1" "codes_ok lz1" "sp lz1 = 0"
      using ok s assms(2) by (simp_all add: reader_step_def decoder_ok_def codes_ok_def)
    have trans: "pixel_read fd lz v fd2 lz2" if "pixel_read fd1 lz1 v fd2 lz2" for v fd2 lz2
      using that st(2) pixels_left_less [OF r1(2)] d1(4) by (auto simp: pixel_read_def)
    consider (clear) "c = clear_code lz1" | (stop) "c \<noteq> clear_code lz1" "c = end_code lz1"
      | (push) "c \<noteq> clear_code lz1" "c \<noteq> end_code lz1" by blast
    then show ?thesis
    proof cases
      case clear
      have d: "0 \<le> set_code_size lz1" "clear_code lz1 = 2 ^ nat (set_code_size lz1)" "end_code lz1 = clear_code lz1 + 1"
        "clear_code lz1 < 4096" using d1(2) by (simp_all add: decoder_ok_def)
      then have "nextLWZ fuel fd lz = bindR (first_code k fd1 (reset_tables lz1)) (\<lambda>(fd, lz). Ok (firstcode lz, fd, lz))"
        using n k c clear by simp
      moreover have "bits_left fd1 lz1 < k" using r1(2) k by simp
      ultimately show ?thesis using clear_ok [OF st(1) r1(1) d1(1) d] trans by fastforce
    next
      case stop
      obtain m buf fd2 where sk: "skip_blocks fd1 (replicate 260 0) = Ok (m, buf, fd2)" "length (input fd2) \<le> length (input fd1)"
        using skip_blocks_ok [of "replicate 260 0" fd1] by auto
      have "nextLWZ fuel fd lz = (if ZeroDataBlock fd1 then Ok (- 2, fd1, lz1) else Ok (- 2, fd2, lz1))"
        using n k c stop sk(1) by simp
      then show ?thesis using st sk(2) by (simp add: pixel_read_def)
    next
      case push
      obtain v lz2 where p: "push_code lz1 c = Ok (Some v, lz2)" "statics_ok lz2" "reader_ok fd1 lz2" "\<not> return_clear lz2"
        "decoder_ok lz2" "codes_ok lz2" "bits_left fd1 lz2 = bits_left fd1 lz1"
        using push_code_ok [OF st(1) r1(1) d1 _ c4] c by auto
      have "nextLWZ fuel fd lz = Ok (v, fd1, lz2)" using n k c push p(1) by simp
      moreover have "pixels_left fd1 lz2 < pixels_left fd lz"
        using r1(2) p(5,7) by (intro pixels_left_less) (simp_all add: decoder_ok_def)
      ultimately show ?thesis using p st(2) by (simp add: pixel_read_def lzw_ok_def)
    qed
  qed
qed

lemma readLWZ_ok:
  assumes "lzw_ok fd lz" and "Suc (bits_left fd lz) < fuel"
  shows "\<exists>v fd' lz'. readLWZ fuel fd lz = Ok (v, fd', lz') \<and> pixel_read fd lz v fd' lz'"
proof (cases "sp lz > 0")
  case True
  then have d: "\<not> return_clear lz" "decoder_ok lz" "codes_ok lz" "statics_ok lz" "reader_ok fd lz"
    using assms(1) by (auto simp: lzw_ok_def fresh_def)
  then have "readLWZ fuel fd lz = Ok (stack lz ! nat (sp lz - 1), fd, lz\<lparr>sp := sp lz - 1\<rparr>)"
    using True by (simp add: readLWZ_def decoder_ok_def statics_ok_def)
  moreover have "lzw_ok fd (lz\<lparr>sp := sp lz - 1\<rparr>)"
    using d True by (simp add: lzw_ok_def statics_ok_def reader_ok_def decoder_ok_def codes_ok_def)
  moreover have "pixels_left fd (lz\<lparr>sp := sp lz - 1\<rparr>) < pixels_left fd lz"
    using True by (simp add: pixels_left_def bits_left_def)
  ultimately show ?thesis by (simp add: pixel_read_def) (simp add: lzw_ok_def)
next
  case False
  have "0 \<le> sp lz" using assms(1) by (auto simp: lzw_ok_def fresh_def decoder_ok_def)
  then show ?thesis using False nextLWZ_ok [OF assms(1) _ assms(2)] by (simp add: readLWZ_def)
qed

lemma bits_pixels: "pixels_left fd' lz' < pixels_left fd lz \<Longrightarrow> sp lz \<le> 8192 \<Longrightarrow> bits_left fd' lz' \<le> bits_left fd lz"
  by (simp add: pixels_left_def)

lemma lzw_ok_sp: "lzw_ok fd lz \<Longrightarrow> sp lz \<le> 8192"
  by (auto simp: lzw_ok_def fresh_def decoder_ok_def)

lemma drain_pixels_ok:
  assumes "lzw_ok fd lz" and "Suc (bits_left fd lz) < fuel" and "pixels_left fd lz < n"
  shows "\<exists>fd' lz'. drain_pixels n fuel fd lz = Ok (fd', lz') \<and> statics_ok lz' \<and> length (input fd') \<le> length (input fd)"
  using assms
proof (induction n arbitrary: fd lz)
  case (Suc n)
  obtain v fd1 lz1 where r: "readLWZ fuel fd lz = Ok (v, fd1, lz1)" and p: "pixel_read fd lz v fd1 lz1"
    using readLWZ_ok [OF Suc.prems(1,2)] by blast
  show ?case
  proof (cases "v \<ge> 0")
    case True
    then have q: "lzw_ok fd1 lz1" "pixels_left fd1 lz1 < pixels_left fd lz" "length (input fd1) \<le> length (input fd)"
      using p by (simp_all add: pixel_read_def)
    then have "bits_left fd1 lz1 \<le> bits_left fd lz" using bits_pixels lzw_ok_sp [OF Suc.prems(1)] by blast
    then show ?thesis using Suc.IH [OF q(1)] q Suc.prems r True by fastforce
  next
    case False
    then show ?thesis using r p by (simp add: pixel_read_def)
  qed
qed simp

lemma initLWZ_ok:
  assumes "statics_ok lz" and "0 \<le> c" and "c \<le> 29" and "wide_blocks (input fd)"
  shows "\<exists>lz'. initLWZ c lz = Ok lz' \<and> lzw_ok fd lz' \<and> bits_left fd lz' = 8 * length (input fd) + 12 \<and> sp lz' = 0"
  using assms
  by (simp add: initLWZ_def Let_def lzw_ok_def statics_ok_def reader_ok_def fresh_def bits_left_def nat_add_distrib nat_mult_distrib)

lemma lzw_static_ok: "statics_ok lzw_static"
  by (simp add: statics_ok_def lzw_static_def)

section \<open>Properties\<close>

text \<open>C19: The decompressor is memory safe and ends on hostile data: for every initial code size the format
  can announce without overflow and every sequence of sub-blocks without single-byte blocks, however
  malformed the codes in it are (codes beyond the table, circular entries, a missing end code, a
  truncated file), reading pixels until the end never leaves an array and finishes.\<close>

theorem lzw_decoding_safe:
  assumes "statics_ok lz" and "0 \<le> c" and "c \<le> 29" and "wide_blocks (input fd)"
    and "8 * length (input fd) + 13 < fuel" and "(8 * length (input fd) + 12) * 8193 < n"
  shows "\<exists>fd' lz'. bindR (initLWZ c lz) (drain_pixels n fuel fd) = Ok (fd', lz') \<and> statics_ok lz'"
proof -
  obtain lz0 where i: "initLWZ c lz = Ok lz0" "lzw_ok fd lz0" "bits_left fd lz0 = 8 * length (input fd) + 12" "sp lz0 = 0"
    using initLWZ_ok [OF assms(1-4)] by blast
  then show ?thesis using drain_pixels_ok [OF i(2), of fuel n] assms(5,6) by (auto simp: pixels_left_def)
qed

theorem lzw_decoding_safe_witness:
  "\<exists>fd' lz'. bindR (initLWZ 2 lzw_static) (drain_pixels 1000000 1000 \<lparr>input = [2, 255, 255, 3, 1, 2, 3, 0], ZeroDataBlock = False\<rparr>)
    = Ok (fd', lz') \<and> statics_ok lz'"
  by (rule lzw_decoding_safe [OF lzw_static_ok]) simp_all

end
