(* ===== verification/Gif_Bits.thy ===== *)
theory Gif_Bits
  imports Gif_Lzw
begin

text \<open>
  What \<open>nextCode\<close> computes: the codes are consecutive groups of bits, least significant first, of the
  concatenated sub-blocks, wherever the file cuts the blocks; and what happens when the sub-blocks
  are too short for that.
\<close>

section \<open>Specification\<close>

definition byte_bits :: "byte \<Rightarrow> bool list" where
  "byte_bits b = map (bit b) [0..<8]"

definition bits_of :: "byte list \<Rightarrow> bool list" where
  "bits_of bs = concat (map byte_bits bs)"

definition code_of :: "bool list \<Rightarrow> int" where
  "code_of bs = horner_sum of_bool 2 bs"

text \<open>The contents of a sequence of sub-blocks, and that the sequence is complete: all bytes are there,
  it ends with the terminator and no block has a single byte.\<close>

fun block_data :: "byte list \<Rightarrow> byte list" where
  "block_data [] = []"
| "block_data (c # r) = (if c = 0 then [] else take (unat c) r @ block_data (drop (unat c) r))"

fun full_blocks :: "byte list \<Rightarrow> bool" where
  "full_blocks [] \<longleftrightarrow> False"
| "full_blocks (c # r) \<longleftrightarrow> c = 0 \<or> (2 \<le> unat c \<and> unat c \<le> length r \<and> full_blocks (drop (unat c) r))"

text \<open>The bits the reader has not delivered yet.\<close>

definition pending :: "gif_file \<Rightarrow> lzw \<Rightarrow> bool list" where
  "pending fd lz = drop (nat (curbit lz)) (take (nat (lastbit lz)) (bits_of (code_buf lz))) @
     (if get_done lz then [] else bits_of (block_data (input fd)))"

definition stream_ok :: "gif_file \<Rightarrow> lzw \<Rightarrow> bool" where
  "stream_ok fd lz \<longleftrightarrow> \<not> return_clear lz \<and> length (code_buf lz) = 280 \<and> 2 \<le> last_byte lz \<and> last_byte lz \<le> 257 \<and>
     0 \<le> curbit lz \<and> curbit lz \<le> lastbit lz \<and> (lastbit lz = 8 * last_byte lz \<or> lastbit lz = 0) \<and>
     (get_done lz \<longrightarrow> curbit lz = lastbit lz) \<and> (\<not> get_done lz \<longrightarrow> full_blocks (input fd))"

text \<open>Codes of the given sizes read one after the other, and the groups of bits they stand for.\<close>

primrec read_codes :: "int list \<Rightarrow> gif_file \<Rightarrow> lzw \<Rightarrow> (int list \<times> gif_file \<times> lzw) res" where
  "read_codes [] fd lz = Ok ([], fd, lz)"
| "read_codes (cs # css) fd lz =
     bindR (nextCode fd cs lz) (\<lambda>(c, fd, lz). bindR (read_codes css fd lz) (\<lambda>(r, fd, lz). Ok (c # r, fd, lz)))"

primrec bit_groups :: "int list \<Rightarrow> bool list \<Rightarrow> int list" where
  "bit_groups [] bs = []"
| "bit_groups (cs # css) bs = code_of (take (nat cs) bs) # bit_groups css (drop (nat cs) bs)"

section \<open>Lemmas\<close>

lemma length_byte_bits [simp]: "length (byte_bits b) = 8"
  by (simp add: byte_bits_def)

lemma length_bits_of [simp]: "length (bits_of bs) = 8 * length bs"
  by (induction bs) (simp_all add: bits_of_def)

lemma bits_of_simps [simp]: "bits_of [] = []" "bits_of (b # bs) = byte_bits b @ bits_of bs" "bits_of (as @ bs) = bits_of as @ bits_of bs"
  by (simp_all add: bits_of_def)

lemma nth_bits_of: "n < 8 * length bs \<Longrightarrow> bits_of bs ! n = bit (bs ! (n div 8)) (n mod 8)"
proof (induction bs arbitrary: n)
  case (Cons b bs)
  show ?case
  proof (cases "n < 8")
    case True
    then show ?thesis by (simp add: nth_append byte_bits_def)
  next
    case False
    then have "n div 8 = Suc ((n - 8) div 8)" "(n - 8) mod 8 = n mod 8" by (simp_all add: le_div_geq le_mod_geq)
    then show ?thesis using False Cons.IH [of "n - 8"] Cons.prems by (simp add: nth_append)
  qed
qed simp

lemma take_bits_of: "take (8 * n) (bits_of bs) = bits_of (take n bs)"
proof (induction bs arbitrary: n)
  case (Cons b bs)
  then show ?case by (cases n) simp_all
qed simp

lemma drop_bits_of: "drop (8 * n) (bits_of bs) = bits_of (drop n bs)"
proof (induction bs arbitrary: n)
  case (Cons b bs)
  then show ?case by (cases n) simp_all
qed simp

lemma bit_code_of: "bit (code_of bs) n \<longleftrightarrow> n < length bs \<and> bs ! n"
  by (simp add: code_of_def bit_horner_sum_bit_iff)

text \<open>Three bytes side by side.\<close>

lemma bit_three_bytes:
  "bit (uint (b0 :: byte) OR push_bit 8 (uint (b1 :: byte)) OR push_bit 16 (uint (b2 :: byte))) m \<longleftrightarrow>
     (if m < 8 then bit b0 m else if m < 16 then bit b1 (m - 8) else m < 24 \<and> bit b2 (m - 16))"
  by (auto simp: bit_or_iff bit_push_bit_iff bit_uint_iff)

lemma bit_two_bytes:
  "bit (uint (b0 :: byte) OR push_bit 8 (uint (b1 :: byte))) m \<longleftrightarrow>
     (if m < 8 then bit b0 m else m < 16 \<and> bit b1 (m - 8))"
  by (auto simp: bit_or_iff bit_push_bit_iff bit_uint_iff)

lemma extract_code_bits:
  assumes "length (code_buf lz) = 280" and "0 \<le> curbit lz" and "curbit lz + cs \<le> 2064" and "1 \<le> cs" and "cs \<le> 12"
  shows "extract_code cs lz = Ok (code_of (take (nat cs) (drop (nat (curbit lz)) (bits_of (code_buf lz)))))"
proof -
  define c where "c = nat (curbit lz)"
  define k where "k = nat cs"
  have cb: "curbit lz = int c" and k: "cs = int k" "1 \<le> k" "k \<le> 12" "c + k \<le> 2064"
    using assms by (auto simp: c_def k_def)
  let ?i = "c div 8" and ?r = "c mod 8" and ?buf = "code_buf lz"
  define b where "b n = ?buf ! (?i + n)" for n
  have i: "?i + 2 < 280" using k by linarith
  have rd: "rd ?buf (curbit lz div 8) = Ok (b 0)" "rd ?buf (curbit lz div 8 + 1) = Ok (b 1)" "rd ?buf (curbit lz div 8 + 2) = Ok (b 2)"
    using i assms(1) by (simp_all add: cb b_def nat_add_distrib nat_div_distrib)
  have bits: "take k (drop c (bits_of ?buf)) ! n \<longleftrightarrow> bit (b ((?r + n) div 8)) ((?r + n) mod 8)" if "n < k" for n
  proof -
    have "(c + n) div 8 = ?i + (?r + n) div 8" "(c + n) mod 8 = (?r + n) mod 8"
      by (simp_all add: div_add1_eq [of c n] div_add1_eq [of "c mod 8" n] mod_add_left_eq)
    then show ?thesis using that k assms(1) by (simp add: nth_bits_of b_def)
  qed
  have len: "length (take k (drop c (bits_of ?buf))) = k" using k assms(1) by simp
  have val: "drop_bit ?r X AND mask k = code_of (take k (drop c (bits_of ?buf)))"
    if "\<And>m. m < ?r + k \<Longrightarrow> bit X m \<longleftrightarrow> bit (b (m div 8)) (m mod 8)" for X :: int
  proof (rule bit_eqI)
    fix n
    show "bit (drop_bit ?r X AND mask k) n \<longleftrightarrow> bit (code_of (take k (drop c (bits_of ?buf)))) n"
    proof (cases "n < k")
      case True
      then show ?thesis using that [of "?r + n"] bits [OF True] len
        by (simp add: bit_and_iff bit_drop_bit_eq bit_mask_iff bit_code_of)
    next
      case False
      then show ?thesis using len by (simp add: bit_and_iff bit_mask_iff bit_code_of)
    qed
  qed
  have m8: "m div 8 = 0 \<and> m mod 8 = m" if "m < 8" for m :: nat using that by simp
  have m16: "m div 8 = 1 \<and> m mod 8 = m - 8" if "8 \<le> m" "m < 16" for m :: nat using that by (simp add: le_div_geq le_mod_geq)
  have m24: "m div 8 = 2 \<and> m mod 8 = m - 16" if "16 \<le> m" "m < 24" for m :: nat using that by (simp add: le_div_geq le_mod_geq)
  have mk: "rd maskTbl cs = Ok (mask k)" using mask_bound [of cs] k by simp
  have j: "(curbit lz + cs) div 8 = curbit lz div 8 + int ((?r + k) div 8)"
  proof -
    have "(c + k) div 8 = ?i + (?r + k) div 8" by (simp add: div_add1_eq [of c k] div_add1_eq [of "c mod 8" k])
    then have "int ((c + k) div 8) = int (?i + (?r + k) div 8)" by (rule arg_cong)
    then show ?thesis by (simp only: cb k(1) zdiv_int of_nat_add) simp
  qed
  consider (one) "?r + k < 8" | (two) "8 \<le> ?r + k" "?r + k < 16" | (three) "16 \<le> ?r + k" "?r + k < 24" using k by linarith
  then show ?thesis
  proof cases
    case one
    have "drop_bit ?r (uint (b 0)) AND mask k = code_of (take k (drop c (bits_of ?buf)))"
      by (rule val) (use one m8 in \<open>simp add: bit_uint_iff\<close>)
    then show ?thesis using one rd mk j by (simp add: extract_code_def Let_def cb k(1) nat_mod_distrib)
  next
    case two
    have "drop_bit ?r (uint (b 0) OR push_bit 8 (uint (b 1))) AND mask k = code_of (take k (drop c (bits_of ?buf)))"
      by (rule val) (use two m8 m16 in \<open>simp add: bit_two_bytes\<close>)
    then show ?thesis using two rd mk j by (simp add: extract_code_def Let_def cb k(1) nat_mod_distrib le_div_geq)
  next
    case three
    have "drop_bit ?r (uint (b 0) OR push_bit 8 (uint (b 1)) OR push_bit 16 (uint (b 2))) AND mask k = code_of (take k (drop c (bits_of ?buf)))"
      by (rule val) (use three m8 m16 m24 in \<open>simp add: bit_three_bytes\<close>)
    then show ?thesis using three rd mk j by (simp add: extract_code_def Let_def cb k(1) nat_mod_distrib le_div_geq)
  qed
qed

lemma last_two_bytes:
  assumes "2 \<le> n" and "n \<le> length bs" and "q \<le> 16"
  shows "drop (8 * n - q) (bits_of (take n bs)) = drop (16 - q) (bits_of [bs ! (n - 2), bs ! (n - 1)])"
proof -
  have "n = Suc (Suc (n - 2))" using assms(1) by simp
  then have "take n bs = take (n - 2) bs @ [bs ! (n - 2), bs ! (n - 1)]"
    using assms by (metis (no_types, lifting) Suc_diff_1 Suc_lessD append.assoc append_Cons append_Nil diff_Suc_1' less_eq_Suc_le
        numeral_2_eq_2 take_Suc_conv_app_nth zero_less_Suc)
  moreover have "8 * n - q - 8 * (n - 2) = 16 - q" "8 * (n - 2) \<le> 8 * n - q" using assms by simp_all
  ultimately show ?thesis using assms(2) by (simp del: bits_of_simps(2) add: min_def)
qed

text \<open>Delivering a code that is in the buffer.\<close>

lemma extract_pending:
  assumes "length (code_buf lz) = 280" and "0 \<le> curbit lz" and "curbit lz + cs \<le> lastbit lz" and "lastbit lz \<le> 2056"
    and "1 \<le> cs" and "cs \<le> 12"
  shows "extract_code cs lz = Ok (code_of (take (nat cs) (pending fd lz)))"
    and "pending fd (lz\<lparr>curbit := curbit lz + cs\<rparr>) = drop (nat cs) (pending fd lz)"
proof -
  let ?c = "nat (curbit lz)" and ?k = "nat cs" and ?l = "nat (lastbit lz)"
  have n: "?c + ?k \<le> ?l" "nat (curbit lz + cs) = ?c + ?k" using assms by simp_all
  have l: "?l \<le> 2240" using assms(4) by simp
  have "take ?k (drop ?c (take ?l (bits_of (code_buf lz)))) = take ?k (drop ?c (bits_of (code_buf lz)))"
    using n by (simp add: take_drop min_def)
  then show "extract_code cs lz = Ok (code_of (take ?k (pending fd lz)))"
    using extract_code_bits [of lz cs] assms n l by (simp add: pending_def)
  show "pending fd (lz\<lparr>curbit := curbit lz + cs\<rparr>) = drop ?k (pending fd lz)"
    using n l assms(1) by (simp add: pending_def add.commute)
qed

text \<open>A refill moves bits from the file to the buffer and loses none.\<close>

lemma refill_pending:
  assumes "stream_ok fd lz" and "\<not> get_done lz" and "lastbit lz \<le> curbit lz + cs" and "1 \<le> cs" and "cs \<le> 12"
    and "nat cs \<le> length (pending fd lz)"
  shows "\<exists>fd' lz'. refill fd lz = Ok (True, fd', lz') \<and> pending fd' lz' = pending fd lz \<and> \<not> return_clear lz' \<and>
    length (code_buf lz') = 280 \<and> 0 \<le> curbit lz' \<and> curbit lz' + cs \<le> lastbit lz' \<and> lastbit lz' \<le> 2056 \<and>
    2 \<le> last_byte lz' \<and> last_byte lz' \<le> 257 \<and> lastbit lz' = 8 * last_byte lz' \<and>
    (get_done lz' \<longrightarrow> curbit lz' + cs = lastbit lz') \<and> (\<not> get_done lz' \<longrightarrow> full_blocks (input fd'))"
proof -
  define old where "old = code_buf lz"
  define n where "n = nat (last_byte lz)"
  define q where "q = nat (lastbit lz - curbit lz)"
  define x where "x = old ! (n - 2)"
  define y where "y = old ! (n - 1)"
  have len: "length old = 280" and lb: "last_byte lz = int n" "2 \<le> n" "n \<le> 257" and q: "lastbit lz - curbit lz = int q" "q \<le> 12"
    using assms by (auto simp: stream_ok_def old_def n_def q_def)
  have idx: "nat (last_byte lz - 2) = n - 2" "nat (last_byte lz - 1) = n - 1" using lb by simp_all
  have buffered: "drop (nat (curbit lz)) (take (nat (lastbit lz)) (bits_of old)) = drop (16 - q) (bits_of [x, y])"
  proof (cases "lastbit lz = 0")
    case True
    then have "q = 0" using q assms(1) by (simp add: stream_ok_def)
    then show ?thesis using True by simp
  next
    case False
    then have "lastbit lz = 8 * int n" using assms(1) lb by (simp add: stream_ok_def)
    then have "nat (lastbit lz) = 8 * n" "nat (curbit lz) = 8 * n - q" using q by simp_all
    then show ?thesis
      using last_two_bytes [of n old q] lb q len by (simp add: take_bits_of x_def y_def)
  qed
  obtain o1 o2 rest where old: "old = o1 # o2 # rest" and rest: "length rest = 278"
    using len by (cases old; cases "tl old") auto
  have "(old[0 := x]) ! (n - 1) = y" using lb by (simp add: y_def)
  then have b2: "(old[0 := x])[Suc 0 := (old[0 := x]) ! (n - 1)] = x # y # rest" by (simp add: old)
  have pend: "pending fd lz = drop (16 - q) (bits_of [x, y]) @ bits_of (block_data (input fd))"
    using buffered assms(2) by (simp add: pending_def old_def)
  have r: "refill fd lz = bindR (GetDataBlock fd (x # y # rest) 2) (\<lambda>(count, buf, fd).
        let lz = lz\<lparr>code_buf := buf, get_done := (get_done lz \<or> count = 0)\<rparr> in
        if count < 0 then Ok (False, fd, lz)
        else Ok (True, fd, lz\<lparr>last_byte := 2 + count, curbit := (curbit lz - lastbit lz) + 16,
               lastbit := (2 + count) * 8\<rparr>))"
    using lb len assms(2) b2 idx by (simp add: refill_def old_def [symmetric] x_def [symmetric])
  have cb: "curbit lz - lastbit lz + 16 = 16 - int q" "nat (16 - int q) = 16 - q" using q by simp_all
  have rc: "\<not> return_clear lz" using assms(1) by (simp add: stream_ok_def)
  obtain c r' where inp: "input fd = c # r'" and full: "full_blocks (c # r')"
    using assms(1,2) by (cases "input fd") (auto simp: stream_ok_def)
  show ?thesis
  proof (cases "c = 0")
    case True
    then have "cs = int q" using assms(3,6) pend inp q by simp
    then show ?thesis
      using r GetDataBlock_cases(2) [of fd r' "x # y # rest" 2] inp True cb q rc rest pend
      by (simp add: pending_def)
  next
    case False
    define k where "k = unat c"
    have k: "2 \<le> k" "k \<le> length r'" "full_blocks (drop k r')" "k < 256" "uint c = int k"
      using full False unat_byte_less [of c] by (simp_all add: k_def)
    let ?d = "take k r'"
    have w: "wr_block (x # y # rest) 2 ?d = Ok (x # y # ?d @ drop k rest)"
      using k rest by (simp add: wr_block_def numeral_2_eq_2)
    have t: "take (16 + 8 * k) (bits_of (x # y # ?d @ drop k rest)) = bits_of [x, y] @ bits_of ?d"
      using k take_bits_of [of "2 + k" "x # y # ?d @ drop k rest"] by simp
    let ?lz = "lz\<lparr>code_buf := x # y # ?d @ drop k rest, get_done := False, last_byte := 2 + int k,
      curbit := 16 - int q, lastbit := (2 + int k) * 8\<rparr>"
    have "refill fd lz = Ok (True, \<lparr>input = drop k r', ZeroDataBlock = False\<rparr>, ?lz)"
      using r GetDataBlock_cases(3) [OF inp False, of "x # y # rest" 2] w k cb(1) assms(2)
      by (simp add: k_def [symmetric])
    moreover have "pending \<lparr>input = drop k r', ZeroDataBlock = False\<rparr> ?lz = pending fd lz"
      using t pend inp False cb(2) k(1) q(2) by (simp add: pending_def k_def [symmetric] nat_add_distrib nat_mult_distrib)
    ultimately show ?thesis
      using k q(2) rest rc assms(5) by (intro exI conjI) (assumption | simp)+
  qed
qed

lemma nextCode_bits:
  assumes "stream_ok fd lz" and "1 \<le> cs" and "cs \<le> 12" and "nat cs \<le> length (pending fd lz)"
  shows "\<exists>fd' lz'. nextCode fd cs lz = Ok (code_of (take (nat cs) (pending fd lz)), fd', lz') \<and> stream_ok fd' lz' \<and>
    pending fd' lz' = drop (nat cs) (pending fd lz)"
proof (cases "curbit lz + cs < lastbit lz")
  case True
  have s: "length (code_buf lz) = 280" "0 \<le> curbit lz" "lastbit lz \<le> 2056" "\<not> return_clear lz"
    using assms(1) by (auto simp: stream_ok_def)
  note e = extract_pending [OF s(1,2) _ s(3) assms(2,3), of fd]
  have "nextCode fd cs lz = Ok (code_of (take (nat cs) (pending fd lz)), fd, lz\<lparr>curbit := curbit lz + cs\<rparr>)"
    using True s(4) e(1) by (simp add: nextCode_def)
  moreover have "stream_ok fd (lz\<lparr>curbit := curbit lz + cs\<rparr>)"
    using True assms(1,2) by (auto simp: stream_ok_def)
  ultimately show ?thesis using e(2) True by simp
next
  case False
  have "\<not> get_done lz"
  proof
    assume g: "get_done lz"
    then have "curbit lz = lastbit lz" using assms(1) by (simp add: stream_ok_def)
    then have "pending fd lz = []" using g by (simp add: pending_def)
    then show False using assms(2,4) by simp
  qed
  then obtain fd' lz' where r: "refill fd lz = Ok (True, fd', lz')" "pending fd' lz' = pending fd lz" "\<not> return_clear lz'"
    "length (code_buf lz') = 280" "0 \<le> curbit lz'" "curbit lz' + cs \<le> lastbit lz'" "lastbit lz' \<le> 2056"
    "2 \<le> last_byte lz'" "last_byte lz' \<le> 257" "lastbit lz' = 8 * last_byte lz'"
    "get_done lz' \<longrightarrow> curbit lz' + cs = lastbit lz'" "\<not> get_done lz' \<longrightarrow> full_blocks (input fd')"
    using refill_pending [OF assms(1) _ _ assms(2-4)] False by auto
  note e = extract_pending [OF r(4-7) assms(2,3), of fd']
  have "\<not> return_clear lz" using assms(1) by (simp add: stream_ok_def)
  then have "nextCode fd cs lz = Ok (code_of (take (nat cs) (pending fd lz)), fd', lz'\<lparr>curbit := curbit lz' + cs\<rparr>)"
    using False r(1,2) e(1) by (simp add: nextCode_def)
  moreover have "stream_ok fd' (lz'\<lparr>curbit := curbit lz' + cs\<rparr>)"
    using r assms(2) by (simp add: stream_ok_def)
  ultimately show ?thesis using e(2) r(2) by simp
qed

lemma read_codes_bits:
  assumes "stream_ok fd lz" and "\<forall>cs \<in> set css. 1 \<le> cs \<and> cs \<le> 12"
    and "sum_list (map nat css) \<le> length (pending fd lz)"
  shows "\<exists>fd' lz'. read_codes css fd lz = Ok (bit_groups css (pending fd lz), fd', lz')"
  using assms
proof (induction css arbitrary: fd lz)
  case (Cons cs css)
  obtain fd1 lz1 where n: "nextCode fd cs lz = Ok (code_of (take (nat cs) (pending fd lz)), fd1, lz1)" "stream_ok fd1 lz1"
    "pending fd1 lz1 = drop (nat cs) (pending fd lz)"
    using nextCode_bits [OF Cons.prems(1), of cs] Cons.prems(2,3) by auto
  have "sum_list (map nat css) \<le> length (pending fd1 lz1)" using Cons.prems(3) n(3) by simp
  then obtain fd2 lz2 where "read_codes css fd1 lz1 = Ok (bit_groups css (pending fd1 lz1), fd2, lz2)"
    using Cons.IH [OF n(2)] Cons.prems(2) by auto
  then show ?case using n by simp
qed simp

text \<open>An outcome that is a value or an access outside an array.\<close>

definition read_outcome :: "'a res \<Rightarrow> bool" where
  "read_outcome r \<longleftrightarrow> r = Fault Out_of_bounds \<or> (\<exists>v. r = Ok v)"

lemma read_outcome_rules:
  "read_outcome (Ok v)" "read_outcome (rd b i)"
  "read_outcome m \<Longrightarrow> (\<And>x. read_outcome (f x)) \<Longrightarrow> read_outcome (bindR m f)"
  "read_outcome m \<Longrightarrow> read_outcome m' \<Longrightarrow> read_outcome (if c then m else m')"
  by (simp_all add: read_outcome_def rd_def) (metis bindR.simps(1,2))

lemma extract_code_outcome: "read_outcome (extract_code cs lz)"
  unfolding extract_code_def Let_def by (intro read_outcome_rules)

lemma nextCode_short_block:
  assumes "length (code_buf lz) = 280" and "\<not> return_clear lz" and "\<not> get_done lz" and "last_byte lz \<in> {2, 3}"
    and "curbit lz - lastbit lz = 4 * int n" and "input fd = 1 # b # r"
  shows "nextCode fd 12 lz = Fault Out_of_bounds \<or> (\<exists>c fd' lz'. nextCode fd 12 lz = Ok (c, fd', lz') \<and>
    length (code_buf lz') = 280 \<and> \<not> return_clear lz' \<and> \<not> get_done lz' \<and> last_byte lz' \<in> {2, 3} \<and>
    curbit lz' - lastbit lz' = 4 * int (Suc n) \<and> input fd' = r)"
    and "556 \<le> n \<Longrightarrow> nextCode fd 12 lz = Fault Out_of_bounds"
proof -
  obtain x y rest where b: "(code_buf lz)[0 := code_buf lz ! nat (last_byte lz - 2),
      Suc 0 := (code_buf lz)[0 := code_buf lz ! nat (last_byte lz - 2)] ! nat (last_byte lz - 1)] = x # y # rest" "length rest = 278"
    using assms(1) by (cases "code_buf lz"; cases "tl (code_buf lz)") auto
  obtain r0 rest' where r0: "rest = r0 # rest'" using b(2) by (cases rest) auto
  have w: "wr_block (x # y # rest) 2 [b] = Ok (x # y # b # rest')"
    using r0 by (simp add: wr_block_def numeral_2_eq_2)
  let ?lz = "lz\<lparr>code_buf := x # y # b # rest', get_done := False, last_byte := 3, curbit := 4 * int n + 16, lastbit := 24\<rparr>"
  have rf: "refill fd lz = Ok (True, \<lparr>input = r, ZeroDataBlock = False\<rparr>, ?lz)"
    using assms b(1) w GetDataBlock_cases(3) [OF assms(6), of "x # y # rest" 2] by (auto simp: refill_def)
  have n: "nextCode fd 12 lz = bindR (extract_code 12 ?lz) (\<lambda>ret. Ok (ret, \<lparr>input = r, ZeroDataBlock = False\<rparr>, ?lz\<lparr>curbit := curbit ?lz + 12\<rparr>))"
    using assms(2,5) rf by (simp add: nextCode_def)
  have "extract_code 12 ?lz = Fault Out_of_bounds \<or> (\<exists>v. extract_code 12 ?lz = Ok v)"
    using extract_code_outcome by (simp add: read_outcome_def)
  then show "nextCode fd 12 lz = Fault Out_of_bounds \<or> (\<exists>c fd' lz'. nextCode fd 12 lz = Ok (c, fd', lz') \<and>
      length (code_buf lz') = 280 \<and> \<not> return_clear lz' \<and> \<not> get_done lz' \<and> last_byte lz' \<in> {2, 3} \<and>
      curbit lz' - lastbit lz' = 4 * int (Suc n) \<and> input fd' = r)"
    using n b(2) r0 assms(2) by auto
  show "nextCode fd 12 lz = Fault Out_of_bounds" if "556 \<le> n"
  proof -
    have "\<not> (4 * int n + 16) div 8 < 280" using that by linarith
    then have "rd (code_buf ?lz) ((4 * int n + 16) div 8) = Fault Out_of_bounds" using b(2) r0 by (simp add: rd_def)
    then show ?thesis using n by (simp add: extract_code_def Let_def)
  qed
qed

lemma read_codes_short_blocks:
  assumes "length (code_buf lz) = 280" and "\<not> return_clear lz" and "\<not> get_done lz" and "last_byte lz \<in> {2, 3}"
    and "curbit lz - lastbit lz = 4 * int n" and "input fd = concat (replicate k [1, b])" and "n \<le> 556" and "556 < n + k"
  shows "read_codes (replicate k 12) fd lz = Fault Out_of_bounds"
  using assms
proof (induction k arbitrary: n fd lz)
  case (Suc k)
  have inp: "input fd = 1 # b # concat (replicate k [1, b])" using Suc.prems(6) by simp
  note step = nextCode_short_block [OF Suc.prems(1-5) inp]
  show ?case
  proof (cases "n = 556")
    case True
    then show ?thesis using step(2) by simp
  next
    case False
    from step(1) show ?thesis
    proof (elim disjE exE conjE)
      fix c fd' lz' assume "nextCode fd 12 lz = Ok (c, fd', lz')" and s: "length (code_buf lz') = 280" "\<not> return_clear lz'"
        "\<not> get_done lz'" "last_byte lz' \<in> {2, 3}" "curbit lz' - lastbit lz' = 4 * int (Suc n)" "input fd' = concat (replicate k [1, b])"
      moreover have "read_codes (replicate k 12) fd' lz' = Fault Out_of_bounds"
        by (rule Suc.IH [OF s]) (use False Suc.prems in auto)
      ultimately show ?thesis by simp
    qed simp
  qed
qed simp

section \<open>Properties\<close>

text \<open>C29: The bit reader is correct: on a complete sequence of sub-blocks of two or more bytes each, the
  codes that \<open>nextCode\<close> returns for any sequence of code sizes from 1 to 12 are the consecutive groups
  of bits of the concatenated blocks, as long as there are bits, wherever the ends of the blocks lie.\<close>

theorem codes_are_stream_bits:
  assumes "initLWZ c lz = Ok lz0" and "length (code_buf lz) = 280" and "full_blocks (input fd)"
    and "\<forall>cs \<in> set css. 1 \<le> cs \<and> cs \<le> 12" and "sum_list (map nat css) \<le> 8 * length (block_data (input fd))"
  shows "\<exists>fd' lz'. bindR (nextCode fd cs0 lz0) (\<lambda>(_, fd, lz). read_codes css fd lz) =
    Ok (bit_groups css (bits_of (block_data (input fd))), fd', lz')"
proof -
  let ?lz = "lz0\<lparr>return_clear := False\<rparr>"
  have "nextCode fd cs0 lz0 = Ok (clear_code lz0, fd, ?lz)" and ok: "stream_ok fd ?lz"
    and "pending fd ?lz = bits_of (block_data (input fd))"
    using assms(1-3) by (auto simp: initLWZ_def nextCode_def stream_ok_def pending_def Let_def split: if_splits)
  then show ?thesis using read_codes_bits [OF ok assms(4)] assms(5) by auto
qed

theorem codes_are_stream_bits_witness:
  "\<exists>fd' lz'. bindR (nextCode \<lparr>input = [3, 0x21, 0x43, 0x65, 0], ZeroDataBlock = False\<rparr> 12
      (lzw_static\<lparr>set_code_size := 8, code_size := 9, clear_code := 256, end_code := 257, max_code_size := 512,
        max_code := 258, last_byte := 2, return_clear := True\<rparr>)) (\<lambda>(_, fd, lz). read_codes [9, 12] fd lz) =
    Ok ([0x121, 0x2a1], fd', lz')"
proof -
  have i: "initLWZ 8 lzw_static = Ok (lzw_static\<lparr>set_code_size := 8, code_size := 9, clear_code := 256, end_code := 257,
      max_code_size := 512, max_code := 258, last_byte := 2, return_clear := True\<rparr>)"
    by (simp add: initLWZ_def lzw_static_def)
  show ?thesis
    using codes_are_stream_bits [OF i, of "\<lparr>input = [3, 0x21, 0x43, 0x65, 0], ZeroDataBlock = False\<rparr>" "[9, 12]" 12]
    by (simp add: lzw_static_def code_of_def bits_of_def byte_bits_def upt_rec bit_numeral_word_iff)
qed

text \<open>Single-byte sub-blocks break the bit reader: with 12-bit codes every block leaves four bits more
  to fetch than it brought, and no check stops the read position; a file with 557 such blocks makes
  \<open>nextCode\<close> read behind the end of its buffer.\<close>

theorem short_blocks_overread:
  assumes "initLWZ 11 lz = Ok lz0" and "length (code_buf lz) = 280" and "input fd = concat (replicate 557 [1, b])"
  shows "bindR (nextCode fd 12 lz0) (\<lambda>(_, fd, lz). read_codes (replicate 557 12) fd lz) = Fault Out_of_bounds"
proof -
  let ?lz = "lz0\<lparr>return_clear := False\<rparr>"
  have n: "nextCode fd 12 lz0 = Ok (clear_code lz0, fd, ?lz)"
    and s: "length (code_buf ?lz) = 280" "\<not> return_clear ?lz" "\<not> get_done ?lz" "last_byte ?lz \<in> {2, 3}"
      "curbit ?lz - lastbit ?lz = 4 * int 0"
    using assms(1,2) by (auto simp: initLWZ_def nextCode_def Let_def)
  show ?thesis using n read_codes_short_blocks [OF s assms(3)] by simp
qed

theorem short_blocks_overread_witness:
  "bindR (nextCode \<lparr>input = concat (replicate 557 [1, 0]), ZeroDataBlock = False\<rparr> 12
      (lzw_static\<lparr>set_code_size := 11, code_size := 12, clear_code := 2048, end_code := 2049, max_code_size := 4096,
        max_code := 2050, last_byte := 2, return_clear := True\<rparr>)) (\<lambda>(_, fd, lz). read_codes (replicate 557 12) fd lz) =
    Fault Out_of_bounds"
proof -
  have i: "initLWZ 11 lzw_static = Ok (lzw_static\<lparr>set_code_size := 11, code_size := 12, clear_code := 2048, end_code := 2049,
      max_code_size := 4096, max_code := 2050, last_byte := 2, return_clear := True\<rparr>)"
    by (simp add: initLWZ_def lzw_static_def)
  have l: "length (code_buf lzw_static) = 280" by (simp add: lzw_static_def)
  have f: "input \<lparr>input = concat (replicate 557 [1, 0]), ZeroDataBlock = False\<rparr> = concat (replicate 557 [1, 0])" by simp
  show ?thesis by (rule short_blocks_overread [OF i l f])
qed

end
