(* ===== verification/Gif_Interlace.thy ===== *)
theory Gif_Interlace
  imports Prelude
begin

text \<open>
  The row order of interlaced GIF images in \<^verbatim>\<open>test_sources/gif2png/src/gif2png.c\<close>: \<open>interlace_line\<close>
  gives the position at which a row of the image is stored in the file, \<open>inv_interlace_line\<close> the row
  stored at a position. Heights are at most 65535, so that the C \<open>int\<close>s do not overflow and \<open>int\<close>
  models them; \<open>>>\<close> is \<open>drop_bit\<close>, \<open><<\<close> is \<open>push_bit\<close>.
\<close>

definition interlace_line :: "int \<Rightarrow> int \<Rightarrow> int" where
  "interlace_line height line =
     (if line AND 7 = 0 then drop_bit 3 line
      else
        let res = drop_bit 3 (height + 7) in
        if line AND 7 = 4 then res + drop_bit 3 (line - 4)
        else
          let res = res + drop_bit 3 (height + 3) in
          if line AND 3 = 2 then res + drop_bit 2 (line - 2)
          else res + drop_bit 2 (height + 1) + drop_bit 1 (line - 1))"

definition inv_interlace_line :: "int \<Rightarrow> int \<Rightarrow> int" where
  "inv_interlace_line height line =
     (if push_bit 3 line < height then push_bit 3 line
      else
        let line = line - drop_bit 3 (height + 7) in
        if push_bit 3 line + 4 < height then push_bit 3 line + 4
        else
          let line = line - drop_bit 3 (height + 3) in
          if push_bit 2 line + 2 < height then push_bit 2 line + 2
          else
            let line = line - drop_bit 2 (height + 1) in
            push_bit 1 line + 1)"

section \<open>Specification\<close>

text \<open>The four passes of the GIF format: every eighth row from row 0, every eighth from row 4, every
  fourth from row 2 and every second from row 1.\<close>

definition gif_pass :: "int \<Rightarrow> int \<Rightarrow> int \<Rightarrow> int list" where
  "gif_pass height start stride = filter (\<lambda>l. l mod stride = start) [0..height - 1]"

definition gif_row_order :: "int \<Rightarrow> int list" where
  "gif_row_order height = gif_pass height 0 8 @ gif_pass height 4 8 @ gif_pass height 2 4 @ gif_pass height 1 2"

section \<open>Lemmas\<close>

lemma and_mod: "(x::int) AND 7 = x mod 8" "(x::int) AND 3 = x mod 4"
  using take_bit_eq_mask [of 3 x] take_bit_eq_mask [of 2 x]
  by (simp_all add: take_bit_eq_mod mask_eq_exp_minus_1)

lemma interlace_line_arith:
  "interlace_line h l =
     (if l mod 8 = 0 then l div 8
      else if l mod 8 = 4 then (h + 7) div 8 + (l - 4) div 8
      else if l mod 4 = 2 then (h + 7) div 8 + (h + 3) div 8 + (l - 2) div 4
      else (h + 7) div 8 + (h + 3) div 8 + (h + 1) div 4 + (l - 1) div 2)"
  by (simp add: interlace_line_def and_mod drop_bit_eq_div)

lemma inv_interlace_line_arith:
  "inv_interlace_line h l =
     (if l * 8 < h then l * 8
      else if (l - (h + 7) div 8) * 8 + 4 < h then (l - (h + 7) div 8) * 8 + 4
      else if (l - (h + 7) div 8 - (h + 3) div 8) * 4 + 2 < h
      then (l - (h + 7) div 8 - (h + 3) div 8) * 4 + 2
      else (l - (h + 7) div 8 - (h + 3) div 8 - (h + 1) div 4) * 2 + 1)"
  by (simp add: inv_interlace_line_def push_bit_eq_mult drop_bit_eq_div Let_def mult.commute)

text \<open>The numbers of rows in the first three passes, and what they say of the row numbers.\<close>

abbreviation "rows1 h \<equiv> (h + 7) div (8::int)"
abbreviation "rows2 h \<equiv> (h + 3) div (8::int)"
abbreviation "rows3 h \<equiv> (h + 1) div (4::int)"

lemma div_halves: "0 < n \<Longrightarrow> (x + n) div (2 * n) + x div (2 * n) = x div (n::int)"
proof -
  assume n: "0 < n"
  have "(q + 1) div 2 + q div 2 = q" for q :: int by presburger
  from this [of "x div n"] show ?thesis
    using n zdiv_zmult2_eq [of 2 "x + n" n] zdiv_zmult2_eq [of 2 x n] div_add_self2 [of n x]
    by (simp add: mult.commute [of 2])
qed

lemma rows_half: "rows1 h + rows2 h = (h + 3) div 4"
  using div_halves [of 4 "h + 3"] by simp

lemma rows_total: "rows1 h + rows2 h + rows3 h = (h + 1) div 2"
  using div_halves [of 2 "h + 1"] by (simp add: rows_half)

lemma pass_rows:
  "8 * k < h \<longleftrightarrow> k < rows1 h" "8 * k + 4 < h \<longleftrightarrow> k < rows2 h" "4 * k + 2 < h \<longleftrightarrow> k < rows3 h"
  "2 * k + 1 < h \<longleftrightarrow> rows1 h + rows2 h + rows3 h + k < h"
  unfolding rows_total by linarith+

lemma interlace_line_pass:
  "interlace_line h (8 * k) = k"
  "interlace_line h (8 * k + 4) = rows1 h + k"
  "interlace_line h (4 * k + 2) = rows1 h + rows2 h + k"
  "interlace_line h (2 * k + 1) = rows1 h + rows2 h + rows3 h + k"
proof -
  have m: "(4 * k + 2) mod 8 \<noteq> 0" "(4 * k + 2) mod 8 \<noteq> 4" "(4 * k + 2) mod 4 = 2" by presburger+
  have n: "(2 * k + 1) mod 8 \<noteq> 0" "(2 * k + 1) mod 8 \<noteq> 4" "(2 * k + 1) mod 4 \<noteq> 2" by presburger+
  show "interlace_line h (8 * k) = k" "interlace_line h (8 * k + 4) = rows1 h + k"
    by (simp_all add: interlace_line_arith)
  show "interlace_line h (4 * k + 2) = rows1 h + rows2 h + k"
    using m by (simp add: interlace_line_arith)
  show "interlace_line h (2 * k + 1) = rows1 h + rows2 h + rows3 h + k"
    using n by (simp add: interlace_line_arith)
qed

lemma inv_interlace_line_pass:
  assumes "0 \<le> k" and "0 \<le> h"
  shows "k < rows1 h \<Longrightarrow> inv_interlace_line h k = 8 * k"
    "k < rows2 h \<Longrightarrow> inv_interlace_line h (rows1 h + k) = 8 * k + 4"
    "k < rows3 h \<Longrightarrow> inv_interlace_line h (rows1 h + rows2 h + k) = 4 * k + 2"
    "inv_interlace_line h (rows1 h + rows2 h + rows3 h + k) = 2 * k + 1"
proof -
  have 1: "rows1 h \<le> l \<Longrightarrow> \<not> l * 8 < h" for l using pass_rows(1) [of l h] by (simp add: mult.commute)
  have 2: "rows2 h \<le> l \<Longrightarrow> \<not> l * 8 + 4 < h" for l using pass_rows(2) [of l h] by (simp add: mult.commute)
  have 3: "rows3 h \<le> l \<Longrightarrow> \<not> l * 4 + 2 < h" for l using pass_rows(3) [of l h] by (simp add: mult.commute)
  have pos: "0 \<le> rows1 h" "0 \<le> rows2 h" "0 \<le> rows3 h" using assms(2) by simp_all
  show "inv_interlace_line h k = 8 * k" if "k < rows1 h"
    using that pass_rows(1) [of k h] by (simp add: inv_interlace_line_arith mult.commute)
  show "inv_interlace_line h (rows1 h + k) = 8 * k + 4" if "k < rows2 h"
    using that pass_rows(2) [of k h] 1 [of "rows1 h + k"] assms(1)
    by (simp add: inv_interlace_line_arith mult.commute)
  show "inv_interlace_line h (rows1 h + rows2 h + k) = 4 * k + 2" if "k < rows3 h"
    using that pass_rows(3) [of k h] 1 [of "rows1 h + rows2 h + k"] 2 [of "rows2 h + k"] assms(1) pos
    by (simp add: inv_interlace_line_arith mult.commute)
  show "inv_interlace_line h (rows1 h + rows2 h + rows3 h + k) = 2 * k + 1"
    using 1 [of "rows1 h + rows2 h + rows3 h + k"] 2 [of "rows2 h + rows3 h + k"] 3 [of "rows3 h + k"] assms(1) pos
    by (simp add: inv_interlace_line_arith mult.commute add.assoc)
qed

text \<open>Every row is in exactly one pass.\<close>

lemma row_cases:
  assumes "0 \<le> l"
  obtains k where "0 \<le> k" "l = 8 * k" | k where "0 \<le> k" "l = 8 * k + 4"
    | k where "0 \<le> k" "l = 4 * k + 2" | k where "0 \<le> k" "l = 2 * k + (1::int)"
proof -
  have "l mod 8 = 0 \<or> l mod 8 = 4 \<or> l mod 4 = 2 \<or> l mod 2 = 1" by presburger
  then consider "l mod 8 = 0" | "l mod 8 = 4" | "l mod 4 = 2" | "l mod 2 = 1" by blast
  then show ?thesis
  proof cases
    case 1
    then show ?thesis using assms that(1) [of "l div 8"] by fastforce
  next
    case 2
    then have "l = 8 * (l div 8) + 4" using mult_div_mod_eq [of 8 l] by linarith
    then show ?thesis using assms that(2) [of "l div 8"] by linarith
  next
    case 3
    then have "l = 4 * (l div 4) + 2" using mult_div_mod_eq [of 4 l] by linarith
    then show ?thesis using assms that(3) [of "l div 4"] by linarith
  next
    case 4
    then have "l = 2 * (l div 2) + 1" using mult_div_mod_eq [of 2 l] by linarith
    then show ?thesis using assms that(4) [of "l div 2"] by linarith
  qed
qed

lemma inv_interlace_inverse: "0 \<le> l \<Longrightarrow> l < h \<Longrightarrow> inv_interlace_line h (interlace_line h l) = l"
  by (erule row_cases) (simp_all add: interlace_line_pass inv_interlace_line_pass pass_rows)

lemma interlace_range:
  assumes "0 \<le> l" and "l < h"
  shows "0 \<le> interlace_line h l \<and> interlace_line h l < h"
  using assms(1)
proof (cases rule: row_cases)
  case (4 k)
  then show ?thesis using assms pass_rows(4) [of k h] by (simp add: interlace_line_pass)
next
  case (3 k)
  then show ?thesis using assms by (simp add: interlace_line_pass rows_half)
next
  case (2 k)
  then show ?thesis using assms by (simp add: interlace_line_pass)
next
  case (1 k)
  then show ?thesis using assms by (simp add: interlace_line_pass)
qed

text \<open>A pass is an arithmetic progression.\<close>

lemma gif_pass_map:
  assumes "0 \<le> r" and "r < s" and "\<And>k. s * k + r < h \<longleftrightarrow> k < n"
  shows "gif_pass h r s = map (\<lambda>k. s * k + r) [0..n - 1]"
proof (rule sorted_distinct_set_unique)
  have mono: "s * i + r < s * j + r" if "i < j" for i j using that assms by simp
  show "sorted (gif_pass h r s)" "distinct (gif_pass h r s)" by (simp_all add: gif_pass_def sorted_filter [of id, simplified])
  show "sorted (map (\<lambda>k. s * k + r) [0..n - 1])"
    using assms by (intro sorted_map_mono [of "[0..n - 1]" "\<lambda>k. s * k + r"] mono_onI) auto
  show "distinct (map (\<lambda>k. s * k + r) [0..n - 1])" using assms by (auto simp: distinct_map inj_on_def)
  have "l \<in> (\<lambda>k. s * k + r) ` {0..n - 1}" if "0 \<le> l" "l < h" "l mod s = r" for l
  proof (rule image_eqI)
    show l: "l = s * (l div s) + r" using that(3) mult_div_mod_eq [of s l] by simp
    have "l div s < n" using assms(3) [of "l div s"] l that(2) by simp
    then show "l div s \<in> {0..n - 1}" using that(1) assms by (simp add: pos_imp_zdiv_nonneg_iff)
  qed
  moreover have "0 \<le> s * k + r \<and> s * k + r < h \<and> (s * k + r) mod s = r" if "0 \<le> k" "k < n" for k
    using that assms by simp
  ultimately show "set (gif_pass h r s) = set (map (\<lambda>k. s * k + r) [0..n - 1])"
    by (fastforce simp: gif_pass_def)
qed

lemma upto_append: "0 \<le> m \<Longrightarrow> m \<le> n \<Longrightarrow> [0..n - 1] = [0..m - 1] @ [m..n - (1::int)]"
  using upto_split1 [of 0 m "n - 1"] upto_split2 [of 0 "m - 1" "n - 1"]
  by (cases "m = n") auto

lemma upto_append4:
  assumes "0 \<le> a" "0 \<le> b" "0 \<le> c" "a + b + c \<le> (n::int)"
  shows "[0..n - 1] = [0..a - 1] @ [a..a + b - 1] @ [a + b..a + b + c - 1] @ [a + b + c..n - 1]"
  using upto_append [of "a + b + c" n] upto_append [of "a + b" "a + b + c"] upto_append [of a "a + b"] assms
  by (simp only: append_assoc)

lemma map_upto_shift: "map f [m..m + n - 1] = map (\<lambda>k. f (m + k)) [0..n - (1::int)]"
proof -
  have "[m..m + n - 1] = map (\<lambda>k. m + k) [0..n - 1]"
    by (rule sorted_distinct_set_unique) (auto simp: distinct_map image_iff intro!: bexI [of _ "_ - m"] sorted_map_mono mono_onI)
  then show ?thesis by simp
qed

lemma interlace_onto:
  assumes "0 \<le> l" and "l < h"
  obtains l' where "0 \<le> l'" "l' < h" "interlace_line h l' = l"
proof -
  let ?f = "interlace_line h"
  have "inj_on ?f {0..<h}"
    by (rule inj_on_inverseI [of _ "inv_interlace_line h"]) (simp add: inv_interlace_inverse)
  moreover have "?f ` {0..<h} \<subseteq> {0..<h}" using interlace_range by auto
  ultimately have "?f ` {0..<h} = {0..<h}" by (simp add: endo_inj_surj)
  then show ?thesis using assms that by (metis atLeastLessThan_iff imageE)
qed

section \<open>Properties\<close>

text \<open>\<open>interlace_line\<close> and \<open>inv_interlace_line\<close> are inverse permutations of the rows of an image: a row
  goes to a position inside the image, no two rows share one, and the inverse finds the row back.\<close>

theorem interlace_roundtrip:
  assumes "0 \<le> line" and "line < height"
  shows "interlace_line height line \<in> {0..<height} \<and>
    inv_interlace_line height (interlace_line height line) = line \<and>
    interlace_line height (inv_interlace_line height line) = line"
proof -
  obtain l where "0 \<le> l" "l < height" "interlace_line height l = line" using interlace_onto [OF assms] .
  then show ?thesis using assms interlace_range inv_interlace_inverse by auto
qed

theorem interlace_roundtrip_witness:
  "interlace_line 10 4 \<in> {0..<10} \<and> inv_interlace_line 10 (interlace_line 10 4) = 4 \<and>
    interlace_line 10 (inv_interlace_line 10 4) = 4"
  by (rule interlace_roundtrip) simp_all

text \<open>C33: The order that \<open>inv_interlace_line\<close> describes is the one of the GIF format: reading the rows of
  the file from first to last runs through the four passes.\<close>

theorem inv_interlace_line_row_order:
  assumes "0 \<le> height"
  shows "map (inv_interlace_line height) [0..height - 1] = gif_row_order height"
proof -
  let ?f = "inv_interlace_line height"
  let ?a = "rows1 height" and ?b = "rows2 height" and ?c = "rows3 height"
  let ?d = "height - (?a + ?b + ?c)"
  have pos: "0 \<le> ?a" "0 \<le> ?b" "0 \<le> ?c" using assms by simp_all
  have d: "0 \<le> ?d" unfolding rows_total using assms by linarith
  have "[0..height - 1] = [0..?a - 1] @ [?a..?a + ?b - 1] @ [?a + ?b..?a + ?b + ?c - 1] @ [?a + ?b + ?c..height - 1]"
    by (rule upto_append4) (use pos d in linarith)+
  moreover have "map ?f [0..?a - 1] = gif_pass height 0 8"
    using inv_interlace_line_pass(1) [of _ height] assms
    by (simp add: gif_pass_map [of 0 8 height ?a] pass_rows)
  moreover have "map ?f [?a..?a + ?b - 1] = gif_pass height 4 8"
    using inv_interlace_line_pass(2) [of _ height] assms
    by (simp add: gif_pass_map [of 4 8 height ?b] pass_rows map_upto_shift)
  moreover have "map ?f [?a + ?b..?a + ?b + ?c - 1] = gif_pass height 2 4"
    using inv_interlace_line_pass(3) [of _ height] assms
    by (simp add: gif_pass_map [of 2 4 height ?c] pass_rows map_upto_shift)
  moreover have "map ?f [?a + ?b + ?c..height - 1] = gif_pass height 1 2"
  proof -
    have "2 * k + 1 < height \<longleftrightarrow> k < ?d" for k using pass_rows(4) [of k height] by linarith
    then show ?thesis
      using inv_interlace_line_pass(4) [of _ height] assms map_upto_shift [of ?f "?a + ?b + ?c" ?d]
      by (simp add: gif_pass_map [of 1 2 height ?d])
  qed
  ultimately show ?thesis unfolding gif_row_order_def by (simp only: map_append)
qed

theorem inv_interlace_line_row_order_witness:
  "map (inv_interlace_line 10) [0..10 - 1] = gif_row_order 10"
  by (rule inv_interlace_line_row_order) simp

end
