(* ===== verification/Gif_Memory.thy ===== *)
theory Gif_Memory
  imports Prelude
begin

text \<open>
  The element store of gif2png (\<^verbatim>\<open>test_sources/gif2png/src/memory.c\<close> and the data types of
  \<^verbatim>\<open>gif2png.h\<close>). The linked list that starts at the static element \<open>first\<close> is the list
  \<open>elements\<close>, whose head is \<open>first\<close>; \<open>current\<close> is the position of the element \<open>current\<close> points to.
  Memory comes from an allocator that may fail, which ends the program with status 1. The invariant
  \<open>elem_ok\<close> says that the recorded sizes agree with the buffer; the content of an element is the
  part of the buffer that has been stored.
\<close>

section \<open>Data\<close>

text \<open>\<open>png_color\<close>, \<open>GifColor\<close>\<close>

record gif_color =
  red :: byte
  green :: byte
  blue :: byte

record GIFimagestruct =
  colors :: "gif_color list"
  color_count :: "int list"
  offset_x :: int
  offset_y :: int
  width :: int
  height :: int
  trans :: int
  interlace :: bool

record GIFelement =
  GIFtype :: byte
  data :: "byte list option"
  allocated_size :: int
  elem_size :: int
  imagestruct :: "GIFimagestruct option"

record gif_mem =
  elements :: "GIFelement list"
  current :: nat

text \<open>\<open>malloc_ok n\<close> and \<open>realloc_ok n\<close>: the allocator does not return NULL for \<open>n\<close> bytes; \<open>heap_byte\<close> is
  what fresh memory holds.\<close>

record gif_env =
  malloc_ok :: "int \<Rightarrow> bool"
  realloc_ok :: "int \<Rightarrow> bool"
  heap_byte :: "nat \<Rightarrow> byte"

abbreviation "black \<equiv> \<lparr>red = 0, green = 0, blue = 0\<rparr>"

definition zero_image :: GIFimagestruct where
  "zero_image = \<lparr>colors = replicate 256 black, color_count = replicate 256 0, offset_x = 0, offset_y = 0,
     width = 0, height = 0, trans = 0, interlace = False\<rparr>"

definition zero_element :: GIFelement where
  "zero_element = \<lparr>GIFtype = 0, data = None, allocated_size = 0, elem_size = 0, imagestruct = None\<rparr>"

section \<open>Operations\<close>

definition xalloc :: "gif_env \<Rightarrow> int \<Rightarrow> byte list res" where
  "xalloc env s = (if malloc_ok env s then Ok (map (heap_byte env) [0..<nat s]) else Fault (Exited 1))"

definition xrealloc :: "gif_env \<Rightarrow> byte list option \<Rightarrow> int \<Rightarrow> byte list res" where
  "xrealloc env p s =
     (if realloc_ok env s
      then (let old = (case p of None \<Rightarrow> [] | Some b \<Rightarrow> b) in
            Ok (take (nat s) old @ map (heap_byte env) [length old..<nat s]))
      else Fault (Exited 1))"

definition get_current :: "gif_mem \<Rightarrow> GIFelement res" where
  "get_current m = (if current m < length (elements m) then Ok (elements m ! current m) else Fault Dangling_pointer)"

definition set_current :: "GIFelement \<Rightarrow> gif_mem \<Rightarrow> gif_mem" where
  "set_current e m = m\<lparr>elements := (elements m)[current m := e]\<rparr>"

text \<open>\<open>current->next=new\<close> cuts off whatever followed \<open>current\<close>. The struct has 48 bytes.\<close>

definition allocate_element :: "gif_env \<Rightarrow> gif_mem \<Rightarrow> gif_mem res" where
  "allocate_element env m =
     bindR (xalloc env 48) (\<lambda>_.
     bindR (get_current m) (\<lambda>_.
       Ok (m\<lparr>elements := take (Suc (current m)) (elements m) @ [zero_element], current := Suc (current m)\<rparr>)))"

abbreviation "ALLOCSIZE \<equiv> (8192::int)"

definition set_size :: "gif_env \<Rightarrow> int \<Rightarrow> gif_mem \<Rightarrow> gif_mem res" where
  "set_size env sz m =
     bindR (get_current m) (\<lambda>c.
       if allocated_size c = 0 then
         let nalloc = (if sz < ALLOCSIZE then ALLOCSIZE else sz) in
         bindR (xalloc env nalloc) (\<lambda>d.
           Ok (set_current (c\<lparr>data := Some d, allocated_size := nalloc\<rparr>) m))
       else if allocated_size c < sz then
         let nalloc = sz - allocated_size c;
             nalloc = (if nalloc < ALLOCSIZE then ALLOCSIZE else nalloc) in
         bindR (xrealloc env (data c) (allocated_size c + nalloc)) (\<lambda>d.
           Ok (set_current (c\<lparr>data := Some d, allocated_size := allocated_size c + nalloc\<rparr>) m))
       else Ok m)"

text \<open>A negative \<open>size\<close> becomes a huge \<open>size_t\<close> in \<open>memcpy\<close>, which no object can hold.\<close>

definition store_block :: "gif_env \<Rightarrow> byte list \<Rightarrow> int \<Rightarrow> gif_mem \<Rightarrow> gif_mem res" where
  "store_block env block sz m =
     bindR (get_current m) (\<lambda>c.
     bindR (set_size env (elem_size c + sz) m) (\<lambda>m.
     bindR (get_current m) (\<lambda>c.
     bindR (case data c of None \<Rightarrow> Fault Null_pointer | Some d \<Rightarrow> Ok d) (\<lambda>d.
     bindR (rd_block block 0 sz) (\<lambda>bs.
     bindR (wr_block d (elem_size c) bs) (\<lambda>d.
       Ok (set_current (c\<lparr>data := Some d, elem_size := elem_size c + sz\<rparr>) m)))))))"

text \<open>\<open>GIFimage\<close> is the character 44; the image struct has 2840 bytes.\<close>

definition allocate_image :: "gif_env \<Rightarrow> gif_mem \<Rightarrow> gif_mem res" where
  "allocate_image env m =
     bindR (allocate_element env m) (\<lambda>m.
     bindR (get_current m) (\<lambda>c.
     bindR (xalloc env 2840) (\<lambda>_.
       Ok (set_current (c\<lparr>GIFtype := 44, imagestruct := Some zero_image\<rparr>) m))))"

definition fix_current :: "gif_env \<Rightarrow> gif_mem \<Rightarrow> gif_mem res" where
  "fix_current env m =
     bindR (get_current m) (\<lambda>c.
       if allocated_size c \<noteq> elem_size c then
         bindR (xrealloc env (data c) (elem_size c)) (\<lambda>d.
           Ok (set_current (c\<lparr>data := Some d, allocated_size := elem_size c\<rparr>) m))
       else Ok m)"

text \<open>Everything behind \<open>first\<close> is freed; a \<open>current\<close> that pointed there is left dangling.\<close>

definition free_mem :: "gif_mem \<Rightarrow> gif_mem" where
  "free_mem m = m\<lparr>elements := take 1 (elements m)\<rparr>"

section \<open>Specification\<close>

definition buffer :: "GIFelement \<Rightarrow> byte list" where
  "buffer e = (case data e of None \<Rightarrow> [] | Some d \<Rightarrow> d)"

definition elem_ok :: "GIFelement \<Rightarrow> bool" where
  "elem_ok e \<longleftrightarrow> 0 \<le> elem_size e \<and> elem_size e \<le> allocated_size e \<and> int (length (buffer e)) = allocated_size e"

definition content :: "GIFelement \<Rightarrow> byte list" where
  "content e = take (nat (elem_size e)) (buffer e)"

definition mem_ok :: "gif_mem \<Rightarrow> bool" where
  "mem_ok m \<longleftrightarrow> current m < length (elements m) \<and> (\<forall>e \<in> set (elements m). elem_ok e)"

text \<open>The outcomes of code that uses memory correctly: a result, or the exit of \<open>xalloc\<close>.\<close>

definition mem_safe :: "'a res \<Rightarrow> ('a \<Rightarrow> bool) \<Rightarrow> bool" where
  "mem_safe r P \<longleftrightarrow> (\<exists>x. r = Ok x \<and> P x) \<or> r = Fault (Exited 1)"

text \<open>\<open>m'\<close> is \<open>m\<close> with the current element replaced by one with this content; nothing else of the
  element changes but its buffer.\<close>

definition stored :: "gif_mem \<Rightarrow> byte list \<Rightarrow> gif_mem \<Rightarrow> bool" where
  "stored m bs m' \<longleftrightarrow> mem_ok m' \<and> (\<exists>e. m' = set_current e m \<and> content e = content (elements m ! current m) @ bs \<and>
     elem_size e = elem_size (elements m ! current m) + int (length bs) \<and>
     GIFtype e = GIFtype (elements m ! current m) \<and> imagestruct e = imagestruct (elements m ! current m))"

text \<open>\<open>m'\<close> is \<open>m\<close> with an element behind the current one that holds just these bytes.\<close>

definition new_element :: "gif_mem \<Rightarrow> byte list \<Rightarrow> gif_mem \<Rightarrow> bool" where
  "new_element m bs m' \<longleftrightarrow> mem_ok m' \<and> (\<exists>e. elements m' = take (Suc (current m)) (elements m) @ [e] \<and>
     current m' = Suc (current m) \<and> buffer e = bs \<and> elem_size e = int (length bs) \<and> allocated_size e = elem_size e)"

section \<open>Lemmas\<close>

lemma mem_safeI: "r = Ok x \<Longrightarrow> P x \<Longrightarrow> mem_safe r P"
  by (simp add: mem_safe_def)

lemma mem_safe_bind: "mem_safe r P \<Longrightarrow> (\<And>x. P x \<Longrightarrow> mem_safe (f x) Q) \<Longrightarrow> mem_safe (bindR r f) Q"
  unfolding mem_safe_def by (elim disjE exE) simp_all

lemma mem_safe_bind_eq:
  "mem_safe r P \<Longrightarrow> (\<And>x. r = Ok x \<Longrightarrow> P x \<Longrightarrow> mem_safe (f x) Q) \<Longrightarrow> mem_safe (bindR r f) Q"
  unfolding mem_safe_def by (elim disjE exE) simp_all

lemma mem_safe_mono: "mem_safe r P \<Longrightarrow> (\<And>x. P x \<Longrightarrow> Q x) \<Longrightarrow> mem_safe r Q"
  by (auto simp: mem_safe_def)

lemma current_set_current [simp]: "current (set_current e m) = current m"
  "length (elements (set_current e m)) = length (elements m)"
  by (simp_all add: set_current_def)

lemma set_current_twice [simp]: "set_current e (set_current e' m) = set_current e m"
  by (simp add: set_current_def)

lemma set_current_same: "current m < length (elements m) \<Longrightarrow> set_current (elements m ! current m) m = m"
  by (simp add: set_current_def)

lemma nth_set_current [simp]: "current m < length (elements m) \<Longrightarrow> elements (set_current e m) ! current m = e"
  by (simp add: set_current_def)

lemma get_current_ok: "mem_ok m \<Longrightarrow> get_current m = Ok (elements m ! current m)"
  by (simp add: mem_ok_def get_current_def)

lemma get_set_current [simp]: "mem_ok m \<Longrightarrow> get_current (set_current e m) = Ok e"
  by (simp add: mem_ok_def get_current_def)

lemma elem_ok_current: "mem_ok m \<Longrightarrow> elem_ok (elements m ! current m)"
  by (simp add: mem_ok_def)

lemma mem_ok_set_current: "mem_ok m \<Longrightarrow> elem_ok e \<Longrightarrow> mem_ok (set_current e m)"
  unfolding mem_ok_def by (auto simp: set_current_def dest!: set_update_subset_insert [THEN subsetD])

text \<open>After \<open>set_size\<close> the buffer has room for the requested size and its content is the same.\<close>

definition room :: "int \<Rightarrow> GIFelement \<Rightarrow> GIFelement \<Rightarrow> bool" where
  "room sz c e \<longleftrightarrow> elem_ok e \<and> sz \<le> allocated_size e \<and> content e = content c \<and> elem_size e = elem_size c \<and>
     GIFtype e = GIFtype c \<and> imagestruct e = imagestruct c \<and> data e \<noteq> None"

lemma set_size_room:
  assumes "mem_ok m"
  shows "mem_safe (set_size env sz m) (\<lambda>m'. \<exists>e. m' = set_current e m \<and> room sz (elements m ! current m) e)"
proof -
  define c where "c = elements m ! current m"
  have c: "elem_ok c" "get_current m = Ok c" using assms by (simp_all add: c_def elem_ok_current get_current_ok)
  consider (new) "allocated_size c = 0" | (grow) "allocated_size c \<noteq> 0" "allocated_size c < sz"
    | (keep) "allocated_size c \<noteq> 0" "sz \<le> allocated_size c" by linarith
  then show ?thesis
  proof cases
    case new
    then have "elem_size c = 0" using c(1) by (simp add: elem_ok_def)
    then show ?thesis
      using new c by (auto simp: set_size_def xalloc_def mem_safe_def Let_def room_def elem_ok_def content_def buffer_def c_def)
  next
    case grow
    let ?n = "allocated_size c + (if sz - allocated_size c < ALLOCSIZE then ALLOCSIZE else sz - allocated_size c)"
    let ?d = "take (nat ?n) (buffer c) @ map (heap_byte env) [length (buffer c)..<nat ?n]"
    have "room sz c (c\<lparr>data := Some ?d, allocated_size := ?n\<rparr>)"
      using grow c(1) by (auto simp: room_def elem_ok_def content_def buffer_def)
    moreover have "set_size env sz m =
        (if realloc_ok env ?n then Ok (set_current (c\<lparr>data := Some ?d, allocated_size := ?n\<rparr>) m) else Fault (Exited 1))"
      using grow c(2) by (simp add: set_size_def xrealloc_def buffer_def Let_def)
    ultimately show ?thesis by (auto simp: mem_safe_def c_def)
  next
    case keep
    then have "data c \<noteq> None" using c(1) by (auto simp: elem_ok_def buffer_def split: option.splits)
    then have "room sz c c" using keep c(1) by (simp add: room_def)
    moreover have "set_current c m = m" using assms by (simp add: c_def mem_ok_def set_current_same)
    ultimately show ?thesis using keep c(2) by (auto simp: set_size_def mem_safe_def c_def intro!: exI [of _ c])
  qed
qed

lemma content_length: "elem_ok e \<Longrightarrow> length (content e) = nat (elem_size e)"
  by (auto simp: elem_ok_def content_def)

text \<open>A block of the announced size is appended to the content.\<close>

lemma store_block_stored:
  assumes "mem_ok m" and "int (length bs) = sz"
  shows "mem_safe (store_block env (bs @ t) sz m) (stored m bs)"
proof -
  define c where "c = elements m ! current m"
  have c: "get_current m = Ok c" "elem_ok c" using assms(1) by (simp_all add: c_def get_current_ok elem_ok_current)
  have bs: "rd_block (bs @ t) 0 sz = Ok bs" using assms(2) by (auto simp: rd_block_def)
  show ?thesis
    unfolding store_block_def c bindR.simps
  proof (rule mem_safe_bind [OF set_size_room [OF assms(1)]], elim exE conjE)
    fix m1 e assume m1: "m1 = set_current e m" and "room (elem_size c + sz) (elements m ! current m) e"
    then have r: "room (elem_size c + sz) c e" by (simp add: c_def)
    then obtain d where d: "data e = Some d" by (auto simp: room_def)
    have len: "0 \<le> elem_size e" "elem_size e + sz \<le> int (length d)"
      using r d by (auto simp: room_def elem_ok_def buffer_def)
    let ?d = "take (nat (elem_size e)) d @ bs @ drop (nat (elem_size e) + length bs) d"
    let ?e = "e\<lparr>data := Some ?d, elem_size := elem_size e + sz\<rparr>"
    have w: "wr_block d (elem_size e) bs = Ok ?d" using len assms(2) by (simp add: wr_block_def)
    have "content ?e = content e @ bs"
      using len assms(2) d by (auto simp: content_def buffer_def nat_add_distrib)
    moreover have "elem_ok ?e"
      using r len assms(2) d by (auto simp: room_def elem_ok_def buffer_def)
    ultimately have "stored m bs (set_current ?e m)"
      using r assms(1,2) by (auto simp: stored_def room_def c_def intro!: exI [of _ ?e] mem_ok_set_current)
    then show "mem_safe (bindR (get_current m1) (\<lambda>c. bindR (case data c of None \<Rightarrow> Fault Null_pointer | Some d \<Rightarrow> Ok d)
        (\<lambda>d. bindR (rd_block (bs @ t) 0 sz) (\<lambda>bs. bindR (wr_block d (elem_size c) bs)
        (\<lambda>d. Ok (set_current (c\<lparr>data := Some d, elem_size := elem_size c + sz\<rparr>) m1)))))) (stored m bs)"
      using assms(1) m1 d bs w by (simp add: mem_safe_def)
  qed
qed

lemma stored_trans: "current m < length (elements m) \<Longrightarrow> stored m as m' \<Longrightarrow> stored m' bs m'' \<Longrightarrow> stored m (as @ bs) m''"
  by (auto simp: stored_def)

lemma stored_refl: "mem_ok m \<Longrightarrow> stored m [] m"
  by (auto simp: stored_def mem_ok_def set_current_same intro!: exI [of _ "elements m ! current m"])

text \<open>Any sequence of blocks is stored as their concatenation.\<close>

lemma store_blocks_stored:
  assumes "mem_ok m"
  shows "mem_safe (foldR (\<lambda>bs. store_block env bs (int (length bs))) bss m) (stored m (concat bss))"
  using assms
proof (induction bss arbitrary: m)
  case Nil
  then show ?case by (simp add: mem_safe_def stored_refl)
next
  case (Cons bs bss)
  have b: "mem_safe (store_block env bs (int (length bs)) m) (stored m bs)"
    using store_block_stored [of m bs _ env "[]"] Cons.prems by auto
  show ?case
    unfolding foldR.simps concat.simps
  proof (rule mem_safe_bind [OF b])
    fix m1 assume s: "stored m bs m1"
    then have "mem_ok m1" by (simp add: stored_def)
    then show "mem_safe (foldR (\<lambda>bs. store_block env bs (int (length bs))) bss m1) (stored m (bs @ concat bss))"
      using Cons.IH [of m1] Cons.prems s stored_trans by (auto simp: mem_ok_def elim!: mem_safe_mono)
  qed
qed

text \<open>\<open>fix_current\<close> trims the buffer to the content.\<close>

lemma fix_current_trims:
  assumes "mem_ok m" and "c = elements m ! current m"
  shows "mem_safe (fix_current env m) (\<lambda>m'. mem_ok m' \<and> (\<exists>e. m' = set_current e m \<and> content e = content c \<and>
    buffer e = content c \<and> elem_size e = elem_size c \<and> allocated_size e = elem_size c \<and>
    GIFtype e = GIFtype c \<and> imagestruct e = imagestruct c))"
proof -
  have c: "get_current m = Ok c" "elem_ok c" using assms by (simp_all add: get_current_ok elem_ok_current)
  show ?thesis
  proof (cases "allocated_size c = elem_size c")
    case True
    then have "int (length (buffer c)) = elem_size c" using c(2) by (simp add: elem_ok_def)
    then have "take (nat (elem_size c)) (buffer c) = buffer c" by (metis nat_int order_refl take_all)
    then have "set_current c m = m" "buffer c = content c"
      using assms by (simp_all add: mem_ok_def set_current_same content_def)
    then show ?thesis using True assms(1) c by (auto simp: mem_safe_def fix_current_def intro!: exI [of _ c])
  next
    case False
    let ?d = "content c"
    let ?e = "c\<lparr>data := Some ?d, allocated_size := elem_size c\<rparr>"
    have "elem_ok ?e" "content ?e = content c" "buffer ?e = content c"
      using c(2) by (auto simp: elem_ok_def content_def buffer_def)
    moreover have "xrealloc env (data c) (elem_size c) = (if realloc_ok env (elem_size c) then Ok ?d else Fault (Exited 1))"
      using c(2) by (auto simp: xrealloc_def content_def buffer_def elem_ok_def Let_def)
    ultimately show ?thesis
      using False c(1) mem_ok_set_current [OF assms(1)] by (auto simp: mem_safe_def fix_current_def intro!: exI [of _ ?e])
  qed
qed

lemma allocate_element_new:
  assumes "mem_ok m"
  shows "mem_safe (allocate_element env m) (\<lambda>m'. mem_ok m' \<and>
    m' = m\<lparr>elements := take (Suc (current m)) (elements m) @ [zero_element], current := Suc (current m)\<rparr> \<and>
    elements m' ! current m' = zero_element)"
proof -
  have "elem_ok zero_element" by (simp add: elem_ok_def zero_element_def buffer_def)
  then show ?thesis
    using assms by (auto simp: allocate_element_def xalloc_def mem_safe_def get_current_ok mem_ok_def nth_append
        dest: in_set_takeD)
qed

lemma allocate_image_new:
  assumes "mem_ok m"
  shows "mem_safe (allocate_image env m) (\<lambda>m'. mem_ok m' \<and>
    m' = m\<lparr>elements := take (Suc (current m)) (elements m) @
      [zero_element\<lparr>GIFtype := 44, imagestruct := Some zero_image\<rparr>], current := Suc (current m)\<rparr> \<and>
    elements m' ! current m' = zero_element\<lparr>GIFtype := 44, imagestruct := Some zero_image\<rparr>)"
proof -
  have "elem_ok (zero_element\<lparr>GIFtype := 44, imagestruct := Some zero_image\<rparr>)"
    by (simp add: elem_ok_def zero_element_def buffer_def)
  then show ?thesis
    using assms by (auto simp: allocate_image_def allocate_element_def xalloc_def mem_safe_def get_current_ok
        get_current_def mem_ok_def nth_append set_current_def list_update_append min_def dest: in_set_takeD)
qed

section \<open>Properties\<close>

text \<open>The element store is memory safe and loses nothing: creating an element, storing any sequence
  of blocks in it and trimming it either ends the program for lack of memory or yields, behind the
  elements up to the current one, an element whose buffer is exactly the concatenation of the blocks,
  with the sizes to match. No write leaves the buffer, whatever the sizes of the blocks.\<close>

theorem element_holds_blocks:
  assumes "mem_ok m"
  shows "mem_safe
    (bindR (allocate_element env m) (\<lambda>m.
     bindR (foldR (\<lambda>bs. store_block env bs (int (length bs))) bss m) (fix_current env)))
    (new_element m (concat bss))"
proof (rule mem_safe_bind [OF allocate_element_new [OF assms]], elim conjE)
  fix m1
  assume m1: "mem_ok m1" "m1 = m\<lparr>elements := take (Suc (current m)) (elements m) @ [zero_element], current := Suc (current m)\<rparr>"
    "elements m1 ! current m1 = zero_element"
  show "mem_safe (bindR (foldR (\<lambda>bs. store_block env bs (int (length bs))) bss m1) (fix_current env))
    (new_element m (concat bss))"
  proof (rule mem_safe_bind [OF store_blocks_stored [OF m1(1)]])
    fix m2 assume "stored m1 (concat bss) m2"
    then obtain e where e: "mem_ok m2" "m2 = set_current e m1" "content e = concat bss" "elem_size e = int (length (concat bss))"
      using m1(3) by (auto simp: stored_def content_def zero_element_def)
    have "e = elements m2 ! current m2" using e(2) m1(1) by (simp add: mem_ok_def)
    note t = fix_current_trims [OF e(1) this]
    show "mem_safe (fix_current env m2)
      (new_element m (concat bss))"
    proof (rule mem_safe_mono [OF t], elim conjE exE)
      fix m' e' assume a: "mem_ok m'" "m' = set_current e' m2" "buffer e' = content e" "elem_size e' = elem_size e"
        "allocated_size e' = elem_size e"
      then have "m' = set_current e' m1" using e(2) by simp
      then have "elements m' = take (Suc (current m)) (elements m) @ [e']" "current m' = Suc (current m)"
        using m1(2) assms by (simp_all add: set_current_def mem_ok_def list_update_append)
      then show "new_element m (concat bss) m'"
        using a e(3,4) by (simp add: new_element_def)
    qed
  qed
qed

definition sample_gif_env :: gif_env where
  "sample_gif_env = \<lparr>malloc_ok = (\<lambda>_. True), realloc_ok = (\<lambda>n. 0 < n), heap_byte = (\<lambda>_. 90)\<rparr>"

definition mem_start :: gif_mem where
  "mem_start = \<lparr>elements = [zero_element], current = 0\<rparr>"

theorem element_holds_blocks_witness:
  "mem_safe
    (bindR (allocate_element sample_gif_env mem_start) (\<lambda>m.
     bindR (foldR (\<lambda>bs. store_block sample_gif_env bs (int (length bs))) [[1, 2], [3]] m) (fix_current sample_gif_env)))
    (new_element mem_start (concat [[1, 2], [3]]))"
  by (rule element_holds_blocks) (simp add: mem_ok_def mem_start_def elem_ok_def zero_element_def buffer_def)

end
