(* ===== verification/Gif_Read.thy ===== *)
theory Gif_Read
  imports Gif_Interlace Gif_Memory Gif_Lzw
begin

text \<open>
  The GIF reader of \<^verbatim>\<open>test_sources/gif2png/src/gifread.c\<close>: colour maps, extensions, images and the
  block loop \<open>ReadGIF\<close>, with the conversion table of \<^verbatim>\<open>437_l1.c\<close>. The global variables are the
  record \<open>gif_state\<close>; messages on \<open>stderr\<close> are left out. The loops over pixels, rows, sub-blocks and
  blocks follow the source; those that wait for LZW data take the fuel of \<open>Gif_Lzw\<close>, which
  \<open>ReadGIF\<close> derives from the size of the file.
\<close>

section \<open>State\<close>

record gif_scr =
  Width :: int
  Height :: int
  ColorMap :: "gif_color list"
  ColorMap_present :: bool
  BitPixel :: int
  ColorResolution :: int
  Background :: int
  AspectRatio :: int

record gif89 =
  transparent :: int
  delayTime :: int
  inputFlag :: int
  disposal :: int

record gif_state =
  mem :: gif_mem
  infile :: gif_file
  lz :: lzw
  GifScreen :: gif_scr
  Gif89 :: gif89
  imagecount :: int
  recover_message :: bool
  recover :: bool
  ext_buf :: "byte list" \<comment> \<open>the static \<open>buf\<close> of \<open>DoExtension\<close>\<close>

definition gif89_reset :: gif89 where
  "gif89_reset = \<lparr>transparent = - 1, delayTime = - 1, inputFlag = - 1, disposal = 0\<rparr>"

definition LM_to_uint :: "byte \<Rightarrow> byte \<Rightarrow> int" where
  "LM_to_uint a b = push_bit 8 (uint b) OR uint a"

definition BitSet :: "byte \<Rightarrow> byte \<Rightarrow> bool" where
  "BitSet b k \<longleftrightarrow> b AND k = k"

definition check_recover :: "bool \<Rightarrow> gif_state \<Rightarrow> int \<times> gif_state" where
  "check_recover some_data st =
     (if recover st then (imagecount st, st)
      else if \<not> recover_message st \<and> (imagecount st > 0 \<or> some_data)
      then (- 1, st\<lparr>recover_message := True\<rparr>)
      else (- 1, st))"

section \<open>Colour maps\<close>

text \<open>The results are whether reading failed, the rest of the file and the map.\<close>

primrec read_colors :: "nat \<Rightarrow> int \<Rightarrow> gif_file \<Rightarrow> gif_color list \<Rightarrow> (bool \<times> gif_file \<times> gif_color list) res" where
  "read_colors 0 i fd cmap = Ok (False, fd, cmap)"
| "read_colors (Suc n) i fd cmap =
     (let (ok, rgb, fd) = ReadOK 3 fd in
      if \<not> ok then Ok (True, fd, cmap)
      else bindR (wr cmap i \<lparr>red = rgb ! 0, green = rgb ! 1, blue = rgb ! 2\<rparr>) (\<lambda>cmap.
        read_colors n (i + 1) fd cmap))"

definition ReadColorMap :: "gif_file \<Rightarrow> int \<Rightarrow> gif_color list \<Rightarrow> (bool \<times> gif_file \<times> gif_color list) res" where
  "ReadColorMap fd number cmap =
     bindR (read_colors (nat number) 0 fd cmap) (\<lambda>(failed, fd, cmap).
       if failed then Ok (True, fd, cmap)
       else bindR (wr_block cmap number (replicate (nat (256 - number)) black)) (\<lambda>cmap. Ok (False, fd, cmap)))"

text \<open>The map used when there is no global one.\<close>

definition default_color :: "nat \<Rightarrow> gif_color" where
  "default_color i =
     (let c = [0, 7, 1, 2, 4, 3, 5, 6] ! (i mod 8);
          v = (if i < 248 then word_of_nat (255 - i) AND 0xf8 else 4 :: byte)
      in \<lparr>red = if bit (c :: nat) 0 then v else 0, green = if bit c 1 then v else 0, blue = if bit c 2 then v else 0\<rparr>)"

section \<open>Extensions\<close>

definition c_437_l1 :: "int list" where
  "c_437_l1 = [
     0, 1, 2, 3, 4, 5, 6, 7, 8, 9, 10, 11, 12, 13, 14, 15,
     16, 17, 18, 19, 182, 167, 22, 23, 24, 25, 26, 27, 28, 29, 30, 31,
     32, 33, 34, 35, 36, 37, 38, 39, 40, 41, 42, 43, 44, 45, 46, 47,
     48, 49, 50, 51, 52, 53, 54, 55, 56, 57, 58, 59, 60, 61, 62, 63,
     64, 65, 66, 67, 68, 69, 70, 71, 72, 73, 74, 75, 76, 77, 78, 79,
     80, 81, 82, 83, 84, 85, 86, 87, 88, 89, 90, 91, 92, 93, 94, 95,
     96, 97, 98, 99, 100, 101, 102, 103, 104, 105, 106, 107, 108, 109, 110, 111,
     112, 113, 114, 115, 116, 117, 118, 119, 120, 121, 122, 123, 124, 125, 126, 127,
     199, 252, 233, 226, 228, 224, 229, 231, 234, 235, 232, 239, 238, 236, 196, 197,
     201, 230, 198, 244, 246, 242, 251, 249, 255, 214, 220, 162, 163, 165, 32, 32,
     225, 237, 243, 250, 241, 209, 170, 186, 191, 32, 172, 189, 188, 161, 171, 187,
     42, 37, 35, 124, 43, 43, 43, 43, 43, 43, 43, 124, 43, 43, 43, 43,
     43, 43, 43, 43, 45, 43, 43, 43, 43, 43, 43, 43, 43, 61, 43, 43,
     43, 43, 43, 43, 43, 43, 43, 43, 43, 43, 43, 32, 32, 32, 32, 32,
     32, 223, 32, 32, 32, 32, 181, 32, 32, 32, 32, 32, 32, 32, 32, 32,
     32, 177, 32, 32, 32, 32, 247, 32, 176, 32, 183, 32, 32, 178, 32, 160]"

text \<open>\<open>while(p-buf<size)\<close>: the line ends and characters of one sub-block are converted in place; \<open>p2\<close>
  is where the next byte goes. The results are \<open>p2\<close>, \<open>last_cr\<close> and the buffer.\<close>

primrec convert_block :: "nat \<Rightarrow> int \<Rightarrow> int \<Rightarrow> bool \<Rightarrow> byte list \<Rightarrow> (int \<times> bool \<times> byte list) res" where
  "convert_block 0 p p2 last_cr buf = Ok (p2, last_cr, buf)"
| "convert_block (Suc n) p p2 last_cr buf =
     bindR (if last_cr
         then bindR (rd buf p) (\<lambda>c. if c \<noteq> 10 then bindR (wr buf p2 10) (\<lambda>buf. Ok (p2 + 1, buf)) else Ok (p2, buf))
         else Ok (p2, buf)) (\<lambda>(p2, buf).
     bindR (rd buf p) (\<lambda>c.
       if c = 13 then convert_block n (p + 1) p2 True buf
       else bindR (rd c_437_l1 (uint c)) (\<lambda>d.
            bindR (wr buf p2 (word_of_int d)) (\<lambda>buf. convert_block n (p + 1) (p2 + 1) False buf))))"

text \<open>The loop over the sub-blocks of a comment.\<close>

function comment_blocks ::
  "gif_env \<Rightarrow> bool \<Rightarrow> gif_file \<Rightarrow> byte list \<Rightarrow> gif_mem \<Rightarrow> (gif_file \<times> byte list \<times> gif_mem) res" where
  "comment_blocks env last_cr fd buf m =
     bindR (GetDataBlock fd buf 0) (\<lambda>(sz, buf, fd).
       if sz > 0 then
         bindR (rd buf 0) (\<lambda>c.
         bindR (if last_cr \<and> c \<noteq> 10 then bindR (store_block env [10, 0] 1 m) (\<lambda>m. Ok (False, m)) else Ok (last_cr, m))
           (\<lambda>(last_cr, m).
         bindR (convert_block (nat sz) 0 0 last_cr buf) (\<lambda>(p2, last_cr, buf).
         bindR (store_block env buf p2 m) (\<lambda>m. comment_blocks env last_cr fd buf m))))
       else Ok (fd, buf, m))"
  by pat_completeness auto
termination
  by (relation "measure (\<lambda>(env, last_cr, fd, buf, m). length (input fd))") (auto dest: GetDataBlock_shorter)

declare comment_blocks.simps [simp del]

text \<open>\<open>while ((size=GetDataBlock(fd, buf)) > 0) store_block(buf, size);\<close>\<close>

function copy_blocks ::
  "gif_env \<Rightarrow> gif_file \<Rightarrow> byte list \<Rightarrow> gif_mem \<Rightarrow> (gif_file \<times> byte list \<times> gif_mem) res" where
  "copy_blocks env fd buf m =
     bindR (GetDataBlock fd buf 0) (\<lambda>(sz, buf, fd).
       if sz > 0 then bindR (store_block env buf sz m) (\<lambda>m. copy_blocks env fd buf m)
       else Ok (fd, buf, m))"
  by pat_completeness auto
termination
  by (relation "measure (\<lambda>(env, fd, buf, m). length (input fd))") (auto dest: GetDataBlock_shorter)

declare copy_blocks.simps [simp del]

definition set_type :: "byte \<Rightarrow> gif_mem \<Rightarrow> gif_mem res" where
  "set_type t m = bindR (get_current m) (\<lambda>c. Ok (set_current (c\<lparr>GIFtype := t\<rparr>) m))"

text \<open>The end of the two branches that keep an extension.\<close>

definition finish_extension :: "gif_env \<Rightarrow> byte \<Rightarrow> gif_state \<Rightarrow> (int \<times> gif_state) res" where
  "finish_extension env label st =
     bindR (set_type label (mem st)) (\<lambda>m. bindR (fix_current env m) (\<lambda>m. Ok (0, st\<lparr>mem := m\<rparr>)))"

definition skip_extension :: "int \<Rightarrow> gif_state \<Rightarrow> (int \<times> gif_state) res" where
  "skip_extension result st =
     bindR (skip_blocks (infile st) (ext_buf st)) (\<lambda>(_, buf, fd). Ok (result, st\<lparr>infile := fd, ext_buf := buf\<rparr>))"

definition DoExtension :: "gif_env \<Rightarrow> byte \<Rightarrow> gif_state \<Rightarrow> (int \<times> gif_state) res" where
  "DoExtension env label st =
     (if label = 0x01 then skip_extension 0 (st\<lparr>Gif89 := gif89_reset\<rparr>)
      else if label = 0xff then
        bindR (allocate_element env (mem st)) (\<lambda>m.
        bindR (copy_blocks env (infile st) (ext_buf st) m) (\<lambda>(fd, buf, m).
          finish_extension env label (st\<lparr>infile := fd, ext_buf := buf, mem := m\<rparr>)))
      else if label = 0xfe then
        bindR (allocate_element env (mem st)) (\<lambda>m.
        bindR (comment_blocks env False (infile st) (ext_buf st) m) (\<lambda>(fd, buf, m).
          finish_extension env label (st\<lparr>infile := fd, ext_buf := buf, mem := m\<rparr>)))
      else if label = 0xf9 then
        bindR (GetDataBlock (infile st) (ext_buf st) 0) (\<lambda>(sz, buf, fd).
        bindR (rd buf 0) (\<lambda>b0. bindR (rd buf 1) (\<lambda>b1. bindR (rd buf 2) (\<lambda>b2. bindR (rd buf 3) (\<lambda>b3.
        let g = (Gif89 st)\<lparr>disposal := drop_bit 2 (sint b0) AND 7, inputFlag := drop_bit 1 (sint b0) AND 1,
              delayTime := push_bit 8 (sint b2) OR sint b1\<rparr>;
            g = (if b0 AND 1 \<noteq> 0 then g\<lparr>transparent := uint b3\<rparr> else g);
            st = st\<lparr>infile := fd, ext_buf := buf, Gif89 := g\<rparr> in
        if disposal g = 0 \<and> inputFlag g = 0 \<and> delayTime g = 0 then skip_extension 0 st
        else
          bindR (allocate_element env (mem st)) (\<lambda>m.
          bindR (store_block env buf sz m) (\<lambda>m.
          bindR (copy_blocks env fd buf m) (\<lambda>(fd, buf, m).
            finish_extension env label (st\<lparr>infile := fd, ext_buf := buf, mem := m\<rparr>)))))))))
      else skip_extension 1 st)"

section \<open>Images\<close>

text \<open>Access to \<open>current->imagestruct\<close>.\<close>

definition update_image :: "(GIFimagestruct \<Rightarrow> GIFimagestruct res) \<Rightarrow> gif_mem \<Rightarrow> gif_mem res" where
  "update_image f m =
     bindR (get_current m) (\<lambda>c. case imagestruct c of
         None \<Rightarrow> Fault Null_pointer
       | Some img \<Rightarrow> bindR (f img) (\<lambda>img. Ok (set_current (c\<lparr>imagestruct := Some img\<rparr>) m)))"

text \<open>\<open>count[v]++\<close>\<close>

definition bump_count :: "int \<Rightarrow> gif_mem \<Rightarrow> gif_mem res" where
  "bump_count v = update_image (\<lambda>img. bindR (rd (color_count img) v) (\<lambda>n.
     bindR (wr (color_count img) v (n + 1)) (\<lambda>count. Ok (img\<lparr>color_count := count\<rparr>))))"

text \<open>The inner loop over \<open>xpos\<close>. The results are whether the row was completed, where it stopped, the row
  and the state.\<close>

primrec read_row :: "nat \<Rightarrow> nat \<Rightarrow> int \<Rightarrow> int \<Rightarrow> byte list \<Rightarrow> gif_state \<Rightarrow> (bool \<times> int \<times> byte list \<times> gif_state) res" where
  "read_row 0 fuel cmapSize xpos row st = Ok (True, xpos, row, st)"
| "read_row (Suc n) fuel cmapSize xpos row st =
     bindR (readLWZ fuel (infile st) (lz st)) (\<lambda>(v, fd, l).
       let st = st\<lparr>infile := fd, lz := l\<rparr> in
       if v < 0 \<or> v \<ge> cmapSize then Ok (False, xpos, row, st)
       else bindR (bump_count v (mem st)) (\<lambda>m.
            bindR (wr row xpos (word_of_int v)) (\<lambda>row.
              read_row n fuel cmapSize (xpos + 1) row (st\<lparr>mem := m\<rparr>))))"

text \<open>The outer loop over \<open>ypos\<close>; \<open>Some (xpos, ypos)\<close> is where the data ended early.\<close>

primrec read_rows ::
  "nat \<Rightarrow> gif_env \<Rightarrow> nat \<Rightarrow> int \<Rightarrow> int \<Rightarrow> int \<Rightarrow> byte list \<Rightarrow> gif_state \<Rightarrow> ((int \<times> int) option \<times> byte list \<times> gif_state) res" where
  "read_rows 0 env fuel wd cmapSize ypos row st = Ok (None, row, st)"
| "read_rows (Suc n) env fuel wd cmapSize ypos row st =
     bindR (read_row (nat wd) fuel cmapSize 0 row st) (\<lambda>(complete, xpos, row, st).
       if \<not> complete then Ok (Some (xpos, ypos), row, st)
       else bindR (store_block env row wd (mem st)) (\<lambda>m.
         read_rows n env fuel wd cmapSize (ypos + 1) row (st\<lparr>mem := m\<rparr>)))"

text \<open>\<open>memset(image+xpos, 0, width-xpos)\<close>\<close>

definition clear_from :: "byte list \<Rightarrow> int \<Rightarrow> int \<Rightarrow> byte list res" where
  "clear_from row xpos wd = wr_block row xpos (replicate (nat (wd - xpos)) 0)"

primrec store_rows :: "nat \<Rightarrow> gif_env \<Rightarrow> byte list \<Rightarrow> int \<Rightarrow> gif_mem \<Rightarrow> gif_mem res" where
  "store_rows 0 env row wd m = Ok m"
| "store_rows (Suc n) env row wd m = bindR (store_block env row wd m) (store_rows n env row wd)"

text \<open>The nearest row above that has data: \<open>while(interlace_line(height, prev_line)>=line) prev_line--;\<close>
  Among eight rows there is one of the first pass, so that fuel 8 is enough for a row of a later pass.
  The result is the offset of the row in the data.\<close>

primrec prev_loaded :: "nat \<Rightarrow> int \<Rightarrow> int \<Rightarrow> int \<Rightarrow> int res" where
  "prev_loaded 0 ht line prev_line = (if interlace_line ht prev_line \<ge> line then Timeout else Ok prev_line)"
| "prev_loaded (Suc n) ht line prev_line =
     (if interlace_line ht prev_line \<ge> line then prev_loaded n ht line (prev_line - 1) else Ok prev_line)"

definition get_prev_line :: "int \<Rightarrow> int \<Rightarrow> int \<Rightarrow> int res" where
  "get_prev_line wd ht line =
     bindR (prev_loaded 8 ht line (inv_interlace_line ht line - 1)) (\<lambda>prev_line.
       Ok (wd * interlace_line ht prev_line))"

text \<open>\<open>memcpy(image+xpos, get_prev_line(width, height, ypos)+xpos, width-xpos)\<close>\<close>

definition copy_prev_line :: "int \<Rightarrow> int \<Rightarrow> int \<Rightarrow> int \<Rightarrow> byte list \<Rightarrow> gif_mem \<Rightarrow> byte list res" where
  "copy_prev_line wd ht ypos xpos row m =
     bindR (get_prev_line wd ht ypos) (\<lambda>off.
     bindR (get_current m) (\<lambda>c. case data c of
         None \<Rightarrow> Fault Null_pointer
       | Some d \<Rightarrow> bindR (rd_block d (off + xpos) (wd - xpos)) (wr_block row xpos)))"

text \<open>The rest of the first pass is filled with colour 0.\<close>

primrec fill_first_pass :: "nat \<Rightarrow> gif_env \<Rightarrow> int \<Rightarrow> int \<Rightarrow> int \<Rightarrow> byte list \<Rightarrow> gif_mem \<Rightarrow> (int \<times> gif_mem) res" where
  "fill_first_pass 0 env wd ht ypos row m =
     (if inv_interlace_line ht ypos AND 7 = 0 then Timeout else Ok (ypos, m))"
| "fill_first_pass (Suc n) env wd ht ypos row m =
     (if inv_interlace_line ht ypos AND 7 = 0
      then bindR (store_block env row wd m) (fill_first_pass n env wd ht (ypos + 1) row)
      else Ok (ypos, m))"

primrec fill_other_passes :: "nat \<Rightarrow> gif_env \<Rightarrow> int \<Rightarrow> int \<Rightarrow> int \<Rightarrow> byte list \<Rightarrow> gif_mem \<Rightarrow> gif_mem res" where
  "fill_other_passes 0 env wd ht ypos row m = Ok m"
| "fill_other_passes (Suc n) env wd ht ypos row m =
     bindR (copy_prev_line wd ht ypos 0 row m) (\<lambda>row.
     bindR (store_block env row wd m) (fill_other_passes n env wd ht (ypos + 1) row))"

text \<open>What the option -r does with an image whose data ends at (\<open>xpos\<close>, \<open>ypos\<close>).\<close>

definition recover_image ::
  "gif_env \<Rightarrow> bool \<Rightarrow> int \<Rightarrow> int \<Rightarrow> int \<Rightarrow> int \<Rightarrow> byte list \<Rightarrow> gif_mem \<Rightarrow> gif_mem res" where
  "recover_image env interlaced wd ht xpos ypos row m =
     (if \<not> interlaced then
        bindR (clear_from row xpos wd) (\<lambda>row.
        bindR (store_block env row wd m) (\<lambda>m.
        bindR (clear_from row 0 wd) (\<lambda>row.
          store_rows (nat (ht - (ypos + 1))) env row wd m)))
      else
        bindR (if xpos > 0 then
            bindR (if inv_interlace_line ht ypos AND 7 = 0 then clear_from row xpos wd
                   else copy_prev_line wd ht ypos xpos row m) (\<lambda>row.
            bindR (store_block env row wd m) (\<lambda>m. Ok (ypos + 1, row, m)))
          else Ok (ypos, row, m)) (\<lambda>(ypos, row, m).
        bindR (clear_from row 0 wd) (\<lambda>row.
        bindR (fill_first_pass (nat ht) env wd ht ypos row m) (\<lambda>(ypos, m).
          fill_other_passes (nat (ht - ypos)) env wd ht ypos row m))))"

text \<open>The label \<open>fini\<close>.\<close>

definition finish_image :: "gif_env \<Rightarrow> nat \<Rightarrow> nat \<Rightarrow> gif_state \<Rightarrow> (int \<times> gif_state) res" where
  "finish_image env fuel pixels st =
     bindR (drain_pixels pixels fuel (infile st) (lz st)) (\<lambda>(fd, l).
     bindR (fix_current env (mem st)) (\<lambda>m.
       Ok (0, st\<lparr>infile := fd, lz := l, mem := m, Gif89 := gif89_reset\<rparr>)))"

text \<open>\<open>fuel\<close> and \<open>pixels\<close> bound the codes and the pixels that the LZW data can hold.\<close>

definition ReadImage ::
  "gif_env \<Rightarrow> nat \<Rightarrow> nat \<Rightarrow> int \<Rightarrow> int \<Rightarrow> int \<Rightarrow> int \<Rightarrow> int \<Rightarrow> gif_color list \<Rightarrow> bool \<Rightarrow> gif_state \<Rightarrow> (int \<times> gif_state) res" where
  "ReadImage env fuel pixels x_off y_off wd ht cmapSize cmap interlaced st =
     (let (ok, bs, fd) = ReadOK 1 (infile st); st = st\<lparr>infile := fd\<rparr> in
      if \<not> ok then Ok (1, st)
      else
        bindR (initLWZ (uint (hd bs)) (lz st)) (\<lambda>l.
        bindR (allocate_image env (mem st)) (\<lambda>m.
        bindR (set_size env (wd * ht) m) (\<lambda>m.
        bindR (xalloc env wd) (\<lambda>row.
        bindR (update_image (\<lambda>img. Ok (img\<lparr>offset_x := x_off, offset_y := y_off, width := wd, height := ht,
            trans := transparent (Gif89 st), interlace := interlaced, colors := cmap,
            color_count := replicate 256 0\<rparr>)) m) (\<lambda>m.
        bindR (read_rows (nat ht) env fuel wd cmapSize 0 row (st\<lparr>lz := l, mem := m\<rparr>)) (\<lambda>(stopped, row, st).
          case stopped of
            None \<Rightarrow> finish_image env fuel pixels st
          | Some (xpos, ypos) \<Rightarrow>
              if xpos > 0 \<or> ypos > 0 then
                if recover st then
                  bindR (recover_image env interlaced wd ht xpos ypos row (mem st)) (\<lambda>m.
                    finish_image env fuel pixels (st\<lparr>mem := m\<rparr>))
                else Ok (1, snd (check_recover True st))
              else Ok (1, st))))))))"

section \<open>The file\<close>

text \<open>An image block: its descriptor, its local map and the image. The result is whether \<open>ReadGIF\<close>
  returns, and with what.\<close>

definition read_image_block :: "gif_env \<Rightarrow> nat \<Rightarrow> nat \<Rightarrow> gif_color list \<Rightarrow> gif_state \<Rightarrow> (int option \<times> gif_color list \<times> gif_state) res" where
  "read_image_block env fuel pixels localColorMap st =
     (let (ok, buf, fd) = ReadOK 9 (infile st); st = st\<lparr>infile := fd\<rparr> in
      if \<not> ok then (let (r, st) = check_recover False st in Ok (Some r, localColorMap, st))
      else
        let useGlobalColormap = (\<not> BitSet (buf ! 8) 0x80);
            bitPixel = push_bit (unat (buf ! 8 AND 7) + 1) 1;
            x_off = LM_to_uint (buf ! 0) (buf ! 1);
            y_off = LM_to_uint (buf ! 2) (buf ! 3);
            w = LM_to_uint (buf ! 4) (buf ! 5);
            h = LM_to_uint (buf ! 6) (buf ! 7);
            interlaced = BitSet (buf ! 8) 0x40 in
        bindR (if useGlobalColormap then Ok (False, fd, localColorMap) else ReadColorMap fd bitPixel localColorMap)
          (\<lambda>(failed, fd, localColorMap).
        let st = st\<lparr>infile := fd\<rparr> in
        if failed then (let (r, st) = check_recover False st in Ok (Some r, localColorMap, st))
        else
          bindR (if useGlobalColormap
              then ReadImage env fuel pixels x_off y_off w h (BitPixel (GifScreen st)) (ColorMap (GifScreen st)) interlaced st
              else ReadImage env fuel pixels x_off y_off w h bitPixel localColorMap interlaced st) (\<lambda>(r, st).
          let st = (if r = 0 then st\<lparr>imagecount := imagecount st + 1\<rparr> else st) in
          Ok (None, localColorMap, st\<lparr>Gif89 := gif89_reset\<rparr>))))"

text \<open>\<open>while (1)\<close>: every round takes at least one byte, so that the length of the file is enough fuel.\<close>

primrec gif_loop :: "nat \<Rightarrow> gif_env \<Rightarrow> nat \<Rightarrow> nat \<Rightarrow> gif_color list \<Rightarrow> gif_state \<Rightarrow> (int \<times> gif_state) res" where
  "gif_loop 0 env fuel pixels localColorMap st = Timeout"
| "gif_loop (Suc n) env fuel pixels localColorMap st =
     (let (ok, bs, fd) = ReadOK 1 (infile st); st = st\<lparr>infile := fd\<rparr> in
      if \<not> ok then Ok (check_recover False st)
      else if hd bs = 59 then Ok (imagecount st, st)
      else if hd bs = 33 then
        let (ok, bs, fd) = ReadOK 1 (infile st); st = st\<lparr>infile := fd\<rparr> in
        if \<not> ok then Ok (check_recover False st)
        else bindR (DoExtension env (hd bs) st) (\<lambda>(r, st).
          if r \<noteq> 0 then Ok (check_recover False st) else gif_loop n env fuel pixels localColorMap st)
      else if hd bs \<noteq> 44 then Ok (check_recover False st)
      else bindR (read_image_block env fuel pixels localColorMap st) (\<lambda>(r, localColorMap, st). case r of
          Some v \<Rightarrow> Ok (v, st)
        | None \<Rightarrow> gif_loop n env fuel pixels localColorMap st))"

text \<open>The screen descriptor.\<close>

definition read_screen :: "byte list \<Rightarrow> gif_state \<Rightarrow> (bool \<times> gif_state) res" where
  "read_screen buf st =
     (let scr = (GifScreen st)\<lparr>Width := LM_to_uint (buf ! 0) (buf ! 1), Height := LM_to_uint (buf ! 2) (buf ! 3),
            BitPixel := push_bit (unat (buf ! 4 AND 7)) 2,
            ColorResolution := drop_bit 3 (uint (buf ! 4 AND 0x70)) + 1,
            ColorMap_present := BitSet (buf ! 4) 0x80\<rparr> in
      bindR (if ColorMap_present scr then ReadColorMap (infile st) (BitPixel scr) (ColorMap scr)
             else Ok (False, infile st, map default_color [0..<256])) (\<lambda>(failed, fd, cmap).
      let st = st\<lparr>infile := fd, GifScreen := scr\<lparr>ColorMap := cmap\<rparr>\<rparr> in
      if failed then Ok (True, st)
      else Ok (False, st\<lparr>GifScreen := (GifScreen st)\<lparr>
        Background := if ColorMap_present scr then uint (buf ! 5) else - 1, AspectRatio := uint (buf ! 6)\<rparr>\<rparr>)))"

definition lzw_fuel :: "gif_file \<Rightarrow> nat" where
  "lzw_fuel fd = 8 * length (input fd) + 20"

definition ReadGIF :: "gif_env \<Rightarrow> gif_color list \<Rightarrow> gif_state \<Rightarrow> (int \<times> gif_state) res" where
  "ReadGIF env localColorMap st =
     (let n = Suc (length (input (infile st)));
          fuel = lzw_fuel (infile st);
          st = st\<lparr>imagecount := 0, recover_message := False, Gif89 := gif89_reset\<rparr>;
          (ok, buf, fd) = ReadOK 6 (infile st); st = st\<lparr>infile := fd\<rparr> in
      if \<not> ok \<or> take 3 buf \<noteq> bytes_of ''GIF'' then Ok (- 1, st)
      else
        let (ok, buf, fd) = ReadOK 7 (infile st); st = st\<lparr>infile := fd\<rparr> in
        if \<not> ok then Ok (- 1, st)
        else bindR (read_screen buf st) (\<lambda>(failed, st).
          if failed then Ok (- 1, st) else gif_loop n env fuel (fuel * 8193) localColorMap st))"

end
