(* ===== verification/Gif_Extensions.thy ===== *)
theory Gif_Extensions
  imports Gif_Read
begin

text \<open>
  Properties of \<open>DoExtension\<close>: what the elements of comment and application extensions hold, whatever
  the sub-blocks of the file are, and what a truncated graphic control extension does.
\<close>

section \<open>Specification\<close>

text \<open>The complete sub-blocks at the start of the input.\<close>

fun whole_blocks :: "byte list \<Rightarrow> byte list list" where
  "whole_blocks [] = []"
| "whole_blocks (c # r) =
     (if c = 0 \<or> length r < unat c then [] else take (unat c) r # whole_blocks (drop (unat c) r))"

definition cp437 :: "byte \<Rightarrow> byte" where
  "cp437 c = word_of_int (c_437_l1 ! unat c)"

text \<open>The text of a comment: characters are converted, CR LF becomes LF, and a CR before anything else
  becomes LF too; \<open>cr\<close> says that a CR is waiting. A CR at the very end is lost.\<close>

fun unix_lines :: "bool \<Rightarrow> byte list \<Rightarrow> byte list" where
  "unix_lines cr [] = []"
| "unix_lines cr (c # cs) =
     (if cr \<and> c \<noteq> 10 then [10] else []) @ (if c = 13 then unix_lines True cs else cp437 c # unix_lines False cs)"

definition ends_cr :: "bool \<Rightarrow> byte list \<Rightarrow> bool" where
  "ends_cr cr cs = (if cs = [] then cr else last cs = 13)"

text \<open>The state after an extension has been kept.\<close>

definition kept :: "byte \<Rightarrow> byte list \<Rightarrow> gif_state \<Rightarrow> int \<times> gif_state \<Rightarrow> bool" where
  "kept label bs st r \<longleftrightarrow> fst r = 0 \<and> new_element (mem st) bs (mem (snd r)) \<and>
     GIFtype (last (elements (mem (snd r)))) = label \<and>
     length (input (infile (snd r))) \<le> length (input (infile st))"

section \<open>Conversion in place\<close>

lemma c_437_l1_length: "length c_437_l1 = 256"
  by (simp add: c_437_l1_def)

lemma rd_c_437_l1: "rd c_437_l1 (uint (c :: byte)) = Ok (c_437_l1 ! unat c)"
proof -
  have "uint c < 256" using uint_lt2p [of c] by simp
  then show ?thesis by (simp add: c_437_l1_length)
qed

lemma unix_lines_append: "unix_lines cr (as @ bs) = unix_lines cr as @ unix_lines (ends_cr cr as) bs"
  by (induction as arbitrary: cr) (simp_all add: ends_cr_def)

lemma wr_middle:
  assumes "xs \<noteq> []"
  shows "wr (out @ xs @ ys) (int (length out)) d = Ok (out @ d # tl xs @ ys)"
  using assms by (cases xs) (simp_all add: wr_def list_update_append)

text \<open>The write position never passes the read position: what is written is the converted text.\<close>

lemma rd_middle: "p = int (length xs) \<Longrightarrow> rd (xs @ c # ys) p = Ok c"
  by (simp add: rd_def)

lemma convert_block_text:
  assumes "cr \<and> rest \<noteq> [] \<and> hd rest \<noteq> 10 \<longrightarrow> gap \<noteq> []" and "p = int (length out + length gap)" and "p2 = int (length out)"
  shows "\<exists>gap'. convert_block (length rest) p p2 cr (out @ gap @ rest @ post) =
      Ok (p2 + int (length (unix_lines cr rest)), ends_cr cr rest, out @ unix_lines cr rest @ gap' @ post) \<and>
    length (unix_lines cr rest) + length gap' = length gap + length rest"
  using assms
proof (induction rest arbitrary: out gap cr p p2)
  case (Cons c rest)
  define lf where "lf = (if cr \<and> c \<noteq> 10 then [10] else [] :: byte list)"
  define gap1 where "gap1 = (if cr \<and> c \<noteq> 10 then tl gap else gap)"
  have g1: "length lf + length gap1 = length gap" using Cons.prems(1) by (auto simp: gap1_def lf_def)
  have rdc: "rd (out @ gap @ c # rest @ post) p = Ok c"
    using rd_middle [of p "out @ gap" c "rest @ post"] Cons.prems(2) by simp
  have first: "(if cr then bindR (rd (out @ gap @ (c # rest) @ post) p)
        (\<lambda>c'. if c' \<noteq> 10 then bindR (wr (out @ gap @ (c # rest) @ post) p2 10) (\<lambda>buf. Ok (p2 + 1, buf))
          else Ok (p2, out @ gap @ (c # rest) @ post))
      else Ok (p2, out @ gap @ (c # rest) @ post)) =
      Ok (p2 + int (length lf), (out @ lf) @ gap1 @ c # rest @ post)"
    using Cons.prems rdc wr_middle [of gap out "c # rest @ post" 10] by (simp add: gap1_def lf_def)
  have rd1: "rd ((out @ lf) @ gap1 @ c # rest @ post) p = Ok c"
    using rd_middle [of p "(out @ lf) @ gap1" c "rest @ post"] Cons.prems(2) g1 by simp
  have un: "unix_lines cr (c # rest) = lf @ (if c = 13 then unix_lines True rest else cp437 c # unix_lines False rest)"
    by (simp add: lf_def)
  have ec: "ends_cr cr (c # rest) = ends_cr (c = 13) rest" by (simp add: ends_cr_def)
  show ?case
  proof (cases "c = 13")
    case True
    obtain gap' where IH: "convert_block (length rest) (p + 1) (p2 + int (length lf)) True
        ((out @ lf) @ (gap1 @ [c]) @ rest @ post) =
        Ok (p2 + int (length lf) + int (length (unix_lines True rest)), ends_cr True rest,
          (out @ lf) @ unix_lines True rest @ gap' @ post)"
      "length (unix_lines True rest) + length gap' = length (gap1 @ [c]) + length rest"
      using Cons.IH [of True "gap1 @ [c]" "p + 1" "out @ lf" "p2 + int (length lf)"] Cons.prems(2,3) g1 by auto
    show ?thesis
      unfolding un ec using IH True g1 rd1
      by (intro exI [of _ gap'], unfold length_Cons convert_block.simps first) (simp add: add.assoc)
  next
    case False
    have w: "wr ((out @ lf) @ (gap1 @ [c]) @ rest @ post) (p2 + int (length lf)) (cp437 c) =
        Ok ((out @ lf) @ cp437 c # tl (gap1 @ [c]) @ rest @ post)"
      using wr_middle [of "gap1 @ [c]" "out @ lf" "rest @ post" "cp437 c"] Cons.prems(3) by simp
    obtain gap' where IH: "convert_block (length rest) (p + 1) (p2 + int (length lf) + 1) False
        ((out @ lf @ [cp437 c]) @ tl (gap1 @ [c]) @ rest @ post) =
        Ok (p2 + int (length lf) + 1 + int (length (unix_lines False rest)), ends_cr False rest,
          (out @ lf @ [cp437 c]) @ unix_lines False rest @ gap' @ post)"
      "length (unix_lines False rest) + length gap' = length (tl (gap1 @ [c])) + length rest"
      using Cons.IH [of False "tl (gap1 @ [c])" "p + 1" "out @ lf @ [cp437 c]" "p2 + int (length lf) + 1"] Cons.prems(2,3) g1 by auto
    show ?thesis
      unfolding un ec using IH False g1 w
      by (intro exI [of _ gap'], unfold length_Cons convert_block.simps first)
        (simp add: rd1 [simplified] rd_c_437_l1 cp437_def [symmetric] add.assoc)
  qed
qed (simp add: ends_cr_def)

text \<open>A complete sub-block is at the start of the buffer.\<close>

lemma GetDataBlock_buffer:
  assumes "length buf = 256"
  obtains (stop) n buf' fd' where "GetDataBlock fd buf 0 = Ok (n, buf', fd')" "n \<le> 0" "length buf' = 256"
      "whole_blocks (input fd) = []" "length (input fd') \<le> length (input fd)"
    | (block) bs post fd' where "GetDataBlock fd buf 0 = Ok (int (length bs), bs @ post, fd')" "bs \<noteq> []"
      "length (bs @ post) = 256" "whole_blocks (input fd) = bs # whole_blocks (input fd')"
      "length (input fd') < length (input fd)"
proof (cases "input fd")
  case Nil
  then show ?thesis using stop GetDataBlock_cases(1) assms by force
next
  case (Cons c r)
  show ?thesis
  proof (cases "c = 0")
    case True
    then show ?thesis using stop GetDataBlock_cases(2) [of fd r buf 0] Cons assms by simp
  next
    case False
    note g = GetDataBlock_cases(3) [OF Cons False, of buf 0]
    let ?bs = "take (unat c) r"
    have "length ?bs \<le> 255" using unat_byte_less [of c] by simp
    then have w: "wr_block buf 0 ?bs = Ok (?bs @ drop (length ?bs) buf)" and l: "length (?bs @ drop (length ?bs) buf) = 256"
      using assms by (simp_all add: wr_block_def)
    show ?thesis
    proof (cases "unat c \<le> length r")
      case True
      then have "GetDataBlock fd buf 0 = Ok (int (length ?bs), ?bs @ drop (length ?bs) buf, \<lparr>input = drop (unat c) r, ZeroDataBlock = False\<rparr>)"
        using g w by (simp add: min_def)
      moreover have "?bs \<noteq> []" using True False by (metis length_0_conv length_take min.absorb2 unat_eq_zero)
      ultimately show ?thesis
        using block [of ?bs "drop (length ?bs) buf"] l True False Cons by simp
    next
      case short: False
      then show ?thesis using stop g w l Cons by simp
    qed
  qed
qed

lemma copy_blocks_stored:
  assumes "mem_ok m" and "length buf = 256"
  shows "mem_safe (copy_blocks env fd buf m) (\<lambda>(fd', buf', m'). stored m (concat (whole_blocks (input fd))) m' \<and>
    length buf' = 256 \<and> length (input fd') \<le> length (input fd))"
  using assms
proof (induction env fd buf m rule: copy_blocks.induct)
  case (1 env fd buf m)
  from "1.prems"(2) show ?case
  proof (cases rule: GetDataBlock_buffer [where fd = fd])
    case (stop n buf' fd')
    then show ?thesis
      using "1.prems" by (simp add: copy_blocks.simps [of env fd buf] mem_safe_def stored_refl)
  next
    case (block bs post fd')
    have st: "mem_safe (store_block env (bs @ post) (int (length bs)) m) (stored m bs)"
      using store_block_stored "1.prems"(1) by simp
    have "copy_blocks env fd buf m =
        bindR (store_block env (bs @ post) (int (length bs)) m) (\<lambda>m. copy_blocks env fd' (bs @ post) m)"
      using block by (simp add: copy_blocks.simps [of env fd buf])
    moreover have "mem_safe \<dots> (\<lambda>(fd', buf', m'). stored m (concat (whole_blocks (input fd))) m' \<and>
        length buf' = 256 \<and> length (input fd') \<le> length (input fd))"
    proof (rule mem_safe_bind_eq [OF st])
      fix m1 assume eq: "store_block env (bs @ post) (int (length bs)) m = Ok m1" and s: "stored m bs m1"
      have "mem_safe (copy_blocks env fd' (bs @ post) m1) (\<lambda>(fd2, buf', m'). stored m1 (concat (whole_blocks (input fd'))) m' \<and>
          length buf' = 256 \<and> length (input fd2) \<le> length (input fd'))"
        by (rule "1.IH" [OF block(1) refl refl _ eq]) (use block s in \<open>auto simp: stored_def\<close>)
      then show "mem_safe (copy_blocks env fd' (bs @ post) m1) (\<lambda>(fd', buf', m'). stored m (concat (whole_blocks (input fd))) m' \<and>
          length buf' = 256 \<and> length (input fd') \<le> length (input fd))"
        by (rule mem_safe_mono) (use block s "1.prems"(1) in \<open>auto simp: mem_ok_def intro: stored_trans\<close>)
    qed
    ultimately show ?thesis by simp
  qed
qed

lemma comment_blocks_stored:
  assumes "mem_ok m" and "length buf = 256"
  shows "mem_safe (comment_blocks env cr fd buf m) (\<lambda>(fd', buf', m').
    stored m (unix_lines cr (concat (whole_blocks (input fd)))) m' \<and>
    length buf' = 256 \<and> length (input fd') \<le> length (input fd))"
  using assms
proof (induction "length (input fd)" arbitrary: cr fd buf m rule: less_induct)
  case less
  from less.prems(2) show ?case
  proof (cases rule: GetDataBlock_buffer [where fd = fd])
    case (stop n buf' fd')
    then show ?thesis
      using less.prems by (simp add: comment_blocks.simps [of env cr fd buf] mem_safe_def stored_refl)
  next
    case (block bs post fd')
    define lf where "lf = (if cr \<and> hd bs \<noteq> 10 then [10] else [] :: byte list)"
    define cr1 where "cr1 = (cr \<and> hd bs = 10)"
    obtain b bs' where bs: "bs = b # bs'" using block(2) by (cases bs) auto
    have un: "unix_lines cr bs = lf @ unix_lines cr1 bs" "ends_cr cr1 bs = ends_cr cr bs"
      by (auto simp: bs lf_def cr1_def ends_cr_def)
    have first: "mem_safe (if cr \<and> hd bs \<noteq> 10 then bindR (store_block env [10, 0] 1 m) (\<lambda>m. Ok (False, m)) else Ok (cr, m))
        (\<lambda>(cr', m1). cr' = cr1 \<and> stored m lf m1)"
    proof (cases "cr \<and> hd bs \<noteq> 10")
      case True
      have "mem_safe (bindR (store_block env ([10] @ [0]) 1 m) (\<lambda>m. Ok (False, m))) (\<lambda>(cr', m1). cr' = cr1 \<and> stored m lf m1)"
        using True by (intro mem_safe_bind [OF store_block_stored [OF less.prems(1)]]) (auto simp: mem_safe_def lf_def cr1_def)
      then show ?thesis using True by simp
    next
      case False
      then show ?thesis using less.prems(1) by (auto simp: mem_safe_def stored_refl lf_def cr1_def)
    qed
    obtain gap' where cv: "convert_block (length bs) 0 0 cr1 (bs @ post) =
        Ok (int (length (unix_lines cr1 bs)), ends_cr cr1 bs, unix_lines cr1 bs @ gap' @ post)"
      and len: "length (unix_lines cr1 bs @ gap' @ post) = 256"
      using convert_block_text [of cr1 bs "[]" 0 "[]" 0 post] block(3) by (auto simp: cr1_def)
    have "comment_blocks env cr fd buf m =
        bindR (if cr \<and> hd bs \<noteq> 10 then bindR (store_block env [10, 0] 1 m) (\<lambda>m. Ok (False, m)) else Ok (cr, m)) (\<lambda>(cr', m).
        bindR (convert_block (length bs) 0 0 cr' (bs @ post)) (\<lambda>(p2, last_cr, buf).
        bindR (store_block env buf p2 m) (\<lambda>m. comment_blocks env last_cr fd' buf m)))"
    proof -
      have "rd (bs @ post) 0 = Ok (hd bs)" using block(2) by (cases bs) (simp_all add: rd_def)
      then show ?thesis
        using block(1,2) by (simp add: comment_blocks.simps [of env cr fd buf])
    qed
    moreover have "mem_safe \<dots> (\<lambda>(fd', buf', m'). stored m (unix_lines cr (concat (whole_blocks (input fd)))) m' \<and>
        length buf' = 256 \<and> length (input fd') \<le> length (input fd))"
    proof (rule mem_safe_bind [OF first], clarify)
      fix m1 assume s1: "stored m lf m1"
      have ok1: "mem_ok m1" using s1 by (simp add: stored_def)
      have st2: "mem_safe (store_block env (unix_lines cr1 bs @ gap' @ post) (int (length (unix_lines cr1 bs))) m1) (stored m1 (unix_lines cr1 bs))"
        by (rule store_block_stored [OF ok1 refl])
      show "mem_safe (bindR (convert_block (length bs) 0 0 cr1 (bs @ post)) (\<lambda>(p2, last_cr, buf).
          bindR (store_block env buf p2 m1) (\<lambda>m. comment_blocks env last_cr fd' buf m)))
        (\<lambda>(fd', buf', m'). stored m (unix_lines cr (concat (whole_blocks (input fd)))) m' \<and>
          length buf' = 256 \<and> length (input fd') \<le> length (input fd))"
        unfolding cv bindR.simps prod.case
      proof (rule mem_safe_bind [OF st2])
        fix m2 assume s2: "stored m1 (unix_lines cr1 bs) m2"
        have s: "stored m (unix_lines cr bs) m2"
          using stored_trans [OF _ s1 s2] less.prems(1) by (simp add: un mem_ok_def)
        then have "mem_ok m2" by (simp add: stored_def)
        from less.hyps [OF block(5) this len, of "ends_cr cr1 bs"]
        show "mem_safe (comment_blocks env (ends_cr cr1 bs) fd' (unix_lines cr1 bs @ gap' @ post) m2)
          (\<lambda>(fd', buf', m'). stored m (unix_lines cr (concat (whole_blocks (input fd)))) m' \<and>
            length buf' = 256 \<and> length (input fd') \<le> length (input fd))"
          by (rule mem_safe_mono)
            (use block(4,5) s less.prems(1) in \<open>auto simp: mem_ok_def unix_lines_append un(2) intro: stored_trans\<close>)
      qed
    qed
    ultimately show ?thesis by simp
  qed
qed

lemma finish_extension_kept:
  assumes "mem_ok m0" and "mem_ok m1" and "m1 = m0\<lparr>elements := take (Suc (current m0)) (elements m0) @ [zero_element], current := Suc (current m0)\<rparr>"
    and "stored m1 bs (mem st)"
  shows "mem_safe (finish_extension env label st) (\<lambda>(r, st'). r = 0 \<and> new_element m0 bs (mem st') \<and>
    GIFtype (last (elements (mem st'))) = label \<and> st' = st\<lparr>mem := mem st'\<rparr>)"
proof -
  have z: "elements m1 ! current m1 = zero_element" using assms(1,3) by (simp add: nth_append mem_ok_def)
  obtain e where e: "mem_ok (mem st)" "mem st = set_current e m1" "content e = bs" "elem_size e = int (length bs)"
    using assms(4) z by (auto simp: stored_def content_def zero_element_def)
  let ?e = "e\<lparr>GIFtype := label\<rparr>"
  have "elem_ok e" using elem_ok_current [OF e(1)] e(2) assms(2) by (simp add: mem_ok_def)
  then have ok: "elem_ok ?e" "content ?e = bs" "elem_size ?e = int (length bs)"
    using e(3,4) by (simp_all add: elem_ok_def content_def buffer_def)
  have t: "set_type label (mem st) = Ok (set_current ?e m1)"
    using assms(2) e(2) by (simp add: set_type_def)
  have ok2: "mem_ok (set_current ?e m1)" by (rule mem_ok_set_current [OF assms(2) ok(1)])
  have cur: "?e = elements (set_current ?e m1) ! current (set_current ?e m1)" using assms(2) by (simp add: mem_ok_def)
  show ?thesis
    unfolding finish_extension_def t bindR.simps
  proof (rule mem_safe_bind [OF fix_current_trims [OF ok2 cur]], elim conjE exE)
    fix m' e' assume a: "mem_ok m'" "m' = set_current e' (set_current ?e m1)" "buffer e' = content ?e" "elem_size e' = elem_size ?e"
      "allocated_size e' = elem_size ?e" "GIFtype e' = GIFtype ?e"
    then have m': "elements m' = take (Suc (current m0)) (elements m0) @ [e']" "current m' = Suc (current m0)"
      using assms(1,3) by (simp_all add: set_current_def mem_ok_def list_update_append)
    then show "mem_safe (Ok (0, st\<lparr>mem := m'\<rparr>)) (\<lambda>(r, st'). r = 0 \<and> new_element m0 bs (mem st') \<and>
        GIFtype (last (elements (mem st'))) = label \<and> st' = st\<lparr>mem := mem st'\<rparr>)"
      using a ok by (simp add: mem_safe_def new_element_def)
  qed
qed

lemma extension_kept:
  fixes f :: "gif_mem \<Rightarrow> (gif_file \<times> byte list \<times> gif_mem) res"
  assumes "mem_ok (mem st)"
    and "\<And>m1. mem_ok m1 \<Longrightarrow> mem_safe (f m1) (\<lambda>(fd', buf', m'). stored m1 bs m' \<and> length buf' = 256 \<and>
      length (input fd') \<le> length (input (infile st)))"
  shows "mem_safe (bindR (allocate_element env (mem st)) (\<lambda>m. bindR (f m) (\<lambda>(fd, buf, m).
      finish_extension env label (st\<lparr>infile := fd, ext_buf := buf, mem := m\<rparr>)))) (kept label bs st)"
proof (rule mem_safe_bind [OF allocate_element_new [OF assms(1)]], elim conjE)
  fix m1 assume m1: "mem_ok m1"
    "m1 = mem st\<lparr>elements := take (Suc (current (mem st))) (elements (mem st)) @ [zero_element], current := Suc (current (mem st))\<rparr>"
  show "mem_safe (bindR (f m1) (\<lambda>(fd, buf, m). finish_extension env label (st\<lparr>infile := fd, ext_buf := buf, mem := m\<rparr>))) (kept label bs st)"
  proof (rule mem_safe_bind [OF assms(2) [OF m1(1)]], clarify)
    fix fd :: gif_file and buf m2 assume s: "stored m1 bs m2" and l: "length (input fd) \<le> length (input (infile st))"
    have "mem_safe (finish_extension env label (st\<lparr>infile := fd, ext_buf := buf, mem := m2\<rparr>))
        (\<lambda>(r, st'). r = 0 \<and> new_element (mem st) bs (mem st') \<and>
          GIFtype (last (elements (mem st'))) = label \<and> st' = st\<lparr>infile := fd, ext_buf := buf, mem := mem st'\<rparr>)"
      using finish_extension_kept [OF assms(1) m1, of bs "st\<lparr>infile := fd, ext_buf := buf, mem := m2\<rparr>"] s by simp
    then show "mem_safe (finish_extension env label (st\<lparr>infile := fd, ext_buf := buf, mem := m2\<rparr>)) (kept label bs st)"
    proof (rule mem_safe_mono, clarify)
      fix r st' assume "new_element (mem st) bs (mem st')" "st' = st\<lparr>infile := fd, ext_buf := buf, mem := mem st'\<rparr>"
      moreover from this(2) have "infile st' = infile (st\<lparr>infile := fd, ext_buf := buf, mem := mem st'\<rparr>)" by (rule arg_cong)
      then have "infile st' = fd" by simp
      ultimately show "kept (GIFtype (last (elements (mem st')))) bs st (0, st')" using l by (simp add: kept_def)
    qed
  qed
qed

section \<open>Properties\<close>

lemma comment_extension_kept:
  assumes "mem_ok (mem st)" and "length (ext_buf st) = 256"
  shows "mem_safe (DoExtension env 0xfe st)
    (kept 0xfe (unix_lines False (concat (whole_blocks (input (infile st))))) st)"
proof -
  have "mem_safe (bindR (allocate_element env (mem st)) (\<lambda>m. bindR (comment_blocks env False (infile st) (ext_buf st) m)
      (\<lambda>(fd, buf, m). finish_extension env 0xfe (st\<lparr>infile := fd, ext_buf := buf, mem := m\<rparr>))))
    (kept 0xfe (unix_lines False (concat (whole_blocks (input (infile st))))) st)"
    by (rule extension_kept [OF assms(1)], rule comment_blocks_stored [OF _ assms(2)])
  then show ?thesis by (simp add: DoExtension_def)
qed

text \<open>A comment extension becomes an element that holds its text with the line ends and characters
  converted, exactly as if the text were one piece: how the file cuts it into sub-blocks, and a
  truncated last one, make no difference, although the conversion works in place, block by block,
  in one static buffer.\<close>

theorem comment_extension_text:
  assumes "mem_ok (mem st)" and "length (ext_buf st) = 256"
  shows "mem_safe (DoExtension env 0xfe st)
    (kept 0xfe (unix_lines False (concat (whole_blocks (input (infile st))))) st)"
  using assms by (rule comment_extension_kept)

definition sample_gif_state :: "byte list \<Rightarrow> gif_state" where
  "sample_gif_state bs = \<lparr>mem = mem_start, infile = \<lparr>input = bs, ZeroDataBlock = False\<rparr>, lz = lzw_static,
     GifScreen = \<lparr>Width = 0, Height = 0, ColorMap = replicate 256 black, ColorMap_present = False, BitPixel = 0,
       ColorResolution = 0, Background = 0, AspectRatio = 0\<rparr>,
     Gif89 = gif89_reset, imagecount = 0, recover_message = False, recover = False, ext_buf = replicate 256 0\<rparr>"

lemma mem_start_ok: "mem_ok mem_start"
  by (simp add: mem_ok_def mem_start_def elem_ok_def zero_element_def buffer_def)

theorem comment_extension_text_witness:
  "mem_safe (DoExtension sample_gif_env 0xfe (sample_gif_state [2, 72, 13, 2, 105, 10, 0]))
    (kept 0xfe (unix_lines False (concat (whole_blocks (input (infile (sample_gif_state [2, 72, 13, 2, 105, 10, 0]))))))
      (sample_gif_state [2, 72, 13, 2, 105, 10, 0]))"
  by (rule comment_extension_text) (simp_all add: sample_gif_state_def mem_start_ok)

text \<open>An application extension becomes an element that holds the concatenation of its complete
  sub-blocks.\<close>

theorem application_extension_data:
  assumes "mem_ok (mem st)" and "length (ext_buf st) = 256"
  shows "mem_safe (DoExtension env 0xff st) (kept 0xff (concat (whole_blocks (input (infile st)))) st)"
proof -
  have "mem_safe (bindR (allocate_element env (mem st)) (\<lambda>m. bindR (copy_blocks env (infile st) (ext_buf st) m)
      (\<lambda>(fd, buf, m). finish_extension env 0xff (st\<lparr>infile := fd, ext_buf := buf, mem := m\<rparr>))))
    (kept 0xff (concat (whole_blocks (input (infile st)))) st)"
    by (rule extension_kept [OF assms(1)], rule copy_blocks_stored [OF _ assms(2)])
  then show ?thesis by (simp add: DoExtension_def)
qed

theorem application_extension_data_witness:
  "mem_safe (DoExtension sample_gif_env 0xff (sample_gif_state [2, 72, 13, 2, 105, 10, 0]))
    (kept 0xff (concat (whole_blocks (input (infile (sample_gif_state [2, 72, 13, 2, 105, 10, 0])))))
      (sample_gif_state [2, 72, 13, 2, 105, 10, 0]))"
  by (rule application_extension_data) (simp_all add: sample_gif_state_def mem_start_ok)

text \<open>A graphic control extension that the end of the file cuts off is stored with the size -1: when
  the flags of the part that was read (or of an earlier extension, if nothing was read) ask for the
  extension to be kept, \<open>memcpy\<close> is called with a huge count.\<close>

theorem truncated_graphic_control:
  assumes "mem_ok (mem st)" and "length (ext_buf st) = 256" and "malloc_ok env 48" and "malloc_ok env 8192"
    and "input (infile st) = [n, b]" and "2 \<le> unat n" and "drop_bit 2 (sint b) AND 7 \<noteq> 0"
  shows "DoExtension env 0xf9 st = Fault Out_of_bounds"
proof -
  have nz: "n \<noteq> 0" using assms(6) by auto
  obtain b1 b2 b3 r where buf: "drop 1 (ext_buf st) = b1 # b2 # b3 # r" and len: "length r = 252"
    using assms(2) by (cases "ext_buf st"; cases "tl (ext_buf st)"; cases "tl (tl (ext_buf st))"; cases "tl (tl (tl (ext_buf st)))") auto
  let ?buf = "b # b1 # b2 # b3 # r"
  have w: "wr_block (ext_buf st) 0 [b] = Ok ?buf" using assms(2) buf by (simp add: wr_block_def)
  have g: "GetDataBlock (infile st) (ext_buf st) 0 = Ok (- 1, ?buf, \<lparr>input = [], ZeroDataBlock = False\<rparr>)"
    using GetDataBlock_cases(3) [OF assms(5) nz, of "ext_buf st" 0] w assms(6) by simp
  have r: "rd ?buf 0 = Ok b" "rd ?buf 1 = Ok b1" "rd ?buf 2 = Ok b2" "rd ?buf 3 = Ok b3"
    by (simp_all add: rd_def numeral_2_eq_2 numeral_3_eq_3)
  obtain m1 where a: "allocate_element env (mem st) = Ok m1" and m1: "mem_ok m1" "elements m1 ! current m1 = zero_element"
    using allocate_element_new [OF assms(1), of env] assms(1,3)
    by (auto simp: mem_safe_def allocate_element_def xalloc_def get_current_ok)
  have "store_block env ?buf (- 1) m1 = Fault Out_of_bounds"
    using m1 assms(4) by (simp add: store_block_def get_current_ok set_size_def xalloc_def zero_element_def rd_block_def)
  then show ?thesis
    using assms(7) by (simp add: DoExtension_def g r a Let_def del: One_nat_def)
qed

theorem truncated_graphic_control_witness:
  "DoExtension sample_gif_env 0xf9 (sample_gif_state [4, 4]) = Fault Out_of_bounds"
  by (rule truncated_graphic_control [of _ _ 4 4]) (simp_all add: sample_gif_state_def mem_start_ok sample_gif_env_def)

end
