(* ===== verification/Gif_Image.thy ===== *)
theory Gif_Image
  imports Gif_Extensions
begin

text \<open>
  Properties of \<open>ReadImage\<close> and of the recovery of broken images: which pixels the element of an image
  holds, that \<open>color_count\<close> is their histogram, and that every access stays inside its array.
\<close>

section \<open>Specification\<close>

text \<open>How often each of the 256 colours occurs.\<close>

definition hist :: "byte list \<Rightarrow> int list" where
  "hist bs = map (\<lambda>k. int (count_list bs (word_of_nat k))) [0..<256]"

text \<open>The image under construction: \<open>m\<close> is the memory \<open>m0\<close> with the current element replaced by one that
  has stored \<open>bs\<close> and counted \<open>pix\<close>.\<close>

definition imaging :: "gif_mem \<Rightarrow> GIFimagestruct \<Rightarrow> byte list \<Rightarrow> byte list \<Rightarrow> gif_mem \<Rightarrow> bool" where
  "imaging m0 meta pix bs m \<longleftrightarrow> mem_ok m \<and> (\<exists>e. m = set_current e m0 \<and> content e = bs \<and> GIFtype e = 44 \<and>
     imagestruct e = Some (meta\<lparr>color_count := hist pix\<rparr>))"

text \<open>What a decoded image looks like.\<close>

definition image_element :: "GIFimagestruct \<Rightarrow> int \<Rightarrow> GIFelement \<Rightarrow> bool" where
  "image_element meta cmapSize e \<longleftrightarrow> GIFtype e = 44 \<and> int (length (buffer e)) = width meta * height meta \<and>
     elem_size e = width meta * height meta \<and> (\<forall>b \<in> set (buffer e). uint b < cmapSize) \<and>
     imagestruct e = Some (meta\<lparr>color_count := hist (buffer e)\<rparr>)"

definition same_globals :: "gif_state \<Rightarrow> gif_state \<Rightarrow> bool" where
  "same_globals st st' \<longleftrightarrow> GifScreen st' = GifScreen st \<and> Gif89 st' = Gif89 st \<and> imagecount st' = imagecount st \<and>
     recover_message st' = recover_message st \<and> recover st' = recover st \<and> ext_buf st' = ext_buf st"

section \<open>Counting and storing\<close>

lemma length_hist [simp]: "length (hist bs) = 256"
  by (simp add: hist_def)

lemma hist_Nil: "hist [] = replicate 256 0"
  by (simp add: hist_def map_replicate_const)

lemma hist_snoc:
  assumes "0 \<le> v" and "v < 256"
  shows "(hist bs)[nat v := hist bs ! nat v + 1] = hist (bs @ [word_of_int v])"
proof (rule nth_equalityI)
  fix i assume "i < length ((hist bs)[nat v := hist bs ! nat v + 1])"
  then have i: "i < 256" by simp
  have "uint (word_of_int v :: byte) = v" "uint (word_of_nat i :: byte) = int i"
    using i assms by (simp_all add: unsigned_of_int unsigned_of_nat take_bit_eq_mod)
  then have e: "(word_of_int v :: byte) = word_of_nat i \<longleftrightarrow> nat v = i"
    using assms by (metis nat_int int_nat_eq of_int_of_nat_eq)
  show "(hist bs)[nat v := hist bs ! nat v + 1] ! i = hist (bs @ [word_of_int v]) ! i"
    using i assms e by (auto simp: hist_def nth_list_update count_list_append)
qed simp

lemma imaging_current:
  assumes "imaging m0 meta pix bs m"
  shows "mem_ok m" "current m < length (elements m)" "current m = current m0" "content (elements m ! current m) = bs"
    "GIFtype (elements m ! current m) = 44" "imagestruct (elements m ! current m) = Some (meta\<lparr>color_count := hist pix\<rparr>)"
proof -
  obtain e where e: "mem_ok m" "m = set_current e m0" "content e = bs" "GIFtype e = 44"
      "imagestruct e = Some (meta\<lparr>color_count := hist pix\<rparr>)"
    using assms by (auto simp: imaging_def)
  have l: "current m < length (elements m)" using e(1) by (simp add: mem_ok_def)
  then have "elements m ! current m = e" using e(2) by simp
  then show "mem_ok m" "current m < length (elements m)" "current m = current m0" "content (elements m ! current m) = bs"
    "GIFtype (elements m ! current m) = 44" "imagestruct (elements m ! current m) = Some (meta\<lparr>color_count := hist pix\<rparr>)"
    using e l by simp_all
qed

lemma imaging_bump:
  assumes "imaging m0 meta pix bs m" and "0 \<le> v" and "v < 256"
  shows "\<exists>m'. bump_count v m = Ok m' \<and> imaging m0 meta (pix @ [word_of_int v]) bs m'"
proof -
  note c = imaging_current [OF assms(1)]
  let ?e = "(elements m ! current m)\<lparr>imagestruct := Some (meta\<lparr>color_count := hist (pix @ [word_of_int v])\<rparr>)\<rparr>"
  have "bump_count v m = Ok (set_current ?e m)"
    using c assms(2,3) hist_snoc [of v pix] by (simp add: bump_count_def update_image_def get_current_ok)
  moreover have "elem_ok ?e" "content ?e = bs" "GIFtype ?e = 44"
    using c elem_ok_current [OF c(1)] by (simp_all add: elem_ok_def content_def buffer_def)
  moreover obtain e where "m = set_current e m0" using assms(1) by (auto simp: imaging_def)
  ultimately show ?thesis
    using mem_ok_set_current [OF c(1)] by (auto simp: imaging_def intro!: exI [of _ ?e])
qed

lemma imaging_store:
  assumes "imaging m0 meta pix bs m" and "int (length row) = wd"
  shows "mem_safe (store_block env row wd m) (imaging m0 meta pix (bs @ row))"
proof -
  note c = imaging_current [OF assms(1)]
  obtain e0 where m: "m = set_current e0 m0" using assms(1) by (auto simp: imaging_def)
  have "mem_safe (store_block env (row @ []) wd m) (stored m row)"
    by (rule store_block_stored [OF c(1) assms(2)])
  then have "mem_safe (store_block env row wd m) (stored m row)" by simp
  then show ?thesis
  proof (rule mem_safe_mono)
    fix m' assume "stored m row m'"
    then obtain e where e: "mem_ok m'" "m' = set_current e m" "content e = content (elements m ! current m) @ row"
        "GIFtype e = GIFtype (elements m ! current m)" "imagestruct e = imagestruct (elements m ! current m)"
      by (auto simp: stored_def)
    have "m' = set_current e m0" unfolding e(2) by (subst m) simp
    then show "imaging m0 meta pix (bs @ row) m'"
      using e(1,3-5) c(4-6) unfolding imaging_def by metis
  qed
qed

section \<open>Rows\<close>

lemma read_row_pixels:
  assumes "imaging m0 meta pix bs (mem st)" and "lzw_ok (infile st) (lz st)" and "Suc (bits_left (infile st) (lz st)) < fuel"
    and "cmapSize \<le> 256" and "length row = k + n" and "xpos = int k"
  shows "\<exists>complete vs st'. read_row n fuel cmapSize xpos row st =
      Ok (complete, xpos + int (length vs), take k row @ vs @ drop (k + length vs) row, st') \<and>
    imaging m0 meta (pix @ vs) bs (mem st') \<and> (\<forall>v \<in> set vs. uint v < cmapSize) \<and> same_globals st st' \<and>
    statics_ok (lz st') \<and> length (input (infile st')) \<le> length (input (infile st)) \<and> length vs \<le> n \<and>
    (complete \<longrightarrow> length vs = n \<and> lzw_ok (infile st') (lz st') \<and>
       bits_left (infile st') (lz st') \<le> bits_left (infile st) (lz st) \<and>
       pixels_left (infile st') (lz st') \<le> pixels_left (infile st) (lz st)) \<and>
    (\<not> complete \<longrightarrow> length vs < n)"
  using assms
proof (induction n arbitrary: pix st xpos row k)
  case 0
  then show ?case
    by (intro exI [of _ True] exI [of _ "[]"] exI [of _ st]) (simp add: same_globals_def lzw_ok_def)
next
  case (Suc n)
  obtain v fd l where r: "readLWZ fuel (infile st) (lz st) = Ok (v, fd, l)" and p: "pixel_read (infile st) (lz st) v fd l"
    using readLWZ_ok [OF Suc.prems(2,3)] by blast
  let ?st = "st\<lparr>infile := fd, lz := l\<rparr>"
  show ?case
  proof (cases "v < 0 \<or> v \<ge> cmapSize")
    case True
    then show ?thesis
      using r p Suc.prems(1)
      by (intro exI [of _ False] exI [of _ "[]"] exI [of _ ?st]) (auto simp: pixel_read_def same_globals_def)
  next
    case False
    then have q: "lzw_ok fd l" "pixels_left fd l < pixels_left (infile st) (lz st)" "length (input fd) \<le> length (input (infile st))"
      using p by (simp_all add: pixel_read_def)
    have b: "bits_left fd l \<le> bits_left (infile st) (lz st)"
      by (rule bits_pixels [OF q(2) lzw_ok_sp [OF Suc.prems(2)]])
    obtain m' where m': "bump_count v (mem st) = Ok m'" "imaging m0 meta (pix @ [word_of_int v]) bs m'"
      using imaging_bump [OF Suc.prems(1), of v] False Suc.prems(4) by auto
    let ?row = "row[k := word_of_int v]"
    let ?st2 = "?st\<lparr>mem := m'\<rparr>"
    have w: "wr row xpos (word_of_int v) = Ok ?row" using Suc.prems(5,6) by simp
    obtain complete vs st' where IH: "read_row n fuel cmapSize (xpos + 1) ?row ?st2 =
        Ok (complete, xpos + 1 + int (length vs), take (Suc k) ?row @ vs @ drop (Suc k + length vs) ?row, st')"
      "imaging m0 meta ((pix @ [word_of_int v]) @ vs) bs (mem st')" "\<forall>v \<in> set vs. uint v < cmapSize" "same_globals ?st2 st'"
      "statics_ok (lz st')" "length (input (infile st')) \<le> length (input fd)" "length vs \<le> n"
      "complete \<longrightarrow> length vs = n \<and> lzw_ok (infile st') (lz st') \<and> bits_left (infile st') (lz st') \<le> bits_left fd l \<and>
         pixels_left (infile st') (lz st') \<le> pixels_left fd l"
      "\<not> complete \<longrightarrow> length vs < n"
      using Suc.IH [of "pix @ [word_of_int v]" ?st2 ?row "Suc k" "xpos + 1"] m' q b Suc.prems by auto
    have row: "take (Suc k) ?row @ vs @ drop (Suc k + length vs) ?row =
        take k row @ (word_of_int v # vs) @ drop (k + length (word_of_int v # vs)) row"
      using Suc.prems(5) by (simp add: take_Suc_conv_app_nth)
    have "(uint (word_of_int v :: byte)) = v" using False Suc.prems(4) by (simp add: uint_word_of_int)
    then have vs: "\<forall>v' \<in> set (word_of_int v # vs). uint (v' :: byte) < cmapSize" using IH(3) False by simp
    show ?thesis
      by (intro exI [of _ complete] exI [of _ "word_of_int v # vs"] exI [of _ st'])
        (use IH row vs r False m'(1) w q b in \<open>auto simp: same_globals_def Let_def\<close>)
  qed
qed

text \<open>Where reading the rows from \<open>st\<close> on led: everything, or a position before the end.\<close>

definition rows_read ::
  "gif_mem \<Rightarrow> GIFimagestruct \<Rightarrow> byte list \<Rightarrow> int \<Rightarrow> nat \<Rightarrow> nat \<Rightarrow> int \<Rightarrow> gif_state \<Rightarrow> (int \<times> int) option \<times> byte list \<times> gif_state \<Rightarrow> bool" where
  "rows_read m0 meta bs cmapSize n wd ypos st res \<longleftrightarrow> (case res of (stopped, row, st') \<Rightarrow>
     length row = wd \<and> same_globals st st' \<and> statics_ok (lz st') \<and>
     length (input (infile st')) \<le> length (input (infile st)) \<and>
     (case stopped of
        None \<Rightarrow> lzw_ok (infile st') (lz st') \<and> bits_left (infile st') (lz st') \<le> bits_left (infile st) (lz st) \<and>
          pixels_left (infile st') (lz st') \<le> pixels_left (infile st) (lz st) \<and>
          (\<exists>new. imaging m0 meta (bs @ new) (bs @ new) (mem st') \<and> length new = n * wd \<and> (\<forall>b \<in> set new. uint b < cmapSize))
      | Some (x, y) \<Rightarrow> 0 \<le> x \<and> x < int wd \<and> ypos \<le> y \<and> y < ypos + int n \<and>
          (\<exists>new part. imaging m0 meta (bs @ new @ part) (bs @ new) (mem st') \<and> int (length new) = (y - ypos) * int wd \<and>
            int (length part) = x \<and> (\<forall>b \<in> set (new @ part). uint b < cmapSize))))"

lemma read_rows_read:
  assumes "imaging m0 meta bs bs (mem st)" and "lzw_ok (infile st) (lz st)" and "Suc (bits_left (infile st) (lz st)) < fuel"
    and "cmapSize \<le> 256" and "length row = wd"
  shows "mem_safe (read_rows n env fuel (int wd) cmapSize ypos row st) (rows_read m0 meta bs cmapSize n wd ypos st)"
  using assms
proof (induction n arbitrary: bs st ypos row)
  case 0
  then show ?case
    by (auto simp: mem_safe_def rows_read_def same_globals_def lzw_ok_def intro!: exI [of _ "[]"])
next
  case (Suc n)
  obtain complete vs st1 where r: "read_row wd fuel cmapSize 0 row st = Ok (complete, int (length vs), vs @ drop (length vs) row, st1)"
    "imaging m0 meta (bs @ vs) bs (mem st1)" "\<forall>v \<in> set vs. uint v < cmapSize" "same_globals st st1"
    "statics_ok (lz st1)" "length (input (infile st1)) \<le> length (input (infile st))" "length vs \<le> wd"
    and c: "complete \<longrightarrow> length vs = wd \<and> lzw_ok (infile st1) (lz st1) \<and>
       bits_left (infile st1) (lz st1) \<le> bits_left (infile st) (lz st) \<and>
       pixels_left (infile st1) (lz st1) \<le> pixels_left (infile st) (lz st)" "\<not> complete \<longrightarrow> length vs < wd"
    using read_row_pixels [OF Suc.prems(1-4), of row 0 wd 0] Suc.prems(5) by auto
  show ?case
  proof (cases complete)
    case False
    have "read_rows (Suc n) env fuel (int wd) cmapSize ypos row st =
        Ok (Some (int (length vs), ypos), vs @ drop (length vs) row, st1)"
      using r(1) False by simp
    moreover have "rows_read m0 meta bs cmapSize (Suc n) wd ypos st (Some (int (length vs), ypos), vs @ drop (length vs) row, st1)"
      using r c(2) False Suc.prems(5) by (auto simp: rows_read_def intro!: exI [of _ "[]"] exI [of _ vs])
    ultimately show ?thesis by (simp add: mem_safe_def)
  next
    case True
    have row: "vs @ drop (length vs) row = vs" using c(1) True Suc.prems(5) by simp
    have eq: "read_rows (Suc n) env fuel (int wd) cmapSize ypos row st = bindR (store_block env vs (int wd) (mem st1)) (\<lambda>m.
         read_rows n env fuel (int wd) cmapSize (ypos + 1) vs (st1\<lparr>mem := m\<rparr>))"
      using r(1) True row by simp
    have st: "mem_safe (store_block env vs (int wd) (mem st1)) (imaging m0 meta (bs @ vs) (bs @ vs))"
      by (rule imaging_store [OF r(2)]) (use c(1) True in simp)
    show ?thesis
      unfolding eq
    proof (rule mem_safe_bind [OF st])
      fix m assume im: "imaging m0 meta (bs @ vs) (bs @ vs) m"
      let ?st = "st1\<lparr>mem := m\<rparr>"
      have "mem_safe (read_rows n env fuel (int wd) cmapSize (ypos + 1) vs ?st)
          (rows_read m0 meta (bs @ vs) cmapSize n wd (ypos + 1) ?st)"
        by (rule Suc.IH) (use im c(1) True Suc.prems in auto)
      then show "mem_safe (read_rows n env fuel (int wd) cmapSize (ypos + 1) vs ?st) (rows_read m0 meta bs cmapSize (Suc n) wd ypos st)"
      proof (rule mem_safe_mono)
        fix res assume a: "rows_read m0 meta (bs @ vs) cmapSize n wd (ypos + 1) ?st res"
        obtain stopped row' st' where res: "res = (stopped, row', st')" by (cases res)
        show "rows_read m0 meta bs cmapSize (Suc n) wd ypos st res"
        proof (cases stopped)
          case None
          then obtain new where "imaging m0 meta (bs @ vs @ new) (bs @ vs @ new) (mem st')" "length new = n * wd" "\<forall>b \<in> set new. uint b < cmapSize"
            using a res by (auto simp: rows_read_def)
          then have "\<exists>new. imaging m0 meta (bs @ new) (bs @ new) (mem st') \<and> length new = Suc n * wd \<and> (\<forall>b \<in> set new. uint b < cmapSize)"
            using c(1) True r(3) by (intro exI [of _ "vs @ new"]) auto
          then show ?thesis using a res None c(1) True r(4,6) by (auto simp: rows_read_def same_globals_def)
        next
          case (Some xy)
          obtain x y where xy: "xy = (x, y)" by (cases xy)
          then obtain new part where n: "imaging m0 meta (bs @ vs @ new @ part) (bs @ vs @ new) (mem st')" "int (length new) = (y - (ypos + 1)) * int wd"
            "int (length part) = x" "\<forall>b \<in> set (new @ part). uint b < cmapSize" "ypos + 1 \<le> y" "y < ypos + 1 + int n" "0 \<le> x" "x < int wd"
            using a res Some by (auto simp: rows_read_def)
          have "int (length (vs @ new)) = (y - ypos) * int wd" using n(2) c(1) True by (simp add: algebra_simps)
          then have "\<exists>new part. imaging m0 meta (bs @ new @ part) (bs @ new) (mem st') \<and> int (length new) = (y - ypos) * int wd \<and>
              int (length part) = x \<and> (\<forall>b \<in> set (new @ part). uint b < cmapSize)"
            using n r(3) by (intro exI [of _ "vs @ new"] exI [of _ part]) auto
          then show ?thesis using a res Some xy n(5-8) r(4,6) by (auto simp: rows_read_def same_globals_def)
        qed
      qed
    qed
  qed
qed

section \<open>Images\<close>

definition image_meta :: "int \<Rightarrow> int \<Rightarrow> int \<Rightarrow> int \<Rightarrow> gif_color list \<Rightarrow> bool \<Rightarrow> gif_state \<Rightarrow> GIFimagestruct" where
  "image_meta x_off y_off wd ht cmap interlaced st = \<lparr>colors = cmap, color_count = replicate 256 0, offset_x = x_off,
     offset_y = y_off, width = wd, height = ht, trans = transparent (Gif89 st), interlace = interlaced\<rparr>"

text \<open>The outcome of \<open>ReadImage\<close>: 0 with a complete image behind the current element, or 1.\<close>

definition image_result :: "GIFimagestruct \<Rightarrow> int \<Rightarrow> gif_state \<Rightarrow> int \<times> gif_state \<Rightarrow> bool" where
  "image_result meta cmapSize st res \<longleftrightarrow> (case res of (r, st') \<Rightarrow> mem_ok (mem st') \<and> statics_ok (lz st') \<and>
     length (input (infile st')) \<le> length (input (infile st)) \<and> (r = 0 \<or> r = 1) \<and>
     (r = 0 \<longrightarrow> (\<exists>e. elements (mem st') = take (Suc (current (mem st))) (elements (mem st)) @ [e] \<and>
        current (mem st') = Suc (current (mem st)) \<and> image_element meta cmapSize e)))"

definition new_image :: "gif_mem \<Rightarrow> gif_mem" where
  "new_image m = m\<lparr>elements := take (Suc (current m)) (elements m) @
     [zero_element\<lparr>GIFtype := 44, imagestruct := Some zero_image\<rparr>], current := Suc (current m)\<rparr>"

lemma start_image:
  assumes "mem_ok m"
  shows "mem_safe
    (bindR (allocate_image env m) (\<lambda>m.
     bindR (set_size env sz m) (\<lambda>m.
     bindR (xalloc env wd) (\<lambda>row.
     bindR (update_image (\<lambda>img. Ok (img\<lparr>offset_x := x_off, offset_y := y_off, width := wd, height := ht,
            trans := t, interlace := i, colors := cmap, color_count := replicate 256 0\<rparr>)) m) (\<lambda>m. Ok (row, m))))))
    (\<lambda>(row, m'). length row = nat wd \<and> imaging (new_image m) \<lparr>colors = cmap, color_count = replicate 256 0, offset_x = x_off,
     offset_y = y_off, width = wd, height = ht, trans = t, interlace = i\<rparr> [] [] m')"
proof (rule mem_safe_bind [OF allocate_image_new [OF assms]], elim conjE)
  fix m1 assume m1: "mem_ok m1" "elements m1 ! current m1 = zero_element\<lparr>GIFtype := 44, imagestruct := Some zero_image\<rparr>"
    and "m1 = m\<lparr>elements := take (Suc (current m)) (elements m) @
      [zero_element\<lparr>GIFtype := 44, imagestruct := Some zero_image\<rparr>], current := Suc (current m)\<rparr>"
  then have eq: "m1 = new_image m" by (simp add: new_image_def)
  let ?meta = "\<lparr>colors = cmap, color_count = replicate 256 0, offset_x = x_off,
     offset_y = y_off, width = wd, height = ht, trans = t, interlace = i\<rparr>"
  let ?f = "\<lambda>img. Ok (img\<lparr>offset_x := x_off, offset_y := y_off, width := wd, height := ht,
            trans := t, interlace := i, colors := cmap, color_count := replicate 256 0\<rparr>)"
  show "mem_safe (bindR (set_size env sz m1) (\<lambda>m. bindR (xalloc env wd) (\<lambda>row. bindR (update_image ?f m) (\<lambda>m. Ok (row, m)))))
    (\<lambda>(row, m'). length row = nat wd \<and> imaging (new_image m) ?meta [] [] m')"
  proof (rule mem_safe_bind [OF set_size_room [OF m1(1)]], elim exE conjE)
    fix m2 e assume m2: "m2 = set_current e m1" and r: "room sz (elements m1 ! current m1) e"
    have e: "elem_ok e" "content e = []" "GIFtype e = 44" "imagestruct e = Some zero_image"
      using r m1(2) by (auto simp: room_def content_def buffer_def zero_element_def)
    let ?e = "e\<lparr>imagestruct := Some ?meta\<rparr>"
    have u: "update_image ?f m2 = Ok (set_current ?e m1)"
      using m2 m1(1) e(4) by (simp add: update_image_def zero_image_def)
    have "elem_ok ?e" "content ?e = []" using e(1,2) by (simp_all add: elem_ok_def content_def buffer_def)
    then have "imaging (new_image m) ?meta [] [] (set_current ?e m1)"
      using mem_ok_set_current [OF m1(1)] e(3) by (auto simp: imaging_def eq hist_Nil intro!: exI [of _ ?e])
    then show "mem_safe (bindR (xalloc env wd) (\<lambda>row. bindR (update_image ?f m2) (\<lambda>m. Ok (row, m))))
      (\<lambda>(row, m'). length row = nat wd \<and> imaging (new_image m) ?meta [] [] m')"
      unfolding u by (auto simp: xalloc_def mem_safe_def)
  qed
qed

lemma finish_image_result:
  assumes "imaging (new_image m) meta pix pix (mem st)" and "mem_ok m" and "int (length pix) = width meta * height meta"
    and "\<forall>b \<in> set pix. uint b < cmapSize" and "lzw_ok (infile st) (lz st)" and "Suc (bits_left (infile st) (lz st)) < fuel"
    and "pixels_left (infile st) (lz st) < pixels" and "mem st0 = m" and "length (input (infile st)) \<le> length (input (infile st0))"
  shows "mem_safe (finish_image env fuel pixels st) (image_result meta cmapSize st0)"
proof -
  obtain fd l where d: "drain_pixels pixels fuel (infile st) (lz st) = Ok (fd, l)" "statics_ok l"
    "length (input fd) \<le> length (input (infile st))"
    using drain_pixels_ok [OF assms(5-7)] by blast
  note c = imaging_current [OF assms(1)]
  obtain e0 where m0: "mem st = set_current e0 (new_image m)" using assms(1) by (auto simp: imaging_def)
  have sz: "elem_size (elements (mem st) ! current (mem st)) = int (length pix)"
    using content_length [OF elem_ok_current [OF c(1)]] c(4) elem_ok_current [OF c(1)] by (simp add: elem_ok_def)
  show ?thesis
    unfolding finish_image_def d bindR.simps prod.case
  proof (rule mem_safe_bind [OF fix_current_trims [OF c(1) refl]], elim conjE exE)
    fix m' e assume a: "mem_ok m'" "m' = set_current e (mem st)" "buffer e = content (elements (mem st) ! current (mem st))"
      "elem_size e = elem_size (elements (mem st) ! current (mem st))" "GIFtype e = GIFtype (elements (mem st) ! current (mem st))"
      "imagestruct e = imagestruct (elements (mem st) ! current (mem st))"
    have "m' = set_current e (new_image m)" unfolding a(2) by (subst m0) simp
    then have m': "elements m' = take (Suc (current m)) (elements m) @ [e]" "current m' = Suc (current m)"
      using assms(2) by (simp_all add: set_current_def new_image_def mem_ok_def list_update_append)
    have "image_element meta cmapSize e"
      using a(3-6) c(4-6) sz assms(3,4) by (simp add: image_element_def)
    then show "mem_safe (Ok (0, st\<lparr>infile := fd, lz := l, mem := m', Gif89 := gif89_reset\<rparr>)) (image_result meta cmapSize st0)"
      using a(1) d m' assms(8,9) by (simp add: mem_safe_def image_result_def)
  qed
qed

lemma ReadImage_result:
  assumes "mem_ok (mem st)" and "statics_ok (lz st)" and "\<not> recover st" and "0 \<le> wd" and "0 \<le> ht" and "cmapSize \<le> 256"
    and "input (infile st) = c # r" and "uint c \<le> 29" and "wide_blocks r" and "8 * length r + 13 < fuel"
    and "(8 * length r + 12) * 8193 < pixels"
  shows "mem_safe (ReadImage env fuel pixels x_off y_off wd ht cmapSize cmap interlaced st)
    (image_result (image_meta x_off y_off wd ht cmap interlaced st) cmapSize st)"
proof -
  let ?fd = "(infile st)\<lparr>input := r\<rparr>" and ?meta = "image_meta x_off y_off wd ht cmap interlaced st"
  let ?st = "st\<lparr>infile := ?fd\<rparr>"
  have rd: "ReadOK 1 (infile st) = (True, [c], ?fd)" using assms(7) by (simp add: ReadOK_def)
  obtain l where i: "initLWZ (uint c) (lz st) = Ok l" "lzw_ok ?fd l" "bits_left ?fd l = 8 * length r + 12" "sp l = 0"
    using initLWZ_ok [OF assms(2), of "uint c" ?fd] assms(8,9) by auto
  note start = start_image [OF assms(1), where env = env and sz = "wd * ht" and wd = wd and x_off = x_off and y_off = y_off
      and ht = ht and t = "transparent (Gif89 st)" and i = interlaced and cmap = cmap, folded image_meta_def]
  define k where "k = (\<lambda>(row, m). bindR (read_rows (nat ht) env fuel wd cmapSize 0 row (?st\<lparr>lz := l, mem := m\<rparr>))
     (\<lambda>(stopped, row, st). case stopped of
            None \<Rightarrow> finish_image env fuel pixels st
          | Some (xpos, ypos) \<Rightarrow>
              if xpos > 0 \<or> ypos > 0 then
                if recover st then
                  bindR (recover_image env interlaced wd ht xpos ypos row (mem st)) (\<lambda>m.
                    finish_image env fuel pixels (st\<lparr>mem := m\<rparr>))
                else Ok (1, snd (check_recover True st))
              else Ok (1, st)))"
  have eq: "ReadImage env fuel pixels x_off y_off wd ht cmapSize cmap interlaced st =
    bindR (bindR (allocate_image env (mem st)) (\<lambda>m. bindR (set_size env (wd * ht) m) (\<lambda>m. bindR (xalloc env wd) (\<lambda>row.
     bindR (update_image (\<lambda>img. Ok (img\<lparr>offset_x := x_off, offset_y := y_off, width := wd, height := ht,
            trans := transparent (Gif89 st), interlace := interlaced, colors := cmap, color_count := replicate 256 0\<rparr>)) m)
       (\<lambda>m. Ok (row, m)))))) k"
    by (simp add: ReadImage_def rd i(1) k_def del: One_nat_def)
  show ?thesis
    unfolding eq
  proof (rule mem_safe_bind [OF start], clarify)
    fix row :: "byte list" and m assume row: "length row = nat wd" and im: "imaging (new_image (mem st)) ?meta [] [] m"
    let ?st1 = "?st\<lparr>lz := l, mem := m\<rparr>"
    have rr: "mem_safe (read_rows (nat ht) env fuel (int (nat wd)) cmapSize 0 row ?st1)
        (rows_read (new_image (mem st)) ?meta [] cmapSize (nat ht) (nat wd) 0 ?st1)"
      by (rule read_rows_read) (use im i assms row in simp_all)
    show "mem_safe (k (row, m)) (image_result ?meta cmapSize st)"
      unfolding k_def prod.case
    proof (rule mem_safe_bind [OF rr [simplified assms(4) int_nat_eq if_True]])
      fix res assume a: "rows_read (new_image (mem st)) ?meta [] cmapSize (nat ht) (nat wd) 0 ?st1 res"
      obtain stopped row' st' where res: "res = (stopped, row', st')" by (cases res)
      show "mem_safe (case res of (stopped, row, st) \<Rightarrow> case stopped of
            None \<Rightarrow> finish_image env fuel pixels st
          | Some (xpos, ypos) \<Rightarrow>
              if xpos > 0 \<or> ypos > 0 then
                if recover st then
                  bindR (recover_image env interlaced wd ht xpos ypos row (mem st)) (\<lambda>m.
                    finish_image env fuel pixels (st\<lparr>mem := m\<rparr>))
                else Ok (1, snd (check_recover True st))
              else Ok (1, st)) (image_result ?meta cmapSize st)"
      proof (cases stopped)
        case None
        then obtain new where n: "imaging (new_image (mem st)) ?meta new new (mem st')" "length new = nat ht * nat wd" "\<forall>b \<in> set new. uint b < cmapSize"
          and q: "lzw_ok (infile st') (lz st')" "bits_left (infile st') (lz st') \<le> 8 * length r + 12"
            "pixels_left (infile st') (lz st') \<le> (8 * length r + 12) * 8193" "length (input (infile st')) \<le> length r"
          using a i by (auto simp: rows_read_def res pixels_left_def)
        have "mem_safe (finish_image env fuel pixels st') (image_result ?meta cmapSize st)"
          by (rule finish_image_result [OF n(1) assms(1) _ n(3) q(1)])
            (use n q assms in \<open>simp_all add: image_meta_def\<close>)
        then show ?thesis by (simp add: res None)
      next
        case (Some xy)
        then obtain new part where "imaging (new_image (mem st)) ?meta (new @ part) new (mem st')"
          using a by (auto simp: rows_read_def res)
        then have ok: "mem_ok (mem st')" by (rule imaging_current)
        have s: "statics_ok (lz st')" "length (input (infile st')) \<le> length r" "\<not> recover st'"
          using a assms(3) by (simp_all add: rows_read_def res same_globals_def)
        then show ?thesis using ok assms(7)
          by (auto simp: res Some mem_safe_def image_result_def check_recover_def split: prod.split)
      qed
    qed
  qed
qed

section \<open>Recovery\<close>

lemma pass_shapes: "(8 * k + 4) mod (8 :: int) \<noteq> 0" "(4 * k + 2) mod (8 :: int) \<noteq> 0" "(2 * k + 1) mod (8 :: int) \<noteq> 0"
  by presburger+

lemma later_pass:
  assumes "rows1 h \<le> l" and "l \<le> h" and "0 \<le> h"
  shows "inv_interlace_line h l mod 8 \<noteq> 0"
proof -
  consider k where "l = rows1 h + k" "0 \<le> k" "k < rows2 h"
    | k where "l = rows1 h + rows2 h + k" "0 \<le> k" "k < rows3 h"
    | k where "l = rows1 h + rows2 h + rows3 h + k" "0 \<le> k"
    using assms(1) that(1) [of "l - rows1 h"] that(2) [of "l - rows1 h - rows2 h"] that(3) [of "l - rows1 h - rows2 h - rows3 h"]
    by linarith
  then show ?thesis
  proof cases
    case 1
    then show ?thesis using assms(2,3) inv_interlace_line_pass(2) [of k h] pass_shapes(1) [of k] by simp
  next
    case 2
    then show ?thesis using assms(2,3) inv_interlace_line_pass(3) [of k h] pass_shapes(2) [of k] by simp
  next
    case 3
    then show ?thesis using assms(2,3) inv_interlace_line_pass(4) [of k h] pass_shapes(3) [of k] by simp
  qed
qed

lemma first_pass_iff:
  assumes "0 \<le> l" and "l \<le> h"
  shows "inv_interlace_line h l AND 7 = 0 \<longleftrightarrow> l < rows1 h"
proof (cases "l < rows1 h")
  case True
  then show ?thesis using inv_interlace_line_pass(1) [of l h] assms by (simp add: and_mod)
next
  case False
  then show ?thesis using later_pass [of h l] assms by (simp add: and_mod)
qed

lemma prev_loaded_ok:
  assumes "0 \<le> k" and "8 * k \<le> p" and "p \<le> 8 * k + int n" and "k < line"
  shows "\<exists>q. prev_loaded n ht line p = Ok q \<and> 8 * k \<le> q \<and> q \<le> p \<and> interlace_line ht q < line"
  using assms
proof (induction n arbitrary: p)
  case 0
  then show ?case by (auto simp: interlace_line_pass)
next
  case (Suc n)
  show ?case
  proof (cases "interlace_line ht p \<ge> line")
    case True
    then have "p \<noteq> 8 * k" using Suc.prems by (auto simp: interlace_line_pass)
    then have "\<exists>q. prev_loaded n ht line (p - 1) = Ok q \<and> 8 * k \<le> q \<and> q \<le> p - 1 \<and> interlace_line ht q < line"
      using Suc.prems by (intro Suc.IH) auto
    then show ?thesis using True by auto
  next
    case False
    then show ?thesis using Suc.prems by auto
  qed
qed

text \<open>The row that \<open>get_prev_line\<close> copies from is one that has been stored.\<close>

lemma get_prev_line_ok:
  assumes "rows1 ht \<le> line" and "line < ht" and "0 < ht"
  shows "\<exists>q. get_prev_line wd ht line = Ok (wd * q) \<and> 0 \<le> q \<and> q < line"
proof -
  let ?r = "inv_interlace_line ht line"
  have l0: "0 \<le> line" using assms by linarith
  have r: "?r mod 8 \<noteq> 0" using later_pass assms by simp
  have "interlace_line ht ?r = line" "0 \<le> ?r" "?r < ht"
  proof -
    obtain l where l: "0 \<le> l" "l < ht" "interlace_line ht l = line"
      using interlace_onto [of line ht] l0 assms(2) by auto
    then show "interlace_line ht ?r = line" "0 \<le> ?r" "?r < ht" using inv_interlace_inverse by auto
  qed
  then have k: "0 \<le> ?r div 8" "8 * (?r div 8) < ht" by simp_all
  then have "?r div 8 < line" using pass_rows(1) [of "?r div 8" ht] assms(1) by linarith
  moreover have "8 * (?r div 8) \<le> ?r - 1" "?r - 1 \<le> 8 * (?r div 8) + int 8"
    using r mult_div_mod_eq [of 8 ?r] pos_mod_bound [of 8 ?r] pos_mod_sign [of 8 ?r] by linarith+
  ultimately obtain q where q: "prev_loaded 8 ht line (?r - 1) = Ok q" "8 * (?r div 8) \<le> q" "q \<le> ?r - 1" "interlace_line ht q < line"
    using prev_loaded_ok [OF k(1), of "?r - 1" 8 line ht] by auto
  then have "0 \<le> interlace_line ht q"
    using interlace_range [of q ht] k(1) \<open>?r < ht\<close> by auto
  then show ?thesis using q by (auto simp: get_prev_line_def)
qed

lemma copy_prev_line_ok:
  assumes "imaging m0 meta pix bs m" and "int (length bs) = ypos * wd" and "rows1 ht \<le> ypos" and "ypos < ht" and "0 < ht"
    and "0 \<le> xpos" and "xpos < wd" and "int (length row) = wd"
  shows "\<exists>row'. copy_prev_line wd ht ypos xpos row m = Ok row' \<and> int (length row') = wd \<and> take (nat xpos) row' = take (nat xpos) row"
proof -
  obtain q where q: "get_prev_line wd ht ypos = Ok (wd * q)" "0 \<le> q" "q < ypos"
    using get_prev_line_ok [OF assms(3-5)] by blast
  note c = imaging_current [OF assms(1)]
  let ?c = "elements m ! current m"
  have le: "wd * q + wd \<le> ypos * wd"
  proof -
    have "(q + 1) * wd \<le> ypos * wd" using q(3) assms(6,7) by (intro mult_right_mono) auto
    then show ?thesis by (simp add: algebra_simps)
  qed
  have lb: "length bs \<le> length (buffer ?c)" using c(4) by (auto simp: content_def)
  have "bs \<noteq> []" using assms(2,6,7) q by (auto simp: zero_less_mult_iff)
  then obtain d where d: "data ?c = Some d" using lb by (cases "data ?c") (auto simp: buffer_def)
  have "wd * q + xpos + (wd - xpos) \<le> int (length d)" using le lb assms(2) d by (simp add: buffer_def)
  moreover have "0 \<le> wd * q" using q(2) assms(6,7) by simp
  ultimately have rb: "rd_block d (wd * q + xpos) (wd - xpos) = Ok (take (nat (wd - xpos)) (drop (nat (wd * q + xpos)) d))"
    and len: "length (take (nat (wd - xpos)) (drop (nat (wd * q + xpos)) d)) = nat (wd - xpos)"
    using assms(6,7) by (auto simp: rd_block_def)
  show ?thesis
    using q(1) c(1) d rb len assms(6-8)
    by (simp add: copy_prev_line_def get_current_ok wr_block_def)
qed

text \<open>The rows stored so far, and the memory when \<open>n\<close> rows are there.\<close>

definition rows_stored :: "gif_mem \<Rightarrow> GIFimagestruct \<Rightarrow> byte list \<Rightarrow> byte list \<Rightarrow> int \<Rightarrow> int \<Rightarrow> gif_mem \<Rightarrow> bool" where
  "rows_stored m0 meta pix bs wd n m \<longleftrightarrow> (\<exists>more. imaging m0 meta pix (bs @ more) m \<and> int (length (bs @ more)) = n * wd)"

lemma rows_stored_row:
  assumes "rows_stored m0 meta pix bs wd n m" and "int (length row) = wd"
  shows "mem_safe (store_block env row wd m) (rows_stored m0 meta pix bs wd (n + 1))"
proof -
  obtain more where "imaging m0 meta pix (bs @ more) m" "int (length (bs @ more)) = n * wd"
    using assms(1) by (auto simp: rows_stored_def)
  then show ?thesis
    using assms(2) by (intro mem_safe_mono [OF imaging_store [OF _ assms(2)]])
      (auto simp: rows_stored_def algebra_simps intro!: exI [of _ "more @ row"])
qed

lemma store_rows_ok:
  assumes "rows_stored m0 meta pix bs wd n m" and "int (length row) = wd"
  shows "mem_safe (store_rows k env row wd m) (rows_stored m0 meta pix bs wd (n + int k))"
  using assms(1)
proof (induction k arbitrary: m n)
  case (Suc k)
  have n: "n + int (Suc k) = n + 1 + int k" by simp
  show ?case
    unfolding store_rows.simps n
    by (rule mem_safe_bind [OF rows_stored_row [OF Suc.prems assms(2)]]) (rule Suc.IH)
qed (simp add: mem_safe_def)

lemma fill_first_pass_ok:
  assumes "rows_stored m0 meta pix bs wd ypos m" and "int (length row) = wd" and "0 \<le> ypos" and "ypos \<le> ht" and "rows1 ht \<le> ypos + int n"
  shows "mem_safe (fill_first_pass n env wd ht ypos row m)
    (\<lambda>(y, m'). ypos \<le> y \<and> rows1 ht \<le> y \<and> y \<le> ht \<and> rows_stored m0 meta pix bs wd y m')"
  using assms(1,3-5)
proof (induction n arbitrary: m ypos)
  case 0
  then show ?case using first_pass_iff [of ypos ht] by (auto simp: mem_safe_def)
next
  case (Suc n)
  show ?case
  proof (cases "ypos < rows1 ht")
    case True
    then have "ypos + 1 \<le> ht" using Suc.prems(2) pass_rows(1) [of ypos ht] by linarith
    then have "mem_safe (bindR (store_block env row wd m) (fill_first_pass n env wd ht (ypos + 1) row))
      (\<lambda>(y, m'). ypos \<le> y \<and> rows1 ht \<le> y \<and> y \<le> ht \<and> rows_stored m0 meta pix bs wd y m')"
      using Suc.prems
      by (intro mem_safe_bind [OF rows_stored_row [OF Suc.prems(1) assms(2)]] mem_safe_mono [OF Suc.IH [of "ypos + 1"]]) auto
    then show ?thesis using True Suc.prems first_pass_iff [of ypos ht] by simp
  next
    case False
    then show ?thesis using Suc.prems first_pass_iff [of ypos ht] by (auto simp: mem_safe_def)
  qed
qed

lemma fill_other_passes_ok:
  assumes "rows_stored m0 meta pix bs wd ypos m" and "int (length row) = wd" and "rows1 ht \<le> ypos" and "ypos + int n = ht"
    and "0 < ht" and "0 < wd"
  shows "mem_safe (fill_other_passes n env wd ht ypos row m) (rows_stored m0 meta pix bs wd ht)"
  using assms(1-4)
proof (induction n arbitrary: m ypos row)
  case 0
  then show ?case by (simp add: mem_safe_def)
next
  case (Suc n)
  obtain more where "imaging m0 meta pix (bs @ more) m" "int (length (bs @ more)) = ypos * wd"
    using Suc.prems(1) by (auto simp: rows_stored_def)
  then obtain row' where r: "copy_prev_line wd ht ypos 0 row m = Ok row'" "int (length row') = wd"
    using copy_prev_line_ok [of m0 meta pix "bs @ more" m ypos wd ht 0 row] Suc.prems assms(5,6) by auto
  show ?case
    unfolding fill_other_passes.simps r bindR.simps
    by (rule mem_safe_bind [OF rows_stored_row [OF Suc.prems(1) r(2)]], rule Suc.IH) (use Suc.prems r(2) in auto)
qed

lemma rows_stored_prefix: "rows_stored m0 meta pix (bs @ cs) wd n m \<Longrightarrow> rows_stored m0 meta pix bs wd n m"
  unfolding rows_stored_def by (metis append.assoc)

lemma clear_from_ok:
  assumes "int (length row) = wd" and "0 \<le> xpos" and "xpos \<le> wd"
  shows "\<exists>row'. clear_from row xpos wd = Ok row' \<and> int (length row') = wd \<and> take (nat xpos) row' = take (nat xpos) row"
  using assms by (simp add: clear_from_def wr_block_def)

text \<open>The row that was being read is completed and stored.\<close>

lemma rows_stored_partial:
  assumes "imaging m0 meta pix new m" and "int (length new) = ypos * wd" and "int (length row) = wd"
    and "take (nat xpos) row = take (nat xpos) row0"
  shows "mem_safe (store_block env row wd m) (rows_stored m0 meta pix (new @ take (nat xpos) row0) wd (ypos + 1))"
proof (rule mem_safe_mono [OF imaging_store [OF assms(1,3)]])
  fix m' assume i: "imaging m0 meta pix (new @ row) m'"
  have "new @ row = (new @ take (nat xpos) row0) @ drop (nat xpos) row"
    unfolding append.assoc assms(4) [symmetric] append_take_drop_id ..
  moreover have "int (length (new @ row)) = (ypos + 1) * wd" using assms(2,3) by (simp add: algebra_simps)
  ultimately show "rows_stored m0 meta pix (new @ take (nat xpos) row0) wd (ypos + 1) m'"
    unfolding rows_stored_def using i by metis
qed

lemma fill_rest_ok:
  assumes "rows_stored m0 meta pix bs wd ypos m" and "int (length row) = wd" and "0 \<le> ypos" and "ypos \<le> ht" and "0 < wd" and "0 < ht"
  shows "mem_safe (bindR (clear_from row 0 wd) (\<lambda>row.
      bindR (fill_first_pass (nat ht) env wd ht ypos row m) (\<lambda>(ypos, m).
        fill_other_passes (nat (ht - ypos)) env wd ht ypos row m))) (rows_stored m0 meta pix bs wd ht)"
proof -
  obtain row' where r: "clear_from row 0 wd = Ok row'" "int (length row') = wd"
    using clear_from_ok [OF assms(2), of 0] assms(5) by auto
  have "rows1 ht \<le> ypos + int (nat ht)" using assms(3,6) by simp
  note f = fill_first_pass_ok [OF assms(1) r(2) assms(3,4) this, of env]
  show ?thesis
    unfolding r bindR.simps
  proof (rule mem_safe_bind [OF f])
    fix res assume a: "case res of (y, m') \<Rightarrow> ypos \<le> y \<and> rows1 ht \<le> y \<and> y \<le> ht \<and> rows_stored m0 meta pix bs wd y m'"
    obtain y m' where res: "res = (y, m')" by (cases res)
    show "mem_safe (case res of (ypos, m) \<Rightarrow> fill_other_passes (nat (ht - ypos)) env wd ht ypos row' m) (rows_stored m0 meta pix bs wd ht)"
      using a fill_other_passes_ok [OF _ r(2), of m0 meta pix bs y m' ht "nat (ht - y)" env] assms(5,6) by (simp add: res)
  qed
qed

text \<open>C30: Recovery of an image whose data ends inside row \<open>ypos\<close>: \<open>recover_image\<close> reads and writes only
  inside its arrays, keeps the rows that are stored and the pixels of the row that was being read, and
  leaves exactly \<open>height\<close> rows, for progressive and for interlaced images.\<close>

theorem recovered_image_complete:
  assumes "imaging m0 meta pix new m" and "int (length new) = ypos * wd" and "int (length row) = wd"
    and "0 \<le> xpos" and "xpos < wd" and "0 \<le> ypos" and "ypos < ht"
  shows "mem_safe (recover_image env interlaced wd ht xpos ypos row m)
    (rows_stored m0 meta pix (new @ take (nat xpos) row) wd ht)"
proof (cases interlaced)
  case False
  obtain row1 where r: "clear_from row xpos wd = Ok row1" "int (length row1) = wd" "take (nat xpos) row1 = take (nat xpos) row"
    using clear_from_ok [OF assms(3,4)] assms(5) by auto
  obtain row2 where r2: "clear_from row1 0 wd = Ok row2" "int (length row2) = wd"
    using clear_from_ok [OF r(2), of 0] assms(4,5) by auto
  have ht: "ht = ypos + 1 + int (nat (ht - (ypos + 1)))" using assms(7) by simp
  have "mem_safe (bindR (store_block env row1 wd m) (store_rows (nat (ht - (ypos + 1))) env row2 wd))
    (rows_stored m0 meta pix (new @ take (nat xpos) row) wd (ypos + 1 + int (nat (ht - (ypos + 1)))))"
    by (rule mem_safe_bind [OF rows_stored_partial [OF assms(1,2) r(2,3)]]) (rule store_rows_ok [OF _ r2(2)])
  then show ?thesis using False ht by (simp add: recover_image_def r r2)
next
  case True
  have pos: "0 < wd" "0 < ht" using assms(4-7) by linarith+
  show ?thesis
  proof (cases "xpos > 0")
    case False
    have "rows_stored m0 meta pix new wd ypos m" using assms(1,2) by (auto simp: rows_stored_def intro!: exI [of _ "[]"])
    from fill_rest_ok [OF this assms(3,6) _ pos, of env] show ?thesis
      using True False assms(4,7) by (simp add: recover_image_def)
  next
    case x: True
    obtain row1 where r: "(if inv_interlace_line ht ypos AND 7 = 0 then clear_from row xpos wd
        else copy_prev_line wd ht ypos xpos row m) = Ok row1" "int (length row1) = wd" "take (nat xpos) row1 = take (nat xpos) row"
    proof (cases "ypos < rows1 ht")
      case True
      then show ?thesis using that clear_from_ok [OF assms(3,4)] first_pass_iff [of ypos ht] assms(5-7) by auto
    next
      case False
      then show ?thesis
        using that copy_prev_line_ok [OF assms(1,2), of ht xpos row] first_pass_iff [of ypos ht] assms(3-7) pos by auto
    qed
    have "mem_safe (bindR (store_block env row1 wd m) (\<lambda>m. bindR (clear_from row1 0 wd) (\<lambda>row.
        bindR (fill_first_pass (nat ht) env wd ht (ypos + 1) row m) (\<lambda>(ypos, m).
          fill_other_passes (nat (ht - ypos)) env wd ht ypos row m)))) (rows_stored m0 meta pix (new @ take (nat xpos) row) wd ht)"
      by (rule mem_safe_bind [OF rows_stored_partial [OF assms(1,2) r(2,3)]], rule fill_rest_ok [OF _ r(2)])
        (use assms(6,7) pos in auto)
    then show ?thesis using True x r(1) by (simp add: recover_image_def bindR_assoc)
  qed
qed

definition sample_broken :: gif_mem where
  "sample_broken = set_current \<lparr>GIFtype = 44, data = Some [1, 2], allocated_size = 2, elem_size = 2,
     imagestruct = Some (zero_image\<lparr>color_count := hist [1, 2, 1]\<rparr>)\<rparr> mem_start"

theorem recovered_image_complete_witness:
  "mem_safe (recover_image sample_gif_env True 2 3 1 1 [1, 9] sample_broken)
    (rows_stored mem_start zero_image [1, 2, 1] ([1, 2] @ take (nat 1) [1, 9]) 2 3)"
proof (rule recovered_image_complete)
  let ?e = "\<lparr>GIFtype = 44, data = Some [1, 2], allocated_size = 2, elem_size = 2,
     imagestruct = Some (zero_image\<lparr>color_count := hist [1, 2, 1]\<rparr>)\<rparr>"
  have "elem_ok ?e" "content ?e = [1, 2]" by (simp_all add: elem_ok_def buffer_def content_def)
  then show "imaging mem_start zero_image [1, 2, 1] [1, 2] sample_broken"
    using mem_ok_set_current [OF mem_start_ok, of ?e]
    by (auto simp: imaging_def sample_broken_def intro!: exI [of _ ?e])
qed simp_all

text \<open>C3: \<open>ReadImage\<close> without recovery, on a file whose LZW blocks have at least two bytes and whose code
  size is at most 29: it returns without leaving an array, with 0 or 1, or the allocator ends the
  program. With 0, exactly one element follows the current one; it holds width times height pixels,
  each below the size of the colour map, and \<open>color_count\<close> is the histogram of these pixels.\<close>

theorem image_decoded:
  assumes "mem_ok (mem st)" and "statics_ok (lz st)" and "\<not> recover st" and "0 \<le> wd" and "0 \<le> ht" and "cmapSize \<le> 256"
    and "input (infile st) = c # r" and "uint c \<le> 29" and "wide_blocks r" and "8 * length r + 13 < fuel"
    and "(8 * length r + 12) * 8193 < pixels"
  shows "mem_safe (ReadImage env fuel pixels x_off y_off wd ht cmapSize cmap interlaced st)
    (image_result (image_meta x_off y_off wd ht cmap interlaced st) cmapSize st)"
  using assms by (rule ReadImage_result)

text \<open>A 2 x 1 image with the LZW codes 4 (clear), 1, 1, 5 (end) of three bits.\<close>

theorem image_decoded_witness:
  "mem_safe (ReadImage sample_gif_env 100 1000000 0 0 2 1 4 (replicate 256 black) False (sample_gif_state [2, 2, 0x4c, 0x0a, 0]))
    (image_result (image_meta 0 0 2 1 (replicate 256 black) False (sample_gif_state [2, 2, 0x4c, 0x0a, 0])) 4
      (sample_gif_state [2, 2, 0x4c, 0x0a, 0]))"
  by (rule image_decoded [of _ _ _ _ 2 "[2, 0x4c, 0x0a, 0]"])
    (simp_all add: sample_gif_state_def mem_start_ok lzw_static_ok)

end
