(* ===== verification/Gif_Png.thy ===== *)
theory Gif_Png
  imports Gif_Read
begin

text \<open>
  The PNG writer of \<^verbatim>\<open>test_sources/gif2png/src/gif2png.c\<close>: \<open>is_gray\<close> and \<open>writefile\<close>, split into
  the decisions the function takes one after the other. The library libpng is a parameter: it sees
  the calls made so far and accepts the next one or leaves it by \<open>longjmp\<close>, and it decides how many
  passes an interlaced image takes. The state collects the calls for the file being written; what
  the program changes (the remapped pixels, the transparent colour, the option \<open>interlaced\<close>) stays
  changed after a \<open>longjmp\<close>. Messages on \<open>stderr\<close> are left out; \<open>-p\<close> only prints such messages.
\<close>

section \<open>State\<close>

text \<open>\<open>interlaced\<close> is 0 (\<open>PNG_INTERLACE_NONE\<close>), 1 (\<open>PNG_INTERLACE_ADAM7\<close>) or 2 (\<open>PNG_INTERLACE_LAST\<close>).\<close>

record gif_options =
  delete :: bool
  optimize :: bool
  histogram :: bool
  interlaced :: int
  progress :: bool
  transparent_ok :: bool
  verbose :: int
  webconvert :: bool
  software_chunk :: bool
  filtermode :: bool
  matte :: bool
  gamma_srgb :: bool
  matte_color :: gif_color

datatype png_call =
    Init_io
  | Set_compression_level int
  | Set_gAMA
  | Set_sRGB
  | Set_IHDR int int int bool int \<comment> \<open>width, height, bit depth, whether gray, interlace method\<close>
  | Set_pHYs int int
  | Set_oFFs int int
  | Set_bKGD_gray byte
  | Set_bKGD_index int
  | Set_tRNS_gray byte
  | Set_tRNS_palette "byte list"
  | Set_PLTE "gif_color list"
  | Set_hIST "int list"
  | Set_text cstring bool cstring \<comment> \<open>key, whether compressed, text\<close>
  | Write_info
  | Set_packing
  | Set_interlace_handling
  | Write_row "byte list"
  | Write_chunk_start cstring int
  | Write_chunk_data "byte list"
  | Write_chunk_end
  | Write_chunk cstring "byte list"
  | Write_end

record png_env =
  sizeof_png_struct :: int
  sizeof_png_info :: int
  create_write_struct :: bool \<comment> \<open>does not return NULL\<close>
  create_info_struct :: bool
  png_accepts :: "png_call list \<Rightarrow> png_call \<Rightarrow> bool"
  png_passes :: "png_call list \<Rightarrow> nat"

definition version :: cstring where
  "version = bytes_of ''gif2png 2.5.2''"

record conv =
  gst :: gif_state
  opts :: gif_options
  calls :: "png_call list" \<comment> \<open>of the PNG file that is open\<close>
  outputs :: "(cstring \<times> png_call list) list"
  listed :: "cstring list" \<comment> \<open>lines on \<open>stdout\<close>\<close>
  unlinked :: "cstring list"
  numgifs :: int
  numpngs :: int

abbreviation "conv_mem w \<equiv> mem (gst w)"

definition set_conv_mem :: "gif_mem \<Rightarrow> conv \<Rightarrow> conv" where
  "set_conv_mem m w = w\<lparr>gst := (gst w)\<lparr>mem := m\<rparr>\<rparr>"

text \<open>\<open>Jump\<close> is the \<open>longjmp\<close> of libpng, with the state it leaves.\<close>

datatype 'a jmp = Go 'a | Jump conv

definition bindJ :: "'a jmp res \<Rightarrow> ('a \<Rightarrow> 'b jmp res) \<Rightarrow> 'b jmp res" where
  "bindJ m f = bindR m (\<lambda>r. case r of Go x \<Rightarrow> f x | Jump w \<Rightarrow> Ok (Jump w))"

definition png :: "png_env \<Rightarrow> png_call \<Rightarrow> conv \<Rightarrow> conv jmp res" where
  "png pe c w = Ok (if png_accepts pe (calls w) c then Go (w\<lparr>calls := calls w @ [c]\<rparr>) else Jump w)"

section \<open>Palette, gray levels and bit depth\<close>

definition is_gray :: "gif_color \<Rightarrow> bool" where
  "is_gray c \<longleftrightarrow> red c = green c \<and> green c = blue c"

text \<open>The transparent colour is ignored when no pixel uses it.\<close>

definition used_trans :: "GIFimagestruct \<Rightarrow> GIFimagestruct res" where
  "used_trans img =
     (if trans img \<noteq> - 1 then
        bindR (rd (color_count img) (trans img)) (\<lambda>n. Ok (if n = 0 then img\<lparr>trans := - 1\<rparr> else img))
      else Ok img)"

definition zero_unused :: "GIFimagestruct \<Rightarrow> GIFimagestruct" where
  "zero_unused img = img\<lparr>colors := map2 (\<lambda>n c. if n = 0 then black else c) (color_count img) (colors img)\<rparr>"

text \<open>The image as the rest of \<open>writefile\<close> sees it, and \<open>errorcount\<close>.\<close>

definition prepare_image :: "bool \<Rightarrow> bool \<Rightarrow> GIFimagestruct \<Rightarrow> (GIFimagestruct \<times> int) res" where
  "prepare_image optim recov img =
     bindR (used_trans img) (\<lambda>img.
       Ok (if optim then (zero_unused img, 0)
           else if \<not> recov then (img, if \<exists>n \<in> set (color_count img). n = 0 then 1 else 0)
           else (img, 0)))"

record png_format =
  gray :: bool
  last_color :: int
  remapping :: bool
  bitdepth :: int
  remap :: "byte list option" \<comment> \<open>\<open>None\<close>: not initialised\<close>

text \<open>Whether all used colours are gray, and the last used colour.\<close>

definition scan_colors :: "GIFimagestruct \<Rightarrow> bool \<times> int" where
  "scan_colors img =
     fold (\<lambda>(i, n, c) (g, l). if n \<noteq> 0 then (g \<and> is_gray c, if l < i then i else l) else (g, l))
       (zip [0..255] (zip (color_count img) (colors img))) (True, 0)"

text \<open>Whether no other entry has the gray level of the transparent colour.\<close>

definition distinct_trans :: "GIFimagestruct \<Rightarrow> bool res" where
  "distinct_trans img =
     (if trans img \<noteq> - 1 then
        bindR (rd (colors img) (trans img)) (\<lambda>t.
          Ok (\<forall>(i, c) \<in> set (zip [0..255] (colors img)). i \<noteq> trans img \<longrightarrow> red c \<noteq> red t))
      else Ok True)"

definition palette_bitdepth :: "int \<Rightarrow> int" where
  "palette_bitdepth l = (if l < 2 then 1 else if l < 4 then 2 else if l < 16 then 4 else 8)"

text \<open>One attempt to halve the precision: every level is \<open>factor\<close> times its low bits.\<close>

definition low_prec :: "byte \<Rightarrow> int \<Rightarrow> byte list \<Rightarrow> bool" where
  "low_prec m factor levels \<longleftrightarrow> (\<forall>r \<in> set levels. uint (r AND m) * factor = uint r)"

definition gray_levels :: "byte list \<Rightarrow> int \<times> byte list" where
  "gray_levels levels =
     (if \<not> low_prec 0xf 0x11 levels then (8, levels)
      else let levels = map (\<lambda>r. r AND 0xf) levels in
        if \<not> low_prec 3 5 levels then (4, levels)
        else let levels = map (\<lambda>r. r AND 3) levels in
          if \<not> low_prec 1 3 levels then (2, levels)
          else (1, map (\<lambda>r. r AND 1) levels))"

definition choose_format :: "GIFimagestruct \<Rightarrow> png_format res" where
  "choose_format img =
     (let (all_gray, l) = scan_colors img in
      bindR (if all_gray then distinct_trans img else Ok False) (\<lambda>g.
        let depth = palette_bitdepth l in
        if g then
          let (gray_bitdepth, levels) = gray_levels (map red (colors img)) in
          if depth < gray_bitdepth
          then Ok \<lparr>gray = False, last_color = l, remapping = False, bitdepth = depth, remap = Some levels\<rparr>
          else Ok \<lparr>gray = True, last_color = l, remapping = True, bitdepth = gray_bitdepth, remap = Some levels\<rparr>
        else Ok \<lparr>gray = False, last_color = l, remapping = False, bitdepth = depth, remap = None\<rparr>))"

definition rd_remap :: "png_format \<Rightarrow> int \<Rightarrow> byte res" where
  "rd_remap fmt i = (case remap fmt of None \<Rightarrow> Fault Uninitialised | Some t \<Rightarrow> rd t i)"

section \<open>Chunks before the image\<close>

text \<open>No background for palette entry 0.\<close>

definition set_background :: "png_env \<Rightarrow> GIFimagestruct \<Rightarrow> png_format \<Rightarrow> conv \<Rightarrow> (png_format \<times> conv) jmp res" where
  "set_background pe img fmt w =
     (let scr = GifScreen (gst w) in
      if Background scr > 0 then
        bindR (rd (ColorMap scr) (Background scr)) (\<lambda>bg.
          if gray fmt then
            if is_gray bg then
              bindR (rd_remap fmt (Background scr)) (\<lambda>b.
              bindJ (png pe (Set_bKGD_gray b) w) (\<lambda>w. Ok (Go (fmt, w))))
            else Ok (Go (fmt, w))
          else case find (\<lambda>(i, c). c = bg) (zip [0..255] (colors img)) of
              None \<Rightarrow> Ok (Go (fmt, w))
            | Some (i, _) \<Rightarrow>
                bindJ (png pe (Set_bKGD_index i) w) (\<lambda>w.
                  Ok (Go (fmt\<lparr>last_color := if last_color fmt < i then i else last_color fmt\<rparr>, w))))
      else Ok (Go (fmt, w)))"

text \<open>The transparent colour of a palette is exchanged with entry 0.\<close>

definition set_transparency :: "png_env \<Rightarrow> GIFimagestruct \<Rightarrow> png_format \<Rightarrow> conv \<Rightarrow> (png_format \<times> conv) jmp res" where
  "set_transparency pe img fmt w =
     (if trans img \<noteq> - 1 then
        if gray fmt then
          bindR (rd_remap fmt (trans img)) (\<lambda>b.
          bindJ (png pe (Set_tRNS_gray b) w) (\<lambda>w. Ok (Go (fmt, w))))
        else
          bindR (wr (map word_of_int [0..255]) 0 (word_of_int (trans img))) (\<lambda>t.
          bindR (wr t (trans img) 0) (\<lambda>t.
          bindJ (png pe (Set_tRNS_palette [0]) w) (\<lambda>w.
            Ok (Go (fmt\<lparr>remapping := True, remap := Some t\<rparr>, w)))))
      else Ok (Go (fmt, w)))"

fun mapR :: "('a \<Rightarrow> 'b res) \<Rightarrow> 'a list \<Rightarrow> 'b list res" where
  "mapR f [] = Ok []"
| "mapR f (x # xs) = bindR (f x) (\<lambda>y. bindR (mapR f xs) (\<lambda>ys. Ok (y # ys)))"

definition png_palette :: "GIFimagestruct \<Rightarrow> png_format \<Rightarrow> gif_color list res" where
  "png_palette img fmt =
     mapR (\<lambda>i. if remapping fmt then bindR (rd_remap fmt i) (\<lambda>r. rd (colors img) (uint r)) else rd (colors img) i)
       [0..last_color fmt]"

definition set_palette :: "png_env \<Rightarrow> GIFimagestruct \<Rightarrow> png_format \<Rightarrow> conv \<Rightarrow> conv jmp res" where
  "set_palette pe img fmt w =
     (if \<not> gray fmt then bindR (png_palette img fmt) (\<lambda>p. png pe (Set_PLTE p) w) else Ok (Go w))"

text \<open>The counts as 16-bit numbers. The quotient is computed in \<open>double\<close>; for counts below \<open>2 ^ 32\<close>, and a
  GIF has fewer pixels than that, truncating it gives the quotient of the integers.\<close>

definition scale_counts :: "int list \<Rightarrow> int list" where
  "scale_counts count =
     (let hist_maxvalue = foldl max 0 count in
      if hist_maxvalue \<le> 65535 then map (\<lambda>n. n mod 65536) count
      else map (\<lambda>n. if n \<noteq> 0 then (let h = (n * 65535 div hist_maxvalue) mod 65536 in if h = 0 then 1 else h) else 0) count)"

definition set_histogram :: "png_env \<Rightarrow> GIFimagestruct \<Rightarrow> png_format \<Rightarrow> conv \<Rightarrow> conv jmp res" where
  "set_histogram pe img fmt w =
     (if histogram (opts w) \<and> \<not> gray fmt then png pe (Set_hIST (scale_counts (color_count img))) w else Ok (Go w))"

text \<open>The calls in front of the background. \<open>interlaced\<close> keeps what the first image decides.\<close>

definition set_header :: "png_env \<Rightarrow> GIFimagestruct \<Rightarrow> png_format \<Rightarrow> conv \<Rightarrow> conv jmp res" where
  "set_header pe img fmt w =
     bindJ (png pe Init_io w) (\<lambda>w.
     bindJ (if optimize (opts w) then png pe (Set_compression_level 9) w else Ok (Go w)) (\<lambda>w.
     bindJ (if gamma_srgb (opts w) then bindJ (png pe Set_gAMA w) (png pe Set_sRGB) else Ok (Go w)) (\<lambda>w.
     let w = (if interlaced (opts w) = 2
              then w\<lparr>opts := (opts w)\<lparr>interlaced := if interlace img then 1 else 0\<rparr>\<rparr> else w) in
     bindJ (png pe (Set_IHDR (width img) (height img) (bitdepth fmt) (gray fmt) (interlaced (opts w))) w) (\<lambda>w.
     let ratio = AspectRatio (GifScreen (gst w)) in
     bindJ (if ratio \<noteq> 0 \<and> ratio \<noteq> 49 then png pe (Set_pHYs (ratio + 15) 64) w else Ok (Go w)) (\<lambda>w.
       if offset_x img > 0 \<and> offset_y img > 0 then png pe (Set_oFFs (offset_x img) (offset_y img)) w else Ok (Go w))))))"

definition set_software :: "png_env \<Rightarrow> conv \<Rightarrow> conv jmp res" where
  "set_software pe w =
     (if software_chunk (opts w) then png pe (Set_text (bytes_of ''Software'') False version) w else Ok (Go w))"

definition write_chunks :: "png_env \<Rightarrow> GIFimagestruct \<Rightarrow> png_format \<Rightarrow> conv \<Rightarrow> (png_format \<times> conv) jmp res" where
  "write_chunks pe img fmt w =
     bindJ (set_header pe img fmt w) (\<lambda>w.
     bindJ (set_background pe img fmt w) (\<lambda>(fmt, w).
     bindJ (set_transparency pe img fmt w) (\<lambda>(fmt, w).
     bindJ (set_palette pe img fmt w) (\<lambda>w.
     bindJ (set_histogram pe img fmt w) (\<lambda>w.
     bindJ (set_software pe w) (\<lambda>w.
     bindJ (png pe Write_info w) (\<lambda>w.
     bindJ (if bitdepth fmt < 8 then png pe Set_packing w else Ok (Go w)) (\<lambda>w.
       Ok (Go (fmt, w))))))))))"

section \<open>Elements\<close>

text \<open>Row \<open>i\<close> of the image \<open>current\<close>. The first pass replaces the pixels in place.\<close>

definition write_row :: "png_env \<Rightarrow> bool \<Rightarrow> GIFimagestruct \<Rightarrow> png_format \<Rightarrow> int \<Rightarrow> conv \<Rightarrow> conv jmp res" where
  "write_row pe first_pass img fmt i w =
     bindR (get_current (conv_mem w)) (\<lambda>c. case data c of
         None \<Rightarrow> Fault Null_pointer
       | Some d \<Rightarrow>
           let off = (if interlace img then interlace_line (height img) i else i) * width img in
           bindR (rd_block d off (width img)) (\<lambda>row.
           if remapping fmt \<and> first_pass then
             bindR (mapR (\<lambda>b. rd_remap fmt (uint b)) row) (\<lambda>row.
             bindR (wr_block d off row) (\<lambda>d.
               png pe (Write_row row) (set_conv_mem (set_current (c\<lparr>data := Some d\<rparr>) (conv_mem w)) w)))
           else png pe (Write_row row) w))"

fun write_rows :: "png_env \<Rightarrow> bool \<Rightarrow> GIFimagestruct \<Rightarrow> png_format \<Rightarrow> int list \<Rightarrow> conv \<Rightarrow> conv jmp res" where
  "write_rows pe first_pass img fmt [] w = Ok (Go w)"
| "write_rows pe first_pass img fmt (i # is) w =
     bindJ (write_row pe first_pass img fmt i w) (write_rows pe first_pass img fmt is)"

fun write_passes :: "png_env \<Rightarrow> GIFimagestruct \<Rightarrow> png_format \<Rightarrow> nat list \<Rightarrow> conv \<Rightarrow> conv jmp res" where
  "write_passes pe img fmt [] w = Ok (Go w)"
| "write_passes pe img fmt (p # ps) w =
     bindJ (write_rows pe (p = 0) img fmt [0..height img - 1] w) (write_passes pe img fmt ps)"

definition write_image :: "png_env \<Rightarrow> GIFimagestruct \<Rightarrow> png_format \<Rightarrow> conv \<Rightarrow> conv jmp res" where
  "write_image pe img fmt w =
     bindJ (png pe Set_interlace_handling w) (\<lambda>w.
       write_passes pe img fmt [0..<png_passes pe (calls w)] w)"

text \<open>A comment of fewer than 500 bytes is not compressed; one trailing byte does not count when it is a NUL
  or above 127. The text ends at the first NUL of the data.\<close>

definition write_comment :: "png_env \<Rightarrow> GIFelement \<Rightarrow> conv \<Rightarrow> conv jmp res" where
  "write_comment pe s w =
     bindR (if elem_size s > 0 then
         (case data s of None \<Rightarrow> Fault Null_pointer
          | Some d \<Rightarrow> bindR (rd d (elem_size s - 1)) (\<lambda>b. Ok (if b = 0 \<or> b AND 0x80 \<noteq> 0 then elem_size s - 1 else elem_size s)))
       else Ok (elem_size s)) (\<lambda>j.
     case data s of None \<Rightarrow> Fault Null_pointer
     | Some d \<Rightarrow> bindR (strlen d) (\<lambda>n. png pe (Set_text (bytes_of ''Comment'') (j \<ge> 500) (take n d)) w))"

definition write_application :: "png_env \<Rightarrow> GIFelement \<Rightarrow> conv \<Rightarrow> conv jmp res" where
  "write_application pe s w =
     bindJ (png pe (Write_chunk_start (bytes_of ''gIFx'') (elem_size s)) w) (\<lambda>w.
     bindR (rd_block (buffer s) 0 (elem_size s)) (\<lambda>bs.
     bindJ (png pe (Write_chunk_data bs) w) (png pe Write_chunk_end)))"

definition write_graphicctl :: "png_env \<Rightarrow> GIFelement \<Rightarrow> conv \<Rightarrow> conv jmp res" where
  "write_graphicctl pe s w =
     (case data s of None \<Rightarrow> Fault Null_pointer
      | Some d \<Rightarrow>
          bindR (rd d 0) (\<lambda>b0. bindR (rd d 2) (\<lambda>b2. bindR (rd d 1) (\<lambda>b1.
            png pe (Write_chunk (bytes_of ''gIFg'') [drop_bit 2 b0 AND 7, drop_bit 1 b0 AND 1, b2, b1]) w))))"

definition write_element :: "png_env \<Rightarrow> GIFimagestruct \<Rightarrow> png_format \<Rightarrow> GIFelement \<Rightarrow> conv \<Rightarrow> conv jmp res" where
  "write_element pe img fmt s w =
     (if GIFtype s = 44 then write_image pe img fmt w
      else if GIFtype s = 0xfe then write_comment pe s w
      else if GIFtype s = 0xff then write_application pe s w
      else if GIFtype s = 0xf9 then write_graphicctl pe s w
      else Ok (Go w))"

text \<open>\<open>while(lastimg ? s != NULL : s != e->next)\<close>, over the positions of the elements.\<close>

fun write_elements :: "png_env \<Rightarrow> GIFimagestruct \<Rightarrow> png_format \<Rightarrow> nat list \<Rightarrow> conv \<Rightarrow> conv jmp res" where
  "write_elements pe img fmt [] w = Ok (Go w)"
| "write_elements pe img fmt (s # ss) w =
     bindJ (write_element pe img fmt (elements (conv_mem w) ! s) w) (write_elements pe img fmt ss)"

text \<open>\<open>writefile(s, current, fp, lastimg)\<close>: its callers pass \<open>current\<close> for \<open>e\<close>. The first \<open>setjmp\<close> guards a
  block from \<open>xalloc\<close> that no call of libpng ever sees.\<close>

definition writefile :: "gif_env \<Rightarrow> png_env \<Rightarrow> nat \<Rightarrow> bool \<Rightarrow> conv \<Rightarrow> (int \<times> conv) res" where
  "writefile env pe s lastimg w =
     (let m = conv_mem w in
      bindR (xalloc env (sizeof_png_struct pe)) (\<lambda>_.
      bindR (xalloc env (sizeof_png_info pe)) (\<lambda>_.
      bindR (get_current m) (\<lambda>c. case imagestruct c of
          None \<Rightarrow> Fault Null_pointer
        | Some img \<Rightarrow>
            bindR (prepare_image (optimize (opts w)) (recover (gst w)) img) (\<lambda>(img, errorcount).
            let w = set_conv_mem (set_current (c\<lparr>imagestruct := Some img\<rparr>) m) w in
            bindR (choose_format img) (\<lambda>fmt.
            if \<not> create_write_struct pe \<or> \<not> create_info_struct pe then Ok (2, w)
            else
              bindR (bindJ (write_chunks pe img fmt w) (\<lambda>(fmt, w).
                     bindJ (write_elements pe img fmt
                         [s..<if lastimg then length (elements (conv_mem w)) else Suc (current (conv_mem w))] w)
                       (png pe Write_end))) (\<lambda>r.
                case r of Go w \<Rightarrow> Ok (errorcount, w) | Jump w \<Rightarrow> Ok (1, w))))))))"

end
