(* ===== verification/Gif_Colors.thy ===== *)
theory Gif_Colors
  imports Gif_Png Gif_Extensions
begin

text \<open>
  The PNG that \<open>writefile\<close> produces shows the pixels of the GIF: the sample written for a pixel fits
  the bit depth and denotes, through the gray levels or the palette, the colour the GIF gives the
  pixel.
\<close>

section \<open>Specification\<close>

definition image_ok :: "GIFimagestruct \<Rightarrow> bool" where
  "image_ok img \<longleftrightarrow> length (colors img) = 256 \<and> length (color_count img) = 256 \<and> - 1 \<le> trans img \<and> trans img < 256"

definition screen_ok :: "gif_scr \<Rightarrow> bool" where
  "screen_ok scr \<longleftrightarrow> length (ColorMap scr) = 256 \<and> Background scr < 256"

text \<open>The sample that stands for the pixel value \<open>p\<close>.\<close>

definition sample :: "png_format \<Rightarrow> byte \<Rightarrow> byte" where
  "sample fmt p = (if remapping fmt then the (remap fmt) ! unat p else p)"

text \<open>The colour a decoder shows for a sample: a gray level scaled to 8 bits, or the entry of the palette.\<close>

definition shown :: "png_format \<Rightarrow> gif_color list \<Rightarrow> byte \<Rightarrow> gif_color" where
  "shown fmt palette s =
     (if gray fmt then (let v = word_of_int (uint s * (255 div (2 ^ nat (bitdepth fmt) - 1))) in \<lparr>red = v, green = v, blue = v\<rparr>)
      else palette ! unat s)"

text \<open>How opaque a decoder shows a sample, from 0 to 255: the \<open>tRNS\<close> chunk, when there is one, names the
  transparent gray level or lists the values of the first entries of the palette.\<close>

fun is_tRNS :: "png_call \<Rightarrow> bool" where
  "is_tRNS (Set_tRNS_gray b) = True"
| "is_tRNS (Set_tRNS_palette ts) = True"
| "is_tRNS _ = False"

definition tRNS_calls :: "png_call list \<Rightarrow> png_call list" where
  "tRNS_calls cs = filter is_tRNS cs"

fun tRNS_alpha :: "bool \<Rightarrow> png_call \<Rightarrow> byte \<Rightarrow> byte" where
  "tRNS_alpha gr (Set_tRNS_gray b) s = (if gr \<and> s = b then 0 else 255)"
| "tRNS_alpha gr (Set_tRNS_palette ts) s = (if \<not> gr \<and> unat s < length ts then ts ! unat s else 255)"
| "tRNS_alpha gr _ s = 255"

definition alpha :: "png_format \<Rightarrow> png_call list \<Rightarrow> byte \<Rightarrow> byte" where
  "alpha fmt ts s = (if ts = [] then 255 else tRNS_alpha (gray fmt) (last ts) s)"

definition used :: "GIFimagestruct \<Rightarrow> byte \<Rightarrow> bool" where
  "used img p \<longleftrightarrow> color_count img ! unat p \<noteq> 0"

section \<open>The scan of the colour table\<close>

lemma scan_fold:
  fixes f :: "int \<times> int \<times> gif_color \<Rightarrow> bool \<times> int \<Rightarrow> bool \<times> int"
  assumes "f = (\<lambda>(i, n, c) (g, l). if n \<noteq> 0 then (g \<and> is_gray c, if l < i then i else l) else (g, l))"
  shows "fold f xs (g0, l0) = (g, l) \<Longrightarrow> (l0 \<le> l \<and> (l = l0 \<or> l \<in> fst ` set xs) \<and> (g \<longrightarrow> g0) \<and>
    (\<forall>(i, n, c) \<in> set xs. n \<noteq> 0 \<longrightarrow> i \<le> l \<and> (g \<longrightarrow> is_gray c)))"
proof (induction xs arbitrary: g0 l0)
  case (Cons x xs)
  obtain i n c where x: "x = (i, n, c)" by (cases x)
  obtain g1 l1 where f: "f x (g0, l0) = (g1, l1)" by fastforce
  then have "fold f xs (g1, l1) = (g, l)" using Cons.prems by simp
  from Cons.IH [OF this] f show ?case by (auto simp: assms x split: if_splits)
qed simp

lemma nth_ints: "i < 256 \<Longrightarrow> [0..255::int] ! i = int i"
  by (subst nth_upto) auto

lemma scan_colors_spec:
  assumes "scan_colors img = (g, l)" and "image_ok img"
  shows "0 \<le> l" "l \<le> 255" "used img p \<Longrightarrow> uint p \<le> l" "used img p \<Longrightarrow> g \<Longrightarrow> is_gray (colors img ! unat p)"
proof -
  let ?xs = "zip [0..255::int] (zip (color_count img) (colors img))"
  have s: "0 \<le> l \<and> (l = 0 \<or> l \<in> fst ` set ?xs) \<and> (g \<longrightarrow> True) \<and>
      (\<forall>(i, n, c) \<in> set ?xs. n \<noteq> 0 \<longrightarrow> i \<le> l \<and> (g \<longrightarrow> is_gray c))"
    by (rule scan_fold [OF refl]) (use assms(1) in \<open>simp add: scan_colors_def\<close>)
  have len: "length [0..255::int] = 256" by simp
  show "0 \<le> l" "l \<le> 255" using s by (auto dest: set_zip_leftD)
  have p: "unat p < 256" using unsigned_less [of p] by simp
  have "(uint p, color_count img ! unat p, colors img ! unat p) \<in> set ?xs"
    using p assms(2) nth_ints [OF p]
    by (auto simp: set_zip image_ok_def len intro!: exI [of _ "unat p"])
  then show "used img p \<Longrightarrow> uint p \<le> l" "used img p \<Longrightarrow> g \<Longrightarrow> is_gray (colors img ! unat p)"
    using s by (auto simp: used_def)
qed

lemma palette_bitdepth_spec:
  assumes "0 \<le> l" and "l \<le> 255"
  shows "l < 2 ^ nat (palette_bitdepth l)" "palette_bitdepth l \<in> {1, 2, 4, 8}"
  using assms by (auto simp: palette_bitdepth_def)

section \<open>Gray levels\<close>

lemma and_low:
  "uint (r AND (0xf :: byte)) < 16" "uint (r AND (3 :: byte)) < 4" "uint (r AND (1 :: byte)) < 2"
proof -
  have "uint (r AND 0xf) = take_bit 4 (uint r)" "uint (r AND 3) = take_bit 2 (uint r)" "uint (r AND 1) = take_bit 1 (uint r)"
    unfolding take_bit_eq_mask mask_eq_exp_minus_1 by (simp_all add: unsigned_and_eq)
  then show "uint (r AND (0xf :: byte)) < 16" "uint (r AND (3 :: byte)) < 4" "uint (r AND (1 :: byte)) < 2"
    by (simp_all add: take_bit_eq_mod)
qed

lemma gray_levels_spec:
  assumes "gray_levels levels = (d, levels')"
  shows "d \<in> {1, 2, 4, 8} \<and> length levels' = length levels \<and>
    (\<forall>i < length levels. uint (levels' ! i) < 2 ^ nat d \<and> uint (levels' ! i) * (255 div (2 ^ nat d - 1)) = uint (levels ! i))"
proof -
  let ?l4 = "map (\<lambda>r. r AND 0xf) levels" 
  let ?l2 = "map (\<lambda>r. r AND 3) ?l4"
  have p4: "uint (r AND 0xf) * 17 = uint r" if "low_prec 0xf 0x11 levels" "r \<in> set levels" for r
    using that by (auto simp: low_prec_def)
  have p2: "uint ((r AND 0xf) AND 3) * 5 = uint (r AND 0xf)" if "low_prec 3 5 ?l4" "r \<in> set levels" for r
    using that by (auto simp: low_prec_def)
  have p1: "uint (((r AND 0xf) AND 3) AND 1) * 3 = uint ((r AND 0xf) AND 3)" if "low_prec 1 3 ?l2" "r \<in> set levels" for r
    using that by (auto simp: low_prec_def)
  consider "\<not> low_prec 0xf 0x11 levels" "d = 8" "levels' = levels"
    | "low_prec 0xf 0x11 levels" "d = 4" "levels' = ?l4"
    | "low_prec 0xf 0x11 levels" "low_prec 3 5 ?l4" "d = 2" "levels' = ?l2"
    | "low_prec 0xf 0x11 levels" "low_prec 3 5 ?l4" "low_prec 1 3 ?l2" "d = 1" "levels' = map (\<lambda>r. r AND 1) ?l2"
    using assms unfolding gray_levels_def Let_def by (auto simp del: map_map split: if_splits)
  then show ?thesis
  proof cases
    case 1
    have "uint (b :: byte) < 256" for b using uint_lt2p [of b] by simp
    then show ?thesis using 1 by simp
  next
    case 2
    have "uint (r AND 0xf) < 2 ^ nat 4 \<and> uint (r AND 0xf) * 17 = uint r" if "r \<in> set levels" for r
      using p4 [OF 2(1) that] and_low(1) [of r] by simp
    then show ?thesis using 2(2,3) by simp
  next
    case 3
    have "uint ((r AND 0xf) AND 3) < 4 \<and> uint ((r AND 0xf) AND 3) * 85 = uint r" if "r \<in> set levels" for r
      using p4 [OF 3(1) that] p2 [OF 3(2) that] and_low(2) [of "r AND 0xf"] by linarith
    then show ?thesis using 3(3,4) by simp
  next
    case 4
    have "uint (((r AND 0xf) AND 3) AND 1) < 2 \<and> uint (((r AND 0xf) AND 3) AND 1) * 255 = uint r" if "r \<in> set levels" for r
      using p4 [OF 4(1) that] p2 [OF 4(2) that] p1 [OF 4(3) that] and_low(3) [of "(r AND 0xf) AND 3"] by linarith
    then show ?thesis using 4(4,5) by simp
  qed
qed

section \<open>Format and palette\<close>

text \<open>What \<open>choose_format\<close> decides, for an image whose transparent colour is in use.\<close>

definition format_ok :: "GIFimagestruct \<Rightarrow> png_format \<Rightarrow> bool" where
  "format_ok img fmt \<longleftrightarrow> bitdepth fmt \<in> {1, 2, 4, 8} \<and> 0 \<le> last_color fmt \<and> last_color fmt \<le> 255 \<and>
     (\<forall>p. used img p \<longrightarrow> uint p \<le> last_color fmt) \<and>
     (if gray fmt then remapping fmt \<and> (\<exists>t. remap fmt = Some t \<and> length t = 256 \<and>
        (\<forall>p. used img p \<longrightarrow> uint (t ! unat p) < 2 ^ nat (bitdepth fmt) \<and> shown fmt [] (t ! unat p) = colors img ! unat p) \<and>
        (\<forall>p :: byte. trans img \<noteq> - 1 \<and> uint p \<noteq> trans img \<longrightarrow> t ! unat p \<noteq> t ! nat (trans img)))
      else \<not> remapping fmt \<and> (\<forall>p. used img p \<longrightarrow> uint p < 2 ^ nat (bitdepth fmt)))"

lemma unat_less_256: "unat (p :: byte) < 256"
  using unsigned_less [of p] by simp

lemma gray_color: "is_gray c \<Longrightarrow> c = \<lparr>red = red c, green = red c, blue = red c\<rparr>"
  by (cases c) (simp add: is_gray_def)

lemma distinct_trans_red:
  assumes "image_ok img" and "distinct_trans img = Ok b" and b and "trans img \<noteq> - 1" and "uint (p :: byte) \<noteq> trans img"
  shows "red (colors img ! unat p) \<noteq> red (colors img ! nat (trans img))"
proof -
  have len: "length (colors img) = 256" using assms(1) by (simp add: image_ok_def)
  have "(uint p, colors img ! unat p) \<in> set (zip [0..255] (colors img))"
    using len unat_less_256 [of p] nth_ints [OF unat_less_256 [of p]]
    by (auto simp: set_zip intro!: exI [of _ "unat p"])
  then show ?thesis using assms by (auto simp: distinct_trans_def image_ok_def)
qed

lemma choose_format_ok:
  assumes "image_ok img"
  shows "\<exists>fmt. choose_format img = Ok fmt \<and> format_ok img fmt"
proof -
  obtain g l where s: "scan_colors img = (g, l)" by fastforce
  note sc = scan_colors_spec [OF s assms]
  note bd = palette_bitdepth_spec [OF sc(1,2)]
  have small: "uint p < 2 ^ nat (palette_bitdepth l)" if "used img p" for p using sc(3) [OF that] bd(1) by linarith
  have pal: "format_ok img \<lparr>gray = False, last_color = l, remapping = False, bitdepth = palette_bitdepth l, remap = r\<rparr>" for r
    using sc bd small by (auto simp: format_ok_def)
  show ?thesis
  proof (cases g)
    case False
    then show ?thesis using pal by (simp add: choose_format_def s Let_def)
  next
    case True
    have "\<exists>b. distinct_trans img = Ok b"
      using assms by (cases "trans img = - 1") (auto simp: distinct_trans_def image_ok_def)
    then obtain b where b: "distinct_trans img = Ok b" by blast
    obtain d t where t: "gray_levels (map red (colors img)) = (d, t)" by fastforce
    note gl = gray_levels_spec [OF t]
    have len: "length (colors img) = 256" using assms by (simp add: image_ok_def)
    let ?f = "\<lparr>gray = True, last_color = l, remapping = True, bitdepth = d, remap = Some t\<rparr>"
    have "shown ?f [] (t ! unat p) = colors img ! unat p" if u: "used img p" for p
    proof -
      have "uint (t ! unat p) * (255 div (2 ^ nat d - 1)) = uint (red (colors img ! unat p))"
        using gl len unat_less_256 [of p] by simp
      then show ?thesis using gray_color [OF sc(4) [OF u True]] by (simp add: shown_def)
    qed
    moreover have "t ! unat p \<noteq> t ! nat (trans img)" if "b" "trans img \<noteq> - 1" "uint p \<noteq> trans img" for p :: byte
    proof
      have i: "nat (trans img) < 256" using assms that(2) by (auto simp: image_ok_def)
      assume "t ! unat p = t ! nat (trans img)"
      then have "uint (map red (colors img) ! unat p) = uint (map red (colors img) ! nat (trans img))"
        using gl len unat_less_256 [of p] i by (metis length_map)
      then have "red (colors img ! unat p) = red (colors img ! nat (trans img))"
        using len unat_less_256 [of p] i by (simp only: nth_map word_uint_eq_iff)
      then show False using distinct_trans_red [OF assms b that] by simp
    qed
    ultimately have "b \<Longrightarrow> format_ok img ?f" using sc gl len unat_less_256 by (simp add: format_ok_def)
    then show ?thesis using True b pal by (simp add: choose_format_def s t Let_def)
  qed
qed

text \<open>The outcomes of code that libpng may leave: \<open>P\<close> holds if it does not.\<close>

definition go_ok :: "'a jmp res \<Rightarrow> ('a \<Rightarrow> bool) \<Rightarrow> bool" where
  "go_ok r P \<longleftrightarrow> (\<exists>x. r = Ok (Go x) \<and> P x) \<or> (\<exists>w. r = Ok (Jump w))"

lemma go_ok_bind: "go_ok m P \<Longrightarrow> (\<And>x. P x \<Longrightarrow> go_ok (f x) Q) \<Longrightarrow> go_ok (bindJ m f) Q"
  unfolding go_ok_def bindJ_def by (elim disjE exE conjE) simp_all

lemma go_ok_mono: "go_ok m P \<Longrightarrow> (\<And>x. P x \<Longrightarrow> Q x) \<Longrightarrow> go_ok m Q"
  unfolding go_ok_def by auto

lemma go_ok_Go [simp]: "go_ok (Ok (Go x)) P \<longleftrightarrow> P x"
  by (simp add: go_ok_def)

text \<open>Calls are only added, none of them sets the transparent colour, and the GIF is left alone.\<close>

definition called :: "conv \<Rightarrow> conv \<Rightarrow> bool" where
  "called w w' \<longleftrightarrow> gst w' = gst w \<and> set (calls w) \<subseteq> set (calls w') \<and> tRNS_calls (calls w') = tRNS_calls (calls w)"

lemma png_called: "\<not> is_tRNS c \<Longrightarrow> go_ok (png pe c w) (\<lambda>w'. called w w' \<and> c \<in> set (calls w'))"
  by (auto simp: png_def go_ok_def called_def tRNS_calls_def)

lemma png_tRNS: "go_ok (png pe c w) (\<lambda>w'. w' = w\<lparr>calls := calls w @ [c]\<rparr>)"
  by (auto simp: png_def go_ok_def)

lemma called_refl [simp]: "called w w"
  by (simp add: called_def)

lemma called_trans: "called w w' \<Longrightarrow> called w' w'' \<Longrightarrow> called w w''"
  by (auto simp: called_def)

lemma called_mem: "called w w' \<Longrightarrow> c \<in> set (calls w) \<Longrightarrow> c \<in> set (calls w')"
  by (auto simp: called_def)

lemma called_opts [simp]: "called w (u\<lparr>opts := f\<rparr>) = called w u" "called (u\<lparr>opts := f\<rparr>) w = called u w"
  by (simp_all add: called_def)

text \<open>The format and the calls behind the chunk \<open>tRNS\<close>.\<close>

definition painted :: "GIFimagestruct \<Rightarrow> png_format \<Rightarrow> bool" where
  "painted img fmt \<longleftrightarrow> 0 \<le> last_color fmt \<and> last_color fmt \<le> 255 \<and>
     (remapping fmt \<longrightarrow> (\<exists>t. remap fmt = Some t \<and> length t = 256)) \<and>
     (\<forall>p. used img p \<longrightarrow> uint (sample fmt p) < 2 ^ nat (bitdepth fmt) \<and>
       (if gray fmt then shown fmt [] (sample fmt p) = colors img ! unat p
        else uint (sample fmt p) \<le> last_color fmt \<and> sample fmt (sample fmt p) = p))"

lemma format_painted: "format_ok img fmt \<Longrightarrow> painted img fmt"
  by (auto simp: format_ok_def painted_def sample_def split: if_splits)

text \<open>The chunk \<open>tRNS\<close>, if any, shows the transparent colour as transparent and all others as opaque.\<close>

definition veiled :: "GIFimagestruct \<Rightarrow> png_format \<Rightarrow> png_call list \<Rightarrow> bool" where
  "veiled img fmt ts \<longleftrightarrow> (\<forall>p. used img p \<longrightarrow> alpha fmt ts (sample fmt p) = (if uint p = trans img then 0 else 255))"

lemma identity_map_nth: "(map word_of_int [0..255] :: byte list) ! unat p = p"
  using unat_less_256 [of p] by (simp add: nth_ints)

lemma swapped_painted:
  assumes "format_ok img fmt" and "\<not> gray fmt" and "0 \<le> trans img" and "trans img < 256" and "color_count img ! nat (trans img) \<noteq> 0"
  defines "fmt' \<equiv> fmt\<lparr>remapping := True,
    remap := Some ((map word_of_int [0..255])[0 := word_of_int (trans img), nat (trans img) := 0])\<rparr>"
  shows "painted img fmt' \<and> veiled img fmt' [Set_tRNS_palette [0]]"
proof -
  define k :: byte where "k = word_of_int (trans img)"
  let ?t = "(map word_of_int [0..255])[0 := k, unat k := 0]"
  let ?f = "fmt\<lparr>remapping := True, remap := Some ?t\<rparr>"
  have ku: "uint k = trans img" using assms(3,4) by (simp add: k_def unsigned_of_int take_bit_eq_mod)
  then have kn: "nat (trans img) = unat k" by (simp add: unsigned_of_int flip: nat_uint_eq)
  have uk: "used img k" using assms(5) by (simp add: used_def kn)
  have s: "sample ?f p = (if p = k then 0 else if p = 0 then k else p)" for p
  proof -
    have "unat p = unat k \<longleftrightarrow> p = k" "unat p = 0 \<longleftrightarrow> p = 0" by (auto simp: word_unat_eq_iff)
    moreover define xs :: "byte list" where "xs = map word_of_int [0..255]"
    moreover have "length xs = 256" "xs ! unat p = p" by (simp_all add: xs_def identity_map_nth)
    ultimately show ?thesis
      using unat_less_256 [of p] unat_less_256 [of k] by (auto simp: sample_def nth_list_update simp flip: xs_def)
  qed
  have "painted img ?f"
    using assms(1,2) uk s by (auto simp: painted_def format_ok_def)
  moreover have "uint p = trans img \<longleftrightarrow> p = k" for p :: byte using ku by (metis word_uint_eq_iff)
  then have "veiled img ?f [Set_tRNS_palette [0]]"
    using s assms(2) by (auto simp: veiled_def alpha_def unat_eq_0)
  ultimately show ?thesis by (simp add: fmt'_def kn k_def)
qed

lemma set_transparency_ok:
  assumes "format_ok img fmt" and "image_ok img" and "trans img = - 1 \<or> color_count img ! nat (trans img) \<noteq> 0"
  shows "go_ok (set_transparency pe img fmt w) (\<lambda>(fmt', w'). painted img fmt' \<and> gray fmt' = gray fmt \<and>
    bitdepth fmt' = bitdepth fmt \<and> last_color fmt' = last_color fmt \<and> gst w' = gst w \<and> set (calls w) \<subseteq> set (calls w') \<and>
    (\<exists>ts. tRNS_calls (calls w') = tRNS_calls (calls w) @ ts \<and> veiled img fmt' ts))"
proof (cases "trans img = - 1")
  case True
  moreover have "uint p \<noteq> - 1" for p :: byte using uint_ge_0 [of p] by linarith
  ultimately have "veiled img fmt []" by (simp add: veiled_def alpha_def)
  then show ?thesis using True format_painted [OF assms(1)] by (auto simp: set_transparency_def)
next
  case False
  then have t: "0 \<le> trans img" "trans img < 256" using assms(2) by (auto simp: image_ok_def)
  show ?thesis
  proof (cases "gray fmt")
    case True
    then obtain m where m: "remap fmt = Some m" "length m = 256" "remapping fmt"
        "\<And>p :: byte. uint p \<noteq> trans img \<Longrightarrow> m ! unat p \<noteq> m ! nat (trans img)"
      using assms(1) False by (auto simp: format_ok_def)
    have "veiled img fmt [Set_tRNS_gray (m ! nat (trans img))]"
      using m True t by (auto simp: veiled_def alpha_def sample_def) (metis nat_uint_eq)
    then show ?thesis
      using False True t m format_painted [OF assms(1)]
      by (auto simp: set_transparency_def rd_remap_def tRNS_calls_def intro!: go_ok_bind [OF png_tRNS])
  next
    case g: False
    then show ?thesis
      using False t swapped_painted [OF assms(1) g t] assms(3)
      by (auto simp: set_transparency_def tRNS_calls_def intro!: go_ok_bind [OF png_tRNS])
  qed
qed

lemma set_background_ok:
  assumes "format_ok img fmt" and "image_ok img" and "screen_ok (GifScreen (gst w))"
  shows "go_ok (set_background pe img fmt w) (\<lambda>(fmt', w'). format_ok img fmt' \<and> gray fmt' = gray fmt \<and>
    bitdepth fmt' = bitdepth fmt \<and> called w w')"
proof (cases "Background (GifScreen (gst w)) > 0")
  case False
  then show ?thesis using assms(1) by (auto simp: set_background_def Let_def)
next
  case True
  let ?scr = "GifScreen (gst w)"
  let ?bg = "ColorMap ?scr ! nat (Background ?scr)"
  have b: "rd (ColorMap ?scr) (Background ?scr) = Ok ?bg" using True assms(3) by (simp add: screen_ok_def)
  show ?thesis
  proof (cases "gray fmt")
    case g: True
    then obtain m where m: "remap fmt = Some m" "length m = 256" using assms(1) by (auto simp: format_ok_def)
    then have r: "rd_remap fmt (Background ?scr) = Ok (m ! nat (Background ?scr))"
      using True assms(3) by (simp add: rd_remap_def screen_ok_def)
    show ?thesis
      using True g b r assms(1)
      by (auto simp: set_background_def Let_def intro!: go_ok_bind [OF png_called])
  next
    case g: False
    show ?thesis
    proof (cases "find (\<lambda>(i, c). c = ?bg) (zip [0..255] (colors img))")
      case None
      then show ?thesis using True g b assms(1) by (auto simp: set_background_def Let_def)
    next
      case (Some ic)
      obtain i c where ic: "ic = (i, c)" by (cases ic)
      have "ic \<in> set (zip [0..255] (colors img))" using Some by (auto simp: find_Some_iff in_set_conv_nth)
      then have "0 \<le> i" "i \<le> 255" by (auto simp: ic dest: set_zip_leftD)
      then have "format_ok img (fmt\<lparr>last_color := if last_color fmt < i then i else last_color fmt\<rparr>)"
        using assms(1) g by (auto simp: format_ok_def)
      then show ?thesis
        using True g b Some by (auto simp: set_background_def Let_def ic intro!: go_ok_bind [OF png_called])
    qed
  qed
qed

lemma mapR_all: "(\<And>x. x \<in> set xs \<Longrightarrow> f x = Ok (g x)) \<Longrightarrow> mapR f xs = Ok (map g xs)"
  by (induction xs) auto

lemma png_palette_ok:
  assumes "painted img fmt" and "image_ok img"
  shows "png_palette img fmt = Ok (map (\<lambda>i. colors img ! unat (sample fmt (word_of_int i))) [0..last_color fmt])"
  unfolding png_palette_def
proof (rule mapR_all)
  fix i assume "i \<in> set [0..last_color fmt]"
  then have i: "0 \<le> i" "i \<le> 255" using assms(1) by (auto simp: painted_def)
  then have u: "unat (word_of_int i :: byte) = nat i" by (simp add: unsigned_of_int take_bit_eq_mod)
  have len: "length (colors img) = 256" using assms(2) by (simp add: image_ok_def)
  have "rd (colors img) (uint (b :: byte)) = Ok (colors img ! unat b)" for b
    using len uint_lt2p [of b] by simp
  then show "(if remapping fmt then bindR (rd_remap fmt i) (\<lambda>r. rd (colors img) (uint r)) else rd (colors img) i) =
      Ok (colors img ! unat (sample fmt (word_of_int i)))"
    using i len u assms(1) by (auto simp: rd_remap_def sample_def painted_def)
qed

text \<open>What a decoder needs to show the image: the header names the bit depth and whether the samples are
  gray, there is a palette if they are not, and exactly the transparent colour is shown transparent.\<close>

definition shows_image :: "GIFimagestruct \<Rightarrow> png_format \<Rightarrow> png_call list \<Rightarrow> bool" where
  "shows_image img fmt cs \<longleftrightarrow>
     (\<exists>il. Set_IHDR (width img) (height img) (bitdepth fmt) (gray fmt) il \<in> set cs) \<and>
     (\<exists>palette. (\<not> gray fmt \<longrightarrow> Set_PLTE palette \<in> set cs) \<and>
       (\<forall>p. used img p \<longrightarrow> uint (sample fmt p) < 2 ^ nat (bitdepth fmt) \<and>
          (\<not> gray fmt \<longrightarrow> unat (sample fmt p) < length palette) \<and> shown fmt palette (sample fmt p) = colors img ! unat p)) \<and>
     veiled img fmt (tRNS_calls cs)"

lemma set_palette_ok:
  assumes "painted img fmt" and "image_ok img"
  shows "go_ok (set_palette pe img fmt w) (\<lambda>w'. called w w' \<and> (\<exists>palette. (\<not> gray fmt \<longrightarrow> Set_PLTE palette \<in> set (calls w')) \<and>
       (\<forall>p. used img p \<longrightarrow> uint (sample fmt p) < 2 ^ nat (bitdepth fmt) \<and>
          (\<not> gray fmt \<longrightarrow> unat (sample fmt p) < length palette) \<and> shown fmt palette (sample fmt p) = colors img ! unat p)))"
proof (cases "gray fmt")
  case True
  then have "shown fmt [] s = shown fmt q s" for s q by (simp add: shown_def)
  then show ?thesis
    using True assms(1) by (auto simp: set_palette_def painted_def intro!: exI [of _ "[]"])
next
  case False
  let ?pal = "map (\<lambda>i. colors img ! unat (sample fmt (word_of_int i))) [0..last_color fmt]"
  have l0: "0 \<le> last_color fmt" using assms(1) by (simp add: painted_def)
  have p: "uint (sample fmt p) < 2 ^ nat (bitdepth fmt) \<and> unat (sample fmt p) < length ?pal \<and>
      shown fmt ?pal (sample fmt p) = colors img ! unat p" if "used img p" for p
  proof -
    have s: "uint (sample fmt p) < 2 ^ nat (bitdepth fmt)" "uint (sample fmt p) \<le> last_color fmt" "sample fmt (sample fmt p) = p"
      using that assms(1) False by (auto simp: painted_def)
    have n: "unat (sample fmt p) < length ?pal" using s(2) l0 by (simp add: nat_less_eq_zless flip: nat_uint_eq)
    have "[0..last_color fmt] ! unat (sample fmt p) = uint (sample fmt p)"
      using s(2) by (subst nth_upto) simp_all
    then have "?pal ! unat (sample fmt p) = colors img ! unat p"
      using n s(3) by simp
    then show ?thesis using s(1) n False by (simp add: shown_def)
  qed
  have "go_ok (png pe (Set_PLTE ?pal) w) (\<lambda>w'. called w w' \<and> (\<exists>palette. (\<not> gray fmt \<longrightarrow> Set_PLTE palette \<in> set (calls w')) \<and>
       (\<forall>p. used img p \<longrightarrow> uint (sample fmt p) < 2 ^ nat (bitdepth fmt) \<and>
          (\<not> gray fmt \<longrightarrow> unat (sample fmt p) < length palette) \<and> shown fmt palette (sample fmt p) = colors img ! unat p)))"
    by (rule go_ok_mono [OF png_called], simp, intro conjI exI [of _ ?pal]) (use p in auto)
  then show ?thesis using False png_palette_ok [OF assms] by (simp add: set_palette_def)
qed

lemma optional_call: "\<not> is_tRNS c \<Longrightarrow> go_ok (if b then png pe c w else Ok (Go w)) (called w)"
  by (auto intro: go_ok_mono [OF png_called])

lemma set_header_ok:
  "go_ok (set_header pe img fmt w) (\<lambda>w'. called w w' \<and>
    (\<exists>il. Set_IHDR (width img) (height img) (bitdepth fmt) (gray fmt) il \<in> set (calls w')))"
proof -
  have srgb: "go_ok (if b then bindJ (png pe Set_gAMA w) (png pe Set_sRGB) else Ok (Go w)) (called w)" for b w
    using called_trans by (cases b) (auto intro!: go_ok_bind [OF png_called] go_ok_mono [OF png_called])
  show ?thesis
    unfolding set_header_def Let_def
    apply (rule go_ok_bind [OF png_called], simp, rule go_ok_bind [OF optional_call], simp, rule go_ok_bind [OF srgb],
        rule go_ok_bind [OF png_called], simp, rule go_ok_bind [OF optional_call], simp, rule go_ok_mono [OF optional_call], simp)
    apply (auto split: if_splits)
    apply (meson called_trans called_mem)+
    done
qed

lemma set_histogram_ok: "go_ok (set_histogram pe img fmt w) (called w)"
  unfolding set_histogram_def by (rule optional_call) simp

lemma set_software_ok: "go_ok (set_software pe w) (called w)"
  unfolding set_software_def by (rule optional_call) simp

lemma shows_image_mono:
  "shows_image img fmt (calls w) \<Longrightarrow> called w w' \<Longrightarrow> shows_image img fmt (calls w')"
  unfolding shows_image_def called_def by (elim conjE exE) (intro conjI exI, auto)

lemma chunk_tail_ok:
  "go_ok (bindJ (set_histogram pe img fmt w) (\<lambda>w. bindJ (set_software pe w) (\<lambda>w. bindJ (png pe Write_info w) (\<lambda>w.
      bindJ (if bitdepth fmt < 8 then png pe Set_packing w else Ok (Go w)) (\<lambda>w. Ok (Go (fmt, w)))))))
    (\<lambda>(fmt', w'). fmt' = fmt \<and> called w w')"
  by (rule go_ok_bind [OF set_histogram_ok], rule go_ok_bind [OF set_software_ok], rule go_ok_bind [OF png_called], simp,
      rule go_ok_bind [OF optional_call], simp) (simp, meson called_trans)

text \<open>The chunks behind the background.\<close>

lemma chunks_ok:
  assumes "format_ok img fmt" and "image_ok img" and "trans img = - 1 \<or> color_count img ! nat (trans img) \<noteq> 0"
    and "tRNS_calls (calls (w :: conv)) = []" and "Set_IHDR (width img) (height img) (bitdepth fmt) (gray fmt) il \<in> set (calls w)"
  shows "go_ok (bindJ (set_transparency pe img fmt w) (\<lambda>(fmt, w).
      bindJ (set_palette pe img fmt w) (\<lambda>w.
      bindJ (set_histogram pe img fmt w) (\<lambda>w.
      bindJ (set_software pe w) (\<lambda>w.
      bindJ (png pe Write_info w) (\<lambda>w.
      bindJ (if bitdepth fmt < 8 then png pe Set_packing w else Ok (Go w)) (\<lambda>w. Ok (Go (fmt, w)))))))))
    (\<lambda>(fmt', w'). gst w' = gst w \<and> shows_image img fmt' (calls w'))"
proof (rule go_ok_bind [OF set_transparency_ok [OF assms(1-3)]], clarify)
  fix fmt3 and w3 :: conv and ts
  assume f3: "painted img fmt3" and g3: "gray fmt3 = gray fmt" "bitdepth fmt3 = bitdepth fmt" "gst w3 = gst w"
    "set (calls w) \<subseteq> set (calls w3)" and ts: "tRNS_calls (calls w3) = tRNS_calls (calls w) @ ts" "veiled img fmt3 ts"
  have ihdr: "Set_IHDR (width img) (height img) (bitdepth fmt3) (gray fmt3) il \<in> set (calls w3)"
    unfolding g3(1,2) using g3(4) assms(5) by blast
  show "go_ok (bindJ (set_palette pe img fmt3 w3) (\<lambda>w.
      bindJ (set_histogram pe img fmt3 w) (\<lambda>w.
      bindJ (set_software pe w) (\<lambda>w.
      bindJ (png pe Write_info w) (\<lambda>w.
      bindJ (if bitdepth fmt3 < 8 then png pe Set_packing w else Ok (Go w)) (\<lambda>w. Ok (Go (fmt3, w))))))))
    (\<lambda>(fmt', w'). gst w' = gst w \<and> shows_image img fmt' (calls w'))"
  proof (rule go_ok_bind [OF set_palette_ok [OF f3 assms(2)]], elim conjE)
    fix w4 assume w4: "called w3 w4" and pal: "\<exists>palette. (\<not> gray fmt3 \<longrightarrow> Set_PLTE palette \<in> set (calls w4)) \<and>
      (\<forall>p. used img p \<longrightarrow> uint (sample fmt3 p) < 2 ^ nat (bitdepth fmt3) \<and>
        (\<not> gray fmt3 \<longrightarrow> unat (sample fmt3 p) < length palette) \<and> shown fmt3 palette (sample fmt3 p) = colors img ! unat p)"
    have "tRNS_calls (calls w4) = ts" using w4 ts(1) assms(4) by (simp add: called_def)
    then have "shows_image img fmt3 (calls w4)"
      unfolding shows_image_def using ts(2) called_mem [OF w4 ihdr] pal by blast
    then show "go_ok (bindJ (set_histogram pe img fmt3 w4) (\<lambda>w.
        bindJ (set_software pe w) (\<lambda>w.
        bindJ (png pe Write_info w) (\<lambda>w.
        bindJ (if bitdepth fmt3 < 8 then png pe Set_packing w else Ok (Go w)) (\<lambda>w. Ok (Go (fmt3, w)))))))
      (\<lambda>(fmt', w'). gst w' = gst w \<and> shows_image img fmt' (calls w'))"
      using w4 g3(3) by (intro go_ok_mono [OF chunk_tail_ok]) (auto intro: shows_image_mono simp: called_def)
  qed
qed

text \<open>C4: The chunks in front of the image data make a decoder show the colours of the GIF. For a new PNG
  and an image whose transparent colour is in use (which \<open>prepare_image\<close> ensures), the function runs
  without leaving an array unless libpng jumps out. Every pixel value that \<open>color_count\<close> counts has a
  sample that fits the announced bit depth, lies inside the palette that was set, denotes the colour
  the GIF gives to the pixel value, and is shown transparent if it is the transparent colour and
  opaque if it is not, as gray levels and as a palette.\<close>

theorem png_shows_gif_colors:
  assumes "image_ok img" and "screen_ok (GifScreen (gst w))" and "trans img = - 1 \<or> color_count img ! nat (trans img) \<noteq> 0"
    and "calls w = []"
  shows "go_ok (bindR (choose_format img) (\<lambda>fmt. write_chunks pe img fmt w)) (\<lambda>(fmt, w'). gst w' = gst w \<and> shows_image img fmt (calls w'))"
proof -
  obtain fmt where fmt: "choose_format img = Ok fmt" "format_ok img fmt" using choose_format_ok [OF assms(1)] by blast
  let ?Q = "\<lambda>(fmt', w'). gst w' = gst w \<and> shows_image img fmt' (calls w')"
  have "go_ok (write_chunks pe img fmt w) ?Q"
    unfolding write_chunks_def
  proof (rule go_ok_bind [OF set_header_ok], elim conjE exE)
    fix w1 il assume w1: "called w w1" "Set_IHDR (width img) (height img) (bitdepth fmt) (gray fmt) il \<in> set (calls w1)"
    then have scr: "screen_ok (GifScreen (gst w1))" using assms(2) by (simp add: called_def)
    show "go_ok (bindJ (set_background pe img fmt w1) (\<lambda>(fmt, w).
       bindJ (set_transparency pe img fmt w) (\<lambda>(fmt, w).
       bindJ (set_palette pe img fmt w) (\<lambda>w.
       bindJ (set_histogram pe img fmt w) (\<lambda>w.
       bindJ (set_software pe w) (\<lambda>w.
       bindJ (png pe Write_info w) (\<lambda>w.
       bindJ (if bitdepth fmt < 8 then png pe Set_packing w else Ok (Go w)) (\<lambda>w. Ok (Go (fmt, w)))))))))) ?Q"
    proof (rule go_ok_bind [OF set_background_ok [OF fmt(2) assms(1) scr]], clarify)
      fix fmt2 w2 assume f2: "format_ok img fmt2" and g2: "gray fmt2 = gray fmt" "bitdepth fmt2 = bitdepth fmt" "called w1 w2"
      have w2: "called w w2" using w1(1) g2(3) by (rule called_trans)
      have t2: "tRNS_calls (calls w2) = []" using w2 assms(4) by (simp add: called_def tRNS_calls_def)
      have i2: "Set_IHDR (width img) (height img) (bitdepth fmt2) (gray fmt2) il \<in> set (calls w2)"
        unfolding g2(1,2) using called_mem [OF g2(3) w1(2)] .
      have e2: "gst w2 = gst w" using w2 by (simp add: called_def)
      show "go_ok (bindJ (set_transparency pe img fmt2 w2) (\<lambda>(fmt, w).
         bindJ (set_palette pe img fmt w) (\<lambda>w.
         bindJ (set_histogram pe img fmt w) (\<lambda>w.
         bindJ (set_software pe w) (\<lambda>w.
         bindJ (png pe Write_info w) (\<lambda>w.
         bindJ (if bitdepth fmt < 8 then png pe Set_packing w else Ok (Go w)) (\<lambda>w. Ok (Go (fmt, w))))))))) ?Q"
        using chunks_ok [OF f2 assms(1,3) t2 i2, of pe] unfolding e2 .
    qed
  qed
  then show ?thesis using fmt(1) by simp
qed

definition sample_png_env :: png_env where
  "sample_png_env = \<lparr>sizeof_png_struct = 1000, sizeof_png_info = 300, create_write_struct = True, create_info_struct = True,
     png_accepts = (\<lambda>_ _. True), png_passes = (\<lambda>_. 1)\<rparr>"

definition sample_options :: gif_options where
  "sample_options = \<lparr>delete = False, optimize = False, histogram = False, interlaced = 2, progress = False, transparent_ok = False,
     verbose = 0, webconvert = False, software_chunk = True, filtermode = False, matte = False, gamma_srgb = False, matte_color = black\<rparr>"

definition sample_conv :: "byte list \<Rightarrow> conv" where
  "sample_conv bs = \<lparr>gst = sample_gif_state bs, opts = sample_options, calls = [], outputs = [], listed = [], unlinked = [],
     numgifs = 0, numpngs = 0\<rparr>"

definition sample_image :: GIFimagestruct where
  "sample_image = zero_image\<lparr>color_count := 3 # 1 # replicate 254 0, width := 2, height := 2, trans := 1,
     colors := black # \<lparr>red = 7, green = 8, blue = 9\<rparr> # replicate 254 black\<rparr>"

theorem png_shows_gif_colors_witness:
  "go_ok (bindR (choose_format sample_image) (\<lambda>fmt. write_chunks sample_png_env sample_image fmt (sample_conv [])))
    (\<lambda>(fmt, w'). gst w' = gst (sample_conv []) \<and> shows_image sample_image fmt (calls w'))"
  by (rule png_shows_gif_colors)
    (simp_all add: image_ok_def screen_ok_def sample_image_def sample_conv_def sample_gif_state_def zero_image_def)

section \<open>Rows\<close>

lemma concat_rows:
  assumes "r < length rows" and "\<forall>x \<in> set rows. length x = n" and "length y = n"
  shows "take n (drop (r * n) (concat rows)) = rows ! r"
    "take (r * n) (concat rows) @ y @ drop (r * n + n) (concat rows) = concat (rows[r := y])"
    "r * n + n \<le> length (concat rows)"
proof -
  have l: "length (concat xs) = length xs * n" if "set xs \<subseteq> set rows" for xs
    using that assms(2) by (induction xs) auto
  have s: "rows = take r rows @ rows ! r # drop (Suc r) rows" using assms(1) by (rule id_take_nth_drop)
  have n: "length (rows ! r) = n" using assms(1,2) by simp
  have c: "concat rows = concat (take r rows) @ rows ! r @ concat (drop (Suc r) rows)" by (subst s) simp
  have lt: "length (concat (take r rows)) = r * n" using l [of "take r rows"] assms(1) set_take_subset by fastforce
  show "take n (drop (r * n) (concat rows)) = rows ! r" using c lt n by simp
  show "r * n + n \<le> length (concat rows)" using c lt n by simp
  have "concat (rows[r := y]) = concat (take r rows) @ y @ concat (drop (Suc r) rows)"
    using assms(1) by (simp add: upd_conv_take_nth_drop)
  then show "take (r * n) (concat rows) @ y @ drop (r * n + n) (concat rows) = concat (rows[r := y])"
    using c lt n by simp
qed

text \<open>The stored row that is shown as row \<open>i\<close>.\<close>

definition display_row :: "GIFimagestruct \<Rightarrow> int \<Rightarrow> int" where
  "display_row img i = (if interlace img then interlace_line (height img) i else i)"

text \<open>The image \<open>current\<close> holds these rows.\<close>

definition holds_rows :: "GIFimagestruct \<Rightarrow> byte list list \<Rightarrow> conv \<Rightarrow> bool" where
  "holds_rows img rows w \<longleftrightarrow> current (conv_mem w) < length (elements (conv_mem w)) \<and>
     data (elements (conv_mem w) ! current (conv_mem w)) = Some (concat rows) \<and>
     int (length rows) = height img \<and> (\<forall>r \<in> set rows. int (length r) = width img)"

definition remap_ok :: "png_format \<Rightarrow> bool" where
  "remap_ok fmt \<longleftrightarrow> (remapping fmt \<longrightarrow> (\<exists>t. remap fmt = Some t \<and> length t = 256))"

lemma remap_row:
  assumes "remap_ok fmt" and "remapping fmt"
  shows "mapR (\<lambda>b. rd_remap fmt (uint b)) row = Ok (map (sample fmt) row)"
proof (rule mapR_all)
  fix b :: byte
  obtain t where "remap fmt = Some t" "length t = 256" using assms by (auto simp: remap_ok_def)
  then show "rd_remap fmt (uint b) = Ok (sample fmt b)"
    using assms(2) uint_lt2p [of b] by (simp add: rd_remap_def sample_def)
qed

lemma sample_plain: "\<not> remapping fmt \<Longrightarrow> map (sample fmt) row = row"
  by (induction row) (simp_all add: sample_def)

lemma display_row_range:
  assumes "0 \<le> i" and "i < height img"
  shows "0 \<le> display_row img i" "display_row img i < height img"
  using interlace_range [OF assms] assms by (auto simp: display_row_def)

lemma write_row_ok:
  fixes first_pass :: bool
  assumes "holds_rows img rows w" and "remap_ok fmt" and "0 \<le> i" and "i < height img"
  defines "r \<equiv> nat (display_row img i)"
  defines "y \<equiv> if remapping fmt \<and> first_pass then map (sample fmt) (rows ! r) else rows ! r"
  shows "go_ok (write_row pe first_pass img fmt i w)
    (\<lambda>w'. holds_rows img (rows[r := y]) w' \<and> calls w' = calls w @ [Write_row y])"
proof -
  note h = assms(1) [unfolded holds_rows_def]
  have r: "r < length rows" using display_row_range [OF assms(3,4)] h by (simp add: r_def nat_less_iff)
  then have w0: "0 \<le> width img" using h by (metis nth_mem of_nat_0_le_iff)
  define n where "n = nat (width img)"
  have n: "width img = int n" using w0 by (simp add: n_def)
  have rows: "\<forall>x \<in> set rows. length x = n" using h n by simp
  have off: "display_row img i = int r" using display_row_range [OF assms(3,4)] by (simp add: r_def)
  have len: "length (rows ! r) = n" "length y = n" using rows r by (auto simp: y_def)
  note c = concat_rows [OF r rows len(2)]
  have rb: "rd_block (concat rows) (int (r * n)) (int n) = Ok (rows ! r)"
    using c(1,3) by (simp add: rd_block_def flip: of_nat_add of_nat_mult)
  have wb: "wr_block (concat rows) (int (r * n)) y = Ok (concat (rows[r := y]))"
    using c(2,3) len(2) by (simp add: wr_block_def flip: of_nat_add of_nat_mult)
  have all: "\<forall>x \<in> set (rows[r := y]). int (length x) = width img"
    using h len(2) n set_update_subset_insert [of rows r y] by auto
  let ?c = "elements (conv_mem w) ! current (conv_mem w)"
  have g: "get_current (conv_mem w) = Ok ?c" using h by (simp add: get_current_def)
  show ?thesis
  proof (cases "remapping fmt \<and> first_pass")
    case True
    then have y: "y = map (sample fmt) (rows ! r)" by (simp add: y_def)
    have "write_row pe first_pass img fmt i w =
        png pe (Write_row y) (set_conv_mem (set_current (?c\<lparr>data := Some (concat (rows[r := y]))\<rparr>) (conv_mem w)) w)"
      using True h g rb wb remap_row [OF assms(2)]
      by (simp add: write_row_def y Let_def off n flip: display_row_def)
    then show ?thesis using h all by (auto simp: png_def go_ok_def holds_rows_def set_conv_mem_def)
  next
    case False
    then have "rows[r := y] = rows" unfolding y_def by (simp only: if_False list_update_id)
    moreover have "write_row pe first_pass img fmt i w = png pe (Write_row y) w"
      using False h g rb by (auto simp: write_row_def y_def Let_def off n simp flip: display_row_def)
    ultimately show ?thesis using assms(1) by (auto simp: png_def go_ok_def holds_rows_def)
  qed
qed

text \<open>The rows \<open>is\<close> of the first pass have been replaced by their samples.\<close>

definition sampled :: "GIFimagestruct \<Rightarrow> png_format \<Rightarrow> int set \<Rightarrow> byte list list \<Rightarrow> byte list list" where
  "sampled img fmt S rows =
     map (\<lambda>r. if remapping fmt \<and> int r \<in> display_row img ` S then map (sample fmt) (rows ! r) else rows ! r) [0..<length rows]"

lemma display_row_inj:
  assumes "display_row img i = display_row img j" and "0 \<le> i" and "i < height img" and "0 \<le> j" and "j < height img"
  shows "i = j"
proof (cases "interlace img")
  case True
  have "i = inv_interlace_line (height img) (interlace_line (height img) i)" using assms(2,3) by (simp add: inv_interlace_inverse)
  also have "\<dots> = inv_interlace_line (height img) (interlace_line (height img) j)" using assms(1) True by (simp add: display_row_def)
  also have "\<dots> = j" using assms(4,5) by (simp add: inv_interlace_inverse)
  finally show ?thesis .
qed (use assms(1) in \<open>simp add: display_row_def\<close>)

lemma first_pass_ok:
  assumes "holds_rows img (sampled img fmt {0..<i} rows) w" and "remap_ok fmt" and "int (length rows) = height img" and "0 \<le> i"
    and "is = [i..height img - 1]" and "i \<le> height img"
  shows "go_ok (write_rows pe True img fmt is w)
    (\<lambda>w'. holds_rows img (sampled img fmt {0..<height img} rows) w' \<and>
      calls w' = calls w @ map (\<lambda>i. Write_row (map (sample fmt) (rows ! nat (display_row img i)))) is)"
  using assms(1,4-6)
proof (induction "is" arbitrary: i w)
  case Nil
  then have "i = height img" by simp
  then show ?case using Nil by simp
next
  case (Cons j "is")
  then have ij: "j = i" "i < height img" "is = [i + 1..height img - 1]"
    by (auto simp: upto.simps [of i] split: if_splits)
  let ?r = "nat (display_row img i)" and ?rows = "sampled img fmt {0..<i} rows"
  have rng: "0 \<le> display_row img i" "display_row img i < height img"
    using display_row_range Cons.prems(2) ij(2) by auto
  have r: "?r < length rows" using rng assms(3) by simp
  have fresh: "display_row img i \<notin> display_row img ` {0..<i}"
  proof
    assume "display_row img i \<in> display_row img ` {0..<i}"
    then obtain j where j: "display_row img i = display_row img j" "0 \<le> j" "j < i" by auto
    then show False using display_row_inj [OF j(1)] Cons.prems(2) ij(2) by simp
  qed
  have old: "?rows ! ?r = rows ! ?r" using r rng fresh by (simp add: sampled_def)
  let ?y = "if remapping fmt \<and> True then map (sample fmt) (rows ! ?r) else rows ! ?r"
  have new: "?rows[?r := ?y] = sampled img fmt {0..<i + 1} rows"
  proof (rule nth_equalityI)
    fix k assume "k < length (?rows[?r := ?y])"
    then have k: "k < length rows" by (simp add: sampled_def)
    have "{0..<i + 1} = insert i {0..<i}" using Cons.prems(2) by auto
    moreover have "int k = display_row img i \<longleftrightarrow> k = ?r" using rng(1) by auto
    ultimately show "?rows[?r := ?y] ! k = sampled img fmt {0..<i + 1} rows ! k"
      using k by (auto simp: sampled_def nth_list_update)
  qed (simp add: sampled_def)
  have y: "?y = map (sample fmt) (rows ! ?r)" by (simp add: sample_plain)
  have step: "go_ok (write_row pe True img fmt i w)
    (\<lambda>w'. holds_rows img (sampled img fmt {0..<i + 1} rows) w' \<and> calls w' = calls w @ [Write_row (map (sample fmt) (rows ! ?r))])"
    using write_row_ok [OF Cons.prems(1) assms(2) Cons.prems(2) ij(2), where first_pass = True and pe = pe] unfolding old y new [unfolded y] .
  show ?case
    unfolding write_rows.simps ij(1)
  proof (rule go_ok_bind [OF step], elim conjE)
    fix w1 assume w1: "holds_rows img (sampled img fmt {0..<i + 1} rows) w1"
      "calls w1 = calls w @ [Write_row (map (sample fmt) (rows ! ?r))]"
    show "go_ok (write_rows pe True img fmt is w1)
      (\<lambda>w'. holds_rows img (sampled img fmt {0..<height img} rows) w' \<and>
        calls w' = calls w @ map (\<lambda>i. Write_row (map (sample fmt) (rows ! nat (display_row img i)))) (i # is))"
      by (rule go_ok_mono [OF Cons.IH [OF w1(1)]]) (use ij Cons.prems(2) w1(2) in auto)
  qed
qed

lemma later_pass_ok:
  assumes "holds_rows img rows w" and "remap_ok fmt" and "\<forall>i \<in> set is. 0 \<le> i \<and> i < height img"
  shows "go_ok (write_rows pe False img fmt is w)
    (\<lambda>w'. holds_rows img rows w' \<and> calls w' = calls w @ map (\<lambda>i. Write_row (rows ! nat (display_row img i))) is)"
  using assms(1,3)
proof (induction "is" arbitrary: w)
  case (Cons i "is")
  have step: "go_ok (write_row pe False img fmt i w)
    (\<lambda>w'. holds_rows img rows w' \<and> calls w' = calls w @ [Write_row (rows ! nat (display_row img i))])"
    using write_row_ok [OF Cons.prems(1) assms(2), where i = i and first_pass = False and pe = pe] Cons.prems(2) by simp
  show ?case
    unfolding write_rows.simps
  proof (rule go_ok_bind [OF step], elim conjE)
    fix w1 assume w1: "holds_rows img rows w1" "calls w1 = calls w @ [Write_row (rows ! nat (display_row img i))]"
    show "go_ok (write_rows pe False img fmt is w1)
      (\<lambda>w'. holds_rows img rows w' \<and> calls w' = calls w @ map (\<lambda>i. Write_row (rows ! nat (display_row img i))) (i # is))"
      by (rule go_ok_mono [OF Cons.IH [OF w1(1)]]) (use Cons.prems w1(2) in auto)
  qed
qed simp

lemma later_passes_ok:
  assumes "holds_rows img rows w" and "remap_ok fmt" and "0 \<notin> set ps"
  shows "go_ok (write_passes pe img fmt ps w)
    (\<lambda>w'. holds_rows img rows w' \<and> calls w' = calls w @
      concat (replicate (length ps) (map (\<lambda>i. Write_row (rows ! nat (display_row img i))) [0..height img - 1])))"
  using assms(1,3)
proof (induction ps arbitrary: w)
  case (Cons p ps)
  let ?row = "\<lambda>i. Write_row (rows ! nat (display_row img i))"
  have p: "(p = 0) = False" using Cons.prems(2) by auto
  have step: "go_ok (write_rows pe False img fmt [0..height img - 1] w)
    (\<lambda>w'. holds_rows img rows w' \<and> calls w' = calls w @ map ?row [0..height img - 1])"
    by (rule later_pass_ok [OF Cons.prems(1) assms(2)]) simp
  show ?case
    unfolding write_passes.simps p
  proof (rule go_ok_bind [OF step], elim conjE)
    fix w1 assume w1: "holds_rows img rows w1" "calls w1 = calls w @ map ?row [0..height img - 1]"
    show "go_ok (write_passes pe img fmt ps w1) (\<lambda>w'. holds_rows img rows w' \<and> calls w' = calls w @
        concat (replicate (length (p # ps)) (map ?row [0..height img - 1])))"
      by (rule go_ok_mono [OF Cons.IH [OF w1(1)]]) (use Cons.prems w1(2) in auto)
  qed
qed simp

text \<open>C5: Writing the image data. For an image whose buffer holds \<open>height\<close> rows of \<open>width\<close> pixels, every
  pass over the image hands libpng the rows in the order in which they are shown, top to bottom, each
  pixel replaced by its sample exactly once, whether or not the GIF was interlaced and however many
  passes libpng asks for.\<close>

theorem rows_in_display_order:
  assumes "holds_rows img rows w" and "remap_ok fmt"
  shows "go_ok (write_image pe img fmt w) (\<lambda>w'. calls w' = calls w @ Set_interlace_handling #
    concat (replicate (png_passes pe (calls w @ [Set_interlace_handling]))
      (map (\<lambda>i. Write_row (map (sample fmt) (rows ! nat (display_row img i)))) [0..height img - 1])))"
proof -
  let ?rows = "sampled img fmt {0..<height img} rows"
  let ?out = "map (\<lambda>i. Write_row (map (sample fmt) (rows ! nat (display_row img i)))) [0..height img - 1]"
  let ?Q = "\<lambda>w'. calls w' = calls w @ Set_interlace_handling # concat (replicate (png_passes pe (calls w @ [Set_interlace_handling])) ?out)"
  have len: "int (length rows) = height img" using assms(1) by (simp add: holds_rows_def)
  have r0: "sampled img fmt {} rows = rows" by (simp add: sampled_def map_nth)
  have h0: "0 \<le> height img" using len by linarith
  have row: "?rows ! nat (display_row img i) = map (sample fmt) (rows ! nat (display_row img i))" if "i \<in> set [0..height img - 1]" for i
    using display_row_range [of i img] that len by (auto simp: sampled_def nat_less_iff sample_plain)
  have out: "map (\<lambda>i. Write_row (?rows ! nat (display_row img i))) [0..height img - 1] = ?out" using row by simp
  have "go_ok (png pe Set_interlace_handling w) (\<lambda>w1. holds_rows img rows w1 \<and> calls w1 = calls w @ [Set_interlace_handling])"
    using assms(1) by (auto simp: png_def go_ok_def holds_rows_def)
  then show ?thesis
    unfolding write_image_def
  proof (rule go_ok_bind, elim conjE)
    fix w1 assume w1: "holds_rows img rows w1" "calls w1 = calls w @ [Set_interlace_handling]"
    show "go_ok (write_passes pe img fmt [0..<png_passes pe (calls w1)] w1) ?Q"
    proof (cases "png_passes pe (calls w1)")
      case 0
      then show ?thesis using w1(2) by simp
    next
      case (Suc n)
      have ps: "[0..<Suc n] = 0 # [1..<Suc n]" by (simp add: upt_conv_Cons del: upt_Suc)
      have t: "(0 = (0 :: nat)) = True" by simp
      have "go_ok (write_rows pe True img fmt [0..height img - 1] w1)
        (\<lambda>w'. holds_rows img ?rows w' \<and> calls w' = calls w1 @ ?out)"
        by (rule first_pass_ok [where i = 0]) (use w1(1) assms(2) len h0 in \<open>simp_all add: r0\<close>)
      then show ?thesis
        unfolding Suc ps write_passes.simps t
      proof (rule go_ok_bind, elim conjE)
        fix w2 assume w2: "holds_rows img ?rows w2" "calls w2 = calls w1 @ ?out"
        show "go_ok (write_passes pe img fmt [1..<Suc n] w2) ?Q"
          by (rule go_ok_mono [OF later_passes_ok [OF w2(1) assms(2)]]) (use w1(2) w2(2) Suc out in auto)
      qed
    qed
  qed
qed

definition sample_rows :: conv where
  "sample_rows = set_conv_mem (set_current (zero_element\<lparr>GIFtype := 44, data := Some [0, 1, 1, 0], allocated_size := 4,
     elem_size := 4, imagestruct := Some sample_image\<rparr>) mem_start) (sample_conv [])"

theorem rows_in_display_order_witness:
  "go_ok (write_image sample_png_env sample_image
     \<lparr>gray = False, last_color = 1, remapping = True, bitdepth = 1, remap = Some (1 # 0 # replicate 254 0)\<rparr> sample_rows)
    (\<lambda>w'. calls w' = calls sample_rows @ Set_interlace_handling #
      concat (replicate (png_passes sample_png_env (calls sample_rows @ [Set_interlace_handling]))
        (map (\<lambda>i. Write_row (map (sample \<lparr>gray = False, last_color = 1, remapping = True, bitdepth = 1, remap = Some (1 # 0 # replicate 254 0)\<rparr>)
           ([[0, 1], [1, 0]] ! nat (display_row sample_image i)))) [0..height sample_image - 1])))"
  by (rule rows_in_display_order)
    (simp_all add: holds_rows_def remap_ok_def sample_rows_def set_conv_mem_def set_current_def mem_start_def sample_image_def)

end
