(* ===== verification/Gif_Convert.thy ===== *)
theory Gif_Convert
  imports Gif_Colors
begin

text \<open>
  The program around the reader and the writer of \<^verbatim>\<open>test_sources/gif2png/src/gif2png.c\<close>:
  \<open>MatteGIF\<close>, \<open>processfilter\<close>, \<open>processfile\<close> and \<open>main\<close>. The files of the system are a parameter that
  may depend on what the program did so far. Messages on \<open>stderr\<close> are left out.
\<close>

section \<open>Environment\<close>

record file_env =
  readable :: "conv \<Rightarrow> cstring \<Rightarrow> byte list option" \<comment> \<open>\<open>fopen(name, "rb")\<close>, with the content\<close>
  creatable :: "conv \<Rightarrow> cstring \<Rightarrow> bool" \<comment> \<open>\<open>fopen(name, "wb")\<close>\<close>
  stdin_data :: "byte list"
  stdin_terminal :: bool

section \<open>Matte\<close>

definition matte_element :: "gif_color \<Rightarrow> GIFelement \<Rightarrow> GIFelement res" where
  "matte_element color e =
     (case imagestruct e of
        None \<Rightarrow> Ok e
      | Some img \<Rightarrow>
          if trans img = - 1 then Ok e
          else bindR (wr (colors img) (trans img) color) (\<lambda>cs.
                 Ok (e\<lparr>imagestruct := Some (img\<lparr>colors := cs, trans := - 1\<rparr>)\<rparr>)))"

text \<open>\<open>current\<close> is NULL afterwards.\<close>

definition MatteGIF :: "gif_color \<Rightarrow> gif_mem \<Rightarrow> gif_mem res" where
  "MatteGIF color m =
     bindR (mapR (matte_element color) (elements m)) (\<lambda>es. Ok (m\<lparr>elements := es, current := length es\<rparr>))"

definition apply_matte :: "conv \<Rightarrow> conv res" where
  "apply_matte w =
     (if matte (opts w) then bindR (MatteGIF (matte_color (opts w)) (conv_mem w)) (\<lambda>m. Ok (set_conv_mem m w)) else Ok w)"

section \<open>Names of the PNG files\<close>

text \<open>\<open>strcmp(a, b) == 0\<close>, on what the pointers point to.\<close>

fun strcmp_eq :: "byte list \<Rightarrow> byte list \<Rightarrow> bool res" where
  "strcmp_eq [] b = Fault Out_of_bounds"
| "strcmp_eq a [] = Fault Out_of_bounds"
| "strcmp_eq (x # a) (y # b) = (if x \<noteq> y then Ok False else if x = 0 then Ok True else strcmp_eq a b)"

definition strcmp_at :: "byte list \<Rightarrow> int \<Rightarrow> cstring \<Rightarrow> bool res" where
  "strcmp_at buf off s = (if off < 0 then Fault Out_of_bounds else strcmp_eq (drop (nat off) buf) (s @ [0]))"

text \<open>\<open>strcpy(outname, fname)\<close> into 1025 bytes.\<close>

definition copy_name :: "gif_env \<Rightarrow> cstring \<Rightarrow> byte list res" where
  "copy_name env s = wr_block (map (heap_byte env) [0..<1025]) 0 (s @ [0])"

text \<open>The walk back from \<open>file_ext = outname + n - 1\<close> to a dot, a slash or a backslash; -1 if there is none.\<close>

primrec find_separator :: "byte list \<Rightarrow> nat \<Rightarrow> int res" where
  "find_separator buf 0 = Ok (- 1)"
| "find_separator buf (Suc n) =
     bindR (rd buf (int n)) (\<lambda>c. if c = 46 \<or> c = 47 \<or> c = 92 then Ok (int n) else find_separator buf n)"

text \<open>\<open>a != 0 && b != 0 && ...\<close>\<close>

fun none_equal :: "byte list \<Rightarrow> int \<Rightarrow> cstring list \<Rightarrow> bool res" where
  "none_equal buf off [] = Ok True"
| "none_equal buf off (s # ss) = bindR (strcmp_at buf off s) (\<lambda>eq. if eq then Ok False else none_equal buf off ss)"

definition file_ext :: "byte list \<Rightarrow> int res" where
  "file_ext buf =
     bindR (strlen buf) (\<lambda>len.
     bindR (none_equal buf (int len - 4) [bytes_of ''.gif'', bytes_of ''.GIF'', bytes_of ''_gif'', bytes_of ''_GIF'']) (\<lambda>other.
       if \<not> other then Ok (int len - 4)
       else bindR (find_separator buf (Suc len)) (\<lambda>off.
         if off < 0 then Ok (int len)
         else bindR (rd buf off) (\<lambda>c. Ok (if c \<noteq> 46 then int len else off)))))"

text \<open>\<open>sprintf(file_ext, ".p%02d", i)\<close>\<close>

definition page_ext :: "int \<Rightarrow> cstring" where
  "page_ext i = bytes_of ''.p'' @ (if 0 \<le> i \<and> i < 10 then 48 # dec_int i else dec_int i)"

definition set_ext :: "byte list \<Rightarrow> int \<Rightarrow> cstring \<Rightarrow> byte list res" where
  "set_ext buf off ext = wr_block buf off (ext @ [0])"

section \<open>Files\<close>

definition set_current_index :: "nat \<Rightarrow> conv \<Rightarrow> conv" where
  "set_current_index k w = set_conv_mem ((conv_mem w)\<lparr>current := k\<rparr>) w"

text \<open>One PNG file: what libpng was asked to write goes to \<open>outputs\<close>.\<close>

definition write_output :: "gif_env \<Rightarrow> png_env \<Rightarrow> cstring \<Rightarrow> nat \<Rightarrow> bool \<Rightarrow> conv \<Rightarrow> (int \<times> conv) res" where
  "write_output env pe name s lastimg w =
     bindR (writefile env pe s lastimg (w\<lparr>calls := []\<rparr>)) (\<lambda>(r, w).
       Ok (r, w\<lparr>outputs := outputs w @ [(name, calls w)], numpngs := numpngs w + 1\<rparr>))"

text \<open>The loop over the elements behind \<open>first\<close>. The results are whether a file could not be created, and
  \<open>suppress_delete\<close>.\<close>

fun convert_images ::
  "gif_env \<Rightarrow> png_env \<Rightarrow> file_env \<Rightarrow> int \<Rightarrow> int \<Rightarrow> nat list \<Rightarrow> nat option \<Rightarrow> int \<Rightarrow> bool \<Rightarrow> byte list \<Rightarrow> conv \<Rightarrow> (bool \<times> bool \<times> conv) res" where
  "convert_images env pe fs num_pics ext [] start i suppress_delete outname w = Ok (False, suppress_delete, w)"
| "convert_images env pe fs num_pics ext (k # ks) start i suppress_delete outname w =
     (let w = set_current_index k w; s = (case start of None \<Rightarrow> k | Some s \<Rightarrow> s) in
      if GIFtype (elements (conv_mem w) ! k) = 44 then
        if \<not> creatable fs w (cstr outname) then Ok (True, suppress_delete, w)
        else
          bindR (write_output env pe (cstr outname) s (i + 1 = num_pics) w) (\<lambda>(r, w).
          bindR (set_ext outname ext (page_ext (i + 1))) (\<lambda>outname.
            convert_images env pe fs num_pics ext ks None (i + 1) (suppress_delete \<or> r \<noteq> 0) outname w))
      else convert_images env pe fs num_pics ext ks (Some s) i suppress_delete outname w)"

definition read_gif :: "gif_env \<Rightarrow> gif_color list \<Rightarrow> byte list \<Rightarrow> conv \<Rightarrow> (int \<times> conv) res" where
  "read_gif env local_map bs w =
     (let w = set_current_index 0 w in
      bindR (ReadGIF env local_map ((gst w)\<lparr>infile := (infile (gst w))\<lparr>input := bs\<rparr>\<rparr>)) (\<lambda>(n, st). Ok (n, w\<lparr>gst := st\<rparr>)))"

text \<open>The option -w: the name is listed when the GIF has one image and, unless -t was given, the current
  element has no transparent colour.\<close>

definition web_probe :: "cstring \<Rightarrow> int \<Rightarrow> conv \<Rightarrow> conv res" where
  "web_probe fname num_pics w =
     (if num_pics \<noteq> 1 then Ok w
      else if transparent_ok (opts w) then Ok (w\<lparr>listed := listed w @ [fname]\<rparr>)
      else bindR (get_current (conv_mem w)) (\<lambda>c.
        if (case imagestruct c of None \<Rightarrow> False | Some img \<Rightarrow> trans img \<noteq> - 1) then Ok w
        else Ok (w\<lparr>listed := listed w @ [fname]\<rparr>)))"

definition processfile :: "gif_env \<Rightarrow> png_env \<Rightarrow> file_env \<Rightarrow> gif_color list \<Rightarrow> cstring \<Rightarrow> byte list option \<Rightarrow> conv \<Rightarrow> (int \<times> conv) res" where
  "processfile env pe fs local_map fname fp w =
     (case fp of None \<Rightarrow> Ok (1, w)
      | Some bs \<Rightarrow>
          bindR (read_gif env local_map bs w) (\<lambda>(num_pics, w).
          if num_pics \<le> 0 then Ok (1, w)
          else if webconvert (opts w) then bindR (web_probe fname num_pics w) (\<lambda>w. Ok (0, w))
          else
            bindR (apply_matte w) (\<lambda>w.
            bindR (copy_name env fname) (\<lambda>outname.
            bindR (file_ext outname) (\<lambda>ext.
            bindR (set_ext outname ext (bytes_of ''.png'')) (\<lambda>outname.
            bindR (convert_images env pe fs num_pics ext [1..<length (elements (conv_mem w))] None 0 False outname w)
              (\<lambda>(failed, suppress_delete, w).
              if failed then Ok (1, w)
              else
                let w = set_conv_mem (free_mem (conv_mem w)) w in
                Ok (0, if delete (opts w) \<and> \<not> suppress_delete then w\<lparr>unlinked := unlinked w @ [fname]\<rparr> else w))))))))"

fun filter_images :: "gif_env \<Rightarrow> png_env \<Rightarrow> nat list \<Rightarrow> nat option \<Rightarrow> conv \<Rightarrow> conv res" where
  "filter_images env pe [] start w = Ok w"
| "filter_images env pe (k # ks) start w =
     (let w = set_current_index k w; s = (case start of None \<Rightarrow> k | Some s \<Rightarrow> s) in
      if GIFtype (elements (conv_mem w) ! k) = 44
      then bindR (write_output env pe (bytes_of ''stdout'') s True w) (\<lambda>(_, w). filter_images env pe ks None w)
      else filter_images env pe ks (Some s) w)"

definition processfilter :: "gif_env \<Rightarrow> png_env \<Rightarrow> file_env \<Rightarrow> gif_color list \<Rightarrow> conv \<Rightarrow> (int \<times> conv) res" where
  "processfilter env pe fs local_map w =
     bindR (read_gif env local_map (stdin_data fs) w) (\<lambda>(num_pics, w).
     if num_pics \<noteq> 1 then Ok (1, w)
     else
       bindR (apply_matte w) (\<lambda>w.
       bindR (filter_images env pe [1..<length (elements (conv_mem w))] None w) (\<lambda>w.
         Ok (0, set_conv_mem (free_mem (conv_mem w)) w))))"

section \<open>Options\<close>

text \<open>\<open>sscanf(color, "%x", &background)\<close>: \<open>None\<close> when nothing matches; a number that does not fit is undefined.\<close>

definition hex_number :: "cstring \<Rightarrow> int option" where
  "hex_number s =
     (let s = (if take 2 s = bytes_of ''0x'' \<or> take 2 s = bytes_of ''0X'' then drop 2 s else s); ds = hex_digits s in
      if ds = [] then None else Some (foldl (\<lambda>n d. n * 16 + d) 0 ds))"

definition sscanf_hex :: "cstring \<Rightarrow> int option res" where
  "sscanf_hex s =
     (let s = dropWhile (\<lambda>c. c = 32 \<or> (9 \<le> c \<and> c \<le> 13)) s;
          neg = (take 1 s = [45]);
          s = (if take 1 s = [45] \<or> take 1 s = [43] then drop 1 s else s) in
      case hex_number s of
        None \<Rightarrow> Ok None
      | Some n \<Rightarrow> if n \<ge> 2 ^ 32 then Fault Int_overflow else Ok (Some ((if neg then - n else n) mod 2 ^ 32)))"

text \<open>The variable \<open>background\<close> (\<open>None\<close>: not initialised) and the rest of the program.\<close>

type_synonym opt_state = "int option \<times> conv"

definition set_matte :: "cstring \<Rightarrow> opt_state \<Rightarrow> opt_state res" where
  "set_matte color s =
     (let (background, w) = s; color = (if take 1 color = [35] then tl color else color) in
      bindR (sscanf_hex color) (\<lambda>v.
      let background = (case v of None \<Rightarrow> background | Some n \<Rightarrow> Some n) in
      case background of
        None \<Rightarrow> Fault Uninitialised
      | Some n \<Rightarrow> Ok (background, w\<lparr>opts := (opts w)\<lparr>matte := True, matte_color :=
          \<lparr>red = word_of_int (drop_bit 16 n AND 0xff), green = word_of_int (drop_bit 8 n AND 0xff), blue = word_of_int (n AND 0xff)\<rparr>\<rparr>\<rparr>)))"

text \<open>One letter other than b; \<open>None\<close> prints the usage.\<close>

definition set_flag :: "byte \<Rightarrow> conv \<Rightarrow> conv option" where
  "set_flag c w =
     (let o1 = opts w in
      if c = 100 then Some (w\<lparr>opts := o1\<lparr>delete := True\<rparr>\<rparr>)
      else if c = 102 \<or> c = 49 then Some (w\<lparr>opts := o1\<lparr>filtermode := True\<rparr>\<rparr>)
      else if c = 103 then Some (w\<lparr>opts := o1\<lparr>gamma_srgb := True\<rparr>\<rparr>)
      else if c = 104 then Some (w\<lparr>opts := o1\<lparr>histogram := True\<rparr>\<rparr>)
      else if c = 105 then Some (w\<lparr>opts := o1\<lparr>interlaced := 1\<rparr>\<rparr>)
      else if c = 110 then Some (w\<lparr>opts := o1\<lparr>interlaced := 0\<rparr>\<rparr>)
      else if c = 112 then Some (w\<lparr>opts := o1\<lparr>progress := True\<rparr>\<rparr>)
      else if c = 114 then Some (w\<lparr>gst := (gst w)\<lparr>recover := True\<rparr>\<rparr>)
      else if c = 115 then Some (w\<lparr>opts := o1\<lparr>software_chunk := False\<rparr>\<rparr>)
      else if c = 116 then Some (w\<lparr>opts := o1\<lparr>transparent_ok := True\<rparr>\<rparr>)
      else if c = 118 then Some (w\<lparr>opts := o1\<lparr>verbose := verbose o1 + 1\<rparr>\<rparr>)
      else if c = 119 then Some (w\<lparr>opts := o1\<lparr>webconvert := True\<rparr>\<rparr>)
      else if c = 79 then Some (w\<lparr>opts := o1\<lparr>optimize := True\<rparr>\<rparr>)
      else None)"

text \<open>The letters of one argument, with the arguments behind it; \<open>-b\<close> takes the next argument and ends
  its own.\<close>

primrec parse_letters :: "cstring \<Rightarrow> cstring list \<Rightarrow> opt_state \<Rightarrow> (cstring list \<times> opt_state) option res" where
  "parse_letters [] rest s = Ok (Some (rest, s))"
| "parse_letters (c # cs) rest s =
     (if c = 98 then
        case rest of
          [] \<Rightarrow> Fault (Exited 1)
        | color # rest' \<Rightarrow> bindR (set_matte color s) (\<lambda>s. Ok (Some (rest', s)))
      else case set_flag c (snd s) of
          None \<Rightarrow> Ok None
        | Some w \<Rightarrow> parse_letters cs rest (fst s, w))"

lemma parse_letters_rest: "parse_letters cs rest s = Ok (Some (rest', s')) \<Longrightarrow> length rest' \<le> length rest"
  by (induction cs arbitrary: s) (auto simp: bindR_eq_Ok split: if_splits list.splits option.splits)

function parse_args :: "cstring list \<Rightarrow> opt_state \<Rightarrow> (cstring list \<times> conv) option res" where
  "parse_args [] s = Ok (Some ([], snd s))"
| "parse_args (a # rest) s =
     (if take 1 a = [45] then
        bindR (parse_letters (tl a) rest s) (\<lambda>r. case r of
            None \<Rightarrow> Ok None
          | Some (rest, s) \<Rightarrow> parse_args rest s)
      else Ok (Some (a # rest, snd s)))"
  by pat_completeness auto
termination
  by (relation "measure (\<lambda>(args, s). length args)") (auto dest: parse_letters_rest simp: less_Suc_eq_le)

section \<open>The program\<close>

text \<open>\<open>strcpy(name, argv[i])\<close> and \<open>strcat(name, ".gif")\<close> into 1025 bytes.\<close>

definition open_input :: "gif_env \<Rightarrow> file_env \<Rightarrow> cstring \<Rightarrow> conv \<Rightarrow> (cstring \<times> byte list option) res" where
  "open_input env fs arg w =
     bindR (copy_name env arg) (\<lambda>name.
     case readable fs w arg of
       Some bs \<Rightarrow> Ok (arg, Some bs)
     | None \<Rightarrow> bindR (set_ext name (int (length arg)) (bytes_of ''.gif'')) (\<lambda>name.
         Ok (cstr name, readable fs w (cstr name))))"

fun process_args :: "gif_env \<Rightarrow> png_env \<Rightarrow> file_env \<Rightarrow> gif_color list \<Rightarrow> cstring list \<Rightarrow> int \<Rightarrow> conv \<Rightarrow> (int \<times> conv) res" where
  "process_args env pe fs local_map [] errors w = Ok (errors, w)"
| "process_args env pe fs local_map (a # args) errors w =
     bindR (open_input env fs a w) (\<lambda>(name, fp). case fp of
         None \<Rightarrow> process_args env pe fs local_map args 1 w
       | Some bs \<Rightarrow> bindR (processfile env pe fs local_map name fp w) (\<lambda>(r, w).
           process_args env pe fs local_map args (errors OR r) (w\<lparr>numgifs := numgifs w + 1\<rparr>)))"

definition main :: "gif_env \<Rightarrow> png_env \<Rightarrow> file_env \<Rightarrow> gif_color list \<Rightarrow> cstring list \<Rightarrow> conv \<Rightarrow> (int \<times> conv) res" where
  "main env pe fs local_map argv w =
     bindR (parse_args argv (None, w\<lparr>opts := (opts w)\<lparr>software_chunk := True\<rparr>\<rparr>)) (\<lambda>r. case r of
         None \<Rightarrow> Ok (1, w)
       | Some ([], w) \<Rightarrow>
           if stdin_terminal fs then Ok (1, w)
           else if filtermode (opts w) then
             bindR (processfilter env pe fs local_map w) (\<lambda>(r, w). Ok (if r \<noteq> 0 then 1 else 0, w))
           else
             bindR (processfile env pe fs local_map (bytes_of ''noname.gif'') (Some (stdin_data fs)) w) (\<lambda>(_, w).
               Ok (0, w\<lparr>numgifs := numgifs w + 1\<rparr>))
       | Some (args, w) \<Rightarrow> process_args env pe fs local_map args 0 w)"

end
