(* ===== verification/Gif_Program.thy ===== *)
theory Gif_Program
  imports Gif_Convert
begin

text \<open>
  Properties of gif2png as a program: the names of the files it writes, the matte colour, and what
  happens to a comment on its way from the GIF to the PNG.
\<close>

section \<open>Names\<close>

text \<open>The name without its extension: one of four spellings of .gif, or whatever follows the last dot of
  the last component of the path.\<close>

definition stem :: "cstring \<Rightarrow> cstring" where
  "stem s =
     (if drop (length s - 4) s \<in> {bytes_of ''.gif'', bytes_of ''.GIF'', bytes_of ''_gif'', bytes_of ''_GIF''}
      then take (length s - 4) s
      else case dropWhile (\<lambda>c. \<not> (c = 46 \<or> c = 47 \<or> c = 92)) (rev s) of
          [] \<Rightarrow> s
        | c # r \<Rightarrow> if c = 46 then rev r else s)"

lemma strcmp_eq_strings:
  "0 \<notin> set a \<Longrightarrow> 0 \<notin> set b \<Longrightarrow> strcmp_eq (a @ 0 # t) (b @ [0]) = Ok (a = b)"
proof (induction a arbitrary: b)
  case Nil
  then show ?case by (cases b) auto
next
  case (Cons x a)
  then show ?case by (cases b) auto
qed

lemma strcmp_at_strings:
  assumes "0 \<notin> set a" and "0 \<notin> set b" and "k \<le> length a"
  shows "strcmp_at (a @ 0 # t) (int k) b = Ok (drop k a = b)"
proof -
  have "0 \<notin> set (drop k a)" using assms(1) set_drop_subset [of k a] by blast
  then have "strcmp_eq (drop k a @ 0 # t) (b @ [0]) = Ok (drop k a = b)" using assms(2) by (rule strcmp_eq_strings)
  then show ?thesis using assms(3) by (simp add: strcmp_at_def)
qed

lemma none_equal_strings:
  assumes "0 \<notin> set a" and "k \<le> length a" and "\<forall>b \<in> set bs. 0 \<notin> set b"
  shows "none_equal (a @ 0 # t) (int k) bs = Ok (drop k a \<notin> set bs)"
  using assms(3)
proof (induction bs)
  case (Cons b bs)
  then have "0 \<notin> set b" by simp
  from strcmp_at_strings [OF assms(1) this assms(2), of t] Cons show ?case by auto
qed simp

abbreviation "sep c \<equiv> c = (46 :: byte) \<or> c = 47 \<or> c = 92"

text \<open>The walk back stops where the reversed string starts with a separator.\<close>

lemma find_separator_string:
  "find_separator (a @ t) (length a) = Ok (int (length (dropWhile (\<lambda>c. \<not> sep c) (rev a))) - 1)"
proof (induction a arbitrary: t rule: rev_induct)
  case (snoc c a)
  have "rd (a @ c # t) (int (length a)) = Ok c" by simp
  then show ?case using snoc.IH [of "c # t"] by simp
qed simp

lemma extensions_no_nul: "\<forall>b \<in> {bytes_of ''.gif'', bytes_of ''.GIF'', bytes_of ''_gif'', bytes_of ''_GIF''}. 0 \<notin> set b"
  by (simp add: bytes_of_def of_char_Char)

lemma file_ext_stem:
  assumes "0 \<notin> set s" and "4 \<le> length s"
  shows "file_ext (s @ 0 # t) = Ok (int (length (stem s))) \<and> take (length (stem s)) s = stem s \<and> length (stem s) \<le> length s"
proof -
  let ?gif = "[bytes_of ''.gif'', bytes_of ''.GIF'', bytes_of ''_gif'', bytes_of ''_GIF'']"
  have four: "int (length s) - 4 = int (length s - 4)" using assms(2) by simp
  have ne: "none_equal (s @ 0 # t) (int (length s) - 4) ?gif = Ok (drop (length s - 4) s \<notin> set ?gif)"
    unfolding four by (rule none_equal_strings) (use assms(1) extensions_no_nul in auto)
  have fs: "find_separator (s @ 0 # t) (Suc (length s)) = Ok (int (length (dropWhile (\<lambda>c. \<not> sep c) (rev s))) - 1)"
    using find_separator_string [of s "0 # t"] by simp
  show ?thesis
  proof (cases "drop (length s - 4) s \<in> set ?gif")
    case True
    then have st: "stem s = take (length s - 4) s" by (simp add: stem_def)
    then have "file_ext (s @ 0 # t) = Ok (int (length s) - 4)"
      unfolding file_ext_def strlen_append [OF assms(1)] bindR.simps ne using True by simp
    then show ?thesis using assms(2) st by simp
  next
    case False
    then have st: "stem s = (case dropWhile (\<lambda>c. \<not> sep c) (rev s) of [] \<Rightarrow> s | c # r \<Rightarrow> if c = 46 then rev r else s)"
      by (simp add: stem_def)
    have fe: "file_ext (s @ 0 # t) = bindR (find_separator (s @ 0 # t) (Suc (length s))) (\<lambda>off.
         if off < 0 then Ok (int (length s)) else bindR (rd (s @ 0 # t) off) (\<lambda>c. Ok (if c \<noteq> 46 then int (length s) else off)))"
      unfolding file_ext_def strlen_append [OF assms(1)] bindR.simps ne using False by simp
    show ?thesis
    proof (cases "dropWhile (\<lambda>c. \<not> sep c) (rev s)")
      case Nil
      show ?thesis using fe [unfolded fs Nil] st [unfolded Nil] by simp
    next
      case (Cons c r)
      define u where "u = takeWhile (\<lambda>c. \<not> sep c) (rev s)"
      have "rev s = u @ c # r" unfolding u_def Cons [symmetric] by (simp only: takeWhile_dropWhile_id)
      then have s: "s = rev r @ c # rev u" by (metis rev_append rev_rev_ident rev.simps(2) append.assoc append_Cons append_Nil)
      have "rd (s @ 0 # t) (int (length r)) = Ok c" by (simp add: s nth_append)
      then show ?thesis using fe [unfolded fs Cons] st [unfolded Cons] s by simp
    qed
  qed
qed

text \<open>The name of the first PNG: for an argument of 4 to 1020 bytes the calls that build it stay
  inside the 1025 bytes of \<open>outname\<close>, and the result is the name of the GIF with its extension
  replaced by .png, or with .png appended if its last component has none.\<close>

theorem output_name:
  assumes "0 \<notin> set fname" and "4 \<le> length fname" and "length fname \<le> 1020"
  shows "\<exists>outname. bindR (copy_name env fname) (\<lambda>buf. bindR (file_ext buf) (\<lambda>ext. set_ext buf ext (bytes_of ''.png''))) = Ok outname \<and>
    cstr outname = stem fname @ bytes_of ''.png''"
proof -
  obtain t where t: "copy_name env fname = Ok (fname @ 0 # t)" "length (fname @ 0 # t) = 1025"
    using assms(3) by (auto simp: copy_name_def wr_block_def)
  note f = file_ext_stem [OF assms(1,2), of t]
  have png: "length (bytes_of ''.png'') = 4" "0 \<notin> set (bytes_of ''.png'')" by (simp_all add: bytes_of_def of_char_Char)
  have "set_ext (fname @ 0 # t) (int (length (stem fname))) (bytes_of ''.png'') =
      Ok (take (length (stem fname)) (fname @ 0 # t) @ (bytes_of ''.png'' @ [0]) @ drop (length (stem fname) + 5) (fname @ 0 # t))"
    using f t(2) assms(3) png(1) by (simp add: set_ext_def wr_block_def)
  moreover have "take (length (stem fname)) (fname @ 0 # t) = stem fname" using f by simp
  moreover have "0 \<notin> set (stem fname)" using f assms(1) by (metis in_set_takeD)
  ultimately show ?thesis using t(1) f png(2) cstr_append [of "stem fname @ bytes_of ''.png''"] by simp
qed

theorem output_name_witness:
  "\<exists>outname. bindR (copy_name sample_gif_env (bytes_of ''a/b.c''))
      (\<lambda>buf. bindR (file_ext buf) (\<lambda>ext. set_ext buf ext (bytes_of ''.png''))) = Ok outname \<and>
    cstr outname = stem (bytes_of ''a/b.c'') @ bytes_of ''.png''"
  by (rule output_name) (simp_all add: bytes_of_def of_char_Char)

text \<open>Names the buffers do not allow: an argument of fewer than four bytes makes \<open>processfile\<close> compare
  bytes in front of \<open>outname\<close>, one of more than 1024 bytes makes \<open>strcpy\<close> write behind it.\<close>

theorem name_out_of_bounds:
  assumes "0 \<notin> set fname" and "length fname < 4 \<or> 1024 < length fname"
  shows "bindR (copy_name env fname) file_ext = Fault Out_of_bounds"
proof (cases "length fname < 4")
  case True
  then obtain t where t: "copy_name env fname = Ok (fname @ 0 # t)" by (auto simp: copy_name_def wr_block_def)
  have "strcmp_at (fname @ 0 # t) (int (length fname) - 4) b = Fault Out_of_bounds" for b
    using True by (simp add: strcmp_at_def)
  then show ?thesis using t assms(1) by (simp add: file_ext_def)
next
  case False
  then show ?thesis using assms(2) by (simp add: copy_name_def wr_block_def)
qed

theorem name_out_of_bounds_witness: "bindR (copy_name sample_gif_env [97]) file_ext = Fault Out_of_bounds"
  by (rule name_out_of_bounds) simp_all

section \<open>Matte\<close>

definition matted :: "gif_color \<Rightarrow> GIFelement \<Rightarrow> GIFelement \<Rightarrow> bool" where
  "matted color e e' \<longleftrightarrow> data e' = data e \<and> GIFtype e' = GIFtype e \<and> elem_size e' = elem_size e \<and>
     (case imagestruct e of None \<Rightarrow> imagestruct e' = None
      | Some img \<Rightarrow> (\<exists>img'. imagestruct e' = Some img' \<and> trans img' = - 1 \<and> color_count img' = color_count img \<and>
          (\<forall>i < 256. colors img' ! i = (if int i = trans img then color else colors img ! i))))"

lemma mapR_related:
  assumes "\<And>x. x \<in> set xs \<Longrightarrow> \<exists>y. f x = Ok y \<and> P x y"
  shows "\<exists>ys. mapR f xs = Ok ys \<and> list_all2 P xs ys"
  using assms
proof (induction xs)
  case (Cons x xs)
  then obtain y ys where "f x = Ok y" "P x y" "mapR f xs = Ok ys" "list_all2 P xs ys" by fastforce
  then show ?case by simp
qed simp

text \<open>The option -b: \<open>MatteGIF\<close> ends with every image opaque. The entry of the transparent colour, and
  no other, becomes the matte colour; the pixels and everything else of the elements stay.\<close>

theorem matte_removes_transparency:
  assumes "\<forall>e \<in> set (elements m). \<forall>img. imagestruct e = Some img \<longrightarrow> image_ok img"
  shows "\<exists>m'. MatteGIF color m = Ok m' \<and> list_all2 (matted color) (elements m) (elements m')"
proof -
  have "\<exists>e'. matte_element color e = Ok e' \<and> matted color e e'" if "e \<in> set (elements m)" for e
  proof (cases "imagestruct e")
    case None
    then show ?thesis by (simp add: matte_element_def matted_def)
  next
    case (Some img)
    then have ok: "image_ok img" using assms that by blast
    show ?thesis
    proof (cases "trans img = - 1")
      case True
      then show ?thesis using Some by (auto simp: matte_element_def matted_def)
    next
      case False
      then have "0 \<le> trans img" "trans img < 256" "length (colors img) = 256" using ok by (auto simp: image_ok_def)
      then show ?thesis using Some False by (auto simp: matte_element_def matted_def nth_list_update)
    qed
  qed
  then obtain es where "mapR (matte_element color) (elements m) = Ok es" "list_all2 (matted color) (elements m) es"
    using mapR_related [where f = "matte_element color" and P = "matted color" and xs = "elements m"] by blast
  then show ?thesis by (simp add: MatteGIF_def)
qed

theorem matte_removes_transparency_witness:
  "\<exists>m'. MatteGIF \<lparr>red = 1, green = 2, blue = 3\<rparr> (conv_mem sample_rows) = Ok m' \<and>
    list_all2 (matted \<lparr>red = 1, green = 2, blue = 3\<rparr>) (elements (conv_mem sample_rows)) (elements m')"
  by (rule matte_removes_transparency)
    (simp add: sample_rows_def set_conv_mem_def set_current_def mem_start_def image_ok_def sample_image_def zero_image_def)

section \<open>From the GIF to the PNG\<close>

lemma strlen_no_nul: "0 \<notin> set bs \<Longrightarrow> strlen bs = Fault Out_of_bounds"
  by (induction bs) auto

lemma kept_element:
  assumes "kept label bs st (0, st')"
  obtains e where "elements (mem st') ! current (mem st') = e" "GIFtype e = label" "buffer e = bs" "elem_size e = int (length bs)"
    "mem_ok (mem st')"
proof -
  obtain e where e: "elements (mem st') = take (Suc (current (mem st))) (elements (mem st)) @ [e]"
      "current (mem st') = Suc (current (mem st))" "buffer e = bs" "elem_size e = int (length bs)" "mem_ok (mem st')" "GIFtype e = label"
    using assms by (auto simp: kept_def new_element_def)
  then have "length (take (Suc (current (mem st))) (elements (mem st))) = Suc (current (mem st))"
    by (auto simp: mem_ok_def)
  then have "elements (mem st') ! current (mem st') = e" using e(1,2) by (simp add: nth_append)
  then show ?thesis using that e by blast
qed

text \<open>A comment on its way from the GIF to the PNG. The reader keeps exactly the text of the comment,
  without a terminating NUL; \<open>writefile\<close> takes its length by \<open>strlen\<close>. A comment whose text has no NUL
  is therefore read behind the end of its buffer, and an empty one through a null pointer, unless the
  allocator ends the program before.\<close>

theorem comment_read_behind_end:
  assumes "mem_ok (mem st)" and "length (ext_buf st) = 256"
    and "0 \<notin> set (unix_lines False (concat (whole_blocks (input (infile st)))))"
  shows "bindR (DoExtension env 0xfe st) (\<lambda>(_, st'). write_element pe img fmt (elements (mem st') ! current (mem st')) w)
    \<in> {Fault Out_of_bounds, Fault Null_pointer, Fault (Exited 1)}"
proof -
  let ?text = "unix_lines False (concat (whole_blocks (input (infile st))))"
  have "mem_safe (DoExtension env 0xfe st) (kept 0xfe ?text st)" by (rule comment_extension_kept [OF assms(1,2)])
  then consider r where "DoExtension env 0xfe st = Ok r" "kept 0xfe ?text st r" | "DoExtension env 0xfe st = Fault (Exited 1)"
    by (auto simp: mem_safe_def)
  then show ?thesis
  proof cases
    case (1 r)
    then obtain st' where r: "r = (0, st')" by (cases r) (simp add: kept_def)
    with 1 have "kept 0xfe ?text st (0, st')" by simp
    then obtain e where e: "elements (mem st') ! current (mem st') = e" "GIFtype e = 0xfe" "buffer e = ?text"
        "elem_size e = int (length ?text)"
      by (rule kept_element)
    have "write_comment pe e w \<in> {Fault Out_of_bounds, Fault Null_pointer}"
    proof (cases "data e")
      case None
      then show ?thesis by (simp add: write_comment_def)
    next
      case (Some d)
      then have d: "d = ?text" using e(3) by (simp add: buffer_def)
      then have "strlen d = Fault Out_of_bounds" using assms(3) strlen_no_nul by simp
      then show ?thesis using Some e(4) d by (cases "elem_size e > 0") (simp_all add: write_comment_def)
    qed
    then show ?thesis using e(1,2) 1(1) r by (auto simp: write_element_def)
  qed simp
qed

theorem comment_read_behind_end_witness:
  "bindR (DoExtension sample_gif_env 0xfe (sample_gif_state [1, 72, 0]))
     (\<lambda>(_, st'). write_element sample_png_env sample_image \<lparr>gray = False, last_color = 1, remapping = False, bitdepth = 1, remap = None\<rparr> (elements (mem st') ! current (mem st')) (sample_conv []))
    \<in> {Fault Out_of_bounds, Fault Null_pointer, Fault (Exited 1)}"
  by (rule comment_read_behind_end) (simp_all add: sample_gif_state_def mem_start_ok cp437_def c_437_l1_def)

end
