(* ===== verification/Http_Sprock.thy ===== *)
theory Http_Sprock
  imports Heap_List
begin

text \<open>
  The connections of corehttp (\<^verbatim>\<open>test_sources/corehttp-0.5.3.1/corehttp/src/sprock.c\<close>): the struct
  \<open>sprock_t\<close> on a heap, the doubly linked list that starts at \<open>FIRSTSPROCK\<close> and is kept in the order of the
  descriptors, and buffered input and output. What the system calls return is a parameter, a function
  of the number of calls made before. The abstraction of the list is the list of addresses: \<open>AddSprock\<close>
  inserts by descriptor and \<open>RemoveSprock\<close> removes, closes and frees.
\<close>

section \<open>State\<close>

datatype sprockstate_t = INIT | RECV | SEND | IDLE | TERM'

datatype sprockfunc_t = SERV | CLNT | HTTP

text \<open>\<open>ipaddr\<close> points to the one static buffer of \<open>inet_ntoa\<close> or is NULL.\<close>

record sprock_t =
  state :: sprockstate_t
  func :: sprockfunc_t
  lastio :: int
  fd :: int
  bpos :: int
  upos :: int
  nextp :: ptr
  prevp :: ptr
  parent :: ptr
  child :: ptr
  sbuffer :: "byte list"
  ipaddr :: bool
  url :: "byte list"

definition zero_sprock :: sprock_t where
  "zero_sprock = \<lparr>state = INIT, func = SERV, lastio = 0, fd = 0, bpos = 0, upos = 0, nextp = None, prevp = None,
     parent = None, child = None, sbuffer = replicate 2048 0, ipaddr = False, url = replicate 256 0\<rparr>"

record watch_t =
  read_set :: "int list"
  write_set :: "int list"
  bread :: "int list"
  bwrite :: "int list"
  highfd :: int

record http_state =
  heap :: "sprock_t heap"
  FIRSTSPROCK :: ptr
  watch :: watch_t
  ntoa :: cstring \<comment> \<open>the static buffer of \<open>inet_ntoa\<close>\<close>
  log :: "cstring list"
  closed :: "int list"
  ticks :: nat \<comment> \<open>the number of system calls so far\<close>

text \<open>The answers of the system, by the number of the call: \<open>malloc\<close> (the address or NULL), \<open>time\<close>, \<open>accept\<close>
  (a descriptor and an address), \<open>fcntl\<close>, \<open>socket\<close>/\<open>bind\<close>/\<open>listen\<close> for a port, \<open>write\<close>, \<open>read\<close> (\<open>None\<close>: an
  error), \<open>select\<close>, \<open>stat\<close> (-1, 0 for a directory, 1), \<open>open\<close>, and \<open>pipe\<close> with \<open>fork\<close> in the parent
  (\<open>None\<close>: \<open>fork\<close> failed).\<close>

record http_env =
  sys_malloc :: "nat \<Rightarrow> ptr"
  sys_time :: "nat \<Rightarrow> int"
  sys_accept :: "nat \<Rightarrow> int \<Rightarrow> int \<times> cstring"
  sys_nonblock :: "nat \<Rightarrow> int \<Rightarrow> bool"
  sys_listen :: "nat \<Rightarrow> int \<Rightarrow> int"
  sys_write :: "nat \<Rightarrow> int \<Rightarrow> byte list \<Rightarrow> int"
  sys_recv :: "nat \<Rightarrow> int \<Rightarrow> int \<Rightarrow> byte list option"
  sys_select :: "nat \<Rightarrow> int list \<Rightarrow> int list \<Rightarrow> bool \<Rightarrow> (int list \<times> int list) option"
  sys_stat :: "nat \<Rightarrow> cstring \<Rightarrow> int"
  sys_open :: "nat \<Rightarrow> cstring \<Rightarrow> int"
  sys_popen :: "nat \<Rightarrow> cstring \<Rightarrow> int option"
  stack_byte :: "nat \<Rightarrow> byte" \<comment> \<open>what uninitialised arrays hold\<close>

abbreviation BUFSIZE :: int where "BUFSIZE \<equiv> 2048"
abbreviation PATHSIZE :: int where "PATHSIZE \<equiv> 256"
abbreviation SETSIZE :: int where "SETSIZE \<equiv> 16"

definition tick :: "http_state \<Rightarrow> http_state" where
  "tick s = s\<lparr>ticks := Suc (ticks s)\<rparr>"

definition field :: "ptr \<Rightarrow> http_state \<Rightarrow> sprock_t res" where
  "field p s = deref (heap s) p"

definition set_field :: "ptr \<Rightarrow> (sprock_t \<Rightarrow> sprock_t) \<Rightarrow> http_state \<Rightarrow> http_state res" where
  "set_field p f s = bindR (assign (heap s) p f) (\<lambda>h. Ok (s\<lparr>heap := h\<rparr>))"

text \<open>\<open>malloc\<close> and \<open>memset\<close> of a struct.\<close>

definition new_sprock :: "http_env \<Rightarrow> http_state \<Rightarrow> ptr \<times> http_state" where
  "new_sprock env s =
     (case sys_malloc env (ticks s) of
        None \<Rightarrow> (None, tick s)
      | Some a \<Rightarrow> (Some a, (tick s)\<lparr>heap := AList.update a zero_sprock (heap s)\<rparr>))"

section \<open>Connections\<close>

definition ClntSprockAccept :: "http_env \<Rightarrow> ptr \<Rightarrow> http_state \<Rightarrow> (ptr \<times> http_state) res" where
  "ClntSprockAccept env parentsprock s =
     bindR (field parentsprock s) (\<lambda>ps.
     let (clntsock, addr) = sys_accept env (ticks s) (fd ps); s = tick s in
     if clntsock < 0 then Ok (None, s)
     else if \<not> sys_nonblock env (ticks s) clntsock then Ok (None, tick s)
     else
       let (sprocket, s) = new_sprock env (tick s) in
       case sprocket of
         None \<Rightarrow> Ok (None, s)
       | Some a \<Rightarrow>
           let now = sys_time env (ticks s); s = (tick s)\<lparr>ntoa := addr\<rparr> in
           bindR (set_field sprocket (\<lambda>n. n\<lparr>ipaddr := True, fd := clntsock, func := CLNT, state := INIT, lastio := now\<rparr>) s) (\<lambda>s.
           bindR (set_field parentsprock (\<lambda>n. n\<lparr>child := sprocket\<rparr>) s) (\<lambda>s.
           bindR (set_field sprocket (\<lambda>n. n\<lparr>parent := parentsprock\<rparr>) s) (\<lambda>s.
             Ok (sprocket, s)))))"

text \<open>\<open>socket\<close>, \<open>bind\<close> and \<open>listen\<close> are one step, which yields a descriptor or -1. The port is an
  \<open>unsigned short\<close>.\<close>

definition ServSprockMake :: "http_env \<Rightarrow> int \<Rightarrow> http_state \<Rightarrow> (ptr \<times> http_state) res" where
  "ServSprockMake env port s =
     (let sock = sys_listen env (ticks s) (port mod 65536); s = tick s in
      if sock < 0 then Ok (None, s)
      else if \<not> sys_nonblock env (ticks s) sock then Ok (None, tick s)
      else
        let (sprocket, s) = new_sprock env (tick s) in
        case sprocket of
          None \<Rightarrow> Ok (None, s)
        | Some a \<Rightarrow>
            bindR (set_field sprocket (\<lambda>n. n\<lparr>fd := sock, func := SERV, state := INIT, lastio := - 1\<rparr>) s) (\<lambda>s.
              Ok (sprocket, s)))"

section \<open>Buffers\<close>

text \<open>\<open>write(fd, buffer + upos, bpos - upos)\<close>; a negative count is a huge \<open>size_t\<close>.\<close>

definition SprockBufSend :: "http_env \<Rightarrow> ptr \<Rightarrow> http_state \<Rightarrow> (int \<times> http_state) res" where
  "SprockBufSend env sprocket s =
     (if sprocket = None then Ok (- 1, s)
      else
        bindR (field sprocket s) (\<lambda>n.
        bindR (rd_block (sbuffer n) (upos n) (bpos n - upos n)) (\<lambda>bs.
        let i = sys_write env (ticks s) (fd n) bs; s = tick s in
        bindR (set_field sprocket (\<lambda>n. n\<lparr>upos := upos n + i\<rparr>) s) (\<lambda>s.
        if upos n + i < 0 then Ok (- 1, s)
        else
          bindR (if i > 0 then set_field sprocket (\<lambda>n. n\<lparr>lastio := sys_time env (ticks s)\<rparr>) (tick s) else Ok s) (\<lambda>s.
            Ok (upos n + i, s))))))"

text \<open>\<open>read(fd, buffer + bpos, BUFSIZE - bpos)\<close>\<close>

definition SprockBufRecv :: "http_env \<Rightarrow> ptr \<Rightarrow> http_state \<Rightarrow> (int \<times> http_state) res" where
  "SprockBufRecv env sprocket s =
     (if sprocket = None then Ok (- 1, s)
      else
        bindR (field sprocket s) (\<lambda>n.
        let r = sys_recv env (ticks s) (fd n) (BUFSIZE - bpos n); s = tick s;
            i = (case r of None \<Rightarrow> - 1 | Some bs \<Rightarrow> int (length bs)) in
        bindR (wr_block (sbuffer n) (bpos n) (case r of None \<Rightarrow> [] | Some bs \<Rightarrow> bs)) (\<lambda>buf.
        bindR (set_field sprocket (\<lambda>n. n\<lparr>sbuffer := buf, bpos := bpos n + i\<rparr>) s) (\<lambda>s.
        if bpos n + i < 0 then Ok (- 1, s)
        else
          bindR (if i > 0 then set_field sprocket (\<lambda>n. n\<lparr>lastio := sys_time env (ticks s)\<rparr>) (tick s) else Ok s) (\<lambda>s.
            Ok (bpos n + i, s))))))"

section \<open>The list\<close>

text \<open>\<open>while (sprocket->prev != NULL) sprocket = sprocket->prev;\<close>\<close>

primrec first_walk :: "nat \<Rightarrow> nat \<Rightarrow> http_state \<Rightarrow> ptr res" where
  "first_walk 0 a s = Timeout"
| "first_walk (Suc k) a s = bindR (field (Some a) s) (\<lambda>n. case prevp n of None \<Rightarrow> Ok (Some a) | Some b \<Rightarrow> first_walk k b s)"

definition FirstSprock :: "ptr \<Rightarrow> http_state \<Rightarrow> ptr res" where
  "FirstSprock sprocket s = (case sprocket of None \<Rightarrow> Ok None | Some a \<Rightarrow> first_walk (length (heap s)) a s)"

definition NextSprock :: "ptr \<Rightarrow> http_state \<Rightarrow> ptr res" where
  "NextSprock sprocket s = (if sprocket = None then Ok None else bindR (field sprocket s) (\<lambda>n. Ok (nextp n)))"

text \<open>\<open>while (sprocket->fd > first->fd) if (first->next != NULL) first = first->next; else break;\<close>\<close>

primrec add_walk :: "nat \<Rightarrow> int \<Rightarrow> nat \<Rightarrow> http_state \<Rightarrow> nat res" where
  "add_walk 0 f a s = Timeout"
| "add_walk (Suc k) f a s =
     bindR (field (Some a) s) (\<lambda>n.
       if f > fd n then (case nextp n of None \<Rightarrow> Ok a | Some b \<Rightarrow> add_walk k f b s) else Ok a)"

definition AddSprock :: "ptr \<Rightarrow> http_state \<Rightarrow> http_state res" where
  "AddSprock sprocket s =
     (case FIRSTSPROCK s of None \<Rightarrow> Ok s
      | Some f0 \<Rightarrow>
        if sprocket = None then Ok s
        else
          bindR (field sprocket s) (\<lambda>n.
          bindR (add_walk (length (heap s)) (fd n) f0 s) (\<lambda>first.
          bindR (field (Some first) s) (\<lambda>m.
          if fd n \<le> fd m then
            bindR (case prevp m of
                None \<Rightarrow> Ok (s\<lparr>FIRSTSPROCK := sprocket\<rparr>)
              | Some b \<Rightarrow> set_field (Some b) (\<lambda>x. x\<lparr>nextp := sprocket\<rparr>) s) (\<lambda>s.
            bindR (set_field sprocket (\<lambda>x. x\<lparr>prevp := prevp m\<rparr>) s) (\<lambda>s.
            bindR (set_field (Some first) (\<lambda>x. x\<lparr>prevp := sprocket\<rparr>) s) (\<lambda>s.
              set_field sprocket (\<lambda>x. x\<lparr>nextp := Some first\<rparr>) s)))
          else
            bindR (case nextp m of
                None \<Rightarrow> Ok s
              | Some b \<Rightarrow> set_field (Some b) (\<lambda>x. x\<lparr>prevp := sprocket\<rparr>) s) (\<lambda>s.
            bindR (set_field sprocket (\<lambda>x. x\<lparr>nextp := nextp m\<rparr>) s) (\<lambda>s.
            bindR (set_field (Some first) (\<lambda>x. x\<lparr>nextp := sprocket\<rparr>) s) (\<lambda>s.
              set_field sprocket (\<lambda>x. x\<lparr>prevp := Some first\<rparr>) s)))))))"

text \<open>The links to the left and to the right.\<close>

definition unlink :: "ptr \<Rightarrow> sprock_t \<Rightarrow> http_state \<Rightarrow> http_state res" where
  "unlink sprocket n s =
     (if prevp n \<noteq> None \<or> nextp n \<noteq> None then
        bindR (if prevp n = None
            then bindR (set_field (nextp n) (\<lambda>x. x\<lparr>prevp := None\<rparr>) s) (\<lambda>s. Ok (s\<lparr>FIRSTSPROCK := nextp n\<rparr>))
            else set_field (prevp n) (\<lambda>x. x\<lparr>nextp := nextp n\<rparr>) s) (\<lambda>s.
          if nextp n = None then set_field (prevp n) (\<lambda>x. x\<lparr>nextp := None\<rparr>) s
          else set_field (nextp n) (\<lambda>x. x\<lparr>prevp := prevp n\<rparr>) s)
      else Ok (s\<lparr>FIRSTSPROCK := None\<rparr>))"

definition RemoveSprock :: "ptr \<Rightarrow> http_state \<Rightarrow> http_state res" where
  "RemoveSprock sprocket s =
     (if sprocket = None then Ok s
      else
        bindR (field sprocket s) (\<lambda>n.
        bindR (unlink sprocket n s) (\<lambda>s.
        bindR (if child n \<noteq> None then set_field (child n) (\<lambda>x. x\<lparr>parent := None\<rparr>) s else Ok s) (\<lambda>s.
        bindR (if parent n \<noteq> None then set_field (parent n) (\<lambda>x. x\<lparr>child := None\<rparr>) s else Ok s) (\<lambda>s.
        bindR (free_node (heap s) sprocket) (\<lambda>h.
          Ok (s\<lparr>heap := h, closed := closed s @ [fd n]\<rparr>)))))))"

end
