(* ===== verification/Http_List.thy ===== *)
theory Http_List
  imports Http_Sprock
begin

text \<open>
  The list of connections of corehttp as a doubly linked list: \<open>AddSprock\<close> refines sorted insertion and
  \<open>RemoveSprock\<close> refines removal, on every list in which both directions of the links agree.
\<close>

section \<open>The list\<close>

abbreviation dseg :: "sprock_t heap \<Rightarrow> ptr \<Rightarrow> ptr \<Rightarrow> nat list \<Rightarrow> ptr \<Rightarrow> ptr \<Rightarrow> bool" where
  "dseg \<equiv> dsegment nextp prevp"

lemmas dseg_append = dsegment_append [where nxt = nextp and prv = prevp]
  and dseg_segment = dsegment_segment [where nxt = nextp and prv = prevp]
  and dseg_last = dsegment_last [where nxt = nextp and prv = prevp]
  and dseg_cong = dsegment_cong [where nxt = nextp and prv = prevp]
  and dseg_links = dsegment_links [where nxt = nextp and prv = prevp]

definition sprock_list :: "http_state \<Rightarrow> nat list \<Rightarrow> bool" where
  "sprock_list s as \<longleftrightarrow> (\<exists>l. dseg (heap s) None (FIRSTSPROCK s) as l None)"

definition fd_of :: "http_state \<Rightarrow> nat \<Rightarrow> int" where
  "fd_of s a = fd (the (map_of (heap s) a))"

text \<open>All nodes but those in \<open>A\<close> are unchanged, and those in \<open>A\<close> up to their links.\<close>

definition relinked :: "nat set \<Rightarrow> http_state \<Rightarrow> http_state \<Rightarrow> bool" where
  "relinked A s s' \<longleftrightarrow> (\<forall>x. x \<notin> A \<longrightarrow> map_of (heap s') x = map_of (heap s) x) \<and>
     (\<forall>x. map_option (\<lambda>n. n\<lparr>prevp := None, nextp := None\<rparr>) (map_of (heap s') x) =
          map_option (\<lambda>n. n\<lparr>prevp := None, nextp := None\<rparr>) (map_of (heap s) x))"

lemma sprock_list_distinct: "sprock_list s as \<Longrightarrow> distinct as"
  unfolding sprock_list_def using chain_distinct dseg_segment by blast

lemma sprock_list_length: "sprock_list s as \<Longrightarrow> length as \<le> length (heap s)"
  unfolding sprock_list_def using chain_length dseg_segment by blast

lemma set_field_ok: "map_of (heap s) a = Some n \<Longrightarrow> set_field (Some a) f s = Ok (s\<lparr>heap := AList.update a (f n) (heap s)\<rparr>)"
  by (simp add: set_field_def)

lemma field_ok: "map_of (heap s) a = Some n \<Longrightarrow> field (Some a) s = Ok n"
  by (simp add: field_def)

section \<open>Insertion\<close>

lemma add_walk_ok:
  "dseg (heap s) pr (Some b) (b # bs) l None \<Longrightarrow> length (b # bs) \<le> k \<Longrightarrow>
    add_walk k f b s = Ok (case dropWhile (\<lambda>x. fd_of s x < f) (b # bs) of [] \<Rightarrow> last (b # bs) | c # _ \<Rightarrow> c)"
proof (induction bs arbitrary: b pr k)
  case Nil
  then show ?case by (cases k) (auto simp: field_ok fd_of_def)
next
  case (Cons c bs)
  then obtain n where n: "map_of (heap s) b = Some n" "nextp n = Some c" "dseg (heap s) (Some b) (Some c) (c # bs) l None" by auto
  obtain k' where k: "k = Suc k'" "length (c # bs) \<le> k'" using Cons.prems(2) by (cases k) auto
  show ?case
  proof (cases "fd n < f")
    case True
    then have "add_walk k f b s = add_walk k' f c s" using n k(1) by (simp add: field_ok)
    moreover have "dropWhile (\<lambda>x. fd_of s x < f) (b # c # bs) = dropWhile (\<lambda>x. fd_of s x < f) (c # bs)"
      using True n(1) by (simp add: fd_of_def)
    moreover have "last (b # c # bs) = last (c # bs)" by simp
    ultimately show ?thesis using Cons.IH [OF n(3) k(2)] by (simp only:)
  next
    case False
    then show ?thesis using n k by (simp add: field_ok fd_of_def)
  qed
qed

text \<open>The links of the list after the insertion of \<open>a\<close> between \<open>xs\<close> and \<open>ys\<close>.\<close>

lemma dseg_insert:
  assumes "dseg h None p (xs @ ys) l None" and "distinct (xs @ ys)" and "a \<notin> set (xs @ ys)"
    and "map_of h' a = Some n" and "prevp n = (if xs = [] then None else Some (last xs))" and "nextp n = (if ys = [] then None else Some (hd ys))"
    and "xs \<noteq> [] \<Longrightarrow> \<exists>m. map_of h (last xs) = Some m \<and> map_of h' (last xs) = Some (m\<lparr>nextp := Some a\<rparr>)"
    and "ys \<noteq> [] \<Longrightarrow> \<exists>m. map_of h (hd ys) = Some m \<and> map_of h' (hd ys) = Some (m\<lparr>prevp := Some a\<rparr>)"
    and "\<And>x. x \<in> set (butlast xs @ tl ys) \<Longrightarrow> map_of h' x = map_of h x"
  shows "\<exists>l. dseg h' None (if xs = [] then Some a else p) (xs @ a # ys) l None"
proof -
  obtain m r where d: "dseg h None p xs m r" "dseg h m r ys l None" using assms(1) by (auto simp: dseg_append)
  have m: "m = (if xs = [] then None else Some (last xs))" using dseg_last [OF d(1)] .
  have r: "r = (if ys = [] then None else Some (hd ys))" using d(2) by (cases ys) auto
  have x: "dseg h' None (if xs = [] then Some a else p) xs m (Some a)"
  proof (cases xs rule: rev_cases)
    case Nil
    then show ?thesis using m by simp
  next
    case (snoc us u)
    then obtain m1 where "dseg h None p us m1 (Some u)" "\<exists>n. map_of h u = Some n \<and> prevp n = m1" using d(1) by (auto simp: dseg_append)
    moreover have "dseg h' None p us m1 (Some u) = dseg h None p us m1 (Some u)" by (rule dseg_cong) (use assms(9) snoc in auto)
    ultimately show ?thesis using assms(7) snoc m by (auto simp: dseg_append)
  qed
  have y: "\<exists>l. dseg h' (Some a) r ys l None"
  proof (cases ys)
    case Nil
    then show ?thesis using r by simp
  next
    case (Cons v vs)
    then obtain n' where "map_of h v = Some n'" "dseg h (Some v) (nextp n') vs l None" using d(2) by auto
    moreover have "dseg h' (Some v) (nextp n') vs l None = dseg h (Some v) (nextp n') vs l None"
      by (rule dseg_cong) (use assms(9) Cons in auto)
    ultimately show ?thesis using assms(8) Cons r by auto
  qed
  show ?thesis using x y assms(4-6) m r by (auto simp: dseg_append)
qed

lemma dropWhile_hd: "dropWhile P xs = y # ys \<Longrightarrow> \<not> P y"
  by (metis hd_dropWhile list.discI list.sel(1))

lemma relinked_fd: "relinked A s s' \<Longrightarrow> map_of (heap s) x \<noteq> None \<Longrightarrow> fd_of s' x = fd_of s x"
  unfolding relinked_def fd_of_def
  by (cases "map_of (heap s) x"; cases "map_of (heap s') x") (force dest: spec [of _ x] arg_cong [of _ _ fd])+

lemma sprock_list_node: "sprock_list s as \<Longrightarrow> x \<in> set as \<Longrightarrow> \<exists>n. map_of (heap s) x = Some n"
proof -
  assume "sprock_list s as" "x \<in> set as"
  then obtain us vs l where "as = us @ x # vs" "dseg (heap s) None (FIRSTSPROCK s) as l None"
    by (auto simp: sprock_list_def in_set_conv_decomp)
  then show ?thesis by (auto simp: dseg_append)
qed

lemma AddSprock_links:
  assumes "sprock_list s as" and "as \<noteq> []" and "a \<notin> set as" and "map_of (heap s) a = Some n"
  defines "xs \<equiv> takeWhile (\<lambda>x. fd_of s x < fd n) as" and "ys \<equiv> dropWhile (\<lambda>x. fd_of s x < fd n) as"
  shows "\<exists>s'. AddSprock (Some a) s = Ok s' \<and> sprock_list s' (xs @ a # ys) \<and> relinked (insert a (set as)) s s'"
proof -
  have as: "as = xs @ ys" by (simp add: xs_def ys_def)
  obtain f0 bs l where f0: "FIRSTSPROCK s = Some f0" "as = f0 # bs" "dseg (heap s) None (Some f0) as l None"
    using assms(1,2) by (cases as) (auto simp: sprock_list_def)
  have walk: "add_walk (length (heap s)) (fd n) f0 s = Ok (case ys of [] \<Rightarrow> last as | c # _ \<Rightarrow> c)"
    unfolding ys_def f0(2) by (rule add_walk_ok [OF f0(3) [unfolded f0(2)]]) (use sprock_list_length [OF assms(1)] f0(2) in simp)
  have d: "distinct (xs @ ys)" using sprock_list_distinct [OF assms(1)] as by simp
  have dl: "dseg (heap s) None (Some f0) (xs @ ys) l None" using f0(3) as by simp
  have na: "a \<notin> set (xs @ ys)" using assms(3) as by simp
  show ?thesis
  proof (cases ys)
    case (Cons b ys')
    obtain m where m: "map_of (heap s) b = Some m" "prevp m = (if xs = [] then None else Some (last xs))"
      using dl Cons by (auto simp: dseg_append dest: dseg_last)
    have le: "fd n \<le> fd m" using dropWhile_hd [of "\<lambda>x. fd_of s x < fd n" as b ys'] Cons m(1) by (simp add: ys_def fd_of_def)
    show ?thesis
    proof (cases xs rule: rev_cases)
      case Nil
      let ?s = "s\<lparr>FIRSTSPROCK := Some a, heap := AList.update a (n\<lparr>prevp := None, nextp := Some b\<rparr>)
        (AList.update b (m\<lparr>prevp := Some a\<rparr>) (AList.update a (n\<lparr>prevp := None\<rparr>) (heap s)))\<rparr>"
      have ab: "a \<noteq> b" using na Cons by auto
      have "AddSprock (Some a) s = Ok ?s"
        using f0(1) assms(4) walk Cons m le Nil ab by (simp add: AddSprock_def field_ok set_field_ok update_conv')
      moreover have "\<exists>l. dseg (heap ?s) None (if xs = [] then Some a else Some f0) (xs @ a # ys) l None"
        by (rule dseg_insert [OF dl d na, where n = "n\<lparr>prevp := None, nextp := Some b\<rparr>"]) (use Nil Cons m ab na d in \<open>auto simp: update_conv'\<close>)
      moreover have "relinked (insert a (set as)) s ?s"
        using assms(4) m(1) Cons as by (auto simp: relinked_def update_conv')
      ultimately show ?thesis using Nil by (intro exI [of _ ?s]) (simp add: sprock_list_def)
    next
      case (snoc us c)
      obtain k where k: "map_of (heap s) c = Some k" using dl snoc by (auto simp: dseg_append)
      have ab: "a \<noteq> b" "a \<noteq> c" "b \<noteq> c" using na d Cons snoc by auto
      let ?s = "s\<lparr>heap := AList.update a (n\<lparr>prevp := Some c, nextp := Some b\<rparr>)
        (AList.update b (m\<lparr>prevp := Some a\<rparr>) (AList.update a (n\<lparr>prevp := Some c\<rparr>) (AList.update c (k\<lparr>nextp := Some a\<rparr>) (heap s))))\<rparr>"
      have "AddSprock (Some a) s = Ok ?s"
        using f0(1) assms(4) walk Cons m le snoc ab k by (simp add: AddSprock_def field_ok set_field_ok update_conv')
      moreover have "\<exists>l. dseg (heap ?s) None (if xs = [] then Some a else Some f0) (xs @ a # ys) l None"
        by (rule dseg_insert [OF dl d na, where n = "n\<lparr>prevp := Some c, nextp := Some b\<rparr>"]) (use snoc Cons m k ab na d in \<open>auto simp: update_conv'\<close>)
      moreover have "relinked (insert a (set as)) s ?s"
        using assms(4) m(1) k Cons snoc as by (auto simp: relinked_def update_conv')
      ultimately show ?thesis using snoc f0(1) by (intro exI [of _ ?s]) (simp add: sprock_list_def)
    qed
  next
    case Nil
    then have xs: "xs = as" "xs \<noteq> []" using as assms(2) by auto
    obtain us c where snoc: "xs = us @ [c]" using xs(2) by (cases xs rule: rev_cases) auto
    obtain k where k: "map_of (heap s) c = Some k" "nextp k = None" using dl snoc Nil by (auto simp: dseg_append)
    have ab: "a \<noteq> c" using na snoc by auto
    have "c \<in> set xs" using snoc by simp
    then have "fd_of s c < fd n" unfolding xs_def by (rule set_takeWhileD [THEN conjunct2])
    then have gt: "\<not> fd n \<le> fd k" using k by (simp add: fd_of_def)
    let ?s = "s\<lparr>heap := AList.update a (n\<lparr>nextp := None, prevp := Some c\<rparr>)
      (AList.update c (k\<lparr>nextp := Some a\<rparr>) (AList.update a (n\<lparr>nextp := None\<rparr>) (heap s)))\<rparr>"
    have "last as = c" using xs(1) snoc by (metis last_snoc)
    then have "AddSprock (Some a) s = Ok ?s"
      using f0(1) assms(4) walk Nil k gt ab by (simp add: AddSprock_def field_ok set_field_ok update_conv')
    moreover have "\<exists>l. dseg (heap ?s) None (if xs = [] then Some a else Some f0) (xs @ a # ys) l None"
      by (rule dseg_insert [OF dl d na, where n = "n\<lparr>nextp := None, prevp := Some c\<rparr>"]) (use snoc Nil k ab na d in \<open>auto simp: update_conv'\<close>)
    moreover have "relinked (insert a (set as)) s ?s"
      using assms(4) k snoc as by (auto simp: relinked_def update_conv')
    ultimately show ?thesis using snoc f0(1) by (intro exI [of _ ?s]) (simp add: sprock_list_def)
  qed
qed

section \<open>Removal\<close>

abbreviation links :: "sprock_t heap \<Rightarrow> nat \<Rightarrow> (ptr \<times> ptr) option" where
  "links h x \<equiv> map_option (\<lambda>n. (prevp n, nextp n)) (map_of h x)"

lemma dseg_remove:
  assumes "dseg h None p (xs @ a # ys) l None" and "distinct (xs @ a # ys)" and "map_of h a = Some n"
    and "xs \<noteq> [] \<Longrightarrow> links h' (last xs) = map_option (\<lambda>(p, q). (p, nextp n)) (links h (last xs))"
    and "ys \<noteq> [] \<Longrightarrow> links h' (hd ys) = map_option (\<lambda>(p, q). (prevp n, q)) (links h (hd ys))"
    and "\<And>x. x \<in> set (butlast xs @ tl ys) \<Longrightarrow> links h' x = links h x"
  shows "\<exists>l. dseg h' None (if xs = [] then nextp n else p) (xs @ ys) l None"
proof -
  obtain m where d: "dseg h None p xs m (Some a)" "prevp n = m" "dseg h (Some a) (nextp n) ys l None"
    using assms(1,3) by (auto simp: dseg_append)
  have m: "m = (if xs = [] then None else Some (last xs))" using dseg_last [OF d(1)] .
  have x: "dseg h' None (if xs = [] then nextp n else p) xs m (nextp n)"
  proof (cases xs rule: rev_cases)
    case Nil
    then show ?thesis using m by simp
  next
    case (snoc us u)
    then obtain m1 k where u: "dseg h None p us m1 (Some u)" "map_of h u = Some k" "prevp k = m1" using d(1) by (auto simp: dseg_append)
    moreover have "dseg h' None p us m1 (Some u) = dseg h None p us m1 (Some u)" by (rule dseg_links) (use assms(6) snoc in auto)
    moreover obtain k' where "map_of h' u = Some k'" "prevp k' = m1" "nextp k' = nextp n"
      using assms(4) snoc u(2,3) by auto
    ultimately show ?thesis using snoc m by (auto simp: dseg_append)
  qed
  have y: "\<exists>l. dseg h' m (nextp n) ys l None"
  proof (cases ys)
    case Nil
    then show ?thesis using d(3) by simp
  next
    case (Cons v vs)
    then obtain k where v: "nextp n = Some v" "map_of h v = Some k" "dseg h (Some v) (nextp k) vs l None" using d(3) by auto
    moreover have "dseg h' (Some v) (nextp k) vs l None = dseg h (Some v) (nextp k) vs l None"
      by (rule dseg_links) (use assms(6) Cons in auto)
    moreover obtain k' where "map_of h' v = Some k'" "prevp k' = m" "nextp k' = nextp k"
      using assms(5) Cons v(2) d(2) by auto
    ultimately show ?thesis using Cons by auto
  qed
  show ?thesis unfolding dseg_append using x y by blast
qed

text \<open>What is removed: only links change, and only in the neighbours.\<close>

lemma unlink_ok:
  assumes "sprock_list s (xs @ a # ys)" and "map_of (heap s) a = Some n" and "xs \<noteq> [] \<or> ys \<noteq> []"
  shows "\<exists>s'. unlink (Some a) n s = Ok s' \<and> (\<exists>l. dseg (heap s') None (FIRSTSPROCK s') (xs @ ys) l None) \<and>
    relinked (set xs \<union> set ys) s s' \<and> closed s' = closed s"
proof -
  obtain l where l: "dseg (heap s) None (FIRSTSPROCK s) (xs @ a # ys) l None" using assms(1) by (auto simp: sprock_list_def)
  have d: "distinct (xs @ a # ys)" using sprock_list_distinct [OF assms(1)] .
  have p: "prevp n = (if xs = [] then None else Some (last xs))" using l assms(2) by (auto simp: dseg_append dest: dseg_last)
  have q: "nextp n = (if ys = [] then None else Some (hd ys))" using l assms(2) by (cases ys) (auto simp: dseg_append)
  show ?thesis
  proof (cases xs rule: rev_cases)
    case Nil
    then obtain b ys' where ys: "ys = b # ys'" using assms(3) by (cases ys) auto
    obtain k where k: "map_of (heap s) b = Some k" using l ys by (auto simp: dseg_append)
    let ?s = "s\<lparr>FIRSTSPROCK := Some b, heap := AList.update b (k\<lparr>prevp := None\<rparr>) (AList.update b (k\<lparr>prevp := None\<rparr>) (heap s))\<rparr>"
    have "unlink (Some a) n s = Ok ?s" using p q Nil ys k by (simp add: unlink_def set_field_ok update_conv')
    moreover have "\<exists>l. dseg (heap ?s) None (if xs = [] then nextp n else FIRSTSPROCK s) (xs @ ys) l None"
      by (rule dseg_remove [OF l d assms(2)]) (use Nil ys k p q d in \<open>auto simp: update_conv'\<close>)
    moreover have "relinked (set xs \<union> set ys) s ?s" using ys k by (auto simp: relinked_def update_conv')
    ultimately show ?thesis using Nil ys q by (intro exI [of _ ?s]) simp
  next
    case (snoc us c)
    obtain j where j: "map_of (heap s) c = Some j" using l snoc by (auto simp: dseg_append)
    show ?thesis
    proof (cases ys)
      case Nil
      let ?s = "s\<lparr>heap := AList.update c (j\<lparr>nextp := None\<rparr>) (AList.update c (j\<lparr>nextp := None\<rparr>) (heap s))\<rparr>"
      have "unlink (Some a) n s = Ok ?s" using p q Nil snoc j by (simp add: unlink_def set_field_ok update_conv')
      moreover have "\<exists>l. dseg (heap ?s) None (if xs = [] then nextp n else FIRSTSPROCK s) (xs @ ys) l None"
        by (rule dseg_remove [OF l d assms(2)]) (use Nil snoc j p q d in \<open>auto simp: update_conv'\<close>)
      moreover have "relinked (set xs \<union> set ys) s ?s" using snoc j by (auto simp: relinked_def update_conv')
      ultimately show ?thesis using snoc by (intro exI [of _ ?s]) simp
    next
      case (Cons b ys')
      obtain k where k: "map_of (heap s) b = Some k" using l Cons by (auto simp: dseg_append)
      have bc: "b \<noteq> c" using d snoc Cons by auto
      let ?s = "s\<lparr>heap := AList.update b (k\<lparr>prevp := Some c\<rparr>) (AList.update c (j\<lparr>nextp := Some b\<rparr>) (heap s))\<rparr>"
      have "unlink (Some a) n s = Ok ?s" using p q Cons snoc j k bc by (simp add: unlink_def set_field_ok update_conv')
      moreover have "\<exists>l. dseg (heap ?s) None (if xs = [] then nextp n else FIRSTSPROCK s) (xs @ ys) l None"
        by (rule dseg_remove [OF l d assms(2)]) (use Cons snoc j k bc p q d in \<open>auto simp: update_conv'\<close>)
      moreover have "relinked (set xs \<union> set ys) s ?s" using snoc Cons j k by (auto simp: relinked_def update_conv')
      ultimately show ?thesis using snoc by (intro exI [of _ ?s]) simp
    qed
  qed
qed

text \<open>A sever of the links to a parent or a child leaves the list alone.\<close>

definition same_links :: "nat \<Rightarrow> http_state \<Rightarrow> http_state \<Rightarrow> bool" where
  "same_links a s s' \<longleftrightarrow> (\<forall>x. links (heap s') x = links (heap s) x) \<and> map_of (heap s') a = map_of (heap s) a \<and>
     FIRSTSPROCK s' = FIRSTSPROCK s \<and> closed s' = closed s"

lemma sever_ok:
  assumes "p = None \<or> (\<exists>c. p = Some c \<and> c \<noteq> a \<and> map_of (heap s) c \<noteq> None)"
    and "\<And>x. prevp (f x) = prevp x" and "\<And>x. nextp (f x) = nextp x"
  shows "\<exists>s'. (if p \<noteq> None then set_field p f s else Ok s) = Ok s' \<and> same_links a s s'"
proof (cases p)
  case (Some c)
  then obtain k where "c \<noteq> a" "map_of (heap s) c = Some k" using assms(1) by auto
  then show ?thesis using Some assms(2,3) by (auto simp: set_field_ok same_links_def update_conv')
qed (simp add: same_links_def)

lemma RemoveSprock_links:
  assumes "sprock_list s as" and "a \<in> set as" and "map_of (heap s) a = Some n"
    and "child n = None \<or> (\<exists>c. child n = Some c \<and> c \<noteq> a \<and> map_of (heap s) c \<noteq> None)"
    and "parent n = None \<or> (\<exists>c. parent n = Some c \<and> c \<noteq> a \<and> map_of (heap s) c \<noteq> None)"
  shows "\<exists>s'. RemoveSprock (Some a) s = Ok s' \<and> sprock_list s' (remove1 a as) \<and> map_of (heap s') a = None \<and>
    closed s' = closed s @ [fd n]"
proof -
  obtain xs ys where as: "as = xs @ a # ys" using assms(2) by (meson split_list)
  have d: "distinct (xs @ a # ys)" using sprock_list_distinct [OF assms(1)] as by simp
  have r: "remove1 a as = xs @ ys" using as d by (simp add: remove1_append)
  obtain s1 l where s1: "unlink (Some a) n s = Ok s1" "dseg (heap s1) None (FIRSTSPROCK s1) (xs @ ys) l None"
      "map_of (heap s1) a = Some n" "closed s1 = closed s" "\<And>c. map_of (heap s) c \<noteq> None \<Longrightarrow> map_of (heap s1) c \<noteq> None"
  proof (cases "xs \<noteq> [] \<or> ys \<noteq> []")
    case True
    then obtain s1 l where u: "unlink (Some a) n s = Ok s1" "dseg (heap s1) None (FIRSTSPROCK s1) (xs @ ys) l None"
        "relinked (set xs \<union> set ys) s s1" "closed s1 = closed s"
      using unlink_ok [of s xs a ys n] assms(1,3) as by blast
    moreover have "map_of (heap s1) a = Some n" using u(3) d assms(3) by (auto simp: relinked_def)
    moreover have "map_of (heap s1) c \<noteq> None" if "map_of (heap s) c \<noteq> None" for c
    proof -
      have "map_option (\<lambda>n. n\<lparr>prevp := None, nextp := None\<rparr>) (map_of (heap s1) c) =
          map_option (\<lambda>n. n\<lparr>prevp := None, nextp := None\<rparr>) (map_of (heap s) c)"
        using u(3) by (simp add: relinked_def)
      then show ?thesis using that by auto
    qed
    ultimately show ?thesis using that by blast
  next
    case False
    then have "prevp n = None \<and> nextp n = None" using assms(1,3) as by (auto simp: sprock_list_def)
    then have "unlink (Some a) n s = Ok (s\<lparr>FIRSTSPROCK := None\<rparr>)" by (simp add: unlink_def)
    then show ?thesis using that [of "s\<lparr>FIRSTSPROCK := None\<rparr>" None] False assms(3) by simp
  qed
  have c1: "child n = None \<or> (\<exists>c. child n = Some c \<and> c \<noteq> a \<and> map_of (heap s1) c \<noteq> None)"
    using assms(4) s1(5) by blast
  have "\<exists>s2. (if child n \<noteq> None then set_field (child n) (\<lambda>x. x\<lparr>parent := None\<rparr>) s1 else Ok s1) = Ok s2 \<and> same_links a s1 s2"
    by (rule sever_ok [OF c1]) simp_all
  then obtain s2 where s2: "(if child n \<noteq> None then set_field (child n) (\<lambda>x. x\<lparr>parent := None\<rparr>) s1 else Ok s1) = Ok s2" "same_links a s1 s2"
    by blast
  have "map_of (heap s2) c \<noteq> None" if "map_of (heap s1) c \<noteq> None" for c
  proof -
    have "links (heap s2) c = links (heap s1) c" using s2(2) by (simp add: same_links_def)
    then show ?thesis using that by auto
  qed
  then have c2: "parent n = None \<or> (\<exists>c. parent n = Some c \<and> c \<noteq> a \<and> map_of (heap s2) c \<noteq> None)"
    using assms(5) s1(5) by blast
  have "\<exists>s3. (if parent n \<noteq> None then set_field (parent n) (\<lambda>x. x\<lparr>child := None\<rparr>) s2 else Ok s2) = Ok s3 \<and> same_links a s2 s3"
    by (rule sever_ok [OF c2]) simp_all
  then obtain s3 where s3: "(if parent n \<noteq> None then set_field (parent n) (\<lambda>x. x\<lparr>child := None\<rparr>) s2 else Ok s2) = Ok s3" "same_links a s2 s3"
    by blast
  have a3: "map_of (heap s3) a = Some n" using s2(2) s3(2) s1(3) by (simp add: same_links_def)
  let ?s = "s3\<lparr>heap := AList.delete a (heap s3), closed := closed s3 @ [fd n]\<rparr>"
  have "RemoveSprock (Some a) s = Ok ?s"
    using assms(3) s1(1) s2(1) s3(1) a3 by (simp add: RemoveSprock_def field_ok)
  moreover have "dseg (AList.delete a (heap s3)) None (FIRSTSPROCK s1) (xs @ ys) l None"
    using s1(2) s2(2) s3(2) d
    by (subst dseg_links [where h = "heap s1"]) (auto simp: same_links_def delete_conv')
  ultimately show ?thesis using r s2(2) s3(2) s1(4) by (auto simp: sprock_list_def same_links_def delete_conv')
qed

section \<open>Properties\<close>

text \<open>C7: \<open>AddSprock\<close> on a list whose descriptors ascend: the new connection is linked in front of the first
  one with the same or a larger descriptor, in both directions and with \<open>FIRSTSPROCK\<close> kept up to date;
  the descriptors ascend again and nothing but links is changed. The walk ends on every such list.\<close>

theorem AddSprock_sorted:
  assumes "sprock_list s as" and "as \<noteq> []" and "a \<notin> set as" and "map_of (heap s) a = Some n" and "sorted (map (fd_of s) as)"
  shows "\<exists>s' as'. AddSprock (Some a) s = Ok s' \<and> sprock_list s' as' \<and> set as' = insert a (set as) \<and> sorted (map (fd_of s') as') \<and>
    remove1 a as' = as \<and> relinked (insert a (set as)) s s'"
proof -
  define xs ys where "xs = takeWhile (\<lambda>x. fd_of s x < fd n) as" and "ys = dropWhile (\<lambda>x. fd_of s x < fd n) as"
  obtain s' where s': "AddSprock (Some a) s = Ok s'" "sprock_list s' (xs @ a # ys)" "relinked (insert a (set as)) s s'"
    using AddSprock_links [OF assms(1-4)] by (auto simp: xs_def ys_def)
  have as: "as = xs @ ys" by (simp add: xs_def ys_def)
  have "fd_of s' x = fd_of s x" if "x \<in> insert a (set as)" for x
    using relinked_fd [OF s'(3)] that assms(4) sprock_list_node [OF assms(1)] by auto
  then have f: "map (fd_of s') (xs @ a # ys) = map (fd_of s) xs @ fd n # map (fd_of s) ys"
    using as assms(4) by (auto simp: fd_of_def)
  have x: "\<forall>v \<in> set (map (fd_of s) xs). v < fd n" by (auto simp: xs_def dest: set_takeWhileD)
  have y: "\<forall>v \<in> set (map (fd_of s) ys). fd n \<le> v"
  proof (cases ys)
    case (Cons b ys')
    have "fd n \<le> fd_of s b" using dropWhile_hd Cons by (fastforce simp: ys_def)
    moreover have "sorted (map (fd_of s) (b # ys'))" using assms(5) as Cons by (simp add: sorted_append)
    ultimately show ?thesis using Cons by auto
  qed simp
  have "sorted (map (fd_of s') (xs @ a # ys))"
    unfolding f using assms(5) as x y by (auto simp: sorted_append intro: order.strict_implies_order order.trans)
  moreover have "remove1 a (xs @ a # ys) = as" using assms(3) as by (simp add: remove1_append)
  ultimately show ?thesis using s' as by (intro exI [of _ s'] exI [of _ "xs @ a # ys"]) auto
qed

text \<open>What \<open>RemoveSprock\<close> leaves of the other elements, apart from the links of the list: the child of the
  removed element loses its parent and the parent its child.\<close>

definition unlinked :: "sprock_t \<Rightarrow> sprock_t" where
  "unlinked x = x\<lparr>prevp := None, nextp := None\<rparr>"

definition severed :: "sprock_t \<Rightarrow> nat \<Rightarrow> sprock_t \<Rightarrow> sprock_t" where
  "severed n c x = x\<lparr>parent := if child n = Some c then None else parent x,
     child := if parent n = Some c then None else child x\<rparr>"

lemma set_field_frame:
  "set_field p f s = Ok s' \<Longrightarrow> (\<And>x. g (f x) = g x) \<Longrightarrow> map_option g (map_of (heap s') c) = map_option g (map_of (heap s) c)"
  by (auto simp: set_field_def assign_def deref_def bindR_eq_Ok update_conv' split: option.splits)

lemma set_field_at:
  "set_field p f s = Ok s' \<Longrightarrow> map_of (heap s') c = (if p = Some c then map_option f (map_of (heap s) c) else map_of (heap s) c)"
  by (auto simp: set_field_def assign_def deref_def bindR_eq_Ok update_conv' split: option.splits)

lemma unlink_frame:
  "unlink p n s = Ok s' \<Longrightarrow> map_option unlinked (map_of (heap s') c) = map_option unlinked (map_of (heap s) c)"
  by (auto simp: unlink_def bindR_eq_Ok unlinked_def split: if_splits dest!: set_field_frame [where g = unlinked and c = c])

lemma RemoveSprock_frame:
  assumes "RemoveSprock (Some a) s = Ok s'" and "map_of (heap s) a = Some n" and "c \<noteq> a"
  shows "map_option unlinked (map_of (heap s') c) = map_option (unlinked \<circ> severed n c) (map_of (heap s) c)"
proof -
  obtain s1 s2 s3 h where 1: "unlink (Some a) n s = Ok s1"
    and 2: "(if child n \<noteq> None then set_field (child n) (\<lambda>x. x\<lparr>parent := None\<rparr>) s1 else Ok s1) = Ok s2"
    and 3: "(if parent n \<noteq> None then set_field (parent n) (\<lambda>x. x\<lparr>child := None\<rparr>) s2 else Ok s2) = Ok s3"
    and 4: "free_node (heap s3) (Some a) = Ok h" "heap s' = h"
    using assms(1) unfolding RemoveSprock_def field_ok [OF assms(2)] bindR_eq_Ok if_not_P [OF option.distinct(2)]
    by force
  have "map_of (heap s2) c = (if child n = Some c then map_option (\<lambda>x. x\<lparr>parent := None\<rparr>) (map_of (heap s1) c) else map_of (heap s1) c)"
    using 2 by (cases "child n = None") (auto simp: set_field_at [of _ _ _ _ c])
  moreover have "map_of (heap s3) c = (if parent n = Some c then map_option (\<lambda>x. x\<lparr>child := None\<rparr>) (map_of (heap s2) c) else map_of (heap s2) c)"
    using 3 by (cases "parent n = None") (auto simp: set_field_at [of _ _ _ _ c])
  ultimately have "map_of (heap s3) c = map_option (severed n c) (map_of (heap s1) c)"
    by (cases "map_of (heap s1) c") (auto simp: severed_def)
  moreover have "unlinked (severed n c x) = severed n c (unlinked x)" for x by (simp add: unlinked_def severed_def)
  moreover have "map_of h c = map_of (heap s3) c"
    using 4(1) assms(3) by (auto simp: free_node_def delete_conv' split: option.splits if_splits)
  ultimately show ?thesis
    using unlink_frame [OF 1, of c] 4(2)
    by (cases "map_of (heap s1) c"; cases "map_of (heap s) c") simp_all
qed

definition sample_http :: http_state where
  "sample_http = \<lparr>heap = [(1, zero_sprock\<lparr>fd := 3, nextp := Some 2\<rparr>), (2, zero_sprock\<lparr>fd := 7, prevp := Some 1\<rparr>),
       (9, zero_sprock\<lparr>fd := 5, func := CLNT\<rparr>)],
     FIRSTSPROCK = Some 1, watch = \<lparr>read_set = [], write_set = [], bread = [], bwrite = [], highfd = - 1\<rparr>, ntoa = [], log = [],
     closed = [], ticks = 0\<rparr>"

theorem AddSprock_sorted_witness:
  "\<exists>s' as'. AddSprock (Some 9) sample_http = Ok s' \<and> sprock_list s' as' \<and> set as' = insert 9 (set [1, 2]) \<and> sorted (map (fd_of s') as') \<and>
    remove1 9 as' = [1, 2] \<and> relinked (insert 9 (set [1, 2])) sample_http s'"
  by (rule AddSprock_sorted [where n = "zero_sprock\<lparr>fd := 5, func := CLNT\<rparr>"])
    (simp_all add: sprock_list_def sample_http_def zero_sprock_def fd_of_def)

text \<open>C16: \<open>RemoveSprock\<close> on an element of the list: its neighbours (or \<open>FIRSTSPROCK\<close>) are linked past it, its
  child loses the link to its parent and its parent the one to its child, its descriptor is closed and
  its memory freed; the other elements keep their order and everything but these links.\<close>

theorem RemoveSprock_removes:
  assumes "sprock_list s as" and "a \<in> set as" and "map_of (heap s) a = Some n"
    and "child n = None \<or> (\<exists>c. child n = Some c \<and> c \<noteq> a \<and> map_of (heap s) c \<noteq> None)"
    and "parent n = None \<or> (\<exists>c. parent n = Some c \<and> c \<noteq> a \<and> map_of (heap s) c \<noteq> None)"
  shows "\<exists>s'. RemoveSprock (Some a) s = Ok s' \<and> sprock_list s' (remove1 a as) \<and> map_of (heap s') a = None \<and>
    closed s' = closed s @ [fd n] \<and>
    (\<forall>c. c \<noteq> a \<longrightarrow> map_option unlinked (map_of (heap s') c) = map_option (unlinked \<circ> severed n c) (map_of (heap s) c))"
  using RemoveSprock_links [OF assms] RemoveSprock_frame [OF _ assms(3)] by blast

text \<open>The first of two connections, the parent of the element at 9, is removed.\<close>

definition sample_family :: http_state where
  "sample_family = sample_http\<lparr>heap := [(1, zero_sprock\<lparr>fd := 3, nextp := Some 2, child := Some 9\<rparr>),
     (2, zero_sprock\<lparr>fd := 7, prevp := Some 1\<rparr>), (9, zero_sprock\<lparr>fd := 5, parent := Some 1\<rparr>)]\<rparr>"

theorem RemoveSprock_removes_witness:
  "\<exists>s'. RemoveSprock (Some 1) sample_family = Ok s' \<and> sprock_list s' (remove1 1 [1, 2]) \<and> map_of (heap s') 1 = None \<and>
    closed s' = closed sample_family @ [3] \<and> map_option parent (map_of (heap s') 9) = Some None"
proof -
  have "\<exists>s'. RemoveSprock (Some 1) sample_family = Ok s' \<and> sprock_list s' (remove1 1 [1, 2]) \<and> map_of (heap s') 1 = None \<and>
    closed s' = closed sample_family @ [fd (zero_sprock\<lparr>fd := 3, nextp := Some 2, child := Some 9\<rparr>)] \<and>
    (\<forall>c. c \<noteq> 1 \<longrightarrow> map_option unlinked (map_of (heap s') c) =
      map_option (unlinked \<circ> severed (zero_sprock\<lparr>fd := 3, nextp := Some 2, child := Some 9\<rparr>) c) (map_of (heap sample_family) c))"
    by (rule RemoveSprock_removes) (simp_all add: sprock_list_def sample_family_def sample_http_def zero_sprock_def)
  then obtain s' where s': "RemoveSprock (Some 1) sample_family = Ok s'" "sprock_list s' (remove1 1 [1, 2])" "map_of (heap s') 1 = None"
    "closed s' = closed sample_family @ [3]" and "map_option unlinked (map_of (heap s') 9) =
      map_option (unlinked \<circ> severed (zero_sprock\<lparr>fd := 3, nextp := Some 2, child := Some 9\<rparr>) 9) (map_of (heap sample_family) 9)"
    by auto
  from this(5) have "map_option parent (map_of (heap s') 9) = Some None"
    by (cases "map_of (heap s') 9") (auto simp: sample_family_def unlinked_def severed_def dest!: arg_cong [of _ _ parent])
  then show ?thesis using s' by blast
qed

end
