(* ===== verification/Http_Watch.thy ===== *)
theory Http_Watch
  imports Http_List
begin

text \<open>
  The descriptor sets of corehttp (\<^verbatim>\<open>corehttp/src/watch.c\<close>). A set is a list of descriptors; the macros
  \<open>FD_SET\<close>, \<open>FD_CLR\<close> and \<open>FD_ISSET\<close> address a bit of a fixed array, so that a descriptor outside 0 to 1023
  leaves it. The property is that \<open>highfd\<close> always covers the watched descriptors, which \<open>RemoveWatch\<close>
  relies on the order of the list for.
\<close>

section \<open>Operations\<close>

definition check_fd :: "int \<Rightarrow> unit res" where
  "check_fd f = checkR Out_of_bounds (0 \<le> f \<and> f < 1024)"

text \<open>\<open>WatchMake\<close>; whether the memory was there.\<close>

definition WatchMake :: "http_env \<Rightarrow> http_state \<Rightarrow> bool \<times> http_state" where
  "WatchMake env s =
     (sys_malloc env (ticks s) \<noteq> None,
      (tick s)\<lparr>watch := \<lparr>read_set = [], write_set = [], bread = [], bwrite = [], highfd = - 1\<rparr>\<rparr>)"

text \<open>\<open>blockflag\<close> decides whether \<open>select\<close> may wait; an error leaves the two sets as \<open>select\<close> got them.\<close>

definition UpdateWatch :: "http_env \<Rightarrow> bool \<Rightarrow> http_state \<Rightarrow> int \<times> http_state" where
  "UpdateWatch env blockflag s =
     (let w = (watch s)\<lparr>read_set := bread (watch s), write_set := bwrite (watch s)\<rparr> in
      case sys_select env (ticks s) (bread w) (bwrite w) blockflag of
        None \<Rightarrow> (- 1, (tick s)\<lparr>watch := w\<rparr>)
      | Some (r, q) \<Rightarrow> (int (length r + length q), (tick s)\<lparr>watch := w\<lparr>read_set := r, write_set := q\<rparr>\<rparr>))"

definition raise_high :: "int \<Rightarrow> watch_t \<Rightarrow> watch_t" where
  "raise_high f w = (if f > highfd w then w\<lparr>highfd := f\<rparr> else w)"

definition AddReadWatch :: "ptr \<Rightarrow> http_state \<Rightarrow> http_state res" where
  "AddReadWatch sprocket s =
     (if sprocket = None then Ok s
      else
        bindR (field sprocket s) (\<lambda>n.
        bindR (check_fd (fd n)) (\<lambda>_.
          Ok (s\<lparr>watch := raise_high (fd n) ((watch s)\<lparr>bread := List.insert (fd n) (bread (watch s))\<rparr>)\<rparr>))))"

definition AddWriteWatch :: "ptr \<Rightarrow> http_state \<Rightarrow> http_state res" where
  "AddWriteWatch sprocket s =
     (if sprocket = None then Ok s
      else
        bindR (field sprocket s) (\<lambda>n.
        bindR (check_fd (fd n)) (\<lambda>_.
          Ok (s\<lparr>watch := raise_high (fd n) ((watch s)\<lparr>bwrite := List.insert (fd n) (bwrite (watch s))\<rparr>)\<rparr>))))"

definition RemoveWatch :: "ptr \<Rightarrow> http_state \<Rightarrow> http_state res" where
  "RemoveWatch sprocket s =
     (if sprocket = None then Ok s
      else
        bindR (field sprocket s) (\<lambda>n.
        if fd n < 0 then Ok s
        else
          bindR (check_fd (fd n)) (\<lambda>_.
          let w = (watch s)\<lparr>bread := removeAll (fd n) (bread (watch s)), bwrite := removeAll (fd n) (bwrite (watch s))\<rparr> in
          if fd n = highfd w then
            bindR (if prevp n \<noteq> None then bindR (field (prevp n) s) (\<lambda>p. Ok (fd p)) else Ok (- 1)) (\<lambda>f.
              Ok (s\<lparr>watch := w\<lparr>highfd := f\<rparr>\<rparr>))
          else Ok (s\<lparr>watch := w\<rparr>))))"

definition ReadableWatch :: "ptr \<Rightarrow> http_state \<Rightarrow> int res" where
  "ReadableWatch sprocket s =
     (if sprocket = None then Ok (- 1)
      else bindR (field sprocket s) (\<lambda>n. bindR (check_fd (fd n)) (\<lambda>_. Ok (if fd n \<in> set (read_set (watch s)) then 1 else 0))))"

definition WriteableWatch :: "ptr \<Rightarrow> http_state \<Rightarrow> int res" where
  "WriteableWatch sprocket s =
     (if sprocket = None then Ok (- 1)
      else bindR (field sprocket s) (\<lambda>n. bindR (check_fd (fd n)) (\<lambda>_. Ok (if fd n \<in> set (write_set (watch s)) then 1 else 0))))"

section \<open>Invariant\<close>

text \<open>The list is in order, every watched descriptor belongs to a connection of the list, and none is above
  \<open>highfd\<close>.\<close>

definition watch_inv :: "http_state \<Rightarrow> nat list \<Rightarrow> bool" where
  "watch_inv s as \<longleftrightarrow> sprock_list s as \<and> sorted (map (fd_of s) as) \<and>
     (\<forall>f \<in> set (bread (watch s)) \<union> set (bwrite (watch s)). f \<in> fd_of s ` set as \<and> f \<le> highfd (watch s))"

lemma watch_inv_same_list:
  assumes "watch_inv s as" and "heap s' = heap s" and "FIRSTSPROCK s' = FIRSTSPROCK s"
    and "\<And>f. f \<in> set (bread (watch s')) \<union> set (bwrite (watch s')) \<Longrightarrow> f \<in> fd_of s ` set as \<and> f \<le> highfd (watch s')"
  shows "watch_inv s' as"
proof -
  have "fd_of s' = fd_of s" by (rule ext) (simp add: fd_of_def assms(2))
  moreover have "sprock_list s' as = sprock_list s as" by (simp add: sprock_list_def assms(2,3))
  ultimately show ?thesis using assms(1,4) by (simp add: watch_inv_def)
qed

lemma watched_below:
  "watch_inv s as \<Longrightarrow> f \<in> set (bread (watch s)) \<union> set (bwrite (watch s)) \<Longrightarrow> f \<in> fd_of s ` set as \<and> f \<le> highfd (watch s)"
  by (simp add: watch_inv_def)

lemma add_watch_inv:
  assumes "watch_inv s as" and "a \<in> set as" and "map_of (heap s) a = Some n" and "0 \<le> fd n" and "fd n < 1024"
  shows "\<exists>s'. AddReadWatch (Some a) s = Ok s' \<and> watch_inv s' as" "\<exists>s'. AddWriteWatch (Some a) s = Ok s' \<and> watch_inv s' as"
proof -
  have f: "fd_of s a = fd n" using assms(3) by (simp add: fd_of_def)
  have m: "fd n \<in> fd_of s ` set as" using assms(2) f by (metis image_eqI)
  let ?r = "s\<lparr>watch := raise_high (fd n) ((watch s)\<lparr>bread := List.insert (fd n) (bread (watch s))\<rparr>)\<rparr>"
  let ?w = "s\<lparr>watch := raise_high (fd n) ((watch s)\<lparr>bwrite := List.insert (fd n) (bwrite (watch s))\<rparr>)\<rparr>"
  have "watch_inv ?r as" "watch_inv ?w as"
    by (rule watch_inv_same_list [OF assms(1)]; use m watched_below [OF assms(1)] in \<open>force simp: raise_high_def\<close>)+
  then show "\<exists>s'. AddReadWatch (Some a) s = Ok s' \<and> watch_inv s' as" "\<exists>s'. AddWriteWatch (Some a) s = Ok s' \<and> watch_inv s' as"
    using assms(3-5) by (simp_all add: AddReadWatch_def AddWriteWatch_def field_ok check_fd_def checkR_def)
qed

text \<open>What is below a descriptor is not above the one in front of it.\<close>

lemma below_previous:
  assumes "watch_inv s (xs @ a # ys)" and "f \<in> fd_of s ` set (xs @ a # ys)" and "f < fd_of s a"
  shows "xs \<noteq> [] \<and> f \<le> fd_of s (last xs)"
proof -
  have so: "sorted (map (fd_of s) (xs @ a # ys))" using assms(1) by (simp add: watch_inv_def)
  then have "\<forall>y \<in> set ys. fd_of s a \<le> fd_of s y" by (simp add: sorted_append)
  then obtain x where x: "x \<in> set xs" "f = fd_of s x" using assms(2,3) by fastforce
  then obtain us c where xs: "xs = us @ [c]" by (cases xs rule: rev_cases) auto
  have "fd_of s x \<le> fd_of s c" using so x(1) by (auto simp: xs sorted_append)
  then show ?thesis using x xs by simp
qed

lemma remove_watch_inv:
  assumes "watch_inv s as" and "a \<in> set as" and "map_of (heap s) a = Some n" and "fd n < 1024"
  shows "\<exists>s'. RemoveWatch (Some a) s = Ok s' \<and> watch_inv s' as"
proof (cases "fd n < 0")
  case True
  then show ?thesis using assms(1,3) by (simp add: RemoveWatch_def field_ok)
next
  case False
  have f: "fd_of s a = fd n" using assms(3) by (simp add: fd_of_def)
  obtain xs ys where as: "as = xs @ a # ys" using assms(2) by (meson split_list)
  obtain l where l: "dseg (heap s) None (FIRSTSPROCK s) (xs @ a # ys) l None"
    using assms(1) as by (auto simp: watch_inv_def sprock_list_def)
  have p: "prevp n = (if xs = [] then None else Some (last xs))" using l assms(3) by (auto simp: dseg_append dest: dseg_last)
  let ?w = "(watch s)\<lparr>bread := removeAll (fd n) (bread (watch s)), bwrite := removeAll (fd n) (bwrite (watch s))\<rparr>"
  show ?thesis
  proof (cases "fd n = highfd (watch s)")
    case False
    have "watch_inv (s\<lparr>watch := ?w\<rparr>) as"
      by (rule watch_inv_same_list [OF assms(1)]) (use watched_below [OF assms(1)] in auto)
    then show ?thesis using False \<open>\<not> fd n < 0\<close> assms(3,4) by (simp add: RemoveWatch_def field_ok check_fd_def checkR_def)
  next
    case True
    define h where "h = (if xs = [] then - 1 else fd_of s (last xs))"
    have w: "g \<in> fd_of s ` set as \<and> g \<le> h" if "g \<in> set (bread ?w) \<union> set (bwrite ?w)" for g
    proof -
      have g: "g \<in> fd_of s ` set as" "g \<le> fd n" "g \<noteq> fd n" using that assms(1) True by (auto simp: watch_inv_def)
      then have "xs \<noteq> [] \<and> g \<le> fd_of s (last xs)" using below_previous [of s xs a ys g] assms(1) as f by simp
      then show ?thesis using g(1) by (simp add: h_def)
    qed
    have "watch_inv (s\<lparr>watch := ?w\<lparr>highfd := h\<rparr>\<rparr>) as"
      by (rule watch_inv_same_list [OF assms(1)]) (use w in auto)
    moreover have "(if prevp n \<noteq> None then bindR (field (prevp n) s) (\<lambda>p. Ok (fd p)) else Ok (- 1)) = Ok h"
    proof (cases "xs = []")
      case False
      then obtain k where "map_of (heap s) (last xs) = Some k" using sprock_list_node [of s as "last xs"] assms(1) as by (auto simp: watch_inv_def)
      then show ?thesis using False p by (simp add: h_def field_ok fd_of_def)
    qed (simp add: p h_def)
    ultimately show ?thesis
      using True \<open>\<not> fd n < 0\<close> assms(3,4) by (simp add: RemoveWatch_def field_ok check_fd_def checkR_def)
  qed
qed

text \<open>C17: The three operations that change what is watched keep the invariant that \<open>select\<close> needs: no watched
  descriptor is above \<open>highfd\<close>. \<open>RemoveWatch\<close>, which takes the descriptor of the previous element of the
  list when it removes the highest one, does so because the list is in the order of the descriptors.\<close>

theorem watch_covers_descriptors:
  assumes "watch_inv s as" and "a \<in> set as" and "map_of (heap s) a = Some n" and "0 \<le> fd n" and "fd n < 1024"
    and "change \<in> {AddReadWatch, AddWriteWatch, RemoveWatch}"
  shows "\<exists>s'. change (Some a) s = Ok s' \<and> watch_inv s' as"
  using assms(6) add_watch_inv [OF assms(1-5)] remove_watch_inv [OF assms(1-3,5)] by auto

theorem watch_covers_descriptors_witness:
  "\<exists>s'. RemoveWatch (Some 2) (sample_http\<lparr>watch := \<lparr>read_set = [], write_set = [], bread = [3, 7], bwrite = [7], highfd = 7\<rparr>\<rparr>) = Ok s' \<and>
    watch_inv s' [1, 2]"
  by (rule watch_covers_descriptors [where n = "zero_sprock\<lparr>fd := 7, prevp := Some 1\<rparr>"])
    (simp_all add: watch_inv_def sprock_list_def sample_http_def zero_sprock_def fd_of_def)

end
