(* ===== verification/Http_Request.thy ===== *)
theory Http_Request
  imports Http_Sprock
begin

text \<open>
  The request handling of corehttp (\<^verbatim>\<open>corehttp/src/http.c\<close>): \<open>HttpSprockMake\<close> takes the request line out
  of the buffer of a client, builds and cleans a path, chooses what to send and prepares the header.
  The arrays \<open>url\<close> and \<open>temp\<close> are modelled byte by byte, because the code reads what is left behind the
  end of the string in them; the other arrays are the strings they hold, with their size checked at
  every copy.
\<close>

section \<open>Settings\<close>

text \<open>\<open>DIRLIST\<close> is the only setting that may stay uninitialised.\<close>

record http_config =
  TIMEOUT :: int
  BACKLOG :: int
  PORT :: "int list"
  ROOTDIR :: cstring
  PAGE404 :: cstring
  LOGFILE :: cstring
  DIRLIST :: "cstring option"
  DEFPAGE :: "cstring list"
  CGIEXT :: "cstring list"
  CGIBIN :: "cstring list"

section \<open>The request line\<close>

definition is_space :: "byte \<Rightarrow> bool" where
  "is_space c \<longleftrightarrow> c = 32 \<or> (9 \<le> c \<and> c \<le> 13)"

definition is_letter :: "byte \<Rightarrow> bool" where
  "is_letter c \<longleftrightarrow> (65 \<le> c \<and> c \<le> 90) \<or> (97 \<le> c \<and> c \<le> 122)"

definition toupper :: "byte \<Rightarrow> byte" where
  "toupper c = (if 97 \<le> c \<and> c \<le> 122 then c - 32 else c)"

text \<open>\<open>sscanf(buffer, "%[A-Za-z] %s%*[ \t\n]", req, url)\<close> into arrays of 256 bytes. A conversion that does
  not match leaves its array uninitialised, and both are used afterwards.\<close>

definition scan_request :: "byte list \<Rightarrow> (cstring \<times> cstring) res" where
  "scan_request buf =
     bindR (strlen buf) (\<lambda>n.
     let s = take n buf; req = takeWhile is_letter s in
     if req = [] then Fault Uninitialised
     else
       bindR (checkR Out_of_bounds (length req < 256)) (\<lambda>_.
       let u = takeWhile (\<lambda>c. \<not> is_space c) (dropWhile is_space (drop (length req) s)) in
       if u = [] then Fault Uninitialised
       else bindR (checkR Out_of_bounds (length u < 256)) (\<lambda>_. Ok (req, u))))"

text \<open>The bytes \<open>strncpy(dest, s, n)\<close> stores for a string \<open>s\<close>.\<close>

definition pad_string :: "nat \<Rightarrow> cstring \<Rightarrow> byte list" where
  "pad_string n s = take n (s @ replicate n 0)"

section \<open>Cleaning the path\<close>

text \<open>\<open>strtol(asciinum, NULL, 16)\<close>, for at most two characters.\<close>

definition strtol16 :: "cstring \<Rightarrow> int" where
  "strtol16 s =
     (let s = dropWhile is_space s;
          neg = (take 1 s = [45]);
          s = (if take 1 s = [45] \<or> take 1 s = [43] then drop 1 s else s);
          s = (if (take 2 s = bytes_of ''0x'' \<or> take 2 s = bytes_of ''0X'') \<and> hex_digits (drop 2 s) \<noteq> [] then drop 2 s else s);
          n = foldl (\<lambda>n d. n * 16 + d) 0 (hex_digits s) in
      if neg then - n else n)"

text \<open>\<open>do { url[c] = url[c + 2]; } while (url[2 + c++]);\<close>\<close>

primrec shift_left :: "nat \<Rightarrow> int \<Rightarrow> byte list \<Rightarrow> byte list res" where
  "shift_left 0 c u = Timeout"
| "shift_left (Suc k) c u =
     bindR (rd u (c + 2)) (\<lambda>b.
     bindR (wr u c b) (\<lambda>u.
     bindR (rd u (c + 2)) (\<lambda>d. if d \<noteq> 0 then shift_left k (c + 1) u else Ok u)))"

definition unescape :: "byte list \<Rightarrow> int \<Rightarrow> byte list res" where
  "unescape u i =
     bindR (rd u (i + 1)) (\<lambda>a.
     bindR (rd u (i + 2)) (\<lambda>b.
     bindR (wr u i (word_of_int (strtol16 (cstr [a, b])))) (\<lambda>u.
       shift_left (length u) (i + 1) u)))"

text \<open>\<open>while (url[i]) { ... i++; }\<close>; every round moves on by one, so that the size of the array is enough
  fuel.\<close>

primrec deescape :: "nat \<Rightarrow> int \<Rightarrow> byte list \<Rightarrow> byte list res" where
  "deescape 0 i u = Timeout"
| "deescape (Suc k) i u =
     bindR (rd u i) (\<lambda>c.
       if c = 0 then Ok u
       else bindR (if c = 43 then wr u i 32 else if c = 37 then unescape u i else Ok u) (deescape k (i + 1)))"

fun strstr :: "cstring \<Rightarrow> cstring \<Rightarrow> nat option" where
  "strstr pat [] = (if pat = [] then Some 0 else None)"
| "strstr pat (c # cs) = (if take (length pat) (c # cs) = pat then Some 0 else map_option Suc (strstr pat cs))"

text \<open>\<open>strcpy(buf + off, src)\<close> for a source object that holds a NUL.\<close>

definition strcpy :: "byte list \<Rightarrow> nat \<Rightarrow> byte list \<Rightarrow> byte list res" where
  "strcpy buf off src = bindR (strlen src) (\<lambda>n. wr_block buf (int off) (take n src @ [0]))"

text \<open>One of the two loops \<open>for ( ;; )\<close>: everything from the pattern on is replaced by what starts four bytes
  behind it. The state is \<open>url\<close> and \<open>temp\<close>.\<close>

primrec strip_all :: "nat \<Rightarrow> cstring \<Rightarrow> byte list \<Rightarrow> byte list \<Rightarrow> (byte list \<times> byte list) res" where
  "strip_all 0 pat u temp = Timeout"
| "strip_all (Suc k) pat u temp =
     bindR (strlen u) (\<lambda>n.
     case strstr pat (take n u) of
       None \<Rightarrow> Ok (u, temp)
     | Some p \<Rightarrow>
         bindR (strcpy temp 0 (drop (p + 4) u)) (\<lambda>temp.
         bindR (strcpy u p temp) (\<lambda>u. strip_all k pat u temp)))"

definition strip_dots :: "nat \<Rightarrow> byte list \<Rightarrow> byte list \<Rightarrow> (byte list \<times> byte list) res" where
  "strip_dots fuel u temp =
     bindR (strip_all fuel (bytes_of ''/..'') u temp) (\<lambda>(u, temp). strip_all fuel (bytes_of ''../'') u temp)"

text \<open>\<open>find = strchr(url, '?')\<close>; the results are \<open>url\<close> and \<open>args\<close>.\<close>

definition split_args :: "byte list \<Rightarrow> (byte list \<times> cstring) res" where
  "split_args u =
     bindR (strlen u) (\<lambda>n.
     let p = length (takeWhile (\<lambda>c. c \<noteq> 63) (take n u)) in
     if p = n then Ok (u, [])
     else bindR (wr u (int p) 0) (\<lambda>u. bindR (strlen (drop (p + 1) u)) (\<lambda>m. Ok (u, take m (drop (p + 1) u)))))"

text \<open>Everything up to the arguments: the method, the path, \<open>temp\<close>, the arguments and the requested url as
  it is logged.\<close>

definition request_path :: "http_env \<Rightarrow> nat \<Rightarrow> cstring \<Rightarrow> byte list \<Rightarrow> (cstring \<times> byte list \<times> byte list \<times> cstring \<times> cstring) res" where
  "request_path env fuel root buf =
     bindR (scan_request buf) (\<lambda>(req, u0).
     bindR (wr_block (map (stack_byte env) [0..<2048]) 0 (root @ 47 # u0 @ [0])) (\<lambda>temp.
     let u = pad_string 256 (root @ 47 # u0) in
     bindR (deescape (Suc (length u)) 0 u) (\<lambda>u.
     bindR (strip_dots fuel u temp) (\<lambda>(u, temp).
     bindR (split_args u) (\<lambda>(u, args).
       Ok (map toupper req, u, temp, args, u0))))))"

section \<open>Choosing the content\<close>

definition HttpFileStat :: "http_env \<Rightarrow> cstring \<Rightarrow> http_state \<Rightarrow> int \<times> http_state" where
  "HttpFileStat env filename s = (sys_stat env (ticks s) filename, tick s)"

text \<open>\<open>sprintf\<close> and \<open>strcpy\<close> of a string into an array of \<open>n\<close> bytes that is only used as a string.\<close>

definition fits :: "nat \<Rightarrow> cstring \<Rightarrow> cstring res" where
  "fits n str = bindR (checkR Out_of_bounds (length str < n)) (\<lambda>_. Ok str)"

text \<open>The search for an index page. \<open>DEFPAGE[i][0]\<close> is read before \<open>i < SETSIZE\<close> is tested.\<close>

fun find_page :: "http_env \<Rightarrow> cstring list \<Rightarrow> cstring \<Rightarrow> byte list \<Rightarrow> http_state \<Rightarrow> (bool \<times> byte list \<times> http_state) res" where
  "find_page env [] u temp s = Fault Out_of_bounds"
| "find_page env (p # ps) u temp s =
     (if p = [] then Ok (False, temp, s)
      else
        bindR (wr_block temp 0 (u @ 47 # p @ [0])) (\<lambda>temp.
        let (r, s) = HttpFileStat env (u @ 47 # p) s in
        if r = 1 then Ok (True, temp, s) else find_page env ps u temp s))"

text \<open>Where the loop over \<open>start\<close> stops: the last dot or slash, or -1.\<close>

primrec ext_start :: "byte list \<Rightarrow> nat \<Rightarrow> int res" where
  "ext_start u 0 = Ok (- 1)"
| "ext_start u (Suc n) = bindR (rd u (int n)) (\<lambda>c. if c = 46 \<or> c = 47 then Ok (int n) else ext_start u n)"

definition file_extension :: "byte list \<Rightarrow> cstring res" where
  "file_extension u =
     bindR (strlen u) (\<lambda>n.
     bindR (ext_start u n) (\<lambda>start.
       if start = 0 then Ok []
       else bindR (rd u start) (\<lambda>c.
         if c = 47 then Ok [] else Ok (take (n - (nat start + 1)) (drop (nat start + 1) u)))))"

definition content_type :: "cstring \<Rightarrow> cstring" where
  "content_type ext =
     (if ext = [] then bytes_of ''text/plain; charset=iso-8859-1''
      else if ext = bytes_of ''gif'' then bytes_of ''image/gif''
      else if ext = bytes_of ''jpg'' \<or> ext = bytes_of ''jpeg'' then bytes_of ''image/jpg''
      else if ext = bytes_of ''png'' then bytes_of ''image/png''
      else if ext = bytes_of ''html'' \<or> ext = bytes_of ''htm'' then bytes_of ''text/html; charset=iso-8859-1''
      else if ext = bytes_of ''txt'' then bytes_of ''text/plain''
      else if ext = bytes_of ''css'' then bytes_of ''text/css''
      else bytes_of ''application/x-octet-stream'')"

text \<open>\<open>CGIEXT[i][0]\<close> is read before \<open>i < SETSIZE\<close> is tested. \<open>cmd\<close> has 256 bytes.\<close>

fun cgi_command :: "cstring list \<Rightarrow> cstring list \<Rightarrow> cstring \<Rightarrow> cstring \<Rightarrow> cstring \<Rightarrow> cstring res" where
  "cgi_command [] bins ext u args = Fault Out_of_bounds"
| "cgi_command (e # es) bins ext u args =
     (if e = [] then Ok []
      else if ext = e then
        (case bins of [] \<Rightarrow> Fault Out_of_bounds | b # _ \<Rightarrow> fits 256 (b @ 32 # u @ 32 # args))
      else cgi_command es (tl bins) ext u args)"

definition CRLF :: cstring where
  "CRLF = [13, 10]"

definition header :: "cstring \<Rightarrow> cstring \<Rightarrow> cstring" where
  "header status ctype =
     bytes_of ''HTTP/1.1 '' @ status @ CRLF @ bytes_of ''Server: corehttp-0.5.3'' @ CRLF @
     bytes_of ''Content-Type: '' @ ctype @ CRLF @ bytes_of ''Connection: close'' @ CRLF @ CRLF"

definition redirect :: "cstring \<Rightarrow> cstring" where
  "redirect location =
     bytes_of ''HTTP/1.1 303 See Other'' @ CRLF @ bytes_of ''Server: corehttp-0.5.3'' @ CRLF @
     bytes_of ''Location: '' @ location @ 47 # CRLF @ bytes_of ''Connection: close'' @ CRLF @ CRLF"

text \<open>What the switch on the result of \<open>HttpFileStat\<close> decides: a redirection to a directory, or the status, the
  path, and the command that lists a directory (empty: none).\<close>

datatype content = Redirect cstring | Content cstring "byte list" cstring

definition last_slash :: "cstring \<Rightarrow> cstring option" where
  "last_slash u = (if 47 \<in> set u then Some (47 # rev (takeWhile (\<lambda>c. c \<noteq> 47) (rev u))) else None)"

definition choose_content ::
  "http_env \<Rightarrow> http_config \<Rightarrow> cstring \<Rightarrow> byte list \<Rightarrow> byte list \<Rightarrow> http_state \<Rightarrow> (content \<times> http_state) res" where
  "choose_content env cfg status u temp s =
     (let (r, s) = HttpFileStat env (cstr u) s in
      if r = 0 then
        bindR (strlen u) (\<lambda>n.
        bindR (rd u (int n - 1)) (\<lambda>c.
        if c \<noteq> 47 then
          (case last_slash (take n u) of None \<Rightarrow> Fault Null_pointer | Some loc \<Rightarrow> Ok (Redirect loc, s))
        else
          bindR (find_page env (DEFPAGE cfg) (take n u) temp s) (\<lambda>(found, temp, s).
          if \<not> found then
            (case DIRLIST cfg of
               None \<Rightarrow> Fault Uninitialised
             | Some d \<Rightarrow> bindR (fits 256 (bytes_of ''perl '' @ d @ 32 # take n u)) (\<lambda>cmd. Ok (Content status u cmd, s)))
          else bindR (strcpy u 0 temp) (\<lambda>u. Ok (Content status u [], s)))))
      else if r = 1 then bindR (strcpy u 0 temp) (\<lambda>u. Ok (Content status u [], s))
      else bindR (strcpy u 0 (PAGE404 cfg @ [0])) (\<lambda>u. Ok (Content (bytes_of ''404 Not found'') u [], s)))"

definition set_buffer :: "ptr \<Rightarrow> cstring \<Rightarrow> http_state \<Rightarrow> http_state res" where
  "set_buffer sprocket str s =
     bindR (field sprocket s) (\<lambda>n.
     bindR (wr_block (sbuffer n) 0 (str @ [0])) (\<lambda>buf. set_field sprocket (\<lambda>n. n\<lparr>sbuffer := buf\<rparr>) s))"

text \<open>The descriptor of the body: none for HEAD, the pipe from a command, or the file. The result is whether
  there is one, or there is nothing to read from.\<close>

definition open_body :: "http_env \<Rightarrow> cstring \<Rightarrow> cstring \<Rightarrow> cstring \<Rightarrow> http_state \<Rightarrow> int option \<times> http_state" where
  "open_body env req cmd u s =
     (if req = bytes_of ''HEAD'' then (Some (- 1), s)
      else if cmd \<noteq> [] then (sys_popen env (ticks s) cmd, tick s)
      else (let f = sys_open env (ticks s) u in (if f < 0 then None else Some f, tick s)))"

text \<open>The body and the header. After a failed \<open>fork\<close> the descriptor of the new struct is still 0, after a failed
  \<open>open\<close> it is -1.\<close>

definition answer :: "http_env \<Rightarrow> http_config \<Rightarrow> cstring \<Rightarrow> cstring \<Rightarrow> cstring \<Rightarrow> byte list \<Rightarrow> cstring \<Rightarrow> ptr \<Rightarrow> http_state \<Rightarrow> (ptr \<times> http_state) res" where
  "answer env cfg req args status u cmd sprocket s =
     bindR (file_extension u) (\<lambda>ext.
     bindR (if cmd = [] then cgi_command (CGIEXT cfg) (CGIBIN cfg) ext (cstr u) args else Ok cmd) (\<lambda>cmd.
     let (body, s) = open_body env req cmd (cstr u) s;
         ctype = (if req \<noteq> bytes_of ''HEAD'' \<and> cmd \<noteq> [] then bytes_of ''text/html'' else content_type ext) in
     case body of
       None \<Rightarrow>
         bindR (set_field sprocket (\<lambda>n. n\<lparr>fd := if cmd \<noteq> [] then 0 else - 1\<rparr>) s) (\<lambda>s.
         bindR (RemoveSprock sprocket s) (\<lambda>s. Ok (None, s)))
     | Some f \<Rightarrow>
         bindR (set_field sprocket (\<lambda>n. n\<lparr>fd := f\<rparr>) s) (\<lambda>s.
         bindR (set_buffer sprocket (header (if status = [] then bytes_of ''200 OK'' else status) ctype) s) (\<lambda>s.
           Ok (sprocket, s)))))"

definition HttpSprockMake :: "http_env \<Rightarrow> http_config \<Rightarrow> nat \<Rightarrow> ptr \<Rightarrow> http_state \<Rightarrow> (ptr \<times> http_state) res" where
  "HttpSprockMake env cfg fuel parentsprock s =
     (let (sprocket, s) = new_sprock env s in
      if sprocket = None then Ok (None, s)
      else
        bindR (set_field sprocket (\<lambda>n. n\<lparr>func := HTTP, state := INIT, lastio := - 1\<rparr>) s) (\<lambda>s.
        bindR (set_field parentsprock (\<lambda>n. n\<lparr>child := sprocket\<rparr>) s) (\<lambda>s.
        bindR (set_field sprocket (\<lambda>n. n\<lparr>parent := parentsprock\<rparr>) s) (\<lambda>s.
        bindR (field parentsprock s) (\<lambda>p.
        bindR (request_path env fuel (ROOTDIR cfg) (sbuffer p)) (\<lambda>(req, u, temp, args, u0).
        bindR (set_field parentsprock (\<lambda>n. n\<lparr>url := pad_string 256 u0\<rparr>) s) (\<lambda>s.
        let status = (if req \<in> {bytes_of ''GET'', bytes_of ''POST'', bytes_of ''HEAD''} then [] else bytes_of ''501 Not Implemented'') in
        bindR (choose_content env cfg status u temp s) (\<lambda>(c, s). case c of
            Redirect loc \<Rightarrow>
              bindR (set_buffer sprocket (redirect loc) s) (\<lambda>s.
              bindR (set_field sprocket (\<lambda>n. n\<lparr>fd := - 1\<rparr>) s) (\<lambda>s. Ok (sprocket, s)))
          | Content status u cmd \<Rightarrow> answer env cfg req args status u cmd sprocket s))))))))"

end
