(* ===== verification/Http_Path.thy ===== *)
theory Http_Path
  imports Http_Request Http_List
begin

text \<open>
  Properties of the request handling of corehttp: plain paths reach the file system unchanged, no path
  leads through a parent directory once the cleaning loops end, some paths make these loops spin, long
  ones leave the arrays, and a file that cannot be opened costs the server its list of connections.
\<close>

section \<open>A sample environment\<close>

definition sample_http_env :: http_env where
  "sample_http_env = \<lparr>sys_malloc = (\<lambda>_. Some 5), sys_time = int, sys_accept = (\<lambda>_ _. (8, [])), sys_nonblock = (\<lambda>_ _. True),
     sys_listen = (\<lambda>_ _. 3), sys_write = (\<lambda>_ _ bs. int (length bs)), sys_recv = (\<lambda>_ _ _. None),
     sys_select = (\<lambda>_ r q _. Some (r, q)), sys_stat = (\<lambda>_ _. 1), sys_open = (\<lambda>_ _. - 1), sys_popen = (\<lambda>_ _. None),
     stack_byte = (\<lambda>_. 0)\<rparr>"

definition sample_config :: http_config where
  "sample_config = \<lparr>TIMEOUT = 30, BACKLOG = 5, PORT = 80 # replicate 15 (- 1), ROOTDIR = bytes_of ''/w'', PAGE404 = bytes_of ''/e'',
     LOGFILE = bytes_of ''/l'', DIRLIST = None, DEFPAGE = replicate 16 [], CGIEXT = replicate 16 [], CGIBIN = replicate 16 []\<rparr>"

section \<open>Plain requests\<close>

definition plain_char :: "byte \<Rightarrow> bool" where
  "plain_char c \<longleftrightarrow> c \<noteq> 0 \<and> c \<noteq> 37 \<and> c \<noteq> 43 \<and> c \<noteq> 63"

lemma deescape_plain:
  "\<forall>c \<in> set b. plain_char c \<Longrightarrow> length b < k \<Longrightarrow> deescape k (int (length a)) (a @ b @ 0 # t) = Ok (a @ b @ 0 # t)"
proof (induction b arbitrary: a k)
  case Nil
  then show ?case by (cases k) auto
next
  case (Cons c b)
  then obtain k' where k: "k = Suc k'" "length b < k'" by (cases k) auto
  have r: "rd (a @ c # b @ 0 # t) (int (length a)) = Ok c" by simp
  have "deescape k' (int (length a) + 1) (a @ c # b @ 0 # t) = Ok (a @ c # b @ 0 # t)"
    using Cons.IH [of k' "a @ [c]"] Cons.prems k(2) by (simp add: add.commute)
  then show ?case using Cons.prems k(1) r by (simp add: plain_char_def)
qed

declare deescape.simps(2) [simp del]

lemma strip_all_none:
  "0 \<notin> set s \<Longrightarrow> strstr pat s = None \<Longrightarrow> 0 < k \<Longrightarrow> strip_all k pat (s @ 0 # t) temp = Ok (s @ 0 # t, temp)"
  by (cases k) auto

lemma split_args_none:
  assumes "\<forall>c \<in> set s. plain_char c"
  shows "split_args (s @ 0 # t) = Ok (s @ 0 # t, [])"
proof -
  have "0 \<notin> set s" using assms by (auto simp: plain_char_def)
  moreover have "length (takeWhile (\<lambda>c. c \<noteq> 63) s) = length s"
    using assms by (subst takeWhile_eq_all_conv [THEN iffD2]) (auto simp: plain_char_def)
  ultimately show ?thesis by (simp add: split_args_def Let_def)
qed

lemma scan_request_line:
  assumes "req \<noteq> []" and "\<forall>c \<in> set req. is_letter c" and "path \<noteq> []" and "\<forall>c \<in> set path. c \<noteq> 0 \<and> \<not> is_space c"
    and "0 \<notin> set rest" and "length req < 256"
  shows "scan_request (req @ 32 # path @ 32 # rest @ 0 # t) =
    (if length path < 256 then Ok (req, path) else Fault Out_of_bounds)"
proof -
  have nul: "0 \<notin> set req" "0 \<notin> set path" using assms(2,4) by (auto simp: is_letter_def)
  then have "strlen ((req @ 32 # path @ 32 # rest) @ 0 # t) = Ok (length (req @ 32 # path @ 32 # rest))"
    using assms(5) by (intro strlen_append) auto
  then have n: "strlen (req @ 32 # path @ 32 # rest @ 0 # t) = Ok (length (req @ 32 # path @ 32 # rest))" by simp
  have tk: "take (length (req @ 32 # path @ 32 # rest)) (req @ 32 # path @ 32 # rest @ 0 # t) = req @ 32 # path @ 32 # rest" by simp
  have r: "takeWhile is_letter (req @ 32 # path @ 32 # rest) = req"
    using assms(2) by (subst takeWhile_append2) (auto simp: is_letter_def)
  have d: "dropWhile is_space (32 # path @ 32 # rest) = path @ 32 # rest"
    using assms(3,4) by (cases path) (auto simp: is_space_def)
  have p: "takeWhile (\<lambda>c. \<not> is_space c) (path @ 32 # rest) = path"
    using assms(4) by (subst takeWhile_append2) (auto simp: is_space_def)
  show ?thesis
    unfolding scan_request_def n bindR.simps tk Let_def r
    using assms(1,3,6) d p by (simp add: checkR_def)
qed

lemma pad_string_short:
  assumes "length s < 256"
  shows "pad_string 256 s = s @ 0 # replicate (255 - length s) 0"
proof -
  have "256 - length s = Suc (255 - length s)" using assms by simp
  then show ?thesis using assms by (simp add: pad_string_def take_replicate min_def del: replicate.simps(2)) simp
qed

text \<open>The path of a plain request. A request line with a method of letters and a path without escapes,
  arguments or parent directories, short enough for the arrays, is turned into the path below
  \<open>ROOTDIR\<close>, byte for byte; the loops end and no access leaves an array.\<close>

theorem plain_request_path:
  assumes "req \<noteq> []" and "\<forall>c \<in> set req. is_letter c" and "length req < 256" and "path \<noteq> []"
    and "\<forall>c \<in> set path. \<not> is_space c" and "\<forall>c \<in> set (root @ 47 # path). plain_char c" and "0 \<notin> set rest"
    and "length (root @ 47 # path) < 256" and "strstr (bytes_of ''/..'') (root @ 47 # path) = None"
    and "strstr (bytes_of ''../'') (root @ 47 # path) = None" and "0 < fuel"
  shows "\<exists>u temp. request_path env fuel root (req @ 32 # path @ 32 # rest @ 0 # t) = Ok (map toupper req, u, temp, [], path) \<and>
    length u = 256 \<and> cstr u = root @ 47 # path \<and> cstr temp = root @ 47 # path"
proof -
  define s where "s = root @ 47 # path"
  have plain: "\<forall>c \<in> set s. plain_char c" and len: "length s < 256" using assms(6,8) by (simp_all add: s_def)
  then have nul: "0 \<notin> set s" by (auto simp: plain_char_def)
  let ?u = "s @ 0 # replicate (255 - length s) 0"
  have scan: "scan_request (req @ 32 # path @ 32 # rest @ 0 # t) = Ok (req, path)"
    using scan_request_line [OF assms(1,2,4) _ assms(7,3), of t] assms(5,6,8) by (simp add: plain_char_def)
  obtain t' where temp: "wr_block (map (stack_byte env) [0..<2048]) 0 (s @ [0]) = Ok (s @ 0 # t')"
    using len by (auto simp: wr_block_def)
  have de: "deescape (Suc (length ?u)) 0 ?u = Ok ?u"
    using deescape_plain [OF plain, of "Suc (length ?u)" "[]"] by simp
  have dots: "strip_dots fuel ?u (s @ 0 # t') = Ok (?u, s @ 0 # t')"
    using strip_all_none [OF nul _ assms(11)] assms(9,10) by (simp add: strip_dots_def s_def [symmetric])
  have e: "root @ 47 # path @ [0] = s @ [0]" "root @ 47 # path = s" by (simp_all add: s_def)
  have "request_path env fuel root (req @ 32 # path @ 32 # rest @ 0 # t) = Ok (map toupper req, ?u, s @ 0 # t', [], path)"
    unfolding request_path_def scan bindR.simps prod.case e temp Let_def pad_string_short [OF len] de dots split_args_none [OF plain] ..
  moreover have "length ?u = 256" using len by simp
  ultimately show ?thesis unfolding e(2) using cstr_append [OF nul] by blast
qed

theorem plain_request_path_witness:
  "\<exists>u temp. request_path sample_http_env 9 (bytes_of ''/w'') (bytes_of ''get'' @ 32 # bytes_of ''/a.b'' @ 32 # [13, 10] @ 0 # []) =
      Ok (map toupper (bytes_of ''get''), u, temp, [], bytes_of ''/a.b'') \<and>
    length u = 256 \<and> cstr u = bytes_of ''/w'' @ 47 # bytes_of ''/a.b'' \<and> cstr temp = bytes_of ''/w'' @ 47 # bytes_of ''/a.b''"
  by (rule plain_request_path) (simp_all add: bytes_of_def of_char_Char is_letter_def is_space_def plain_char_def)

text \<open>A path of 256 bytes or more (up to the next blank) is written behind the end of \<open>url\<close>: \<open>sscanf\<close> has no
  limit for the conversion.\<close>

theorem long_path_overflows:
  assumes "req \<noteq> []" and "\<forall>c \<in> set req. is_letter c" and "length req < 256" and "256 \<le> length path"
    and "\<forall>c \<in> set path. c \<noteq> 0 \<and> \<not> is_space c" and "0 \<notin> set rest"
  shows "request_path env fuel root (req @ 32 # path @ 32 # rest @ 0 # t) = Fault Out_of_bounds"
proof -
  have "path \<noteq> []" using assms(4) by auto
  then show ?thesis using scan_request_line [OF assms(1,2) _ assms(5,6,3), of t] assms(4) by (simp add: request_path_def)
qed

theorem long_path_overflows_witness:
  "request_path sample_http_env 9 (bytes_of ''/w'') ([71] @ 32 # replicate 256 97 @ 32 # [] @ 0 # []) = Fault Out_of_bounds"
  by (rule long_path_overflows) (auto simp: is_letter_def is_space_def)

section \<open>Parent directories\<close>

definition occurs :: "cstring \<Rightarrow> cstring \<Rightarrow> bool" where
  "occurs pat s \<longleftrightarrow> (\<exists>a b. s = a @ pat @ b)"

lemma strstr_None: "pat \<noteq> [] \<Longrightarrow> strstr pat s = None \<Longrightarrow> \<not> occurs pat s"
proof (induction s)
  case (Cons c s)
  then have no: "take (length pat) (c # s) \<noteq> pat" "\<not> occurs pat s" by (auto split: if_splits)
  show ?case
  proof
    assume "occurs pat (c # s)"
    then obtain a b where e: "c # s = a @ pat @ b" by (auto simp: occurs_def)
    show False
    proof (cases a)
      case Nil
      then show ?thesis using e no(1) by simp
    next
      case (Cons d a')
      then show ?thesis using e no(2) by (auto simp: occurs_def)
    qed
  qed
qed (simp add: occurs_def)

lemma strlen_take_cstr: "strlen u = Ok n \<Longrightarrow> take n u = cstr u"
  by (induction u arbitrary: n) (auto simp: bindR_eq_Ok cstr_def split: if_splits)

lemma strip_all_result: "strip_all k pat u temp = Ok (u', temp') \<Longrightarrow> strstr pat (cstr u') = None"
proof (induction k arbitrary: u temp)
  case (Suc k)
  then obtain n where n: "strlen u = Ok n" "take n u = cstr u" by (auto simp: bindR_eq_Ok strlen_take_cstr)
  show ?case
  proof (cases "strstr pat (cstr u)")
    case None
    then show ?thesis using Suc.prems n by simp
  next
    case (Some p)
    then show ?thesis using Suc n by (auto simp: bindR_eq_Ok)
  qed
qed simp

text \<open>The cleaning of the path: whenever it ends, whatever the request was and whatever lies in the arrays
  behind the strings, the path does not contain the sequence dot dot slash any more, so that no file is
  reached through a parent directory.\<close>

theorem no_way_through_parent:
  assumes "strip_dots fuel u temp = Ok (u', temp')"
  shows "\<not> occurs (bytes_of ''../'') (cstr u')"
proof -
  obtain u1 temp1 where "strip_all fuel (bytes_of ''../'') u1 temp1 = Ok (u', temp')"
    using assms by (auto simp: strip_dots_def bindR_eq_Ok)
  then have "strstr (bytes_of ''../'') (cstr u') = None" by (rule strip_all_result)
  then show ?thesis by (intro strstr_None) (simp_all add: bytes_of_def)
qed

theorem no_way_through_parent_witness:
  "\<not> occurs (bytes_of ''../'') (cstr (bytes_of ''/wx'' @ 0 # bytes_of ''./x'' @ [0]))"
proof (rule no_way_through_parent)
  show "strip_dots 2 (bytes_of ''/w/../x'' @ [0]) (replicate 9 0) =
      Ok (bytes_of ''/wx'' @ 0 # bytes_of ''./x'' @ [0], 120 # replicate 8 0)"
    by code_simp
qed

lemma strstr_dots:
  assumes "46 \<notin> set c"
  shows "strstr (bytes_of ''/..'') (c @ bytes_of ''/..'' @ r) = Some (length c)"
  using assms
proof (induction c)
  case (Cons x c)
  then show ?case by (cases c) (simp_all add: bytes_of_def of_char_Char numeral_3_eq_3)
qed (simp add: bytes_of_def of_char_Char numeral_3_eq_3)

abbreviation "dots \<equiv> bytes_of ''/..''"

lemma dots_facts: "length dots = 3" "0 \<notin> set dots"
  by (simp_all add: bytes_of_def of_char_Char)

lemma strcpy_string:
  assumes "0 \<notin> set v" and "length (a @ v @ [0]) \<le> length (a @ b)"
  shows "strcpy (a @ b) (length a) (v @ 0 # w) = Ok (a @ v @ 0 # drop (length v + 1) b)"
  using assms by (simp add: strcpy_def wr_block_append)

lemma strcpy_start:
  "0 \<notin> set v \<Longrightarrow> length v + 1 \<le> length b \<Longrightarrow> strcpy b 0 (v @ 0 # w) = Ok (v @ 0 # drop (length v + 1) b)"
  using strcpy_string [of v "[]" b w] by simp

text \<open>A string that ends in slash dot dot, with another copy of these three bytes behind its NUL, is replaced by
  itself.\<close>

lemma stale_dots_spin:
  assumes "46 \<notin> set c" and "0 \<notin> set c" and "4 \<le> length temp"
  shows "strip_all k dots (c @ dots @ 0 # dots @ 0 # t) temp = Timeout"
  using assms(3)
proof (induction k arbitrary: temp)
  case (Suc k)
  let ?u = "c @ dots @ 0 # dots @ 0 # t"
  have "strlen ((c @ dots) @ 0 # dots @ 0 # t) = Ok (length (c @ dots))" using assms(2) dots_facts(2) by (intro strlen_append) auto
  then have n: "strlen ?u = Ok (length (c @ dots))" by simp
  have tk: "take (length (c @ dots)) ?u = c @ dots @ []" by simp
  have src: "drop (length c + 4) ?u = dots @ 0 # t" using dots_facts(1) by simp
  have t1: "strcpy temp 0 (dots @ 0 # t) = Ok (dots @ 0 # drop 4 temp)"
    using strcpy_start [of dots temp t] dots_facts Suc.prems by simp
  have "strcpy (c @ (dots @ 0 # dots @ 0 # t)) (length c) (dots @ 0 # drop 4 temp) = Ok (c @ dots @ 0 # drop (length dots + 1) (dots @ 0 # dots @ 0 # t))"
    by (rule strcpy_string) (use dots_facts in simp_all)
  then have u1: "strcpy ?u (length c) (dots @ 0 # drop 4 temp) = Ok ?u" by simp
  have "4 \<le> length (dots @ 0 # drop 4 temp)" using dots_facts(1) by simp
  from Suc.IH [OF this] show ?case
    unfolding strip_all.simps n bindR.simps tk strstr_dots [OF assms(1)] option.case src t1 u1 .
qed simp

text \<open>Two parent directories in one path: for a path of the form A slash dot dot slash B slash dot dot, where
  A and B have no dots, the first cleaning loop never ends. Removing the first pair leaves a copy of
  the second one behind the end of the string, and from then on every round replaces the second pair
  by this copy. A single request stops the server.\<close>

theorem two_parents_spin:
  assumes "46 \<notin> set a" and "46 \<notin> set b" and "0 \<notin> set a" and "0 \<notin> set b" and "length b + 4 \<le> length temp"
  shows "strip_dots fuel (a @ dots @ 47 # b @ dots @ 0 # t) temp = Timeout"
proof (cases fuel)
  case (Suc k)
  let ?u = "a @ dots @ 47 # b @ dots @ 0 # t"
  have "strlen ((a @ dots @ 47 # b @ dots) @ 0 # t) = Ok (length (a @ dots @ 47 # b @ dots))"
    using assms(3,4) dots_facts(2) by (intro strlen_append) auto
  then have n: "strlen ?u = Ok (length (a @ dots @ 47 # b @ dots))" by simp
  have tk: "take (length (a @ dots @ 47 # b @ dots)) ?u = a @ dots @ 47 # b @ dots" by simp
  have src: "drop (length a + 4) ?u = (b @ dots) @ 0 # t" using dots_facts(1) by simp
  have nul: "0 \<notin> set (b @ dots)" using assms(4) dots_facts(2) by simp
  have t1: "strcpy temp 0 ((b @ dots) @ 0 # t) = Ok ((b @ dots) @ 0 # drop (length b + 4) temp)"
    using strcpy_start [OF nul, of temp t] assms(5) dots_facts(1) by (simp add: add.commute)
  have "strcpy (a @ (dots @ 47 # b @ dots @ 0 # t)) (length a) ((b @ dots) @ 0 # drop (length b + 4) temp) =
      Ok (a @ (b @ dots) @ 0 # drop (length (b @ dots) + 1) (dots @ 47 # b @ dots @ 0 # t))"
    by (rule strcpy_string [OF nul]) (use dots_facts(1) in simp)
  moreover have "drop (length (b @ dots) + 1) (dots @ 47 # b @ dots @ 0 # t) = dots @ 0 # t" using dots_facts(1) by simp
  ultimately have u1: "strcpy ?u (length a) ((b @ dots) @ 0 # drop (length b + 4) temp) = Ok ((a @ b) @ dots @ 0 # dots @ 0 # t)" by simp
  have "strip_all k dots ((a @ b) @ dots @ 0 # dots @ 0 # t) ((b @ dots) @ 0 # drop (length b + 4) temp) = Timeout"
    by (rule stale_dots_spin) (use assms dots_facts(1) in auto)
  then have "strip_all (Suc k) dots ?u temp = Timeout"
    unfolding strip_all.simps n bindR.simps tk strstr_dots [OF assms(1)] option.case src t1 u1 .
  then show ?thesis by (simp add: strip_dots_def Suc)
qed (simp add: strip_dots_def)

theorem two_parents_spin_witness:
  "strip_dots 1000 (bytes_of ''/w/a'' @ dots @ 47 # bytes_of ''b'' @ dots @ 0 # replicate 242 0) (replicate 2048 0) = Timeout"
  by (rule two_parents_spin) (simp_all add: bytes_of_def of_char_Char)

section \<open>Failures\<close>

text \<open>A file that cannot be opened. The new connection is not in the list yet, and \<open>RemoveSprock\<close> takes an
  element without neighbours for the last one of the list: \<open>FIRSTSPROCK\<close> becomes NULL although the list
  has elements, which are lost.\<close>

theorem failed_open_loses_list:
  assumes "map_of (heap s) a = Some n" and "prevp n = None" and "nextp n = None" and "child n = None"
    and "parent n = Some p" and "p \<noteq> a" and "map_of (heap s) p = Some m"
    and "file_extension u = Ok ext" and "cgi_command (CGIEXT cfg) (CGIBIN cfg) ext (cstr u) args = Ok []"
    and "req \<noteq> bytes_of ''HEAD''" and "sys_open env (ticks s) (cstr u) < 0"
  shows "\<exists>s'. answer env cfg req args status u [] (Some a) s = Ok (None, s') \<and> FIRSTSPROCK s' = None \<and>
    (\<forall>x. x \<noteq> a \<and> x \<noteq> p \<longrightarrow> map_of (heap s') x = map_of (heap s) x)"
proof -
  let ?s1 = "(tick s)\<lparr>heap := AList.update a (n\<lparr>fd := - 1\<rparr>) (heap s)\<rparr>"
  let ?s2 = "?s1\<lparr>FIRSTSPROCK := None, heap := AList.delete a (AList.update p (m\<lparr>child := None\<rparr>) (heap ?s1)), closed := closed s @ [- 1]\<rparr>"
  have o: "open_body env req [] (cstr u) s = (None, tick s)" using assms(10,11) by (simp add: open_body_def Let_def)
  have f: "set_field (Some a) (\<lambda>n. n\<lparr>fd := - 1\<rparr>) (tick s) = Ok ?s1" using assms(1) by (simp add: set_field_def tick_def)
  have "RemoveSprock (Some a) ?s1 = Ok ?s2"
    using assms(1-7) by (simp add: RemoveSprock_def unlink_def field_def set_field_def tick_def update_conv' free_node_def)
  then have "answer env cfg req args status u [] (Some a) s = Ok (None, ?s2)"
    using assms(8,9) o f by (simp add: answer_def)
  then show ?thesis by (auto simp: update_conv' delete_conv' tick_def)
qed

theorem failed_open_loses_list_witness:
  "\<exists>s'. answer sample_http_env sample_config (bytes_of ''GET'') [] [] (bytes_of ''/w/a'' @ [0]) [] (Some 9)
      (sample_http\<lparr>heap := (9, zero_sprock\<lparr>parent := Some 1\<rparr>) # heap sample_http\<rparr>) = Ok (None, s') \<and> FIRSTSPROCK s' = None \<and>
    (\<forall>x. x \<noteq> 9 \<and> x \<noteq> 1 \<longrightarrow> map_of (heap s') x = map_of (heap (sample_http\<lparr>heap := (9, zero_sprock\<lparr>parent := Some 1\<rparr>) # heap sample_http\<rparr>)) x)"
proof (rule failed_open_loses_list [where n = "zero_sprock\<lparr>parent := Some 1\<rparr>" and m = "zero_sprock\<lparr>fd := 3, nextp := Some 2\<rparr>" and ext = "[]"])
  show "file_extension (bytes_of ''/w/a'' @ [0]) = Ok []" by code_simp
  show "bytes_of ''GET'' \<noteq> bytes_of ''HEAD''" by code_simp
qed (simp_all add: sample_http_def sample_http_env_def sample_config_def zero_sprock_def numeral_eq_Suc)

end
