(* ===== verification/Http_Handler.thy ===== *)
theory Http_Handler
  imports Http_Request
begin

text \<open>
  Logging and termination of corehttp (\<^verbatim>\<open>corehttp/src/handler.c\<close>). The log is the list of the lines written to
  it. \<open>HandleExit\<close> describes every connection in a line of 256 bytes and collects the lines in a buffer of
  2048. Installing the signal handlers is left out.
\<close>

text \<open>\<open>fprintf(logfile, "%ld %s\n", (long)time(NULL), str)\<close>\<close>

definition HandleLog :: "http_env \<Rightarrow> cstring \<Rightarrow> http_state \<Rightarrow> http_state" where
  "HandleLog env str s = (tick s)\<lparr>log := log s @ [dec_int (sys_time env (ticks s)) @ 32 # str @ [10]]\<rparr>"

text \<open>\<open>strncat\<close> writes up to 247 bytes and a NUL behind the nine bytes in the buffer of 256.\<close>

definition HandleProblem :: "http_env \<Rightarrow> cstring \<Rightarrow> http_state \<Rightarrow> http_state res" where
  "HandleProblem env errstr s =
     bindR (fits 256 (bytes_of ''PROBLEM: '' @ take 247 errstr)) (\<lambda>b. Ok (HandleLog env b s))"

text \<open>\<open>%-7d\<close>\<close>

definition left7 :: "int \<Rightarrow> cstring" where
  "left7 n = dec_int n @ replicate (7 - length (dec_int n)) 32"

text \<open>The line for a connection; \<open>ipaddr\<close> points to the buffer of \<open>inet_ntoa\<close>.\<close>

definition exit_line :: "http_state \<Rightarrow> sprock_t \<Rightarrow> cstring res" where
  "exit_line s n =
     (case func n of
        CLNT \<Rightarrow>
          bindR (strlen (url n)) (\<lambda>k.
          bindR (checkR Null_pointer (ipaddr n)) (\<lambda>_.
            fits 256 (left7 (fd n) @ bytes_of '' CLNT '' @ ntoa s @ bytes_of '' requesting '' @ take k (url n) @ [10])))
      | SERV \<Rightarrow> fits 256 (left7 (fd n) @ bytes_of '' SERV'' @ [10])
      | HTTP \<Rightarrow> fits 256 (left7 (fd n) @ bytes_of '' HTTP'' @ [10]))"

text \<open>\<open>while (FIRSTSPROCK != NULL)\<close>; every round frees an element, so that the size of the heap is enough fuel.\<close>

primrec dump_sprocks :: "nat \<Rightarrow> cstring \<Rightarrow> http_state \<Rightarrow> (cstring \<times> http_state) res" where
  "dump_sprocks 0 buf s = (if FIRSTSPROCK s = None then Ok (buf, s) else Timeout)"
| "dump_sprocks (Suc k) buf s =
     (if FIRSTSPROCK s = None then Ok (buf, s)
      else
        bindR (field (FIRSTSPROCK s) s) (\<lambda>n.
        bindR (exit_line s n) (\<lambda>line.
        bindR (fits 2048 (buf @ line)) (\<lambda>buf.
        bindR (RemoveSprock (FIRSTSPROCK s) s) (dump_sprocks k buf)))))"

text \<open>The process ends with status 0; the result is the log it leaves.\<close>

definition HandleExit :: "http_env \<Rightarrow> http_state \<Rightarrow> http_state res" where
  "HandleExit env s =
     bindR (dump_sprocks (length (heap s)) (bytes_of ''terminating... dumping existing sprockets ...'' @ [10]) s) (\<lambda>(buf, s).
       Ok (HandleLog env buf s))"

definition HandleError :: "http_env \<Rightarrow> cstring \<Rightarrow> http_state \<Rightarrow> http_state res" where
  "HandleError env errstr s =
     HandleExit env ((tick s)\<lparr>log := log s @ [dec_int (sys_time env (ticks s)) @ bytes_of '' FATAL: '' @ errstr @ [10]]\<rparr>)"

end
