(* ===== verification/Http_Config.thy ===== *)
theory Http_Config
  imports Http_Request
begin

text \<open>
  The settings of corehttp (\<^verbatim>\<open>corehttp/src/common.c\<close>): \<open>InitGlobals\<close> reads the configuration file line by
  line with \<open>fscanf\<close>. The file is what is left of it and the end-of-file flag, which is only set when a
  read reaches the end. The loop takes fuel; a file that starts with an empty line makes it spin.
\<close>

section \<open>Scanning\<close>

record cfgfile =
  rest :: "byte list"
  at_eof :: bool

text \<open>\<open>fscanf(cfgfile, "%[^\n]\n", str)\<close> into 256 bytes: the line, or \<open>None\<close> when nothing was converted. The line
  feed of the format skips all white space. A NUL of the file ends the string in \<open>str\<close>.\<close>

definition read_line :: "cfgfile \<Rightarrow> (cstring option \<times> cfgfile) res" where
  "read_line f =
     (let line = takeWhile (\<lambda>c. c \<noteq> 10) (rest f) in
      if line = [] then Ok (None, f\<lparr>at_eof := at_eof f \<or> rest f = []\<rparr>)
      else
        bindR (checkR Out_of_bounds (length line < 256)) (\<lambda>_.
        let r = dropWhile is_space (drop (length line) (rest f)) in
        Ok (Some (cstr line), \<lparr>rest = r, at_eof = (r = [])\<rparr>)))"

text \<open>\<open>sscanf(str, "%s%*[ \t\n]%s", var, val)\<close>, \<open>None\<close> when fewer than two strings were converted.\<close>

definition scan_setting :: "cstring \<Rightarrow> (cstring \<times> cstring) option" where
  "scan_setting str =
     (let s = dropWhile is_space str; var = takeWhile (\<lambda>c. \<not> is_space c) s; s = drop (length var) s;
          gap = takeWhile (\<lambda>c. c = 32 \<or> c = 9 \<or> c = 10) s;
          s = dropWhile is_space (drop (length gap) s); val = takeWhile (\<lambda>c. \<not> is_space c) s in
      if var = [] \<or> gap = [] \<or> val = [] then None else Some (var, val))"

text \<open>\<open>sscanf(val, "\"%[^\"]\"", str)\<close>: \<open>None\<close> leaves \<open>str\<close> as it is.\<close>

definition scan_quoted :: "cstring \<Rightarrow> cstring option" where
  "scan_quoted val =
     (let s = takeWhile (\<lambda>c. c \<noteq> 34) (tl val) in if take 1 val = [34] \<and> s \<noteq> [] then Some s else None)"

text \<open>\<open>(int)strtol(val, NULL, 0)\<close> with a \<open>long\<close> of 64 bits.\<close>

definition digits_value :: "int \<Rightarrow> cstring \<Rightarrow> int list" where
  "digits_value base s = map (the \<circ> hex_value) (takeWhile (\<lambda>c. hex_value c \<noteq> None \<and> the (hex_value c) < base) s)"

definition strtol0 :: "cstring \<Rightarrow> int" where
  "strtol0 s =
     (let s = dropWhile is_space s;
          neg = (take 1 s = [45]);
          s = (if take 1 s = [45] \<or> take 1 s = [43] then drop 1 s else s);
          hex = ((take 2 s = bytes_of ''0x'' \<or> take 2 s = bytes_of ''0X'') \<and> hex_digits (drop 2 s) \<noteq> []);
          base = (if hex then 16 else if take 1 s = [48] then 8 else 10);
          n = foldl (\<lambda>n d. n * base + d) 0 (digits_value base (if hex then drop 2 s else s));
          n = (if neg then max (- (2 ^ 63)) (- n) else min (2 ^ 63 - 1) n) in
      (n + 2 ^ 31) mod 2 ^ 32 - 2 ^ 31)"

section \<open>Settings\<close>

text \<open>The settings under construction, with the four counters. The arrays of pointers have 16 entries, each
  of which points to 256 bytes.\<close>

record globals =
  cfg :: http_config
  porti :: int
  defpagei :: int
  cgiexti :: int
  cgibini :: int

definition init_config :: globals where
  "init_config = \<lparr>cfg = \<lparr>TIMEOUT = - 1, BACKLOG = - 1, PORT = replicate 16 (- 1), ROOTDIR = [], PAGE404 = [], LOGFILE = [],
       DIRLIST = None, DEFPAGE = replicate 16 [], CGIEXT = replicate 16 [], CGIBIN = replicate 16 []\<rparr>,
     porti = 0, defpagei = 0, cgiexti = 0, cgibini = 0\<rparr>"

definition set_integer :: "cstring \<Rightarrow> cstring \<Rightarrow> globals \<Rightarrow> globals res" where
  "set_integer var val g =
     (let c = cfg g in
      if var = bytes_of ''TIMEOUT'' then Ok (g\<lparr>cfg := c\<lparr>TIMEOUT := strtol0 val\<rparr>\<rparr>)
      else if var = bytes_of ''PORT'' \<and> porti g < SETSIZE then
        bindR (wr (PORT c) (porti g) (strtol0 val)) (\<lambda>ps. Ok (g\<lparr>cfg := c\<lparr>PORT := ps\<rparr>, porti := porti g + 1\<rparr>))
      else if var = bytes_of ''BACKLOG'' then Ok (g\<lparr>cfg := c\<lparr>BACKLOG := strtol0 val\<rparr>\<rparr>)
      else Ok g)"

definition set_string :: "cstring \<Rightarrow> cstring \<Rightarrow> globals \<Rightarrow> globals res" where
  "set_string var str g =
     (let c = cfg g in
      if var = bytes_of ''ROOTDIR'' then Ok (g\<lparr>cfg := c\<lparr>ROOTDIR := str\<rparr>\<rparr>)
      else if var = bytes_of ''DEFPAGE'' \<and> defpagei g < SETSIZE then
        bindR (wr (DEFPAGE c) (defpagei g) str) (\<lambda>xs. Ok (g\<lparr>cfg := c\<lparr>DEFPAGE := xs\<rparr>, defpagei := defpagei g + 1\<rparr>))
      else if var = bytes_of ''PAGE404'' then Ok (g\<lparr>cfg := c\<lparr>PAGE404 := str\<rparr>\<rparr>)
      else if var = bytes_of ''LOGFILE'' then Ok (g\<lparr>cfg := c\<lparr>LOGFILE := str\<rparr>\<rparr>)
      else if var = bytes_of ''CGIEXT'' then
        bindR (wr (CGIEXT c) (cgiexti g) str) (\<lambda>xs. Ok (g\<lparr>cfg := c\<lparr>CGIEXT := xs\<rparr>, cgiexti := cgiexti g + 1\<rparr>))
      else if var = bytes_of ''CGIBIN'' then
        bindR (wr (CGIBIN c) (cgibini g) str) (\<lambda>xs. Ok (g\<lparr>cfg := c\<lparr>CGIBIN := xs\<rparr>, cgibini := cgibini g + 1\<rparr>))
      else if var = bytes_of ''DIRLIST'' then Ok (g\<lparr>cfg := c\<lparr>DIRLIST := Some str\<rparr>\<rparr>)
      else Ok g)"

definition set_setting :: "cstring \<Rightarrow> globals \<Rightarrow> globals res" where
  "set_setting str g =
     (case scan_setting str of
        None \<Rightarrow> Ok g
      | Some (var, val) \<Rightarrow>
          bindR (set_integer var val g) (\<lambda>g.
            set_string var (case scan_quoted val of None \<Rightarrow> str | Some q \<Rightarrow> q) g))"

text \<open>\<open>while (feof(cfgfile) == 0)\<close>\<close>

primrec read_settings :: "nat \<Rightarrow> cfgfile \<Rightarrow> globals \<Rightarrow> globals res" where
  "read_settings 0 f g = (if at_eof f then Ok g else Timeout)"
| "read_settings (Suc k) f g =
     (if at_eof f then Ok g
      else bindR (read_line f) (\<lambda>(line, f). case line of
          None \<Rightarrow> read_settings k f g
        | Some str \<Rightarrow> bindR (set_setting str g) (read_settings k f)))"

definition config_complete :: "globals \<Rightarrow> bool" where
  "config_complete g \<longleftrightarrow> TIMEOUT (cfg g) \<noteq> - 1 \<and> PORT (cfg g) ! 0 \<noteq> - 1 \<and> BACKLOG (cfg g) \<noteq> - 1 \<and> ROOTDIR (cfg g) \<noteq> [] \<and>
     DEFPAGE (cfg g) ! 0 \<noteq> [] \<and> PAGE404 (cfg g) \<noteq> [] \<and> LOGFILE (cfg g) \<noteq> [] \<and> cgibini g = cgiexti g"

text \<open>\<open>file\<close> is the content of the configuration file named by the only argument, \<open>None\<close> if it cannot be opened or
  the arguments ask for help.\<close>

definition InitGlobals :: "nat \<Rightarrow> byte list option \<Rightarrow> http_config res" where
  "InitGlobals fuel content =
     (case content of
        None \<Rightarrow> Fault (Exited 1)
      | Some bs \<Rightarrow>
          bindR (read_settings fuel \<lparr>rest = bs, at_eof = False\<rparr> init_config) (\<lambda>g.
            if config_complete g then Ok (cfg g) else Fault (Exited 1)))"

section \<open>Properties\<close>

text \<open>Reading a line takes it away.\<close>

lemma read_line_shorter:
  assumes "read_line f = Ok (Some str, f')"
  shows "length (rest f') < length (rest f)" "at_eof f' \<longleftrightarrow> rest f' = []"
proof -
  let ?l = "takeWhile (\<lambda>c. c \<noteq> 10) (rest f)"
  have l: "?l \<noteq> []" and f': "f' = \<lparr>rest = dropWhile is_space (drop (length ?l) (rest f)), at_eof = (dropWhile is_space (drop (length ?l) (rest f)) = [])\<rparr>"
    using assms by (auto simp: read_line_def Let_def bindR_eq_Ok split: if_splits)
  have "length (rest f') \<le> length (drop (length ?l) (rest f))" unfolding f' cfgfile.simps by (rule length_dropWhile_le)
  moreover have "0 < length ?l" "length ?l \<le> length (rest f)" using l by (simp_all add: length_takeWhile_le)
  ultimately show "length (rest f') < length (rest f)" by (simp only: length_drop)
  show "at_eof f' \<longleftrightarrow> rest f' = []" by (simp add: f')
qed

lemma wr_no_timeout [simp]: "wr xs i v \<noteq> Timeout"
  by (simp add: wr_def)

lemma set_setting_no_timeout: "set_setting str g \<noteq> Timeout"
proof -
  have i: "set_integer var val g \<noteq> Timeout" for var val g
    by (simp add: set_integer_def Let_def bindR_eq_Timeout)
  have st: "set_string var v g \<noteq> Timeout" for var v g
    by (simp add: set_string_def Let_def bindR_eq_Timeout)
  show ?thesis using i st by (auto simp: set_setting_def bindR_eq_Timeout split: option.split)
qed

lemma dropWhile_space_start: "take 1 (dropWhile is_space s) \<noteq> [10]"
  by (induction s) (auto simp: is_space_def)

lemma read_line_start:
  assumes "read_line f = Ok (Some str, f')"
  shows "take 1 (rest f') \<noteq> [10]"
proof -
  obtain s where "rest f' = dropWhile is_space s"
    using assms by (auto simp: read_line_def Let_def bindR_eq_Ok split: if_splits)
  then show ?thesis using dropWhile_space_start by simp
qed

lemma read_settings_ends:
  "take 1 (rest f) \<noteq> [10] \<Longrightarrow> length (rest f) < k \<Longrightarrow> read_settings k f g \<noteq> Timeout"
proof (induction k arbitrary: f g)
  case (Suc k)
  show ?case
  proof (cases "read_line f")
    case (Ok r)
    obtain line f' where r: "r = (line, f')" by (cases r)
    show ?thesis
    proof (cases line)
      case None
      have "rest f = []"
      proof (cases "rest f")
        case (Cons c cs)
        then show ?thesis
          using Suc.prems(1) Ok r None by (auto simp: read_line_def Let_def checkR_def split: if_splits)
      qed simp
      then have "at_eof f'" using Ok r None by (auto simp: read_line_def)
      then have "read_settings k f' g = Ok g" by (cases k) auto
      then show ?thesis using Ok r None by simp
    next
      case (Some str)
      then have "read_line f = Ok (Some str, f')" using Ok r by simp
      then have "length (rest f') < k" "take 1 (rest f') \<noteq> [10]"
        using read_line_shorter(1) read_line_start Suc.prems(2) by fastforce+
      then show ?thesis using Ok r Some Suc.IH set_setting_no_timeout by (auto simp: bindR_eq_Timeout)
    qed
  next
    case Timeout
    then show ?thesis by (auto simp: read_line_def Let_def checkR_def split: if_splits)
  qed simp
qed simp

lemma read_settings_spins: "take 1 (rest f) = [10] \<Longrightarrow> \<not> at_eof f \<Longrightarrow> read_settings k f g = Timeout"
proof (induction k)
  case (Suc k)
  obtain cs where cs: "rest f = 10 # cs" using Suc.prems(1) by (cases "rest f") auto
  then have "read_line f = Ok (None, f)" using Suc.prems(2) by (cases f) (simp add: read_line_def)
  then show ?case using Suc by simp
qed simp

text \<open>Reading the configuration ends, whatever the file contains, exactly when the file does not start with
  an empty line: then \<open>fscanf\<close> consumes nothing and the loop spins. More steps than the file has bytes are
  always enough.\<close>

theorem config_read_ends:
  assumes "length bs < fuel"
  shows "InitGlobals fuel (Some bs) = Timeout \<longleftrightarrow> take 1 bs = [10]"
proof
  assume "InitGlobals fuel (Some bs) = Timeout"
  then have "read_settings fuel \<lparr>rest = bs, at_eof = False\<rparr> init_config = Timeout"
    by (auto simp: InitGlobals_def bindR_eq_Timeout split: if_splits)
  then show "take 1 bs = [10]" using read_settings_ends [of "\<lparr>rest = bs, at_eof = False\<rparr>" fuel] assms by auto
next
  assume "take 1 bs = [10]"
  then show "InitGlobals fuel (Some bs) = Timeout"
    using read_settings_spins [of "\<lparr>rest = bs, at_eof = False\<rparr>" fuel] by (simp add: InitGlobals_def)
qed

theorem config_read_ends_witness: "InitGlobals 99 (Some (bytes_of ''TIMEOUT 30'')) = Timeout \<longleftrightarrow> take 1 (bytes_of ''TIMEOUT 30'') = [10]"
  by (rule config_read_ends) (simp add: bytes_of_def)

end
