(* ===== verification/Http_Loop.thy ===== *)
theory Http_Loop
  imports Http_Watch Http_Path Http_Handler Http_Config
begin

text \<open>
  The program corehttp (\<^verbatim>\<open>corehttp/src/corehttp.c\<close>): the start of \<open>main\<close> and one round of its loop, which
  looks for expired connections, calls \<open>select\<close> and handles every connection by its function and state.
  The state machine of a connection is the three functions \<open>serv_step\<close>, \<open>clnt_step\<close> and \<open>http_step\<close>.
\<close>

section \<open>Start\<close>

text \<open>The three loops that print a table: \<open>sprintf(tinybuffer, ...)\<close> into 16 bytes and \<open>strcat(buffer, ...)\<close>
  into 2048. An entry is tested before its index.\<close>

fun print_table :: "cstring list \<Rightarrow> (nat \<Rightarrow> cstring) \<Rightarrow> nat \<Rightarrow> cstring \<Rightarrow> cstring res" where
  "print_table [] entry i buf = Fault Out_of_bounds"
| "print_table (x # xs) entry i buf =
     (if x = [] then Ok buf
      else
        bindR (fits 16 (entry i)) (\<lambda>tinybuffer.
        bindR (fits 2048 (buf @ tinybuffer)) (print_table xs entry (Suc i))))"

fun print_ports :: "int list \<Rightarrow> cstring \<Rightarrow> cstring res" where
  "print_ports [] buf = Fault Out_of_bounds"
| "print_ports (p # ps) buf =
     (if p = - 1 then Ok buf
      else
        bindR (fits 16 (dec_int p @ [32])) (\<lambda>tinybuffer.
        bindR (fits 2048 (buf @ tinybuffer)) (print_ports ps)))"

definition start_message :: "http_config \<Rightarrow> cstring res" where
  "start_message c =
     bindR (case DIRLIST c of None \<Rightarrow> Fault Uninitialised | Some d \<Rightarrow> Ok d) (\<lambda>dirlist.
     bindR (fits 2048 (bytes_of ''corehttp-0.5.3 started. TIMEOUT='' @ dec_int (TIMEOUT c) @ bytes_of '' BACKLOG='' @ dec_int (BACKLOG c) @
       bytes_of '' ROOTDIR='' @ ROOTDIR c @ bytes_of '' PAGE404='' @ PAGE404 c @ bytes_of '' LOGFILE='' @ LOGFILE c @
       bytes_of '' DIRLIST='' @ dirlist @ [10])) (\<lambda>buf.
     bindR (fits 2048 (buf @ bytes_of ''PORTs: '')) (\<lambda>buf.
     bindR (print_ports (PORT c) buf) (\<lambda>buf.
     bindR (fits 2048 (buf @ 10 # bytes_of ''DEFPAGEs: '')) (\<lambda>buf.
     bindR (print_table (DEFPAGE c) (\<lambda>i. DEFPAGE c ! i @ [32]) 0 buf) (\<lambda>buf.
     bindR (fits 2048 (buf @ 10 # bytes_of ''CGIEXTs/CGIBINs: '')) (\<lambda>buf.
       print_table (CGIEXT c) (\<lambda>i. 40 # CGIEXT c ! i @ bytes_of '')-('' @ CGIBIN c ! i @ bytes_of '') '') 0 buf)))))))"

text \<open>The other server sockets; \<open>PORT[i]\<close> is read before \<open>i < SETSIZE\<close> is tested.\<close>

fun make_servers :: "http_env \<Rightarrow> int list \<Rightarrow> http_state \<Rightarrow> http_state res" where
  "make_servers env [] s = Fault Out_of_bounds"
| "make_servers env (p # ps) s =
     (if p = - 1 then Ok s
      else
        bindR (ServSprockMake env p s) (\<lambda>(sprocket, s).
        bindR (if sprocket = None then HandleProblem env (bytes_of ''couldn't make multiplex server socket'') s else Ok s) (\<lambda>s.
        bindR (AddSprock sprocket s) (make_servers env ps))))"

text \<open>Everything in front of the loop. A failure ends in \<open>HandleError\<close>, which exits with status 0.\<close>

definition start :: "http_env \<Rightarrow> http_config \<Rightarrow> http_state \<Rightarrow> http_state res" where
  "start env c s =
     bindR (start_message c) (\<lambda>buf.
     let (ok, s) = WatchMake env (HandleLog env buf s) in
     if \<not> ok then bindR (HandleError env (bytes_of ''couldn't initialize polling system'') s) (\<lambda>_. Fault (Exited 0))
     else
       bindR (rd (PORT c) 0) (\<lambda>port.
       bindR (ServSprockMake env port s) (\<lambda>(sprocket, s).
       let s = s\<lparr>FIRSTSPROCK := sprocket\<rparr> in
       if sprocket = None
       then bindR (HandleError env (bytes_of ''couldn't make initial server socket'') s) (\<lambda>_. Fault (Exited 0))
       else make_servers env (tl (PORT c)) s)))"

section \<open>Connections\<close>

definition set_state :: "ptr \<Rightarrow> sprockstate_t \<Rightarrow> http_state \<Rightarrow> http_state res" where
  "set_state p st s = set_field p (\<lambda>n. n\<lparr>state := st\<rparr>) s"

definition remove_sprock :: "ptr \<Rightarrow> http_state \<Rightarrow> http_state res" where
  "remove_sprock p s = bindR (RemoveWatch p s) (RemoveSprock p)"

definition serv_step :: "http_env \<Rightarrow> ptr \<Rightarrow> sprock_t \<Rightarrow> http_state \<Rightarrow> http_state res" where
  "serv_step env p n s =
     (case state n of
        INIT \<Rightarrow> bindR (AddReadWatch p s) (set_state p RECV)
      | RECV \<Rightarrow>
          bindR (ReadableWatch p s) (\<lambda>r.
          if r = 0 then Ok s
          else
            bindR (ClntSprockAccept env p s) (\<lambda>(newsprocket, s).
            if newsprocket = None then HandleProblem env (bytes_of ''botched client accept'') s
            else AddSprock newsprocket s))
      | _ \<Rightarrow> remove_sprock p s)"

text \<open>The request is complete: the answer is prepared by a new connection. The state SEND also replaces a TERM
  that was set before.\<close>

definition take_request :: "http_env \<Rightarrow> http_config \<Rightarrow> nat \<Rightarrow> ptr \<Rightarrow> http_state \<Rightarrow> http_state res" where
  "take_request env c fuel p s =
     bindR (RemoveWatch p s) (\<lambda>s.
     bindR (AddWriteWatch p s) (\<lambda>s.
     bindR (HttpSprockMake env c fuel p s) (\<lambda>(newsprocket, s).
     bindR (if newsprocket = None
         then bindR (HandleProblem env (bytes_of ''couldn't make HTTP processor'') s) (set_state p TERM')
         else AddSprock newsprocket s) (\<lambda>s.
     bindR (field p s) (\<lambda>n.
     bindR (strlen (url n)) (\<lambda>k.
     bindR (checkR Null_pointer (ipaddr n)) (\<lambda>_.
     bindR (fits 2048 (ntoa s @ bytes_of '' requests '' @ 39 # take k (url n) @ [39])) (\<lambda>buf.
       set_field p (\<lambda>n. n\<lparr>upos := 0, bpos := 0, state := SEND\<rparr>) (HandleLog env buf s)))))))))"

definition clnt_recv :: "http_env \<Rightarrow> http_config \<Rightarrow> nat \<Rightarrow> ptr \<Rightarrow> http_state \<Rightarrow> http_state res" where
  "clnt_recv env c fuel p s =
     bindR (ReadableWatch p s) (\<lambda>r.
     if r = 0 then Ok s
     else
       bindR (SprockBufRecv env p s) (\<lambda>(i, s).
       bindR (if i \<le> 0
           then bindR (HandleProblem env (bytes_of ''failed to sockrecv when watch allowed'') s) (set_state p TERM')
           else Ok s) (\<lambda>s.
       bindR (field p s) (\<lambda>n.
       bindR (if bpos n \<ge> BUFSIZE then set_state p TERM' s else Ok s) (\<lambda>s.
       bindR (strlen (sbuffer n)) (\<lambda>k.
         if strstr (CRLF @ CRLF) (take k (sbuffer n)) = None then Ok s else take_request env c fuel p s))))))"

text \<open>Sending: when the chunk is out, the next one is taken from the child.\<close>

definition clnt_send :: "http_env \<Rightarrow> ptr \<Rightarrow> sprock_t \<Rightarrow> http_state \<Rightarrow> http_state res" where
  "clnt_send env p n s =
     (if upos n \<ge> bpos n then
        if child n = None then set_state p TERM' s
        else
          bindR (field (child n) s) (\<lambda>m.
          if bpos m > 0 then
            bindR (rd_block (sbuffer m) 0 (bpos m)) (\<lambda>bs.
            bindR (wr_block (sbuffer n) 0 bs) (\<lambda>buf.
            bindR (set_field p (\<lambda>n. n\<lparr>bpos := bpos m, upos := 0, sbuffer := buf\<rparr>) s) (\<lambda>s.
              set_field (child n) (\<lambda>m. m\<lparr>bpos := 0\<rparr>) s)))
          else Ok s)
      else
        bindR (WriteableWatch p s) (\<lambda>r.
        if r = 1 then
          bindR (SprockBufSend env p s) (\<lambda>(i, s).
          if i < 0 then bindR (HandleProblem env (bytes_of ''failed to socksend when watches allowed'') s) (set_state p TERM')
          else Ok s)
        else Ok s))"

definition clnt_step :: "http_env \<Rightarrow> http_config \<Rightarrow> nat \<Rightarrow> ptr \<Rightarrow> sprock_t \<Rightarrow> http_state \<Rightarrow> http_state res" where
  "clnt_step env c fuel p n s =
     (case state n of
        INIT \<Rightarrow> bindR (AddReadWatch p s) (set_state p RECV)
      | RECV \<Rightarrow> clnt_recv env c fuel p s
      | SEND \<Rightarrow> clnt_send env p n s
      | _ \<Rightarrow> remove_sprock p s)"

text \<open>Reading the file or the pipe, with flow control.\<close>

definition http_recv :: "http_env \<Rightarrow> ptr \<Rightarrow> sprock_t \<Rightarrow> http_state \<Rightarrow> http_state res" where
  "http_recv env p n s =
     bindR (if parent n = None then set_state p TERM' s else Ok s) (\<lambda>s.
     if bpos n \<ge> BUFSIZE then bindR (RemoveWatch p s) (set_state p IDLE)
     else
       bindR (ReadableWatch p s) (\<lambda>r.
       if r = 0 then Ok s
       else
         bindR (if bpos n = 0 then AddWriteWatch (parent n) s else Ok s) (\<lambda>s.
         bindR (SprockBufRecv env p s) (\<lambda>(i, s).
         if i < 0 then bindR (HandleProblem env (bytes_of ''failed to buffered receive file'') s) (set_state p TERM')
         else bindR (field p s) (\<lambda>m. if bpos m = 0 then set_state p TERM' s else Ok s)))))"

definition http_idle :: "ptr \<Rightarrow> sprock_t \<Rightarrow> http_state \<Rightarrow> http_state res" where
  "http_idle p n s =
     bindR (if parent n = None then set_state p TERM' s else Ok s) (\<lambda>s.
     if bpos n = 0 then
       if fd n < 0 then set_state p TERM' s
       else
         bindR (RemoveWatch (parent n) s) (\<lambda>s.
         bindR (AddReadWatch p s) (set_state p RECV))
     else Ok s)"

definition http_step :: "http_env \<Rightarrow> ptr \<Rightarrow> sprock_t \<Rightarrow> http_state \<Rightarrow> http_state res" where
  "http_step env p n s =
     (case state n of
        INIT \<Rightarrow> bindR (strlen (sbuffer n)) (\<lambda>k. set_field p (\<lambda>n. n\<lparr>bpos := int k, state := IDLE\<rparr>) s)
      | RECV \<Rightarrow> http_recv env p n s
      | IDLE \<Rightarrow> http_idle p n s
      | _ \<Rightarrow> remove_sprock p s)"

definition handle_sprock :: "http_env \<Rightarrow> http_config \<Rightarrow> nat \<Rightarrow> ptr \<Rightarrow> http_state \<Rightarrow> http_state res" where
  "handle_sprock env c fuel p s =
     bindR (field p s) (\<lambda>n. case func n of
         SERV \<Rightarrow> serv_step env p n s
       | CLNT \<Rightarrow> clnt_step env c fuel p n s
       | HTTP \<Rightarrow> http_step env p n s)"

section \<open>The loop\<close>

text \<open>The search for expired connections stops at the first one that is starting or ending; the result is
  \<open>blockflag\<close>.\<close>

primrec find_expired :: "nat \<Rightarrow> int \<Rightarrow> int \<Rightarrow> ptr \<Rightarrow> http_state \<Rightarrow> (bool \<times> http_state) res" where
  "find_expired 0 limit curtime p s = Timeout"
| "find_expired (Suc k) limit curtime p s =
     bindR (field p s) (\<lambda>n.
     bindR (if lastio n \<ge> 0 \<and> (curtime - lastio n \<ge> limit \<or> curtime - lastio n < 0) then set_state p TERM' s else Ok s) (\<lambda>s.
     bindR (field p s) (\<lambda>n.
     if state n = TERM' \<or> state n = INIT then Ok (False, s)
     else bindR (NextSprock p s) (\<lambda>q. if q = None then Ok (True, s) else find_expired k limit curtime q s))))"

text \<open>\<open>do { ... } while ((sprocket = NextSprock(sprocket)) != NULL);\<close>\<close>

primrec handle_all :: "nat \<Rightarrow> http_env \<Rightarrow> http_config \<Rightarrow> nat \<Rightarrow> ptr \<Rightarrow> http_state \<Rightarrow> http_state res" where
  "handle_all 0 env c fuel p s = Timeout"
| "handle_all (Suc k) env c fuel p s =
     bindR (handle_sprock env c fuel p s) (\<lambda>s.
     bindR (NextSprock p s) (\<lambda>q. if q = None then Ok s else handle_all k env c fuel q s))"

definition main_round :: "nat \<Rightarrow> http_env \<Rightarrow> http_config \<Rightarrow> nat \<Rightarrow> http_state \<Rightarrow> http_state res" where
  "main_round k env c fuel s =
     bindR (find_expired k (TIMEOUT c) (sys_time env (ticks s)) (FIRSTSPROCK s) (tick s)) (\<lambda>(blockflag, s).
     let (r, s) = UpdateWatch env blockflag s in
     if r < 0 then HandleProblem env (bytes_of ''temporary problem polling?'') s
     else handle_all k env c fuel (FIRSTSPROCK s) s)"

end
