(* ===== verification/Http_Server.thy ===== *)
theory Http_Server
  imports Http_Loop
begin

text \<open>
  Properties of the main loop of corehttp: the bytes that an answer consists of reach the client in order and
  exactly once, and every connection that ends is read after it was freed.
\<close>

section \<open>The stream to the client\<close>

text \<open>What a client still has to send of its chunk, and the chunk its child has ready.\<close>

definition pending :: "sprock_t \<Rightarrow> byte list" where
  "pending n = take (nat (bpos n - upos n)) (drop (nat (upos n)) (sbuffer n))"

definition chunk :: "sprock_t \<Rightarrow> byte list" where
  "chunk m = take (nat (bpos m)) (sbuffer m)"

definition stream :: "nat \<Rightarrow> nat \<Rightarrow> http_state \<Rightarrow> byte list" where
  "stream p h s = pending (the (map_of (heap s) p)) @ chunk (the (map_of (heap s) h))"

definition buffers_ok :: "sprock_t \<Rightarrow> bool" where
  "buffers_ok n \<longleftrightarrow> length (sbuffer n) = 2048 \<and> 0 \<le> upos n \<and> upos n \<le> bpos n \<and> bpos n \<le> 2048"

text \<open>The bytes that the call of \<open>write\<close> in \<open>clnt_send\<close> takes.\<close>

definition sent :: "http_env \<Rightarrow> sprock_t \<Rightarrow> http_state \<Rightarrow> byte list" where
  "sent env n s =
     (if upos n < bpos n \<and> fd n \<in> set (write_set (watch s))
      then take (nat (sys_write env (ticks s) (fd n) (pending n))) (pending n) else [])"

text \<open>Whether that call fails.\<close>

definition failed :: "http_env \<Rightarrow> sprock_t \<Rightarrow> http_state \<Rightarrow> bool" where
  "failed env n s \<longleftrightarrow> upos n < bpos n \<and> fd n \<in> set (write_set (watch s)) \<and>
     sys_write env (ticks s) (fd n) (pending n) = - 1"

lemma HandleProblem_logs:
  "length errstr \<le> 200 \<Longrightarrow> \<exists>s'. HandleProblem env errstr s = Ok s' \<and> heap s' = heap s"
  by (simp add: HandleProblem_def HandleLog_def fits_def checkR_def tick_def bytes_of_def)

text \<open>C6: Sending an answer. In the state SEND a client takes the chunk of its child or writes a part of its own:
  whatever number of bytes \<open>write\<close> takes, the bytes written in this step, followed by what the client and
  its child still hold, are what they held before, in the same order, and the step stays inside the two
  buffers and keeps their positions in order. A \<open>write\<close> that fails before a byte of the chunk is out ends
  the connection; one that fails later is not noticed, and the last byte that was written is put back in
  front of those to be sent: it will be sent twice.\<close>

theorem send_keeps_stream:
  assumes "map_of (heap s) p = Some n" and "map_of (heap s) h = Some m" and "p \<noteq> h" and "child n = Some h"
    and "buffers_ok n" and "buffers_ok m" and "upos m = 0" and "0 \<le> fd n" and "fd n < 1024"
    and "\<And>t f bs. - 1 \<le> sys_write env t f bs \<and> sys_write env t f bs \<le> int (length bs)"
  shows "\<exists>s' n' m'. clnt_send env (Some p) n s = Ok s' \<and> map_of (heap s') p = Some n' \<and> map_of (heap s') h = Some m' \<and>
    (if failed env n s \<and> upos n = 0 then state n' = TERM' \<and> m' = m
     else buffers_ok n' \<and> buffers_ok m' \<and> state n' = state n \<and>
       (if failed env n s then stream p h s' = sbuffer n ! nat (upos n - 1) # stream p h s
        else stream p h s = sent env n s @ stream p h s'))"
proof -
  note b = assms(5) [unfolded buffers_ok_def] assms(6) [unfolded buffers_ok_def]
  consider (idle) "upos n \<ge> bpos n" "bpos m \<le> 0" | (chunk) "upos n \<ge> bpos n" "bpos m > 0"
    | (wait) "upos n < bpos n" "fd n \<notin> set (write_set (watch s))" | (send) "upos n < bpos n" "fd n \<in> set (write_set (watch s))"
    by linarith
  then show ?thesis
  proof cases
    case idle
    then have "clnt_send env (Some p) n s = Ok s" using assms(2,4) by (simp add: clnt_send_def field_ok)
    then show ?thesis using assms(1,2,5,6) idle(1) by (simp add: sent_def failed_def)
  next
    case chunk
    let ?n = "n\<lparr>bpos := bpos m, upos := 0, sbuffer := chunk m @ drop (nat (bpos m)) (sbuffer n)\<rparr>"
    let ?s = "s\<lparr>heap := AList.update h (m\<lparr>bpos := 0\<rparr>) (AList.update p ?n (heap s))\<rparr>"
    have r: "rd_block (sbuffer m) 0 (bpos m) = Ok (chunk m)" using b chunk(2) by (simp add: rd_block_def chunk_def)
    have l: "length (chunk m) = nat (bpos m)" using b by (simp add: chunk_def min_absorb2 nat_le_iff)
    then have w: "wr_block (sbuffer n) 0 (chunk m) = Ok (chunk m @ drop (nat (bpos m)) (sbuffer n))"
      using b chunk(2) by (simp add: wr_block_def)
    have "clnt_send env (Some p) n s = Ok ?s"
      using chunk assms(1-4) r w by (simp add: clnt_send_def field_ok set_field_ok update_conv')
    moreover have "map_of (heap ?s) p = Some ?n" "map_of (heap ?s) h = Some (m\<lparr>bpos := 0\<rparr>)" using assms(3) by (simp_all add: update_conv')
    moreover have "buffers_ok ?n" "buffers_ok (m\<lparr>bpos := 0\<rparr>)" using b l assms(7) by (auto simp: buffers_ok_def nat_le_iff)
    moreover have "pending n = []" "pending ?n = chunk m" using chunk(1) l by (simp_all add: pending_def)
    ultimately show ?thesis using assms(1,2) chunk(1)
      by (intro exI [of _ ?s] exI [of _ ?n] exI [of _ "m\<lparr>bpos := 0\<rparr>"]) (simp add: stream_def sent_def failed_def chunk_def)
  next
    case wait
    then have "clnt_send env (Some p) n s = Ok s"
      using assms(1,8,9) by (simp add: clnt_send_def WriteableWatch_def field_ok check_fd_def checkR_def)
    then show ?thesis using assms(1,2,5,6) wait by (simp add: sent_def failed_def)
  next
    case send
    define i where "i = sys_write env (ticks s) (fd n) (pending n)"
    have "nat (bpos n - upos n) \<le> 2048 - nat (upos n)" using b by arith
    then have len: "length (pending n) = nat (bpos n - upos n)" using b by (simp add: pending_def min_absorb2)
    have i: "- 1 \<le> i" "i \<le> bpos n - upos n" using assms(10) [of "ticks s" "fd n" "pending n"] len send(1) by (simp_all add: i_def)
    have rb: "rd_block (sbuffer n) (upos n) (bpos n - upos n) = Ok (pending n)" using b by (simp add: rd_block_def pending_def)
    have ww: "WriteableWatch (Some p) s = Ok 1" using send(2) assms(1,8,9) by (simp add: WriteableWatch_def field_ok check_fd_def checkR_def)
    have fl: "failed env n s \<longleftrightarrow> i = - 1" using send by (simp add: failed_def i_def)
    show ?thesis
    proof (cases "upos n + i < 0")
      case True
      then have 0: "upos n = 0" "i = - 1" using i(1) b by linarith+
      have "SprockBufSend env (Some p) s = Ok (- 1, (tick s)\<lparr>heap := AList.update p (n\<lparr>upos := - 1\<rparr>) (heap s)\<rparr>)"
        using assms(1) rb 0 by (simp add: SprockBufSend_def field_ok Let_def set_field_def tick_def flip: i_def)
      moreover obtain s2 where "HandleProblem env (bytes_of ''failed to socksend when watches allowed'')
          ((tick s)\<lparr>heap := AList.update p (n\<lparr>upos := - 1\<rparr>) (heap s)\<rparr>) = Ok s2"
          "heap s2 = AList.update p (n\<lparr>upos := - 1\<rparr>) (heap s)"
        using HandleProblem_logs [of "bytes_of ''failed to socksend when watches allowed''" env
            "(tick s)\<lparr>heap := AList.update p (n\<lparr>upos := - 1\<rparr>) (heap s)\<rparr>"] by (auto simp: bytes_of_def)
      ultimately have "\<exists>s'. clnt_send env (Some p) n s = Ok s' \<and>
          map_of (heap s') p = Some (n\<lparr>upos := - 1, state := TERM'\<rparr>) \<and> map_of (heap s') h = Some m"
        using send(1) ww assms(1-3) by (simp add: clnt_send_def set_state_def set_field_ok update_conv')
      then show ?thesis using fl 0 by auto
    next
      case False
      define n' where "n' = (if i > 0 then n\<lparr>upos := upos n + i, lastio := sys_time env (Suc (ticks s))\<rparr> else n\<lparr>upos := upos n + i\<rparr>)"
      have "\<exists>s'. SprockBufSend env (Some p) s = Ok (upos n + i, s') \<and> map_of (heap s') p = Some n' \<and> map_of (heap s') h = Some m"
        using assms(1-3) rb False b
        by (cases "i > 0") (simp_all add: SprockBufSend_def field_ok Let_def set_field_def tick_def update_conv' n'_def flip: i_def)
      then obtain s' where s': "SprockBufSend env (Some p) s = Ok (upos n + i, s')" "map_of (heap s') p = Some n'" "map_of (heap s') h = Some m"
        by blast
      have "clnt_send env (Some p) n s = Ok s'" using send(1) ww s'(1) False b by (simp add: clnt_send_def)
      moreover have "buffers_ok n'" "state n' = state n" using b i False by (auto simp: n'_def buffers_ok_def)
      moreover have "pending n' = sbuffer n ! nat (upos n - 1) # pending n" if "i = - 1"
      proof -
        have "nat (upos n - 1) < length (sbuffer n)" "Suc (nat (upos n - 1)) = nat (upos n)"
          "nat (bpos n - (upos n - 1)) = Suc (nat (bpos n - upos n))"
          using that False b by auto
        then show ?thesis using that by (simp add: n'_def pending_def Cons_nth_drop_Suc [symmetric])
      qed
      moreover have "pending n = take (nat i) (pending n) @ pending n'" if "i \<noteq> - 1"
      proof -
        have "pending n' = drop (nat i) (pending n)"
          using that i b by (simp add: n'_def pending_def drop_take nat_add_distrib nat_diff_distrib add.commute diff_diff_eq)
        then show ?thesis by simp
      qed
      ultimately show ?thesis using s'(2,3) assms(1,2,6) send False fl
        by (intro exI [of _ s'] exI [of _ n'] exI [of _ m]) (auto simp: stream_def sent_def simp flip: i_def)
    qed
  qed
qed

text \<open>A client that has nine bytes to send and a \<open>write\<close> that takes four of them.\<close>

definition sample_sender :: sprock_t where
  "sample_sender = zero_sprock\<lparr>fd := 4, child := Some 2, bpos := 9\<rparr>"

definition sample_sending :: http_state where
  "sample_sending = sample_http\<lparr>heap := [(1, sample_sender), (2, zero_sprock)], watch := (watch sample_http)\<lparr>write_set := [4]\<rparr>\<rparr>"

theorem send_keeps_stream_witness:
  "let env = sample_http_env\<lparr>sys_write := \<lambda>_ _ bs. min 4 (int (length bs))\<rparr> in
    sent env sample_sender sample_sending = [0, 0, 0, 0] \<and>
    (\<exists>s' n' m'. clnt_send env (Some 1) sample_sender sample_sending = Ok s' \<and>
      map_of (heap s') 1 = Some n' \<and> map_of (heap s') 2 = Some m' \<and>
      (if failed env sample_sender sample_sending \<and> upos sample_sender = 0 then state n' = TERM' \<and> m' = zero_sprock
       else buffers_ok n' \<and> buffers_ok m' \<and> state n' = state sample_sender \<and>
         (if failed env sample_sender sample_sending
          then stream 1 2 s' = sbuffer sample_sender ! nat (upos sample_sender - 1) # stream 1 2 sample_sending
          else stream 1 2 sample_sending = sent env sample_sender sample_sending @ stream 1 2 s')))"
  unfolding Let_def
proof (rule conjI)
  let ?env = "sample_http_env\<lparr>sys_write := \<lambda>_ _ bs. min 4 (int (length bs))\<rparr>"
  show "sent ?env sample_sender sample_sending = [0, 0, 0, 0]"
    by (simp add: sent_def sample_sending_def sample_sender_def zero_sprock_def pending_def numeral_eq_Suc)
qed (rule send_keeps_stream;
    simp add: sample_sending_def sample_sender_def sample_http_def zero_sprock_def buffers_ok_def)

section \<open>The end of a connection\<close>

lemma RemoveWatch_heap: "RemoveWatch p s = Ok s' \<Longrightarrow> heap s' = heap s \<and> FIRSTSPROCK s' = FIRSTSPROCK s"
  by (auto simp: RemoveWatch_def bindR_eq_Ok Let_def split: if_splits)

text \<open>C40: When a connection ends, whatever its function, the loop removes it from the list, frees it, and then
  asks the freed element for its successor.\<close>

theorem terminated_read_after_free:
  assumes "watch_inv s as" and "a \<in> set as" and "map_of (heap s) a = Some n" and "state n = TERM'" and "fd n < 1024"
    and "child n = None \<or> (\<exists>c. child n = Some c \<and> c \<noteq> a \<and> map_of (heap s) c \<noteq> None)"
    and "parent n = None \<or> (\<exists>c. parent n = Some c \<and> c \<noteq> a \<and> map_of (heap s) c \<noteq> None)"
  shows "handle_all (Suc k) env c fuel (Some a) s = Fault Dangling_pointer"
proof -
  obtain s1 where s1: "RemoveWatch (Some a) s = Ok s1" using remove_watch_inv [OF assms(1,2,3,5)] by blast
  have h: "heap s1 = heap s" "FIRSTSPROCK s1 = FIRSTSPROCK s" using RemoveWatch_heap [OF s1] by auto
  have "sprock_list s1 as" using assms(1) h by (simp add: watch_inv_def sprock_list_def)
  then obtain s2 where s2: "RemoveSprock (Some a) s1 = Ok s2" "map_of (heap s2) a = None"
    using RemoveSprock_links [of s1 as a n] assms(2,3,6,7) h by auto
  have "handle_sprock env c fuel (Some a) s = Ok s2"
    using assms(3,4) s1 s2(1)
    by (cases "func n") (simp_all add: handle_sprock_def field_ok serv_step_def clnt_step_def http_step_def remove_sprock_def)
  moreover have "NextSprock (Some a) s2 = Fault Dangling_pointer" using s2(2) by (simp add: NextSprock_def field_def deref_def)
  ultimately show ?thesis by simp
qed

theorem terminated_read_after_free_witness:
  "handle_all 1 sample_http_env sample_config 9 (Some 2)
     (sample_http\<lparr>heap := [(1, zero_sprock\<lparr>fd := 3, nextp := Some 2\<rparr>), (2, zero_sprock\<lparr>fd := 7, prevp := Some 1, state := TERM', func := CLNT\<rparr>)]\<rparr>)
   = Fault Dangling_pointer"
proof -
  let ?s = "sample_http\<lparr>heap := [(1, zero_sprock\<lparr>fd := 3, nextp := Some 2\<rparr>), (2, zero_sprock\<lparr>fd := 7, prevp := Some 1, state := TERM', func := CLNT\<rparr>)]\<rparr>"
  have "handle_all (Suc 0) sample_http_env sample_config 9 (Some 2) ?s = Fault Dangling_pointer"
    by (rule terminated_read_after_free [where as = "[1, 2]" and n = "zero_sprock\<lparr>fd := 7, prevp := Some 1, state := TERM', func := CLNT\<rparr>"])
      (simp_all add: watch_inv_def sprock_list_def sample_http_def zero_sprock_def fd_of_def)
  then show ?thesis by (simp only: One_nat_def)
qed

end
