(* ===== verification/Ftp_Table.thy ===== *)
theory Ftp_Table
  imports Heap_List
begin

text \<open>
  The hash table of proftpd (\<^verbatim>\<open>test_sources/proftpd-1.3.0a/src/src/table.c\<close>): chains of entries that are linked
  in both directions, keys that several entries share and that count them, free lists for both, the
  iterators and the cache of the last lookup. Entries and keys are structs on two heaps, the data of
  keys and values are objects of a third one; a table never gives memory back, so that new structs are
  always fresh (\<open>pool.c\<close> ends the program when memory runs out). The four callbacks of a table are fields, as in the source. A call returns its value,
  what it stores in \<open>errno\<close> (\<open>None\<close>: nothing) and the table; \<open>pr_signals_handle\<close> is left out.
\<close>

section \<open>State\<close>

datatype errno = EINVAL | ENOENT | EEXIST | EPERM | EACCES

type_synonym uint32 = "32 word"

record tab_key =
  knext :: ptr
  key_data :: ptr
  key_datasz :: nat
  khash :: uint32
  knents :: uint32

record tab_entry =
  enext :: ptr
  eprev :: ptr
  idx :: uint32
  ekey :: ptr
  value_data :: ptr
  value_datasz :: nat

type_synonym chain_op = "ptr \<Rightarrow> ptr \<Rightarrow> tab_entry heap \<Rightarrow> (ptr \<times> tab_entry heap) res"
type_synonym cmp_op = "byte list \<Rightarrow> nat \<Rightarrow> byte list \<Rightarrow> nat \<Rightarrow> int res"
type_synonym hash_op = "byte list \<Rightarrow> nat \<Rightarrow> uint32 res"

record table_rec =
  objs :: "byte list heap"
  ents :: "tab_entry heap"
  tkeys :: "tab_key heap"
  flags :: "64 word"
  chains :: "ptr list"
  nchains :: uint32
  nents :: uint32
  free_ents :: ptr
  free_keys :: ptr
  tab_iter_ent :: ptr
  val_iter_ent :: ptr
  cache_ent :: ptr
  keycmp :: cmp_op
  keyhash :: hash_op
  entinsert :: chain_op
  entremove :: chain_op

definition zero_key :: tab_key where
  "zero_key = \<lparr>knext = None, key_data = None, key_datasz = 0, khash = 0, knents = 0\<rparr>"

definition zero_entry :: tab_entry where
  "zero_entry = \<lparr>enext = None, eprev = None, idx = 0, ekey = None, value_data = None, value_datasz = 0\<rparr>"

text \<open>Access to structs and objects, and \<open>pcalloc\<close> from the pool of the table.\<close>

definition ent_at :: "ptr \<Rightarrow> table_rec \<Rightarrow> tab_entry res" where
  "ent_at p t = deref (ents t) p"

definition set_ent :: "ptr \<Rightarrow> (tab_entry \<Rightarrow> tab_entry) \<Rightarrow> table_rec \<Rightarrow> table_rec res" where
  "set_ent p f t = bindR (assign (ents t) p f) (\<lambda>h. Ok (t\<lparr>ents := h\<rparr>))"

definition key_at :: "ptr \<Rightarrow> table_rec \<Rightarrow> tab_key res" where
  "key_at p t = deref (tkeys t) p"

definition set_key :: "ptr \<Rightarrow> (tab_key \<Rightarrow> tab_key) \<Rightarrow> table_rec \<Rightarrow> table_rec res" where
  "set_key p f t = bindR (assign (tkeys t) p f) (\<lambda>h. Ok (t\<lparr>tkeys := h\<rparr>))"

definition key_of :: "ptr \<Rightarrow> table_rec \<Rightarrow> tab_key res" where
  "key_of p t = bindR (ent_at p t) (\<lambda>e. key_at (ekey e) t)"

section \<open>Default callbacks\<close>

text \<open>\<open>strcmp\<close> on two objects.\<close>

fun strcmp :: "byte list \<Rightarrow> byte list \<Rightarrow> int res" where
  "strcmp (x # a) (y # b) = (if x \<noteq> y then Ok (uint x - uint y) else if x = 0 then Ok 0 else strcmp a b)"
| "strcmp a b = Fault Out_of_bounds"

definition key_cmp :: cmp_op where
  "key_cmp key1 keysz1 key2 keysz2 = strcmp key1 key2"

text \<open>The loop of \<open>key_hash\<close>: \<open>k\<close> is set to the start of the key in every round. The character is signed.\<close>

primrec hash_loop :: "nat \<Rightarrow> byte list \<Rightarrow> uint32 \<Rightarrow> uint32 res" where
  "hash_loop 0 key i = Ok i"
| "hash_loop (Suc sz) key i = bindR (rd key 0) (\<lambda>c. hash_loop sz key (i * 33 + scast c))"

definition key_hash :: hash_op where
  "key_hash key keysz = bindR (if keysz = 0 then strlen key else Ok keysz) (\<lambda>sz. hash_loop sz key 0)"

text \<open>The last node of a list, for \<open>entry_insert\<close> and the free lists; the number of structs is fuel enough.\<close>

primrec last_node :: "('n \<Rightarrow> ptr) \<Rightarrow> nat \<Rightarrow> 'n heap \<Rightarrow> nat \<Rightarrow> nat res" where
  "last_node nxt 0 h a = Timeout"
| "last_node nxt (Suc k) h a =
     bindR (deref h (Some a)) (\<lambda>n. case nxt n of None \<Rightarrow> Ok a | Some b \<Rightarrow> last_node nxt k h b)"

definition entry_insert :: chain_op where
  "entry_insert h e es =
     bindR (case h of None \<Rightarrow> Ok None | Some a \<Rightarrow> bindR (last_node enext (length es) es a) (\<lambda>b. Ok (Some b))) (\<lambda>ei.
     bindR (assign es ei (\<lambda>x. x\<lparr>enext := e\<rparr>)) (\<lambda>es.
     bindR (assign es e (\<lambda>x. x\<lparr>eprev := ei\<rparr>)) (\<lambda>es.
       Ok (h, es))))"

definition entry_remove :: chain_op where
  "entry_remove h e es =
     bindR (deref es e) (\<lambda>x.
     bindR (if enext x \<noteq> None then assign es (enext x) (\<lambda>y. y\<lparr>eprev := eprev x\<rparr>) else Ok es) (\<lambda>es.
     bindR (if eprev x \<noteq> None then assign es (eprev x) (\<lambda>y. y\<lparr>enext := enext x\<rparr>) else Ok es) (\<lambda>es.
     let h = (if e = h \<and> enext x = None then None else enext x) in
     bindR (assign es e (\<lambda>y. y\<lparr>eprev := None, enext := None\<rparr>)) (\<lambda>es.
       Ok (h, es)))))"

section \<open>Keys and entries\<close>

definition tab_key_alloc :: "table_rec \<Rightarrow> (ptr \<times> table_rec) res" where
  "tab_key_alloc t =
     (if free_keys t \<noteq> None then
        let k = free_keys t in
        bindR (key_at k t) (\<lambda>x.
        bindR (set_key k (\<lambda>x. x\<lparr>knext := None\<rparr>) (t\<lparr>free_keys := knext x\<rparr>)) (\<lambda>t.
          Ok (k, t)))
      else
        let a = fresh (tkeys t) in
        Ok (Some a, t\<lparr>tkeys := AList.update a zero_key (tkeys t)\<rparr>))"

definition tab_key_free :: "ptr \<Rightarrow> table_rec \<Rightarrow> table_rec res" where
  "tab_key_free k t =
     bindR (set_key k (\<lambda>_. zero_key) t) (\<lambda>t.
     case free_keys t of
       None \<Rightarrow> Ok (t\<lparr>free_keys := k\<rparr>)
     | Some a \<Rightarrow>
         bindR (last_node knext (length (tkeys t)) (tkeys t) a) (\<lambda>i.
           set_key (Some i) (\<lambda>x. x\<lparr>knext := k\<rparr>) t))"

definition tab_entry_alloc :: "table_rec \<Rightarrow> (ptr \<times> table_rec) res" where
  "tab_entry_alloc t =
     (if free_ents t \<noteq> None then
        let e = free_ents t in
        bindR (ent_at e t) (\<lambda>x.
        bindR (set_ent e (\<lambda>x. x\<lparr>enext := None\<rparr>) (t\<lparr>free_ents := enext x\<rparr>)) (\<lambda>t.
          Ok (e, t)))
      else
        let a = fresh (ents t) in
        Ok (Some a, t\<lparr>ents := AList.update a zero_entry (ents t)\<rparr>))"

definition tab_entry_free :: "ptr \<Rightarrow> table_rec \<Rightarrow> table_rec res" where
  "tab_entry_free e t =
     bindR (set_ent e (\<lambda>_. zero_entry) t) (\<lambda>t.
     case free_ents t of
       None \<Rightarrow> Ok (t\<lparr>free_ents := e\<rparr>)
     | Some a \<Rightarrow>
         bindR (last_node enext (length (ents t)) (ents t) a) (\<lambda>i.
           set_ent (Some i) (\<lambda>x. x\<lparr>enext := e\<rparr>) t))"

definition tab_entry_insert :: "ptr \<Rightarrow> table_rec \<Rightarrow> table_rec res" where
  "tab_entry_insert e t =
     bindR (ent_at e t) (\<lambda>x.
     bindR (rd (chains t) (uint (idx x))) (\<lambda>h.
     bindR (if h \<noteq> None \<and> h \<noteq> e
         then
           bindR (entinsert t h e (ents t)) (\<lambda>(h, es).
           bindR (deref es e) (\<lambda>x.
           bindR (wr (chains t) (uint (idx x)) h) (\<lambda>cs.
             Ok (t\<lparr>ents := es, chains := cs\<rparr>))))
         else Ok t) (\<lambda>t.
     bindR (ent_at e t) (\<lambda>x.
     bindR (set_key (ekey x) (\<lambda>k. k\<lparr>knents := knents k + 1\<rparr>) t) (\<lambda>t.
       Ok (t\<lparr>nents := nents t + 1\<rparr>))))))"

text \<open>The first of \<open>n\<close> chains from \<open>i\<close> on that has entries.\<close>

primrec next_chain :: "nat \<Rightarrow> nat \<Rightarrow> table_rec \<Rightarrow> ptr res" where
  "next_chain 0 i t = Ok None"
| "next_chain (Suc n) i t =
     bindR (rd (chains t) (int i)) (\<lambda>p. if p \<noteq> None then Ok p else next_chain n (Suc i) t)"

definition tab_entry_next :: "table_rec \<Rightarrow> (ptr \<times> table_rec) res" where
  "tab_entry_next t =
     bindR (if tab_iter_ent t \<noteq> None then
         bindR (ent_at (tab_iter_ent t) t) (\<lambda>x.
           if enext x = None then next_chain (unat (nchains t) - unat (idx x + 1)) (unat (idx x + 1)) t else Ok (enext x))
       else next_chain (unat (nchains t)) 0 t) (\<lambda>ent.
     Ok (ent, t\<lparr>tab_iter_ent := ent\<rparr>))"

definition tab_entry_remove :: "ptr \<Rightarrow> table_rec \<Rightarrow> table_rec res" where
  "tab_entry_remove e t =
     bindR (ent_at e t) (\<lambda>x.
     bindR (rd (chains t) (uint (idx x))) (\<lambda>h.
     bindR (entremove t h e (ents t)) (\<lambda>(h, es).
     bindR (deref es e) (\<lambda>x.
     bindR (wr (chains t) (uint (idx x)) h) (\<lambda>cs.
     let t = t\<lparr>ents := es, chains := cs\<rparr> in
     bindR (set_key (ekey x) (\<lambda>k. k\<lparr>knents := knents k - 1\<rparr>) t) (\<lambda>t.
     bindR (key_at (ekey x) t) (\<lambda>k.
     bindR (if knents k = 0
         then bindR (tab_key_free (ekey x) t) (set_ent e (\<lambda>x. x\<lparr>ekey := None\<rparr>))
         else Ok t) (\<lambda>t.
       Ok (t\<lparr>nents := nents t - 1\<rparr>)))))))))"

section \<open>Adding\<close>

type_synonym 'a call = "('a \<times> errno option \<times> table_rec) res"

definition PR_TABLE_FL_MULTI_VALUE :: "64 word" where "PR_TABLE_FL_MULTI_VALUE = 1"
definition PR_TABLE_FL_USE_CACHE :: "64 word" where "PR_TABLE_FL_USE_CACHE = 2"
definition PR_TABLE_DO_FL_ALL :: "32 word" where "PR_TABLE_DO_FL_ALL = 16"

definition flag :: "64 word \<Rightarrow> table_rec \<Rightarrow> bool" where
  "flag f t \<longleftrightarrow> flags t AND f \<noteq> 0"

text \<open>A call with a NULL table fails with \<open>EINVAL\<close>.\<close>

definition on_table :: "'a \<Rightarrow> table_rec option \<Rightarrow> (table_rec \<Rightarrow> 'a call) \<Rightarrow> ('a \<times> errno option \<times> table_rec option) res" where
  "on_table err tab f =
     (case tab of None \<Rightarrow> Ok (err, Some EINVAL, None)
      | Some t \<Rightarrow> bindR (f t) (\<lambda>(r, e, t). Ok (r, e, Some t)))"

text \<open>\<open>tab->keyhash(key_data, key_datasz)\<close>, the index of its chain, and \<open>tab->keycmp\<close> of a key with \<open>key_data\<close>.\<close>

definition hash_key :: "nat \<Rightarrow> nat \<Rightarrow> table_rec \<Rightarrow> uint32 res" where
  "hash_key kd ksz t = bindR (deref (objs t) (Some kd)) (\<lambda>b. keyhash t b ksz)"

definition chain_index :: "uint32 \<Rightarrow> table_rec \<Rightarrow> uint32 res" where
  "chain_index h t = (if nchains t = 0 then Fault Int_overflow else Ok (h mod nchains t))"

definition same_key :: "ptr \<Rightarrow> nat \<Rightarrow> nat \<Rightarrow> nat \<Rightarrow> table_rec \<Rightarrow> bool res" where
  "same_key p psz kd ksz t =
     bindR (deref (objs t) p) (\<lambda>a. bindR (deref (objs t) (Some kd)) (\<lambda>b.
     bindR (keycmp t a psz b ksz) (\<lambda>r. Ok (r = 0))))"

text \<open>The loop of \<open>pr_table_kadd\<close> over the chain; the result is whether the key exists already.\<close>

primrec add_scan :: "nat \<Rightarrow> uint32 \<Rightarrow> nat \<Rightarrow> ptr \<Rightarrow> ptr \<Rightarrow> table_rec \<Rightarrow> (bool \<times> table_rec) res" where
  "add_scan 0 h kd n ei t = (if ei = None then Ok (False, t) else Timeout)"
| "add_scan (Suc fuel) h kd n ei t =
     (if ei = None then Ok (False, t)
      else
        bindR (ent_at ei t) (\<lambda>x.
        bindR (key_at (ekey x) t) (\<lambda>k.
        if khash k \<noteq> h then add_scan fuel h kd n (enext x) t
        else
          bindR (same_key (key_data k) 0 kd 0 t) (\<lambda>same.
          if same then
            if \<not> flag PR_TABLE_FL_MULTI_VALUE t then Ok (True, t)
            else bindR (set_ent n (\<lambda>y. y\<lparr>ekey := ekey x\<rparr>) t) (add_scan fuel h kd n (enext x))
          else add_scan fuel h kd n (enext x) t))))"

definition pr_table_kadd_to :: "nat \<Rightarrow> nat \<Rightarrow> ptr \<Rightarrow> nat \<Rightarrow> table_rec \<Rightarrow> int call" where
  "pr_table_kadd_to kd ksz v vsz t =
     bindR (hash_key kd ksz t) (\<lambda>h.
     bindR (chain_index h t) (\<lambda>i.
     bindR (tab_entry_alloc t) (\<lambda>(n, t).
     bindR (set_ent n (\<lambda>x. x\<lparr>value_data := v, value_datasz := vsz, idx := i\<rparr>) t) (\<lambda>t.
     bindR (rd (chains t) (uint i)) (\<lambda>e.
     bindR (if e \<noteq> None then add_scan (length (ents t)) h kd n e t
         else bindR (wr (chains t) (uint i) n) (\<lambda>cs. Ok (False, t\<lparr>chains := cs\<rparr>))) (\<lambda>(found, t).
     if found then Ok (- 1, Some EEXIST, t)
     else
       bindR (ent_at n t) (\<lambda>x.
       bindR (if ekey x = None then
           bindR (tab_key_alloc t) (\<lambda>(k, t).
           bindR (set_key k (\<lambda>y. y\<lparr>key_data := Some kd, key_datasz := ksz, khash := h, knents := 0\<rparr>) t)
             (set_ent n (\<lambda>x. x\<lparr>ekey := k\<rparr>)))
         else Ok t) (\<lambda>t.
       bindR (tab_entry_insert n t) (\<lambda>t.
         Ok (0, None, t))))))))))"

definition pr_table_kadd :: "ptr \<Rightarrow> nat \<Rightarrow> ptr \<Rightarrow> nat \<Rightarrow> table_rec option \<Rightarrow> (int \<times> errno option \<times> table_rec option) res" where
  "pr_table_kadd kd ksz v vsz tab =
     on_table (- 1) tab (\<lambda>t. case kd of None \<Rightarrow> Ok (- 1, Some EINVAL, t) | Some p \<Rightarrow> pr_table_kadd_to p ksz v vsz t)"

section \<open>Looking up\<close>

text \<open>The loop over a chain that all other operations share: the first entry with the given hash and key.\<close>

primrec find_ent :: "nat \<Rightarrow> uint32 \<Rightarrow> nat \<Rightarrow> nat \<Rightarrow> ptr \<Rightarrow> table_rec \<Rightarrow> ptr res" where
  "find_ent 0 h kd ksz ent t = (if ent = None then Ok None else Timeout)"
| "find_ent (Suc fuel) h kd ksz ent t =
     (if ent = None then Ok None
      else
        bindR (ent_at ent t) (\<lambda>x.
        bindR (key_at (ekey x) t) (\<lambda>k.
        if khash k \<noteq> h then find_ent fuel h kd ksz (enext x) t
        else
          bindR (same_key (key_data k) (key_datasz k) kd ksz t) (\<lambda>same.
          if same then Ok ent else find_ent fuel h kd ksz (enext x) t))))"

text \<open>\<open>e && e->key->key_data == key_data\<close>\<close>

definition looked_up :: "ptr \<Rightarrow> nat \<Rightarrow> table_rec \<Rightarrow> bool res" where
  "looked_up e kd t = (if e = None then Ok False else bindR (key_of e t) (\<lambda>k. Ok (key_data k = Some kd)))"

definition cached :: "nat \<Rightarrow> table_rec \<Rightarrow> bool res" where
  "cached kd t = (if flag PR_TABLE_FL_USE_CACHE t then looked_up (cache_ent t) kd t else Ok False)"

definition cache :: "ptr \<Rightarrow> table_rec \<Rightarrow> table_rec" where
  "cache e t = (if flag PR_TABLE_FL_USE_CACHE t then t\<lparr>cache_ent := e\<rparr> else t)"

definition pr_table_kexists_in :: "nat \<Rightarrow> nat \<Rightarrow> table_rec \<Rightarrow> int call" where
  "pr_table_kexists_in kd ksz t =
     (if nents t = 0 then Ok (- 1, Some ENOENT, t)
      else
        bindR (cached kd t) (\<lambda>hit.
        if hit then bindR (key_of (cache_ent t) t) (\<lambda>k. Ok (sint (knents k), None, t))
        else
          bindR (hash_key kd ksz t) (\<lambda>h.
          bindR (chain_index h t) (\<lambda>i.
          bindR (rd (chains t) (uint i)) (\<lambda>head.
          if head = None then Ok (0, None, t\<lparr>cache_ent := None\<rparr>)
          else
            bindR (find_ent (length (ents t)) h kd ksz head t) (\<lambda>ent.
            if ent = None then Ok (0, Some EINVAL, t\<lparr>cache_ent := None\<rparr>)
            else bindR (key_of ent t) (\<lambda>k. Ok (sint (knents k), None, cache ent t))))))))"

definition pr_table_kexists :: "ptr \<Rightarrow> nat \<Rightarrow> table_rec option \<Rightarrow> (int \<times> errno option \<times> table_rec option) res" where
  "pr_table_kexists kd ksz tab =
     on_table (- 1) tab (\<lambda>t. case kd of None \<Rightarrow> Ok (- 1, Some EINVAL, t) | Some p \<Rightarrow> pr_table_kexists_in p ksz t)"

text \<open>The end of a lookup that found nothing.\<close>

definition forget :: "table_rec \<Rightarrow> table_rec" where
  "forget t = t\<lparr>cache_ent := None, val_iter_ent := None\<rparr>"

text \<open>Where \<open>pr_table_kget\<close> and \<open>pr_table_kset\<close> start. They differ for a cached entry: the one looks at the
  entry itself, the other starts behind it.\<close>

definition lookup_head :: "bool \<Rightarrow> uint32 \<Rightarrow> nat \<Rightarrow> table_rec \<Rightarrow> ptr res" where
  "lookup_head behind h kd t =
     bindR (looked_up (val_iter_ent t) kd t) (\<lambda>again.
     if again then bindR (ent_at (val_iter_ent t) t) (\<lambda>x. Ok (enext x))
     else
       bindR (cached kd t) (\<lambda>hit.
       if hit then
         if behind then bindR (ent_at (cache_ent t) t) (\<lambda>x. Ok (enext x)) else Ok (cache_ent t)
       else bindR (chain_index h t) (\<lambda>i. rd (chains t) (uint i))))"

text \<open>The value and what is stored through \<open>value_datasz\<close>; a caller that passes NULL there ignores it.\<close>

definition pr_table_kget_from :: "nat \<Rightarrow> nat \<Rightarrow> table_rec \<Rightarrow> (ptr \<times> nat option) call" where
  "pr_table_kget_from kd ksz t =
     (if nents t = 0 then Ok ((None, None), Some ENOENT, forget t)
      else
        bindR (hash_key kd ksz t) (\<lambda>h.
        bindR (lookup_head False h kd t) (\<lambda>head.
        if head = None then Ok ((None, None), Some ENOENT, forget t)
        else
          bindR (find_ent (length (ents t)) h kd ksz head t) (\<lambda>ent.
          if ent = None then Ok ((None, None), Some ENOENT, forget t)
          else
            bindR (ent_at ent t) (\<lambda>x.
              Ok ((value_data x, Some (value_datasz x)), None, (cache ent t)\<lparr>val_iter_ent := ent\<rparr>))))))"

definition pr_table_kget :: "ptr \<Rightarrow> nat \<Rightarrow> table_rec option \<Rightarrow> ((ptr \<times> nat option) \<times> errno option \<times> table_rec option) res" where
  "pr_table_kget kd ksz tab =
     on_table (None, None) tab (\<lambda>t. case kd of
         None \<Rightarrow> Ok ((None, None), Some ENOENT, forget t)
       | Some p \<Rightarrow> pr_table_kget_from p ksz t)"

section \<open>Removing and changing\<close>

definition remove_ent :: "ptr \<Rightarrow> table_rec \<Rightarrow> (ptr \<times> nat option) call" where
  "remove_ent ent t =
     bindR (ent_at ent t) (\<lambda>x.
     bindR (tab_entry_remove ent t) (\<lambda>t.
     bindR (tab_entry_free ent t) (\<lambda>t.
       Ok ((value_data x, Some (value_datasz x)), None, t\<lparr>cache_ent := None\<rparr>))))"

definition pr_table_kremove_from :: "nat \<Rightarrow> nat \<Rightarrow> table_rec \<Rightarrow> (ptr \<times> nat option) call" where
  "pr_table_kremove_from kd ksz t =
     (if nents t = 0 then Ok ((None, None), Some ENOENT, t)
      else
        bindR (cached kd t) (\<lambda>hit.
        if hit then remove_ent (cache_ent t) t
        else
          bindR (hash_key kd ksz t) (\<lambda>h.
          bindR (chain_index h t) (\<lambda>i.
          bindR (rd (chains t) (uint i)) (\<lambda>head.
          if head = None then Ok ((None, None), Some ENOENT, t\<lparr>cache_ent := None\<rparr>)
          else
            bindR (find_ent (length (ents t)) h kd ksz head t) (\<lambda>ent.
            if ent = None then Ok ((None, None), Some EINVAL, t\<lparr>cache_ent := None\<rparr>)
            else remove_ent ent t))))))"

definition pr_table_kremove :: "ptr \<Rightarrow> nat \<Rightarrow> table_rec option \<Rightarrow> ((ptr \<times> nat option) \<times> errno option \<times> table_rec option) res" where
  "pr_table_kremove kd ksz tab =
     on_table (None, None) tab (\<lambda>t. case kd of None \<Rightarrow> Ok ((None, None), Some EINVAL, t) | Some p \<Rightarrow> pr_table_kremove_from p ksz t)"

definition pr_table_kset_in :: "nat \<Rightarrow> nat \<Rightarrow> ptr \<Rightarrow> nat \<Rightarrow> table_rec \<Rightarrow> int call" where
  "pr_table_kset_in kd ksz v vsz t =
     (if nents t = 0 then Ok (- 1, Some ENOENT, t)
      else
        bindR (hash_key kd ksz t) (\<lambda>h.
        bindR (lookup_head True h kd t) (\<lambda>head.
        if head = None then Ok (- 1, Some ENOENT, forget t)
        else
          bindR (find_ent (length (ents t)) h kd ksz head t) (\<lambda>ent.
          if ent = None then Ok (- 1, Some EINVAL, forget t)
          else
            bindR (ent_at ent t) (\<lambda>x.
            if value_data x = v then Ok (- 1, Some EEXIST, t)
            else
              bindR (set_ent ent (\<lambda>x. x\<lparr>value_data := v, value_datasz := vsz\<rparr>) t) (\<lambda>t.
                Ok (0, None, (cache ent t)\<lparr>val_iter_ent := ent\<rparr>)))))))"

definition pr_table_kset :: "ptr \<Rightarrow> nat \<Rightarrow> ptr \<Rightarrow> nat \<Rightarrow> table_rec option \<Rightarrow> (int \<times> errno option \<times> table_rec option) res" where
  "pr_table_kset kd ksz v vsz tab =
     on_table (- 1) tab (\<lambda>t. case kd of
         None \<Rightarrow> Ok (- 1, Some EINVAL, t)
       | Some p \<Rightarrow> if v = None then Ok (- 1, Some EINVAL, t) else pr_table_kset_in p ksz v vsz t)"

section \<open>Strings as keys\<close>

definition strlen_at :: "nat \<Rightarrow> table_rec \<Rightarrow> nat res" where
  "strlen_at p t = bindR (deref (objs t) (Some p)) strlen"

definition pr_table_add_to :: "nat \<Rightarrow> ptr \<Rightarrow> nat \<Rightarrow> table_rec \<Rightarrow> int call" where
  "pr_table_add_to kd v vsz t =
     bindR (case v of
         Some p \<Rightarrow> if vsz = 0 then bindR (strlen_at p t) (\<lambda>n. Ok (n + 1)) else Ok vsz
       | None \<Rightarrow> Ok vsz) (\<lambda>vsz.
     bindR (strlen_at kd t) (\<lambda>n. pr_table_kadd_to kd (n + 1) v vsz t))"

definition pr_table_add :: "ptr \<Rightarrow> ptr \<Rightarrow> nat \<Rightarrow> table_rec option \<Rightarrow> (int \<times> errno option \<times> table_rec option) res" where
  "pr_table_add kd v vsz tab =
     on_table (- 1) tab (\<lambda>t. case kd of None \<Rightarrow> Ok (- 1, Some EINVAL, t) | Some p \<Rightarrow> pr_table_add_to p v vsz t)"

text \<open>\<open>pcalloc\<close> takes an \<open>int\<close>, and returns NULL for a size of 0 or less without a look at the pool; it then clears
  as many bytes as the size says when read as a \<open>size_t\<close>. \<open>memcpy\<close> of no bytes does not look at the source.\<close>

definition pool_int :: "nat \<Rightarrow> int" where
  "pool_int sz = sint (word_of_nat sz :: 32 word)"

definition pr_table_add_dup :: "ptr \<Rightarrow> ptr \<Rightarrow> nat \<Rightarrow> table_rec option \<Rightarrow> (int \<times> errno option \<times> table_rec option) res" where
  "pr_table_add_dup kd v vsz tab =
     on_table (- 1) tab (\<lambda>t. case kd of
         None \<Rightarrow> Ok (- 1, Some EINVAL, t)
       | Some p \<Rightarrow>
           if v = None \<and> vsz \<noteq> 0 then Ok (- 1, Some EINVAL, t)
           else if vsz = 0 then pr_table_add_to p None 0 t
           else if pool_int vsz \<le> 0 then Fault Null_pointer
           else if pool_int vsz \<noteq> int vsz then Fault Out_of_bounds
           else
             bindR (bindR (deref (objs t) v) (\<lambda>b. rd_block b 0 (int vsz))) (\<lambda>b.
             let a = fresh (objs t) in
               pr_table_add_to p (Some a) vsz (t\<lparr>objs := AList.update a b (objs t)\<rparr>)))"

definition pr_table_exists :: "ptr \<Rightarrow> table_rec option \<Rightarrow> (int \<times> errno option \<times> table_rec option) res" where
  "pr_table_exists kd tab =
     on_table (- 1) tab (\<lambda>t. case kd of
         None \<Rightarrow> Ok (- 1, Some EINVAL, t)
       | Some p \<Rightarrow> bindR (strlen_at p t) (\<lambda>n. pr_table_kexists_in p (n + 1) t))"

definition pr_table_get :: "ptr \<Rightarrow> table_rec option \<Rightarrow> ((ptr \<times> nat option) \<times> errno option \<times> table_rec option) res" where
  "pr_table_get kd tab =
     on_table (None, None) tab (\<lambda>t. case kd of
         None \<Rightarrow> Ok ((None, None), Some ENOENT, forget t)
       | Some p \<Rightarrow> bindR (strlen_at p t) (\<lambda>n. pr_table_kget_from p (n + 1) t))"

definition pr_table_remove :: "ptr \<Rightarrow> table_rec option \<Rightarrow> ((ptr \<times> nat option) \<times> errno option \<times> table_rec option) res" where
  "pr_table_remove kd tab =
     on_table (None, None) tab (\<lambda>t. case kd of
         None \<Rightarrow> Ok ((None, None), Some EINVAL, t)
       | Some p \<Rightarrow> bindR (strlen_at p t) (\<lambda>n. pr_table_kremove_from p (n + 1) t))"

definition pr_table_set :: "ptr \<Rightarrow> ptr \<Rightarrow> nat \<Rightarrow> table_rec option \<Rightarrow> (int \<times> errno option \<times> table_rec option) res" where
  "pr_table_set kd v vsz tab =
     on_table (- 1) tab (\<lambda>t. case kd of
         None \<Rightarrow> Ok (- 1, Some EINVAL, t)
       | Some p \<Rightarrow> bindR (strlen_at p t) (\<lambda>n.
           if v = None then Ok (- 1, Some EINVAL, t) else pr_table_kset_in p (n + 1) v vsz t))"

section \<open>Tables\<close>

text \<open>The array of chains, with pointers of eight bytes: when the size does not fit into an \<open>int\<close>, it is shorter than
  announced, or clearing it fails.\<close>

definition alloc_chains :: "uint32 \<Rightarrow> ptr list res" where
  "alloc_chains n =
     (let k = pool_int (8 * unat n) in if k < 0 then Fault Null_pointer else Ok (replicate (nat k div 8) None))"

text \<open>A table in the memory \<open>m\<close> of the caller; \<open>p\<close> is the pool. \<open>flags\<close> is an \<open>int\<close>.\<close>

definition pr_table_nalloc :: "byte list heap \<Rightarrow> ptr \<Rightarrow> 32 word \<Rightarrow> uint32 \<Rightarrow> (errno option \<times> table_rec option) res" where
  "pr_table_nalloc m p fl n =
     (if p = None then Ok (Some EINVAL, None)
      else
        bindR (alloc_chains n) (\<lambda>cs.
        Ok (None, Some \<lparr>objs = m, ents = [], tkeys = [], flags = scast fl, chains = cs, nchains = n,
          nents = 0, free_ents = None, free_keys = None, tab_iter_ent = None, val_iter_ent = None, cache_ent = None,
          keycmp = key_cmp, keyhash = key_hash, entinsert = entry_insert, entremove = entry_remove\<rparr>)))"

definition pr_table_alloc :: "byte list heap \<Rightarrow> ptr \<Rightarrow> 32 word \<Rightarrow> (errno option \<times> table_rec option) res" where
  "pr_table_alloc m p fl = pr_table_nalloc m p fl 32"

definition pr_table_count :: "table_rec option \<Rightarrow> (int \<times> errno option \<times> table_rec option) res" where
  "pr_table_count tab = on_table (- 1) tab (\<lambda>t. Ok (sint (nents t), None, t))"

text \<open>The callback of \<open>pr_table_do\<close> must not change the table; it may change the data \<open>user_data\<close> points to.
  The first component of the results is whether the iteration was stopped.\<close>

type_synonym 'u callback = "ptr \<Rightarrow> nat \<Rightarrow> ptr \<Rightarrow> nat \<Rightarrow> 'u \<Rightarrow> int \<times> 'u"

primrec do_chain :: "nat \<Rightarrow> 'u callback \<Rightarrow> bool \<Rightarrow> ptr \<Rightarrow> table_rec \<Rightarrow> 'u \<Rightarrow> (bool \<times> 'u) res" where
  "do_chain 0 cb fl ent t u = (if ent = None then Ok (False, u) else Timeout)"
| "do_chain (Suc fuel) cb fl ent t u =
     (if ent = None then Ok (False, u)
      else
        bindR (ent_at ent t) (\<lambda>x.
        bindR (key_at (ekey x) t) (\<lambda>k.
        let (r, u) = cb (key_data k) (key_datasz k) (value_data x) (value_datasz x) u in
        if r < 0 \<and> \<not> fl then Ok (True, u) else do_chain fuel cb fl (enext x) t u)))"

primrec do_chains :: "nat \<Rightarrow> nat \<Rightarrow> 'u callback \<Rightarrow> bool \<Rightarrow> table_rec \<Rightarrow> 'u \<Rightarrow> (bool \<times> 'u) res" where
  "do_chains 0 i cb fl t u = Ok (False, u)"
| "do_chains (Suc n) i cb fl t u =
     bindR (rd (chains t) (int i)) (\<lambda>ent.
     bindR (do_chain (length (ents t)) cb fl ent t u) (\<lambda>(stop, u).
       if stop then Ok (True, u) else do_chains n (Suc i) cb fl t u))"

definition pr_table_do ::
  "'u callback option \<Rightarrow> 'u \<Rightarrow> 32 word \<Rightarrow> table_rec option \<Rightarrow> ((int \<times> 'u) \<times> errno option \<times> table_rec option) res" where
  "pr_table_do cb u fl tab =
     on_table (- 1, u) tab (\<lambda>t. case cb of
         None \<Rightarrow> Ok ((- 1, u), Some EINVAL, t)
       | Some f \<Rightarrow>
           if nents t = 0 then Ok ((0, u), None, t)
           else
             bindR (do_chains (unat (nchains t)) 0 f (fl AND PR_TABLE_DO_FL_ALL \<noteq> 0) t u) (\<lambda>(stop, u).
               Ok (if stop then ((- 1, u), Some EPERM, t) else ((0, u), None, t))))"

text \<open>The inner loop of \<open>pr_table_empty\<close> always takes the first entry of chain \<open>i\<close>.\<close>

primrec empty_chain :: "nat \<Rightarrow> nat \<Rightarrow> table_rec \<Rightarrow> table_rec res" where
  "empty_chain 0 i t = bindR (rd (chains t) (int i)) (\<lambda>e. if e = None then Ok t else Timeout)"
| "empty_chain (Suc fuel) i t =
     bindR (rd (chains t) (int i)) (\<lambda>e.
     if e = None then Ok t
     else bindR (tab_entry_remove e t) (\<lambda>t. bindR (tab_entry_free e t) (empty_chain fuel i)))"

primrec empty_chains :: "nat \<Rightarrow> nat \<Rightarrow> table_rec \<Rightarrow> table_rec res" where
  "empty_chains 0 i t = Ok t"
| "empty_chains (Suc n) i t =
     bindR (empty_chain (length (ents t)) i t) (\<lambda>t.
     bindR (wr (chains t) (int i) None) (\<lambda>cs. empty_chains n (Suc i) (t\<lparr>chains := cs\<rparr>)))"

definition pr_table_empty :: "table_rec option \<Rightarrow> (int \<times> errno option \<times> table_rec option) res" where
  "pr_table_empty tab =
     on_table (- 1) tab (\<lambda>t.
       if nents t = 0 then Ok (0, None, t)
       else bindR (empty_chains (unat (nchains t)) 0 t) (\<lambda>t. Ok (0, None, t)))"

text \<open>\<open>destroy_pool\<close> ends the life of the table.\<close>

definition pr_table_free :: "table_rec option \<Rightarrow> int \<times> errno option \<times> table_rec option" where
  "pr_table_free tab =
     (case tab of
        None \<Rightarrow> (- 1, Some EINVAL, None)
      | Some t \<Rightarrow> if nents t \<noteq> 0 then (- 1, Some EPERM, Some t) else (0, None, None))"

section \<open>Iterating, control and output\<close>

text \<open>The loop of \<open>pr_table_next\<close> skips entries with the key of the entry before.\<close>

primrec skip_same :: "nat \<Rightarrow> ptr \<Rightarrow> ptr \<Rightarrow> table_rec \<Rightarrow> (ptr \<times> table_rec) res" where
  "skip_same 0 prev ent t = (if ent = None then Ok (None, t) else Timeout)"
| "skip_same (Suc fuel) prev ent t =
     (if ent = None \<or> prev = None then Ok (ent, t)
      else
        bindR (ent_at ent t) (\<lambda>x.
        bindR (ent_at prev t) (\<lambda>y.
        if ekey x = ekey y then bindR (tab_entry_next t) (\<lambda>(ent, t). skip_same fuel prev ent t)
        else Ok (ent, t))))"

definition pr_table_next :: "table_rec option \<Rightarrow> (ptr \<times> errno option \<times> table_rec option) res" where
  "pr_table_next tab =
     on_table None tab (\<lambda>t.
       let prev = tab_iter_ent t in
       bindR (tab_entry_next t) (\<lambda>(ent, t).
       bindR (skip_same (Suc (length (ents t))) prev ent t) (\<lambda>(ent, t).
       if ent = None then Ok (None, Some EPERM, t)
       else bindR (key_of ent t) (\<lambda>k. Ok (key_data k, None, t)))))"

definition pr_table_rewind :: "table_rec option \<Rightarrow> (int \<times> errno option \<times> table_rec option) res" where
  "pr_table_rewind tab = on_table (- 1) tab (\<lambda>t. Ok (0, None, t\<lparr>tab_iter_ent := None\<rparr>))"

text \<open>The commands with what \<open>arg\<close> points to (\<open>None\<close>: NULL); other commands by their number.\<close>

datatype table_ctl =
    PR_TABLE_CTL_SET_ENT_INSERT "chain_op option"
  | PR_TABLE_CTL_SET_ENT_REMOVE "chain_op option"
  | PR_TABLE_CTL_SET_FLAGS "64 word option"
  | PR_TABLE_CTL_SET_KEY_CMP "cmp_op option"
  | PR_TABLE_CTL_SET_KEY_HASH "hash_op option"
  | PR_TABLE_CTL_SET_NCHAINS "uint32 option"
  | Other_command int

definition pr_table_ctl :: "table_ctl \<Rightarrow> table_rec option \<Rightarrow> (int \<times> errno option \<times> table_rec option) res" where
  "pr_table_ctl cmd tab =
     on_table (- 1) tab (\<lambda>t.
       if nents t \<noteq> 0 then Ok (- 1, Some EPERM, t)
       else (case cmd of
           PR_TABLE_CTL_SET_KEY_HASH arg \<Rightarrow> Ok (0, None, t\<lparr>keyhash := (case arg of None \<Rightarrow> key_hash | Some f \<Rightarrow> f)\<rparr>)
         | PR_TABLE_CTL_SET_FLAGS arg \<Rightarrow>
             (case arg of None \<Rightarrow> Ok (- 1, Some EINVAL, t) | Some f \<Rightarrow> Ok (0, None, t\<lparr>flags := f\<rparr>))
         | PR_TABLE_CTL_SET_KEY_CMP arg \<Rightarrow> Ok (0, None, t\<lparr>keycmp := (case arg of None \<Rightarrow> key_cmp | Some f \<Rightarrow> f)\<rparr>)
         | PR_TABLE_CTL_SET_ENT_INSERT arg \<Rightarrow> Ok (0, None, t\<lparr>entinsert := (case arg of None \<Rightarrow> entry_insert | Some f \<Rightarrow> f)\<rparr>)
         | PR_TABLE_CTL_SET_ENT_REMOVE arg \<Rightarrow> Ok (0, None, t\<lparr>entremove := (case arg of None \<Rightarrow> entry_remove | Some f \<Rightarrow> f)\<rparr>)
         | PR_TABLE_CTL_SET_NCHAINS arg \<Rightarrow>
             (case arg of
                None \<Rightarrow> Fault Null_pointer
              | Some n \<Rightarrow> bindR (alloc_chains n) (\<lambda>cs. Ok (0, None, t\<lparr>nchains := n, chains := cs\<rparr>)))
         | Other_command _ \<Rightarrow> Ok (- 1, Some EINVAL, t)))"

text \<open>The calls of the output function: a format and its arguments.\<close>

datatype dump_arg = Dump_string cstring | Dump_uint uint32 | Dump_pointer ptr

type_synonym dump_call = "cstring \<times> dump_arg list"

definition dump_line :: "string \<Rightarrow> dump_call" where
  "dump_line s = (bytes_of ''%s'', [Dump_string (bytes_of s)])"

definition dump_flags :: "table_rec \<Rightarrow> dump_call list" where
  "dump_flags t =
     (if flags t = 0 then [dump_line ''[table flags]: None'']
      else if flag PR_TABLE_FL_MULTI_VALUE t \<and> flag PR_TABLE_FL_USE_CACHE t
        then [dump_line ''[table flags]: MultiValue, UseCache'']
      else (if flag PR_TABLE_FL_MULTI_VALUE t then [dump_line ''[table flags]: MultiValue''] else []) @
        (if flag PR_TABLE_FL_USE_CACHE t then [dump_line ''[table flags]: UseCache''] else []))"

primrec dump_chain :: "nat \<Rightarrow> uint32 \<Rightarrow> uint32 \<Rightarrow> ptr \<Rightarrow> table_rec \<Rightarrow> dump_call list res" where
  "dump_chain 0 i j ent t = (if ent = None then Ok [] else Timeout)"
| "dump_chain (Suc fuel) i j ent t =
     (if ent = None then Ok []
      else
        bindR (ent_at ent t) (\<lambda>x.
        bindR (key_at (ekey x) t) (\<lambda>k.
        bindR (dump_chain fuel i (j + 1) (enext x) t) (\<lambda>ls.
          Ok ((bytes_of ''[chain %u#%u] '' @ bytes_of (char_of (39 :: nat) # ''%s'' @ char_of (39 :: nat) # '' => '' @
                char_of (39 :: nat) # ''%s'' @ [char_of (39 :: nat)]),
              [Dump_uint i, Dump_uint j, Dump_pointer (key_data k), Dump_pointer (value_data x)]) # ls)))))"

primrec dump_chains :: "nat \<Rightarrow> nat \<Rightarrow> table_rec \<Rightarrow> dump_call list res" where
  "dump_chains 0 i t = Ok []"
| "dump_chains (Suc n) i t =
     bindR (rd (chains t) (int i)) (\<lambda>ent.
     bindR (dump_chain (length (ents t)) (word_of_nat i) 0 ent t) (\<lambda>ls.
     bindR (dump_chains n (Suc i) t) (\<lambda>ls'. Ok (ls @ ls'))))"

definition pr_table_dump :: "table_rec option \<Rightarrow> dump_call list res" where
  "pr_table_dump tab =
     (case tab of
        None \<Rightarrow> Ok []
      | Some t \<Rightarrow>
          if nents t = 0 then Ok (dump_flags t @ [(bytes_of ''[empty table]'', [])])
          else
            bindR (dump_chains (unat (nchains t)) 0 t) (\<lambda>ls.
              Ok (dump_flags t @ (bytes_of ''[table count]: %u'', [Dump_uint (nents t)]) # ls)))"

end
