(* ===== verification/Ftp_Chain.thy ===== *)
theory Ftp_Chain
  imports Ftp_Table
begin

text \<open>
  The chains of the hash table of proftpd. The invariant \<open>table_inv\<close> relates a table to the lists of
  entries of its chains; the abstraction is what is stored under a string, in order. What the table
  expects of its callbacks is a locale, interpreted on the default callbacks at the end; the lookups and
  the traversals are proved in it.
\<close>

section \<open>Abstraction\<close>

definition is_str :: "table_rec \<Rightarrow> nat \<Rightarrow> cstring \<Rightarrow> bool" where
  "is_str t p s \<longleftrightarrow> (\<exists>b. map_of (objs t) p = Some b \<and> 0 \<in> set b \<and> cstr b = s)"

definition ent :: "table_rec \<Rightarrow> nat \<Rightarrow> tab_entry" where
  "ent t a = the (map_of (ents t) a)"

definition ent_key :: "table_rec \<Rightarrow> nat \<Rightarrow> tab_key" where
  "ent_key t a = the (map_of (tkeys t) (the (ekey (ent t a))))"

definition ent_str :: "table_rec \<Rightarrow> nat \<Rightarrow> cstring" where
  "ent_str t a = cstr (the (map_of (objs t) (the (key_data (ent_key t a)))))"

definition ent_val :: "table_rec \<Rightarrow> nat \<Rightarrow> ptr \<times> nat" where
  "ent_val t a = (value_data (ent t a), value_datasz (ent t a))"

text \<open>The values under a string.\<close>

definition stored :: "table_rec \<Rightarrow> nat list list \<Rightarrow> cstring \<Rightarrow> (ptr \<times> nat) list" where
  "stored t css s = map (ent_val t) (filter (\<lambda>a. ent_str t a = s) (concat css))"

text \<open>An entry with a proper key, for the hash values \<open>sh\<close> of strings.\<close>

definition ent_ok :: "(cstring \<Rightarrow> uint32) \<Rightarrow> table_rec \<Rightarrow> nat \<Rightarrow> bool" where
  "ent_ok sh t a \<longleftrightarrow> map_of (ents t) a = Some (ent t a) \<and>
     (\<exists>k p. ekey (ent t a) = Some k \<and> map_of (tkeys t) k = Some (ent_key t a) \<and> key_data (ent_key t a) = Some p \<and>
       is_str t p (ent_str t a)) \<and>
     khash (ent_key t a) = sh (ent_str t a) \<and> key_datasz (ent_key t a) = Suc (length (ent_str t a))"

definition chain_of :: "(cstring \<Rightarrow> uint32) \<Rightarrow> table_rec \<Rightarrow> cstring \<Rightarrow> nat" where
  "chain_of sh t s = unat (sh s mod nchains t)"

abbreviation linked :: "table_rec \<Rightarrow> ptr \<Rightarrow> nat list \<Rightarrow> bool" where
  "linked t p as \<equiv> \<exists>l. dsegment enext eprev (ents t) None p as l None"

text \<open>The chains \<open>css\<close> of the table: every entry is in the chain of its key.\<close>

definition chains_inv :: "(cstring \<Rightarrow> uint32) \<Rightarrow> table_rec \<Rightarrow> nat list list \<Rightarrow> bool" where
  "chains_inv sh t css \<longleftrightarrow> nchains t \<noteq> 0 \<and> length (chains t) = unat (nchains t) \<and> length css = unat (nchains t) \<and>
     (\<forall>i < length css. linked t (chains t ! i) (css ! i) \<and>
       (\<forall>a \<in> set (css ! i). ent_ok sh t a \<and> idx (ent t a) = word_of_nat i \<and> chain_of sh t (ent_str t a) = i))"

text \<open>The entries \<open>fs\<close> of a free list are cleared but for the link and disjoint from \<open>A\<close>; the keys of the other
  free list are not in use.\<close>

definition spare_ents :: "tab_entry heap \<Rightarrow> ptr \<Rightarrow> nat list \<Rightarrow> nat set \<Rightarrow> bool" where
  "spare_ents es p fs A \<longleftrightarrow> chain enext es p fs \<and> set fs \<inter> A = {} \<and>
     (\<forall>a \<in> set fs. ekey (the (map_of es a)) = None \<and> eprev (the (map_of es a)) = None)"

definition spare_keys :: "tab_key heap \<Rightarrow> ptr \<Rightarrow> nat list \<Rightarrow> ptr set \<Rightarrow> bool" where
  "spare_keys h p ks K \<longleftrightarrow> chain knext h p ks \<and> (\<forall>k \<in> set ks. Some k \<notin> K)"

definition free_inv :: "table_rec \<Rightarrow> nat list list \<Rightarrow> bool" where
  "free_inv t css \<longleftrightarrow> (\<exists>fs. spare_ents (ents t) (free_ents t) fs (set (concat css))) \<and>
     (\<exists>ks. spare_keys (tkeys t) (free_keys t) ks ((ekey \<circ> ent t) ` set (concat css)))"

text \<open>Entries with the same string share their key, which counts them.\<close>

definition keys_inv :: "table_rec \<Rightarrow> nat list list \<Rightarrow> bool" where
  "keys_inv t css \<longleftrightarrow>
     (\<forall>a \<in> set (concat css). \<forall>b \<in> set (concat css). ent_str t a = ent_str t b \<longrightarrow> ekey (ent t a) = ekey (ent t b)) \<and>
     (\<forall>a \<in> set (concat css). unat (knents (ent_key t a)) = length (filter (\<lambda>b. ent_str t b = ent_str t a) (concat css))) \<and>
     unat (nents t) = length (concat css)"

definition table_inv :: "(cstring \<Rightarrow> uint32) \<Rightarrow> table_rec \<Rightarrow> nat list list \<Rightarrow> bool" where
  "table_inv sh t css \<longleftrightarrow> chains_inv sh t css \<and> free_inv t css \<and> keys_inv t css"

text \<open>The iterators point to entries of the table.\<close>

definition iters_ok :: "table_rec \<Rightarrow> nat list list \<Rightarrow> bool" where
  "iters_ok t css \<longleftrightarrow> (\<forall>e \<in> {val_iter_ent t, cache_ent t}. e \<noteq> None \<longrightarrow> the e \<in> set (concat css))"

section \<open>Chains\<close>

lemma ent_okD:
  assumes "ent_ok sh t a"
  obtains e k kd p b where "map_of (ents t) a = Some e" "ekey e = Some k" "map_of (tkeys t) k = Some kd" "key_data kd = Some p"
    "map_of (objs t) p = Some b" "0 \<in> set b" "cstr b = ent_str t a" "khash kd = sh (ent_str t a)"
    "key_datasz kd = Suc (length (ent_str t a))" "e = ent t a" "kd = ent_key t a"
  using assms by (auto simp: ent_ok_def is_str_def)

lemma linked_segment: "linked t p as \<Longrightarrow> chain enext (ents t) p as"
  by (auto dest: dsegment_segment)

lemma linked_distinct: "linked t p as \<Longrightarrow> distinct as"
  using chain_distinct linked_segment by blast

lemma linked_length: "linked t p as \<Longrightarrow> length as \<le> length (ents t)"
  using chain_length linked_segment by blast

lemma chains_inv_index:
  assumes "chains_inv sh t css"
  shows "chain_of sh t s < length css" and "length css = length (chains t)" and "chain_index (sh s) t = Ok (sh s mod nchains t)"
    and "rd (chains t) (uint (sh s mod nchains t)) = Ok (chains t ! chain_of sh t s)"
proof -
  have n: "nchains t \<noteq> 0" "length (chains t) = unat (nchains t)" "length css = unat (nchains t)"
    using assms by (simp_all add: chains_inv_def)
  have "0 < unat (nchains t)" using n(1) by (simp add: unat_gt_0)
  then show i: "chain_of sh t s < length css" by (simp add: chain_of_def n(3) unat_mod)
  show l: "length css = length (chains t)" using n by simp
  show "chain_index (sh s) t = Ok (sh s mod nchains t)" using n by (simp add: chain_index_def)
  have u: "uint (sh s mod nchains t) = int (chain_of sh t s)" by (simp add: chain_of_def)
  show "rd (chains t) (uint (sh s mod nchains t)) = Ok (chains t ! chain_of sh t s)"
    unfolding u using i l by (simp add: rd_def)
qed

text \<open>What is stored under a string is in one chain.\<close>

lemma filter_concat:
  "(\<And>j x. j < length css \<Longrightarrow> j \<noteq> i \<Longrightarrow> x \<in> set (css ! j) \<Longrightarrow> \<not> P x) \<Longrightarrow> i < length css \<Longrightarrow> filter P (concat css) = filter P (css ! i)"
proof (induction css arbitrary: i)
  case (Cons c css)
  show ?case
  proof (cases i)
    case 0
    have "\<not> P x" if "j < length css" "x \<in> set (css ! j)" for j x using Cons.prems(1) [of "Suc j" x] that 0 by simp
    then have "\<forall>y \<in> set css. \<forall>x \<in> set y. \<not> P x" by (metis in_set_conv_nth)
    then show ?thesis using 0 by (auto simp: filter_empty_conv)
  next
    case (Suc i')
    have "\<not> P x" if "x \<in> set c" for x using Cons.prems(1) [of 0 x] that Suc by simp
    moreover have "\<not> P x" if "j < length css" "j \<noteq> i'" "x \<in> set (css ! j)" for j x
      using Cons.prems(1) [of "Suc j" x] that Suc by simp
    then have "filter P (concat css) = filter P (css ! i')" using Cons.IH Cons.prems(2) Suc by simp
    ultimately show ?thesis using Suc by (simp add: filter_empty_conv)
  qed
qed simp

lemma stored_chain:
  assumes "chains_inv sh t css"
  shows "filter (\<lambda>a. ent_str t a = s) (concat css) = filter (\<lambda>a. ent_str t a = s) (css ! chain_of sh t s)"
  by (rule filter_concat) (use assms chains_inv_index [OF assms] in \<open>auto simp: chains_inv_def\<close>)

section \<open>The callbacks\<close>

text \<open>Comparison and hashing agree on strings.\<close>

locale key_callbacks =
  fixes cmp :: cmp_op and hash :: hash_op and sh :: "cstring \<Rightarrow> uint32"
  assumes cmp_str: "0 \<in> set a \<Longrightarrow> 0 \<in> set b \<Longrightarrow> \<exists>r. cmp a n b m = Ok r \<and> (r = 0 \<longleftrightarrow> cstr a = cstr b)"
    and hash_str: "0 \<in> set a \<Longrightarrow> hash a (Suc (length (cstr a))) = Ok (sh (cstr a))"
begin

definition keyed :: "table_rec \<Rightarrow> bool" where
  "keyed t \<longleftrightarrow> keycmp t = cmp \<and> keyhash t = hash"

lemma hash_key_ok: "keyed t \<Longrightarrow> is_str t p s \<Longrightarrow> hash_key p (Suc (length s)) t = Ok (sh s)"
  using hash_str by (auto simp: hash_key_def keyed_def is_str_def)

lemma same_key_ok:
  assumes "keyed t" and "ent_ok sh t a" and "is_str t p s"
  shows "same_key (key_data (ent_key t a)) n p m t = Ok (ent_str t a = s)"
proof -
  obtain e k kd q b where "key_data kd = Some q" "map_of (objs t) q = Some b" "0 \<in> set b" "cstr b = ent_str t a" "kd = ent_key t a"
    using ent_okD [OF assms(2)] by metis
  moreover obtain c where "map_of (objs t) p = Some c" "0 \<in> set c" "cstr c = s" using assms(3) by (auto simp: is_str_def)
  ultimately show ?thesis using cmp_str [of b c n m] assms(1) by (auto simp: same_key_def keyed_def)
qed

text \<open>One step of the walk along a chain.\<close>

lemma find_ent_step:
  assumes "keyed t" and "ent_ok sh t a" and "is_str t p s"
  shows "find_ent (Suc k) (sh s) p (Suc (length s)) (Some a) t =
    (if ent_str t a = s then Ok (Some a) else find_ent k (sh s) p (Suc (length s)) (enext (ent t a)) t)"
proof -
  have "ent_at (Some a) t = Ok (ent t a)" "key_at (ekey (ent t a)) t = Ok (ent_key t a)" "khash (ent_key t a) = sh (ent_str t a)"
    using assms(2) by (auto simp: ent_ok_def ent_at_def key_at_def)
  then show ?thesis using same_key_ok [OF assms] by auto
qed

lemma find_ent_chain:
  assumes "keyed t" and "is_str t p s"
  shows "chain enext (ents t) q as \<Longrightarrow> \<forall>a \<in> set as. ent_ok sh t a \<Longrightarrow> length as \<le> k \<Longrightarrow>
    find_ent k (sh s) p (Suc (length s)) q t = Ok (case filter (\<lambda>a. ent_str t a = s) as of [] \<Rightarrow> None | a # _ \<Rightarrow> Some a)"
proof (induction as arbitrary: k q)
  case Nil
  then show ?case by (cases k) auto
next
  case (Cons a as)
  then obtain k' where k: "k = Suc k'" by (cases k) auto
  have a: "ent_ok sh t a" and q: "q = Some a" using Cons.prems by auto
  have "chain enext (ents t) (enext (ent t a)) as" using Cons.prems(1) by (auto simp: ent_def)
  then show ?case using find_ent_step [OF assms(1) a assms(2)] Cons k q by simp
qed

end

text \<open>Inserting and removing change links only.\<close>

definition relinked :: "tab_entry heap \<Rightarrow> tab_entry heap \<Rightarrow> bool" where
  "relinked es es' \<longleftrightarrow> (\<forall>x. map_option (\<lambda>e. e\<lparr>enext := None, eprev := None\<rparr>) (map_of es' x) =
     map_option (\<lambda>e. e\<lparr>enext := None, eprev := None\<rparr>) (map_of es x))"

definition same_outside :: "nat set \<Rightarrow> 'n heap \<Rightarrow> 'n heap \<Rightarrow> bool" where
  "same_outside A h h' \<longleftrightarrow> (\<forall>x. x \<notin> A \<longrightarrow> map_of h' x = map_of h x)"

text \<open>New entries go to the end of a chain, and the first entry of a chain can be removed.\<close>

locale chain_callbacks =
  fixes ins :: chain_op and rem :: chain_op
  assumes ins_append: "dsegment enext eprev es None (Some b) (b # as) l None \<Longrightarrow> a \<notin> set (b # as) \<Longrightarrow> map_of es a = Some n \<Longrightarrow>
      enext n = None \<Longrightarrow> \<exists>es' l'. ins (Some b) (Some a) es = Ok (Some b, es') \<and>
        dsegment enext eprev es' None (Some b) (b # as @ [a]) l' None \<and> relinked es es' \<and> same_outside (set (b # as @ [a])) es es'"
    and rem_head: "dsegment enext eprev es None (Some a) (a # as) l None \<Longrightarrow> \<exists>p es' l'. rem (Some a) (Some a) es = Ok (p, es') \<and>
        dsegment enext eprev es' None p as l' None \<and> relinked es es' \<and> same_outside (set (a # as)) es es'"

section \<open>The default callbacks\<close>

lemma strcmp_str: "0 \<in> set a \<Longrightarrow> 0 \<in> set b \<Longrightarrow> \<exists>r. strcmp a b = Ok r \<and> (r = 0 \<longleftrightarrow> cstr a = cstr b)"
  by (induction a b rule: strcmp.induct) (auto simp: cstr_def uint_0_iff dest: word_uint_eqI)

text \<open>Only the first character and the length matter for the hash.\<close>

lemma hash_loop_first: "b \<noteq> [] \<Longrightarrow> hash_loop n b i = hash_loop n [hd b] i \<and> (\<exists>h. hash_loop n b i = Ok h)"
proof (induction n arbitrary: i)
  case (Suc n)
  then show ?case using Suc.IH [of "i * 33 + scast (hd b)"] by (cases b) simp_all
qed simp

definition str_hash :: "cstring \<Rightarrow> uint32" where
  "str_hash s = (case hash_loop (Suc (length s)) (s @ [0]) 0 of Ok h \<Rightarrow> h | _ \<Rightarrow> 0)"

lemma key_hash_str:
  assumes "0 \<in> set b"
  shows "key_hash b (Suc (length (cstr b))) = Ok (str_hash (cstr b))"
proof -
  have b: "b \<noteq> []" "hd b = hd (cstr b @ [0])" using assms by (cases b; auto simp: cstr_def)+
  have "hash_loop n b 0 = hash_loop n (cstr b @ [0]) 0" for n
    using hash_loop_first [OF b(1), of n 0] hash_loop_first [of "cstr b @ [0]" n 0] b(2) by (metis snoc_eq_iff_butlast)
  moreover obtain h where "hash_loop (Suc (length (cstr b))) (cstr b @ [0]) 0 = Ok h"
    using hash_loop_first [of "cstr b @ [0]"] by blast
  ultimately show ?thesis by (simp add: key_hash_def str_hash_def)
qed

interpretation dk: key_callbacks key_cmp key_hash str_hash
  by unfold_locales (simp_all add: key_cmp_def strcmp_str key_hash_str)

lemma last_node_chain:
  "chain nxt h (Some a) (a # as) \<Longrightarrow> length (a # as) \<le> k \<Longrightarrow> last_node nxt k h a = Ok (last (a # as))"
proof (induction as arbitrary: a k)
  case Nil
  then show ?case by (cases k) auto
next
  case (Cons b as)
  then obtain k' where "k = Suc k'" by (cases k) auto
  then show ?case using Cons by auto
qed

lemma entry_insert_append:
  assumes "dsegment enext eprev es None (Some b) (b # as) l None" and "a \<notin> set (b # as)" and "map_of es a = Some n"
    and "enext n = None"
  shows "\<exists>es' l'. entry_insert (Some b) (Some a) es = Ok (Some b, es') \<and>
    dsegment enext eprev es' None (Some b) (b # as @ [a]) l' None \<and> relinked es es' \<and> same_outside (set (b # as @ [a])) es es'"
proof -
  have c: "chain enext es (Some b) (b # as)" using dsegment_segment [OF assms(1)] .
  obtain us c where uc: "b # as = us @ [c]" by (metis append_butlast_last_id list.discI)
  have d: "distinct (us @ [c])" using chain_distinct [OF c] uc by simp
  obtain m where m: "map_of es c = Some m" "enext m = None"
      "dsegment enext eprev es None (Some b) us (eprev m) (Some c)"
    using assms(1) unfolding uc by (auto simp: dsegment_append)
  have ca: "c \<noteq> a" "a \<notin> set us" using assms(2) uc by auto
  have w: "last_node enext (length es) es b = Ok c"
    using last_node_chain [OF c chain_length [OF c]] by (simp only: uc last_snoc)
  let ?es = "AList.update a (n\<lparr>eprev := Some c\<rparr>) (AList.update c (m\<lparr>enext := Some a\<rparr>) es)"
  have "entry_insert (Some b) (Some a) es = Ok (Some b, ?es)"
    using w m(1) assms(3) ca by (simp add: entry_insert_def update_conv')
  moreover have "dsegment enext eprev ?es None (Some b) us (eprev m) (Some c)"
    by (subst dsegment_cong [where h = es]) (use m(3) ca d in \<open>auto simp: update_conv'\<close>)
  then have "dsegment enext eprev ?es None (Some b) ((us @ [c]) @ [a]) (Some a) None"
    using ca assms(4) by (auto simp: dsegment_append update_conv')
  then have "dsegment enext eprev ?es None (Some b) (b # as @ [a]) (Some a) None" by (simp only: uc [symmetric] append_Cons)
  moreover have "relinked es ?es" using m assms(3,4) by (auto simp: relinked_def update_conv')
  moreover have "c \<in> set (b # as)" by (simp only: uc) simp
  then have "same_outside (set (b # as @ [a])) es ?es" by (auto simp: same_outside_def update_conv')
  ultimately show ?thesis by blast
qed

lemma entry_remove_head:
  assumes "dsegment enext eprev es None (Some a) (a # as) l None"
  shows "\<exists>p es' l'. entry_remove (Some a) (Some a) es = Ok (p, es') \<and>
    dsegment enext eprev es' None p as l' None \<and> relinked es es' \<and> same_outside (set (a # as)) es es'"
proof -
  obtain n where n: "map_of es a = Some n" "eprev n = None" "dsegment enext eprev es (Some a) (enext n) as l None"
    using assms by auto
  have d: "distinct (a # as)" using chain_distinct dsegment_segment [OF assms] by blast
  show ?thesis
  proof (cases as)
    case Nil
    let ?es = "AList.update a (n\<lparr>eprev := None, enext := None\<rparr>) es"
    have "entry_remove (Some a) (Some a) es = Ok (None, ?es)" using n Nil by (simp add: entry_remove_def)
    then show ?thesis using Nil n by (auto simp: relinked_def same_outside_def update_conv')
  next
    case (Cons b bs)
    then obtain m where m: "enext n = Some b" "map_of es b = Some m" "dsegment enext eprev es (Some b) (enext m) bs l None"
      using n(3) by auto
    let ?es = "AList.update a (n\<lparr>eprev := None, enext := None\<rparr>) (AList.update b (m\<lparr>eprev := None\<rparr>) es)"
    have ab: "a \<noteq> b" "a \<notin> set bs" "b \<notin> set bs" using d Cons by auto
    have "entry_remove (Some a) (Some a) es = Ok (Some b, ?es)" using n m ab by (simp add: entry_remove_def update_conv')
    moreover have "dsegment enext eprev ?es (Some b) (enext m) bs l None"
      by (subst dsegment_cong [where h = es]) (use m(3) ab in \<open>auto simp: update_conv'\<close>)
    then have "dsegment enext eprev ?es None (Some b) as l None" using Cons ab by (auto simp: update_conv')
    moreover have "relinked es ?es" "same_outside (set (a # as)) es ?es"
      using n m Cons by (auto simp: relinked_def same_outside_def update_conv')
    ultimately show ?thesis by blast
  qed
qed

interpretation dc: chain_callbacks entry_insert entry_remove
  by unfold_locales (use entry_insert_append entry_remove_head in blast)+

end
