(* ===== verification/Ftp_Lookup.thy ===== *)
theory Ftp_Lookup
  imports Ftp_Chain
begin

text \<open>
  Lookups in the hash table of proftpd: what \<open>pr_table_get\<close> and \<open>pr_table_exists\<close> return on every table with
  the invariant, the iterator and the cache included, and what \<open>pr_table_do\<close> visits.
\<close>

section \<open>Positions in a chain\<close>

abbreviation matches :: "table_rec \<Rightarrow> nat list list \<Rightarrow> cstring \<Rightarrow> nat list" where
  "matches t css s \<equiv> filter (\<lambda>a. ent_str t a = s) (concat css)"

definition onwards :: "nat \<Rightarrow> nat list \<Rightarrow> nat list" where
  "onwards a as = dropWhile (\<lambda>x. x \<noteq> a) as"

lemma onwards_filter: "distinct (us @ a # vs) \<Longrightarrow> P a \<Longrightarrow> onwards a (filter P (us @ a # vs)) = a # filter P vs"
proof -
  assume "distinct (us @ a # vs)" "P a"
  then have "\<forall>x \<in> set (filter P us). x \<noteq> a" by auto
  then show ?thesis using \<open>P a\<close> unfolding onwards_def by (simp add: dropWhile_append)
qed

lemma chain_from:
  assumes "linked t p (us @ a # vs)"
  shows "chain enext (ents t) (Some a) (a # vs)" and "chain enext (ents t) (enext (ent t a)) vs"
  using linked_segment [OF assms] by (auto simp: ent_def)

text \<open>A member of the table splits its chain.\<close>

lemma chains_inv_split:
  assumes "chains_inv sh t css" and "a \<in> set (concat css)"
  obtains us vs where "css ! chain_of sh t (ent_str t a) = us @ a # vs" and "linked t (chains t ! chain_of sh t (ent_str t a)) (us @ a # vs)"
    and "ent_ok sh t a" and "\<forall>b \<in> set (us @ a # vs). ent_ok sh t b"
proof -
  obtain i where i: "i < length css" "a \<in> set (css ! i)" using assms(2) by (metis UN_E in_set_conv_nth set_concat)
  then obtain us vs where "css ! i = us @ a # vs" by (meson split_list)
  moreover have "chain_of sh t (ent_str t a) = i" "ent_ok sh t a" "linked t (chains t ! i) (css ! i)" "\<forall>b \<in> set (css ! i). ent_ok sh t b"
    using assms(1) i by (auto simp: chains_inv_def)
  ultimately show ?thesis using that by metis
qed

lemma chains_inv_chain:
  assumes "chains_inv sh t css"
  shows "linked t (chains t ! chain_of sh t s) (css ! chain_of sh t s)" and "\<forall>b \<in> set (css ! chain_of sh t s). ent_ok sh t b"
  using assms chains_inv_index(1) [OF assms, of s] by (auto simp: chains_inv_def)

text \<open>The entries a lookup of \<open>s\<close> through the pointer \<open>p\<close> considers, in order: those behind the last one that was
  returned for the same pointer, or those from the cached one on (\<open>behind\<close>: behind the cached one), or all.\<close>

definition recall :: "ptr \<Rightarrow> nat \<Rightarrow> table_rec \<Rightarrow> bool" where
  "recall e p t \<longleftrightarrow> e \<noteq> None \<and> key_data (ent_key t (the e)) = Some p"

definition pending :: "bool \<Rightarrow> table_rec \<Rightarrow> nat list list \<Rightarrow> nat \<Rightarrow> cstring \<Rightarrow> nat list" where
  "pending behind t css p s =
     (if recall (val_iter_ent t) p t then tl (onwards (the (val_iter_ent t)) (matches t css s))
      else if flag PR_TABLE_FL_USE_CACHE t \<and> recall (cache_ent t) p t
        then (if behind then tl else (\<lambda>as. as)) (onwards (the (cache_ent t)) (matches t css s))
      else matches t css s)"

lemma ent_key_ok: "ent_ok sh t a \<Longrightarrow> ent_at (Some a) t = Ok (ent t a) \<and> key_of (Some a) t = Ok (ent_key t a)"
  by (auto simp: ent_ok_def key_of_def ent_at_def key_at_def)

lemma looked_up_ok:
  assumes "chains_inv sh t css" and "e \<noteq> None \<longrightarrow> the e \<in> set (concat css)"
  shows "looked_up e p t = Ok (recall e p t)"
proof (cases e)
  case (Some a)
  then have "ent_ok sh t a" using assms chains_inv_split by (metis option.sel option.discI)
  then show ?thesis using Some ent_key_ok by (simp add: looked_up_def recall_def)
qed (simp add: looked_up_def recall_def)

lemma recall_str:
  assumes "ent_ok sh t a" and "is_str t p s" and "key_data (ent_key t a) = Some p"
  shows "ent_str t a = s"
  using assms by (auto simp: ent_ok_def is_str_def)

lemma recall_split:
  assumes "chains_inv sh t css" and "iters_ok t css" and "is_str t p s" and "recall e p t" and "e \<in> {val_iter_ent t, cache_ent t}"
  shows "\<exists>us vs. css ! chain_of sh t s = us @ the e # vs \<and> linked t (chains t ! chain_of sh t s) (us @ the e # vs) \<and>
    ent_ok sh t (the e) \<and> (\<forall>b \<in> set (us @ the e # vs). ent_ok sh t b) \<and>
    onwards (the e) (matches t css s) = the e # filter (\<lambda>a. ent_str t a = s) vs"
proof -
  have m: "the e \<in> set (concat css)" using assms(2,4,5) by (auto simp: iters_ok_def recall_def)
  obtain us vs where u: "css ! chain_of sh t (ent_str t (the e)) = us @ the e # vs"
      "linked t (chains t ! chain_of sh t (ent_str t (the e))) (us @ the e # vs)" "ent_ok sh t (the e)" "\<forall>b \<in> set (us @ the e # vs). ent_ok sh t b"
    using chains_inv_split [OF assms(1) m] by blast
  have s: "ent_str t (the e) = s" using recall_str [OF u(3) assms(3)] assms(4) by (simp add: recall_def)
  have "onwards (the e) (filter (\<lambda>a. ent_str t a = s) (us @ the e # vs)) = the e # filter (\<lambda>a. ent_str t a = s) vs"
    by (rule onwards_filter) (use linked_distinct [OF u(2)] s in auto)
  then show ?thesis using u s stored_chain [OF assms(1), of s] by metis
qed

lemma unat_word: "unat (x :: 'a :: len word) = n \<Longrightarrow> x = word_of_nat n"
  by auto

lemma pending_subset: "set (pending behind t css p s) \<subseteq> set (concat css)"
proof -
  have "set (onwards a as) \<subseteq> set as" for a as by (auto simp: onwards_def dest: set_dropWhileD)
  moreover have "set (tl as) \<subseteq> set as" for as :: "nat list" by (cases as) auto
  ultimately have "set (onwards a (matches t css s)) \<subseteq> set (concat css)" "set (tl (onwards a (matches t css s))) \<subseteq> set (concat css)" for a
    by (meson filter_is_subset order_trans)+
  then show ?thesis by (simp only: pending_def split: if_split) (simp only: filter_is_subset simp_thms)
qed

lemma nents_zero: "table_inv sh t css \<Longrightarrow> nents t = 0 \<longleftrightarrow> concat css = []"
  by (simp only: table_inv_def keys_inv_def) (metis length_0_conv unat_eq_zero)

lemma strlen_cstr: "0 \<in> set b \<Longrightarrow> strlen b = Ok (length (cstr b))"
  by (induction b) (auto simp: cstr_def)

lemma strlen_at_str: "is_str t p s \<Longrightarrow> strlen_at p t = Ok (length s)"
  by (auto simp: strlen_at_def is_str_def strlen_cstr)

context key_callbacks
begin

lemma find_in_chain:
  assumes "keyed t" and "is_str t p s" and "chain enext (ents t) q as" and "\<forall>b \<in> set as. ent_ok sh t b"
  shows "find_ent (length (ents t)) (sh s) p (Suc (length s)) q t =
    Ok (case filter (\<lambda>a. ent_str t a = s) as of [] \<Rightarrow> None | a # _ \<Rightarrow> Some a)"
  using find_ent_chain [OF assms(1,2,3,4)] chain_length [OF assms(3)] by simp

lemma find_pending:
  assumes "keyed t" and "chains_inv sh t css" and "iters_ok t css" and "is_str t p s"
  shows "\<exists>head. lookup_head behind (sh s) p t = Ok head \<and>
    (head = None \<longrightarrow> pending behind t css p s = []) \<and>
    find_ent (length (ents t)) (sh s) p (Suc (length s)) head t =
      Ok (case pending behind t css p s of [] \<Rightarrow> None | a # _ \<Rightarrow> Some a)"
proof -
  have it: "looked_up (val_iter_ent t) p t = Ok (recall (val_iter_ent t) p t)" "looked_up (cache_ent t) p t = Ok (recall (cache_ent t) p t)"
    using assms(2,3) looked_up_ok by (auto simp: iters_ok_def)
  have m: "matches t css s = filter (\<lambda>a. ent_str t a = s) (css ! chain_of sh t s)" by (rule stored_chain [OF assms(2)])
  consider (again) "recall (val_iter_ent t) p t" | (hit) "\<not> recall (val_iter_ent t) p t" "flag PR_TABLE_FL_USE_CACHE t" "recall (cache_ent t) p t"
    | (start) "\<not> recall (val_iter_ent t) p t" "\<not> (flag PR_TABLE_FL_USE_CACHE t \<and> recall (cache_ent t) p t)" by blast
  then show ?thesis
  proof cases
    case again
    obtain us vs where u: "css ! chain_of sh t s = us @ the (val_iter_ent t) # vs"
        "linked t (chains t ! chain_of sh t s) (us @ the (val_iter_ent t) # vs)" "ent_ok sh t (the (val_iter_ent t))"
        "\<forall>b \<in> set (us @ the (val_iter_ent t) # vs). ent_ok sh t b"
      and f: "onwards (the (val_iter_ent t)) (matches t css s) = the (val_iter_ent t) # filter (\<lambda>a. ent_str t a = s) vs"
      using recall_split [OF assms(2,3,4)] again by blast
    then have "pending behind t css p s = filter (\<lambda>a. ent_str t a = s) vs" using again f by (simp add: pending_def)
    moreover have "lookup_head behind (sh s) p t = Ok (enext (ent t (the (val_iter_ent t))))"
      using again it ent_key_ok [OF u(3)] by (cases "val_iter_ent t") (simp_all add: lookup_head_def recall_def)
    moreover note find_in_chain [OF assms(1,4) chain_from(2) [OF u(2)]]
    ultimately show ?thesis using u(4) chain_from(2) [OF u(2)] by (cases vs) auto
  next
    case hit
    obtain us vs where u: "css ! chain_of sh t s = us @ the (cache_ent t) # vs"
        "linked t (chains t ! chain_of sh t s) (us @ the (cache_ent t) # vs)" "ent_ok sh t (the (cache_ent t))"
        "\<forall>b \<in> set (us @ the (cache_ent t) # vs). ent_ok sh t b"
      and f: "onwards (the (cache_ent t)) (matches t css s) = the (cache_ent t) # filter (\<lambda>a. ent_str t a = s) vs"
      using recall_split [OF assms(2,3,4)] hit by blast
    have c: "cache_ent t = Some (the (cache_ent t))" using hit by (simp add: recall_def)
    have h: "lookup_head behind (sh s) p t = Ok (if behind then enext (ent t (the (cache_ent t))) else cache_ent t)"
      using hit it ent_key_ok [OF u(3)] c by (simp add: lookup_head_def cached_def)
    show ?thesis
    proof (cases behind)
      case True
      then have "pending behind t css p s = filter (\<lambda>a. ent_str t a = s) vs" using hit f by (simp add: pending_def)
      moreover note find_in_chain [OF assms(1,4) chain_from(2) [OF u(2)]]
      ultimately show ?thesis using True h u(4) chain_from(2) [OF u(2)] by (cases vs) auto
    next
      case False
      have "ent_str t (the (cache_ent t)) = s" using recall_str [OF u(3) assms(4)] hit(3) by (simp add: recall_def)
      then have "pending behind t css p s = filter (\<lambda>a. ent_str t a = s) (the (cache_ent t) # vs)" using False hit f by (simp add: pending_def)
      moreover have "chain enext (ents t) (cache_ent t) (the (cache_ent t) # vs)" using chain_from(1) [OF u(2)] c by metis
      moreover note find_in_chain [OF assms(1,4) this]
      ultimately show ?thesis using False h u(4) c by auto
    qed
  next
    case start
    then have "pending behind t css p s = filter (\<lambda>a. ent_str t a = s) (css ! chain_of sh t s)" by (auto simp: pending_def m)
    moreover have "lookup_head behind (sh s) p t = Ok (chains t ! chain_of sh t s)"
      using start it chains_inv_index(3,4) [OF assms(2), of s] by (auto simp: lookup_head_def cached_def)
    moreover have c: "chain enext (ents t) (chains t ! chain_of sh t s) (css ! chain_of sh t s)"
      using linked_segment [OF chains_inv_chain(1) [OF assms(2)]] .
    moreover note find_in_chain [OF assms(1,4) c chains_inv_chain(2) [OF assms(2)]]
    ultimately show ?thesis by (cases "css ! chain_of sh t s") auto
  qed
qed

lemma get_pending:
  assumes "keyed t" and "table_inv sh t css" and "iters_ok t css" and "is_str t p s"
  shows "pr_table_get (Some p) (Some t) = Ok (case pending False t css p s of
      [] \<Rightarrow> ((None, None), Some ENOENT, Some (forget t))
    | a # _ \<Rightarrow> ((fst (ent_val t a), Some (snd (ent_val t a))), None, Some ((cache (Some a) t)\<lparr>val_iter_ent := Some a\<rparr>)))"
proof -
  have c: "chains_inv sh t css" using assms(2) by (simp add: table_inv_def)
  obtain head where h: "lookup_head False (sh s) p t = Ok head" "head = None \<longrightarrow> pending False t css p s = []"
      "find_ent (length (ents t)) (sh s) p (Suc (length s)) head t = Ok (case pending False t css p s of [] \<Rightarrow> None | a # _ \<Rightarrow> Some a)"
    using find_pending [OF assms(1) c assms(3,4)] by blast
  show ?thesis
  proof (cases "pending False t css p s")
    case Nil
    then show ?thesis using h hash_key_ok [OF assms(1,4)] strlen_at_str [OF assms(4)]
      by (auto simp: pr_table_get_def on_table_def pr_table_kget_from_def)
  next
    case (Cons a as)
    then have a: "a \<in> set (concat css)" using pending_subset by (metis list.set_intros(1) subsetD)
    then have n: "nents t \<noteq> 0" using assms(2) nents_zero by (metis empty_iff list.set(1))
    have "ent_at (Some a) t = Ok (ent t a)" using chains_inv_split [OF c a] ent_key_ok by blast
    then show ?thesis using h hash_key_ok [OF assms(1,4)] strlen_at_str [OF assms(4)] Cons n
      by (cases head) (auto simp: pr_table_get_def on_table_def pr_table_kget_from_def ent_val_def)
  qed
qed

lemma set_pending:
  assumes "keyed t" and "table_inv sh t css" and "iters_ok t css" and "is_str t p s"
  shows "\<exists>e \<in> {ENOENT, EINVAL}. pr_table_set (Some p) (Some v) vsz (Some t) = Ok (case pending True t css p s of
      [] \<Rightarrow> (- 1, Some e, Some (if nents t = 0 then t else forget t))
    | a # _ \<Rightarrow> if value_data (ent t a) = Some v then (- 1, Some EEXIST, Some t) else (0, None, Some
        ((cache (Some a) (t\<lparr>ents := AList.update a ((ent t a)\<lparr>value_data := Some v, value_datasz := vsz\<rparr>) (ents t)\<rparr>))\<lparr>val_iter_ent := Some a\<rparr>)))"
proof -
  have c: "chains_inv sh t css" using assms(2) by (simp add: table_inv_def)
  obtain head where h: "lookup_head True (sh s) p t = Ok head" "head = None \<longrightarrow> pending True t css p s = []"
      "find_ent (length (ents t)) (sh s) p (Suc (length s)) head t = Ok (case pending True t css p s of [] \<Rightarrow> None | a # _ \<Rightarrow> Some a)"
    using find_pending [OF assms(1) c assms(3,4)] by blast
  show ?thesis
  proof (cases "pending True t css p s")
    case Nil
    then show ?thesis using h hash_key_ok [OF assms(1,4)] strlen_at_str [OF assms(4)]
      by (auto simp: pr_table_set_def on_table_def pr_table_kset_in_def)
  next
    case (Cons a as)
    then have a: "a \<in> set (concat css)" using pending_subset by (metis list.set_intros(1) subsetD)
    then have n: "nents t \<noteq> 0" using assms(2) nents_zero by (metis empty_iff list.set(1))
    have "ent_ok sh t a" using chains_inv_split [OF c a] by blast
    then have "ent_at (Some a) t = Ok (ent t a)" "map_of (ents t) a = Some (ent t a)" using ent_key_ok by (auto simp: ent_ok_def)
    then show ?thesis using h hash_key_ok [OF assms(1,4)] strlen_at_str [OF assms(4)] Cons n
      by (cases head) (auto simp: pr_table_set_def on_table_def pr_table_kset_in_def set_ent_def)
  qed
qed

lemma exists_count:
  assumes "keyed t" and "table_inv sh t css" and "iters_ok t css" and "is_str t p s"
  shows "\<exists>e c. pr_table_exists (Some p) (Some t) =
      Ok (if concat css = [] then - 1 else sint (word_of_nat (length (matches t css s)) :: uint32), e, Some (t\<lparr>cache_ent := c\<rparr>)) \<and>
    (c \<noteq> None \<longrightarrow> the c \<in> set (concat css))"
proof -
  have c: "chains_inv sh t css" and k: "keys_inv t css" using assms(2) by (simp_all add: table_inv_def)
  have cnt: "knents (ent_key t a) = word_of_nat (length (matches t css s))" if "a \<in> set (concat css)" "ent_str t a = s" for a
  proof -
    have "unat (knents (ent_key t a)) = length (matches t css s)" using k that by (simp only: keys_inv_def)
    then show ?thesis by (rule unat_word)
  qed
  have z: "nents t = 0 \<longleftrightarrow> concat css = []" using nents_zero assms(2) by blast
  have it: "looked_up (cache_ent t) p t = Ok (recall (cache_ent t) p t)" using c assms(3) looked_up_ok by (auto simp: iters_ok_def)
  note base = hash_key_ok [OF assms(1,4)] strlen_at_str [OF assms(4)] chains_inv_index(3,4) [OF c, of s] z
  consider (empty) "concat css = []" | (hit) "concat css \<noteq> []" "flag PR_TABLE_FL_USE_CACHE t" "recall (cache_ent t) p t"
    | (search) "concat css \<noteq> []" "\<not> (flag PR_TABLE_FL_USE_CACHE t \<and> recall (cache_ent t) p t)" by blast
  then show ?thesis
  proof cases
    case empty
    then show ?thesis using base assms(3)
      by (intro exI [of _ "Some ENOENT"] exI [of _ "cache_ent t"])
        (simp add: pr_table_exists_def on_table_def pr_table_kexists_in_def iters_ok_def)
  next
    case hit
    then obtain a where a: "cache_ent t = Some a" "a \<in> set (concat css)" using assms(3) by (cases "cache_ent t") (simp_all del: set_concat add: recall_def iters_ok_def)
    then have "ent_ok sh t a" using chains_inv_split [OF c] by blast
    then have "key_of (Some a) t = Ok (ent_key t a)" "ent_str t a = s" using ent_key_ok recall_str assms(4) hit(3) a(1) by (auto simp: recall_def)
    then show ?thesis using a hit base it cnt [OF a(2)]
      by (intro exI [of _ "None :: errno option"] exI [of _ "cache_ent t"]) (auto simp: pr_table_exists_def on_table_def pr_table_kexists_in_def cached_def)
  next
    case search
    let ?q = "chains t ! chain_of sh t s" and ?as = "css ! chain_of sh t s"
    have f: "find_ent (length (ents t)) (sh s) p (Suc (length s)) ?q t = Ok (case matches t css s of [] \<Rightarrow> None | a # _ \<Rightarrow> Some a)"
      using find_in_chain [OF assms(1,4) linked_segment [OF chains_inv_chain(1) [OF c]] chains_inv_chain(2) [OF c]] stored_chain [OF c] by simp
    have q: "?q = None \<Longrightarrow> matches t css s = []" using chains_inv_chain(1) [OF c, of s] stored_chain [OF c, of s] by (cases ?as) auto
    have h: "cached p t = Ok False" using search it by (auto simp: cached_def)
    show ?thesis
    proof (cases "matches t css s")
      case Nil
      then show ?thesis using search base h f
        by (intro exI [of _ "if ?q = None then None else Some EINVAL"] exI [of _ "None :: ptr"])
          (cases ?q; simp del: concat_eq_Nil_conv add: pr_table_exists_def on_table_def pr_table_kexists_in_def)
    next
      case (Cons a as)
      have "a \<in> set (matches t css s)" by (subst Cons) simp
      then have a: "a \<in> set (concat css)" "ent_str t a = s" by simp_all
      then have "key_of (Some a) t = Ok (ent_key t a)" using chains_inv_split [OF c] ent_key_ok by metis
      moreover obtain b where "?q = Some b" using q Cons by (cases ?q) auto
      moreover have "the c \<in> set (concat css)" if "c \<noteq> None" "c = (if flag PR_TABLE_FL_USE_CACHE t then Some a else cache_ent t)" for c
        using that a assms(3) by (simp del: set_concat add: iters_ok_def split: if_splits)
      moreover have "cache (Some a) t = t\<lparr>cache_ent := if flag PR_TABLE_FL_USE_CACHE t then Some a else cache_ent t\<rparr>" by (simp add: cache_def)
      ultimately show ?thesis using search base h f Cons cnt [OF a]
        by (intro exI [of _ "None :: errno option"] exI [of _ "if flag PR_TABLE_FL_USE_CACHE t then Some a else cache_ent t"])
          (simp del: concat_eq_Nil_conv set_concat add: pr_table_exists_def on_table_def pr_table_kexists_in_def)
    qed
  qed
qed

end

section \<open>Visiting every entry\<close>

text \<open>What \<open>pr_table_do\<close> calls, as a fold over the entries that stops at the first negative result.\<close>

primrec visit :: "'u callback \<Rightarrow> bool \<Rightarrow> table_rec \<Rightarrow> nat list \<Rightarrow> 'u \<Rightarrow> bool \<times> 'u" where
  "visit cb fl t [] u = (False, u)"
| "visit cb fl t (a # as) u =
     (let (r, u) = cb (key_data (ent_key t a)) (key_datasz (ent_key t a)) (fst (ent_val t a)) (snd (ent_val t a)) u
      in if r < 0 \<and> \<not> fl then (True, u) else visit cb fl t as u)"

lemma visit_append: "visit cb fl t (as @ bs) u = (let (stop, u) = visit cb fl t as u in if stop then (True, u) else visit cb fl t bs u)"
proof (induction as arbitrary: u)
  case (Cons a as)
  obtain r u' where "cb (key_data (ent_key t a)) (key_datasz (ent_key t a)) (fst (ent_val t a)) (snd (ent_val t a)) u = (r, u')" by fastforce
  then show ?case using Cons.IH [of u'] by simp
qed simp

lemma do_chain_visit:
  "chain enext (ents t) q as \<Longrightarrow> \<forall>a \<in> set as. ent_ok sh t a \<Longrightarrow> length as \<le> k \<Longrightarrow> do_chain k cb fl q t u = Ok (visit cb fl t as u)"
proof (induction as arbitrary: k q u)
  case Nil
  then show ?case by (cases k) auto
next
  case (Cons a as)
  then obtain k' where k: "k = Suc k'" by (cases k) auto
  have "chain enext (ents t) (enext (ent t a)) as" and q: "q = Some a" using Cons.prems(1) by (auto simp: ent_def)
  then have "do_chain k' cb fl (enext (ent t a)) t u' = Ok (visit cb fl t as u')" for u' using Cons k by simp
  moreover have "ent_at (Some a) t = Ok (ent t a)" "key_at (ekey (ent t a)) t = Ok (ent_key t a)"
    using Cons.prems(2) by (auto simp: ent_ok_def ent_at_def key_at_def)
  ultimately show ?case using k q by (auto simp: ent_val_def Let_def split: prod.split)
qed

lemma do_chains_visit:
  assumes "chains_inv sh t css"
  shows "i + n = length css \<Longrightarrow> do_chains n i cb fl t u = Ok (visit cb fl t (concat (drop i css)) u)"
proof (induction n arbitrary: i u)
  case (Suc n)
  then have i: "i < length css" "drop i css = css ! i # drop (Suc i) css" by (simp_all add: Cons_nth_drop_Suc)
  then have "chain enext (ents t) (chains t ! i) (css ! i)" "\<forall>a \<in> set (css ! i). ent_ok sh t a" "i < length (chains t)"
    using assms linked_segment by (auto simp: chains_inv_def)
  then have "rd (chains t) (int i) = Ok (chains t ! i)" "do_chain (length (ents t)) cb fl (chains t ! i) t u = Ok (visit cb fl t (css ! i) u)"
    using do_chain_visit [of t "chains t ! i" "css ! i" sh "length (ents t)"] chain_length [of enext "ents t"] by (auto simp: rd_def)
  then show ?case using Suc i(2) by (auto simp: visit_append Let_def split: prod.split)
qed simp

end
