(* ===== verification/Ftp_Update.thy ===== *)
theory Ftp_Update
  imports Ftp_Lookup
begin

text \<open>
  Additions to and removals from the hash table of proftpd: allocation of entries and keys from the free
  lists, the search for the key, the insertion, and the removal of the first entry of a chain. Each
  operation is shown to keep the invariant and to have its effect on the values stored under each string.
\<close>

section \<open>Frames\<close>

lemma ent_frame:
  assumes "map_of (ents t') a = map_of (ents t) a" and "tkeys t' = tkeys t" and "objs t' = objs t"
  shows "ent t' a = ent t a" and "ent_key t' a = ent_key t a" and "ent_str t' a = ent_str t a" and "ent_ok sh t' a = ent_ok sh t a"
    and "ent_val t' a = ent_val t a"
proof -
  show e: "ent t' a = ent t a" using assms(1) by (simp add: ent_def)
  show k: "ent_key t' a = ent_key t a" using e assms(2) by (simp add: ent_key_def)
  show s: "ent_str t' a = ent_str t a" using k assms(3) by (simp add: ent_str_def)
  show "ent_ok sh t' a = ent_ok sh t a" using e k s assms by (simp add: ent_ok_def is_str_def)
  show "ent_val t' a = ent_val t a" using e by (simp add: ent_val_def)
qed

lemma chains_inv_ent_ok: "chains_inv sh t css \<Longrightarrow> a \<in> set (concat css) \<Longrightarrow> ent_ok sh t a"
  using chains_inv_split by blast

lemma concat_update:
  assumes "i < length css"
  shows "set (concat (css[i := as])) \<subseteq> set (concat css) \<union> set as"
    and "length (concat (css[i := as])) + length (css ! i) = length (concat css) + length as"
    and "set (css ! i) \<subseteq> set as \<Longrightarrow> set (concat (css[i := as])) = set (concat css) \<union> set as"
proof -
  obtain xs ys where c: "css = xs @ css ! i # ys" and i: "length xs = i"
    using id_take_nth_drop [OF assms] assms by (metis length_take min.absorb4)
  have u: "css[i := as] = xs @ as # ys" by (subst c) (simp add: i [symmetric])
  have l: "length (concat css) = length (concat xs) + length (css ! i) + length (concat ys)" by (subst c) simp
  have s: "set (concat css) = set (concat xs) \<union> set (css ! i) \<union> set (concat ys)" by (subst c) (simp add: Un_assoc)
  show "set (concat (css[i := as])) \<subseteq> set (concat css) \<union> set as" unfolding u s by auto
  show "length (concat (css[i := as])) + length (css ! i) = length (concat css) + length as" unfolding u l by simp
  show "set (concat (css[i := as])) = set (concat css) \<union> set as" if "set (css ! i) \<subseteq> set as" unfolding u s using that by auto
qed

lemma set_chain_subset: "i < length css \<Longrightarrow> set (css ! i) \<subseteq> set (concat css)"
  by (auto dest: nth_mem)

lemma concat_append:
  "i < length css \<Longrightarrow> set (concat (css[i := css ! i @ as])) = set (concat css) \<union> set as"
  using concat_update(3) [of i css "css ! i @ as"] set_chain_subset [of i css] by (auto simp del: set_concat)

text \<open>An entry keeps its string when its key keeps its data.\<close>

lemma ent_ok_transfer:
  assumes "ent_ok sh t a" and "map_of (ents t') a = Some (ent t' a)" and "ekey (ent t' a) = ekey (ent t a)" and "objs t' = objs t"
    and "map_of (tkeys t') (the (ekey (ent t a))) = Some d" and "d\<lparr>knents := 0, knext := None\<rparr> = (ent_key t a)\<lparr>knents := 0, knext := None\<rparr>"
  shows "ent_ok sh t' a \<and> ent_str t' a = ent_str t a \<and> ent_key t' a = d"
proof -
  have k: "ent_key t' a = d" using assms(3,5) by (simp add: ent_key_def)
  have d: "key_data d = key_data (ent_key t a)" "key_datasz d = key_datasz (ent_key t a)" "khash d = khash (ent_key t a)"
    using arg_cong [OF assms(6), of key_data] arg_cong [OF assms(6), of key_datasz] arg_cong [OF assms(6), of khash] by simp_all
  have s: "ent_str t' a = ent_str t a" using k d assms(4) by (simp add: ent_str_def)
  show ?thesis using assms(1-5) k d s by (auto simp: ent_ok_def is_str_def)
qed

text \<open>The invariant depends on the links and keys of the entries in the chains, on the keys and on the free lists.\<close>

lemma table_inv_fields:
  assumes "table_inv sh t css"
    and e: "\<And>a. a \<in> set (concat css) \<Longrightarrow> map_of (ents t') a = Some (ent t' a) \<and> enext (ent t' a) = enext (ent t a) \<and>
      eprev (ent t' a) = eprev (ent t a) \<and> idx (ent t' a) = idx (ent t a) \<and> ekey (ent t' a) = ekey (ent t a)"
    and s: "tkeys t' = tkeys t" "objs t' = objs t" "nchains t' = nchains t" "chains t' = chains t" "nents t' = nents t" "free_keys t' = free_keys t"
    and "\<exists>fs. spare_ents (ents t') (free_ents t') fs (set (concat css))"
  shows "table_inv sh t' css \<and> (\<forall>a \<in> set (concat css). ent_str t' a = ent_str t a)"
proof -
  have c: "chains_inv sh t css" and f: "free_inv t css" and k: "keys_inv t css" using assms(1) by (simp_all add: table_inv_def)
  have fr: "ent_ok sh t' a" "ent_str t' a = ent_str t a" "ent_key t' a = ent_key t a" "map_of (ents t) a = Some (ent t a)" if a: "a \<in> set (concat css)" for a
  proof -
    have ok: "ent_ok sh t a" using chains_inv_ent_ok [OF c a] .
    then have "map_of (tkeys t') (the (ekey (ent t a))) = Some (ent_key t a)" using s(1) by (auto simp: ent_ok_def)
    then show "ent_ok sh t' a" "ent_str t' a = ent_str t a" "ent_key t' a = ent_key t a"
      using ent_ok_transfer [OF ok _ _ s(2)] e [OF a] by blast+
    show "map_of (ents t) a = Some (ent t a)" using ok by (simp add: ent_ok_def)
  qed
  have L: "linked t' (chains t ! i) (css ! i)" if i: "i < length css" for i
  proof -
    obtain l where l: "dsegment enext eprev (ents t) None (chains t ! i) (css ! i) l None" using c i unfolding chains_inv_def by blast
    have M: "map_option (\<lambda>n. (eprev n, enext n)) (map_of (ents t') a) = map_option (\<lambda>n. (eprev n, enext n)) (map_of (ents t) a)"
      if "a \<in> set (css ! i)" for a
    proof -
      have a: "a \<in> set (concat css)" using that set_chain_subset [OF i] by blast
      show ?thesis using e [OF a] fr(4) [OF a] by simp
    qed
    show ?thesis using l dsegment_links [of "css ! i" eprev enext "ents t'" "ents t", OF M] by blast
  qed
  have O: "ent_ok sh t' a \<and> idx (ent t' a) = word_of_nat i \<and> chain_of sh t' (ent_str t' a) = i" if "i < length css" "a \<in> set (css ! i)" for i a
  proof -
    have a: "a \<in> set (concat css)" using that set_chain_subset by blast
    have "idx (ent t a) = word_of_nat i \<and> chain_of sh t (ent_str t a) = i" using c that unfolding chains_inv_def by blast
    then show ?thesis using fr [OF a] e [OF a] s(3) by (simp add: chain_of_def)
  qed
  have B: "nchains t' \<noteq> 0 \<and> length (chains t') = unat (nchains t') \<and> length css = unat (nchains t')"
    unfolding s(3,4) using c unfolding chains_inv_def by blast
  have "chains_inv sh t' css" unfolding chains_inv_def using B [unfolded s(4)] L O s(4) by metis
  moreover have "(ekey \<circ> ent t') ` set (concat css) = (ekey \<circ> ent t) ` set (concat css)" by (rule image_cong) (simp_all add: e)
  then have "free_inv t' css" using f assms(9) s unfolding free_inv_def by simp
  moreover have m: "filter (\<lambda>a. ent_str t' a = x) (concat css) = filter (\<lambda>a. ent_str t a = x) (concat css)" for x
    by (rule filter_cong) (simp_all add: fr(2))
  have "keys_inv t' css"
    unfolding keys_inv_def m s(5)
  proof (intro conjI ballI impI)
    fix a b assume "a \<in> set (concat css)" "b \<in> set (concat css)" "ent_str t' a = ent_str t' b"
    then show "ekey (ent t' a) = ekey (ent t' b)" using k fr(2) e unfolding keys_inv_def by metis
  next
    fix a assume "a \<in> set (concat css)"
    then show "unat (knents (ent_key t' a)) = length (matches t css (ent_str t' a))" using k fr(2,3) unfolding keys_inv_def by metis
  qed (use k in \<open>simp add: keys_inv_def\<close>)
  ultimately show ?thesis using fr(2) by (simp add: table_inv_def)
qed

lemma table_inv_frame:
  assumes "table_inv sh t css" and e: "\<And>a. a \<in> set (concat css) \<Longrightarrow> map_of (ents t') a = map_of (ents t) a"
    and s: "tkeys t' = tkeys t" "objs t' = objs t" "nchains t' = nchains t" "chains t' = chains t" "nents t' = nents t" "free_keys t' = free_keys t"
    and "\<exists>fs. spare_ents (ents t') (free_ents t') fs (set (concat css))"
  shows "table_inv sh t' css \<and> (\<forall>s. stored t' css s = stored t css s)"
proof -
  note fr = ent_frame [OF e s(1,2)]
  have "map_of (ents t') a = Some (ent t' a)" if a: "a \<in> set (concat css)" for a
  proof -
    have "ent_ok sh t a" using chains_inv_ent_ok [OF _ a] assms(1) unfolding table_inv_def by blast
    then show ?thesis using fr(1) [OF a] e [OF a] by (simp add: ent_ok_def)
  qed
  then have "table_inv sh t' css" using table_inv_fields [OF assms(1) _ s assms(9)] fr(1) by simp
  moreover have "filter (\<lambda>a. ent_str t' a = x) (concat css) = filter (\<lambda>a. ent_str t a = x) (concat css)" for x
    by (rule filter_cong) (simp_all add: fr(3))
  then have "stored t' css x = stored t css x" for x
    unfolding stored_def by (simp only:) (rule map_cong, auto simp: fr(5) simp del: set_concat)
  ultimately show ?thesis by blast
qed

section \<open>Allocation\<close>

lemma spare_ents_frame:
  "spare_ents es p fs A \<Longrightarrow> (\<And>a. a \<in> set fs \<Longrightarrow> map_of es' a = map_of es a) \<Longrightarrow> set fs \<inter> B = {} \<Longrightarrow> spare_ents es' p fs B"
  using segment_cong [of fs es es' enext p None] by (auto simp: spare_ents_def)

lemma spare_keys_frame:
  "spare_keys h p ks K \<Longrightarrow> (\<And>k. k \<in> set ks \<Longrightarrow> map_of h' k = map_of h k) \<Longrightarrow> (\<And>k. k \<in> set ks \<Longrightarrow> Some k \<notin> K') \<Longrightarrow> spare_keys h' p ks K'"
  using segment_cong [of ks h h' knext p None] by (auto simp: spare_keys_def)

lemma tab_entry_alloc_ok:
  assumes "spare_ents (ents t) (free_ents t) fs A" and "\<forall>a \<in> A. map_of (ents t) a \<noteq> None"
  shows "\<exists>n e0 es q fs'. tab_entry_alloc t = Ok (Some n, t\<lparr>ents := es, free_ents := q\<rparr>) \<and> map_of es n = Some e0 \<and>
    enext e0 = None \<and> eprev e0 = None \<and> ekey e0 = None \<and> n \<notin> A \<and> (\<forall>x. x \<noteq> n \<longrightarrow> map_of es x = map_of (ents t) x) \<and>
    spare_ents es q fs' (insert n A)"
proof (cases fs)
  case Nil
  let ?n = "fresh (ents t)" and ?es = "AList.update (fresh (ents t)) zero_entry (ents t)"
  have f: "free_ents t = None" using assms(1) Nil by (simp add: spare_ents_def)
  then have "tab_entry_alloc t = Ok (Some ?n, t\<lparr>ents := ?es, free_ents := free_ents t\<rparr>)" by (simp add: tab_entry_alloc_def Let_def)
  moreover have "?n \<notin> A" using assms(2) fresh_new by metis
  moreover have "spare_ents ?es (free_ents t) [] (insert ?n A)" using f by (simp add: spare_ents_def)
  ultimately show ?thesis
    by (intro exI [of _ ?n] exI [of _ zero_entry] exI [of _ ?es] exI [of _ "free_ents t"] exI [of _ "[]"]) (simp add: update_conv' zero_entry_def)
next
  case (Cons n fs')
  then obtain x where x: "free_ents t = Some n" "map_of (ents t) n = Some x" "chain enext (ents t) (enext x) fs'" "ekey x = None" "eprev x = None"
    using assms(1) by (auto simp: spare_ents_def)
  have n: "n \<notin> set fs'" "n \<notin> A"
    using assms(1) Cons chain_distinct [of enext "ents t" "free_ents t" fs] by (auto simp: spare_ents_def)
  let ?es = "AList.update n (x\<lparr>enext := None\<rparr>) (ents t)"
  have "tab_entry_alloc t = Ok (Some n, t\<lparr>ents := ?es, free_ents := enext x\<rparr>)"
    using x by (simp add: tab_entry_alloc_def Let_def ent_at_def set_ent_def)
  moreover have "spare_ents (ents t) (enext x) fs' A" using assms(1) Cons x(3) by (auto simp: spare_ents_def)
  then have "spare_ents ?es (enext x) fs' (insert n A)"
    by (rule spare_ents_frame) (use n assms(1) Cons in \<open>auto simp: update_conv' spare_ents_def\<close>)
  ultimately show ?thesis using x n
    by (intro exI [of _ n] exI [of _ "x\<lparr>enext := None\<rparr>"] exI [of _ ?es] exI [of _ "enext x"] exI [of _ fs']) (simp add: update_conv')
qed

lemma tab_key_alloc_ok:
  assumes "spare_keys (tkeys t) (free_keys t) ks K" and "\<forall>k. Some k \<in> K \<longrightarrow> map_of (tkeys t) k \<noteq> None"
  shows "\<exists>k d h q ks'. tab_key_alloc t = Ok (Some k, t\<lparr>tkeys := h, free_keys := q\<rparr>) \<and> map_of h k = Some d \<and>
    Some k \<notin> K \<and> (\<forall>x. x \<noteq> k \<longrightarrow> map_of h x = map_of (tkeys t) x) \<and> spare_keys h q ks' (insert (Some k) K)"
proof (cases ks)
  case Nil
  let ?k = "fresh (tkeys t)" and ?h = "AList.update (fresh (tkeys t)) zero_key (tkeys t)"
  have f: "free_keys t = None" using assms(1) Nil by (simp add: spare_keys_def)
  then have "tab_key_alloc t = Ok (Some ?k, t\<lparr>tkeys := ?h, free_keys := free_keys t\<rparr>)" by (simp add: tab_key_alloc_def Let_def)
  moreover have "Some ?k \<notin> K" using assms(2) fresh_new by metis
  moreover have "spare_keys ?h (free_keys t) [] (insert (Some ?k) K)" using f by (simp add: spare_keys_def)
  ultimately show ?thesis
    by (intro exI [of _ ?k] exI [of _ zero_key] exI [of _ ?h] exI [of _ "free_keys t"] exI [of _ "[]"]) (simp add: update_conv')
next
  case (Cons k ks')
  then obtain x where x: "free_keys t = Some k" "map_of (tkeys t) k = Some x" "chain knext (tkeys t) (knext x) ks'"
    using assms(1) by (auto simp: spare_keys_def)
  have k: "k \<notin> set ks'" "Some k \<notin> K"
    using assms(1) Cons chain_distinct [of knext "tkeys t" "free_keys t" ks] by (auto simp: spare_keys_def)
  let ?h = "AList.update k (x\<lparr>knext := None\<rparr>) (tkeys t)"
  have "tab_key_alloc t = Ok (Some k, t\<lparr>tkeys := ?h, free_keys := knext x\<rparr>)"
    using x by (simp add: tab_key_alloc_def Let_def key_at_def set_key_def)
  moreover have "spare_keys (tkeys t) (knext x) ks' K" using assms(1) Cons x(3) by (auto simp: spare_keys_def)
  then have "spare_keys ?h (knext x) ks' (insert (Some k) K)"
    by (rule spare_keys_frame) (use k assms(1) Cons in \<open>auto simp: update_conv' spare_keys_def\<close>)
  ultimately show ?thesis using x k
    by (intro exI [of _ k] exI [of _ "x\<lparr>knext := None\<rparr>"] exI [of _ ?h] exI [of _ "knext x"] exI [of _ ks']) (simp add: update_conv')
qed

section \<open>The search for the key of a new entry\<close>

context key_callbacks
begin

lemma add_scan_step:
  assumes "keyed t" and "ent_ok sh t a" and "is_str t p s"
  shows "add_scan (Suc k) (sh s) p n (Some a) t =
    (if ent_str t a \<noteq> s then add_scan k (sh s) p n (enext (ent t a)) t
     else if \<not> flag PR_TABLE_FL_MULTI_VALUE t then Ok (True, t)
     else bindR (set_ent n (\<lambda>y. y\<lparr>ekey := ekey (ent t a)\<rparr>) t) (add_scan k (sh s) p n (enext (ent t a))))"
proof -
  have "ent_at (Some a) t = Ok (ent t a)" "key_at (ekey (ent t a)) t = Ok (ent_key t a)" "khash (ent_key t a) = sh (ent_str t a)"
    using assms(2) by (auto simp: ent_ok_def ent_at_def key_at_def)
  then show ?thesis using same_key_ok [OF assms, of 0 0] by auto
qed

text \<open>A key that is new, or that exists in a table without multiple values.\<close>

lemma add_scan_plain:
  assumes "keyed t" and "is_str t p s"
  shows "chain enext (ents t) q as \<Longrightarrow> \<forall>a \<in> set as. ent_ok sh t a \<Longrightarrow> length as \<le> k \<Longrightarrow>
    \<not> flag PR_TABLE_FL_MULTI_VALUE t \<or> (\<forall>a \<in> set as. ent_str t a \<noteq> s) \<Longrightarrow>
    add_scan k (sh s) p n q t = Ok (\<exists>a \<in> set as. ent_str t a = s, t)"
proof (induction as arbitrary: k q)
  case Nil
  then show ?case by (cases k) auto
next
  case (Cons a as)
  obtain k' where k: "k = Suc k'" "length as \<le> k'" using Cons.prems(3) by (cases k) auto
  have q: "q = Some a" "chain enext (ents t) (enext (ent t a)) as" using Cons.prems(1) by (auto simp: ent_def)
  have a: "ent_ok sh t a" using Cons.prems(2) by simp
  show ?case using add_scan_step [OF assms(1) a assms(2), of k' n] Cons.IH [OF q(2) _ k(2)] Cons.prems(2,4) k(1) q(1) by auto
qed

text \<open>With multiple values the new entry gets the key of the others.\<close>

lemma add_scan_multi:
  assumes "keyed t" and "is_str t p s" and "flag PR_TABLE_FL_MULTI_VALUE t"
  shows "chain enext es q as \<Longrightarrow> \<forall>a \<in> set as. ent_ok sh (t\<lparr>ents := es\<rparr>) a \<Longrightarrow>
    \<forall>a \<in> set as. ent_str (t\<lparr>ents := es\<rparr>) a = s \<longrightarrow> ekey (ent (t\<lparr>ents := es\<rparr>) a) = K \<Longrightarrow>
    n \<notin> set as \<Longrightarrow> map_of es n = Some x \<Longrightarrow> length as \<le> k \<Longrightarrow>
    \<exists>es'. add_scan k (sh s) p (Some n) q (t\<lparr>ents := es\<rparr>) = Ok (False, t\<lparr>ents := es'\<rparr>) \<and>
      map_of es' n = Some (x\<lparr>ekey := if \<exists>a \<in> set as. ent_str (t\<lparr>ents := es\<rparr>) a = s then K else ekey x\<rparr>) \<and>
      (\<forall>y. y \<noteq> n \<longrightarrow> map_of es' y = map_of es y)"
proof (induction as arbitrary: k q es x)
  case Nil
  then show ?case by (cases k) auto
next
  case (Cons a as)
  let ?T = "\<lambda>es. t\<lparr>ents := es\<rparr>"
  obtain k' where k: "k = Suc k'" "length as \<le> k'" using Cons.prems(6) by (cases k) auto
  have a: "ent_ok sh (?T es) a" "\<forall>b \<in> set as. ent_ok sh (?T es) b" "n \<noteq> a" "n \<notin> set as"
    "\<forall>a \<in> set as. ent_str (?T es) a = s \<longrightarrow> ekey (ent (?T es) a) = K" using Cons.prems(2,3,4) by auto
  have q: "q = Some a" "chain enext es (enext (ent (?T es) a)) as" using Cons.prems(1) by (auto simp: ent_def)
  have K: "keyed (?T es)" "is_str (?T es) p s" using assms by (simp_all add: keyed_def is_str_def)
  have fl: "flag PR_TABLE_FL_MULTI_VALUE (?T es)" using assms(3) by (simp add: flag_def)
  note step = add_scan_step [OF K(1) a(1) K(2), of k' "Some n"]
  show ?case
  proof (cases "ent_str (?T es) a = s")
    case False
    then show ?thesis using Cons.IH [OF q(2) a(2,5,4) Cons.prems(5) k(2)] step k(1) q(1) by simp
  next
    case True
    then have ka: "ekey (ent (?T es) a) = K" using Cons.prems(3) by simp
    let ?es = "AList.update n (x\<lparr>ekey := K\<rparr>) es"
    have fr: "ent (?T ?es) b = ent (?T es) b \<and> ent_str (?T ?es) b = ent_str (?T es) b \<and> ent_ok sh (?T ?es) b = ent_ok sh (?T es) b"
      if "b \<in> set as" for b
    proof -
      have "map_of (ents (?T ?es)) b = map_of (ents (?T es)) b" using that a(4) by (auto simp: update_conv')
      then show ?thesis using ent_frame [of "?T ?es" b "?T es"] by simp
    qed
    have "chain enext ?es (enext (ent (?T es) a)) as"
      by (subst segment_cong [where h' = es]) (use q(2) a(4) in \<open>auto simp: update_conv'\<close>)
    moreover have "\<forall>b \<in> set as. ent_ok sh (?T ?es) b" "\<forall>b \<in> set as. ent_str (?T ?es) b = s \<longrightarrow> ekey (ent (?T ?es) b) = K"
      using fr a by auto
    moreover have "map_of ?es n = Some (x\<lparr>ekey := K\<rparr>)" by (simp add: update_conv')
    ultimately obtain es' where "add_scan k' (sh s) p (Some n) (enext (ent (?T es) a)) (?T ?es) = Ok (False, ?T es')"
        "map_of es' n = Some (x\<lparr>ekey := K\<rparr>)" "\<forall>y. y \<noteq> n \<longrightarrow> map_of es' y = map_of ?es y"
      using Cons.IH [of ?es _ "x\<lparr>ekey := K\<rparr>" k'] a(4) k(2) by fastforce
    moreover have "set_ent (Some n) (\<lambda>y. y\<lparr>ekey := K\<rparr>) (?T es) = Ok (?T ?es)" using Cons.prems(5) by (simp add: set_ent_def)
    ultimately show ?thesis using step True fl ka k(1) q(1) by (auto simp: update_conv')
  qed
qed

end

section \<open>Adding an entry to a chain\<close>

text \<open>What insertion and removal do to the entries that stay: only links change.\<close>

definition same_but_links :: "nat set \<Rightarrow> table_rec \<Rightarrow> table_rec \<Rightarrow> bool" where
  "same_but_links A t t' \<longleftrightarrow> (\<forall>a \<in> A. \<exists>e. map_of (ents t') a = Some e \<and>
     e\<lparr>enext := None, eprev := None\<rparr> = (ent t a)\<lparr>enext := None, eprev := None\<rparr>)"

lemma same_but_links_ent:
  assumes "same_but_links A t t'" and "a \<in> A"
  shows "ekey (ent t' a) = ekey (ent t a)" and "idx (ent t' a) = idx (ent t a)" and "ent_val t' a = ent_val t a"
    and "map_of (ents t') a = Some (ent t' a)"
proof -
  obtain e where e: "map_of (ents t') a = Some e" "e\<lparr>enext := None, eprev := None\<rparr> = (ent t a)\<lparr>enext := None, eprev := None\<rparr>"
    using assms unfolding same_but_links_def by blast
  show "map_of (ents t') a = Some (ent t' a)" using e(1) by (simp add: ent_def)
  have x: "ent t' a = e" using e(1) by (simp add: ent_def)
  show "ekey (ent t' a) = ekey (ent t a)" "idx (ent t' a) = idx (ent t a)" "ent_val t' a = ent_val t a"
    using arg_cong [OF e(2), of ekey] arg_cong [OF e(2), of idx] arg_cong [OF e(2), of value_data] arg_cong [OF e(2), of value_datasz] x
    by (simp_all add: ent_val_def)
qed

lemma inv_add:
  assumes inv: "table_inv sh t css" and i: "i = chain_of sh t s"
    and same: "objs t' = objs t" "nchains t' = nchains t" "chains t' = (chains t)[i := q]" "same_but_links (set (concat css)) t t'"
    and n: "n \<notin> set (concat css)" "linked t' q (css ! i @ [n])"
    and others: "\<forall>j < length css. j \<noteq> i \<longrightarrow> (\<forall>a \<in> set (css ! j). map_of (ents t') a = map_of (ents t) a)"
    and new: "map_of (ents t') n = Some e" "ekey e = Some k" "idx e = word_of_nat i"
    and key: "map_of (tkeys t') k = Some d" "key_data d = Some p" "is_str t p s" "khash d = sh s" "key_datasz d = Suc (length s)"
      "unat (knents d) = Suc (length (matches t css s))"
    and share: "\<forall>a \<in> set (concat css). ekey (ent t a) = Some k \<longleftrightarrow> ent_str t a = s"
    and old: "\<forall>a \<in> set (concat css). \<exists>d. map_of (tkeys t') (the (ekey (ent t a))) = Some d \<and>
      d\<lparr>knents := 0, knext := None\<rparr> = (ent_key t a)\<lparr>knents := 0, knext := None\<rparr> \<and> (ent_str t a \<noteq> s \<longrightarrow> knents d = knents (ent_key t a))"
    and count: "unat (nents t') = Suc (length (concat css))" and free: "free_inv t' (css[i := css ! i @ [n]])"
  shows "table_inv sh t' (css[i := css ! i @ [n]]) \<and> ent_str t' n = s \<and>
    (\<forall>s'. stored t' (css[i := css ! i @ [n]]) s' = stored t css s' @ (if s' = s then [ent_val t' n] else []))"
proof -
  let ?css = "css[i := css ! i @ [n]]"
  have c: "chains_inv sh t css" and k: "keys_inv t css" using inv by (simp_all add: table_inv_def)
  have il: "i < length css" "length css = length (chains t)" using chains_inv_index [OF c] i by auto
  have A: "set (concat ?css) = insert n (set (concat css))" using concat_append [OF il(1), of "[n]"] by (simp del: set_concat)
  have o: "ent_ok sh t' a \<and> ent_str t' a = ent_str t a \<and> (ent_str t a \<noteq> s \<longrightarrow> knents (ent_key t' a) = knents (ent_key t a))"
    if aA: "a \<in> set (concat css)" for a
  proof -
    obtain d' where d': "map_of (tkeys t') (the (ekey (ent t a))) = Some d'"
        "d'\<lparr>knents := 0, knext := None\<rparr> = (ent_key t a)\<lparr>knents := 0, knext := None\<rparr>" "ent_str t a \<noteq> s \<longrightarrow> knents d' = knents (ent_key t a)"
      using bspec [OF old aA] by blast
    then show ?thesis
      using ent_ok_transfer [OF chains_inv_ent_ok [OF c aA] same_but_links_ent(4,1) [OF same(4) aA] same(1) d'(1,2)] by simp
  qed
  have N: "ent t' n = e" "ent_key t' n = d" using new key(1) by (simp_all add: ent_def ent_key_def)
  have ns: "ent_str t' n = s" using N key(2,3) same(1) by (auto simp: ent_str_def is_str_def)
  have nok: "ent_ok sh t' n" using N ns new key same(1) by (simp add: ent_ok_def is_str_def)
  have ch: "chain_of sh t' x = chain_of sh t x" for x using same(2) by (simp add: chain_of_def)
  have c': "chains_inv sh t' ?css"
    unfolding chains_inv_def
  proof (intro conjI allI impI)
    show "nchains t' \<noteq> 0" "length (chains t') = unat (nchains t')" "length ?css = unat (nchains t')"
      using c same(2,3) by (simp_all add: chains_inv_def)
    fix j assume j: "j < length ?css"
    have oj: "ent_ok sh t' a \<and> idx (ent t' a) = word_of_nat j \<and> chain_of sh t' (ent_str t' a) = j" if "a \<in> set (css ! j)" for a
    proof -
      have a: "a \<in> set (concat css)" using that j set_chain_subset by fastforce
      show ?thesis using c that j o [OF a] same_but_links_ent(2) [OF same(4) a] ch by (auto simp: chains_inv_def)
    qed
    show "\<forall>a \<in> set (?css ! j). ent_ok sh t' a \<and> idx (ent t' a) = word_of_nat j \<and> chain_of sh t' (ent_str t' a) = j"
    proof
      fix a assume "a \<in> set (?css ! j)"
      then have "a \<in> set (css ! j) \<or> (a = n \<and> j = i)" using j by (cases "j = i") (auto simp: nth_list_update)
      then show "ent_ok sh t' a \<and> idx (ent t' a) = word_of_nat j \<and> chain_of sh t' (ent_str t' a) = j"
        using oj nok ns N(1) new(3) i ch by auto
    qed
    show "linked t' (chains t' ! j) (?css ! j)"
    proof (cases "j = i")
      case True
      then show ?thesis using n(2) same(3) il by simp
    next
      case False
      then have "linked t (chains t ! j) (css ! j)" using c j by (simp add: chains_inv_def)
      then obtain l where "dsegment enext eprev (ents t) None (chains t ! j) (css ! j) l None" by blast
      then have "dsegment enext eprev (ents t') None (chains t ! j) (css ! j) l None"
        by (subst dsegment_cong [where h = "ents t"]) (use others False j in auto)
      then show ?thesis using False same(3) by auto
    qed
  qed
  have m: "matches t' ?css s' = matches t css s' @ (if s' = s then [n] else [])" for s'
  proof -
    have "filter (\<lambda>a. ent_str t' a = s') (css ! j) = filter (\<lambda>a. ent_str t a = s') (css ! j)" if "j < length css" for j
      by (rule filter_cong) (use o set_chain_subset that in fastforce)+
    then show ?thesis using stored_chain [OF c', of s'] stored_chain [OF c, of s'] chains_inv_index(1) [OF c, of s'] ns ch i il(1)
      by (cases "chain_of sh t s' = i") (auto simp: nth_list_update)
  qed
  have ks: "ekey (ent t' a) = Some k" if "a \<in> insert n (set (concat css))" "ent_str t' a = s" for a
    using that N(1) new(2) by (metis insertE o same_but_links_ent(1) [OF same(4)] share)
  have ko: "a \<in> set (concat css) \<and> ent_str t' a = ent_str t a" if "a \<in> insert n (set (concat css))" "ent_str t' a \<noteq> s" for a
    using that ns o by blast
  have sh: "ekey (ent t a) = ekey (ent t b)" if "a \<in> set (concat css)" "b \<in> set (concat css)" "ent_str t a = ent_str t b" for a b
    using k that unfolding keys_inv_def by blast
  have "keys_inv t' ?css"
    unfolding keys_inv_def A
  proof (intro conjI ballI impI)
    show "unat (nents t') = length (concat ?css)" using count concat_update(2) [OF il(1), of "css ! i @ [n]"] by simp
  next
    fix a b assume ab: "a \<in> insert n (set (concat css))" "b \<in> insert n (set (concat css))" "ent_str t' a = ent_str t' b"
    then show "ekey (ent t' a) = ekey (ent t' b)"
      by (metis ks ko sh same_but_links_ent(1) [OF same(4)])
  next
    fix a assume a: "a \<in> insert n (set (concat css))"
    show "unat (knents (ent_key t' a)) = length (matches t' ?css (ent_str t' a))"
    proof (cases "ent_str t' a = s")
      case True
      then have "ekey (ent t' a) = Some k" using ks [OF a] by blast
      then have "ent_key t' a = d" using key(1) by (simp add: ent_key_def)
      then show ?thesis using True m [of s] key(6) by simp
    next
      case False
      then have b: "a \<in> set (concat css)" "ent_str t a \<noteq> s" "ent_str t' a = ent_str t a" using ko [OF a] by auto
      then have "unat (knents (ent_key t a)) = length (matches t css (ent_str t a))" using k unfolding keys_inv_def by blast
      then show ?thesis using o [OF b(1)] b m [of "ent_str t a"] by simp
    qed
  qed
  then have "table_inv sh t' ?css" using c' free by (simp add: table_inv_def)
  moreover have "stored t' ?css s' = stored t css s' @ (if s' = s then [ent_val t' n] else [])" for s'
    unfolding stored_def m using same_but_links_ent(3) [OF same(4)] by (auto simp del: set_concat)
  ultimately show ?thesis using ns by blast
qed

section \<open>The insertion\<close>

lemma uint_index: "i < length cs \<Longrightarrow> length cs = unat (m :: uint32) \<Longrightarrow> uint (word_of_nat i :: uint32) = int i"
proof -
  assume "i < length cs" "length cs = unat m"
  moreover have "unat m < 2 ^ LENGTH(32)" by (rule unsigned_less)
  ultimately have "i < 2 ^ 32" by simp
  then show ?thesis by (simp add: unsigned_of_nat take_bit_nat_eq_self)
qed

context chain_callbacks
begin

lemma tab_entry_insert_ok:
  assumes "entinsert t = ins" and "map_of (ents t) n = Some x" and "idx x = word_of_nat i" and "enext x = None" and "eprev x = None"
    and "ekey x = Some k" and "map_of (tkeys t) k = Some d" and "i < length (chains t)" and "length (chains t) = unat (nchains t)"
    and "if as = [] then chains t ! i = Some n else linked t (chains t ! i) as \<and> n \<notin> set as"
  shows "\<exists>es. tab_entry_insert (Some n) t =
      Ok (t\<lparr>ents := es, tkeys := AList.update k (d\<lparr>knents := knents d + 1\<rparr>) (tkeys t), nents := nents t + 1\<rparr>) \<and>
    (\<exists>l. dsegment enext eprev es None (chains t ! i) (as @ [n]) l None) \<and> relinked (ents t) es \<and> same_outside (set (as @ [n])) (ents t) es"
proof -
  have u: "uint (idx x) = int i" using uint_index assms(3,8,9) by metis
  have r: "rd (chains t) (int i) = Ok (chains t ! i)" using assms(8) by simp
  show ?thesis
  proof (cases as)
    case Nil
    then have c: "chains t ! i = Some n" using assms(10) by simp
    have "tab_entry_insert (Some n) t =
        Ok (t\<lparr>ents := ents t, tkeys := AList.update k (d\<lparr>knents := knents d + 1\<rparr>) (tkeys t), nents := nents t + 1\<rparr>)"
      using assms(2,6,7) u r c by (simp add: tab_entry_insert_def ent_at_def set_key_def)
    moreover have "\<exists>l. dsegment enext eprev (ents t) None (chains t ! i) (as @ [n]) l None" using Nil c assms(2,4,5) by simp
    ultimately show ?thesis by (intro exI [of _ "ents t"]) (simp add: relinked_def same_outside_def)
  next
    case (Cons b bs)
    then obtain l where l: "dsegment enext eprev (ents t) None (Some b) (b # bs) l None" "chains t ! i = Some b" "n \<notin> set (b # bs)"
      using assms(10) by auto
    obtain es l' where e: "ins (Some b) (Some n) (ents t) = Ok (Some b, es)" "dsegment enext eprev es None (Some b) (b # bs @ [n]) l' None"
        "relinked (ents t) es" "same_outside (set (b # bs @ [n])) (ents t) es"
      using ins_append [OF l(1,3) assms(2,4)] by blast
    have "map_option (\<lambda>e. e\<lparr>enext := None, eprev := None\<rparr>) (map_of es n) = Some (x\<lparr>enext := None, eprev := None\<rparr>)"
      using e(3) assms(2) by (simp add: relinked_def)
    then obtain y where y: "map_of es n = Some y" "y\<lparr>enext := None, eprev := None\<rparr> = x\<lparr>enext := None, eprev := None\<rparr>" by auto
    have yi: "uint (idx y) = int i" "ekey y = Some k" using arg_cong [OF y(2), of idx] arg_cong [OF y(2), of ekey] u assms(6) by simp_all
    have w: "wr (chains t) (int i) (Some b) = Ok (chains t)" using assms(8) l(2) by (metis list_update_id nat_int of_nat_0_le_iff of_nat_less_iff wr_Ok)
    have "n \<noteq> b" using l(3) by simp
    then have "tab_entry_insert (Some n) t =
        Ok (t\<lparr>ents := es, tkeys := AList.update k (d\<lparr>knents := knents d + 1\<rparr>) (tkeys t), nents := nents t + 1\<rparr>)"
      using assms(1,2,7) u r l(2) e(1) y(1) yi w by (simp add: tab_entry_insert_def ent_at_def set_key_def)
    then show ?thesis using e l(2) Cons by (intro exI [of _ es]) auto
  qed
qed

end

end
