(* ===== verification/Ftp_Add.thy ===== *)
theory Ftp_Add
  imports Ftp_Update
begin

text \<open>
  \<open>pr_table_add\<close> of the hash table of proftpd: with the contracts of the callbacks it appends the value to those
  stored under the key, or reports that the key exists, and keeps the invariant of the table.
\<close>

section \<open>The key of a new entry\<close>

text \<open>The key \<open>k\<close> with its data \<open>d\<close> and the heap \<open>h\<close> of keys, for a new entry with the string \<open>s\<close>.\<close>

definition key_for :: "(cstring \<Rightarrow> uint32) \<Rightarrow> table_rec \<Rightarrow> nat list list \<Rightarrow> cstring \<Rightarrow> tab_key heap \<Rightarrow> nat \<Rightarrow> tab_key \<Rightarrow> bool" where
  "key_for sh t css s h k d \<longleftrightarrow> map_of h k = Some d \<and> (\<exists>p. key_data d = Some p \<and> is_str t p s) \<and> khash d = sh s \<and>
     key_datasz d = Suc (length s) \<and> unat (knents d) = length (matches t css s) \<and>
     (\<forall>a \<in> set (concat css). (ekey (ent t a) = Some k \<longleftrightarrow> ent_str t a = s) \<and> map_of h (the (ekey (ent t a))) = Some (ent_key t a))"

lemma used_key: "ent_ok sh t a \<Longrightarrow> \<exists>k. ekey (ent t a) = Some k \<and> map_of (tkeys t) k = Some (ent_key t a)"
  by (auto simp: ent_ok_def)

lemma shared_key:
  assumes "chains_inv sh t css" and "keys_inv t css" and "a \<in> set (concat css)" and "ent_str t a = s" and "ekey (ent t a) = Some k"
  shows "key_for sh t css s (tkeys t) k (ent_key t a)"
proof -
  have a: "ent_ok sh t a" using chains_inv_ent_ok [OF assms(1,3)] .
  have "ent_str t b = s" if "b \<in> set (concat css)" "ekey (ent t b) = Some k" for b
    using that assms(4,5) by (simp add: ent_str_def ent_key_def)
  moreover have "ekey (ent t b) = Some k" if "b \<in> set (concat css)" "ent_str t b = s" for b
    using assms(2-5) that unfolding keys_inv_def by metis
  moreover have "map_of (tkeys t) (the (ekey (ent t b))) = Some (ent_key t b)" if "b \<in> set (concat css)" for b
    using used_key [OF chains_inv_ent_ok [OF assms(1) that]] by auto
  moreover have "unat (knents (ent_key t a)) = length (matches t css s)" using assms(2-4) unfolding keys_inv_def by blast
  ultimately show ?thesis using a assms(4,5) unfolding key_for_def by (auto simp: ent_ok_def simp del: set_concat)
qed

lemma choose_key:
  assumes "chains_inv sh t css" and "keys_inv t css" and "spare_keys (tkeys t) (free_keys t) ks ((ekey \<circ> ent t) ` set (concat css))"
    and "is_str t p s" and "map_of es n = Some x" and "t2 = t\<lparr>ents := es, free_ents := q, chains := cs\<rparr>"
    and "ekey x = (if matches t css s = [] then None else ekey (ent t (hd (matches t css s))))"
  shows "\<exists>es' k d h kq ks'.
    (if ekey x = None then
       bindR (tab_key_alloc t2) (\<lambda>(k, t).
       bindR (set_key k (\<lambda>y. y\<lparr>key_data := Some p, key_datasz := Suc (length s), khash := sh s, knents := 0\<rparr>) t)
         (set_ent (Some n) (\<lambda>x. x\<lparr>ekey := k\<rparr>)))
     else Ok t2) = Ok (t2\<lparr>ents := es', tkeys := h, free_keys := kq\<rparr>) \<and>
    map_of es' n = Some (x\<lparr>ekey := Some k\<rparr>) \<and> (\<forall>y. y \<noteq> n \<longrightarrow> map_of es' y = map_of es y) \<and> key_for sh t css s h k d \<and>
    spare_keys h kq ks' (insert (Some k) ((ekey \<circ> ent t) ` set (concat css)))"
proof (cases "matches t css s")
  case Nil
  let ?K = "(ekey \<circ> ent t) ` set (concat css)"
  have "\<forall>k. Some k \<in> ?K \<longrightarrow> map_of (tkeys t2) k \<noteq> None"
    using used_key [OF chains_inv_ent_ok [OF assms(1)]] assms(6) by (fastforce simp del: set_concat)
  then obtain k d h kq ks' where k: "tab_key_alloc t2 = Ok (Some k, t2\<lparr>tkeys := h, free_keys := kq\<rparr>)" "map_of h k = Some d" "Some k \<notin> ?K"
      "\<forall>x. x \<noteq> k \<longrightarrow> map_of h x = map_of (tkeys t2) x" "spare_keys h kq ks' (insert (Some k) ?K)"
    using tab_key_alloc_ok [of t2 ks ?K] assms(3,6) by auto
  let ?d = "d\<lparr>key_data := Some p, key_datasz := Suc (length s), khash := sh s, knents := 0\<rparr>"
  let ?h = "AList.update k ?d h" and ?es = "AList.update n (x\<lparr>ekey := Some k\<rparr>) es"
  have "spare_keys ?h kq ks' (insert (Some k) ?K)"
    by (rule spare_keys_frame [OF k(5)]) (use k(5) in \<open>auto simp: spare_keys_def update_conv'\<close>)
  moreover have "key_for sh t css s ?h k ?d"
  proof -
    have "map_of ?h (the (ekey (ent t a))) = Some (ent_key t a) \<and> ekey (ent t a) \<noteq> Some k \<and> ent_str t a \<noteq> s" if a: "a \<in> set (concat css)" for a
    proof -
      obtain j where "ekey (ent t a) = Some j" "map_of (tkeys t) j = Some (ent_key t a)"
        using used_key [OF chains_inv_ent_ok [OF assms(1) a]] by blast
      moreover have "j \<noteq> k" using k(3) imageI [OF a, of "ekey \<circ> ent t"] calculation(1) by auto
      moreover have "ent_str t a \<noteq> s" using Nil a by (simp only: filter_empty_conv) blast
      ultimately show ?thesis using k(4) assms(6) by (simp add: update_conv')
    qed
    then show ?thesis using Nil assms(4) unfolding key_for_def by (simp del: set_concat add: update_conv')
  qed
  moreover have "ekey x = None" using assms(7) Nil by simp
  moreover have "set_ent (Some n) (\<lambda>x. x\<lparr>ekey := Some k\<rparr>) (t2\<lparr>free_keys := kq, tkeys := ?h\<rparr>) = Ok (t2\<lparr>ents := ?es, tkeys := ?h, free_keys := kq\<rparr>)"
    using assms(5,6) by (cases t) (simp add: set_ent_def)
  ultimately show ?thesis using k(1,2)
    by (intro exI [of _ ?es] exI [of _ k] exI [of _ ?d] exI [of _ ?h] exI [of _ kq] exI [of _ ks'])
      (simp del: set_concat add: set_key_def update_conv' fun_upd_apply)
next
  case (Cons a as)
  have "a \<in> set (matches t css s)" by (subst Cons) simp
  then have a: "a \<in> set (concat css)" "ent_str t a = s" by simp_all
  obtain k where k: "ekey (ent t a) = Some k" using used_key [OF chains_inv_ent_ok [OF assms(1) a(1)]] by blast
  have x: "ekey x = Some k" using assms(7) Cons k by simp
  have "Some k \<in> (ekey \<circ> ent t) ` set (concat css)" using k a(1) by (metis comp_apply imageI)
  then have "spare_keys (tkeys t) (free_keys t) ks (insert (Some k) ((ekey \<circ> ent t) ` set (concat css)))"
    using assms(3) by (simp only: insert_absorb)
  then show ?thesis using x assms(5,6) shared_key [OF assms(1,2) a k]
    by (intro exI [of _ es] exI [of _ k] exI [of _ "ent_key t a"] exI [of _ "tkeys t"] exI [of _ "free_keys t"] exI [of _ ks]) simp
qed

section \<open>The search in the table\<close>

text \<open>The table with the new entry \<open>n\<close> on its heap: the other entries are as before.\<close>

definition with_entry :: "table_rec \<Rightarrow> nat list list \<Rightarrow> nat \<Rightarrow> tab_entry \<Rightarrow> tab_entry heap \<Rightarrow> bool" where
  "with_entry t css n x es \<longleftrightarrow> n \<notin> set (concat css) \<and> map_of es n = Some x \<and> (\<forall>y. y \<noteq> n \<longrightarrow> map_of es y = map_of (ents t) y)"

lemma with_entry_frame:
  assumes "with_entry t css n x es" and "a \<in> set (concat css)" and "ents t' = es" and "tkeys t' = tkeys t" and "objs t' = objs t"
  shows "ent t' a = ent t a" and "ent_key t' a = ent_key t a" and "ent_str t' a = ent_str t a" and "ent_ok sh t' a = ent_ok sh t a"
proof -
  have "map_of (ents t') a = map_of (ents t) a" using assms(1-3) by (auto simp: with_entry_def)
  then show "ent t' a = ent t a" "ent_key t' a = ent_key t a" "ent_str t' a = ent_str t a" "ent_ok sh t' a = ent_ok sh t a"
    using ent_frame [OF _ assms(4,5)] by blast+
qed

lemma with_entry_chain:
  assumes "with_entry t css n x es" and "chains_inv sh t css"
  shows "chain enext es (chains t ! chain_of sh t s) (css ! chain_of sh t s)" and "set (css ! chain_of sh t s) \<subseteq> set (concat css)"
    and "length (css ! chain_of sh t s) \<le> length es"
    and "a \<in> set (css ! chain_of sh t s) \<Longrightarrow> ents t' = es \<Longrightarrow> tkeys t' = tkeys t \<Longrightarrow> objs t' = objs t \<Longrightarrow>
      ent t' a = ent t a \<and> ent_str t' a = ent_str t a \<and> ent_ok sh t' a"
proof -
  let ?as = "css ! chain_of sh t s"
  show s: "set ?as \<subseteq> set (concat css)" using set_chain_subset chains_inv_index(1) [OF assms(2)] by blast
  have "chain enext (ents t) (chains t ! chain_of sh t s) ?as" using linked_segment [OF chains_inv_chain(1) [OF assms(2)]] .
  moreover have "map_of es a = map_of (ents t) a" if "a \<in> set ?as" for a
    using subsetD [OF s that] assms(1) by (metis with_entry_def)
  ultimately show c: "chain enext es (chains t ! chain_of sh t s) ?as" using segment_cong [of ?as "ents t" es] by metis
  show "length ?as \<le> length es" by (rule chain_length [OF c])
  assume a: "a \<in> set ?as" "ents t' = es" "tkeys t' = tkeys t" "objs t' = objs t"
  then have "a \<in> set (concat css)" using s by blast
  then show "ent t' a = ent t a \<and> ent_str t' a = ent_str t a \<and> ent_ok sh t' a"
    using with_entry_frame [OF assms(1) _ a(2-4)] chains_inv_ent_ok [OF assms(2)] by blast
qed

context key_callbacks
begin

lemma scan_exists:
  assumes "keyed t" and "chains_inv sh t css" and "is_str t p s" and "with_entry t css n x es" and "t1 = t\<lparr>ents := es, free_ents := q\<rparr>"
    and "\<not> flag PR_TABLE_FL_MULTI_VALUE t" and "matches t css s \<noteq> []"
  shows "chains t ! chain_of sh t s \<noteq> None \<and> add_scan (length es) (sh s) p (Some n) (chains t ! chain_of sh t s) t1 = Ok (True, t1)"
proof -
  let ?as = "css ! chain_of sh t s"
  note c = with_entry_chain(1-3) [OF assms(4,2), of s]
  have fr: "ent_str t1 a = ent_str t a \<and> ent_ok sh t1 a" if "a \<in> set ?as" for a
    using with_entry_chain(4) [OF assms(4,2) that, of t1] assms(5) by simp
  have m: "filter (\<lambda>a. ent_str t a = s) ?as \<noteq> []" using assms(7) stored_chain [OF assms(2), of s] by simp
  then have "\<exists>a \<in> set ?as. ent_str t1 a = s" using fr by (auto simp: filter_empty_conv)
  moreover have "add_scan (length es) (sh s) p (Some n) (chains t ! chain_of sh t s) t1 = Ok (\<exists>a \<in> set ?as. ent_str t1 a = s, t1)"
    by (rule add_scan_plain) (use assms(1,3,5,6) c fr in \<open>auto simp: keyed_def is_str_def flag_def\<close>)
  moreover have "?as \<noteq> []" using m by auto
  ultimately show ?thesis using c(1) by (cases ?as) auto
qed

lemma scan_chain:
  assumes "keyed t" and "chains_inv sh t css" and "keys_inv t css" and "is_str t p s" and "with_entry t css n x es" and "ekey x = None"
    and "t1 = t\<lparr>ents := es, free_ents := q\<rparr>" and "flag PR_TABLE_FL_MULTI_VALUE t \<or> matches t css s = []"
  shows "\<exists>es'. (if chains t ! chain_of sh t s \<noteq> None then add_scan (length es) (sh s) p (Some n) (chains t ! chain_of sh t s) t1
      else bindR (wr (chains t) (uint (sh s mod nchains t)) (Some n)) (\<lambda>cs. Ok (False, t1\<lparr>chains := cs\<rparr>))) =
    Ok (False, t1\<lparr>ents := es', chains := if css ! chain_of sh t s = [] then (chains t)[chain_of sh t s := Some n] else chains t\<rparr>) \<and>
    with_entry t css n (x\<lparr>ekey := if matches t css s = [] then None else ekey (ent t (hd (matches t css s)))\<rparr>) es'"
proof (cases "css ! chain_of sh t s")
  let ?i = "chain_of sh t s"
  note c = with_entry_chain(1-3) [OF assms(5,2), of s]
  have xk: "x\<lparr>ekey := None\<rparr> = x" using assms(6) by (cases x) simp
  {
    case Nil
    have "matches t css s = []" using stored_chain [OF assms(2), of s] Nil by simp
    moreover have "chains t ! ?i = None" using c(1) Nil by simp
    moreover have "uint (sh s mod nchains t) = int ?i" by (simp add: chain_of_def)
    moreover have "?i < length (chains t)" using chains_inv_index(1) [OF assms(2), of s] chains_inv_index(2) [OF assms(2)] by simp
    ultimately show ?thesis using Nil assms(5-7) by (intro exI [of _ es]) (simp add: xk)
  next
    case (Cons b bs)
    let ?as = "css ! ?i"
    have fr: "ent t1 a = ent t a \<and> ent_str t1 a = ent_str t a \<and> ent_ok sh t1 a" if "a \<in> set ?as" for a
      using with_entry_chain(4) [OF assms(5,2) that, of t1] assms(7) by simp
    have t1: "keyed t1" "is_str t1 p s" "flag f t1 = flag f t" "t1\<lparr>ents := es\<rparr> = t1" for f
      using assms(1,4,7) by (simp_all add: keyed_def is_str_def flag_def)
    have q: "chains t ! ?i \<noteq> None" using c(1) Cons by auto
    have n: "n \<notin> set ?as" "map_of es n = Some x" using assms(5) c(2) unfolding with_entry_def by auto
    have ex: "(\<exists>a \<in> set ?as. ent_str t1 a = s) \<longleftrightarrow> matches t css s \<noteq> []"
      using stored_chain [OF assms(2), of s] fr by (auto simp: filter_empty_conv)
    show ?thesis
    proof (cases "flag PR_TABLE_FL_MULTI_VALUE t")
      case True
      let ?K = "ekey (ent t (hd (matches t css s)))"
      have "\<forall>a \<in> set ?as. ent_str t1 a = s \<longrightarrow> ekey (ent t1 a) = ?K"
      proof (intro ballI impI)
        fix a assume a: "a \<in> set ?as" "ent_str t1 a = s"
        then have "matches t css s \<noteq> []" using ex by blast
        then have "hd (matches t css s) \<in> set (matches t css s)" by (rule hd_in_set)
        then have "hd (matches t css s) \<in> set (concat css)" "ent_str t (hd (matches t css s)) = s" by simp_all
        moreover have "a \<in> set (concat css)" "ent_str t a = s" using a c(2) fr by auto
        ultimately show "ekey (ent t1 a) = ?K" using assms(3) fr [OF a(1)] unfolding keys_inv_def by metis
      qed
      then obtain es' where "add_scan (length es) (sh s) p (Some n) (chains t ! ?i) t1 = Ok (False, t1\<lparr>ents := es'\<rparr>)"
          "map_of es' n = Some (x\<lparr>ekey := if \<exists>a \<in> set ?as. ent_str t1 a = s then ?K else ekey x\<rparr>)" "\<forall>y. y \<noteq> n \<longrightarrow> map_of es' y = map_of es y"
        using add_scan_multi [OF t1(1,2), where es = es and q = "chains t ! ?i" and as = ?as and K = ?K and n = n and x = x and k = "length es"] c(1,3) fr n t1(3,4) True by auto
      then show ?thesis using q Cons ex assms(5,6,7) by (intro exI [of _ es']) (auto simp: with_entry_def xk)
    next
      case False
      then have m: "matches t css s = []" using assms(8) by simp
      have "add_scan (length es) (sh s) p (Some n) (chains t ! ?i) t1 = Ok (\<exists>a \<in> set ?as. ent_str t1 a = s, t1)"
        by (rule add_scan_plain) (use t1 assms(7) c fr ex m in auto)
      then show ?thesis using q Cons ex m assms(5,6,7) by (intro exI [of _ es]) (simp add: xk)
    qed
  }
qed

end

section \<open>The run of an addition\<close>

locale table_callbacks = key_callbacks cmp hash sh + chain_callbacks ins rem
  for cmp :: cmp_op and hash :: hash_op and sh :: "cstring \<Rightarrow> uint32" and ins :: chain_op and rem :: chain_op
begin

definition served :: "table_rec \<Rightarrow> bool" where
  "served t \<longleftrightarrow> keyed t \<and> entinsert t = ins \<and> entremove t = rem"

end

text \<open>The new entry \<open>x\<close> at \<open>n\<close> with its key, before it is linked.\<close>

definition prepared :: "(cstring \<Rightarrow> uint32) \<Rightarrow> table_rec \<Rightarrow> nat list list \<Rightarrow> cstring \<Rightarrow> nat \<Rightarrow> tab_entry \<Rightarrow> nat \<Rightarrow> tab_key \<Rightarrow> table_rec \<Rightarrow> bool" where
  "prepared sh t css s n x k d t3 \<longleftrightarrow> with_entry t css n x (ents t3) \<and> enext x = None \<and> eprev x = None \<and> ekey x = Some k \<and>
     idx x = sh s mod nchains t \<and> key_for sh t css s (tkeys t3) k d \<and>
     chains t3 = (if css ! chain_of sh t s = [] then (chains t)[chain_of sh t s := Some n] else chains t) \<and>
     (\<exists>fs. spare_ents (ents t3) (free_ents t3) fs (insert n (set (concat css)))) \<and>
     (\<exists>ks. spare_keys (tkeys t3) (free_keys t3) ks (insert (Some k) ((ekey \<circ> ent t) ` set (concat css))))"

text \<open>The steps of \<open>pr_table_kadd\<close>, one after the other.\<close>

lemma kadd_steps:
  assumes "hash_key kd ksz t = Ok h" and "chain_index h t = Ok i" and "tab_entry_alloc t = Ok (n, t0)"
    and "set_ent n (\<lambda>x. x\<lparr>value_data := v, value_datasz := vsz, idx := i\<rparr>) t0 = Ok t1" and "rd (chains t1) (uint i) = Ok e"
    and "(if e \<noteq> None then add_scan (length (ents t1)) h kd n e t1
         else bindR (wr (chains t1) (uint i) n) (\<lambda>cs. Ok (False, t1\<lparr>chains := cs\<rparr>))) = Ok (found, t2)"
  shows "found \<Longrightarrow> pr_table_kadd_to kd ksz v vsz t = Ok (- 1, Some EEXIST, t2)"
    and "\<not> found \<Longrightarrow> ent_at n t2 = Ok x \<Longrightarrow>
      (if ekey x = None then
         bindR (tab_key_alloc t2) (\<lambda>(k, t).
         bindR (set_key k (\<lambda>y. y\<lparr>key_data := Some kd, key_datasz := ksz, khash := h, knents := 0\<rparr>) t) (set_ent n (\<lambda>x. x\<lparr>ekey := k\<rparr>)))
       else Ok t2) = Ok t3 \<Longrightarrow>
      pr_table_kadd_to kd ksz v vsz t = bindR (tab_entry_insert n t3) (\<lambda>t. Ok (0, None, t))"
  by (simp_all only: pr_table_kadd_to_def assms bindR.simps prod.case if_True if_False)

context table_callbacks
begin

lemma kadd_prepared:
  assumes "served t" and "table_inv sh t css" and "is_str t p s" and "flag PR_TABLE_FL_MULTI_VALUE t \<or> matches t css s = []"
  shows "\<exists>n x k d t3. pr_table_kadd_to p (Suc (length s)) v vsz t = bindR (tab_entry_insert (Some n) t3) (\<lambda>t. Ok (0, None, t)) \<and>
    prepared sh t css s n x k d t3 \<and> value_data x = v \<and> value_datasz x = vsz \<and>
    (\<exists>es q cs h kq. t3 = t\<lparr>ents := es, free_ents := q, chains := cs, tkeys := h, free_keys := kq\<rparr>)"
proof -
  have c: "chains_inv sh t css" and k: "keys_inv t css" and "free_inv t css" and K: "keyed t"
    using assms(1,2) by (simp_all add: table_inv_def served_def)
  then obtain fs ks where free: "spare_ents (ents t) (free_ents t) fs (set (concat css))"
      "spare_keys (tkeys t) (free_keys t) ks ((ekey \<circ> ent t) ` set (concat css))"
    unfolding free_inv_def by blast
  have "\<forall>a \<in> set (concat css). map_of (ents t) a \<noteq> None" using chains_inv_ent_ok [OF c] by (auto simp: ent_ok_def)
  then obtain n e0 es0 q fs' where n: "tab_entry_alloc t = Ok (Some n, t\<lparr>ents := es0, free_ents := q\<rparr>)" "map_of es0 n = Some e0"
      "enext e0 = None" "eprev e0 = None" "ekey e0 = None" "n \<notin> set (concat css)" "\<forall>x. x \<noteq> n \<longrightarrow> map_of es0 x = map_of (ents t) x"
      "spare_ents es0 q fs' (insert n (set (concat css)))"
    using tab_entry_alloc_ok [OF free(1)] by blast
  let ?i = "sh s mod nchains t"
  let ?x = "e0\<lparr>value_data := v, value_datasz := vsz, idx := ?i\<rparr>"
  let ?es = "AList.update n ?x es0"
  let ?t1 = "t\<lparr>ents := ?es, free_ents := q\<rparr>"
  have t1: "set_ent (Some n) (\<lambda>x. x\<lparr>value_data := v, value_datasz := vsz, idx := ?i\<rparr>) (t\<lparr>ents := es0, free_ents := q\<rparr>) = Ok ?t1"
    using n(2) by (cases t) (simp add: set_ent_def)
  have w: "with_entry t css n ?x ?es" using n(6,7) by (simp del: set_concat add: with_entry_def update_conv')
  have xk: "ekey ?x = None" using n(5) by simp
  let ?k = "if matches t css s = [] then None else ekey (ent t (hd (matches t css s)))"
  let ?cs = "if css ! chain_of sh t s = [] then (chains t)[chain_of sh t s := Some n] else chains t"
  obtain es2 where s2: "(if chains t ! chain_of sh t s \<noteq> None then add_scan (length ?es) (sh s) p (Some n) (chains t ! chain_of sh t s) ?t1
        else bindR (wr (chains t) (uint ?i) (Some n)) (\<lambda>cs. Ok (False, ?t1\<lparr>chains := cs\<rparr>))) = Ok (False, ?t1\<lparr>ents := es2, chains := ?cs\<rparr>)"
      "with_entry t css n (?x\<lparr>ekey := ?k\<rparr>) es2"
    using scan_chain [OF K c k assms(3) w xk refl assms(4), of q] by blast
  have e2: "map_of es2 n = Some (?x\<lparr>ekey := ?k\<rparr>)" using s2(2) by (simp add: with_entry_def)
  let ?t2 = "t\<lparr>ents := es2, free_ents := q, chains := ?cs\<rparr>"
  obtain es3 k d h kq ks' where s3: "(if ?k = None then
       bindR (tab_key_alloc ?t2) (\<lambda>(k, t).
       bindR (set_key k (\<lambda>y. y\<lparr>key_data := Some p, key_datasz := Suc (length s), khash := sh s, knents := 0\<rparr>) t)
         (set_ent (Some n) (\<lambda>x. x\<lparr>ekey := k\<rparr>)))
      else Ok ?t2) = Ok (?t2\<lparr>ents := es3, tkeys := h, free_keys := kq\<rparr>)"
    "map_of es3 n = Some (?x\<lparr>ekey := Some k\<rparr>)" "\<forall>y. y \<noteq> n \<longrightarrow> map_of es3 y = map_of es2 y" "key_for sh t css s h k d"
    "spare_keys h kq ks' (insert (Some k) ((ekey \<circ> ent t) ` set (concat css)))"
    using choose_key [OF c k free(2) assms(3) e2 refl, where q = q and cs = ?cs] by auto
  let ?t3 = "t\<lparr>ents := es3, free_ents := q, chains := ?cs, tkeys := h, free_keys := kq\<rparr>"
  have w3: "with_entry t css n (?x\<lparr>ekey := Some k\<rparr>) es3" using s2(2) s3(2,3) by (simp del: set_concat add: with_entry_def)
  have "spare_ents es3 q fs' (insert n (set (concat css)))"
  proof (rule spare_ents_frame [OF n(8)])
    show f: "set fs' \<inter> insert n (set (concat css)) = {}" using n(8) by (simp only: spare_ents_def)
    show "map_of es3 a = map_of es0 a" if "a \<in> set fs'" for a
      using that f n(7) w3 unfolding with_entry_def by (metis disjoint_iff insertI1)
  qed
  then have "prepared sh t css s n (?x\<lparr>ekey := Some k\<rparr>) k d ?t3"
    using w3 n(3,4) s3(4,5) unfolding prepared_def by auto
  moreover have "pr_table_kadd_to p (Suc (length s)) v vsz t = bindR (tab_entry_insert (Some n) ?t3) (\<lambda>t. Ok (0, None, t))"
  proof (rule kadd_steps(2) [OF hash_key_ok [OF K assms(3)] chains_inv_index(3) [OF c] n(1) t1, where found = False])
    show "rd (chains ?t1) (uint ?i) = Ok (chains t ! chain_of sh t s)" using chains_inv_index(4) [OF c] by simp
    show "ent_at (Some n) ?t2 = Ok (?x\<lparr>ekey := ?k\<rparr>)" using e2 by (simp add: ent_at_def)
    have e: "?t1\<lparr>ents := es2, chains := ?cs\<rparr> = ?t2" by (cases t) simp
    have "ents ?t1 = ?es" "chains ?t1 = chains t" by simp_all
    then show "(if chains t ! chain_of sh t s \<noteq> None then add_scan (length (ents ?t1)) (sh s) p (Some n) (chains t ! chain_of sh t s) ?t1
        else bindR (wr (chains ?t1) (uint ?i) (Some n)) (\<lambda>cs. Ok (False, ?t1\<lparr>chains := cs\<rparr>))) = Ok (False, ?t2)"
      using s2(1) [unfolded e] by (simp only:)
    have e: "?t2\<lparr>ents := es3, tkeys := h, free_keys := kq\<rparr> = ?t3" by (cases t) simp
    have "ekey (?x\<lparr>ekey := ?k\<rparr>) = ?k" by simp
    then show "(if ekey (?x\<lparr>ekey := ?k\<rparr>) = None then
         bindR (tab_key_alloc ?t2) (\<lambda>(k, t).
         bindR (set_key k (\<lambda>y. y\<lparr>key_data := Some p, key_datasz := Suc (length s), khash := sh s, knents := 0\<rparr>) t)
           (set_ent (Some n) (\<lambda>x. x\<lparr>ekey := k\<rparr>)))
       else Ok ?t2) = Ok ?t3"
      using s3(1) [unfolded e] by (simp only:)
  qed simp
  moreover have "value_data (?x\<lparr>ekey := Some k\<rparr>) = v" "value_datasz (?x\<lparr>ekey := Some k\<rparr>) = vsz" by simp_all
  ultimately show ?thesis by blast
qed

end

section \<open>The invariant after an addition\<close>

text \<open>What additions and removals do not touch.\<close>

definition same_config :: "table_rec \<Rightarrow> table_rec \<Rightarrow> bool" where
  "same_config t t' \<longleftrightarrow> objs t' = objs t \<and> flags t' = flags t \<and> nchains t' = nchains t \<and> val_iter_ent t' = val_iter_ent t \<and>
     cache_ent t' = cache_ent t \<and> tab_iter_ent t' = tab_iter_ent t \<and> keycmp t' = keycmp t \<and> keyhash t' = keyhash t \<and> entinsert t' = entinsert t \<and> entremove t' = entremove t"

lemma unat_Suc: "Suc (unat w) < 2 ^ 32 \<Longrightarrow> unat (w + 1 :: uint32) = Suc (unat w)"
  by (simp add: unat_word_ariths(1))

lemma relinked_ent:
  assumes "relinked es es'" and "map_of es a = Some x"
  obtains y where "map_of es' a = Some y" and "y\<lparr>enext := None, eprev := None\<rparr> = x\<lparr>enext := None, eprev := None\<rparr>"
proof -
  have "map_option (\<lambda>e. e\<lparr>enext := None, eprev := None\<rparr>) (map_of es' a) = Some (x\<lparr>enext := None, eprev := None\<rparr>)"
    using assms by (simp add: relinked_def)
  then show ?thesis using that by auto
qed

lemma same_strip:
  assumes "y\<lparr>enext := None, eprev := None\<rparr> = x\<lparr>enext := None, eprev := None\<rparr>"
  shows "ekey y = ekey x" and "idx y = idx x" and "value_data y = value_data x" and "value_datasz y = value_datasz x"
  using arg_cong [OF assms, of ekey] arg_cong [OF assms, of idx] arg_cong [OF assms, of value_data] arg_cong [OF assms, of value_datasz] by simp_all

text \<open>The keys after the count of \<open>k\<close> went up.\<close>

lemma counted_key:
  assumes "key_for sh t css s h k d" and "a \<in> set (concat css)" and "ekey (ent t a) = Some j"
  shows "\<exists>d'. map_of (AList.update k (d\<lparr>knents := knents d + 1\<rparr>) h) (the (ekey (ent t a))) = Some d' \<and>
    d'\<lparr>knents := 0, knext := None\<rparr> = (ent_key t a)\<lparr>knents := 0, knext := None\<rparr> \<and> (ent_str t a \<noteq> s \<longrightarrow> knents d' = knents (ent_key t a))"
proof -
  have "map_of h j = Some (ent_key t a)" "j = k \<longleftrightarrow> ent_str t a = s" "map_of h k = Some d"
    using assms unfolding key_for_def by (metis option.sel, metis option.inject, blast)
  then show ?thesis using assms(3) by (cases "j = k") (auto simp: update_conv')
qed

text \<open>The table \<open>t'\<close> after the insertion of the prepared entry.\<close>

definition inserted :: "(cstring \<Rightarrow> uint32) \<Rightarrow> table_rec \<Rightarrow> nat list list \<Rightarrow> cstring \<Rightarrow> nat \<Rightarrow> nat \<Rightarrow> tab_key \<Rightarrow> table_rec \<Rightarrow> table_rec \<Rightarrow> bool" where
  "inserted sh t css s n k d t3 t' \<longleftrightarrow> objs t' = objs t \<and> nchains t' = nchains t \<and> nents t' = nents t + 1 \<and> chains t' = chains t3 \<and>
     free_ents t' = free_ents t3 \<and> free_keys t' = free_keys t3 \<and> tkeys t' = AList.update k (d\<lparr>knents := knents d + 1\<rparr>) (tkeys t3) \<and>
     linked t' (chains t3 ! chain_of sh t s) (css ! chain_of sh t s @ [n]) \<and> relinked (ents t3) (ents t') \<and>
     same_outside (set (css ! chain_of sh t s @ [n])) (ents t3) (ents t')"

lemma inserted_links:
  assumes "chains_inv sh t css" and "with_entry t css n x (ents t3)" and "relinked (ents t3) (ents t')"
  shows "same_but_links (set (concat css)) t t'"
  unfolding same_but_links_def
proof
  fix a assume a: "a \<in> set (concat css)"
  have "map_of (ents t) a = Some (ent t a)" using chains_inv_ent_ok [OF assms(1) a] by (simp add: ent_ok_def)
  then have "map_of (ents t3) a = Some (ent t a)" using assms(2) a unfolding with_entry_def by metis
  then show "\<exists>e. map_of (ents t') a = Some e \<and> e\<lparr>enext := None, eprev := None\<rparr> = (ent t a)\<lparr>enext := None, eprev := None\<rparr>"
    using relinked_ent [OF assms(3)] by metis
qed

lemma inserted_free:
  assumes "chains_inv sh t css" and "prepared sh t css s n x k d t3" and "inserted sh t css s n k d t3 t'"
    and "css' = css[chain_of sh t s := css ! chain_of sh t s @ [n]]"
  shows "free_inv t' css'"
proof -
  let ?i = "chain_of sh t s"
  have i: "?i < length css" using chains_inv_index(1) [OF assms(1)] .
  have A: "set (concat css') = insert n (set (concat css))" using concat_append [OF i, of "[n]"] assms(4) by (simp del: set_concat)
  have w: "with_entry t css n x (ents t3)" using assms(2) by (simp add: prepared_def)
  obtain fs ks where f: "spare_ents (ents t3) (free_ents t3) fs (insert n (set (concat css)))"
      "spare_keys (tkeys t3) (free_keys t3) ks (insert (Some k) ((ekey \<circ> ent t) ` set (concat css)))"
    using assms(2) by (auto simp: prepared_def)
  have "spare_ents (ents t') (free_ents t') fs (set (concat css'))"
    unfolding A
  proof (rule spare_ents_frame)
    show "spare_ents (ents t3) (free_ents t') fs (insert n (set (concat css)))" using f(1) assms(3) by (simp add: inserted_def)
    show d: "set fs \<inter> insert n (set (concat css)) = {}" using f(1) by (simp only: spare_ents_def)
    show "map_of (ents t') a = map_of (ents t3) a" if "a \<in> set fs" for a
    proof -
      have "a \<notin> set (css ! ?i @ [n])" using that d set_chain_subset [OF i] by auto
      then show ?thesis using assms(3) by (simp add: inserted_def same_outside_def)
    qed
  qed
  moreover have ky: "(ekey \<circ> ent t') a \<in> insert (Some k) ((ekey \<circ> ent t) ` set (concat css))" if a: "a \<in> set (concat css')" for a
  proof (cases "a = n")
    case True
    have "map_of (ents t3) n = Some x" "ekey x = Some k" "relinked (ents t3) (ents t')"
      using assms(2,3) by (auto simp: prepared_def with_entry_def inserted_def)
    then obtain y where "map_of (ents t') n = Some y" "ekey y = ekey x" using relinked_ent same_strip(1) by metis
    then show ?thesis using True \<open>ekey x = Some k\<close> by (simp add: ent_def)
  next
    case False
    then have b: "a \<in> set (concat css)" using a A by blast
    have "relinked (ents t3) (ents t')" using assms(3) by (simp add: inserted_def)
    then have "ekey (ent t' a) = ekey (ent t a)" using same_but_links_ent(1) [OF inserted_links [OF assms(1) w] b] by blast
    then show ?thesis using b by (metis comp_apply imageI insertCI)
  qed
  have "spare_keys (tkeys t') (free_keys t') ks ((ekey \<circ> ent t') ` set (concat css'))"
  proof (rule spare_keys_frame)
    show "spare_keys (tkeys t3) (free_keys t') ks (insert (Some k) ((ekey \<circ> ent t) ` set (concat css)))"
      using f(2) assms(3) by (simp only: inserted_def)
    show "Some j \<notin> (ekey \<circ> ent t') ` set (concat css')" if "j \<in> set ks" for j
      using that f(2) ky unfolding spare_keys_def by (metis imageE)
    have "k \<notin> set ks" using f(2) unfolding spare_keys_def by blast
    then show "map_of (tkeys t') j = map_of (tkeys t3) j" if "j \<in> set ks" for j
      using that assms(3) by (auto simp: inserted_def update_conv')
  qed
  ultimately show ?thesis unfolding free_inv_def by blast
qed

lemma inserted_inv:
  assumes "table_inv sh t css" and "prepared sh t css s n x k d t3" and "inserted sh t css s n k d t3 t'" and "Suc (length (concat css)) < 2 ^ 32"
  defines "css' \<equiv> css[chain_of sh t s := css ! chain_of sh t s @ [n]]"
  shows "table_inv sh t' css' \<and> (\<forall>s'. stored t' css' s' = stored t css s' @ (if s' = s then [(value_data x, value_datasz x)] else []))"
proof -
  let ?i = "chain_of sh t s"
  have c: "chains_inv sh t css" and kk: "keys_inv t css" using assms(1) by (simp_all add: table_inv_def)
  have i: "?i < length css" "length css = length (chains t)" using chains_inv_index(1,2) [OF c] by auto
  have w: "with_entry t css n x (ents t3)" and k: "key_for sh t css s (tkeys t3) k d" and x: "ekey x = Some k" "idx x = sh s mod nchains t"
    using assms(2) by (auto simp: prepared_def)
  have r: "relinked (ents t3) (ents t')" using assms(3) by (simp add: inserted_def)
  have n: "n \<notin> set (concat css)" "map_of (ents t3) n = Some x" using w unfolding with_entry_def by blast+
  obtain y where y: "map_of (ents t') n = Some y" "ekey y = Some k" "idx y = sh s mod nchains t" "value_data y = value_data x" "value_datasz y = value_datasz x"
    using relinked_ent [OF r n(2)] same_strip x by metis
  obtain p where p: "key_data d = Some p" "is_str t p s" using k by (auto simp: key_for_def)
  have m: "length (matches t css s) \<le> length (concat css)" by (rule length_filter_le)
  have "table_inv sh t' (css[?i := css ! ?i @ [n]]) \<and> ent_str t' n = s \<and>
      (\<forall>s'. stored t' (css[?i := css ! ?i @ [n]]) s' = stored t css s' @ (if s' = s then [ent_val t' n] else []))"
  proof (rule inv_add [OF assms(1) refl, where q = "chains t3 ! ?i" and e = y and k = k and d = "d\<lparr>knents := knents d + 1\<rparr>" and p = p])
    show "objs t' = objs t" "nchains t' = nchains t" "linked t' (chains t3 ! ?i) (css ! ?i @ [n])"
      "map_of (tkeys t') k = Some (d\<lparr>knents := knents d + 1\<rparr>)"
      using assms(3) by (auto simp: inserted_def update_conv')
    show "chains t' = (chains t)[?i := chains t3 ! ?i]" using assms(2,3) i by (auto simp: inserted_def prepared_def)
    show "same_but_links (set (concat css)) t t'" by (rule inserted_links [OF c w r])
    show "idx y = word_of_nat ?i" using y(3) by (simp add: chain_of_def)
    show "key_data (d\<lparr>knents := knents d + 1\<rparr>) = Some p" "khash (d\<lparr>knents := knents d + 1\<rparr>) = sh s"
      "key_datasz (d\<lparr>knents := knents d + 1\<rparr>) = Suc (length s)" using p k by (simp_all add: key_for_def)
    have u: "unat (knents d) = length (matches t css s)" using k by (simp only: key_for_def)
    then have "Suc (unat (knents d)) \<le> Suc (length (concat css))" using m by (simp only: Suc_le_mono)
    then have "unat (knents d + 1) = Suc (unat (knents d))" by (rule unat_Suc [OF le_less_trans [OF _ assms(4)]])
    then show "unat (knents (d\<lparr>knents := knents d + 1\<rparr>)) = Suc (length (matches t css s))" using u by simp
    show "\<forall>a \<in> set (concat css). (ekey (ent t a) = Some k) = (ent_str t a = s)" using k unfolding key_for_def by blast
    have "unat (nents t) = length (concat css)" using kk by (simp only: keys_inv_def)
    then show "unat (nents t') = Suc (length (concat css))" using unat_Suc [of "nents t"] assms(3,4) by (simp add: inserted_def)
    show "free_inv t' (css[?i := css ! ?i @ [n]])" by (rule inserted_free [OF c assms(2,3) refl])
    show "\<forall>a \<in> set (concat css). \<exists>d'. map_of (tkeys t') (the (ekey (ent t a))) = Some d' \<and>
        d'\<lparr>knents := 0, knext := None\<rparr> = (ent_key t a)\<lparr>knents := 0, knext := None\<rparr> \<and> (ent_str t a \<noteq> s \<longrightarrow> knents d' = knents (ent_key t a))"
    proof
      fix a assume a: "a \<in> set (concat css)"
      obtain j where "ekey (ent t a) = Some j" using used_key [OF chains_inv_ent_ok [OF c a]] by blast
      moreover have "tkeys t' = AList.update k (d\<lparr>knents := knents d + 1\<rparr>) (tkeys t3)" using assms(3) by (simp add: inserted_def)
      ultimately show "\<exists>d'. map_of (tkeys t') (the (ekey (ent t a))) = Some d' \<and>
          d'\<lparr>knents := 0, knext := None\<rparr> = (ent_key t a)\<lparr>knents := 0, knext := None\<rparr> \<and> (ent_str t a \<noteq> s \<longrightarrow> knents d' = knents (ent_key t a))"
        using counted_key [OF k a] by metis
    qed
    show "\<forall>j < length css. j \<noteq> ?i \<longrightarrow> (\<forall>a \<in> set (css ! j). map_of (ents t') a = map_of (ents t) a)"
    proof (intro allI impI ballI)
      fix j a assume j: "j < length css" "j \<noteq> ?i" "a \<in> set (css ! j)"
      then have a: "a \<in> set (concat css)" using set_chain_subset by blast
      then have "a \<noteq> n" using n(1) by blast
      moreover have "a \<notin> set (css ! ?i)" using c i(1) j unfolding chains_inv_def by metis
      ultimately have "map_of (ents t') a = map_of (ents t3) a" using assms(3) by (simp add: inserted_def same_outside_def)
      then show "map_of (ents t') a = map_of (ents t) a" using w \<open>a \<noteq> n\<close> unfolding with_entry_def by metis
    qed
  qed (fact n(1) y(1) y(2) p(2))+
  moreover have "ent_val t' n = (value_data x, value_datasz x)" using y by (simp add: ent_val_def ent_def)
  ultimately show ?thesis unfolding css'_def by simp
qed

section \<open>\<open>pr_table_kadd\<close> and \<open>pr_table_add\<close>\<close>

context table_callbacks
begin

lemma prepared_inserted:
  assumes "served t" and "chains_inv sh t css" and "prepared sh t css s n x k d t3" and "t3 = t\<lparr>ents := es, free_ents := q, chains := cs, tkeys := h, free_keys := kq\<rparr>"
  shows "\<exists>t'. tab_entry_insert (Some n) t3 = Ok t' \<and> inserted sh t css s n k d t3 t' \<and> same_config t t'"
proof -
  let ?i = "chain_of sh t s"
  have i: "?i < length css" "length css = length (chains t)" using chains_inv_index(1,2) [OF assms(2)] by auto
  have len: "length (chains t3) = length (chains t)" using assms(3) by (simp add: prepared_def)
  have w: "with_entry t css n x (ents t3)" using assms(3) by (simp add: prepared_def)
  have lk: "if css ! ?i = [] then chains t3 ! ?i = Some n else linked t3 (chains t3 ! ?i) (css ! ?i) \<and> n \<notin> set (css ! ?i)"
  proof (cases "css ! ?i = []")
    case True
    then show ?thesis using assms(3) i by (simp add: prepared_def)
  next
    case False
    then have ch: "chains t3 = chains t" using assms(3) by (simp add: prepared_def)
    have n: "n \<notin> set (css ! ?i)" using w set_chain_subset [OF i(1)] unfolding with_entry_def by blast
    obtain l where "dsegment enext eprev (ents t) None (chains t ! ?i) (css ! ?i) l None" using chains_inv_chain(1) [OF assms(2)] by blast
    moreover have "map_of (ents t3) a = map_of (ents t) a" if "a \<in> set (css ! ?i)" for a using w that n unfolding with_entry_def by metis
    ultimately have "dsegment enext eprev (ents t3) None (chains t ! ?i) (css ! ?i) l None" using dsegment_cong [of "css ! ?i" "ents t3" "ents t"] by metis
    then show ?thesis using ch n False by auto
  qed
  have "\<exists>es. tab_entry_insert (Some n) t3 =
      Ok (t3\<lparr>ents := es, tkeys := AList.update k (d\<lparr>knents := knents d + 1\<rparr>) (tkeys t3), nents := nents t3 + 1\<rparr>) \<and>
    (\<exists>l. dsegment enext eprev es None (chains t3 ! ?i) (css ! ?i @ [n]) l None) \<and> relinked (ents t3) es \<and> same_outside (set (css ! ?i @ [n])) (ents t3) es"
  proof (rule tab_entry_insert_ok [where x = x])
    show "entinsert t3 = ins" using assms(1,4) by (simp add: served_def)
    show "map_of (ents t3) n = Some x" using w by (simp add: with_entry_def)
    show "idx x = word_of_nat ?i" using assms(3) by (simp add: prepared_def chain_of_def)
    show "?i < length (chains t3)" using i len by simp
    show "length (chains t3) = unat (nchains t3)" using assms(2,4) len by (simp add: chains_inv_def)
  qed (use assms(3) lk in \<open>simp_all add: prepared_def key_for_def\<close>)
  then obtain es' where e: "tab_entry_insert (Some n) t3 =
        Ok (t3\<lparr>ents := es', tkeys := AList.update k (d\<lparr>knents := knents d + 1\<rparr>) (tkeys t3), nents := nents t3 + 1\<rparr>)"
      "\<exists>l. dsegment enext eprev es' None (chains t3 ! ?i) (css ! ?i @ [n]) l None" "relinked (ents t3) es'" "same_outside (set (css ! ?i @ [n])) (ents t3) es'"
    by blast
  show ?thesis
    by (rule exI [of _ "t3\<lparr>ents := es', tkeys := AList.update k (d\<lparr>knents := knents d + 1\<rparr>) (tkeys t3), nents := nents t3 + 1\<rparr>"])
      (use e assms(4) in \<open>simp add: inserted_def same_config_def\<close>)
qed

lemma kadd_new:
  assumes "served t" and "table_inv sh t css" and "is_str t p s" and "flag PR_TABLE_FL_MULTI_VALUE t \<or> matches t css s = []"
    and "Suc (length (concat css)) < 2 ^ 32"
  shows "\<exists>t' css'. pr_table_kadd_to p (Suc (length s)) v vsz t = Ok (0, None, t') \<and> table_inv sh t' css' \<and>
    (\<forall>s'. stored t' css' s' = stored t css s' @ (if s' = s then [(v, vsz)] else [])) \<and> same_config t t' \<and>
    set (concat css) \<subseteq> set (concat css') \<and> nents t' = nents t + 1"
proof -
  have c: "chains_inv sh t css" using assms(2) by (simp add: table_inv_def)
  obtain n x k d t3 es q cs h kq where a: "pr_table_kadd_to p (Suc (length s)) v vsz t = bindR (tab_entry_insert (Some n) t3) (\<lambda>t. Ok (0, None, t))"
      "prepared sh t css s n x k d t3" "value_data x = v" "value_datasz x = vsz"
      "t3 = t\<lparr>ents := es, free_ents := q, chains := cs, tkeys := h, free_keys := kq\<rparr>"
    using kadd_prepared [OF assms(1-4), of v vsz] by blast
  obtain t' where t': "tab_entry_insert (Some n) t3 = Ok t'" "inserted sh t css s n k d t3 t'" "same_config t t'"
    using prepared_inserted [OF assms(1) c a(2,5)] by blast
  let ?i = "chain_of sh t s"
  have "set (concat css) \<subseteq> set (concat (css[?i := css ! ?i @ [n]]))"
    using concat_append [OF chains_inv_index(1) [OF c], of s "[n]"] by blast
  moreover have "nents t' = nents t + 1" using t'(2) by (simp add: inserted_def)
  ultimately show ?thesis using inserted_inv [OF assms(2) a(2) t'(2) assms(5)] a t'
    by (intro exI [of _ t'] exI [of _ "css[?i := css ! ?i @ [n]]"]) simp
qed

text \<open>A second value for a key, in a table without multiple values: the entry that was allocated for it is
  lost, but what is stored is unchanged.\<close>

lemma kadd_exists:
  assumes "served t" and "table_inv sh t css" and "is_str t p s" and "\<not> flag PR_TABLE_FL_MULTI_VALUE t" and "matches t css s \<noteq> []"
  shows "\<exists>t'. pr_table_kadd_to p (Suc (length s)) v vsz t = Ok (- 1, Some EEXIST, t') \<and> table_inv sh t' css \<and>
    (\<forall>s'. stored t' css s' = stored t css s') \<and> same_config t t' \<and> nents t' = nents t"
proof -
  have c: "chains_inv sh t css" and k: "keys_inv t css" and f: "free_inv t css" and K: "keyed t"
    using assms(1,2) by (simp_all add: table_inv_def served_def)
  obtain fs where fs: "spare_ents (ents t) (free_ents t) fs (set (concat css))" using f unfolding free_inv_def by blast
  have "\<forall>a \<in> set (concat css). map_of (ents t) a \<noteq> None" using chains_inv_ent_ok [OF c] by (auto simp: ent_ok_def)
  then obtain n e0 es0 q fs' where n: "tab_entry_alloc t = Ok (Some n, t\<lparr>ents := es0, free_ents := q\<rparr>)" "map_of es0 n = Some e0"
      "n \<notin> set (concat css)" "\<forall>x. x \<noteq> n \<longrightarrow> map_of es0 x = map_of (ents t) x" "spare_ents es0 q fs' (insert n (set (concat css)))"
    using tab_entry_alloc_ok [OF fs] by blast
  let ?x = "e0\<lparr>value_data := v, value_datasz := vsz, idx := sh s mod nchains t\<rparr>"
  let ?es = "AList.update n ?x es0"
  let ?t1 = "t\<lparr>ents := ?es, free_ents := q\<rparr>"
  have w: "with_entry t css n ?x ?es" using n(3,4) by (simp del: set_concat add: with_entry_def update_conv')
  note ex = scan_exists [OF K c assms(3) w refl assms(4,5), of q]
  have t1: "set_ent (Some n) (\<lambda>x. x\<lparr>value_data := v, value_datasz := vsz, idx := sh s mod nchains t\<rparr>) (t\<lparr>ents := es0, free_ents := q\<rparr>) = Ok ?t1"
    using n(2) by (cases t) (simp add: set_ent_def)
  have "pr_table_kadd_to p (Suc (length s)) v vsz t = Ok (- 1, Some EEXIST, ?t1)"
    by (rule kadd_steps(1) [OF hash_key_ok [OF K assms(3)] chains_inv_index(3) [OF c] n(1) t1, where found = True and e = "chains t ! chain_of sh t s"])
      (use chains_inv_index(4) [OF c] ex in simp_all)
  moreover have "table_inv sh ?t1 css \<and> (\<forall>s'. stored ?t1 css s' = stored t css s')"
  proof (rule table_inv_frame [OF assms(2)])
    show "map_of (ents ?t1) a = map_of (ents t) a" if "a \<in> set (concat css)" for a
      using w that unfolding with_entry_def by (metis table_rec.select_convs(2) table_rec.surjective table_rec.update_convs(2,8))
    have d: "set fs' \<inter> insert n (set (concat css)) = {}" using n(5) by (simp only: spare_ents_def)
    have "spare_ents ?es q fs' (set (concat css))"
      by (rule spare_ents_frame [OF n(5)]) (use d in \<open>auto simp: update_conv'\<close>)
    then show "\<exists>fs. spare_ents (ents ?t1) (free_ents ?t1) fs (set (concat css))" by auto
  qed simp_all
  ultimately show ?thesis by (intro exI [of _ ?t1]) (simp add: same_config_def)
qed

end

end
