(* ===== verification/Ftp_Remove.thy ===== *)
theory Ftp_Remove
  imports Ftp_Add
begin

text \<open>
  Removals from the hash table of proftpd: the first entry of a chain is removed as intended, the free lists
  grow by the entry and, with its last entry, by the key. \<open>pr_table_empty\<close> only ever removes first entries.
\<close>

section \<open>Free lists\<close>

interpretation kl: next_field knext "\<lambda>p. knext_update (\<lambda>_. p)"
  by unfold_locales simp

interpretation el: next_field enext "\<lambda>p. enext_update (\<lambda>_. p)"
  by unfold_locales simp

lemma last_of_chain:
  assumes "chain nxt h p (us @ [b])"
  shows "\<exists>a. p = Some a \<and> last_node nxt (length h) h a = Ok b"
proof -
  obtain a as where a: "us @ [b] = a # as" by (cases us) auto
  then have c: "chain nxt h p (a # as)" using assms by simp
  then have "p = Some a" by simp
  moreover have "last_node nxt (length h) h a = Ok (last (a # as))"
    by (rule last_node_chain) (use c chain_length [OF c] in auto)
  ultimately show ?thesis by (simp only: a [symmetric] last_snoc) blast
qed

lemma tab_key_free_ok:
  assumes "spare_keys (tkeys t) (free_keys t) ks K" and "k \<notin> set ks" and "map_of (tkeys t) k = Some d"
  shows "\<exists>h q. tab_key_free (Some k) t = Ok (t\<lparr>tkeys := h, free_keys := q\<rparr>) \<and> spare_keys h q (ks @ [k]) (K - {Some k}) \<and>
    (\<forall>x. x \<notin> set (ks @ [k]) \<longrightarrow> map_of h x = map_of (tkeys t) x)"
proof -
  let ?h = "AList.update k zero_key (tkeys t)"
  have c: "chain knext ?h (free_keys t) ks"
    by (subst segment_cong [where h' = "tkeys t"]) (use assms(1,2) in \<open>auto simp: spare_keys_def update_conv'\<close>)
  have K: "\<forall>x \<in> set (ks @ [k]). Some x \<notin> K - {Some k}" using assms(1) by (auto simp: spare_keys_def)
  show ?thesis
  proof (cases ks rule: rev_cases)
    case Nil
    then have "tab_key_free (Some k) t = Ok (t\<lparr>tkeys := ?h, free_keys := Some k\<rparr>)" using c assms(3) by (simp add: tab_key_free_def set_key_def)
    moreover have "spare_keys ?h (Some k) (ks @ [k]) (K - {Some k})" using Nil K by (simp add: spare_keys_def update_conv' zero_key_def)
    ultimately show ?thesis using Nil by (intro exI [of _ ?h] exI [of _ "Some k"]) (simp add: update_conv')
  next
    case (snoc us b)
    then obtain m where m: "map_of ?h b = Some m" using c by auto
    obtain a where l: "free_keys t = Some a" "last_node knext (length ?h) ?h a = Ok b" using last_of_chain c snoc by blast
    let ?h' = "AList.update b (m\<lparr>knext := Some k\<rparr>) ?h"
    have "tab_key_free (Some k) t = Ok (t\<lparr>tkeys := ?h', free_keys := free_keys t\<rparr>)"
      using assms(3) l m by (simp add: tab_key_free_def set_key_def)
    moreover have "chain knext ?h' (free_keys t) (ks @ [k])"
      using kl.append_node [of ?h "free_keys t" us b m k zero_key] c snoc m assms(2) by (simp add: update_conv' zero_key_def)
    then have "spare_keys ?h' (free_keys t) (ks @ [k]) (K - {Some k})" using K by (simp add: spare_keys_def)
    ultimately show ?thesis using snoc by (intro exI [of _ ?h'] exI [of _ "free_keys t"]) (simp add: update_conv')
  qed
qed

lemma tab_entry_free_ok:
  assumes "spare_ents (ents t) (free_ents t) fs A" and "a \<notin> set fs" and "a \<notin> A" and "map_of (ents t) a = Some x"
  shows "\<exists>es q. tab_entry_free (Some a) t = Ok (t\<lparr>ents := es, free_ents := q\<rparr>) \<and> spare_ents es q (fs @ [a]) A \<and>
    (\<forall>x. x \<notin> set (fs @ [a]) \<longrightarrow> map_of es x = map_of (ents t) x)"
proof -
  let ?es = "AList.update a zero_entry (ents t)"
  have s: "spare_ents ?es (free_ents t) fs A"
    by (rule spare_ents_frame [OF assms(1)]) (use assms(1,2) in \<open>auto simp: spare_ents_def update_conv'\<close>)
  then have c: "chain enext ?es (free_ents t) fs" by (simp add: spare_ents_def)
  show ?thesis
  proof (cases fs rule: rev_cases)
    case Nil
    then have "tab_entry_free (Some a) t = Ok (t\<lparr>ents := ?es, free_ents := Some a\<rparr>)" using c assms(4) by (simp add: tab_entry_free_def set_ent_def)
    moreover have "spare_ents ?es (Some a) (fs @ [a]) A" using Nil assms(3) by (simp add: spare_ents_def update_conv' zero_entry_def)
    ultimately show ?thesis using Nil by (intro exI [of _ ?es] exI [of _ "Some a"]) (simp add: update_conv')
  next
    case (snoc us b)
    then obtain m where m: "map_of ?es b = Some m" using c by auto
    obtain e where l: "free_ents t = Some e" "last_node enext (length ?es) ?es e = Ok b" using last_of_chain c snoc by blast
    let ?es' = "AList.update b (m\<lparr>enext := Some a\<rparr>) ?es"
    have "tab_entry_free (Some a) t = Ok (t\<lparr>ents := ?es', free_ents := free_ents t\<rparr>)"
      using assms(4) l m by (simp add: tab_entry_free_def set_ent_def)
    moreover have "chain enext ?es' (free_ents t) (fs @ [a])"
      using el.append_node [of ?es "free_ents t" us b m a zero_entry] c snoc m assms(2) by (simp add: update_conv' zero_entry_def)
    moreover have "ekey (the (map_of ?es' x)) = None \<and> eprev (the (map_of ?es' x)) = None" if "x \<in> set (fs @ [a])" for x
    proof -
      have "ekey (the (map_of ?es x)) = None \<and> eprev (the (map_of ?es x)) = None"
        using that s by (auto simp: spare_ents_def update_conv' zero_entry_def)
      then show ?thesis using m by (auto simp: update_conv' split: if_splits)
    qed
    ultimately have "spare_ents ?es' (free_ents t) (fs @ [a]) A \<and> tab_entry_free (Some a) t = Ok (t\<lparr>ents := ?es', free_ents := free_ents t\<rparr>)"
      using assms(1,3) by (simp add: spare_ents_def)
    then show ?thesis using snoc by (intro exI [of _ ?es'] exI [of _ "free_ents t"]) (simp add: update_conv')
  qed
qed

section \<open>The invariant after a removal\<close>

lemma matches_remove:
  assumes "chains_inv sh t css" and "i < length css" and "css ! i = a # as"
  shows "matches t css s = (if s = ent_str t a then [a] else []) @ matches t (css[i := as]) s"
proof -
  have ch: "chain_of sh t (ent_str t b) = j" if "j < length css" "b \<in> set (css ! j)" for j b using assms(1) that unfolding chains_inv_def by blast
  have "filter (\<lambda>b. ent_str t b = s) (concat (css[i := as])) = filter (\<lambda>b. ent_str t b = s) (css[i := as] ! chain_of sh t s)"
  proof (rule filter_concat)
    show "chain_of sh t s < length (css[i := as])" using chains_inv_index(1) [OF assms(1)] by simp
    show "ent_str t x \<noteq> s" if j: "j < length (css[i := as])" "j \<noteq> chain_of sh t s" "x \<in> set (css[i := as] ! j)" for j x
    proof -
      have "x \<in> set (css ! j)" using j assms(2,3) by (cases "j = i") auto
      then show ?thesis using ch [of j x] j by auto
    qed
  qed
  moreover have "chain_of sh t (ent_str t a) = i" using ch [of i a] assms(2,3) by simp
  ultimately show ?thesis using stored_chain [OF assms(1), of s] assms(2,3) by (cases "chain_of sh t s = i") auto
qed

lemma inv_remove:
  assumes inv: "table_inv sh t css" and i: "i < length css" "css ! i = a # as"
    and same: "objs t' = objs t" "nchains t' = nchains t" "chains t' = (chains t)[i := q]" "linked t' q as"
      "same_but_links (set (concat (css[i := as]))) t t'"
    and others: "\<And>j b. j < length css \<Longrightarrow> j \<noteq> i \<Longrightarrow> b \<in> set (css ! j) \<Longrightarrow> map_of (ents t') b = map_of (ents t) b"
    and keys: "\<And>b. b \<in> set (concat (css[i := as])) \<Longrightarrow> \<exists>d. map_of (tkeys t') (the (ekey (ent t b))) = Some d \<and>
      d\<lparr>knents := 0, knext := None\<rparr> = (ent_key t b)\<lparr>knents := 0, knext := None\<rparr> \<and> unat (knents d) = length (matches t (css[i := as]) (ent_str t b))"
    and count: "unat (nents t') = length (concat (css[i := as]))" and free: "free_inv t' (css[i := as])"
  shows "table_inv sh t' (css[i := as]) \<and> (\<forall>s. stored t css s = (if s = ent_str t a then [ent_val t a] else []) @ stored t' (css[i := as]) s)"
proof -
  let ?css = "css[i := as]"
  have c: "chains_inv sh t css" and k: "keys_inv t css" using inv by (simp_all add: table_inv_def)
  have sub: "set (concat ?css) \<subseteq> set (concat css)" using concat_update(1) [OF i(1), of as] set_chain_subset [OF i(1)] i(2) by auto
  have o: "ent_ok sh t' b \<and> ent_str t' b = ent_str t b \<and> unat (knents (ent_key t' b)) = length (matches t ?css (ent_str t b))"
    if b: "b \<in> set (concat ?css)" for b
  proof -
    obtain d where d: "map_of (tkeys t') (the (ekey (ent t b))) = Some d" "d\<lparr>knents := 0, knext := None\<rparr> = (ent_key t b)\<lparr>knents := 0, knext := None\<rparr>"
        "unat (knents d) = length (matches t ?css (ent_str t b))"
      using keys [OF b] by blast
    have "ent_ok sh t b" using chains_inv_ent_ok [OF c] sub b by blast
    then show ?thesis using ent_ok_transfer [OF _ same_but_links_ent(4,1) [OF same(5) b] same(1) d(1,2)] d(3) by simp
  qed
  have L: "linked t' (chains t' ! j) (?css ! j)" if j: "j < length ?css" for j
  proof (cases "j = i")
    case True
    then show ?thesis using same(3,4) i(1) chains_inv_index(2) [OF c] by simp
  next
    case False
    then obtain l where "dsegment enext eprev (ents t) None (chains t ! j) (css ! j) l None" using c j unfolding chains_inv_def by auto
    then have "dsegment enext eprev (ents t') None (chains t ! j) (css ! j) l None"
      by (subst dsegment_cong [where h = "ents t"]) (use others False j in auto)
    then show ?thesis using False same(3) by auto
  qed
  have O: "ent_ok sh t' b \<and> idx (ent t' b) = word_of_nat j \<and> chain_of sh t' (ent_str t' b) = j" if j: "j < length ?css" "b \<in> set (?css ! j)" for j b
  proof -
    have b: "b \<in> set (concat ?css)" using j set_chain_subset by blast
    have "b \<in> set (css ! j)" "j < length css" using j i by (cases "j = i"; simp)+
    then have "idx (ent t b) = word_of_nat j \<and> chain_of sh t (ent_str t b) = j" using c unfolding chains_inv_def by blast
    then show ?thesis using o [OF b] same_but_links_ent(2) [OF same(5) b] same(2) by (simp add: chain_of_def)
  qed
  have "nchains t' \<noteq> 0 \<and> length (chains t') = unat (nchains t') \<and> length ?css = unat (nchains t')"
    using c same(2,3) unfolding chains_inv_def by simp
  then have c': "chains_inv sh t' ?css" unfolding chains_inv_def using L O by blast
  have m: "matches t' ?css s = matches t ?css s" for s by (rule filter_cong) (simp_all add: o)
  have "keys_inv t' ?css"
    unfolding keys_inv_def m
  proof (intro conjI ballI impI)
    fix b e assume b: "b \<in> set (concat ?css)" "e \<in> set (concat ?css)" "ent_str t' b = ent_str t' e"
    then have "ekey (ent t b) = ekey (ent t e)" using k o sub unfolding keys_inv_def by (metis subsetD)
    then show "ekey (ent t' b) = ekey (ent t' e)" using same_but_links_ent(1) [OF same(5)] b by metis
  next
    fix b assume "b \<in> set (concat ?css)"
    then show "unat (knents (ent_key t' b)) = length (matches t ?css (ent_str t' b))" using o by metis
  qed (fact count)
  moreover have "stored t' ?css s = map (ent_val t) (matches t ?css s)" for s
    unfolding stored_def m by (rule map_cong) (auto simp: same_but_links_ent(3) [OF same(5)] simp del: set_concat)
  then have "stored t css s = (if s = ent_str t a then [ent_val t a] else []) @ stored t' ?css s" for s
    unfolding stored_def [of t css] matches_remove [OF c i] by simp
  ultimately show ?thesis using c' free unfolding table_inv_def by blast
qed

section \<open>The removal of the first entry of a chain\<close>

lemma unat_pred: "unat w = Suc n \<Longrightarrow> unat (w - 1 :: uint32) = n"
  by (metis diff_Suc_1 nat.distinct(1) unat_0 unat_minus_one)

lemma keys_inv_share:
  "keys_inv t css \<Longrightarrow> a \<in> set (concat css) \<Longrightarrow> b \<in> set (concat css) \<Longrightarrow> ent_str t a = ent_str t b \<Longrightarrow> ekey (ent t a) = ekey (ent t b)"
  unfolding keys_inv_def by blast

lemma keys_inv_count: "keys_inv t css \<Longrightarrow> a \<in> set (concat css) \<Longrightarrow> unat (knents (ent_key t a)) = length (matches t css (ent_str t a))"
  unfolding keys_inv_def by blast

text \<open>The key of a removed entry: its count goes down, and at 0 the key goes to the free list.\<close>

lemma release_key:
  assumes "table_inv sh t css" and "i < length css" and "css ! i = a # as" and "ekey (ent t a) = Some k" and "d = ent_key t a"
    and "spare_keys (tkeys t) (free_keys t) ks ((ekey \<circ> ent t) ` set (concat css))"
    and "t2 = t\<lparr>ents := es, chains := cs, tkeys := AList.update k (d\<lparr>knents := knents d - 1\<rparr>) (tkeys t)\<rparr>" and "map_of es a = Some y"
  shows "\<exists>es' h kq ks'. (if knents d - 1 = 0 then bindR (tab_key_free (Some k) t2) (set_ent (Some a) (\<lambda>x. x\<lparr>ekey := None\<rparr>)) else Ok t2) =
      Ok (t\<lparr>ents := es', chains := cs, tkeys := h, free_keys := kq\<rparr>) \<and> (\<forall>x. x \<noteq> a \<longrightarrow> map_of es' x = map_of es x) \<and> map_of es' a \<noteq> None \<and>
    spare_keys h kq ks' ((ekey \<circ> ent t) ` set (concat (css[i := as]))) \<and>
    (\<forall>b \<in> set (concat (css[i := as])). \<exists>d'. map_of h (the (ekey (ent t b))) = Some d' \<and>
      d'\<lparr>knents := 0, knext := None\<rparr> = (ent_key t b)\<lparr>knents := 0, knext := None\<rparr> \<and>
      unat (knents d') = length (matches t (css[i := as]) (ent_str t b)))"
proof -
  let ?css = "css[i := as]" and ?K = "(ekey \<circ> ent t) ` set (concat css)" and ?d = "d\<lparr>knents := knents d - 1\<rparr>"
  let ?h = "AList.update k ?d (tkeys t)"
  have c: "chains_inv sh t css" and kk: "keys_inv t css" using assms(1) by (simp_all add: table_inv_def)
  have sub: "set (concat ?css) \<subseteq> set (concat css)" using concat_update(1) [OF assms(2), of as] set_chain_subset [OF assms(2)] assms(3) by auto
  have a: "a \<in> set (concat css)" using set_chain_subset [OF assms(2)] assms(3) by auto
  have u: "unat (knents d - 1) = length (matches t ?css (ent_str t a))"
    by (rule unat_pred) (use keys_inv_count [OF kk a] assms(5) matches_remove [OF c assms(2,3), of "ent_str t a"] in simp)
  have key: "\<exists>j. ekey (ent t b) = Some j \<and> map_of (tkeys t) j = Some (ent_key t b) \<and> j \<notin> set ks" if "b \<in> set (concat css)" for b
    using used_key [OF chains_inv_ent_ok [OF c that]] assms(6) that unfolding spare_keys_def by (metis comp_apply imageI)
  have kd: "k \<notin> set ks" "map_of (tkeys t) k = Some d" using key [OF a] assms(4,5) by auto
  have str: "ent_str t b = ent_str t a" if "ekey (ent t b) = Some k" for b using that assms(4) by (simp add: ent_str_def ent_key_def)
  have cnt: "unat (knents (ent_key t b)) = length (matches t ?css (ent_str t b))" if "b \<in> set (concat ?css)" "ent_str t b \<noteq> ent_str t a" for b
    using keys_inv_count [OF kk subsetD [OF sub that(1)]] that(2) matches_remove [OF c assms(2,3), of "ent_str t b"] by simp
  have s: "spare_keys ?h (free_keys t) ks (insert (Some k) ?K)"
    by (rule spare_keys_frame [OF assms(6)]) (use assms(6) kd(1) in \<open>auto simp: update_conv' spare_keys_def\<close>)
  show ?thesis
  proof (cases "knents d - 1 = 0")
    case False
    have "\<exists>d'. map_of ?h (the (ekey (ent t b))) = Some d' \<and> d'\<lparr>knents := 0, knext := None\<rparr> = (ent_key t b)\<lparr>knents := 0, knext := None\<rparr> \<and>
        unat (knents d') = length (matches t ?css (ent_str t b))" if b: "b \<in> set (concat ?css)" for b
    proof -
      have bb: "b \<in> set (concat css)" using b sub by blast
      obtain j where j: "ekey (ent t b) = Some j" "map_of (tkeys t) j = Some (ent_key t b)" using key [OF bb] by blast
      show ?thesis
      proof (cases "j = k")
        case True
        then show ?thesis using j kd(2) u str [of b] by (simp add: update_conv')
      next
        case False
        have "ent_str t b \<noteq> ent_str t a" using keys_inv_share [OF kk a bb] False j(1) assms(4) by auto
        then show ?thesis using False j cnt [OF b] by (simp add: update_conv')
      qed
    qed
    moreover have "spare_keys ?h (free_keys t) ks ((ekey \<circ> ent t) ` set (concat ?css))"
      using s sub unfolding spare_keys_def by blast
    ultimately show ?thesis using False assms(7,8)
      by (intro exI [of _ es] exI [of _ ?h] exI [of _ "free_keys t"] exI [of _ ks]) simp
  next
    case True
    then have none: "matches t ?css (ent_str t a) = []" using u by simp
    have "map_of (tkeys t2) k = Some ?d" using assms(7) by (simp add: update_conv')
    then obtain h q where f: "tab_key_free (Some k) t2 = Ok (t2\<lparr>tkeys := h, free_keys := q\<rparr>)" "spare_keys h q (ks @ [k]) (insert (Some k) ?K - {Some k})"
        "\<forall>x. x \<notin> set (ks @ [k]) \<longrightarrow> map_of h x = map_of (tkeys t2) x"
      using tab_key_free_ok [of t2 ks "insert (Some k) ?K" k ?d] s kd(1) assms(7) by auto
    have nk: "ekey (ent t b) \<noteq> Some k" if "b \<in> set (concat ?css)" for b
      using none that str unfolding filter_empty_conv by blast
    have "\<exists>d'. map_of h (the (ekey (ent t b))) = Some d' \<and> d'\<lparr>knents := 0, knext := None\<rparr> = (ent_key t b)\<lparr>knents := 0, knext := None\<rparr> \<and>
        unat (knents d') = length (matches t ?css (ent_str t b))" if b: "b \<in> set (concat ?css)" for b
    proof -
      obtain j where j: "ekey (ent t b) = Some j" "map_of (tkeys t) j = Some (ent_key t b)" "j \<notin> set ks" using key sub b by blast
      then have "map_of h j = Some (ent_key t b)" using f(3) nk [OF b] assms(7) by (auto simp: update_conv')
      moreover have "ent_str t b \<noteq> ent_str t a" using none b unfolding filter_empty_conv by blast
      ultimately show ?thesis using j(1) cnt [OF b] by simp
    qed
    moreover have "spare_keys h q (ks @ [k]) ((ekey \<circ> ent t) ` set (concat ?css))"
    proof -
      have "(ekey \<circ> ent t) ` set (concat ?css) \<subseteq> insert (Some k) ?K - {Some k}" using sub nk by (auto simp del: set_concat)
      then show ?thesis using f(2) unfolding spare_keys_def by blast
    qed
    moreover have "set_ent (Some a) (\<lambda>x. x\<lparr>ekey := None\<rparr>) (t2\<lparr>tkeys := h, free_keys := q\<rparr>) =
        Ok (t\<lparr>ents := AList.update a (y\<lparr>ekey := None\<rparr>) es, chains := cs, tkeys := h, free_keys := q\<rparr>)"
      using assms(7,8) by (cases t) (simp add: set_ent_def)
    ultimately show ?thesis using True f(1)
      by (intro exI [of _ "AList.update a (y\<lparr>ekey := None\<rparr>) es"] exI [of _ h] exI [of _ q] exI [of _ "ks @ [k]"]) (simp add: update_conv')
  qed
qed

context chain_callbacks
begin

lemma tab_entry_remove_head:
  assumes "entremove t = rem" and "table_inv sh t css" and "i < length css" and "css ! i = a # as"
  shows "\<exists>es h kq ks q l. tab_entry_remove (Some a) t =
      Ok (t\<lparr>ents := es, chains := (chains t)[i := q], tkeys := h, free_keys := kq, nents := nents t - 1\<rparr>) \<and>
    map_of es a \<noteq> None \<and> dsegment enext eprev es None q as l None \<and> same_outside (set (a # as)) (ents t) es \<and>
    (\<forall>b. b \<noteq> a \<longrightarrow> map_option (\<lambda>e. e\<lparr>enext := None, eprev := None\<rparr>) (map_of es b) =
      map_option (\<lambda>e. e\<lparr>enext := None, eprev := None\<rparr>) (map_of (ents t) b)) \<and>
    spare_keys h kq ks ((ekey \<circ> ent t) ` set (concat (css[i := as]))) \<and>
    (\<forall>b \<in> set (concat (css[i := as])). \<exists>d. map_of h (the (ekey (ent t b))) = Some d \<and>
      d\<lparr>knents := 0, knext := None\<rparr> = (ent_key t b)\<lparr>knents := 0, knext := None\<rparr> \<and>
      unat (knents d) = length (matches t (css[i := as]) (ent_str t b)))"
proof -
  have c: "chains_inv sh t css" and f: "free_inv t css" using assms(2) by (simp_all add: table_inv_def)
  have a: "a \<in> set (concat css)" using set_chain_subset [OF assms(3)] assms(4) by auto
  have ok: "ent_ok sh t a" using chains_inv_ent_ok [OF c a] .
  obtain k where k: "ekey (ent t a) = Some k" "map_of (tkeys t) k = Some (ent_key t a)" using used_key [OF ok] by blast
  have x: "map_of (ents t) a = Some (ent t a)" "uint (idx (ent t a)) = int i"
    using ok c assms(3,4) uint_index [of i css "nchains t"] by (auto simp: ent_ok_def chains_inv_def)
  have il: "i < length (chains t)" using chains_inv_index(2) [OF c] assms(3) by simp
  obtain l where l: "dsegment enext eprev (ents t) None (Some a) (a # as) l None" "chains t ! i = Some a"
    using c assms(3,4) unfolding chains_inv_def by fastforce
  obtain q es l' where r: "rem (Some a) (Some a) (ents t) = Ok (q, es)" "dsegment enext eprev es None q as l' None" "relinked (ents t) es"
      "same_outside (set (a # as)) (ents t) es"
    using rem_head [OF l(1)] by blast
  obtain y where y: "map_of es a = Some y" "y\<lparr>enext := None, eprev := None\<rparr> = (ent t a)\<lparr>enext := None, eprev := None\<rparr>"
    using relinked_ent [OF r(3) x(1)] by blast
  have yi: "ekey y = Some k" "uint (idx y) = int i" using same_strip [OF y(2)] k x by simp_all
  obtain ks where ks: "spare_keys (tkeys t) (free_keys t) ks ((ekey \<circ> ent t) ` set (concat css))" using f unfolding free_inv_def by blast
  let ?t2 = "t\<lparr>ents := es, chains := (chains t)[i := q], tkeys := AList.update k ((ent_key t a)\<lparr>knents := knents (ent_key t a) - 1\<rparr>) (tkeys t)\<rparr>"
  obtain es' h kq ks' where e: "(if knents (ent_key t a) - 1 = 0 then bindR (tab_key_free (Some k) ?t2) (set_ent (Some a) (\<lambda>x. x\<lparr>ekey := None\<rparr>)) else Ok ?t2) =
        Ok (t\<lparr>ents := es', chains := (chains t)[i := q], tkeys := h, free_keys := kq\<rparr>)" "\<forall>x. x \<noteq> a \<longrightarrow> map_of es' x = map_of es x" "map_of es' a \<noteq> None"
      "spare_keys h kq ks' ((ekey \<circ> ent t) ` set (concat (css[i := as])))"
      "\<forall>b \<in> set (concat (css[i := as])). \<exists>d. map_of h (the (ekey (ent t b))) = Some d \<and>
        d\<lparr>knents := 0, knext := None\<rparr> = (ent_key t b)\<lparr>knents := 0, knext := None\<rparr> \<and> unat (knents d) = length (matches t (css[i := as]) (ent_str t b))"
    using release_key [OF assms(2-4) k(1) refl ks refl y(1), of "(chains t)[i := q]"] by blast
  have "tab_entry_remove (Some a) t = Ok (t\<lparr>ents := es', chains := (chains t)[i := q], tkeys := h, free_keys := kq, nents := nents t - 1\<rparr>)"
  proof -
    have "tab_entry_remove (Some a) t =
        bindR (if knents (ent_key t a) - 1 = 0 then bindR (tab_key_free (Some k) ?t2) (set_ent (Some a) (\<lambda>x. x\<lparr>ekey := None\<rparr>)) else Ok ?t2)
          (\<lambda>t. Ok (t\<lparr>nents := nents t - 1\<rparr>))"
      using assms(1) x il l(2) r(1) y(1) yi k(2) by (simp add: tab_entry_remove_def ent_at_def set_key_def key_at_def update_conv' Let_def)
    then show ?thesis unfolding e(1) by simp
  qed
  moreover have "dsegment enext eprev es' None q as l' None"
    by (subst dsegment_cong [where h = es]) (use r(2) e(2) chain_distinct [OF dsegment_segment [OF l(1)]] in auto)
  moreover have "same_outside (set (a # as)) (ents t) es'" using r(4) e(2) unfolding same_outside_def by simp
  moreover have "\<forall>b. b \<noteq> a \<longrightarrow> map_option (\<lambda>e. e\<lparr>enext := None, eprev := None\<rparr>) (map_of es' b) =
      map_option (\<lambda>e. e\<lparr>enext := None, eprev := None\<rparr>) (map_of (ents t) b)" using r(3) e(2) unfolding relinked_def by simp
  ultimately show ?thesis using e(3-5) by blast
qed

text \<open>Removal and release of the entry.\<close>

lemma remove_head:
  assumes "entremove t = rem" and "table_inv sh t css" and "i < length css" and "css ! i = a # as"
  shows "\<exists>t'. bindR (tab_entry_remove (Some a) t) (tab_entry_free (Some a)) = Ok t' \<and> table_inv sh t' (css[i := as]) \<and>
    (\<forall>s. stored t css s = (if s = ent_str t a then [ent_val t a] else []) @ stored t' (css[i := as]) s) \<and> same_config t t' \<and>
    map_of (ents t') a \<noteq> None \<and> ekey (ent t' a) = None"
proof -
  let ?css = "css[i := as]"
  have c: "chains_inv sh t css" and f: "free_inv t css" and k: "keys_inv t css" using assms(2) by (simp_all add: table_inv_def)
  have sub: "set (concat ?css) \<subseteq> set (concat css)" using concat_update(1) [OF assms(3), of as] set_chain_subset [OF assms(3)] assms(4) by auto
  have a: "a \<in> set (concat css)" using set_chain_subset [OF assms(3)] assms(4) by auto
  have ch: "chain_of sh t (ent_str t b) = j" if "j < length css" "b \<in> set (css ! j)" for j b using c that unfolding chains_inv_def by blast
  have d: "distinct (a # as)" using c assms(3,4) linked_distinct unfolding chains_inv_def by metis
  have na: "a \<notin> set (concat ?css)"
  proof
    assume "a \<in> set (concat ?css)"
    then obtain j where j: "j < length ?css" "a \<in> set (?css ! j)" by (metis UN_E in_set_conv_nth set_concat)
    then show False using d ch [of i a] ch [of j a] assms(3,4) by (cases "j = i") auto
  qed
  obtain es h kq ks q l where r: "tab_entry_remove (Some a) t =
        Ok (t\<lparr>ents := es, chains := (chains t)[i := q], tkeys := h, free_keys := kq, nents := nents t - 1\<rparr>)" "map_of es a \<noteq> None"
      "dsegment enext eprev es None q as l None" "same_outside (set (a # as)) (ents t) es"
      "\<forall>b. b \<noteq> a \<longrightarrow> map_option (\<lambda>e. e\<lparr>enext := None, eprev := None\<rparr>) (map_of es b) = map_option (\<lambda>e. e\<lparr>enext := None, eprev := None\<rparr>) (map_of (ents t) b)"
      "spare_keys h kq ks ((ekey \<circ> ent t) ` set (concat ?css))"
      "\<forall>b \<in> set (concat ?css). \<exists>d. map_of h (the (ekey (ent t b))) = Some d \<and>
        d\<lparr>knents := 0, knext := None\<rparr> = (ent_key t b)\<lparr>knents := 0, knext := None\<rparr> \<and> unat (knents d) = length (matches t ?css (ent_str t b))"
    using tab_entry_remove_head [OF assms] by blast
  let ?t1 = "t\<lparr>ents := es, chains := (chains t)[i := q], tkeys := h, free_keys := kq, nents := nents t - 1\<rparr>"
  obtain fs where fs: "spare_ents (ents t) (free_ents t) fs (set (concat css))" using f unfolding free_inv_def by blast
  have fd: "set fs \<inter> set (concat css) = {}" using fs unfolding spare_ents_def by blast
  have "set (a # as) \<subseteq> set (concat css)" using set_chain_subset [OF assms(3)] assms(4) by simp
  then have fa: "x \<notin> set (a # as)" if "x \<in> set fs" for x using that fd by blast
  have "spare_ents es (free_ents t) fs (set (concat ?css))"
    by (rule spare_ents_frame [OF fs]) (use fa r(4) fd sub in \<open>auto simp: same_outside_def simp del: set_concat\<close>)
  then obtain es' fq where e: "tab_entry_free (Some a) ?t1 = Ok (?t1\<lparr>ents := es', free_ents := fq\<rparr>)" "spare_ents es' fq (fs @ [a]) (set (concat ?css))"
      "\<forall>x. x \<notin> set (fs @ [a]) \<longrightarrow> map_of es' x = map_of es x"
    using tab_entry_free_ok [of ?t1 fs "set (concat ?css)" a] fa na r(2) by fastforce
  let ?t' = "?t1\<lparr>ents := es', free_ents := fq\<rparr>"
  have out: "map_of es' b = map_of es b" if "b \<in> set (concat ?css)" for b
  proof -
    have "b \<notin> set (fs @ [a])" using that sub fd na by (auto simp del: set_concat)
    then show ?thesis using e(3) by blast
  qed
  have links: "same_but_links (set (concat ?css)) t ?t'"
    unfolding same_but_links_def
  proof
    fix b assume b: "b \<in> set (concat ?css)"
    have "map_of (ents t) b = Some (ent t b)" using chains_inv_ent_ok [OF c subsetD [OF sub b]] by (simp add: ent_ok_def)
    moreover have "b \<noteq> a" using b na by blast
    ultimately show "\<exists>e. map_of (ents ?t') b = Some e \<and> e\<lparr>enext := None, eprev := None\<rparr> = (ent t b)\<lparr>enext := None, eprev := None\<rparr>"
      using r(5) out [OF b] by auto
  qed
  have "table_inv sh ?t' ?css \<and> (\<forall>s. stored t css s = (if s = ent_str t a then [ent_val t a] else []) @ stored ?t' ?css s)"
  proof (rule inv_remove [OF assms(2-4), where q = q])
    show "objs ?t' = objs t" "nchains ?t' = nchains t" "chains ?t' = (chains t)[i := q]" by simp_all
    have "set as \<subseteq> set (concat ?css)" using set_chain_subset [of i ?css] assms(3) by simp
    then have "map_of es' b = map_of es b" if "b \<in> set as" for b using that out by blast
    then have "dsegment enext eprev es' None q as l None" using r(3) dsegment_cong [of as es' es] by metis
    then show "linked ?t' q as" by auto
    show "same_but_links (set (concat ?css)) t ?t'" by (rule links)
    show "map_of (ents ?t') b = map_of (ents t) b" if j: "j < length css" "j \<noteq> i" "b \<in> set (css ! j)" for j b
    proof -
      have "b \<in> set (concat ?css)" using set_chain_subset [of j ?css] j by auto
      moreover have "b \<notin> set (a # as)" using ch [of i b] ch [of j b] j assms(3,4) by auto
      ultimately show ?thesis using out r(4) by (simp add: same_outside_def)
    qed
    have "Suc (length (concat ?css)) = length (concat css)" using concat_update(2) [OF assms(3), of as] assms(4) by simp
    then show "unat (nents ?t') = length (concat ?css)" using k unat_pred [of "nents t"] by (simp add: keys_inv_def)
    have "(ekey \<circ> ent ?t') ` set (concat ?css) = (ekey \<circ> ent t) ` set (concat ?css)"
      by (rule image_cong) (simp_all only: comp_apply same_but_links_ent(1) [OF links])
    then show "free_inv ?t' ?css" unfolding free_inv_def using e(2) r(6) by auto
  qed (use r(7) in \<open>simp del: set_concat\<close>)
  moreover have "map_of es' a \<noteq> None" using segment_dom [of enext es' fq "fs @ [a]" None] e(2) by (auto simp: spare_ents_def map_of_eq_None_iff)
  moreover have "ekey (the (map_of es' a)) = None" using e(2) by (simp add: spare_ents_def)
  ultimately show ?thesis using r(1) e(1) by (intro exI [of _ ?t']) (simp add: same_config_def ent_def)
qed

end

end
