(* ===== verification/Ftp_Calls.thy ===== *)
theory Ftp_Calls
  imports Ftp_Remove
begin

text \<open>
  The calls of the hash table of proftpd on a table with the default callbacks: what the string functions
  pass on, the first lookup of a key, clearing chain after chain, and the walk with \<open>pr_table_next\<close>.
\<close>

interpretation dt: table_callbacks key_cmp key_hash str_hash entry_insert entry_remove ..

section \<open>Tables with the default callbacks\<close>

definition default_callbacks :: "table_rec \<Rightarrow> bool" where
  "default_callbacks t \<longleftrightarrow> keycmp t = key_cmp \<and> keyhash t = key_hash \<and> entinsert t = entry_insert \<and> entremove t = entry_remove"

lemma default_served: "default_callbacks t \<longleftrightarrow> dt.served t"
  by (auto simp: default_callbacks_def dt.served_def dk.keyed_def)

lemma default_keyed: "default_callbacks t \<Longrightarrow> dk.keyed t"
  by (simp add: default_callbacks_def dk.keyed_def)

lemma default_same: "default_callbacks t \<Longrightarrow> same_config t t' \<Longrightarrow> default_callbacks t'"
  by (simp add: default_callbacks_def same_config_def)

text \<open>A new table.\<close>

lemma pool_int_small: "k < 2 ^ 31 \<Longrightarrow> pool_int k = int k"
  by (simp add: pool_int_def signed_of_nat signed_take_bit_int_eq_self)

lemma alloc_chains_ok: "n < 2 ^ 28 \<Longrightarrow> alloc_chains n = Ok (replicate (unat n) None)"
proof -
  assume "n < 2 ^ 28"
  then have "unat n < 2 ^ 28" by (simp add: word_less_nat_alt)
  then have "pool_int (8 * unat n) = int (8 * unat n)" by (intro pool_int_small) simp
  moreover have "nat (int (8 * unat n)) div 8 = unat n" by (simp only: nat_int)
  ultimately show ?thesis unfolding alloc_chains_def Let_def by (simp only:) simp
qed

lemma nalloc_inv:
  assumes "n \<noteq> 0" and "n < 2 ^ 28" and "pr_table_nalloc m (Some p) fl n = Ok (None, Some t)"
  shows "table_inv str_hash t (replicate (unat n) [])" and "iters_ok t (replicate (unat n) [])" and "default_callbacks t"
  using assms(1,3) alloc_chains_ok [OF assms(2)]
  by (auto simp: pr_table_nalloc_def table_inv_def chains_inv_def free_inv_def keys_inv_def spare_ents_def spare_keys_def iters_ok_def default_callbacks_def
    intro: exI [of _ "[]"])

text \<open>What \<open>pr_table_add\<close> records as the size of the value.\<close>

definition value_size :: "table_rec \<Rightarrow> ptr \<Rightarrow> nat \<Rightarrow> nat" where
  "value_size t v vsz = (case v of Some q \<Rightarrow> if vsz = 0 then Suc (length (cstr (the (map_of (objs t) q)))) else vsz | None \<Rightarrow> vsz)"

lemma add_to_kadd:
  assumes "is_str t p s" and "\<forall>q. v = Some q \<and> vsz = 0 \<longrightarrow> (\<exists>w. is_str t q w)"
  shows "pr_table_add_to p v vsz t = pr_table_kadd_to p (Suc (length s)) v (value_size t v vsz) t"
proof -
  have "strlen_at q t = Ok (length (cstr (the (map_of (objs t) q))))" if q: "v = Some q" "vsz = 0" for q
  proof -
    obtain w where w: "is_str t q w" using assms(2) q by blast
    then have "cstr (the (map_of (objs t) q)) = w" by (auto simp: is_str_def)
    then show ?thesis using strlen_at_str [OF w] by simp
  qed
  then show ?thesis using strlen_at_str [OF assms(1)] by (cases v) (simp_all add: pr_table_add_to_def value_size_def)
qed

section \<open>Lookups without iteration\<close>

lemma get_first:
  assumes "default_callbacks t" and "table_inv str_hash t css" and "is_str t p s" and "val_iter_ent t = None" and "cache_ent t = None"
  shows "\<exists>t'. pr_table_get (Some p) (Some t) = Ok (case stored t css s of
      [] \<Rightarrow> ((None, None), Some ENOENT, Some t') | (v, n) # _ \<Rightarrow> ((v, Some n), None, Some t'))"
proof -
  have i: "iters_ok t css" using assms(4,5) by (simp add: iters_ok_def)
  have "pending False t css p s = matches t css s" using assms(4,5) by (simp add: pending_def recall_def)
  then have g: "pr_table_get (Some p) (Some t) = Ok (case matches t css s of
      [] \<Rightarrow> ((None, None), Some ENOENT, Some (forget t))
    | a # _ \<Rightarrow> ((fst (ent_val t a), Some (snd (ent_val t a))), None, Some ((cache (Some a) t)\<lparr>val_iter_ent := Some a\<rparr>)))"
    using dk.get_pending [OF default_keyed [OF assms(1)] assms(2) i assms(3)] by simp
  show ?thesis
  proof (cases "matches t css s")
    case Nil
    then show ?thesis using g by (simp add: stored_def)
  next
    case (Cons a as)
    then show ?thesis using g by (cases "ent_val t a") (auto simp: stored_def)
  qed
qed

section \<open>Clearing a table\<close>

lemma chain_head: "chains_inv sh t css \<Longrightarrow> i < length css \<Longrightarrow> chains t ! i = (case css ! i of [] \<Rightarrow> None | a # _ \<Rightarrow> Some a)"
  unfolding chains_inv_def by (cases "css ! i") fastforce+

lemma empty_chain_ok:
  "default_callbacks t \<Longrightarrow> table_inv str_hash t css \<Longrightarrow> i < length css \<Longrightarrow> length (css ! i) \<le> k \<Longrightarrow>
    \<exists>t'. empty_chain k i t = Ok t' \<and> table_inv str_hash t' (css[i := []]) \<and> same_config t t'"
proof (induction "css ! i" arbitrary: t css k)
  case Nil
  have "css[i := []] = css" using Nil(1) by (metis list_update_id)
  moreover have c: "chains_inv str_hash t css" using Nil(3) by (simp add: table_inv_def)
  have "rd (chains t) (int i) = Ok None" using chain_head [OF c Nil(4)] Nil(1) chains_inv_index(2) [OF c] Nil(4) by simp
  ultimately show ?case using Nil(3) by (cases k) (auto simp: same_config_def)
next
  case (Cons a as)
  obtain k' where k: "k = Suc k'" using Cons.prems(4) Cons(2) by (cases k) (metis le_zero_eq length_0_conv list.distinct(1))+
  have c: "chains_inv str_hash t css" using Cons.prems(2) by (simp add: table_inv_def)
  have "chains t ! i = Some a" using chain_head [OF c Cons.prems(3)] unfolding Cons(2) [symmetric] by simp
  then have r: "rd (chains t) (int i) = Ok (Some a)" using chains_inv_index(2) [OF c] Cons.prems(3) by simp
  obtain t1 where t1: "bindR (tab_entry_remove (Some a) t) (tab_entry_free (Some a)) = Ok t1" "table_inv str_hash t1 (css[i := as])" "same_config t t1"
    using dc.remove_head [of t str_hash css i a as] Cons.prems(1-3) Cons(2) by (auto simp: default_callbacks_def)
  have "as = (css[i := as]) ! i" "i < length (css[i := as])" using Cons.prems(3) by simp_all
  moreover have "length ((css[i := as]) ! i) \<le> k'" using Cons.prems(3,4) Cons(2) k by (metis Suc_le_mono length_Cons nth_list_update_eq)
  ultimately obtain t' where t': "empty_chain k' i t1 = Ok t'" "table_inv str_hash t' (css[i := as, i := []])" "same_config t1 t'"
    using Cons(1) [of "css[i := as]" t1 k'] default_same [OF Cons.prems(1) t1(3)] t1(2) by blast
  have "empty_chain k i t = bindR (bindR (tab_entry_remove (Some a) t) (tab_entry_free (Some a))) (empty_chain k' i)" using k r by simp
  then show ?case using t1 t' by (auto simp: same_config_def)
qed

lemma empty_chains_ok:
  "default_callbacks t \<Longrightarrow> table_inv str_hash t css \<Longrightarrow> i + n = length css \<Longrightarrow>
    \<exists>t'. empty_chains n i t = Ok t' \<and> table_inv str_hash t' (take i css @ replicate n [])"
proof (induction n arbitrary: t css i)
  case (Suc n)
  have c: "chains_inv str_hash t css" using Suc.prems(2) by (simp add: table_inv_def)
  have i: "i < length css" using Suc.prems(3) by simp
  have "length (css ! i) \<le> length (ents t)" using c i linked_length unfolding chains_inv_def by blast
  then obtain t1 where t1: "empty_chain (length (ents t)) i t = Ok t1" "table_inv str_hash t1 (css[i := []])" "same_config t t1"
    using empty_chain_ok [OF Suc.prems(1,2) i] by blast
  have c1: "chains_inv str_hash t1 (css[i := []])" using t1(2) by (simp add: table_inv_def)
  have l: "i < length (chains t1)" "chains t1 ! i = None" using chains_inv_index(2) [OF c1] chain_head [OF c1, of i] i by simp_all
  then have w: "wr (chains t1) (int i) None = Ok (chains t1)" by (metis list_update_id nat_int of_nat_0_le_iff of_nat_less_iff wr_Ok)
  obtain t' where t': "empty_chains n (Suc i) t1 = Ok t'" "table_inv str_hash t' (take (Suc i) (css[i := []]) @ replicate n [])"
    using Suc.IH [OF default_same [OF Suc.prems(1) t1(3)] t1(2), of "Suc i"] Suc.prems(3) by auto
  have "take (Suc i) (css[i := []]) @ replicate n [] = take i css @ replicate (Suc n) []"
    using i by (simp add: take_Suc_conv_app_nth)
  then show ?case using t1(1) w t' by (intro exI [of _ t']) simp
qed simp

section \<open>Walking over a table\<close>

lemma next_chain_ok: "chains_inv sh t css \<Longrightarrow> i + n = length css \<Longrightarrow> next_chain n i t = Ok (first_of (concat (drop i css)))"
proof (induction n arbitrary: i)
  case (Suc n)
  then have i: "i < length css" by simp
  have h: "chains t ! i = first_of (css ! i)" using chain_head [OF Suc.prems(1) i] by (simp add: first_of_def)
  have r: "rd (chains t) (int i) = Ok (first_of (css ! i))" using chains_inv_index(2) [OF Suc.prems(1)] i h by simp
  have d: "concat (drop i css) = css ! i @ concat (drop (Suc i) css)" using i by (simp add: Cons_nth_drop_Suc [symmetric])
  show ?case
  proof (cases "css ! i")
    case Nil
    then show ?thesis using r d Suc.IH [OF Suc.prems(1), of "Suc i"] Suc.prems(2) by simp
  qed (use r d in simp)
qed simp

lemma concat_position:
  "concat css = us @ a # vs \<Longrightarrow> \<exists>i xs ys. i < length css \<and> css ! i = xs @ a # ys \<and> vs = ys @ concat (drop (Suc i) css)"
proof (induction css arbitrary: us)
  case (Cons c css)
  show ?case
  proof (cases "length us < length c")
    case True
    have "us = take (length us) c" "a # vs = drop (length us) c @ concat css"
      using Cons.prems True by (auto simp: append_eq_append_conv_if split: if_splits)
    moreover have "drop (length us) c = c ! length us # drop (Suc (length us)) c" using True by (simp add: Cons_nth_drop_Suc)
    ultimately have "c = us @ a # drop (Suc (length us)) c" "vs = drop (Suc (length us)) c @ concat css"
      by (metis append_take_drop_id list.inject append_Cons)+
    then show ?thesis by (intro exI [of _ 0] exI [of _ us] exI [of _ "drop (Suc (length us)) c"]) simp
  next
    case False
    then have "concat css = drop (length c) us @ a # vs" using Cons.prems by (auto simp: append_eq_append_conv_if split: if_splits)
    from Cons.IH [OF this] obtain i xs ys where "i < length css" "css ! i = xs @ a # ys" "vs = ys @ concat (drop (Suc i) css)" by blast
    then show ?thesis by (intro exI [of _ "Suc i"] exI [of _ xs] exI [of _ ys]) simp
  qed
qed simp

lemma entry_next_start: "chains_inv sh t css \<Longrightarrow> tab_iter_ent t = None \<Longrightarrow> tab_entry_next t = Ok (first_of (concat css), t\<lparr>tab_iter_ent := first_of (concat css)\<rparr>)"
  using next_chain_ok [of sh t css 0 "unat (nchains t)"] by (simp add: tab_entry_next_def chains_inv_def)

lemma entry_next_ok:
  assumes "chains_inv sh t css" and "concat css = us @ a # vs" and "tab_iter_ent t = Some a"
  shows "tab_entry_next t = Ok (first_of vs, t\<lparr>tab_iter_ent := first_of vs\<rparr>)"
proof -
  obtain i xs ys where i: "i < length css" "css ! i = xs @ a # ys" and v: "vs = ys @ concat (drop (Suc i) css)"
    using concat_position [OF assms(2)] by blast
  have n: "length css = unat (nchains t)" using assms(1) by (simp add: chains_inv_def)
  have l: "linked t (chains t ! i) (xs @ a # ys)" and o: "ent_ok sh t a" "idx (ent t a) = word_of_nat i"
    using assms(1) i unfolding chains_inv_def by (metis in_set_conv_decomp)+
  have e: "enext (ent t a) = first_of ys" using chain_from(2) [OF l] by (cases ys) auto
  have "unat (nchains t) < 2 ^ LENGTH(32)" by (rule unsigned_less)
  then have "Suc i < 2 ^ 32" using i(1) n by simp
  then have u: "unat (idx (ent t a) + 1) = Suc i" unfolding o(2) by (subst unat_Suc) (simp_all add: unat_of_nat)
  have "ent_at (Some a) t = Ok (ent t a)" using ent_key_ok [OF o(1)] by blast
  moreover have "next_chain (unat (nchains t) - Suc i) (Suc i) t = Ok (first_of (concat (drop (Suc i) css)))"
    using next_chain_ok [OF assms(1), of "Suc i"] i(1) n by simp
  ultimately show ?thesis using assms(3) e u v by (cases ys) (simp_all add: tab_entry_next_def)
qed

lemma iter_inv: "table_inv sh (t\<lparr>tab_iter_ent := p\<rparr>) css = table_inv sh t css"
  by (simp add: table_inv_def chains_inv_def free_inv_def keys_inv_def ent_ok_def ent_def ent_key_def ent_str_def chain_of_def is_str_def comp_def)

lemma iter_fields [simp]: "ents (t\<lparr>tab_iter_ent := p\<rparr>) = ents t" "ent (t\<lparr>tab_iter_ent := p\<rparr>) = ent t" "ent_key (t\<lparr>tab_iter_ent := p\<rparr>) = ent_key t"
  by (simp_all add: ent_def ent_key_def fun_eq_iff)

lemma iter_chains: "chains_inv sh (t\<lparr>tab_iter_ent := p\<rparr>) css = chains_inv sh t css"
  by (simp add: chains_inv_def ent_ok_def ent_def ent_key_def ent_str_def chain_of_def is_str_def)

lemma key_of_iter: "key_of a (t\<lparr>tab_iter_ent := p\<rparr>) = key_of a t"
  by (simp add: key_of_def ent_at_def key_at_def)

text \<open>There are no more entries in the chains than structs.\<close>

lemma distinct_concat_nth:
  "(\<And>i. i < length css \<Longrightarrow> distinct (css ! i)) \<Longrightarrow> (\<And>i j x. i < j \<Longrightarrow> j < length css \<Longrightarrow> x \<in> set (css ! i) \<Longrightarrow> x \<notin> set (css ! j)) \<Longrightarrow>
    distinct (concat css)"
proof (induction css)
  case (Cons c css)
  have "distinct c" using Cons.prems(1) [of 0] by simp
  moreover have "distinct (concat css)"
    by (rule Cons.IH) (use Cons.prems(1) [of "Suc i" for i] Cons.prems(2) [of "Suc i" "Suc j" for i j] in auto)
  moreover have "x \<notin> set d" if d: "x \<in> set c" "d \<in> set css" for x d
    using Cons.prems(2) [of 0 "Suc j" x for j] d by (auto simp: in_set_conv_nth [of d])
  ultimately show ?case by auto
qed simp

lemma entries_distinct:
  assumes "chains_inv sh t css"
  shows "distinct (concat css)"
proof (rule distinct_concat_nth)
  fix i assume "i < length css"
  then show "distinct (css ! i)" using assms linked_distinct unfolding chains_inv_def by blast
next
  fix i j x assume "i < j" "j < length css" "x \<in> set (css ! i)"
  then show "x \<notin> set (css ! j)" using assms unfolding chains_inv_def by (metis nat_neq_iff order.strict_trans)
qed

lemma entries_length:
  assumes "chains_inv sh t css"
  shows "length (concat css) \<le> length (ents t)"
proof -
  have "length (concat css) = card (set (concat css))" by (rule distinct_card [OF entries_distinct [OF assms], symmetric])
  also have "set (concat css) \<subseteq> fst ` set (ents t)"
  proof
    fix a assume "a \<in> set (concat css)"
    then have "ent_ok sh t a" using chains_inv_split [OF assms] by blast
    then have "map_of (ents t) a = Some (ent t a)" by (simp add: ent_ok_def)
    then show "a \<in> fst ` set (ents t)" by (metis map_of_SomeD fst_conv image_eqI)
  qed
  then have "card (set (concat css)) \<le> card (fst ` set (ents t))" by (rule card_mono [rotated]) simp
  also have "\<dots> \<le> length (ents t)" by (metis card_length length_map list.set_map)
  finally show ?thesis .
qed

text \<open>The entries behind \<open>a\<close> up to the first one with another key are skipped.\<close>

definition other_key :: "table_rec \<Rightarrow> nat \<Rightarrow> nat list \<Rightarrow> nat list" where
  "other_key t a vs = dropWhile (\<lambda>b. ekey (ent t b) = ekey (ent t a)) vs"

lemma skip_same_ok:
  "chains_inv sh t css \<Longrightarrow> concat css = us @ a # ws @ vs \<Longrightarrow> tab_iter_ent t = first_of vs \<Longrightarrow> length vs < k \<Longrightarrow>
    skip_same k (Some a) (first_of vs) t = Ok (first_of (other_key t a vs), t\<lparr>tab_iter_ent := first_of (other_key t a vs)\<rparr>)"
proof (induction vs arbitrary: t k ws)
  case Nil
  then show ?case by (cases k) (simp_all add: other_key_def)
next
  case (Cons b vs)
  obtain k' where k: "k = Suc k'" using Cons.prems(4) by (cases k) auto
  have "a \<in> set (concat css)" "b \<in> set (concat css)" unfolding Cons.prems(2) by simp_all
  then have o: "ent_at (Some a) t = Ok (ent t a)" "ent_at (Some b) t = Ok (ent t b)"
    using chains_inv_split [OF Cons.prems(1)] ent_key_ok by metis+
  let ?t = "t\<lparr>tab_iter_ent := first_of vs\<rparr>"
  have "concat css = (us @ a # ws) @ b # vs" using Cons.prems(2) by simp
  then have n: "tab_entry_next t = Ok (first_of vs, ?t)" using entry_next_ok [OF Cons.prems(1)] Cons.prems(3) by simp
  have "skip_same k' (Some a) (first_of vs) ?t = Ok (first_of (other_key ?t a vs), ?t\<lparr>tab_iter_ent := first_of (other_key ?t a vs)\<rparr>)"
    using Cons.IH [of ?t "ws @ [b]" k'] Cons.prems k by (simp add: iter_chains)
  moreover have "other_key ?t a vs = other_key t a vs" by (simp add: other_key_def)
  ultimately show ?case using k o n Cons.prems(3) by (auto simp: other_key_def)
qed

lemma next_other:
  assumes "chains_inv sh t css" and "concat css = us @ a # vs" and "tab_iter_ent t = Some a"
  shows "pr_table_next (Some t) = Ok (case other_key t a vs of
      [] \<Rightarrow> (None, Some EPERM, Some (t\<lparr>tab_iter_ent := None\<rparr>))
    | b # _ \<Rightarrow> (key_data (ent_key t b), None, Some (t\<lparr>tab_iter_ent := Some b\<rparr>)))"
proof -
  let ?t = "t\<lparr>tab_iter_ent := first_of vs\<rparr>"
  have "length vs < Suc (length (ents t))" using entries_length [OF assms(1)] unfolding assms(2) by simp
  then have s: "skip_same (Suc (length (ents t))) (Some a) (first_of vs) ?t = Ok (first_of (other_key t a vs), t\<lparr>tab_iter_ent := first_of (other_key t a vs)\<rparr>)"
    using skip_same_ok [of sh ?t css us a "[]" vs "Suc (length (ents t))"] assms(1,2) by (simp add: iter_chains other_key_def)
  show ?thesis
  proof (cases "other_key t a vs")
    case Nil
    then show ?thesis using s entry_next_ok [OF assms] assms(3) by (simp add: pr_table_next_def on_table_def Let_def del: skip_same.simps)
  next
    case (Cons b bs)
    then have "b \<in> set vs" unfolding other_key_def by (metis list.set_intros(1) set_dropWhileD)
    then have "b \<in> set (concat css)" unfolding assms(2) by simp
    then have "key_of (Some b) t = Ok (ent_key t b)" using chains_inv_split [OF assms(1)] ent_key_ok by metis
    then have "key_of (Some b) (t\<lparr>tab_iter_ent := Some b\<rparr>) = Ok (ent_key t b)" by (simp add: key_of_iter)
    then show ?thesis using s Cons entry_next_ok [OF assms] assms(3) by (simp add: pr_table_next_def on_table_def Let_def del: skip_same.simps)
  qed
qed

lemma next_start:
  assumes "chains_inv sh t css" and "tab_iter_ent t = None"
  shows "pr_table_next (Some t) = Ok (case concat css of
      [] \<Rightarrow> (None, Some EPERM, Some t)
    | a # _ \<Rightarrow> (key_data (ent_key t a), None, Some (t\<lparr>tab_iter_ent := Some a\<rparr>)))"
proof (cases "concat css")
  case Nil
  moreover have "t\<lparr>tab_iter_ent := None\<rparr> = t" using assms(2) by (cases t) simp
  ultimately show ?thesis using entry_next_start [OF assms, unfolded Nil] assms(2) by (simp add: pr_table_next_def on_table_def del: concat_eq_Nil_conv)
next
  case (Cons a as)
  then have "a \<in> set (concat css)" by simp
  then have "key_of (Some a) t = Ok (ent_key t a)" using chains_inv_split [OF assms(1)] ent_key_ok by metis
  then show ?thesis using Cons entry_next_start [OF assms] assms(2) by (simp add: pr_table_next_def on_table_def key_of_iter)
qed

text \<open>The keys a caller sees who calls \<open>pr_table_next\<close> until it returns NULL, \<open>k\<close> times at most.\<close>

primrec next_keys :: "nat \<Rightarrow> table_rec \<Rightarrow> nat list res" where
  "next_keys 0 t = Timeout"
| "next_keys (Suc k) t =
     bindR (pr_table_next (Some t)) (\<lambda>(key, _, tab).
     case key of None \<Rightarrow> Ok [] | Some p \<Rightarrow> bindR (next_keys k (the tab)) (\<lambda>ps. Ok (p # ps)))"

lemma other_key_str:
  assumes "table_inv sh t css" and "a \<in> set (concat css)" and "set vs \<subseteq> set (concat css)"
  shows "map (ent_str t) (other_key t a vs) = dropWhile (\<lambda>s. s = ent_str t a) (map (ent_str t) vs)"
proof -
  have k: "keys_inv t css" using assms(1) by (simp add: table_inv_def)
  have "ekey (ent t b) = ekey (ent t a) \<longleftrightarrow> ent_str t b = ent_str t a" if b: "b \<in> set vs" for b
  proof
    assume "ekey (ent t b) = ekey (ent t a)"
    then show "ent_str t b = ent_str t a" by (simp add: ent_str_def ent_key_def)
  next
    assume "ent_str t b = ent_str t a"
    then show "ekey (ent t b) = ekey (ent t a)" using k subsetD [OF assms(3) b] assms(2) unfolding keys_inv_def by blast
  qed
  then have "other_key t a vs = dropWhile (\<lambda>b. ent_str t b = ent_str t a) vs" unfolding other_key_def by (rule dropWhile_cong [OF refl])
  then show ?thesis by (simp add: dropWhile_map comp_def)
qed

lemma entry_key_data:
  assumes "chains_inv sh t css" and "a \<in> set (concat css)"
  obtains p where "key_data (ent_key t a) = Some p" and "is_str t p (ent_str t a)"
proof -
  have "ent_ok sh t a" using chains_inv_split [OF assms] by blast
  then show ?thesis using that by (auto simp: ent_ok_def)
qed

lemma is_str_iter [simp]: "is_str (t\<lparr>tab_iter_ent := p\<rparr>) = is_str t" "ent_str (t\<lparr>tab_iter_ent := p\<rparr>) = ent_str t"
  by (simp_all add: is_str_def ent_str_def fun_eq_iff)

lemma next_keys_from:
  "table_inv sh t css \<Longrightarrow> concat css = us @ a # vs \<Longrightarrow> tab_iter_ent t = Some a \<Longrightarrow> length vs < k \<Longrightarrow>
    \<exists>ps. next_keys k t = Ok ps \<and> list_all2 (is_str t) ps (tl (remdups_adj (map (ent_str t) (a # vs))))"
proof (induction k arbitrary: t us a vs)
  case (Suc k)
  have c: "chains_inv sh t css" using Suc.prems(1) by (simp add: table_inv_def)
  have a: "a \<in> set (concat css)" "set vs \<subseteq> set (concat css)" unfolding Suc.prems(2) by auto
  have r: "tl (remdups_adj (map (ent_str t) (a # vs))) = remdups_adj (map (ent_str t) (other_key t a vs))"
    unfolding other_key_str [OF Suc.prems(1) a] by (simp add: remdups_adj_Cons')
  note n = next_other [OF c Suc.prems(2,3)]
  show ?case
  proof (cases "other_key t a vs")
    case Nil
    then show ?thesis using n r by simp
  next
    case (Cons b bs)
    then obtain ws where ws: "vs = ws @ b # bs" unfolding other_key_def by (metis takeWhile_dropWhile_id)
    let ?t = "t\<lparr>tab_iter_ent := Some b\<rparr>"
    have b: "b \<in> set (concat css)" unfolding Suc.prems(2) ws by simp
    obtain p where p: "key_data (ent_key t b) = Some p" "is_str t p (ent_str t b)" using entry_key_data [OF c b] by blast
    have "concat css = (us @ a # ws) @ b # bs" using Suc.prems(2) ws by simp
    then obtain ps where ps: "next_keys k ?t = Ok ps" "list_all2 (is_str t) ps (tl (remdups_adj (map (ent_str t) (b # bs))))"
      using Suc.IH [of ?t "us @ a # ws" b bs] Suc.prems(1,4) ws by (auto simp: iter_inv)
    have "remdups_adj (map (ent_str t) (b # bs)) = ent_str t b # tl (remdups_adj (map (ent_str t) (b # bs)))"
      by (simp add: remdups_adj_Cons')
    then have "list_all2 (is_str t) (p # ps) (remdups_adj (map (ent_str t) (b # bs)))" using p(2) ps(2) by (metis list_all2_Cons)
    then show ?thesis using n Cons p ps r by simp
  qed
qed simp

end
