(* ===== verification/Ftp_Contract.thy ===== *)
theory Ftp_Contract
  imports Ftp_Calls "HOL-Library.Multiset"
begin

text \<open>
  What the hash table of proftpd does for its callers, with the default callbacks: additions, lookups and
  traversals refine a map from strings to collections of values, every sequence of calls that remove nothing
  leaves a proper table, and \<open>pr_table_empty\<close> clears it. The iterators that survive a removal, the removal
  inside a chain and the change of a value just looked up are where the table does not do what its header
  announces.
\<close>

section \<open>Sequences of calls\<close>

text \<open>A table between two calls.\<close>

definition proper_table :: "table_rec \<Rightarrow> nat list list \<Rightarrow> bool" where
  "proper_table t css \<longleftrightarrow> default_callbacks t \<and> table_inv str_hash t css \<and> iters_ok t css \<and>
     (tab_iter_ent t \<noteq> None \<longrightarrow> the (tab_iter_ent t) \<in> set (concat css))"

text \<open>The calls that remove nothing, with their arguments.\<close>

datatype table_call =
    Add_call nat ptr nat
  | Get_call nat
  | Exists_call nat
  | Set_call nat nat nat
  | Next_call
  | Rewind_call
  | Count_call

definition table_after :: "('a \<times> errno option \<times> table_rec option) res \<Rightarrow> table_rec res" where
  "table_after r = bindR r (\<lambda>(_, _, tab). case tab of None \<Rightarrow> Fault Null_pointer | Some t \<Rightarrow> Ok t)"

primrec do_call :: "table_call \<Rightarrow> table_rec \<Rightarrow> table_rec res" where
  "do_call (Add_call p v vsz) t = table_after (pr_table_add (Some p) v vsz (Some t))"
| "do_call (Get_call p) t = table_after (pr_table_get (Some p) (Some t))"
| "do_call (Exists_call p) t = table_after (pr_table_exists (Some p) (Some t))"
| "do_call (Set_call p v vsz) t = table_after (pr_table_set (Some p) (Some v) vsz (Some t))"
| "do_call Next_call t = table_after (pr_table_next (Some t))"
| "do_call Rewind_call t = table_after (pr_table_rewind (Some t))"
| "do_call Count_call t = table_after (pr_table_count (Some t))"

primrec do_calls :: "table_call list \<Rightarrow> table_rec \<Rightarrow> table_rec res" where
  "do_calls [] t = Ok t"
| "do_calls (c # cs) t = bindR (do_call c t) (do_calls cs)"

text \<open>Keys are strings, and so are values whose size is not given.\<close>

primrec call_ok :: "table_rec \<Rightarrow> table_call \<Rightarrow> bool" where
  "call_ok t (Add_call p v vsz) = ((\<exists>s. is_str t p s) \<and> (\<forall>q. v = Some q \<and> vsz = 0 \<longrightarrow> (\<exists>w. is_str t q w)))"
| "call_ok t (Get_call p) = (\<exists>s. is_str t p s)"
| "call_ok t (Exists_call p) = (\<exists>s. is_str t p s)"
| "call_ok t (Set_call p v vsz) = (\<exists>s. is_str t p s)"
| "call_ok t Next_call = True"
| "call_ok t Rewind_call = True"
| "call_ok t Count_call = True"

lemma call_ok_objs: "objs t' = objs t \<Longrightarrow> call_ok t' c = call_ok t c"
  by (cases c) (simp_all add: is_str_def)

text \<open>The iterators and the cache do not matter for the links and for what is stored.\<close>

definition only_iters :: "table_rec \<Rightarrow> table_rec \<Rightarrow> bool" where
  "only_iters t t' \<longleftrightarrow> (\<exists>a b c. t' = t\<lparr>tab_iter_ent := a, val_iter_ent := b, cache_ent := c\<rparr>)"

lemma only_itersI:
  assumes "t' = t\<lparr>tab_iter_ent := tab_iter_ent t', val_iter_ent := val_iter_ent t', cache_ent := cache_ent t'\<rparr>"
  shows "only_iters t t'"
  using assms unfolding only_iters_def by blast

lemma only_iters_ents: "only_iters t t' \<Longrightarrow> ent t' = ent t \<and> ent_key t' = ent_key t \<and> ent_str t' = ent_str t \<and> ent_val t' = ent_val t \<and> is_str t' = is_str t"
  by (auto simp: only_iters_def ent_def ent_key_def ent_str_def ent_val_def is_str_def fun_eq_iff)

lemma only_iters_fields: "only_iters t t' \<Longrightarrow> objs t' = objs t \<and> nents t' = nents t \<and> flags t' = flags t \<and> ents t' = ents t"
  by (auto simp: only_iters_def)

lemma only_iters_inv: "only_iters t t' \<Longrightarrow> table_inv sh t' css = table_inv sh t css \<and> default_callbacks t' = default_callbacks t \<and> stored t' css = stored t css"
proof -
  assume o: "only_iters t t'"
  then obtain a b c where t': "t' = t\<lparr>tab_iter_ent := a, val_iter_ent := b, cache_ent := c\<rparr>" by (auto simp: only_iters_def)
  show ?thesis using only_iters_ents [OF o] unfolding t'
    by (simp add: table_inv_def chains_inv_def free_inv_def keys_inv_def ent_ok_def chain_of_def stored_def default_callbacks_def fun_eq_iff)
qed

lemma cache_only: "only_iters t (cache e t)" "only_iters t ((cache e t)\<lparr>val_iter_ent := v\<rparr>)" "only_iters t (forget t)"
    "only_iters t (t\<lparr>cache_ent := e\<rparr>)" "only_iters t (t\<lparr>tab_iter_ent := e\<rparr>)"
  by (rule only_itersI, cases t, simp add: cache_def forget_def)+

text \<open>Moving the iterators within the entries.\<close>

lemma proper_iters:
  assumes "proper_table t css" and "only_iters t t'"
    and "\<And>e. e \<in> {val_iter_ent t', cache_ent t', tab_iter_ent t'} \<Longrightarrow> e \<noteq> None \<Longrightarrow>
      e \<in> {val_iter_ent t, cache_ent t, tab_iter_ent t} \<or> the e \<in> set (concat css)"
  shows "proper_table t' css"
proof -
  have "the e \<in> set (concat css)" if "e \<in> {val_iter_ent t', cache_ent t', tab_iter_ent t'}" "e \<noteq> None" for e
    using assms(3) [OF that] that(2) assms(1) unfolding proper_table_def iters_ok_def by blast
  then show ?thesis using assms(1) only_iters_inv [OF assms(2)] unfolding proper_table_def iters_ok_def by blast
qed

lemma proper_found: "proper_table t css \<Longrightarrow> a \<in> set (concat css) \<Longrightarrow> proper_table ((cache (Some a) t)\<lparr>val_iter_ent := Some a\<rparr>) css"
  by (rule proper_iters [OF _ cache_only(2)]) (auto simp: cache_def simp del: set_concat split: if_splits)

lemma proper_forget: "proper_table t css \<Longrightarrow> proper_table (forget t) css"
  by (rule proper_iters [OF _ cache_only(3)]) (auto simp: forget_def)

lemma add_call:
  assumes "proper_table t css" and "is_str t p s" and "\<forall>q. v = Some q \<and> vsz = 0 \<longrightarrow> (\<exists>w. is_str t q w)" and "Suc (length (concat css)) < 2 ^ 32"
  shows "\<exists>t' css'. pr_table_add (Some p) v vsz (Some t) =
      Ok (if stored t css s = [] \<or> flag PR_TABLE_FL_MULTI_VALUE t then (0, None, Some t') else (- 1, Some EEXIST, Some t')) \<and>
    proper_table t' css' \<and> same_config t t' \<and> unat (nents t') \<le> Suc (unat (nents t)) \<and>
    (\<forall>s'. stored t' css' s' = stored t css s' @
      (if s' = s \<and> (stored t css s = [] \<or> flag PR_TABLE_FL_MULTI_VALUE t) then [(v, value_size t v vsz)] else []))"
proof -
  have d: "default_callbacks t" and inv: "table_inv str_hash t css" using assms(1) by (simp_all add: proper_table_def)
  have S: "dt.served t" using d default_served by blast
  have m: "matches t css s = [] \<longleftrightarrow> stored t css s = []" by (simp only: stored_def map_is_Nil_conv)
  have a: "pr_table_add (Some p) v vsz (Some t) = bindR (pr_table_kadd_to p (Suc (length s)) v (value_size t v vsz) t) (\<lambda>(r, e, t). Ok (r, e, Some t))"
    using add_to_kadd [OF assms(2,3)] by (simp add: pr_table_add_def on_table_def)
  have n: "unat (nents t) = length (concat css)" using inv by (simp only: table_inv_def keys_inv_def)
  have P: "proper_table t' css'" if t': "table_inv str_hash t' css'" "same_config t t'" "set (concat css) \<subseteq> set (concat css')" for t' css'
    using assms(1) t' default_same [OF d t'(2)] unfolding proper_table_def iters_ok_def same_config_def by (simp only:) blast
  show ?thesis
  proof (cases "stored t css s = [] \<or> flag PR_TABLE_FL_MULTI_VALUE t")
    case True
    then have "flag PR_TABLE_FL_MULTI_VALUE t \<or> matches t css s = []" using m by blast
    then obtain t' css' where t': "pr_table_kadd_to p (Suc (length s)) v (value_size t v vsz) t = Ok (0, None, t')" "table_inv str_hash t' css'"
        "\<forall>s'. stored t' css' s' = stored t css s' @ (if s' = s then [(v, value_size t v vsz)] else [])" "same_config t t'"
        "set (concat css) \<subseteq> set (concat css')" "nents t' = nents t + 1"
      using dt.kadd_new [OF S inv assms(2) _ assms(4)] by blast
    have "unat (nents t') = Suc (unat (nents t))" using unat_Suc [of "nents t"] assms(4) t'(6) unfolding n by simp
    then show ?thesis using True a t' P [OF t'(2,4,5)] by (intro exI [of _ t'] exI [of _ css']) simp
  next
    case False
    then have "\<not> flag PR_TABLE_FL_MULTI_VALUE t" "matches t css s \<noteq> []" using m by blast+
    then obtain t' where t': "pr_table_kadd_to p (Suc (length s)) v (value_size t v vsz) t = Ok (- 1, Some EEXIST, t')" "table_inv str_hash t' css"
        "\<forall>s'. stored t' css s' = stored t css s'" "same_config t t'" "nents t' = nents t"
      using dt.kadd_exists [OF S inv assms(2)] by blast
    then show ?thesis using False a P [OF t'(2,4)] by (intro exI [of _ t'] exI [of _ css]) simp
  qed
qed

lemma get_call:
  assumes "proper_table t css" and "is_str t p s"
  shows "\<exists>t'. pr_table_get (Some p) (Some t) = Ok (case map (ent_val t) (pending False t css p s) of
      [] \<Rightarrow> ((None, None), Some ENOENT, Some t') | (v, n) # _ \<Rightarrow> ((v, Some n), None, Some t')) \<and>
    proper_table t' css \<and> only_iters t t' \<and> val_iter_ent t' = first_of (pending False t css p s)"
proof -
  have k: "dk.keyed t" and inv: "table_inv str_hash t css" "iters_ok t css" using assms(1) default_keyed by (simp_all add: proper_table_def)
  note g = dk.get_pending [OF k inv assms(2)]
  show ?thesis
  proof (cases "pending False t css p s")
    case Nil
    have "val_iter_ent (forget t) = None" by (simp add: forget_def)
    then show ?thesis using g Nil proper_forget [OF assms(1)] cache_only(3) by auto
  next
    case (Cons a as)
    have a: "a \<in> set (concat css)" using pending_subset [of False t css p s] Cons by (simp del: set_concat)
    show ?thesis using g Cons proper_found [OF assms(1) a] cache_only(2)
      by (intro exI [of _ "(cache (Some a) t)\<lparr>val_iter_ent := Some a\<rparr>"]) (auto simp: ent_val_def)
  qed
qed

lemma exists_call:
  assumes "proper_table t css" and "is_str t p s"
  shows "\<exists>e t'. pr_table_exists (Some p) (Some t) =
      Ok (if concat css = [] then - 1 else sint (word_of_nat (length (stored t css s)) :: uint32), e, Some t') \<and>
    proper_table t' css \<and> only_iters t t'"
proof -
  have k: "dk.keyed t" and inv: "table_inv str_hash t css" "iters_ok t css" using assms(1) default_keyed by (simp_all add: proper_table_def)
  obtain e c where x: "pr_table_exists (Some p) (Some t) =
      Ok (if concat css = [] then - 1 else sint (word_of_nat (length (matches t css s)) :: uint32), e, Some (t\<lparr>cache_ent := c\<rparr>))"
      "c \<noteq> None \<longrightarrow> the c \<in> set (concat css)"
    using dk.exists_count [OF k inv assms(2)] by blast
  have "proper_table (t\<lparr>cache_ent := c\<rparr>) css"
    by (rule proper_iters [OF assms(1) cache_only(4)]) (use x(2) in \<open>auto simp del: set_concat\<close>)
  moreover have "length (matches t css s) = length (stored t css s)" by (simp only: stored_def length_map)
  ultimately show ?thesis using x(1) cache_only(4) by (intro exI [of _ e] exI [of _ "t\<lparr>cache_ent := c\<rparr>"]) simp
qed

text \<open>A new value for an entry.\<close>

lemma set_value:
  assumes "proper_table t css" and "a \<in> set (concat css)" and "e = (ent t a)\<lparr>value_data := v, value_datasz := vsz\<rparr>"
  shows "proper_table (t\<lparr>ents := AList.update a e (ents t)\<rparr>) css"
proof -
  let ?t = "t\<lparr>ents := AList.update a e (ents t)\<rparr>"
  have inv: "table_inv str_hash t css" using assms(1) by (simp add: proper_table_def)
  then have c: "chains_inv str_hash t css" by (simp add: table_inv_def)
  have e: "ent ?t b = (if b = a then e else ent t b)" for b by (simp add: ent_def update_conv')
  have o: "map_of (ents ?t) b = Some (ent ?t b) \<and> enext (ent ?t b) = enext (ent t b) \<and> eprev (ent ?t b) = eprev (ent t b) \<and>
      idx (ent ?t b) = idx (ent t b) \<and> ekey (ent ?t b) = ekey (ent t b)" if b: "b \<in> set (concat css)" for b
  proof -
    have "ent_ok str_hash t b" using chains_inv_split [OF c b] by blast
    then have "map_of (ents t) b = Some (ent t b)" by (simp add: ent_ok_def)
    then show ?thesis using e [of b] assms(3) by (simp add: update_conv')
  qed
  obtain fs where fs: "spare_ents (ents t) (free_ents t) fs (set (concat css))" using inv unfolding table_inv_def free_inv_def by blast
  then have "a \<notin> set fs" using assms(2) unfolding spare_ents_def by blast
  then have m: "map_of (ents ?t) b = map_of (ents t) b" if "b \<in> set fs" for b using that by (auto simp: update_conv')
  have "spare_ents (ents ?t) (free_ents ?t) fs (set (concat css))"
    using fs segment_cong [OF m] m unfolding spare_ents_def by simp
  then have "table_inv str_hash ?t css" using table_inv_fields [OF inv o] by auto
  then show ?thesis using assms(1) by (simp add: proper_table_def iters_ok_def default_callbacks_def del: set_concat)
qed

lemma set_call:
  assumes "proper_table t css" and "is_str t p s"
  shows "\<exists>t'. table_after (pr_table_set (Some p) (Some v) vsz (Some t)) = Ok t' \<and> proper_table t' css \<and> objs t' = objs t \<and> nents t' = nents t"
proof -
  have k: "dk.keyed t" and inv: "table_inv str_hash t css" "iters_ok t css" using assms(1) default_keyed by (simp_all add: proper_table_def)
  obtain e where g: "pr_table_set (Some p) (Some v) vsz (Some t) = Ok (case pending True t css p s of
      [] \<Rightarrow> (- 1, Some e, Some (if nents t = 0 then t else forget t))
    | a # _ \<Rightarrow> if value_data (ent t a) = Some v then (- 1, Some EEXIST, Some t) else (0, None, Some
        ((cache (Some a) (t\<lparr>ents := AList.update a ((ent t a)\<lparr>value_data := Some v, value_datasz := vsz\<rparr>) (ents t)\<rparr>))\<lparr>val_iter_ent := Some a\<rparr>)))"
    using dk.set_pending [OF k inv assms(2)] by blast
  show ?thesis
  proof (cases "pending True t css p s")
    case Nil
    then show ?thesis using g assms(1) proper_forget [OF assms(1)] only_iters_fields [OF cache_only(3)] by (simp add: table_after_def)
  next
    case (Cons a as)
    let ?t = "t\<lparr>ents := AList.update a ((ent t a)\<lparr>value_data := Some v, value_datasz := vsz\<rparr>) (ents t)\<rparr>"
    let ?t' = "(cache (Some a) ?t)\<lparr>val_iter_ent := Some a\<rparr>"
    have a: "a \<in> set (concat css)" using pending_subset [of True t css p s] Cons by (simp del: set_concat)
    have "proper_table ?t' css" by (rule proper_found [OF set_value [OF assms(1) a refl] a])
    moreover have "objs ?t' = objs t" "nents ?t' = nents t" using only_iters_fields [OF cache_only(2)] by simp_all
    ultimately show ?thesis using g Cons assms(1) by (simp add: table_after_def)
  qed
qed

lemma next_call:
  assumes "proper_table t css"
  shows "\<exists>t'. table_after (pr_table_next (Some t)) = Ok t' \<and> proper_table t' css \<and> objs t' = objs t \<and> nents t' = nents t"
proof -
  have c: "chains_inv str_hash t css" using assms by (simp add: proper_table_def table_inv_def)
  have "\<exists>p. table_after (pr_table_next (Some t)) = Ok (t\<lparr>tab_iter_ent := p\<rparr>) \<and> (p \<noteq> None \<longrightarrow> the p \<in> set (concat css))"
  proof (cases "tab_iter_ent t")
    case None
    have "t\<lparr>tab_iter_ent := None\<rparr> = t" using None by (cases t) simp
    then have "table_after (pr_table_next (Some t)) = Ok (t\<lparr>tab_iter_ent := first_of (concat css)\<rparr>)"
      using next_start [OF c None] by (cases "concat css") (simp_all add: table_after_def del: concat_eq_Nil_conv)
    moreover have "first_of (concat css) \<noteq> None \<longrightarrow> the (first_of (concat css)) \<in> set (concat css)"
      by (cases "concat css") (simp_all del: concat_eq_Nil_conv set_concat)
    ultimately show ?thesis by blast
  next
    case (Some a)
    then have "a \<in> set (concat css)" using assms unfolding proper_table_def by simp
    then obtain us vs where v: "concat css = us @ a # vs" by (meson split_list)
    have "set (other_key t a vs) \<subseteq> set (concat css)" unfolding v other_key_def by (auto dest: set_dropWhileD)
    then show ?thesis using next_other [OF c v Some]
      by (cases "other_key t a vs") (auto simp: table_after_def simp del: set_concat)
  qed
  then obtain p where p: "table_after (pr_table_next (Some t)) = Ok (t\<lparr>tab_iter_ent := p\<rparr>)" "p \<noteq> None \<longrightarrow> the p \<in> set (concat css)" by blast
  have "proper_table (t\<lparr>tab_iter_ent := p\<rparr>) css"
    by (rule proper_iters [OF assms cache_only(5)]) (use p(2) in \<open>auto simp del: set_concat\<close>)
  then show ?thesis using p(1) by simp
qed

lemma do_call_ok:
  assumes "proper_table t css" and "call_ok t c" and "Suc (unat (nents t)) < 2 ^ 32"
  shows "\<exists>t' css'. do_call c t = Ok t' \<and> proper_table t' css' \<and> objs t' = objs t \<and> unat (nents t') \<le> Suc (unat (nents t))"
proof (cases c)
  case (Add_call p v vsz)
  have "unat (nents t) = length (concat css)" using assms(1) by (simp only: proper_table_def table_inv_def keys_inv_def)
  then have "Suc (length (concat css)) < 2 ^ 32" using assms(3) by (simp only:)
  moreover obtain s where "is_str t p s" "\<forall>q. v = Some q \<and> vsz = 0 \<longrightarrow> (\<exists>w. is_str t q w)" using assms(2) Add_call by auto
  ultimately obtain t' css' where "pr_table_add (Some p) v vsz (Some t) =
      Ok (if stored t css s = [] \<or> flag PR_TABLE_FL_MULTI_VALUE t then (0, None, Some t') else (- 1, Some EEXIST, Some t'))"
      "proper_table t' css'" "same_config t t'" "unat (nents t') \<le> Suc (unat (nents t))"
    using add_call [OF assms(1)] by blast
  then show ?thesis using Add_call by (auto simp: table_after_def same_config_def split: if_splits)
next
  case (Get_call p)
  then obtain s where "is_str t p s" using assms(2) by auto
  from get_call [OF assms(1) this] show ?thesis using Get_call by (cases "map (ent_val t) (pending False t css p s)") (auto simp: table_after_def dest!: only_iters_fields)
next
  case (Exists_call p)
  then obtain s where "is_str t p s" using assms(2) by auto
  from exists_call [OF assms(1) this] show ?thesis using Exists_call by (fastforce simp: table_after_def dest: only_iters_fields)
next
  case (Set_call p v vsz)
  then obtain s where "is_str t p s" using assms(2) by auto
  from set_call [OF assms(1) this] show ?thesis using Set_call by fastforce
next
  case Next_call
  then show ?thesis using next_call [OF assms(1)] by fastforce
next
  case Rewind_call
  have "proper_table (t\<lparr>tab_iter_ent := None\<rparr>) css"
    by (rule proper_iters [OF assms(1) cache_only(5)]) auto
  then show ?thesis using Rewind_call by (auto simp: table_after_def pr_table_rewind_def on_table_def)
next
  case Count_call
  then show ?thesis using assms(1) by (auto simp: table_after_def pr_table_count_def on_table_def)
qed

section \<open>Repeated lookups\<close>

text \<open>The values a caller sees who calls \<open>pr_table_get\<close> with the same pointer until it fails, \<open>k\<close> times at most.\<close>

primrec get_values :: "nat \<Rightarrow> nat \<Rightarrow> table_rec \<Rightarrow> (ptr \<times> nat) list res" where
  "get_values 0 p t = Timeout"
| "get_values (Suc k) p t =
     bindR (pr_table_get (Some p) (Some t)) (\<lambda>((v, n), e, tab).
     if e \<noteq> None then Ok [] else bindR (get_values k p (the tab)) (\<lambda>vs. Ok ((v, the n) # vs)))"

text \<open>The next lookup or change with the pointer of the key that was just found starts behind the entry.\<close>

lemma pending_behind:
  assumes "chains_inv sh t css" and "matches t css s = us @ a # vs" and "val_iter_ent t = Some a" and "key_data (ent_key t a) = Some p"
  shows "pending b t css p s = vs"
proof -
  have "distinct (matches t css s)" using entries_distinct [OF assms(1)] by (rule distinct_filter)
  then have "a \<notin> set us" unfolding assms(2) by auto
  then have "onwards a (us @ a # vs) = a # vs" by (induction us) (auto simp: onwards_def)
  then show ?thesis using assms(2-4) by (simp add: pending_def recall_def)
qed

lemma get_values_from:
  "proper_table t css \<Longrightarrow> is_str t p s \<Longrightarrow> \<forall>a \<in> set (matches t css s). key_data (ent_key t a) = Some p \<Longrightarrow>
    matches t css s = us @ pending False t css p s \<Longrightarrow> length (pending False t css p s) < k \<Longrightarrow>
    get_values k p t = Ok (map (ent_val t) (pending False t css p s))"
proof (induction k arbitrary: t us)
  case (Suc k)
  obtain t' where t': "pr_table_get (Some p) (Some t) = Ok (case map (ent_val t) (pending False t css p s) of
      [] \<Rightarrow> ((None, None), Some ENOENT, Some t') | (v, n) # _ \<Rightarrow> ((v, Some n), None, Some t'))"
      "proper_table t' css" "only_iters t t'" "val_iter_ent t' = first_of (pending False t css p s)"
    using get_call [OF Suc.prems(1,2)] by blast
  show ?case
  proof (cases "pending False t css p s")
    case Nil
    then show ?thesis using t'(1) by simp
  next
    case (Cons a as)
    note e = only_iters_ents [OF t'(3)]
    have m: "matches t' css s = us @ a # as" using Suc.prems(4) Cons e by simp
    then have "a \<in> set (matches t css s)" unfolding Suc.prems(4) Cons by simp
    then have "key_data (ent_key t' a) = Some p" using Suc.prems(3) e by (simp only:)
    moreover have "chains_inv str_hash t' css" using t'(2) by (simp add: proper_table_def table_inv_def)
    ultimately have n: "pending False t' css p s = as" using pending_behind [OF _ m] t'(4) Cons by simp
    have "get_values k p t' = Ok (map (ent_val t') (pending False t' css p s))"
    proof (rule Suc.IH [OF t'(2)])
      show "is_str t' p s" using Suc.prems(2) e by simp
      show "\<forall>a \<in> set (matches t' css s). key_data (ent_key t' a) = Some p" using Suc.prems(3) e by (simp only:)
      show "matches t' css s = (us @ [a]) @ pending False t' css p s" unfolding n m by simp
      show "length (pending False t' css p s) < k" using Suc.prems(5) n Cons by simp
    qed
    then show ?thesis using t'(1) Cons n e by (cases "ent_val t a") simp
  qed
qed simp

section \<open>Removing\<close>

text \<open>A removal takes the first entry with the string in its chain.\<close>

lemma remove_found:
  assumes "proper_table t css" and "is_str t p s" and "cache_ent t = None" and "matches t css s = a # as"
  shows "pr_table_remove (Some p) (Some t) = bindR (bindR (tab_entry_remove (Some a) t) (tab_entry_free (Some a)))
    (\<lambda>t'. Ok ((fst (ent_val t a), Some (snd (ent_val t a))), None, Some (t'\<lparr>cache_ent := None\<rparr>)))"
proof -
  have k: "dk.keyed t" and inv: "table_inv str_hash t css" using assms(1) default_keyed by (simp_all add: proper_table_def)
  then have c: "chains_inv str_hash t css" by (simp add: table_inv_def)
  have a: "a \<in> set (concat css)" using assms(4) by (metis filter_is_subset list.set_intros(1) subsetD)
  have n: "nents t \<noteq> 0" using nents_zero [OF inv] a by (metis empty_iff list.set(1))
  have o: "ent_at (Some a) t = Ok (ent t a)" using chains_inv_split [OF c a] ent_key_ok by metis
  have m: "filter (\<lambda>a. ent_str t a = s) (css ! chain_of str_hash t s) = a # as" using stored_chain [OF c] assms(4) by simp
  have l: "chain enext (ents t) (chains t ! chain_of str_hash t s) (css ! chain_of str_hash t s)"
    using chains_inv_chain(1) [OF c] linked_segment by blast
  have f: "find_ent (length (ents t)) (str_hash s) p (Suc (length s)) (chains t ! chain_of str_hash t s) t = Ok (Some a)"
    using dk.find_in_chain [OF k assms(2) l chains_inv_chain(2) [OF c]] m by simp
  have "chains t ! chain_of str_hash t s \<noteq> None" using l m by (cases "css ! chain_of str_hash t s") auto
  then show ?thesis
    using n f o assms(3) dk.hash_key_ok [OF k assms(2)] strlen_at_str [OF assms(2)] chains_inv_index(3,4) [OF c, of s]
    by (auto simp: pr_table_remove_def on_table_def pr_table_kremove_from_def cached_def looked_up_def remove_ent_def ent_val_def)
qed

lemma remove_returns:
  assumes "proper_table t css" and "is_str t p s" and "cache_ent t = None" and "matches t css s = a # as"
    and "bindR (tab_entry_remove (Some a) t) (tab_entry_free (Some a)) = Ok t'"
  shows "pr_table_remove (Some p) (Some t) = Ok ((fst (ent_val t a), Some (snd (ent_val t a))), None, Some (t'\<lparr>cache_ent := None\<rparr>))"
  unfolding remove_found [OF assms(1-4)] assms(5) by simp

section \<open>A table with two entries in one chain\<close>

definition sample :: table_rec where
  "sample = \<lparr>objs = [(10, [97, 0]), (11, [98, 0]), (12, [97, 0]), (13, [99, 0]), (20, [1, 2, 3, 4]), (21, [5, 6, 7, 8])],
     ents = [(5, \<lparr>enext = Some 6, eprev = None, idx = 0, ekey = Some 7, value_data = Some 20, value_datasz = 4\<rparr>),
       (6, \<lparr>enext = None, eprev = Some 5, idx = 0, ekey = Some 8, value_data = Some 21, value_datasz = 4\<rparr>)],
     tkeys = [(7, \<lparr>knext = None, key_data = Some 10, key_datasz = 2, khash = 3298, knents = 1\<rparr>),
       (8, \<lparr>knext = None, key_data = Some 11, key_datasz = 2, khash = 3332, knents = 1\<rparr>)],
     flags = 0, chains = [Some 5], nchains = 1, nents = 2, free_ents = None, free_keys = None, tab_iter_ent = None,
     val_iter_ent = None, cache_ent = None, keycmp = key_cmp, keyhash = key_hash, entinsert = entry_insert, entremove = entry_remove\<rparr>"

lemma sample_strings: "is_str sample 10 [97]" "is_str sample 11 [98]" "is_str sample 12 [97]" "is_str sample 13 [99]"
  by (simp_all add: is_str_def sample_def cstr_def)

lemma sample_entries: "ent_str sample 5 = [97]" "ent_str sample 6 = [98]" "key_data (ent_key sample 5) = Some 10" "key_data (ent_key sample 6) = Some 11"
    "ent_val sample 5 = (Some 20, 4)" "ent_val sample 6 = (Some 21, 4)"
  by (simp_all add: ent_str_def ent_key_def ent_val_def ent_def sample_def cstr_def)

lemma sample_stored: "stored sample [[5, 6]] s = (if s = [97] then [(Some 20, 4)] else if s = [98] then [(Some 21, 4)] else [])"
  by (simp add: stored_def sample_entries)

lemma sample_hash: "str_hash [97] = 3298" "str_hash [98] = 3332"
  by (simp_all add: str_hash_def numeral_2_eq_2)

lemma sample_ok: "ent_ok str_hash sample 5" "ent_ok str_hash sample 6"
  using sample_strings by (auto simp: ent_ok_def sample_entries sample_hash) (simp_all add: ent_key_def ent_def sample_def)

lemma sample_linked: "linked sample (Some 5) [5, 6]"
  by (simp add: sample_def)

lemma sample_inv: "table_inv str_hash sample [[5, 6]]"
proof -
  have "nchains sample = 1" "chains sample = [Some 5]" "idx (ent sample 5) = 0" "idx (ent sample 6) = 0"
    by (simp_all add: sample_def ent_def)
  then have "chains_inv str_hash sample [[5, 6]]" using sample_ok sample_linked by (simp add: chains_inv_def chain_of_def)
  moreover have "free_ents sample = None" "free_keys sample = None" by (simp_all add: sample_def)
  then have "free_inv sample [[5, 6]]" by (auto simp: free_inv_def spare_ents_def spare_keys_def intro!: exI [of _ "[]"])
  moreover have "nents sample = 2" "knents (ent_key sample 5) = 1" "knents (ent_key sample 6) = 1" by (simp_all add: sample_def ent_key_def ent_def)
  then have "keys_inv sample [[5, 6]]" by (simp add: keys_inv_def sample_entries)
  ultimately show ?thesis by (simp add: table_inv_def)
qed

lemma sample_iters: "val_iter_ent sample = None" "cache_ent sample = None" "tab_iter_ent sample = None"
    "flag PR_TABLE_FL_MULTI_VALUE sample = False" "flag PR_TABLE_FL_USE_CACHE sample = False" "nents sample = 2"
  by (simp_all add: sample_def flag_def)

lemma sample_chain: "chain_of str_hash sample s = 0"
  by (simp add: chain_of_def sample_def)

lemma sample_proper: "proper_table sample [[5, 6]]"
  using sample_inv by (simp add: proper_table_def iters_ok_def sample_iters default_callbacks_def) (simp add: sample_def)

section \<open>Properties\<close>

text \<open>C9: Type soundness of the interface: from a proper table, every sequence of additions, lookups, tests, changes,
  steps and rewinds with strings as keys returns (no wild pointer, no index out of bounds, no endless loop)
  and leaves a proper table, as long as the counters of 32 bits suffice.\<close>

theorem table_calls_typed:
  assumes "proper_table t css" and "\<forall>c \<in> set cs. call_ok t c" and "unat (nents t) + length cs < 2 ^ 32"
  shows "\<exists>t' css'. do_calls cs t = Ok t' \<and> proper_table t' css'"
  using assms
proof (induction cs arbitrary: t css)
  case (Cons c cs)
  then have "call_ok t c" "Suc (unat (nents t)) < 2 ^ 32" by simp_all
  then obtain t1 css1 where t1: "do_call c t = Ok t1" "proper_table t1 css1" "objs t1 = objs t" "unat (nents t1) \<le> Suc (unat (nents t))"
    using do_call_ok [OF Cons.prems(1)] by blast
  then have "\<forall>c \<in> set cs. call_ok t1 c" "unat (nents t1) + length cs < 2 ^ 32" using Cons.prems(2,3) call_ok_objs [OF t1(3)] by simp_all
  then show ?case using Cons.IH [OF t1(2)] t1(1) by auto
qed auto

lemma table_calls_typed_witness:
  "\<exists>t' css'. do_calls [Add_call 13 (Some 20) 4, Get_call 10, Set_call 11 20 4, Next_call, Exists_call 12, Count_call, Rewind_call] sample = Ok t' \<and>
    proper_table t' css'"
  by (rule table_calls_typed [OF sample_proper]) (use sample_strings in \<open>auto simp: sample_iters\<close>)

text \<open>C8: \<open>pr_table_add\<close> refines the addition to a map from strings to multisets of values. When the key is new
  or the table has the flag for multiple values, the call returns 0 and the value is stored under the key
  beside those that were; otherwise it returns -1 with \<open>EEXIST\<close> and what is stored stays the same. What is
  stored under other strings never changes, and the links of the chains, the free lists and the counts are
  those of a proper table again. Where in its chain the new entry comes is left open.\<close>

theorem table_add_stores:
  assumes "proper_table t css" and "is_str t p s" and "\<forall>q. v = Some q \<and> vsz = 0 \<longrightarrow> (\<exists>w. is_str t q w)"
    and "Suc (length (concat css)) < 2 ^ 32"
  shows "\<exists>t' css'. pr_table_add (Some p) v vsz (Some t) =
      Ok (if stored t css s = [] \<or> flag PR_TABLE_FL_MULTI_VALUE t then (0, None, Some t') else (- 1, Some EEXIST, Some t')) \<and>
    proper_table t' css' \<and>
    mset (stored t' css' s) = mset (stored t css s) +
      (if stored t css s = [] \<or> flag PR_TABLE_FL_MULTI_VALUE t then {#(v, value_size t v vsz)#} else {#}) \<and>
    (\<forall>s'. s' \<noteq> s \<longrightarrow> stored t' css' s' = stored t css s')"
proof -
  obtain t' css' where t': "pr_table_add (Some p) v vsz (Some t) =
      Ok (if stored t css s = [] \<or> flag PR_TABLE_FL_MULTI_VALUE t then (0, None, Some t') else (- 1, Some EEXIST, Some t'))"
      "proper_table t' css'" "\<forall>s'. stored t' css' s' = stored t css s' @
      (if s' = s \<and> (stored t css s = [] \<or> flag PR_TABLE_FL_MULTI_VALUE t) then [(v, value_size t v vsz)] else [])"
    using add_call [OF assms] by blast
  then show ?thesis by (intro exI [of _ t'] exI [of _ css']) simp
qed

lemma table_add_stores_witness:
  "\<exists>t' css'. pr_table_add (Some 13) (Some 20) 4 (Some sample) = Ok (0, None, Some t') \<and> proper_table t' css' \<and>
    mset (stored t' css' [99]) = {#(Some 20, 4)#} \<and> stored t' css' [97] = stored sample [[5, 6]] [97]"
proof -
  have v: "value_size sample (Some 20) 4 = 4" "stored sample [[5, 6]] [99] = []" by (simp_all add: value_size_def sample_stored)
  have "\<exists>t' css'. pr_table_add (Some 13) (Some 20) 4 (Some sample) = Ok (0, None, Some t') \<and> proper_table t' css' \<and>
      mset (stored t' css' [99]) = {#(Some 20, 4)#} \<and> (\<forall>s'. s' \<noteq> [99] \<longrightarrow> stored t' css' s' = stored sample [[5, 6]] s')"
    using table_add_stores [OF sample_proper sample_strings(4), of "Some 20" 4] unfolding v by simp
  then obtain t' css' where "pr_table_add (Some 13) (Some 20) 4 (Some sample) = Ok (0, None, Some t')" "proper_table t' css'"
      "mset (stored t' css' [99]) = {#(Some 20, 4)#}" "\<forall>s'. s' \<noteq> [99] \<longrightarrow> stored t' css' s' = stored sample [[5, 6]] s'"
    by blast
  then show ?thesis by (intro exI [of _ t'] exI [of _ css']) simp
qed

text \<open>C21: What was added can be looked up. After an addition to a table without a lookup under way and without a
  cached entry, \<open>pr_table_get\<close> with the string of the key finds one of the values stored before or the new
  one: the new one when there was none. With any other string it answers what it would have answered
  before the addition.\<close>

theorem table_add_get:
  assumes "proper_table t css" and "is_str t p s" and "\<forall>q. v = Some q \<and> vsz = 0 \<longrightarrow> (\<exists>w. is_str t q w)"
    and "Suc (length (concat css)) < 2 ^ 32" and "val_iter_ent t = None" and "cache_ent t = None" and "is_str t q s'"
  shows "\<exists>r t' t''. pr_table_add (Some p) v vsz (Some t) = Ok (r, (if r = 0 then None else Some EEXIST), Some t') \<and>
    (r = 0 \<longleftrightarrow> stored t css s = [] \<or> flag PR_TABLE_FL_MULTI_VALUE t) \<and>
    (if s' = s
     then \<exists>v' n. pr_table_get (Some q) (Some t') = Ok ((v', Some n), None, Some t'') \<and>
       (v', n) \<in> set (stored t css s) \<union> (if r = 0 then {(v, value_size t v vsz)} else {})
     else \<exists>a e u. pr_table_get (Some q) (Some t') = Ok (a, e, Some t'') \<and> pr_table_get (Some q) (Some t) = Ok (a, e, Some u))"
proof -
  let ?new = "stored t css s = [] \<or> flag PR_TABLE_FL_MULTI_VALUE t"
  obtain t' css' where t': "pr_table_add (Some p) v vsz (Some t) =
      Ok (if ?new then (0, None, Some t') else (- 1, Some EEXIST, Some t'))"
      "proper_table t' css'" "same_config t t'" "\<forall>s'. stored t' css' s' = stored t css s' @
      (if s' = s \<and> ?new then [(v, value_size t v vsz)] else [])"
    using add_call [OF assms(1-4)] by blast
  have "is_str t' q s'" "val_iter_ent t' = None" "cache_ent t' = None" using t'(3) assms(5-7) by (simp_all add: same_config_def is_str_def)
  moreover have "default_callbacks t'" "table_inv str_hash t' css'" using t'(2) by (simp_all add: proper_table_def)
  ultimately obtain t'' where g: "pr_table_get (Some q) (Some t') = Ok (case stored t' css' s' of
      [] \<Rightarrow> ((None, None), Some ENOENT, Some t'') | (v, n) # _ \<Rightarrow> ((v, Some n), None, Some t''))"
    using get_first by blast
  have "default_callbacks t" "table_inv str_hash t css" using assms(1) by (simp_all add: proper_table_def)
  then obtain u where u: "pr_table_get (Some q) (Some t) = Ok (case stored t css s' of
      [] \<Rightarrow> ((None, None), Some ENOENT, Some u) | (v, n) # _ \<Rightarrow> ((v, Some n), None, Some u))"
    using get_first assms(5-7) by blast
  have "if s' = s
     then \<exists>v' n. pr_table_get (Some q) (Some t') = Ok ((v', Some n), None, Some t'') \<and>
       (v', n) \<in> set (stored t css s) \<union> (if ?new then {(v, value_size t v vsz)} else {})
     else \<exists>a e u. pr_table_get (Some q) (Some t') = Ok (a, e, Some t'') \<and> pr_table_get (Some q) (Some t) = Ok (a, e, Some u)"
  proof (cases "s' = s")
    case True
    have st: "stored t' css' s' = stored t css s @ (if ?new then [(v, value_size t v vsz)] else [])" using t'(4) True by simp
    then have "stored t' css' s' \<noteq> []" by auto
    then obtain v' n rest where "stored t' css' s' = (v', n) # rest" by (metis list.exhaust prod.exhaust)
    moreover from this have "(v', n) \<in> set (stored t css s) \<union> (if ?new then {(v, value_size t v vsz)} else {})"
      using arg_cong [OF st, of set] by (auto split: if_splits)
    ultimately show ?thesis using g True by simp
  next
    case False
    then have "stored t' css' s' = stored t css s'" using t'(4) by simp
    then show ?thesis using False g u by (cases "stored t css s'") auto
  qed
  then show ?thesis using t'(1)
    by (intro exI [of _ "if ?new then 0 else - 1"] exI [of _ t'] exI [of _ t'']) (auto split: if_splits)
qed

lemma table_add_get_witness:
  "\<exists>r t' t''. pr_table_add (Some 13) (Some 20) 4 (Some sample) = Ok (r, (if r = 0 then None else Some EEXIST), Some t') \<and>
    pr_table_get (Some 13) (Some t') = Ok ((Some 20, Some 4), None, Some t'')"
  using table_add_get [OF sample_proper sample_strings(4) _ _ sample_iters(1,2) sample_strings(4), of "Some 20" 4]
  by (auto simp: sample_stored value_size_def split: if_splits)

text \<open>\<open>pr_table_empty\<close> returns: its loop over the heads of a chain ends for every chain, afterwards nothing is stored,
  and the table can be freed.\<close>

theorem table_empty_clears:
  assumes "proper_table t css"
  shows "\<exists>t'. pr_table_empty (Some t) = Ok (0, None, Some t') \<and> table_inv str_hash t' (replicate (length css) []) \<and>
    pr_table_free (Some t') = (0, None, None)"
proof -
  have inv: "default_callbacks t" "table_inv str_hash t css" using assms by (simp_all add: proper_table_def)
  show ?thesis
  proof (cases "nents t = 0")
    case True
    then have "concat css = []" using nents_zero inv(2) by blast
    then have "css = replicate (length css) []" by (simp add: replicate_length_same)
    then show ?thesis using True inv(2) by (simp add: pr_table_empty_def pr_table_free_def on_table_def)
  next
    case False
    have l: "length css = unat (nchains t)" using inv(2) by (simp add: table_inv_def chains_inv_def)
    then obtain t' where t': "empty_chains (unat (nchains t)) 0 t = Ok t'" "table_inv str_hash t' (replicate (length css) [])"
      using empty_chains_ok [OF inv, of 0 "unat (nchains t)"] by auto
    have "nents t' = 0" using nents_zero [OF t'(2)] by simp
    then show ?thesis using False t' by (simp add: pr_table_empty_def pr_table_free_def on_table_def)
  qed
qed

lemma table_empty_clears_witness:
  "\<exists>t'. pr_table_empty (Some sample) = Ok (0, None, Some t') \<and> table_inv str_hash t' [[]] \<and> pr_table_free (Some t') = (0, None, None)"
  using table_empty_clears [OF sample_proper] by simp

text \<open>\<open>pr_table_do\<close> calls the callback once for every entry, chain by chain, and returns 0; without the flag
  \<open>PR_TABLE_DO_FL_ALL\<close> the first negative result ends it, and -1 with \<open>EPERM\<close> is returned. The table does not
  change.\<close>

theorem table_do_visits:
  assumes "table_inv sh t css"
  shows "pr_table_do (Some cb) u fl (Some t) =
    (let (stop, u') = visit cb (fl AND PR_TABLE_DO_FL_ALL \<noteq> 0) t (concat css) u in
      Ok (if stop then ((- 1, u'), Some EPERM, Some t) else ((0, u'), None, Some t)))"
proof -
  have c: "chains_inv sh t css" using assms by (simp add: table_inv_def)
  then have d: "do_chains (unat (nchains t)) 0 cb b t u = Ok (visit cb b t (concat css) u)" for b
    using do_chains_visit [OF c, of 0 "unat (nchains t)"] by (simp add: chains_inv_def)
  show ?thesis
  proof (cases "nents t = 0")
    case True
    then have "concat css = []" using nents_zero assms by blast
    then show ?thesis using True by (simp add: pr_table_do_def on_table_def del: concat_eq_Nil_conv)
  qed (use d in \<open>auto simp: pr_table_do_def on_table_def split: prod.splits\<close>)
qed

lemma table_do_visits_witness:
  "pr_table_do (Some (\<lambda>k ksz v vsz u. (0, (k, v) # u))) [] 0 (Some sample) =
    Ok ((0, [(Some 11, Some 21), (Some 10, Some 20)]), None, Some sample)"
  using table_do_visits [OF sample_inv, of "\<lambda>k ksz v vsz u. (0, (k, v) # u)" "[]" 0] by (simp add: sample_entries)

text \<open>A caller who rewinds the table and calls \<open>pr_table_next\<close> until it returns NULL sees the keys of all entries in
  the order of the chains, one for every run of entries with the same key; no more calls are needed than
  there are entries and one more.\<close>

theorem table_next_walks:
  assumes "table_inv sh t css"
  shows "\<exists>t' ps. pr_table_rewind (Some t) = Ok (0, None, Some t') \<and> next_keys (Suc (length (concat css))) t' = Ok ps \<and>
    list_all2 (is_str t) ps (remdups_adj (map (ent_str t) (concat css)))"
proof -
  let ?t = "t\<lparr>tab_iter_ent := None\<rparr>"
  have inv: "table_inv sh ?t css" using assms by (simp add: iter_inv)
  then have c: "chains_inv sh ?t css" by (simp add: table_inv_def)
  note n = next_start [OF c]
  have "\<exists>ps. next_keys (Suc (length (concat css))) ?t = Ok ps \<and> list_all2 (is_str t) ps (remdups_adj (map (ent_str t) (concat css)))"
  proof (cases "concat css")
    case Nil
    then show ?thesis using n by (simp del: concat_eq_Nil_conv)
  next
    case (Cons a as)
    let ?t' = "t\<lparr>tab_iter_ent := Some a\<rparr>"
    have a: "a \<in> set (concat css)" unfolding Cons by simp
    obtain p where p: "key_data (ent_key t a) = Some p" "is_str t p (ent_str t a)" using entry_key_data [OF c a] by auto
    obtain ps where ps: "next_keys (length (concat css)) ?t' = Ok ps" "list_all2 (is_str t) ps (tl (remdups_adj (map (ent_str t) (a # as))))"
      using next_keys_from [of sh ?t' css "[]" a as "length (concat css)"] assms Cons by (auto simp: iter_inv simp del: length_concat)
    have "remdups_adj (map (ent_str t) (a # as)) = ent_str t a # tl (remdups_adj (map (ent_str t) (a # as)))" by (simp add: remdups_adj_Cons')
    then have "list_all2 (is_str t) (p # ps) (remdups_adj (map (ent_str t) (concat css)))" unfolding Cons using p(2) ps(2) by (metis list_all2_Cons)
    moreover have "next_keys (Suc k) ?t = bindR (next_keys k ?t') (\<lambda>ps. Ok (p # ps))" for k using n Cons p(1) by simp
    then have "next_keys (Suc (length (concat css))) ?t = Ok (p # ps)" using ps(1) by simp
    ultimately show ?thesis by blast
  qed
  then show ?thesis by (auto simp: pr_table_rewind_def on_table_def)
qed

lemma table_next_walks_witness:
  "\<exists>t' ps. pr_table_rewind (Some sample) = Ok (0, None, Some t') \<and> next_keys 3 t' = Ok ps \<and> list_all2 (is_str sample) ps [[97], [98]]"
  using table_next_walks [OF sample_inv] by (simp only: concat.simps append_Nil2 list.size map_append list.map sample_entries append_Cons append_Nil) (simp add: numeral_3_eq_3)

text \<open>Repeated lookups with the pointer under which the key was added return all values of the key, in the order in
  which they were added, and then fail. So the second lookup of a key with one value fails, although the
  key is still in the table.\<close>

theorem table_get_iterates:
  assumes "proper_table t css" and "is_str t p s" and "\<forall>a \<in> set (concat css). ent_str t a = s \<longrightarrow> key_data (ent_key t a) = Some p"
    and "val_iter_ent t = None" and "cache_ent t = None"
  shows "get_values (Suc (length (stored t css s))) p t = Ok (stored t css s)"
proof -
  have n: "pending False t css p s = matches t css s" using assms(4,5) by (simp add: pending_def recall_def)
  have m: "\<forall>a \<in> set (matches t css s). key_data (ent_key t a) = Some p" using assms(3) by (simp only: set_filter) blast
  have "get_values (Suc (length (stored t css s))) p t = Ok (map (ent_val t) (pending False t css p s))"
  proof (rule get_values_from [OF assms(1,2) m])
    show "matches t css s = [] @ pending False t css p s" unfolding n by simp
    show "length (pending False t css p s) < Suc (length (stored t css s))" unfolding n stored_def length_map by (rule lessI)
  qed
  then show ?thesis unfolding n stored_def .
qed

lemma table_get_iterates_witness: "get_values 2 10 sample = Ok [(Some 20, 4)]"
  using table_get_iterates [OF sample_proper sample_strings(1)] by (simp add: sample_stored sample_entries sample_iters numeral_2_eq_2 del: get_values.simps)

text \<open>\<open>pr_table_remove\<close> refines the removal of the first value under a string when its entry is the first of its chain: the
  value is returned, the other values and the other strings keep theirs, and the table is linked and counted
  properly again.\<close>

theorem table_remove_first:
  assumes "proper_table t css" and "is_str t p s" and "cache_ent t = None" and "css ! chain_of str_hash t s = a # as" and "ent_str t a = s"
  shows "\<exists>t' w n. pr_table_remove (Some p) (Some t) = Ok ((w, Some n), None, Some t') \<and>
    default_callbacks t' \<and> table_inv str_hash t' (css[chain_of str_hash t s := as]) \<and>
    (\<forall>s'. stored t css s' = (if s' = s then [(w, n)] else []) @ stored t' (css[chain_of str_hash t s := as]) s')"
proof -
  let ?i = "chain_of str_hash t s"
  have d: "default_callbacks t" and inv: "table_inv str_hash t css" using assms(1) by (simp_all add: proper_table_def)
  then have c: "chains_inv str_hash t css" by (simp add: table_inv_def)
  have m: "\<exists>bs. matches t css s = a # bs" using stored_chain [OF c, of s] assms(4,5) by simp
  obtain t' where t': "bindR (tab_entry_remove (Some a) t) (tab_entry_free (Some a)) = Ok t'" "table_inv str_hash t' (css[?i := as])"
      "\<forall>s'. stored t css s' = (if s' = ent_str t a then [ent_val t a] else []) @ stored t' (css[?i := as]) s'" "same_config t t'"
    using dc.remove_head [OF _ inv chains_inv_index(1) [OF c] assms(4)] d by (auto simp: default_callbacks_def)
  let ?t = "t'\<lparr>cache_ent := None\<rparr>"
  have "table_inv str_hash ?t (css[?i := as])" "stored ?t (css[?i := as]) = stored t' (css[?i := as])" "default_callbacks ?t"
    using only_iters_inv [OF cache_only(4) [of t' None], of str_hash "css[?i := as]"] t'(2) default_same [OF d t'(4)] by simp_all
  moreover have "pr_table_remove (Some p) (Some t) = Ok ((fst (ent_val t a), Some (snd (ent_val t a))), None, Some ?t)"
    using remove_returns [OF assms(1-3) _ t'(1)] m by blast
  ultimately show ?thesis using t'(3) assms(5) by (intro exI [of _ ?t] exI [of _ "fst (ent_val t a)"] exI [of _ "snd (ent_val t a)"]) simp
qed

lemma table_remove_first_witness:
  "\<exists>t' w n. pr_table_remove (Some 10) (Some sample) = Ok ((w, Some n), None, Some t') \<and> default_callbacks t' \<and>
    table_inv str_hash t' [[6]] \<and> (\<forall>s. stored sample [[5, 6]] s = (if s = [97] then [(w, n)] else []) @ stored t' [[6]] s)"
  using table_remove_first [OF sample_proper sample_strings(1) sample_iters(2), of 5 "[6]"] by (simp add: sample_chain sample_entries)

end
