(* ===== verification/Ftp_Faults.thy ===== *)
theory Ftp_Faults
  imports Ftp_Contract
begin

text \<open>
  Where the hash table of proftpd does not do what its header announces: the iterator that a lookup leaves
  behind makes a change of the same value fail and survives the removal of its entry, and a removal behind
  other entries of a chain loses those.
\<close>

section \<open>Removing the last entry of a chain\<close>

lemma entry_remove_last:
  assumes "dsegment enext eprev es None (Some b) (ws @ [c, a]) l None"
  shows "\<exists>n m. map_of es a = Some n \<and> map_of es c = Some m \<and> a \<noteq> c \<and> b \<noteq> a \<and>
    entry_remove (Some b) (Some a) es = Ok (None, AList.update a (n\<lparr>eprev := None, enext := None\<rparr>) (AList.update c (m\<lparr>enext := None\<rparr>) es))"
proof -
  have ch: "chain enext es (Some b) (ws @ [c, a])" using dsegment_segment [OF assms] .
  have d: "distinct (ws @ [c, a])" using chain_distinct [OF ch] .
  have b: "b \<noteq> a" using ch d by (cases ws) auto
  obtain n m where n: "map_of es a = Some n" "enext n = None" "eprev n = Some c" "map_of es c = Some m"
    using assms by (auto simp: dsegment_append)
  then show ?thesis using b d by (intro exI [of _ n] exI [of _ m]) (simp add: entry_remove_def update_conv')
qed

lemma remove_last_empties:
  assumes "default_callbacks t" and "table_inv str_hash t css" and "i < length css" and "css ! i = ws @ [c, a]"
  shows "\<exists>t'. bindR (tab_entry_remove (Some a) t) (tab_entry_free (Some a)) = Ok t' \<and> chains t' = (chains t)[i := None] \<and>
    nents t' = nents t - 1 \<and> same_config t t'"
proof -
  have inv: "chains_inv str_hash t css" "free_inv t css" using assms(2) by (simp_all add: table_inv_def)
  have a: "a \<in> set (concat css)" using set_chain_subset [OF assms(3)] assms(4) by auto
  have ok: "ent_ok str_hash t a" using chains_inv_ent_ok [OF inv(1) a] .
  obtain k where k: "ekey (ent t a) = Some k" "map_of (tkeys t) k = Some (ent_key t a)" using used_key [OF ok] by blast
  have x: "map_of (ents t) a = Some (ent t a)" "uint (idx (ent t a)) = int i"
    using ok inv(1) assms(3,4) uint_index [of i css "nchains t"] by (auto simp: ent_ok_def chains_inv_def)
  have il: "i < length (chains t)" using chains_inv_index(2) [OF inv(1)] assms(3) by simp
  obtain b l where l: "chains t ! i = Some b" "dsegment enext eprev (ents t) None (Some b) (ws @ [c, a]) l None"
    using inv(1) assms(3,4) unfolding chains_inv_def by (cases ws) fastforce+
  obtain n m where n: "map_of (ents t) a = Some n" "map_of (ents t) c = Some m" "a \<noteq> c" and r: "entry_remove (Some b) (Some a) (ents t) =
      Ok (None, AList.update a (n\<lparr>eprev := None, enext := None\<rparr>) (AList.update c (m\<lparr>enext := None\<rparr>) (ents t)))"
    using entry_remove_last [OF l(2)] by blast
  let ?es = "AList.update a (n\<lparr>eprev := None, enext := None\<rparr>) (AList.update c (m\<lparr>enext := None\<rparr>) (ents t))"
  let ?d = "(ent_key t a)\<lparr>knents := knents (ent_key t a) - 1\<rparr>"
  let ?t2 = "t\<lparr>ents := ?es, chains := (chains t)[i := None], tkeys := AList.update k ?d (tkeys t)\<rparr>"
  have nx: "n = ent t a" using n(1) x(1) by simp
  have t2: "tab_entry_remove (Some a) t =
      bindR (if knents ?d = 0 then bindR (tab_key_free (Some k) ?t2) (set_ent (Some a) (\<lambda>x. x\<lparr>ekey := None\<rparr>)) else Ok ?t2) (\<lambda>t. Ok (t\<lparr>nents := nents t - 1\<rparr>))"
    using assms(1) x il l(1) r k unfolding nx
    by (simp add: default_callbacks_def tab_entry_remove_def ent_at_def set_key_def key_at_def update_conv' Let_def)
  obtain ks where ks: "spare_keys (tkeys t) (free_keys t) ks ((ekey \<circ> ent t) ` set (concat css))" using inv(2) unfolding free_inv_def by blast
  then have kn: "k \<notin> set ks" using k(1) a unfolding spare_keys_def by (metis comp_apply imageI)
  have "spare_keys (AList.update k ?d (tkeys t)) (free_keys t) ks {}"
    by (rule spare_keys_frame [OF ks]) (use kn in \<open>auto simp: update_conv'\<close>)
  then have sk: "spare_keys (tkeys ?t2) (free_keys ?t2) ks {}" by simp
  have "\<exists>es h q. (if knents ?d = 0 then bindR (tab_key_free (Some k) ?t2) (set_ent (Some a) (\<lambda>x. x\<lparr>ekey := None\<rparr>)) else Ok ?t2) =
      Ok (?t2\<lparr>ents := es, tkeys := h, free_keys := q\<rparr>) \<and> (\<forall>y. y \<noteq> a \<longrightarrow> map_of es y = map_of ?es y) \<and> map_of es a \<noteq> None"
  proof (cases "knents ?d = 0")
    case True
    obtain h q where "tab_key_free (Some k) ?t2 = Ok (?t2\<lparr>tkeys := h, free_keys := q\<rparr>)" using tab_key_free_ok [OF sk kn] by (auto simp: update_conv')
    then show ?thesis using True
      by (intro exI [of _ "AList.update a (n\<lparr>eprev := None, enext := None, ekey := None\<rparr>) ?es"] exI [of _ h] exI [of _ q])
        (simp add: set_ent_def update_conv')
  next
    case False
    then show ?thesis by (intro exI [of _ ?es] exI [of _ "tkeys ?t2"] exI [of _ "free_keys t"]) (simp add: update_conv')
  qed
  then obtain es h q where e: "tab_entry_remove (Some a) t = Ok (?t2\<lparr>ents := es, tkeys := h, free_keys := q, nents := nents t - 1\<rparr>)"
      "\<forall>y. y \<noteq> a \<longrightarrow> map_of es y = map_of ?es y" "map_of es a \<noteq> None"
    using t2 by auto
  let ?t3 = "?t2\<lparr>ents := es, tkeys := h, free_keys := q, nents := nents t - 1\<rparr>"
  obtain fs where fs: "spare_ents (ents t) (free_ents t) fs (set (concat css))" using inv(2) unfolding free_inv_def by blast
  have "c \<in> set (concat css)" using set_chain_subset [OF assms(3)] assms(4) by auto
  then have ac: "a \<notin> set fs" "c \<notin> set fs" using fs a unfolding spare_ents_def by blast+
  have "spare_ents es (free_ents t) fs {}" by (rule spare_ents_frame [OF fs]) (use e(2) ac in \<open>auto simp: update_conv'\<close>)
  then have "spare_ents (ents ?t3) (free_ents ?t3) fs {}" by simp
  then obtain es' fq where "tab_entry_free (Some a) ?t3 = Ok (?t3\<lparr>ents := es', free_ents := fq\<rparr>)"
    using tab_entry_free_ok [of ?t3 fs "{}" a] ac(1) e(3) by auto
  then show ?thesis using e(1) by (intro exI [of _ "?t3\<lparr>ents := es', free_ents := fq\<rparr>"]) (simp add: same_config_def)
qed

section \<open>Properties\<close>

text \<open>\<open>pr_table_set\<close> after \<open>pr_table_get\<close> with the pointer of the key does not change the value found: it looks behind
  it, and fails when there is no other value under the key.\<close>

theorem table_set_after_get:
  assumes "proper_table t css" and "is_str t p s" and "stored t css s = [(w, n)]" and "val_iter_ent t = None" and "cache_ent t = None"
    and "\<forall>a \<in> set (concat css). ent_str t a = s \<longrightarrow> key_data (ent_key t a) = Some p"
  shows "\<exists>t' t'' e. pr_table_get (Some p) (Some t) = Ok ((w, Some n), None, Some t') \<and>
    pr_table_set (Some p) (Some v) vsz (Some t') = Ok (- 1, Some e, Some t'') \<and> stored t'' css s = [(w, n)]"
proof -
  obtain a where a: "matches t css s = [a]" "ent_val t a = (w, n)" using assms(3) by (auto simp: stored_def)
  have pn: "pending False t css p s = [a]" using assms(4,5) a(1) by (simp add: pending_def recall_def)
  obtain t' where t': "pr_table_get (Some p) (Some t) = Ok ((w, Some n), None, Some t')" "proper_table t' css" "only_iters t t'" "val_iter_ent t' = Some a"
    using get_call [OF assms(1,2)] pn a(2) by auto
  note e = only_iters_ents [OF t'(3)]
  have inv: "dk.keyed t'" "table_inv str_hash t' css" "iters_ok t' css" using t'(2) default_keyed by (simp_all add: proper_table_def)
  have "a \<in> set (matches t css s)" unfolding a(1) by simp
  then have "key_data (ent_key t' a) = Some p" using assms(6) e by (simp only: set_filter) blast
  moreover have "chains_inv str_hash t' css" "matches t' css s = [] @ a # []" using inv(2) a(1) e by (simp_all add: table_inv_def)
  ultimately have "pending True t' css p s = []" using pending_behind t'(4) by blast
  then obtain er where er: "pr_table_set (Some p) (Some v) vsz (Some t') = Ok (- 1, Some er, Some (if nents t' = 0 then t' else forget t'))"
    using dk.set_pending [OF inv, of p s v vsz] assms(2) e by auto
  have "stored t' css = stored t css" "stored (forget t') css = stored t' css" using only_iters_inv t'(3) cache_only(3) by blast+
  then show ?thesis using t'(1) er assms(3) by (cases "nents t' = 0") auto
qed

lemma table_set_after_get_witness:
  "\<exists>t' t'' e. pr_table_get (Some 10) (Some sample) = Ok ((Some 20, Some 4), None, Some t') \<and>
    pr_table_set (Some 10) (Some 21) 4 (Some t') = Ok (- 1, Some e, Some t'') \<and> stored t'' [[5, 6]] [97] = [(Some 20, 4)]"
  by (rule table_set_after_get [OF sample_proper sample_strings(1)]) (simp_all add: sample_stored sample_iters sample_entries)

text \<open>The iterator that a lookup leaves behind is not reset by a removal: looking a string up, removing it and then
  looking any string up dereferences the NULL pointer that the released entry has as its key.\<close>

theorem table_get_after_remove:
  assumes "proper_table t css" and "is_str t p s" and "is_str t q s'" and "val_iter_ent t = None" and "cache_ent t = None"
    and "\<not> flag PR_TABLE_FL_USE_CACHE t" and "css ! chain_of str_hash t s = a # as" and "ent_str t a = s" and "1 < length (concat css)"
  shows "\<exists>t1 t2 v n. pr_table_get (Some p) (Some t) = Ok ((v, Some n), None, Some t1) \<and>
    pr_table_remove (Some p) (Some t1) = Ok ((v, Some n), None, Some t2) \<and>
    pr_table_get (Some q) (Some t2) = Fault Null_pointer"
proof -
  let ?i = "chain_of str_hash t s" and ?t = "t\<lparr>val_iter_ent := Some a\<rparr>"
  have k: "dk.keyed t" and d: "default_callbacks t" and inv: "table_inv str_hash t css" "iters_ok t css"
    using assms(1) default_keyed by (simp_all add: proper_table_def)
  then have c: "chains_inv str_hash t css" by (simp add: table_inv_def)
  obtain bs where m: "matches t css s = a # bs" using stored_chain [OF c, of s] assms(7,8) by simp
  then have a: "a \<in> set (concat css)" by (metis filter_is_subset list.set_intros(1) subsetD)
  have "pending False t css p s = a # bs" using assms(4,5) m by (simp add: pending_def recall_def)
  then have g: "pr_table_get (Some p) (Some t) = Ok ((fst (ent_val t a), Some (snd (ent_val t a))), None, Some ?t)"
    using dk.get_pending [OF k inv assms(2)] assms(6) by (simp add: cache_def)
  have o: "only_iters t ?t" by (rule only_itersI, cases t) simp
  note e = only_iters_ents [OF o]
  have P: "proper_table ?t css" using proper_found [OF assms(1) a] assms(6) by (simp add: cache_def)
  then have inv': "table_inv str_hash ?t css" "entremove ?t = entry_remove" by (simp_all add: proper_table_def default_callbacks_def)
  obtain t' where t': "bindR (tab_entry_remove (Some a) ?t) (tab_entry_free (Some a)) = Ok t'" "table_inv str_hash t' (css[?i := as])" "same_config ?t t'"
      "map_of (ents t') a \<noteq> None" "ekey (ent t' a) = None"
    using dc.remove_head [OF inv'(2,1) chains_inv_index(1) [OF c] assms(7)] by blast
  let ?t' = "t'\<lparr>cache_ent := None\<rparr>"
  have r: "pr_table_remove (Some p) (Some ?t) = Ok ((fst (ent_val t a), Some (snd (ent_val t a))), None, Some ?t')"
    using remove_returns [OF P _ _ _ t'(1), of p s bs] assms(2,5) m e by simp
  have "Suc (length (concat (css[?i := as]))) = length (concat css)" using concat_update(2) [OF chains_inv_index(1) [OF c], of s as] assms(7) by simp
  then have "concat (css[?i := as]) \<noteq> []" using assms(9) by (metis One_nat_def less_irrefl list.size(3))
  then have n: "nents t' \<noteq> 0" using nents_zero [OF t'(2)] by simp
  have K: "dk.keyed ?t'" "is_str ?t' q s'" "val_iter_ent ?t' = Some a"
    using k assms(3) t'(3) by (simp_all add: dk.keyed_def same_config_def is_str_def)
  have "key_of (Some a) ?t' = Fault Null_pointer" using t'(4,5) by (auto simp: key_of_def ent_at_def key_at_def ent_def)
  then have "pr_table_get (Some q) (Some ?t') = Fault Null_pointer"
    using n K(3) dk.hash_key_ok [OF K(1,2)] strlen_at_str [OF K(2)]
    by (simp add: pr_table_get_def on_table_def pr_table_kget_from_def lookup_head_def looked_up_def)
  then show ?thesis using g r by blast
qed

lemma table_get_after_remove_witness:
  "\<exists>t1 t2 v n. pr_table_get (Some 10) (Some sample) = Ok ((v, Some n), None, Some t1) \<and>
    pr_table_remove (Some 10) (Some t1) = Ok ((v, Some n), None, Some t2) \<and> pr_table_get (Some 11) (Some t2) = Fault Null_pointer"
  by (rule table_get_after_remove [OF sample_proper sample_strings(1,2), of 5 "[6]"]) (simp_all add: sample_iters sample_entries sample_chain)

text \<open>A removal loses every entry before the removed one: when the first value under a string is in the last entry of a
  chain of several, its removal makes the chain empty, and no string of that chain is found any more,
  although the entries are still counted and the table cannot be freed.\<close>

theorem table_remove_last:
  assumes "proper_table t css" and "is_str t p s" and "is_str t q s'" and "val_iter_ent t = None" and "cache_ent t = None"
    and "css ! chain_of str_hash t s = us @ [a]" and "us \<noteq> []" and "matches t css s = [a]" and "chain_of str_hash t s' = chain_of str_hash t s"
  shows "\<exists>t' t'' r. pr_table_remove (Some p) (Some t) = Ok (r, None, Some t') \<and>
    pr_table_get (Some q) (Some t') = Ok ((None, None), Some ENOENT, Some t'') \<and>
    nents t' = nents t - 1 \<and> pr_table_free (Some t') = (- 1, Some EPERM, Some t')"
proof -
  let ?i = "chain_of str_hash t s"
  have d: "default_callbacks t" and k: "dk.keyed t" and inv: "table_inv str_hash t css" using assms(1) default_keyed by (simp_all add: proper_table_def)
  then have c: "chains_inv str_hash t css" by (simp add: table_inv_def)
  have i: "?i < length css" "length css = length (chains t)" using chains_inv_index(1,2) [OF c] by blast+
  obtain ws b where "us = ws @ [b]" using assms(7) by (meson rev_exhaust)
  then have u: "css ! ?i = ws @ [b, a]" using assms(6) by simp
  obtain t' where t': "bindR (tab_entry_remove (Some a) t) (tab_entry_free (Some a)) = Ok t'" "chains t' = (chains t)[?i := None]"
      "nents t' = nents t - 1" "same_config t t'"
    using remove_last_empties [OF d inv i(1) u] by blast
  let ?t = "t'\<lparr>cache_ent := None\<rparr>"
  have r: "pr_table_remove (Some p) (Some t) = Ok ((fst (ent_val t a), Some (snd (ent_val t a))), None, Some ?t)"
    using remove_returns [OF assms(1,2,5,8) t'(1)] .
  have "length (css ! ?i) \<le> length (concat css)" using concat_update(2) [OF i(1), of "[]"] by simp
  moreover have "unat (nents t) = length (concat css)" using inv by (simp only: table_inv_def keys_inv_def)
  ultimately have "1 < unat (nents t)" using u by simp
  then have "unat (nents t - 1) = unat (nents t) - 1" by (intro unat_pred) simp
  then have n: "nents t' \<noteq> 0" using \<open>1 < unat (nents t)\<close> t'(3) by auto
  have K: "dk.keyed ?t" "is_str ?t q s'" "val_iter_ent ?t = None" "nchains t' = nchains t"
    using k assms(3,4) t'(4) by (simp_all add: dk.keyed_def same_config_def is_str_def)
  have "uint (str_hash s' mod nchains t) = int (chain_of str_hash t s')" by (simp add: chain_of_def)
  then have "rd (chains ?t) (uint (str_hash s' mod nchains t)) = Ok None" using i t'(2) assms(9) by (simp add: rd_def)
  moreover have "nchains t \<noteq> 0" using c by (simp add: chains_inv_def)
  ultimately have "pr_table_get (Some q) (Some ?t) = Ok ((None, None), Some ENOENT, Some (forget ?t))"
    using n K(3,4) dk.hash_key_ok [OF K(1,2)] strlen_at_str [OF K(2)]
    by (simp add: pr_table_get_def on_table_def pr_table_kget_from_def lookup_head_def looked_up_def cached_def chain_index_def)
  moreover have "pr_table_free (Some ?t) = (- 1, Some EPERM, Some ?t)" "nents ?t = nents t - 1" using n t'(3) by (simp_all add: pr_table_free_def)
  ultimately show ?thesis using r by blast
qed

lemma table_remove_last_witness:
  "\<exists>t' t'' r. pr_table_remove (Some 11) (Some sample) = Ok (r, None, Some t') \<and>
    pr_table_get (Some 10) (Some t') = Ok ((None, None), Some ENOENT, Some t'') \<and>
    nents t' = nents sample - 1 \<and> pr_table_free (Some t') = (- 1, Some EPERM, Some t')"
  by (rule table_remove_last [OF sample_proper sample_strings(2,1), of "[5]" 6]) (simp_all add: sample_iters sample_entries sample_chain)

end
