(* ===== verification/Ftp_Set.thy ===== *)
theory Ftp_Set
  imports Ftp_Table
begin

text \<open>
  The sets of proftpd (\<^verbatim>\<open>test_sources/proftpd-1.3.0a/src/src/sets.c\<close>): lists of members linked in both directions,
  optionally sorted by a comparison. A member is any struct that starts with the two links; the rest of it is
  a value of type \<open>'a\<close>, which is what comparisons look at. All members live on one heap, so that they can move
  from one set to another. A call returns its value, what it stores in \<open>errno\<close>, the set and the heap.
  \<open>palloc\<close> ends the program when memory runs out, so that new structs are always fresh.
\<close>

section \<open>State\<close>

record 'a member =
  mnext :: ptr
  mprev :: ptr
  mval :: 'a

type_synonym 'a members = "'a member heap"
type_synonym 'a compare = "'a \<Rightarrow> 'a \<Rightarrow> int"
type_synonym 'a mcopy = "nat \<Rightarrow> 'a members \<Rightarrow> (ptr \<times> 'a members) res"

record 'a xaset =
  xas_list :: ptr
  xas_pool :: ptr
  xas_compare :: "'a compare option"

type_synonym 'a set_call = "(int \<times> errno option \<times> 'a xaset \<times> 'a members) res"

text \<open>\<open>perm\<close> is \<open>permanent_pool\<close>.\<close>

definition xaset_create :: "ptr \<Rightarrow> ptr \<Rightarrow> 'a compare option \<Rightarrow> 'a xaset" where
  "xaset_create perm p compf = \<lparr>xas_list = None, xas_pool = (if p \<noteq> None then p else perm), xas_compare = compf\<rparr>"

text \<open>A call with a NULL set or member fails with \<open>EINVAL\<close>.\<close>

definition on_member :: "'a xaset option \<Rightarrow> ptr \<Rightarrow> 'a members \<Rightarrow> ('a xaset \<Rightarrow> nat \<Rightarrow> 'a set_call) \<Rightarrow>
    (int \<times> errno option \<times> 'a xaset option \<times> 'a members) res" where
  "on_member st m h f =
     (case (st, m) of
        (Some s, Some a) \<Rightarrow> bindR (f s a) (\<lambda>(r, e, s, h). Ok (r, e, Some s, h))
      | _ \<Rightarrow> Ok (0, Some EINVAL, st, h))"

text \<open>The pointer variables \<open>tmp\<close>, \<open>setp\<close> and \<open>pos\<close> point to the link of a member (\<open>Some\<close>) or to the head of the set.\<close>

definition get_link :: "ptr \<Rightarrow> 'a xaset \<Rightarrow> 'a members \<Rightarrow> ptr res" where
  "get_link pos s h = (case pos of None \<Rightarrow> Ok (xas_list s) | Some a \<Rightarrow> bindR (deref h (Some a)) (\<lambda>x. Ok (mnext x)))"

definition set_link :: "ptr \<Rightarrow> ptr \<Rightarrow> 'a xaset \<Rightarrow> 'a members \<Rightarrow> ('a xaset \<times> 'a members) res" where
  "set_link pos v s h =
     (case pos of
        None \<Rightarrow> Ok (s\<lparr>xas_list := v\<rparr>, h)
      | Some a \<Rightarrow> bindR (assign h (Some a) (\<lambda>x. x\<lparr>mnext := v\<rparr>)) (\<lambda>h. Ok (s, h)))"

section \<open>Inserting and removing\<close>

definition insert_member :: "'a xaset \<Rightarrow> nat \<Rightarrow> 'a members \<Rightarrow> 'a set_call" where
  "insert_member s m h =
     bindR (assign h (Some m) (\<lambda>x. x\<lparr>mnext := xas_list s\<rparr>)) (\<lambda>h.
     bindR (if xas_list s \<noteq> None then assign h (xas_list s) (\<lambda>x. x\<lparr>mprev := Some m\<rparr>) else Ok h) (\<lambda>h.
       Ok (1, None, s\<lparr>xas_list := Some m\<rparr>, h)))"

definition xaset_insert :: "'a xaset option \<Rightarrow> ptr \<Rightarrow> 'a members \<Rightarrow> (int \<times> errno option \<times> 'a xaset option \<times> 'a members) res" where
  "xaset_insert st m h = on_member st m h (\<lambda>s m. insert_member s m h)"

text \<open>The walk to the end of the set; the number of structs is fuel enough.\<close>

primrec end_walk :: "nat \<Rightarrow> ptr \<Rightarrow> ptr \<Rightarrow> 'a members \<Rightarrow> ptr res" where
  "end_walk 0 prev p h = (if p = None then Ok prev else Timeout)"
| "end_walk (Suc k) prev p h = (if p = None then Ok prev else bindR (deref h p) (\<lambda>x. end_walk k p (mnext x) h))"

definition insert_member_end :: "'a xaset \<Rightarrow> nat \<Rightarrow> 'a members \<Rightarrow> 'a set_call" where
  "insert_member_end s m h =
     bindR (end_walk (length h) None (xas_list s) h) (\<lambda>prev.
     bindR (set_link prev (Some m) s h) (\<lambda>(s, h).
     bindR (assign h (Some m) (\<lambda>x. x\<lparr>mprev := prev\<rparr>)) (\<lambda>h.
     bindR (assign h (Some m) (\<lambda>x. x\<lparr>mnext := None\<rparr>)) (\<lambda>h.
     bindR (if prev \<noteq> None then assign h prev (\<lambda>x. x\<lparr>mnext := Some m\<rparr>) else Ok h) (\<lambda>h.
       Ok (1, None, s, h))))))"

definition xaset_insert_end :: "'a xaset option \<Rightarrow> ptr \<Rightarrow> 'a members \<Rightarrow> (int \<times> errno option \<times> 'a xaset option \<times> 'a members) res" where
  "xaset_insert_end st m h = on_member st m h (\<lambda>s m. insert_member_end s m h)"

text \<open>The search for the place of a member with value \<open>v\<close>: whether it is a duplicate that is not allowed, the last
  member before it and the first behind it.\<close>

primrec sort_walk :: "nat \<Rightarrow> 'a compare \<Rightarrow> bool \<Rightarrow> nat \<Rightarrow> ptr \<Rightarrow> ptr \<Rightarrow> 'a members \<Rightarrow> (bool \<times> ptr \<times> ptr) res" where
  "sort_walk 0 cmp dupes m pr p h = (if p = None then Ok (False, pr, None) else Timeout)"
| "sort_walk (Suc k) cmp dupes m pr p h =
     (if p = None then Ok (False, pr, None)
      else
        bindR (deref h (Some m)) (\<lambda>x.
        bindR (deref h p) (\<lambda>y.
        let c = cmp (mval x) (mval y) in
        if c \<le> 0 then Ok (c = 0 \<and> \<not> dupes, pr, p) else sort_walk k cmp dupes m p (mnext y) h)))"

definition insert_member_sort :: "'a compare \<Rightarrow> bool \<Rightarrow> 'a xaset \<Rightarrow> nat \<Rightarrow> 'a members \<Rightarrow> 'a set_call" where
  "insert_member_sort cmp dupes s m h =
     bindR (sort_walk (length h) cmp dupes m None (xas_list s) h) (\<lambda>(dup, pr, p).
     if dup then Ok (0, None, s, h)
     else
       bindR (if p \<noteq> None then assign h p (\<lambda>x. x\<lparr>mprev := Some m\<rparr>) else Ok h) (\<lambda>h.
       bindR (assign h (Some m) (\<lambda>x. x\<lparr>mprev := pr, mnext := p\<rparr>)) (\<lambda>h.
       bindR (set_link pr (Some m) s h) (\<lambda>(s, h).
         Ok (1, None, s, h)))))"

definition xaset_insert_sort ::
  "'a xaset option \<Rightarrow> ptr \<Rightarrow> bool \<Rightarrow> 'a members \<Rightarrow> (int \<times> errno option \<times> 'a xaset option \<times> 'a members) res" where
  "xaset_insert_sort st m dupes h =
     on_member st m h (\<lambda>s m. case xas_compare s of
         None \<Rightarrow> Ok (0, Some EINVAL, s, h)
       | Some cmp \<Rightarrow> insert_member_sort cmp dupes s m h)"

primrec is_member :: "nat \<Rightarrow> nat \<Rightarrow> ptr \<Rightarrow> 'a members \<Rightarrow> bool res" where
  "is_member 0 m p h = (if p = None then Ok False else Timeout)"
| "is_member (Suc k) m p h =
     (if p = None then Ok False else if p = Some m then Ok True else bindR (deref h p) (\<lambda>x. is_member k m (mnext x) h))"

definition remove_member :: "'a xaset \<Rightarrow> nat \<Rightarrow> 'a members \<Rightarrow> 'a set_call" where
  "remove_member s m h =
     bindR (is_member (length h) m (xas_list s) h) (\<lambda>found.
     if \<not> found then Ok (- 1, Some ENOENT, s, h)
     else
       bindR (deref h (Some m)) (\<lambda>x.
       bindR (set_link (mprev x) (mnext x) s h) (\<lambda>(s, h).
       bindR (if mnext x \<noteq> None then assign h (mnext x) (\<lambda>y. y\<lparr>mprev := mprev x\<rparr>) else Ok h) (\<lambda>h.
       bindR (assign h (Some m) (\<lambda>y. y\<lparr>mprev := None, mnext := None\<rparr>)) (\<lambda>h.
         Ok (1, None, s, h))))))"

definition xaset_remove :: "'a xaset option \<Rightarrow> ptr \<Rightarrow> 'a members \<Rightarrow> (int \<times> errno option \<times> 'a xaset option \<times> 'a members) res" where
  "xaset_remove st m h = on_member st m h (\<lambda>s m. remove_member s m h)"

section \<open>Operations on whole sets\<close>

text \<open>A copy of a member: by the callback, or of all \<open>msize\<close> bytes of the struct, links included.\<close>

definition copy_member :: "'a mcopy option \<Rightarrow> nat \<Rightarrow> 'a members \<Rightarrow> (ptr \<times> 'a members) res" where
  "copy_member copyf a h =
     (case copyf of
        Some f \<Rightarrow> f a h
      | None \<Rightarrow> bindR (deref h (Some a)) (\<lambda>x. let n = fresh h in Ok (Some n, AList.update n x h)))"

text \<open>The pool of the result, from the argument or one of the sets.\<close>

definition result_pool :: "ptr \<Rightarrow> 'a xaset \<Rightarrow> 'a xaset \<Rightarrow> ptr" where
  "result_pool p s1 s2 = (if p \<noteq> None then p else if xas_pool s1 \<noteq> None then xas_pool s1 else xas_pool s2)"

text \<open>The inner loop of \<open>xaset_union\<close>; \<open>None\<close> when a copy could not be made.\<close>

primrec union_walk :: "nat \<Rightarrow> 'a mcopy option \<Rightarrow> ptr \<Rightarrow> 'a xaset \<Rightarrow> 'a members \<Rightarrow> ('a xaset option \<times> 'a members) res" where
  "union_walk 0 copyf p s h = (if p = None then Ok (Some s, h) else Timeout)"
| "union_walk (Suc k) copyf p s h =
     (case p of
        None \<Rightarrow> Ok (Some s, h)
      | Some a \<Rightarrow>
          bindR (copy_member copyf a h) (\<lambda>(n, h).
          if n = None then Ok (None, h)
          else
            bindR (xaset_insert_sort (Some s) n False h) (\<lambda>(r, _, s', h).
            if r = - 1 then Ok (None, h)
            else bindR (deref h p) (\<lambda>x. union_walk k copyf (mnext x) (the s') h))))"

definition xaset_union :: "ptr \<Rightarrow> ptr \<Rightarrow> 'a xaset option \<Rightarrow> 'a xaset option \<Rightarrow> nat \<Rightarrow> 'a mcopy option \<Rightarrow> 'a members \<Rightarrow>
    (errno option \<times> 'a xaset option \<times> 'a members) res" where
  "xaset_union perm p set1 set2 msize copyf h =
     (case (set1, set2) of
        (Some s1, Some s2) \<Rightarrow>
          if msize = 0 \<and> copyf = None then Ok (Some EINVAL, None, h)
          else
            bindR (union_walk (length h) copyf (xas_list s1) (xaset_create perm (result_pool p s1 s2) (xas_compare s1)) h) (\<lambda>(s, h).
            case s of
              None \<Rightarrow> Ok (None, None, h)
            | Some s \<Rightarrow> bindR (union_walk (length h) copyf (xas_list s2) s h) (\<lambda>(s, h). Ok (None, s, h)))
      | _ \<Rightarrow> Ok (Some EINVAL, None, h))"

text \<open>Appending the copy \<open>n\<close> at \<open>pos\<close>, with the new \<open>pos\<close>.\<close>

definition append_copy :: "ptr \<Rightarrow> nat \<Rightarrow> 'a xaset \<Rightarrow> 'a members \<Rightarrow> (ptr \<times> 'a xaset \<times> 'a members) res" where
  "append_copy pos n s h =
     bindR (get_link pos s h) (\<lambda>v.
     bindR (assign h (Some n) (\<lambda>x. x\<lparr>mprev := v, mnext := None\<rparr>)) (\<lambda>h.
     let pos = (if v \<noteq> None then v else pos) in
     bindR (set_link pos (Some n) s h) (\<lambda>(s, h). Ok (pos, s, h))))"

text \<open>The two inner loops of \<open>xaset_subtract\<close>: behind \<open>p\<close> in the second set to the first member that is not smaller
  than \<open>v\<close>, and over duplicates in the first set.\<close>

primrec skip_smaller :: "nat \<Rightarrow> 'a compare \<Rightarrow> 'a \<Rightarrow> ptr \<Rightarrow> 'a members \<Rightarrow> ptr res" where
  "skip_smaller 0 cmp v p h = Timeout"
| "skip_smaller (Suc k) cmp v p h =
     bindR (deref h p) (\<lambda>x.
     if mnext x = None then Ok None
     else bindR (deref h (mnext x)) (\<lambda>y. if cmp v (mval y) > 0 then skip_smaller k cmp v (mnext x) h else Ok (mnext x)))"

primrec skip_dupes :: "nat \<Rightarrow> 'a compare \<Rightarrow> nat \<Rightarrow> 'a members \<Rightarrow> nat res" where
  "skip_dupes 0 cmp a h = Timeout"
| "skip_dupes (Suc k) cmp a h =
     bindR (deref h (Some a)) (\<lambda>x.
     case mnext x of
       None \<Rightarrow> Ok a
     | Some b \<Rightarrow> bindR (deref h (Some b)) (\<lambda>y. if cmp (mval x) (mval y) = 0 then skip_dupes k cmp b h else Ok a))"

text \<open>\<open>set1->xas_compare(...)\<close>\<close>

definition call_compare :: "'a compare option \<Rightarrow> 'a compare res" where
  "call_compare cmp = (case cmp of None \<Rightarrow> Fault Null_pointer | Some c \<Rightarrow> Ok c)"

primrec subtract_walk :: "nat \<Rightarrow> 'a compare option \<Rightarrow> 'a mcopy option \<Rightarrow> ptr \<Rightarrow> ptr \<Rightarrow> ptr \<Rightarrow> 'a xaset \<Rightarrow> 'a members \<Rightarrow>
    ('a xaset option \<times> 'a members) res" where
  "subtract_walk 0 cmp copyf p q pos s h = (if p = None then Ok (Some s, h) else Timeout)"
| "subtract_walk (Suc k) cmp copyf p q pos s h =
     (case p of
        None \<Rightarrow> Ok (Some s, h)
      | Some a \<Rightarrow>
          bindR (if q = None then Ok True
            else bindR (call_compare cmp) (\<lambda>c. bindR (deref h p) (\<lambda>x. bindR (deref h q) (\<lambda>y. Ok (c (mval x) (mval y) < 0))))) (\<lambda>less.
          if less then
            bindR (copy_member copyf a h) (\<lambda>(n, h).
            case n of
              None \<Rightarrow> Ok (None, h)
            | Some n \<Rightarrow>
                bindR (append_copy pos n s h) (\<lambda>(pos, s, h).
                bindR (deref h p) (\<lambda>x. subtract_walk k cmp copyf (mnext x) q pos s h)))
          else
            bindR (call_compare cmp) (\<lambda>c.
            bindR (deref h p) (\<lambda>x.
            bindR (skip_smaller (length h) c (mval x) q h) (\<lambda>q.
            bindR (skip_dupes (length h) c a h) (\<lambda>a.
            bindR (deref h (Some a)) (\<lambda>x. subtract_walk k cmp copyf (mnext x) q pos s h)))))))"

definition xaset_subtract :: "ptr \<Rightarrow> ptr \<Rightarrow> 'a xaset option \<Rightarrow> 'a xaset option \<Rightarrow> nat \<Rightarrow> 'a mcopy option \<Rightarrow> 'a members \<Rightarrow>
    (errno option \<times> 'a xaset option \<times> 'a members) res" where
  "xaset_subtract perm p set1 set2 msize copyf h =
     (case (set1, set2) of
        (Some s1, Some s2) \<Rightarrow>
          if msize = 0 \<and> copyf = None then Ok (Some EINVAL, None, h)
          else
            bindR (subtract_walk (length h) (xas_compare s1) copyf (xas_list s1) (xas_list s2) None
              (xaset_create perm (result_pool p s1 s2) (xas_compare s1)) h) (\<lambda>(s, h). Ok (None, s, h))
      | _ \<Rightarrow> Ok (Some EINVAL, None, h))"

primrec copy_walk :: "nat \<Rightarrow> 'a mcopy option \<Rightarrow> ptr \<Rightarrow> ptr \<Rightarrow> 'a xaset \<Rightarrow> 'a members \<Rightarrow> ('a xaset option \<times> 'a members) res" where
  "copy_walk 0 copyf p pos s h = (if p = None then Ok (Some s, h) else Timeout)"
| "copy_walk (Suc k) copyf p pos s h =
     (case p of
        None \<Rightarrow> Ok (Some s, h)
      | Some a \<Rightarrow>
          bindR (copy_member copyf a h) (\<lambda>(n, h).
          case n of
            None \<Rightarrow> Ok (None, h)
          | Some n \<Rightarrow>
              bindR (append_copy pos n s h) (\<lambda>(pos, s, h).
              bindR (deref h p) (\<lambda>x. copy_walk k copyf (mnext x) pos s h))))"

definition xaset_copy :: "ptr \<Rightarrow> ptr \<Rightarrow> 'a xaset option \<Rightarrow> nat \<Rightarrow> 'a mcopy option \<Rightarrow> 'a members \<Rightarrow>
    (errno option \<times> 'a xaset option \<times> 'a members) res" where
  "xaset_copy perm p st msize copyf h =
     (if copyf = None \<and> msize = 0 then Ok (Some EINVAL, None, h)
      else case st of
        None \<Rightarrow> Fault Null_pointer
      | Some s \<Rightarrow>
          bindR (copy_walk (length h) copyf (xas_list s) None
            (xaset_create perm (if p \<noteq> None then p else xas_pool s) (xas_compare s)) h) (\<lambda>(s, h). Ok (None, s, h)))"

end
