(* ===== verification/Ftp_Members.thy ===== *)
theory Ftp_Members
  imports Ftp_Set
begin

text \<open>
  The sets of proftpd as lists: inserting at either end, inserting by order and removing refine the same
  operations on lists. What sorted insertion needs of the comparison is a locale.
\<close>

section \<open>Relinking\<close>

abbreviation members_of :: "'a members \<Rightarrow> ptr \<Rightarrow> nat list \<Rightarrow> bool" where
  "members_of h p as \<equiv> \<exists>l. dsegment mnext mprev h None p as l None"

definition member_val :: "'a members \<Rightarrow> nat \<Rightarrow> 'a" where
  "member_val h a = mval (the (map_of h a))"

text \<open>Links change on members of a list only, values do not change at all.\<close>

definition relinks :: "nat set \<Rightarrow> 'a members \<Rightarrow> 'a members \<Rightarrow> bool" where
  "relinks A h h' \<longleftrightarrow> (\<forall>x. x \<notin> A \<longrightarrow> map_of h' x = map_of h x) \<and> (\<forall>x. map_option mval (map_of h' x) = map_option mval (map_of h x))"

lemma members_first: "members_of h p as \<Longrightarrow> p = first_of as"
  using dsegment_first by blast

lemma members_chain: "members_of h p as \<Longrightarrow> chain mnext h p as"
  by (auto dest: dsegment_segment)

lemma members_distinct: "members_of h p as \<Longrightarrow> distinct as"
  using chain_distinct members_chain by blast

lemma members_length: "members_of h p as \<Longrightarrow> length as \<le> length h"
  using chain_length members_chain by blast

lemma members_node:
  assumes "members_of h p (us @ a # vs)"
  shows "\<exists>n. map_of h a = Some n \<and> mprev n = last_of us \<and> mnext n = first_of vs"
proof -
  obtain m r n l where "dsegment mnext mprev h None p us m r" "map_of h a = Some n" "mprev n = m" "dsegment mnext mprev h (Some a) (mnext n) vs l None"
    using assms by (auto simp: dsegment_append)
  then show ?thesis using dsegment_last [of mnext mprev h None p us m r] dsegment_first by (force simp: last_of_def)
qed

lemma members_dom: "members_of h p as \<Longrightarrow> a \<in> set as \<Longrightarrow> map_of h a \<noteq> None"
  by (metis members_node option.distinct(1) split_list)

text \<open>A list is determined by the links of its nodes.\<close>

lemma dsegment_nodes:
  "(\<And>us a vs. as = us @ a # vs \<Longrightarrow> \<exists>n. map_of h a = Some n \<and> mprev n = (if us = [] then pr else Some (last us)) \<and> mnext n = first_of vs) \<Longrightarrow>
    \<exists>l. dsegment mnext mprev h pr (first_of as) as l None"
proof (induction as arbitrary: pr)
  case (Cons a as)
  obtain n where n: "map_of h a = Some n" "mprev n = pr" "mnext n = first_of as" using Cons.prems [of "[]" a as] by auto
  have "\<exists>l. dsegment mnext mprev h (Some a) (first_of as) as l None"
  proof (rule Cons.IH)
    fix us b vs assume "as = us @ b # vs"
    then show "\<exists>n. map_of h b = Some n \<and> mprev n = (if us = [] then Some a else Some (last us)) \<and> mnext n = first_of vs"
      using Cons.prems [of "a # us" b vs] by auto
  qed
  then show ?case using n by auto
qed simp

lemma members_ofI:
  assumes "\<And>us a vs. as = us @ a # vs \<Longrightarrow> \<exists>n. map_of h a = Some n \<and> mprev n = last_of us \<and> mnext n = first_of vs"
  shows "members_of h (first_of as) as"
  by (rule dsegment_nodes) (use assms in \<open>auto simp: last_of_def\<close>)

lemma first_append: "first_of (us @ vs) = (if us = [] then first_of vs else first_of us)"
  by (cases us) auto

lemma last_append: "last_of (us @ vs) = (if vs = [] then last_of us else last_of vs)"
  by (auto simp: last_of_def)

text \<open>Inserting \<open>a\<close> between \<open>us\<close> and \<open>vs\<close>: the links of \<open>a\<close> and those that must lead to \<open>a\<close> are set.\<close>

lemma members_insert:
  assumes "members_of h p (us @ vs)" and "a \<notin> set (us @ vs)"
    and "map_of h' a = Some n" and "mprev n = last_of us" and "mnext n = first_of vs"
    and "\<And>x y. x \<in> set (us @ vs) \<Longrightarrow> map_of h x = Some y \<Longrightarrow>
      map_of h' x = Some (y\<lparr>mnext := (if Some x = last_of us then Some a else mnext y), mprev := (if Some x = first_of vs then Some a else mprev y)\<rparr>)"
  shows "members_of h' (first_of (us @ a # vs)) (us @ a # vs)"
proof -
  have d: "distinct (us @ a # vs)" using members_distinct [OF assms(1)] assms(2) by auto
  show ?thesis
  proof (rule members_ofI)
    fix ws x ts assume s: "us @ a # vs = ws @ x # ts"
    show "\<exists>n. map_of h' x = Some n \<and> mprev n = last_of ws \<and> mnext n = first_of ts"
    proof (cases "x = a")
      case True
      then have "ws = us" "ts = vs" using s append_Cons_eq_iff [of a us vs ws ts] assms(2) by auto
      then show ?thesis using True assms(3-5) by simp
    next
      case False
      then consider (left) rs where "us = ws @ x # rs" "ts = rs @ a # vs" | (right) rs where "vs = rs @ x # ts" "ws = us @ a # rs"
        using s by (auto simp: append_eq_append_conv2 append_eq_Cons_conv Cons_eq_append_conv)
      then show ?thesis
      proof cases
        case left
        then obtain y where y: "map_of h x = Some y" "mprev y = last_of ws" "mnext y = first_of (rs @ vs)"
          using members_node [of h p ws x "rs @ vs"] assms(1) by auto
        have "Some x \<noteq> first_of vs" using d left by (cases vs) auto
        moreover have "Some x = last_of us \<longleftrightarrow> rs = []" using d left by (auto simp: last_of_def)
        ultimately show ?thesis using assms(6) [of x y] y left by (auto simp: first_append)
      next
        case right
        then obtain y where y: "map_of h x = Some y" "mprev y = last_of (us @ rs)" "mnext y = first_of ts"
          using members_node [of h p "us @ rs" x ts] assms(1) by auto
        have "Some x \<noteq> last_of us" using d right by (auto simp: last_of_def split: if_splits)
        moreover have "Some x = first_of vs \<longleftrightarrow> rs = []" using d right by (cases rs) auto
        ultimately show ?thesis using assms(6) [of x y] y right by (auto simp: last_of_def)
      qed
    qed
  qed
qed

text \<open>Removing \<open>a\<close> between \<open>us\<close> and \<open>vs\<close>.\<close>

lemma members_remove:
  assumes "members_of h p (us @ a # vs)"
    and "\<And>x y. x \<in> set (us @ vs) \<Longrightarrow> map_of h x = Some y \<Longrightarrow>
      map_of h' x = Some (y\<lparr>mnext := (if Some x = last_of us then first_of vs else mnext y), mprev := (if Some x = first_of vs then last_of us else mprev y)\<rparr>)"
  shows "members_of h' (first_of (us @ vs)) (us @ vs)"
proof -
  have d: "distinct (us @ a # vs)" using members_distinct [OF assms(1)] .
  show ?thesis
  proof (rule members_ofI)
    fix ws x ts assume s: "us @ vs = ws @ x # ts"
    then consider (left) rs where "us = ws @ x # rs" "ts = rs @ vs" | (right) rs where "vs = rs @ x # ts" "ws = us @ rs"
      by (auto simp: append_eq_append_conv2 append_eq_Cons_conv Cons_eq_append_conv)
    then show "\<exists>n. map_of h' x = Some n \<and> mprev n = last_of ws \<and> mnext n = first_of ts"
    proof cases
      case left
      then obtain y where y: "map_of h x = Some y" "mprev y = last_of ws" "mnext y = first_of (rs @ a # vs)"
        using members_node [of h p ws x "rs @ a # vs"] assms(1) by auto
      have "Some x \<noteq> first_of vs" using d left by (cases vs) auto
      moreover have "Some x = last_of us \<longleftrightarrow> rs = []" using d left by (auto simp: last_of_def)
      ultimately show ?thesis using assms(2) [of x y] y left by (auto simp: first_append)
    next
      case right
      then obtain y where y: "map_of h x = Some y" "mprev y = last_of (us @ a # rs)" "mnext y = first_of ts"
        using members_node [of h p "us @ a # rs" x ts] assms(1) by auto
      have "Some x \<noteq> last_of us" using d right by (auto simp: last_of_def split: if_splits)
      moreover have "Some x = first_of vs \<longleftrightarrow> rs = []" using d right by (cases rs) auto
      ultimately show ?thesis using assms(2) [of x y] y right by (auto simp: last_of_def)
    qed
  qed
qed

lemma relinks_others: "relinks A h h' \<Longrightarrow> set bs \<inter> A = {} \<Longrightarrow> members_of h q bs \<Longrightarrow> members_of h' q bs"
  using dsegment_cong [of bs h' h] unfolding relinks_def by (metis disjoint_iff)

lemma relinks_val: "relinks A h h' \<Longrightarrow> map_of h a \<noteq> None \<Longrightarrow> member_val h' a = member_val h a \<and> map_of h' a \<noteq> None"
proof -
  assume "relinks A h h'" "map_of h a \<noteq> None"
  then have "map_option mval (map_of h' a) = map_option mval (map_of h a)" "map_of h a \<noteq> None" by (simp_all add: relinks_def)
  then show ?thesis by (cases "map_of h a"; cases "map_of h' a") (simp_all add: member_val_def)
qed

lemma relinks_trans: "relinks A h h1 \<Longrightarrow> relinks B h1 h2 \<Longrightarrow> A \<union> B \<subseteq> C \<Longrightarrow> relinks C h h2"
  unfolding relinks_def by (metis UnCI subsetD)

lemma relinks_refl: "relinks A h h"
  by (simp add: relinks_def)

section \<open>Inserting and removing\<close>

text \<open>\<open>xaset_insert\<close> does not touch the \<open>prev\<close> link of the member, which must be NULL before.\<close>

lemma insert_member_ok:
  assumes "members_of h (xas_list s) as" and "m \<notin> set as" and "map_of h m = Some n" and "mprev n = None"
  shows "\<exists>h'. insert_member s m h = Ok (1, None, s\<lparr>xas_list := Some m\<rparr>, h') \<and> members_of h' (Some m) (m # as) \<and> relinks (set (m # as)) h h'"
proof (cases as)
  case Nil
  let ?h = "AList.update m (n\<lparr>mnext := None\<rparr>) h"
  have "insert_member s m h = Ok (1, None, s\<lparr>xas_list := Some m\<rparr>, ?h)" using assms Nil by (simp add: insert_member_def)
  moreover have "members_of ?h (Some m) (m # as)" using Nil assms(4) by (simp add: update_conv')
  moreover have "relinks (set (m # as)) h ?h" using assms(3) by (auto simp: relinks_def update_conv')
  ultimately show ?thesis by blast
next
  case (Cons b bs)
  obtain y where y: "map_of h b = Some y" "xas_list s = Some b" using assms(1) Cons by auto
  let ?h = "AList.update b (y\<lparr>mprev := Some m\<rparr>) (AList.update m (n\<lparr>mnext := Some b\<rparr>) h)"
  have mb: "m \<noteq> b" using assms(2) Cons by auto
  have "insert_member s m h = Ok (1, None, s\<lparr>xas_list := Some m\<rparr>, ?h)" using assms y mb by (simp add: insert_member_def update_conv')
  moreover have "members_of ?h (first_of ([] @ m # as)) ([] @ m # as)"
    by (rule members_insert [where h = h and p = "xas_list s" and n = "n\<lparr>mnext := Some b\<rparr>"])
      (use assms mb y Cons in \<open>auto simp: update_conv'\<close>)
  moreover have "relinks (set (m # as)) h ?h" using assms(3) y Cons by (auto simp: relinks_def update_conv')
  ultimately show ?thesis by auto
qed

lemma end_walk_chain: "chain mnext h p as \<Longrightarrow> length as \<le> k \<Longrightarrow> end_walk k pr p h = Ok (if as = [] then pr else last_of as)"
proof (induction as arbitrary: k p pr)
  case Nil
  then show ?case by (cases k) auto
next
  case (Cons a as)
  then obtain k' where "k = Suc k'" by (cases k) auto
  then show ?case using Cons by (auto simp: last_of_def)
qed

lemma set_link_first: "us \<noteq> [] \<Longrightarrow> xas_list s = first_of (us @ vs) \<Longrightarrow> s\<lparr>xas_list := first_of (us @ ws)\<rparr> = s"
  by (cases s; cases us) auto

lemma insert_member_end_ok:
  assumes "members_of h (xas_list s) as" and "m \<notin> set as" and "map_of h m = Some n"
  shows "\<exists>h'. insert_member_end s m h = Ok (1, None, s\<lparr>xas_list := first_of (as @ [m])\<rparr>, h') \<and>
    members_of h' (first_of (as @ [m])) (as @ [m]) \<and> relinks (set (as @ [m])) h h'"
proof (cases as rule: rev_cases)
  case Nil
  let ?h = "AList.update m (n\<lparr>mprev := None, mnext := None\<rparr>) (AList.update m (n\<lparr>mprev := None\<rparr>) h)"
  have "end_walk (length h) None (xas_list s) h = Ok None" using assms(1) Nil by (cases h) auto
  then have "insert_member_end s m h = Ok (1, None, s\<lparr>xas_list := first_of (as @ [m])\<rparr>, ?h)"
    using assms Nil by (simp add: insert_member_end_def set_link_def update_conv')
  moreover have "members_of ?h (first_of (as @ [m])) (as @ [m])" using Nil by (simp add: update_conv')
  moreover have "relinks (set (as @ [m])) h ?h" using assms(3) by (auto simp: relinks_def update_conv')
  ultimately show ?thesis by blast
next
  case (snoc us c)
  obtain y where y: "map_of h c = Some y" using members_dom [OF assms(1)] snoc by fastforce
  have mc: "m \<noteq> c" using assms(2) snoc by auto
  have w: "end_walk (length h) None (xas_list s) h = Ok (Some c)"
    using end_walk_chain [OF members_chain [OF assms(1)] members_length [OF assms(1)]] snoc by simp
  let ?h1 = "AList.update c (y\<lparr>mnext := Some m\<rparr>) h"
  let ?h = "AList.update c (y\<lparr>mnext := Some m\<rparr>) (AList.update m (n\<lparr>mprev := Some c, mnext := None\<rparr>) (AList.update m (n\<lparr>mprev := Some c\<rparr>) ?h1))"
  have "insert_member_end s m h = Ok (1, None, s, ?h)"
    using w y assms(3) mc by (simp add: insert_member_end_def set_link_def update_conv')
  moreover have "s = s\<lparr>xas_list := first_of (as @ [m])\<rparr>"
    using set_link_first [of as s "[]" "[m]"] members_first [OF assms(1)] snoc by simp
  moreover have "members_of ?h (first_of (as @ m # [])) (as @ m # [])"
    by (rule members_insert [where h = h and p = "xas_list s" and n = "n\<lparr>mprev := Some c, mnext := None\<rparr>"])
      (use assms mc y snoc in \<open>auto simp: update_conv'\<close>)
  moreover have "relinks (set (as @ [m])) h ?h" using assms(3) y snoc by (auto simp: relinks_def update_conv')
  ultimately show ?thesis by auto
qed

text \<open>The place of a value: behind the members that are smaller.\<close>

abbreviation smaller :: "'a compare \<Rightarrow> 'a \<Rightarrow> 'a members \<Rightarrow> nat \<Rightarrow> bool" where
  "smaller cmp v h \<equiv> \<lambda>x. 0 < cmp v (member_val h x)"

lemma sort_walk_chain:
  assumes "map_of h m = Some n" and "v = mval n"
  shows "chain mnext h p as \<Longrightarrow> length as \<le> k \<Longrightarrow> sort_walk k cmp dupes m pr p h =
    Ok (let us = takeWhile (smaller cmp v h) as; vs = dropWhile (smaller cmp v h) as in
      (vs \<noteq> [] \<and> cmp v (member_val h (hd vs)) = 0 \<and> \<not> dupes, if us = [] then pr else last_of us, first_of vs))"
proof (induction as arbitrary: k p pr)
  case Nil
  then show ?case by (cases k) auto
next
  case (Cons a as)
  obtain k' where k: "k = Suc k'" using Cons.prems by (cases k) auto
  obtain y where y: "p = Some a" "map_of h a = Some y" "chain mnext h (mnext y) as" using Cons.prems by auto
  then have v: "member_val h a = mval y" by (simp add: member_val_def)
  have "sort_walk k' cmp dupes m (Some a) (mnext y) h =
      Ok (let us = takeWhile (smaller cmp v h) as; vs = dropWhile (smaller cmp v h) as in
        (vs \<noteq> [] \<and> cmp v (member_val h (hd vs)) = 0 \<and> \<not> dupes, if us = [] then Some a else last_of us, first_of vs))"
    using Cons.IH [OF y(3), of k'] Cons.prems k by simp
  then show ?case using k y assms v by (auto simp: Let_def last_of_def)
qed

lemma insert_between:
  assumes "members_of h (xas_list s) (us @ vs)" and "m \<notin> set (us @ vs)" and "map_of h m = Some n"
  shows "\<exists>h'. bindR (if first_of vs \<noteq> None then assign h (first_of vs) (\<lambda>x. x\<lparr>mprev := Some m\<rparr>) else Ok h) (\<lambda>h.
       bindR (assign h (Some m) (\<lambda>x. x\<lparr>mprev := last_of us, mnext := first_of vs\<rparr>)) (\<lambda>h.
       bindR (set_link (last_of us) (Some m) s h) (\<lambda>(s, h). Ok (1 :: int, None :: errno option, s, h)))) =
     Ok (1, None, s\<lparr>xas_list := first_of (us @ m # vs)\<rparr>, h') \<and>
    members_of h' (first_of (us @ m # vs)) (us @ m # vs) \<and> relinks (set (us @ m # vs)) h h'"
proof -
  let ?n = "n\<lparr>mprev := last_of us, mnext := first_of vs\<rparr>"
  have d: "distinct (us @ vs)" using members_distinct [OF assms(1)] .
  obtain h1 where h1: "(if first_of vs \<noteq> None then assign h (first_of vs) (\<lambda>x. x\<lparr>mprev := Some m\<rparr>) else Ok h) = Ok h1"
      "\<forall>x. map_of h1 x = map_option (\<lambda>y. if Some x = first_of vs then y\<lparr>mprev := Some m\<rparr> else y) (map_of h x)"
  proof (cases vs)
    case Nil
    then show thesis using that [of h] by (simp add: option.map_ident)
  next
    case (Cons d ds)
    obtain y where "map_of h d = Some y" using members_dom [OF assms(1)] Cons by fastforce
    then show thesis using that [of "AList.update d (y\<lparr>mprev := Some m\<rparr>) h"] Cons by (auto simp: update_conv' option.map_ident)
  qed
  have m1: "map_of h1 m = Some n" using h1(2) assms(2,3) by (cases vs) auto
  let ?h2 = "AList.update m ?n h1"
  obtain h' where h': "set_link (last_of us) (Some m) s ?h2 = Ok (s\<lparr>xas_list := first_of (us @ m # vs)\<rparr>, h')"
      "\<forall>x. map_of h' x = map_option (\<lambda>y. if Some x = last_of us then y\<lparr>mnext := Some m\<rparr> else y) (map_of ?h2 x)"
  proof (cases us rule: rev_cases)
    case Nil
    then show thesis using that [of ?h2] by (simp add: set_link_def option.map_ident)
  next
    case (snoc ws c)
    have c: "c \<noteq> m" "map_of h c \<noteq> None" using assms(2) members_dom [OF assms(1)] snoc by auto
    then obtain y where y: "map_of ?h2 c = Some y" using h1(2) by (auto simp: update_conv')
    have "s\<lparr>xas_list := first_of (us @ m # vs)\<rparr> = s" using set_link_first [of us s vs] members_first [OF assms(1)] snoc by simp
    then show thesis using that [of "AList.update c (y\<lparr>mnext := Some m\<rparr>) ?h2"] y snoc
      by (auto simp: set_link_def update_conv' option.map_ident)
  qed
  have um: "last_of us \<noteq> Some m" using assms(2) by (auto simp: last_of_def)
  have p: "map_of h' x = Some (y\<lparr>mnext := (if Some x = last_of us then Some m else mnext y), mprev := (if Some x = first_of vs then Some m else mprev y)\<rparr>)"
    if "x \<noteq> m" "map_of h x = Some y" for x y using that h1(2) h'(2) by (simp add: update_conv')
  have "members_of h' (first_of (us @ m # vs)) (us @ m # vs)"
    by (rule members_insert [OF assms(1,2), where n = ?n]) (use h'(2) um p assms(2) in \<open>auto simp: update_conv'\<close>)
  moreover have "map_of h' x = map_of h x" if "x \<notin> set (us @ m # vs)" for x
  proof -
    have "Some x \<noteq> last_of us" "Some x \<noteq> first_of vs" "x \<noteq> m" using that by (cases vs; auto simp: last_of_def)+
    then show ?thesis using h1(2) h'(2) by (simp add: update_conv' option.map_ident)
  qed
  moreover have "map_option mval (map_of h' x) = map_option mval (map_of h x)" for x
    using h1(2) h'(2) assms(3) by (cases "x = m"; cases "map_of h x") (simp_all add: update_conv')
  ultimately have "members_of h' (first_of (us @ m # vs)) (us @ m # vs) \<and> relinks (set (us @ m # vs)) h h'" by (simp add: relinks_def)
  then show ?thesis using h1(1) h'(1) m1 by (intro exI [of _ h']) simp
qed

lemma insert_member_sort_ok:
  assumes "members_of h (xas_list s) as" and "m \<notin> set as" and "map_of h m = Some n"
    and "us = takeWhile (smaller cmp (mval n) h) as" and "vs = dropWhile (smaller cmp (mval n) h) as"
  shows "vs \<noteq> [] \<and> cmp (mval n) (member_val h (hd vs)) = 0 \<and> \<not> dupes \<Longrightarrow> insert_member_sort cmp dupes s m h = Ok (0, None, s, h)"
    and "\<not> (vs \<noteq> [] \<and> cmp (mval n) (member_val h (hd vs)) = 0 \<and> \<not> dupes) \<Longrightarrow>
      \<exists>h'. insert_member_sort cmp dupes s m h = Ok (1, None, s\<lparr>xas_list := first_of (us @ m # vs)\<rparr>, h') \<and>
        members_of h' (first_of (us @ m # vs)) (us @ m # vs) \<and> relinks (set (us @ m # vs)) h h'"
proof -
  have as: "as = us @ vs" using assms(4,5) by simp
  have w: "sort_walk (length h) cmp dupes m None (xas_list s) h =
      Ok (vs \<noteq> [] \<and> cmp (mval n) (member_val h (hd vs)) = 0 \<and> \<not> dupes, last_of us, first_of vs)"
    using sort_walk_chain [OF assms(3) refl members_chain [OF assms(1)] members_length [OF assms(1)], of cmp dupes None]
    unfolding assms(4,5) [symmetric] Let_def by (cases us) auto
  show "insert_member_sort cmp dupes s m h = Ok (0, None, s, h)" if "vs \<noteq> [] \<and> cmp (mval n) (member_val h (hd vs)) = 0 \<and> \<not> dupes"
    using w that by (simp add: insert_member_sort_def)
  show "\<exists>h'. insert_member_sort cmp dupes s m h = Ok (1, None, s\<lparr>xas_list := first_of (us @ m # vs)\<rparr>, h') \<and>
      members_of h' (first_of (us @ m # vs)) (us @ m # vs) \<and> relinks (set (us @ m # vs)) h h'"
    if "\<not> (vs \<noteq> [] \<and> cmp (mval n) (member_val h (hd vs)) = 0 \<and> \<not> dupes)"
  proof -
    have c: "(vs \<noteq> [] \<and> cmp (mval n) (member_val h (hd vs)) = 0 \<and> \<not> dupes) = False" using that by blast
    have "insert_member_sort cmp dupes s m h =
        bindR (if first_of vs \<noteq> None then assign h (first_of vs) (\<lambda>x. x\<lparr>mprev := Some m\<rparr>) else Ok h) (\<lambda>h.
        bindR (assign h (Some m) (\<lambda>x. x\<lparr>mprev := last_of us, mnext := first_of vs\<rparr>)) (\<lambda>h.
        bindR (set_link (last_of us) (Some m) s h) (\<lambda>(s, h). Ok (1, None, s, h))))"
      unfolding insert_member_sort_def w c by simp
    then show ?thesis using insert_between [of h s us vs m n] assms(1-3) as by simp
  qed
qed

lemma is_member_chain: "chain mnext h p as \<Longrightarrow> length as \<le> k \<Longrightarrow> is_member k m p h = Ok (m \<in> set as)"
proof (induction as arbitrary: k p)
  case Nil
  then show ?case by (cases k) auto
next
  case (Cons a as)
  then obtain k' where "k = Suc k'" by (cases k) auto
  then show ?case using Cons by auto
qed

lemma remove_member_absent: "members_of h (xas_list s) as \<Longrightarrow> m \<notin> set as \<Longrightarrow> remove_member s m h = Ok (- 1, Some ENOENT, s, h)"
  using is_member_chain members_chain members_length unfolding remove_member_def by fastforce

lemma remove_member_ok:
  assumes "members_of h (xas_list s) (us @ m # vs)" and "map_of h m = Some n"
  shows "\<exists>h'. remove_member s m h = Ok (1, None, s\<lparr>xas_list := first_of (us @ vs)\<rparr>, h') \<and> members_of h' (first_of (us @ vs)) (us @ vs) \<and>
    map_of h' m = Some (n\<lparr>mprev := None, mnext := None\<rparr>) \<and> relinks (set (us @ m # vs)) h h'"
proof -
  have d: "distinct (us @ m # vs)" using members_distinct [OF assms(1)] .
  have f: "is_member (length h) m (xas_list s) h = Ok True"
    using is_member_chain [OF members_chain [OF assms(1)] members_length [OF assms(1)]] by simp
  have n: "mprev n = last_of us" "mnext n = first_of vs" using members_node [OF assms(1)] assms(2) by auto
  have um: "last_of us \<noteq> Some m" "first_of vs \<noteq> Some m" using d by (auto simp: last_of_def first_of_def split: list.splits)
  obtain h1 where h1: "set_link (last_of us) (first_of vs) s h = Ok (s\<lparr>xas_list := first_of (us @ vs)\<rparr>, h1)"
      "\<forall>x. map_of h1 x = map_option (\<lambda>y. if Some x = last_of us then y\<lparr>mnext := first_of vs\<rparr> else y) (map_of h x)"
  proof (cases us rule: rev_cases)
    case Nil
    then show thesis using that [of h] by (simp add: set_link_def option.map_ident)
  next
    case (snoc ws c)
    obtain y where y: "map_of h c = Some y" using members_dom [OF assms(1)] snoc by fastforce
    have "s\<lparr>xas_list := first_of (us @ vs)\<rparr> = s" using set_link_first [of us s "m # vs" vs] members_first [OF assms(1)] snoc by simp
    then show thesis using that [of "AList.update c (y\<lparr>mnext := first_of vs\<rparr>) h"] y snoc
      by (auto simp: set_link_def update_conv' option.map_ident)
  qed
  obtain h2 where h2: "(if first_of vs \<noteq> None then assign h1 (first_of vs) (\<lambda>y. y\<lparr>mprev := last_of us\<rparr>) else Ok h1) = Ok h2"
      "\<forall>x. map_of h2 x = map_option (\<lambda>y. if Some x = first_of vs then y\<lparr>mprev := last_of us\<rparr> else y) (map_of h1 x)"
  proof (cases vs)
    case Nil
    then show thesis using that [of h1] by (simp add: option.map_ident)
  next
    case (Cons d ds)
    have "map_of h d \<noteq> None" using members_dom [OF assms(1)] Cons by simp
    then obtain y where "map_of h1 d = Some y" using h1(2) by auto
    then show thesis using that [of "AList.update d (y\<lparr>mprev := last_of us\<rparr>) h1"] Cons by (auto simp: update_conv' option.map_ident)
  qed
  have m2: "map_of h2 m = Some n" using h1(2) h2(2) um assms(2) by simp
  let ?n = "n\<lparr>mprev := None, mnext := None\<rparr>" and ?h = "AList.update m (n\<lparr>mprev := None, mnext := None\<rparr>) h2"
  have "members_of ?h (first_of (us @ vs)) (us @ vs)"
  proof (rule members_remove [OF assms(1)])
    fix x y assume "x \<in> set (us @ vs)" "map_of h x = Some y"
    then show "map_of ?h x = Some (y\<lparr>mnext := (if Some x = last_of us then first_of vs else mnext y), mprev := (if Some x = first_of vs then last_of us else mprev y)\<rparr>)"
      using h1(2) h2(2) d by (auto simp: update_conv')
  qed
  moreover have "map_of ?h x = map_of h x" if "x \<notin> set (us @ m # vs)" for x
  proof -
    have "Some x \<noteq> last_of us" "Some x \<noteq> first_of vs" "x \<noteq> m" using that by (cases vs; auto simp: last_of_def)+
    then show ?thesis using h1(2) h2(2) by (simp add: update_conv' option.map_ident)
  qed
  moreover have "map_option mval (map_of ?h x) = map_option mval (map_of h x)" for x
    using h1(2) h2(2) assms(2) by (cases "x = m"; cases "map_of h x") (simp_all add: update_conv')
  ultimately have "members_of ?h (first_of (us @ vs)) (us @ vs) \<and> relinks (set (us @ m # vs)) h ?h" by (simp add: relinks_def)
  moreover have "remove_member s m h = Ok (1, None, s\<lparr>xas_list := first_of (us @ vs)\<rparr>, ?h)"
    using f assms(2) n h1(1) h2(1) m2 by (cases vs) (simp_all add: remove_member_def)
  ultimately show ?thesis by (intro exI [of _ ?h]) (simp add: update_conv')
qed

section \<open>Order\<close>

text \<open>What a sorted set expects of its comparison.\<close>

locale member_order =
  fixes cmp :: "'a compare"
  assumes flip: "cmp a b < 0 \<longleftrightarrow> 0 < cmp b a"
    and trans: "cmp a b \<le> 0 \<Longrightarrow> cmp b c \<le> 0 \<Longrightarrow> cmp a c \<le> 0"
begin

abbreviation leq :: "'a \<Rightarrow> 'a \<Rightarrow> bool" where
  "leq a b \<equiv> cmp a b \<le> 0"

lemma not_leq: "\<not> leq a b \<Longrightarrow> leq b a"
  using flip [of b a] by simp

lemma insert_sorted:
  assumes "sorted_wrt leq (map f as)" and "us = takeWhile (\<lambda>x. 0 < cmp v (f x)) as" and "vs = dropWhile (\<lambda>x. 0 < cmp v (f x)) as"
  shows "sorted_wrt leq (map f us @ v # map f vs)"
proof -
  have as: "as = us @ vs" using assms(2,3) by simp
  have s: "sorted_wrt leq (map f us)" "sorted_wrt leq (map f vs)" "\<forall>x \<in> set us. \<forall>y \<in> set vs. leq (f x) (f y)"
    using assms(1) unfolding as by (simp_all add: sorted_wrt_append)
  have u: "leq (f x) v" if "x \<in> set us" for x using that assms(2) not_leq by (auto dest!: set_takeWhileD)
  have w: "leq v (f y)" if y: "y \<in> set vs" for y
  proof (cases vs)
    case (Cons b bs)
    have b: "leq v (f b)" using Cons assms(3) by (metis hd_dropWhile list.sel(1) list.distinct(1) not_less)
    then show ?thesis using s(2) y Cons trans by auto
  qed (use y in simp)
  show ?thesis using s u w by (auto simp: sorted_wrt_append)
qed

end

end
