(* ===== verification/Ftp_Setops.thy ===== *)
theory Ftp_Setops
  imports Ftp_Members
begin

text \<open>
  Copies, unions and differences of the sets of proftpd, with members copied as plain structs. Copies and
  unions are what they should be; the difference loses members.
\<close>

section \<open>Growing heaps\<close>

text \<open>Nothing changes but the members \<open>A\<close> and new ones, and no value changes.\<close>

definition grows :: "nat set \<Rightarrow> 'a members \<Rightarrow> 'a members \<Rightarrow> bool" where
  "grows A h h' \<longleftrightarrow> (\<forall>x. map_of h x \<noteq> None \<longrightarrow> (x \<notin> A \<longrightarrow> map_of h' x = map_of h x) \<and> map_of h' x \<noteq> None \<and> member_val h' x = member_val h x)"

lemma grows_refl: "grows A h h"
  by (simp add: grows_def)

lemma grows_relinks: "relinks A h h' \<Longrightarrow> grows A h h'"
  using relinks_val unfolding grows_def by (metis relinks_def)

lemma grows_new: "map_of h n = None \<Longrightarrow> grows A h (AList.update n x h)"
  by (auto simp: grows_def member_val_def update_conv')

lemma grows_trans: "grows A h h1 \<Longrightarrow> grows B h1 h2 \<Longrightarrow> B \<subseteq> A \<union> {x. map_of h x = None} \<Longrightarrow> grows A h h2"
  unfolding grows_def by (metis (mono_tags, lifting) UnE mem_Collect_eq subsetD)

lemma members_new: "members_of h p as \<Longrightarrow> n \<notin> set as \<Longrightarrow> members_of (AList.update n x h) p as"
proof -
  assume a: "members_of h p as" "n \<notin> set as"
  then have "map_of (AList.update n x h) b = map_of h b" if "b \<in> set as" for b using that by (auto simp: update_conv')
  then show ?thesis using a(1) dsegment_cong [of as "AList.update n x h" h] by simp
qed

lemma grows_chain: "grows A h h' \<Longrightarrow> set as \<inter> A = {} \<Longrightarrow> chain mnext h p as \<Longrightarrow> chain mnext h' p as"
proof -
  assume g: "grows A h h'" "set as \<inter> A = {}" "chain mnext h p as"
  have "map_of h' x = map_of h x" if x: "x \<in> set as" for x
  proof -
    have "x \<in> fst ` set h" using segment_dom [OF g(3)] x by blast
    then have "map_of h x \<noteq> None" by (simp add: map_of_eq_None_iff)
    then show ?thesis using g(1,2) x unfolding grows_def by blast
  qed
  then show ?thesis using g(3) segment_cong [of as h' h mnext p None] by simp
qed

lemma grows_vals: "grows A h h' \<Longrightarrow> chain mnext h p as \<Longrightarrow> map (member_val h') as = map (member_val h) as"
proof -
  assume g: "grows A h h'" "chain mnext h p as"
  have "member_val h' x = member_val h x" if x: "x \<in> set as" for x
  proof -
    have "x \<in> fst ` set h" using segment_dom [OF g(2)] x by blast
    then have "map_of h x \<noteq> None" by (simp add: map_of_eq_None_iff)
    then show ?thesis using g(1) unfolding grows_def by blast
  qed
  then show ?thesis by simp
qed

section \<open>Copies\<close>

lemma append_copy_ok:
  assumes "members_of h (xas_list s) ns" and "n \<notin> set ns" and "map_of h n = Some x"
  shows "\<exists>h'. append_copy (last_of (butlast ns)) n s h = Ok (last_of ns, s\<lparr>xas_list := first_of (ns @ [n])\<rparr>, h') \<and>
    members_of h' (first_of (ns @ [n])) (ns @ [n]) \<and> relinks (set (ns @ [n])) h h'"
proof -
  have l: "get_link (last_of (butlast ns)) s h = Ok (last_of ns)"
  proof (cases ns rule: rev_cases)
    case Nil
    then show ?thesis using members_first [OF assms(1)] by (simp add: get_link_def)
  next
    case (snoc us c)
    show ?thesis
    proof (cases us rule: rev_cases)
      case Nil
      then show ?thesis using members_first [OF assms(1)] snoc by (simp add: get_link_def last_of_def)
    next
      case (snoc ws b)
      have "members_of h (xas_list s) (ws @ b # [c])" using assms(1) snoc \<open>ns = us @ [c]\<close> by simp
      then show ?thesis using members_node [of h "xas_list s" ws b "[c]"] snoc \<open>ns = us @ [c]\<close> by (auto simp: get_link_def butlast_append last_of_def)
    qed
  qed
  obtain h' where h': "bindR (assign h (Some n) (\<lambda>x. x\<lparr>mprev := last_of ns, mnext := None\<rparr>)) (\<lambda>h.
       bindR (set_link (last_of ns) (Some n) s h) (\<lambda>(s, h). Ok (1 :: int, None :: errno option, s, h))) =
     Ok (1, None, s\<lparr>xas_list := first_of (ns @ [n])\<rparr>, h')" "members_of h' (first_of (ns @ [n])) (ns @ [n])" "relinks (set (ns @ [n])) h h'"
    using insert_between [of h s ns "[]" n x] assms by auto
  have "set_link (last_of ns) (Some n) s (AList.update n (x\<lparr>mprev := last_of ns, mnext := None\<rparr>) h) = Ok (s\<lparr>xas_list := first_of (ns @ [n])\<rparr>, h')"
    using h'(1) assms(3) by (auto simp: bindR_eq_Ok)
  then have "append_copy (last_of (butlast ns)) n s h = Ok (last_of ns, s\<lparr>xas_list := first_of (ns @ [n])\<rparr>, h')"
    unfolding append_copy_def l using assms(3) by (cases "ns = []") simp_all
  then show ?thesis using h'(2,3) by blast
qed

text \<open>One round of copying: a fresh struct, appended behind \<open>ns\<close>.\<close>

lemma copy_append:
  assumes "map_of h a = Some x" and "members_of h (xas_list s) ns"
  shows "\<exists>n h1 h'. copy_member None a h = Ok (Some n, h1) \<and>
    append_copy (last_of (butlast ns)) n s h1 = Ok (last_of ns, s\<lparr>xas_list := first_of (ns @ [n])\<rparr>, h') \<and>
    members_of h' (first_of (ns @ [n])) (ns @ [n]) \<and> grows (set ns) h h' \<and> map_of h n = None \<and> member_val h' n = mval x"
proof -
  let ?n = "fresh h" and ?h = "AList.update (fresh h) x h"
  have f: "map_of h ?n = None" by (rule fresh_new)
  then have nn: "?n \<notin> set ns" using members_dom [OF assms(2)] by blast
  have g: "grows (set ns) h ?h" by (rule grows_new [OF f])
  have "members_of ?h (xas_list s) ns" using members_new [OF assms(2) nn] .
  then obtain h' where h': "append_copy (last_of (butlast ns)) ?n s ?h = Ok (last_of ns, s\<lparr>xas_list := first_of (ns @ [?n])\<rparr>, h')"
      "members_of h' (first_of (ns @ [?n])) (ns @ [?n])" "relinks (set (ns @ [?n])) ?h h'"
    using append_copy_ok [of ?h s ns ?n x] nn by (auto simp: update_conv')
  have "grows (set (ns @ [?n])) ?h h'" using grows_relinks [OF h'(3)] .
  then have "grows (set ns) h h'" using grows_trans [OF g] f by auto
  moreover have "member_val h' ?n = mval x" using relinks_val [OF h'(3), of ?n] by (simp add: update_conv' member_val_def)
  moreover have "copy_member None a h = Ok (Some ?n, ?h)" using assms(1) by (simp add: copy_member_def Let_def)
  ultimately show ?thesis using h'(1,2) f by blast
qed

lemma copy_walk_ok:
  "chain mnext h p as \<Longrightarrow> members_of h (xas_list s) ns \<Longrightarrow> set as \<inter> set ns = {} \<Longrightarrow> length as \<le> k \<Longrightarrow>
    \<exists>h' ms. copy_walk k None p (last_of (butlast ns)) s h = Ok (Some (s\<lparr>xas_list := first_of (ns @ ms)\<rparr>), h') \<and>
      members_of h' (first_of (ns @ ms)) (ns @ ms) \<and> map (member_val h') ms = map (member_val h) as \<and> grows (set ns) h h' \<and>
      (\<forall>x \<in> set ms. map_of h x = None)"
proof (induction as arbitrary: p s h ns k)
  case Nil
  have "s\<lparr>xas_list := first_of ns\<rparr> = s" using members_first [OF Nil.prems(2)] by (cases s) simp
  moreover have "copy_walk k None p (last_of (butlast ns)) s h = Ok (Some s, h)" using Nil.prems(1) by (cases k) auto
  moreover have "members_of h (first_of ns) ns" using Nil.prems(2) members_first [OF Nil.prems(2)] by simp
  ultimately show ?case using grows_refl by (intro exI [of _ h] exI [of _ "[]"]) auto
next
  case (Cons a as)
  obtain k' where k: "k = Suc k'" using Cons.prems(4) by (cases k) auto
  obtain x where x: "p = Some a" "map_of h a = Some x" "chain mnext h (mnext x) as" using Cons.prems(1) by auto
  obtain n h1 h2 where c: "copy_member None a h = Ok (Some n, h1)"
      "append_copy (last_of (butlast ns)) n s h1 = Ok (last_of ns, s\<lparr>xas_list := first_of (ns @ [n])\<rparr>, h2)"
      "members_of h2 (first_of (ns @ [n])) (ns @ [n])" "grows (set ns) h h2" "map_of h n = None" "member_val h2 n = mval x"
    using copy_append [OF x(2) Cons.prems(2)] by blast
  let ?s = "s\<lparr>xas_list := first_of (ns @ [n])\<rparr>"
  have a2: "map_of h2 a = Some x" using c(4) x(2) Cons.prems(3) by (auto simp: grows_def)
  have "n \<notin> set as" using segment_dom [OF x(3)] c(5) by (auto simp: map_of_eq_None_iff)
  then have d: "set as \<inter> set (ns @ [n]) = {}" "set as \<inter> set ns = {}" using Cons.prems(3) by auto
  have ch: "chain mnext h2 (mnext x) as" using grows_chain [OF c(4) d(2) x(3)] .
  have "members_of h2 (xas_list ?s) (ns @ [n])" using c(3) by simp
  then obtain h' ms where h': "copy_walk k' None (mnext x) (last_of (butlast (ns @ [n]))) ?s h2 = Ok (Some (?s\<lparr>xas_list := first_of ((ns @ [n]) @ ms)\<rparr>), h')"
      "members_of h' (first_of ((ns @ [n]) @ ms)) ((ns @ [n]) @ ms)" "map (member_val h') ms = map (member_val h2) as"
      "grows (set (ns @ [n])) h2 h'" "\<forall>x \<in> set ms. map_of h2 x = None"
    using Cons.IH [OF ch _ d(1), of ?s k'] Cons.prems(4) k by auto
  have "map_of h2 n \<noteq> None" using members_dom [OF c(3)] by simp
  then have "member_val h' n = member_val h a" using h'(4) c(6) x(2) by (simp add: grows_def) (simp add: member_val_def)
  moreover have "map (member_val h2) as = map (member_val h) as" using grows_vals [OF c(4) x(3)] .
  moreover have "grows (set ns) h h'" using grows_trans [OF c(4) h'(4)] c(5) by auto
  moreover have "\<forall>x \<in> set ms. map_of h x = None" using h'(5) c(4) unfolding grows_def by blast
  moreover have "copy_walk k None p (last_of (butlast ns)) s h = Ok (Some (s\<lparr>xas_list := first_of (ns @ n # ms)\<rparr>), h')"
    using k x c(1,2) a2 h'(1) by simp
  ultimately show ?case using h'(2,3) c(5) by (intro exI [of _ h'] exI [of _ "n # ms"]) simp
qed

section \<open>Unions\<close>

lemma inserted_vals:
  assumes "members_of h p (us @ vs)" and "relinks (set (us @ m # vs)) h h'" and "map_of h m = Some n"
  shows "map (member_val h') (us @ m # vs) = map (member_val h) us @ mval n # map (member_val h) vs"
proof -
  have "map_of h x \<noteq> None" if "x \<in> set (us @ m # vs)" for x using that members_dom [OF assms(1)] assms(3) by auto
  then have "member_val h' x = member_val h x" if "x \<in> set (us @ m # vs)" for x using relinks_val [OF assms(2)] that by blast
  then show ?thesis using assms(3) by (simp add: member_val_def)
qed

context member_order
begin

lemma equal_flip: "cmp a b = 0 \<longleftrightarrow> cmp b a = 0"
  using flip [of a b] flip [of b a] by linarith

lemma equal_trans: "cmp a b = 0 \<Longrightarrow> cmp b c = 0 \<Longrightarrow> cmp a c = 0"
  using trans [of a b c] trans [of c b a] equal_flip [of a b] equal_flip [of b c] flip [of a c] by linarith

lemma less_leq: "cmp a b < 0 \<Longrightarrow> leq b c \<Longrightarrow> cmp a c < 0"
  using trans [of b c a] flip [of a c] flip [of a b] by fastforce

lemma equal_first:
  assumes "sorted_wrt leq (map f as)" and "us = takeWhile (\<lambda>x. 0 < cmp v (f x)) as" and "vs = dropWhile (\<lambda>x. 0 < cmp v (f x)) as"
  shows "vs \<noteq> [] \<and> cmp v (f (hd vs)) = 0 \<longleftrightarrow> (\<exists>a \<in> set as. cmp v (f a) = 0)"
proof
  have as: "as = us @ vs" using assms(2,3) by simp
  note ins = insert_sorted [OF assms]
  {
    assume "vs \<noteq> [] \<and> cmp v (f (hd vs)) = 0"
    then show "\<exists>a \<in> set as. cmp v (f a) = 0" using as by auto
  next
    assume "\<exists>a \<in> set as. cmp v (f a) = 0"
    then obtain a where a: "a \<in> set as" "cmp v (f a) = 0" by blast
    have "a \<notin> set us" using a(2) unfolding assms(2) by (auto dest: set_takeWhileD)
    then obtain b bs where b: "vs = b # bs" "a \<in> set (b # bs)" using a(1) as by (cases vs) auto
    have l: "leq v (f b)" "a = b \<or> leq (f b) (f a)" using ins b by (auto simp: sorted_wrt_append)
    moreover have "leq (f a) v" using a(2) equal_flip by (metis order_refl)
    ultimately have "leq (f b) v" using trans by blast
    then have "cmp v (f b) = 0" using l(1) flip [of v "f b"] by linarith
    then show "vs \<noteq> [] \<and> cmp v (f (hd vs)) = 0" using b by simp
  }
qed

abbreviation increasing :: "'a list \<Rightarrow> bool" where
  "increasing \<equiv> sorted_wrt (\<lambda>a b. cmp a b < 0)"

abbreviation contains :: "'a list \<Rightarrow> 'a \<Rightarrow> bool" where
  "contains xs v \<equiv> \<exists>x \<in> set xs. cmp v x = 0"

lemma insert_increasing:
  assumes "increasing (map f as)" and "us = takeWhile (\<lambda>x. 0 < cmp v (f x)) as" and "vs = dropWhile (\<lambda>x. 0 < cmp v (f x)) as"
  shows "vs \<noteq> [] \<and> cmp v (f (hd vs)) = 0 \<longleftrightarrow> contains (map f as) v" and "\<not> contains (map f as) v \<Longrightarrow> increasing (map f us @ v # map f vs)"
proof -
  have as: "as = us @ vs" using assms(2,3) by simp
  have s: "increasing (map f us)" "increasing (map f vs)" "\<forall>x \<in> set us. \<forall>y \<in> set vs. cmp (f x) (f y) < 0"
    using assms(1) unfolding as by (simp_all add: sorted_wrt_append)
  have u: "cmp (f x) v < 0" if "x \<in> set us" for x using that assms(2) flip by (auto dest!: set_takeWhileD)
  have h: "leq v (f (hd vs))" if "vs \<noteq> []" using that assms(3) by (metis hd_dropWhile not_less)
  have w: "cmp v (f y) < 0" if "y \<in> set (tl vs)" for y
  proof (cases vs)
    case (Cons b bs)
    then have "cmp (f b) (f y) < 0" "leq v (f b)" using s(2) that h by auto
    then show ?thesis using less_leq flip trans by (metis less_le not_less order.asym)
  qed (use that in simp)
  show c: "vs \<noteq> [] \<and> cmp v (f (hd vs)) = 0 \<longleftrightarrow> contains (map f as) v"
  proof
    assume "vs \<noteq> [] \<and> cmp v (f (hd vs)) = 0"
    then show "contains (map f as) v" unfolding as by (metis in_set_conv_decomp_first list.set_map image_eqI set_append UnCI hd_in_set)
  next
    assume "contains (map f as) v"
    then obtain x where x: "x \<in> set us \<or> x \<in> set vs" "cmp v (f x) = 0" unfolding as by auto
    have "x \<notin> set us" using u [of x] x(2) equal_flip [of v "f x"] by auto
    moreover have "x \<notin> set (tl vs)" using w [of x] x(2) by auto
    ultimately have "vs \<noteq> []" "x = hd vs" using x(1) by (cases vs; auto)+
    then show "vs \<noteq> [] \<and> cmp v (f (hd vs)) = 0" using x(2) by simp
  qed
  show "increasing (map f us @ v # map f vs)" if n: "\<not> contains (map f as) v"
  proof -
    have "cmp v (f (hd vs)) < 0" if "vs \<noteq> []" using n c h that by fastforce
    then have "cmp v (f y) < 0" if "y \<in> set vs" for y using w that by (cases vs) auto
    then show ?thesis using s u by (auto simp: sorted_wrt_append)
  qed
qed

lemma union_walk_ok:
  "chain mnext h p as \<Longrightarrow> members_of h (xas_list s) ns \<Longrightarrow> xas_compare s = Some cmp \<Longrightarrow> increasing (map (member_val h) ns) \<Longrightarrow>
    set as \<inter> set ns = {} \<Longrightarrow> length as \<le> k \<Longrightarrow>
    \<exists>s' h' ms. union_walk k None p s h = Ok (Some s', h') \<and> members_of h' (xas_list s') ms \<and> xas_compare s' = Some cmp \<and>
      increasing (map (member_val h') ms) \<and> grows (set ns) h h' \<and> set ms \<subseteq> set ns \<union> {x. map_of h x = None} \<and>
      (\<forall>v. contains (map (member_val h') ms) v \<longleftrightarrow> contains (map (member_val h) ns) v \<or> contains (map (member_val h) as) v)"
proof (induction as arbitrary: p s h ns k)
  case Nil
  have "union_walk k None p s h = Ok (Some s, h)" using Nil.prems(1) by (cases k) auto
  then show ?case using Nil.prems grows_refl by (intro exI [of _ s] exI [of _ h] exI [of _ ns]) auto
next
  case (Cons a as)
  obtain k' where k: "k = Suc k'" using Cons.prems(6) by (cases k) auto
  obtain x where x: "p = Some a" "map_of h a = Some x" "chain mnext h (mnext x) as" using Cons.prems(1) by auto
  let ?n = "fresh h" and ?h = "AList.update (fresh h) x h" and ?v = "mval x"
  have f: "map_of h ?n = None" by (rule fresh_new)
  then have nn: "?n \<notin> set ns" using members_dom [OF Cons.prems(2)] by blast
  have g: "grows (set ns) h ?h" by (rule grows_new [OF f])
  have m1: "members_of ?h (xas_list s) ns" using members_new [OF Cons.prems(2) nn] .
  have vn: "map (member_val ?h) ns = map (member_val h) ns" using grows_vals [OF g members_chain [OF Cons.prems(2)]] .
  define us where "us = takeWhile (smaller cmp ?v ?h) ns"
  define vs where "vs = dropWhile (smaller cmp ?v ?h) ns"
  have nsv: "ns = us @ vs" by (simp add: us_def vs_def)
  have inc: "increasing (map (member_val ?h) ns)" unfolding vn by (rule Cons.prems(4))
  note ii = insert_increasing [OF inc us_def vs_def]
  have n1: "map_of ?h ?n = Some x" by (simp add: update_conv')
  have "\<exists>r e s1 h1 ms. xaset_insert_sort (Some s) (Some ?n) False ?h = Ok (r, e, Some s1, h1) \<and> r \<noteq> - 1 \<and> members_of h1 (xas_list s1) ms \<and>
      xas_compare s1 = Some cmp \<and> increasing (map (member_val h1) ms) \<and> grows (set ns) h h1 \<and> set ms \<subseteq> insert ?n (set ns) \<and>
      (\<forall>w. contains (map (member_val h1) ms) w \<longleftrightarrow> contains (map (member_val h) ns) w \<or> cmp w ?v = 0)"
  proof (cases "contains (map (member_val ?h) ns) ?v")
    case True
    then have "xaset_insert_sort (Some s) (Some ?n) False ?h = Ok (0, None, Some s, ?h)"
      using insert_member_sort_ok(1) [where cmp = cmp and dupes = False, OF m1 nn n1 us_def vs_def] ii(1) Cons.prems(3) by (simp add: xaset_insert_sort_def on_member_def)
    moreover have "contains (map (member_val h) ns) w" if w: "cmp w ?v = 0" for w using True vn equal_trans [OF w] by (metis (no_types, lifting))
    then have "\<forall>w. contains (map (member_val ?h) ns) w \<longleftrightarrow> contains (map (member_val h) ns) w \<or> cmp w ?v = 0" unfolding vn by blast
    ultimately show ?thesis using m1 Cons.prems(3) inc g by (intro exI [of _ 0] exI [of _ None] exI [of _ s] exI [of _ ?h] exI [of _ ns]) auto
  next
    case False
    then obtain h1 where h1: "insert_member_sort cmp False s ?n ?h = Ok (1, None, s\<lparr>xas_list := first_of (us @ ?n # vs)\<rparr>, h1)"
        "members_of h1 (first_of (us @ ?n # vs)) (us @ ?n # vs)" "relinks (set (us @ ?n # vs)) ?h h1"
      using insert_member_sort_ok(2) [where cmp = cmp and dupes = False, OF m1 nn n1 us_def vs_def] ii(1) by blast
    let ?s = "s\<lparr>xas_list := first_of (us @ ?n # vs)\<rparr>"
    note vals = inserted_vals [OF m1 [unfolded nsv] h1(3) n1]
    have hv: "map (member_val h) ns = map (member_val ?h) us @ map (member_val ?h) vs" using vn nsv by (metis map_append)
    have "increasing (map (member_val h1) (us @ ?n # vs))" unfolding vals using ii(2) False by simp
    moreover have "grows (insert ?n (set ns)) ?h h1" using grows_relinks [OF h1(3)] nsv by simp
    then have "grows (set ns) h h1" using grows_trans [OF g] f by auto
    moreover have "contains (map (member_val h1) (us @ ?n # vs)) w \<longleftrightarrow> contains (map (member_val h) ns) w \<or> cmp w ?v = 0" for w
      unfolding vals hv by auto
    moreover have "xaset_insert_sort (Some s) (Some ?n) False ?h = Ok (1, None, Some ?s, h1)"
      using h1(1) Cons.prems(3) by (simp add: xaset_insert_sort_def on_member_def)
    ultimately show ?thesis using h1(2) Cons.prems(3) nsv
      by (intro exI [of _ 1] exI [of _ None] exI [of _ ?s] exI [of _ h1] exI [of _ "us @ ?n # vs"]) auto
  qed
  then obtain r e s1 h1 ms where r: "xaset_insert_sort (Some s) (Some ?n) False ?h = Ok (r, e, Some s1, h1)" "r \<noteq> - 1" "members_of h1 (xas_list s1) ms"
      "xas_compare s1 = Some cmp" "increasing (map (member_val h1) ms)" "grows (set ns) h h1" "set ms \<subseteq> insert ?n (set ns)"
      "\<forall>w. contains (map (member_val h1) ms) w \<longleftrightarrow> contains (map (member_val h) ns) w \<or> cmp w ?v = 0" by blast
  have d: "set as \<inter> set ns = {}" "?n \<notin> set as" using Cons.prems(5) segment_dom [OF x(3)] f by (auto simp: map_of_eq_None_iff)
  have ch: "chain mnext h1 (mnext x) as" using grows_chain [OF r(6) d(1) x(3)] .
  have "set as \<inter> set ms = {}" using d r(7) by blast
  moreover have "length as \<le> k'" using Cons.prems(6) k by simp
  ultimately obtain s' h' ms' where w: "union_walk k' None (mnext x) s1 h1 = Ok (Some s', h')" "members_of h' (xas_list s') ms'" "xas_compare s' = Some cmp"
      "increasing (map (member_val h') ms')" "grows (set ms) h1 h'" "set ms' \<subseteq> set ms \<union> {x. map_of h1 x = None}"
      "\<forall>v. contains (map (member_val h') ms') v \<longleftrightarrow> contains (map (member_val h1) ms) v \<or> contains (map (member_val h1) as) v"
    using Cons.IH [OF ch r(3-5)] by blast
  have "map_of h1 a = Some x" using r(6) x(2) Cons.prems(5) unfolding grows_def by auto
  then have "union_walk k None p s h = Ok (Some s', h')" using k x w(1) r(1,2) by (simp add: copy_member_def Let_def)
  moreover have "grows (set ns) h h'" using grows_trans [OF r(6) w(5)] r(7) f by blast
  moreover have "set ms' \<subseteq> set ns \<union> {x. map_of h x = None}" using w(6) r(7) f r(6) unfolding grows_def by blast
  moreover have "map (member_val h1) as = map (member_val h) as" using grows_vals [OF r(6) x(3)] .
  moreover have "member_val h a = ?v" using x(2) by (simp add: member_val_def)
  ultimately show ?case using w(2-4,7) r(8) by (intro exI [of _ s'] exI [of _ h'] exI [of _ ms']) auto
qed

end

section \<open>Differences\<close>

lemma skip_smaller_ends: "chain mnext h (Some b) (b # bs) \<Longrightarrow> length bs < k \<Longrightarrow> \<exists>q. skip_smaller k cmp v (Some b) h = Ok q"
proof (induction bs arbitrary: b k)
  case Nil
  then show ?case by (cases k) auto
next
  case (Cons c bs)
  obtain k' where k: "k = Suc k'" using Cons.prems(2) by (cases k) auto
  obtain x y where x: "map_of h b = Some x" "mnext x = Some c" "map_of h c = Some y" "chain mnext h (Some c) (c # bs)" using Cons.prems(1) by auto
  then show ?case using Cons.IH [OF x(4), of k'] Cons.prems(2) k by auto
qed

section \<open>Sets of numbers\<close>

interpretation int_order: member_order "\<lambda>a b :: int. a - b"
  by unfold_locales auto

text \<open>The set of 1 and 3, the set of 2, and a member 2 that is in no set.\<close>

definition odd_members :: "int members" where
  "odd_members = [(5, \<lparr>mnext = Some 6, mprev = None, mval = 1\<rparr>), (6, \<lparr>mnext = None, mprev = Some 5, mval = 3\<rparr>),
     (7, \<lparr>mnext = None, mprev = None, mval = 2\<rparr>)]"

definition int_set :: "ptr \<Rightarrow> int xaset" where
  "int_set p = \<lparr>xas_list = p, xas_pool = Some 1, xas_compare = Some (\<lambda>a b. a - b)\<rparr>"

lemma odd_members_of: "members_of odd_members (Some 5) [5, 6]" "members_of odd_members (Some 7) [7]"
  by (simp_all add: odd_members_def)

lemma odd_vals: "member_val odd_members 5 = 1" "member_val odd_members 6 = 3" "member_val odd_members 7 = 2"
    "map_of odd_members 7 = Some \<lparr>mnext = None, mprev = None, mval = 2\<rparr>" "map_of odd_members 5 = Some \<lparr>mnext = Some 6, mprev = None, mval = 1\<rparr>"
  by (simp_all add: odd_members_def member_val_def)

lemma int_set_fields [simp]: "xas_list (int_set p) = p" "xas_compare (int_set p) = Some (\<lambda>a b. a - b)"
  by (simp_all add: int_set_def)

section \<open>Properties\<close>

text \<open>What the code does with a member that is equal to one of the set: without \<open>dupes_allowed\<close> it is refused. The comment of
  \<open>xaset_insert_sort\<close> has it the other way round.\<close>

theorem insert_sort_cases:
  assumes "member_order cmp" and "xas_compare s = Some cmp" and "members_of h (xas_list s) as"
    and "sorted_wrt (\<lambda>a b. cmp a b \<le> 0) (map (member_val h) as)" and "m \<notin> set as" and "map_of h m = Some n"
  shows "if \<not> dupes \<and> (\<exists>a \<in> set as. cmp (mval n) (member_val h a) = 0)
    then xaset_insert_sort (Some s) (Some m) dupes h = Ok (0, None, Some s, h)
    else \<exists>s' h' us vs. xaset_insert_sort (Some s) (Some m) dupes h = Ok (1, None, Some s', h') \<and> as = us @ vs \<and>
      members_of h' (xas_list s') (us @ m # vs) \<and> sorted_wrt (\<lambda>a b. cmp a b \<le> 0) (map (member_val h') (us @ m # vs)) \<and>
      relinks (set (us @ m # vs)) h h'"
proof -
  define us where "us = takeWhile (smaller cmp (mval n) h) as"
  define vs where "vs = dropWhile (smaller cmp (mval n) h) as"
  have as: "as = us @ vs" by (simp add: us_def vs_def)
  note ins = member_order.insert_sorted [OF assms(1,4) us_def vs_def]
  note ok = insert_member_sort_ok [where cmp = cmp and dupes = dupes, OF assms(3,5,6) us_def vs_def]
  have e: "xaset_insert_sort (Some s) (Some m) dupes h = bindR (insert_member_sort cmp dupes s m h) (\<lambda>(r, e, s, h). Ok (r, e, Some s, h))"
    using assms(2) by (simp add: xaset_insert_sort_def on_member_def)
  note member_order.equal_first [OF assms(1,4) us_def vs_def]
  then have c: "\<not> dupes \<and> (\<exists>a \<in> set as. cmp (mval n) (member_val h a) = 0) \<longleftrightarrow> vs \<noteq> [] \<and> cmp (mval n) (member_val h (hd vs)) = 0 \<and> \<not> dupes" by blast
  show ?thesis
  proof (cases "vs \<noteq> [] \<and> cmp (mval n) (member_val h (hd vs)) = 0 \<and> \<not> dupes")
    case True
    then show ?thesis unfolding c e ok(1) [OF True] by simp
  next
    case False
    then obtain h' where h': "insert_member_sort cmp dupes s m h = Ok (1, None, s\<lparr>xas_list := first_of (us @ m # vs)\<rparr>, h')"
        "members_of h' (first_of (us @ m # vs)) (us @ m # vs)" "relinks (set (us @ m # vs)) h h'" using ok(2) by blast
    have "sorted_wrt (\<lambda>a b. cmp a b \<le> 0) (map (member_val h') (us @ m # vs))"
      unfolding inserted_vals [OF assms(3) [unfolded as] h'(3) assms(6)] by (rule ins)
    then have "\<exists>s' h' us vs. xaset_insert_sort (Some s) (Some m) dupes h = Ok (1, None, Some s', h') \<and> as = us @ vs \<and>
      members_of h' (xas_list s') (us @ m # vs) \<and> sorted_wrt (\<lambda>a b. cmp a b \<le> 0) (map (member_val h') (us @ m # vs)) \<and> relinks (set (us @ m # vs)) h h'"
      using h' e as by (intro exI [of _ "s\<lparr>xas_list := first_of (us @ m # vs)\<rparr>"] exI [of _ h'] exI [of _ us] exI [of _ vs]) simp
    then show ?thesis using False c by (simp only: if_False)
  qed
qed

text \<open>C12: \<open>xaset_insert_sort\<close> refines insertion into a sorted list. On a sorted set it returns 1, with the member linked in both
  directions into a place where the set is sorted again, or 0, with nothing changed. For a member without an equal one in the set
  the result is 1; for a member with an equal one exactly one of the two values of \<open>dupes_allowed\<close> makes it 1.\<close>

theorem insert_sort_sorted:
  assumes "member_order cmp" and "xas_compare s = Some cmp" and "members_of h (xas_list s) as"
    and "sorted_wrt (\<lambda>a b. cmp a b \<le> 0) (map (member_val h) as)" and "m \<notin> set as" and "map_of h m = Some n"
  shows "\<exists>r. (if \<exists>a \<in> set as. cmp (mval n) (member_val h a) = 0 then {r True, r False} = {0, 1} else r True = 1 \<and> r False = 1) \<and>
    (\<forall>dupes. \<exists>s' h' as'. xaset_insert_sort (Some s) (Some m) dupes h = Ok (r dupes, None, Some s', h') \<and>
      members_of h' (xas_list s') as' \<and> sorted_wrt (\<lambda>a b. cmp a b \<le> 0) (map (member_val h') as') \<and>
      (if r dupes = 1 then \<exists>us vs. as = us @ vs \<and> as' = us @ m # vs \<and> relinks (set as') h h'
       else r dupes = 0 \<and> as' = as \<and> s' = s \<and> h' = h))"
proof -
  let ?eq = "\<exists>a \<in> set as. cmp (mval n) (member_val h a) = 0"
  let ?r = "\<lambda>dupes. if \<not> dupes \<and> ?eq then 0 else 1 :: int"
  have "\<exists>s' h' as'. xaset_insert_sort (Some s) (Some m) dupes h = Ok (?r dupes, None, Some s', h') \<and>
      members_of h' (xas_list s') as' \<and> sorted_wrt (\<lambda>a b. cmp a b \<le> 0) (map (member_val h') as') \<and>
      (if ?r dupes = 1 then \<exists>us vs. as = us @ vs \<and> as' = us @ m # vs \<and> relinks (set as') h h'
       else ?r dupes = 0 \<and> as' = as \<and> s' = s \<and> h' = h)" for dupes
  proof (cases "\<not> dupes \<and> ?eq")
    case True
    then show ?thesis
      using insert_sort_cases [OF assms, of dupes] assms(3,4) by (intro exI [of _ s] exI [of _ h] exI [of _ as]) simp
  next
    case False
    obtain s' h' us vs where "xaset_insert_sort (Some s) (Some m) dupes h = Ok (1, None, Some s', h')" "as = us @ vs"
        "members_of h' (xas_list s') (us @ m # vs)" "sorted_wrt (\<lambda>a b. cmp a b \<le> 0) (map (member_val h') (us @ m # vs))"
        "relinks (set (us @ m # vs)) h h'"
      using insert_sort_cases [OF assms, of dupes] unfolding if_not_P [OF False] by blast
    then show ?thesis unfolding if_not_P [OF False]
      by (intro exI [of _ s'] exI [of _ h'] exI [of _ "us @ m # vs"]) auto
  qed
  then show ?thesis by (intro exI [of _ ?r]) (auto simp del: split_paired_Ex)
qed

lemma insert_sort_sorted_witness:
  "\<exists>r. r True = 1 \<and> r False = 1 \<and>
    (\<forall>dupes. \<exists>s' h' as'. xaset_insert_sort (Some (int_set (Some 5))) (Some 7) dupes odd_members = Ok (r dupes, None, Some s', h') \<and>
      members_of h' (xas_list s') as' \<and> sorted_wrt (\<lambda>a b. a - b \<le> (0 :: int)) (map (member_val h') as') \<and>
      (if r dupes = 1 then \<exists>us vs. [5, 6] = us @ vs \<and> as' = us @ 7 # vs \<and> relinks (set as') odd_members h'
       else r dupes = 0 \<and> as' = [5, 6] \<and> s' = int_set (Some 5) \<and> h' = odd_members))"
proof -
  have "members_of odd_members (xas_list (int_set (Some 5))) [5, 6]" using odd_members_of(1) by simp
  moreover have "sorted_wrt (\<lambda>a b. a - b \<le> (0 :: int)) (map (member_val odd_members) [5, 6])" "(7 :: nat) \<notin> set [5, 6]" by (simp_all add: odd_vals)
  moreover have "\<not> (\<exists>a \<in> set [5, 6]. mval \<lparr>mnext = None, mprev = None, mval = 2 :: int\<rparr> - member_val odd_members a = 0)" by (simp add: odd_vals)
  ultimately show ?thesis
    using insert_sort_sorted [OF int_order.member_order_axioms int_set_fields(2) _ _ _ odd_vals(4), of "Some 5" "[5, 6]"]
    by (simp only: if_False conj_assoc simp_thms)
qed

text \<open>\<open>xaset_remove\<close> refines the removal from a list: it returns 1, the neighbours of the member are linked to each other, and the
  links of the member are cleared; for a member of another set it returns -1 with \<open>ENOENT\<close>, and nothing changes.\<close>

theorem remove_refines:
  assumes "members_of h (xas_list s) as" and "map_of h m = Some n"
  shows "if m \<in> set as
    then \<exists>s' h'. xaset_remove (Some s) (Some m) h = Ok (1, None, Some s', h') \<and> members_of h' (xas_list s') (remove1 m as) \<and>
      map_of h' m = Some (n\<lparr>mprev := None, mnext := None\<rparr>) \<and> relinks (set as) h h'
    else xaset_remove (Some s) (Some m) h = Ok (- 1, Some ENOENT, Some s, h)"
proof (cases "m \<in> set as")
  case True
  then obtain us vs where u: "as = us @ m # vs" "m \<notin> set us" by (meson split_list_first)
  then obtain h' where "remove_member s m h = Ok (1, None, s\<lparr>xas_list := first_of (us @ vs)\<rparr>, h')" "members_of h' (first_of (us @ vs)) (us @ vs)"
      "map_of h' m = Some (n\<lparr>mprev := None, mnext := None\<rparr>)" "relinks (set as) h h'"
    using remove_member_ok [of h s us m vs n] assms by auto
  moreover have "remove1 m as = us @ vs" using u by (simp add: remove1_append)
  ultimately show ?thesis using True by (auto simp: xaset_remove_def on_member_def)
next
  case False
  then show ?thesis using remove_member_absent [OF assms(1)] by (simp add: xaset_remove_def on_member_def)
qed

lemma remove_refines_witness:
  "\<exists>s' h'. xaset_remove (Some (int_set (Some 5))) (Some 5) odd_members = Ok (1, None, Some s', h') \<and> members_of h' (xas_list s') [6] \<and>
    map_of h' 5 = Some \<lparr>mnext = None, mprev = None, mval = 1\<rparr> \<and> relinks {5, 6} odd_members h'"
proof -
  have m: "members_of odd_members (xas_list (int_set (Some 5))) [5, 6]" using odd_members_of(1) by simp
  show ?thesis using remove_refines [OF m odd_vals(5)] by simp
qed

text \<open>\<open>xaset_union\<close> returns a new set, sorted and without duplicates, that contains a value exactly when one of the two sets
  does; the two sets are left alone.\<close>

theorem union_contains:
  assumes "member_order cmp" and "xas_compare s1 = Some cmp" and "members_of h (xas_list s1) as" and "members_of h (xas_list s2) bs" and "msize \<noteq> 0"
  shows "\<exists>s h' ms. xaset_union perm p (Some s1) (Some s2) msize None h = Ok (None, Some s, h') \<and> members_of h' (xas_list s) ms \<and>
    sorted_wrt (\<lambda>a b. cmp a b < 0) (map (member_val h') ms) \<and>
    (\<forall>v. (\<exists>x \<in> set ms. cmp v (member_val h' x) = 0) \<longleftrightarrow> (\<exists>x \<in> set (as @ bs). cmp v (member_val h x) = 0)) \<and>
    (\<forall>x. map_of h x \<noteq> None \<longrightarrow> map_of h' x = map_of h x)"
proof -
  let ?s = "xaset_create perm (result_pool p s1 s2) (Some cmp)"
  have c: "chain mnext h (xas_list s1) as" "chain mnext h (xas_list s2) bs" using members_chain [OF assms(3)] members_chain [OF assms(4)] .
  have "members_of h (xas_list ?s) []" "xas_compare ?s = Some cmp" by (simp_all add: xaset_create_def)
  then obtain s' h1 ns where w: "union_walk (length h) None (xas_list s1) ?s h = Ok (Some s', h1)" "members_of h1 (xas_list s') ns" "xas_compare s' = Some cmp"
      "sorted_wrt (\<lambda>a b. cmp a b < 0) (map (member_val h1) ns)" "grows {} h h1" "set ns \<subseteq> {x. map_of h x = None}"
      "\<forall>v. (\<exists>x \<in> set (map (member_val h1) ns). cmp v x = 0) \<longleftrightarrow> (\<exists>x \<in> set (map (member_val h) as). cmp v x = 0)"
    using member_order.union_walk_ok [OF assms(1) c(1), of ?s "[]" "length h"] members_length [OF assms(3)] by auto
  have "set bs \<inter> set ns = {}" using w(6) members_dom [OF assms(4)] by blast
  moreover have c2: "chain mnext h1 (xas_list s2) bs" using grows_chain [OF w(5) _ c(2)] by simp
  ultimately obtain s h' ms where v: "union_walk (length h1) None (xas_list s2) s' h1 = Ok (Some s, h')" "members_of h' (xas_list s) ms"
      "sorted_wrt (\<lambda>a b. cmp a b < 0) (map (member_val h') ms)" "grows (set ns) h1 h'"
      "\<forall>v. (\<exists>x \<in> set (map (member_val h') ms). cmp v x = 0) \<longleftrightarrow>
        (\<exists>x \<in> set (map (member_val h1) ns). cmp v x = 0) \<or> (\<exists>x \<in> set (map (member_val h1) bs). cmp v x = 0)"
    using member_order.union_walk_ok [OF assms(1) c2 w(2-4), of "length h1"] chain_length [OF c2] by blast
  have "map (member_val h1) bs = map (member_val h) bs" using grows_vals [OF w(5) c(2)] .
  then have "\<forall>v. (\<exists>x \<in> set ms. cmp v (member_val h' x) = 0) \<longleftrightarrow> (\<exists>x \<in> set (as @ bs). cmp v (member_val h x) = 0)"
    using v(5) w(7) by (auto simp del: map_eq_conv)
  moreover have "grows {} h h'" using grows_trans [OF w(5) v(4)] w(6) by simp
  moreover have "xaset_union perm p (Some s1) (Some s2) msize None h = Ok (None, Some s, h')"
    using w(1) v(1) assms(2,5) by (simp add: xaset_union_def)
  ultimately show ?thesis using v(2,3) unfolding grows_def by blast
qed

lemma union_contains_witness:
  "\<exists>s h' ms. xaset_union None None (Some (int_set (Some 5))) (Some (int_set (Some 7))) 24 None odd_members = Ok (None, Some s, h') \<and>
    members_of h' (xas_list s) ms \<and> sorted_wrt (\<lambda>a b. a - b < (0 :: int)) (map (member_val h') ms) \<and>
    (\<forall>v. (\<exists>x \<in> set ms. v - member_val h' x = 0) \<longleftrightarrow> (\<exists>x \<in> set ([5, 6] @ [7]). v - member_val odd_members x = 0)) \<and>
    (\<forall>x. map_of odd_members x \<noteq> None \<longrightarrow> map_of h' x = map_of odd_members x)"
  by (rule union_contains [OF int_order.member_order_axioms]) (use odd_members_of in simp_all)

text \<open>\<open>xaset_copy\<close> returns a new set with the values of the given one, in the same order, and leaves that one alone.\<close>

theorem copy_values:
  assumes "members_of h (xas_list s) as" and "msize \<noteq> 0"
  shows "\<exists>s' h' ms. xaset_copy perm p (Some s) msize None h = Ok (None, Some s', h') \<and> members_of h' (xas_list s') ms \<and>
    map (member_val h') ms = map (member_val h) as \<and> xas_compare s' = xas_compare s \<and>
    (\<forall>x. map_of h x \<noteq> None \<longrightarrow> x \<notin> set ms \<and> map_of h' x = map_of h x)"
proof -
  let ?s = "xaset_create perm (if p \<noteq> None then p else xas_pool s) (xas_compare s)"
  have "members_of h (xas_list ?s) []" by (simp add: xaset_create_def)
  then obtain h' ms where w: "copy_walk (length h) None (xas_list s) (last_of (butlast [])) ?s h = Ok (Some (?s\<lparr>xas_list := first_of ([] @ ms)\<rparr>), h')"
      "members_of h' (first_of ([] @ ms)) ([] @ ms)" "map (member_val h') ms = map (member_val h) as" "grows (set []) h h'"
      "\<forall>x \<in> set ms. map_of h x = None"
    using copy_walk_ok [OF members_chain [OF assms(1)], of ?s "[]" "length h"] members_length [OF assms(1)] by auto
  have "xaset_copy perm p (Some s) msize None h = Ok (None, Some (?s\<lparr>xas_list := first_of ms\<rparr>), h')"
    using w(1) assms(2) by (simp add: xaset_copy_def)
  moreover have "xas_compare (?s\<lparr>xas_list := first_of ms\<rparr>) = xas_compare s" by (simp add: xaset_create_def)
  ultimately show ?thesis using w(2-5) unfolding grows_def
    by (intro exI [of _ "?s\<lparr>xas_list := first_of ms\<rparr>"] exI [of _ h'] exI [of _ ms]) auto
qed

lemma copy_values_witness:
  "\<exists>s' h' ms. xaset_copy None None (Some (int_set (Some 5))) 24 None odd_members = Ok (None, Some s', h') \<and> members_of h' (xas_list s') ms \<and>
    map (member_val h') ms = [1, 3]"
proof -
  have m: "members_of odd_members (xas_list (int_set (Some 5))) [5, 6]" using odd_members_of(1) by simp
  have z: "(24 :: nat) \<noteq> 0" by simp
  have v: "map (member_val odd_members) [5, 6] = [1, 3]" by (simp add: odd_vals)
  show ?thesis using copy_values [OF m z, of None None] unfolding v by (elim exE conjE) (intro exI conjI, assumption+)
qed

text \<open>\<open>xaset_subtract\<close> loses members: when the first member of the second set is smaller than the only member of the first, the
  result is empty, whether the second set contains that member or not.\<close>

theorem subtract_loses:
  assumes "xas_compare s1 = Some cmp" and "members_of h (xas_list s1) [a]" and "members_of h (xas_list s2) (b # bs)"
    and "0 < cmp (member_val h a) (member_val h b)" and "msize \<noteq> 0"
  shows "\<exists>s. xaset_subtract perm p (Some s1) (Some s2) msize None h = Ok (None, Some s, h) \<and> members_of h (xas_list s) []"
proof -
  let ?s = "xaset_create perm (result_pool p s1 s2) (Some cmp)"
  obtain x where x: "map_of h a = Some x" "mnext x = None" "xas_list s1 = Some a" using assms(2) by auto
  obtain y where y: "map_of h b = Some y" "xas_list s2 = Some b" using assms(3) by auto
  have c: "chain mnext h (Some b) (b # bs)" using members_chain [OF assms(3)] y(2) by simp
  then obtain q where q: "skip_smaller (length h) cmp (mval x) (Some b) h = Ok q"
    using skip_smaller_ends [OF c, of "length h" cmp "mval x"] chain_length [OF c] by auto
  obtain k where k: "length h = Suc k" using chain_length [OF c] by (cases "length h") auto
  have "cmp (mval x) (mval y) > 0" using assms(4) x(1) y(1) by (simp add: member_val_def)
  moreover have "skip_dupes (length h) cmp a h = Ok a" using x k by simp
  moreover have "subtract_walk j (Some cmp) None None q None ?s h = Ok (Some ?s, h)" for j by (cases j) simp_all
  ultimately have "subtract_walk (Suc k) (Some cmp) None (Some a) (Some b) None ?s h = Ok (Some ?s, h)"
    using x y q by (simp add: call_compare_def)
  then have "subtract_walk (length h) (Some cmp) None (Some a) (Some b) None ?s h = Ok (Some ?s, h)" by (simp only: k)
  then have "xaset_subtract perm p (Some s1) (Some s2) msize None h = Ok (None, Some ?s, h)"
    using assms(1,5) x(3) y(2) by (simp add: xaset_subtract_def)
  moreover have "members_of h (xas_list ?s) []" by (simp add: xaset_create_def)
  ultimately show ?thesis by blast
qed

lemma subtract_loses_witness:
  "\<exists>s. xaset_subtract None None (Some (int_set (Some 7))) (Some (int_set (Some 5))) 24 None odd_members = Ok (None, Some s, odd_members) \<and>
    members_of odd_members (xas_list s) []"
  by (rule subtract_loses [of _ "\<lambda>a b. a - b" _ 7 _ 5 "[6]"]) (use odd_members_of in \<open>simp_all add: odd_vals\<close>)

end
