(* ===== verification/Ftp_Timers.thy ===== *)
theory Ftp_Timers
  imports Ftp_Setops
begin

text \<open>
  The timers of proftpd (\<^verbatim>\<open>test_sources/proftpd-1.3.0a/src/src/timers.c\<close>), on three sets of \<^verbatim>\<open>sets.c\<close>: the active timers in
  the order of their remaining time, those to be started again and the free structs. The clock, the permanent
  pool and the callbacks of the modules are the environment: the \<open>n\<close>-th call of \<open>time\<close> returns \<open>clock n\<close>, and a
  callback is known by a number. \<open>alarm\<close> is recorded in \<open>alarm_set\<close>; \<open>sigaction\<close> is left out, and \<open>sig_alarm\<close> arrives
  between two calls, not inside one. Times are integers without a bound.

  \<open>handle_alarm\<close>, \<open>process_timers\<close> and \<open>pr_alarms_unblock\<close> call each other: the last two take the first as an argument,
  and \<open>handle_alarm\<close> takes fuel.
\<close>

section \<open>State\<close>

record timer =
  tcount :: int
  tinterval :: int
  ttimerno :: int
  tmodule :: int
  tcallback :: nat
  tremove :: byte

record 'w timer_state =
  tmem :: "timer members"
  timers :: "timer xaset option"
  recycled :: "timer xaset option"
  free_timers :: "timer xaset option"
  current_timeout :: int
  total_time :: int
  sleep_sem :: int
  alarms_blocked :: int
  alarm_pending :: int
  indispatch :: int
  dynamic_timerno :: int
  nalarms :: uint32
  alarmed_time :: int
  recvd_signal_flags :: uint32
  ticks :: nat
  alarm_set :: int
  world :: 'w

text \<open>The arguments of a callback: interval, number, elapsed time and module.\<close>

type_synonym timer_args = "int \<times> int \<times> int \<times> int"
type_synonym 'w timer_call = "(int \<times> errno option \<times> 'w timer_state) res"

record 'w timer_env =
  clock :: "nat \<Rightarrow> int"
  permanent_pool :: ptr
  run_cb :: "nat \<Rightarrow> timer_args \<Rightarrow> 'w timer_state \<Rightarrow> (int \<times> 'w timer_state) res"

definition timer_cmp :: "timer compare" where
  "timer_cmp t1 t2 = (if tcount t1 < tcount t2 then - 1 else if tcount t1 > tcount t2 then 1 else 0)"

definition ANY_MODULE :: int where "ANY_MODULE = 4294967295"

text \<open>\<open>sleep_cb\<close> is the callback of this file.\<close>

definition sleep_cb :: nat where "sleep_cb = 0"

definition run_callback :: "'w timer_env \<Rightarrow> nat \<Rightarrow> timer_args \<Rightarrow> 'w timer_state \<Rightarrow> (int \<times> 'w timer_state) res" where
  "run_callback e cb args st =
     (if cb = sleep_cb then Ok (0, st\<lparr>sleep_sem := sleep_sem st + 1\<rparr>) else run_cb e cb args st)"

section \<open>Moving timers\<close>

definition timer_at :: "nat \<Rightarrow> 'w timer_state \<Rightarrow> timer res" where
  "timer_at a st = bindR (deref (tmem st) (Some a)) (\<lambda>x. Ok (mval x))"

definition set_timer :: "nat \<Rightarrow> (timer \<Rightarrow> timer) \<Rightarrow> 'w timer_state \<Rightarrow> 'w timer_state res" where
  "set_timer a f st = bindR (assign (tmem st) (Some a) (\<lambda>x. x\<lparr>mval := f (mval x)\<rparr>)) (\<lambda>h. Ok (st\<lparr>tmem := h\<rparr>))"

definition timers_remove :: "nat \<Rightarrow> 'w timer_state \<Rightarrow> 'w timer_state res" where
  "timers_remove a st = bindR (xaset_remove (timers st) (Some a) (tmem st)) (\<lambda>(_, _, s, h). Ok (st\<lparr>timers := s, tmem := h\<rparr>))"

definition timers_insert_sort :: "nat \<Rightarrow> 'w timer_state \<Rightarrow> 'w timer_state res" where
  "timers_insert_sort a st =
     bindR (xaset_insert_sort (timers st) (Some a) True (tmem st)) (\<lambda>(_, _, s, h). Ok (st\<lparr>timers := s, tmem := h\<rparr>))"

definition recycled_insert :: "nat \<Rightarrow> 'w timer_state \<Rightarrow> 'w timer_state res" where
  "recycled_insert a st = bindR (xaset_insert (recycled st) (Some a) (tmem st)) (\<lambda>(_, _, s, h). Ok (st\<lparr>recycled := s, tmem := h\<rparr>))"

definition recycled_remove :: "nat \<Rightarrow> 'w timer_state \<Rightarrow> 'w timer_state res" where
  "recycled_remove a st = bindR (xaset_remove (recycled st) (Some a) (tmem st)) (\<lambda>(_, _, s, h). Ok (st\<lparr>recycled := s, tmem := h\<rparr>))"

definition free_insert :: "nat \<Rightarrow> 'w timer_state \<Rightarrow> 'w timer_state res" where
  "free_insert a st = bindR (xaset_insert (free_timers st) (Some a) (tmem st)) (\<lambda>(_, _, s, h). Ok (st\<lparr>free_timers := s, tmem := h\<rparr>))"

definition free_remove :: "nat \<Rightarrow> 'w timer_state \<Rightarrow> 'w timer_state res" where
  "free_remove a st = bindR (xaset_remove (free_timers st) (Some a) (tmem st)) (\<lambda>(_, _, s, h). Ok (st\<lparr>free_timers := s, tmem := h\<rparr>))"

text \<open>\<open>s->xas_list\<close>\<close>

definition list_of :: "timer xaset option \<Rightarrow> ptr res" where
  "list_of s = (case s of None \<Rightarrow> Fault Null_pointer | Some s \<Rightarrow> Ok (xas_list s))"

definition ensure_recycled :: "'w timer_env \<Rightarrow> 'w timer_state \<Rightarrow> 'w timer_state" where
  "ensure_recycled e st = (if recycled st = None then st\<lparr>recycled := Some (xaset_create (permanent_pool e) None None)\<rparr> else st)"

definition first_count :: "'w timer_state \<Rightarrow> int res" where
  "first_count st =
     bindR (list_of (timers st)) (\<lambda>p.
     case p of None \<Rightarrow> Ok 0 | Some a \<Rightarrow> bindR (timer_at a st) (\<lambda>t. Ok (tcount t)))"

section \<open>Processing timers\<close>

definition pr_alarms_block :: "'w timer_state \<Rightarrow> 'w timer_state" where
  "pr_alarms_block st = st\<lparr>alarms_blocked := alarms_blocked st + 1\<rparr>"

definition pr_alarms_unblock :: "('w timer_state \<Rightarrow> 'w timer_state res) \<Rightarrow> 'w timer_state \<Rightarrow> 'w timer_state res" where
  "pr_alarms_unblock handle st =
     (let st = st\<lparr>alarms_blocked := alarms_blocked st - 1\<rparr> in
      if alarms_blocked st = 0 \<and> alarm_pending st \<noteq> 0 then handle (st\<lparr>alarm_pending := 0, nalarms := nalarms st + 1\<rparr>) else Ok st)"

text \<open>The loop over the active timers; the successor is read before the callback.\<close>

primrec expire_loop :: "nat \<Rightarrow> 'w timer_env \<Rightarrow> int \<Rightarrow> ptr \<Rightarrow> 'w timer_state \<Rightarrow> 'w timer_state res" where
  "expire_loop 0 e elapsed p st = (if p = None then Ok st else Timeout)"
| "expire_loop (Suc k) e elapsed p st =
     (case p of
        None \<Rightarrow> Ok st
      | Some a \<Rightarrow>
          bindR (deref (tmem st) (Some a)) (\<lambda>x.
          let nxt = mnext x; t = mval x in
          if tremove t \<noteq> 0 then
            bindR (timers_remove a st) (\<lambda>st.
            bindR (free_insert a st) (expire_loop k e elapsed nxt))
          else
            bindR (set_timer a (\<lambda>t. t\<lparr>tcount := tcount t - elapsed\<rparr>) st) (\<lambda>st.
            if tcount t - elapsed \<le> 0 then
              bindR (run_callback e (tcallback t) (tinterval t, ttimerno t, tinterval t - (tcount t - elapsed), tmodule t) st) (\<lambda>(r, st).
              if r = 0 then
                bindR (timers_remove a st) (\<lambda>st.
                bindR (free_insert a st) (expire_loop k e elapsed nxt))
              else
                bindR (timers_remove a st) (\<lambda>st.
                bindR (set_timer a (\<lambda>t. t\<lparr>tcount := tinterval t\<rparr>) st) (\<lambda>st.
                bindR (recycled_insert a st) (expire_loop k e elapsed nxt))))
            else expire_loop k e elapsed nxt st)))"

primrec requeue_loop :: "nat \<Rightarrow> 'w timer_state \<Rightarrow> 'w timer_state res" where
  "requeue_loop 0 st = bindR (list_of (recycled st)) (\<lambda>p. if p = None then Ok st else Timeout)"
| "requeue_loop (Suc k) st =
     bindR (list_of (recycled st)) (\<lambda>p.
     case p of
       None \<Rightarrow> Ok st
     | Some a \<Rightarrow> bindR (recycled_remove a st) (\<lambda>st. bindR (timers_insert_sort a st) (requeue_loop k)))"

definition process_timers :: "('w timer_state \<Rightarrow> 'w timer_state res) \<Rightarrow> 'w timer_env \<Rightarrow> int \<Rightarrow> 'w timer_state \<Rightarrow> (int \<times> 'w timer_state) res" where
  "process_timers handle e elapsed st =
     (let st = ensure_recycled e st in
      bindR (list_of (recycled st)) (\<lambda>r.
      if elapsed = 0 \<and> r = None then bindR (first_count st) (\<lambda>c. Ok (c, st))
      else if indispatch st \<noteq> 0 then Ok (0, st)
      else
        let st = (pr_alarms_block st)\<lparr>indispatch := indispatch st + 1\<rparr> in
        bindR (if elapsed \<noteq> 0 then bindR (list_of (timers st)) (\<lambda>p. expire_loop (length (tmem st)) e elapsed p st) else Ok st) (\<lambda>st.
        bindR (requeue_loop (length (tmem st)) st) (\<lambda>st.
        bindR (pr_alarms_unblock handle (st\<lparr>indispatch := indispatch st - 1\<rparr>)) (\<lambda>st.
        bindR (first_count st) (\<lambda>c. Ok (c, st)))))))"

text \<open>\<open>time(NULL)\<close>\<close>

definition get_time :: "'w timer_env \<Rightarrow> 'w timer_state \<Rightarrow> int \<times> 'w timer_state" where
  "get_time e st = (clock e (ticks st), st\<lparr>ticks := ticks st + 1\<rparr>)"

primrec handle_alarm :: "nat \<Rightarrow> 'w timer_env \<Rightarrow> 'w timer_state \<Rightarrow> 'w timer_state res" where
  "handle_alarm 0 e st = (if nalarms st = 0 then Ok st else Timeout)"
| "handle_alarm (Suc k) e st =
     (if nalarms st = 0 then Ok st
      else
        let st = st\<lparr>nalarms := 0\<rparr> in
        if alarms_blocked st = 0 then
          let st = st\<lparr>alarm_set := 0\<rparr>;
            (alarm_elapsed, st) = (if alarmed_time st \<noteq> 0 then (let (now, st) = get_time e st in (now - alarmed_time st, st)) else (0, st)) in
          bindR (process_timers (handle_alarm k e) e (total_time st + alarm_elapsed) (st\<lparr>total_time := 0\<rparr>)) (\<lambda>(new_timeout, st).
          let (now, st) = get_time e st in
          handle_alarm k e (st\<lparr>alarmed_time := now, current_timeout := new_timeout, alarm_set := new_timeout\<rparr>))
        else handle_alarm k e (st\<lparr>alarm_pending := alarm_pending st + 1\<rparr>))"

definition sig_alarm :: "'w timer_env \<Rightarrow> 'w timer_state \<Rightarrow> 'w timer_state" where
  "sig_alarm e st =
     (let st = st\<lparr>recvd_signal_flags := recvd_signal_flags st OR 1024, nalarms := nalarms st + 1, total_time := total_time st + current_timeout st\<rparr> in
      if current_timeout st \<noteq> 0
        then let (now, st) = get_time e st in st\<lparr>alarmed_time := now, alarm_set := current_timeout st\<rparr>
        else st)"

section \<open>The interface\<close>

primrec find_timer :: "nat \<Rightarrow> (timer \<Rightarrow> bool) \<Rightarrow> ptr \<Rightarrow> timer members \<Rightarrow> ptr res" where
  "find_timer 0 P p h = (if p = None then Ok None else Timeout)"
| "find_timer (Suc k) P p h =
     (if p = None then Ok None else bindR (deref h p) (\<lambda>x. if P (mval x) then Ok p else find_timer k P (mnext x) h))"

definition is_timer :: "int \<Rightarrow> int \<Rightarrow> timer \<Rightarrow> bool" where
  "is_timer no m t \<longleftrightarrow> ttimerno t = no \<and> (tmodule t = m \<or> m = ANY_MODULE)"

definition pr_timer_reset :: "nat \<Rightarrow> 'w timer_env \<Rightarrow> int \<Rightarrow> int \<Rightarrow> 'w timer_state \<Rightarrow> 'w timer_call" where
  "pr_timer_reset k e no m st =
     (if indispatch st \<noteq> 0 then Ok (- 1, None, st)
      else
        let st = ensure_recycled e (pr_alarms_block st) in
        bindR (list_of (timers st)) (\<lambda>p.
        bindR (find_timer (length (tmem st)) (is_timer no m) p (tmem st)) (\<lambda>t.
        bindR (case t of
            None \<Rightarrow> Ok st
          | Some a \<Rightarrow>
              bindR (set_timer a (\<lambda>t. t\<lparr>tcount := tinterval t\<rparr>) st) (\<lambda>st.
              bindR (timers_remove a st) (\<lambda>st.
              bindR (recycled_insert a st) (\<lambda>st.
                handle_alarm k e (st\<lparr>nalarms := nalarms st + 1\<rparr>))))) (\<lambda>st.
        bindR (pr_alarms_unblock (handle_alarm k e) st) (\<lambda>st.
        case t of None \<Rightarrow> Ok (0, None, st) | Some a \<Rightarrow> bindR (timer_at a st) (\<lambda>t. Ok (ttimerno t, None, st)))))))"

definition pr_timer_remove :: "nat \<Rightarrow> 'w timer_env \<Rightarrow> int \<Rightarrow> int \<Rightarrow> 'w timer_state \<Rightarrow> 'w timer_call" where
  "pr_timer_remove k e no m st =
     (case timers st of
        None \<Rightarrow> Ok (0, None, st)
      | Some s \<Rightarrow>
          let st = pr_alarms_block st in
          bindR (find_timer (length (tmem st)) (is_timer no m) (xas_list s) (tmem st)) (\<lambda>t.
          bindR (case t of
              None \<Rightarrow> Ok st
            | Some a \<Rightarrow>
                if indispatch st \<noteq> 0 then set_timer a (\<lambda>t. t\<lparr>tremove := tremove t + 1\<rparr>) st
                else
                  bindR (timers_remove a st) (\<lambda>st.
                  bindR (free_insert a st) (\<lambda>st.
                    handle_alarm k e (st\<lparr>nalarms := nalarms st + 1\<rparr>)))) (\<lambda>st.
          bindR (pr_alarms_unblock (handle_alarm k e) st) (\<lambda>st.
          case t of None \<Rightarrow> Ok (0, None, st) | Some a \<Rightarrow> bindR (timer_at a st) (\<lambda>t. Ok (ttimerno t, None, st))))))"

text \<open>A struct for a new timer: a free one, or new memory that holds \<open>junk\<close>.\<close>

definition take_timer :: "timer member \<Rightarrow> 'w timer_state \<Rightarrow> (nat \<times> 'w timer_state) res" where
  "take_timer junk st =
     bindR (list_of (free_timers st)) (\<lambda>p.
     case p of
       Some a \<Rightarrow> bindR (free_remove a st) (\<lambda>st. Ok (a, st))
     | None \<Rightarrow> let a = fresh (tmem st) in Ok (a, st\<lparr>tmem := AList.update a junk (tmem st)\<rparr>))"

text \<open>The number of a new timer.\<close>

definition new_timerno :: "int \<Rightarrow> 'w timer_state \<Rightarrow> (int \<times> 'w timer_state) res" where
  "new_timerno no st =
     (if no \<noteq> - 1 then Ok (no, st)
      else
        let n = (if dynamic_timerno st < 1024 then 1024 else dynamic_timerno st) in
        if n = 2 ^ 31 - 1 then Fault Int_overflow else Ok (n, st\<lparr>dynamic_timerno := n + 1\<rparr>))"

definition pr_timer_add :: "nat \<Rightarrow> 'w timer_env \<Rightarrow> timer member \<Rightarrow> int \<Rightarrow> int \<Rightarrow> int \<Rightarrow> nat \<Rightarrow> 'w timer_state \<Rightarrow> 'w timer_call" where
  "pr_timer_add k e junk seconds no m cb st =
     (if seconds < 0 then Ok (- 1, Some EINVAL, st)
      else
        let st = (if timers st = None then st\<lparr>timers := Some (xaset_create (permanent_pool e) None (Some timer_cmp))\<rparr> else st) in
        bindR (if no \<noteq> - 1
            then bindR (list_of (timers st)) (\<lambda>p. find_timer (length (tmem st)) (\<lambda>t. ttimerno t = no) p (tmem st))
            else Ok None) (\<lambda>used.
        if used \<noteq> None then Ok (- 1, Some EPERM, st)
        else
          let st = (if free_timers st = None then st\<lparr>free_timers := Some (xaset_create (permanent_pool e) None None)\<rparr> else st) in
          bindR (take_timer junk (pr_alarms_block st)) (\<lambda>(a, st).
          bindR (new_timerno no st) (\<lambda>(no, st).
          bindR (set_timer a (\<lambda>t. \<lparr>tcount = seconds, tinterval = seconds, ttimerno = no, tmodule = m, tcallback = cb, tremove = 0\<rparr>) st) (\<lambda>st.
          bindR (if indispatch st \<noteq> 0 then recycled_insert a (ensure_recycled e st)
              else bindR (timers_insert_sort a st) (\<lambda>st. handle_alarm k e (st\<lparr>nalarms := nalarms st + 1\<rparr>))) (\<lambda>st.
          bindR (pr_alarms_unblock (handle_alarm k e) st) (\<lambda>st.
            Ok (no, None, st))))))))"

text \<open>The loop of \<open>pr_timer_sleep\<close>: what arrives while the process is suspended is a parameter, one element for every return
  of \<open>sigsuspend\<close>; the loop waits forever when the list ends.\<close>

primrec sleep_loop :: "nat \<Rightarrow> 'w timer_env \<Rightarrow> ('w timer_state \<Rightarrow> 'w timer_state) list \<Rightarrow> 'w timer_state \<Rightarrow> 'w timer_state res" where
  "sleep_loop k e [] st = (if sleep_sem st \<noteq> 0 then Ok st else Timeout)"
| "sleep_loop k e (sig # sigs) st = (if sleep_sem st \<noteq> 0 then Ok st else bindR (handle_alarm k e (sig st)) (sleep_loop k e sigs))"

definition pr_timer_sleep :: "nat \<Rightarrow> 'w timer_env \<Rightarrow> timer member \<Rightarrow> ('w timer_state \<Rightarrow> 'w timer_state) list \<Rightarrow> int \<Rightarrow> 'w timer_state \<Rightarrow> 'w timer_call" where
  "pr_timer_sleep k e junk sigs seconds st =
     (let st = st\<lparr>sleep_sem := 0\<rparr> in
      if alarms_blocked st \<noteq> 0 \<or> indispatch st \<noteq> 0 then Ok (- 1, Some EPERM, st)
      else
        bindR (pr_timer_add k e junk seconds (- 1) 0 sleep_cb st) (\<lambda>(no, err, st).
        if no = - 1 then Ok (- 1, err, st)
        else bindR (sleep_loop k e sigs st) (\<lambda>st. Ok (0, None, st))))"

definition timers_init :: "'w timer_state \<Rightarrow> 'w timer_state" where
  "timers_init st =
     st\<lparr>current_timeout := 0, total_time := 0, nalarms := 0, alarmed_time := 0, timers := None, recycled := None, free_timers := None\<rparr>"

interpretation to: member_order timer_cmp
  by unfold_locales (auto simp: timer_cmp_def split: if_splits)

end
