(* ===== verification/Ftp_Expiry.thy ===== *)
theory Ftp_Expiry
  imports Ftp_Timers "HOL-Library.Multiset"
begin

text \<open>
  What the timers of proftpd do: a round of \<open>process_timers\<close> calls exactly the callbacks that are due and leaves the other
  timers with their remaining time, in order. The properties at the end include that a new timer is charged
  with the time that passed before it was added.
\<close>

section \<open>The three lists\<close>

definition tval :: "'w timer_state \<Rightarrow> nat \<Rightarrow> timer" where
  "tval st a = member_val (tmem st) a"

definition tlists :: "'w timer_state \<Rightarrow> nat list \<Rightarrow> nat list \<Rightarrow> nat list \<Rightarrow> bool" where
  "tlists st ts rs fs \<longleftrightarrow> (\<exists>s1 s2 s3. timers st = Some s1 \<and> xas_compare s1 = Some timer_cmp \<and> recycled st = Some s2 \<and> free_timers st = Some s3 \<and>
     members_of (tmem st) (xas_list s1) ts \<and> members_of (tmem st) (xas_list s2) rs \<and> members_of (tmem st) (xas_list s3) fs \<and>
     distinct (ts @ rs @ fs))"

text \<open>Only the lists change.\<close>

definition moved :: "'w timer_state \<Rightarrow> 'w timer_state \<Rightarrow> bool" where
  "moved st st' \<longleftrightarrow> (\<exists>h s1 s2 s3. st' = st\<lparr>tmem := h, timers := s1, recycled := s2, free_timers := s3\<rparr>)"

lemma relinks_vals: "relinks A h h' \<Longrightarrow> member_val h' = member_val h"
proof
  fix x assume "relinks A h h'"
  then have "map_option mval (map_of h' x) = map_option mval (map_of h x)" by (simp add: relinks_def)
  then show "member_val h' x = member_val h x" by (cases "map_of h x"; cases "map_of h' x") (simp_all add: member_val_def)
qed

lemma movedI: "moved st (st\<lparr>tmem := h\<rparr>)" "moved st (st\<lparr>timers := s, tmem := h\<rparr>)" "moved st (st\<lparr>recycled := s, tmem := h\<rparr>)" "moved st (st\<lparr>free_timers := s, tmem := h\<rparr>)"
  unfolding moved_def
  by (rule exI [of _ h], rule exI [of _ "timers st"], rule exI [of _ "recycled st"], rule exI [of _ "free_timers st"], cases st, simp)
    (rule exI [of _ h], rule exI [of _ s], rule exI [of _ "recycled st"], rule exI [of _ "free_timers st"], cases st, simp,
     rule exI [of _ h], rule exI [of _ "timers st"], rule exI [of _ s], rule exI [of _ "free_timers st"], cases st, simp,
     rule exI [of _ h], rule exI [of _ "timers st"], rule exI [of _ "recycled st"], rule exI [of _ s], cases st, simp)

lemma moved_refl: "moved st st"
  using movedI(1) [of st "tmem st"] by (cases st) simp

lemma moved_trans: "moved st st1 \<Longrightarrow> moved st1 st2 \<Longrightarrow> moved st st2"
  unfolding moved_def by (elim exE) (simp, metis)

lemma tlists_node: "tlists st ts rs fs \<Longrightarrow> a \<in> set (ts @ rs @ fs) \<Longrightarrow> \<exists>n. map_of (tmem st) a = Some n \<and> mval n = tval st a"
proof -
  assume t: "tlists st ts rs fs" "a \<in> set (ts @ rs @ fs)"
  then have "map_of (tmem st) a \<noteq> None" unfolding tlists_def set_append using members_dom by blast
  then show ?thesis by (auto simp: tval_def member_val_def)
qed

text \<open>A member leaves one of three lists, or joins one; the two others stay as they are.\<close>

lemma drop_member:
  assumes "members_of h (xas_list s) (us @ a # vs)" and "members_of h q bs" and "members_of h r cs" and "distinct ((us @ a # vs) @ bs @ cs)"
  shows "\<exists>h' n. xaset_remove (Some s) (Some a) h = Ok (1, None, Some (s\<lparr>xas_list := first_of (us @ vs)\<rparr>), h') \<and> members_of h' (first_of (us @ vs)) (us @ vs) \<and>
    members_of h' q bs \<and> members_of h' r cs \<and> member_val h' = member_val h \<and> map_of h' a = Some n \<and> mprev n = None \<and> mnext n = None"
proof -
  obtain n where n: "map_of h a = Some n" using members_node [OF assms(1)] by auto
  obtain h' where h: "remove_member s a h = Ok (1, None, s\<lparr>xas_list := first_of (us @ vs)\<rparr>, h')" "members_of h' (first_of (us @ vs)) (us @ vs)"
      "map_of h' a = Some (n\<lparr>mprev := None, mnext := None\<rparr>)" "relinks (set (us @ a # vs)) h h'"
    using remove_member_ok [OF assms(1) n] by blast
  have d: "set bs \<inter> set (us @ a # vs) = {}" "set cs \<inter> set (us @ a # vs) = {}" using assms(4) by auto
  show ?thesis using h(1-3) relinks_vals [OF h(4)] relinks_others [OF h(4) d(1) assms(2)] relinks_others [OF h(4) d(2) assms(3)]
    by (intro exI [of _ h'] exI [of _ "n\<lparr>mprev := None, mnext := None\<rparr>"]) (simp add: xaset_remove_def on_member_def)
qed

lemmas drop_first = drop_member [where us = "[]", unfolded append_Nil]

lemma put_member:
  assumes "members_of h (xas_list s) as" and "members_of h q bs" and "members_of h r cs" and "distinct ((a # as) @ bs @ cs)"
    and "map_of h a = Some n" and "mprev n = None"
  shows "\<exists>h'. xaset_insert (Some s) (Some a) h = Ok (1, None, Some (s\<lparr>xas_list := Some a\<rparr>), h') \<and> members_of h' (Some a) (a # as) \<and>
    members_of h' q bs \<and> members_of h' r cs \<and> member_val h' = member_val h"
proof -
  obtain h' where h: "insert_member s a h = Ok (1, None, s\<lparr>xas_list := Some a\<rparr>, h')" "members_of h' (Some a) (a # as)" "relinks (set (a # as)) h h'"
    using insert_member_ok [OF assms(1) _ assms(5,6)] assms(4) by auto
  have d: "set bs \<inter> set (a # as) = {}" "set cs \<inter> set (a # as) = {}" using assms(4) by auto
  show ?thesis using h(1,2) relinks_vals [OF h(3)] relinks_others [OF h(3) d(1) assms(2)] relinks_others [OF h(3) d(2) assms(3)]
    by (intro exI [of _ h']) (simp add: xaset_insert_def on_member_def)
qed

lemma tlistsE:
  assumes "tlists st ts rs fs"
  obtains s1 s2 s3 where "timers st = Some s1" "xas_compare s1 = Some timer_cmp" "recycled st = Some s2" "free_timers st = Some s3"
    "members_of (tmem st) (xas_list s1) ts" "members_of (tmem st) (xas_list s2) rs" "members_of (tmem st) (xas_list s3) fs" "distinct (ts @ rs @ fs)"
  using assms unfolding tlists_def by blast

lemma timers_remove_ok:
  assumes "tlists st (us @ a # vs) rs fs"
  shows "\<exists>st' n. timers_remove a st = Ok st' \<and> tlists st' (us @ vs) rs fs \<and> moved st st' \<and> tval st' = tval st \<and>
    map_of (tmem st') a = Some n \<and> mprev n = None \<and> mnext n = None"
proof -
  obtain s1 s2 s3 where s: "timers st = Some s1" "xas_compare s1 = Some timer_cmp" "recycled st = Some s2" "free_timers st = Some s3"
      "members_of (tmem st) (xas_list s1) (us @ a # vs)" "members_of (tmem st) (xas_list s2) rs" "members_of (tmem st) (xas_list s3) fs"
      "distinct ((us @ a # vs) @ rs @ fs)"
    using assms by (rule tlistsE)
  obtain h n where h: "xaset_remove (Some s1) (Some a) (tmem st) = Ok (1, None, Some (s1\<lparr>xas_list := first_of (us @ vs)\<rparr>), h)"
      "members_of h (first_of (us @ vs)) (us @ vs)" "members_of h (xas_list s2) rs" "members_of h (xas_list s3) fs" "member_val h = member_val (tmem st)"
      "map_of h a = Some n" "mprev n = None" "mnext n = None"
    using drop_member [OF s(5-8)] by blast
  let ?st = "st\<lparr>timers := Some (s1\<lparr>xas_list := first_of (us @ vs)\<rparr>), tmem := h\<rparr>"
  have "timers_remove a st = Ok ?st" using h(1) s(1) by (simp add: timers_remove_def)
  moreover have "tlists ?st (us @ vs) rs fs" using h(2-4) s(2-4,8) by (auto simp: tlists_def)
  ultimately show ?thesis using h(5-8) movedI(2) by (intro exI [of _ ?st] exI [of _ n]) (simp add: tval_def fun_eq_iff)
qed

lemma recycled_remove_ok:
  assumes "tlists st ts (a # rs) fs"
  shows "\<exists>st' n. recycled_remove a st = Ok st' \<and> tlists st' ts rs fs \<and> moved st st' \<and> tval st' = tval st \<and> map_of (tmem st') a = Some n"
proof -
  obtain s1 s2 s3 where s: "timers st = Some s1" "xas_compare s1 = Some timer_cmp" "recycled st = Some s2" "free_timers st = Some s3"
      "members_of (tmem st) (xas_list s1) ts" "members_of (tmem st) (xas_list s2) (a # rs)" "members_of (tmem st) (xas_list s3) fs"
      "distinct (ts @ (a # rs) @ fs)"
    using assms by (rule tlistsE)
  have "distinct ((a # rs) @ ts @ fs)" using s(8) by auto
  from drop_first [OF s(6,5,7) this]
  obtain h n where h: "xaset_remove (Some s2) (Some a) (tmem st) = Ok (1, None, Some (s2\<lparr>xas_list := first_of rs\<rparr>), h)"
      "members_of h (first_of rs) rs" "members_of h (xas_list s1) ts" "members_of h (xas_list s3) fs" "member_val h = member_val (tmem st)" "map_of h a = Some n"
    by blast
  let ?st = "st\<lparr>recycled := Some (s2\<lparr>xas_list := first_of rs\<rparr>), tmem := h\<rparr>"
  have "recycled_remove a st = Ok ?st" using h(1) s(3) by (simp add: recycled_remove_def)
  moreover have "tlists ?st ts rs fs" using h(2-4) s(1,2,4,8) by (auto simp: tlists_def)
  ultimately show ?thesis using h(5,6) movedI(3) by (intro exI [of _ ?st] exI [of _ n]) (simp add: tval_def fun_eq_iff)
qed

lemma free_remove_ok:
  assumes "tlists st ts rs (a # fs)"
  shows "\<exists>st' n. free_remove a st = Ok st' \<and> tlists st' ts rs fs \<and> moved st st' \<and> tval st' = tval st \<and> map_of (tmem st') a = Some n"
proof -
  obtain s1 s2 s3 where s: "timers st = Some s1" "xas_compare s1 = Some timer_cmp" "recycled st = Some s2" "free_timers st = Some s3"
      "members_of (tmem st) (xas_list s1) ts" "members_of (tmem st) (xas_list s2) rs" "members_of (tmem st) (xas_list s3) (a # fs)"
      "distinct (ts @ rs @ a # fs)"
    using assms by (rule tlistsE)
  have "distinct ((a # fs) @ ts @ rs)" using s(8) by auto
  from drop_first [OF s(7,5,6) this]
  obtain h n where h: "xaset_remove (Some s3) (Some a) (tmem st) = Ok (1, None, Some (s3\<lparr>xas_list := first_of fs\<rparr>), h)"
      "members_of h (first_of fs) fs" "members_of h (xas_list s1) ts" "members_of h (xas_list s2) rs" "member_val h = member_val (tmem st)" "map_of h a = Some n"
    by blast
  let ?st = "st\<lparr>free_timers := Some (s3\<lparr>xas_list := first_of fs\<rparr>), tmem := h\<rparr>"
  have "free_remove a st = Ok ?st" using h(1) s(4) by (simp add: free_remove_def)
  moreover have "tlists ?st ts rs fs" using h(2-4) s(1-3,8) by (auto simp: tlists_def)
  ultimately show ?thesis using h(5,6) movedI(4) by (intro exI [of _ ?st] exI [of _ n]) (simp add: tval_def fun_eq_iff)
qed

lemma free_insert_ok:
  assumes "tlists st ts rs fs" and "a \<notin> set (ts @ rs @ fs)" and "map_of (tmem st) a = Some n" and "mprev n = None"
  shows "\<exists>st'. free_insert a st = Ok st' \<and> tlists st' ts rs (a # fs) \<and> moved st st' \<and> tval st' = tval st"
proof -
  obtain s1 s2 s3 where s: "timers st = Some s1" "xas_compare s1 = Some timer_cmp" "recycled st = Some s2" "free_timers st = Some s3"
      "members_of (tmem st) (xas_list s1) ts" "members_of (tmem st) (xas_list s2) rs" "members_of (tmem st) (xas_list s3) fs" "distinct (ts @ rs @ fs)"
    using assms(1) by (rule tlistsE)
  have "distinct ((a # fs) @ ts @ rs)" using s(8) assms(2) by auto
  from put_member [OF s(7,5,6) this assms(3,4)]
  obtain h where h: "xaset_insert (Some s3) (Some a) (tmem st) = Ok (1, None, Some (s3\<lparr>xas_list := Some a\<rparr>), h)" "members_of h (Some a) (a # fs)"
      "members_of h (xas_list s1) ts" "members_of h (xas_list s2) rs" "member_val h = member_val (tmem st)"
    by blast
  let ?st = "st\<lparr>free_timers := Some (s3\<lparr>xas_list := Some a\<rparr>), tmem := h\<rparr>"
  have "free_insert a st = Ok ?st" using h(1) s(4) by (simp add: free_insert_def)
  moreover have "tlists ?st ts rs (a # fs)" using h(2-4) s assms(2) by (auto simp: tlists_def)
  ultimately show ?thesis using h(5) movedI(4) by (intro exI [of _ ?st]) (simp add: tval_def fun_eq_iff)
qed

lemma recycled_insert_ok:
  assumes "tlists st ts rs fs" and "a \<notin> set (ts @ rs @ fs)" and "map_of (tmem st) a = Some n" and "mprev n = None"
  shows "\<exists>st'. recycled_insert a st = Ok st' \<and> tlists st' ts (a # rs) fs \<and> moved st st' \<and> tval st' = tval st"
proof -
  obtain s1 s2 s3 where s: "timers st = Some s1" "xas_compare s1 = Some timer_cmp" "recycled st = Some s2" "free_timers st = Some s3"
      "members_of (tmem st) (xas_list s1) ts" "members_of (tmem st) (xas_list s2) rs" "members_of (tmem st) (xas_list s3) fs" "distinct (ts @ rs @ fs)"
    using assms(1) by (rule tlistsE)
  have "distinct ((a # rs) @ ts @ fs)" using s(8) assms(2) by auto
  from put_member [OF s(6,5,7) this assms(3,4)]
  obtain h where h: "xaset_insert (Some s2) (Some a) (tmem st) = Ok (1, None, Some (s2\<lparr>xas_list := Some a\<rparr>), h)" "members_of h (Some a) (a # rs)"
      "members_of h (xas_list s1) ts" "members_of h (xas_list s3) fs" "member_val h = member_val (tmem st)"
    by blast
  let ?st = "st\<lparr>recycled := Some (s2\<lparr>xas_list := Some a\<rparr>), tmem := h\<rparr>"
  have "recycled_insert a st = Ok ?st" using h(1) s(3) by (simp add: recycled_insert_def)
  moreover have "tlists ?st ts (a # rs) fs" using h(2-4) s assms(2) by (auto simp: tlists_def)
  ultimately show ?thesis using h(5) movedI(3) by (intro exI [of _ ?st]) (simp add: tval_def fun_eq_iff)
qed

text \<open>The data of a timer changes.\<close>

lemma set_timer_ok:
  assumes "map_of (tmem st) a = Some n"
  shows "\<exists>st'. set_timer a f st = Ok st' \<and> moved st st' \<and> tval st' = (tval st)(a := f (tval st a)) \<and>
    map_of (tmem st') a = Some (n\<lparr>mval := f (mval n)\<rparr>) \<and> (\<forall>ts rs fs. tlists st ts rs fs \<longrightarrow> tlists st' ts rs fs)"
proof -
  let ?h = "AList.update a (n\<lparr>mval := f (mval n)\<rparr>) (tmem st)"
  let ?st = "st\<lparr>tmem := ?h\<rparr>"
  have "set_timer a f st = Ok ?st" using assms by (simp add: set_timer_def)
  moreover have "tval ?st = (tval st)(a := f (tval st a))" using assms by (auto simp: tval_def member_val_def update_conv' fun_eq_iff)
  moreover have l: "map_option (\<lambda>n. (mprev n, mnext n)) (map_of ?h x) = map_option (\<lambda>n. (mprev n, mnext n)) (map_of (tmem st) x)" for x
    using assms by (simp add: update_conv')
  have "dsegment mnext mprev ?h None p as l None = dsegment mnext mprev (tmem st) None p as l None" for p as l
    by (rule dsegment_links) (rule l)
  then have "\<forall>ts rs fs. tlists st ts rs fs \<longrightarrow> tlists ?st ts rs fs" by (simp add: tlists_def)
  ultimately show ?thesis using movedI(1) by (intro exI [of _ ?st]) (simp add: update_conv')
qed

text \<open>An active timer is freed, or set back to its interval to be started again.\<close>

lemma to_free:
  assumes "tlists st (us @ a # vs) rs fs"
  shows "\<exists>st'. bindR (timers_remove a st) (free_insert a) = Ok st' \<and> tlists st' (us @ vs) rs (a # fs) \<and> moved st st' \<and> tval st' = tval st"
proof -
  obtain st1 n where r: "timers_remove a st = Ok st1" "tlists st1 (us @ vs) rs fs" "moved st st1" "tval st1 = tval st" "map_of (tmem st1) a = Some n" "mprev n = None"
    using timers_remove_ok [OF assms] by blast
  have "a \<notin> set ((us @ vs) @ rs @ fs)" using assms by (auto simp: tlists_def)
  then obtain st' where "free_insert a st1 = Ok st'" "tlists st' (us @ vs) rs (a # fs)" "moved st1 st'" "tval st' = tval st1"
    using free_insert_ok [OF r(2) _ r(5,6)] by blast
  then show ?thesis using r moved_trans [OF r(3)] by (intro exI [of _ st']) simp
qed

lemma to_recycled:
  assumes "tlists st (us @ a # vs) rs fs"
  shows "\<exists>st'. bindR (timers_remove a st) (\<lambda>st. bindR (set_timer a (\<lambda>t. t\<lparr>tcount := tinterval t\<rparr>) st) (recycled_insert a)) = Ok st' \<and>
    tlists st' (us @ vs) (a # rs) fs \<and> moved st st' \<and> tval st' = (tval st)(a := (tval st a)\<lparr>tcount := tinterval (tval st a)\<rparr>)"
proof -
  obtain st1 n where r: "timers_remove a st = Ok st1" "tlists st1 (us @ vs) rs fs" "moved st st1" "tval st1 = tval st" "map_of (tmem st1) a = Some n" "mprev n = None"
    using timers_remove_ok [OF assms] by blast
  let ?f = "\<lambda>t :: timer. t\<lparr>tcount := tinterval t\<rparr>"
  obtain st2 where s: "set_timer a ?f st1 = Ok st2" "moved st1 st2" "tval st2 = (tval st1)(a := ?f (tval st1 a))"
      "map_of (tmem st2) a = Some (n\<lparr>mval := ?f (mval n)\<rparr>)" "tlists st2 (us @ vs) rs fs"
    using set_timer_ok [OF r(5), of ?f] r(2) by blast
  have "a \<notin> set ((us @ vs) @ rs @ fs)" using assms by (auto simp: tlists_def)
  then obtain st' where "recycled_insert a st2 = Ok st'" "tlists st' (us @ vs) (a # rs) fs" "moved st2 st'" "tval st' = tval st2"
    using recycled_insert_ok [OF s(5) _ s(4)] r(6) by auto
  then show ?thesis using r s moved_trans [OF moved_trans [OF r(3) s(2)]] by (intro exI [of _ st']) simp
qed

text \<open>The timers to be started again go back to their places.\<close>

abbreviation by_count :: "timer list \<Rightarrow> bool" where
  "by_count ts \<equiv> sorted (map tcount ts)"

lemma timer_cmp_le: "timer_cmp a b \<le> 0 \<longleftrightarrow> tcount a \<le> tcount b"
  by (simp add: timer_cmp_def)

lemma by_count_cmp: "sorted_wrt (\<lambda>a b. timer_cmp a b \<le> 0) ts \<longleftrightarrow> by_count ts"
  by (simp add: timer_cmp_le sorted_map)

lemma timers_insert_sort_ok:
  assumes "tlists st ts rs fs" and "a \<notin> set (ts @ rs @ fs)" and "map_of (tmem st) a = Some n" and "by_count (map (tval st) ts)"
  shows "\<exists>st' us vs. timers_insert_sort a st = Ok st' \<and> ts = us @ vs \<and> tlists st' (us @ a # vs) rs fs \<and> moved st st' \<and> tval st' = tval st \<and>
    by_count (map (tval st) (us @ a # vs))"
proof -
  obtain s1 s2 s3 where s: "timers st = Some s1" "xas_compare s1 = Some timer_cmp" "recycled st = Some s2" "free_timers st = Some s3"
      "members_of (tmem st) (xas_list s1) ts" "members_of (tmem st) (xas_list s2) rs" "members_of (tmem st) (xas_list s3) fs" "distinct (ts @ rs @ fs)"
    using assms(1) by (rule tlistsE)
  define us where "us = takeWhile (smaller timer_cmp (mval n) (tmem st)) ts"
  define vs where "vs = dropWhile (smaller timer_cmp (mval n) (tmem st)) ts"
  have ts: "ts = us @ vs" by (simp add: us_def vs_def)
  have na: "a \<notin> set ts" using assms(2) by simp
  obtain h where h: "insert_member_sort timer_cmp True s1 a (tmem st) = Ok (1, None, s1\<lparr>xas_list := first_of (us @ a # vs)\<rparr>, h)"
      "members_of h (first_of (us @ a # vs)) (us @ a # vs)" "relinks (set (us @ a # vs)) (tmem st) h"
    using insert_member_sort_ok(2) [where cmp = timer_cmp and dupes = True, OF s(5) na assms(3) us_def vs_def] by blast
  let ?st = "st\<lparr>timers := Some (s1\<lparr>xas_list := first_of (us @ a # vs)\<rparr>), tmem := h\<rparr>"
  have "timers_insert_sort a st = Ok ?st" using h(1) s(1,2) by (simp add: timers_insert_sort_def xaset_insert_sort_def on_member_def)
  moreover have d: "set rs \<inter> set (us @ a # vs) = {}" "set fs \<inter> set (us @ a # vs) = {}" using s(8) assms(2) ts by auto
  have "tlists ?st (us @ a # vs) rs fs"
    using h(2) s assms(2) ts relinks_others [OF h(3) d(1) s(6)] relinks_others [OF h(3) d(2) s(7)] by (auto simp: tlists_def)
  moreover have "tval ?st = tval st" using relinks_vals [OF h(3)] by (simp add: tval_def fun_eq_iff)
  moreover have f: "tval st = member_val (tmem st)" by (simp add: tval_def fun_eq_iff)
  have va: "tval st a = mval n" using assms(3) by (simp add: f member_val_def)
  have "sorted_wrt (\<lambda>a b. timer_cmp a b \<le> 0) (map (tval st) ts)" using assms(4) by (simp only: by_count_cmp)
  then have "sorted_wrt (\<lambda>a b. timer_cmp a b \<le> 0) (map (tval st) us @ mval n # map (tval st) vs)"
    by (rule to.insert_sorted) (simp_all only: us_def vs_def f)
  then have "by_count (map (tval st) (us @ a # vs))" using va by (simp only: by_count_cmp map_append list.map)
  ultimately show ?thesis using ts movedI(2) by blast
qed

lemma requeue_ok:
  "tlists st ts rs fs \<Longrightarrow> by_count (map (tval st) ts) \<Longrightarrow> length rs \<le> k \<Longrightarrow>
    \<exists>st' ts'. requeue_loop k st = Ok st' \<and> tlists st' ts' [] fs \<and> moved st st' \<and> tval st' = tval st \<and> by_count (map (tval st) ts') \<and>
      mset ts' = mset (ts @ rs)"
proof (induction rs arbitrary: st ts k)
  case Nil
  then have "list_of (recycled st) = Ok None" by (auto simp: tlists_def list_of_def)
  then have "requeue_loop k st = Ok st" by (cases k) simp_all
  then show ?case using Nil moved_refl by (intro exI [of _ st] exI [of _ ts]) simp
next
  case (Cons a rs)
  obtain k' where k: "k = Suc k'" using Cons.prems(3) by (cases k) auto
  have l: "list_of (recycled st) = Ok (Some a)" using Cons.prems(1) by (auto simp: tlists_def list_of_def)
  obtain st1 n where r: "recycled_remove a st = Ok st1" "tlists st1 ts rs fs" "moved st st1" "tval st1 = tval st" "map_of (tmem st1) a = Some n"
    using recycled_remove_ok [OF Cons.prems(1)] by blast
  have "a \<notin> set (ts @ rs @ fs)" using Cons.prems(1) by (auto simp: tlists_def)
  then obtain st2 us vs where i: "timers_insert_sort a st1 = Ok st2" "ts = us @ vs" "tlists st2 (us @ a # vs) rs fs" "moved st1 st2" "tval st2 = tval st1"
      "by_count (map (tval st1) (us @ a # vs))"
    using timers_insert_sort_ok [OF r(2) _ r(5)] Cons.prems(2) r(4) by auto
  obtain st' ts' where s: "requeue_loop k' st2 = Ok st'" "tlists st' ts' [] fs" "moved st2 st'" "tval st' = tval st2" "by_count (map (tval st2) ts')"
      "mset ts' = mset ((us @ a # vs) @ rs)"
    using Cons.IH [OF i(3), of k'] i(5,6) Cons.prems(3) k by auto
  moreover have "requeue_loop k st = requeue_loop k' st2" using k l r(1) i(1) by simp
  ultimately show ?case using r(4) i(2,5) moved_trans [OF moved_trans [OF r(3) i(4)] s(3)] by (intro exI [of _ st'] exI [of _ ts']) simp
qed

section \<open>Rounds\<close>

text \<open>Callbacks that do not use the timers: they see and change \<open>sleep_sem\<close> and their own data only.\<close>

locale quiet_callbacks =
  fixes env :: "'w timer_env" and act :: "nat \<Rightarrow> timer_args \<Rightarrow> int \<times> 'w \<Rightarrow> int \<times> int \<times> 'w"
  assumes quiet: "run_callback env cb args st =
    (let (r, s, w) = act cb args (sleep_sem st, world st) in Ok (r, st\<lparr>sleep_sem := s, world := w\<rparr>))"

text \<open>What becomes of an active timer: it stays, is started again or is freed; its new data, and what the callback leaves behind.\<close>

datatype fate = Stays | Again | Freed

definition fate_of :: "(nat \<Rightarrow> timer_args \<Rightarrow> 'u \<Rightarrow> int \<times> 'u) \<Rightarrow> int \<Rightarrow> timer \<Rightarrow> 'u \<Rightarrow> fate \<times> timer \<times> 'u" where
  "fate_of act elapsed t u =
     (if tremove t \<noteq> 0 then (Freed, t, u)
      else
        let t' = t\<lparr>tcount := tcount t - elapsed\<rparr> in
        if 0 < tcount t' then (Stays, t', u)
        else
          let (r, u) = act (tcallback t) (tinterval t, ttimerno t, tinterval t - tcount t', tmodule t) u in
          if r = 0 then (Freed, t', u) else (Again, t\<lparr>tcount := tinterval t\<rparr>, u))"

text \<open>A round: the timers with their fates.\<close>

primrec round_of :: "(nat \<Rightarrow> timer_args \<Rightarrow> 'u \<Rightarrow> int \<times> 'u) \<Rightarrow> int \<Rightarrow> timer list \<Rightarrow> 'u \<Rightarrow> (fate \<times> timer) list \<times> 'u" where
  "round_of act elapsed [] u = ([], u)"
| "round_of act elapsed (t # ts) u =
     (let (f, t, u) = fate_of act elapsed t u; (fts, u) = round_of act elapsed ts u in ((f, t) # fts, u))"

definition with_fate :: "fate \<Rightarrow> (fate \<times> timer) list \<Rightarrow> timer list" where
  "with_fate f fts = map snd (filter (\<lambda>x. fst x = f) fts)"

text \<open>When no time has passed, nothing happens to a timer.\<close>

definition due_round :: "(nat \<Rightarrow> timer_args \<Rightarrow> 'u \<Rightarrow> int \<times> 'u) \<Rightarrow> int \<Rightarrow> timer list \<Rightarrow> 'u \<Rightarrow> (fate \<times> timer) list \<times> 'u" where
  "due_round act elapsed ts u = (if elapsed = 0 then (map (Pair Stays) ts, u) else round_of act elapsed ts u)"

abbreviation head_count :: "timer list \<Rightarrow> int" where
  "head_count ts \<equiv> (case ts of [] \<Rightarrow> 0 | t # ts \<Rightarrow> tcount t)"

lemma with_fate_simps [simp]: "with_fate f [] = []" "with_fate f ((g, t) # fts) = (if g = f then [t] else []) @ with_fate f fts"
  by (simp_all add: with_fate_def)

context quiet_callbacks
begin

text \<open>The effect of callbacks and moves.\<close>

definition goes :: "'w timer_state \<Rightarrow> 'w timer_state \<Rightarrow> bool" where
  "goes st st' \<longleftrightarrow> (\<exists>h s1 s2 s3 s w. st' = st\<lparr>tmem := h, timers := s1, recycled := s2, free_timers := s3, sleep_sem := s, world := w\<rparr>)"

lemma goes_moved: "moved st st' \<Longrightarrow> goes st st'"
  unfolding moved_def goes_def
  by (elim exE, rule exI, rule exI, rule exI, rule exI, rule exI [of _ "sleep_sem st"], rule exI [of _ "world st"], cases st, simp)

lemma goes_act: "goes st (st\<lparr>sleep_sem := s, world := w\<rparr>)"
  unfolding goes_def
  by (rule exI [of _ "tmem st"], rule exI [of _ "timers st"], rule exI [of _ "recycled st"], rule exI [of _ "free_timers st"], rule exI [of _ s], rule exI [of _ w], cases st, simp)

lemma goes_trans: "goes st st1 \<Longrightarrow> goes st1 st2 \<Longrightarrow> goes st st2"
  unfolding goes_def by (elim exE) (simp, metis)

lemma moved_user: "moved st st' \<Longrightarrow> sleep_sem st' = sleep_sem st \<and> world st' = world st"
  by (auto simp: moved_def)

lemma act_lists: "tlists (st\<lparr>sleep_sem := s, world := w\<rparr>) ts rs fs = tlists st ts rs fs" "tval (st\<lparr>sleep_sem := s, world := w\<rparr>) = tval st"
  by (simp_all add: tlists_def tval_def fun_eq_iff)

text \<open>One timer of the loop.\<close>

abbreviation put :: "fate \<Rightarrow> fate \<Rightarrow> nat \<Rightarrow> nat list" where
  "put f g a \<equiv> if f = g then [a] else []"

lemma callback_step:
  assumes "tlists st (us @ a # vs) rs fs" and "map_of (tmem st) a = Some n" and "mval n = t" and "mnext n = p" and "tremove t = 0"
    and "t' = t\<lparr>tcount := tcount t - elapsed\<rparr>" and "\<not> 0 < tcount t'"
    and "act (tcallback t) (tinterval t, ttimerno t, tinterval t - tcount t', tmodule t) (sleep_sem st, world st) = (r, s, w)"
  shows "\<exists>st'. expire_loop (Suc k) env elapsed (Some a) st = expire_loop k env elapsed p st' \<and> goes st st' \<and> sleep_sem st' = s \<and> world st' = w \<and>
    (if r = 0 then tlists st' (us @ vs) rs (a # fs) \<and> tval st' = (tval st)(a := t')
     else tlists st' (us @ vs) (a # rs) fs \<and> tval st' = (tval st)(a := t\<lparr>tcount := tinterval t\<rparr>))"
proof -
  have ta: "tval st a = t" using assms(2,3) by (simp add: tval_def member_val_def)
  obtain st1 where s1: "set_timer a (\<lambda>t. t\<lparr>tcount := tcount t - elapsed\<rparr>) st = Ok st1" "moved st st1" "tval st1 = (tval st)(a := t')" "tlists st1 (us @ a # vs) rs fs"
    using set_timer_ok [OF assms(2), of "\<lambda>t. t\<lparr>tcount := tcount t - elapsed\<rparr>"] assms(1,6) ta by auto
  let ?st2 = "st1\<lparr>sleep_sem := s, world := w\<rparr>"
  have g: "goes st ?st2" using goes_trans [OF goes_moved [OF s1(2)] goes_act] .
  have l: "tlists ?st2 (us @ a # vs) rs fs" "tval ?st2 = (tval st)(a := t')" using s1(3,4) by (simp_all add: act_lists)
  have q: "run_callback env (tcallback t) (tinterval t, ttimerno t, tinterval t - (tcount t - elapsed), tmodule t) st1 = Ok (r, ?st2)"
    using assms(6,8) moved_user [OF s1(2)] by (simp add: quiet)
  have E: "expire_loop (Suc k) env elapsed (Some a) st =
      (if r = 0 then bindR (bindR (timers_remove a ?st2) (free_insert a)) (expire_loop k env elapsed p)
       else bindR (bindR (timers_remove a ?st2) (\<lambda>st. bindR (set_timer a (\<lambda>t. t\<lparr>tcount := tinterval t\<rparr>) st) (recycled_insert a))) (expire_loop k env elapsed p))"
    using assms(2-7) s1(1) q by simp
  show ?thesis
  proof (cases "r = 0")
    case True
    obtain st' where "bindR (timers_remove a ?st2) (free_insert a) = Ok st'" "tlists st' (us @ vs) rs (a # fs)" "moved ?st2 st'" "tval st' = tval ?st2"
      using to_free [OF l(1)] by blast
    then show ?thesis using True E l(2) goes_trans [OF g goes_moved] moved_user by (intro exI [of _ st']) fastforce
  next
    case False
    obtain st' where f: "bindR (timers_remove a ?st2) (\<lambda>st. bindR (set_timer a (\<lambda>t. t\<lparr>tcount := tinterval t\<rparr>) st) (recycled_insert a)) = Ok st'"
        "tlists st' (us @ vs) (a # rs) fs" "moved ?st2 st'" "tval st' = (tval ?st2)(a := (tval ?st2 a)\<lparr>tcount := tinterval (tval ?st2 a)\<rparr>)"
      using to_recycled [OF l(1)] by blast
    have "tval st' = (tval st)(a := t\<lparr>tcount := tinterval t\<rparr>)" using f(4) l(2) assms(6) by (simp add: fun_eq_iff)
    moreover have "expire_loop (Suc k) env elapsed (Some a) st = expire_loop k env elapsed p st'" using False E f(1) by simp
    ultimately show ?thesis using False f(2) goes_trans [OF g goes_moved [OF f(3)]] moved_user [OF f(3)] by (intro exI [of _ st']) simp
  qed
qed

lemma expire_step:
  assumes "tlists st (us @ a # vs) rs fs" and "fate_of act elapsed (tval st a) (sleep_sem st, world st) = (f, t', s, w)"
  shows "\<exists>st'. expire_loop (Suc k) env elapsed (Some a) st = expire_loop k env elapsed (first_of vs) st' \<and> goes st st' \<and>
    sleep_sem st' = s \<and> world st' = w \<and> tval st' = (tval st)(a := t') \<and>
    tlists st' ((us @ put f Stays a) @ vs) (put f Again a @ rs) (put f Freed a @ fs)"
proof -
  let ?t = "tval st a"
  obtain n where n: "map_of (tmem st) a = Some n" "mval n = ?t" using tlists_node [OF assms(1), of a] by auto
  obtain s1 where "timers st = Some s1" "members_of (tmem st) (xas_list s1) (us @ a # vs)" using assms(1) unfolding tlists_def by blast
  then have nx: "mnext n = first_of vs" using members_node [of "tmem st" "xas_list s1" us a vs] n(1) by auto
  let ?t' = "?t\<lparr>tcount := tcount ?t - elapsed\<rparr>"
  consider (removed) "tremove ?t \<noteq> 0" | (stays) "tremove ?t = 0" "0 < tcount ?t'" | (due) "tremove ?t = 0" "\<not> 0 < tcount ?t'" by blast
  then show ?thesis
  proof cases
    case removed
    obtain st' where e: "bindR (timers_remove a st) (free_insert a) = Ok st'" "tlists st' (us @ vs) rs (a # fs)" "moved st st'" "tval st' = tval st"
      using to_free [OF assms(1)] by blast
    have "expire_loop (Suc k) env elapsed (Some a) st = bindR (bindR (timers_remove a st) (free_insert a)) (expire_loop k env elapsed (first_of vs))"
      using n nx removed by simp
    then show ?thesis unfolding e(1) using assms(2) removed e(2-4) goes_moved [OF e(3)] moved_user [OF e(3)]
      by (intro exI [of _ st']) (auto simp: fate_of_def)
  next
    case stays
    obtain st' where "set_timer a (\<lambda>t. t\<lparr>tcount := tcount t - elapsed\<rparr>) st = Ok st'" "moved st st'" "tval st' = (tval st)(a := ?t')" "tlists st' (us @ a # vs) rs fs"
      using set_timer_ok [OF n(1), of "\<lambda>t. t\<lparr>tcount := tcount t - elapsed\<rparr>"] assms(1) by auto
    then show ?thesis using n nx stays assms(2) goes_moved moved_user by (intro exI [of _ st']) (fastforce simp: fate_of_def)
  next
    case due
    obtain r s0 w0 where a: "act (tcallback ?t) (tinterval ?t, ttimerno ?t, tinterval ?t - tcount ?t', tmodule ?t) (sleep_sem st, world st) = (r, s0, w0)"
      by (metis prod_cases3)
    then have "(f, t', s, w) = (if r = 0 then (Freed, ?t', s0, w0) else (Again, ?t\<lparr>tcount := tinterval ?t\<rparr>, s0, w0))"
      using assms(2) due by (auto simp: fate_of_def Let_def)
    then show ?thesis using callback_step [OF assms(1) n nx due(1) refl due(2) a, of k] by (auto split: if_splits)
  qed
qed

lemma expire_loop_ok:
  "tlists st (us @ vs) rs fs \<Longrightarrow> length vs \<le> k \<Longrightarrow> round_of act elapsed (map (tval st) vs) (sleep_sem st, world st) = (fts, s, w) \<Longrightarrow>
    \<exists>st' us' rs' fs'. expire_loop k env elapsed (first_of vs) st = Ok st' \<and> goes st st' \<and> sleep_sem st' = s \<and> world st' = w \<and>
      tlists st' (us @ us') (rs' @ rs) (fs' @ fs) \<and> map (tval st') us' = with_fate Stays fts \<and>
      map (tval st') (rev rs') = with_fate Again fts \<and> map (tval st') (rev fs') = with_fate Freed fts \<and> (\<forall>x. x \<notin> set vs \<longrightarrow> tval st' x = tval st x)"
proof (induction vs arbitrary: st us rs fs k fts)
  case Nil
  have "expire_loop k env elapsed (first_of []) st = Ok st" by (cases k) simp_all
  then show ?case using Nil goes_moved [OF moved_refl] by (intro exI [of _ st] exI [of _ "[]"]) simp
next
  case (Cons a vs)
  obtain k' where k: "k = Suc k'" using Cons.prems(2) by (cases k) auto
  have av: "a \<notin> set vs" using Cons.prems(1) by (auto simp: tlists_def)
  obtain f t' s0 w0 where f: "fate_of act elapsed (tval st a) (sleep_sem st, world st) = (f, t', s0, w0)" by (metis prod_cases4)
  obtain st1 where s1: "expire_loop k env elapsed (Some a) st = expire_loop k' env elapsed (first_of vs) st1" "goes st st1" "sleep_sem st1 = s0" "world st1 = w0"
      "tval st1 = (tval st)(a := t')" "tlists st1 ((us @ put f Stays a) @ vs) (put f Again a @ rs) (put f Freed a @ fs)"
    using expire_step [OF Cons.prems(1) f, of k'] k by blast
  have "map (tval st1) vs = map (tval st) vs" using s1(5) av by auto
  then obtain fts' where r: "round_of act elapsed (map (tval st1) vs) (sleep_sem st1, world st1) = (fts', s, w)" "fts = (f, t') # fts'"
    using Cons.prems(3) f s1(3,4) by (auto split: prod.splits)
  obtain st' us' rs' fs' where i: "expire_loop k' env elapsed (first_of vs) st1 = Ok st'" "goes st1 st'" "sleep_sem st' = s" "world st' = w"
      "tlists st' ((us @ put f Stays a) @ us') (rs' @ put f Again a @ rs) (fs' @ put f Freed a @ fs)" "map (tval st') us' = with_fate Stays fts'"
      "map (tval st') (rev rs') = with_fate Again fts'" "map (tval st') (rev fs') = with_fate Freed fts'" "\<forall>x. x \<notin> set vs \<longrightarrow> tval st' x = tval st1 x"
    using Cons.IH [OF s1(6) _ r(1), of k'] Cons.prems(2) k by auto
  have "tval st' a = t'" using i(9) av s1(5) by simp
  moreover have "\<forall>x. x \<notin> set (a # vs) \<longrightarrow> tval st' x = tval st x" using i(9) s1(5) by simp
  ultimately show ?case using s1(1) i r(2) goes_trans [OF s1(2) i(2)]
    by (intro exI [of _ st'] exI [of _ "put f Stays a @ us'"] exI [of _ "rs' @ put f Again a"] exI [of _ "fs' @ put f Freed a"]) auto
qed

text \<open>The timers that stay keep their order.\<close>

lemma fate_stays: "fate_of act elapsed t u = (f, t', u') \<Longrightarrow>
  (f = Stays \<longleftrightarrow> tremove t = 0 \<and> elapsed < tcount t) \<and> (f = Stays \<longrightarrow> t' = t\<lparr>tcount := tcount t - elapsed\<rparr>)"
  by (auto simp: fate_of_def Let_def split: if_splits prod.splits)

lemma stays_eq: "round_of act elapsed ts u = (fts, u') \<Longrightarrow>
  with_fate Stays fts = map (\<lambda>t. t\<lparr>tcount := tcount t - elapsed\<rparr>) (filter (\<lambda>t. tremove t = 0 \<and> elapsed < tcount t) ts)"
proof (induction ts arbitrary: u fts)
  case (Cons t ts)
  obtain f t' u1 where f: "fate_of act elapsed t u = (f, t', u1)" by (metis prod_cases3)
  obtain fts' where r: "round_of act elapsed ts u1 = (fts', u')" "fts = (f, t') # fts'"
    using Cons.prems f by (auto split: prod.splits)
  show ?case using fate_stays [OF f] Cons.IH [OF r(1)] r(2) by auto
qed simp

lemma stays_sorted: "round_of act elapsed ts u = (fts, u') \<Longrightarrow> by_count ts \<Longrightarrow> by_count (with_fate Stays fts)"
proof -
  assume r: "round_of act elapsed ts u = (fts, u')" and b: "by_count ts"
  have "by_count (filter (\<lambda>t. tremove t = 0 \<and> elapsed < tcount t) ts)" using b by (rule sorted_filter)
  then show ?thesis by (simp add: stays_eq [OF r] sorted_wrt_map sorted_map)
qed

text \<open>A whole round: no time may have passed, and there may be timers to be started again.\<close>

lemma first_count_ok: "tlists st ts rs fs \<Longrightarrow> first_count st = Ok (head_count (map (tval st) ts))"
proof (cases ts)
  case (Cons a ts')
  assume t: "tlists st ts rs fs"
  then obtain n where "map_of (tmem st) a = Some n" "mval n = tval st a" using tlists_node [OF t, of a] Cons by auto
  then show ?thesis using t Cons by (auto simp: first_count_def timer_at_def tlists_def list_of_def)
qed (auto simp: tlists_def list_of_def first_count_def)

lemma tlists_fuel: "tlists st ts rs fs \<Longrightarrow> length ts \<le> length (tmem st) \<and> length rs \<le> length (tmem st)"
  unfolding tlists_def using members_length by blast

lemma expire_part:
  assumes "tlists st ts rs fs" and "due_round act elapsed (map (tval st) ts) (sleep_sem st, world st) = (fts, s, w)"
  shows "\<exists>st' us rs' fs'. (if elapsed \<noteq> 0 then bindR (list_of (timers st)) (\<lambda>p. expire_loop (length (tmem st)) env elapsed p st) else Ok st) = Ok st' \<and>
    goes st st' \<and> sleep_sem st' = s \<and> world st' = w \<and> tlists st' us (rs' @ rs) (fs' @ fs) \<and> map (tval st') us = with_fate Stays fts \<and>
    map (tval st') (rev rs') = with_fate Again fts \<and> map (tval st') (rev fs') = with_fate Freed fts \<and> (\<forall>x. x \<notin> set ts \<longrightarrow> tval st' x = tval st x)"
proof (cases "elapsed = 0")
  case True
  then have "fts = map (Pair Stays) (map (tval st) ts)" "s = sleep_sem st" "w = world st" using assms(2) by (simp_all add: due_round_def)
  then show ?thesis using True assms(1) goes_moved [OF moved_refl] by (intro exI [of _ st] exI [of _ ts] exI [of _ "[]"]) (simp add: with_fate_def comp_def)
next
  case False
  have l: "list_of (timers st) = Ok (first_of ts)" using assms(1) by (cases ts) (auto simp: tlists_def list_of_def)
  have "round_of act elapsed (map (tval st) ts) (sleep_sem st, world st) = (fts, s, w)" using assms(2) False by (simp add: due_round_def)
  then obtain st' us rs' fs' where e: "expire_loop (length (tmem st)) env elapsed (first_of ts) st = Ok st'" "goes st st'" "sleep_sem st' = s" "world st' = w"
      "tlists st' ([] @ us) (rs' @ rs) (fs' @ fs)" "map (tval st') us = with_fate Stays fts" "map (tval st') (rev rs') = with_fate Again fts"
      "map (tval st') (rev fs') = with_fate Freed fts" "\<forall>x. x \<notin> set ts \<longrightarrow> tval st' x = tval st x"
    using expire_loop_ok [of st "[]" ts rs fs "length (tmem st)" elapsed fts s w] assms(1) tlists_fuel [OF assms(1)] by auto
  then show ?thesis using False l by (intro exI [of _ st'] exI [of _ us] exI [of _ rs'] exI [of _ fs']) simp
qed

lemma due_sorted: "due_round act elapsed ts u = (fts, u') \<Longrightarrow> by_count ts \<Longrightarrow> by_count (with_fate Stays fts)"
  using stays_sorted by (auto simp: due_round_def with_fate_def comp_def split: if_splits)

lemma process_ok:
  assumes "tlists st ts rs fs" and "by_count (map (tval st) ts)" and "indispatch st = 0" and "alarm_pending st = 0"
    and "due_round act elapsed (map (tval st) ts) (sleep_sem st, world st) = (fts, s, w)"
  shows "\<exists>st' ts' fs'. process_timers handle env elapsed st = Ok (head_count (map (tval st') ts'), st') \<and> goes st st' \<and> sleep_sem st' = s \<and> world st' = w \<and>
    tlists st' ts' [] (fs' @ fs) \<and> by_count (map (tval st') ts') \<and>
    mset (map (tval st') ts') = mset (with_fate Stays fts @ with_fate Again fts @ map (tval st) rs) \<and> map (tval st') (rev fs') = with_fate Freed fts \<and>
    set rs \<subseteq> set ts' \<and> (\<forall>x. x \<notin> set ts \<longrightarrow> tval st' x = tval st x)"
proof (cases "elapsed = 0 \<and> rs = []")
  case True
  then have "fts = map (Pair Stays) (map (tval st) ts)" "s = sleep_sem st" "w = world st" using assms(5) by (simp_all add: due_round_def)
  moreover have "process_timers handle env elapsed st = Ok (head_count (map (tval st) ts), st)"
    using True first_count_ok [OF assms(1)] assms(1) by (auto simp: process_timers_def tlists_def ensure_recycled_def list_of_def)
  ultimately show ?thesis using True assms(1,2) goes_moved [OF moved_refl]
    by (intro exI [of _ st] exI [of _ ts] exI [of _ "[]"]) (simp add: with_fate_def comp_def)
next
  case False
  let ?st = "(pr_alarms_block st)\<lparr>indispatch := 1\<rparr>"
  have v: "tval ?st = tval st" by (simp add: tval_def fun_eq_iff pr_alarms_block_def)
  have t: "tlists ?st ts rs fs" using assms(1) by (simp add: tlists_def pr_alarms_block_def)
  have r: "due_round act elapsed (map (tval ?st) ts) (sleep_sem ?st, world ?st) = (fts, s, w)" using assms(5) v by (simp add: pr_alarms_block_def)
  obtain st1 us rs' fs' where e: "(if elapsed \<noteq> 0 then bindR (list_of (timers ?st)) (\<lambda>p. expire_loop (length (tmem ?st)) env elapsed p ?st) else Ok ?st) = Ok st1"
      "goes ?st st1" "sleep_sem st1 = s" "world st1 = w" "tlists st1 us (rs' @ rs) (fs' @ fs)" "map (tval st1) us = with_fate Stays fts"
      "map (tval st1) (rev rs') = with_fate Again fts" "map (tval st1) (rev fs') = with_fate Freed fts" "\<forall>x. x \<notin> set ts \<longrightarrow> tval st1 x = tval ?st x"
    using expire_part [OF t r] by blast
  have "set rs \<inter> set ts = {}" using assms(1) by (auto simp: tlists_def)
  then have vr: "map (tval st1) rs = map (tval st) rs" using e(9) v by auto
  have b: "by_count (map (tval st1) us)" unfolding e(6) using due_sorted [OF assms(5,2)] .
  obtain st2 ts' where q: "requeue_loop (length (tmem st1)) st1 = Ok st2" "tlists st2 ts' [] (fs' @ fs)" "moved st1 st2" "tval st2 = tval st1"
      "by_count (map (tval st1) ts')" "mset ts' = mset (us @ rs' @ rs)"
    using requeue_ok [OF e(5) b] tlists_fuel [OF e(5)] by blast
  have g: "goes ?st st2" using goes_trans [OF e(2) goes_moved [OF q(3)]] .
  let ?st' = "st2\<lparr>indispatch := 0, alarms_blocked := alarms_blocked st\<rparr>"
  have g': "goes st ?st'" using g assms(3) by (cases st) (auto simp: goes_def pr_alarms_block_def)
  have d: "indispatch st2 = 1" "alarms_blocked st2 = alarms_blocked st + 1" "alarm_pending st2 = 0"
    using g assms(4) by (auto simp: goes_def pr_alarms_block_def)
  have v': "tval ?st' = tval st1" using q(4) by (simp add: tval_def fun_eq_iff)
  have t': "tlists ?st' ts' [] (fs' @ fs)" using q(2) by (simp add: tlists_def)
  have "mset (map (tval st1) ts') = mset (map (tval st1) us @ map (tval st1) (rev rs') @ map (tval st1) rs)" using q(6) by simp
  then have m: "mset (map (tval ?st') ts') = mset (with_fate Stays fts @ with_fate Again fts @ map (tval st) rs)" unfolding v' e(6,7) vr .
  obtain s2 where s2: "recycled st = Some s2" "xas_list s2 = first_of rs" using assms(1) by (cases rs) (auto simp: tlists_def)
  then have "ensure_recycled env st = st" "list_of (recycled st) = Ok (first_of rs)" by (simp_all add: ensure_recycled_def list_of_def)
  moreover have "\<not> (elapsed = 0 \<and> first_of rs = None)" using False by (cases rs) auto
  ultimately have "process_timers handle env elapsed st = Ok (head_count (map (tval ?st') ts'), ?st')"
    using assms(3) e(1) q(1) d first_count_ok [OF t'] by (simp add: process_timers_def pr_alarms_unblock_def Let_def) blast
  moreover have "sleep_sem ?st' = s" "world ?st' = w" using e(3,4) moved_user [OF q(3)] by simp_all
  moreover have "map (tval ?st') (rev fs') = with_fate Freed fts" "by_count (map (tval ?st') ts')" "\<forall>x. x \<notin> set ts \<longrightarrow> tval ?st' x = tval st x"
    unfolding v' using e(8,9) q(5) v by simp_all
  moreover have "set rs \<subseteq> set ts'" using mset_eq_setD [OF q(6)] by auto
  ultimately show ?thesis using g' t' m by (intro exI [of _ ?st'] exI [of _ ts'] exI [of _ fs']) simp
qed

end

end
