(* ===== verification/Ftp_Alarms.thy ===== *)
theory Ftp_Alarms
  imports Ftp_Expiry
begin

text \<open>
  The calls on the timers of proftpd: between two calls the lists are well formed and the active timers are in order
  (\<open>ready\<close>), and adding, removing and resetting a timer and handling an alarm keep it so. The properties at the end
  include that a new timer is charged with the time that passed before it was added.
\<close>

section \<open>The state between two calls\<close>

definition ready :: "'w timer_state \<Rightarrow> nat list \<Rightarrow> nat list \<Rightarrow> bool" where
  "ready st ts fs \<longleftrightarrow> tlists st ts [] fs \<and> by_count (map (tval st) ts) \<and>
     indispatch st = 0 \<and> alarms_blocked st = 0 \<and> alarm_pending st = 0 \<and> nalarms st = 0"

text \<open>The time the next alarm charges.\<close>

definition elapsed_time :: "'w timer_env \<Rightarrow> 'w timer_state \<Rightarrow> int" where
  "elapsed_time e st = total_time st + (if alarmed_time st \<noteq> 0 then clock e (ticks st) - alarmed_time st else 0)"

lemma handle_idle: "nalarms st = 0 \<Longrightarrow> handle_alarm k e st = Ok st"
  by (cases k) simp_all

lemma handle_blocked: "nalarms st \<noteq> 0 \<Longrightarrow> alarms_blocked st \<noteq> 0 \<Longrightarrow>
  handle_alarm (Suc k) e st = Ok (st\<lparr>nalarms := 0, alarm_pending := alarm_pending st + 1\<rparr>)"
  by (simp add: handle_idle)

text \<open>A call blocks the alarms, and its own alarm is handled when it unblocks them.\<close>

lemma settle:
  assumes "alarms_blocked st = 1" and "alarm_pending st = 0" and "nalarms st = 0"
  shows "bindR (handle_alarm (Suc k) e (st\<lparr>nalarms := nalarms st + 1\<rparr>)) (\<lambda>st. bindR (pr_alarms_unblock (handle_alarm (Suc k) e) st) f) =
    bindR (handle_alarm (Suc k) e (st\<lparr>alarms_blocked := 0, nalarms := 1\<rparr>)) f"
proof -
  let ?st = "st\<lparr>nalarms := 0, alarm_pending := 1\<rparr>"
  have h: "handle_alarm (Suc k) e (st\<lparr>nalarms := nalarms st + 1\<rparr>) = Ok ?st"
    using handle_blocked [of "st\<lparr>nalarms := nalarms st + 1\<rparr>" k e] assms by simp
  have "?st\<lparr>alarms_blocked := 0, alarm_pending := 0, nalarms := 1\<rparr> = st\<lparr>alarms_blocked := 0, nalarms := 1\<rparr>" using assms(2) by (cases st) simp
  then have "pr_alarms_unblock (handle_alarm (Suc k) e) ?st = handle_alarm (Suc k) e (st\<lparr>alarms_blocked := 0, nalarms := 1\<rparr>)"
    using assms(1) by (simp del: handle_alarm.simps add: pr_alarms_unblock_def Let_def)
  then show ?thesis unfolding h by (simp del: handle_alarm.simps)
qed

text \<open>Finding a timer, taking a struct and choosing a number.\<close>

lemma find_timer_ok: "chain mnext h p as \<Longrightarrow> length as \<le> k \<Longrightarrow> find_timer k P p h = Ok (find (\<lambda>a. P (member_val h a)) as)"
proof (induction as arbitrary: p k)
  case Nil
  then show ?case by (cases k) simp_all
next
  case (Cons a as)
  obtain k' where "k = Suc k'" using Cons.prems(2) by (cases k) auto
  then show ?case using Cons by (auto simp: member_val_def)
qed

lemma find_active:
  assumes "tlists st ts rs fs" and "timers st = Some s1"
  shows "find_timer (length (tmem st)) P (xas_list s1) (tmem st) = Ok (find (\<lambda>a. P (tval st a)) ts)"
proof -
  have "members_of (tmem st) (xas_list s1) ts" using assms by (auto simp: tlists_def)
  then show ?thesis using find_timer_ok [OF members_chain members_length] by (simp add: tval_def)
qed

lemma find_first: "find P xs = Some a \<Longrightarrow> \<exists>us vs. xs = us @ a # vs \<and> P a \<and> (\<forall>x \<in> set us. \<not> P x)"
proof (induction xs)
  case (Cons x xs)
  show ?case
  proof (cases "P x")
    case True
    then show ?thesis using Cons.prems by (intro exI [of _ "[]"] exI [of _ xs]) simp
  next
    case False
    then obtain us vs where "xs = us @ a # vs" "P a" "\<forall>x \<in> set us. \<not> P x" using Cons by auto
    then show ?thesis using False by (intro exI [of _ "x # us"] exI [of _ vs]) simp
  qed
qed simp

lemma take_timer_ok:
  assumes "tlists st ts rs fs"
  shows "\<exists>a n st' fs'. take_timer junk st = Ok (a, st') \<and> tlists st' ts rs fs' \<and> a \<notin> set (ts @ rs @ fs') \<and> map_of (tmem st') a = Some n \<and>
    moved st st' \<and> (\<forall>x \<in> set (ts @ rs). tval st' x = tval st x)"
proof (cases fs)
  case Nil
  let ?a = "fresh (tmem st)"
  let ?st = "st\<lparr>tmem := AList.update ?a junk (tmem st)\<rparr>"
  have n: "?a \<notin> set (ts @ rs)" using tlists_node [OF assms, of ?a] fresh_new [of "tmem st"] by auto
  have "list_of (free_timers st) = Ok None" using assms Nil by (auto simp: tlists_def list_of_def)
  then have "take_timer junk st = Ok (?a, ?st)" by (simp add: take_timer_def Let_def)
  moreover have c: "members_of (AList.update ?a junk (tmem st)) p as = members_of (tmem st) p as" if "?a \<notin> set as" for p as
    using dsegment_cong [of as "AList.update ?a junk (tmem st)" "tmem st"] that by (metis update_conv' fun_upd_other)
  have "tlists ?st ts rs []" using assms Nil n by (simp add: tlists_def c)
  moreover have "\<forall>x \<in> set (ts @ rs). tval ?st x = tval st x" using n by (auto simp: tval_def member_val_def update_conv')
  ultimately show ?thesis using n movedI(1) by (intro exI [of _ ?a] exI [of _ junk] exI [of _ ?st] exI [of _ "[]"]) (simp add: update_conv')
next
  case (Cons a fs')
  obtain st' n where r: "free_remove a st = Ok st'" "tlists st' ts rs fs'" "moved st st'" "tval st' = tval st" "map_of (tmem st') a = Some n"
    using free_remove_ok assms Cons by blast
  have "list_of (free_timers st) = Ok (Some a)" using assms Cons by (auto simp: tlists_def list_of_def)
  then have "take_timer junk st = Ok (a, st')" using r(1) by (simp add: take_timer_def)
  moreover have "a \<notin> set (ts @ rs @ fs')" using assms Cons by (auto simp: tlists_def)
  ultimately show ?thesis using r by (intro exI [of _ a] exI [of _ n] exI [of _ st'] exI [of _ fs']) simp
qed

text \<open>The number of a new timer, and whether one is left.\<close>

definition new_no :: "int \<Rightarrow> 'w timer_state \<Rightarrow> int" where
  "new_no no st = (if no = - 1 then max 1024 (dynamic_timerno st) else no)"

definition numbers_left :: "'w timer_state \<Rightarrow> int" where
  "numbers_left st = 2 ^ 31 - 1 - max 1024 (dynamic_timerno st)"

lemma new_timerno_ok:
  assumes "0 < numbers_left st"
  shows "\<exists>d. new_timerno no st = Ok (new_no no st, st\<lparr>dynamic_timerno := d\<rparr>) \<and> max 1024 d \<le> max 1024 (dynamic_timerno st) + 1"
proof (cases "no = - 1")
  case True
  then show ?thesis using assms by (auto simp: new_timerno_def new_no_def numbers_left_def Let_def)
next
  case False
  then show ?thesis by (intro exI [of _ "dynamic_timerno st"]) (cases st; simp add: new_timerno_def new_no_def)
qed

text \<open>What a call leaves alone until it unblocks the alarms.\<close>

definition busy :: "'w timer_state \<Rightarrow> 'w timer_state \<Rightarrow> bool" where
  "busy st st' \<longleftrightarrow> alarms_blocked st' = alarms_blocked st + 1 \<and> alarm_pending st' = alarm_pending st \<and> nalarms st' = nalarms st \<and> indispatch st' = indispatch st \<and>
     total_time st' = total_time st \<and> alarmed_time st' = alarmed_time st \<and> ticks st' = ticks st \<and> sleep_sem st' = sleep_sem st \<and> world st' = world st"

lemma busy_block: "busy st (pr_alarms_block st)"
  by (simp add: busy_def pr_alarms_block_def)

lemma busy_moved: "busy st st1 \<Longrightarrow> moved st1 st2 \<Longrightarrow> busy st st2"
  by (auto simp: busy_def moved_def)

lemma moved_no: "moved st st' \<Longrightarrow> dynamic_timerno st' = dynamic_timerno st"
  by (auto simp: moved_def)

lemma block_lists: "tlists (pr_alarms_block st) = tlists st" "tval (pr_alarms_block st) = tval st"
  by (simp_all add: tlists_def tval_def fun_eq_iff pr_alarms_block_def)

section \<open>Alarms\<close>

context quiet_callbacks
begin

lemma alarm_ok:
  assumes "tlists st ts rs fs" and "by_count (map (tval st) ts)" and "indispatch st = 0" and "alarms_blocked st = 0" and "alarm_pending st = 0" and "nalarms st \<noteq> 0"
    and "due_round act (elapsed_time env st) (map (tval st) ts) (sleep_sem st, world st) = (fts, s, w)"
  shows "\<exists>st' ts' fs'. handle_alarm (Suc k) env st = Ok st' \<and> ready st' ts' (fs' @ fs) \<and> sleep_sem st' = s \<and> world st' = w \<and>
    mset (map (tval st') ts') = mset (with_fate Stays fts @ with_fate Again fts @ map (tval st) rs) \<and>
    current_timeout st' = head_count (map (tval st') ts') \<and> alarm_set st' = head_count (map (tval st') ts') \<and> total_time st' = 0 \<and> dynamic_timerno st' = dynamic_timerno st \<and>
    set rs \<subseteq> set ts' \<and> (\<forall>x. x \<notin> set ts \<longrightarrow> tval st' x = tval st x)"
proof -
  let ?st = "st\<lparr>nalarms := 0, alarm_set := 0, ticks := (if alarmed_time st \<noteq> 0 then ticks st + 1 else ticks st), total_time := 0\<rparr>"
  have t: "tlists ?st ts rs fs" "tval ?st = tval st" using assms(1) by (simp_all add: tlists_def tval_def fun_eq_iff)
  have b: "by_count (map (tval ?st) ts)" "indispatch ?st = 0" "alarm_pending ?st = 0" unfolding t(2) using assms(2,3,5) by simp_all
  have r: "due_round act (elapsed_time env st) (map (tval ?st) ts) (sleep_sem ?st, world ?st) = (fts, s, w)" unfolding t(2) using assms(7) by simp
  obtain st1 ts' fs' where p: "process_timers (handle_alarm k env) env (elapsed_time env st) ?st = Ok (head_count (map (tval st1) ts'), st1)"
      "goes ?st st1" "sleep_sem st1 = s" "world st1 = w" "tlists st1 ts' [] (fs' @ fs)" "by_count (map (tval st1) ts')"
      "mset (map (tval st1) ts') = mset (with_fate Stays fts @ with_fate Again fts @ map (tval ?st) rs)" "set rs \<subseteq> set ts'"
      "\<forall>x. x \<notin> set ts \<longrightarrow> tval st1 x = tval ?st x"
    using process_ok [OF t(1) b r, of "handle_alarm k env"] by blast
  let ?st' = "st1\<lparr>ticks := ticks st1 + 1, alarmed_time := clock env (ticks st1), current_timeout := head_count (map (tval st1) ts'), alarm_set := head_count (map (tval st1) ts')\<rparr>"
  have v: "tval ?st' = tval st1" by (simp add: tval_def fun_eq_iff)
  have g: "nalarms st1 = 0" "indispatch st1 = 0" "alarms_blocked st1 = 0" "alarm_pending st1 = 0" "total_time st1 = 0" "dynamic_timerno st1 = dynamic_timerno st"
    using p(2) assms(3-5) by (auto simp: goes_def)
  have "handle_alarm (Suc k) env st = handle_alarm k env ?st'"
    using assms(4,6) p(1) by (auto simp: elapsed_time_def get_time_def Let_def cong: if_cong)
  then have "handle_alarm (Suc k) env st = Ok ?st'" using handle_idle [of ?st'] g(1) by simp
  moreover have "ready ?st' ts' (fs' @ fs)" unfolding ready_def v using p(5,6) g by (simp add: tlists_def)
  ultimately show ?thesis using p(3,4,7-9) v t(2) g(5,6) by (intro exI [of _ ?st'] exI [of _ ts'] exI [of _ fs']) simp
qed

text \<open>The end of every call that changed the lists.\<close>

lemma settle_ok:
  assumes "ready st0 ts0 fs0" and "busy st0 st" and "tlists st ts rs fs" and "by_count (map (tval st) ts)"
    and "due_round act (elapsed_time env st0) (map (tval st) ts) (sleep_sem st0, world st0) = (fts, s, w)"
  shows "\<exists>st' ts' fs'. bindR (handle_alarm (Suc k) env (st\<lparr>nalarms := nalarms st + 1\<rparr>)) (\<lambda>st. bindR (pr_alarms_unblock (handle_alarm (Suc k) env) st) f) = f st' \<and>
    ready st' ts' (fs' @ fs) \<and> sleep_sem st' = s \<and> world st' = w \<and>
    mset (map (tval st') ts') = mset (with_fate Stays fts @ with_fate Again fts @ map (tval st) rs) \<and>
    alarm_set st' = head_count (map (tval st') ts') \<and> dynamic_timerno st' = dynamic_timerno st \<and>
    set rs \<subseteq> set ts' \<and> (\<forall>x. x \<notin> set ts \<longrightarrow> tval st' x = tval st x)"
proof -
  let ?st = "st\<lparr>alarms_blocked := 0, nalarms := 1\<rparr>"
  have b: "alarms_blocked st = 1" "alarm_pending st = 0" "nalarms st = 0" using assms(1,2) by (simp_all add: ready_def busy_def)
  have v: "tval ?st = tval st" "elapsed_time env ?st = elapsed_time env st0" using assms(2) by (simp_all add: tval_def fun_eq_iff elapsed_time_def busy_def)
  have "\<exists>st' ts' fs'. handle_alarm (Suc k) env ?st = Ok st' \<and> ready st' ts' (fs' @ fs) \<and> sleep_sem st' = s \<and> world st' = w \<and>
    mset (map (tval st') ts') = mset (with_fate Stays fts @ with_fate Again fts @ map (tval ?st) rs) \<and>
    current_timeout st' = head_count (map (tval st') ts') \<and> alarm_set st' = head_count (map (tval st') ts') \<and> total_time st' = 0 \<and> dynamic_timerno st' = dynamic_timerno ?st \<and>
    set rs \<subseteq> set ts' \<and> (\<forall>x. x \<notin> set ts \<longrightarrow> tval st' x = tval ?st x)"
    by (rule alarm_ok) (use assms v in \<open>simp_all add: ready_def busy_def tlists_def\<close>)
  then obtain st' ts' fs' where "handle_alarm (Suc k) env ?st = Ok st'" "ready st' ts' (fs' @ fs)" "sleep_sem st' = s" "world st' = w"
    "mset (map (tval st') ts') = mset (with_fate Stays fts @ with_fate Again fts @ map (tval st) rs)" "alarm_set st' = head_count (map (tval st') ts')"
    "dynamic_timerno st' = dynamic_timerno st" "set rs \<subseteq> set ts'" "\<forall>x. x \<notin> set ts \<longrightarrow> tval st' x = tval st x"
    unfolding v by auto
  then show ?thesis unfolding settle [OF b] by (intro exI [of _ st'] exI [of _ ts'] exI [of _ fs']) (simp del: handle_alarm.simps)
qed

section \<open>Calls\<close>

lemma add_prep:
  assumes "ready st ts fs" and "0 \<le> seconds" and "no \<noteq> - 1 \<longrightarrow> (\<forall>x \<in> set ts. ttimerno (tval st x) \<noteq> no)" and "0 < numbers_left st"
    and "t = \<lparr>tcount = seconds, tinterval = seconds, ttimerno = new_no no st, tmodule = m, tcallback = cb, tremove = 0\<rparr>"
  shows "\<exists>us vs a st' fs'. ts = us @ vs \<and> tlists st' (us @ a # vs) [] fs' \<and> busy st st' \<and> numbers_left st \<le> numbers_left st' + 1 \<and>
    by_count (map (tval st') (us @ a # vs)) \<and> map (tval st') (us @ a # vs) = map (tval st) us @ t # map (tval st) vs \<and>
    pr_timer_add (Suc k) env junk seconds no m cb st = bindR (handle_alarm (Suc k) env (st'\<lparr>nalarms := nalarms st' + 1\<rparr>))
      (\<lambda>st1. bindR (pr_alarms_unblock (handle_alarm (Suc k) env) st1) (\<lambda>st1. Ok (new_no no st, None, st1)))"
proof -
  have l: "tlists st ts [] fs" "by_count (map (tval st) ts)" using assms(1) by (simp_all add: ready_def)
  obtain a n st1 fs1 where a: "take_timer junk (pr_alarms_block st) = Ok (a, st1)" "tlists st1 ts [] fs1" "a \<notin> set (ts @ [] @ fs1)" "map_of (tmem st1) a = Some n"
      "moved (pr_alarms_block st) st1" "\<forall>x \<in> set (ts @ []). tval st1 x = tval (pr_alarms_block st) x"
    using take_timer_ok [of "pr_alarms_block st" ts "[]" fs junk] l(1) unfolding block_lists by blast
  have "dynamic_timerno st1 = dynamic_timerno st" using moved_no [OF a(5)] by (simp add: pr_alarms_block_def)
  then obtain d where d: "new_timerno no st1 = Ok (new_no no st, st1\<lparr>dynamic_timerno := d\<rparr>)" "max 1024 d \<le> max 1024 (dynamic_timerno st) + 1"
    using new_timerno_ok [of st1 no] assms(4) by (auto simp: numbers_left_def new_no_def)
  let ?st2 = "st1\<lparr>dynamic_timerno := d\<rparr>"
  have l2: "tlists ?st2 ts [] fs1" "map_of (tmem ?st2) a = Some n" "tval ?st2 = tval st1" "busy st ?st2"
    using a(2,4) busy_moved [OF busy_block a(5)] by (simp_all add: tlists_def tval_def fun_eq_iff busy_def)
  obtain st3 n3 where s3: "set_timer a (\<lambda>_. t) ?st2 = Ok st3" "moved ?st2 st3" "tval st3 = (tval st1)(a := t)" "map_of (tmem st3) a = Some n3" "tlists st3 ts [] fs1"
    using set_timer_ok [OF l2(2), of "\<lambda>_. t"] l2(1,3) by auto
  have v3: "map (tval st3) ts = map (tval st) ts" using a(3,6) s3(3) by (auto simp: block_lists)
  obtain st4 us vs where i: "timers_insert_sort a st3 = Ok st4" "ts = us @ vs" "tlists st4 (us @ a # vs) [] fs1" "moved st3 st4" "tval st4 = tval st3"
      "by_count (map (tval st3) (us @ a # vs))"
    using timers_insert_sort_ok [OF s3(5) a(3) s3(4)] l(2) v3 by auto
  have "map (tval st4) (us @ a # vs) = map (tval st) us @ t # map (tval st) vs" using v3 s3(3) i(5) unfolding i(2) by simp
  moreover have b: "busy st st3" "busy st st4" using busy_moved l2(4) s3(2) i(4) by blast+
  moreover have "dynamic_timerno st4 = d" using moved_no [OF s3(2)] moved_no [OF i(4)] by simp
  then have "numbers_left st \<le> numbers_left st4 + 1" using d(2) unfolding numbers_left_def by linarith
  moreover obtain s1 s3 where s1: "timers st = Some s1" "free_timers st = Some s3" using l(1) by (auto simp: tlists_def)
  then have "(if no \<noteq> - 1 then bindR (list_of (timers st)) (\<lambda>p. find_timer (length (tmem st)) (\<lambda>t. ttimerno t = no) p (tmem st)) else Ok None) = Ok None"
    using find_active [OF l(1) s1(1), of "\<lambda>t. ttimerno t = no"] assms(3) by (auto simp: find_None_iff list_of_def)
  then have "pr_timer_add (Suc k) env junk seconds no m cb st = bindR (handle_alarm (Suc k) env (st4\<lparr>nalarms := nalarms st4 + 1\<rparr>))
      (\<lambda>st1. bindR (pr_alarms_unblock (handle_alarm (Suc k) env) st1) (\<lambda>st1. Ok (new_no no st, None, st1)))"
    using assms(1,2,5) a(1) d(1) s3(1) i(1) s1 b(1) by (simp del: handle_alarm.simps add: pr_timer_add_def busy_def ready_def)
  ultimately show ?thesis using i(2,3,5,6) by (intro exI [of _ us] exI [of _ vs] exI [of _ a] exI [of _ st4] exI [of _ fs1]) simp
qed

lemma add_ok:
  assumes "ready st ts fs" and "0 \<le> seconds" and "no \<noteq> - 1 \<longrightarrow> (\<forall>x \<in> set ts. ttimerno (tval st x) \<noteq> no)" and "0 < numbers_left st"
    and "t = \<lparr>tcount = seconds, tinterval = seconds, ttimerno = new_no no st, tmodule = m, tcallback = cb, tremove = 0\<rparr>"
  shows "\<exists>us vs fts s w st' ts' fs'. map (tval st) ts = us @ vs \<and> by_count (us @ t # vs) \<and>
    due_round act (elapsed_time env st) (us @ t # vs) (sleep_sem st, world st) = (fts, s, w) \<and>
    pr_timer_add (Suc k) env junk seconds no m cb st = Ok (new_no no st, None, st') \<and> ready st' ts' fs' \<and> sleep_sem st' = s \<and> world st' = w \<and>
    mset (map (tval st') ts') = mset (with_fate Stays fts @ with_fate Again fts) \<and> alarm_set st' = head_count (map (tval st') ts') \<and>
    numbers_left st \<le> numbers_left st' + 1"
proof -
  obtain us vs a st1 fs1 where p: "ts = us @ vs" "tlists st1 (us @ a # vs) [] fs1" "busy st st1" "numbers_left st \<le> numbers_left st1 + 1"
      "by_count (map (tval st1) (us @ a # vs))" "map (tval st1) (us @ a # vs) = map (tval st) us @ t # map (tval st) vs"
      "pr_timer_add (Suc k) env junk seconds no m cb st = bindR (handle_alarm (Suc k) env (st1\<lparr>nalarms := nalarms st1 + 1\<rparr>))
        (\<lambda>st1. bindR (pr_alarms_unblock (handle_alarm (Suc k) env) st1) (\<lambda>st1. Ok (new_no no st, None, st1)))"
    using add_prep [OF assms] by blast
  obtain fts s w where r: "due_round act (elapsed_time env st) (map (tval st1) (us @ a # vs)) (sleep_sem st, world st) = (fts, s, w)" by (metis prod_cases3)
  obtain st' ts' fs' where e: "pr_timer_add (Suc k) env junk seconds no m cb st = Ok (new_no no st, None, st')" "ready st' ts' (fs' @ fs1)" "sleep_sem st' = s" "world st' = w"
      "mset (map (tval st') ts') = mset (with_fate Stays fts @ with_fate Again fts @ map (tval st1) [])" "alarm_set st' = head_count (map (tval st') ts')"
      "dynamic_timerno st' = dynamic_timerno st1"
    using settle_ok [OF assms(1) p(3,2,5) r, of k "\<lambda>st1. Ok (new_no no st, None, st1)"] unfolding p(7) by blast
  have n: "numbers_left st \<le> numbers_left st' + 1" using p(4) e(7) by (simp add: numbers_left_def)
  show ?thesis
    by (intro exI conjI, use p(1) in simp) (use p(5) r e n in \<open>simp_all only: p(6) list.map append_Nil2\<close>)
qed

lemma ready_active:
  assumes "ready st ts fs"
  obtains s1 where "timers (pr_alarms_block st) = Some s1" "tlists (pr_alarms_block st) ts [] fs"
    "find_timer (length (tmem (pr_alarms_block st))) P (xas_list s1) (tmem (pr_alarms_block st)) = Ok (find (\<lambda>a. P (tval st a)) ts)"
proof -
  have t: "tlists (pr_alarms_block st) ts [] fs" using assms by (simp add: ready_def block_lists)
  then obtain s1 where "timers (pr_alarms_block st) = Some s1" by (auto simp: tlists_def)
  then show thesis using that [OF _ t] find_active [OF t, of s1 P] by (simp add: block_lists)
qed

lemma unblock_ready: "ready st ts fs \<Longrightarrow> pr_alarms_unblock handle (pr_alarms_block st) = Ok st"
  by (cases st) (simp add: ready_def pr_alarms_unblock_def pr_alarms_block_def)

lemma ensure_block: "tlists st ts rs fs \<Longrightarrow> ensure_recycled env st = st"
  by (auto simp: tlists_def ensure_recycled_def)

text \<open>A timer that is not there is neither removed nor reset.\<close>

lemma absent_ok:
  assumes "ready st ts fs" and "find (\<lambda>a. is_timer no m (tval st a)) ts = None"
  shows "pr_timer_remove k env no m st = Ok (0, None, st)" and "pr_timer_reset k env no m st = Ok (0, None, st)"
proof -
  obtain s1 where s: "timers (pr_alarms_block st) = Some s1" "tlists (pr_alarms_block st) ts [] fs"
      "find_timer (length (tmem (pr_alarms_block st))) (is_timer no m) (xas_list s1) (tmem (pr_alarms_block st)) = Ok None"
    using ready_active [OF assms(1), of "is_timer no m"] assms(2) by metis
  have "timers st = Some s1" "indispatch st = 0" using s(1) assms(1) by (simp_all add: pr_alarms_block_def ready_def)
  then show "pr_timer_remove k env no m st = Ok (0, None, st)" "pr_timer_reset k env no m st = Ok (0, None, st)"
    using s unblock_ready [OF assms(1)] ensure_block [OF s(2)] by (simp_all add: pr_timer_remove_def pr_timer_reset_def Let_def list_of_def)
qed

lemma remove_ok:
  assumes "ready st ts fs" and "find (\<lambda>a. is_timer no m (tval st a)) ts = Some a"
  shows "\<exists>us vs fts s w st' ts' fs'. map (tval st) ts = us @ tval st a # vs \<and>
    due_round act (elapsed_time env st) (us @ vs) (sleep_sem st, world st) = (fts, s, w) \<and>
    pr_timer_remove (Suc k) env no m st = Ok (no, None, st') \<and> ready st' ts' fs' \<and> sleep_sem st' = s \<and> world st' = w \<and>
    mset (map (tval st') ts') = mset (with_fate Stays fts @ with_fate Again fts) \<and> numbers_left st' = numbers_left st"
proof -
  let ?st = "pr_alarms_block st"
  obtain us vs where f: "ts = us @ a # vs" "is_timer no m (tval st a)" using find_first [OF assms(2)] by blast
  obtain s1 where s: "timers ?st = Some s1" "tlists ?st ts [] fs" "find_timer (length (tmem ?st)) (is_timer no m) (xas_list s1) (tmem ?st) = Ok (Some a)"
    using ready_active [OF assms(1), of "is_timer no m"] assms(2) by metis
  obtain st1 where e: "bindR (timers_remove a ?st) (free_insert a) = Ok st1" "tlists st1 (us @ vs) [] (a # fs)" "moved ?st st1" "tval st1 = tval ?st"
    using to_free s(2) unfolding f(1) by blast
  have b: "busy st st1" using busy_moved [OF busy_block e(3)] .
  have v: "tval st1 = tval st" using e(4) by (simp add: block_lists)
  have c: "by_count (map (tval st1) (us @ vs))" unfolding v using assms(1) f(1) by (auto simp: ready_def sorted_append)
  obtain fts s w where r: "due_round act (elapsed_time env st) (map (tval st1) (us @ vs)) (sleep_sem st, world st) = (fts, s, w)" by (metis prod_cases3)
  let ?f = "\<lambda>st. bindR (timer_at a st) (\<lambda>t. Ok (ttimerno t, None :: errno option, st))"
  have E: "pr_timer_remove (Suc k) env no m st =
      bindR (handle_alarm (Suc k) env (st1\<lparr>nalarms := nalarms st1 + 1\<rparr>)) (\<lambda>st. bindR (pr_alarms_unblock (handle_alarm (Suc k) env) st) ?f)"
  proof -
    have "timers st = Some s1" "indispatch ?st = 0" using s(1) assms(1) by (simp_all add: pr_alarms_block_def ready_def)
    moreover obtain st0 where "timers_remove a ?st = Ok st0" "free_insert a st0 = Ok st1" using e(1) by (cases "timers_remove a ?st") auto
    ultimately show ?thesis using s(3) by (simp del: handle_alarm.simps add: pr_timer_remove_def Let_def)
  qed
  obtain st' ts' fs' where q: "pr_timer_remove (Suc k) env no m st = ?f st'" "ready st' ts' (fs' @ a # fs)" "sleep_sem st' = s" "world st' = w"
      "mset (map (tval st') ts') = mset (with_fate Stays fts @ with_fate Again fts @ map (tval st1) [])" "dynamic_timerno st' = dynamic_timerno st1"
      "\<forall>x. x \<notin> set (us @ vs) \<longrightarrow> tval st' x = tval st1 x"
    using settle_ok [OF assms(1) b e(2) c r, of k ?f] unfolding E by blast
  have "tval st' a = tval st a" using q(7) v e(2) by (auto simp: tlists_def)
  then have "timer_at a st' = Ok (tval st a)" using tlists_node [of st' ts' "[]" "fs' @ a # fs" a] q(2) by (auto simp: ready_def timer_at_def)
  then have "pr_timer_remove (Suc k) env no m st = Ok (no, None, st')" using q(1) f(2) by (simp add: is_timer_def)
  moreover have "numbers_left st' = numbers_left st" using q(6) moved_no [OF e(3)] by (simp add: numbers_left_def pr_alarms_block_def)
  ultimately show ?thesis using q(2-5) r f(1) unfolding v
    by (intro exI [of _ "map (tval st) us"] exI [of _ "map (tval st) vs"] exI [of _ fts] exI [of _ s] exI [of _ w] exI [of _ st'] exI [of _ ts'] exI [of _ "fs' @ a # fs"]) simp
qed

lemma reset_prep:
  assumes "tlists st (us @ a # vs) [] fs"
  shows "\<exists>st1 st2 st'. set_timer a (\<lambda>t. t\<lparr>tcount := tinterval t\<rparr>) st = Ok st1 \<and> timers_remove a st1 = Ok st2 \<and> recycled_insert a st2 = Ok st' \<and>
    tlists st' (us @ vs) [a] fs \<and> moved st st' \<and> tval st' = (tval st)(a := (tval st a)\<lparr>tcount := tinterval (tval st a)\<rparr>)"
proof -
  let ?f = "\<lambda>t :: timer. t\<lparr>tcount := tinterval t\<rparr>"
  obtain n where n: "map_of (tmem st) a = Some n" using tlists_node [OF assms, of a] by auto
  obtain st1 where s: "set_timer a ?f st = Ok st1" "moved st st1" "tval st1 = (tval st)(a := ?f (tval st a))" "tlists st1 (us @ a # vs) [] fs"
    using set_timer_ok [OF n, of ?f] assms by blast
  obtain st2 n2 where r: "timers_remove a st1 = Ok st2" "tlists st2 (us @ vs) [] fs" "moved st1 st2" "tval st2 = tval st1" "map_of (tmem st2) a = Some n2" "mprev n2 = None"
    using timers_remove_ok [OF s(4)] by blast
  have "a \<notin> set ((us @ vs) @ [] @ fs)" using assms by (auto simp: tlists_def)
  then obtain st' where "recycled_insert a st2 = Ok st'" "tlists st' (us @ vs) [a] fs" "moved st2 st'" "tval st' = tval st2"
    using recycled_insert_ok [OF r(2) _ r(5,6)] by blast
  then show ?thesis using s(1,3) r(1,4) moved_trans [OF moved_trans [OF s(2) r(3)]] by (intro exI [of _ st1] exI [of _ st2] exI [of _ st']) simp
qed

lemma reset_ok:
  assumes "ready st ts fs" and "find (\<lambda>a. is_timer no m (tval st a)) ts = Some a"
  shows "\<exists>us vs fts s w st' ts' fs'. map (tval st) ts = us @ tval st a # vs \<and>
    due_round act (elapsed_time env st) (us @ vs) (sleep_sem st, world st) = (fts, s, w) \<and>
    pr_timer_reset (Suc k) env no m st = Ok (no, None, st') \<and> ready st' ts' fs' \<and> sleep_sem st' = s \<and> world st' = w \<and>
    mset (map (tval st') ts') = mset (with_fate Stays fts @ with_fate Again fts @ [(tval st a)\<lparr>tcount := tinterval (tval st a)\<rparr>]) \<and>
    numbers_left st' = numbers_left st"
proof -
  let ?st = "pr_alarms_block st" and ?t = "(tval st a)\<lparr>tcount := tinterval (tval st a)\<rparr>"
  obtain us vs where f: "ts = us @ a # vs" "is_timer no m (tval st a)" using find_first [OF assms(2)] by blast
  obtain s1 where s: "timers ?st = Some s1" "tlists ?st ts [] fs" "find_timer (length (tmem ?st)) (is_timer no m) (xas_list s1) (tmem ?st) = Ok (Some a)"
    using ready_active [OF assms(1), of "is_timer no m"] assms(2) by metis
  obtain st1 st2 st3 where e: "set_timer a (\<lambda>t. t\<lparr>tcount := tinterval t\<rparr>) ?st = Ok st1" "timers_remove a st1 = Ok st2" "recycled_insert a st2 = Ok st3"
      "tlists st3 (us @ vs) [a] fs" "moved ?st st3" "tval st3 = (tval st)(a := ?t)"
    using reset_prep [of ?st us a vs fs] s(2) unfolding f(1) block_lists(2) by blast
  have b: "busy st st3" using busy_moved [OF busy_block e(5)] .
  have na: "a \<notin> set (us @ vs)" using e(4) by (auto simp: tlists_def)
  have v: "map (tval st3) (us @ vs) = map (tval st) us @ map (tval st) vs" using e(6) na by auto
  have c: "by_count (map (tval st3) (us @ vs))" unfolding v using assms(1) f(1) by (auto simp: ready_def sorted_append)
  obtain fts s w where r: "due_round act (elapsed_time env st) (map (tval st3) (us @ vs)) (sleep_sem st, world st) = (fts, s, w)" by (metis prod_cases3)
  let ?f = "\<lambda>st. bindR (timer_at a st) (\<lambda>t. Ok (ttimerno t, None :: errno option, st))"
  have i: "list_of (timers ?st) = Ok (xas_list s1)" "indispatch st = 0" using s(1) assms(1) by (simp_all add: list_of_def ready_def)
  have E: "pr_timer_reset (Suc k) env no m st =
      bindR (handle_alarm (Suc k) env (st3\<lparr>nalarms := nalarms st3 + 1\<rparr>)) (\<lambda>st. bindR (pr_alarms_unblock (handle_alarm (Suc k) env) st) ?f)"
    using s(3) i e(1-3) ensure_block [OF s(2)] by (simp del: handle_alarm.simps add: pr_timer_reset_def Let_def)
  obtain st' ts' fs' where q: "pr_timer_reset (Suc k) env no m st = ?f st'" "ready st' ts' (fs' @ fs)" "sleep_sem st' = s" "world st' = w"
      "mset (map (tval st') ts') = mset (with_fate Stays fts @ with_fate Again fts @ map (tval st3) [a])" "dynamic_timerno st' = dynamic_timerno st3"
      "set [a] \<subseteq> set ts'" "\<forall>x. x \<notin> set (us @ vs) \<longrightarrow> tval st' x = tval st3 x"
    using settle_ok [OF assms(1) b e(4) c r, of k ?f] unfolding E by blast
  have "tval st' a = ?t" using q(8) na e(6) by auto
  then have "timer_at a st' = Ok ?t" using tlists_node [of st' ts' "[]" "fs' @ fs" a] q(2,7) by (auto simp: ready_def timer_at_def)
  then have "pr_timer_reset (Suc k) env no m st = Ok (no, None, st')" using q(1) f(2) by (simp add: is_timer_def)
  moreover have "numbers_left st' = numbers_left st" using q(6) moved_no [OF e(5)] by (simp add: numbers_left_def pr_alarms_block_def)
  ultimately show ?thesis using q(2-5) r f(1) e(6) unfolding v
    by (intro exI [of _ "map (tval st) us"] exI [of _ "map (tval st) vs"] exI [of _ fts] exI [of _ s] exI [of _ w] exI [of _ st'] exI [of _ ts'] exI [of _ "fs' @ fs"]) simp
qed

text \<open>An alarm arrives between two calls and is handled.\<close>

lemma tick_ok:
  assumes "ready st ts fs"
  shows "\<exists>st' ts' fs'. handle_alarm (Suc k) env (sig_alarm env st) = Ok st' \<and> ready st' ts' fs' \<and> numbers_left st' = numbers_left st"
proof -
  let ?st = "sig_alarm env st"
  have l: "tlists ?st ts [] fs" "tval ?st = tval st" using assms by (simp_all add: ready_def sig_alarm_def tlists_def tval_def fun_eq_iff get_time_def Let_def)
  have o: "indispatch ?st = 0" "alarms_blocked ?st = 0" "alarm_pending ?st = 0" "nalarms ?st \<noteq> 0" "dynamic_timerno ?st = dynamic_timerno st"
    using assms by (simp_all add: ready_def sig_alarm_def get_time_def Let_def)
  have b: "by_count (map (tval ?st) ts)" unfolding l(2) using assms by (simp add: ready_def)
  obtain fts s w where r: "due_round act (elapsed_time env ?st) (map (tval ?st) ts) (sleep_sem ?st, world ?st) = (fts, s, w)" by (metis prod_cases3)
  obtain st' ts' fs' where "handle_alarm (Suc k) env ?st = Ok st'" "ready st' ts' (fs' @ fs)" "dynamic_timerno st' = dynamic_timerno ?st"
    using alarm_ok [OF l(1) b o(1-4) r, of k] by blast
  then show ?thesis using o(5) by (intro exI [of _ st'] exI [of _ ts'] exI [of _ "fs' @ fs"]) (simp add: numbers_left_def)
qed

end

end
