(* ===== verification/Ftp_Clock.thy ===== *)
theory Ftp_Clock
  imports Ftp_Alarms
begin

text \<open>
  Sequences of calls on the timers of proftpd, for callbacks that do not use the timers themselves, and the
  properties of the timers: a round is what \<open>round_of\<close> says, every sequence of calls keeps the timers in order,
  a new timer is charged with time that passed before it was added, and a timer added by a callback corrupts memory.
\<close>

section \<open>Sequences of calls\<close>

text \<open>An environment whose callbacks use \<open>act\<close>, with the callback of \<open>pr_timer_sleep\<close> beside them.\<close>

definition quiet_env :: "(nat \<Rightarrow> int) \<Rightarrow> ptr \<Rightarrow> (nat \<Rightarrow> timer_args \<Rightarrow> int \<times> 'w \<Rightarrow> int \<times> int \<times> 'w) \<Rightarrow> 'w timer_env" where
  "quiet_env clk pool act =
     \<lparr>clock = clk, permanent_pool = pool,
      run_cb = (\<lambda>cb args st. let (r, s, w) = act cb args (sleep_sem st, world st) in Ok (r, st\<lparr>sleep_sem := s, world := w\<rparr>))\<rparr>"

definition with_sleep :: "(nat \<Rightarrow> timer_args \<Rightarrow> int \<times> 'w \<Rightarrow> int \<times> int \<times> 'w) \<Rightarrow> nat \<Rightarrow> timer_args \<Rightarrow> int \<times> 'w \<Rightarrow> int \<times> int \<times> 'w" where
  "with_sleep act cb args u = (if cb = sleep_cb then (0, fst u + 1, snd u) else act cb args u)"

interpretation qc: quiet_callbacks "quiet_env clk pool act" "with_sleep act" for clk pool act
  by unfold_locales (simp add: run_callback_def quiet_env_def with_sleep_def Let_def)

datatype timer_op =
    Timer_add "timer member" int int int nat
  | Timer_remove int int
  | Timer_reset int int
  | Timer_alarm

definition run_op :: "nat \<Rightarrow> 'w timer_env \<Rightarrow> timer_op \<Rightarrow> 'w timer_state \<Rightarrow> 'w timer_state res" where
  "run_op k e op st =
     (case op of
        Timer_add junk seconds no m cb \<Rightarrow> bindR (pr_timer_add k e junk seconds no m cb st) (\<lambda>(_, _, st). Ok st)
      | Timer_remove no m \<Rightarrow> bindR (pr_timer_remove k e no m st) (\<lambda>(_, _, st). Ok st)
      | Timer_reset no m \<Rightarrow> bindR (pr_timer_reset k e no m st) (\<lambda>(_, _, st). Ok st)
      | Timer_alarm \<Rightarrow> handle_alarm k e (sig_alarm e st))"

primrec run_ops :: "nat \<Rightarrow> 'w timer_env \<Rightarrow> timer_op list \<Rightarrow> 'w timer_state \<Rightarrow> 'w timer_state res" where
  "run_ops k e [] st = Ok st"
| "run_ops k e (op # ops) st = bindR (run_op k e op st) (run_ops k e ops)"

text \<open>The first timer after \<open>timers_init\<close>. The sets are created on the way, \<open>recycled\<close> by \<open>process_timers\<close>; it makes no
  difference whether it exists before.\<close>

lemma update_again: "AList.update a x (AList.update a y h) = AList.update a x h"
  by (induction h) auto

lemma update_nonempty: "AList.update a x h \<noteq> []"
  by (cases h) auto

lemma process_ensured: "process_timers handle e elapsed (ensure_recycled e st) = process_timers handle e elapsed st"
  by (simp add: process_timers_def ensure_recycled_def)

lemma handle_ensured:
  assumes "nalarms st \<noteq> 0" and "alarms_blocked st = 0"
  shows "handle_alarm (Suc k) e (ensure_recycled e st) = handle_alarm (Suc k) e st"
proof (cases "recycled st = None")
  case True
  let ?st = "\<lambda>st. (if alarmed_time st \<noteq> 0 then st\<lparr>nalarms := 0, alarm_set := 0, ticks := ticks st + 1, total_time := 0\<rparr>
    else st\<lparr>nalarms := 0, alarm_set := 0, total_time := 0\<rparr>)"
  have h: "handle_alarm (Suc k) e st = bindR (process_timers (handle_alarm k e) e
        (total_time st + (if alarmed_time st \<noteq> 0 then clock e (ticks st) - alarmed_time st else 0)) (?st st))
      (\<lambda>(new_timeout, st). let (now, st) = get_time e st in
        handle_alarm k e (st\<lparr>alarmed_time := now, current_timeout := new_timeout, alarm_set := new_timeout\<rparr>))"
    if "nalarms st \<noteq> 0" "alarms_blocked st = 0" for st
    using that by (simp add: get_time_def Let_def)
  have "?st (ensure_recycled e st) = ensure_recycled e (?st st)" using True by (simp add: ensure_recycled_def)
  moreover have "nalarms (ensure_recycled e st) = nalarms st" "alarms_blocked (ensure_recycled e st) = alarms_blocked st"
    "total_time (ensure_recycled e st) = total_time st" "alarmed_time (ensure_recycled e st) = alarmed_time st" "ticks (ensure_recycled e st) = ticks st"
    by (simp_all add: ensure_recycled_def)
  ultimately show ?thesis using assms by (simp only: h [OF assms] h [of "ensure_recycled e st"] process_ensured simp_thms)
next
  case False
  then have "ensure_recycled e st = st" by (simp add: ensure_recycled_def)
  then show ?thesis by (simp only:)
qed

text \<open>The state in which the alarm of the first timer is handled.\<close>

definition one_timer :: "timer member \<Rightarrow> int \<Rightarrow> int \<Rightarrow> int \<Rightarrow> nat \<Rightarrow> timer xaset \<Rightarrow> 'w timer_state \<Rightarrow> 'w timer_state" where
  "one_timer junk seconds no m cb s st =
     st\<lparr>tmem := AList.update (fresh (tmem st))
          (junk\<lparr>mval := \<lparr>tcount = seconds, tinterval = seconds, ttimerno = new_no no st, tmodule = m, tcallback = cb, tremove = 0\<rparr>, mprev := None, mnext := None\<rparr>) (tmem st),
        timers := Some (s\<lparr>xas_list := Some (fresh (tmem st))\<rparr>),
        dynamic_timerno := (if no = - 1 then max 1024 (dynamic_timerno st) + 1 else dynamic_timerno st), nalarms := 1\<rparr>"

lemma add_to_empty:
  assumes "timers st = Some s" and "xas_compare s = Some timer_cmp" and "xas_list s = None" and "free_timers st = Some f" and "xas_list f = None"
    and "indispatch st = 0" and "alarms_blocked st = 0" and "alarm_pending st = 0" and "nalarms st = 0" and "0 \<le> seconds" and "0 < numbers_left st"
  shows "pr_timer_add (Suc k) e junk seconds no m cb st =
    bindR (handle_alarm (Suc k) e (one_timer junk seconds no m cb s st)) (\<lambda>st'. Ok (new_no no st, None, st'))"
proof -
  let ?a = "fresh (tmem st)" and ?d = "if no = - 1 then max 1024 (dynamic_timerno st) + 1 else dynamic_timerno st"
  let ?st = "(pr_alarms_block st)\<lparr>tmem := AList.update (fresh (tmem st)) junk (tmem st)\<rparr>"
  let ?t = "\<lparr>tcount = seconds, tinterval = seconds, ttimerno = new_no no st, tmodule = m, tcallback = cb, tremove = 0\<rparr>"
  let ?st2 = "?st\<lparr>dynamic_timerno := ?d, tmem := AList.update ?a (junk\<lparr>mval := ?t\<rparr>) (tmem st)\<rparr>"
  let ?st3 = "?st2\<lparr>timers := Some (s\<lparr>xas_list := Some ?a\<rparr>), tmem := AList.update ?a (junk\<lparr>mval := ?t, mprev := None, mnext := None\<rparr>) (tmem st)\<rparr>"
  have u: "find_timer (length (tmem st)) P None (tmem st) = Ok None" for P by (cases "length (tmem st)") simp_all
  have t: "take_timer junk (pr_alarms_block st) = Ok (?a, ?st)" using assms(4,5) by (simp add: take_timer_def list_of_def pr_alarms_block_def Let_def)
  have d: "new_timerno no ?st = Ok (new_no no st, ?st\<lparr>dynamic_timerno := ?d\<rparr>)"
    using assms(11) by (cases st) (auto simp: new_timerno_def new_no_def numbers_left_def pr_alarms_block_def Let_def max_def)
  have v: "set_timer ?a (\<lambda>_. ?t) (?st\<lparr>dynamic_timerno := ?d\<rparr>) = Ok ?st2" by (simp add: set_timer_def assign_def update_conv' update_again)
  have w: "sort_walk k cmp dupes x None None h = Ok (False, None, None)" for k cmp dupes x h by (cases k) simp_all
  have i: "timers_insert_sort ?a ?st2 = Ok ?st3"
    using assms(1-3)
    by (simp add: timers_insert_sort_def xaset_insert_sort_def on_member_def insert_member_sort_def w set_link_def assign_def update_conv' update_again pr_alarms_block_def)
  have b: "indispatch ?st2 = 0" "alarms_blocked ?st3 = 1" "alarm_pending ?st3 = 0" "nalarms ?st3 = 0" using assms(6-9) by (simp_all add: pr_alarms_block_def)
  have o: "?st3\<lparr>alarms_blocked := 0, nalarms := 1\<rparr> = one_timer junk seconds no m cb s st"
    using assms(7) by (cases st) (simp add: one_timer_def pr_alarms_block_def)
  show ?thesis
    using assms(1,3,4,10) t d v i b(1) settle [OF b(2-4), of k e "\<lambda>st'. Ok (new_no no st, None, st')"] unfolding o
    by (cases "no = - 1") (simp_all add: pr_timer_add_def u list_of_def Let_def del: handle_alarm.simps)
qed

context quiet_callbacks
begin

lemma refused_ok:
  assumes "ready st ts fs" and "seconds < 0 \<or> no \<noteq> - 1 \<and> (\<exists>x \<in> set ts. ttimerno (tval st x) = no)"
  shows "\<exists>err. pr_timer_add k env junk seconds no m cb st = Ok (- 1, Some err, st)"
proof (cases "seconds < 0")
  case False
  then have no: "no \<noteq> - 1" "\<exists>x \<in> set ts. ttimerno (tval st x) = no" using assms(2) by auto
  have l: "tlists st ts [] fs" using assms(1) by (simp add: ready_def)
  then obtain s1 where s1: "timers st = Some s1" by (auto simp: tlists_def)
  have "find (\<lambda>a. ttimerno (tval st a) = no) ts \<noteq> None" using no(2) by (auto simp: find_None_iff)
  then show ?thesis using False no(1) s1 find_active [OF l s1, of "\<lambda>t. ttimerno t = no"] by (auto simp: pr_timer_add_def list_of_def)
qed (simp add: pr_timer_add_def)

lemma op_ok:
  assumes "ready st ts fs" and "0 < numbers_left st"
  shows "\<exists>st' ts' fs'. run_op (Suc k) env op st = Ok st' \<and> ready st' ts' fs' \<and> numbers_left st \<le> numbers_left st' + 1"
proof (cases op)
  case (Timer_add junk seconds no m cb)
  show ?thesis
  proof (cases "seconds < 0 \<or> no \<noteq> - 1 \<and> (\<exists>x \<in> set ts. ttimerno (tval st x) = no)")
    case True
    then have "run_op (Suc k) env op st = Ok st" using refused_ok [OF assms(1) True, of "Suc k" junk m cb] Timer_add by (auto simp: run_op_def)
    then show ?thesis using assms(1) by (intro exI [of _ st] exI [of _ ts] exI [of _ fs]) simp
  next
    case False
    then have f: "0 \<le> seconds" "no \<noteq> - 1 \<longrightarrow> (\<forall>x \<in> set ts. ttimerno (tval st x) \<noteq> no)" by auto
    obtain st' ts' fs' where "pr_timer_add (Suc k) env junk seconds no m cb st = Ok (new_no no st, None, st')" "ready st' ts' fs'" "numbers_left st \<le> numbers_left st' + 1"
      using add_ok [OF assms(1) f assms(2) refl, of m cb k junk] by blast
    then show ?thesis using Timer_add by (auto simp: run_op_def)
  qed
next
  case (Timer_remove no m)
  show ?thesis
  proof (cases "find (\<lambda>a. is_timer no m (tval st a)) ts")
    case None
    then have "run_op (Suc k) env op st = Ok st" using absent_ok(1) [OF assms(1) None, of "Suc k"] Timer_remove by (simp add: run_op_def)
    then show ?thesis using assms(1) by (intro exI [of _ st] exI [of _ ts] exI [of _ fs]) simp
  next
    case (Some a)
    obtain st' ts' fs' where "pr_timer_remove (Suc k) env no m st = Ok (no, None, st')" "ready st' ts' fs'" "numbers_left st' = numbers_left st"
      using remove_ok [OF assms(1) Some, of k] by blast
    then show ?thesis using Timer_remove by (auto simp: run_op_def)
  qed
next
  case (Timer_reset no m)
  show ?thesis
  proof (cases "find (\<lambda>a. is_timer no m (tval st a)) ts")
    case None
    then have "run_op (Suc k) env op st = Ok st" using absent_ok(2) [OF assms(1) None, of "Suc k"] Timer_reset by (simp add: run_op_def)
    then show ?thesis using assms(1) by (intro exI [of _ st] exI [of _ ts] exI [of _ fs]) simp
  next
    case (Some a)
    obtain st' ts' fs' where "pr_timer_reset (Suc k) env no m st = Ok (no, None, st')" "ready st' ts' fs'" "numbers_left st' = numbers_left st"
      using reset_ok [OF assms(1) Some, of k] by blast
    then show ?thesis using Timer_reset by (auto simp: run_op_def)
  qed
next
  case Timer_alarm
  obtain st' ts' fs' where "handle_alarm (Suc k) env (sig_alarm env st) = Ok st'" "ready st' ts' fs'" "numbers_left st' = numbers_left st"
    using tick_ok [OF assms(1), of k] by blast
  then show ?thesis using Timer_alarm by (intro exI [of _ st'] exI [of _ ts'] exI [of _ fs']) (simp del: handle_alarm.simps add: run_op_def)
qed

lemma first_add_ok:
  assumes "indispatch st = 0" and "alarms_blocked st = 0" and "alarm_pending st = 0" and "0 \<le> seconds" and "0 < numbers_left st"
  shows "\<exists>st' ts' fs'. run_op (Suc k) env (Timer_add junk seconds no m cb) (timers_init st) = Ok st' \<and> ready st' ts' fs' \<and> numbers_left st \<le> numbers_left st' + 1"
proof -
  let ?s = "xaset_create (permanent_pool env) None (Some timer_cmp)" and ?f = "xaset_create (permanent_pool env) None None :: timer xaset"
  let ?st0 = "timers_init st"
  let ?st1 = "?st0\<lparr>timers := Some ?s, free_timers := Some ?f\<rparr>"
  let ?st2 = "?st1\<lparr>recycled := Some ?f\<rparr>"
  have "find_timer (length (tmem st)) P None (tmem st) = Ok None" for P by (cases "length (tmem st)") simp_all
  then have 1: "pr_timer_add (Suc k) env junk seconds no m cb ?st0 = pr_timer_add (Suc k) env junk seconds no m cb ?st1"
    using assms(4) by (cases "no = - 1") (simp_all add: pr_timer_add_def timers_init_def list_of_def xaset_create_def Let_def)
  have n: "numbers_left ?st1 = numbers_left st" "numbers_left ?st2 = numbers_left st" by (simp_all add: numbers_left_def timers_init_def)
  have x: "one_timer junk seconds no m cb ?s ?st2 = ensure_recycled env (one_timer junk seconds no m cb ?s ?st1)"
    by (simp add: one_timer_def ensure_recycled_def timers_init_def new_no_def)
  have "pr_timer_add (Suc k) env junk seconds no m cb ?st1 = bindR (handle_alarm (Suc k) env (one_timer junk seconds no m cb ?s ?st1)) (\<lambda>st'. Ok (new_no no ?st1, None, st'))"
    by (rule add_to_empty [where f = ?f]) (use assms in \<open>simp_all add: timers_init_def xaset_create_def numbers_left_def\<close>)
  moreover have "pr_timer_add (Suc k) env junk seconds no m cb ?st2 = bindR (handle_alarm (Suc k) env (one_timer junk seconds no m cb ?s ?st2)) (\<lambda>st'. Ok (new_no no ?st2, None, st'))"
    by (rule add_to_empty [where f = ?f]) (use assms in \<open>simp_all add: timers_init_def xaset_create_def numbers_left_def\<close>)
  moreover have "handle_alarm (Suc k) env (one_timer junk seconds no m cb ?s ?st2) = handle_alarm (Suc k) env (one_timer junk seconds no m cb ?s ?st1)"
    unfolding x by (rule handle_ensured) (use assms(2) in \<open>simp_all add: one_timer_def timers_init_def\<close>)
  moreover have "new_no no ?st1 = new_no no ?st2" by (simp add: new_no_def)
  ultimately have e: "pr_timer_add (Suc k) env junk seconds no m cb ?st0 = pr_timer_add (Suc k) env junk seconds no m cb ?st2"
    using 1 by (simp only:)
  have "ready ?st2 [] []" using assms(1-3) by (simp add: ready_def tlists_def timers_init_def xaset_create_def)
  then obtain st' ts' fs' where "pr_timer_add (Suc k) env junk seconds no m cb ?st2 = Ok (new_no no ?st2, None, st')" "ready st' ts' fs'" "numbers_left st \<le> numbers_left st' + 1"
    using add_ok [of ?st2 "[]" "[]" seconds no _ m cb k junk] assms(4,5) n(2) by auto
  then show ?thesis using e by (auto simp: run_op_def)
qed

lemma ops_ok: "ready st ts fs \<Longrightarrow> int (length ops) \<le> numbers_left st \<Longrightarrow> \<exists>st' ts' fs'. run_ops (Suc k) env ops st = Ok st' \<and> ready st' ts' fs'"
proof (induction ops arbitrary: st ts fs)
  case Nil
  then show ?case by (simp only: run_ops.simps) blast
next
  case (Cons op ops)
  obtain st1 ts1 fs1 where o: "run_op (Suc k) env op st = Ok st1" "ready st1 ts1 fs1" "numbers_left st \<le> numbers_left st1 + 1"
    using op_ok [OF Cons.prems(1), of k op] Cons.prems(2) by auto
  then show ?case using Cons.IH [OF o(2)] Cons.prems(2) by simp
qed

end

section \<open>Properties\<close>

text \<open>Callbacks that note their calls.\<close>

definition log_calls :: "nat \<Rightarrow> timer_args \<Rightarrow> int \<times> (nat \<times> timer_args) list \<Rightarrow> int \<times> int \<times> (nat \<times> timer_args) list" where
  "log_calls cb args u = (0, fst u, snd u @ [(cb, args)])"

lemma round_logs:
  "round_of (with_sleep log_calls) elapsed ts u = (fts, u') \<Longrightarrow> set (snd u) \<subseteq> set (snd u') \<and>
    (\<forall>t \<in> set ts. tremove t = 0 \<and> tcount t \<le> elapsed \<and> tcallback t \<noteq> sleep_cb \<longrightarrow>
      (tcallback t, tinterval t, ttimerno t, tinterval t - (tcount t - elapsed), tmodule t) \<in> set (snd u'))"
proof (induction ts arbitrary: u fts)
  case (Cons t ts)
  obtain f t' u1 where f: "fate_of (with_sleep log_calls) elapsed t u = (f, t', u1)" by (metis prod_cases3)
  obtain fts' where r: "round_of (with_sleep log_calls) elapsed ts u1 = (fts', u')" using Cons.prems f by (auto split: prod.splits)
  have "set (snd u) \<subseteq> set (snd u1)" using f by (auto simp: fate_of_def with_sleep_def log_calls_def Let_def split: if_splits)
  moreover have "tremove t = 0 \<and> tcount t \<le> elapsed \<and> tcallback t \<noteq> sleep_cb \<Longrightarrow>
      (tcallback t, tinterval t, ttimerno t, tinterval t - (tcount t - elapsed), tmodule t) \<in> set (snd u1)"
    using f by (auto simp: fate_of_def with_sleep_def log_calls_def Let_def split: if_splits)
  ultimately show ?case using Cons.IH [OF r] by auto
qed simp

text \<open>Two active timers, of 5 and of 9 seconds, 6 seconds after the last alarm was handled.\<close>

definition two_timers :: "(nat \<times> timer_args) list timer_state" where
  "two_timers =
     \<lparr>tmem = [(1, \<lparr>mnext = Some 2, mprev = None, mval = \<lparr>tcount = 5, tinterval = 5, ttimerno = 7, tmodule = 0, tcallback = 3, tremove = 0\<rparr>\<rparr>),
        (2, \<lparr>mnext = None, mprev = Some 1, mval = \<lparr>tcount = 9, tinterval = 9, ttimerno = 8, tmodule = 0, tcallback = 4, tremove = 0\<rparr>\<rparr>)],
      timers = Some (\<lparr>xas_list = Some 1, xas_pool = None, xas_compare = Some timer_cmp\<rparr>),
      recycled = Some (\<lparr>xas_list = None, xas_pool = None, xas_compare = None\<rparr>),
      free_timers = Some (\<lparr>xas_list = None, xas_pool = None, xas_compare = None\<rparr>),
      current_timeout = 5, total_time = 0, sleep_sem = 0, alarms_blocked = 0, alarm_pending = 0, indispatch = 0, dynamic_timerno = 1024,
      nalarms = 0, alarmed_time = 1000, recvd_signal_flags = 0, ticks = 0, alarm_set = 5, world = []\<rparr>"

abbreviation later :: "(nat \<times> timer_args) list timer_env" where
  "later \<equiv> quiet_env (\<lambda>n. 1006) None log_calls"

lemma two_ready: "tlists two_timers [1, 2] [] []" "ready two_timers [1, 2] []" "elapsed_time later two_timers = 6" "numbers_left two_timers = 2147482623"
  "map (tval two_timers) [1, 2] = [\<lparr>tcount = 5, tinterval = 5, ttimerno = 7, tmodule = 0, tcallback = 3, tremove = 0\<rparr>,
     \<lparr>tcount = 9, tinterval = 9, ttimerno = 8, tmodule = 0, tcallback = 4, tremove = 0\<rparr>]"
  by (simp_all add: two_timers_def tlists_def ready_def tval_def member_val_def elapsed_time_def numbers_left_def quiet_env_def)

text \<open>C10: A round of \<open>process_timers\<close>, for callbacks that do not use the timers, is the round \<open>round_of\<close> describes: every active
  timer that is due has its callback called once, with its interval, number, elapsed time and module; it is freed when the callback returns 0
  and started again with its whole interval otherwise, and the other timers stay with what is left of their time. Afterwards the active timers
  are in the order of their remaining time, none is left to be started again, and the result is the remaining time of the first.\<close>

theorem round_processed:
  assumes "tlists st ts [] fs" and "by_count (map (tval st) ts)" and "indispatch st = 0" and "alarm_pending st = 0" and "elapsed \<noteq> 0"
    and "round_of (with_sleep act) elapsed (map (tval st) ts) (sleep_sem st, world st) = (fts, s, w)"
  shows "\<exists>st' ts' fs'. process_timers handle (quiet_env clk pool act) elapsed st = Ok (head_count (map (tval st') ts'), st') \<and>
    tlists st' ts' [] (fs' @ fs) \<and> by_count (map (tval st') ts') \<and> mset (map (tval st') ts') = mset (with_fate Stays fts @ with_fate Again fts) \<and>
    map (tval st') (rev fs') = with_fate Freed fts \<and> sleep_sem st' = s \<and> world st' = w"
proof -
  have "due_round (with_sleep act) elapsed (map (tval st) ts) (sleep_sem st, world st) = (fts, s, w)" using assms(5,6) by (simp add: due_round_def)
  then show ?thesis using qc.process_ok [OF assms(1-4), of act elapsed fts s w handle clk pool] by auto
qed

theorem round_processed_witness:
  "\<exists>st' ts' fs'. process_timers Ok later 6 two_timers = Ok (head_count (map (tval st') ts'), st') \<and> tlists st' ts' [] (fs' @ []) \<and> by_count (map (tval st') ts') \<and>
    mset (map (tval st') ts') = mset [\<lparr>tcount = 3, tinterval = 9, ttimerno = 8, tmodule = 0, tcallback = 4, tremove = 0\<rparr>] \<and>
    world st' = [(3, 5, 7, 6, 0)]"
proof -
  have r: "round_of (with_sleep log_calls) 6 (map (tval two_timers) [1, 2]) (sleep_sem two_timers, world two_timers) =
      ([(Freed, \<lparr>tcount = - 1, tinterval = 5, ttimerno = 7, tmodule = 0, tcallback = 3, tremove = 0\<rparr>),
        (Stays, \<lparr>tcount = 3, tinterval = 9, ttimerno = 8, tmodule = 0, tcallback = 4, tremove = 0\<rparr>)], 0, [(3, 5, 7, 6, 0)])"
    unfolding two_ready(5) by (simp add: two_timers_def fate_of_def with_sleep_def log_calls_def sleep_cb_def)
  have "by_count (map (tval two_timers) [1, 2])" "indispatch two_timers = 0" "alarm_pending two_timers = 0" using two_ready(2) unfolding ready_def by simp_all
  from round_processed [OF two_ready(1) this _ r, where handle = Ok and clk = "\<lambda>n. 1006" and pool = None]
  show ?thesis by auto
qed



text \<open>A new timer is charged with time that passed before it was added: when at least \<open>seconds\<close> have passed since the last alarm was handled,
  \<open>pr_timer_add\<close> itself calls the callback of the new timer, and tells it that all that time has elapsed since.\<close>

theorem timer_add_charged:
  assumes "ready st ts fs" and "0 \<le> seconds" and "no \<noteq> - 1 \<longrightarrow> (\<forall>x \<in> set ts. ttimerno (tval st x) \<noteq> no)" and "0 < numbers_left st" and "cb \<noteq> sleep_cb"
    and "e = quiet_env clk pool log_calls" and "seconds \<le> elapsed_time e st" and "elapsed_time e st \<noteq> 0"
  shows "\<exists>st'. pr_timer_add (Suc k) e junk seconds no m cb st = Ok (new_no no st, None, st') \<and>
    (cb, seconds, new_no no st, elapsed_time e st, m) \<in> set (world st')"
proof -
  define t where "t = \<lparr>tcount = seconds, tinterval = seconds, ttimerno = new_no no st, tmodule = m, tcallback = cb, tremove = 0\<rparr>"
  obtain us vs fts s w st' where a: "due_round (with_sleep log_calls) (elapsed_time e st) (us @ t # vs) (sleep_sem st, world st) = (fts, s, w)"
      "pr_timer_add (Suc k) e junk seconds no m cb st = Ok (new_no no st, None, st')" "world st' = w"
    using qc.add_ok [OF assms(1-4) t_def, where clk = clk and pool = pool and act = log_calls and k = k and junk = junk] unfolding assms(6) by blast
  have "round_of (with_sleep log_calls) (elapsed_time e st) (us @ t # vs) (sleep_sem st, world st) = (fts, s, w)"
    using a(1) assms(8) by (simp add: due_round_def)
  then have "(tcallback t, tinterval t, ttimerno t, tinterval t - (tcount t - elapsed_time e st), tmodule t) \<in> set w"
    using round_logs [of "elapsed_time e st" "us @ t # vs" "(sleep_sem st, world st)" fts "(s, w)"] assms(5,7) by (auto simp: t_def)
  then show ?thesis using a(2,3) by (intro exI [of _ st']) (simp add: t_def)
qed

theorem timer_add_charged_witness:
  "\<exists>st'. pr_timer_add 1 later \<lparr>mnext = None, mprev = None, mval = undefined\<rparr> 6 9 0 5 two_timers = Ok (9, None, st') \<and> (5, 6, 9, 6, 0) \<in> set (world st')"
proof -
  have n: "(9 :: int) \<noteq> - 1 \<longrightarrow> (\<forall>x \<in> set [1, 2]. ttimerno (tval two_timers x) \<noteq> 9)" using two_ready(5) by simp
  show ?thesis
    using timer_add_charged [OF two_ready(2) _ n, of 6 5 later "\<lambda>n. 1006" None 0 "\<lparr>mnext = None, mprev = None, mval = undefined\<rparr>" 0] two_ready(3,4)
    by (simp add: sleep_cb_def new_no_def)
qed

text \<open>A timer that a callback adds corrupts memory: the struct comes uninitialised from \<open>palloc\<close> and \<open>xaset_insert\<close> leaves its \<open>prev\<close> as it is, so
  when \<open>process_timers\<close> takes it back from \<open>recycled\<close>, \<open>xaset_remove\<close> writes through what \<open>prev\<close> happens to hold.\<close>

theorem add_in_dispatch:
  assumes "tlists st ts [] []" and "indispatch st \<noteq> 0" and "0 < alarms_blocked st" and "0 \<le> seconds" and "0 < numbers_left st"
    and "mprev junk = Some p" and "map_of (tmem st) p = None" and "p \<noteq> fresh (tmem st)"
  shows "\<exists>st'. pr_timer_add k e junk seconds (- 1) m cb st = Ok (new_no (- 1) st, None, st') \<and> requeue_loop (Suc j) st' = Fault Dangling_pointer"
proof -
  obtain s1 s2 s3 where s: "timers st = Some s1" "xas_compare s1 = Some timer_cmp" "recycled st = Some s2" "free_timers st = Some s3"
      "members_of (tmem st) (xas_list s1) ts" "members_of (tmem st) (xas_list s2) []" "members_of (tmem st) (xas_list s3) []" "distinct (ts @ [] @ [])"
    using assms(1) by (rule tlistsE)
  let ?a = "fresh (tmem st)" and ?st = "(pr_alarms_block st)\<lparr>tmem := AList.update (fresh (tmem st)) junk (tmem st)\<rparr>"
  obtain d where d: "new_timerno (- 1) ?st = Ok (new_no (- 1) st, ?st\<lparr>dynamic_timerno := d\<rparr>)"
    using new_timerno_ok [of ?st "- 1"] assms(5) by (auto simp: numbers_left_def new_no_def pr_alarms_block_def)
  let ?t = "\<lparr>tcount = seconds, tinterval = seconds, ttimerno = new_no (- 1) st, tmodule = m, tcallback = cb, tremove = 0\<rparr>"
  let ?n = "junk\<lparr>mval := ?t, mnext := None\<rparr>"
  let ?st' = "st\<lparr>tmem := AList.update ?a ?n (tmem st), recycled := Some (s2\<lparr>xas_list := Some ?a\<rparr>), dynamic_timerno := d\<rparr>"
  have e: "xas_list s2 = None" "xas_list s3 = None" using s(6,7) by auto
  have "take_timer junk (pr_alarms_block st) = Ok (?a, ?st)" using s(4) e(2) by (simp add: take_timer_def list_of_def pr_alarms_block_def Let_def)
  moreover have "set_timer ?a (\<lambda>_. ?t) (?st\<lparr>dynamic_timerno := d\<rparr>) = Ok (?st\<lparr>dynamic_timerno := d, tmem := AList.update ?a (junk\<lparr>mval := ?t\<rparr>) (tmem st)\<rparr>)"
    by (simp add: set_timer_def assign_def update_conv' update_again)
  moreover have "recycled_insert ?a (?st\<lparr>dynamic_timerno := d, tmem := AList.update ?a (junk\<lparr>mval := ?t\<rparr>) (tmem st)\<rparr>) =
      Ok (?st\<lparr>dynamic_timerno := d, recycled := Some (s2\<lparr>xas_list := Some ?a\<rparr>), tmem := AList.update ?a ?n (tmem st)\<rparr>)"
    using s(3) e(1) by (simp add: recycled_insert_def xaset_insert_def on_member_def insert_member_def assign_def update_conv' update_again pr_alarms_block_def)
  moreover have "pr_alarms_unblock (handle_alarm k e) (?st\<lparr>dynamic_timerno := d, recycled := Some (s2\<lparr>xas_list := Some ?a\<rparr>), tmem := AList.update ?a ?n (tmem st)\<rparr>) = Ok ?st'"
    using assms(3) by (cases st) (simp add: pr_alarms_block_def pr_alarms_unblock_def Let_def)
  moreover have "indispatch (pr_alarms_block st) = indispatch st" "recycled (pr_alarms_block st) = Some s2" using s(3) by (simp_all add: pr_alarms_block_def)
  ultimately have "pr_timer_add k e junk seconds (- 1) m cb st = Ok (new_no (- 1) st, None, ?st')"
    using s(1,4) d assms(2,4) by (simp add: pr_timer_add_def ensure_recycled_def)
  moreover have "xaset_remove (recycled ?st') (Some ?a) (tmem ?st') = Fault Dangling_pointer"
  proof -
    obtain j where "length (tmem ?st') = Suc j" using update_nonempty [of ?a ?n "tmem st"] by (cases "tmem ?st'") auto
    then have "is_member (length (tmem ?st')) ?a (Some ?a) (tmem ?st') = Ok True" by simp
    moreover have "map_of (tmem ?st') p = None" using assms(7,8) by (simp add: update_conv')
    ultimately show ?thesis using assms(6) by (simp add: xaset_remove_def on_member_def remove_member_def set_link_def assign_def deref_def update_conv')
  qed
  ultimately show ?thesis by (intro exI [of _ ?st']) (simp add: list_of_def recycled_remove_def)
qed

theorem add_in_dispatch_witness:
  "\<exists>st'. pr_timer_add 1 later \<lparr>mnext = None, mprev = Some 99, mval = undefined\<rparr> 60 (- 1) 0 5 (two_timers\<lparr>indispatch := 1, alarms_blocked := 1\<rparr>) = Ok (1024, None, st') \<and>
    requeue_loop 1 st' = Fault Dangling_pointer"
  using add_in_dispatch [of "two_timers\<lparr>indispatch := 1, alarms_blocked := 1\<rparr>" "[1, 2]" 60 "\<lparr>mnext = None, mprev = Some 99, mval = undefined\<rparr>" 99 1 later 0 5 0]
  by (simp add: two_timers_def tlists_def numbers_left_def new_no_def fresh_def)

text \<open>\<open>pr_timer_reset\<close> before any timer was added reads through a null pointer, where \<open>pr_timer_remove\<close> returns 0.\<close>

lemma reset_without_timers:
  "timers st = None \<Longrightarrow> indispatch st = 0 \<Longrightarrow> pr_timer_reset k e no m st = Fault Null_pointer \<and> pr_timer_remove k e no m st = Ok (0, None, st)"
  by (simp add: pr_timer_reset_def pr_timer_remove_def list_of_def ensure_recycled_def pr_alarms_block_def Let_def)

end
