(* ===== verification/Proxy_Codec.thy ===== *)
theory Proxy_Codec
  imports Prelude
begin

text \<open>
  The encodings of 3proxy (\<^verbatim>\<open>test_sources/3proxy/src/base64.c\<close>): base64 for the credentials of proxies and the
  hexadecimal form of password hashes. Input and output are different objects; a position in one of them
  stands for the pointer that runs over it.
\<close>

unbundle bit_operations_syntax

section \<open>The code\<close>

definition base64digits :: "byte list" where
  "base64digits = bytes_of ''ABCDEFGHIJKLMNOPQRSTUVWXYZabcdefghijklmnopqrstuvwxyz0123456789+/'' @ [0]"

definition BAD :: byte where "BAD = 255"

definition base64val :: "byte list" where
  "base64val = replicate 43 BAD @ [62, BAD, BAD, BAD, 63, 52, 53, 54, 55, 56, 57, 58, 59, 60, 61, BAD, BAD, BAD, BAD, BAD, BAD,
     BAD, 0, 1, 2, 3, 4, 5, 6, 7, 8, 9, 10, 11, 12, 13, 14, 15, 16, 17, 18, 19, 20, 21, 22, 23, 24, 25, BAD, BAD, BAD, BAD, BAD,
     BAD, 26, 27, 28, 29, 30, 31, 32, 33, 34, 35, 36, 37, 38, 39, 40, 41, 42, 43, 44, 45, 46, 47, 48, 49, 50, 51, BAD, BAD, BAD, BAD, BAD]"

definition DECODE64 :: "byte \<Rightarrow> byte" where
  "DECODE64 c = (if 32 < c \<and> c < 127 then base64val ! unat c else BAD)"

text \<open>One group of \<open>en64\<close>: four digits for at most three bytes.\<close>

definition en64_group :: "byte list \<Rightarrow> int \<Rightarrow> int \<Rightarrow> byte list res" where
  "en64_group inb i inlen =
     bindR (rd inb i) (\<lambda>a.
     bindR (if inlen > 1 then rd inb (i + 1) else Ok 0) (\<lambda>b.
     bindR (if inlen > 2 then rd inb (i + 2) else Ok 0) (\<lambda>c.
     bindR (rd base64digits (uint (drop_bit 2 a))) (\<lambda>d1.
     bindR (rd base64digits (uint (push_bit 4 (a AND 3) OR (if inlen > 1 then drop_bit 4 b else 0)))) (\<lambda>d2.
     bindR (if inlen > 1 then rd base64digits (uint ((push_bit 2 b AND 60) OR (if inlen > 2 then drop_bit 6 c else 0))) else Ok 61) (\<lambda>d3.
     bindR (if inlen > 2 then rd base64digits (uint (c AND 63)) else Ok 61) (\<lambda>d4.
       Ok [d1, d2, d3, d4])))))))"

function en64_loop :: "byte list \<Rightarrow> int \<Rightarrow> byte list \<Rightarrow> int \<Rightarrow> int \<Rightarrow> (byte list \<times> int) res" where
  "en64_loop inb i out j inlen =
     (if inlen > 0 then
        bindR (en64_group inb i inlen) (\<lambda>ds.
        bindR (wr_block out j ds) (\<lambda>out. en64_loop inb (i + 3) out (j + 4) (inlen - 3)))
      else Ok (out, j))"
  by pat_completeness auto
termination by (relation "measure (\<lambda>(inb, i, out, j, inlen). nat inlen)") auto

text \<open>\<open>en64\<close> returns the position of the NUL.\<close>

definition en64 :: "byte list \<Rightarrow> byte list \<Rightarrow> int \<Rightarrow> (byte list \<times> int) res" where
  "en64 inb out inlen =
     bindR (en64_loop inb 0 out 0 inlen) (\<lambda>(out, j).
     bindR (wr out j 0) (\<lambda>out. Ok (out, j)))"

text \<open>What a group of \<open>de64\<close> stores: the first byte, a second one unless the third digit is \<open>=\<close>, and a third one unless the
  fourth is.\<close>

definition de64_bytes :: "byte \<Rightarrow> byte \<Rightarrow> byte \<Rightarrow> byte \<Rightarrow> byte list" where
  "de64_bytes d1 d2 d3 d4 =
     (push_bit 2 (DECODE64 d1) OR drop_bit 4 (DECODE64 d2)) #
     (if d3 \<noteq> 61 then
        ((push_bit 4 (DECODE64 d2) AND 240) OR drop_bit 2 (DECODE64 d3)) #
        (if d4 \<noteq> 61 then [(push_bit 6 (DECODE64 d3) AND 192) OR DECODE64 d4] else [])
      else [])"

function de64_loop :: "byte list \<Rightarrow> int \<Rightarrow> byte list \<Rightarrow> int \<Rightarrow> int \<Rightarrow> (int \<times> byte list) res" where
  "de64_loop inb i out len maxlen =
     bindR (rd inb i) (\<lambda>d1.
     if DECODE64 d1 = BAD then Ok (- 1, out)
     else
       bindR (rd inb (i + 1)) (\<lambda>d2.
       if DECODE64 d2 = BAD then Ok (- 1, out)
       else
         bindR (rd inb (i + 2)) (\<lambda>d3.
         if d3 \<noteq> 61 \<and> DECODE64 d3 = BAD then Ok (- 1, out)
         else
           bindR (rd inb (i + 3)) (\<lambda>d4.
           if d4 \<noteq> 61 \<and> DECODE64 d4 = BAD then Ok (- 1, out)
           else
             bindR (wr_block out len (de64_bytes d1 d2 d3 d4)) (\<lambda>out.
             let len = len + int (length (de64_bytes d1 d2 d3 d4)) in
             bindR (rd inb (i + 4)) (\<lambda>c.
             if c \<noteq> 0 \<and> c \<noteq> 13 \<and> d4 \<noteq> 61 \<and> maxlen - 4 \<ge> 4 then de64_loop inb (i + 4) out len (maxlen - 4)
             else Ok (len, out)))))))"
  by pat_completeness auto
termination by (relation "measure (\<lambda>(inb, i, out, len, maxlen). nat (int (length inb) - i))") (auto simp: rd_eq_Ok)

definition de64 :: "byte list \<Rightarrow> byte list \<Rightarrow> int \<Rightarrow> (int \<times> byte list) res" where
  "de64 inb out maxlen =
     bindR (rd inb 0) (\<lambda>a.
     bindR (if a = 43 then rd inb 1 else Ok 0) (\<lambda>b.
     let i = (if a = 43 \<and> b = 32 then 2 else 0) in
     bindR (rd inb i) (\<lambda>c.
     if c = 13 then Ok (0, out) else de64_loop inb i out 0 maxlen)))"

definition hex :: "byte list" where
  "hex = bytes_of ''0123456789ABCDEF'' @ [0]"

primrec tohex_loop :: "nat \<Rightarrow> byte list \<Rightarrow> int \<Rightarrow> byte list \<Rightarrow> byte list res" where
  "tohex_loop 0 inb i out = wr out (2 * i) 0"
| "tohex_loop (Suc n) inb i out =
     bindR (rd inb i) (\<lambda>b.
     bindR (rd hex (uint (drop_bit 4 b))) (\<lambda>d1.
     bindR (wr out (2 * i) d1) (\<lambda>out.
     bindR (rd hex (uint (b AND 15))) (\<lambda>d2.
     bindR (wr out (2 * i + 1) d2) (tohex_loop n inb (i + 1))))))"

definition tohex :: "byte list \<Rightarrow> byte list \<Rightarrow> int \<Rightarrow> byte list res" where
  "tohex inb out len = tohex_loop (nat len) inb 0 out"

text \<open>\<open>strchr(hex, c)\<close> as an index; the terminating NUL is found, too.\<close>

definition hex_index :: "byte \<Rightarrow> int option" where
  "hex_index c = (if c \<in> set hex then Some (int (length (takeWhile (\<lambda>d. d \<noteq> c) hex))) else None)"

primrec fromhex_loop :: "nat \<Rightarrow> byte list \<Rightarrow> int \<Rightarrow> byte list \<Rightarrow> int \<Rightarrow> byte list res" where
  "fromhex_loop 0 inb i out j = Ok out"
| "fromhex_loop (Suc n) inb i out j =
     bindR (rd inb i) (\<lambda>a.
     bindR (rd inb (i + 1)) (\<lambda>b.
     case (hex_index a, hex_index b) of
       (Some c1, Some c2) \<Rightarrow> bindR (wr out j (word_of_int (c1 * 16 + c2))) (\<lambda>out. fromhex_loop n inb (i + 2) out (j + 1))
     | _ \<Rightarrow> fromhex_loop n inb (i + 2) out j))"

definition fromhex :: "byte list \<Rightarrow> byte list \<Rightarrow> int \<Rightarrow> byte list res" where
  "fromhex inb out len = fromhex_loop (nat len) inb 0 out 0"

end
