(* ===== verification/Proxy_Base64.thy ===== *)
theory Proxy_Base64
  imports Proxy_Codec
begin

text \<open>
  What the encodings of 3proxy do: \<open>en64\<close> writes the base64 form of a block and \<open>de64\<close> and \<open>fromhex\<close> undo \<open>en64\<close> and \<open>tohex\<close>;
  \<open>de64\<close> stays inside its buffers on every string.
\<close>

section \<open>Digits\<close>

definition digit64 :: "byte \<Rightarrow> byte" where
  "digit64 x = base64digits ! unat x"

lemma base64digits_eq: "base64digits = [65, 66, 67, 68, 69, 70, 71, 72, 73, 74, 75, 76, 77, 78, 79, 80, 81, 82, 83, 84, 85, 86, 87, 88, 89, 90, 97, 98, 99,
     100, 101, 102, 103, 104, 105, 106, 107, 108, 109, 110, 111, 112, 113, 114, 115, 116, 117, 118, 119, 120, 121, 122,
     48, 49, 50, 51, 52, 53, 54, 55, 56, 57, 43, 47, 0]"
  by (simp add: base64digits_def bytes_of_def)

lemmas base64val_eq = base64val_def [unfolded BAD_def]

lemma decode_digits: "map DECODE64 (take 64 base64digits) = map word_of_nat [0..<64]"
  by (simp add: base64digits_eq DECODE64_def base64val_eq nth_append upt_rec)

lemma digits_plain: "\<forall>d \<in> set (take 64 base64digits). d \<notin> {0, 13, 32, 61}"
  by (simp add: base64digits_eq)

lemma digit64_ok:
  assumes "x < 64"
  shows "rd base64digits (uint x) = Ok (digit64 x)" and "DECODE64 (digit64 x) = x" and "digit64 x \<notin> {0, 13, 32, 61}"
proof -
  have n: "unat x < 64" using assms by (simp add: word_less_nat_alt)
  have l: "length base64digits = 65" by (simp add: base64digits_eq)
  have "uint x < 64" using assms by (simp add: word_less_def)
  then show "rd base64digits (uint x) = Ok (digit64 x)" using l by (simp add: rd_def digit64_def)
  have t: "take 64 base64digits ! unat x = digit64 x" using n by (simp add: digit64_def)
  have "map DECODE64 (take 64 base64digits) ! unat x = word_of_nat (unat x)" unfolding decode_digits using n by simp
  then show "DECODE64 (digit64 x) = x" using n l t by simp
  have "take 64 base64digits ! unat x \<in> set (take 64 base64digits)" using n l by (intro nth_mem) simp
  then show "digit64 x \<notin> {0, 13, 32, 61}" using digits_plain unfolding t by blast
qed

lemma byte_bits: "(\<And>n. n < 8 \<Longrightarrow> bit (a :: byte) n \<longleftrightarrow> bit b n) \<Longrightarrow> a = b"
  by (rule bit_word_eqI) simp

lemma less_8: "n < (8 :: nat) \<longleftrightarrow> n = 0 \<or> n = 1 \<or> n = 2 \<or> n = 3 \<or> n = 4 \<or> n = 5 \<or> n = 6 \<or> n = 7"
  by auto

lemma join1: "push_bit 2 (drop_bit 2 a) OR drop_bit 4 (push_bit 4 (a AND 3) OR drop_bit 4 b) = (a :: byte)"
  by (rule byte_bits, (auto simp: less_8 bit_simps)) (simp_all add: numeral_2_eq_2 numeral_3_eq_3)

lemma join2: "(push_bit 4 (push_bit 4 (a AND 3) OR drop_bit 4 b) AND 240) OR drop_bit 2 ((push_bit 2 b AND 60) OR drop_bit 6 c) = (b :: byte)"
  by (rule byte_bits) (auto simp: less_8 bit_simps)

lemma join3: "(push_bit 6 ((push_bit 2 b AND 60) OR drop_bit 6 c) AND 192) OR (c AND 63) = (c :: byte)"
  by (rule byte_bits) (auto simp: less_8 bit_simps)

text \<open>The six bits of every digit.\<close>

lemma six_bits: "\<not> bit x 6 \<Longrightarrow> \<not> bit x 7 \<Longrightarrow> (x :: byte) < 64"
proof -
  assume "\<not> bit x 6" "\<not> bit x 7"
  then have "x = take_bit 6 x" by (intro byte_bits) (auto simp: less_8 bit_simps)
  then have "unat x < 2 ^ 6" by (metis take_bit_nat_less_exp unsigned_take_bit_eq)
  then show ?thesis by (simp add: word_less_nat_alt)
qed

lemma high_bits: "8 \<le> n \<Longrightarrow> \<not> bit (a :: byte) n"
  by (auto dest: bit_imp_le_length)

lemma digit_less:
  "drop_bit 2 (a :: byte) < 64" "push_bit 4 (a AND 3) OR drop_bit 4 b < (64 :: byte)" "(push_bit 2 b AND 60) OR drop_bit 6 c < (64 :: byte)" "c AND 63 < (64 :: byte)"
  "push_bit 4 (a AND 3) < (64 :: byte)" "push_bit 2 b AND 60 < (64 :: byte)" "push_bit 4 a AND 48 OR drop_bit 4 b < (64 :: byte)" "push_bit 4 a AND 48 < (64 :: byte)"
  by (rule six_bits; simp add: bit_simps high_bits)+

lemma decoded_good: "x < 64 \<Longrightarrow> x \<noteq> BAD"
  by (auto simp: BAD_def)

section \<open>Base64\<close>

text \<open>The base64 form of a block.\<close>

fun encode64 :: "byte list \<Rightarrow> byte list" where
  "encode64 [] = []"
| "encode64 [a] = [digit64 (drop_bit 2 a), digit64 (push_bit 4 (a AND 3)), 61, 61]"
| "encode64 [a, b] = [digit64 (drop_bit 2 a), digit64 (push_bit 4 (a AND 3) OR drop_bit 4 b), digit64 (push_bit 2 b AND 60), 61]"
| "encode64 (a # b # c # xs) =
     [digit64 (drop_bit 2 a), digit64 (push_bit 4 (a AND 3) OR drop_bit 4 b), digit64 ((push_bit 2 b AND 60) OR drop_bit 6 c), digit64 (c AND 63)] @ encode64 xs"

lemma encode64_length: "length (encode64 xs) = 4 * ((length xs + 2) div 3)"
proof (induction xs rule: encode64.induct)
  case (4 a b c xs)
  have "(length xs + 5) div 3 = (length xs + 2) div 3 + 1" by presburger
  then show ?case using 4 by (simp add: add.commute)
qed simp_all

declare en64_loop.simps [simp del] de64_loop.simps [simp del]

lemma rd_at: "rd (pre @ xs) (int (length pre) + int n) = (if n < length xs then Ok (xs ! n) else Fault Out_of_bounds)"
  by (simp add: rd_def nth_append nat_int_add)

lemmas rd_at0 = rd_at [where n = 0, simplified] and rd_at1 = rd_at [where n = 1, simplified] and rd_at2 = rd_at [where n = 2, simplified]

lemma en64_group_ok:
  "en64_group (pre @ a # b # c # xs) (int (length pre)) (int (length (a # b # c # ys))) = Ok (take 4 (encode64 (a # b # c # ys)))"
  "en64_group (pre @ a # b # xs) (int (length pre)) 2 = Ok (encode64 [a, b])"
  "en64_group (pre @ a # xs) (int (length pre)) 1 = Ok (encode64 [a])"
  unfolding en64_group_def by (simp_all add: rd_at0 rd_at1 rd_at2 digit64_ok(1) digit_less)

lemma en64_loop_ok:
  "length (encode64 xs) \<le> length v \<Longrightarrow>
    en64_loop (pre @ xs @ suf) (int (length pre)) (u @ v) (int (length u)) (int (length xs)) =
      Ok (u @ encode64 xs @ drop (length (encode64 xs)) v, int (length u + length (encode64 xs)))"
proof (induction xs arbitrary: pre u v rule: encode64.induct)
  case 1
  then show ?case by (simp add: en64_loop.simps)
next
  case (2 a)
  then show ?case by (subst en64_loop.simps) (simp add: en64_group_ok wr_block_append en64_loop.simps)
next
  case (3 a b)
  then show ?case by (subst en64_loop.simps) (simp add: en64_group_ok wr_block_append en64_loop.simps)
next
  case (4 a b c xs)
  let ?ds = "take 4 (encode64 (a # b # c # xs))"
  have d: "encode64 (a # b # c # xs) = ?ds @ encode64 xs" "length ?ds = 4" by simp_all
  have w: "wr_block (u @ v) (int (length u)) ?ds = Ok (u @ ?ds @ drop 4 v)" using 4(2) by (simp add: wr_block_append numeral_eq_Suc)
  have "en64_loop (pre @ (a # b # c # xs) @ suf) (int (length pre)) (u @ v) (int (length u)) (int (length (a # b # c # xs))) =
      en64_loop ((pre @ [a, b, c]) @ xs @ suf) (int (length (pre @ [a, b, c]))) ((u @ ?ds) @ drop 4 v) (int (length (u @ ?ds))) (int (length xs))"
    using en64_group_ok(1) [of pre a b c "xs @ suf" xs] w by (subst en64_loop.simps) (simp add: add.commute)
  also have "\<dots> = Ok ((u @ ?ds) @ encode64 xs @ drop (length (encode64 xs)) (drop 4 v), int (length (u @ ?ds) + length (encode64 xs)))"
    using 4(2) by (intro "4.IH") simp
  finally show ?case by (simp add: ac_simps numeral_eq_Suc)
qed

lemma en64_ok:
  assumes "length (encode64 xs) < length out"
  shows "en64 (xs @ suf) out (int (length xs)) = Ok (encode64 xs @ 0 # drop (length (encode64 xs) + 1) out, int (length (encode64 xs)))"
proof -
  let ?n = "length (encode64 xs)"
  have "en64_loop (xs @ suf) 0 out 0 (int (length xs)) = Ok (encode64 xs @ drop ?n out, int ?n)"
    using en64_loop_ok [of xs out "[]" suf "[]"] assms by simp
  moreover have "drop ?n out = out ! ?n # drop (?n + 1) out" using assms by (simp add: Cons_nth_drop_Suc)
  ultimately show ?thesis using assms by (simp add: en64_def wr_as_block wr_block_append)
qed

text \<open>Decoding a group.\<close>

lemma de64_bytes_ok:
  "de64_bytes (digit64 (drop_bit 2 a)) (digit64 (push_bit 4 (a AND 3) OR drop_bit 4 b)) (digit64 ((push_bit 2 b AND 60) OR drop_bit 6 c)) (digit64 (c AND 63)) = [a, b, c]"
  "de64_bytes (digit64 (drop_bit 2 a)) (digit64 (push_bit 4 (a AND 3) OR drop_bit 4 b)) (digit64 (push_bit 2 b AND 60)) 61 = [a, b]"
  "de64_bytes (digit64 (drop_bit 2 a)) (digit64 (push_bit 4 (a AND 3))) 61 61 = [a]"
proof -
  note d = digit64_ok(2) [OF digit_less(1)] digit64_ok(2) [OF digit_less(2)] digit64_ok(2) [OF digit_less(3)] digit64_ok(2) [OF digit_less(4)]
    digit64_ok(2) [OF digit_less(5)] digit64_ok(2) [OF digit_less(6)]
  have n: "x < 64 \<Longrightarrow> digit64 x \<noteq> 61" for x using digit64_ok(3) by blast
  note e = n [OF digit_less(3)] n [OF digit_less(4)] n [OF digit_less(6)]
  have j1: "push_bit 2 (drop_bit 2 a) OR drop_bit 4 (push_bit 4 (a AND 3)) = a" using join1 [of a 0] by (simp only: drop_bit_of_0 or.right_neutral)
  have j2: "(push_bit 4 (push_bit 4 (a AND 3) OR drop_bit 4 b) AND 240) OR drop_bit 2 (push_bit 2 b AND 60) = b"
    using join2 [of a b 0] by (simp only: drop_bit_of_0 or.right_neutral)
  show "de64_bytes (digit64 (drop_bit 2 a)) (digit64 (push_bit 4 (a AND 3) OR drop_bit 4 b)) (digit64 ((push_bit 2 b AND 60) OR drop_bit 6 c)) (digit64 (c AND 63)) = [a, b, c]"
    by (simp only: de64_bytes_def d e join1 join2 join3 not_False_eq_True if_True)
  show "de64_bytes (digit64 (drop_bit 2 a)) (digit64 (push_bit 4 (a AND 3) OR drop_bit 4 b)) (digit64 (push_bit 2 b AND 60)) 61 = [a, b]"
    by (simp only: de64_bytes_def d e join1 j2 not_False_eq_True if_True simp_thms if_False)
  show "de64_bytes (digit64 (drop_bit 2 a)) (digit64 (push_bit 4 (a AND 3))) 61 61 = [a]"
    by (simp only: de64_bytes_def d j1 simp_thms if_False)
qed

lemma de64_step:
  assumes "DECODE64 d1 \<noteq> BAD" and "DECODE64 d2 \<noteq> BAD" and "d3 = 61 \<or> DECODE64 d3 \<noteq> BAD" and "d4 = 61 \<or> DECODE64 d4 \<noteq> BAD"
    and "length (de64_bytes d1 d2 d3 d4) \<le> length v"
  shows "de64_loop (pre @ d1 # d2 # d3 # d4 # c # suf) (int (length pre)) (u @ v) (int (length u)) maxlen =
    (if c \<noteq> 0 \<and> c \<noteq> 13 \<and> d4 \<noteq> 61 \<and> maxlen - 4 \<ge> 4
     then de64_loop ((pre @ [d1, d2, d3, d4]) @ c # suf) (int (length (pre @ [d1, d2, d3, d4])))
       ((u @ de64_bytes d1 d2 d3 d4) @ drop (length (de64_bytes d1 d2 d3 d4)) v) (int (length (u @ de64_bytes d1 d2 d3 d4))) (maxlen - 4)
     else Ok (int (length (u @ de64_bytes d1 d2 d3 d4)), (u @ de64_bytes d1 d2 d3 d4) @ drop (length (de64_bytes d1 d2 d3 d4)) v))"
proof -
  let ?in = "pre @ d1 # d2 # d3 # d4 # c # suf" and ?bs = "de64_bytes d1 d2 d3 d4"
  have r: "rd ?in (int (length pre)) = Ok d1" "rd ?in (int (length pre) + 1) = Ok d2" "rd ?in (int (length pre) + 2) = Ok d3"
      "rd ?in (int (length pre) + 3) = Ok d4" "rd ?in (int (length pre) + 4) = Ok c"
    by (simp_all add: rd_at0 rd_at1 rd_at2 rd_at [where n = 3, simplified] rd_at [where n = 4, simplified])
  have w: "wr_block (u @ v) (int (length u)) ?bs = Ok ((u @ ?bs) @ drop (length ?bs) v)" using assms(5) by (simp add: wr_block_append)
  have i: "int (length pre) + 4 = int (length (pre @ [d1, d2, d3, d4]))" "int (length u) + int (length ?bs) = int (length (u @ ?bs))"
      "?in = (pre @ [d1, d2, d3, d4]) @ c # suf" by simp_all
  have n: "(d3 \<noteq> 61 \<and> DECODE64 d3 = BAD) = False" "(d4 \<noteq> 61 \<and> DECODE64 d4 = BAD) = False" using assms(3,4) by auto
  show ?thesis
    by (subst de64_loop.simps) (simp only: r r(5) [unfolded i(1)] w n bindR.simps assms(1,2) if_False Let_def i(1,2) i(3) [symmetric])
qed

text \<open>Decoding undoes encoding.\<close>

lemma digit_good: "x < 64 \<Longrightarrow> DECODE64 (digit64 x) \<noteq> BAD"
  using digit64_ok(2) decoded_good by simp

lemmas group_good = digit_good [OF digit_less(1)] digit_good [OF digit_less(2)] digit_good [OF digit_less(3)] digit_good [OF digit_less(4)]
  digit_good [OF digit_less(5)] digit_good [OF digit_less(6)]

lemma encode64_first: "xs \<noteq> [] \<Longrightarrow> \<exists>d ds. encode64 xs = d # ds \<and> d \<notin> {0, 13, 32, 61}"
  using digit64_ok(3) [OF digit_less(1)] by (cases xs rule: encode64.cases) auto

lemma de64_loop_ok:
  "xs \<noteq> [] \<Longrightarrow> length xs \<le> length v \<Longrightarrow> int (length (encode64 xs)) \<le> maxlen \<Longrightarrow>
    de64_loop (pre @ encode64 xs @ 0 # suf) (int (length pre)) (u @ v) (int (length u)) maxlen = Ok (int (length (u @ xs)), u @ xs @ drop (length xs) v)"
proof (induction xs arbitrary: pre u v maxlen rule: encode64.induct)
  case 1
  then show ?case by simp
next
  case (2 a)
  then show ?case unfolding encode64.simps append_Cons append_Nil using de64_step [OF group_good(1) group_good(5), of 61 61 a a v pre 0 suf u maxlen] de64_bytes_ok(3) [of a] by simp
next
  case (3 a b)
  then show ?case unfolding encode64.simps append_Cons append_Nil
    using de64_step [OF group_good(1) group_good(2), of "digit64 (push_bit 2 b AND 60)" 61 a a b v pre 0 suf u maxlen] group_good(6) de64_bytes_ok(2) [of a b] by simp
next
  case (4 a b c xs)
  let ?d1 = "digit64 (drop_bit 2 a)" and ?d2 = "digit64 (push_bit 4 (a AND 3) OR drop_bit 4 b)"
    and ?d3 = "digit64 ((push_bit 2 b AND 60) OR drop_bit 6 c)" and ?d4 = "digit64 (c AND 63)"
  note b = de64_bytes_ok(1) [of a b c]
  have d4: "?d4 \<noteq> 61" using digit64_ok(3) [OF digit_less(4)] by blast
  have s: "de64_loop (pre @ ?d1 # ?d2 # ?d3 # ?d4 # x # ys) (int (length pre)) (u @ v) (int (length u)) maxlen =
    (if x \<noteq> 0 \<and> x \<noteq> 13 \<and> ?d4 \<noteq> 61 \<and> maxlen - 4 \<ge> 4
     then de64_loop ((pre @ [?d1, ?d2, ?d3, ?d4]) @ x # ys) (int (length (pre @ [?d1, ?d2, ?d3, ?d4]))) ((u @ [a, b, c]) @ drop (length [a, b, c]) v)
       (int (length (u @ [a, b, c]))) (maxlen - 4)
     else Ok (int (length (u @ [a, b, c])), (u @ [a, b, c]) @ drop (length [a, b, c]) v))" for x ys
    unfolding b [symmetric] by (rule de64_step) (use group_good(1-4) 4(3) b in simp_all)
  show ?case
  proof (cases "xs = []")
    case True
    then show ?thesis using s [of 0 suf] by simp
  next
    case False
    obtain x ys where x: "encode64 xs = x # ys" "x \<notin> {0, 13, 32, 61}" using encode64_first [OF False] by blast
    have "4 \<le> length (encode64 xs)" using False by (cases xs rule: encode64.cases) simp_all
    then have m: "maxlen - 4 \<ge> 4" "int (length (encode64 xs)) \<le> maxlen - 4" using 4(4) by simp_all
    have "de64_loop (pre @ encode64 (a # b # c # xs) @ 0 # suf) (int (length pre)) (u @ v) (int (length u)) maxlen =
        de64_loop ((pre @ [?d1, ?d2, ?d3, ?d4]) @ encode64 xs @ 0 # suf) (int (length (pre @ [?d1, ?d2, ?d3, ?d4]))) ((u @ [a, b, c]) @ drop (length [a, b, c]) v)
          (int (length (u @ [a, b, c]))) (maxlen - 4)"
      using s [of x "ys @ 0 # suf"] x d4 m(1) unfolding encode64.simps x(1) by simp
    also have "\<dots> = Ok (int (length ((u @ [a, b, c]) @ xs)), (u @ [a, b, c]) @ xs @ drop (length xs) (drop (length [a, b, c]) v))"
      using 4(3) False m(2) by (intro "4.IH") simp_all
    finally show ?thesis by (simp add: numeral_eq_Suc)
  qed
qed

lemma plus_first: "xs \<noteq> [] \<Longrightarrow> \<exists>d1 d2 ds. encode64 xs = d1 # d2 # ds \<and> d1 \<noteq> 13 \<and> d2 \<noteq> 32"
  using digit64_ok(3) [OF digit_less(1)] digit64_ok(3) [OF digit_less(2)] digit64_ok(3) [OF digit_less(5)] by (cases xs rule: encode64.cases) auto

lemma de64_ok:
  assumes "xs \<noteq> []" and "length xs \<le> length out" and "int (length (encode64 xs)) \<le> maxlen"
  shows "de64 (encode64 xs @ 0 # suf) out maxlen = Ok (int (length xs), xs @ drop (length xs) out)"
proof -
  obtain d1 d2 ds where d: "encode64 xs = d1 # d2 # ds" "d1 \<noteq> 13" "d2 \<noteq> 32" using plus_first [OF assms(1)] by blast
  have "de64 (encode64 xs @ 0 # suf) out maxlen = de64_loop (encode64 xs @ 0 # suf) 0 out 0 maxlen"
    using d(2,3) unfolding d(1) by (auto simp: de64_def rd_def)
  then show ?thesis using de64_loop_ok [OF assms, of "[]" suf "[]"] by simp
qed

text \<open>Decoding is safe on every string.\<close>

lemma decode_0: "DECODE64 0 = BAD"
  by (simp add: DECODE64_def)

lemma de64_cases:
  "de64_loop (pre @ q @ 0 # t) (int (length pre)) out len maxlen = Ok (- 1, out) \<or>
    (\<exists>d1 d2 d3 d4 q'. q = d1 # d2 # d3 # d4 # q' \<and> DECODE64 d1 \<noteq> BAD \<and> DECODE64 d2 \<noteq> BAD \<and> (d3 = 61 \<or> DECODE64 d3 \<noteq> BAD) \<and> (d4 = 61 \<or> DECODE64 d4 \<noteq> BAD))"
proof -
  note r = rd_at0 rd_at1 rd_at2 rd_at [where n = 3, simplified]
  consider "q = []" | d1 where "q = [d1]" | d1 d2 where "q = [d1, d2]" | d1 d2 d3 where "q = [d1, d2, d3]" | d1 d2 d3 d4 q' where "q = d1 # d2 # d3 # d4 # q'"
    by (metis neq_Nil_conv)
  then show ?thesis by cases (subst de64_loop.simps, simp add: r decode_0; fail)+
qed

lemma de64_bytes_length: "length (de64_bytes d1 d2 d3 d4) \<le> 3"
  by (simp add: de64_bytes_def)

lemma de64_loop_safe:
  "3 * max 1 (nat maxlen div 4) \<le> length v \<Longrightarrow>
    \<exists>r out. de64_loop (pre @ q @ 0 # t) (int (length pre)) (u @ v) (int (length u)) maxlen = Ok (r, out) \<and> length out = length (u @ v) \<and>
      r \<le> int (length u + 3 * max 1 (nat maxlen div 4))"
proof (induction "length q" arbitrary: pre q u v maxlen rule: less_induct)
  case less
  consider (stop) "de64_loop (pre @ q @ 0 # t) (int (length pre)) (u @ v) (int (length u)) maxlen = Ok (- 1, u @ v)"
    | (group) d1 d2 d3 d4 q' where "q = d1 # d2 # d3 # d4 # q'" "DECODE64 d1 \<noteq> BAD" "DECODE64 d2 \<noteq> BAD" "d3 = 61 \<or> DECODE64 d3 \<noteq> BAD" "d4 = 61 \<or> DECODE64 d4 \<noteq> BAD"
    using de64_cases by blast
  then show ?case
  proof cases
    case stop
    then show ?thesis by simp
  next
    case group
    let ?bs = "de64_bytes d1 d2 d3 d4"
    obtain c suf where c: "q' @ 0 # t = c # suf" by (cases q') auto
    have l: "length ?bs \<le> 3" "length ?bs \<le> length v" using de64_bytes_length [of d1 d2 d3 d4] less.prems by linarith+
    note s = de64_step [OF group(2-5) l(2), of pre c suf u maxlen]
    show ?thesis
    proof (cases "c \<noteq> 0 \<and> c \<noteq> 13 \<and> d4 \<noteq> 61 \<and> maxlen - 4 \<ge> 4")
      case True
      have m: "nat maxlen div 4 = Suc (nat (maxlen - 4) div 4)" "1 \<le> nat (maxlen - 4) div 4" using True by linarith+
      have f: "3 * max 1 (nat (maxlen - 4) div 4) \<le> length (drop (length ?bs) v)" unfolding length_drop using less.prems m l(1) by linarith
      have "\<exists>r out. de64_loop ((pre @ [d1, d2, d3, d4]) @ q' @ 0 # t) (int (length (pre @ [d1, d2, d3, d4]))) ((u @ ?bs) @ drop (length ?bs) v) (int (length (u @ ?bs))) (maxlen - 4) =
          Ok (r, out) \<and> length out = length ((u @ ?bs) @ drop (length ?bs) v) \<and> r \<le> int (length (u @ ?bs) + 3 * max 1 (nat (maxlen - 4) div 4))"
        by (rule less.hyps) (use group(1) f in simp_all)
      then show ?thesis using s True group(1) c l m by auto
    next
      case False
      then show ?thesis using s group(1) c l by auto
    qed
  qed
qed

section \<open>Hexadecimal digits\<close>

lemma hex_eq: "hex = [48, 49, 50, 51, 52, 53, 54, 55, 56, 57, 65, 66, 67, 68, 69, 70, 0]"
  by (simp add: hex_def bytes_of_def)

lemma hex_indices: "map hex_index (take 16 hex) = map (Some \<circ> int) [0..<16]"
  by (simp add: hex_eq hex_index_def upt_rec)

lemma hex_digit:
  assumes "(x :: byte) < 16"
  shows "rd hex (uint x) = Ok (hex ! unat x)" and "hex_index (hex ! unat x) = Some (uint x)"
proof -
  have l: "length hex = 17" by (simp add: hex_eq)
  have u: "uint x < 16" using assms by (simp add: word_less_def)
  have n: "unat x < 16" using assms by (simp add: word_less_nat_alt)
  show "rd hex (uint x) = Ok (hex ! unat x)" using l u by (simp add: rd_def)
  have "map hex_index (take 16 hex) ! unat x = Some (int (unat x))" unfolding hex_indices using n by simp
  then show "hex_index (hex ! unat x) = Some (uint x)" using l n by simp
qed

lemma nibbles: "drop_bit 4 b < (16 :: byte)" "b AND 15 < (16 :: byte)" "uint (drop_bit 4 b) * 16 + uint (b AND 15) = uint (b :: byte)"
proof -
  have m: "b AND 15 = take_bit 4 b" by (simp add: take_bit_eq_mask mask_eq_exp_minus_1)
  have l: "uint b mod 256 = uint b" "uint b < 256" using uint_bounded [of b] by simp_all
  have u: "uint (drop_bit 4 b) = uint b div 16" "uint (b AND 15) = uint b mod 16" using l(1)
    unfolding m unsigned_drop_bit_eq unsigned_take_bit_eq by (simp_all add: drop_bit_eq_div take_bit_eq_mod)
  then show "drop_bit 4 b < (16 :: byte)" "b AND 15 < (16 :: byte)" using l(2) unfolding word_less_def u by simp_all
  show "uint (drop_bit 4 b) * 16 + uint (b AND 15) = uint b" unfolding u by simp
qed

definition hexes :: "byte list \<Rightarrow> byte list" where
  "hexes bs = concat (map (\<lambda>b. [hex ! unat (drop_bit 4 b), hex ! unat (b AND 15)]) bs)"

lemma hexes_simps [simp]: "hexes [] = []" "hexes (b # bs) = hex ! unat (drop_bit 4 b) # hex ! unat (b AND 15) # hexes bs" "length (hexes bs) = 2 * length bs"
  by (simp_all add: hexes_def length_concat comp_def sum_list_triv)

lemma wr_at: "wr (u @ x # v) (int (length u)) y = Ok (u @ y # v)"
  by (simp add: wr_as_block wr_block_append)

lemma tohex_loop_ok:
  "length pre = n \<Longrightarrow> length u = 2 * n \<Longrightarrow> 2 * length bs < length v \<Longrightarrow>
    tohex_loop (length bs) (pre @ bs @ suf) (int n) (u @ v) = Ok (u @ hexes bs @ 0 # drop (2 * length bs + 1) v)"
proof (induction bs arbitrary: pre n u v)
  case Nil
  then obtain x v' where v: "v = x # v'" by (cases v) auto
  show ?case using wr_at [of u x v' 0] Nil(2) v by simp
next
  case (Cons b bs)
  obtain x y v' where v: "v = x # y # v'" using Cons.prems(3) by (cases v; cases "tl v") auto
  let ?d1 = "hex ! unat (drop_bit 4 b)" and ?d2 = "hex ! unat (b AND 15)"
  have w: "wr (u @ v) (2 * int n) ?d1 = Ok (u @ ?d1 # y # v')" "wr (u @ ?d1 # y # v') (2 * int n + 1) ?d2 = Ok ((u @ [?d1, ?d2]) @ v')"
    using wr_at [of u x "y # v'" ?d1] wr_at [of "u @ [?d1]" y v' ?d2] Cons.prems(2) v by (simp_all add: add.commute)
  have "tohex_loop (length (b # bs)) (pre @ (b # bs) @ suf) (int n) (u @ v) = tohex_loop (length bs) ((pre @ [b]) @ bs @ suf) (int (Suc n)) ((u @ [?d1, ?d2]) @ v')"
    using rd_at0 [of pre "b # bs @ suf"] Cons.prems(1) w hex_digit(1) [OF nibbles(1)] hex_digit(1) [OF nibbles(2)] by (simp add: add.commute)
  also have "\<dots> = Ok ((u @ [?d1, ?d2]) @ hexes bs @ 0 # drop (2 * length bs + 1) v')" using Cons.prems v by (intro Cons.IH) simp_all
  finally show ?case using v by simp
qed

lemma fromhex_loop_ok:
  "length bs \<le> length v \<Longrightarrow>
    fromhex_loop (length bs) (pre @ hexes bs @ suf) (int (length pre)) (u @ v) (int (length u)) = Ok (u @ bs @ drop (length bs) v)"
proof (induction bs arbitrary: pre u v)
  case (Cons b bs)
  obtain x v' where v: "v = x # v'" using Cons.prems by (cases v) auto
  let ?d1 = "hex ! unat (drop_bit 4 b)" and ?d2 = "hex ! unat (b AND 15)"
  have r: "rd (pre @ hexes (b # bs) @ suf) (int (length pre)) = Ok ?d1" "rd (pre @ hexes (b # bs) @ suf) (int (length pre) + 1) = Ok ?d2"
    by (simp_all add: rd_at0 rd_at1)
  have w: "wr (u @ v) (int (length u)) (word_of_int (uint (drop_bit 4 b) * 16 + uint (b AND 15))) = Ok ((u @ [b]) @ v')"
    unfolding nibbles(3) using wr_at [of u x v' b] v by simp
  have "fromhex_loop (length (b # bs)) (pre @ hexes (b # bs) @ suf) (int (length pre)) (u @ v) (int (length u)) =
      fromhex_loop (length bs) ((pre @ [?d1, ?d2]) @ hexes bs @ suf) (int (length (pre @ [?d1, ?d2]))) ((u @ [b]) @ v') (int (length (u @ [b])))"
    using r w hex_digit(2) [OF nibbles(1)] hex_digit(2) [OF nibbles(2)] by (simp add: add.commute)
  also have "\<dots> = Ok ((u @ [b]) @ bs @ drop (length bs) v')" using Cons.prems v by (intro Cons.IH) simp
  finally show ?case using v by simp
qed simp

section \<open>Properties\<close>

text \<open>C22: \<open>de64\<close> undoes \<open>en64\<close>: a block that is not empty comes back as it was encoded, for an output buffer that has room for it
  and a limit that covers the encoded form. \<open>en64\<close> needs room for four digits per three bytes begun and the NUL.\<close>

theorem base64_roundtrip:
  assumes "xs \<noteq> []" and "4 * ((length xs + 2) div 3) < length out1" and "length xs \<le> length out2" and "int (4 * ((length xs + 2) div 3)) \<le> maxlen"
  shows "\<exists>enc n. en64 (xs @ suf) out1 (int (length xs)) = Ok (enc, n) \<and> de64 enc out2 maxlen = Ok (int (length xs), xs @ drop (length xs) out2)"
  using en64_ok [of xs out1 suf] de64_ok [of xs out2 maxlen] assms unfolding encode64_length by auto

theorem base64_roundtrip_witness:
  "\<exists>enc n. en64 [97, 58, 98, 200] [0, 0, 0, 0, 0, 0, 0, 0, 0] 4 = Ok (enc, n) \<and> de64 enc [0, 0, 0, 0, 0] 8 = Ok (4, [97, 58, 98, 200, 0])"
  using base64_roundtrip [of "[97, 58, 98, 200]" "[0, 0, 0, 0, 0, 0, 0, 0, 0]" "[0, 0, 0, 0, 0]" 8 "[]"] by simp

text \<open>C27: \<open>de64\<close> stays inside its buffers on every string, well formed or not: it does not read behind the NUL, and it writes three bytes
  for every four of \<open>maxlen\<close>, but three even when \<open>maxlen\<close> is less than four.\<close>

theorem de64_safe:
  assumes "0 \<in> set inb" and "3 * max 1 (nat maxlen div 4) \<le> length out"
  shows "\<exists>r out'. de64 inb out maxlen = Ok (r, out') \<and> length out' = length out \<and> r \<le> int (3 * max 1 (nat maxlen div 4))"
proof -
  obtain q t where q: "inb = q @ 0 # t" "0 \<notin> set q" using split_list_first [OF assms(1)] by blast
  show ?thesis
  proof (cases "\<exists>q'. q = 43 # 32 # q'")
    case True
    then obtain q' where "q = 43 # 32 # q'" by blast
    then have "de64 inb out maxlen = (if hd (q' @ 0 # t) = 13 then Ok (0, out) else de64_loop ([43, 32] @ q' @ 0 # t) (int (length ([43, 32] :: byte list))) ([] @ out) (int (length ([] :: byte list))) maxlen)"
      using q(1) by (cases q') (auto simp: de64_def rd_def)
    then show ?thesis using de64_loop_safe [OF assms(2), of "[43, 32]" q' t "[]"] by auto
  next
    case False
    then have "de64 inb out maxlen = (if hd (q @ 0 # t) = 13 then Ok (0, out) else de64_loop ([] @ q @ 0 # t) (int (length ([] :: byte list))) ([] @ out) (int (length ([] :: byte list))) maxlen)"
      using q(1) by (cases q; cases "tl q") (auto simp: de64_def rd_def)
    then show ?thesis using de64_loop_safe [OF assms(2), of "[]" q t "[]"] by auto
  qed
qed

theorem de64_safe_witness:
  "\<exists>r out'. de64 [65, 65, 65, 65, 66, 61, 0] [1, 2, 3] 7 = Ok (r, out') \<and> length out' = length [1 :: byte, 2, 3] \<and> r \<le> 3"
  using de64_safe [of "[65, 65, 65, 65, 66, 61, 0]" 7 "[1, 2, 3]"] by simp

text \<open>\<open>fromhex\<close> undoes \<open>tohex\<close>.\<close>

theorem hex_roundtrip:
  assumes "2 * length bs < length out1" and "length bs \<le> length out2"
  shows "\<exists>h. tohex (bs @ suf) out1 (int (length bs)) = Ok h \<and> fromhex h out2 (int (length bs)) = Ok (bs @ drop (length bs) out2)"
  using tohex_loop_ok [of "[]" 0 "[]" bs out1 suf] fromhex_loop_ok [of bs out2 "[]" _ "[]"] assms by (simp add: tohex_def fromhex_def)

end
