(* ===== verification/Proxy_Sock.thy ===== *)
theory Proxy_Sock
  imports Prelude
begin

text \<open>
  The sockets of 3proxy (\<^verbatim>\<open>test_sources/3proxy/src\<close>): sending and buffered reading (\<^verbatim>\<open>sockgetchar.c\<close>) and the loop that
  moves data between the client and the server (\<^verbatim>\<open>sockmap.c\<close>). The operating system is the environment: the \<open>n\<close>-th
  system call of a connection takes its outcome from the environment at \<open>n\<close>, and the state notes the bytes that were
  received from either side and sent to it. A call of \<open>recvfrom\<close> returns at most as much as there is room for, one of \<open>send\<close> or
  \<open>sendto\<close> takes at most what it was given, and \<open>poll\<close> reports only the events asked for and errors.

  The counters of the buffers are \<open>unsigned\<close>; where they can leave the range, the wrap-around is written out.
  The totals \<open>statscli\<close> and \<open>statssrv\<close> have no bound.
\<close>

section \<open>State\<close>

datatype DIRECTION = CLIENT | SERVER

datatype PROXYSERVICE =
    S_NOSERVICE | S_PROXY | S_TCPPM | S_POP3P | S_SOCKS4 | S_SOCKS5 | S_UDPPM | S_SOCKS | S_SOCKS45 | S_ADMIN | S_DNSPR | S_FTPPR | S_ZOMBIE

text \<open>One of the two buffers: \<open>clibuf\<close>, \<open>cliinbuf\<close>, \<open>clioffset\<close> and \<open>clibufsize\<close>, or the same fields for the server. What was received from
  that side and not sent on is between \<open>offset\<close> and \<open>inbuf\<close>.\<close>

record side =
  buf :: "byte list option"
  inbuf :: int
  offset :: int
  bufsize :: int

record clientparam =
  service :: PROXYSERVICE
  cli :: side
  srv :: side
  clisock :: bool \<comment> \<open>not \<open>INVALID_SOCKET\<close>\<close>
  remsock :: bool
  parbufsize :: int
  statscli :: int
  statssrv :: int
  singlepacket :: bool
  waitclient :: int
  waitserver :: int
  maxtraf :: int

datatype sock_errno = EAGAIN | EINTR | EOTHER
datatype 'a sys = Done 'a | Failed sock_errno

record revents =
  can_in :: bool
  can_out :: bool
  broken :: bool

datatype poll_result = Poll_ready revents revents | Poll_timeout | Poll_failed sock_errno

record net_env =
  timetoexit :: "nat \<Rightarrow> bool"
  polls :: "nat \<Rightarrow> poll_result"
  recvs :: "nat \<Rightarrow> byte list sys"
  sends :: "nat \<Rightarrow> nat sys"
  allocs :: "nat \<Rightarrow> byte option" \<comment> \<open>the content of new memory\<close>
  bandlim :: "(nat \<Rightarrow> int \<Rightarrow> int \<Rightarrow> int) option" \<comment> \<open>\<open>bandlimfunc\<close>\<close>

record net =
  tick :: nat
  got :: "DIRECTION \<Rightarrow> byte list"
  put :: "DIRECTION \<Rightarrow> byte list"

section \<open>System calls\<close>

abbreviation passed :: "net \<Rightarrow> net" where
  "passed n \<equiv> n\<lparr>tick := tick n + 1\<rparr>"

definition sys_poll :: "net_env \<Rightarrow> net \<Rightarrow> poll_result \<times> net" where
  "sys_poll e n = (polls e (tick n), passed n)"

definition sys_recv :: "net_env \<Rightarrow> DIRECTION \<Rightarrow> int \<Rightarrow> net \<Rightarrow> byte list sys \<times> net" where
  "sys_recv e d sz n =
     (case recvs e (tick n) of
        Failed er \<Rightarrow> (Failed er, passed n)
      | Done bs \<Rightarrow> (Done (take (nat sz) bs), (passed n)\<lparr>got := (got n)(d := got n d @ take (nat sz) bs)\<rparr>))"

definition sys_send :: "net_env \<Rightarrow> DIRECTION \<Rightarrow> byte list \<Rightarrow> net \<Rightarrow> nat sys \<times> net" where
  "sys_send e d bs n =
     (case sends e (tick n) of
        Failed er \<Rightarrow> (Failed er, passed n)
      | Done k \<Rightarrow> (Done (min k (length bs)), (passed n)\<lparr>put := (put n)(d := put n d @ take k bs)\<rparr>))"

definition sys_alloc :: "net_env \<Rightarrow> int \<Rightarrow> net \<Rightarrow> byte list option \<times> net" where
  "sys_alloc e sz n = (map_option (replicate (nat sz)) (allocs e (tick n)), passed n)"

section \<open>Sending and buffered reading\<close>

text \<open>The loops of \<open>socksend\<close> and \<open>socksendto\<close>; they differ in the errors after which they go on.\<close>

primrec send_loop :: "nat \<Rightarrow> net_env \<Rightarrow> sock_errno set \<Rightarrow> DIRECTION \<Rightarrow> byte list \<Rightarrow> int \<Rightarrow> int \<Rightarrow> int \<Rightarrow> net \<Rightarrow> (int \<times> net) res" where
  "send_loop 0 e again d b pos sz sent n = Timeout"
| "send_loop (Suc k) e again d b pos sz sent n =
     (if timetoexit e (tick n) then Ok (0, n)
      else
        let go = (\<lambda>sent n. if sent < sz then send_loop k e again d b pos sz sent n else Ok (sent, n));
          (r, n) = sys_poll e n in
        case r of
          Poll_failed er \<Rightarrow> if er = EAGAIN \<or> er = EINTR then go sent n else Ok (sent, n)
        | Poll_timeout \<Rightarrow> Ok (sent, n)
        | Poll_ready _ _ \<Rightarrow>
            bindR (rd_block b (pos + sent) (sz - sent)) (\<lambda>bs.
            let (r, n) = sys_send e d bs n in
            case r of
              Failed er \<Rightarrow> if er \<in> again then go sent n else Ok (sent, n)
            | Done j \<Rightarrow> go (sent + int j) n))"

text \<open>The block starts at \<open>pos\<close> of the buffer \<open>b\<close>.\<close>

definition socksend :: "nat \<Rightarrow> net_env \<Rightarrow> DIRECTION \<Rightarrow> byte list \<Rightarrow> int \<Rightarrow> int \<Rightarrow> net \<Rightarrow> (int \<times> net) res" where
  "socksend k e d b pos sz n = send_loop k e {EAGAIN, EINTR} d b pos sz 0 n"

definition socksendto :: "nat \<Rightarrow> net_env \<Rightarrow> DIRECTION \<Rightarrow> byte list \<Rightarrow> int \<Rightarrow> int \<Rightarrow> net \<Rightarrow> (int \<times> net) res" where
  "socksendto k e d b pos sz n = send_loop k e {EAGAIN} d b pos sz 0 n"

primrec recv_loop :: "nat \<Rightarrow> net_env \<Rightarrow> DIRECTION \<Rightarrow> int \<Rightarrow> net \<Rightarrow> (byte list sys \<times> net) res" where
  "recv_loop 0 e d sz n = Timeout"
| "recv_loop (Suc k) e d sz n =
     (let (r, n) = sys_recv e d sz n in
      if r = Failed EAGAIN \<or> r = Failed EINTR then recv_loop k e d sz n else Ok (r, n))"

definition sockrecvfrom :: "nat \<Rightarrow> net_env \<Rightarrow> DIRECTION \<Rightarrow> byte list \<Rightarrow> int \<Rightarrow> net \<Rightarrow> (int \<times> byte list \<times> net) res" where
  "sockrecvfrom k e d b sz n =
     (if timetoexit e (tick n) then Ok (- 1, b, n)
      else
        let (r, n) = sys_poll e n in
        case r of
          Poll_ready _ _ \<Rightarrow>
            bindR (recv_loop k e d sz n) (\<lambda>(r, n).
            case r of
              Failed _ \<Rightarrow> Ok (- 1, b, n)
            | Done bs \<Rightarrow> bindR (wr_block b 0 bs) (\<lambda>b. Ok (int (length bs), b, n)))
        | _ \<Rightarrow> Ok (0, b, n))"

text \<open>\<open>BUFSIZE\<close>\<close>

definition BUFSIZE :: "clientparam \<Rightarrow> int" where
  "BUFSIZE p = (if service p = S_UDPPM then 16384 else 4096)"

definition side_of :: "DIRECTION \<Rightarrow> clientparam \<Rightarrow> side" where
  "side_of d p = (case d of CLIENT \<Rightarrow> cli p | SERVER \<Rightarrow> srv p)"

definition set_side :: "DIRECTION \<Rightarrow> side \<Rightarrow> clientparam \<Rightarrow> clientparam" where
  "set_side d s p = (case d of CLIENT \<Rightarrow> p\<lparr>cli := s\<rparr> | SERVER \<Rightarrow> p\<lparr>srv := s\<rparr>)"

text \<open>\<open>sockgetcharcli\<close> and \<open>sockgetcharsrv\<close>; \<open>EOF\<close> is -1.\<close>

definition sockgetchar :: "nat \<Rightarrow> net_env \<Rightarrow> DIRECTION \<Rightarrow> clientparam \<Rightarrow> net \<Rightarrow> (int \<times> clientparam \<times> net) res" where
  "sockgetchar k e d p n =
     (let fetch = (\<lambda>s b n.
        if inbuf s \<noteq> 0 \<and> offset s < inbuf s
        then bindR (rd b (offset s)) (\<lambda>c. Ok (uint c, set_side d (s\<lparr>offset := offset s + 1\<rparr>) p, n))
        else
          bindR (sockrecvfrom k e d b (bufsize s) n) (\<lambda>(len, b, n).
          let s = s\<lparr>buf := Some b, offset := 0, inbuf := 0\<rparr> in
          if len \<le> 0 then Ok (- 1, set_side d s p, n)
          else bindR (rd b 0) (\<lambda>c. Ok (uint c, set_side d (s\<lparr>inbuf := len, offset := 1\<rparr>) p, n)))) in
      case buf (side_of d p) of
        Some b \<Rightarrow> fetch (side_of d p) b n
      | None \<Rightarrow>
          (case sys_alloc e (BUFSIZE p) n of
             (None, n) \<Rightarrow> Ok (0, p, n)
           | (Some b, n) \<Rightarrow> fetch ((side_of d p)\<lparr>buf := Some b, bufsize := BUFSIZE p, offset := 0, inbuf := 0\<rparr>) b n))"

primrec getline_loop :: "nat \<Rightarrow> nat \<Rightarrow> net_env \<Rightarrow> DIRECTION \<Rightarrow> int \<Rightarrow> int \<Rightarrow> byte list \<Rightarrow> int \<Rightarrow> clientparam \<Rightarrow> net \<Rightarrow> (int \<times> byte list \<times> clientparam \<times> net) res" where
  "getline_loop 0 k e d delim c b i p n = Ok (i, b, p, n)"
| "getline_loop (Suc m) k e d delim c b i p n =
     bindR (wr b i (word_of_int c)) (\<lambda>b.
     if delim \<noteq> - 1 \<and> c = delim then Ok (i + 1, b, p, n)
     else if m = 0 then Ok (i + 1, b, p, n)
     else
       bindR (sockgetchar k e d p n) (\<lambda>(c, p, n).
       if c = - 1 then Ok (i + 1, b, p, n) else getline_loop m k e d delim c b (i + 1) p n))"

text \<open>The loop runs at most \<open>bufsize\<close> times.\<close>

definition sockgetlinebuf :: "nat \<Rightarrow> net_env \<Rightarrow> DIRECTION \<Rightarrow> byte list \<Rightarrow> int \<Rightarrow> int \<Rightarrow> clientparam \<Rightarrow> net \<Rightarrow> (int \<times> byte list \<times> clientparam \<times> net) res" where
  "sockgetlinebuf k e d b sz delim p n =
     (if sz < 2 then Ok (0, b, p, n)
      else
        bindR (sockgetchar k e d p n) (\<lambda>(c, p, n).
        if c = - 1 then Ok (0, b, p, n) else getline_loop (nat sz) k e d delim c b 0 p n))"

section \<open>Moving data\<close>

text \<open>The variables of \<open>sockmap\<close>, and how a part of the loop ends: with \<open>return\<close>, with \<open>continue\<close> or in the next part.\<close>

record mapping_state =
  par :: clientparam
  nt :: net
  sent :: int
  received :: int
  sleeptime :: int
  stopped :: bool

datatype flow = Return int | Continue | Go

definition flow_bind :: "(flow \<times> mapping_state) res \<Rightarrow> (mapping_state \<Rightarrow> (flow \<times> mapping_state) res) \<Rightarrow> (flow \<times> mapping_state) res" where
  "flow_bind m f = bindR m (\<lambda>(fl, st). if fl = Go then f st else Ok (fl, st))"

text \<open>A counter of type \<open>int\<close> grows.\<close>

definition grow :: "int \<Rightarrow> nat \<Rightarrow> int res" where
  "grow i j = bindR (checkR Int_overflow (i + int j < 2 ^ 31)) (\<lambda>_. Ok (i + int j))"

definition advance :: "side \<Rightarrow> nat \<Rightarrow> side" where
  "advance s j = (if offset s + int j = inbuf s then s\<lparr>offset := 0, inbuf := 0\<rparr> else s\<lparr>offset := offset s + int j\<rparr>)"

definition side_buf :: "side \<Rightarrow> byte list res" where
  "side_buf s = (case buf s of None \<Rightarrow> Fault Null_pointer | Some b \<Rightarrow> Ok b)"

definition send_to_client :: "net_env \<Rightarrow> mapping_state \<Rightarrow> (flow \<times> mapping_state) res" where
  "send_to_client e st =
     (let p = par st; s = srv p;
        st = (case bandlim e of None \<Rightarrow> st | Some f \<Rightarrow> st\<lparr>sleeptime := f (tick (nt st)) (inbuf s - offset s) 0\<rparr>) in
      bindR (side_buf s) (\<lambda>b.
      bindR (rd_block b (offset s) (inbuf s - offset s)) (\<lambda>bs.
      case sys_send e CLIENT bs (nt st) of
        (Failed er, n) \<Rightarrow> Ok (if er \<noteq> EAGAIN then Return 96 else Continue, st\<lparr>nt := n\<rparr>)
      | (Done j, n) \<Rightarrow>
          bindR (grow (received st) j) (\<lambda>r.
          let st = st\<lparr>nt := n, received := r, par := p\<lparr>srv := advance s j, statssrv := statssrv p + int j\<rparr>\<rparr> in
          if waitserver p \<noteq> 0 \<and> waitserver p \<le> r then Ok (Return 98, st)
          else Ok (Go, if service p = S_UDPPM \<and> singlepacket p then st\<lparr>stopped := True\<rparr> else st)))))"

definition send_to_server :: "net_env \<Rightarrow> mapping_state \<Rightarrow> (flow \<times> mapping_state) res" where
  "send_to_server e st =
     (let p = par st; s = cli p;
        st = (case bandlim e of None \<Rightarrow> st | Some f \<Rightarrow>
          let sl1 = f (tick (nt st)) 0 (inbuf s - offset s) in if sl1 > sleeptime st then st\<lparr>sleeptime := sl1\<rparr> else st) in
      bindR (side_buf s) (\<lambda>b.
      bindR (rd_block b (offset s) (inbuf s - offset s)) (\<lambda>bs.
      case sys_send e SERVER bs (nt st) of
        (Failed er, n) \<Rightarrow> Ok (if er \<noteq> EAGAIN then Return 97 else Continue, st\<lparr>nt := n\<rparr>)
      | (Done j, n) \<Rightarrow>
          bindR (grow (sent st) j) (\<lambda>r.
          let st = st\<lparr>nt := n, sent := r, par := p\<lparr>cli := advance s j, statscli := statscli p + int j\<rparr>\<rparr> in
          if waitclient p \<noteq> 0 \<and> waitclient p \<le> r then Ok (Return 99, st) else Ok (Go, st)))))"

text \<open>\<open>inbuf += res\<close>, where \<open>res\<close> is -1 after \<open>EAGAIN\<close>\<close>

definition add_in :: "side \<Rightarrow> int \<Rightarrow> side" where
  "add_in s i = s\<lparr>inbuf := (inbuf s + i) mod 2 ^ 32\<rparr>"

definition room :: "side \<Rightarrow> int" where
  "room s = (bufsize s - inbuf s) mod 2 ^ 32"

definition recv_from_client :: "net_env \<Rightarrow> mapping_state \<Rightarrow> (flow \<times> mapping_state) res" where
  "recv_from_client e st =
     (let p = par st; s = cli p in
      case sys_recv e CLIENT (room s) (nt st) of
        (Failed er, n) \<Rightarrow>
          if er \<noteq> EAGAIN then Ok (Return 94, st\<lparr>nt := n\<rparr>) else Ok (Go, st\<lparr>nt := n, par := p\<lparr>cli := add_in s (- 1)\<rparr>\<rparr>)
      | (Done bs, n) \<Rightarrow>
          if bs = [] then Ok (Go, st\<lparr>nt := n, par := p\<lparr>clisock := False\<rparr>, stopped := True\<rparr>)
          else
            bindR (side_buf s) (\<lambda>b.
            bindR (wr_block b (inbuf s) bs) (\<lambda>b.
              Ok (Go, st\<lparr>nt := n, par := p\<lparr>cli := add_in (s\<lparr>buf := Some b\<rparr>) (int (length bs))\<rparr>\<rparr>))))"

definition recv_from_server :: "net_env \<Rightarrow> mapping_state \<Rightarrow> (flow \<times> mapping_state) res" where
  "recv_from_server e st =
     (let p = par st; s = srv p in
      case sys_recv e SERVER (room s) (nt st) of
        (Failed er, n) \<Rightarrow>
          if er \<noteq> EAGAIN then Ok (Return 93, st\<lparr>nt := n\<rparr>) else Ok (Go, st\<lparr>nt := n, par := p\<lparr>srv := add_in s (- 1)\<rparr>\<rparr>)
      | (Done bs, n) \<Rightarrow>
          if bs = [] then Ok (Go, st\<lparr>nt := n, par := p\<lparr>remsock := False\<rparr>, stopped := True\<rparr>)
          else
            bindR (side_buf s) (\<lambda>b.
            bindR (wr_block b (inbuf s) bs) (\<lambda>b.
              Ok (Go, st\<lparr>nt := n, par := p\<lparr>srv := add_in (s\<lparr>buf := Some b\<rparr>) (int (length bs))\<rparr>\<rparr>))))"

definition sleep_part :: "int \<Rightarrow> mapping_state \<Rightarrow> (flow \<times> mapping_state) res" where
  "sleep_part timeo st =
     (if sleeptime st > 0 then if sleeptime st > timeo * 1000 then Ok (Return 95, st) else Ok (Go, st\<lparr>sleeptime := 0\<rparr>)
      else Ok (Go, st))"

text \<open>The events that are asked for: reading from the client and writing to it, and the same for the server.\<close>

definition want_out_cli :: "clientparam \<Rightarrow> bool" where
  "want_out_cli p \<longleftrightarrow> inbuf (srv p) > offset (srv p) \<and> waitclient p = 0"

definition want_in_srv :: "int \<Rightarrow> clientparam \<Rightarrow> bool" where
  "want_in_srv minsize p \<longleftrightarrow> room (srv p) > minsize \<and> waitclient p = 0"

definition want_out_srv :: "clientparam \<Rightarrow> bool" where
  "want_out_srv p \<longleftrightarrow> inbuf (cli p) > offset (cli p) \<and> waitserver p = 0"

definition want_in_cli :: "int \<Rightarrow> clientparam \<Rightarrow> bool" where
  "want_in_cli minsize p \<longleftrightarrow> room (cli p) > minsize \<and> waitserver p = 0 \<and> (\<not> singlepacket p \<or> service p \<noteq> S_UDPPM)"

definition when_flow :: "bool \<Rightarrow> (mapping_state \<Rightarrow> (flow \<times> mapping_state) res) \<Rightarrow> mapping_state \<Rightarrow> (flow \<times> mapping_state) res" where
  "when_flow b f st = (if b then f st else Ok (Go, st))"

definition map_round :: "net_env \<Rightarrow> int \<Rightarrow> int \<Rightarrow> mapping_state \<Rightarrow> (flow \<times> mapping_state) res" where
  "map_round e minsize timeo st =
     (let p = par st in
      if maxtraf p \<noteq> 0 \<and> statssrv p \<ge> maxtraf p then Ok (Return 10, st)
      else
        let (r, n) = sys_poll e (nt st); st = st\<lparr>nt := n\<rparr> in
        case r of
          Poll_failed er \<Rightarrow> Ok (if er = EAGAIN \<or> er = EINTR then Continue else Return 91, st)
        | Poll_timeout \<Rightarrow> Ok (Return 92, st)
        | Poll_ready r0 r1 \<Rightarrow>
            if broken r0 \<or> broken r1 then Ok (Return 90, st)
            else
              flow_bind (when_flow (want_out_cli p \<and> can_out r0) (send_to_client e) st) (\<lambda>st.
              flow_bind (when_flow (want_out_srv p \<and> can_out r1) (send_to_server e) st) (\<lambda>st.
              flow_bind (when_flow (want_in_cli minsize p \<and> can_in r0) (recv_from_client e) st) (\<lambda>st.
              flow_bind (when_flow (\<not> stopped st \<and> want_in_srv minsize p \<and> can_in r1) (recv_from_server e) st) (sleep_part timeo)))))"

primrec map_loop :: "nat \<Rightarrow> net_env \<Rightarrow> int \<Rightarrow> int \<Rightarrow> mapping_state \<Rightarrow> (int option \<times> mapping_state) res" where
  "map_loop 0 e minsize timeo st = (if stopped st then Ok (None, st) else Timeout)"
| "map_loop (Suc k) e minsize timeo st =
     (if stopped st then Ok (None, st)
      else
        bindR (map_round e minsize timeo st) (\<lambda>(fl, st).
        case fl of Return r \<Rightarrow> Ok (Some r, st) | _ \<Rightarrow> map_loop k e minsize timeo st))"

text \<open>The two loops behind the main one, which send the rest of a buffer.\<close>

primrec flush_client :: "nat \<Rightarrow> net_env \<Rightarrow> clientparam \<Rightarrow> net \<Rightarrow> (clientparam \<times> net) res" where
  "flush_client 0 e p n = (if waitclient p = 0 \<and> inbuf (srv p) > offset (srv p) \<and> clisock p then Timeout else Ok (p, n))"
| "flush_client (Suc k) e p n =
     (if waitclient p = 0 \<and> inbuf (srv p) > offset (srv p) \<and> clisock p then
        let s = srv p in
        bindR (side_buf s) (\<lambda>b.
        bindR (socksendto (Suc k) e CLIENT b (offset s) (inbuf s - offset s) n) (\<lambda>(r, n).
        if r > 0 then flush_client k e (p\<lparr>srv := advance s (nat r), statssrv := statssrv p + r\<rparr>) n else Ok (p, n)))
      else Ok (p, n))"

primrec flush_server :: "nat \<Rightarrow> net_env \<Rightarrow> clientparam \<Rightarrow> net \<Rightarrow> (clientparam \<times> net) res" where
  "flush_server 0 e p n = (if waitserver p = 0 \<and> inbuf (cli p) > offset (cli p) \<and> remsock p then Timeout else Ok (p, n))"
| "flush_server (Suc k) e p n =
     (if waitserver p = 0 \<and> inbuf (cli p) > offset (cli p) \<and> remsock p then
        let s = cli p in
        bindR (side_buf s) (\<lambda>b.
        bindR (socksendto (Suc k) e SERVER b (offset s) (inbuf s - offset s) n) (\<lambda>(r, n).
        if r > 0 then flush_server k e (p\<lparr>cli := advance s (nat r), statscli := statscli p + r\<rparr>) n else Ok (p, n)))
      else Ok (p, n))"

text \<open>The buffers are allocated when they are needed and there are none; \<open>None\<close> when that fails.\<close>

definition need_buf :: "net_env \<Rightarrow> bool \<Rightarrow> int \<Rightarrow> side \<Rightarrow> net \<Rightarrow> side option \<times> net" where
  "need_buf e need sz s n =
     (if need \<and> buf s = None then
        (case sys_alloc e sz n of (None, n) \<Rightarrow> (None, n) | (Some b, n) \<Rightarrow> (if sz = 0 then None else Some (s\<lparr>buf := Some b, bufsize := sz\<rparr>), n))
      else (Some s, n))"

definition sockmap :: "nat \<Rightarrow> net_env \<Rightarrow> int \<Rightarrow> clientparam \<Rightarrow> net \<Rightarrow> (int \<times> clientparam \<times> net) res" where
  "sockmap k e timeo p n =
     (let sz = (if parbufsize p \<noteq> 0 then parbufsize p else BUFSIZE p);
        minsize = (if service p = S_UDPPM then sz - 1 else 0) in
      case need_buf e (waitclient p = 0) sz (srv p) n of
        (None, n) \<Rightarrow> Ok (21, p, n)
      | (Some s, n) \<Rightarrow>
          let p = p\<lparr>srv := s\<rparr> in
          (case need_buf e (waitserver p = 0) sz (cli p) n of
             (None, n) \<Rightarrow> Ok (21, p, n)
           | (Some s, n) \<Rightarrow>
               bindR (map_loop k e minsize timeo \<lparr>par = p\<lparr>cli := s\<rparr>, nt = n, sent = 0, received = 0, sleeptime = 0, stopped = False\<rparr>) (\<lambda>(r, st).
               case r of
                 Some r \<Rightarrow> Ok (r, par st, nt st)
               | None \<Rightarrow>
                   bindR (flush_client k e (par st) (nt st)) (\<lambda>(p, n).
                   bindR (flush_server k e p n) (\<lambda>(p, n). Ok (0, p, n))))))"

end
