(* ===== verification/Proxy_Flow.thy ===== *)
theory Proxy_Flow
  imports Proxy_Sock
begin

text \<open>
  What the data mapping of 3proxy promises: it keeps the stream of bytes from either side, in order and without loss, inside the buffers,
  unless \<open>recvfrom\<close> fails with \<open>EAGAIN\<close>; and it returns when \<open>poll\<close> times out.
\<close>

section \<open>Streams\<close>

definition pending :: "side \<Rightarrow> byte list" where
  "pending s = (case buf s of None \<Rightarrow> [] | Some b \<Rightarrow> take (nat (inbuf s - offset s)) (drop (nat (offset s)) b))"

definition side_ok :: "side \<Rightarrow> bool" where
  "side_ok s \<longleftrightarrow> 0 \<le> offset s \<and> offset s \<le> inbuf s \<and> bufsize s < 2 ^ 32 \<and>
     (case buf s of None \<Rightarrow> inbuf s = 0 | Some b \<Rightarrow> inbuf s \<le> bufsize s \<and> int (length b) = bufsize s)"

primrec other :: "DIRECTION \<Rightarrow> DIRECTION" where
  "other CLIENT = SERVER"
| "other SERVER = CLIENT"

text \<open>What came from one side is on its way to the other, in order: sent, or in the buffer.\<close>

definition carried :: "DIRECTION \<Rightarrow> clientparam \<Rightarrow> net \<Rightarrow> byte list" where
  "carried d p n = put n (other d) @ pending (side_of d p)"

definition relays :: "clientparam \<Rightarrow> net \<Rightarrow> clientparam \<Rightarrow> net \<Rightarrow> bool" where
  "relays p n p' n' \<longleftrightarrow> (\<forall>d. \<exists>new. got n' d = got n d @ new \<and> carried d p' n' = carried d p n @ new)"

lemma relays_refl: "relays p n p n"
  by (simp add: relays_def)

lemma relays_trans:
  assumes "relays p n p1 n1" and "relays p1 n1 p2 n2"
  shows "relays p n p2 n2"
  unfolding relays_def
proof
  fix d
  obtain a b where "got n1 d = got n d @ a" "carried d p1 n1 = carried d p n @ a" "got n2 d = got n1 d @ b" "carried d p2 n2 = carried d p1 n1 @ b"
    using assms unfolding relays_def by blast
  then show "\<exists>new. got n2 d = got n d @ new \<and> carried d p2 n2 = carried d p n @ new" by (intro exI [of _ "a @ b"]) simp
qed

lemma relaysI: "(\<And>d. \<exists>new. got n' d = got n d @ new \<and> carried d p' n' = carried d p n @ new) \<Longrightarrow> relays p n p' n'"
  by (simp add: relays_def)

lemma relays_idle: "got n' = got n \<Longrightarrow> put n' = put n \<Longrightarrow> cli p' = cli p \<Longrightarrow> srv p' = srv p \<Longrightarrow> relays p n p' n'"
  by (auto simp: relays_def carried_def side_of_def split: DIRECTION.split)

text \<open>Sending takes bytes from the front of what is pending; receiving adds at the end.\<close>

lemma pending_block:
  assumes "side_ok s" and "buf s = Some b"
  shows "rd_block b (offset s) (inbuf s - offset s) = Ok (pending s)" and "length (pending s) = nat (inbuf s - offset s)"
proof -
  have s: "0 \<le> offset s" "offset s \<le> inbuf s" "inbuf s \<le> int (length b)" using assms by (simp_all add: side_ok_def)
  then show "rd_block b (offset s) (inbuf s - offset s) = Ok (pending s)" using assms(2) by (simp add: rd_block_def pending_def)
  have "nat (inbuf s - offset s) \<le> length b - nat (offset s)" using s by linarith
  then show "length (pending s) = nat (inbuf s - offset s)" using assms(2) by (simp add: pending_def)
qed

lemma advance_ok:
  assumes "side_ok s" and "j \<le> length (pending s)" and "buf s = Some b"
  shows "side_ok (advance s j)" and "pending (advance s j) = drop j (pending s)" and "buf (advance s j) = buf s"
proof -
  have l: "int j \<le> inbuf s - offset s" using assms(2) pending_block(2) [OF assms(1,3)] assms(1) unfolding side_ok_def by linarith
  then show "side_ok (advance s j)" "buf (advance s j) = buf s" using assms(1,3) by (auto simp: advance_def side_ok_def)
  have "nat (inbuf s - offset s) - j = nat (inbuf s - (offset s + int j))" using l by simp
  moreover have "j + nat (offset s) = nat (offset s + int j)" using assms(1) by (simp add: side_ok_def nat_add_distrib)
  ultimately show "pending (advance s j) = drop j (pending s)"
    using assms(3) l by (auto simp: advance_def pending_def drop_take)
qed

lemma room_ok: "side_ok s \<Longrightarrow> buf s = Some b \<Longrightarrow> room s = bufsize s - inbuf s"
  by (simp add: side_ok_def room_def)

lemma pending_add: "pending (add_in (s\<lparr>buf := Some b\<rparr>) i) = take (nat ((inbuf s + i) mod 2 ^ 32 - offset s)) (drop (nat (offset s)) b)"
  by (simp add: pending_def add_in_def)

lemma add_in_ok:
  assumes "side_ok s" and "buf s = Some b" and "int (length bs) \<le> room s"
  shows "\<exists>b'. wr_block b (inbuf s) bs = Ok b' \<and> side_ok (add_in (s\<lparr>buf := Some b'\<rparr>) (int (length bs))) \<and>
    pending (add_in (s\<lparr>buf := Some b'\<rparr>) (int (length bs))) = pending s @ bs"
proof -
  have s: "0 \<le> offset s" "offset s \<le> inbuf s" "inbuf s + int (length bs) \<le> bufsize s" "bufsize s < 2 ^ 32" "int (length b) = bufsize s"
    using assms room_ok [OF assms(1,2)] by (simp_all add: side_ok_def)
  let ?b = "take (nat (inbuf s)) b @ bs @ drop (nat (inbuf s) + length bs) b"
  have "wr_block b (inbuf s) bs = Ok ?b" using s by (simp add: wr_block_def)
  moreover have m: "(inbuf s + int (length bs)) mod 2 ^ 32 = inbuf s + int (length bs)" using s by simp
  have "side_ok (add_in (s\<lparr>buf := Some ?b\<rparr>) (int (length bs)))" using s by (simp add: side_ok_def add_in_def m)
  moreover have "pending (add_in (s\<lparr>buf := Some ?b\<rparr>) (int (length bs))) = pending s @ bs"
  proof -
    have n: "nat (inbuf s + int (length bs) - offset s) = nat (inbuf s - offset s) + length bs" using s by simp
    have i: "nat (inbuf s) = nat (offset s) + nat (inbuf s - offset s)" "length (take (nat (inbuf s)) b) = nat (inbuf s)" using s by simp_all
    have "nat (offset s) - length (take (nat (inbuf s)) b) = 0" unfolding i(2) using s by simp
    then have d: "drop (nat (offset s)) ?b = drop (nat (offset s)) (take (nat (inbuf s)) b) @ bs @ drop (nat (inbuf s) + length bs) b" by (simp only: drop_append drop_0 append_assoc diff_0_eq_0)
    have p: "drop (nat (offset s)) (take (nat (inbuf s)) b) = pending s" using i(1) assms(2) by (simp add: pending_def drop_take)
    have "pending (add_in (s\<lparr>buf := Some ?b\<rparr>) (int (length bs))) = take (nat (inbuf s + int (length bs) - offset s)) (drop (nat (offset s)) ?b)"
      unfolding pending_add m ..
    then show ?thesis unfolding d p n pending_block(2) [OF assms(1,2), symmetric] by simp
  qed
  ultimately show ?thesis by blast
qed

section \<open>The parts of the loop\<close>

definition good :: "mapping_state \<Rightarrow> bool" where
  "good st \<longleftrightarrow> side_ok (cli (par st)) \<and> side_ok (srv (par st)) \<and> (waitserver (par st) = 0 \<longrightarrow> buf (cli (par st)) \<noteq> None) \<and>
     (waitclient (par st) = 0 \<longrightarrow> buf (srv (par st)) \<noteq> None)"

text \<open>A part ends with a \<open>good\<close> state and has lost nothing; the only fault it can have is the overflow of a counter.\<close>

definition flows :: "mapping_state \<Rightarrow> (flow \<times> mapping_state) res \<Rightarrow> bool" where
  "flows st m \<longleftrightarrow> m = Fault Int_overflow \<or>
     (\<exists>fl st'. m = Ok (fl, st') \<and> good st' \<and> relays (par st) (nt st) (par st') (nt st') \<and> waitserver (par st') = waitserver (par st) \<and> waitclient (par st') = waitclient (par st))"

lemma flows_Ok: "flows st (Ok (fl, st')) \<longleftrightarrow> good st' \<and> relays (par st) (nt st) (par st') (nt st') \<and>
  waitserver (par st') = waitserver (par st) \<and> waitclient (par st') = waitclient (par st)"
  by (simp add: flows_def)

lemma flows_bind:
  assumes "flows st m" and "\<And>st'. good st' \<Longrightarrow> waitserver (par st') = waitserver (par st) \<Longrightarrow> waitclient (par st') = waitclient (par st) \<Longrightarrow> flows st' (f st')"
  shows "flows st (flow_bind m f)"
proof (cases m)
  case (Ok x)
  obtain fl st' where x: "x = (fl, st')" by (cases x)
  then have g: "good st'" "relays (par st) (nt st) (par st') (nt st')" "waitserver (par st') = waitserver (par st)" "waitclient (par st') = waitclient (par st)"
    using assms(1) Ok by (simp_all add: flows_Ok)
  show ?thesis
  proof (cases "fl = Go")
    case True
    then have "flow_bind m f = f st'" using Ok x by (simp add: flow_bind_def)
    then show ?thesis using assms(2) [OF g(1,3,4)] g relays_trans [OF g(2)] unfolding flows_def by auto
  next
    case False
    then show ?thesis using assms(1) Ok x by (simp add: flow_bind_def)
  qed
qed (use assms(1) in \<open>auto simp: flows_def flow_bind_def\<close>)

lemma flows_when: "good st \<Longrightarrow> (b \<Longrightarrow> flows st (f st)) \<Longrightarrow> flows st (when_flow b f st)"
  by (simp add: when_flow_def flows_Ok relays_refl)

lemma sys_send_log:
  "sys_send e d bs n = (r, n') \<Longrightarrow> got n' = got n \<and> (case r of Failed er \<Rightarrow> put n' = put n | Done j \<Rightarrow> j \<le> length bs \<and> put n' = (put n)(d := put n d @ take j bs))"
  by (auto simp: sys_send_def min_def split: sys.splits)

lemma sys_recv_log:
  "sys_recv e d sz n = (r, n') \<Longrightarrow> put n' = put n \<and>
    (case r of Failed er \<Rightarrow> got n' = got n \<and> recvs e (tick n) = Failed er | Done bs \<Rightarrow> length bs \<le> nat sz \<and> got n' = (got n)(d := got n d @ bs))"
  by (auto simp: sys_recv_def split: sys.splits)

text \<open>Sending: what was sent moves from the buffer to the other side.\<close>

lemma relays_sent:
  assumes "side_ok (side_of d p)" and "buf (side_of d p) = Some b" and "j \<le> length (pending (side_of d p))"
    and "side_of d p' = advance (side_of d p) j" and "side_of (other d) p' = side_of (other d) p"
    and "got n' = got n" and "put n' = (put n)(other d := put n (other d) @ take j (pending (side_of d p)))"
  shows "relays p n p' n'"
proof (rule relaysI)
  fix d'
  show "\<exists>new. got n' d' = got n d' @ new \<and> carried d' p' n' = carried d' p n @ new"
    using assms advance_ok(2) [OF assms(1,3,2)] by (cases d; cases d') (simp_all add: carried_def)
qed

lemma relays_received:
  assumes "pending (side_of d p') = pending (side_of d p) @ bs" and "side_of (other d) p' = side_of (other d) p"
    and "put n' = put n" and "got n' = (got n)(d := got n d @ bs)"
  shows "relays p n p' n'"
proof (rule relaysI)
  fix d'
  show "\<exists>new. got n' d' = got n d' @ new \<and> carried d' p' n' = carried d' p n @ new"
    using assms by (cases d; cases d') (simp_all add: carried_def)
qed

lemma send_to_client_ok:
  assumes "good st" and "buf (srv (par st)) \<noteq> None"
  shows "flows st (send_to_client e st)"
proof -
  let ?p = "par st" let ?s = "srv ?p"
  obtain b where b: "buf ?s = Some b" using assms(2) by blast
  have s: "side_ok ?s" using assms(1) by (simp add: good_def)
  define st0 where "st0 = (case bandlim e of None \<Rightarrow> st | Some f \<Rightarrow> st\<lparr>sleeptime := f (tick (nt st)) (inbuf ?s - offset ?s) 0\<rparr>)"
  have st0: "par st0 = ?p" "nt st0 = nt st" by (simp_all add: st0_def split: option.split)
  obtain r n where r: "sys_send e CLIENT (pending ?s) (nt st) = (r, n)" by (cases "sys_send e CLIENT (pending ?s) (nt st)")
  have E: "send_to_client e st = (case r of
      Failed er \<Rightarrow> Ok (if er \<noteq> EAGAIN then Return 96 else Continue, st0\<lparr>nt := n\<rparr>)
    | Done j \<Rightarrow> bindR (grow (received st0) j) (\<lambda>r.
        let st = st0\<lparr>nt := n, received := r, par := ?p\<lparr>srv := advance ?s j, statssrv := statssrv ?p + int j\<rparr>\<rparr> in
        if waitserver ?p \<noteq> 0 \<and> waitserver ?p \<le> r then Ok (Return 98, st)
        else Ok (Go, if service ?p = S_UDPPM \<and> singlepacket ?p then st\<lparr>stopped := True\<rparr> else st)))"
    using pending_block(1) [OF s b] b r st0 by (simp add: send_to_client_def Let_def side_buf_def st0_def [symmetric] split: sys.split)
  show ?thesis
  proof (cases r)
    case (Failed er)
    then show ?thesis using E sys_send_log [OF r] st0 assms(1) by (simp add: flows_Ok good_def relays_idle)
  next
    case (Done j)
    let ?p' = "?p\<lparr>srv := advance ?s j, statssrv := statssrv ?p + int j\<rparr>"
    have l: "j \<le> length (pending ?s)" "got n = got (nt st)" "put n = (put (nt st))(CLIENT := put (nt st) CLIENT @ take j (pending ?s))"
      using sys_send_log [OF r] Done by simp_all
    have "relays ?p (nt st) ?p' n" by (rule relays_sent [where d = SERVER]) (use s b l in \<open>simp_all add: side_of_def\<close>)
    moreover have "side_ok (advance ?s j)" "buf (advance ?s j) \<noteq> None" using advance_ok [OF s l(1) b] b by simp_all
    ultimately show ?thesis using E Done assms(1) st0
      by (cases "received st0 + int j < 2 ^ 31") (auto simp: flows_Ok good_def grow_def checkR_def Let_def flows_def)
  qed
qed

lemma send_to_server_ok:
  assumes "good st" and "buf (cli (par st)) \<noteq> None"
  shows "flows st (send_to_server e st)"
proof -
  let ?p = "par st" let ?s = "cli ?p"
  obtain b where b: "buf ?s = Some b" using assms(2) by blast
  have s: "side_ok ?s" using assms(1) by (simp add: good_def)
  define st0 where "st0 = (case bandlim e of None \<Rightarrow> st | Some f \<Rightarrow>
      let sl1 = f (tick (nt st)) 0 (inbuf ?s - offset ?s) in if sl1 > sleeptime st then st\<lparr>sleeptime := sl1\<rparr> else st)"
  have st0: "par st0 = ?p" "nt st0 = nt st" by (simp_all add: st0_def Let_def split: option.split)
  obtain r n where r: "sys_send e SERVER (pending ?s) (nt st) = (r, n)" by (cases "sys_send e SERVER (pending ?s) (nt st)")
  have E: "send_to_server e st = (case r of
      Failed er \<Rightarrow> Ok (if er \<noteq> EAGAIN then Return 97 else Continue, st0\<lparr>nt := n\<rparr>)
    | Done j \<Rightarrow> bindR (grow (sent st0) j) (\<lambda>r.
        let st = st0\<lparr>nt := n, sent := r, par := ?p\<lparr>cli := advance ?s j, statscli := statscli ?p + int j\<rparr>\<rparr> in
        if waitclient ?p \<noteq> 0 \<and> waitclient ?p \<le> r then Ok (Return 99, st) else Ok (Go, st)))"
    using pending_block(1) [OF s b] b r st0 unfolding send_to_server_def Let_def st0_def [unfolded Let_def, symmetric]
    by (simp add: side_buf_def split: sys.split)
  show ?thesis
  proof (cases r)
    case (Failed er)
    then show ?thesis using E sys_send_log [OF r] st0 assms(1) by (simp add: flows_Ok good_def relays_idle)
  next
    case (Done j)
    let ?p' = "?p\<lparr>cli := advance ?s j, statscli := statscli ?p + int j\<rparr>"
    have l: "j \<le> length (pending ?s)" "got n = got (nt st)" "put n = (put (nt st))(SERVER := put (nt st) SERVER @ take j (pending ?s))"
      using sys_send_log [OF r] Done by simp_all
    have "relays ?p (nt st) ?p' n" by (rule relays_sent [where d = CLIENT]) (use s b l in \<open>simp_all add: side_of_def\<close>)
    moreover have "side_ok (advance ?s j)" "buf (advance ?s j) \<noteq> None" using advance_ok [OF s l(1) b] b by simp_all
    ultimately show ?thesis using E Done assms(1) st0
      by (cases "sent st0 + int j < 2 ^ 31") (auto simp: flows_Ok good_def grow_def checkR_def Let_def flows_def)
  qed
qed

text \<open>Receiving: what was received is added to the buffer.\<close>

lemma received_ok:
  assumes "sys_recv e d (room s) n = (Done bs, n')" and "side_ok s" and "buf s = Some b"
  shows "\<exists>b'. wr_block b (inbuf s) bs = Ok b' \<and> side_ok (add_in (s\<lparr>buf := Some b'\<rparr>) (int (length bs))) \<and>
    pending (add_in (s\<lparr>buf := Some b'\<rparr>) (int (length bs))) = pending s @ bs"
proof (rule add_in_ok [OF assms(2,3)])
  have "0 \<le> room s" using room_ok [OF assms(2,3)] assms(2,3) by (simp add: side_ok_def)
  then show "int (length bs) \<le> room s" using sys_recv_log [OF assms(1)] by (auto simp: le_nat_iff)
qed

lemma recv_from_client_ok:
  assumes "good st" and "buf (cli (par st)) = Some b" and "\<forall>i. recvs e i \<noteq> Failed EAGAIN"
  shows "flows st (recv_from_client e st)"
proof -
  let ?p = "par st" let ?s = "cli ?p"
  have s: "side_ok ?s" using assms(1) by (simp add: good_def)
  obtain r n where r: "sys_recv e CLIENT (room ?s) (nt st) = (r, n)" by (cases "sys_recv e CLIENT (room ?s) (nt st)")
  show ?thesis
  proof (cases r)
    case (Failed er)
    then have "er \<noteq> EAGAIN" using sys_recv_log [OF r] assms(3) by auto
    then show ?thesis using r Failed sys_recv_log [OF r] assms(1) by (simp add: recv_from_client_def Let_def flows_Ok good_def relays_idle)
  next
    case (Done bs)
    have g: "put n = put (nt st)" "got n = (got (nt st))(CLIENT := got (nt st) CLIENT @ bs)" using sys_recv_log [OF r] Done by simp_all
    obtain b' where w: "wr_block b (inbuf ?s) bs = Ok b'" "side_ok (add_in (?s\<lparr>buf := Some b'\<rparr>) (int (length bs)))"
        "pending (add_in (?s\<lparr>buf := Some b'\<rparr>) (int (length bs))) = pending ?s @ bs"
      using received_ok [OF r [unfolded Done] s assms(2)] by blast
    let ?p' = "?p\<lparr>cli := add_in (?s\<lparr>buf := Some b'\<rparr>) (int (length bs))\<rparr>"
    have "relays ?p (nt st) ?p' n" by (rule relays_received [where d = CLIENT and bs = bs]) (use w(3) g in \<open>simp_all add: side_of_def\<close>)
    moreover have "buf (add_in (?s\<lparr>buf := Some b'\<rparr>) (int (length bs))) \<noteq> None" by (simp add: add_in_def)
    ultimately show ?thesis using r Done w(1,2) assms(1,2) g
      by (auto simp: recv_from_client_def Let_def flows_Ok good_def side_buf_def intro: relays_idle)
  qed
qed

lemma recv_from_server_ok:
  assumes "good st" and "buf (srv (par st)) = Some b" and "\<forall>i. recvs e i \<noteq> Failed EAGAIN"
  shows "flows st (recv_from_server e st)"
proof -
  let ?p = "par st" let ?s = "srv ?p"
  have s: "side_ok ?s" using assms(1) by (simp add: good_def)
  obtain r n where r: "sys_recv e SERVER (room ?s) (nt st) = (r, n)" by (cases "sys_recv e SERVER (room ?s) (nt st)")
  show ?thesis
  proof (cases r)
    case (Failed er)
    then have "er \<noteq> EAGAIN" using sys_recv_log [OF r] assms(3) by auto
    then show ?thesis using r Failed sys_recv_log [OF r] assms(1) by (simp add: recv_from_server_def Let_def flows_Ok good_def relays_idle)
  next
    case (Done bs)
    have g: "put n = put (nt st)" "got n = (got (nt st))(SERVER := got (nt st) SERVER @ bs)" using sys_recv_log [OF r] Done by simp_all
    obtain b' where w: "wr_block b (inbuf ?s) bs = Ok b'" "side_ok (add_in (?s\<lparr>buf := Some b'\<rparr>) (int (length bs)))"
        "pending (add_in (?s\<lparr>buf := Some b'\<rparr>) (int (length bs))) = pending ?s @ bs"
      using received_ok [OF r [unfolded Done] s assms(2)] by blast
    let ?p' = "?p\<lparr>srv := add_in (?s\<lparr>buf := Some b'\<rparr>) (int (length bs))\<rparr>"
    have "relays ?p (nt st) ?p' n" by (rule relays_received [where d = SERVER and bs = bs]) (use w(3) g in \<open>simp_all add: side_of_def\<close>)
    moreover have "buf (add_in (?s\<lparr>buf := Some b'\<rparr>) (int (length bs))) \<noteq> None" by (simp add: add_in_def)
    ultimately show ?thesis using r Done w(1,2) assms(1,2) g
      by (auto simp: recv_from_server_def Let_def flows_Ok good_def side_buf_def intro: relays_idle)
  qed
qed

lemma sleep_part_ok: "good st \<Longrightarrow> flows st (sleep_part timeo st)"
  by (simp add: sleep_part_def flows_Ok good_def relays_idle)

lemma flows_nt:
  assumes "got n = got (nt st)" and "put n = put (nt st)" and "flows (st\<lparr>nt := n\<rparr>) m"
  shows "flows st m"
  using assms relays_trans [OF relays_idle [of n "nt st" "par st" "par st"]] unfolding flows_def by auto

lemma map_round_ok:
  assumes "good st" and "\<forall>i. recvs e i \<noteq> Failed EAGAIN"
  shows "flows st (map_round e minsize timeo st)"
proof -
  let ?p = "par st" and ?st = "st\<lparr>nt := passed (nt st)\<rparr>"
  have g: "good ?st" using assms(1) by (simp add: good_def)
  have i: "flows st (Ok (fl, ?st))" for fl using g by (simp add: flows_Ok relays_idle)
  have parts: "flows ?st (flow_bind (when_flow (want_out_cli ?p \<and> o0) (send_to_client e) ?st) (\<lambda>st.
      flow_bind (when_flow (want_out_srv ?p \<and> o1) (send_to_server e) st) (\<lambda>st.
      flow_bind (when_flow (want_in_cli minsize ?p \<and> i0) (recv_from_client e) st) (\<lambda>st.
      flow_bind (when_flow (\<not> stopped st \<and> want_in_srv minsize ?p \<and> i1) (recv_from_server e) st) (sleep_part timeo)))))" for o0 o1 i0 i1
  proof (intro flows_bind flows_when)
    show "flows ?st (send_to_client e ?st)" if "want_out_cli ?p \<and> o0"
      using that g by (intro send_to_client_ok) (auto simp: want_out_cli_def good_def)
    show "flows s (send_to_server e s)" if "good s" "waitserver (par s) = waitserver (par ?st)" "want_out_srv ?p \<and> o1" for s
      using that by (intro send_to_server_ok) (auto simp: want_out_srv_def good_def)
    show "flows s (recv_from_client e s)" if h: "good s" "waitserver (par s) = waitserver (par s0)" "waitserver (par s0) = waitserver (par ?st)" "want_in_cli minsize ?p \<and> i0" for s s0
    proof -
      have "waitserver (par s) = 0" using h(2-4) by (simp add: want_in_cli_def)
      then obtain b where "buf (cli (par s)) = Some b" using h(1) unfolding good_def by blast
      then show ?thesis using recv_from_client_ok [OF h(1) _ assms(2)] by blast
    qed
    show "flows s (recv_from_server e s)" if h: "good s" "waitclient (par s) = waitclient (par s1)" "waitclient (par s1) = waitclient (par s0)" "waitclient (par s0) = waitclient (par ?st)"
      "\<not> stopped s \<and> want_in_srv minsize ?p \<and> i1" for s s0 s1
    proof -
      have "waitclient (par s) = 0" using h(2-5) by (simp add: want_in_srv_def)
      then obtain b where "buf (srv (par s)) = Some b" using h(1) unfolding good_def by blast
      then show ?thesis using recv_from_server_ok [OF h(1) _ assms(2)] by blast
    qed
  qed (use g sleep_part_ok in auto)
  show ?thesis
  proof (cases "maxtraf ?p \<noteq> 0 \<and> statssrv ?p \<ge> maxtraf ?p")
    case True
    then show ?thesis using assms(1) by (simp add: map_round_def flows_Ok relays_refl)
  next
    case False
    then show ?thesis using i flows_nt [OF _ _ parts, simplified] by (cases "polls e (tick (nt st))") (auto simp: map_round_def sys_poll_def Let_def)
  qed
qed

lemma map_loop_ok:
  "good st \<Longrightarrow> \<forall>i. recvs e i \<noteq> Failed EAGAIN \<Longrightarrow> map_loop k e minsize timeo st \<in> {Timeout, Fault Int_overflow} \<or>
    (\<exists>r st'. map_loop k e minsize timeo st = Ok (r, st') \<and> good st' \<and> relays (par st) (nt st) (par st') (nt st'))"
proof (induction k arbitrary: st)
  case 0
  then show ?case by (simp add: relays_refl)
next
  case (Suc k)
  show ?case
  proof (cases "stopped st")
    case True
    then show ?thesis using Suc.prems by (simp add: relays_refl)
  next
    case False
    consider "map_round e minsize timeo st = Fault Int_overflow"
      | fl st1 where "map_round e minsize timeo st = Ok (fl, st1)" "good st1" "relays (par st) (nt st) (par st1) (nt st1)"
      using map_round_ok [OF Suc.prems, of minsize timeo] unfolding flows_def by blast
    then show ?thesis
    proof cases
      case 1
      then show ?thesis using False by simp
    next
      case 2
      show ?thesis
      proof (cases "\<exists>r. fl = Return r")
        case True
        then show ?thesis using 2 False by auto
      next
        case go: False
        then have "map_loop (Suc k) e minsize timeo st = map_loop k e minsize timeo st1" using 2(1) False by (cases fl) auto
        then show ?thesis using Suc.IH [OF 2(2) Suc.prems(2)] relays_trans [OF 2(3)] by auto
      qed
    qed
  qed
qed

section \<open>Flushing\<close>

lemma rd_block_rest: "rd_block b pos sz = Ok blk \<Longrightarrow> 0 \<le> i \<Longrightarrow> i \<le> sz \<Longrightarrow> rd_block b (pos + i) (sz - i) = Ok (drop (nat i) blk)"
proof -
  assume a: "rd_block b pos sz = Ok blk" "0 \<le> i" "i \<le> sz"
  then have p: "0 \<le> pos" "pos + sz \<le> int (length b)" "blk = take (nat sz) (drop (nat pos) b)" by (auto simp: rd_block_def split: if_splits)
  have "nat (pos + i) = nat i + nat pos" "nat (sz - i) = nat sz - nat i" using a p by (simp_all add: nat_add_distrib nat_diff_distrib)
  then show ?thesis using a(2,3) p by (simp add: rd_block_def drop_take)
qed

definition sent_on :: "DIRECTION \<Rightarrow> net \<Rightarrow> net \<Rightarrow> byte list \<Rightarrow> bool" where
  "sent_on d n n' bs \<longleftrightarrow> got n' = got n \<and> put n' = (put n)(d := put n d @ bs)"

lemma sent_on_trans: "sent_on d n n1 a \<Longrightarrow> sent_on d n1 n2 b \<Longrightarrow> sent_on d n n2 (a @ b)"
  by (simp add: sent_on_def)

lemma sent_on_none: "got n' = got n \<Longrightarrow> put n' = put n \<Longrightarrow> sent_on d n n' []"
  by (simp add: sent_on_def)

definition sends_part :: "byte list \<Rightarrow> DIRECTION \<Rightarrow> int \<Rightarrow> net \<Rightarrow> (int \<times> net) res \<Rightarrow> bool" where
  "sends_part blk d i n m \<longleftrightarrow> m = Timeout \<or>
     (\<exists>r n'. m = Ok (r, n') \<and> i \<le> r \<and> r \<le> int (length blk) \<and> sent_on d n n' (take (nat (r - i)) (drop (nat i) blk)))"

lemma sends_part_none: "i \<le> int (length blk) \<Longrightarrow> got n' = got n \<Longrightarrow> put n' = put n \<Longrightarrow> sends_part blk d i n (Ok (i, n'))"
  using sent_on_none by (simp add: sends_part_def)

lemma sends_part_more:
  assumes "sends_part blk d (i + int j) n1 m" and "sent_on d n n1 (take j (drop (nat i) blk))" and "0 \<le> i"
  shows "sends_part blk d i n m"
proof -
  have "take j (drop (nat i) blk) @ take (nat (r - (i + int j))) (drop (nat (i + int j)) blk) = take (nat (r - i)) (drop (nat i) blk)" if "i + int j \<le> r" for r
  proof -
    have "nat (i + int j) = j + nat i" "nat (r - i) = j + nat (r - (i + int j))" using that assms(3) by auto
    then show ?thesis by (simp add: take_add)
  qed
  then show ?thesis using assms(1) sent_on_trans [OF assms(2)] unfolding sends_part_def by fastforce
qed

lemma send_loop_ok:
  "\<forall>i. \<not> timetoexit e i \<Longrightarrow> rd_block b pos sz = Ok blk \<Longrightarrow> 0 \<le> i \<Longrightarrow> i \<le> sz \<Longrightarrow> sends_part blk d i n (send_loop k e again d b pos sz i n)"
proof (induction k arbitrary: i n)
  case 0
  then show ?case by (simp add: sends_part_def)
next
  case (Suc k)
  let ?go = "\<lambda>i n. if i < sz then send_loop k e again d b pos sz i n else Ok (i, n)"
  have bl: "int (length blk) = sz" using Suc.prems(2) by (auto simp: rd_block_def split: if_splits)
  have go: "sends_part blk d s n1 (?go s n1)" if "0 \<le> s" "s \<le> sz" for s n1
    using Suc.IH [OF Suc.prems(1,2) that, of n1] that(2) sends_part_none [of s blk n1 n1 d] bl by auto
  have idle: "sends_part blk d i n (?go i n1)" "sends_part blk d i n (Ok (i, n1))" if "got n1 = got n" "put n1 = put n" for n1
    using sends_part_more [of blk d i 0 n1 "?go i n1" n] go [OF Suc.prems(3,4), of n1] sent_on_none [of n1 n d] sends_part_none [of i blk n1 n d] that Suc.prems(3,4) bl by simp_all
  show ?case
  proof (cases "polls e (tick n)")
    case (Poll_ready r0 r1)
    let ?bs = "drop (nat i) blk"
    obtain r n1 where r: "sys_send e d ?bs (passed n) = (r, n1)" by (cases "sys_send e d ?bs (passed n)")
    have E: "send_loop (Suc k) e again d b pos sz i n = (case r of Failed er \<Rightarrow> if er \<in> again then ?go i n1 else Ok (i, n1) | Done j \<Rightarrow> ?go (i + int j) n1)"
      using Suc.prems(1) Poll_ready r rd_block_rest [OF Suc.prems(2-4)] by (simp add: sys_poll_def Let_def)
    show ?thesis
    proof (cases r)
      case (Failed er)
      then show ?thesis unfolding E using idle [of n1] sys_send_log [OF r] by simp
    next
      case (Done j)
      have l: "j \<le> length ?bs" "sent_on d n n1 (take j ?bs)" using sys_send_log [OF r] Done by (simp_all add: sent_on_def)
      have s: "0 \<le> i + int j" "i + int j \<le> sz" using l(1) bl Suc.prems(3,4) by auto
      show ?thesis unfolding E Done sys.case using sends_part_more [OF go [OF s] l(2) Suc.prems(3)] .
    qed
  qed (use Suc.prems(1) idle [of "passed n"] in \<open>auto simp: sys_poll_def Let_def split: if_splits\<close>)
qed

lemma flush_step:
  assumes "\<forall>i. \<not> timetoexit e i" and "side_ok s" and "buf s = Some b"
  shows "socksendto k e d b (offset s) (inbuf s - offset s) n = Timeout \<or>
    (\<exists>r n'. socksendto k e d b (offset s) (inbuf s - offset s) n = Ok (r, n') \<and> 0 \<le> r \<and> nat r \<le> length (pending s) \<and> sent_on d n n' (take (nat r) (pending s)))"
  using send_loop_ok [OF assms(1) pending_block(1) [OF assms(2,3)], of 0] assms(2)
  unfolding socksendto_def sends_part_def by (fastforce simp: side_ok_def)

lemma flush_client_ok:
  "\<forall>i. \<not> timetoexit e i \<Longrightarrow> side_ok (srv p) \<Longrightarrow> waitclient p = 0 \<longrightarrow> buf (srv p) \<noteq> None \<Longrightarrow> flush_client k e p n = Timeout \<or>
    (\<exists>p' n'. flush_client k e p n = Ok (p', n') \<and> side_ok (srv p') \<and> relays p n p' n' \<and> cli p' = cli p \<and> waitserver p' = waitserver p)"
proof (induction k arbitrary: p n)
  case 0
  then show ?case by (simp add: relays_refl)
next
  case (Suc k)
  let ?s = "srv p"
  show ?case
  proof (cases "waitclient p = 0 \<and> inbuf ?s > offset ?s \<and> clisock p")
    case False
    then show ?thesis using Suc.prems by (auto simp: relays_refl)
  next
    case True
    then obtain b where b: "buf ?s = Some b" using Suc.prems(3) by auto
    consider "socksendto (Suc k) e CLIENT b (offset ?s) (inbuf ?s - offset ?s) n = Timeout"
      | r n1 where "socksendto (Suc k) e CLIENT b (offset ?s) (inbuf ?s - offset ?s) n = Ok (r, n1)" "0 \<le> r" "nat r \<le> length (pending ?s)"
          "sent_on CLIENT n n1 (take (nat r) (pending ?s))"
      using flush_step [OF Suc.prems(1,2) b] by blast
    then show ?thesis
    proof cases
      case 1
      then show ?thesis using True b by (simp add: side_buf_def Let_def)
    next
      case 2
      let ?p = "p\<lparr>srv := advance ?s (nat r), statssrv := statssrv p + r\<rparr>"
      have R: "relays p n ?p n1"
        by (rule relays_sent [where d = SERVER]) (use Suc.prems(2) b 2 in \<open>simp_all add: side_of_def sent_on_def\<close>)
      note a = advance_ok [OF Suc.prems(2) 2(3) b]
      have z: "relays p n p n1" if "\<not> 0 < r" using R that 2(2,4) by (intro relays_idle) (simp_all add: sent_on_def)
      have "flush_client (Suc k) e p n = (if r > 0 then flush_client k e ?p n1 else Ok (p, n1))" using True b 2(1) by (simp add: side_buf_def Let_def)
      moreover have "flush_client k e ?p n1 = Timeout \<or> (\<exists>p' n'. flush_client k e ?p n1 = Ok (p', n') \<and> side_ok (srv p') \<and> relays ?p n1 p' n' \<and> cli p' = cli p \<and> waitserver p' = waitserver p)"
        using Suc.IH [OF Suc.prems(1), of ?p n1] a b by auto
      ultimately show ?thesis using relays_trans [OF R] z Suc.prems(2) by auto
    qed
  qed
qed

lemma flush_server_ok:
  "\<forall>i. \<not> timetoexit e i \<Longrightarrow> side_ok (cli p) \<Longrightarrow> waitserver p = 0 \<longrightarrow> buf (cli p) \<noteq> None \<Longrightarrow> flush_server k e p n = Timeout \<or>
    (\<exists>p' n'. flush_server k e p n = Ok (p', n') \<and> side_ok (cli p') \<and> relays p n p' n' \<and> srv p' = srv p)"
proof (induction k arbitrary: p n)
  case 0
  then show ?case by (simp add: relays_refl)
next
  case (Suc k)
  let ?s = "cli p"
  show ?case
  proof (cases "waitserver p = 0 \<and> inbuf ?s > offset ?s \<and> remsock p")
    case False
    then show ?thesis using Suc.prems by (auto simp: relays_refl)
  next
    case True
    then obtain b where b: "buf ?s = Some b" using Suc.prems(3) by auto
    consider "socksendto (Suc k) e SERVER b (offset ?s) (inbuf ?s - offset ?s) n = Timeout"
      | r n1 where "socksendto (Suc k) e SERVER b (offset ?s) (inbuf ?s - offset ?s) n = Ok (r, n1)" "0 \<le> r" "nat r \<le> length (pending ?s)"
          "sent_on SERVER n n1 (take (nat r) (pending ?s))"
      using flush_step [OF Suc.prems(1,2) b] by blast
    then show ?thesis
    proof cases
      case 1
      then show ?thesis using True b by (simp add: side_buf_def Let_def)
    next
      case 2
      let ?p = "p\<lparr>cli := advance ?s (nat r), statscli := statscli p + r\<rparr>"
      have R: "relays p n ?p n1"
        by (rule relays_sent [where d = CLIENT]) (use Suc.prems(2) b 2 in \<open>simp_all add: side_of_def sent_on_def\<close>)
      note a = advance_ok [OF Suc.prems(2) 2(3) b]
      have z: "relays p n p n1" if "\<not> 0 < r" using R that 2(2,4) by (intro relays_idle) (simp_all add: sent_on_def)
      have "flush_server (Suc k) e p n = (if r > 0 then flush_server k e ?p n1 else Ok (p, n1))" using True b 2(1) by (simp add: side_buf_def Let_def)
      moreover have "flush_server k e ?p n1 = Timeout \<or> (\<exists>p' n'. flush_server k e ?p n1 = Ok (p', n') \<and> side_ok (cli p') \<and> relays ?p n1 p' n' \<and> srv p' = srv p)"
        using Suc.IH [OF Suc.prems(1), of ?p n1] a b by auto
      ultimately show ?thesis using relays_trans [OF R] z Suc.prems(2) by auto
    qed
  qed
qed

section \<open>The whole mapping\<close>

lemma need_buf_ok:
  assumes "need_buf e need sz s n = (Some s', n')" and "side_ok s" and "0 \<le> sz" and "sz < 2 ^ 32"
  shows "side_ok s' \<and> pending s' = pending s \<and> (need \<longrightarrow> buf s' \<noteq> None) \<and> got n' = got n \<and> put n' = put n"
  using assms by (auto simp: need_buf_def sys_alloc_def side_ok_def pending_def split: if_splits option.splits)

lemma need_buf_none: "need_buf e need sz s n = (None, n') \<Longrightarrow> got n' = got n \<and> put n' = put n"
  by (auto simp: need_buf_def sys_alloc_def split: if_splits option.splits)

lemma relays_sides:
  assumes "pending (cli p') = pending (cli p)" and "pending (srv p') = pending (srv p)" and "got n' = got n" and "put n' = put n"
  shows "relays p n p' n'"
proof (rule relaysI)
  fix d
  show "\<exists>new. got n' d = got n d @ new \<and> carried d p' n' = carried d p n @ new" using assms by (cases d) (simp_all add: carried_def side_of_def)
qed

lemma sockmap_ok:
  assumes "side_ok (cli p)" and "side_ok (srv p)" and "0 \<le> parbufsize p" and "parbufsize p < 2 ^ 32"
    and "\<forall>i. recvs e i \<noteq> Failed EAGAIN" and "\<forall>i. \<not> timetoexit e i"
  shows "sockmap k e timeo p n \<in> {Timeout, Fault Int_overflow} \<or>
    (\<exists>r p' n'. sockmap k e timeo p n = Ok (r, p', n') \<and> side_ok (cli p') \<and> side_ok (srv p') \<and> relays p n p' n')"
proof -
  define sz where "sz = (if parbufsize p \<noteq> 0 then parbufsize p else BUFSIZE p)"
  define ms where "ms = (if service p = S_UDPPM then sz - 1 else 0)"
  have sz: "0 \<le> sz" "sz < 2 ^ 32" using assms(3,4) by (simp_all add: sz_def BUFSIZE_def)
  note d = sockmap_def [of k e timeo p n, folded sz_def, unfolded Let_def, folded ms_def]
  obtain os n1 where n1: "need_buf e (waitclient p = 0) sz (srv p) n = (os, n1)" by (cases "need_buf e (waitclient p = 0) sz (srv p) n")
  show ?thesis
  proof (cases os)
    case None
    then show ?thesis using n1 need_buf_none assms(1,2) by (auto simp: d intro: relays_idle)
  next
    case (Some s)
    note s = need_buf_ok [OF n1 [unfolded Some] assms(2) sz]
    let ?p = "p\<lparr>srv := s\<rparr>"
    have r1: "relays p n ?p n1" by (rule relays_sides) (use s in simp_all)
    obtain oc n2 where n2: "need_buf e (waitserver p = 0) sz (cli p) n1 = (oc, n2)" by (cases "need_buf e (waitserver p = 0) sz (cli p) n1")
    show ?thesis
    proof (cases oc)
      case None
      have "relays ?p n1 ?p n2" using need_buf_none n2 None by (intro relays_idle) auto
      then show ?thesis using n1 n2 Some None s assms(1) relays_trans [OF r1] by (auto simp: d)
    next
      case oc: (Some c)
      note c = need_buf_ok [OF n2 [unfolded oc] assms(1) sz]
      let ?st = "\<lparr>par = ?p\<lparr>cli := c\<rparr>, nt = n2, sent = 0, received = 0, sleeptime = 0, stopped = False\<rparr>"
      have "relays ?p n1 (?p\<lparr>cli := c\<rparr>) n2" by (rule relays_sides) (use c in simp_all)
      note r2 = relays_trans [OF r1 this]
      have g: "good ?st" using s c by (simp add: good_def)
      have E: "sockmap k e timeo p n = bindR (map_loop k e ms timeo ?st) (\<lambda>(r, st). case r of Some r \<Rightarrow> Ok (r, par st, nt st)
          | None \<Rightarrow> bindR (flush_client k e (par st) (nt st)) (\<lambda>(p, n). bindR (flush_server k e p n) (\<lambda>(p, n). Ok (0, p, n))))"
        using n1 n2 Some oc by (simp add: d)
      consider "map_loop k e ms timeo ?st \<in> {Timeout, Fault Int_overflow}"
        | r st where "map_loop k e ms timeo ?st = Ok (r, st)" "good st" "relays (?p\<lparr>cli := c\<rparr>) n2 (par st) (nt st)"
        using map_loop_ok [OF g assms(5), of k ms timeo] by auto
      then show ?thesis
      proof cases
        case 1
        then show ?thesis unfolding E by auto
      next
        case 2
        note r3 = relays_trans [OF r2 2(3)]
        show ?thesis
        proof (cases r)
          case None
          consider "flush_client k e (par st) (nt st) = Timeout"
            | p3 n3 where "flush_client k e (par st) (nt st) = Ok (p3, n3)" "side_ok (srv p3)" "relays (par st) (nt st) p3 n3" "cli p3 = cli (par st)" "waitserver p3 = waitserver (par st)"
            using flush_client_ok [OF assms(6), of "par st" k "nt st"] 2(2) by (auto simp: good_def)
          then show ?thesis
          proof cases
            case 1
            then show ?thesis unfolding E using 2(1) None by simp
          next
            case f: 2
            have "flush_server k e p3 n3 = Timeout \<or> (\<exists>p' n'. flush_server k e p3 n3 = Ok (p', n') \<and> side_ok (cli p') \<and> relays p3 n3 p' n' \<and> srv p' = srv p3)"
              using flush_server_ok [OF assms(6), of p3 k n3] f 2(2) by (auto simp: good_def)
            then show ?thesis unfolding E using 2(1) None f(1,2) relays_trans [OF relays_trans [OF r3 f(3)]] by auto
          qed
        qed (use E 2 r3 in \<open>auto simp: good_def\<close>)
      qed
    qed
  qed
qed

section \<open>Termination\<close>

text \<open>The clock of system calls goes on, and a part of the loop ends.\<close>

definition ends :: "nat \<Rightarrow> (flow \<times> mapping_state) res \<Rightarrow> bool" where
  "ends t m \<longleftrightarrow> (case m of Ok (fl, st) \<Rightarrow> t \<le> tick (nt st) | Fault _ \<Rightarrow> True | Timeout \<Rightarrow> False)"

lemma ends_Ok: "ends t (Ok (fl, st)) \<longleftrightarrow> t \<le> tick (nt st)"
  by (simp add: ends_def)

lemma ends_Fault: "ends t (Fault f)"
  by (simp add: ends_def)

lemma ends_bindR: "m \<noteq> Timeout \<Longrightarrow> (\<And>x. m = Ok x \<Longrightarrow> ends t (f x)) \<Longrightarrow> ends t (bindR m f)"
  by (cases m) (simp_all add: ends_def)

lemma ends_flow_bind:
  assumes "ends t m" and "\<And>st. t \<le> tick (nt st) \<Longrightarrow> ends t (f st)"
  shows "ends t (flow_bind m f)"
  using assms by (cases m) (auto simp: flow_bind_def ends_def)

lemma ends_when: "t \<le> tick (nt st) \<Longrightarrow> (b \<Longrightarrow> ends t (f st)) \<Longrightarrow> ends t (when_flow b f st)"
  by (simp add: when_flow_def ends_Ok)

lemma no_timeout:
  "rd_block b i l \<noteq> Timeout" "wr_block b i bs \<noteq> Timeout" "side_buf s \<noteq> Timeout" "grow i j \<noteq> Timeout"
  by (simp_all add: rd_block_def wr_block_def side_buf_def grow_def checkR_def split: option.split)

lemma sys_ticks:
  "sys_poll e n = (a, n') \<Longrightarrow> tick n' = Suc (tick n)"
  "sys_send e d bs n = (b, n') \<Longrightarrow> tick n' = Suc (tick n)"
  "sys_recv e d sz n = (c, n') \<Longrightarrow> tick n' = Suc (tick n)"
  "sys_alloc e sz n = (f, n') \<Longrightarrow> tick n' = Suc (tick n)"
  by (auto simp: sys_poll_def sys_send_def sys_recv_def sys_alloc_def split: sys.splits)

lemma send_to_client_ends: "t \<le> tick (nt st) \<Longrightarrow> ends t (send_to_client e st)"
  unfolding send_to_client_def Let_def
  by (intro ends_bindR no_timeout) (auto simp: ends_Ok no_timeout dest: sys_ticks split: prod.split sys.split option.split intro!: ends_bindR)

lemma send_to_server_ends: "t \<le> tick (nt st) \<Longrightarrow> ends t (send_to_server e st)"
  unfolding send_to_server_def Let_def
  by (intro ends_bindR no_timeout) (auto simp: ends_Ok no_timeout dest: sys_ticks split: prod.split sys.split option.split intro!: ends_bindR)

lemma recv_from_client_ends: "t \<le> tick (nt st) \<Longrightarrow> ends t (recv_from_client e st)"
  unfolding recv_from_client_def Let_def
  by (auto simp: ends_Ok no_timeout dest: sys_ticks split: prod.split sys.split intro!: ends_bindR)

lemma recv_from_server_ends: "t \<le> tick (nt st) \<Longrightarrow> ends t (recv_from_server e st)"
  unfolding recv_from_server_def Let_def
  by (auto simp: ends_Ok no_timeout dest: sys_ticks split: prod.split sys.split intro!: ends_bindR)

lemma sleep_part_ends: "t \<le> tick (nt st) \<Longrightarrow> ends t (sleep_part timeo st)"
  by (simp add: sleep_part_def ends_Ok)

lemma map_round_ends:
  "(\<exists>r st'. map_round e minsize timeo st = Ok (Return r, st')) \<or> polls e (tick (nt st)) \<noteq> Poll_timeout \<and> ends (Suc (tick (nt st))) (map_round e minsize timeo st)"
proof (cases "maxtraf (par st) \<noteq> 0 \<and> statssrv (par st) \<ge> maxtraf (par st)")
  case True
  then show ?thesis by (simp add: map_round_def Let_def)
next
  case False
  show ?thesis
  proof (cases "polls e (tick (nt st))")
    case (Poll_ready r0 r1)
    have "ends (Suc (tick (nt st))) (map_round e minsize timeo st)"
      unfolding map_round_def Let_def sys_poll_def
      using False Poll_ready
      by (simp add: ends_Ok) (intro impI ends_flow_bind ends_when send_to_client_ends send_to_server_ends recv_from_client_ends recv_from_server_ends sleep_part_ends; simp)
    then show ?thesis using Poll_ready by simp
  qed (use False in \<open>simp_all add: map_round_def Let_def sys_poll_def ends_Ok\<close>)
qed

lemma map_loop_ends:
  assumes "\<forall>i \<ge> T. polls e i = Poll_timeout" and "T < tick (nt st) + k" and "0 < k"
  shows "map_loop k e minsize timeo st \<noteq> Timeout"
  using assms(2,3)
proof (induction k arbitrary: st)
  case (Suc k)
  consider "stopped st" | r st' where "map_round e minsize timeo st = Ok (Return r, st')"
    | "\<not> stopped st" "tick (nt st) < T" "ends (Suc (tick (nt st))) (map_round e minsize timeo st)"
    using map_round_ends [of e minsize timeo st] assms(1) by (meson not_le)
  then show ?case
  proof cases
    case 3
    have "map_loop k e minsize timeo st' \<noteq> Timeout" if "Suc (tick (nt st)) \<le> tick (nt st')" for st'
      using that Suc.IH [of st'] Suc.prems 3(2) by linarith
    then show ?thesis using 3(1,3) by (auto simp: ends_def split: res.splits flow.splits)
  qed simp_all
qed simp

lemma send_loop_ticks:
  "send_loop k e again d b pos sz sn n = Ok (r, n') \<Longrightarrow> tick n \<le> tick n' \<and> (r \<noteq> 0 \<longrightarrow> tick n < tick n')"
proof (induction k arbitrary: sn n)
  case (Suc k)
  have IH: "tick n < tick n'" if "send_loop k e again d b pos sz i m = Ok (r, n')" "Suc (tick n) \<le> tick m" for i m
    using Suc.IH [OF that(1)] that(2) by linarith
  show ?case using Suc.prems
    by (cases "polls e (tick n)"; cases "sends e (Suc (tick n))")
      (auto simp: Let_def bindR_eq_Ok sys_poll_def sys_send_def split: if_splits dest!: IH)
qed simp

lemma send_loop_ends:
  assumes "\<forall>i \<ge> T. polls e i = Poll_timeout" and "T < tick n + k" and "0 < k"
  shows "send_loop k e again d b pos sz sn n \<noteq> Timeout"
  using assms(2,3)
proof (induction k arbitrary: sn n)
  case (Suc k)
  show ?case
  proof (cases "T \<le> tick n")
    case True
    then show ?thesis using assms(1) by (simp add: Let_def sys_poll_def)
  next
    case False
    have "send_loop k e again d b pos sz i m \<noteq> Timeout" if "Suc (tick n) \<le> tick m" for i m
      using Suc.IH [of m i] Suc.prems False that by linarith
    then show ?thesis
      by (auto simp: Let_def bindR_eq_Timeout no_timeout sys_poll_def sys_send_def split: poll_result.splits sys.splits)
  qed
qed simp

lemma socksendto_late:
  "\<forall>i \<ge> T. polls e i = Poll_timeout \<Longrightarrow> T \<le> tick n \<Longrightarrow> \<exists>n'. socksendto (Suc k) e d b pos sz n = Ok (0, n')"
  by (simp add: socksendto_def Let_def sys_poll_def)

lemma flush_ends:
  assumes "\<forall>i \<ge> T. polls e i = Poll_timeout" and "T < tick n + k" and "0 < k"
  shows "flush_client k e p n \<noteq> Timeout" and "flush_server k e p n \<noteq> Timeout"
proof -
  have s: "socksendto (Suc j) e d b pos sz m \<noteq> Timeout" "socksendto (Suc j) e d b pos sz m = Ok (r, m') \<Longrightarrow> 0 < r \<Longrightarrow> T < tick m' + j \<and> 0 < j"
    if "T < tick m + Suc j" for j d b pos sz m r m'
  proof -
    show "socksendto (Suc j) e d b pos sz m \<noteq> Timeout" unfolding socksendto_def using that by (intro send_loop_ends [OF assms(1)]) simp_all
    assume a: "socksendto (Suc j) e d b pos sz m = Ok (r, m')" "0 < r"
    then have "tick m < tick m'" using send_loop_ticks a unfolding socksendto_def by blast
    moreover have "\<not> T \<le> tick m" using socksendto_late [OF assms(1), of m j d b pos sz] a by auto
    ultimately show "T < tick m' + j \<and> 0 < j" using that by linarith
  qed
  show "flush_client k e p n \<noteq> Timeout" using assms(2,3)
  proof (induction k arbitrary: p n)
    case (Suc k)
    have "flush_client k e q m \<noteq> Timeout" if "socksendto (Suc k) e d b pos sz n = Ok (r, m)" "0 < r" for d b pos sz r m q
      using Suc.IH s(2) [OF Suc.prems(1) that] by blast
    then show ?case using s(1) [OF Suc.prems(1)] by (auto simp: Let_def bindR_eq_Timeout no_timeout simp del: send_loop.simps)
  qed simp
  show "flush_server k e p n \<noteq> Timeout" using assms(2,3)
  proof (induction k arbitrary: p n)
    case (Suc k)
    have "flush_server k e q m \<noteq> Timeout" if "socksendto (Suc k) e d b pos sz n = Ok (r, m)" "0 < r" for d b pos sz r m q
      using Suc.IH s(2) [OF Suc.prems(1) that] by blast
    then show ?case using s(1) [OF Suc.prems(1)] by (auto simp: Let_def bindR_eq_Timeout no_timeout simp del: send_loop.simps)
  qed simp
qed

lemma need_buf_ticks: "need_buf e need sz s n = (os, n') \<Longrightarrow> tick n \<le> tick n'"
  by (auto simp: need_buf_def dest!: sys_ticks split: if_splits prod.splits option.splits)

lemma map_loop_ticks: "map_loop k e minsize timeo st = Ok (r, st') \<Longrightarrow> r = None \<Longrightarrow> tick (nt st) \<le> tick (nt st')"
proof (induction k arbitrary: st)
  case (Suc k)
  show ?case
  proof (cases "stopped st")
    case False
    then obtain fl st1 where fl: "map_round e minsize timeo st = Ok (fl, st1)"
        "(case fl of Return i \<Rightarrow> Ok (Some i, st1) | _ \<Rightarrow> map_loop k e minsize timeo st1) = Ok (r, st')"
      using Suc.prems(1) by (auto simp: bindR_eq_Ok)
    then have fl': "\<forall>i. fl \<noteq> Return i" "map_loop k e minsize timeo st1 = Ok (r, st')" using Suc.prems(2) by (cases fl; simp)+
    then have "Suc (tick (nt st)) \<le> tick (nt st1)" using map_round_ends [of e minsize timeo st] fl(1) by (auto simp: ends_Ok)
    then show ?thesis using Suc.IH [OF fl'(2) Suc.prems(2)] by simp
  qed (use Suc.prems in simp)
qed (simp split: if_splits)

lemma flush_client_ticks: "flush_client k e p n = Ok (p', n') \<Longrightarrow> tick n \<le> tick n'"
proof (induction k arbitrary: p n)
  case (Suc k)
  have "tick n \<le> tick m" if "socksendto (Suc k) e d b pos sz n = Ok (r, m)" for d b pos sz r m
    using that send_loop_ticks unfolding socksendto_def by blast
  then show ?case using Suc.prems Suc.IH
    by (auto simp: Let_def bindR_eq_Ok split: if_splits simp del: send_loop.simps) (meson le_trans)+
qed (simp split: if_splits)

text \<open>C28: When \<open>poll\<close> times out from the \<open>T\<close>-th system call on, \<open>sockmap\<close> returns: fuel for the calls up to \<open>T\<close> is enough for the loop and for the two
  that flush the buffers, in every state and whatever the other calls do.\<close>

theorem sockmap_returns:
  assumes "\<forall>i \<ge> T. polls e i = Poll_timeout" and "T < tick n + k" and "0 < k"
  shows "sockmap k e timeo p n \<noteq> Timeout"
proof
  assume t: "sockmap k e timeo p n = Timeout"
  have c: "tick n \<le> tick (nt st) \<Longrightarrow> map_loop k e ms timeo st \<noteq> Timeout" "tick n \<le> tick m \<Longrightarrow> flush_client k e q m \<noteq> Timeout"
    "tick n \<le> tick m \<Longrightarrow> flush_server k e q m \<noteq> Timeout" for ms st q m
    using map_loop_ends [OF assms(1) _ assms(3), of st ms timeo] flush_ends [OF assms(1) _ assms(3), of m q] assms(2) by auto
  show False using t c
    by (auto simp: sockmap_def Let_def bindR_eq_Timeout split: prod.splits option.splits dest!: need_buf_ticks map_loop_ticks flush_client_ticks)
qed

text \<open>A session: two bytes come from the client and go to the server one by one, then the client closes.\<close>

definition idle_side :: side where
  "idle_side = \<lparr>buf = None, inbuf = 0, offset = 0, bufsize = 0\<rparr>"

definition session_param :: clientparam where
  "session_param = \<lparr>service = S_PROXY, cli = idle_side, srv = idle_side, clisock = True, remsock = True, parbufsize = 4, statscli = 0, statssrv = 0,
     singlepacket = False, waitclient = 0, waitserver = 0, maxtraf = 0\<rparr>"

definition session_net :: net where
  "session_net = \<lparr>tick = 0, got = (\<lambda>_. []), put = (\<lambda>_. [])\<rparr>"

definition session_env :: "byte list sys \<Rightarrow> net_env" where
  "session_env r = \<lparr>timetoexit = (\<lambda>_. False),
     polls = (\<lambda>i. if i = 2 \<or> i = 8 then Poll_ready \<lparr>can_in = True, can_out = False, broken = False\<rparr> \<lparr>can_in = False, can_out = False, broken = False\<rparr>
       else if i < 8 then Poll_ready \<lparr>can_in = False, can_out = False, broken = False\<rparr> \<lparr>can_in = False, can_out = True, broken = False\<rparr> else Poll_timeout),
     recvs = (\<lambda>i. if i = 3 then r else Done []), sends = (\<lambda>_. Done 1), allocs = (\<lambda>_. Some 0), bandlim = None\<rparr>"

lemmas session_defs = session_param_def session_net_def session_env_def idle_side_def

theorem sockmap_returns_witness: "sockmap 10 (session_env (Done [104, 105])) 5 session_param session_net \<noteq> Timeout"
  by (rule sockmap_returns [where T = 9]) (simp_all add: session_defs)

text \<open>C13: A mapping that is not told to exit, and whose \<open>recvfrom\<close> does not fail with \<open>EAGAIN\<close>, never leaves its buffers; when it returns, the bytes
  sent to either side and those that wait in the buffer are what waited before and what came from the other side meanwhile, in order. The only fault
  there is the overflow of a counter, after 2 GB in one direction.\<close>

theorem sockmap_relays:
  assumes "side_ok (cli p)" and "side_ok (srv p)" and "0 \<le> parbufsize p" and "parbufsize p < 2 ^ 32"
    and "\<forall>i. recvs e i \<noteq> Failed EAGAIN" and "\<forall>i. \<not> timetoexit e i"
  shows "sockmap k e timeo p n \<in> {Timeout, Fault Int_overflow} \<or>
    (\<exists>r p' n'. sockmap k e timeo p n = Ok (r, p', n') \<and> side_ok (cli p') \<and> side_ok (srv p') \<and>
      (\<exists>new. got n' CLIENT = got n CLIENT @ new \<and> put n' SERVER @ pending (cli p') = put n SERVER @ pending (cli p) @ new) \<and>
      (\<exists>new. got n' SERVER = got n SERVER @ new \<and> put n' CLIENT @ pending (srv p') = put n CLIENT @ pending (srv p) @ new))"
  using sockmap_ok [OF assms, of k timeo n]
proof (elim disjE exE conjE)
  fix r p' n' assume r: "sockmap k e timeo p n = Ok (r, p', n')" "side_ok (cli p')" "side_ok (srv p')" "relays p n p' n'"
  have d: "\<exists>new. got n' d = got n d @ new \<and> put n' (other d) @ pending (side_of d p') = put n (other d) @ pending (side_of d p) @ new" for d
    using r(4) unfolding relays_def carried_def by (metis append_assoc)
  show ?thesis using r(1-3) d [of CLIENT] d [of SERVER] by (simp add: side_of_def)
qed simp

lemma session_result:
  "case sockmap 10 (session_env (Done [104, 105])) 5 session_param session_net of
     Ok (r, p', n') \<Rightarrow> r = 0 \<and> got n' CLIENT = [104, 105] \<and> put n' SERVER = [104, 105] | _ \<Rightarrow> False"
  by code_simp

theorem sockmap_relays_witness:
  "\<exists>p' n'. sockmap 10 (session_env (Done [104, 105])) 5 session_param session_net = Ok (0, p', n') \<and> side_ok (cli p') \<and> got n' CLIENT = [104, 105] \<and>
    (\<exists>new. got n' CLIENT = got session_net CLIENT @ new \<and> put n' SERVER @ pending (cli p') = put session_net SERVER @ pending (cli session_param) @ new)"
  using sockmap_relays [of session_param "session_env (Done [104, 105])" 10 5 session_net] session_result
  by (auto simp: session_defs side_ok_def split: res.splits)

text \<open>C35: When \<open>recvfrom\<close> fails with \<open>EAGAIN\<close> while the buffer is empty, -1 is added to its length: the mapping goes on, takes the buffer
  to hold 4294967295 bytes, asks to send them, and sending reads past the end of the buffer.\<close>

theorem eagain_breaks:
  assumes "side_ok (cli (par st))" and "inbuf (cli (par st)) = 0" and "buf (cli (par st)) = Some b" and "int (length b) < 2 ^ 32 - 1"
    and "recvs e (tick (nt st)) = Failed EAGAIN" and "waitserver (par st) = 0"
  shows "\<exists>st'. recv_from_client e st = Ok (Go, st') \<and> inbuf (cli (par st')) = 2 ^ 32 - 1 \<and> want_out_srv (par st') \<and> send_to_server e st' = Fault Out_of_bounds"
proof -
  let ?st = "st\<lparr>nt := passed (nt st), par := (par st)\<lparr>cli := add_in (cli (par st)) (- 1)\<rparr>\<rparr>"
  have o: "offset (cli (par st)) = 0" using assms(1,2) by (simp add: side_ok_def)
  have "recv_from_client e st = Ok (Go, ?st)" using assms(5) by (simp add: recv_from_client_def Let_def sys_recv_def)
  moreover have "inbuf (cli (par ?st)) = 2 ^ 32 - 1" "want_out_srv (par ?st)" using assms(2,6) o by (simp_all add: add_in_def want_out_srv_def)
  moreover have "rd_block b 0 4294967295 = Fault Out_of_bounds" using assms(4) by (simp add: rd_block_def)
  then have "send_to_server e ?st = Fault Out_of_bounds"
    using assms(2,3) o by (simp add: send_to_server_def Let_def side_buf_def add_in_def split: option.split)
  ultimately show ?thesis by blast
qed

lemma session_eagain: "sockmap 10 (session_env (Failed EAGAIN)) 5 session_param session_net = Fault Out_of_bounds"
proof -
  have "(case sockmap 10 (session_env (Failed EAGAIN)) 5 session_param session_net of Fault f \<Rightarrow> f = Out_of_bounds | _ \<Rightarrow> False)" by code_simp
  then show ?thesis by (simp split: res.splits)
qed

theorem eagain_breaks_witness:
  "\<exists>st'. recv_from_client (session_env (Failed EAGAIN)) \<lparr>par = session_param\<lparr>cli := \<lparr>buf = Some [0, 0, 0, 0], inbuf = 0, offset = 0, bufsize = 4\<rparr>\<rparr>,
      nt = session_net\<lparr>tick := 3\<rparr>, sent = 0, received = 0, sleeptime = 0, stopped = False\<rparr> = Ok (Go, st') \<and>
    send_to_server (session_env (Failed EAGAIN)) st' = Fault Out_of_bounds"
  using eagain_breaks [of "\<lparr>par = session_param\<lparr>cli := \<lparr>buf = Some [0, 0, 0, 0], inbuf = 0, offset = 0, bufsize = 4\<rparr>\<rparr>,
      nt = session_net\<lparr>tick := 3\<rparr>, sent = 0, received = 0, sleeptime = 0, stopped = False\<rparr>" "[0, 0, 0, 0]" "session_env (Failed EAGAIN)"]
  by (auto simp: session_defs side_ok_def)

end
