(* ===== verification/Proxy_Lines.thy ===== *)
theory Proxy_Lines
  imports Proxy_Flow
begin

text \<open>
  What the buffered reading of 3proxy promises: the characters and lines that are read are the stream of bytes from that side, in order.
\<close>

section \<open>Reading lines\<close>

lemma recv_loop_log:
  "recv_loop k e d sz n = Ok (r, n') \<Longrightarrow> (case r of Failed er \<Rightarrow> got n' = got n | Done bs \<Rightarrow> length bs \<le> nat sz \<and> got n' = (got n)(d := got n d @ bs))"
proof (induction k arbitrary: n)
  case (Suc k)
  obtain r1 n1 where s: "sys_recv e d sz n = (r1, n1)" by (cases "sys_recv e d sz n")
  show ?case
  proof (cases "r1 = Failed EAGAIN \<or> r1 = Failed EINTR")
    case True
    then have "got n1 = got n" using sys_recv_log [OF s] by auto
    then show ?thesis using Suc.IH [of n1] Suc.prems s True by (auto split: sys.splits)
  next
    case False
    then show ?thesis using Suc.prems s sys_recv_log [OF s] by (simp split: sys.splits)
  qed
qed simp

lemma recv_loop_fault: "recv_loop k e d sz n \<noteq> Fault f"
  by (induction k arbitrary: n) (simp_all split: prod.split)

text \<open>A new block comes to the start of the buffer.\<close>

lemma sockrecvfrom_ok:
  assumes "int (length b) = sz"
  shows "sockrecvfrom k e d b sz n = Timeout \<or> (\<exists>len b' n'. sockrecvfrom k e d b sz n = Ok (len, b', n') \<and> length b' = length b \<and>
    (len \<le> 0 \<and> got n' = got n \<or> 0 < len \<and> len \<le> sz \<and> got n' = (got n)(d := got n d @ take (nat len) b')))"
proof (cases "\<not> timetoexit e (tick n) \<and> (\<exists>r0 r1. polls e (tick n) = Poll_ready r0 r1)")
  case False
  then show ?thesis by (auto simp: sockrecvfrom_def sys_poll_def Let_def split: poll_result.splits)
next
  case True
  have E: "sockrecvfrom k e d b sz n = bindR (recv_loop k e d sz (passed n)) (\<lambda>(r, n). case r of Failed _ \<Rightarrow> Ok (- 1, b, n)
      | Done bs \<Rightarrow> bindR (wr_block b 0 bs) (\<lambda>b. Ok (int (length bs), b, n)))" using True by (auto simp: sockrecvfrom_def sys_poll_def)
  show ?thesis
  proof (cases "recv_loop k e d sz (passed n)")
    case (Ok x)
    obtain r n' where x: "x = (r, n')" by (cases x)
    note l = recv_loop_log [OF Ok [unfolded x]]
    show ?thesis
    proof (cases r)
      case (Done bs)
      then have "length bs \<le> length b" "got n' = (got n)(d := got n d @ bs)" using l assms by auto
      moreover from this have "wr_block b 0 bs = Ok (bs @ drop (length bs) b)" by (simp add: wr_block_def)
      ultimately show ?thesis using Ok x Done assms unfolding E by auto
    qed (use Ok x l in \<open>simp add: E\<close>)
  qed (use recv_loop_fault in \<open>simp_all add: E\<close>)
qed

lemma side_of_set: "side_of d (set_side d s p) = s"
  by (cases d) (simp_all add: side_of_def set_side_def)

text \<open>The next byte of the stream, or its end.\<close>

definition next_byte :: "DIRECTION \<Rightarrow> side \<Rightarrow> net \<Rightarrow> int \<Rightarrow> clientparam \<Rightarrow> net \<Rightarrow> bool" where
  "next_byte d s n c p' n' \<longleftrightarrow> side_ok (side_of d p') \<and> buf (side_of d p') \<noteq> None \<and>
     (\<exists>new. got n' d = got n d @ new \<and>
       (c = - 1 \<and> new = [] \<and> pending s = [] \<and> pending (side_of d p') = [] \<or> 0 \<le> c \<and> c < 256 \<and> pending s @ new = word_of_int c # pending (side_of d p')))"

lemma first_byte:
  assumes "side_ok s" and "buf s = Some b" and "offset s < inbuf s"
  shows "rd b (offset s) = Ok (hd (pending s)) \<and> pending s = hd (pending s) # pending (s\<lparr>offset := offset s + 1\<rparr>) \<and> side_ok (s\<lparr>offset := offset s + 1\<rparr>)"
proof -
  have s: "0 \<le> offset s" "inbuf s \<le> int (length b)" using assms by (simp_all add: side_ok_def)
  then have l: "nat (offset s) < length b" "nat (inbuf s - offset s) = Suc (nat (inbuf s - (offset s + 1)))" "nat (offset s + 1) = Suc (nat (offset s))"
    using assms(3) by linarith+
  have "drop (nat (offset s)) b = b ! nat (offset s) # drop (nat (offset s + 1)) b" using l by (simp add: Cons_nth_drop_Suc)
  then have "pending s = b ! nat (offset s) # pending (s\<lparr>offset := offset s + 1\<rparr>)" using assms(2) by (simp add: pending_def l(2))
  moreover have "rd b (offset s) = Ok (b ! nat (offset s))" using s l(1) by (simp add: rd_def)
  ultimately show ?thesis using assms by (simp add: side_ok_def)
qed

lemma fetch_block:
  assumes "length b = nat (bufsize s)" and "0 < len" and "len \<le> bufsize s" and "bufsize s < 2 ^ 32"
  defines "s' \<equiv> s\<lparr>buf := Some b, inbuf := len, offset := 1\<rparr>"
  shows "rd b 0 = Ok (b ! 0) \<and> side_ok s' \<and> take (nat len) b = b ! 0 # pending s'"
proof -
  obtain x xs where b: "b = x # xs" using assms(1-3) by (cases b) auto
  have "nat len = Suc (nat (len - 1))" using assms(2) by simp
  then show ?thesis using assms b by (auto simp: rd_def side_ok_def pending_def)
qed

lemma uint_byte: "0 \<le> uint (x :: byte) \<and> uint x < 256"
  using unsigned_less [of x] by simp

lemma sockgetchar_ok:
  assumes "side_ok (side_of d p)" and "buf (side_of d p) = None \<longrightarrow> (\<forall>i. allocs e i \<noteq> None)"
  shows "sockgetchar k e d p n = Timeout \<or> (\<exists>c p' n'. sockgetchar k e d p n = Ok (c, p', n') \<and> next_byte d (side_of d p) n c p' n')"
proof -
  define s0 where "s0 = side_of d p"
  define fetch where "fetch = (\<lambda>s b n. if inbuf s \<noteq> 0 \<and> offset s < inbuf s
        then bindR (rd b (offset s)) (\<lambda>c. Ok (uint c, set_side d (s\<lparr>offset := offset s + 1\<rparr>) p, n))
        else
          bindR (sockrecvfrom k e d b (bufsize s) n) (\<lambda>(len, b, n).
          let s = s\<lparr>buf := Some b, offset := 0, inbuf := 0\<rparr> in
          if len \<le> 0 then Ok (- 1, set_side d s p, n)
          else bindR (rd b 0) (\<lambda>c. Ok (uint c, set_side d (s\<lparr>inbuf := len, offset := 1\<rparr>) p, n))))"
  have f: "fetch s b m = Timeout \<or> (\<exists>c p' n'. fetch s b m = Ok (c, p', n') \<and> next_byte d s m c p' n')" if s: "side_ok s" "buf s = Some b" for s b m
  proof (cases "offset s < inbuf s")
    case True
    have "0 < inbuf s" using True s(1) by (simp add: side_ok_def)
    then show ?thesis using True first_byte [OF s True] s(2) uint_byte [of "hd (pending s)"] unfolding fetch_def next_byte_def
      by (simp add: side_of_set)
  next
    case False
    have p: "pending s = []" and l: "int (length b) = bufsize s" "bufsize s < 2 ^ 32" using False s by (simp_all add: pending_def side_ok_def)
    have E: "fetch s b m = bindR (sockrecvfrom k e d b (bufsize s) m) (\<lambda>(len, b, n).
          let s = s\<lparr>buf := Some b, offset := 0, inbuf := 0\<rparr> in
          if len \<le> 0 then Ok (- 1, set_side d s p, n)
          else bindR (rd b 0) (\<lambda>c. Ok (uint c, set_side d (s\<lparr>inbuf := len, offset := 1\<rparr>) p, n)))" using False by (simp add: fetch_def)
    consider "sockrecvfrom k e d b (bufsize s) m = Timeout"
      | len b' n' where "sockrecvfrom k e d b (bufsize s) m = Ok (len, b', n')" "length b' = length b" "len \<le> 0" "got n' = got m"
      | len b' n' where "sockrecvfrom k e d b (bufsize s) m = Ok (len, b', n')" "length b' = length b" "0 < len" "len \<le> bufsize s"
          "got n' = (got m)(d := got m d @ take (nat len) b')"
      using sockrecvfrom_ok [OF l(1), of k e d m] by blast
    then show ?thesis
    proof cases
      case 1
      then show ?thesis by (simp add: E)
    next
      case 2
      have "side_ok (s\<lparr>buf := Some b', offset := 0, inbuf := 0\<rparr>)" "pending (s\<lparr>buf := Some b', offset := 0, inbuf := 0\<rparr>) = []"
        using l 2(2) by (auto simp: side_ok_def pending_def)
      then show ?thesis using 2 p by (simp add: E next_byte_def side_of_set)
    next
      case 3
      have "length b' = nat (bufsize s)" using 3(2) l(1) by simp
      note b = fetch_block [OF this 3(3,4) l(2)]
      show ?thesis using 3(1,3,5) b p uint_byte [of "b' ! 0"] by (simp add: E next_byte_def side_of_set)
    qed
  qed
  have E: "sockgetchar k e d p n = (case buf s0 of Some b \<Rightarrow> fetch s0 b n
      | None \<Rightarrow> (case sys_alloc e (BUFSIZE p) n of (None, n) \<Rightarrow> Ok (0, p, n)
         | (Some b, n) \<Rightarrow> fetch (s0\<lparr>buf := Some b, bufsize := BUFSIZE p, offset := 0, inbuf := 0\<rparr>) b n))"
    unfolding sockgetchar_def fetch_def s0_def Let_def ..
  show ?thesis
  proof (cases "buf s0")
    case (Some b)
    then show ?thesis using E f [of s0 b n] assms(1) by (simp add: s0_def)
  next
    case None
    then obtain x where a: "allocs e (tick n) = Some x" using assms(2) by (auto simp: s0_def)
    let ?b = "replicate (nat (BUFSIZE p)) x"
    let ?s = "s0\<lparr>buf := Some ?b, bufsize := BUFSIZE p, offset := 0, inbuf := 0\<rparr>"
    have "side_ok ?s" by (simp add: side_ok_def BUFSIZE_def)
    moreover have "next_byte d ?s (passed n) c p' n' = next_byte d s0 n c p' n'" for c p' n' using None by (simp add: next_byte_def pending_def)
    moreover have "sockgetchar k e d p n = fetch ?s ?b (passed n)" using E None a by (simp add: sys_alloc_def)
    ultimately show ?thesis using f [of ?s ?b "passed n"] by (simp add: s0_def)
  qed
qed

text \<open>A line was read to position \<open>i\<close> of the buffer \<open>b\<close>: what came, after \<open>strm\<close>, is the line and what waits in the buffer of the side.\<close>

definition line_read :: "DIRECTION \<Rightarrow> int \<Rightarrow> int \<Rightarrow> byte list \<Rightarrow> byte list \<Rightarrow> net \<Rightarrow> int \<Rightarrow> byte list \<Rightarrow> clientparam \<Rightarrow> net \<Rightarrow> bool" where
  "line_read d delim i b strm n j b' p' n' \<longleftrightarrow> i < j \<and> length b' = length b \<and> take (nat i) b' = take (nat i) b \<and> drop (nat j) b' = drop (nat j) b \<and>
     side_ok (side_of d p') \<and> (\<exists>new. got n' d = got n d @ new \<and> strm @ new = take (nat (j - i)) (drop (nat i) b') @ pending (side_of d p')) \<and>
     (\<forall>x. i \<le> x \<and> x < j - 1 \<longrightarrow> uint (b' ! nat x) \<noteq> delim)"

lemma line_read_one:
  assumes "0 \<le> i" and "i < int (length b)" and "side_ok (side_of d p')" and "got n' d = got n d" and "pending (side_of d p') = xs"
  shows "line_read d delim i b (x # xs) n (i + 1) (b[nat i := x]) p' n'"
proof -
  have "nat (i + 1) = Suc (nat i)" "nat i < length b" using assms(1,2) by simp_all
  then have "drop (nat i) (b[nat i := x]) = x # drop (Suc (nat i)) b" by (simp add: drop_update_swap Cons_nth_drop_Suc [symmetric])
  then show ?thesis using assms(3-5) by (simp add: line_read_def \<open>nat (i + 1) = Suc (nat i)\<close>)
qed

lemma line_read_more:
  assumes "0 \<le> i" and "i < int (length b)" and "uint x \<noteq> delim" and "got n1 d = got n d @ new1" and "xs @ new1 = y # ys"
    and "line_read d delim (i + 1) (b[nat i := x]) (y # ys) n1 j b' p' n'"
  shows "line_read d delim i b (x # xs) n j b' p' n'"
proof -
  obtain new where j: "i + 1 < j" "length b' = length b" "take (nat (i + 1)) b' = take (nat (i + 1)) (b[nat i := x])" "drop (nat j) b' = drop (nat j) (b[nat i := x])"
      "side_ok (side_of d p')" "got n' d = got n1 d @ new" "(y # ys) @ new = take (nat (j - (i + 1))) (drop (nat (i + 1)) b') @ pending (side_of d p')"
      "\<forall>x. i + 1 \<le> x \<and> x < j - 1 \<longrightarrow> uint (b' ! nat x) \<noteq> delim"
    using assms(6) unfolding line_read_def by auto
  have s: "nat (i + 1) = Suc (nat i)" "nat (j - i) = Suc (nat (j - (i + 1)))" "nat i < length b" "nat i < nat j" using assms(1,2) j(1) by simp_all
  have t: "take (Suc (nat i)) b' = take (nat i) b @ [x]" using j(3) s(1,3) by (simp add: take_Suc_conv_app_nth)
  have "b' ! nat i = take (Suc (nat i)) b' ! nat i" by simp
  then have i: "b' ! nat i = x" "take (nat i) b' = take (nat i) b" using t s(3) j(2) by (auto simp: nth_append take_Suc_conv_app_nth)
  have "drop (nat i) b' = x # drop (nat (i + 1)) b'" using i(1) s(1,3) j(2) by (simp add: Cons_nth_drop_Suc [symmetric])
  then have "x # xs @ new1 @ new = take (nat (j - i)) (drop (nat i) b') @ pending (side_of d p')" using j(7) assms(5) unfolding s(2) by (metis append_Cons append_assoc take_Suc_Cons)
  moreover have "uint (b' ! nat z) \<noteq> delim" if "i \<le> z \<and> z < j - 1" for z using that j(8) i(1) assms(3) by (cases "z = i") auto
  moreover have "drop (nat j) b' = drop (nat j) b" using j(4) s(4) by simp
  ultimately show ?thesis using j(1,2,5,6) i(2) assms(4) unfolding line_read_def by (auto intro: exI [of _ "new1 @ new"])
qed

lemma getline_loop_ok:
  assumes "side_ok (side_of d p)" and "buf (side_of d p) \<noteq> None" and "0 \<le> c" and "c < 256" and "0 \<le> i" and "i + int m \<le> int (length b)" and "0 < m"
  shows "getline_loop m k e d delim c b i p n = Timeout \<or> (\<exists>j b' p' n'. getline_loop m k e d delim c b i p n = Ok (j, b', p', n') \<and> j \<le> i + int m \<and>
    line_read d delim i b (word_of_int c # pending (side_of d p)) n j b' p' n')"
  using assms
proof (induction m arbitrary: c b i p n)
  case (Suc m)
  define b1 where "b1 = b[nat i := word_of_int c]"
  have i: "i < int (length b)" using Suc.prems(6) by simp
  have w: "wr b i (word_of_int c) = Ok b1" using Suc.prems(5) i by (simp add: wr_def b1_def)
  have u: "uint (word_of_int c :: byte) = c" using Suc.prems(3,4) by (simp add: uint_word_of_int)
  let ?g = "getline_loop (Suc m) k e d delim c b i p n"
  note stop = line_read_one [OF Suc.prems(5) i, where x = "word_of_int c", folded b1_def]
  show ?case
  proof (cases "delim \<noteq> - 1 \<and> c = delim \<or> m = 0")
    case True
    then have "?g = Ok (i + 1, b1, p, n)" using w by auto
    then show ?thesis using stop [OF Suc.prems(1)] by simp
  next
    case False
    have E: "?g = bindR (sockgetchar k e d p n) (\<lambda>(c, p, n). if c = - 1 then Ok (i + 1, b1, p, n) else getline_loop m k e d delim c b1 (i + 1) p n)"
      using w False by auto
    consider "sockgetchar k e d p n = Timeout" | p1 n1 where "sockgetchar k e d p n = Ok (- 1, p1, n1)" "next_byte d (side_of d p) n (- 1) p1 n1"
      | c1 p1 n1 where "sockgetchar k e d p n = Ok (c1, p1, n1)" "next_byte d (side_of d p) n c1 p1 n1" "c1 \<noteq> - 1"
      using sockgetchar_ok [OF Suc.prems(1), of e k n] Suc.prems(2) by blast
    then show ?thesis
    proof cases
      case 1
      then show ?thesis unfolding E by simp
    next
      case 2
      then show ?thesis unfolding E using stop [of d p1 n1 n] by (simp add: next_byte_def)
    next
      case 3
      obtain new1 where n1: "side_ok (side_of d p1)" "buf (side_of d p1) \<noteq> None" "got n1 d = got n d @ new1" "0 \<le> c1" "c1 < 256"
          "pending (side_of d p) @ new1 = word_of_int c1 # pending (side_of d p1)"
        using 3(2,3) unfolding next_byte_def by blast
      have "uint (word_of_int c :: byte) \<noteq> delim" using False u Suc.prems(3) by auto
      note more = line_read_more [OF Suc.prems(5) i this n1(3,6), folded b1_def]
      have "getline_loop m k e d delim c1 b1 (i + 1) p1 n1 = Timeout \<or> (\<exists>j b' p' n'. getline_loop m k e d delim c1 b1 (i + 1) p1 n1 = Ok (j, b', p', n') \<and>
          j \<le> i + 1 + int m \<and> line_read d delim (i + 1) b1 (word_of_int c1 # pending (side_of d p1)) n1 j b' p' n')"
        by (rule Suc.IH [OF n1(1,2,4,5)]) (use Suc.prems(5,6) False in \<open>auto simp: b1_def\<close>)
      then show ?thesis using 3(1,3) more unfolding E by auto
    qed
  qed
qed simp

text \<open>C23: Reading a line from a side whose buffer is sound keeps the stream: the bytes of the line and those left in the buffer are what waited and
  what came, in order; the line has at most \<open>sz\<close> bytes, none before its last is the delimiter, and the memory behind it is unchanged. When nothing
  can be read the result is 0 and nothing waits.\<close>

theorem getline_reads:
  assumes "side_ok (side_of d p)" and "buf (side_of d p) = None \<longrightarrow> (\<forall>i. allocs e i \<noteq> None)" and "2 \<le> sz" and "sz \<le> int (length b)"
  shows "sockgetlinebuf k e d b sz delim p n = Timeout \<or> (\<exists>j b' p' n' new. sockgetlinebuf k e d b sz delim p n = Ok (j, b', p', n') \<and>
    0 \<le> j \<and> j \<le> sz \<and> length b' = length b \<and> drop (nat j) b' = drop (nat j) b \<and> side_ok (side_of d p') \<and> got n' d = got n d @ new \<and>
    pending (side_of d p) @ new = take (nat j) b' @ pending (side_of d p') \<and> (\<forall>x. 0 \<le> x \<and> x < j - 1 \<longrightarrow> uint (b' ! nat x) \<noteq> delim) \<and>
    (j = 0 \<longrightarrow> pending (side_of d p') = []))"
proof -
  have E: "sockgetlinebuf k e d b sz delim p n = bindR (sockgetchar k e d p n) (\<lambda>(c, p, n).
      if c = - 1 then Ok (0, b, p, n) else getline_loop (nat sz) k e d delim c b 0 p n)" using assms(3) by (simp add: sockgetlinebuf_def)
  consider "sockgetchar k e d p n = Timeout" | p1 n1 where "sockgetchar k e d p n = Ok (- 1, p1, n1)" "next_byte d (side_of d p) n (- 1) p1 n1"
    | c1 p1 n1 where "sockgetchar k e d p n = Ok (c1, p1, n1)" "next_byte d (side_of d p) n c1 p1 n1" "c1 \<noteq> - 1"
    using sockgetchar_ok [OF assms(1,2), of k n] by blast
  then show ?thesis
  proof cases
    case 1
    then show ?thesis by (simp add: E)
  next
    case 2
    then show ?thesis using assms(3) by (simp add: E next_byte_def)
  next
    case 3
    obtain new1 where n1: "side_ok (side_of d p1)" "buf (side_of d p1) \<noteq> None" "got n1 d = got n d @ new1" "0 \<le> c1" "c1 < 256"
        "pending (side_of d p) @ new1 = word_of_int c1 # pending (side_of d p1)"
      using 3(2,3) unfolding next_byte_def by blast
    have g: "getline_loop (nat sz) k e d delim c1 b 0 p1 n1 = Timeout \<or> (\<exists>j b' p' n'. getline_loop (nat sz) k e d delim c1 b 0 p1 n1 = Ok (j, b', p', n') \<and>
        j \<le> 0 + int (nat sz) \<and> line_read d delim 0 b (word_of_int c1 # pending (side_of d p1)) n1 j b' p' n')"
      by (rule getline_loop_ok [OF n1(1,2,4,5)]) (use assms(3,4) in auto)
    show ?thesis
    proof (cases "getline_loop (nat sz) k e d delim c1 b 0 p1 n1 = Timeout")
      case True
      then show ?thesis using 3 by (simp add: E)
    next
      case False
      then obtain j b' p' n' new where j: "getline_loop (nat sz) k e d delim c1 b 0 p1 n1 = Ok (j, b', p', n')" "j \<le> sz" "0 < j" "length b' = length b"
          "drop (nat j) b' = drop (nat j) b" "side_ok (side_of d p')" "got n' d = got n1 d @ new"
          "(word_of_int c1 # pending (side_of d p1)) @ new = take (nat j) b' @ pending (side_of d p')" "\<forall>x. 0 \<le> x \<and> x < j - 1 \<longrightarrow> uint (b' ! nat x) \<noteq> delim"
        using g assms(3) unfolding line_read_def by auto
      have "pending (side_of d p) @ new1 @ new = take (nat j) b' @ pending (side_of d p')" using j(8) n1(6) by (metis append_assoc)
      moreover have "sockgetlinebuf k e d b sz delim p n = Ok (j, b', p', n')" using 3 j(1) by (simp add: E)
      moreover have "got n' d = got n d @ new1 @ new" using j(7) n1(3) by simp
      ultimately show ?thesis using j(2-6,9) by (metis less_imp_le less_irrefl)
    qed
  qed
qed

text \<open>The line \<open>h\<close> with its end, and the \<open>x\<close> of the next line that came with it.\<close>

definition line_param :: clientparam where
  "line_param = session_param\<lparr>cli := \<lparr>buf = Some [104, 10, 120, 0], inbuf = 3, offset = 0, bufsize = 4\<rparr>\<rparr>"

lemma line_result:
  "case sockgetlinebuf 1 (session_env (Failed EOTHER)) CLIENT [0, 0, 7, 7] 4 10 line_param session_net of
     Ok (j, b, p, n) \<Rightarrow> j = 2 \<and> b = [104, 10, 7, 7] \<and> pending (cli p) = [120] | _ \<Rightarrow> False"
  by code_simp

theorem getline_reads_witness:
  "\<exists>p' n' new. sockgetlinebuf 1 (session_env (Failed EOTHER)) CLIENT [0, 0, 7, 7] 4 10 line_param session_net = Ok (2, [104, 10, 7, 7], p', n') \<and>
    got n' CLIENT = got session_net CLIENT @ new \<and> pending (cli line_param) @ new = [104, 10] @ pending (cli p')"
  using getline_reads [of CLIENT line_param "session_env (Failed EOTHER)" 4 "[0, 0, 7, 7]" 1 10 session_net] line_result
  by (auto simp: side_of_def line_param_def side_ok_def split: res.splits)

end
