(* ===== verification/Proxy_Limits.thy ===== *)
theory Proxy_Limits
  imports Proxy_Sock
begin

text \<open>
  Limits and traffic counters of 3proxy (\<^verbatim>\<open>test_sources/3proxy/src\<close>): the conditions of a rule (\<open>ACLmatches\<close>), the limits of the bandwidth
  (\<open>bandlimitfunc\<close>), the counters of the traffic (\<open>trafcountfunc\<close>) and the authorization that selects them (\<open>alwaysauth\<close>) of \<^verbatim>\<open>auth.c\<close>, and
  the connection to the server (\<open>doconnect\<close>) of \<^verbatim>\<open>common.c\<close>. The linked lists of the configuration are lists, in their order, and a pointer to
  a limit is its position there. Ports are in the order of the host. \<open>unsigned\<close> has 32 bits, \<open>unsigned long\<close> has 64.
\<close>

section \<open>State\<close>

record ace =
  action :: int
  aoperation :: int
  wdays :: int
  periods :: "(int \<times> int) list"
  users :: "cstring list"
  src :: "(int \<times> int) list" \<comment> \<open>address and mask\<close>
  dst :: "(int \<times> int) list"
  ports :: "(int \<times> int) list"

definition NOBANDLIM :: int where "NOBANDLIM = 4"
definition NOCOUNT :: int where "NOCOUNT = 6"
definition MAXBANDLIMS :: nat where "MAXBANDLIMS = 10"
definition DNSRESOLVE :: int where "DNSRESOLVE = 0x100000"
definition ADMIN :: int where "ADMIN = 0x1000000"

record bandlim =
  bl_ace :: ace
  basetime :: int
  rate :: int
  nexttime :: int

record trafcount =
  tc_ace :: ace
  traf :: int
  trafgb :: int
  traflim :: int
  traflimgb :: int
  updated :: int
  disabled :: bool

text \<open>The other fields of a connection that are used here.\<close>

record authparam = clientparam +
  username :: "cstring option"
  hostname :: "cstring option"
  sinc_addr :: int
  sins_addr :: int
  sins_port :: int
  operation :: int
  time_start :: int
  version :: int
  bandlims :: "nat option list"
  bandlimsout :: "nat option list"
  bandlimfunc :: bool \<comment> \<open>whether it is set to \<open>bandlimitfunc\<close>\<close>
  trafcountfunc_set :: bool

record config =
  bandlimiter :: "bandlim list"
  bandlimiterout :: "bandlim list"
  trafcounter :: "trafcount list"
  paused :: int
  wday :: int
  day_start :: int \<comment> \<open>the global variable \<open>basetime\<close>\<close>

section \<open>Rules\<close>

definition ip_match :: "(int \<times> int) list \<Rightarrow> int \<Rightarrow> bool" where
  "ip_match l a \<longleftrightarrow> list_ex (\<lambda>(ip, mask). ip = (a AND mask)) l"

definition ACLmatches :: "config \<Rightarrow> ace \<Rightarrow> authparam \<Rightarrow> bool" where
  "ACLmatches cf a p =
     (if src a \<noteq> [] \<and> \<not> ip_match (src a) (sinc_addr p) then False
      else if dst a \<noteq> [] \<and> sins_addr p \<noteq> 0 \<and> \<not> ip_match (dst a) (sins_addr p) then False
      else if ports a \<noteq> [] \<and> sins_port p \<noteq> 0 \<and> \<not> list_ex (\<lambda>(s, e). sins_port p \<ge> s \<and> sins_port p \<le> e) (ports a) then False
      else if wdays a \<noteq> 0 \<and> (wdays a AND wday cf) = 0 then False
      else if periods a \<noteq> [] \<and> \<not> list_ex (\<lambda>(from_t, to_t). time_start p - day_start cf \<ge> from_t \<and> time_start p - day_start cf < to_t) (periods a) then False
      else if users a \<noteq> [] \<and> \<not> list_ex (\<lambda>u. (case username p of None \<Rightarrow> bytes_of ''*'' | Some n \<Rightarrow> n) = u) (users a) then False
      else if aoperation a \<noteq> 0 \<and> (aoperation a AND operation p) \<noteq> operation p then False
      else True)"

section \<open>Bandwidth\<close>

text \<open>The limits that match are noted from place \<open>i\<close> on, up to one that says there is none; \<open>j\<close> is the position of the first limit.\<close>

primrec select_limits :: "(ace \<Rightarrow> bool) \<Rightarrow> bandlim list \<Rightarrow> nat \<Rightarrow> nat \<Rightarrow> nat option list \<Rightarrow> nat \<times> nat option list" where
  "select_limits m [] j i sl = (i, sl)"
| "select_limits m (be # bes) j i sl =
     (if i < MAXBANDLIMS then
        if m (bl_ace be) then
          if action (bl_ace be) = NOBANDLIM then (i, sl) else select_limits m bes (j + 1) (i + 1) (sl[i := Some j])
        else select_limits m bes (j + 1) i sl
      else (i, sl))"

definition end_limits :: "nat \<times> nat option list \<Rightarrow> nat option list" where
  "end_limits x = (case x of (i, sl) \<Rightarrow> if i < MAXBANDLIMS then sl[i := None] else sl)"

definition reload_limits :: "config \<Rightarrow> authparam \<Rightarrow> authparam" where
  "reload_limits cf p =
     (let p = p\<lparr>bandlims := end_limits (select_limits (\<lambda>a. ACLmatches cf a p) (bandlimiter cf) 0 0 (bandlims p))\<rparr> in
      p\<lparr>bandlimsout := end_limits (select_limits (\<lambda>a. ACLmatches cf a p) (bandlimiterout cf) 0 0 (bandlimsout p))\<rparr>)"

text \<open>The time that the bytes take, in microseconds.\<close>

definition cost :: "int \<Rightarrow> int \<Rightarrow> int res" where
  "cost r n = bindR (checkR Int_overflow (r \<noteq> 0)) (\<lambda>_.
     Ok ((if r > 1000000 then (n div 32) * (256000000 div r) else n * (8000000 div r)) mod 2 ^ 32))"

text \<open>One limit: \<open>None\<close> when it starts anew.\<close>

definition limit_step :: "int \<Rightarrow> int \<Rightarrow> int \<Rightarrow> bandlim \<Rightarrow> (int option \<times> bandlim) res" where
  "limit_step sec msec n be =
     (if basetime be = 0 \<or> basetime be > sec \<or> basetime be < (sec - 120) mod 2 ^ 64
      then Ok (None, be\<lparr>basetime := sec mod 2 ^ 32, nexttime := 0\<rparr>)
      else
        let now = ((sec - basetime be) * 1000000 + msec) mod 2 ^ 32;
          nsleeptime = (if nexttime be > now then nexttime be - now else 0) in
        bindR (cost (rate be) n) (\<lambda>w.
        Ok (Some nsleeptime, be\<lparr>basetime := sec mod 2 ^ 32, nexttime := (msec + nsleeptime + w) mod 2 ^ 32\<rparr>)))"

primrec limit_loop :: "int \<Rightarrow> int \<Rightarrow> int \<Rightarrow> nat option list \<Rightarrow> int \<Rightarrow> bandlim list \<Rightarrow> (int \<times> bandlim list) res" where
  "limit_loop sec msec n [] slp bls = Ok (slp, bls)"
| "limit_loop sec msec n (s # sl) slp bls =
     (case s of
        None \<Rightarrow> Ok (slp, bls)
      | Some j \<Rightarrow>
          bindR (if j < length bls then Ok (bls ! j) else Fault Dangling_pointer) (\<lambda>be.
          bindR (limit_step sec msec n be) (\<lambda>(w, be).
          limit_loop sec msec n sl (case w of None \<Rightarrow> slp | Some w \<Rightarrow> if w > slp then w else slp) (bls[j := be]))))"

definition bandlimitfunc :: "int \<Rightarrow> int \<Rightarrow> int \<Rightarrow> int \<Rightarrow> authparam \<Rightarrow> config \<Rightarrow> (int \<times> authparam \<times> config) res" where
  "bandlimitfunc sec msec nin nout p cf =
     (if nin = 0 \<and> nout = 0 then Ok (0, p, cf)
      else
        let p = (if version p \<noteq> paused cf then reload_limits cf p else p) in
        bindR (if nin \<noteq> 0 then limit_loop sec msec nin (take MAXBANDLIMS (bandlims p)) 0 (bandlimiter cf) else Ok (0, bandlimiter cf)) (\<lambda>(sl, bi).
        bindR (if nout \<noteq> 0 then limit_loop sec msec nout (take MAXBANDLIMS (bandlimsout p)) sl (bandlimiterout cf) else Ok (sl, bandlimiterout cf)) (\<lambda>(sl, bo).
        Ok (sl div 1000, p, cf\<lparr>bandlimiter := bi, bandlimiterout := bo\<rparr>))))"

section \<open>Traffic\<close>

primrec count_loop :: "(ace \<Rightarrow> bool) \<Rightarrow> int \<Rightarrow> int \<Rightarrow> trafcount list \<Rightarrow> trafcount list" where
  "count_loop m t n [] = []"
| "count_loop m t n (tc # tcs) =
     (if m (tc_ace tc) then
        if action (tc_ace tc) = NOCOUNT then tc # tcs
        else
          let val = (traf tc + n) mod 2 ^ 64;
            tc = (if val < traf tc then tc\<lparr>trafgb := (trafgb tc + 1) mod 2 ^ 64\<rparr> else tc) in
          tc\<lparr>traf := val, updated := t\<rparr> # count_loop m t n tcs
      else tc # count_loop m t n tcs)"

definition trafcountfunc :: "int \<Rightarrow> authparam \<Rightarrow> config \<Rightarrow> config" where
  "trafcountfunc t p cf = cf\<lparr>trafcounter := count_loop (\<lambda>a. ACLmatches cf a p) t (statssrv p) (trafcounter cf)\<rparr>"

section \<open>Authorization\<close>

text \<open>The system calls of \<open>doconnect\<close>; the addresses the socket is bound to are left out.\<close>

record conn_env =
  getip :: "cstring \<Rightarrow> int"
  socket_ok :: bool
  bind_ok :: bool \<comment> \<open>to the external port\<close>
  bind0_ok :: bool \<comment> \<open>to any port\<close>
  connect_ok :: bool
  sockname :: "(int \<times> int) option"

definition doconnect :: "conn_env \<Rightarrow> authparam \<Rightarrow> int \<times> authparam" where
  "doconnect e p =
     (if \<not> remsock p \<and> operation p \<noteq> DNSRESOLVE \<and> operation p \<noteq> ADMIN then
        let p = (case hostname p of Some h \<Rightarrow> if sins_addr p = 0 then p\<lparr>sins_addr := getip e h\<rparr> else p | None \<Rightarrow> p) in
        if hostname p \<noteq> None \<and> sins_addr p = 0 then (100, p)
        else if \<not> socket_ok e then (11, p)
        else
          let p = p\<lparr>remsock := True\<rparr> in
          if \<not> bind_ok e \<and> \<not> bind0_ok e then (12, p)
          else if operation p \<ge> 256 \<or> (operation p AND 1) \<noteq> 0 then
            if \<not> connect_ok e then (13, p) else (0, p)
          else (case sockname e of None \<Rightarrow> (15, p) | Some (a, q) \<Rightarrow> (0, p\<lparr>sins_addr := a, sins_port := q\<rparr>))
      else (0, p))"

text \<open>The counters: \<open>True\<close> when a limit is exceeded.\<close>

primrec check_counters :: "(ace \<Rightarrow> bool) \<Rightarrow> trafcount list \<Rightarrow> authparam \<Rightarrow> bool \<times> authparam" where
  "check_counters m [] p = (False, p)"
| "check_counters m (tc # tcs) p =
     (if disabled tc then check_counters m tcs p
      else if m (tc_ace tc) then
        if action (tc_ace tc) = NOCOUNT then (False, p)
        else if traflimgb tc < trafgb tc \<or> (traflimgb tc = trafgb tc \<and> traflim tc < traf tc) then (True, p)
        else
          let p = p\<lparr>trafcountfunc_set := True\<rparr>;
            left = (traflim tc - traf tc + (traflimgb tc - trafgb tc) * 0x40000000) mod 2 ^ 32 in
          check_counters m tcs
            (if traflimgb tc - trafgb tc < 2 \<and> (maxtraf p = 0 \<or> maxtraf p > left) then p\<lparr>maxtraf := left\<rparr> else p)
      else check_counters m tcs p)"

text \<open>The index of the places is not reset between the two lists.\<close>

definition alwaysauth :: "conn_env \<Rightarrow> config \<Rightarrow> authparam \<Rightarrow> int \<times> authparam" where
  "alwaysauth e cf p =
     (let (res, p) = doconnect e p; m = (\<lambda>a. ACLmatches cf a p) in
      if res \<noteq> 0 then (res, p)
      else if version p \<noteq> paused cf then (333, p)
      else
        let (i, sl) = select_limits m (bandlimiter cf) 0 0 (bandlims p);
          (i', sl') = select_limits m (bandlimiterout cf) 0 i (bandlimsout p);
          p = p\<lparr>bandlims := end_limits (i, sl), bandlimsout := end_limits (i', sl')\<rparr>;
          p = (if i' > 0 then p\<lparr>bandlimfunc := True\<rparr> else p) in
        (case check_counters m (trafcounter cf) p of (full, p) \<Rightarrow> (if full then 10 else 0, p)))"

end
