(* ===== verification/Proxy_Quota.thy ===== *)
theory Proxy_Quota
  imports Proxy_Limits
begin

text \<open>
  What the limits of 3proxy promise: a limit of the bandwidth is a bucket that is emptied at its rate, and counters count the bytes. Two things go
  wrong: limits for sending are lost when there is one for receiving, and limits of two gigabytes or more are never reached.
\<close>

section \<open>Buckets\<close>

text \<open>The time in microseconds, and the time up to which the bytes so far take. A limit that has not been used for two minutes starts anew.\<close>

definition clock :: "int \<Rightarrow> int \<Rightarrow> int" where
  "clock sec msec = sec * 1000000 + msec"

definition next_free :: "bandlim \<Rightarrow> int" where
  "next_free be = basetime be * 1000000 + nexttime be"

definition stale :: "int \<Rightarrow> bandlim \<Rightarrow> bool" where
  "stale sec be \<longleftrightarrow> basetime be = 0 \<or> sec < basetime be \<or> basetime be < sec - 120"

text \<open>How long a connection waits for a limit.\<close>

definition wait :: "int \<Rightarrow> int \<Rightarrow> bandlim \<Rightarrow> int" where
  "wait sec msec be = (if stale sec be then 0 else max 0 (next_free be - clock sec msec))"

text \<open>\<open>n\<close> bytes at \<open>r\<close> bits a second take \<open>d\<close> microseconds: never more than that rate gives them, and less only by rounding, by up to a microsecond for
  every byte, and above a megabit for every 32 bytes, of which only whole groups count.\<close>

definition at_rate :: "int \<Rightarrow> int \<Rightarrow> int \<Rightarrow> bool" where
  "at_rate r n d \<longleftrightarrow> 0 \<le> d \<and> r * d \<le> 8000000 * n \<and>
     (if r > 1000000 then 8000000 * (n - 31) \<le> r * (d + n div 32) else 8000000 * n \<le> r * (d + n))"

text \<open>What a limit is when it has taken \<open>n\<close> bytes: it starts anew, without taking them, or they come after those it has taken before.\<close>

definition takes :: "int \<Rightarrow> int \<Rightarrow> int \<Rightarrow> bandlim \<Rightarrow> bandlim \<Rightarrow> bool" where
  "takes sec msec n be be' \<longleftrightarrow> bl_ace be' = bl_ace be \<and> rate be' = rate be \<and> basetime be' = sec \<and>
     (if stale sec be then next_free be' = sec * 1000000
      else \<exists>d. at_rate (rate be) n d \<and> next_free be' = max (clock sec msec) (next_free be) + d)"

text \<open>The times fit into their variables.\<close>

definition times_fit :: "int \<Rightarrow> int \<Rightarrow> int \<Rightarrow> bandlim \<Rightarrow> bool" where
  "times_fit sec msec n be \<longleftrightarrow> 120 \<le> sec \<and> sec < 2 ^ 32 \<and> 0 \<le> msec \<and> msec < 1000000 \<and> 0 \<le> basetime be \<and> 0 < rate be \<and> 0 \<le> n \<and>
     (stale sec be \<or> rate be * (max (clock sec msec) (next_free be) - sec * 1000000) + 8000000 * n < rate be * 2 ^ 32)"

lemma cost_at_rate:
  assumes "0 < r" and "0 \<le> n"
  shows "at_rate r n (if r > 1000000 then (n div 32) * (256000000 div r) else n * (8000000 div r))"
proof (cases "r > 1000000")
  case True
  let ?q = "256000000 div r" and ?k = "n div 32"
  have k: "0 \<le> ?k" "32 * ?k \<le> n" "n \<le> 32 * ?k + 31" using assms(2) by (auto intro: pos_imp_zdiv_nonneg_iff [THEN iffD2])
  have q: "0 \<le> ?q" "r * ?q \<le> 256000000" "256000000 \<le> r * (?q + 1)"
    using assms(1) by (auto simp: pos_imp_zdiv_nonneg_iff algebra_simps) (smt (verit) minus_mod_eq_mult_div pos_mod_bound pos_mod_sign mult.commute)+
  have "r * (?k * ?q) = ?k * (r * ?q)" by (simp add: algebra_simps)
  also have "\<dots> \<le> ?k * 256000000" using k(1) q(2) by (rule mult_left_mono [rotated])
  finally have 1: "r * (?k * ?q) \<le> 8000000 * n" using k(2) by linarith
  have "?k * 256000000 \<le> ?k * (r * (?q + 1))" using k(1) q(3) by (rule mult_left_mono [rotated])
  also have "\<dots> = r * (?k * ?q + ?k)" by (simp add: algebra_simps)
  finally have "?k * 256000000 \<le> r * (?k * ?q + ?k)" .
  moreover have "8000000 * (n - 31) \<le> ?k * 256000000" using k(3) by simp
  ultimately have 2: "8000000 * (n - 31) \<le> r * (?k * ?q + ?k)" by (rule order_trans [rotated])
  show ?thesis using True 1 2 k(1) q(1) by (simp add: at_rate_def)
next
  case False
  let ?q = "8000000 div r"
  have q: "0 \<le> ?q" "r * ?q \<le> 8000000" "8000000 \<le> r * (?q + 1)"
    using assms(1) by (auto simp: pos_imp_zdiv_nonneg_iff algebra_simps) (smt (verit) minus_mod_eq_mult_div pos_mod_bound pos_mod_sign mult.commute)+
  have "r * (n * ?q) = n * (r * ?q)" by (simp add: algebra_simps)
  also have "\<dots> \<le> n * 8000000" using assms(2) q(2) by (rule mult_left_mono [rotated])
  finally have 1: "r * (n * ?q) \<le> 8000000 * n" by linarith
  have "n * 8000000 \<le> n * (r * (?q + 1))" using assms(2) q(3) by (rule mult_left_mono [rotated])
  also have "\<dots> = r * (n * ?q + n)" by (simp add: algebra_simps)
  finally have 2: "8000000 * n \<le> r * (n * ?q + n)" by linarith
  show ?thesis using False 1 2 assms(2) q(1) by (simp add: at_rate_def)
qed

lemma limit_step_ok:
  assumes "times_fit sec msec n be"
  shows "\<exists>w be'. limit_step sec msec n be = Ok (w, be') \<and> (case w of None \<Rightarrow> 0 | Some w \<Rightarrow> w) = wait sec msec be \<and> takes sec msec n be be'"
proof -
  have r: "120 \<le> sec" "sec < 2 ^ 32" "0 \<le> msec" "msec < 1000000" "0 \<le> basetime be" "0 < rate be" "0 \<le> n"
    "stale sec be \<or> rate be * (max (clock sec msec) (next_free be) - sec * 1000000) + 8000000 * n < rate be * 2 ^ 32"
    using assms by (auto simp: times_fit_def)
  have m: "(sec - 120) mod 2 ^ 64 = sec - 120" "sec mod 2 ^ 32 = sec" using r(1,2) by auto
  show ?thesis
  proof (cases "stale sec be")
    case True
    then show ?thesis using m by (auto simp: limit_step_def stale_def wait_def takes_def next_free_def)
  next
    case False
    define d where "d = (if rate be > 1000000 then (n div 32) * (256000000 div rate be) else n * (8000000 div rate be))"
    have d: "at_rate (rate be) n d" unfolding d_def using r(6,7) by (rule cost_at_rate)
    have s: "0 < basetime be" "basetime be \<le> sec" "sec \<le> basetime be + 120" using False r(5) by (auto simp: stale_def)
    let ?now = "(sec - basetime be) * 1000000 + msec"
    have now: "?now mod 2 ^ 32 = ?now" using s r(3,4) by simp
    have w: "(if nexttime be > ?now then nexttime be - ?now else 0) = wait sec msec be" using False by (simp add: wait_def next_free_def clock_def algebra_simps)
    have e: "msec + wait sec msec be + d = max (clock sec msec) (next_free be) + d - sec * 1000000" using False by (simp add: wait_def clock_def)
    have "rate be * (msec + wait sec msec be + d) < rate be * 2 ^ 32"
      using d r(8) False unfolding e at_rate_def by (simp add: algebra_simps)
    then have u: "msec + wait sec msec be + d < 2 ^ 32" using r(6) by (simp only: mult_less_cancel_left_pos)
    have w0: "0 \<le> wait sec msec be" "0 \<le> d" using d by (simp_all add: wait_def at_rate_def)
    have c: "cost (rate be) n = Ok d" using r(3,6) u w0 by (simp add: cost_def checkR_def flip: d_def)
    have f: "(msec + wait sec msec be + d) mod 2 ^ 32 = msec + wait sec msec be + d" using u w0 r(3) by (intro mod_pos_pos_trivial) auto
    have g: "\<not> (basetime be = 0 \<or> basetime be > sec \<or> basetime be < (sec - 120) mod 2 ^ 64)" using False m(1) by (simp add: stale_def)
    have "limit_step sec msec n be = Ok (Some (wait sec msec be), be\<lparr>basetime := sec, nexttime := msec + wait sec msec be + d\<rparr>)"
      unfolding limit_step_def Let_def now w c bindR.simps f m(2) using g by simp
    moreover have "takes sec msec n be (be\<lparr>basetime := sec, nexttime := msec + wait sec msec be + d\<rparr>)"
      using d False e by (auto simp: takes_def next_free_def)
    ultimately show ?thesis by simp
  qed
qed

lemma limit_loop_ok:
  assumes "distinct js" and "\<forall>j \<in> set js. j < length bls \<and> times_fit sec msec n (bls ! j)" and "sl = map Some js @ rest" and "rest = [] \<or> hd rest = None"
    and "0 \<le> slp"
  shows "\<exists>bls'. limit_loop sec msec n sl slp bls = Ok (fold max (map (\<lambda>j. wait sec msec (bls ! j)) js) slp, bls') \<and> length bls' = length bls \<and>
    (\<forall>j. if j \<in> set js then takes sec msec n (bls ! j) (bls' ! j) else bls' ! j = bls ! j)"
  using assms
proof (induction js arbitrary: sl slp bls)
  case Nil
  then show ?case by (cases rest) auto
next
  case (Cons j js)
  obtain w be' where s: "limit_step sec msec n (bls ! j) = Ok (w, be')" "(case w of None \<Rightarrow> 0 | Some w \<Rightarrow> w) = wait sec msec (bls ! j)"
      "takes sec msec n (bls ! j) be'"
    using limit_step_ok [of sec msec n "bls ! j"] Cons.prems(2) by auto
  let ?bls = "bls[j := be']"
  have ne: "?bls ! i = bls ! i" if "i \<in> set js" for i using that Cons.prems(1) by (cases "i = j") simp_all
  have eq: "map (\<lambda>i. wait sec msec (?bls ! i)) js = map (\<lambda>i. wait sec msec (bls ! i)) js" using ne by simp
  have "distinct js" "\<forall>i \<in> set js. i < length ?bls \<and> times_fit sec msec n (?bls ! i)" using Cons.prems(1,2) ne by simp_all
  moreover have m0: "0 \<le> max (wait sec msec (bls ! j)) slp" using Cons.prems(5) by simp
  ultimately obtain bls' where b: "limit_loop sec msec n (map Some js @ rest) (max (wait sec msec (bls ! j)) slp) ?bls =
      Ok (fold max (map (\<lambda>i. wait sec msec (?bls ! i)) js) (max (wait sec msec (bls ! j)) slp), bls')" "length bls' = length bls"
      "\<forall>i. if i \<in> set js then takes sec msec n (?bls ! i) (bls' ! i) else bls' ! i = ?bls ! i"
    using Cons.IH [of ?bls "map Some js @ rest" "max (wait sec msec (bls ! j)) slp"] Cons.prems(4) by auto
  have "(case w of None \<Rightarrow> slp | Some w \<Rightarrow> if w > slp then w else slp) = max (wait sec msec (bls ! j)) slp"
    using s(2) Cons.prems(5) by (auto split: option.splits)
  then have "limit_loop sec msec n sl slp bls = Ok (fold max (map (\<lambda>i. wait sec msec (bls ! i)) (j # js)) slp, bls')"
    using Cons.prems(2,3) s(1) b(1) unfolding eq by simp
  moreover have "if i \<in> set (j # js) then takes sec msec n (bls ! i) (bls' ! i) else bls' ! i = bls ! i" for i
  proof (cases "i = j")
    case True
    then have "bls' ! i = be'" using b(3) [THEN spec, of i] Cons.prems(1,2) by simp
    then show ?thesis using True s(3) by simp
  next
    case False
    then have "?bls ! i = bls ! i" by simp
    then show ?thesis using b(3) [THEN spec, of i] False by auto
  qed
  ultimately show ?case using b(2) by blast
qed

text \<open>The limits in the places of a connection, up to the first empty one.\<close>

definition noted :: "nat option list \<Rightarrow> nat list" where
  "noted sl = map the (takeWhile (\<lambda>x. x \<noteq> None) (take MAXBANDLIMS sl))"

lemma noted_split: "\<exists>rest. take MAXBANDLIMS sl = map Some (noted sl) @ rest \<and> (rest = [] \<or> hd rest = None)"
proof -
  have "\<exists>rest. xs = map Some (map the (takeWhile (\<lambda>x. x \<noteq> None) xs)) @ rest \<and> (rest = [] \<or> hd rest = None)" for xs :: "nat option list"
  proof (induction xs)
    case (Cons x xs)
    then show ?case by (cases x) auto
  qed simp
  then show ?thesis unfolding noted_def by blast
qed

definition limits_ok :: "int \<Rightarrow> int \<Rightarrow> int \<Rightarrow> nat option list \<Rightarrow> bandlim list \<Rightarrow> bool" where
  "limits_ok sec msec n sl bls \<longleftrightarrow> distinct (noted sl) \<and> (\<forall>j \<in> set (noted sl). j < length bls \<and> times_fit sec msec n (bls ! j))"

text \<open>What the limits of one direction make the connection wait for, and what becomes of them. Without bytes in a direction they are left alone.\<close>

definition waits :: "int \<Rightarrow> int \<Rightarrow> int \<Rightarrow> nat option list \<Rightarrow> bandlim list \<Rightarrow> int list" where
  "waits sec msec n sl bls = (if n = 0 then [] else map (\<lambda>j. wait sec msec (bls ! j)) (noted sl))"

definition charged :: "int \<Rightarrow> int \<Rightarrow> int \<Rightarrow> nat option list \<Rightarrow> bandlim list \<Rightarrow> bandlim list \<Rightarrow> bool" where
  "charged sec msec n sl bls bls' \<longleftrightarrow> length bls' = length bls \<and>
     (\<forall>j. if n \<noteq> 0 \<and> j \<in> set (noted sl) then takes sec msec n (bls ! j) (bls' ! j) else bls' ! j = bls ! j)"

lemma direction_ok:
  assumes "n \<noteq> 0 \<longrightarrow> limits_ok sec msec n sl bls" and "0 \<le> slp"
  shows "\<exists>bls'. (if n \<noteq> 0 then limit_loop sec msec n (take MAXBANDLIMS sl) slp bls else Ok (slp, bls)) = Ok (fold max (waits sec msec n sl bls) slp, bls') \<and>
    charged sec msec n sl bls bls'"
proof (cases "n = 0")
  case True
  then show ?thesis by (simp add: waits_def charged_def)
next
  case False
  obtain rest where "take MAXBANDLIMS sl = map Some (noted sl) @ rest" "rest = [] \<or> hd rest = None" using noted_split by blast
  then show ?thesis using limit_loop_ok [of "noted sl" bls sec msec n _ rest slp] assms False by (simp add: limits_ok_def waits_def charged_def)
qed

lemma fold_max_nonneg: "0 \<le> x \<Longrightarrow> 0 \<le> fold max ws (x :: int)"
  by (induction ws arbitrary: x) auto

text \<open>C15: \<open>bandlimitfunc\<close> implements buckets, for bytes in either direction or in both. The limits that are noted for the connection, or
  that match it when the configuration was loaded anew, take the bytes: each takes them at its rate, up to rounding, after what it has taken before, or
  starts anew when it was not used for two minutes. The other limits, and those of a direction without bytes, stay as they are. The result is the
  longest of the waiting times, in milliseconds. The times have to fit into their variables.\<close>

theorem bandlimit_buckets:
  fixes cf :: config and p :: authparam
  defines "q \<equiv> if version p = paused cf then p else reload_limits cf p"
  assumes "nin \<noteq> 0 \<longrightarrow> limits_ok sec msec nin (bandlims q) (bandlimiter cf)" and "nout \<noteq> 0 \<longrightarrow> limits_ok sec msec nout (bandlimsout q) (bandlimiterout cf)"
    and "nin \<noteq> 0 \<or> nout \<noteq> 0"
  shows "\<exists>bi bo. bandlimitfunc sec msec nin nout p cf =
      Ok (fold max (waits sec msec nin (bandlims q) (bandlimiter cf) @ waits sec msec nout (bandlimsout q) (bandlimiterout cf)) 0 div 1000, q,
        cf\<lparr>bandlimiter := bi, bandlimiterout := bo\<rparr>) \<and>
    charged sec msec nin (bandlims q) (bandlimiter cf) bi \<and> charged sec msec nout (bandlimsout q) (bandlimiterout cf) bo"
proof -
  let ?w = "fold max (waits sec msec nin (bandlims q) (bandlimiter cf)) 0"
  have b: "\<not> (nin = 0 \<and> nout = 0)" using assms(4) by blast
  have q: "(if version p \<noteq> paused cf then reload_limits cf p else p) = q" by (simp add: q_def)
  obtain bi where bi: "(if nin \<noteq> 0 then limit_loop sec msec nin (take MAXBANDLIMS (bandlims q)) 0 (bandlimiter cf) else Ok (0, bandlimiter cf)) = Ok (?w, bi)"
      "charged sec msec nin (bandlims q) (bandlimiter cf) bi"
    using direction_ok [OF assms(2)] by blast
  obtain bo where bo: "(if nout \<noteq> 0 then limit_loop sec msec nout (take MAXBANDLIMS (bandlimsout q)) ?w (bandlimiterout cf) else Ok (?w, bandlimiterout cf)) =
        Ok (fold max (waits sec msec nout (bandlimsout q) (bandlimiterout cf)) ?w, bo)" "charged sec msec nout (bandlimsout q) (bandlimiterout cf) bo"
    using direction_ok [OF assms(3)] fold_max_nonneg [of 0] by blast
  have "bandlimitfunc sec msec nin nout p cf = Ok (fold max (waits sec msec nout (bandlimsout q) (bandlimiterout cf)) ?w div 1000, q,
      cf\<lparr>bandlimiter := bi, bandlimiterout := bo\<rparr>)"
    using bi(1) bo(1) unfolding bandlimitfunc_def Let_def q if_not_P [OF b] by simp
  then show ?thesis using bi(2) bo(2) by auto
qed

definition any_ace :: "int \<Rightarrow> ace" where
  "any_ace a = \<lparr>action = a, aoperation = 0, wdays = 0, periods = [], users = [], src = [], dst = [], ports = []\<rparr>"

definition sample_limit :: bandlim where
  "sample_limit = \<lparr>bl_ace = any_ace 3, basetime = 1000, rate = 8000, nexttime = 5000000\<rparr>"

definition sample_config :: config where
  "sample_config = \<lparr>bandlimiter = [sample_limit], bandlimiterout = [sample_limit], trafcounter = [], paused = 0, wday = 1, day_start = 0\<rparr>"

definition sample_param :: authparam where
  "sample_param = \<lparr>service = S_PROXY, cli = \<lparr>buf = None, inbuf = 0, offset = 0, bufsize = 0\<rparr>, srv = \<lparr>buf = None, inbuf = 0, offset = 0, bufsize = 0\<rparr>,
     clisock = True, remsock = False, parbufsize = 0, statscli = 0, statssrv = 0, singlepacket = False, waitclient = 0, waitserver = 0, maxtraf = 0,
     username = None, hostname = None, sinc_addr = 1, sins_addr = 2, sins_port = 80, operation = 256, time_start = 0, version = 0,
     bandlims = replicate MAXBANDLIMS None, bandlimsout = replicate MAXBANDLIMS None, bandlimfunc = False, trafcountfunc_set = False\<rparr>"

text \<open>Two seconds after a limit of 8000 bits a second was used up for five seconds, 1000 bytes that come in wait for three seconds; a second limit
  starts anew.\<close>

theorem bandlimit_buckets_witness:
  "\<exists>bi bo. bandlimitfunc 1002 0 1000 0 (sample_param\<lparr>bandlims := [Some 0, Some 1]\<rparr>) (sample_config\<lparr>bandlimiter := [sample_limit, sample_limit\<lparr>basetime := 0\<rparr>]\<rparr>) =
     Ok (3000, sample_param\<lparr>bandlims := [Some 0, Some 1]\<rparr>, sample_config\<lparr>bandlimiter := bi, bandlimiterout := bo\<rparr>) \<and>
    takes 1002 0 1000 sample_limit (bi ! 0) \<and> takes 1002 0 1000 (sample_limit\<lparr>basetime := 0\<rparr>) (bi ! 1) \<and> length bi = 2"
proof -
  let ?p = "sample_param\<lparr>bandlims := [Some 0, Some 1]\<rparr>" and ?cf = "sample_config\<lparr>bandlimiter := [sample_limit, sample_limit\<lparr>basetime := 0\<rparr>]\<rparr>"
  have q: "(if version ?p = paused ?cf then ?p else reload_limits ?cf ?p) = ?p" by (simp add: sample_param_def sample_config_def)
  have n: "noted (bandlims ?p) = [0, 1]" by (simp add: noted_def MAXBANDLIMS_def)
  have "limits_ok 1002 0 1000 (bandlims ?p) (bandlimiter ?cf)"
    unfolding limits_ok_def n by (simp add: times_fit_def stale_def sample_limit_def clock_def next_free_def)
  then obtain bi bo where b: "bandlimitfunc 1002 0 1000 0 ?p ?cf =
      Ok (fold max (waits 1002 0 1000 (bandlims ?p) (bandlimiter ?cf) @ waits 1002 0 0 (bandlimsout ?p) (bandlimiterout ?cf)) 0 div 1000, ?p,
        ?cf\<lparr>bandlimiter := bi, bandlimiterout := bo\<rparr>)" "charged 1002 0 1000 (bandlims ?p) (bandlimiter ?cf) bi"
    using bandlimit_buckets [where sec = 1002 and msec = 0 and nin = 1000 and nout = 0 and p = ?p and cf = ?cf] unfolding q by auto
  have w: "fold max (waits 1002 0 1000 (bandlims ?p) (bandlimiter ?cf) @ waits 1002 0 0 (bandlimsout ?p) (bandlimiterout ?cf)) 0 div 1000 = 3000"
    unfolding waits_def n by (simp add: wait_def stale_def sample_limit_def clock_def next_free_def)
  have c: "length bi = 2" using b(2) unfolding charged_def by simp
  note t = conjunct2 [OF b(2) [unfolded charged_def n]]
  show ?thesis using b(1) w c t [THEN spec, of 0] t [THEN spec, of 1] by (intro exI [of _ bi] exI [of _ bo]) simp
qed

section \<open>Limits for sending\<close>

lemma select_keeps: "i' = fst (select_limits m bes j i sl) \<Longrightarrow> i \<le> i' \<and> (\<forall>k < i. snd (select_limits m bes j i sl) ! k = sl ! k)"
proof (induction bes arbitrary: i j sl)
  case (Cons be bes)
  show ?case
  proof (cases "i < MAXBANDLIMS \<and> m (bl_ace be) \<and> action (bl_ace be) \<noteq> NOBANDLIM")
    case True
    then show ?thesis using Cons.IH [of "j + 1" "i + 1" "sl[i := Some j]"] Cons.prems by simp
  next
    case False
    then show ?thesis using Cons.IH [of "j + 1" i sl] Cons.prems by auto
  qed
qed simp

lemma check_counters_keeps:
  "check_counters m tcs p = (f, p') \<Longrightarrow> version p' = version p \<and> bandlims p' = bandlims p \<and> bandlimsout p' = bandlimsout p"
proof (induction tcs arbitrary: p)
  case (Cons tc tcs)
  note IH = Cons.IH
  show ?case using Cons.prems by (auto simp: Let_def split: if_splits dest!: IH)
qed simp

text \<open>C38: When the first limit for receiving matches, \<open>alwaysauth\<close> notes the limits for sending behind it and leaves the first place, where the
  search starts, empty: sending is never delayed, whatever limits there are for it.\<close>

theorem output_limits_lost:
  assumes "alwaysauth e cf p = (0, p')" and "bandlimiter cf = be # bes" and "ACLmatches cf (bl_ace be) (snd (doconnect e p))" and "action (bl_ace be) \<noteq> NOBANDLIM"
    and "bandlimsout p = replicate MAXBANDLIMS None"
  shows "bandlimitfunc sec msec 0 nout p' cf = Ok (0, p', cf)"
proof -
  obtain r q where q: "doconnect e p = (r, q)" by (cases "doconnect e p")
  let ?m = "\<lambda>a. ACLmatches cf a q"
  obtain i sl where i: "select_limits ?m (bandlimiter cf) 0 0 (bandlims q) = (i, sl)" by (cases "select_limits ?m (bandlimiter cf) 0 0 (bandlims q)")
  obtain k so where k: "select_limits ?m (bandlimiterout cf) 0 i (bandlimsout q) = (k, so)" by (cases "select_limits ?m (bandlimiterout cf) 0 i (bandlimsout q)")
  have bo: "bandlimsout q = bandlimsout p" using q by (auto simp: doconnect_def Let_def split: if_splits option.splits)
  have "1 \<le> i" using i select_keeps [of i ?m bes 1 1 "(bandlims q)[0 := Some 0]"] assms(2-4) q by (simp add: MAXBANDLIMS_def)
  moreover have "so ! 0 = None" "i \<le> k" using select_keeps [of k ?m "bandlimiterout cf" 0 i "bandlimsout q"] k \<open>1 \<le> i\<close> assms(5) by (auto simp: bo MAXBANDLIMS_def)
  ultimately have first: "end_limits (k, so) ! 0 = None" by (simp add: end_limits_def)
  have p': "version p' = paused cf" "bandlimsout p' = end_limits (k, so)"
    using assms(1) q i k by (auto simp: alwaysauth_def Let_def split: if_splits prod.splits dest!: check_counters_keeps)
  have "take MAXBANDLIMS (bandlimsout p') = [] \<or> hd (take MAXBANDLIMS (bandlimsout p')) = None" using first p'(2) by (cases "end_limits (k, so)") (simp_all add: MAXBANDLIMS_def)
  then have "limit_loop sec msec nout (take MAXBANDLIMS (bandlimsout p')) 0 (bandlimiterout cf) = Ok (0, bandlimiterout cf)"
    by (cases "take MAXBANDLIMS (bandlimsout p')") auto
  then show ?thesis using p'(1) by (simp add: bandlimitfunc_def)
qed

definition sample_conn :: conn_env where
  "sample_conn = \<lparr>getip = (\<lambda>_. 2), socket_ok = True, bind_ok = True, bind0_ok = True, connect_ok = True, sockname = None\<rparr>"

theorem output_limits_lost_witness:
  "\<exists>p'. alwaysauth sample_conn sample_config sample_param = (0, p') \<and> bandlimitfunc 1002 0 0 1000 p' sample_config = Ok (0, p', sample_config)"
proof -
  have "fst (alwaysauth sample_conn sample_config sample_param) = 0" by code_simp
  then obtain p' where p: "alwaysauth sample_conn sample_config sample_param = (0, p')" by (metis prod.collapse)
  have "ACLmatches sample_config (bl_ace sample_limit) (snd (doconnect sample_conn sample_param))" by code_simp
  then show ?thesis using output_limits_lost [OF p, of sample_limit "[]" 1002 0 1000] p
    by (simp add: sample_config_def sample_limit_def sample_param_def any_ace_def NOBANDLIM_def)
qed

section \<open>Counters\<close>

text \<open>What a counter has counted: \<open>trafgb\<close> counts how often \<open>traf\<close> has overflown.\<close>

definition counted :: "trafcount \<Rightarrow> int" where
  "counted tc = trafgb tc * 2 ^ 64 + traf tc"

definition in_range :: "trafcount \<Rightarrow> bool" where
  "in_range tc \<longleftrightarrow> 0 \<le> traf tc \<and> traf tc < 2 ^ 64 \<and> 0 \<le> trafgb tc \<and> trafgb tc + 1 < 2 ^ 64"

definition counts :: "(ace \<Rightarrow> bool) \<Rightarrow> trafcount \<Rightarrow> bool" where
  "counts m tc \<longleftrightarrow> m (tc_ace tc) \<and> action (tc_ace tc) \<noteq> NOCOUNT"

lemma add_counter:
  assumes "in_range tc" and "0 \<le> n" and "n < 2 ^ 64"
  defines "val \<equiv> (traf tc + n) mod 2 ^ 64"
  shows "counted ((if val < traf tc then tc\<lparr>trafgb := (trafgb tc + 1) mod 2 ^ 64\<rparr> else tc)\<lparr>traf := val, updated := t\<rparr>) = counted tc + n"
proof (cases "traf tc + n < 2 ^ 64")
  case True
  then show ?thesis using assms(1,2) unfolding val_def by (simp add: counted_def in_range_def)
next
  case False
  have r: "0 \<le> traf tc" "traf tc < 2 ^ 64" "0 \<le> trafgb tc" "trafgb tc + 1 < 2 ^ 64" using assms(1) by (simp_all add: in_range_def)
  have "val = (traf tc + n - 2 ^ 64) mod 2 ^ 64" unfolding val_def by simp
  also have "\<dots> = traf tc + n - 2 ^ 64" using False r(2) assms(3) by (intro mod_pos_pos_trivial) auto
  finally have v: "val = traf tc + n - 2 ^ 64" .
  then show ?thesis using r assms(3) by (simp add: counted_def algebra_simps)
qed

text \<open>C25: \<open>trafcountfunc\<close> adds the bytes of a connection to every counter that matches it, up to one that says not to count; overflows of a counter
  are counted too, so that no byte is lost.\<close>

theorem traffic_counted:
  assumes "0 \<le> statssrv p" and "statssrv p < 2 ^ 64" and "\<forall>tc \<in> set (trafcounter cf). in_range tc"
  defines "pre \<equiv> takeWhile (\<lambda>tc. \<not> (ACLmatches cf (tc_ace tc) p \<and> action (tc_ace tc) = NOCOUNT)) (trafcounter cf)"
  shows "map counted (trafcounter (trafcountfunc t p cf)) =
    map (\<lambda>tc. counted tc + (if ACLmatches cf (tc_ace tc) p then statssrv p else 0)) pre @ map counted (drop (length pre) (trafcounter cf))"
proof -
  let ?m = "\<lambda>a. ACLmatches cf a p"
  have "map counted (count_loop ?m t (statssrv p) tcs) =
      map (\<lambda>tc. counted tc + (if ?m (tc_ace tc) then statssrv p else 0)) (takeWhile (\<lambda>tc. \<not> (?m (tc_ace tc) \<and> action (tc_ace tc) = NOCOUNT)) tcs) @
      map counted (drop (length (takeWhile (\<lambda>tc. \<not> (?m (tc_ace tc) \<and> action (tc_ace tc) = NOCOUNT)) tcs)) tcs)"
    if "\<forall>tc \<in> set tcs. in_range tc" for tcs
    using that
  proof (induction tcs)
    case (Cons tc tcs)
    then show ?case using add_counter [of tc "statssrv p" t] assms(1,2) by (auto simp: Let_def)
  qed simp
  from this [OF assms(3)] show ?thesis unfolding pre_def trafcountfunc_def by simp
qed

lemma matches_counter: "ACLmatches (cf\<lparr>trafcounter := tcs\<rparr>) a p = ACLmatches cf a p"
  by (simp add: ACLmatches_def)

definition sample_counter :: "int \<Rightarrow> trafcount" where
  "sample_counter g = \<lparr>tc_ace = any_ace 5, traf = 7, trafgb = 0, traflim = 0, traflimgb = g, updated = 0, disabled = False\<rparr>"

lemma any_matches: "ACLmatches cf (any_ace k) p"
  by (simp add: ACLmatches_def any_ace_def)

theorem traffic_counted_witness:
  "map counted (trafcounter (trafcountfunc 5 (sample_param\<lparr>statssrv := 100\<rparr>) (sample_config\<lparr>trafcounter := [sample_counter 1]\<rparr>))) = [107]"
  using traffic_counted [of "sample_param\<lparr>statssrv := 100\<rparr>" "sample_config\<lparr>trafcounter := [sample_counter 1]\<rparr>" 5]
  by (simp add: in_range_def counted_def sample_counter_def any_matches) (simp add: any_ace_def NOCOUNT_def)

text \<open>C39: Where \<open>unsigned long\<close> has 64 bits, the limit of a single counter of two gigabytes or more is not enforced before \<open>2 ^ 64\<close> bytes: \<open>trafgb\<close> counts
  overflows of a variable of 64 bits and not gigabytes, and it is compared with the gigabytes of the limit first. However much is counted below that,
  the next connection is not refused for it, and \<open>maxtraf\<close>, with which \<open>sockmap\<close> ends a connection, is not set either.\<close>

theorem gigabytes_unlimited:
  assumes "trafcounter cf = [tc]" and "2 \<le> traflimgb tc" and "trafgb tc = 0" and "0 \<le> traf tc" and "\<forall>x \<in> set ps. 0 \<le> statssrv (snd x)"
    and "traf tc + (\<Sum>x \<leftarrow> ps. statssrv (snd x)) < 2 ^ 64"
  shows "\<exists>tc'. trafcounter (fold (\<lambda>(t, p). trafcountfunc t p) ps cf) = [tc'] \<and>
    traf tc' = traf tc + (\<Sum>x \<leftarrow> ps. if counts (\<lambda>a. ACLmatches cf a (snd x)) tc then statssrv (snd x) else 0) \<and>
    fst (alwaysauth e (fold (\<lambda>(t, p). trafcountfunc t p) ps cf) q) \<noteq> 10 \<and>
    maxtraf (snd (alwaysauth e (fold (\<lambda>(t, p). trafcountfunc t p) ps cf) q)) = maxtraf q"
  using assms
proof (induction ps arbitrary: cf tc)
  case Nil
  have "fst (doconnect e q) \<noteq> 10" "maxtraf (snd (doconnect e q)) = maxtraf q" by (simp_all add: doconnect_def Let_def split: option.split)
  then have "fst (alwaysauth e cf q) \<noteq> 10 \<and> maxtraf (snd (alwaysauth e cf q)) = maxtraf q"
    using Nil.prems(1-3) by (auto simp: alwaysauth_def Let_def split_beta)
  then show ?case using Nil.prems(1) by simp
next
  case (Cons x ps)
  obtain t p where x: "x = (t, p)" by (cases x)
  let ?n = "if counts (\<lambda>a. ACLmatches cf a p) tc then statssrv p else 0"
  have n: "0 \<le> statssrv p" using Cons.prems(5) x by simp
  have "0 \<le> (\<Sum>x \<leftarrow> ps. statssrv (snd x))" by (rule sum_list_nonneg) (use Cons.prems(5) in auto)
  then have "(traf tc + statssrv p) mod 2 ^ 64 = traf tc + statssrv p" using Cons.prems(4,6) x n by (intro mod_pos_pos_trivial) auto
  then have "trafcounter (trafcountfunc t p cf) = [if counts (\<lambda>a. ACLmatches cf a p) tc then tc\<lparr>traf := traf tc + statssrv p, updated := t\<rparr> else tc]"
    using Cons.prems(1) n by (simp add: trafcountfunc_def counts_def Let_def)
  then obtain tc1 where tc1: "trafcounter (trafcountfunc t p cf) = [tc1]" "traf tc1 = traf tc + ?n" "trafgb tc1 = 0" "traflimgb tc1 = traflimgb tc" "tc_ace tc1 = tc_ace tc"
    using Cons.prems(3) that by force
  have "ACLmatches (trafcountfunc t p cf) a r = ACLmatches cf a r" for a r by (simp add: trafcountfunc_def matches_counter)
  moreover have "traf tc1 + (\<Sum>x \<leftarrow> ps. statssrv (snd x)) < 2 ^ 64" using tc1(2) Cons.prems(6) x n by (auto split: if_splits)
  moreover have "0 \<le> traf tc1" using tc1(2) Cons.prems(4) n by simp
  ultimately show ?case using Cons.IH [OF tc1(1)] Cons.prems(2,5) tc1(2-5) x by (auto simp: counts_def)
qed

theorem gigabytes_unlimited_witness:
  "\<exists>tc'. trafcounter (trafcountfunc 5 (sample_param\<lparr>statssrv := 2 ^ 40\<rparr>) (sample_config\<lparr>trafcounter := [sample_counter 2]\<rparr>)) = [tc'] \<and> traf tc' = 2 ^ 40 + 7 \<and>
    fst (alwaysauth sample_conn (trafcountfunc 5 (sample_param\<lparr>statssrv := 2 ^ 40\<rparr>) (sample_config\<lparr>trafcounter := [sample_counter 2]\<rparr>)) sample_param) \<noteq> 10 \<and>
    maxtraf (snd (alwaysauth sample_conn (trafcountfunc 5 (sample_param\<lparr>statssrv := 2 ^ 40\<rparr>) (sample_config\<lparr>trafcounter := [sample_counter 2]\<rparr>)) sample_param)) = maxtraf sample_param"
  using gigabytes_unlimited [of "sample_config\<lparr>trafcounter := [sample_counter 2]\<rparr>" "sample_counter 2" "[(5, sample_param\<lparr>statssrv := 2 ^ 40\<rparr>)]" sample_conn sample_param]
  by (simp add: sample_counter_def counts_def any_matches) (simp add: any_ace_def NOCOUNT_def)

end
