(* ===== verification/Proxy_Cache.thy ===== *)
theory Proxy_Cache
  imports Heap_List
begin

text \<open>
  The cache of resolved names of 3proxy (\<^verbatim>\<open>test_sources/3proxy/src/auth.c\<close>): a table of chains of entries. The entries are an array, whose unused
  ones are linked from \<open>hashempty\<close>; an entry keeps a hash of 8 bytes of its name, not the name. Pointers to entries are indices of
  the array. \<open>unsigned\<close> has 32 bits and the least significant byte first, \<open>unsigned long\<close> and \<open>time_t\<close> have 64.
\<close>

section \<open>State\<close>

record hashentry =
  ehash :: "byte list"
  evalue :: int
  expires :: int
  hnext :: ptr

record dns_cache =
  hashtable :: "ptr list option" \<comment> \<open>\<open>None\<close> is the null pointer\<close>
  hashvalues :: "hashentry heap" \<comment> \<open>empty when the array is freed\<close>
  hashempty :: ptr
  hashsize :: int

section \<open>Hashing\<close>

text \<open>\<open>toupper(name[j]) - 32\<close>\<close>

definition hash_char :: "byte \<Rightarrow> byte" where
  "hash_char c = (if 97 \<le> c \<and> c \<le> 122 then c - 32 else c) - 32"

primrec name_loop :: "cstring \<Rightarrow> byte list \<Rightarrow> nat \<Rightarrow> byte list" where
  "name_loop [] h i = h"
| "name_loop (c # name) h i = name_loop name (h[i := h ! i + hash_char c]) (if i + 1 = 8 then 0 else i + 1)"

definition nametohash :: "cstring \<Rightarrow> byte list" where
  "nametohash name = name_loop name (replicate 8 0) 0"

definition load32 :: "byte list \<Rightarrow> int" where
  "load32 b = horner_sum uint 256 (take 4 b)"

definition hashindex :: "int \<Rightarrow> byte list \<Rightarrow> int res" where
  "hashindex n h =
     bindR (checkR Int_overflow (n div 4 \<noteq> 0)) (\<lambda>_.
     Ok ((load32 h * 54321 + load32 (drop 4 h)) mod 2 ^ 32 mod (n div 4)))"

section \<open>Operations\<close>

definition destroyhashtable :: "dns_cache \<Rightarrow> dns_cache" where
  "destroyhashtable c = c\<lparr>hashtable := None, hashvalues := []\<rparr>"

definition cleared :: hashentry where
  "cleared = \<lparr>ehash = replicate 8 0, evalue = 0, expires = 0, hnext = None\<rparr>"

text \<open>The arguments \<open>a1\<close> and \<open>a2\<close> tell whether the allocations succeed.\<close>

definition inithashtable :: "bool \<Rightarrow> bool \<Rightarrow> int \<Rightarrow> dns_cache \<Rightarrow> int \<times> dns_cache" where
  "inithashtable a1 a2 n c =
     (if n < 4 then (1, c)
      else
        let c = (destroyhashtable c)\<lparr>hashsize := 0\<rparr> in
        if \<not> a1 then (2, c)
        else if \<not> a2 then (3, c)
        else (0, \<lparr>hashtable = Some (replicate (nat (n div 4)) None),
          hashvalues = map (\<lambda>i. (i, cleared\<lparr>hnext := if i + 1 < nat n then Some (i + 1) else None\<rparr>)) [0..<nat n],
          hashempty = Some 0, hashsize = n\<rparr>))"

text \<open>\<open>hashadd\<close> looks at the variables before it takes the lock; the rest runs under the lock.\<close>

definition hashadd_check :: "cstring option \<Rightarrow> int \<Rightarrow> dns_cache \<Rightarrow> bool" where
  "hashadd_check name v c \<longleftrightarrow> v \<noteq> 0 \<and> name \<noteq> None \<and> hashtable c \<noteq> None \<and> hashempty c \<noteq> None"

definition table_of :: "dns_cache \<Rightarrow> ptr list res" where
  "table_of c = (case hashtable c of None \<Rightarrow> Fault Null_pointer | Some t \<Rightarrow> Ok t)"

definition hashadd_locked :: "cstring \<Rightarrow> int \<Rightarrow> int \<Rightarrow> dns_cache \<Rightarrow> dns_cache res" where
  "hashadd_locked name v ex c =
     (let he = hashempty c; h = nametohash name in
      bindR (deref (hashvalues c) he) (\<lambda>n.
      let emp = hnext n in
      bindR (assign (hashvalues c) he (\<lambda>_. \<lparr>ehash = h, evalue = v, expires = ex, hnext = None\<rparr>)) (\<lambda>vs.
      bindR (hashindex (hashsize c) h) (\<lambda>i.
      bindR (table_of c) (\<lambda>t.
      bindR (rd t i) (\<lambda>q.
      bindR (case q of None \<Rightarrow> Ok True | Some _ \<Rightarrow> bindR (deref vs q) (\<lambda>m. Ok (ehash m = h))) (\<lambda>fits.
      if fits then
        bindR (assign vs he (hnext_update (\<lambda>_. q))) (\<lambda>vs.
        bindR (wr t i he) (\<lambda>t. Ok (c\<lparr>hashtable := Some t, hashvalues := vs, hashempty := emp\<rparr>)))
      else
        bindR (assign vs he (\<lambda>_. cleared\<lparr>hnext := emp\<rparr>)) (\<lambda>vs. Ok (c\<lparr>hashvalues := vs, hashempty := he\<rparr>)))))))))"

definition hashadd :: "cstring option \<Rightarrow> int \<Rightarrow> int \<Rightarrow> dns_cache \<Rightarrow> dns_cache res" where
  "hashadd name v ex c = (if hashadd_check name v c then hashadd_locked (the name) v ex c else Ok c)"

text \<open>\<open>hep\<close> points to a place of the table, or to the field \<open>next\<close> of an entry.\<close>

definition read_hep :: "int \<Rightarrow> ptr \<Rightarrow> dns_cache \<Rightarrow> ptr res" where
  "read_hep i prev c =
     (if prev = None then bindR (table_of c) (\<lambda>t. rd t i) else bindR (deref (hashvalues c) prev) (\<lambda>n. Ok (hnext n)))"

definition write_hep :: "int \<Rightarrow> ptr \<Rightarrow> ptr \<Rightarrow> dns_cache \<Rightarrow> dns_cache res" where
  "write_hep i prev q c =
     (if prev = None then bindR (table_of c) (\<lambda>t. bindR (wr t i q) (\<lambda>t. Ok (c\<lparr>hashtable := Some t\<rparr>)))
      else bindR (assign (hashvalues c) prev (hnext_update (\<lambda>_. q))) (\<lambda>vs. Ok (c\<lparr>hashvalues := vs\<rparr>)))"

definition earlier :: "int \<Rightarrow> int \<Rightarrow> bool" where
  "earlier a b \<longleftrightarrow> a mod 2 ^ 64 < b mod 2 ^ 64"

primrec resolv_loop :: "nat \<Rightarrow> int \<Rightarrow> byte list \<Rightarrow> int \<Rightarrow> ptr \<Rightarrow> dns_cache \<Rightarrow> (hashentry option \<times> dns_cache) res" where
  "resolv_loop 0 t h i prev c = Timeout"
| "resolv_loop (Suc k) t h i prev c =
     bindR (read_hep i prev c) (\<lambda>he.
     if he = None then Ok (None, c)
     else
       bindR (deref (hashvalues c) he) (\<lambda>n.
       if earlier (expires n) t then
         bindR (write_hep i prev (hnext n) c) (\<lambda>c.
         bindR (assign (hashvalues c) he (\<lambda>n. n\<lparr>expires := 0, hnext := hashempty c\<rparr>)) (\<lambda>vs.
         resolv_loop k t h i prev (c\<lparr>hashvalues := vs, hashempty := he\<rparr>)))
       else if ehash n = h then Ok (Some n, c)
       else resolv_loop k t h i he c))"

text \<open>The result is the address and, when it is found, the time to live. The loop visits every entry at most once.\<close>

definition hashresolv :: "cstring option \<Rightarrow> int \<Rightarrow> dns_cache \<Rightarrow> (int \<times> int option \<times> dns_cache) res" where
  "hashresolv name t c =
     (if hashtable c = None \<or> name = None then Ok (0, None, c)
      else
        let h = nametohash (the name) in
        bindR (hashindex (hashsize c) h) (\<lambda>i.
        bindR (resolv_loop (length (hashvalues c) + 1) t h i None c) (\<lambda>(r, c).
        case r of None \<Rightarrow> Ok (0, None, c) | Some n \<Rightarrow> Ok (evalue n, Some ((expires n - t) mod 2 ^ 32), c))))"

section \<open>What the cache holds\<close>

text \<open>An abstract cache: for every place of the table the entries that are stored there, with hash, address and time, and the number of
  unused entries.\<close>

type_synonym cached = "byte list \<times> int \<times> int"

record abs_cache =
  places :: "nat \<Rightarrow> cached list"
  unused :: nat

definition place :: "int \<Rightarrow> byte list \<Rightarrow> nat" where
  "place n h = nat ((load32 h * 54321 + load32 (drop 4 h)) mod 2 ^ 32 mod (n div 4))"

definition abs_add :: "nat \<Rightarrow> cached \<Rightarrow> abs_cache \<Rightarrow> abs_cache" where
  "abs_add b x A =
     (if fst (snd x) \<noteq> 0 \<and> unused A \<noteq> 0 \<and> (places A b = [] \<or> fst (hd (places A b)) = fst x)
      then \<lparr>places = (places A)(b := x # places A b), unused = unused A - 1\<rparr> else A)"

text \<open>Looking a hash up drops the entries that are out of date, up to the one that is found.\<close>

fun abs_find :: "int \<Rightarrow> byte list \<Rightarrow> cached list \<Rightarrow> cached option \<times> cached list" where
  "abs_find t h [] = (None, [])"
| "abs_find t h (x # xs) =
     (if earlier (snd (snd x)) t then abs_find t h xs
      else if fst x = h then (Some x, x # xs)
      else map_prod id ((#) x) (abs_find t h xs))"

definition entry_of :: "hashentry heap \<Rightarrow> nat \<Rightarrow> cached" where
  "entry_of vs a = (case map_of vs a of None \<Rightarrow> ([], 0, 0) | Some n \<Rightarrow> (ehash n, evalue n, expires n))"

text \<open>The entries of the array are in the list of the unused ones or in one chain of the table.\<close>

definition linked :: "dns_cache \<Rightarrow> nat list \<Rightarrow> (nat \<Rightarrow> nat list) \<Rightarrow> bool" where
  "linked c free ch \<longleftrightarrow> 4 \<le> hashsize c \<and> chain hnext (hashvalues c) (hashempty c) free \<and>
     (\<exists>t. hashtable c = Some t \<and> length t = nat (hashsize c div 4) \<and> (\<forall>b < length t. chain hnext (hashvalues c) (t ! b) (ch b)) \<and>
       (\<forall>b < length t. set free \<inter> set (ch b) = {} \<and> (\<forall>b' < length t. b \<noteq> b' \<longrightarrow> set (ch b) \<inter> set (ch b') = {})))"

definition holds :: "dns_cache \<Rightarrow> abs_cache \<Rightarrow> bool" where
  "holds c A \<longleftrightarrow> (\<exists>free ch. linked c free ch \<and> unused A = length free \<and>
     (\<forall>b < nat (hashsize c div 4). places A b = map (entry_of (hashvalues c)) (ch b)))"

end
