(* ===== verification/Proxy_Dns.thy ===== *)
theory Proxy_Dns
  imports Proxy_Sock Proxy_Cache
begin

text \<open>
  The resolver of 3proxy (\<^verbatim>\<open>udpresolve\<close> of \<^verbatim>\<open>test_sources/3proxy/src/auth.c\<close>), as \<open>myresolver\<close> calls it, without a connection: it looks a name up in the cache,
  then asks the name servers one after the other and adds the answer to the cache. \<open>ul\<close> is the size of \<open>unsigned long\<close>, 4 or 8; the least significant
  byte of an integer comes first.
\<close>

section \<open>Questions\<close>

text \<open>\<open>strchr(buf + i, '.')\<close>\<close>

definition find_dot :: "byte list \<Rightarrow> int \<Rightarrow> int option" where
  "find_dot b i =
     (let s = takeWhile (\<lambda>c. c \<noteq> 0) (drop (nat i) b); w = takeWhile (\<lambda>c. c \<noteq> 46) s in
      if length w < length s then Some (i + int (length w)) else None)"

text \<open>Every dot becomes the length of the part behind it; every step moves at least one byte on.\<close>

primrec label_loop :: "nat \<Rightarrow> byte list \<Rightarrow> int \<Rightarrow> (byte list \<times> int) res" where
  "label_loop 0 b s2 = Timeout"
| "label_loop (Suc k) b s2 =
     (case find_dot b (s2 + 1) of
        None \<Rightarrow> Ok (b, s2)
      | Some s1 \<Rightarrow> bindR (wr b s2 (word_of_int (s1 - s2 - 1))) (\<lambda>b. label_loop k b s1))"

definition dns_query :: "int \<Rightarrow> cstring \<Rightarrow> byte list \<Rightarrow> (byte list \<times> int) res" where
  "dns_query nquery name b =
     (let len = min (int (length name)) 255 in
      bindR (wr_block b 0 [word_of_int nquery, word_of_int (nquery div 256), 1, 0, 0, 1, 0, 0, 0, 0, 0, 0]) (\<lambda>b.
      bindR (wr_block b 13 (take (nat len) name)) (\<lambda>b.
      let len = len + 13 in
      bindR (wr b len 0) (\<lambda>b.
      bindR (label_loop (nat len) b 12) (\<lambda>(b, s2).
      bindR (wr b s2 (word_of_int (len - s2 - 1))) (\<lambda>b.
      bindR (wr_block b (len + 1) [0, 1, 0, 1]) (\<lambda>b. Ok (b, len + 5))))))))"

section \<open>Answers\<close>

datatype dns_answer = Next_server | No_address | Address int int

definition load_short :: "byte \<Rightarrow> byte \<Rightarrow> int" where
  "load_short hi lo = uint lo + uint hi * 256"

definition load_long :: "int \<Rightarrow> byte list \<Rightarrow> int \<Rightarrow> int res" where
  "load_long ul b i = bindR (rd_block b i ul) (\<lambda>bs. Ok (horner_sum uint 256 bs))"

text \<open>\<open>ntohl\<close> takes the first four bytes.\<close>

definition swap32 :: "int \<Rightarrow> int" where
  "swap32 v = horner_sum (\<lambda>i. v div 256 ^ i mod 256) 256 [3, 2, 1, 0]"

text \<open>The end of the name in the question.\<close>

function skip_name :: "byte list \<Rightarrow> int \<Rightarrow> int \<Rightarrow> int res" where
  "skip_name b len k = (if k < len then bindR (rd b k) (\<lambda>c. if c \<noteq> 0 then skip_name b len (k + 1) else Ok k) else Ok k)"
  by pat_completeness auto
termination by (relation "measure (\<lambda>(b, len, k). nat (len - k))") auto

primrec answer_loop :: "nat \<Rightarrow> int \<Rightarrow> byte list \<Rightarrow> int \<Rightarrow> int \<Rightarrow> dns_answer res" where
  "answer_loop 0 ul b len k = Ok Next_server"
| "answer_loop (Suc j) ul b len k =
     (if k + 16 > len then Ok Next_server
      else
        bindR (rd b (k + 11)) (\<lambda>lo. bindR (rd b (k + 10)) (\<lambda>hi.
        let flen = load_short hi lo in
        if k + 12 + flen > len then Ok Next_server
        else
          bindR (rd b (k + 2)) (\<lambda>t2. bindR (rd b (k + 3)) (\<lambda>t3.
          if t2 \<noteq> 0 \<or> t3 \<noteq> 1 \<or> flen \<noteq> 4 then answer_loop j ul b len (k + 12 + flen)
          else
            bindR (load_long ul b (k + 12)) (\<lambda>retval.
            bindR (load_long ul b (k + 6)) (\<lambda>ttl. Ok (Address retval (swap32 ttl)))))))))"

declare skip_name.simps [simp del]

text \<open>What the bytes that were received, \<open>len\<close> of them, say.\<close>

definition parse_answer :: "int \<Rightarrow> int \<Rightarrow> byte list \<Rightarrow> int \<Rightarrow> dns_answer res" where
  "parse_answer ul nquery b len =
     (if len \<le> 13 then Ok Next_server
      else
        bindR (rd b 0) (\<lambda>i0. bindR (rd b 1) (\<lambda>i1.
        if load_short i1 i0 \<noteq> nquery then Ok Next_server
        else
          bindR (rd b 7) (\<lambda>a0. bindR (rd b 6) (\<lambda>a1.
          let na = load_short a1 a0 in
          if na < 1 then Ok No_address
          else
            bindR (rd b 5) (\<lambda>q0. bindR (rd b 4) (\<lambda>q1.
            if load_short q1 q0 \<noteq> 1 then Ok Next_server
            else
              bindR (skip_name b len 13) (\<lambda>k.
              let k = k + 1 in
              if k + 4 \<ge> len then Ok Next_server else answer_loop (nat (min na 255)) ul b len (k + 4)))))))))"

section \<open>The resolver\<close>

text \<open>What the system does for one name server: opening and binding a socket, the number of the question, the time, and the environment of the
  calls on the socket.\<close>

record dns_env =
  opened :: bool
  bound :: bool
  query_id :: int
  stack :: "byte list" \<comment> \<open>\<open>buf\<close> before it is written\<close>
  time_now :: int
  sock_env :: net_env

definition dns_ttl :: "int \<Rightarrow> int \<Rightarrow> int" where
  "dns_ttl t ttl = (if ttl < 60 \<or> (t mod 2 ^ 32 + ttl) mod 2 ^ 32 < ttl then 300 else ttl)"

primrec ask_servers :: "nat \<Rightarrow> int \<Rightarrow> dns_env list \<Rightarrow> cstring \<Rightarrow> net \<Rightarrow> dns_cache \<Rightarrow> (int \<times> dns_cache) res" where
  "ask_servers k ul [] name n c = Ok (0, c)"
| "ask_servers k ul (e # es) name n c =
     (if \<not> opened e \<or> \<not> bound e then Ok (0, c)
      else
        bindR (dns_query (query_id e) name (stack e)) (\<lambda>(b, len).
        bindR (socksendto k (sock_env e) SERVER b 0 len n) (\<lambda>(r, n).
        if r \<noteq> len then ask_servers k ul es name n c
        else
          bindR (sockrecvfrom k (sock_env e) SERVER b 4096 n) (\<lambda>(len, b, n).
          bindR (parse_answer ul (query_id e) b len) (\<lambda>a.
          case a of
            Next_server \<Rightarrow> ask_servers k ul es name n c
          | No_address \<Rightarrow> Ok (0, c)
          | Address v ttl \<Rightarrow>
              let ttl = dns_ttl (time_now e) ttl in
              bindR (if ttl \<noteq> 0 then hashadd (Some name) v ((time_now e mod 2 ^ 32 + ttl) mod 2 ^ 32) c else Ok c) (\<lambda>c. Ok (v, c)))))))"

text \<open>One environment for each name server of the configuration, at most five; \<open>t\<close> is the time of the call.\<close>

definition myresolver :: "nat \<Rightarrow> int \<Rightarrow> int \<Rightarrow> dns_env list \<Rightarrow> cstring \<Rightarrow> net \<Rightarrow> dns_cache \<Rightarrow> (int \<times> dns_cache) res" where
  "myresolver k ul t es name n c =
     bindR (hashresolv (Some name) t c) (\<lambda>(v, _, c).
     if v \<noteq> 0 then Ok (v, c) else ask_servers k ul (take 5 es) name n c)"

end
