(* ===== verification/Proxy_Names.thy ===== *)
theory Proxy_Names
  imports Proxy_Cache
begin

text \<open>
  What the cache of names promises: it implements the abstract cache, no operation leaves the memory, and a name that was added is found until it
  expires. Names with the same hash are taken for each other, and the check of the unused entries in front of the lock does not protect
  the step behind it.
\<close>

section \<open>Chains\<close>

lemma chain_update: "a \<notin> set as \<Longrightarrow> segment nxt (AList.update a n vs) p as q = segment nxt vs p as q"
  by (rule segment_cong) (auto simp: update_conv')

lemma linkedD:
  assumes "linked c free ch" and "hashtable c = Some t" and "b < length t"
  shows "chain hnext (hashvalues c) (t ! b) (ch b)" and "set free \<inter> set (ch b) = {}" and "b' < length t \<Longrightarrow> b \<noteq> b' \<Longrightarrow> set (ch b) \<inter> set (ch b') = {}"
  using assms by (auto simp: linked_def)

lemma linked_table: "linked c free ch \<Longrightarrow> \<exists>t. hashtable c = Some t \<and> length t = nat (hashsize c div 4) \<and> 4 \<le> hashsize c"
  by (auto simp: linked_def)

lemma read_hep_ok:
  assumes "linked c free ch" and "hashtable c = Some t" and "b < length t" and "ch b = pre @ post"
  shows "read_hep (int b) (last_of pre) c = Ok (first_of post)"
proof (cases pre rule: rev_cases)
  case Nil
  then have "chain hnext (hashvalues c) (t ! b) post" using linkedD(1) [OF assms(1-3)] assms(4) by simp
  then show ?thesis using Nil assms(2,3) by (cases post) (simp_all add: read_hep_def table_of_def rd_def)
next
  case (snoc us a)
  then have "chain hnext (hashvalues c) (t ! b) (us @ a # post)" using linkedD(1) [OF assms(1-3)] assms(4) by simp
  then obtain n where "map_of (hashvalues c) a = Some n" "chain hnext (hashvalues c) (hnext n) post" by auto
  then show ?thesis using snoc by (cases post) (simp_all add: read_hep_def)
qed

lemma linked_upd:
  assumes "linked c free ch" and "hashtable c = Some t" and "b < length t" and "\<And>x. x \<notin> set (ch b) \<Longrightarrow> x \<notin> M \<Longrightarrow> map_of vs x = map_of (hashvalues c) x"
    and "length t' = length t" and "\<And>b'. b' < length t \<Longrightarrow> b' \<noteq> b \<Longrightarrow> t' ! b' = t ! b'" and "chain hnext vs (t' ! b) as" and "chain hnext vs emp free'"
    and "set as \<inter> set free' = {}" and "set as \<union> set free' \<subseteq> set (ch b) \<union> set free" and "M \<subseteq> set free"
  shows "linked (c\<lparr>hashtable := Some t', hashvalues := vs, hashempty := emp\<rparr>) free' (ch(b := as))"
proof -
  have o: "set (ch b') \<inter> (set (ch b) \<union> set free) = {}" if "b' < length t" "b' \<noteq> b" for b'
    using linkedD(2) [OF assms(1,2) that(1)] linkedD(3) [OF assms(1,2) that(1) assms(3)] that(2) by auto
  have "chain hnext vs (t' ! b') (ch b')" if "b' < length t" "b' \<noteq> b" for b'
  proof -
    have "chain hnext vs (t ! b') (ch b') = chain hnext (hashvalues c) (t ! b') (ch b')"
      by (rule segment_cong) (use assms(4,11) o [OF that] in blast)
    then show ?thesis using linkedD(1) [OF assms(1,2) that(1)] assms(6) that by simp
  qed
  moreover have "set (ch b') \<inter> (set as \<union> set free') = {}" if "b' < length t" "b' \<noteq> b" for b' using o [OF that] assms(10) by blast
  moreover have "set (ch b') \<inter> set (ch b'') = {}" if "b' < length t" "b'' < length t" "b' \<noteq> b''" for b' b'' using linkedD(3) [OF assms(1,2) that] .
  ultimately show ?thesis using linked_table [OF assms(1)] assms(2,5,7,8,9) unfolding linked_def by (auto simp: Int_commute)
qed

lemma same_table: "hashtable c = Some t \<Longrightarrow> c\<lparr>hashtable := Some t, hashvalues := vs, hashempty := emp\<rparr> = c\<lparr>hashvalues := vs, hashempty := emp\<rparr>"
  by simp

text \<open>An expired entry is unlinked and comes to the unused ones; only its time changes.\<close>

lemma drop_expired:
  assumes "linked c free ch" and "hashtable c = Some t" and "b < length t" and "ch b = pre @ a # post" and "map_of (hashvalues c) a = Some n"
  shows "\<exists>c1 vs. write_hep (int b) (last_of pre) (hnext n) c = Ok c1 \<and> assign (hashvalues c1) (Some a) (\<lambda>n. n\<lparr>expires := 0, hnext := hashempty c1\<rparr>) = Ok vs \<and>
    linked (c1\<lparr>hashvalues := vs, hashempty := Some a\<rparr>) (a # free) (ch(b := pre @ post)) \<and> hashsize c1 = hashsize c \<and>
    (\<forall>x. x \<noteq> a \<longrightarrow> entry_of vs x = entry_of (hashvalues c) x)"
proof -
  let ?h = "hashvalues c"
  let ?n = "n\<lparr>expires := 0, hnext := hashempty c\<rparr>"
  have ch: "chain hnext ?h (t ! b) (pre @ a # post)" using linkedD(1) [OF assms(1-3)] assms(4) by simp
  then have d: "distinct (pre @ a # post)" by (rule chain_distinct)
  have post: "chain hnext ?h (hnext n) post" using ch assms(5) by auto
  have fr: "chain hnext ?h (hashempty c) free" "set (pre @ a # post) \<inter> set free = {}" using assms(1,4) linkedD(2) [OF assms(1-3)] by (auto simp: linked_def)
  show ?thesis
  proof (cases pre rule: rev_cases)
    case Nil
    let ?vs = "AList.update a ?n ?h"
    have "linked (c\<lparr>hashtable := Some (t[b := hnext n]), hashvalues := ?vs, hashempty := Some a\<rparr>) (a # free) (ch(b := post))"
      by (rule linked_upd [OF assms(1-3), where M = "{}"]) (use assms(3,4) Nil d fr post in \<open>auto simp: update_conv' chain_update\<close>)
    then show ?thesis using Nil assms(2,3,5) by (simp add: write_hep_def table_of_def wr_def entry_of_def update_conv')
  next
    case (snoc us p)
    obtain m where m: "map_of ?h p = Some m" "hnext m = Some a" "segment hnext ?h (t ! b) us (Some p)" using ch snoc by auto
    let ?vs = "AList.update a ?n (AList.update p (m\<lparr>hnext := hnext n\<rparr>) ?h)"
    have pa: "p \<noteq> a" "p \<notin> set us" "a \<notin> set us" "p \<notin> set post" "a \<notin> set post" "p \<notin> set free" "a \<notin> set free" using d fr snoc by auto
    have "chain hnext ?vs (t ! b) (us @ p # post)" using pa m post by (auto simp: chain_update update_conv')
    then have "linked (c\<lparr>hashtable := Some t, hashvalues := ?vs, hashempty := Some a\<rparr>) (a # free) (ch(b := pre @ post))"
      by (intro linked_upd [OF assms(1-3), where M = "{}"]) (use assms(4) snoc d fr pa in \<open>auto simp: update_conv' chain_update\<close>)
    then show ?thesis unfolding same_table [OF assms(2)] using snoc assms(5) m(1) pa by (auto simp: write_hep_def entry_of_def update_conv')
  qed
qed

definition cached_of :: "hashentry \<Rightarrow> cached" where
  "cached_of n = (ehash n, evalue n, expires n)"

lemma entry_of_Some: "map_of vs a = Some n \<Longrightarrow> entry_of vs a = cached_of n"
  by (simp add: entry_of_def cached_of_def)

lemma entries_cong: "(\<And>x. x \<in> set xs \<Longrightarrow> entry_of vs x = entry_of vs' x) \<Longrightarrow> map (entry_of vs) xs = map (entry_of vs') xs"
  by simp

text \<open>The state after a search of the rest \<open>post\<close> of a chain, of which \<open>post'\<close> is left.\<close>

definition searched :: "nat \<Rightarrow> nat list \<Rightarrow> nat list \<Rightarrow> cached option \<times> cached list \<Rightarrow> nat list \<Rightarrow> (nat \<Rightarrow> nat list) \<Rightarrow> dns_cache \<Rightarrow> hashentry option \<Rightarrow> dns_cache \<Rightarrow> bool" where
  "searched b pre post found free ch c r c' \<longleftrightarrow> map_option cached_of r = fst found \<and> hashsize c' = hashsize c \<and>
     (\<exists>free' post'. linked c' free' (ch(b := pre @ post')) \<and> map (entry_of (hashvalues c')) post' = snd found \<and>
       length free' + length post' = length free + length post) \<and>
     (\<forall>x. x \<notin> set post \<longrightarrow> entry_of (hashvalues c') x = entry_of (hashvalues c) x)"

lemma searched_stop:
  "linked c free ch \<Longrightarrow> ch b = pre @ post \<Longrightarrow> found = (map_option cached_of r, map (entry_of (hashvalues c)) post) \<Longrightarrow> searched b pre post found free ch c r c"
proof -
  assume a: "linked c free ch" "ch b = pre @ post" "found = (map_option cached_of r, map (entry_of (hashvalues c)) post)"
  then have "linked c free (ch(b := pre @ post))" by (simp add: fun_upd_idem)
  then show ?thesis using a(3) unfolding searched_def by auto
qed

lemma resolv_loop_ok:
  assumes "linked c free ch" and "b < nat (hashsize c div 4)" and "ch b = pre @ post" and "length post < k"
  shows "\<exists>r c'. resolv_loop k t h (int b) (last_of pre) c = Ok (r, c') \<and>
    searched b pre post (abs_find t h (map (entry_of (hashvalues c)) post)) free ch c r c'"
  using assms
proof (induction k arbitrary: c free ch pre post)
  case (Suc k)
  obtain tb where tb: "hashtable c = Some tb" "length tb = nat (hashsize c div 4)" using linked_table [OF Suc.prems(1)] by auto
  have b: "b < length tb" using Suc.prems(2) tb(2) by simp
  have hep: "read_hep (int b) (last_of pre) c = Ok (first_of post)" by (rule read_hep_ok [OF Suc.prems(1) tb(1) b Suc.prems(3)])
  note stop = searched_stop [OF Suc.prems(1,3)]
  show ?case
  proof (cases post)
    case Nil
    then show ?thesis using hep stop [of "(None, [])" None] by simp
  next
    case (Cons a post1)
    have cb: "chain hnext (hashvalues c) (tb ! b) (pre @ a # post1)" using linkedD(1) [OF Suc.prems(1) tb(1) b] Suc.prems(3) Cons by simp
    then obtain n where n: "map_of (hashvalues c) a = Some n" by auto
    have d: "distinct (pre @ a # post1)" using chain_distinct [OF cb] .
    note e = entry_of_Some [OF n]
    consider "earlier (expires n) t" | "\<not> earlier (expires n) t" "ehash n = h" | "\<not> earlier (expires n) t" "ehash n \<noteq> h" by blast
    then show ?thesis
    proof cases
      case 1
      obtain c1 vs where c1: "write_hep (int b) (last_of pre) (hnext n) c = Ok c1"
          "assign (hashvalues c1) (Some a) (\<lambda>n. n\<lparr>expires := 0, hnext := hashempty c1\<rparr>) = Ok vs"
          "linked (c1\<lparr>hashvalues := vs, hashempty := Some a\<rparr>) (a # free) (ch(b := pre @ post1))" "hashsize c1 = hashsize c"
          "\<forall>x. x \<noteq> a \<longrightarrow> entry_of vs x = entry_of (hashvalues c) x"
        using drop_expired [OF Suc.prems(1) tb(1) b Suc.prems(3) [unfolded Cons] n] by blast
      let ?c = "c1\<lparr>hashvalues := vs, hashempty := Some a\<rparr>"
      have v: "hashvalues ?c = vs" by simp
      have eq: "map (entry_of vs) post1 = map (entry_of (hashvalues c)) post1" using d c1(5) by (intro entries_cong) auto
      have "\<exists>r c'. resolv_loop k t h (int b) (last_of pre) ?c = Ok (r, c') \<and>
          searched b pre post1 (abs_find t h (map (entry_of (hashvalues ?c)) post1)) (a # free) (ch(b := pre @ post1)) ?c r c'"
        by (rule Suc.IH [OF c1(3)]) (use Suc.prems(2,4) Cons c1(4) in simp_all)
      then obtain r c' where r: "resolv_loop k t h (int b) (last_of pre) ?c = Ok (r, c')"
          "searched b pre post1 (abs_find t h (map (entry_of (hashvalues c)) post1)) (a # free) (ch(b := pre @ post1)) ?c r c'"
        unfolding v eq by blast
      have "resolv_loop (Suc k) t h (int b) (last_of pre) c = Ok (r, c')" using hep Cons n 1 c1(1,2) r(1) by simp
      moreover have "searched b pre post (abs_find t h (map (entry_of (hashvalues c)) post)) free ch c r c'"
        using r(2) 1 e c1(4,5) Cons by (auto simp: searched_def cached_of_def)
      ultimately show ?thesis by blast
    next
      case 2
      then show ?thesis using hep Cons n e stop [of "abs_find t h (map (entry_of (hashvalues c)) post)" "Some n"] by (simp add: cached_of_def)
    next
      case 3
      obtain r c' where r: "resolv_loop k t h (int b) (last_of (pre @ [a])) c = Ok (r, c')"
          "searched b (pre @ [a]) post1 (abs_find t h (map (entry_of (hashvalues c)) post1)) free ch c r c'"
        using Suc.IH [OF Suc.prems(1,2), of "pre @ [a]" post1] Suc.prems(3,4) Cons by auto
      obtain free' post' where p: "linked c' free' (ch(b := pre @ a # post'))" "map (entry_of (hashvalues c')) post' = snd (abs_find t h (map (entry_of (hashvalues c)) post1))"
          "length free' + length post' = length free + length post1"
        using r(2) unfolding searched_def by auto
      have a: "entry_of (hashvalues c') a = cached_of n" using r(2) d e unfolding searched_def by auto
      have "resolv_loop (Suc k) t h (int b) (last_of pre) c = Ok (r, c')" using hep Cons n 3 r(1) by simp
      moreover have "abs_find t h (map (entry_of (hashvalues c)) post) = map_prod id ((#) (cached_of n)) (abs_find t h (map (entry_of (hashvalues c)) post1))"
        using 3 e Cons by (simp add: cached_of_def)
      moreover have "\<exists>free' post'. linked c' free' (ch(b := pre @ post')) \<and> map (entry_of (hashvalues c')) post' = cached_of n # snd (abs_find t h (map (entry_of (hashvalues c)) post1)) \<and>
          length free' + length post' = length free + length post"
        by (intro exI [of _ free'] exI [of _ "a # post'"]) (use p a Cons in auto)
      ultimately show ?thesis using r(2) Cons unfolding searched_def by (intro exI [of _ r] exI [of _ c']) simp
    qed
  qed
qed simp

section \<open>Operations\<close>

lemma hashindex_place:
  assumes "4 \<le> n"
  shows "hashindex n h = Ok (int (place n h))" and "place n h < nat (n div 4)"
proof -
  have "0 < n div 4" using assms by linarith
  then show "hashindex n h = Ok (int (place n h))" "place n h < nat (n div 4)" by (simp_all add: hashindex_def place_def checkR_def)
qed

lemma hashresolv_refines:
  fixes name
  assumes "holds c A"
  defines "b \<equiv> place (hashsize c) (nametohash name)"
  shows "\<exists>c'. hashresolv (Some name) t c =
      Ok (case fst (abs_find t (nametohash name) (places A b)) of None \<Rightarrow> (0, None, c') | Some x \<Rightarrow> (fst (snd x), Some ((snd (snd x) - t) mod 2 ^ 32), c')) \<and>
    hashsize c' = hashsize c \<and>
    holds c' \<lparr>places = (places A)(b := snd (abs_find t (nametohash name) (places A b))),
      unused = unused A + length (places A b) - length (snd (abs_find t (nametohash name) (places A b)))\<rparr>"
proof -
  let ?h = "nametohash name"
  obtain free ch where l: "linked c free ch" "unused A = length free" "\<forall>b < nat (hashsize c div 4). places A b = map (entry_of (hashvalues c)) (ch b)"
    using assms(1) unfolding holds_def by blast
  obtain tb where tb: "hashtable c = Some tb" "length tb = nat (hashsize c div 4)" "4 \<le> hashsize c" using linked_table [OF l(1)] by auto
  have b: "b < length tb" "hashindex (hashsize c) ?h = Ok (int b)" using hashindex_place [OF tb(3)] tb(2) by (simp_all add: b_def)
  have k: "length (ch b) < length (hashvalues c) + 1" using chain_length [OF linkedD(1) [OF l(1) tb(1) b(1)]] by simp
  have pb: "places A b = map (entry_of (hashvalues c)) (ch b)" using l(3) b(1) tb(2) by simp
  obtain r c' where r: "resolv_loop (length (hashvalues c) + 1) t ?h (int b) None c = Ok (r, c')" "searched b [] (ch b) (abs_find t ?h (places A b)) free ch c r c'"
    using resolv_loop_ok [OF l(1), of b "[]" "ch b" "length (hashvalues c) + 1" t ?h] b(1) tb(2) k by (auto simp: pb simp del: resolv_loop.simps)
  obtain free' post' where p: "linked c' free' (ch(b := post'))" "map (entry_of (hashvalues c')) post' = snd (abs_find t ?h (places A b))"
      "length free' + length post' = length free + length (ch b)"
    using r(2) unfolding searched_def by auto
  have len: "length post' = length (snd (abs_find t ?h (places A b)))" using p(2) by (metis length_map)
  have "entry_of (hashvalues c') x = entry_of (hashvalues c) x" if "x \<in> set (ch b')" "b' < length tb" "b' \<noteq> b" for x b'
    using r(2) linkedD(3) [OF l(1) tb(1) b(1) that(2)] that unfolding searched_def by blast
  then have "holds c' \<lparr>places = (places A)(b := snd (abs_find t ?h (places A b))), unused = unused A + length (places A b) - length (snd (abs_find t ?h (places A b)))\<rparr>"
    using p l(2,3) r(2) len tb(2) unfolding holds_def searched_def by (intro exI [of _ free'] exI [of _ "ch(b := post')"]) (auto simp: pb)
  moreover have "fst (abs_find t ?h (places A b)) = map_option cached_of r" "hashsize c' = hashsize c" using r(2) by (simp_all add: searched_def)
  ultimately show ?thesis using tb(1) b(2) r(1) by (cases r) (auto simp: hashresolv_def cached_of_def Let_def simp del: resolv_loop.simps)
qed

lemma hashadd_locked_ok:
  assumes "linked c (a # free) ch" and "b = place (hashsize c) (nametohash name)"
  shows "\<exists>c'. hashadd_locked name v ex c = Ok c' \<and> hashsize c' = hashsize c \<and> (\<forall>x. x \<noteq> a \<longrightarrow> entry_of (hashvalues c') x = entry_of (hashvalues c) x) \<and>
    (if ch b = [] \<or> fst (entry_of (hashvalues c) (hd (ch b))) = nametohash name
     then linked c' free (ch(b := a # ch b)) \<and> entry_of (hashvalues c') a = (nametohash name, v, ex) else linked c' (a # free) ch)"
proof -
  let ?h = "nametohash name" and ?vs = "hashvalues c"
  obtain tb where tb: "hashtable c = Some tb" "length tb = nat (hashsize c div 4)" "4 \<le> hashsize c" using linked_table [OF assms(1)] by auto
  have b: "b < length tb" "hashindex (hashsize c) ?h = Ok (int b)" using hashindex_place [OF tb(3)] tb(2) assms(2) by simp_all
  obtain n where n: "hashempty c = Some a" "map_of ?vs a = Some n" "chain hnext ?vs (hnext n) free" using assms(1) by (auto simp: linked_def)
  have "chain hnext ?vs (hashempty c) (a # free)" using assms(1) by (auto simp: linked_def)
  then have d: "a \<notin> set free" using chain_distinct by fastforce
  have ab: "a \<notin> set (ch b')" if "b' < length tb" for b' using linkedD(2) [OF assms(1) tb(1) that] by auto
  note chb = linkedD(1) [OF assms(1) tb(1) b(1)]
  define N where "N = \<lparr>ehash = ?h, evalue = v, expires = ex, hnext = None\<rparr>"
  define fits where "fits \<longleftrightarrow> ch b = [] \<or> fst (entry_of ?vs (hd (ch b))) = ?h"
  have fits: "(case tb ! b of None \<Rightarrow> Ok True | Some _ \<Rightarrow> bindR (deref (AList.update a N ?vs) (tb ! b)) (\<lambda>m. Ok (ehash m = ?h))) = Ok fits"
    using chb ab [OF b(1)] by (cases "ch b") (auto simp: fits_def entry_of_def update_conv')
  have rdb: "rd tb (int b) = Ok (tb ! b)" "wr tb (int b) q = Ok (tb[b := q])" for q using b(1) by (simp_all add: rd_def wr_def)
  have E: "hashadd_locked name v ex c = (if fits
      then Ok (c\<lparr>hashtable := Some (tb[b := Some a]), hashvalues := AList.update a (N\<lparr>hnext := tb ! b\<rparr>) (AList.update a N ?vs), hashempty := hnext n\<rparr>)
      else Ok (c\<lparr>hashvalues := AList.update a (cleared\<lparr>hnext := hnext n\<rparr>) (AList.update a N ?vs), hashempty := Some a\<rparr>))"
    using n(1,2) tb(1) b(2) rdb fits unfolding hashadd_locked_def Let_def N_def [symmetric] by (simp add: table_of_def update_conv')
  show ?thesis
  proof (cases fits)
    case True
    let ?vs' = "AList.update a (N\<lparr>hnext := tb ! b\<rparr>) (AList.update a N ?vs)"
    have "linked (c\<lparr>hashtable := Some (tb[b := Some a]), hashvalues := ?vs', hashempty := hnext n\<rparr>) free (ch(b := a # ch b))"
      by (rule linked_upd [OF assms(1) tb(1) b(1), where M = "{a}"])
        (use b(1) d n(3) chb ab [OF b(1)] linkedD(2) [OF assms(1) tb(1) b(1)] in \<open>auto simp: update_conv' chain_update\<close>)
    then show ?thesis unfolding fits_def [symmetric] using True E n(2) by (auto simp: entry_of_def update_conv' N_def)
  next
    case False
    let ?vs' = "AList.update a (cleared\<lparr>hnext := hnext n\<rparr>) (AList.update a N ?vs)"
    have "linked (c\<lparr>hashtable := Some tb, hashvalues := ?vs', hashempty := Some a\<rparr>) (a # free) (ch(b := ch b))"
      by (rule linked_upd [OF assms(1) tb(1) b(1), where M = "{a}"])
        (use d n(3) chb ab [OF b(1)] linkedD(2) [OF assms(1) tb(1) b(1)] in \<open>auto simp: update_conv' chain_update\<close>)
    then show ?thesis unfolding fits_def [symmetric] same_table [OF tb(1)] using False E n(2) tb(1) by (auto simp: entry_of_def update_conv')
  qed
qed

lemma hashadd_refines:
  assumes "holds c A"
  shows "\<exists>c'. hashadd (Some name) v ex c = Ok c' \<and> hashsize c' = hashsize c \<and> holds c' (abs_add (place (hashsize c) (nametohash name)) (nametohash name, v, ex) A)"
proof -
  let ?h = "nametohash name" and ?b = "place (hashsize c) (nametohash name)"
  obtain free ch where l: "linked c free ch" "unused A = length free" "\<forall>b < nat (hashsize c div 4). places A b = map (entry_of (hashvalues c)) (ch b)"
    using assms unfolding holds_def by blast
  obtain tb where tb: "hashtable c = Some tb" "length tb = nat (hashsize c div 4)" "4 \<le> hashsize c" using linked_table [OF l(1)] by auto
  have b: "?b < length tb" using hashindex_place [OF tb(3)] tb(2) by simp
  show ?thesis
  proof (cases free)
    case Nil
    then have "hashempty c = None" using l(1) by (simp add: linked_def)
    then show ?thesis using assms l(2) Nil by (simp add: hashadd_def hashadd_check_def abs_add_def)
  next
    case (Cons a free1)
    show ?thesis
    proof (cases "v = 0")
      case True
      then show ?thesis using assms by (simp add: hashadd_def hashadd_check_def abs_add_def)
    next
      case False
      have "hashempty c = Some a" using l(1) Cons by (simp add: linked_def)
      then have E: "hashadd (Some name) v ex c = hashadd_locked name v ex c" using False tb(1) by (simp add: hashadd_def hashadd_check_def)
      define fits where "fits \<longleftrightarrow> ch ?b = [] \<or> fst (entry_of (hashvalues c) (hd (ch ?b))) = ?h"
      obtain c' where c': "hashadd_locked name v ex c = Ok c'" "hashsize c' = hashsize c" "\<forall>x. x \<noteq> a \<longrightarrow> entry_of (hashvalues c') x = entry_of (hashvalues c) x"
          "if fits then linked c' free1 (ch(?b := a # ch ?b)) \<and> entry_of (hashvalues c') a = (?h, v, ex) else linked c' (a # free1) ch"
        using hashadd_locked_ok [OF l(1) [unfolded Cons] refl] unfolding fits_def by blast
      have ab: "entry_of (hashvalues c') x = entry_of (hashvalues c) x" if "x \<in> set (ch b')" "b' < length tb" for x b'
        using c'(3) linkedD(2) [OF l(1) tb(1) that(2)] that(1) Cons by auto
      have pl: "places A b' = map (entry_of (hashvalues c')) (ch b')" if "b' < length tb" for b' using l(3) ab that tb(2) by simp
      have f: "fits \<longleftrightarrow> places A ?b = [] \<or> fst (hd (places A ?b)) = ?h" using l(3) b tb(2) by (cases "ch ?b") (auto simp: fits_def)
      have "holds c' (abs_add ?b (?h, v, ex) A)"
      proof (cases fits)
        case True
        then show ?thesis using c' f False l(2) Cons pl tb(2) b unfolding holds_def abs_add_def
          by (intro exI [of _ free1] exI [of _ "ch(?b := a # ch ?b)"]) auto
      next
        case nf: False
        then show ?thesis using c' f l(2) Cons pl tb(2) unfolding holds_def abs_add_def
          by (intro exI [of _ free] exI [of _ ch]) auto
      qed
      then show ?thesis using E c'(1,2) by simp
    qed
  qed
qed

text \<open>The array is linked in order.\<close>

lemma init_chain:
  assumes "\<And>i. i < n \<Longrightarrow> \<exists>x. map_of h i = Some x \<and> hnext x = (if i + 1 < n then Some (i + 1) else None)"
  shows "chain hnext h (if m < n then Some m else None) [m..<n]"
proof (induction "n - m" arbitrary: m)
  case (Suc k)
  then have m: "m < n" by simp
  obtain x where x: "map_of h m = Some x" "hnext x = (if m + 1 < n then Some (m + 1) else None)" using assms [OF m] by blast
  moreover have "[m..<n] = m # [m + 1..<n]" using m by (simp add: upt_conv_Cons)
  moreover have "k = n - (m + 1)" using Suc.hyps(2) by simp
  ultimately show ?case using Suc.hyps(1) [of "m + 1"] m by simp
qed simp

lemma init_holds:
  assumes "inithashtable True True n c = (0, c')"
  shows "4 \<le> n \<and> hashsize c' = n \<and> holds c' \<lparr>places = (\<lambda>_. []), unused = nat n\<rparr>"
proof -
  define f where "f i = cleared\<lparr>hnext := if i + 1 < nat n then Some (i + 1) else None\<rparr>" for i
  have n: "4 \<le> n" and c: "c' = \<lparr>hashtable = Some (replicate (nat (n div 4)) None), hashvalues = map (\<lambda>i. (i, f i)) [0..<nat n], hashempty = Some 0, hashsize = n\<rparr>"
    using assms by (auto simp: inithashtable_def Let_def f_def split: if_splits)
  have "map_of (map (\<lambda>i. (i, f i)) [0..<nat n]) i = Some (f i)" if "i < nat n" for i using that by (simp add: map_of_map_restrict)
  then have "chain hnext (hashvalues c') (hashempty c') [0..<nat n]" using n init_chain [of "nat n" "hashvalues c'" 0] by (auto simp: c f_def)
  then have "linked c' [0..<nat n] (\<lambda>_. [])" using n unfolding linked_def by (simp add: c)
  moreover have "hashsize c' = n" by (simp add: c)
  ultimately show ?thesis using n unfolding holds_def by (intro conjI exI [of _ "[0..<nat n]"] exI [of _ "\<lambda>_. []"]) simp_all
qed

section \<open>Runs\<close>

datatype cache_op = Add cstring int int | Resolve cstring int

text \<open>The addresses that a sequence of calls gives.\<close>

primrec run_cache :: "cache_op list \<Rightarrow> dns_cache \<Rightarrow> int list res" where
  "run_cache [] c = Ok []"
| "run_cache (x # xs) c =
     (case x of
        Add name v ex \<Rightarrow> bindR (hashadd (Some name) v ex c) (run_cache xs)
      | Resolve name t \<Rightarrow> bindR (hashresolv (Some name) t c) (\<lambda>(v, _, c). bindR (run_cache xs c) (\<lambda>vs. Ok (v # vs))))"

primrec abs_run :: "int \<Rightarrow> cache_op list \<Rightarrow> abs_cache \<Rightarrow> int list" where
  "abs_run n [] A = []"
| "abs_run n (x # xs) A =
     (case x of
        Add name v ex \<Rightarrow> abs_run n xs (abs_add (place n (nametohash name)) (nametohash name, v, ex) A)
      | Resolve name t \<Rightarrow>
          let b = place n (nametohash name); (r, left) = abs_find t (nametohash name) (places A b) in
          (case r of None \<Rightarrow> 0 | Some x \<Rightarrow> fst (snd x)) #
            abs_run n xs \<lparr>places = (places A)(b := left), unused = unused A + length (places A b) - length left\<rparr>)"

lemma run_refines: "holds c A \<Longrightarrow> run_cache xs c = Ok (abs_run (hashsize c) xs A)"
proof (induction xs arbitrary: c A)
  case (Cons x xs)
  show ?case
  proof (cases x)
    case (Add name v ex)
    obtain c' where c': "hashadd (Some name) v ex c = Ok c'" "hashsize c' = hashsize c"
        "holds c' (abs_add (place (hashsize c) (nametohash name)) (nametohash name, v, ex) A)"
      using hashadd_refines [OF Cons.prems] by blast
    then show ?thesis using Add Cons.IH [OF c'(3)] by simp
  next
    case (Resolve name t)
    let ?b = "place (hashsize c) (nametohash name)"
    let ?f = "abs_find t (nametohash name) (places A ?b)"
    let ?A = "\<lparr>places = (places A)(?b := snd ?f), unused = unused A + length (places A ?b) - length (snd ?f)\<rparr>"
    obtain c' where c': "hashresolv (Some name) t c = Ok (case fst ?f of None \<Rightarrow> (0, None, c') | Some x \<Rightarrow> (fst (snd x), Some ((snd (snd x) - t) mod 2 ^ 32), c'))"
        "hashsize c' = hashsize c" "holds c' ?A"
      using hashresolv_refines [OF Cons.prems, where name = name and t = t] by blast
    note IH = Cons.IH [OF c'(3), unfolded c'(2)]
    show ?thesis
    proof (cases "fst ?f")
      case None
      then show ?thesis using Resolve c'(1) IH by (simp add: Let_def split_beta)
    next
      case (Some y)
      then show ?thesis using Resolve c'(1) IH by (simp add: Let_def split_beta)
    qed
  qed
qed simp

text \<open>C14: After \<open>inithashtable\<close>, every sequence of \<open>hashadd\<close> and \<open>hashresolv\<close> runs without a fault and gives the addresses that the abstract cache gives.\<close>

theorem cache_refines:
  assumes "inithashtable True True n c0 = (0, c)"
  shows "run_cache xs c = Ok (abs_run n xs \<lparr>places = (\<lambda>_. []), unused = nat n\<rparr>)"
  using run_refines init_holds [OF assms] by auto

definition empty_cache :: dns_cache where
  "empty_cache = \<lparr>hashtable = None, hashvalues = [], hashempty = None, hashsize = 0\<rparr>"

definition cache8 :: dns_cache where
  "cache8 = snd (inithashtable True True 8 empty_cache)"

lemma init_cache8: "inithashtable True True 8 empty_cache = (0, cache8)"
  by (simp add: cache8_def inithashtable_def Let_def)

theorem cache_refines_witness:
  "run_cache [Add [97] 5 100, Resolve [65] 50, Resolve [97] 101, Resolve [97] 50] cache8 = Ok [5, 0, 0]"
  unfolding cache_refines [OF init_cache8] by code_simp

section \<open>Names\<close>

definition takes :: "dns_cache \<Rightarrow> abs_cache \<Rightarrow> byte list \<Rightarrow> bool" where
  "takes c A h \<longleftrightarrow> unused A \<noteq> 0 \<and> (places A (place (hashsize c) h) = [] \<or> fst (hd (places A (place (hashsize c) h))) = h)"

lemma found_by_hash:
  assumes "holds c A" and "takes c A (nametohash name)" and "v \<noteq> 0" and "\<not> earlier ex t" and "nametohash name' = nametohash name"
  shows "\<exists>c1 c2. hashadd (Some name) v ex c = Ok c1 \<and> hashresolv (Some name') t c1 = Ok (v, Some ((ex - t) mod 2 ^ 32), c2)"
proof -
  let ?h = "nametohash name" and ?b = "place (hashsize c) (nametohash name)"
  have A: "places (abs_add ?b (?h, v, ex) A) ?b = (?h, v, ex) # places A ?b" using assms(2,3) by (simp add: abs_add_def takes_def)
  obtain c1 where c1: "hashadd (Some name) v ex c = Ok c1" "hashsize c1 = hashsize c" "holds c1 (abs_add ?b (?h, v, ex) A)" using hashadd_refines [OF assms(1)] by blast
  have f: "fst (abs_find t ?h (places (abs_add ?b (?h, v, ex) A) ?b)) = Some (?h, v, ex)" using A assms(4) by simp
  show ?thesis using c1(1) hashresolv_refines [OF c1(3), where name = name' and t = t] unfolding c1(2) assms(5) f by auto
qed

lemma name_loop_cong: "map hash_char a = map hash_char b \<Longrightarrow> name_loop a h i = name_loop b h i"
proof (induction a arbitrary: b h i)
  case (Cons x a)
  then obtain y b' where b: "b = y # b'" "hash_char x = hash_char y" "map hash_char a = map hash_char b'" by (cases b) simp_all
  show ?case unfolding b(1) name_loop.simps b(2) by (rule Cons.IH [OF b(3)])
qed simp

text \<open>A name that is added while there are unused entries, to a place that is empty or has entries with its hash, is resolved to the new address until
  it expires, with the time that is left; the case of its letters does not matter.\<close>

theorem resolv_after_add:
  assumes "holds c A" and "takes c A (nametohash name)" and "v \<noteq> 0" and "\<not> earlier ex t" and "map hash_char name' = map hash_char name"
  shows "\<exists>c1 c2. hashadd (Some name) v ex c = Ok c1 \<and> hashresolv (Some name') t c1 = Ok (v, Some ((ex - t) mod 2 ^ 32), c2)"
  using found_by_hash [OF assms(1-4)] name_loop_cong [OF assms(5)] unfolding nametohash_def by blast

lemma holds8: "holds cache8 \<lparr>places = (\<lambda>_. []), unused = 8\<rparr>"
  using init_holds [OF init_cache8] by simp

theorem resolv_after_add_witness:
  "\<exists>c1 c2. hashadd (Some [97]) 5 100 cache8 = Ok c1 \<and> hashresolv (Some [65]) 40 c1 = Ok (5, Some 60, c2)"
  using resolv_after_add [OF holds8, of "[97]" 5 100 40 "[65]"] by (simp add: takes_def earlier_def hash_char_def)

text \<open>What a resolver relies on: a name that the cache accepts can be stored and is then found until it expires.\<close>

locale name_store =
  fixes put_name :: "cstring option \<Rightarrow> int \<Rightarrow> int \<Rightarrow> 'c \<Rightarrow> 'c res"
    and get_name :: "cstring option \<Rightarrow> int \<Rightarrow> 'c \<Rightarrow> (int \<times> int option \<times> 'c) res"
    and accepts :: "'c \<Rightarrow> cstring \<Rightarrow> bool"
  assumes put_total: "accepts c name \<Longrightarrow> \<exists>c'. put_name (Some name) v ex c = Ok c'"
    and put_get: "accepts c name \<Longrightarrow> v \<noteq> 0 \<Longrightarrow> put_name (Some name) v ex c = Ok c' \<Longrightarrow> \<not> earlier ex t \<Longrightarrow>
      \<exists>c''. get_name (Some name) t c' = Ok (v, Some ((ex - t) mod 2 ^ 32), c'')"
begin

text \<open>A lookup with a way to ask for what is not there.\<close>

lemma lookup_stored:
  assumes "accepts c name" and "v \<noteq> 0" and "put_name (Some name) v ex c = Ok c'" and "\<not> earlier ex t"
  shows "\<exists>left c''. get_name (Some name) t c' = Ok (v, left, c'') \<and>
    (\<forall>ask. bindR (get_name (Some name) t c') (\<lambda>(v, _, c). if v \<noteq> 0 then Ok (v, c) else ask c) = Ok (v, c''))"
  using put_get [OF assms] assms(2) by auto

lemma store_lookup:
  assumes "accepts c name" and "v \<noteq> 0" and "\<not> earlier ex t"
  shows "\<exists>c' c''. put_name (Some name) v ex c = Ok c' \<and> get_name (Some name) t c' = Ok (v, Some ((ex - t) mod 2 ^ 32), c'')"
proof -
  obtain c' where c': "put_name (Some name) v ex c = Ok c'" using put_total [OF assms(1)] by blast
  then show ?thesis using put_get [OF assms(1,2) c' assms(3)] by blast
qed

end

definition accepts_name :: "dns_cache \<Rightarrow> cstring \<Rightarrow> bool" where
  "accepts_name c name \<longleftrightarrow> (\<exists>A. holds c A \<and> takes c A (nametohash name))"

interpretation nc: name_store hashadd hashresolv accepts_name
proof
  fix c name v ex assume "accepts_name c name"
  then obtain A where "holds c A" unfolding accepts_name_def by blast
  then show "\<exists>c'. hashadd (Some name) v ex c = Ok c'" using hashadd_refines by blast
next
  fix c name v ex c' t
  assume a: "accepts_name c name" "v \<noteq> 0" "hashadd (Some name) v ex c = Ok c'" "\<not> earlier ex t"
  then obtain A where "holds c A" "takes c A (nametohash name)" unfolding accepts_name_def by blast
  from found_by_hash [OF this a(2,4) refl] show "\<exists>c''. hashresolv (Some name) t c' = Ok (v, Some ((ex - t) mod 2 ^ 32), c'')" using a(3) by auto
qed

text \<open>The hash is the sum of the characters of every eighth position.\<close>

definition succ8 :: "nat \<Rightarrow> nat" where
  "succ8 i = (if i + 1 = 8 then 0 else i + 1)"

primrec column :: "cstring \<Rightarrow> nat \<Rightarrow> nat \<Rightarrow> byte" where
  "column [] i k = 0"
| "column (c # cs) i k = (if i = k then hash_char c else 0) + column cs (succ8 i) k"

lemma name_loop_columns: "length h = 8 \<Longrightarrow> i < 8 \<Longrightarrow> length (name_loop cs h i) = 8 \<and> (\<forall>k < 8. name_loop cs h i ! k = h ! k + column cs i k)"
proof (induction cs arbitrary: h i)
  case (Cons c cs)
  have i: "succ8 i < 8" using Cons.prems(2) by (simp add: succ8_def)
  have "name_loop (c # cs) h i = name_loop cs (h[i := h ! i + hash_char c]) (succ8 i)" by (simp add: succ8_def)
  then show ?case using Cons.IH [of "h[i := h ! i + hash_char c]" "succ8 i"] Cons.prems i by (auto simp: nth_list_update add.assoc)
qed simp

lemma same_columns:
  assumes "\<And>k. column a 0 k = column b 0 k"
  shows "nametohash a = nametohash b"
proof (rule nth_equalityI)
  note h = name_loop_columns [of "replicate 8 0" 0]
  show l: "length (nametohash a) = length (nametohash b)" using h [of a] h [of b] by (simp add: nametohash_def)
  show "nametohash a ! k = nametohash b ! k" if "k < length (nametohash a)" for k
    using h [of a] h [of b] that assms [of k] by (simp add: nametohash_def)
qed

lemma column_append: "column (as @ bs) i k = column as i k + column bs ((succ8 ^^ length as) i) k"
  by (induction as arbitrary: i) (simp_all add: funpow_swap1 add.assoc)

lemma succ8_cycle: "i < 8 \<Longrightarrow> (succ8 ^^ 7) (succ8 i) = i"
  by (auto simp: succ8_def numeral_eq_Suc less_Suc_eq)

lemma succ8_less: "i < 8 \<Longrightarrow> (succ8 ^^ n) i < 8"
  by (induction n) (simp_all add: succ8_def)

text \<open>C36: Exchanging two characters that are eight positions apart gives a name with the same hash, and the cache resolves it to the address of the other
  name: any host can be taken for another one.\<close>

theorem names_collide:
  assumes "holds c A" and "takes c A (nametohash (us @ x # ws @ y # vs))" and "v \<noteq> 0" and "\<not> earlier ex t" and "length ws = 7"
  shows "\<exists>c1 c2. hashadd (Some (us @ x # ws @ y # vs)) v ex c = Ok c1 \<and> hashresolv (Some (us @ y # ws @ x # vs)) t c1 = Ok (v, Some ((ex - t) mod 2 ^ 32), c2)"
proof (rule found_by_hash [OF assms(1-4)])
  have "(succ8 ^^ 7) (succ8 ((succ8 ^^ length us) 0)) = (succ8 ^^ length us) 0" by (rule succ8_cycle) (simp add: succ8_less)
  then show "nametohash (us @ y # ws @ x # vs) = nametohash (us @ x # ws @ y # vs)"
    using assms(5) by (intro same_columns) (simp add: column_append)
qed

theorem names_collide_witness:
  "\<exists>c1 c2. hashadd (Some (bytes_of ''ab.example.com'')) 5 100 cache8 = Ok c1 \<and> hashresolv (Some (bytes_of ''lb.exampae.com'')) 40 c1 = Ok (5, Some 60, c2)"
  using names_collide [OF holds8, of "[]" 97 "bytes_of ''b.examp''" 108 "bytes_of ''e.com''" 5 100 40]
  by (simp add: takes_def earlier_def bytes_of_def)

section \<open>Concurrent additions\<close>

text \<open>C37: With one unused entry, two threads may both pass the check of \<open>hashadd\<close>; the first to take the lock uses the entry, and the other
  then follows the null pointer.\<close>

theorem hashadd_race:
  assumes "holds c A" and "takes c A (nametohash name)" and "unused A = 1" and "v \<noteq> 0" and "v' \<noteq> 0"
  shows "hashadd_check (Some name) v c \<and> hashadd_check (Some name') v' c \<and>
    (\<exists>c1. hashadd_locked name v ex c = Ok c1 \<and> hashadd_locked name' v' ex' c1 = Fault Null_pointer)"
proof -
  obtain free ch where l: "linked c free ch" "length free = 1" using assms(1,3) unfolding holds_def by auto
  then have k: "hashadd_check (Some name) v c" "hashadd_check (Some name') v' c"
    using assms(4,5) linked_table [OF l(1)] by (cases free; auto simp: hashadd_check_def linked_def)+
  obtain c1 where c1: "hashadd (Some name) v ex c = Ok c1" "holds c1 (abs_add (place (hashsize c) (nametohash name)) (nametohash name, v, ex) A)"
    using hashadd_refines [OF assms(1)] by blast
  have "unused (abs_add (place (hashsize c) (nametohash name)) (nametohash name, v, ex) A) = 0" using assms(2-4) by (simp add: abs_add_def takes_def)
  then have "hashempty c1 = None" using c1(2) unfolding holds_def by (auto simp: linked_def)
  then have "hashadd_locked name' v' ex' c1 = Fault Null_pointer" by (simp add: hashadd_locked_def Let_def)
  moreover have "hashadd_locked name v ex c = Ok c1" using c1(1) k(1) by (simp add: hashadd_def)
  ultimately show ?thesis using k by blast
qed

lemma add_same:
  assumes "holds c A" and "takes c A (nametohash name)" and "v \<noteq> 0" and "2 \<le> unused A"
  shows "\<exists>c' A'. hashadd (Some name) v ex c = Ok c' \<and> holds c' A' \<and> takes c' A' (nametohash name) \<and> unused A' = unused A - 1"
proof -
  let ?A = "abs_add (place (hashsize c) (nametohash name)) (nametohash name, v, ex) A"
  obtain c' where "hashadd (Some name) v ex c = Ok c'" "hashsize c' = hashsize c" "holds c' ?A" using hashadd_refines [OF assms(1)] by blast
  moreover have "takes c ?A (nametohash name)" "unused ?A = unused A - 1" using assms(2-4) by (auto simp: takes_def abs_add_def)
  ultimately show ?thesis unfolding takes_def by metis
qed

theorem hashadd_race_witness:
  "\<exists>c. hashadd_check (Some [97]) 5 c \<and> hashadd_check (Some [98]) 6 c \<and> (\<exists>c1. hashadd_locked [97] 5 100 c = Ok c1 \<and> hashadd_locked [98] 6 100 c1 = Fault Null_pointer)"
proof -
  have "holds (snd (inithashtable True True 4 empty_cache)) \<lparr>places = (\<lambda>_. []), unused = 4\<rparr>"
    using init_holds [of 4 empty_cache] by (simp add: inithashtable_def Let_def)
  moreover have "takes (snd (inithashtable True True 4 empty_cache)) \<lparr>places = (\<lambda>_. []), unused = 4\<rparr> (nametohash [97])" by (simp add: takes_def)
  ultimately obtain c1 A1 where 1: "holds c1 A1" "takes c1 A1 (nametohash [97])" "unused A1 = 3" using add_same [where v = 5] by force
  then obtain c2 A2 where 2: "holds c2 A2" "takes c2 A2 (nametohash [97])" "unused A2 = 2" using add_same [OF 1(1,2), of 5 100] by auto
  then obtain c3 A3 where 3: "holds c3 A3" "takes c3 A3 (nametohash [97])" "unused A3 = 1" using add_same [OF 2(1,2), of 5 100] by auto
  show ?thesis using hashadd_race [OF 3, of 5 6 "[98]" 100 100] by auto
qed

end
