(* ===== verification/Proxy_Resolver.thy ===== *)
theory Proxy_Resolver
  imports Proxy_Dns Proxy_Names
begin

text \<open>
  What the resolver of 3proxy promises: questions have the format of the protocol, the answers of a server cannot make it leave the buffer where \<open>unsigned long\<close>
  has four bytes, but where it has eight, and what was resolved is remembered.
\<close>

section \<open>Questions\<close>

primrec split_dots :: "cstring \<Rightarrow> cstring list" where
  "split_dots [] = [[]]"
| "split_dots (c # cs) = (if c = 46 then [] # split_dots cs else (c # hd (split_dots cs)) # tl (split_dots cs))"

definition encode_labels :: "cstring \<Rightarrow> byte list" where
  "encode_labels name = concat (map (\<lambda>l. word_of_nat (length l) # l) (split_dots name))"

lemma split_plain: "46 \<notin> set r \<Longrightarrow> split_dots r = [r]"
  by (induction r) auto

lemma split_first: "46 \<notin> set l \<Longrightarrow> split_dots (l @ 46 # r) = l # split_dots r"
  by (induction l) auto

lemma find_dot_name:
  assumes "0 \<notin> set r" and "int (length pre) = i"
  shows "find_dot (pre @ r @ 0 # t) i = (if 46 \<in> set r then Some (i + int (length (takeWhile (\<lambda>c. c \<noteq> 46) r))) else None)"
proof -
  have "takeWhile (\<lambda>c. c \<noteq> 0) (r @ 0 # t) = r" using assms(1) by (induction r) auto
  moreover have "length (takeWhile (\<lambda>c. c \<noteq> 46) r) < length r \<longleftrightarrow> 46 \<in> set r" by (induction r) auto
  moreover have "drop (nat i) (pre @ r @ 0 # t) = r @ 0 # t" using assms(2) by auto
  ultimately show ?thesis by (simp add: find_dot_def Let_def)
qed

lemma wr_between: "int (length pre) = i \<Longrightarrow> wr (pre @ x # t) i y = Ok (pre @ y # t)"
  by (auto simp: wr_def)

lemma label_loop_ok:
  assumes "0 \<notin> set r" and "length r < k"
  shows "\<exists>b s2. label_loop k (pre @ x # r @ 0 # t) (int (length pre)) = Ok (b, s2) \<and>
    wr b s2 (word_of_int (int (length pre) + int (length r) - s2)) = Ok (pre @ encode_labels r @ 0 # t)"
  using assms
proof (induction k arbitrary: pre x r)
  case (Suc k)
  have f: "find_dot (pre @ x # r @ 0 # t) (int (length pre) + 1) =
      (if 46 \<in> set r then Some (int (length pre) + 1 + int (length (takeWhile (\<lambda>c. c \<noteq> 46) r))) else None)"
    using find_dot_name [of r "pre @ [x]" "int (length pre) + 1" t] Suc.prems(1) by simp
  show ?case
  proof (cases "46 \<in> set r")
    case False
    then show ?thesis using f by (simp add: wr_between encode_labels_def split_plain)
  next
    case True
    then obtain l r' where r: "r = l @ 46 # r'" "46 \<notin> set l" by (meson split_list_first)
    have l: "takeWhile (\<lambda>c. c \<noteq> 46) r = l" using r by (induction l arbitrary: r) auto
    let ?pre = "pre @ word_of_nat (length l) # l"
    have "label_loop (Suc k) (pre @ x # r @ 0 # t) (int (length pre)) = label_loop k (?pre @ 46 # r' @ 0 # t) (int (length ?pre))"
      using f True l r(1) by (simp add: wr_between add.commute add.left_commute)
    moreover have "\<exists>b s2. label_loop k (?pre @ 46 # r' @ 0 # t) (int (length ?pre)) = Ok (b, s2) \<and>
        wr b s2 (word_of_int (int (length ?pre) + int (length r') - s2)) = Ok (?pre @ encode_labels r' @ 0 # t)"
      by (rule Suc.IH) (use Suc.prems r(1) in auto)
    moreover have "int (length ?pre) + int (length r') = int (length pre) + int (length r)" using r(1) by simp
    moreover have "?pre @ encode_labels r' @ 0 # t = pre @ encode_labels r @ 0 # t" using r by (simp add: encode_labels_def split_first)
    ultimately show ?thesis by metis
  qed
qed simp

lemma split_length: "length (encode_labels name) = Suc (length name)"
proof -
  have "sum_list (map (\<lambda>l. Suc (length l)) (split_dots name)) = Suc (length name) \<and> split_dots name \<noteq> []" for name
    by (induction name) (auto simp: neq_Nil_conv)
  then show ?thesis by (simp add: encode_labels_def length_concat comp_def)
qed

lemma split_at: "k \<le> length xs \<Longrightarrow> \<exists>a c. xs = a @ c \<and> length a = k \<and> length c = length xs - k"
  by (rule exI [of _ "take k xs"], rule exI [of _ "drop k xs"]) simp

lemma wr_block_mid: "int (length p) = i \<Longrightarrow> length m = length v \<Longrightarrow> wr_block (p @ m @ s) i v = Ok (p @ v @ s)"
  by (auto simp: wr_block_def)

text \<open>C24: A question is what the protocol wants: the header with its number and one question, the parts of the name, each with its length in front, a
  zero, and the type and class of an address.\<close>

theorem query_encodes:
  assumes "length b = 4096" and "0 \<notin> set name" and "length name \<le> 255"
  shows "\<exists>rest. dns_query q name b =
    Ok ([word_of_int q, word_of_int (q div 256), 1, 0, 0, 1, 0, 0, 0, 0, 0, 0] @ encode_labels name @ [0, 0, 1, 0, 1] @ rest, int (length name) + 18)"
proof -
  define H :: "byte list" where "H = [word_of_int q, word_of_int (q div 256), 1, 0, 0, 1, 0, 0, 0, 0, 0, 0]"
  let ?n = "int (length name)"
  have H: "length H = 12" by (simp add: H_def)
  obtain b0 b1 where b0: "b = b0 @ b1" "length b0 = 12" "length b1 = 4084" using split_at [of 12 b] assms(1) by auto
  obtain x b2 where b1: "b1 = x # b2" "length b2 = 4083" using b0(3) by (cases b1) auto
  obtain m b3 where b2: "b2 = m @ b3" "length m = length name" "length b3 = 4083 - length name" using split_at [of "length name" b2] b1(2) assms(3) by auto
  obtain z b4 where b3: "b3 = z # b4" "length b4 = 4082 - length name" using b2(3) assms(3) by (cases b3) auto
  have "4 \<le> length b4" using b3(2) assms(3) by simp
  then obtain u rest where b4: "b4 = u @ rest" "length u = 4" using split_at by blast
  have 1: "wr_block b 0 H = Ok (H @ x # m @ z # b4)" using wr_block_mid [of "[]" 0 b0 H] b0 b1(1) b2(1) b3(1) H by simp
  have 2: "wr_block (H @ x # m @ z # b4) 13 name = Ok (H @ x # name @ z # b4)" using wr_block_mid [of "H @ [x]" 13 m name "z # b4"] b2(2) H by simp
  have 3: "wr (H @ x # name @ z # b4) (?n + 13) 0 = Ok (H @ x # name @ 0 # b4)" using wr_between [of "H @ x # name" "?n + 13" z b4 0] H by simp
  have l: "length name < nat (?n + 13)" by linarith
  obtain c s2 where 4: "label_loop (nat (?n + 13)) (H @ x # name @ 0 # b4) 12 = Ok (c, s2)" "wr c s2 (word_of_int (12 + ?n - s2)) = Ok (H @ encode_labels name @ 0 # b4)"
    using label_loop_ok [OF assms(2) l, of H x b4] H by auto
  have 5: "wr_block (H @ encode_labels name @ 0 # b4) (?n + 14) [0, 1, 0, 1] = Ok (H @ encode_labels name @ [0, 0, 1, 0, 1] @ rest)"
    using wr_block_mid [of "H @ encode_labels name @ [0]" "?n + 14" u "[0, 1, 0, 1]" rest] b4 H by (simp add: split_length)
  have e: "min ?n 255 = ?n" "take (nat ?n) name = name" "?n + 13 - s2 - 1 = 12 + ?n - s2" "?n + 13 + 1 = ?n + 14" "?n + 13 + 5 = ?n + 18" using assms(3) by simp_all
  have "dns_query q name b = Ok (H @ encode_labels name @ [0, 0, 1, 0, 1] @ rest, ?n + 18)"
    unfolding dns_query_def Let_def H_def [symmetric] by (simp only: e 1 2 3 4 5 bindR.simps prod.case)
  then show ?thesis unfolding H_def by blast
qed

theorem query_encodes_witness:
  "\<exists>rest. dns_query 7 (bytes_of ''a.bc'') (replicate 4096 0) = Ok ([7, 0, 1, 0, 0, 1, 0, 0, 0, 0, 0, 0, 1, 97, 2, 98, 99, 0, 0, 1, 0, 1] @ rest, 22)"
  using query_encodes [of "replicate 4096 0" "bytes_of ''a.bc''" 7] by (simp add: bytes_of_def encode_labels_def)

section \<open>Answers\<close>

lemma rd_in: "0 \<le> i \<Longrightarrow> i < int (length b) \<Longrightarrow> \<exists>x. rd b i = Ok x"
  by (simp add: rd_def)

lemma skip_name_ok: "len \<le> int (length b) \<Longrightarrow> 0 \<le> k \<Longrightarrow> k \<le> len \<Longrightarrow> \<exists>k'. skip_name b len k = Ok k' \<and> k \<le> k' \<and> k' \<le> len"
proof (induction b len k rule: skip_name.induct)
  case (1 b len k)
  show ?case
  proof (cases "k < len")
    case True
    then obtain c where c: "rd b k = Ok c" using rd_in [of k b] 1(2,3) by auto
    show ?thesis
    proof (cases "c = 0")
      case True
      then show ?thesis using c 1(4) by (subst skip_name.simps) auto
    next
      case False
      then obtain k' where "skip_name b len (k + 1) = Ok k'" "k + 1 \<le> k'" "k' \<le> len" using 1(1) [OF True c False] 1(2,3) True by auto
      then show ?thesis using c False True by (subst skip_name.simps) auto
    qed
  next
    case False
    then show ?thesis using 1(4) by (subst skip_name.simps) auto
  qed
qed

lemma load_long_ok: "0 \<le> i \<Longrightarrow> 0 \<le> ul \<Longrightarrow> i + ul \<le> int (length b) \<Longrightarrow> \<exists>v. load_long ul b i = Ok v"
  by (simp add: load_long_def rd_block_def)

lemma load_short_nonneg: "0 \<le> load_short hi lo"
  by (simp add: load_short_def)

lemma answer_loop_ok:
  assumes "len \<le> int (length b)" and "0 \<le> ul" and "ul \<le> 4"
  shows "0 \<le> k \<Longrightarrow> \<exists>a. answer_loop j ul b len k = Ok a"
proof (induction j arbitrary: k)
  case (Suc j)
  show ?case
  proof (cases "k + 16 > len")
    case False
    then have r: "\<exists>x. rd b (k + d) = Ok x" if "0 \<le> d" "d < 16" for d using rd_in [of "k + d" b] that Suc.prems assms(1) by auto
    obtain x2 x3 x10 x11 where x: "rd b (k + 2) = Ok x2" "rd b (k + 3) = Ok x3" "rd b (k + 10) = Ok x10" "rd b (k + 11) = Ok x11"
      using r [of 2] r [of 3] r [of 10] r [of 11] by auto
    obtain v w where l: "load_long ul b (k + 12) = Ok v" "load_long ul b (k + 6) = Ok w"
      using load_long_ok [of "k + 12" ul b] load_long_ok [of "k + 6" ul b] False Suc.prems assms by auto
    have "0 \<le> k + 12 + load_short x10 x11" using Suc.prems load_short_nonneg [of x10 x11] by simp
    then show ?thesis using x l Suc.IH False by (simp add: Let_def)
  qed simp
qed simp

text \<open>C26: Where \<open>unsigned long\<close> has four bytes, no answer, however malformed, makes the resolver read outside its buffer.\<close>

theorem answers_safe:
  assumes "length b = 4096" and "len \<le> 4096"
  shows "\<exists>a. parse_answer 4 q b len = Ok a"
proof (cases "len \<le> 13")
  case True
  then show ?thesis by (simp add: parse_answer_def)
next
  case False
  have r: "\<exists>x. rd b i = Ok x" if "0 \<le> i" "i < 8" for i using rd_in [of i b] that assms(1) by auto
  obtain x0 x1 x4 x5 x6 x7 where x: "rd b 0 = Ok x0" "rd b 1 = Ok x1" "rd b 4 = Ok x4" "rd b 5 = Ok x5" "rd b 6 = Ok x6" "rd b 7 = Ok x7"
    using r [of 0] r [of 1] r [of 4] r [of 5] r [of 6] r [of 7] by auto
  obtain k where k: "skip_name b len 13 = Ok k" "13 \<le> k" using skip_name_ok [of len b 13] False assms by auto
  have "\<exists>a. answer_loop j 4 b len (k + 1 + 4) = Ok a" for j using answer_loop_ok [of len b 4 "k + 1 + 4" j] k(2) assms by auto
  then show ?thesis using x k(1) by (simp add: parse_answer_def Let_def)
qed

theorem answers_safe_witness: "\<exists>a. parse_answer 4 513 (replicate 4096 7) 4096 = Ok a"
  by (rule answers_safe) simp_all

text \<open>Where \<open>unsigned long\<close> has eight bytes, an answer that fills the buffer and ends with an address makes the resolver read four bytes behind
  the buffer: only the four bytes of the address are checked.\<close>

theorem long_address_overread:
  assumes "length b = 4096" and "b ! 0 = word_of_int q" and "b ! 1 = word_of_int (q div 256)" and "0 \<le> q" and "q < 65536" and "b ! 4 = 0" and "b ! 5 = 1" and "b ! 6 = 0" and "b ! 7 = 2"
    and "b ! 13 = 0" and "b ! 20 = 1" and "b ! 28 = 15" and "b ! 29 = 210" and "b ! 4082 = 0" and "b ! 4083 = 1" and "b ! 4090 = 0" and "b ! 4091 = 4"
  shows "parse_answer 8 q b 4096 = Fault Out_of_bounds"
proof -
  have r: "rd b i = Ok (b ! nat i)" if "0 \<le> i" "i < 4096" for i using that assms(1) by (simp add: rd_def)
  have "skip_name b 4096 13 = Ok 13" using r [of 13] assms(10) by (subst skip_name.simps) simp
  moreover have "load_short (b ! 1) (b ! 0) = q" using assms(2-5) by (simp add: load_short_def uint_word_of_int)
  moreover have l: "load_short (b ! 28) (b ! 29) = 4050" "load_short (b ! 4090) (b ! 4091) = 4" using assms(12,13,16,17) by (simp_all add: load_short_def)
  have "answer_loop (Suc (Suc 0)) 8 b 4096 18 = Fault Out_of_bounds"
    using assms(1,11,14,15) l r by (simp add: Let_def load_long_def rd_block_def)
  then have "answer_loop 2 8 b 4096 18 = Fault Out_of_bounds" unfolding numeral_2_eq_2 .
  moreover have "load_short (b ! 6) (b ! 7) = 2" "load_short (b ! 4) (b ! 5) = 1" using assms(6-9) by (simp_all add: load_short_def)
  ultimately show ?thesis using r by (simp add: parse_answer_def Let_def del: answer_loop.simps)
qed

definition long_packet :: "byte list" where
  "long_packet = (replicate 4096 0)[0 := 7, 5 := 1, 7 := 2, 20 := 1, 28 := 15, 29 := 210, 4083 := 1, 4091 := 4]"

theorem long_address_overread_witness: "parse_answer 8 7 long_packet 4096 = Fault Out_of_bounds"
  by (rule long_address_overread) (simp_all add: long_packet_def nth_list_update)

section \<open>Remembering\<close>

lemma dns_ttl_least: "60 \<le> dns_ttl t ttl"
  by (simp add: dns_ttl_def)

lemma ask_servers_adds:
  "ask_servers k ul es name n c = Ok (v, c') \<Longrightarrow> v \<noteq> 0 \<Longrightarrow>
    \<exists>e \<in> set es. \<exists>ttl \<ge> 60. hashadd (Some name) v ((time_now e mod 2 ^ 32 + ttl) mod 2 ^ 32) c = Ok c'"
proof (induction es arbitrary: n)
  case (Cons e es)
  have o: "opened e" "bound e" using Cons.prems by (auto split: if_splits)
  obtain b len r n1 where q: "dns_query (query_id e) name (stack e) = Ok (b, len)" "socksendto k (sock_env e) SERVER b 0 len n = Ok (r, n1)"
    using Cons.prems(1) o by (auto simp: bindR_eq_Ok)
  show ?case
  proof (cases "r = len")
    case False
    then show ?thesis using Cons.IH [of n1] Cons.prems o q by auto
  next
    case True
    obtain len2 b2 n2 a where a: "sockrecvfrom k (sock_env e) SERVER b 4096 n1 = Ok (len2, b2, n2)" "parse_answer ul (query_id e) b2 len2 = Ok a"
      using Cons.prems(1) o q True by (auto simp: bindR_eq_Ok)
    show ?thesis
    proof (cases a)
      case Next_server
      then show ?thesis using Cons.IH [of n2] Cons.prems o q True a by auto
    next
      case No_address
      then show ?thesis using Cons.prems o q True a by simp
    next
      case (Address w ttl)
      then have "hashadd (Some name) v ((time_now e mod 2 ^ 32 + dns_ttl (time_now e) ttl) mod 2 ^ 32) c = Ok c'"
        using Cons.prems(1) o q True a dns_ttl_least [of "time_now e" ttl] by (auto simp: bindR_eq_Ok Let_def split: if_splits)
      then show ?thesis using dns_ttl_least by auto
    qed
  qed
qed simp

text \<open>An address that the resolver gets from a server is found in the cache, without asking again, for at least a minute, if the cache has place for it.\<close>

theorem resolver_remembers:
  assumes "accepts_name c name" and "ask_servers k ul es name n c = Ok (v, c')" and "v \<noteq> 0"
  shows "\<exists>e \<in> set es. \<exists>ttl \<ge> 60. \<forall>t. \<not> earlier ((time_now e mod 2 ^ 32 + ttl) mod 2 ^ 32) t \<longrightarrow>
    (\<exists>left c''. hashresolv (Some name) t c' = Ok (v, left, c'') \<and> (\<forall>es n. myresolver k ul t es name n c' = Ok (v, c'')))"
proof -
  obtain e ttl where e: "e \<in> set es" "60 \<le> ttl" "hashadd (Some name) v ((time_now e mod 2 ^ 32 + ttl) mod 2 ^ 32) c = Ok c'"
    using ask_servers_adds [OF assms(2,3)] by blast
  then show ?thesis using nc.lookup_stored [OF assms(1,3) e(3)] unfolding myresolver_def by meson
qed

end
